(* ===== verification/Prelude.thy ===== *)
theory Prelude
  imports Main "HOL-Library.Multiset"
begin

text \<open>
  Shared vocabulary of the VeXact development: the result type of Python code that may raise or
  block, ordered dictionaries, Python's integer helpers, and the list lemmas that several
  components use.

  \<^item> \<open>py_error\<close> names the exception classes of the source; messages are kept only where the
    program sends them to a peer (theory \<open>Control_Channel\<close>).
  \<^item> \<open>'a res\<close> is the outcome of a call: a value, an exception, or a call that blocks for ever.
  \<^item> an \<open>OrderedDict\<close> is an association list in insertion order.
\<close>

section \<open>Outcomes of Python calls\<close>

datatype py_error =
    ValueError
  | RuntimeError
  | AssertionError
  | IndexError
  | KeyError
  | TypeError
  | AttributeError
  | OverflowError
  | NotImplementedError
  | ImportError
  | TimeoutError
  | ZeroDivisionError
  | StopIteration
  | EOFError
  | NameError

datatype 'a res = Ok 'a | Raise py_error | Hang

fun rbind :: "'a res \<Rightarrow> ('a \<Rightarrow> 'b res) \<Rightarrow> 'b res" where
  "rbind (Ok x) f = f x"
| "rbind (Raise e) f = Raise e"
| "rbind Hang f = Hang"

lemma rbind_eq_Ok [simp]: "rbind m f = Ok y \<longleftrightarrow> (\<exists>x. m = Ok x \<and> f x = Ok y)"
  by (cases m) auto

lemma rbind_eq_Raise [simp]:
  "rbind m f = Raise e \<longleftrightarrow> m = Raise e \<or> (\<exists>x. m = Ok x \<and> f x = Raise e)"
  by (cases m) auto

lemma rbind_eq_Hang [simp]: "rbind m f = Hang \<longleftrightarrow> m = Hang \<or> (\<exists>x. m = Ok x \<and> f x = Hang)"
  by (cases m) auto

lemma rbind_assoc: "rbind (rbind m f) g = rbind m (\<lambda>x. rbind (f x) g)"
  by (cases m) auto

fun is_ok :: "'a res \<Rightarrow> bool" where
  "is_ok (Ok _) = True"
| "is_ok _ = False"

lemma is_ok_iff: "is_ok m \<longleftrightarrow> (\<exists>x. m = Ok x)"
  by (cases m) auto

text \<open>
  \<open>outcome P h m\<close>: the call \<open>m\<close> raises nothing, its value satisfies \<open>P\<close>, and it may block for ever
  only where \<open>h\<close> holds.
\<close>

definition outcome :: "('a \<Rightarrow> bool) \<Rightarrow> bool \<Rightarrow> 'a res \<Rightarrow> bool" where
  "outcome P h m = (case m of Ok x \<Rightarrow> P x | Raise _ \<Rightarrow> False | Hang \<Rightarrow> h)"

lemma outcome_simps [simp]:
  "outcome P h (Ok x) = P x"
  "outcome P h (Raise e) = False"
  "outcome P h Hang = h"
  by (simp_all add: outcome_def)

lemma outcome_bind:
  "outcome P h m \<Longrightarrow> (\<And>x. P x \<Longrightarrow> outcome Q h (f x)) \<Longrightarrow> outcome Q h (rbind m f)"
  by (cases m) auto

lemma outcome_mono: "outcome P h m \<Longrightarrow> (\<And>x. P x \<Longrightarrow> Q x) \<Longrightarrow> outcome Q h m"
  by (cases m) auto

lemma outcome_and:
  "outcome P h m \<Longrightarrow> (\<And>x. m = Ok x \<Longrightarrow> Q x) \<Longrightarrow> outcome (\<lambda>x. P x \<and> Q x) h m"
  by (cases m) auto

lemma outcome_weaken: "outcome P h m \<Longrightarrow> (h \<Longrightarrow> h') \<Longrightarrow> outcome P h' m"
  by (cases m) auto

lemma outcome_total: "outcome P False m \<longleftrightarrow> (\<exists>x. m = Ok x \<and> P x)"
  by (cases m) auto

lemma outcomeI:
  "(\<And>e. m \<noteq> Raise e) \<Longrightarrow> (m = Hang \<Longrightarrow> h) \<Longrightarrow> (\<And>x. m = Ok x \<Longrightarrow> P x) \<Longrightarrow> outcome P h m"
  by (cases m) auto

text \<open>A \<open>for\<close> loop whose body may raise: the state is threaded, the first exception ends it.\<close>

fun for_res :: "('a \<Rightarrow> 's \<Rightarrow> 's res) \<Rightarrow> 'a list \<Rightarrow> 's \<Rightarrow> 's res" where
  "for_res f [] s = Ok s"
| "for_res f (x # xs) s = rbind (f x s) (for_res f xs)"

lemma for_res_append: "for_res f (xs @ ys) s = rbind (for_res f xs s) (for_res f ys)"
proof (induction xs arbitrary: s)
  case Nil
  show ?case by simp
next
  case (Cons x xs)
  then have "for_res f (xs @ ys) = (\<lambda>s. rbind (for_res f xs s) (for_res f ys))" by blast
  then show ?case by (simp add: rbind_assoc)
qed

lemma for_res_invariant:
  assumes "P s"
    and "\<And>x s s'. x \<in> set xs \<Longrightarrow> P s \<Longrightarrow> f x s = Ok s' \<Longrightarrow> P s'"
    and "for_res f xs s = Ok t"
  shows "P t"
  using assms by (induction xs arbitrary: s) auto

lemma for_res_total:
  assumes "P s"
    and "\<And>x s. x \<in> set xs \<Longrightarrow> P s \<Longrightarrow> \<exists>s'. f x s = Ok s' \<and> P s'"
  shows "\<exists>t. for_res f xs s = Ok t \<and> P t"
  using assms
proof (induction xs arbitrary: s)
  case Nil
  then show ?case by simp
next
  case (Cons x xs)
  then obtain s' where "f x s = Ok s'" "P s'" by (metis list.set_intros(1))
  with Cons show ?case by simp
qed

text \<open>Mapping a function that may raise over a list, left to right.\<close>

fun map_res :: "('a \<Rightarrow> 'b res) \<Rightarrow> 'a list \<Rightarrow> 'b list res" where
  "map_res f [] = Ok []"
| "map_res f (x # xs) = rbind (f x) (\<lambda>y. rbind (map_res f xs) (\<lambda>ys. Ok (y # ys)))"

lemma map_res_all_Ok: "(\<And>x. x \<in> set xs \<Longrightarrow> f x = Ok (g x)) \<Longrightarrow> map_res f xs = Ok (map g xs)"
  by (induction xs) auto

lemma map_res_length: "map_res f xs = Ok ys \<Longrightarrow> length ys = length xs"
  by (induction xs arbitrary: ys) auto

lemma map_res_nth: "map_res f xs = Ok ys \<Longrightarrow> i < length xs \<Longrightarrow> f (xs ! i) = Ok (ys ! i)"
  by (induction xs arbitrary: ys i) (auto simp: nth_Cons split: nat.splits)

section \<open>Indexing as Python does it\<close>

definition py_get :: "'a list \<Rightarrow> int \<Rightarrow> 'a res" where
  "py_get xs i =
     (let n = int (length xs); j = (if i < 0 then n + i else i)
      in if 0 \<le> j \<and> j < n then Ok (xs ! nat j) else Raise IndexError)"

definition py_set :: "'a list \<Rightarrow> int \<Rightarrow> 'a \<Rightarrow> 'a list res" where
  "py_set xs i v =
     (let n = int (length xs); j = (if i < 0 then n + i else i)
      in if 0 \<le> j \<and> j < n then Ok (xs[nat j := v]) else Raise IndexError)"

lemma py_get_in_range: "0 \<le> i \<Longrightarrow> i < int (length xs) \<Longrightarrow> py_get xs i = Ok (xs ! nat i)"
  by (simp add: py_get_def)

lemma py_get_out_of_range: "int (length xs) \<le> i \<Longrightarrow> py_get xs i = Raise IndexError"
  by (simp add: py_get_def Let_def)

lemma py_set_in_range: "0 \<le> i \<Longrightarrow> i < int (length xs) \<Longrightarrow> py_set xs i v = Ok (xs[nat i := v])"
  by (simp add: py_set_def)

lemma py_get_last: "xs \<noteq> [] \<Longrightarrow> py_get xs (-1) = Ok (last xs)"
  by (cases xs rule: rev_cases) (auto simp: py_get_def nat_diff_distrib nth_append)

text \<open>\<open>range(a, b)\<close>, and the slice \<open>xs[a:b]\<close> with its bounds clamped to the list.\<close>

abbreviation py_range :: "int \<Rightarrow> int \<Rightarrow> int list" where
  "py_range a b \<equiv> [a..b - 1]"

definition py_bound :: "int \<Rightarrow> int \<Rightarrow> int" where
  "py_bound n k = (if k < 0 then max 0 (n + k) else min n k)"

definition py_slice :: "'a list \<Rightarrow> int \<Rightarrow> int \<Rightarrow> 'a list" where
  "py_slice xs a b =
     (let n = int (length xs) in drop (nat (py_bound n a)) (take (nat (py_bound n b)) xs))"

lemma py_slice_in_range:
  "0 \<le> a \<Longrightarrow> a \<le> b \<Longrightarrow> b \<le> int (length xs) \<Longrightarrow> py_slice xs a b = drop (nat a) (take (nat b) xs)"
  by (simp add: py_slice_def py_bound_def)

lemma length_py_slice:
  "0 \<le> a \<Longrightarrow> a \<le> b \<Longrightarrow> b \<le> int (length xs) \<Longrightarrow> length (py_slice xs a b) = nat (b - a)"
  by (auto simp: py_slice_in_range min_def)

lemma nth_py_slice:
  assumes "0 \<le> a" "b \<le> int (length xs)" "int i < b - a"
  shows "py_slice xs a b ! i = xs ! (nat a + i)"
proof -
  have "nat a + i < nat b" "a \<le> b" using assms by linarith+
  then show ?thesis using assms by (simp add: py_slice_in_range)
qed

section \<open>Ceiling division\<close>

definition ceil_div :: "int \<Rightarrow> int \<Rightarrow> int" where
  "ceil_div a b = (a + b - 1) div b"

lemma ceil_div_mult_ge: "0 < b \<Longrightarrow> a \<le> ceil_div a b * b"
proof -
  assume b: "0 < b"
  have "(a + b - 1) = (a + b - 1) div b * b + (a + b - 1) mod b" by simp
  moreover have "(a + b - 1) mod b < b" using b by simp
  ultimately show ?thesis unfolding ceil_div_def by linarith
qed

lemma ceil_div_mult_less: "0 < b \<Longrightarrow> (ceil_div a b - 1) * b < a"
proof -
  assume b: "0 < b"
  have "(a + b - 1) = (a + b - 1) div b * b + (a + b - 1) mod b" by simp
  moreover have "0 \<le> (a + b - 1) mod b" using b by simp
  ultimately have "(a + b - 1) div b * b \<le> a + b - 1" by linarith
  then show ?thesis unfolding ceil_div_def by (simp add: algebra_simps)
qed

lemma ceil_div_mono: "0 < b \<Longrightarrow> a \<le> a' \<Longrightarrow> ceil_div a b \<le> ceil_div a' b"
  unfolding ceil_div_def by (intro zdiv_mono1) auto

lemma ceil_div_Suc_le: "0 < b \<Longrightarrow> ceil_div (a + 1) b \<le> ceil_div a b + 1"
proof -
  assume b: "0 < b"
  have "ceil_div (a + 1) b \<le> ceil_div (a + b) b" using b by (intro ceil_div_mono) auto
  also have "ceil_div (a + b) b = ceil_div a b + 1"
  proof -
    have "a + b + b - 1 = (a + b - 1) + 1 * b" by simp
    then show ?thesis
      unfolding ceil_div_def using b by (metis div_mult_self1 less_irrefl add.commute)
  qed
  finally show ?thesis .
qed

lemma ceil_div_zero [simp]: "0 < b \<Longrightarrow> ceil_div 0 b = 0"
  by (simp add: ceil_div_def)

lemma ceil_div_nonneg: "0 < b \<Longrightarrow> 0 \<le> a \<Longrightarrow> 0 \<le> ceil_div a b"
  by (metis ceil_div_mono ceil_div_zero)

lemma ceil_div_pos: "0 < b \<Longrightarrow> 0 < a \<Longrightarrow> 0 < ceil_div a b"
  by (smt (verit) ceil_div_mult_ge mult_nonneg_nonneg mult_le_0_iff)

lemma div_less_ceil_div: "0 < b \<Longrightarrow> a < n \<Longrightarrow> a div b < ceil_div n b"
proof -
  assume b: "0 < b" and an: "a < n"
  have "a div b * b \<le> a" using b by (metis div_mult_mod_eq le_add_same_cancel1 pos_mod_sign)
  also have "a < ceil_div n b * b" using an ceil_div_mult_ge [OF b, of n] by linarith
  finally show ?thesis using b by (simp add: mult_less_cancel_right)
qed

section \<open>Ordered dictionaries\<close>

text \<open>\<open>d[k] = v\<close> keeps the place of a key that is there and appends a new one.\<close>

fun od_set :: "'k \<Rightarrow> 'v \<Rightarrow> ('k \<times> 'v) list \<Rightarrow> ('k \<times> 'v) list" where
  "od_set k v [] = [(k, v)]"
| "od_set k v ((k', v') # d) = (if k' = k then (k, v) # d else (k', v') # od_set k v d)"

text \<open>\<open>d.pop(k, None)\<close>.\<close>

definition od_pop :: "'k \<Rightarrow> ('k \<times> 'v) list \<Rightarrow> ('k \<times> 'v) list" where
  "od_pop k d = filter (\<lambda>e. fst e \<noteq> k) d"

abbreviation od_keys :: "('k \<times> 'v) list \<Rightarrow> 'k list" where
  "od_keys d \<equiv> map fst d"

abbreviation od_values :: "('k \<times> 'v) list \<Rightarrow> 'v list" where
  "od_values d \<equiv> map snd d"

lemma od_set_new: "k \<notin> set (od_keys d) \<Longrightarrow> od_set k v d = d @ [(k, v)]"
  by (induction d) auto

lemma map_of_od_set [simp]: "map_of (od_set k v d) = (map_of d)(k \<mapsto> v)"
  by (induction d) (auto simp: fun_eq_iff)

lemma od_keys_od_set: "set (od_keys (od_set k v d)) = insert k (set (od_keys d))"
  by (induction k v d rule: od_set.induct) (simp_all add: insert_commute)

lemma distinct_od_set: "distinct (od_keys d) \<Longrightarrow> distinct (od_keys (od_set k v d))"
proof (induction d)
  case Nil
  show ?case by simp
next
  case (Cons e d)
  then show ?case using od_keys_od_set [of k v d] by (cases e) auto
qed

lemma map_of_od_pop [simp]: "map_of (od_pop k d) = (map_of d)(k := None)"
  by (induction d) (auto simp: od_pop_def fun_eq_iff)

lemma od_pop_notin: "k \<notin> set (od_keys d) \<Longrightarrow> od_pop k d = d"
  unfolding od_pop_def by (rule filter_True) force

lemma distinct_od_pop: "distinct (od_keys d) \<Longrightarrow> distinct (od_keys (od_pop k d))"
  by (induction d) (auto simp: od_pop_def)

lemma od_pop_values:
  assumes "distinct (od_keys d)" "distinct (od_values d)" "(k, v) \<in> set d"
  shows "od_values (od_pop k d) = filter (\<lambda>w. w \<noteq> v) (od_values d)"
  using assms
proof (induction d)
  case Nil
  then show ?case by simp
next
  case (Cons e d)
  obtain k' v' where e: "e = (k', v')" by force
  show ?case
  proof (cases "k' = k")
    case True
    then have "v' = v" "k \<notin> set (od_keys d)" using Cons.prems e by (auto simp: rev_image_eqI)
    moreover have "filter (\<lambda>w. w \<noteq> v) (od_values d) = od_values d"
      using Cons.prems e \<open>v' = v\<close> by (intro filter_True) auto
    ultimately show ?thesis using e True od_pop_notin [of k d] by (simp add: od_pop_def)
  next
    case False
    then have "(k, v) \<in> set d" "v' \<noteq> v" using Cons.prems e by (auto simp: rev_image_eqI)
    with Cons e False show ?thesis by (simp add: od_pop_def)
  qed
qed

section \<open>Lists\<close>

lemma sum_list_int_nonneg: "(\<And>x. x \<in> set xs \<Longrightarrow> (0::int) \<le> f x) \<Longrightarrow> 0 \<le> sum_list (map f xs)"
  by (induction xs) auto

lemma sum_list_ge_length:
  "(\<And>x. x \<in> set xs \<Longrightarrow> (1::int) \<le> f x) \<Longrightarrow> int (length xs) \<le> sum_list (map f xs)"
  by (induction xs) fastforce+

lemma sum_list_filter_le:
  "(\<And>x. x \<in> set xs \<Longrightarrow> (0::int) \<le> f x) \<Longrightarrow>
    sum_list (map f (filter P xs)) \<le> sum_list (map f xs)"
  by (induction xs) (fastforce simp: add_increasing)+

lemma distinct_concat_map_iff:
  "distinct (concat (map f xs)) \<and> distinct xs \<longrightarrow>
    (\<forall>x\<in>set xs. \<forall>y\<in>set xs. x \<noteq> y \<longrightarrow> set (f x) \<inter> set (f y) = {})"
  by (induction xs) (auto 0 3)

lemma others_member:
  "i < length xs \<Longrightarrow>
    x \<in> set (take i xs) \<union> set (drop (Suc i) xs) \<longleftrightarrow> (\<exists>j<length xs. j \<noteq> i \<and> xs ! j = x)"
proof (induction xs arbitrary: i)
  case Nil
  then show ?case by simp
next
  case (Cons a xs)
  show ?case
  proof (cases i)
    case 0
    then show ?thesis by (simp add: Ex_less_Suc2 in_set_conv_nth)
  next
    case (Suc k)
    then show ?thesis using Cons.IH [of k] Cons.prems by (auto simp: Ex_less_Suc2)
  qed
qed

lemma butlast_filter_subset: "set (butlast (filter P xs)) \<subseteq> set (butlast xs)"
proof (induction xs rule: rev_induct)
  case Nil
  show ?case by simp
next
  case (snoc x xs)
  then show ?case by (auto dest: in_set_butlastD)
qed

section \<open>Decimal strings\<close>

text \<open>\<open>str(n)\<close> of a non-negative integer, and the reader \<open>int(s)\<close> that inverts it.\<close>

fun nat_str :: "nat \<Rightarrow> string" where
  "nat_str n = (if n < 10 then [char_of (48 + n)] else nat_str (n div 10) @ [char_of (48 + n mod 10)])"

declare nat_str.simps [simp del]

definition str_nat :: "string \<Rightarrow> nat" where
  "str_nat s = foldl (\<lambda>a c. 10 * a + (of_char c - 48)) 0 s"

lemma str_nat_nat_str: "str_nat (nat_str n) = n"
proof (induction n rule: nat_str.induct)
  case (1 n)
  have dig: "of_char (char_of (48 + m) :: char) = 48 + m" if "m < 10" for m :: nat
    using that by (simp add: of_char_of)
  show ?case
  proof (cases "n < 10")
    case True
    then show ?thesis by (simp add: nat_str.simps [of n] str_nat_def dig)
  next
    case False
    with 1 have "str_nat (nat_str (n div 10)) = n div 10" by simp
    with False show ?thesis by (simp add: nat_str.simps [of n] str_nat_def dig)
  qed
qed

lemma nat_str_inject [simp]: "nat_str m = nat_str n \<longleftrightarrow> m = n"
  by (metis str_nat_nat_str)

end
