(* ===== verification/Request.thy ===== *)
theory Request
  imports Prelude
begin

text \<open>
  Requests as the program keeps them (\<open>vexact/core/request.py\<close>): the lifecycle fields of
  \<open>InferenceRequest\<close>, its transitions, and the wire records \<open>DriverRequest\<close> and
  \<open>DriverRequestOutput\<close>. Scores and logits are of an arbitrary type \<open>'f\<close>; the wall-clock timers
  (\<open>start_generation_time\<close>, \<open>processing_time\<close>) are not part of the record. \<open>GenerationConfig\<close> is
  a Hugging Face class; the record holds the attributes the program reads.
\<close>

section \<open>Data\<close>

datatype request_status = PENDING | RUNNING | FINISHED | FAILED

text \<open>Hugging Face allows \<open>eos_token_id\<close> to be absent, one token or a list of tokens.\<close>

datatype eos_token_id = EosNone | EosToken int | EosList "int list"

record 'f generation_config =
  eos_token :: eos_token_id
  max_length :: "int option"
  max_new_tokens :: "int option"
  output_logits :: bool
  output_scores :: bool
  do_sample :: bool
  temperature :: 'f
  top_k :: "int option"
  top_p :: "'f option"
  seed :: "int option"

record 'f inference_request =
  request_id :: string
  generation_config :: "'f generation_config"
  input_ids_list :: "int list"
  status :: request_status
  tokens_generated :: int
  num_computed_tokens :: int
  tokens_this_step :: int
  block_ids :: "int list"
  generated_tokens :: "int list"
  generated_logits :: "'f list list"
  generated_logprobs :: "'f list"
  original_prompt_len :: int

record 'f driver_request =
  dr_generation_config :: "'f generation_config"
  dr_input_ids_list :: "int list option"
  dr_request_id :: string

record 'f driver_request_output =
  out_request_id :: string
  new_token_ids :: "int list"
  new_logprobs :: "'f list option"
  out_status :: request_status
  out_reason :: "string option"

section \<open>Operations\<close>

text \<open>The constructor: defaults, then \<open>__post_init__\<close>.\<close>

definition make_request :: "string \<Rightarrow> 'f generation_config \<Rightarrow> int list option \<Rightarrow> 'f inference_request res" where
  "make_request rid gc input =
     (case input of
        None \<Rightarrow> Raise ValueError
      | Some ids \<Rightarrow> Ok \<lparr>request_id = rid, generation_config = gc, input_ids_list = ids,
          status = PENDING, tokens_generated = 0, num_computed_tokens = 0, tokens_this_step = 0,
          block_ids = [], generated_tokens = [], generated_logits = [], generated_logprobs = [],
          original_prompt_len = int (length ids)\<rparr>)"

definition from_driver_request :: "'f driver_request \<Rightarrow> 'f inference_request res" where
  "from_driver_request d = make_request (dr_request_id d) (dr_generation_config d) (dr_input_ids_list d)"

definition is_finished :: "'f inference_request \<Rightarrow> bool" where
  "is_finished r \<longleftrightarrow> status r = FINISHED"

definition activate :: "'f inference_request \<Rightarrow> 'f inference_request" where
  "activate r = r\<lparr>status := RUNNING\<rparr>"

definition fail :: "'f inference_request \<Rightarrow> 'f inference_request" where
  "fail r = r\<lparr>status := FAILED\<rparr>"

text \<open>
  \<open>should_finish\<close>: an integer is compared with \<open>eos_token_id\<close> by \<open>==\<close>, so a list of tokens never
  matches; comparing with a missing \<open>max_new_tokens\<close> raises \<open>TypeError\<close>.
\<close>

definition should_finish :: "'f inference_request \<Rightarrow> int \<Rightarrow> bool res" where
  "should_finish r token_id =
     (let gc = generation_config r in
      if eos_token gc = EosToken token_id then Ok True
      else if (case max_length gc of None \<Rightarrow> False | Some n \<Rightarrow> n \<le> num_computed_tokens r + 1) then Ok True
      else (case max_new_tokens gc of
              None \<Rightarrow> Raise TypeError
            | Some n \<Rightarrow> Ok (n \<le> int (length (generated_tokens r)))))"

text \<open>\<open>xs[k:]\<close> for the slice in \<open>preempt\<close>; a negative \<open>k\<close> counts from the end.\<close>

definition py_suffix :: "'a list \<Rightarrow> int \<Rightarrow> 'a list" where
  "py_suffix xs k = (if 0 \<le> k then drop (nat k) xs else drop (nat (int (length xs) + k)) xs)"

definition preempt :: "'f inference_request \<Rightarrow> 'f inference_request" where
  "preempt r =
     (let already_folded = int (length (input_ids_list r)) - original_prompt_len r;
          new_tokens = py_suffix (generated_tokens r) already_folded
      in r\<lparr>input_ids_list := input_ids_list r @ new_tokens,
           block_ids := [],
           num_computed_tokens := 0,
           tokens_this_step := 0,
           status := PENDING\<rparr>)"

definition finish :: "'f inference_request \<Rightarrow> 'f inference_request" where
  "finish r = r\<lparr>status := FINISHED,
                tokens_generated := int (length (generated_tokens r)),
                block_ids := []\<rparr>"

definition to_driver_request_output :: "'f inference_request \<Rightarrow> 'f driver_request_output" where
  "to_driver_request_output r =
     \<lparr>out_request_id = request_id r,
      new_token_ids = generated_tokens r,
      new_logprobs = (if generated_logprobs r = [] then None else Some (generated_logprobs r)),
      out_status = status r,
      out_reason = None\<rparr>"

definition output_is_running :: "'f driver_request_output \<Rightarrow> bool" where
  "output_is_running d \<longleftrightarrow> out_status d = RUNNING"

definition output_is_finished :: "'f driver_request_output \<Rightarrow> bool" where
  "output_is_finished d \<longleftrightarrow> out_status d = FINISHED"

section \<open>The token sequence of a request\<close>

text \<open>
  The sequence a request stands for is its original prompt followed by every token generated so
  far. \<open>input_ids_list\<close> holds a prefix of it: the prompt and the tokens folded back by earlier
  preemptions.
\<close>

definition prompt :: "'f inference_request \<Rightarrow> int list" where
  "prompt r = take (nat (original_prompt_len r)) (input_ids_list r)"

definition full_sequence :: "'f inference_request \<Rightarrow> int list" where
  "full_sequence r = prompt r @ generated_tokens r"

definition folded_ok :: "'f inference_request \<Rightarrow> bool" where
  "folded_ok r \<longleftrightarrow>
     0 < original_prompt_len r \<and> original_prompt_len r \<le> int (length (input_ids_list r)) \<and>
     (\<exists>k \<le> length (generated_tokens r). input_ids_list r = prompt r @ take k (generated_tokens r))"

lemma folded_ok_length:
  "folded_ok r \<Longrightarrow> int (length (prompt r)) = original_prompt_len r \<and>
     length (input_ids_list r) \<le> length (full_sequence r)"
proof -
  assume f: "folded_ok r"
  then obtain k where k: "k \<le> length (generated_tokens r)" "input_ids_list r = prompt r @ take k (generated_tokens r)"
    by (auto simp: folded_ok_def)
  have "int (length (prompt r)) = original_prompt_len r"
  proof -
    have "length (prompt r) = nat (original_prompt_len r)"
      using f unfolding folded_ok_def prompt_def length_take by linarith
    then show ?thesis using f by (simp add: folded_ok_def)
  qed
  moreover have "length (input_ids_list r) = length (prompt r) + k" using k by (metis length_append length_take min.absorb2)
  ultimately show ?thesis using k(1) by (simp add: full_sequence_def)
qed

lemma folded_ok_prefix:
  assumes "folded_ok r" "i < length (input_ids_list r)"
  shows "input_ids_list r ! i = full_sequence r ! i"
proof -
  obtain k where k: "k \<le> length (generated_tokens r)" "input_ids_list r = prompt r @ take k (generated_tokens r)"
    using assms(1) by (auto simp: folded_ok_def)
  have "i < length (prompt r) + k" using assms(2) k by (metis length_append length_take min.absorb2)
  then have "(prompt r @ take k (generated_tokens r)) ! i = full_sequence r ! i"
    by (auto simp: full_sequence_def nth_append)
  then show ?thesis using k(2) by metis
qed

lemma preempt_input:
  assumes "folded_ok r"
  shows "input_ids_list (preempt r) = full_sequence r"
proof -
  obtain k where k: "k \<le> length (generated_tokens r)" "input_ids_list r = prompt r @ take k (generated_tokens r)"
    using assms by (auto simp: folded_ok_def)
  have "length (input_ids_list r) = length (prompt r) + k" using k by (metis length_append length_take min.absorb2)
  then have "int (length (input_ids_list r)) - original_prompt_len r = int k"
    using folded_ok_length [OF assms] by simp
  then have "input_ids_list (preempt r) = input_ids_list r @ drop k (generated_tokens r)"
    by (simp add: preempt_def py_suffix_def)
  also have "\<dots> = prompt r @ (take k (generated_tokens r) @ drop k (generated_tokens r))"
    using k(2) by (metis append_assoc)
  finally show ?thesis by (simp add: full_sequence_def)
qed

lemma preempt_simps [simp]:
  "request_id (preempt r) = request_id r"
  "generation_config (preempt r) = generation_config r"
  "status (preempt r) = PENDING"
  "num_computed_tokens (preempt r) = 0"
  "tokens_this_step (preempt r) = 0"
  "block_ids (preempt r) = []"
  "generated_tokens (preempt r) = generated_tokens r"
  "original_prompt_len (preempt r) = original_prompt_len r"
  by (simp_all add: preempt_def Let_def)

lemma preempt_prompt: "folded_ok r \<Longrightarrow> prompt (preempt r) = prompt r"
proof -
  assume f: "folded_ok r"
  have "prompt (preempt r) = take (nat (original_prompt_len r)) (prompt r @ generated_tokens r)"
    by (simp add: prompt_def [of "preempt r"] preempt_input [OF f] full_sequence_def)
  moreover have "nat (original_prompt_len r) = length (prompt r)" using folded_ok_length [OF f] by linarith
  ultimately show ?thesis by simp
qed

lemma preempt_folded: "folded_ok r \<Longrightarrow> folded_ok (preempt r)"
proof -
  assume f: "folded_ok r"
  have "input_ids_list (preempt r) = prompt (preempt r) @ take (length (generated_tokens r)) (generated_tokens r)"
    using preempt_input [OF f] preempt_prompt [OF f] by (simp add: full_sequence_def)
  moreover have "original_prompt_len r \<le> int (length (input_ids_list (preempt r)))"
    using f preempt_input [OF f] folded_ok_length [OF f] by (simp add: full_sequence_def)
  ultimately show ?thesis using f unfolding folded_ok_def by (auto simp del: take_all)
qed

lemma preempt_full_sequence: "folded_ok r \<Longrightarrow> full_sequence (preempt r) = full_sequence r"
  by (simp add: full_sequence_def preempt_prompt)

lemma make_request_folded:
  "make_request rid gc (Some ids) = Ok r \<Longrightarrow> ids \<noteq> [] \<Longrightarrow> folded_ok r \<and> full_sequence r = ids"
  by (auto simp: make_request_def folded_ok_def full_sequence_def prompt_def)

end
