(* ===== verification/Config.thy ===== *)
theory Config
  imports Prelude
begin

text \<open>
  The configuration records of \<open>vexact/config.py\<close> and the checks of their
  \<open>__post_init__\<close> methods. A configuration that passes its checks is the value \<open>Ok c\<close>; a
  failed check is the exception it raises. What the checks obtain from outside the program (the
  model's own configuration file, a fresh driver id, a free port) is an argument.
\<close>

section \<open>Pipeline position\<close>

record pp_info =
  pp_size :: int
  pp_rank :: int

definition is_first_rank :: "pp_info \<Rightarrow> bool" where
  "is_first_rank p \<longleftrightarrow> pp_rank p = 0"

definition is_last_rank :: "pp_info \<Rightarrow> bool" where
  "is_last_rank p \<longleftrightarrow> pp_rank p = pp_size p - 1"

section \<open>Profiler and cache\<close>

record profiler_config =
  backend :: "string option"
  delay_iterations :: int
  max_iterations :: int
  output_path :: "string option"
  profile_all_ranks :: bool

definition profiler_post_init :: "profiler_config \<Rightarrow> profiler_config res" where
  "profiler_post_init c =
     (if delay_iterations c < 0 then Raise ValueError
      else if max_iterations c < 0 then Raise ValueError
      else Ok c)"

record cache_config =
  page_size :: int
  max_cache_blocks :: int

definition cache_post_init :: "cache_config \<Rightarrow> cache_config res" where
  "cache_post_init c =
     (if page_size c \<le> 0 then Raise ValueError
      else if max_cache_blocks c \<le> 0 then Raise ValueError
      else Ok c)"

section \<open>Model\<close>

text \<open>
  A Hugging Face configuration is known by its \<open>model_type\<close> and by the integer attributes it
  has; an attribute may be present with the value \<open>None\<close>.
\<close>

record hf_config =
  hf_model_type :: "string option"
  hf_attrs :: "(string \<times> int option) list"

record model_config =
  model_path :: "string option"
  attn_impl :: string
  moe_implementation :: string
  enable_batch_invariant :: bool
  enable_memory_saver :: bool
  use_fp32_logits :: bool
  hf_cfg :: "hf_config option"
  max_model_len :: "int option"
  enforce_eager :: bool

definition valid_attn_impls :: "string list" where
  "valid_attn_impls = [''fa-invariant'', ''fa-invariant-cute'', ''triton-invariant'', ''flex'']"

definition possible_keys :: "string list" where
  "possible_keys = [''max_position_embeddings'', ''max_sequence_length'', ''n_positions'', ''seq_length'']"

text \<open>The search loop of \<open>_initialize_max_model_len\<close>: the first attribute with a positive value.\<close>

fun find_max_len :: "hf_config \<Rightarrow> string list \<Rightarrow> int option" where
  "find_max_len h [] = None"
| "find_max_len h (k # ks) =
     (case map_of (hf_attrs h) k of
        Some (Some n) \<Rightarrow> if n > 0 then Some n else find_max_len h ks
      | _ \<Rightarrow> find_max_len h ks)"

definition initialize_max_model_len :: "hf_config \<Rightarrow> model_config \<Rightarrow> model_config" where
  "initialize_max_model_len h c =
     (let config_max_len = (case find_max_len h possible_keys of None \<Rightarrow> 2048 | Some n \<Rightarrow> n)
      in case max_model_len c of
           None \<Rightarrow> c\<lparr>max_model_len := Some config_max_len\<rparr>
         | Some _ \<Rightarrow> c)"

definition model_post_init :: "(string \<Rightarrow> string \<Rightarrow> hf_config) \<Rightarrow> model_config \<Rightarrow> model_config res" where
  "model_post_init load_hf c =
     (case model_path c of
        None \<Rightarrow> Raise ValueError
      | Some path \<Rightarrow>
          if attn_impl c \<notin> set valid_attn_impls then Raise ValueError
          else
            let h = (case hf_cfg c of None \<Rightarrow> load_hf path (attn_impl c) | Some h \<Rightarrow> h);
                c1 = c\<lparr>hf_cfg := Some h\<rparr>
            in if hf_model_type h = Some ''gpt_oss'' \<and> attn_impl c1 \<noteq> ''fa-invariant-cute''
               then Raise ValueError
               else if hf_model_type h = Some ''gpt_oss'' \<and> moe_implementation c1 \<noteq> ''fused_quack''
               then Raise ValueError
               else Ok (initialize_max_model_len h c1))"

section \<open>Parallelism, scheduling, driver\<close>

record parallel_config =
  pipeline_parallel_size :: int
  torch_distributed_addr :: string
  torch_distributed_port :: "string option"
  world_size :: int

definition parallel_post_init :: "nat \<Rightarrow> parallel_config \<Rightarrow> parallel_config res" where
  "parallel_post_init free_port c =
     (if pipeline_parallel_size c \<le> 0 then Raise ValueError
      else
        let c1 = c\<lparr>world_size := pipeline_parallel_size c\<rparr>
        in Ok (case torch_distributed_port c1 of
                 None \<Rightarrow> c1\<lparr>torch_distributed_port := Some (nat_str free_port)\<rparr>
               | Some _ \<Rightarrow> c1))"

record scheduler_config =
  max_num_batched_tokens :: int
  max_num_seqs :: int
  max_queue_size :: int
  enable_chunked_prefill :: bool
  enable_pp_fair_share :: bool

definition scheduler_post_init :: "scheduler_config \<Rightarrow> scheduler_config res" where
  "scheduler_post_init c = (if max_num_batched_tokens c \<le> 0 then Raise ValueError else Ok c)"

record driver_config =
  is_worker_proc_managed :: bool
  driver_id :: "string option"
  request_address :: "string option"
  control_addresses :: "string list option"

definition driver_post_init :: "string \<Rightarrow> driver_config \<Rightarrow> driver_config" where
  "driver_post_init fresh_id c =
     (case driver_id c of None \<Rightarrow> c\<lparr>driver_id := Some fresh_id\<rparr> | Some _ \<Rightarrow> c)"

definition control_address :: "string \<Rightarrow> nat \<Rightarrow> string" where
  "control_address did i = ''ipc:///tmp/vexact_ctrl_'' @ did @ ''_'' @ nat_str i @ ''.sock''"

text \<open>\<open>f"{self.driver_id}"\<close> prints \<open>None\<close> when no id is set; \<open>driver_post_init\<close> rules that out.\<close>

definition generate_addresses :: "int \<Rightarrow> driver_config \<Rightarrow> driver_config" where
  "generate_addresses ws c =
     (let did = (case driver_id c of None \<Rightarrow> ''None'' | Some d \<Rightarrow> d);
          c1 = (case request_address c of
                  None \<Rightarrow> c\<lparr>request_address := Some (''ipc:///tmp/vexact_req_'' @ did @ ''.sock'')\<rparr>
                | Some _ \<Rightarrow> c)
      in case control_addresses c1 of
           None \<Rightarrow> c1\<lparr>control_addresses := Some (map (control_address did) [0..<nat ws])\<rparr>
         | Some _ \<Rightarrow> c1)"

record vexact_config =
  model :: model_config
  parallel :: parallel_config
  scheduler :: scheduler_config
  cache :: cache_config
  profiler :: profiler_config
  driver :: driver_config

definition vexact_post_init :: "vexact_config \<Rightarrow> vexact_config" where
  "vexact_post_init c = c\<lparr>driver := generate_addresses (world_size (parallel c)) (driver c)\<rparr>"

section \<open>What the checks establish\<close>

lemma cache_post_init_Ok: "cache_post_init c = Ok c' \<longleftrightarrow> c' = c \<and> 0 < page_size c \<and> 0 < max_cache_blocks c"
  by (auto simp: cache_post_init_def)

lemma scheduler_post_init_Ok:
  "scheduler_post_init c = Ok c' \<longleftrightarrow> c' = c \<and> 0 < max_num_batched_tokens c"
  by (auto simp: scheduler_post_init_def)

lemma parallel_post_init_Ok:
  "parallel_post_init p c = Ok c' \<Longrightarrow> 0 < world_size c' \<and> world_size c' = pipeline_parallel_size c'
     \<and> torch_distributed_port c' \<noteq> None"
  by (auto simp: parallel_post_init_def Let_def split: if_splits option.splits)

lemma find_max_len_pos: "find_max_len h ks = Some n \<Longrightarrow> 0 < n"
  by (induction h ks rule: find_max_len.induct) (auto split: option.splits if_splits)

lemma control_address_inject [simp]: "control_address d i = control_address d j \<longleftrightarrow> i = j"
  by (simp add: control_address_def)

text \<open>The search returns the first key that holds a positive length.\<close>

definition usable_len :: "hf_config \<Rightarrow> string \<Rightarrow> int \<Rightarrow> bool" where
  "usable_len h k n \<longleftrightarrow> map_of (hf_attrs h) k = Some (Some n) \<and> 0 < n"

lemma find_max_len_Cons_usable: "usable_len h k n \<Longrightarrow> find_max_len h (k # ks) = Some n"
  by (simp add: usable_len_def)

lemma find_max_len_Cons_unusable:
  "\<nexists>n. usable_len h k n \<Longrightarrow> find_max_len h (k # ks) = find_max_len h ks"
  by (auto simp: usable_len_def split: option.splits)

lemma find_max_len_skip:
  "(\<And>k n. k \<in> set pre \<Longrightarrow> \<not> usable_len h k n) \<Longrightarrow> find_max_len h (pre @ ks) = find_max_len h ks"
proof (induction pre)
  case Nil
  show ?case by simp
next
  case (Cons k pre)
  then have "\<nexists>n. usable_len h k n" by simp
  with Cons show ?case using find_max_len_Cons_unusable [of h k "pre @ ks"] by simp
qed

lemma find_max_len_none:
  "(\<And>k n. k \<in> set ks \<Longrightarrow> \<not> usable_len h k n) \<Longrightarrow> find_max_len h ks = None"
  using find_max_len_skip [of ks h "[]"] by simp

end
