(* ===== verification/KV_Cache.thy ===== *)
theory KV_Cache
  imports Config
begin

text \<open>
  The paged key/value cache of \<open>vexact/batch_invariant_ops/kv_cache_context.py\<close>:
  \<^item> \<open>KVCacheManager\<close>: the pool of cache blocks, its allocation and release, and the invariant
    that free and allocated blocks partition the configured range;
  \<^item> the interface \<open>block_pool\<close> that the scheduler relies on, with the ledger lemmas proved once
    from its laws, and its interpretation on \<open>KVCacheManager\<close>;
  \<^item> \<open>KVCacheContext\<close>: the validated thread-local context;
  \<^item> \<open>KVCacheStore\<close> and \<open>store_kvcache\<close>: cache shapes and the kernel that writes rows to slots.
\<close>

section \<open>The block pool\<close>

record kv_manager =
  kv_config :: cache_config
  allocated_blocks :: "int set"
  free_blocks_set :: "int set"

definition kv_init :: "cache_config \<Rightarrow> kv_manager" where
  "kv_init c = \<lparr>kv_config = c, allocated_blocks = {}, free_blocks_set = {0..<max_cache_blocks c}\<rparr>"

definition num_blocks_needed :: "kv_manager \<Rightarrow> int \<Rightarrow> int" where
  "num_blocks_needed m num_tokens = (num_tokens + page_size (kv_config m) - 1) div page_size (kv_config m)"

text \<open>One round of the allocation loop: the smallest free block changes sides.\<close>

definition take_min_block :: "kv_manager \<Rightarrow> int \<times> kv_manager" where
  "take_min_block m =
     (let b = Min (free_blocks_set m)
      in (b, m\<lparr>free_blocks_set := free_blocks_set m - {b},
               allocated_blocks := insert b (allocated_blocks m)\<rparr>))"

primrec take_blocks :: "nat \<Rightarrow> kv_manager \<Rightarrow> int list \<times> kv_manager" where
  "take_blocks 0 m = ([], m)"
| "take_blocks (Suc n) m =
     (let (b, m1) = take_min_block m; (bs, m2) = take_blocks n m1 in (b # bs, m2))"

definition allocate_blocks :: "kv_manager \<Rightarrow> int \<Rightarrow> int \<Rightarrow> int list option \<times> kv_manager" where
  "allocate_blocks m total_tokens num_current_blocks =
     (let num_needed = num_blocks_needed m total_tokens;
          delta = num_needed - num_current_blocks
      in if delta \<le> 0 then (Some [], m)
         else if int (card (free_blocks_set m)) < delta then (None, m)
         else let (bs, m') = take_blocks (nat delta) m in (Some bs, m'))"

definition num_free_blocks :: "kv_manager \<Rightarrow> int" where
  "num_free_blocks m = int (card (free_blocks_set m))"

definition num_allocated_blocks :: "kv_manager \<Rightarrow> int" where
  "num_allocated_blocks m = int (card (allocated_blocks m))"

definition free_block :: "int \<Rightarrow> kv_manager \<Rightarrow> kv_manager" where
  "free_block b m =
     (if b \<in> allocated_blocks m
      then m\<lparr>allocated_blocks := allocated_blocks m - {b}, free_blocks_set := insert b (free_blocks_set m)\<rparr>
      else m)"

definition free_blocks :: "kv_manager \<Rightarrow> int list \<Rightarrow> kv_manager" where
  "free_blocks m bs = fold free_block bs m"

section \<open>The pool invariant\<close>

definition kv_inv :: "kv_manager \<Rightarrow> bool" where
  "kv_inv m \<longleftrightarrow>
     0 < page_size (kv_config m) \<and>
     free_blocks_set m \<inter> allocated_blocks m = {} \<and>
     free_blocks_set m \<union> allocated_blocks m = {0..<max_cache_blocks (kv_config m)}"

lemma kv_inv_finite: "kv_inv m \<Longrightarrow> finite (free_blocks_set m) \<and> finite (allocated_blocks m)"
  unfolding kv_inv_def by (metis finite_Un finite_atLeastLessThan_int)

lemma kv_inv_init: "0 < page_size c \<Longrightarrow> kv_inv (kv_init c)"
  by (simp add: kv_inv_def kv_init_def)

lemma num_blocks_needed_ceil: "num_blocks_needed m n = ceil_div n (page_size (kv_config m))"
  by (simp add: num_blocks_needed_def ceil_div_def)

lemma take_blocks_spec:
  assumes "kv_inv m" "n \<le> card (free_blocks_set m)" "take_blocks n m = (bs, m')"
  shows "kv_inv m' \<and> kv_config m' = kv_config m \<and> length bs = n \<and> distinct bs \<and>
    set bs \<subseteq> free_blocks_set m \<and> allocated_blocks m' = allocated_blocks m \<union> set bs \<and>
    free_blocks_set m' = free_blocks_set m - set bs"
  using assms
proof (induction n arbitrary: m bs)
  case 0
  then show ?case by simp
next
  case (Suc n)
  define b where "b = Min (free_blocks_set m)"
  define m1 where "m1 = m\<lparr>free_blocks_set := free_blocks_set m - {b},
      allocated_blocks := insert b (allocated_blocks m)\<rparr>"
  obtain bs1 where rest: "take_blocks n m1 = (bs1, m')" and bs: "bs = b # bs1"
    using Suc.prems(3) by (auto simp: take_min_block_def Let_def b_def m1_def split: prod.splits)
  have fin: "finite (free_blocks_set m)" using Suc.prems(1) kv_inv_finite by blast
  have ne: "free_blocks_set m \<noteq> {}" using Suc.prems(2) by auto
  have b: "b \<in> free_blocks_set m" unfolding b_def using fin ne by (rule Min_in)
  have inv1: "kv_inv m1"
    using Suc.prems(1) b by (auto simp: kv_inv_def m1_def)
  have "card (free_blocks_set m1) = card (free_blocks_set m) - 1"
    using b fin by (simp add: m1_def)
  then have "n \<le> card (free_blocks_set m1)" using Suc.prems(2) by simp
  from Suc.IH [OF inv1 this rest] have IH:
    "kv_inv m'" "kv_config m' = kv_config m1" "length bs1 = n" "distinct bs1"
    "set bs1 \<subseteq> free_blocks_set m1" "allocated_blocks m' = allocated_blocks m1 \<union> set bs1"
    "free_blocks_set m' = free_blocks_set m1 - set bs1" by auto
  have "b \<notin> set bs1" using IH(5) by (auto simp: m1_def)
  then show ?case using IH b by (auto simp: m1_def bs)
qed

text \<open>The blocks taken are the smallest free ones.\<close>

lemma take_blocks_smallest:
  assumes "finite (free_blocks_set m)" "n \<le> card (free_blocks_set m)" "take_blocks n m = (bs, m')"
  shows "\<forall>b\<in>set bs. \<forall>c\<in>free_blocks_set m'. b < c"
  using assms
proof (induction n arbitrary: m bs)
  case 0
  then show ?case by simp
next
  case (Suc n)
  define b where "b = Min (free_blocks_set m)"
  define m1 where "m1 = m\<lparr>free_blocks_set := free_blocks_set m - {b},
      allocated_blocks := insert b (allocated_blocks m)\<rparr>"
  obtain bs1 where rest: "take_blocks n m1 = (bs1, m')" and bs: "bs = b # bs1"
    using Suc.prems(3) by (auto simp: take_min_block_def Let_def b_def m1_def split: prod.splits)
  have ne: "free_blocks_set m \<noteq> {}" using Suc.prems(2) by auto
  have b: "b \<in> free_blocks_set m" unfolding b_def using Suc.prems(1) ne by (rule Min_in)
  have m1: "finite (free_blocks_set m1)" "n \<le> card (free_blocks_set m1)"
    using Suc.prems(1,2) b by (simp_all add: m1_def)
  have sub: "free_blocks_set m' \<subseteq> free_blocks_set m1"
    using rest
  proof (induction n arbitrary: m1 bs1)
    case (Suc k)
    obtain bs2 where "take_blocks k (snd (take_min_block m1)) = (bs2, m')"
      using Suc.prems by (auto simp: Let_def split: prod.splits)
    from Suc.IH [OF this] show ?case by (auto simp: take_min_block_def Let_def)
  qed simp
  have "b < c" if "c \<in> free_blocks_set m'" for c
  proof -
    have "c \<in> free_blocks_set m" "c \<noteq> b" using that sub by (auto simp: m1_def)
    then show ?thesis using Min_le [OF Suc.prems(1), of c] by (simp add: b_def)
  qed
  then show ?case using Suc.IH [OF m1 rest] by (auto simp: bs)
qed

lemma allocate_blocks_Some:
  assumes "kv_inv m" "allocate_blocks m t c = (Some bs, m')"
  shows "kv_inv m' \<and> kv_config m' = kv_config m \<and> distinct bs \<and> set bs \<inter> allocated_blocks m = {} \<and>
    allocated_blocks m' = allocated_blocks m \<union> set bs \<and>
    int (length bs) = max 0 (num_blocks_needed m t - c)"
proof -
  define d where "d = num_blocks_needed m t - c"
  have eq: "allocate_blocks m t c =
      (if d \<le> 0 then (Some [], m) else if int (card (free_blocks_set m)) < d then (None, m)
       else (Some (fst (take_blocks (nat d) m)), snd (take_blocks (nat d) m)))"
    unfolding allocate_blocks_def Let_def d_def by (simp add: case_prod_beta)
  show ?thesis
  proof (cases "d \<le> 0")
    case True
    then have "bs = []" "m' = m" using assms(2) eq by auto
    then show ?thesis using assms(1) True by (simp add: d_def)
  next
    case False
    then have le: "nat d \<le> card (free_blocks_set m)" and tk: "take_blocks (nat d) m = (bs, m')"
      using assms(2) eq by (auto split: if_splits simp: prod_eq_iff)
    have "set bs \<subseteq> free_blocks_set m \<and> kv_inv m' \<and> kv_config m' = kv_config m \<and> distinct bs
        \<and> allocated_blocks m' = allocated_blocks m \<union> set bs \<and> length bs = nat d"
      using take_blocks_spec [OF assms(1) le tk] by simp
    moreover have "free_blocks_set m \<inter> allocated_blocks m = {}" using assms(1) by (simp add: kv_inv_def)
    ultimately show ?thesis using False by (auto simp: d_def)
  qed
qed

lemma allocate_blocks_smallest:
  assumes "kv_inv m" "allocate_blocks m t c = (Some bs, m')"
  shows "set bs \<subseteq> free_blocks_set m \<and> free_blocks_set m' = free_blocks_set m - set bs \<and>
    (\<forall>b\<in>set bs. \<forall>c\<in>free_blocks_set m'. b < c)"
proof -
  define d where "d = num_blocks_needed m t - c"
  have eq: "allocate_blocks m t c =
      (if d \<le> 0 then (Some [], m) else if int (card (free_blocks_set m)) < d then (None, m)
       else (Some (fst (take_blocks (nat d) m)), snd (take_blocks (nat d) m)))"
    unfolding allocate_blocks_def Let_def d_def by (simp add: case_prod_beta)
  show ?thesis
  proof (cases "d \<le> 0")
    case True
    then show ?thesis using assms(2) eq by auto
  next
    case False
    then have le: "nat d \<le> card (free_blocks_set m)" and tk: "take_blocks (nat d) m = (bs, m')"
      using assms(2) eq by (auto split: if_splits simp: prod_eq_iff)
    show ?thesis
      using take_blocks_spec [OF assms(1) le tk] take_blocks_smallest [OF _ le tk] kv_inv_finite [OF assms(1)] by blast
  qed
qed

lemma allocate_blocks_None:
  "allocate_blocks m t c = (None, m') \<longleftrightarrow>
    m' = m \<and> num_free_blocks m < num_blocks_needed m t - c \<and> 0 < num_blocks_needed m t - c"
  by (auto simp: allocate_blocks_def Let_def num_free_blocks_def split: prod.splits)

lemma free_block_spec:
  assumes "kv_inv m"
  shows "kv_inv (free_block b m) \<and> kv_config (free_block b m) = kv_config m \<and>
    allocated_blocks (free_block b m) = allocated_blocks m - {b} \<and>
    free_blocks_set (free_block b m) = free_blocks_set m \<union> ({b} \<inter> allocated_blocks m)"
  using assms by (auto simp: free_block_def kv_inv_def)

lemma free_blocks_spec:
  assumes "kv_inv m"
  shows "kv_inv (free_blocks m bs) \<and> kv_config (free_blocks m bs) = kv_config m \<and>
    allocated_blocks (free_blocks m bs) = allocated_blocks m - set bs \<and>
    free_blocks_set (free_blocks m bs) = free_blocks_set m \<union> (set bs \<inter> allocated_blocks m)"
  using assms
proof (induction bs arbitrary: m)
  case Nil
  then show ?case by (simp add: free_blocks_def)
next
  case (Cons b bs)
  have eq: "free_blocks m (b # bs) = free_blocks (free_block b m) bs" by (simp add: free_blocks_def)
  show ?case
    using Cons.IH [of "free_block b m"] free_block_spec [OF Cons.prems, of b] unfolding eq by auto
qed

text \<open>The counters add up to the configured number of blocks.\<close>

lemma kv_counts:
  assumes "kv_inv m"
  shows "num_free_blocks m + num_allocated_blocks m = max 0 (max_cache_blocks (kv_config m))"
proof -
  have "int (card (free_blocks_set m \<union> allocated_blocks m)) =
      int (card (free_blocks_set m)) + int (card (allocated_blocks m))"
    using card_Un_disjoint [of "free_blocks_set m" "allocated_blocks m"] kv_inv_finite [OF assms] assms
    by (simp only: kv_inv_def)
  moreover have "free_blocks_set m \<union> allocated_blocks m = {0..<max_cache_blocks (kv_config m)}"
    using assms by (simp add: kv_inv_def)
  ultimately have "int (card {0..<max_cache_blocks (kv_config m)}) =
      int (card (free_blocks_set m)) + int (card (allocated_blocks m))" by simp
  then show ?thesis by (simp add: num_free_blocks_def num_allocated_blocks_def max_def split: if_splits)
qed

section \<open>The interface the scheduler relies on\<close>

text \<open>
  A client holds blocks of the pool in lists, one list per holder. \<open>ledger p R f\<close> says that the
  holders in \<open>R\<close> own the blocks in use, each exactly once. The laws of the interface are what an
  allocation and a release promise; the client lemmas say that a ledger survives a holder that
  grows, a holder that leaves and a holder that joins.
\<close>

locale block_pool =
  fixes alloc :: "'p \<Rightarrow> int \<Rightarrow> int \<Rightarrow> int list option \<times> 'p"
    and release :: "'p \<Rightarrow> int list \<Rightarrow> 'p"
    and in_use :: "'p \<Rightarrow> int set"
    and avail :: "'p \<Rightarrow> int"
    and need :: "'p \<Rightarrow> int \<Rightarrow> int"
    and pool_inv :: "'p \<Rightarrow> bool"
  assumes alloc_Some: "pool_inv p \<Longrightarrow> alloc p t c = (Some bs, p') \<Longrightarrow>
      pool_inv p' \<and> distinct bs \<and> set bs \<inter> in_use p = {} \<and> in_use p' = in_use p \<union> set bs
      \<and> int (length bs) = max 0 (need p t - c) \<and> need p' = need p"
    and alloc_None: "alloc p t c = (None, p') \<Longrightarrow> p' = p \<and> avail p < need p t - c"
    and alloc_enough: "need p t - c \<le> avail p \<or> need p t \<le> c \<Longrightarrow> fst (alloc p t c) \<noteq> None"
    and release_in_use: "pool_inv p \<Longrightarrow> in_use (release p bs) = in_use p - set bs"
    and release_avail: "pool_inv p \<Longrightarrow> set bs \<subseteq> in_use p \<Longrightarrow> distinct bs \<Longrightarrow>
      avail (release p bs) = avail p + int (length bs)"
    and release_inv: "pool_inv p \<Longrightarrow> pool_inv (release p bs) \<and> need (release p bs) = need p"
    and avail_nonneg: "0 \<le> avail p"
begin

definition ledger :: "'p \<Rightarrow> 'r set \<Rightarrow> ('r \<Rightarrow> int list) \<Rightarrow> bool" where
  "ledger p R f \<longleftrightarrow>
     (\<forall>r\<in>R. distinct (f r)) \<and>
     (\<forall>r\<in>R. \<forall>r'\<in>R. r \<noteq> r' \<longrightarrow> set (f r) \<inter> set (f r') = {}) \<and>
     (\<Union>r\<in>R. set (f r)) = in_use p"

lemma ledger_grow:
  assumes "pool_inv p" "ledger p R f" "r \<in> R" "alloc p t c = (Some bs, p')"
  shows "ledger p' R (f(r := f r @ bs))"
proof -
  have a: "distinct bs" "set bs \<inter> in_use p = {}" "in_use p' = in_use p \<union> set bs"
    using alloc_Some [OF assms(1,4)] by auto
  have sub: "set (f x) \<subseteq> in_use p" if "x \<in> R" for x
    using assms(2) that by (auto simp: ledger_def)
  have u: "(\<Union>x\<in>R. set ((f(r := f r @ bs)) x)) = (\<Union>x\<in>R. set (f x)) \<union> set bs"
    using assms(3) by (auto split: if_splits)
  show ?thesis
    unfolding ledger_def
  proof (intro conjI)
    show "\<forall>x\<in>R. distinct ((f(r := f r @ bs)) x)"
      using assms(2) a(1,2) sub [OF assms(3)] by (auto simp: ledger_def)
    show "\<forall>x\<in>R. \<forall>y\<in>R. x \<noteq> y \<longrightarrow> set ((f(r := f r @ bs)) x) \<inter> set ((f(r := f r @ bs)) y) = {}"
    proof (intro ballI impI)
      fix x y assume xy: "x \<in> R" "y \<in> R" "x \<noteq> y"
      then have "set (f x) \<inter> set (f y) = {}" using assms(2) by (simp add: ledger_def)
      then show "set ((f(r := f r @ bs)) x) \<inter> set ((f(r := f r @ bs)) y) = {}"
        using xy sub [OF xy(1)] sub [OF xy(2)] a(2) by auto
    qed
    show "(\<Union>x\<in>R. set ((f(r := f r @ bs)) x)) = in_use p'"
      using u a(3) assms(2) by (simp add: ledger_def)
  qed
qed

lemma ledger_leave:
  assumes "pool_inv p" "ledger p R f" "r \<in> R"
  shows "ledger (release p (f r)) (R - {r}) f"
proof -
  have "(\<Union>x\<in>R - {r}. set (f x)) = in_use p - set (f r)"
    using assms(2,3) by (fastforce simp: ledger_def)
  then show ?thesis
    using assms release_in_use [OF assms(1)] by (auto simp: ledger_def)
qed

lemma ledger_join:
  assumes "pool_inv p" "ledger p R f" "r \<notin> R" "f r = []" "alloc p t 0 = (Some bs, p')"
  shows "ledger p' (insert r R) (f(r := bs))"
proof -
  have "ledger p (insert r R) f"
    using assms(2,3,4) by (auto simp: ledger_def)
  from ledger_grow [OF assms(1) this insertI1 assms(5)] assms(4) show ?thesis by simp
qed

lemma ledger_cong:
  assumes "ledger p R f" "\<And>r. r \<in> R \<Longrightarrow> g r = f r"
  shows "ledger p R g"
  using assms by (simp add: ledger_def)

lemma ledger_member: "ledger p R f \<Longrightarrow> r \<in> R \<Longrightarrow> set (f r) \<subseteq> in_use p \<and> distinct (f r)"
  by (auto simp: ledger_def)

text \<open>After a holder with at least \<open>k\<close> blocks left, a request for at most \<open>k\<close> more blocks succeeds.\<close>

lemma alloc_after_release:
  assumes "pool_inv p" "ledger p R f" "r \<in> R" "need p t - c \<le> int (length (f r))"
  shows "fst (alloc (release p (f r)) t c) \<noteq> None"
proof (rule alloc_enough, rule disjI1)
  have "avail (release p (f r)) = avail p + int (length (f r))"
    using assms ledger_member [OF assms(2,3)] release_avail [OF assms(1)] by simp
  moreover have "need (release p (f r)) = need p" using release_inv [OF assms(1)] by simp
  ultimately show "need (release p (f r)) t - c \<le> avail (release p (f r))"
    using assms(4) avail_nonneg [of p] by simp
qed

end

interpretation kv: block_pool allocate_blocks free_blocks allocated_blocks num_free_blocks
    num_blocks_needed kv_inv
proof
  show "kv_inv p' \<and> distinct bs \<and> set bs \<inter> allocated_blocks p = {}
      \<and> allocated_blocks p' = allocated_blocks p \<union> set bs
      \<and> int (length bs) = max 0 (num_blocks_needed p t - c) \<and> num_blocks_needed p' = num_blocks_needed p"
    if "kv_inv p" "allocate_blocks p t c = (Some bs, p')" for p t c bs p'
    using allocate_blocks_Some [OF that] by (auto simp: num_blocks_needed_def fun_eq_iff)
  show "p' = p \<and> num_free_blocks p < num_blocks_needed p t - c"
    if "allocate_blocks p t c = (None, p')" for p t c p'
    using that by (simp add: allocate_blocks_None)
  show "fst (allocate_blocks p t c) \<noteq> None"
    if "num_blocks_needed p t - c \<le> num_free_blocks p \<or> num_blocks_needed p t \<le> c" for p t c
    using that by (auto simp: allocate_blocks_def Let_def num_free_blocks_def split: prod.splits)
  show "allocated_blocks (free_blocks p bs) = allocated_blocks p - set bs" if "kv_inv p" for p bs
    using free_blocks_spec [OF that] by simp
  show "num_free_blocks (free_blocks p bs) = num_free_blocks p + int (length bs)"
    if "kv_inv p" "set bs \<subseteq> allocated_blocks p" "distinct bs" for p bs
  proof -
    have "free_blocks_set (free_blocks p bs) = free_blocks_set p \<union> set bs"
      using free_blocks_spec [OF that(1), of bs] that(2) by auto
    moreover have "free_blocks_set p \<inter> set bs = {}" using that(1,2) by (auto simp: kv_inv_def)
    ultimately show ?thesis
      using kv_inv_finite [OF that(1)] that(3)
      by (simp add: num_free_blocks_def card_Un_disjoint distinct_card)
  qed
  show "kv_inv (free_blocks p bs) \<and> num_blocks_needed (free_blocks p bs) = num_blocks_needed p"
    if "kv_inv p" for p bs
    using free_blocks_spec [OF that, of bs] by (auto simp: num_blocks_needed_def fun_eq_iff)
  show "0 \<le> num_free_blocks p" for p by (simp add: num_free_blocks_def)
qed

section \<open>The attention context\<close>

text \<open>
  \<open>KVCacheContext\<close>: tensors that the context only carries are of type \<open>'c\<close>; the thread-local
  storage is an option, \<open>None\<close> while no context has been set on the thread.
\<close>

record 'c kv_context =
  is_paged_attn :: bool
  key_cache :: "'c option"
  value_cache :: "'c option"
  block_tables :: "int list list option"
  slot_mapping :: "int list option"
  context_lens :: "int list option"
  query_start_loc :: "int list option"
  max_seqlen_q :: "int option"

definition context_post_init :: "'c kv_context \<Rightarrow> 'c kv_context res" where
  "context_post_init x =
     (if is_paged_attn x then
        if key_cache x = None then Raise AssertionError
        else if value_cache x = None then Raise AssertionError
        else if block_tables x = None then Raise AssertionError
        else if context_lens x = None then Raise AssertionError
        else Ok x
      else
        if query_start_loc x = None then Raise AssertionError
        else if context_lens x = None then Raise AssertionError
        else Ok x)"

definition set_kv_cache_context :: "'c kv_context \<Rightarrow> 'c kv_context option \<Rightarrow> 'c kv_context option res" where
  "set_kv_cache_context x storage = rbind (context_post_init x) (\<lambda>c. Ok (Some c))"

definition get_kv_cache_context :: "'c kv_context option \<Rightarrow> 'c kv_context option" where
  "get_kv_cache_context storage = storage"

definition has_kv_cache_context :: "'c kv_context option \<Rightarrow> bool" where
  "has_kv_cache_context storage \<longleftrightarrow> storage \<noteq> None"

section \<open>The cache tensors\<close>

text \<open>Shapes chosen by \<open>KVCacheStore.__init__\<close>; optional attributes of the model configuration are options.\<close>

record hf_dims =
  num_hidden_layers :: nat
  num_key_value_heads :: int
  num_attention_heads :: int
  hidden_size :: int
  head_dim :: "int option"
  qk_head_dim :: "int option"
  v_head_dim :: "int option"

definition cache_shapes ::
    "hf_dims \<Rightarrow> cache_config \<Rightarrow> (nat \<times> (int \<times> int \<times> int \<times> int) \<times> (int \<times> int \<times> int \<times> int)) list" where
  "cache_shapes h c =
     (let default_head_dim = (case head_dim h of
            None \<Rightarrow> hidden_size h div num_attention_heads h | Some d \<Rightarrow> d);
          k_head_dim = (case qk_head_dim h of None \<Rightarrow> default_head_dim | Some d \<Rightarrow> d);
          v_dim = (case v_head_dim h of None \<Rightarrow> k_head_dim | Some d \<Rightarrow> d);
          k_shape = (max_cache_blocks c, page_size c, num_key_value_heads h, k_head_dim);
          v_shape = (max_cache_blocks c, page_size c, num_key_value_heads h, v_dim)
      in map (\<lambda>layer. (layer, k_shape, v_shape)) [0..<num_hidden_layers h])"

text \<open>
  The store kernel works on raw memory, a function from offsets to values. Program \<open>idx\<close> loads one
  row of \<open>D\<close> values and stores it at its slot; \<open>BLOCK_D\<close> lanes run, those beyond \<open>D\<close> are masked. Offsets are
  unbounded integers; the kernel computes \<open>slot * D\<close> in the width of the slots, so the model is exact for caches
  whose offsets fit it.
\<close>

type_synonym 'v memory = "int \<Rightarrow> 'v"

definition store_cache_kernel ::
    "'v memory \<Rightarrow> int \<Rightarrow> int list \<Rightarrow> nat \<Rightarrow> nat \<Rightarrow> nat \<Rightarrow> 'v memory \<Rightarrow> 'v memory" where
  "store_cache_kernel src src_stride slots D BLOCK_D idx mem =
     (let slot = slots ! idx
      in if slot = -1 then mem
         else fold (\<lambda>off m. if off < D
                then m(slot * int D + int off := src (int idx * src_stride + int off)) else m)
              [0..<BLOCK_D] mem)"

record 'v row_tensor =
  rt_data :: "'v memory"
  rt_rows :: nat
  rt_num_heads :: nat
  rt_head_dim :: nat
  rt_stride0 :: int
  rt_stride1 :: int
  rt_stride_last :: int

text \<open>\<open>pow2\<close> stands for \<open>triton.next_power_of_2\<close>; \<open>cache_stride1\<close> is \<open>cache.stride(1)\<close>.\<close>

definition store_single_cache ::
    "(nat \<Rightarrow> nat) \<Rightarrow> 'v row_tensor \<Rightarrow> int \<Rightarrow> int list \<Rightarrow> 'v memory \<Rightarrow> 'v memory res" where
  "store_single_cache pow2 t cache_stride1 slots mem =
     (let D = rt_num_heads t * rt_head_dim t
      in if rt_stride_last t \<noteq> 1 then Raise AssertionError
         else if rt_stride1 t \<noteq> int (rt_head_dim t) then Raise AssertionError
         else if cache_stride1 \<noteq> int D then Raise AssertionError
         else Ok (fold (store_cache_kernel (rt_data t) (rt_stride0 t) slots D (pow2 D)) [0..<rt_rows t] mem))"

definition store_kvcache ::
    "(nat \<Rightarrow> nat) \<Rightarrow> 'v row_tensor \<Rightarrow> 'v row_tensor \<Rightarrow> int \<Rightarrow> int \<Rightarrow> int list
       \<Rightarrow> 'v memory \<Rightarrow> 'v memory \<Rightarrow> ('v memory \<times> 'v memory) res" where
  "store_kvcache pow2 key val k_stride1 v_stride1 slots k_cache v_cache =
     (if length slots \<noteq> rt_rows key then Raise AssertionError
      else rbind (store_single_cache pow2 key k_stride1 slots k_cache) (\<lambda>k'.
           rbind (store_single_cache pow2 val v_stride1 slots v_cache) (\<lambda>v'. Ok (k', v'))))"

text \<open>What one program writes: its row, in its slot, and nothing else.\<close>

lemma fold_masked_store:
  assumes "distinct offs"
  shows "fold (\<lambda>off m. if off < D then m(b + int off := f off) else m) offs mem a =
    (if \<exists>off\<in>set offs. off < D \<and> a = b + int off then f (nat (a - b)) else mem a)"
  using assms by (induction offs arbitrary: mem) auto

lemma store_cache_kernel_spec:
  assumes "D \<le> BLOCK_D" "slots ! idx \<noteq> -1"
  shows "store_cache_kernel src st slots D BLOCK_D idx mem a =
    (if slots ! idx * int D \<le> a \<and> a < slots ! idx * int D + int D
     then src (int idx * st + (a - slots ! idx * int D)) else mem a)"
proof -
  let ?b = "slots ! idx * int D"
  have "(\<exists>off\<in>set [0..<BLOCK_D]. off < D \<and> a = ?b + int off) \<longleftrightarrow> ?b \<le> a \<and> a < ?b + int D"
  proof
    assume "?b \<le> a \<and> a < ?b + int D"
    then have "nat (a - ?b) < D" "a = ?b + int (nat (a - ?b))" by linarith+
    with assms(1) show "\<exists>off\<in>set [0..<BLOCK_D]. off < D \<and> a = ?b + int off" by force
  qed auto
  then show ?thesis
    using assms(2) by (simp add: store_cache_kernel_def fold_masked_store)
qed

lemma store_cache_kernel_skip:
  "slots ! idx = -1 \<Longrightarrow> store_cache_kernel src st slots D BLOCK_D idx mem = mem"
  by (simp add: store_cache_kernel_def)

lemma slot_ranges_disjoint:
  assumes "s * int D \<le> a" "a < s * int D + int D" "s' * int D \<le> a" "a < s' * int D + int D"
  shows "s = s'"
proof -
  have "0 < int D" using assms(1,2) by linarith
  have "a div int D = s"
    using assms(1,2) by (intro int_div_pos_eq [where r = "a - s * int D"]) auto
  moreover have "a div int D = s'"
    using assms(3,4) by (intro int_div_pos_eq [where r = "a - s' * int D"]) auto
  ultimately show ?thesis by simp
qed

text \<open>
  Programs of a launch run in no fixed order. With distinct slots every order leaves the same
  memory: row \<open>i\<close> in slot \<open>i\<close>, everything else as it was.
\<close>

definition in_slot :: "int \<Rightarrow> nat \<Rightarrow> int \<Rightarrow> bool" where
  "in_slot s D a \<longleftrightarrow> s \<noteq> -1 \<and> s * int D \<le> a \<and> a < s * int D + int D"

definition slots_distinct :: "int list \<Rightarrow> nat set \<Rightarrow> bool" where
  "slots_distinct slots I \<longleftrightarrow> (\<forall>i\<in>I. \<forall>j\<in>I. i \<noteq> j \<longrightarrow> slots ! i = slots ! j \<longrightarrow> slots ! i = -1)"

lemma store_cache_kernel_eq:
  "D \<le> BLOCK_D \<Longrightarrow> store_cache_kernel src st slots D BLOCK_D i mem a =
    (if in_slot (slots ! i) D a then src (int i * st + (a - slots ! i * int D)) else mem a)"
  by (cases "slots ! i = -1") (auto simp: in_slot_def store_cache_kernel_spec store_cache_kernel_skip)

lemma fold_store_untouched:
  assumes "D \<le> BLOCK_D" "\<And>i. i \<in> set ord \<Longrightarrow> \<not> in_slot (slots ! i) D a"
  shows "fold (store_cache_kernel src st slots D BLOCK_D) ord mem a = mem a"
  using assms(2) by (induction ord arbitrary: mem) (auto simp: store_cache_kernel_eq [OF assms(1)])

lemma fold_store_written:
  assumes "D \<le> BLOCK_D" "distinct ord" "slots_distinct slots (set ord)" "i \<in> set ord"
    and "in_slot (slots ! i) D a"
  shows "fold (store_cache_kernel src st slots D BLOCK_D) ord mem a = src (int i * st + (a - slots ! i * int D))"
proof -
  obtain p q where ord: "ord = p @ i # q" "i \<notin> set q"
    using assms(2,4) by (metis in_set_conv_decomp distinct.simps(2) distinct_append)
  have "\<not> in_slot (slots ! j) D a" if "j \<in> set q" for j
    using that assms(3,4,5) ord slot_ranges_disjoint [of "slots ! i" D a "slots ! j"]
    by (auto simp: slots_distinct_def in_slot_def)
  then have "fold (store_cache_kernel src st slots D BLOCK_D) q m a = m a" for m
    by (rule fold_store_untouched [OF assms(1)])
  then show ?thesis
    using assms(5) by (simp add: ord store_cache_kernel_eq [OF assms(1), of _ _ _ i])
qed

lemma fold_store_order_irrelevant:
  assumes "D \<le> BLOCK_D" "distinct ord" "distinct ord'" "set ord' = set ord"
    and "slots_distinct slots (set ord)"
  shows "fold (store_cache_kernel src st slots D BLOCK_D) ord mem =
    fold (store_cache_kernel src st slots D BLOCK_D) ord' mem"
proof
  fix a
  show "fold (store_cache_kernel src st slots D BLOCK_D) ord mem a =
    fold (store_cache_kernel src st slots D BLOCK_D) ord' mem a"
  proof (cases "\<exists>i\<in>set ord. in_slot (slots ! i) D a")
    case True
    then obtain i where "i \<in> set ord" "in_slot (slots ! i) D a" by blast
    then show ?thesis using fold_store_written assms by metis
  next
    case False
    then show ?thesis using fold_store_untouched [OF assms(1)] assms(4) by metis
  qed
qed

end
