(* ===== verification/Runtime_Data.thy ===== *)
theory Runtime_Data
  imports Request KV_Cache
begin

text \<open>
  The data a forward pass runs on (\<open>vexact/core/runtime_data.py\<close>): the generation context that
  travels along the pipeline, the output of the last rank, and the preallocated buffers that a
  captured graph reads. A tensor is the list of its rows; the leading batch dimension of size one is
  dropped. NumPy's \<open>int32\<close> arrays reject a Python integer that does not fit and wrap a sum of
  \<open>int32\<close> scalars.
\<close>

section \<open>32-bit arrays\<close>

definition fits32 :: "int \<Rightarrow> bool" where
  "fits32 n \<longleftrightarrow> - (2 ^ 31) \<le> n \<and> n < 2 ^ 31"

definition np_int32 :: "int \<Rightarrow> int res" where
  "np_int32 n = (if fits32 n then Ok n else Raise OverflowError)"

definition wrap32 :: "int \<Rightarrow> int" where
  "wrap32 n = (n + 2 ^ 31) mod 2 ^ 32 - 2 ^ 31"

definition np_add32 :: "int \<Rightarrow> int \<Rightarrow> int res" where
  "np_add32 a b = rbind (np_int32 b) (\<lambda>c. Ok (wrap32 (a + c)))"

definition np_set32 :: "int list \<Rightarrow> int \<Rightarrow> int \<Rightarrow> int list res" where
  "np_set32 xs i v = rbind (py_set xs i v) (\<lambda>ys. rbind (np_int32 v) (\<lambda>_. Ok ys))"

lemma wrap32_fits: "fits32 n \<Longrightarrow> wrap32 n = n"
  by (simp add: fits32_def wrap32_def)

lemma np_int32_Ok [simp]: "fits32 n \<Longrightarrow> np_int32 n = Ok n"
  by (simp add: np_int32_def)

lemma np_add32_Ok: "fits32 b \<Longrightarrow> fits32 (a + b) \<Longrightarrow> np_add32 a b = Ok (a + b)"
  by (simp add: np_add32_def wrap32_fits)

lemma np_set32_Ok: "i < length xs \<Longrightarrow> fits32 v \<Longrightarrow> np_set32 xs (int i) v = Ok (xs[i := v])"
  by (simp add: np_set32_def py_set_in_range)

section \<open>The generation context\<close>

record 'f generation_context =
  g_batch_input_ids :: "int list option"
  g_intermediate_tensors :: "'f list list option"
  g_query_start_loc :: "int list"
  g_batch_position_ids :: "int list"
  g_block_tables :: "int list list"
  g_context_lens :: "int list"
  g_slot_mapping :: "int list"
  g_max_seqlen_q :: int
  g_generation_configs :: "'f generation_config list"
  g_tokens_generated :: "int list"

record 'f inferencer_output =
  token_ids :: "int list"
  logits :: "'f list list"
  logprobs :: "'f list"

section \<open>Input buffers\<close>

record 'f input_buffers =
  buf_max_num_seqs :: nat
  buf_max_num_batched_tokens :: nat
  max_blocks_per_req :: nat
  buf_slot_mapping :: "int list"
  buf_context_lens :: "int list"
  buf_query_start_loc :: "int list"
  buf_block_tables :: "int list list"
  buf_input_ids :: "int list"
  buf_intermediate_tensors :: "'f list list"
  buf_position_ids :: "int list"
  buf_last_token_idx :: "int list"

text \<open>Freshly created buffers; the arrays made without a fill value hold arbitrary contents \<open>g\<close>.\<close>

definition make_buffers :: "int \<Rightarrow> 'f \<Rightarrow> nat \<Rightarrow> nat \<Rightarrow> nat \<Rightarrow> nat \<Rightarrow> 'f input_buffers" where
  "make_buffers g z n_seqs n_tokens n_blocks hidden =
     \<lparr>buf_max_num_seqs = n_seqs, buf_max_num_batched_tokens = n_tokens, max_blocks_per_req = n_blocks,
      buf_slot_mapping = replicate n_tokens g, buf_context_lens = replicate n_seqs g,
      buf_query_start_loc = replicate (n_seqs + 1) g,
      buf_block_tables = replicate n_seqs (replicate n_blocks (-1)),
      buf_input_ids = replicate n_tokens 0,
      buf_intermediate_tensors = replicate n_tokens (replicate hidden z),
      buf_position_ids = replicate n_tokens 0,
      buf_last_token_idx = replicate n_seqs 0\<rparr>"

text \<open>
  \<open>xs[a:b].copy_(ys)\<close> of PyTorch: the slice is clamped, a single row is broadcast over it, and
  otherwise its length must be that of \<open>ys\<close>.
\<close>

definition copy_slice :: "nat \<Rightarrow> 'a list \<Rightarrow> 'a list \<Rightarrow> nat \<Rightarrow> 'a list res" where
  "copy_slice a ys xs b =
     (let lo = min a (length xs); hi = min b (length xs);
          rows = (if length ys = 1 then replicate (hi - lo) (hd ys) else ys)
      in if hi - lo = length rows then Ok (take lo xs @ rows @ drop (max lo hi) xs)
         else Raise RuntimeError)"

definition fill_slice :: "nat \<Rightarrow> 'a \<Rightarrow> 'a list \<Rightarrow> nat \<Rightarrow> 'a list" where
  "fill_slice a v xs b = map (\<lambda>(i, x). if a \<le> i \<and> i < b then v else x) (enumerate 0 xs)"

lemma copy_slice_Ok:
  "a \<le> b \<Longrightarrow> b \<le> length xs \<Longrightarrow> length ys = b - a \<Longrightarrow>
    copy_slice a ys xs b = Ok (take a xs @ ys @ drop b xs)"
  by (cases ys) (auto simp: copy_slice_def max_def)

lemma length_fill_slice [simp]: "length (fill_slice a v xs b) = length xs"
  by (simp add: fill_slice_def)

lemma nth_fill_slice: "i < length xs \<Longrightarrow> fill_slice a v xs b ! i = (if a \<le> i \<and> i < b then v else xs ! i)"
  by (simp add: fill_slice_def nth_enumerate_eq)

text \<open>\<open>last_token_idx[:n] = query_start_loc[1 : n + 1] - 1\<close>.\<close>

definition fill_last_token_idx :: "nat \<Rightarrow> 'f input_buffers \<Rightarrow> 'f input_buffers res" where
  "fill_last_token_idx n b =
     rbind (copy_slice 0 (map (\<lambda>x. x - 1) (take n (drop 1 (buf_query_start_loc b)))) (buf_last_token_idx b) n)
       (\<lambda>xs. Ok (b\<lparr>buf_last_token_idx := xs\<rparr>))"

definition get_kv_context_tensors ::
    "'f input_buffers \<Rightarrow> nat \<Rightarrow> nat \<Rightarrow> int list list \<times> int list \<times> int list \<times> int list" where
  "get_kv_context_tensors b num_seqs num_tokens =
     (take num_seqs (buf_block_tables b), take num_seqs (buf_context_lens b),
      take num_tokens (buf_slot_mapping b), take (num_seqs + 1) (buf_query_start_loc b))"

end
