(* ===== verification/Scheduler.thy ===== *)
theory Scheduler
  imports Runtime_Data
begin

text \<open>
  The scheduler of \<open>vexact/core/scheduler.py\<close>. Requests are objects shared between the request
  queue, the in-flight batches, the result queue and the lists a step hands to the inferencer, so
  the model keeps an object store and passes references: \<open>store s r\<close> is the object behind \<open>r\<close>, and
  a mutation updates the store. \<open>victim is request\<close> compares references.

  Two facts of the source live outside the sequential model and are explicit here. A blocking
  \<open>put\<close> on a full bounded queue never returns, because the only consumer of the queue is the thread
  that puts: its outcome is \<open>Hang\<close>. The fair-share quotient is computed in double precision; it is
  the argument \<open>fair_quot\<close> of \<open>schedule\<close>.
\<close>

section \<open>State\<close>

type_synonym ref = nat

record 'f sched =
  store :: "ref \<Rightarrow> 'f inference_request"
  sconfig :: scheduler_config
  kvm :: kv_manager
  request_queue :: "ref list"
  inflight_batches :: "(string \<times> ref) list list"
  current_batch_idx :: nat
  result_queue :: "ref list list"
  total_requests :: int

definition init_sched ::
    "scheduler_config \<Rightarrow> kv_manager \<Rightarrow> pp_info \<Rightarrow> (ref \<Rightarrow> 'f inference_request) \<Rightarrow> 'f sched" where
  "init_sched c m p objs =
     \<lparr>store = objs, sconfig = c, kvm = m, request_queue = [],
      inflight_batches = replicate (nat (pp_size p)) [],
      current_batch_idx = 0, result_queue = [], total_requests = 0\<rparr>"

definition upd_obj :: "ref \<Rightarrow> ('f inference_request \<Rightarrow> 'f inference_request) \<Rightarrow> 'f sched \<Rightarrow> 'f sched" where
  "upd_obj r f s = s\<lparr>store := (store s)(r := f (store s r))\<rparr>"

definition active_requests :: "'f sched \<Rightarrow> (string \<times> ref) list" where
  "active_requests s = inflight_batches s ! current_batch_idx s"

definition set_active :: "(string \<times> ref) list \<Rightarrow> 'f sched \<Rightarrow> 'f sched" where
  "set_active d s = s\<lparr>inflight_batches := (inflight_batches s)[current_batch_idx s := d]\<rparr>"

definition get_snapshot :: "'f sched \<Rightarrow> (string \<times> ref) list \<Rightarrow> ref list" where
  "get_snapshot s batch = filter (\<lambda>r. \<not> is_finished (store s r)) (od_values batch)"

definition total_inflight_request_count :: "'f sched \<Rightarrow> nat" where
  "total_inflight_request_count s = sum_list (map length (inflight_batches s))"

definition queue_size :: "'f sched \<Rightarrow> nat" where
  "queue_size s = length (request_queue s)"

section \<open>The request queue\<close>

text \<open>\<open>queue.Queue(maxsize)\<close>: a \<open>maxsize\<close> of zero or less means unbounded.\<close>

definition queue_is_full :: "'f sched \<Rightarrow> bool" where
  "queue_is_full s \<longleftrightarrow>
     0 < max_queue_size (sconfig s) \<and> max_queue_size (sconfig s) \<le> int (length (request_queue s))"

definition queue_put :: "ref \<Rightarrow> 'f sched \<Rightarrow> 'f sched res" where
  "queue_put r s = (if queue_is_full s then Hang else Ok (s\<lparr>request_queue := request_queue s @ [r]\<rparr>))"

definition submit_request :: "ref \<Rightarrow> 'f sched \<Rightarrow> bool \<times> 'f sched" where
  "submit_request r s =
     (if queue_is_full s
      then (False, (upd_obj r fail s)\<lparr>result_queue := result_queue s @ [[r]]\<rparr>)
      else (True, s\<lparr>request_queue := request_queue s @ [r], total_requests := total_requests s + 1\<rparr>))"

section \<open>Planning, activation, preemption\<close>

definition plan_tokens_for_request :: "bool \<Rightarrow> 'f inference_request \<Rightarrow> int \<Rightarrow> int \<times> int" where
  "plan_tokens_for_request chunked r available_token_budget =
     (let num_comp = num_computed_tokens r;
          input_len = int (length (input_ids_list r));
          prefill_remaining = max 0 (input_len - num_comp)
      in if prefill_remaining = 0 then (1, num_comp + 1)
         else if chunked then
           (let tokens = min available_token_budget prefill_remaining in (tokens, num_comp + tokens))
         else (input_len, input_len))"

definition set_plan :: "int \<Rightarrow> int \<Rightarrow> 'f inference_request \<Rightarrow> 'f inference_request" where
  "set_plan tokens next_num_comp r = r\<lparr>tokens_this_step := tokens, num_computed_tokens := next_num_comp\<rparr>"

definition extend_blocks :: "int list \<Rightarrow> 'f inference_request \<Rightarrow> 'f inference_request" where
  "extend_blocks bs r = r\<lparr>block_ids := block_ids r @ bs\<rparr>"

definition activate_request :: "ref \<Rightarrow> 'f sched \<Rightarrow> 'f sched res" where
  "activate_request r s =
     (let (new_blocks, m) = allocate_blocks (kvm s) (int (length (input_ids_list (store s r)))) 0
      in case new_blocks of
           None \<Rightarrow> Raise RuntimeError
         | Some bs \<Rightarrow>
             let s1 = upd_obj r (\<lambda>q. activate (extend_blocks bs q)) (s\<lparr>kvm := m\<rparr>)
             in Ok (set_active (od_set (request_id (store s1 r)) r (active_requests s1)) s1))"

definition preempt_request :: "ref \<Rightarrow> 'f sched \<Rightarrow> 'f sched res" where
  "preempt_request r s =
     (let s1 = s\<lparr>kvm := free_blocks (kvm s) (block_ids (store s r))\<rparr>;
          s2 = upd_obj r preempt s1;
          s3 = set_active (od_pop (request_id (store s2 r)) (active_requests s2)) s2
      in queue_put r s3)"

definition finalize_request :: "ref \<Rightarrow> 'f sched \<Rightarrow> 'f sched" where
  "finalize_request r s =
     (let s1 = s\<lparr>kvm := free_blocks (kvm s) (block_ids (store s r))\<rparr>;
          s2 = upd_obj r finish s1
      in set_active (od_pop (request_id (store s2 r)) (active_requests s2)) s2)"

text \<open>\<open>min(xs, key=f)\<close>: the first of the smallest elements; \<open>ValueError\<close> when there is none.\<close>

fun first_min :: "('a \<Rightarrow> int) \<Rightarrow> 'a list \<Rightarrow> 'a res" where
  "first_min f [] = Raise ValueError"
| "first_min f (x # xs) = Ok (foldl (\<lambda>best y. if f y < f best then y else best) x xs)"

definition extend_or_preempt :: "ref \<Rightarrow> 'f sched \<Rightarrow> (bool \<times> 'f sched) res" where
  "extend_or_preempt r s =
     (let total_tokens = num_computed_tokens (store s r);
          (new_blocks, m) = allocate_blocks (kvm s) total_tokens (int (length (block_ids (store s r))))
      in case new_blocks of
           Some bs \<Rightarrow> Ok (True, upd_obj r (extend_blocks bs) (s\<lparr>kvm := m\<rparr>))
         | None \<Rightarrow>
             rbind (first_min (\<lambda>x. num_computed_tokens (store s x)) (od_values (active_requests s))) (\<lambda>victim.
             rbind (preempt_request victim s) (\<lambda>s1.
               if victim = r then Ok (False, s1)
               else
                 let (new_blocks2, m2) =
                       allocate_blocks (kvm s1) total_tokens (int (length (block_ids (store s1 r))))
                 in case new_blocks2 of
                      Some bs \<Rightarrow> Ok (True, upd_obj r (extend_blocks bs) (s1\<lparr>kvm := m2\<rparr>))
                    | None \<Rightarrow> Ok (False, s1))))"

section \<open>One scheduling step\<close>

text \<open>The body of the loop over \<open>list(self._active_requests.values())\<close>, then the loop.\<close>

definition plan_active :: "ref \<Rightarrow> 'f sched \<times> int \<Rightarrow> ('f sched \<times> int) res" where
  "plan_active r st =
     (let (s, budget) = st in
      if request_id (store s r) \<notin> set (od_keys (active_requests s)) then Ok (s, budget)
      else
        let (tokens, next_num_comp) =
              plan_tokens_for_request (enable_chunked_prefill (sconfig s)) (store s r) budget
        in rbind (extend_or_preempt r (upd_obj r (set_plan tokens next_num_comp) s)) (\<lambda>(ok, s2).
             Ok (s2, if ok then budget - tokens else budget)))"

definition plan_loop :: "ref list \<Rightarrow> 'f sched \<times> int \<Rightarrow> ('f sched \<times> int) res" where
  "plan_loop = for_res plan_active"

text \<open>The sequence budget of the step, with the fair share of a pipeline slot.\<close>

definition seqs_budget_for :: "(int \<Rightarrow> int \<Rightarrow> int \<Rightarrow> int) \<Rightarrow> 'f sched \<Rightarrow> int" where
  "seqs_budget_for fair_quot s =
     (let num_inflight_slots = int (length (inflight_batches s));
          seqs_budget = max_num_seqs (sconfig s) - int (length (active_requests s))
      in if 1 < num_inflight_slots \<and> enable_pp_fair_share (sconfig s) then
           let active_seqs = int (total_inflight_request_count s);
               fair_share_blocks = max 1 (num_free_blocks (kvm s) div num_inflight_slots)
           in min seqs_budget (max 1 (fair_quot fair_share_blocks (num_allocated_blocks (kvm s)) active_seqs))
         else seqs_budget)"

text \<open>The admission loop; every pass that does not leave it uses one unit of the sequence budget.\<close>

function admit_loop :: "int \<Rightarrow> int \<Rightarrow> 'f sched \<Rightarrow> 'f sched res" where
  "admit_loop budget seqs_budget s =
     (if 0 < budget \<and> 0 < seqs_budget then
        (case request_queue s of
           [] \<Rightarrow> Ok s
         | r # rest \<Rightarrow>
             let s1 = s\<lparr>request_queue := rest\<rparr>;
                 (tokens, next_num_comp) =
                   plan_tokens_for_request (enable_chunked_prefill (sconfig s1)) (store s1 r) budget
             in if tokens \<le> budget then
                  (case activate_request r s1 of
                     Ok s2 \<Rightarrow> admit_loop (budget - tokens) (seqs_budget - 1)
                                (upd_obj r (set_plan tokens next_num_comp) s2)
                   | Raise e \<Rightarrow> if e = RuntimeError then queue_put r s1 else Raise e
                   | Hang \<Rightarrow> Hang)
                else queue_put r s1)
      else Ok s)"
  by pat_completeness auto
termination
  by (relation "measure (\<lambda>(b, n, s). nat n)") auto

declare admit_loop.simps [simp del]

definition rotate_batch :: "'f sched \<Rightarrow> 'f sched" where
  "rotate_batch s = s\<lparr>current_batch_idx := (current_batch_idx s + 1) mod length (inflight_batches s)\<rparr>"

definition schedule ::
    "(int \<Rightarrow> int \<Rightarrow> int \<Rightarrow> int) \<Rightarrow> 'f sched \<Rightarrow> (ref list \<times> ref list \<times> 'f sched) res" where
  "schedule fair_quot s =
     rbind (plan_loop (od_values (active_requests s)) (s, max_num_batched_tokens (sconfig s))) (\<lambda>(s1, budget).
     rbind (admit_loop budget (seqs_budget_for fair_quot s1) s1) (\<lambda>s2.
       let batch_to_infer = get_snapshot s2 (active_requests s2);
           s3 = rotate_batch s2;
           batch_to_update = get_snapshot s3 (active_requests s3)
       in Ok (batch_to_infer, batch_to_update, s3)))"

section \<open>Processing a result\<close>

definition nth_opt :: "'a list \<Rightarrow> nat \<Rightarrow> 'a option" where
  "nth_opt xs i = (if i < length xs then Some (xs ! i) else None)"

definition process_generated_token ::
    "ref \<Rightarrow> int option \<Rightarrow> 'f list option \<Rightarrow> 'f option \<Rightarrow> 'f sched \<Rightarrow> (int \<times> 'f sched) res" where
  "process_generated_token r token_tensor lg lp s =
     (case token_tensor of
        None \<Rightarrow> Raise AttributeError
      | Some token_id \<Rightarrow>
          rbind (if output_logits (generation_config (store s r)) then
                   (case lg of
                      None \<Rightarrow> Raise AssertionError
                    | Some l \<Rightarrow> Ok (upd_obj r (\<lambda>q. q\<lparr>generated_logits := generated_logits q @ [l]\<rparr>) s))
                 else Ok s) (\<lambda>s1.
          rbind (if output_scores (generation_config (store s1 r)) then
                   (case lp of
                      None \<Rightarrow> Raise AssertionError
                    | Some p \<Rightarrow> Ok (upd_obj r (\<lambda>q. q\<lparr>generated_logprobs := generated_logprobs q @ [p]\<rparr>) s1))
                 else Ok s1) (\<lambda>s2.
            Ok (token_id, upd_obj r (\<lambda>q. q\<lparr>generated_tokens := generated_tokens q @ [token_id]\<rparr>) s2))))"

text \<open>One round of the \<open>zip_longest\<close> loop of \<open>update\<close>; the state carries the finished requests.\<close>

definition update_one ::
    "ref list \<Rightarrow> 'f inferencer_output \<Rightarrow> nat \<Rightarrow> 'f sched \<times> ref list \<Rightarrow> ('f sched \<times> ref list) res" where
  "update_one requests out i st =
     (let (s, finished) = st in
      case nth_opt requests i of
        None \<Rightarrow> Raise AttributeError
      | Some r \<Rightarrow>
          if is_finished (store s r) then Ok (s, finished)
          else if num_computed_tokens (store s r) < int (length (input_ids_list (store s r)))
          then Ok (s, finished)
          else
            rbind (process_generated_token r (nth_opt (token_ids out) i) (nth_opt (logits out) i)
                     (nth_opt (logprobs out) i) s) (\<lambda>(token_id, s1).
            rbind (should_finish (store s1 r) token_id) (\<lambda>stop.
              if stop then Ok (finalize_request r s1, finished @ [r]) else Ok (s1, finished))))"

definition update :: "ref list \<Rightarrow> 'f inferencer_output \<Rightarrow> 'f sched \<Rightarrow> 'f sched res" where
  "update requests out s =
     (let n = max (length requests) (max (length (token_ids out)) (max (length (logits out)) (length (logprobs out))))
      in rbind (for_res (update_one requests out) [0..<n] (s, [])) (\<lambda>(s1, finished).
           Ok (if finished = [] then s1 else s1\<lparr>result_queue := result_queue s1 @ [finished]\<rparr>)))"

text \<open>\<open>poll_results\<close>: with a timeout an empty queue yields the empty list, without one it blocks.\<close>

definition poll_results :: "bool \<Rightarrow> 'f sched \<Rightarrow> (ref list \<times> 'f sched) res" where
  "poll_results has_timeout s =
     (case result_queue s of
        rs # rest \<Rightarrow> Ok (rs, s\<lparr>result_queue := rest\<rparr>)
      | [] \<Rightarrow> if has_timeout then Ok ([], s) else Hang)"

end
