(* ===== verification/Scheduler_Core.thy ===== *)
theory Scheduler_Core
  imports Scheduler
begin

text \<open>
  The invariant of the scheduler and its preservation by the primitive operations: object updates,
  block growth, preemption, activation and finalization.

  \<^item> \<open>all_refs\<close> lists the active requests of every batch slot; \<open>cur\<close> those of the current slot and
    \<open>outer\<close> those of the others. \<open>frame\<close> says that an operation left the other slots alone.
  \<^item> \<open>core X s\<close> is the structural invariant: indices, the block pool, no request in two places,
    distinct request ids, dictionary keys, the block ledger, block coverage (for the requests
    outside \<open>X\<close>) and the state of the queued requests.
\<close>

section \<open>Views of the state\<close>

definition cur :: "'f sched \<Rightarrow> ref list" where
  "cur s = od_values (active_requests s)"

definition outer :: "'f sched \<Rightarrow> ref list" where
  "outer s = concat (map od_values (take (current_batch_idx s) (inflight_batches s)))
     @ concat (map od_values (drop (Suc (current_batch_idx s)) (inflight_batches s)))"

definition all_refs :: "'f sched \<Rightarrow> ref list" where
  "all_refs s = concat (map od_values (inflight_batches s))"

abbreviation live :: "'f sched \<Rightarrow> ref set" where
  "live s \<equiv> set (all_refs s)"

abbreviation rid :: "'f sched \<Rightarrow> ref \<Rightarrow> string" where
  "rid s r \<equiv> request_id (store s r)"

abbreviation page :: "'f sched \<Rightarrow> int" where
  "page s \<equiv> page_size (kv_config (kvm s))"

abbreviation in_len :: "'f inference_request \<Rightarrow> int" where
  "in_len q \<equiv> int (length (input_ids_list q))"

definition idx_ok :: "'f sched \<Rightarrow> bool" where
  "idx_ok s \<longleftrightarrow> current_batch_idx s < length (inflight_batches s)"

lemma all_refs_split: "idx_ok s \<Longrightarrow> mset (all_refs s) = mset (cur s) + mset (outer s)"
proof -
  assume i: "idx_ok s"
  let ?i = "current_batch_idx s"
  have "inflight_batches s = take ?i (inflight_batches s) @ inflight_batches s ! ?i # drop (Suc ?i) (inflight_batches s)"
    using i by (simp add: idx_ok_def id_take_nth_drop [symmetric])
  then have "all_refs s = concat (map od_values (take ?i (inflight_batches s))) @ cur s
      @ concat (map od_values (drop (Suc ?i) (inflight_batches s)))"
    unfolding all_refs_def cur_def active_requests_def
    by (metis (no_types, lifting) concat.simps(2) concat_append list.simps(9) map_append)
  then show ?thesis by (simp add: outer_def)
qed

lemma live_split: "idx_ok s \<Longrightarrow> live s = set (cur s) \<union> set (outer s)"
  using all_refs_split [of s] by (metis set_mset_mset set_mset_union)

lemma distinct_all_refs:
  "idx_ok s \<Longrightarrow> distinct (all_refs s) \<longleftrightarrow>
    distinct (cur s) \<and> distinct (outer s) \<and> set (cur s) \<inter> set (outer s) = {}"
  using all_refs_split [of s] by (metis distinct_append mset_append mset_eq_imp_distinct_iff)

lemma outer_member:
  "idx_ok s \<Longrightarrow> r \<in> set (outer s) \<longleftrightarrow>
    (\<exists>i<length (inflight_batches s). i \<noteq> current_batch_idx s \<and> r \<in> set (od_values (inflight_batches s ! i)))"
proof -
  assume i: "idx_ok s"
  let ?c = "current_batch_idx s" and ?B = "inflight_batches s"
  have "r \<in> set (outer s) \<longleftrightarrow> (\<exists>b\<in>set (take ?c ?B) \<union> set (drop (Suc ?c) ?B). r \<in> set (od_values b))"
    by (auto simp: outer_def)
  also have "\<dots> \<longleftrightarrow> (\<exists>b. (\<exists>j<length ?B. j \<noteq> ?c \<and> ?B ! j = b) \<and> r \<in> set (od_values b))"
    unfolding Bex_def using others_member [of ?c ?B] i by (simp only: idx_ok_def)
  finally show ?thesis by blast
qed

section \<open>Phases of a request\<close>

definition req_ok :: "'f inference_request \<Rightarrow> bool" where
  "req_ok q \<longleftrightarrow> folded_ok q \<and> max_new_tokens (generation_config q) \<noteq> None"

definition synced :: "'f inference_request \<Rightarrow> bool" where
  "synced q \<longleftrightarrow> input_ids_list q = full_sequence q"

definition prefill_done :: "'f inference_request \<Rightarrow> bool" where
  "prefill_done q \<longleftrightarrow> in_len q \<le> num_computed_tokens q"

text \<open>Before a step plans it: in prefill, or with exactly its newest token not yet computed.\<close>

definition ready :: "'f inference_request \<Rightarrow> bool" where
  "ready q \<longleftrightarrow> req_ok q \<and> status q = RUNNING \<and> 0 \<le> num_computed_tokens q \<and>
     (if prefill_done q then num_computed_tokens q + 1 = int (length (full_sequence q)) else synced q)"

text \<open>After a step planned it and before its result arrives.\<close>

definition planned :: "'f inference_request \<Rightarrow> bool" where
  "planned q \<longleftrightarrow> req_ok q \<and> status q = RUNNING \<and> 1 \<le> tokens_this_step q \<and>
     tokens_this_step q \<le> num_computed_tokens q \<and>
     (if num_computed_tokens q \<le> in_len q then synced q
      else tokens_this_step q = 1 \<and> num_computed_tokens q = int (length (full_sequence q)))"

definition queued :: "'f inference_request \<Rightarrow> bool" where
  "queued q \<longleftrightarrow> req_ok q \<and> synced q \<and> status q = PENDING \<and> num_computed_tokens q = 0 \<and> block_ids q = []"

definition holds_blocks :: "int \<Rightarrow> 'f inference_request \<Rightarrow> bool" where
  "holds_blocks p q \<longleftrightarrow> int (length (block_ids q)) = ceil_div (max (in_len q) (num_computed_tokens q)) p"

lemma req_ok_in_len: "req_ok q \<Longrightarrow> 0 < in_len q"
  by (auto simp: req_ok_def folded_ok_def)

lemma holds_blocks_pos: "holds_blocks p q \<Longrightarrow> req_ok q \<Longrightarrow> 0 < p \<Longrightarrow> 1 \<le> int (length (block_ids q))"
  using ceil_div_pos [of p "max (in_len q) (num_computed_tokens q)"] req_ok_in_len [of q]
  unfolding holds_blocks_def by linarith

lemma ready_preempt_queued: "req_ok q \<Longrightarrow> queued (preempt q)"
  using preempt_folded [of q] preempt_input [of q] preempt_full_sequence [of q]
  by (simp add: queued_def req_ok_def synced_def)

section \<open>The structural invariant\<close>

definition keys_ok :: "'f sched \<Rightarrow> bool" where
  "keys_ok s \<longleftrightarrow> (\<forall>b\<in>set (inflight_batches s). \<forall>(k, r)\<in>set b. k = rid s r)"

definition core :: "ref set \<Rightarrow> 'f sched \<Rightarrow> bool" where
  "core X s \<longleftrightarrow>
     idx_ok s \<and> kv_inv (kvm s) \<and>
     distinct (all_refs s) \<and> distinct (request_queue s) \<and> live s \<inter> set (request_queue s) = {} \<and>
     inj_on (rid s) (live s \<union> set (request_queue s)) \<and>
     keys_ok s \<and>
     kv.ledger (kvm s) (live s) (\<lambda>r. block_ids (store s r)) \<and>
     (\<forall>r\<in>live s - X. holds_blocks (page s) (store s r)) \<and>
     (\<forall>r\<in>set (request_queue s). queued (store s r))"

definition frame :: "'f sched \<Rightarrow> 'f sched \<Rightarrow> bool" where
  "frame s s' \<longleftrightarrow>
     sconfig s' = sconfig s \<and> kv_config (kvm s') = kv_config (kvm s) \<and>
     current_batch_idx s' = current_batch_idx s \<and>
     length (inflight_batches s') = length (inflight_batches s) \<and>
     (\<forall>i<length (inflight_batches s). i \<noteq> current_batch_idx s \<longrightarrow>
        inflight_batches s' ! i = inflight_batches s ! i) \<and>
     (\<forall>r\<in>set (outer s). store s' r = store s r)"

lemma frame_refl [simp]: "frame s s"
  by (simp add: frame_def)

lemma frame_outer: "frame s s' \<Longrightarrow> outer s' = outer s"
proof -
  assume f: "frame s s'"
  let ?c = "current_batch_idx s"
  have "take ?c (inflight_batches s') = take ?c (inflight_batches s)"
    using f by (intro nth_equalityI) (auto simp: frame_def)
  moreover have "drop (Suc ?c) (inflight_batches s') = drop (Suc ?c) (inflight_batches s)"
    using f by (intro nth_equalityI) (auto simp: frame_def)
  ultimately show ?thesis using f by (simp add: outer_def frame_def)
qed

lemma frame_trans: "frame s t \<Longrightarrow> frame t u \<Longrightarrow> frame s u"
  using frame_outer [of s t] by (auto simp: frame_def)

lemma frame_idx: "frame s s' \<Longrightarrow> idx_ok s' = idx_ok s"
  by (simp add: frame_def idx_ok_def)

section \<open>Simplification of the state accessors\<close>

lemma upd_obj_simps [simp]:
  "store (upd_obj r f s) = (store s)(r := f (store s r))"
  "sconfig (upd_obj r f s) = sconfig s"
  "kvm (upd_obj r f s) = kvm s"
  "request_queue (upd_obj r f s) = request_queue s"
  "inflight_batches (upd_obj r f s) = inflight_batches s"
  "current_batch_idx (upd_obj r f s) = current_batch_idx s"
  "active_requests (upd_obj r f s) = active_requests s"
  "cur (upd_obj r f s) = cur s"
  "outer (upd_obj r f s) = outer s"
  "all_refs (upd_obj r f s) = all_refs s"
  "idx_ok (upd_obj r f s) = idx_ok s"
  "result_queue (upd_obj r f s) = result_queue s"
  by (simp_all add: upd_obj_def active_requests_def cur_def outer_def all_refs_def idx_ok_def)

lemma sched_update_simps [simp]:
  "active_requests (s\<lparr>kvm := m\<rparr>) = active_requests s"
  "active_requests (s\<lparr>request_queue := qs\<rparr>) = active_requests s"
  "active_requests (s\<lparr>result_queue := rs\<rparr>) = active_requests s"
  "cur (s\<lparr>kvm := m\<rparr>) = cur s"
  "cur (s\<lparr>request_queue := qs\<rparr>) = cur s"
  "cur (s\<lparr>result_queue := rs\<rparr>) = cur s"
  "outer (s\<lparr>kvm := m\<rparr>) = outer s"
  "outer (s\<lparr>request_queue := qs\<rparr>) = outer s"
  "outer (s\<lparr>result_queue := rs\<rparr>) = outer s"
  "all_refs (s\<lparr>kvm := m\<rparr>) = all_refs s"
  "all_refs (s\<lparr>request_queue := qs\<rparr>) = all_refs s"
  "all_refs (s\<lparr>result_queue := rs\<rparr>) = all_refs s"
  "idx_ok (s\<lparr>kvm := m\<rparr>) = idx_ok s"
  "idx_ok (s\<lparr>request_queue := qs\<rparr>) = idx_ok s"
  "idx_ok (s\<lparr>result_queue := rs\<rparr>) = idx_ok s"
  by (simp_all add: active_requests_def cur_def outer_def all_refs_def idx_ok_def)

lemma set_active_simps [simp]:
  "store (set_active d s) = store s"
  "sconfig (set_active d s) = sconfig s"
  "kvm (set_active d s) = kvm s"
  "request_queue (set_active d s) = request_queue s"
  "current_batch_idx (set_active d s) = current_batch_idx s"
  "result_queue (set_active d s) = result_queue s"
  "length (inflight_batches (set_active d s)) = length (inflight_batches s)"
  "idx_ok (set_active d s) = idx_ok s"
  "outer (set_active d s) = outer s"
  by (simp_all add: set_active_def idx_ok_def outer_def)

lemma set_active_cur: "idx_ok s \<Longrightarrow> active_requests (set_active d s) = d \<and> cur (set_active d s) = od_values d"
  by (simp add: set_active_def active_requests_def cur_def idx_ok_def)

end
