(* ===== verification/Scheduler_Ops.thy ===== *)
theory Scheduler_Ops
  imports Scheduler_Core
begin

text \<open>
  Every primitive operation of the scheduler keeps the structural invariant \<open>core\<close> and leaves the
  other batch slots alone. The block ledger of the pool interface carries the ownership part.
\<close>

section \<open>Consequences of the invariant\<close>

lemma core_cur:
  assumes "core X s"
  shows "distinct (cur s)" "distinct (outer s)" "set (cur s) \<inter> set (outer s) = {}"
    "live s = set (cur s) \<union> set (outer s)" "set (cur s) \<inter> set (request_queue s) = {}"
  using assms distinct_all_refs [of s] live_split [of s] by (auto simp: core_def)

lemma core_keys:
  assumes "core X s" "(k, r) \<in> set (active_requests s)"
  shows "k = rid s r"
proof -
  have "active_requests s \<in> set (inflight_batches s)"
    using assms(1) by (auto simp: core_def idx_ok_def active_requests_def)
  then show ?thesis using assms by (fastforce simp: core_def keys_ok_def)
qed

lemma core_active_entry: "core X s \<Longrightarrow> r \<in> set (cur s) \<Longrightarrow> (rid s r, r) \<in> set (active_requests s)"
  using core_keys [of X s] by (force simp: cur_def)

lemma core_id_in_keys:
  assumes "core X s" "r \<in> live s \<union> set (request_queue s)"
  shows "rid s r \<in> set (od_keys (active_requests s)) \<longleftrightarrow> r \<in> set (cur s)"
proof
  assume "rid s r \<in> set (od_keys (active_requests s))"
  then obtain r' where r': "(rid s r, r') \<in> set (active_requests s)" by auto
  then have "rid s r = rid s r'" "r' \<in> set (cur s)"
    using core_keys [OF assms(1)] by (force simp: cur_def)+
  moreover have "inj_on (rid s) (live s \<union> set (request_queue s))" using assms(1) by (simp add: core_def)
  ultimately have "r = r'" using assms(2) core_cur(4) [OF assms(1)] by (auto dest: inj_onD)
  then show "r \<in> set (cur s)" using \<open>r' \<in> set (cur s)\<close> by simp
next
  assume "r \<in> set (cur s)"
  then show "rid s r \<in> set (od_keys (active_requests s))"
    using core_active_entry [OF assms(1)] by force
qed

lemma core_distinct_keys:
  assumes "core X s"
  shows "distinct (od_keys (active_requests s))"
proof -
  have "od_keys (active_requests s) = map (rid s) (cur s)"
    using core_keys [OF assms] by (auto simp: cur_def)
  moreover have "inj_on (rid s) (set (cur s))"
    using assms core_cur(4) [OF assms] by (auto simp: core_def intro: inj_on_subset)
  ultimately show ?thesis using core_cur(1) [OF assms] by (simp add: distinct_map)
qed

lemma core_weaken: "core X s \<Longrightarrow> core (insert r X) s"
  by (auto simp: core_def)

lemma core_restore: "core (insert r X) s \<Longrightarrow> holds_blocks (page s) (store s r) \<Longrightarrow> core X s"
  by (auto simp: core_def)

lemma core_page: "core X s \<Longrightarrow> 0 < page s"
  by (simp add: core_def kv_inv_def)

lemma keys_ok_same: "rid s' = rid s \<Longrightarrow> inflight_batches s' = inflight_batches s \<Longrightarrow> keys_ok s' = keys_ok s"
  by (simp add: keys_ok_def fun_eq_iff)

lemma keys_ok_insert:
  assumes "keys_ok s" "rid s' = rid s" "set (inflight_batches s') \<subseteq> insert d (set (inflight_batches s))"
    and "\<And>k r. (k, r) \<in> set d \<Longrightarrow> k = rid s r"
  shows "keys_ok s'"
proof -
  have "k = rid s' r" if "b \<in> set (inflight_batches s')" "(k, r) \<in> set b" for b k r
  proof -
    have "b = d \<or> b \<in> set (inflight_batches s)" using assms(3) that(1) by blast
    then have "k = rid s r" using assms(1,4) that(2) by (auto simp: keys_ok_def)
    then show ?thesis by (simp add: assms(2) [THEN fun_cong])
  qed
  then show ?thesis by (auto simp: keys_ok_def)
qed

lemma core_keys_ok: "core X s \<Longrightarrow> keys_ok s"
  by (simp add: core_def)

section \<open>Object updates and block growth\<close>

lemma core_upd:
  assumes "core X s" "r \<in> set (cur s)"
    and "request_id (f (store s r)) = rid s r" "block_ids (f (store s r)) = block_ids (store s r)"
  shows "core (insert r X) (upd_obj r f s)" "frame s (upd_obj r f s)"
proof -
  have rq: "r \<notin> set (request_queue s)" "r \<notin> set (outer s)"
    using core_cur [OF assms(1)] assms(2) by auto
  have ids: "rid (upd_obj r f s) = rid s" using assms(3) by (auto simp: fun_eq_iff)
  have bl: "(\<lambda>x. block_ids (store (upd_obj r f s) x)) = (\<lambda>x. block_ids (store s x))"
    using assms(4) by (auto simp: fun_eq_iff)
  have "keys_ok (upd_obj r f s)"
    using keys_ok_same [OF ids] core_keys_ok [OF assms(1)] by simp
  then show "core (insert r X) (upd_obj r f s)"
    using assms(1) rq unfolding core_def ids bl by auto
  show "frame s (upd_obj r f s)" using rq by (auto simp: frame_def)
qed

lemma core_grow:
  assumes "core X s" "r \<in> set (cur s)" "allocate_blocks (kvm s) t c = (Some bs, m)"
  shows "core (insert r X) (upd_obj r (extend_blocks bs) (s\<lparr>kvm := m\<rparr>))"
    "frame s (upd_obj r (extend_blocks bs) (s\<lparr>kvm := m\<rparr>))"
proof -
  let ?s = "upd_obj r (extend_blocks bs) (s\<lparr>kvm := m\<rparr>)"
  have inv: "kv_inv (kvm s)" using assms(1) by (simp add: core_def)
  have m: "kv_inv m" "kv_config m = kv_config (kvm s)"
    using allocate_blocks_Some [OF inv assms(3)] by auto
  have rq: "r \<notin> set (request_queue s)" "r \<notin> set (outer s)" "r \<in> live s"
    using core_cur [OF assms(1)] assms(2) by auto
  have ids: "rid ?s = rid s" by (auto simp: fun_eq_iff extend_blocks_def)
  have "kv.ledger m (live s) ((\<lambda>x. block_ids (store s x))(r := block_ids (store s r) @ bs))"
    using assms(1) rq(3) by (intro kv.ledger_grow [OF inv _ _ assms(3)]) (simp_all add: core_def)
  then have led: "kv.ledger m (live s) (\<lambda>x. block_ids (store ?s x))"
    by (rule kv.ledger_cong) (simp add: extend_blocks_def)
  have "keys_ok ?s"
    using keys_ok_same [OF ids] core_keys_ok [OF assms(1)] by simp
  then show "core (insert r X) ?s"
    using assms(1) rq led m unfolding core_def ids by auto
  show "frame s ?s" using rq m by (auto simp: frame_def)
qed

section \<open>A request leaves the current slot\<close>

definition leave :: "ref \<Rightarrow> ('f inference_request \<Rightarrow> 'f inference_request) \<Rightarrow> 'f sched \<Rightarrow> 'f sched" where
  "leave v g s =
     (let s1 = s\<lparr>kvm := free_blocks (kvm s) (block_ids (store s v))\<rparr>;
          s2 = upd_obj v g s1
      in set_active (od_pop (request_id (store s2 v)) (active_requests s2)) s2)"

lemma preempt_request_leave: "preempt_request v s = queue_put v (leave v preempt s)"
  by (simp add: preempt_request_def leave_def Let_def)

lemma finalize_request_leave: "finalize_request v s = leave v finish s"
  by (simp add: finalize_request_def leave_def Let_def)

lemma leave_fields [simp]:
  "store (leave v g s) = (store s)(v := g (store s v))"
  "sconfig (leave v g s) = sconfig s"
  "kvm (leave v g s) = free_blocks (kvm s) (block_ids (store s v))"
  "request_queue (leave v g s) = request_queue s"
  "result_queue (leave v g s) = result_queue s"
  by (simp_all add: leave_def Let_def)

lemma core_leave:
  assumes "core X s" "v \<in> set (cur s)" "request_id (g (store s v)) = rid s v"
  shows "core (X - {v}) (leave v g s)" "frame s (leave v g s)"
    "cur (leave v g s) = filter (\<lambda>x. x \<noteq> v) (cur s)"
    "live (leave v g s) = live s - {v}"
proof -
  let ?s = "leave v g s"
  have inv: "kv_inv (kvm s)" and idx: "idx_ok s" using assms(1) by (simp_all add: core_def)
  have m: "kv_inv (kvm ?s)" "kv_config (kvm ?s) = kv_config (kvm s)"
    using free_blocks_spec [OF inv, of "block_ids (store s v)"] by auto
  have vq: "v \<notin> set (request_queue s)" "v \<notin> set (outer s)" "v \<in> live s"
    using core_cur [OF assms(1)] assms(2) by auto
  have idx': "idx_ok ?s" using idx by (simp add: leave_def Let_def)
  have cur': "cur ?s = filter (\<lambda>x. x \<noteq> v) (cur s)"
    using set_active_cur [of "upd_obj v g (s\<lparr>kvm := free_blocks (kvm s) (block_ids (store s v))\<rparr>)"]
      od_pop_values [OF core_distinct_keys [OF assms(1)] _ core_active_entry [OF assms(1,2)]]
      core_cur(1) [OF assms(1)] idx assms(3)
    by (simp add: leave_def Let_def cur_def)
  then show "cur ?s = filter (\<lambda>x. x \<noteq> v) (cur s)" .
  have out': "outer ?s = outer s" by (simp add: leave_def Let_def)
  show live': "live ?s = live s - {v}"
    using live_split [OF idx] live_split [OF idx'] cur' out' vq by auto
  have dist: "distinct (all_refs ?s)"
    using distinct_all_refs [OF idx'] core_cur [OF assms(1)] cur' out' by auto
  have ids: "rid ?s = rid s" using assms(3) by (auto simp: fun_eq_iff)
  have "set (inflight_batches ?s) \<subseteq> insert (od_pop (rid s v) (active_requests s)) (set (inflight_batches s))"
    using assms(3) by (auto simp: leave_def Let_def set_active_def dest: set_update_subset_insert [THEN subsetD])
  moreover have "k = rid s r" if "(k, r) \<in> set (od_pop (rid s v) (active_requests s))" for k r
    using that core_keys [OF assms(1)] by (auto simp: od_pop_def)
  ultimately have keys: "keys_ok ?s"
    by (rule keys_ok_insert [OF core_keys_ok [OF assms(1)] ids])
  have "kv.ledger (kvm ?s) (live s - {v}) (\<lambda>r. block_ids (store s r))"
    using assms(1) vq(3) kv.ledger_leave [OF inv, of "live s" "\<lambda>r. block_ids (store s r)" v]
    by (simp add: core_def)
  then have led: "kv.ledger (kvm ?s) (live ?s) (\<lambda>r. block_ids (store ?s r))"
    unfolding live' by (rule kv.ledger_cong) simp
  have "inj_on (rid s) (live s \<union> set (request_queue s))" using assms(1) by (simp add: core_def)
  then have inj: "inj_on (rid s) (live ?s \<union> set (request_queue s))"
    by (rule inj_on_subset) (auto simp: live')
  show "core (X - {v}) ?s"
    unfolding core_def ids
    using idx' m dist keys led inj live' assms(1) vq by (auto simp: core_def)
  show "frame s ?s"
    using m vq idx by (auto simp: frame_def leave_def Let_def set_active_def)
qed

section \<open>A request joins the queue\<close>

lemma core_enqueue:
  assumes "core X s" "v \<notin> live s" "v \<notin> set (request_queue s)" "queued (store s v)"
    and "rid s v \<notin> rid s ` (live s \<union> set (request_queue s))"
  shows "core X (s\<lparr>request_queue := request_queue s @ [v]\<rparr>)"
    "frame s (s\<lparr>request_queue := request_queue s @ [v]\<rparr>)"
  using assms by (auto simp: core_def keys_ok_def frame_def)

lemma preempt_request_Ok:
  assumes "core X s" "v \<in> set (cur s)" "req_ok (store s v)" "preempt_request v s = Ok s'"
  shows "core (X - {v}) s'" "frame s s'" "cur s' = filter (\<lambda>x. x \<noteq> v) (cur s)"
    "live s' = live s - {v}" "store s' = (store s)(v := preempt (store s v))"
    "request_queue s' = request_queue s @ [v]"
    "kvm s' = free_blocks (kvm s) (block_ids (store s v))"
    "result_queue s' = result_queue s"
proof -
  let ?t = "leave v preempt s"
  have s': "s' = ?t\<lparr>request_queue := request_queue s @ [v]\<rparr>"
    using assms(4) by (auto simp: preempt_request_leave queue_put_def split: if_splits)
  have ct: "core (X - {v}) ?t" "frame s ?t" "cur ?t = filter (\<lambda>x. x \<noteq> v) (cur s)" "live ?t = live s - {v}"
    using core_leave [OF assms(1,2), of preempt] by simp_all
  have vq: "v \<notin> set (request_queue s)" "v \<in> live s" using core_cur [OF assms(1)] assms(2) by auto
  have inj: "inj_on (rid s) (live s \<union> set (request_queue s))" using assms(1) by (simp add: core_def)
  have ids: "rid ?t = rid s" by (auto simp: fun_eq_iff)
  have "rid s v \<notin> rid s ` (live ?t \<union> set (request_queue s))"
    using inj vq by (auto simp: ct(4) dest: inj_onD)
  then have fresh: "rid ?t v \<notin> rid ?t ` (live ?t \<union> set (request_queue ?t))"
    unfolding ids by simp
  have "core (X - {v}) (?t\<lparr>request_queue := request_queue ?t @ [v]\<rparr>)"
    "frame ?t (?t\<lparr>request_queue := request_queue ?t @ [v]\<rparr>)"
    using core_enqueue [OF ct(1) _ _ _ fresh] ready_preempt_queued [OF assms(3)] vq ct(4) by simp_all
  then show "core (X - {v}) s'" "frame s s'" using s' frame_trans [OF ct(2)] by simp_all
  show "cur s' = filter (\<lambda>x. x \<noteq> v) (cur s)" "live s' = live s - {v}"
    "store s' = (store s)(v := preempt (store s v))" "request_queue s' = request_queue s @ [v]"
    "kvm s' = free_blocks (kvm s) (block_ids (store s v))" "result_queue s' = result_queue s"
    using s' ct by simp_all
qed

lemma preempt_request_not_Raise: "preempt_request v s \<noteq> Raise e"
  by (simp add: preempt_request_leave queue_put_def)

lemma preempt_request_Hang: "preempt_request v s = Hang \<longleftrightarrow> queue_is_full s"
  by (simp add: preempt_request_leave queue_put_def queue_is_full_def)

section \<open>A request joins the current slot\<close>

lemma core_pop_queue:
  assumes "core X s" "request_queue s = r # rest"
  shows "core X (s\<lparr>request_queue := rest\<rparr>)" "frame s (s\<lparr>request_queue := rest\<rparr>)"
    "r \<notin> live s" "r \<notin> set rest" "queued (store s r)" "rid s r \<notin> rid s ` (live s \<union> set rest)"
proof -
  have inj: "inj_on (rid s) (live s \<union> set (request_queue s))" using assms(1) by (simp add: core_def)
  have d: "distinct (request_queue s)" "live s \<inter> set (request_queue s) = {}"
    "\<forall>r\<in>set (request_queue s). queued (store s r)" using assms(1) by (simp_all add: core_def)
  show "r \<notin> live s" "r \<notin> set rest" "queued (store s r)" using d assms(2) by auto
  then show "rid s r \<notin> rid s ` (live s \<union> set rest)"
    using inj assms(2) by (auto dest: inj_onD)
  have "inj_on (rid s) (live s \<union> set rest)"
    using inj by (rule inj_on_subset) (auto simp: assms(2))
  then show "core X (s\<lparr>request_queue := rest\<rparr>)"
    using assms d by (auto simp: core_def keys_ok_def)
  show "frame s (s\<lparr>request_queue := rest\<rparr>)" by (simp add: frame_def)
qed

lemma activate_request_Ok:
  assumes "core {} s" "r \<notin> live s" "r \<notin> set (request_queue s)" "queued (store s r)"
    and "rid s r \<notin> rid s ` (live s \<union> set (request_queue s))"
    and "activate_request r s = Ok s'"
  shows "core {} s'" "frame s s'" "cur s' = cur s @ [r]" "live s' = insert r (live s)"
    "\<exists>bs. store s' = (store s)(r := activate (extend_blocks bs (store s r)))"
    "request_queue s' = request_queue s" "result_queue s' = result_queue s"
proof -
  obtain bs m where al: "allocate_blocks (kvm s) (in_len (store s r)) 0 = (Some bs, m)"
    and s': "s' = set_active (od_set (rid s r) r (active_requests s))
      (upd_obj r (\<lambda>q. activate (extend_blocks bs q)) (s\<lparr>kvm := m\<rparr>))"
    using assms(6)
    by (auto simp: activate_request_def Let_def activate_def extend_blocks_def split: prod.splits option.splits)
  have idx: "idx_ok s" and inv: "kv_inv (kvm s)" using assms(1) by (simp_all add: core_def)
  have idx': "idx_ok s'" using idx s' by simp
  have m: "kv_inv m" "kv_config m = kv_config (kvm s)" "int (length bs) = max 0 (num_blocks_needed (kvm s) (in_len (store s r)))"
    using allocate_blocks_Some [OF inv al] by auto
  have nk: "rid s r \<notin> set (od_keys (active_requests s))"
  proof
    assume "rid s r \<in> set (od_keys (active_requests s))"
    then obtain r' where "(rid s r, r') \<in> set (active_requests s)" by auto
    then have "rid s r = rid s r'" "r' \<in> live s"
      using core_keys [OF assms(1)] core_cur(4) [OF assms(1)] by (force simp: cur_def)+
    then show False using assms(5) by auto
  qed
  have st: "store s' = (store s)(r := activate (extend_blocks bs (store s r)))" using s' by simp
  then show "\<exists>bs. store s' = (store s)(r := activate (extend_blocks bs (store s r)))" by blast
  show cur': "cur s' = cur s @ [r]"
    using s' idx od_set_new [OF nk] set_active_cur [of "upd_obj r (\<lambda>q. activate (extend_blocks bs q)) (s\<lparr>kvm := m\<rparr>)"]
    by (simp add: cur_def)
  have out': "outer s' = outer s" using s' by simp
  show live': "live s' = insert r (live s)"
    using live_split [OF idx] live_split [OF idx'] cur' out' by auto
  have dist: "distinct (all_refs s')"
    using distinct_all_refs [OF idx'] core_cur [OF assms(1)] cur' out' assms(2) by auto
  have ids: "rid s' = rid s" using st by (auto simp: fun_eq_iff activate_def extend_blocks_def)
  have "set (inflight_batches s') \<subseteq> insert (active_requests s @ [(rid s r, r)]) (set (inflight_batches s))"
    using s' od_set_new [OF nk, of r]
    by (auto simp: set_active_def dest: set_update_subset_insert [THEN subsetD])
  moreover have "k = rid s x" if "(k, x) \<in> set (active_requests s @ [(rid s r, r)])" for k x
    using that core_keys [OF assms(1)] by auto
  ultimately have keys: "keys_ok s'"
    by (rule keys_ok_insert [OF core_keys_ok [OF assms(1)] ids])
  have "kv.ledger m (insert r (live s)) ((\<lambda>x. block_ids (store s x))(r := bs))"
    using assms(1,2,4) by (intro kv.ledger_join [OF inv _ _ _ al]) (simp_all add: core_def queued_def)
  then have led: "kv.ledger (kvm s') (live s') (\<lambda>x. block_ids (store s' x))"
    using s' assms(4) unfolding live'
    by (auto elim!: kv.ledger_cong simp: activate_def extend_blocks_def queued_def)
  have "inj_on (rid s) (live s' \<union> set (request_queue s))"
    using assms(1,5) by (auto simp: live' core_def)
  moreover have "holds_blocks (page s') (store s' r)"
    using m assms(4) s' core_page [OF assms(1)]
    by (auto simp: holds_blocks_def st activate_def extend_blocks_def queued_def num_blocks_needed_ceil
        ceil_div_nonneg)
  ultimately show "core {} s'"
    unfolding core_def ids
    using idx' m dist keys led live' assms s' by (auto simp: core_def)
  show "frame s s'"
    using m idx s' core_cur(4) [OF assms(1)] assms(2) by (auto simp: frame_def set_active_def)
  show "request_queue s' = request_queue s" "result_queue s' = result_queue s" using s' by simp_all
qed

lemma activate_request_cases:
  "(\<exists>s'. activate_request r s = Ok s') \<or> activate_request r s = Raise RuntimeError"
  by (auto simp: activate_request_def Let_def split: prod.splits option.splits)

end
