(* ===== verification/Scheduler_Step.thy ===== *)
theory Scheduler_Step
  imports Scheduler_Ops
begin

text \<open>
  The scheduling step. A slot is \<open>slot_ready\<close> before a step plans it and \<open>slot_planned\<close>
  afterwards; both say that at most the last request of the slot is still in prefill, which is what
  keeps a step within the token budget.
\<close>

section \<open>Slots\<close>

definition front_ok :: "bool \<Rightarrow> (ref \<Rightarrow> 'f inference_request) \<Rightarrow> ref list \<Rightarrow> bool" where
  "front_ok chunked st xs \<longleftrightarrow>
     (\<forall>r\<in>set (butlast xs). prefill_done (st r)) \<and> (\<not> chunked \<longrightarrow> (\<forall>r\<in>set xs. prefill_done (st r)))"

definition step_tokens :: "(ref \<Rightarrow> 'f inference_request) \<Rightarrow> ref list \<Rightarrow> int" where
  "step_tokens st xs = sum_list (map (\<lambda>r. tokens_this_step (st r)) xs)"

definition slot_ready :: "scheduler_config \<Rightarrow> (ref \<Rightarrow> 'f inference_request) \<Rightarrow> ref list \<Rightarrow> bool" where
  "slot_ready c st xs \<longleftrightarrow> (\<forall>r\<in>set xs. ready (st r)) \<and> int (length xs) \<le> max_num_batched_tokens c
     \<and> front_ok (enable_chunked_prefill c) st xs"

definition slot_planned :: "scheduler_config \<Rightarrow> (ref \<Rightarrow> 'f inference_request) \<Rightarrow> ref list \<Rightarrow> bool" where
  "slot_planned c st xs \<longleftrightarrow> (\<forall>r\<in>set xs. planned (st r)) \<and> step_tokens st xs \<le> max_num_batched_tokens c
     \<and> front_ok (enable_chunked_prefill c) st xs"

definition others_planned :: "'f sched \<Rightarrow> bool" where
  "others_planned s \<longleftrightarrow> (\<forall>i<length (inflight_batches s). i \<noteq> current_batch_idx s \<longrightarrow>
     slot_planned (sconfig s) (store s) (od_values (inflight_batches s ! i)))"

definition sched_ready :: "'f sched \<Rightarrow> bool" where
  "sched_ready s \<longleftrightarrow> core {} s \<and> others_planned s \<and> slot_ready (sconfig s) (store s) (cur s)"

definition sched_planned :: "'f sched \<Rightarrow> bool" where
  "sched_planned s \<longleftrightarrow> core {} s \<and> others_planned s \<and> slot_planned (sconfig s) (store s) (cur s)"

lemma front_ok_cong:
  assumes "\<And>r. r \<in> set xs \<Longrightarrow> prefill_done (st r) = prefill_done (st' r)"
  shows "front_ok c st xs = front_ok c st' xs"
proof -
  have "prefill_done (st r) = prefill_done (st' r)" if "r \<in> set (butlast xs)" for r
    using assms that by (blast dest: in_set_butlastD)
  then show ?thesis using assms by (simp add: front_ok_def)
qed

lemma front_ok_mono:
  assumes "front_ok c st xs" "\<And>r. r \<in> set xs \<Longrightarrow> prefill_done (st r) \<Longrightarrow> prefill_done (st' r)"
  shows "front_ok c st' xs"
proof -
  have "prefill_done (st' r)" if "r \<in> set (butlast xs)" for r
    using assms that in_set_butlastD [OF that] by (simp add: front_ok_def)
  then show ?thesis using assms by (simp add: front_ok_def)
qed

lemma slot_planned_cong:
  "(\<And>r. r \<in> set xs \<Longrightarrow> st r = st' r) \<Longrightarrow> slot_planned c st xs = slot_planned c st' xs"
  using front_ok_cong [of xs st st'] by (simp add: slot_planned_def step_tokens_def cong: map_cong)

lemma front_ok_filter: "front_ok c st xs \<Longrightarrow> front_ok c st (filter P xs)"
  using butlast_filter_subset [of P xs] by (auto simp: front_ok_def)

lemma frame_others_planned:
  assumes "idx_ok s" "frame s s'" "others_planned s"
  shows "others_planned s'"
  unfolding others_planned_def
proof (intro allI impI)
  fix i assume i: "i < length (inflight_batches s')" "i \<noteq> current_batch_idx s'"
  have f: "sconfig s' = sconfig s" "inflight_batches s' ! i = inflight_batches s ! i"
    "i < length (inflight_batches s)" "i \<noteq> current_batch_idx s"
    using assms(2) i by (auto simp: frame_def)
  have "store s' r = store s r" if "r \<in> set (od_values (inflight_batches s ! i))" for r
    using that f outer_member [OF assms(1), of r] assms(2) by (auto simp: frame_def)
  then have "slot_planned (sconfig s) (store s') (od_values (inflight_batches s ! i))
      = slot_planned (sconfig s) (store s) (od_values (inflight_batches s ! i))"
    by (rule slot_planned_cong)
  then show "slot_planned (sconfig s') (store s') (od_values (inflight_batches s' ! i))"
    using assms(3) f by (auto simp: others_planned_def)
qed

lemma planned_tokens_nonneg: "planned q \<Longrightarrow> 1 \<le> tokens_this_step q"
  by (simp add: planned_def)

lemma slot_planned_length:
  "slot_planned c st xs \<Longrightarrow> int (length xs) \<le> max_num_batched_tokens c"
  using sum_list_ge_length [of xs "\<lambda>r. tokens_this_step (st r)"]
  by (auto simp: slot_planned_def step_tokens_def planned_def)

section \<open>Planning one request\<close>

lemma set_plan_simps [simp]:
  "request_id (set_plan t n q) = request_id q"
  "generation_config (set_plan t n q) = generation_config q"
  "input_ids_list (set_plan t n q) = input_ids_list q"
  "status (set_plan t n q) = status q"
  "block_ids (set_plan t n q) = block_ids q"
  "generated_tokens (set_plan t n q) = generated_tokens q"
  "original_prompt_len (set_plan t n q) = original_prompt_len q"
  "num_computed_tokens (set_plan t n q) = n"
  "tokens_this_step (set_plan t n q) = t"
  "full_sequence (set_plan t n q) = full_sequence q"
  "req_ok (set_plan t n q) = req_ok q"
  "synced (set_plan t n q) = synced q"
  by (simp_all add: set_plan_def full_sequence_def prompt_def req_ok_def folded_ok_def synced_def)

lemma extend_blocks_simps [simp]:
  "request_id (extend_blocks bs q) = request_id q"
  "generation_config (extend_blocks bs q) = generation_config q"
  "input_ids_list (extend_blocks bs q) = input_ids_list q"
  "status (extend_blocks bs q) = status q"
  "block_ids (extend_blocks bs q) = block_ids q @ bs"
  "generated_tokens (extend_blocks bs q) = generated_tokens q"
  "num_computed_tokens (extend_blocks bs q) = num_computed_tokens q"
  "tokens_this_step (extend_blocks bs q) = tokens_this_step q"
  "full_sequence (extend_blocks bs q) = full_sequence q"
  "req_ok (extend_blocks bs q) = req_ok q"
  "synced (extend_blocks bs q) = synced q"
  "planned (extend_blocks bs q) = planned q"
  "prefill_done (extend_blocks bs q) = prefill_done q"
  by (simp_all add: extend_blocks_def full_sequence_def prompt_def req_ok_def folded_ok_def synced_def
      planned_def prefill_done_def)

lemma plan_spec:
  assumes "ready q" "plan_tokens_for_request chunked q b = (t, n)"
    and "\<not> prefill_done q \<Longrightarrow> chunked \<and> 1 \<le> b"
  shows "n = num_computed_tokens q + t" "1 \<le> t" "planned (set_plan t n q)"
    "prefill_done q \<Longrightarrow> t = 1" "\<not> prefill_done q \<Longrightarrow> t \<le> b \<and> n \<le> in_len q"
    "t < b \<Longrightarrow> prefill_done (set_plan t n q)"
  using assms
  by (auto simp: plan_tokens_for_request_def Let_def ready_def planned_def prefill_done_def max_def min_def
      synced_def split: if_splits)

lemma first_min_spec: "xs \<noteq> [] \<Longrightarrow> \<exists>x\<in>set xs. first_min f xs = Ok x"
proof -
  have "foldl (\<lambda>best y. if f y < f best then y else best) x ys \<in> insert x (set ys)" for x ys
  proof (induction ys arbitrary: x)
    case Nil
    show ?case by simp
  next
    case (Cons a ys)
    then show ?case using Cons.IH [of a] Cons.IH [of x] by auto
  qed
  then show "xs \<noteq> [] \<Longrightarrow> \<exists>x\<in>set xs. first_min f xs = Ok x"
    by (cases xs) force+
qed

lemma first_min_least: "first_min f xs = Ok x \<Longrightarrow> y \<in> set xs \<Longrightarrow> f x \<le> f y"
proof -
  have "f (foldl (\<lambda>best y. if f y < f best then y else best) x ys) \<le> f x \<and>
      (\<forall>y\<in>set ys. f (foldl (\<lambda>best y. if f y < f best then y else best) x ys) \<le> f y)" for x ys
  proof (induction ys arbitrary: x)
    case Nil
    show ?case by simp
  next
    case (Cons a ys)
    show ?case
    proof (cases "f a < f x")
      case True
      then show ?thesis using Cons.IH [of a] by force
    next
      case False
      then show ?thesis using Cons.IH [of x] by (auto intro: order.trans)
    qed
  qed
  then show "first_min f xs = Ok x \<Longrightarrow> y \<in> set xs \<Longrightarrow> f x \<le> f y"
    by (cases xs) auto
qed

section \<open>Extending the blocks of a planned request\<close>

text \<open>
  What a call of \<open>extend_or_preempt\<close> on the planned request \<open>r\<close> leaves behind: a set \<open>V\<close> of
  preempted requests, empty, \<open>r\<close> itself or one other request, moved from the slot to the queue.
\<close>

definition extended :: "ref \<Rightarrow> 'f sched \<Rightarrow> bool \<Rightarrow> 'f sched \<Rightarrow> ref set \<Rightarrow> bool" where
  "extended r s ok s' V \<longleftrightarrow>
     core {} s' \<and> frame s s' \<and> V \<subseteq> set (cur s) \<and> cur s' = filter (\<lambda>x. x \<notin> V) (cur s) \<and>
     live s' = live s - V \<and> set (request_queue s') = set (request_queue s) \<union> V \<and>
     (\<forall>x. x \<notin> V \<longrightarrow> x \<noteq> r \<longrightarrow> store s' x = store s x) \<and> (ok \<longleftrightarrow> r \<notin> V) \<and>
     (ok \<longrightarrow> (\<exists>bs. store s' r = extend_blocks bs (store s r))) \<and> result_queue s' = result_queue s"

lemma holds_blocks_extend:
  assumes "0 < p" "int (length (block_ids q)) = ceil_div (max (in_len q) old) p"
    and "old \<le> num_computed_tokens q"
    and "int (length bs) = max 0 (ceil_div (num_computed_tokens q) p - int (length (block_ids q)))"
  shows "holds_blocks p (extend_blocks bs q)"
proof -
  let ?n = "num_computed_tokens q"
  have "ceil_div (max (in_len q) ?n) p = max (ceil_div (max (in_len q) old) p) (ceil_div ?n p)"
    using assms(3) ceil_div_mono [OF assms(1), of old ?n] ceil_div_mono [OF assms(1), of "in_len q" ?n]
      ceil_div_mono [OF assms(1), of old "in_len q"] ceil_div_mono [OF assms(1), of ?n "in_len q"]
    by (auto simp: max_def)
  then show ?thesis using assms(2,4) by (simp add: holds_blocks_def max_def)
qed

lemma oom_needs_one:
  assumes "0 < p" "c = ceil_div (max L old) p" "c < ceil_div n p" "n \<le> L \<or> n \<le> old + 1"
  shows "ceil_div n p - c \<le> 1"
proof -
  have "\<not> n \<le> max L old" using ceil_div_mono [OF assms(1), of n "max L old"] assms(2,3) by auto
  then have "\<not> n \<le> L" by (simp add: le_max_iff_disj)
  then have "n \<le> old + 1" using assms(4) by simp
  then have "ceil_div n p \<le> ceil_div old p + 1"
    using ceil_div_mono [OF assms(1), of n "old + 1"] ceil_div_Suc_le [OF assms(1), of old] by linarith
  also have "ceil_div old p \<le> c" using ceil_div_mono [OF assms(1), of old "max L old"] assms(2) by simp
  finally show ?thesis by simp
qed

lemma extend_or_preempt_Ok:
  assumes "core {r} s" "r \<in> set (cur s)" "\<forall>x\<in>set (cur s). req_ok (store s x)"
    and c: "int (length (block_ids (store s r))) = ceil_div (max (in_len (store s r)) old) (page s)"
    and n: "old \<le> num_computed_tokens (store s r)"
    and small: "num_computed_tokens (store s r) \<le> in_len (store s r) \<or> num_computed_tokens (store s r) \<le> old + 1"
    and ret: "extend_or_preempt r s = Ok (ok, s')"
  shows "\<exists>V. extended r s ok s' V"
proof -
  let ?n = "num_computed_tokens (store s r)" and ?c = "int (length (block_ids (store s r)))"
  have page: "0 < page s" using core_page [OF assms(1)] .
  have inv: "kv_inv (kvm s)" using assms(1) by (simp add: core_def)
  show ?thesis
  proof (cases "fst (allocate_blocks (kvm s) ?n ?c)")
    case (Some bs)
    then obtain m where al: "allocate_blocks (kvm s) ?n ?c = (Some bs, m)" by (cases "allocate_blocks (kvm s) ?n ?c") auto
    let ?t = "upd_obj r (extend_blocks bs) (s\<lparr>kvm := m\<rparr>)"
    have res: "ok" "s' = ?t" using ret al by (auto simp: extend_or_preempt_def Let_def)
    have g: "core {r} ?t" "frame s ?t" using core_grow [OF assms(1,2) al] by simp_all
    have "page ?t = page s" using g(2) by (simp add: frame_def)
    moreover have "int (length bs) = max 0 (ceil_div ?n (page s) - ?c)"
      using allocate_blocks_Some [OF inv al] by (simp add: num_blocks_needed_ceil)
    ultimately have "holds_blocks (page ?t) (store ?t r)"
      using holds_blocks_extend [OF page c n] by simp
    then have "core {} ?t" by (rule core_restore [OF g(1)])
    then have "extended r s ok s' {}" using g(2) res by (simp add: extended_def) blast
    then show ?thesis ..
  next
    case None
    then have al: "allocate_blocks (kvm s) ?n ?c = (None, kvm s)"
      using allocate_blocks_None [of "kvm s" ?n ?c] by (metis prod.collapse)
    have need: "?c < ceil_div ?n (page s)"
      using al allocate_blocks_None [of "kvm s" ?n ?c "kvm s"] by (simp add: num_blocks_needed_ceil)
    have "cur s \<noteq> []" using assms(2) by auto
    then obtain v where v: "v \<in> set (cur s)"
      and fm: "first_min (\<lambda>x. num_computed_tokens (store s x)) (od_values (active_requests s)) = Ok v"
      using first_min_spec [of "cur s" "\<lambda>x. num_computed_tokens (store s x)"] unfolding cur_def by blast
    obtain s1 where p1: "preempt_request v s = Ok s1"
      and rest: "(if v = r then Ok (False, s1) else
          let (nb, m2) = allocate_blocks (kvm s1) ?n (int (length (block_ids (store s1 r))))
          in case nb of Some bs \<Rightarrow> Ok (True, upd_obj r (extend_blocks bs) (s1\<lparr>kvm := m2\<rparr>))
             | None \<Rightarrow> Ok (False, s1)) = Ok (ok, s')"
      using ret al fm by (auto simp: extend_or_preempt_def Let_def)
    have vo: "req_ok (store s v)" using assms(3) v by blast
    note P = preempt_request_Ok [OF assms(1) v vo p1]
    show ?thesis
    proof (cases "v = r")
      case True
      then have "\<not> ok" "s' = s1" using rest by auto
      then have "extended r s ok s' {r}"
        using P True v by (auto simp: extended_def)
      then show ?thesis ..
    next
      case False
      have cr: "core {r} s1" using P(1) False by simp
      have r1: "r \<in> set (cur s1)" "store s1 r = store s r" using P(3,5) assms(2) False by auto
      have "v \<in> live s" using core_cur(4) [OF assms(1)] v by blast
      then have hv: "holds_blocks (page s) (store s v)" "kv.ledger (kvm s) (live s) (\<lambda>r. block_ids (store s r))"
        using assms(1) False by (auto simp: core_def)
      have "num_blocks_needed (kvm s) ?n - ?c \<le> int (length (block_ids (store s v)))"
        using oom_needs_one [OF page c need small] holds_blocks_pos [OF hv(1) vo page]
        by (simp add: num_blocks_needed_ceil)
      then have "fst (allocate_blocks (kvm s1) ?n ?c) \<noteq> None"
        using kv.alloc_after_release [OF inv hv(2) \<open>v \<in> live s\<close>] P(7) by simp
      then obtain bs m2 where al2: "allocate_blocks (kvm s1) ?n ?c = (Some bs, m2)"
        by (cases "allocate_blocks (kvm s1) ?n ?c") auto
      let ?t = "upd_obj r (extend_blocks bs) (s1\<lparr>kvm := m2\<rparr>)"
      have res: "ok" "s' = ?t" using rest al2 False r1 by (auto simp: Let_def)
      have g: "core {r} ?t" "frame s1 ?t" using core_grow [OF cr r1(1) al2] by simp_all
      have pg: "page s1 = page s" using P(2) by (simp add: frame_def)
      have "page ?t = page s" using g(2) pg by (simp add: frame_def)
      moreover have "int (length bs) = max 0 (ceil_div ?n (page s) - ?c)"
        using allocate_blocks_Some [OF _ al2] cr pg by (simp add: num_blocks_needed_ceil core_def)
      ultimately have "holds_blocks (page ?t) (store ?t r)"
        using holds_blocks_extend [OF page c n] r1(2) by simp
      then have "core {} ?t" by (rule core_restore [OF g(1)])
      then have "extended r s ok s' {v}"
        using frame_trans [OF P(2) g(2)] P res v False by (auto simp: extended_def)
      then show ?thesis ..
    qed
  qed
qed

lemma current_victim:
  assumes "r \<in> set (cur s)"
  obtains v where "first_min (\<lambda>x. num_computed_tokens (store s x)) (od_values (active_requests s)) = Ok v"
    "v \<in> set (cur s)"
proof -
  have "cur s \<noteq> []" using assms by auto
  then obtain v where "v \<in> set (cur s)" "first_min (\<lambda>x. num_computed_tokens (store s x)) (cur s) = Ok v"
    using first_min_spec [of "cur s" "\<lambda>x. num_computed_tokens (store s x)"] by blast
  then show thesis using that [of v] by (simp add: cur_def)
qed

lemma extend_or_preempt_not_Raise:
  assumes "r \<in> set (cur s)"
  shows "extend_or_preempt r s \<noteq> Raise e"
proof -
  obtain v where "first_min (\<lambda>x. num_computed_tokens (store s x)) (od_values (active_requests s)) = Ok v"
    using current_victim [OF assms] .
  then show ?thesis
    by (auto simp: extend_or_preempt_def Let_def preempt_request_not_Raise
        split: prod.splits option.splits if_splits)
qed

lemma extend_or_preempt_Hang:
  assumes "r \<in> set (cur s)" "extend_or_preempt r s = Hang"
  shows "queue_is_full s"
proof (rule ccontr)
  assume nf: "\<not> queue_is_full s"
  obtain v where v: "first_min (\<lambda>x. num_computed_tokens (store s x)) (od_values (active_requests s)) = Ok v"
    using current_victim [OF assms(1)] .
  have "preempt_request v s \<noteq> Hang" using nf preempt_request_Hang by blast
  then show False
    using assms(2) v
    by (auto simp: extend_or_preempt_def Let_def split: prod.splits option.splits if_splits)
qed

end
