(* ===== verification/Scheduler_Inv.thy ===== *)
theory Scheduler_Inv
  imports Scheduler_Step
begin

text \<open>
  The two halves of a scheduling step (the plan of the active requests and the admission loop),
  the step itself, the update that follows it, and the states the scheduler can reach.
\<close>

section \<open>Planning the active requests\<close>

abbreviation token_cap :: "'f sched \<Rightarrow> int" where
  "token_cap s \<equiv> max_num_batched_tokens (sconfig s)"

abbreviation chunked :: "'f sched \<Rightarrow> bool" where
  "chunked s \<equiv> enable_chunked_prefill (sconfig s)"

abbreviation bounded :: "'f sched \<Rightarrow> bool" where
  "bounded s \<equiv> 0 < max_queue_size (sconfig s)"

definition plan_inv :: "ref list \<Rightarrow> ref list \<Rightarrow> 'f sched \<Rightarrow> int \<Rightarrow> bool" where
  "plan_inv fin todo s b \<longleftrightarrow>
     core {} s \<and> others_planned s \<and> cur s = fin @ todo \<and>
     (\<forall>r\<in>set fin. planned (store s r)) \<and> (\<forall>r\<in>set todo. ready (store s r)) \<and>
     front_ok (chunked s) (store s) (fin @ todo) \<and>
     step_tokens (store s) fin + b \<le> token_cap s \<and> int (length todo) \<le> b \<and>
     (todo = [] \<longrightarrow> 0 < b \<longrightarrow> (\<forall>r\<in>set fin. prefill_done (store s r)))"

text \<open>What a step of the planner may have changed: a set of requests moved back to the queue.\<close>

definition moved :: "'f sched \<Rightarrow> 'f sched \<Rightarrow> ref set \<Rightarrow> bool" where
  "moved s s' V \<longleftrightarrow> frame s s' \<and> V \<subseteq> set (cur s) \<and> live s' = live s - V \<and>
     set (request_queue s') = set (request_queue s) \<union> V \<and> result_queue s' = result_queue s"

lemma planned_req_ok: "planned q \<Longrightarrow> req_ok q" and ready_req_ok: "ready q \<Longrightarrow> req_ok q"
  by (auto simp: planned_def ready_def)

lemma step_tokens_append [simp]: "step_tokens st (xs @ ys) = step_tokens st xs + step_tokens st ys"
  by (simp add: step_tokens_def)

lemma step_tokens_filter:
  assumes "\<forall>r\<in>set xs. planned (st r)"
  shows "step_tokens st (filter P xs) \<le> step_tokens st xs"
proof -
  have "0 \<le> tokens_this_step (st r)" if "r \<in> set xs" for r
    using assms that by (force simp: planned_def)
  then show ?thesis unfolding step_tokens_def by (intro sum_list_filter_le)
qed

lemma step_tokens_cong: "(\<And>r. r \<in> set xs \<Longrightarrow> st r = st' r) \<Longrightarrow> step_tokens st xs = step_tokens st' xs"
  by (simp add: step_tokens_def cong: map_cong)

lemma front_not_done_last:
  assumes "front_ok c st (xs @ r # ys)" "\<not> prefill_done (st r)"
  shows "ys = [] \<and> c"
  using assms by (cases ys) (auto simp: front_ok_def butlast_append)

lemma front_init: "front_ok c st (xs @ r # ys) \<Longrightarrow> \<forall>x\<in>set xs. prefill_done (st x)"
  by (auto simp: front_ok_def butlast_append)

text \<open>The part of the step that is pure list reasoning.\<close>

lemma plan_inv_advance:
  assumes inv: "plan_inv fin (r # todo) s b"
    and dist: "distinct (fin @ r # todo)"
    and t: "(t, n) = plan_tokens_for_request (chunked s) (store s r) b"
    and ext: "extended r (upd_obj r (set_plan t n) s) ok s' V"
  shows "plan_inv (filter (\<lambda>x. x \<notin> V) fin @ (if ok then [r] else [])) (filter (\<lambda>x. x \<notin> V) todo)
      s' (if ok then b - t else b)"
proof -
  let ?fin = "filter (\<lambda>x. x \<notin> V) fin" and ?q = "store s r"
  have I: "core {} s" "others_planned s" "cur s = fin @ r # todo" "\<forall>x\<in>set fin. planned (store s x)"
    "\<forall>x\<in>set (r # todo). ready (store s x)" "front_ok (chunked s) (store s) (fin @ r # todo)"
    "step_tokens (store s) fin + b \<le> token_cap s" "int (length (r # todo)) \<le> b"
    using inv unfolding plan_inv_def by blast+
  have rr: "ready ?q" using I(5) by simp
  have nd: "chunked s \<and> 1 \<le> b \<and> todo = []" if "\<not> prefill_done ?q"
    using front_not_done_last [OF I(6) that] I(8) by simp
  note P = plan_spec [OF rr t [symmetric]]
  have Pl: "1 \<le> t" "planned (set_plan t n ?q)" "t < b \<Longrightarrow> prefill_done (set_plan t n ?q)"
    using P nd by blast+
  have tb: "int (length todo) \<le> b - t"
    using P(4,5) nd I(8) by (cases "prefill_done ?q") auto
  have mono: "prefill_done (set_plan t n ?q)" if "prefill_done ?q"
    using P(1) nd Pl(1) that by (simp add: prefill_done_def)
  have E: "core {} s'" "frame (upd_obj r (set_plan t n) s) s'" "cur s' = filter (\<lambda>x. x \<notin> V) (fin @ r # todo)"
    "\<And>x. x \<notin> V \<Longrightarrow> x \<noteq> r \<Longrightarrow> store s' x = store s x" "ok \<longleftrightarrow> r \<notin> V"
    "ok \<Longrightarrow> \<exists>bs. store s' r = extend_blocks bs (set_plan t n ?q)"
    using ext I(3) unfolding extended_def by auto
  have fr: "frame s s'"
    using frame_trans [OF core_upd(2) [OF I(1)] E(2)] I(3) by simp
  have cfg: "sconfig s' = sconfig s" using fr by (simp add: frame_def)
  have sd: "store s' x = store s x" if "x \<in> set (fin @ todo)" "x \<notin> V" for x
    using that dist E(4) by auto
  have tr: "planned (store s' r) \<and> tokens_this_step (store s' r) = t
      \<and> prefill_done (store s' r) = prefill_done (set_plan t n ?q)" if ok
    using E(6) [OF that] Pl(2) by auto
  have pd: "prefill_done (store s' x)" if "x \<in> set (fin @ r # todo)" "x \<notin> V" "prefill_done (store s x)" for x
    using that sd tr mono E(5) by (cases "x = r") auto
  have "front_ok (chunked s) (store s) (filter (\<lambda>x. x \<notin> V) (fin @ r # todo))"
    using front_ok_filter [OF I(6)] .
  then have front: "front_ok (chunked s) (store s') (filter (\<lambda>x. x \<notin> V) (fin @ r # todo))"
    by (rule front_ok_mono) (use pd in \<open>auto split: if_splits\<close>)
  have "step_tokens (store s') ?fin = step_tokens (store s) ?fin"
    by (rule step_tokens_cong) (use sd in auto)
  then have toks: "step_tokens (store s') ?fin + b \<le> token_cap s"
    using step_tokens_filter [OF I(4), of "\<lambda>x. x \<notin> V"] I(7) by simp
  have dn: "prefill_done (store s' x)" if "x \<in> set ?fin" for x
    using that front_init [OF I(6)] pd by auto
  show ?thesis
    unfolding plan_inv_def
  proof (intro conjI)
    show "core {} s'" by (rule E(1))
    show "others_planned s'"
      using frame_others_planned [OF _ fr I(2)] I(1) by (simp add: core_def)
    show "cur s' = (?fin @ (if ok then [r] else [])) @ filter (\<lambda>x. x \<notin> V) todo"
      using E(3,5) by auto
    show "\<forall>x\<in>set (?fin @ (if ok then [r] else [])). planned (store s' x)"
      using I(4) sd tr by auto
    show "\<forall>x\<in>set (filter (\<lambda>x. x \<notin> V) todo). ready (store s' x)"
      using I(5) sd by auto
    show "front_ok (chunked s') (store s') ((?fin @ (if ok then [r] else [])) @ filter (\<lambda>x. x \<notin> V) todo)"
      using front E(5) cfg by auto
    show "step_tokens (store s') (?fin @ (if ok then [r] else [])) + (if ok then b - t else b) \<le> token_cap s'"
      using toks tr cfg by (auto simp: step_tokens_def)
    have "length (filter (\<lambda>x. x \<notin> V) todo) \<le> length todo" by (rule length_filter_le)
    then show "int (length (filter (\<lambda>x. x \<notin> V) todo)) \<le> (if ok then b - t else b)"
      using tb I(8) by (auto simp del: length_filter_le)
    show "filter (\<lambda>x. x \<notin> V) todo = [] \<longrightarrow> 0 < (if ok then b - t else b) \<longrightarrow>
        (\<forall>x\<in>set (?fin @ (if ok then [r] else [])). prefill_done (store s' x))"
      using dn tr Pl(3) by auto
  qed
qed

lemma plan_active_step:
  assumes inv: "plan_inv fin (r # todo) s b"
  shows "outcome (\<lambda>(s', b'). \<exists>V fin'. plan_inv fin' (filter (\<lambda>x. x \<notin> V) todo) s' b' \<and>
      set fin' \<subseteq> insert r (set fin) \<and> moved s s' V \<and> cur s' = filter (\<lambda>x. x \<notin> V) (cur s))
    (bounded s) (plan_active r (s, b))"
proof -
  have I: "core {} s" "cur s = fin @ r # todo" "ready (store s r)" "\<forall>x\<in>set (cur s). req_ok (store s x)"
    using inv planned_req_ok ready_req_ok by (auto simp: plan_inv_def)
  have rc: "r \<in> set (cur s)" using I(2) by simp
  then have rl: "r \<in> live s" using core_cur(4) [OF I(1)] by blast
  have key: "rid s r \<in> set (od_keys (active_requests s))"
    using core_id_in_keys [OF I(1)] rc rl by blast
  obtain t n where tn: "(t, n) = plan_tokens_for_request (chunked s) (store s r) b" by (metis surj_pair)
  let ?s1 = "upd_obj r (set_plan t n) s"
  have eq: "plan_active r (s, b) = rbind (extend_or_preempt r ?s1) (\<lambda>(ok, s2). Ok (s2, if ok then b - t else b))"
    using key tn by (simp add: plan_active_def Let_def) (metis (no_types, lifting) case_prod_conv)
  have c1: "core {r} ?s1" "frame s ?s1" using core_upd [OF I(1) rc] by simp_all
  have hb: "holds_blocks (page s) (store s r)" using I(1) rl by (simp add: core_def)
  have nd: "\<not> prefill_done (store s r) \<Longrightarrow> chunked s \<and> 1 \<le> b"
    using inv front_not_done_last [of "chunked s" "store s" "fin" r todo] by (auto simp: plan_inv_def)
  note P = plan_spec [OF I(3) tn [symmetric] nd]
  have small: "n \<le> in_len (store s r) \<or> n \<le> num_computed_tokens (store s r) + 1"
    using P(1,4,5) nd by (cases "prefill_done (store s r)") auto
  have dist: "distinct (fin @ r # todo)" using core_cur(1) [OF I(1)] I(2) by simp
  show ?thesis
    unfolding eq
  proof (rule outcome_bind)
    show "outcome (\<lambda>(ok, s2). \<exists>V. extended r ?s1 ok s2 V) (bounded s) (extend_or_preempt r ?s1)"
    proof (rule outcomeI)
      show "extend_or_preempt r ?s1 \<noteq> Raise e" for e
        using rc by (intro extend_or_preempt_not_Raise) simp
      show "bounded s" if "extend_or_preempt r ?s1 = Hang"
        using extend_or_preempt_Hang [OF _ that] rc by (simp add: queue_is_full_def)
      show "case x of (ok, s2) \<Rightarrow> \<exists>V. extended r ?s1 ok s2 V" if "extend_or_preempt r ?s1 = Ok x" for x
      proof -
        obtain ok s2 where x: "x = (ok, s2)" by force
        have "\<exists>V. extended r ?s1 ok s2 V"
          using that x hb small P(1,2) nd I(4) rc
          by (intro extend_or_preempt_Ok [OF c1(1), where old = "num_computed_tokens (store s r)"])
            (auto simp: holds_blocks_def)
        then show ?thesis using x by simp
      qed
    qed
  next
    fix x assume "case x of (ok, s2) \<Rightarrow> \<exists>V. extended r ?s1 ok s2 V"
    then obtain ok s2 V where x: "x = (ok, s2)" and ext: "extended r ?s1 ok s2 V" by auto
    have "plan_inv (filter (\<lambda>x. x \<notin> V) fin @ (if ok then [r] else [])) (filter (\<lambda>x. x \<notin> V) todo)
        s2 (if ok then b - t else b)"
      by (rule plan_inv_advance [OF inv dist tn ext])
    moreover have "moved s s2 V" "cur s2 = filter (\<lambda>x. x \<notin> V) (cur s)"
      using ext frame_trans [OF c1(2)] by (auto simp: extended_def moved_def)
    ultimately show "outcome (\<lambda>(s', b'). \<exists>V fin'. plan_inv fin' (filter (\<lambda>x. x \<notin> V) todo) s' b' \<and>
        set fin' \<subseteq> insert r (set fin) \<and> moved s s' V \<and> cur s' = filter (\<lambda>x. x \<notin> V) (cur s))
      (bounded s) (case x of (ok, s2) \<Rightarrow> Ok (s2, if ok then b - t else b))"
      using x by (auto intro!: exI [of _ V] exI [of _ "filter (\<lambda>x. x \<notin> V) fin @ (if ok then [r] else [])"])
  qed
qed

text \<open>The whole loop: the list is the snapshot taken before it, the slot shrinks as it runs.\<close>

lemma plan_loop_inv:
  assumes "plan_inv fin (filter (\<lambda>r. r \<in> set (cur s)) rs) s b" "distinct rs" "set fin \<inter> set rs = {}"
    and "set rs \<subseteq> set (cur s) \<union> set (request_queue s)"
  shows "outcome (\<lambda>(s', b'). \<exists>V fin'. plan_inv fin' [] s' b' \<and> moved s s' V) (bounded s) (plan_loop rs (s, b))"
  using assms
proof (induction rs arbitrary: fin s b)
  case Nil
  then show ?case by (auto simp: plan_loop_def moved_def intro!: exI [of _ "{}"])
next
  case (Cons r rs)
  have I: "core {} s" using Cons.prems(1) by (simp add: plan_inv_def)
  have eq: "plan_loop (r # rs) (s, b) = rbind (plan_active r (s, b)) (plan_loop rs)" by (simp add: plan_loop_def)
  show ?case
  proof (cases "r \<in> set (cur s)")
    case False
    then have "r \<in> live s \<union> set (request_queue s)" using Cons.prems(4) by auto
    then have "rid s r \<notin> set (od_keys (active_requests s))"
      using core_id_in_keys [OF I] False by blast
    then have "plan_active r (s, b) = Ok (s, b)" by (simp add: plan_active_def)
    then show ?thesis using Cons.IH [of "fin" s b] Cons.prems False by (simp add: eq)
  next
    case True
    let ?todo = "filter (\<lambda>r. r \<in> set (cur s)) rs"
    have inv: "plan_inv fin (r # ?todo) s b" using Cons.prems(1) True by simp
    show ?thesis
      unfolding eq
    proof (rule outcome_bind [OF plan_active_step [OF inv]])
      fix x assume "case x of (s', b') \<Rightarrow> \<exists>V fin'. plan_inv fin' (filter (\<lambda>x. x \<notin> V) ?todo) s' b' \<and>
        set fin' \<subseteq> insert r (set fin) \<and> moved s s' V \<and> cur s' = filter (\<lambda>x. x \<notin> V) (cur s)"
      then obtain s' b' V fin' where x: "x = (s', b')" and
        st: "plan_inv fin' (filter (\<lambda>x. x \<notin> V) ?todo) s' b'" "set fin' \<subseteq> insert r (set fin)"
          "moved s s' V" "cur s' = filter (\<lambda>x. x \<notin> V) (cur s)" by auto
      have "filter (\<lambda>x. x \<notin> V) ?todo = filter (\<lambda>r. r \<in> set (cur s')) rs"
        using st(4) by (auto intro: filter_cong)
      moreover have "set fin' \<inter> set rs = {}" using st(2) Cons.prems(2,3) by auto
      moreover have "set rs \<subseteq> set (cur s') \<union> set (request_queue s')"
        using Cons.prems(4) st(3,4) by (auto simp: moved_def)
      ultimately have "outcome (\<lambda>(s'', b''). \<exists>W fin''. plan_inv fin'' [] s'' b'' \<and> moved s' s'' W)
          (bounded s') (plan_loop rs (s', b'))"
        using Cons.IH [of fin' s' b'] st(1) Cons.prems(2) by simp
      moreover have "bounded s' = bounded s" using st(3) by (simp add: moved_def frame_def)
      moreover have "moved s s'' (V \<union> W)" if "moved s' s'' W" for s'' W
        using st(3,4) that frame_trans [of s s' s''] by (auto simp: moved_def)
      ultimately show "outcome (\<lambda>(s', b'). \<exists>V fin'. plan_inv fin' [] s' b' \<and> moved s s' V) (bounded s)
          (plan_loop rs x)"
        using x by (auto elim!: outcome_mono)
    qed
  qed
qed

section \<open>Admission\<close>

definition admit_inv :: "'f sched \<Rightarrow> int \<Rightarrow> bool" where
  "admit_inv s b \<longleftrightarrow>
     core {} s \<and> others_planned s \<and> (\<forall>r\<in>set (cur s). planned (store s r)) \<and>
     front_ok (chunked s) (store s) (cur s) \<and> step_tokens (store s) (cur s) + b \<le> token_cap s \<and> 0 \<le> b \<and>
     (0 < b \<longrightarrow> (\<forall>r\<in>set (cur s). prefill_done (store s r)))"

lemma plan_inv_admit: "plan_inv fin [] s b \<Longrightarrow> admit_inv s b"
  by (auto simp: plan_inv_def admit_inv_def)

text \<open>What admission changes: requests go from the queue to the slot, none is lost.\<close>

definition admitted :: "'f sched \<Rightarrow> 'f sched \<Rightarrow> bool" where
  "admitted s s' \<longleftrightarrow> frame s s' \<and> live s \<subseteq> live s' \<and>
     live s' \<union> set (request_queue s') = live s \<union> set (request_queue s) \<and> result_queue s' = result_queue s"

lemma activate_simps [simp]:
  "request_id (activate q) = request_id q" "generation_config (activate q) = generation_config q"
  "input_ids_list (activate q) = input_ids_list q" "status (activate q) = RUNNING"
  "block_ids (activate q) = block_ids q" "num_computed_tokens (activate q) = num_computed_tokens q"
  "tokens_this_step (activate q) = tokens_this_step q" "req_ok (activate q) = req_ok q"
  "synced (activate q) = synced q" "full_sequence (activate q) = full_sequence q"
  by (simp_all add: activate_def full_sequence_def prompt_def req_ok_def folded_ok_def synced_def)

lemma admit_plan:
  assumes "queued q" "0 < b" "plan_tokens_for_request c q b = (t, n)" "t \<le> b"
  shows "1 \<le> t" "planned (set_plan t n (activate (extend_blocks bs q)))" "n \<le> in_len q"
    "t < b \<Longrightarrow> prefill_done (set_plan t n q)" "\<not> c \<Longrightarrow> prefill_done (set_plan t n q)"
  using assms req_ok_in_len [of q]
  by (auto simp: plan_tokens_for_request_def Let_def queued_def planned_def prefill_done_def Suc_le_eq
      split: if_splits)

lemma front_ok_snoc:
  assumes "\<forall>x\<in>set xs. prefill_done (st x)" "c \<or> prefill_done (st r)"
  shows "front_ok c st (xs @ [r])"
  using assms by (auto simp: front_ok_def)

lemma requeue_Ok:
  assumes "admit_inv s b" "request_queue s = r # rest"
  shows "outcome (\<lambda>s'. admit_inv s' b \<and> admitted s s') (bounded s) (queue_put r (s\<lparr>request_queue := rest\<rparr>))"
proof (rule outcomeI)
  let ?s1 = "s\<lparr>request_queue := rest\<rparr>"
  have I: "core {} s" using assms(1) by (simp add: admit_inv_def)
  note Q = core_pop_queue [OF I assms(2)]
  show "bounded s" if "queue_put r ?s1 = Hang"
    using that by (auto simp: queue_put_def queue_is_full_def split: if_splits)
  show "queue_put r ?s1 \<noteq> Raise e" for e by (simp add: queue_put_def)
  fix s' assume "queue_put r ?s1 = Ok s'"
  then have s': "s' = ?s1\<lparr>request_queue := request_queue ?s1 @ [r]\<rparr>" by (auto simp: queue_put_def split: if_splits)
  have "core {} s'" "frame ?s1 s'"
    unfolding s' by (rule core_enqueue [OF Q(1)]; use Q in simp)+
  then have "core {} s'" "frame s s'" using frame_trans [OF Q(2)] by blast+
  then show "admit_inv s' b \<and> admitted s s'"
    using assms frame_others_planned [of s s'] s' by (auto simp: admit_inv_def admitted_def core_def)
qed

lemma admit_one:
  assumes inv: "admit_inv s b" and q: "request_queue s = r # rest" and b: "0 < b"
    and tn: "plan_tokens_for_request (chunked s) (store s r) b = (t, n)" and le: "t \<le> b"
    and act: "activate_request r (s\<lparr>request_queue := rest\<rparr>) = Ok s2"
  shows "admit_inv (upd_obj r (set_plan t n) s2) (b - t) \<and> admitted s (upd_obj r (set_plan t n) s2)"
proof -
  let ?s1 = "s\<lparr>request_queue := rest\<rparr>" and ?s3 = "upd_obj r (set_plan t n) s2"
  have I: "core {} s" using inv by (simp add: admit_inv_def)
  note Q = core_pop_queue [OF I q]
  have "r \<notin> live ?s1" "r \<notin> set (request_queue ?s1)" "queued (store ?s1 r)"
    "rid ?s1 r \<notin> rid ?s1 ` (live ?s1 \<union> set (request_queue ?s1))" using Q by simp_all
  note A = activate_request_Ok [OF Q(1) this act]
  obtain bs where bs: "store s2 = (store s)(r := activate (extend_blocks bs (store s r)))" using A(5) by auto
  note P = admit_plan [OF Q(5) b tn le]
  have rc: "r \<in> set (cur s2)" using A(3) by simp
  note U = core_upd [OF A(1) rc, of "set_plan t n"]
  have fr: "frame s ?s3" using frame_trans [OF Q(2) frame_trans [OF A(2)]] U(2) by simp
  have st: "store ?s3 r = set_plan t n (activate (extend_blocks bs (store s r)))"
    "\<And>x. x \<noteq> r \<Longrightarrow> store ?s3 x = store s x" using bs by simp_all
  have rn: "r \<notin> set (cur s)" using core_cur(4) [OF I] Q(3) by auto
  have same: "store ?s3 x = store s x" if "x \<in> set (cur s)" for x using that rn st(2) by auto
  have hb: "holds_blocks (page ?s3) (store ?s3 r)"
  proof -
    have "r \<in> live s2" using A(4) by simp
    then have "holds_blocks (page s2) (store s2 r)" using A(1) by (simp add: core_def)
    then show ?thesis using P(3) Q(5) bs by (simp add: holds_blocks_def queued_def)
  qed
  have core3: "core {} ?s3" using core_restore [of r "{}" ?s3] U(1) hb by simp
  have done3: "\<forall>x\<in>set (cur s). prefill_done (store ?s3 x)" using inv b same by (auto simp: admit_inv_def)
  have tot: "step_tokens (store ?s3) (cur ?s3) = step_tokens (store s) (cur s) + t"
  proof -
    have "step_tokens (store ?s3) [r] = t" by (simp add: step_tokens_def)
    moreover have "step_tokens (store ?s3) (cur s) = step_tokens (store s) (cur s)"
      by (rule step_tokens_cong) (rule same)
    moreover have "cur ?s3 = cur s @ [r]" using A(3) by simp
    ultimately show ?thesis by (simp only: step_tokens_append)
  qed
  have pd: "prefill_done (store ?s3 r) = prefill_done (set_plan t n (store s r))"
    by (simp add: bs prefill_done_def)
  have "admit_inv ?s3 (b - t)"
    unfolding admit_inv_def
  proof (intro conjI)
    show "core {} ?s3" by (rule core3)
    show "others_planned ?s3"
      using frame_others_planned [OF _ fr] inv by (simp add: admit_inv_def core_def)
    show "\<forall>x\<in>set (cur ?s3). planned (store ?s3 x)"
    proof
      fix x assume "x \<in> set (cur ?s3)"
      then consider (old) "x \<in> set (cur s)" | (new) "x = r" using A(3) by auto
      then show "planned (store ?s3 x)"
      proof cases
        case old
        then show ?thesis using inv unfolding same [OF old] by (simp add: admit_inv_def)
      next
        case new
        show ?thesis unfolding new st(1) by (rule P(2))
      qed
    qed
    show "front_ok (chunked ?s3) (store ?s3) (cur ?s3)"
    proof -
      have "chunked s \<or> prefill_done (store ?s3 r)" using P(5) pd by blast
      then have "front_ok (chunked s) (store ?s3) (cur s @ [r])" by (rule front_ok_snoc [OF done3])
      moreover have "sconfig ?s3 = sconfig s" "cur ?s3 = cur s @ [r]"
        using fr A(3) by (simp_all add: frame_def)
      ultimately show ?thesis by (simp only:)
    qed
    show "step_tokens (store ?s3) (cur ?s3) + (b - t) \<le> token_cap ?s3"
      using tot inv fr by (simp add: admit_inv_def frame_def)
    show "0 \<le> b - t" using le by simp
    show "0 < b - t \<longrightarrow> (\<forall>x\<in>set (cur ?s3). prefill_done (store ?s3 x))"
      using done3 P(4) pd A(3) by auto
  qed
  moreover have "admitted s ?s3"
    using fr A(4,6,7) q by (auto simp: admitted_def)
  ultimately show ?thesis by blast
qed

lemma admitted_trans: "admitted s t \<Longrightarrow> admitted t u \<Longrightarrow> admitted s u"
  using frame_trans [of s t u] by (auto simp: admitted_def)

lemma admit_loop_inv:
  assumes "admit_inv s b"
  shows "outcome (\<lambda>s'. (\<exists>b'. admit_inv s' b') \<and> admitted s s') (bounded s) (admit_loop b n s)"
  using assms
proof (induction b n s rule: admit_loop.induct)
  case (1 b n s)
  show ?case
  proof (cases "0 < b \<and> 0 < n \<and> request_queue s \<noteq> []")
    case False
    then have "admit_loop b n s = Ok s" by (auto simp: admit_loop.simps [of b n s] split: list.splits)
    then show ?thesis using "1.prems" by (auto simp: admitted_def)
  next
    case True
    then obtain r rest where q: "request_queue s = r # rest" by (cases "request_queue s") auto
    let ?s1 = "s\<lparr>request_queue := rest\<rparr>"
    obtain t m where tn: "plan_tokens_for_request (chunked s) (store s r) b = (t, m)" by force
    have rq: "outcome (\<lambda>s'. (\<exists>b'. admit_inv s' b') \<and> admitted s s') (bounded s) (queue_put r ?s1)"
      using requeue_Ok [OF "1.prems" q] by (rule outcome_mono) blast
    show ?thesis
    proof (cases "t \<le> b \<and> (\<exists>s2. activate_request r ?s1 = Ok s2)")
      case False
      then have "\<not> t \<le> b \<or> activate_request r ?s1 = Raise RuntimeError"
        using activate_request_cases [of r ?s1] by blast
      then have "admit_loop b n s = queue_put r ?s1"
        using True q tn by (elim disjE) (simp_all add: admit_loop.simps [of b n s] Let_def)
      then show ?thesis using rq by simp
    next
      case act: True
      then obtain s2 where s2: "activate_request r ?s1 = Ok s2" by blast
      let ?s3 = "upd_obj r (set_plan t m) s2"
      have eq: "admit_loop b n s = admit_loop (b - t) (n - 1) ?s3"
        using True q tn s2 act by (simp add: admit_loop.simps [of b n s])
      have step: "admit_inv ?s3 (b - t)" "admitted s ?s3"
        using admit_one [OF "1.prems" q _ tn _ s2] True act by simp_all
      have "outcome (\<lambda>s'. (\<exists>b'. admit_inv s' b') \<and> admitted ?s3 s') (bounded ?s3) (admit_loop (b - t) (n - 1) ?s3)"
        using "1.IH" [of r rest ?s1 "(t, m)" t m s2] True q tn s2 act step(1) by simp
      moreover have "bounded ?s3 = bounded s" using step(2) by (simp add: admitted_def frame_def)
      ultimately show ?thesis
        unfolding eq using admitted_trans [OF step(2)] by (auto elim: outcome_mono)
    qed
  qed
qed

end
