(* ===== verification/Scheduler_Run.thy ===== *)
theory Scheduler_Run
  imports Scheduler_Inv
begin

text \<open>
  A whole scheduling step and a whole update, as transitions between \<open>sched_ready\<close> (the current
  slot may be planned) and \<open>sched_planned\<close> (every slot waits for a result).
\<close>

section \<open>The scheduling step\<close>

lemma all_slots_planned_iff:
  assumes "idx_ok s"
  shows "others_planned s \<and> slot_planned (sconfig s) (store s) (cur s) \<longleftrightarrow>
    (\<forall>i<length (inflight_batches s). slot_planned (sconfig s) (store s) (od_values (inflight_batches s ! i)))"
  using assms by (auto simp: others_planned_def cur_def active_requests_def idx_ok_def)

lemma rotate_simps [simp]:
  "store (rotate_batch s) = store s" "sconfig (rotate_batch s) = sconfig s" "kvm (rotate_batch s) = kvm s"
  "request_queue (rotate_batch s) = request_queue s" "inflight_batches (rotate_batch s) = inflight_batches s"
  "all_refs (rotate_batch s) = all_refs s" "result_queue (rotate_batch s) = result_queue s"
  by (simp_all add: rotate_batch_def all_refs_def)

lemma rotate_planned:
  assumes "core {} s" "others_planned s" "slot_planned (sconfig s) (store s) (cur s)"
  shows "sched_planned (rotate_batch s)"
proof -
  have i: "idx_ok s" using assms(1) by (simp add: core_def)
  then have "0 < length (inflight_batches s)" by (auto simp: idx_ok_def)
  then have i': "idx_ok (rotate_batch s)" by (simp add: idx_ok_def rotate_batch_def)
  have "core {} (rotate_batch s)" using assms(1) i' by (simp add: core_def keys_ok_def)
  then show ?thesis
    using all_slots_planned_iff [OF i] all_slots_planned_iff [OF i'] assms(2,3)
    by (simp add: sched_planned_def)
qed

lemma get_snapshot_running:
  "\<forall>r\<in>set (od_values b). status (store s r) = RUNNING \<Longrightarrow> get_snapshot s b = od_values b"
  unfolding get_snapshot_def by (rule filter_True) (auto simp: is_finished_def)

lemma sched_planned_running:
  assumes "sched_planned s" "b \<in> set (inflight_batches s)" "r \<in> set (od_values b)"
  shows "planned (store s r)"
proof -
  have i: "idx_ok s" using assms(1) by (simp add: sched_planned_def core_def)
  obtain k where "k < length (inflight_batches s)" "inflight_batches s ! k = b"
    using assms(2) by (auto simp: in_set_conv_nth)
  then show ?thesis
    using all_slots_planned_iff [OF i] assms(1,3) by (auto simp: sched_planned_def slot_planned_def)
qed

definition scheduled :: "'f sched \<Rightarrow> ref list \<times> ref list \<times> 'f sched \<Rightarrow> bool" where
  "scheduled s out \<longleftrightarrow>
     (let (to_infer, to_update, s') = out in
      sched_planned s' \<and> sconfig s' = sconfig s \<and>
      length (inflight_batches s') = length (inflight_batches s) \<and>
      current_batch_idx s' = (current_batch_idx s + 1) mod length (inflight_batches s) \<and>
      to_infer = od_values (inflight_batches s' ! current_batch_idx s) \<and>
      to_update = cur s' \<and>
      (\<forall>i<length (inflight_batches s). i \<noteq> current_batch_idx s \<longrightarrow> inflight_batches s' ! i = inflight_batches s ! i) \<and>
      live s' \<union> set (request_queue s') = live s \<union> set (request_queue s) \<and>
      result_queue s' = result_queue s \<and>
      kv_config (kvm s') = kv_config (kvm s))"

text \<open>What is said of the slots holds for the batch returned.\<close>

lemma scheduled_batch:
  assumes "scheduled s (a, b, s')" "idx_ok s"
  shows "sum_list (map (\<lambda>r. tokens_this_step (store s' r)) a) \<le> max_num_batched_tokens (sconfig s)"
    and "\<forall>r\<in>set a. 1 \<le> tokens_this_step (store s' r) \<and> status (store s' r) = RUNNING"
    and "distinct a" and "set a \<subseteq> live s'"
proof -
  have sp: "sched_planned s'" and a: "a = od_values (inflight_batches s' ! current_batch_idx s)"
    using assms(1) by (simp_all add: scheduled_def)
  then have C: "core {} s'" by (simp add: sched_planned_def)
  have i: "current_batch_idx s < length (inflight_batches s')"
    using assms by (simp add: idx_ok_def scheduled_def)
  have "\<forall>i<length (inflight_batches s'). slot_planned (sconfig s') (store s') (od_values (inflight_batches s' ! i))"
    using all_slots_planned_iff [of s'] C sp by (simp add: sched_planned_def core_def)
  then have "slot_planned (sconfig s') (store s') a" using i a by simp
  then show "sum_list (map (\<lambda>r. tokens_this_step (store s' r)) a) \<le> max_num_batched_tokens (sconfig s)"
    "\<forall>r\<in>set a. 1 \<le> tokens_this_step (store s' r) \<and> status (store s' r) = RUNNING"
    using assms(1) unfolding slot_planned_def step_tokens_def by (simp_all add: planned_def scheduled_def)
  have in_all: "od_values (inflight_batches s' ! current_batch_idx s) \<in> set (map od_values (inflight_batches s'))"
    using i by simp
  have "distinct (concat (map od_values (inflight_batches s')))" using C by (simp add: core_def all_refs_def)
  then show "distinct a" unfolding a using in_all distinct_concat_iff by blast
  show "set a \<subseteq> live s'" unfolding a all_refs_def using nth_mem [OF i] by fastforce
qed

lemma schedule_scheduled:
  assumes "sched_ready s"
  shows "outcome (scheduled s) (bounded s) (schedule fair_quot s)"
proof -
  have I: "core {} s" "others_planned s" "slot_ready (sconfig s) (store s) (cur s)"
    using assms by (simp_all add: sched_ready_def)
  have idx: "idx_ok s" using I(1) by (simp add: core_def)
  have "plan_inv [] (filter (\<lambda>r. r \<in> set (cur s)) (cur s)) s (token_cap s)"
    using I by (auto simp: plan_inv_def slot_ready_def step_tokens_def front_ok_def)
  then have pl: "outcome (\<lambda>(s', b'). \<exists>V fin'. plan_inv fin' [] s' b' \<and> moved s s' V) (bounded s)
      (plan_loop (cur s) (s, token_cap s))"
    using core_cur(1) [OF I(1)] by (intro plan_loop_inv) auto
  show ?thesis
    unfolding schedule_def cur_def [symmetric]
  proof (rule outcome_bind [OF pl], clarify)
    fix s1 b V fin' assume p: "plan_inv fin' [] s1 b" and mv: "moved s s1 V"
    let ?n = "seqs_budget_for fair_quot s1"
    have bd: "bounded s1 = bounded s" using mv by (simp add: moved_def frame_def)
    have ad: "outcome (\<lambda>s'. (\<exists>b'. admit_inv s' b') \<and> admitted s1 s') (bounded s) (admit_loop b ?n s1)"
      using admit_loop_inv [OF plan_inv_admit [OF p], of ?n] bd by simp
    show "outcome (scheduled s) (bounded s) (rbind (admit_loop b ?n s1) (\<lambda>s2.
        let batch_to_infer = get_snapshot s2 (active_requests s2); s3 = rotate_batch s2;
            batch_to_update = get_snapshot s3 (active_requests s3)
        in Ok (batch_to_infer, batch_to_update, s3)))"
    proof (rule outcome_bind [OF ad], clarify)
      fix s2 b2 assume a: "admit_inv s2 b2" "admitted s1 s2"
      let ?s3 = "rotate_batch s2"
      have fr: "frame s s2" using mv a(2) frame_trans by (auto simp: moved_def admitted_def)
      have "slot_planned (sconfig s2) (store s2) (cur s2)" "core {} s2" "others_planned s2"
        using a(1) by (auto simp: admit_inv_def slot_planned_def)
      then have sp: "sched_planned ?s3" and pc: "\<forall>r\<in>set (cur s2). planned (store s2 r)"
        using rotate_planned [of s2] by (auto simp: slot_planned_def)
      have idx3: "idx_ok ?s3" using sp by (simp add: sched_planned_def core_def)
      have inf: "get_snapshot s2 (active_requests s2) = od_values (inflight_batches s2 ! current_batch_idx s)"
        using get_snapshot_running [of "active_requests s2" s2] pc fr
        by (auto simp: cur_def planned_def active_requests_def frame_def)
      have "\<forall>r\<in>set (od_values (active_requests ?s3)). planned (store ?s3 r)"
        using sp by (simp add: sched_planned_def slot_planned_def cur_def)
      then have upd: "get_snapshot ?s3 (active_requests ?s3) = cur ?s3"
        using get_snapshot_running [of "active_requests ?s3" ?s3] by (auto simp: cur_def planned_def)
      have "live s \<union> set (request_queue s) = live s1 \<union> set (request_queue s1)"
        using mv core_cur(4) [OF I(1)] by (auto simp: moved_def)
      then have all: "live s2 \<union> set (request_queue s2) = live s \<union> set (request_queue s)"
        using a(2) by (simp add: admitted_def)
      have "result_queue s2 = result_queue s" using mv a(2) by (simp add: moved_def admitted_def)
      then show "outcome (scheduled s) (bounded s) (let batch_to_infer = get_snapshot s2 (active_requests s2);
            s3 = rotate_batch s2; batch_to_update = get_snapshot s3 (active_requests s3)
          in Ok (batch_to_infer, batch_to_update, s3))"
        using sp fr inf upd all
        by (simp add: scheduled_def Let_def frame_def) (simp add: rotate_batch_def)
    qed
  qed
qed

section \<open>Processing the result of a batch\<close>

text \<open>
  The shape of an inference result the update relies on: one token per request, and logits and
  log-probabilities either absent or one per request, present where a request asks for them.
\<close>

definition output_fits :: "(ref \<Rightarrow> 'f generation_config) \<Rightarrow> ref list \<Rightarrow> 'f inferencer_output \<Rightarrow> bool" where
  "output_fits gc reqs out \<longleftrightarrow>
     length (token_ids out) = length reqs \<and>
     length (logits out) \<in> {0, length reqs} \<and> length (logprobs out) \<in> {0, length reqs} \<and>
     (\<forall>r\<in>set reqs. output_logits (gc r) \<longrightarrow> length (logits out) = length reqs) \<and>
     (\<forall>r\<in>set reqs. output_scores (gc r) \<longrightarrow> length (logprobs out) = length reqs)"

abbreviation gen_cfg :: "'f sched \<Rightarrow> ref \<Rightarrow> 'f generation_config" where
  "gen_cfg s r \<equiv> generation_config (store s r)"

text \<open>The object change of \<open>_process_generated_token\<close>.\<close>

definition add_token :: "'f list list \<Rightarrow> 'f list \<Rightarrow> int \<Rightarrow> 'f inference_request \<Rightarrow> 'f inference_request" where
  "add_token ls ps t q = q\<lparr>generated_logits := ls, generated_logprobs := ps,
     generated_tokens := generated_tokens q @ [t]\<rparr>"

lemma upd_obj_upd_obj: "upd_obj r g (upd_obj r f s) = upd_obj r (\<lambda>q. g (f q)) s"
  by (simp add: upd_obj_def)

lemma upd_obj_at: "f (store s r) = g (store s r) \<Longrightarrow> upd_obj r f s = upd_obj r g s"
  by (simp add: upd_obj_def)

lemma process_generated_token_Ok:
  assumes "output_logits (gen_cfg s r) \<Longrightarrow> lg \<noteq> None" "output_scores (gen_cfg s r) \<Longrightarrow> lp \<noteq> None"
  shows "\<exists>ls ps. process_generated_token r (Some t) lg lp s = Ok (t, upd_obj r (add_token ls ps t) s)"
proof -
  let ?q = "store s r"
  let ?L = "\<lambda>q. if output_logits (gen_cfg s r) then q\<lparr>generated_logits := generated_logits q @ [the lg]\<rparr> else q"
  let ?P = "\<lambda>q. if output_scores (gen_cfg s r) then q\<lparr>generated_logprobs := generated_logprobs q @ [the lp]\<rparr> else q"
  let ?T = "\<lambda>q. q\<lparr>generated_tokens := generated_tokens q @ [t]\<rparr>"
  have gc: "gen_cfg (upd_obj r ?L s) r = gen_cfg s r" by simp
  have s1: "(if output_logits (gen_cfg s r)
       then case lg of None \<Rightarrow> Raise AssertionError
            | Some l \<Rightarrow> Ok (upd_obj r (\<lambda>q. q\<lparr>generated_logits := generated_logits q @ [l]\<rparr>) s)
       else Ok s) = Ok (upd_obj r ?L s)"
    using assms(1) by (auto simp: upd_obj_def)
  have s2: "(if output_scores (gen_cfg u r)
       then case lp of None \<Rightarrow> Raise AssertionError
            | Some p \<Rightarrow> Ok (upd_obj r (\<lambda>q. q\<lparr>generated_logprobs := generated_logprobs q @ [p]\<rparr>) u)
       else Ok u) = Ok (upd_obj r ?P u)" if "gen_cfg u r = gen_cfg s r" for u
    using assms(2) that by (auto simp: upd_obj_def)
  have "process_generated_token r (Some t) lg lp s = Ok (t, upd_obj r ?T (upd_obj r ?P (upd_obj r ?L s)))"
    by (simp only: process_generated_token_def option.case s1 rbind.simps s2 [OF gc])
  also have "upd_obj r ?T (upd_obj r ?P (upd_obj r ?L s)) =
      upd_obj r (add_token (generated_logits (?L ?q)) (generated_logprobs (?P ?q)) t) s"
    unfolding upd_obj_upd_obj by (rule upd_obj_at) (simp add: add_token_def)
  finally show ?thesis by blast
qed

lemma add_token_simps [simp]:
  "request_id (add_token ls ps t q) = request_id q" "generation_config (add_token ls ps t q) = generation_config q"
  "input_ids_list (add_token ls ps t q) = input_ids_list q" "status (add_token ls ps t q) = status q"
  "block_ids (add_token ls ps t q) = block_ids q" "num_computed_tokens (add_token ls ps t q) = num_computed_tokens q"
  "generated_tokens (add_token ls ps t q) = generated_tokens q @ [t]"
  "original_prompt_len (add_token ls ps t q) = original_prompt_len q"
  "prompt (add_token ls ps t q) = prompt q"
  "full_sequence (add_token ls ps t q) = full_sequence q @ [t]"
  by (simp_all add: add_token_def prompt_def full_sequence_def)

lemma req_ok_add_token: "req_ok q \<Longrightarrow> req_ok (add_token ls ps t q)"
proof -
  assume q: "req_ok q"
  then obtain k where k: "k \<le> length (generated_tokens q)" "input_ids_list q = prompt q @ take k (generated_tokens q)"
    by (auto simp: req_ok_def folded_ok_def)
  then have "input_ids_list q = prompt q @ take k (generated_tokens q @ [t])" by simp
  then show ?thesis using q k(1) by (auto simp: req_ok_def folded_ok_def intro!: exI [of _ k])
qed

lemma planned_skip_ready: "planned q \<Longrightarrow> \<not> prefill_done q \<Longrightarrow> ready q"
  by (auto simp: planned_def ready_def prefill_done_def)

lemma planned_token_ready: "planned q \<Longrightarrow> prefill_done q \<Longrightarrow> ready (add_token ls ps t q)"
  using req_ok_add_token [of q ls ps t]
  by (auto simp: planned_def ready_def prefill_done_def synced_def split: if_splits)

lemma should_finish_Ok: "req_ok q \<Longrightarrow> \<exists>b. should_finish q t = Ok b"
  by (auto simp: should_finish_def req_ok_def Let_def split: option.splits)

definition upd_inv :: "ref list \<Rightarrow> ref list \<Rightarrow> 'f sched \<Rightarrow> bool" where
  "upd_inv fin todo s \<longleftrightarrow>
     core {} s \<and> others_planned s \<and> cur s = fin @ todo \<and>
     (\<forall>r\<in>set fin. ready (store s r)) \<and> (\<forall>r\<in>set todo. planned (store s r)) \<and>
     front_ok (chunked s) (store s) (fin @ todo) \<and> int (length (fin @ todo)) \<le> token_cap s"

text \<open>
  What a round does to its request: nothing while the prompt is not consumed, otherwise the token is
  appended, and the request ends when the token meets a stopping condition.
\<close>

definition token_step :: "'f inference_request \<Rightarrow> int \<Rightarrow> 'f inference_request \<Rightarrow> bool" where
  "token_step q t q' \<longleftrightarrow>
     (if prefill_done q then
        \<exists>ls ps. should_finish (add_token ls ps t q) t = Ok False \<and> q' = add_token ls ps t q \<or>
          should_finish (add_token ls ps t q) t = Ok True \<and> q' = finish (add_token ls ps t q)
      else q' = q)"

definition upd_change :: "ref \<Rightarrow> int \<Rightarrow> 'f sched \<times> ref list \<Rightarrow> 'f sched \<times> ref list \<Rightarrow> bool" where
  "upd_change r t st st' \<longleftrightarrow>
     (let (s, f) = st; (s', f') = st' in
      token_step (store s r) t (store s' r) \<and>
      frame s s' \<and> request_queue s' = request_queue s \<and> result_queue s' = result_queue s \<and>
      (\<forall>x. x \<noteq> r \<longrightarrow> store s' x = store s x) \<and>
      (f' = f \<and> live s' = live s \<or>
       f' = f @ [r] \<and> live s' = live s - {r} \<and> status (store s' r) = FINISHED \<and> block_ids (store s' r) = []))"

lemma upd_inv_member:
  assumes "upd_inv fin (r # todo) s"
  shows "r \<in> set (cur s)" "r \<in> live s" "distinct (fin @ r # todo)" "r \<notin> set (outer s)"
  using assms core_cur [of "{}" s] by (auto simp: upd_inv_def)

lemma upd_token_step:
  assumes inv: "upd_inv fin (r # todo) s" and pd: "prefill_done (store s r)"
  shows "upd_inv (fin @ [r]) todo (upd_obj r (add_token ls ps t) s)"
    "frame s (upd_obj r (add_token ls ps t) s)"
proof -
  let ?s = "upd_obj r (add_token ls ps t) s"
  note M = upd_inv_member [OF inv]
  have I: "core {} s" using inv by (simp add: upd_inv_def)
  note U = core_upd [OF I M(1), of "add_token ls ps t"]
  show fr: "frame s ?s" using U(2) by simp
  have "holds_blocks (page ?s) (store ?s r)" using I M(2) by (simp add: core_def holds_blocks_def)
  then have "core {} ?s" using core_restore [of r "{}" ?s] U(1) by simp
  moreover have "others_planned ?s"
    using frame_others_planned [OF _ fr] inv by (simp add: upd_inv_def core_def)
  moreover have "front_ok (chunked s) (store ?s) (fin @ r # todo)"
    using inv by (auto simp: upd_inv_def prefill_done_def elim!: front_ok_mono)
  moreover have "ready (store ?s r)"
    using inv planned_token_ready [OF _ pd] by (simp add: upd_inv_def)
  ultimately show "upd_inv (fin @ [r]) todo ?s"
    using inv M(3) by (auto simp: upd_inv_def)
qed

lemma upd_leave_step:
  assumes inv: "upd_inv (fin @ [r]) todo s"
  shows "upd_inv fin todo (finalize_request r s)" "frame s (finalize_request r s)"
    "live (finalize_request r s) = live s - {r}"
proof -
  have I: "core {} s" "cur s = fin @ [r] @ todo" using inv by (simp_all add: upd_inv_def)
  have rc: "r \<in> set (cur s)" using I(2) by simp
  have d: "distinct (fin @ r # todo)" using core_cur(1) [OF I(1)] I(2) by simp
  have rn: "request_id (finish (store s r)) = rid s r" by (simp add: finish_def)
  have "filter (\<lambda>x. x \<noteq> r) fin = fin" "filter (\<lambda>x. x \<noteq> r) todo = todo"
    using d by (auto intro!: filter_True)
  then have ft: "filter (\<lambda>x. x \<noteq> r) (fin @ r # todo) = fin @ todo" by simp
  note L = core_leave [where g = finish, OF I(1) rc rn, folded finalize_request_leave]
  show fr: "frame s (finalize_request r s)" by (rule L(2))
  show "live (finalize_request r s) = live s - {r}" by (rule L(4))
  have c': "cur (finalize_request r s) = fin @ todo"
    using L(3) I(2) ft by simp
  have st: "store (finalize_request r s) x = store s x" if "x \<noteq> r" for x
    using that by (simp add: finalize_request_leave)
  have fo: "front_ok (chunked s) (store s) (fin @ todo)"
  proof -
    have "front_ok (chunked s) (store s) (fin @ r # todo)" using inv by (simp add: upd_inv_def)
    then have "front_ok (chunked s) (store s) (filter (\<lambda>x. x \<noteq> r) (fin @ r # todo))" by (rule front_ok_filter)
    then show ?thesis by (simp only: ft)
  qed
  have ne: "store (finalize_request r s) x = store s x" if "x \<in> set (fin @ todo)" for x
    using that d by (intro st) auto
  have "front_ok (chunked s) (store (finalize_request r s)) (fin @ todo)"
    by (rule front_ok_mono [OF fo]) (simp only: ne)
  moreover have "others_planned (finalize_request r s)"
    using frame_others_planned [OF _ fr] inv by (simp add: upd_inv_def core_def)
  ultimately show "upd_inv fin todo (finalize_request r s)"
    using L(1) c' inv d st by (auto simp: upd_inv_def finalize_request_leave)
qed

lemma upd_one_step:
  assumes inv: "upd_inv fin (r # todo) s" and nth: "nth_opt reqs i = Some r"
    and tok: "nth_opt (token_ids out) i = Some t"
    and lg: "output_logits (gen_cfg s r) \<Longrightarrow> nth_opt (logits out) i \<noteq> None"
    and lp: "output_scores (gen_cfg s r) \<Longrightarrow> nth_opt (logprobs out) i \<noteq> None"
  shows "\<exists>s' f' fin'. update_one reqs out i (s, f) = Ok (s', f') \<and> upd_inv fin' todo s' \<and> upd_change r t (s, f) (s', f')"
proof -
  have pl: "planned (store s r)" using inv by (simp add: upd_inv_def)
  then have nf: "\<not> is_finished (store s r)" by (simp add: planned_def is_finished_def)
  show ?thesis
  proof (cases "prefill_done (store s r)")
    case False
    then have "update_one reqs out i (s, f) = Ok (s, f)"
      using nth nf by (simp add: update_one_def prefill_done_def)
    moreover have "upd_inv (fin @ [r]) todo s"
      using inv planned_skip_ready [OF pl False] by (simp add: upd_inv_def)
    moreover have "token_step (store s r) t (store s r)" using False by (simp add: token_step_def)
    ultimately show ?thesis by (auto simp: upd_change_def)
  next
    case True
    obtain ls ps where p: "process_generated_token r (Some t) (nth_opt (logits out) i) (nth_opt (logprobs out) i) s
        = Ok (t, upd_obj r (add_token ls ps t) s)"
      using process_generated_token_Ok [OF lg lp] by blast
    let ?s = "upd_obj r (add_token ls ps t) s"
    note T = upd_token_step [OF inv True, of ls ps t]
    have "req_ok (store ?s r)" using T(1) by (auto simp: upd_inv_def ready_def)
    then obtain stop where sf: "should_finish (store ?s r) t = Ok stop" using should_finish_Ok by blast
    have eq: "update_one reqs out i (s, f) = (if stop then Ok (finalize_request r ?s, f @ [r]) else Ok (?s, f))"
      using nth nf True p sf tok by (simp add: update_one_def prefill_done_def)
    show ?thesis
    proof (cases stop)
      case False
      then have "token_step (store s r) t (store ?s r)" using True sf by (auto simp: token_step_def)
      then show ?thesis using eq T False by (auto simp: upd_change_def)
    next
      case stop: True
      note L = upd_leave_step [OF T(1)]
      have fs: "store (finalize_request r ?s) r = finish (store ?s r)" by (simp add: finalize_request_leave)
      have "token_step (store s r) t (store (finalize_request r ?s) r)"
        unfolding fs using True sf stop by (auto simp: token_step_def)
      then have "upd_change r t (s, f) (finalize_request r ?s, f @ [r])"
        using frame_trans [OF T(2) L(2)] L(3)
        by (simp add: upd_change_def finalize_request_leave) (simp add: finish_def)
      then show ?thesis using eq stop L(1) by auto
    qed
  qed
qed

text \<open>The whole loop, over the requests from position \<open>length pre\<close> on.\<close>

definition updated :: "ref list \<Rightarrow> int list \<Rightarrow> 'f sched \<times> ref list \<Rightarrow> 'f sched \<times> ref list \<Rightarrow> bool" where
  "updated T ts st st' \<longleftrightarrow>
     (let (s, f) = st; (s', f') = st' in
      frame s s' \<and> request_queue s' = request_queue s \<and> result_queue s' = result_queue s \<and>
      (\<forall>x. x \<notin> set T \<longrightarrow> store s' x = store s x) \<and>
      (\<forall>(r, t)\<in>set (zip T ts). token_step (store s r) t (store s' r)) \<and>
      set f' \<inter> live s' = {} \<and> live s' \<union> set f' = live s \<union> set f \<and> live s' \<subseteq> live s \<and>
      (\<forall>r\<in>set f'. status (store s' r) = FINISHED \<and> block_ids (store s' r) = []))"

lemma nth_opt_in: "i < length xs \<Longrightarrow> nth_opt xs i = Some (xs ! i)"
  by (simp add: nth_opt_def)

lemma update_loop:
  assumes "upd_inv fin todo s" "reqs = pre @ todo"
    and "output_fits (gen_cfg s) reqs out \<or> (\<forall>r\<in>set todo. output_logits (gen_cfg s r) \<longrightarrow> length (logits out) = length reqs)
      \<and> (\<forall>r\<in>set todo. output_scores (gen_cfg s r) \<longrightarrow> length (logprobs out) = length reqs)
      \<and> length (token_ids out) = length reqs"
    and "set f \<inter> live s = {}" "\<forall>r\<in>set f. status (store s r) = FINISHED \<and> block_ids (store s r) = []"
  shows "\<exists>s' f' fin'. for_res (update_one reqs out) [length pre..<length reqs] (s, f) = Ok (s', f') \<and>
    upd_inv fin' [] s' \<and> updated todo (drop (length pre) (token_ids out)) (s, f) (s', f')"
  using assms
proof (induction todo arbitrary: fin s pre f)
  case Nil
  then show ?case by (auto simp: updated_def)
next
  case (Cons r todo)
  let ?i = "length pre"
  have "?i < length reqs" using Cons.prems(2) by simp
  then have rng: "[?i..<length reqs] = ?i # [Suc ?i..<length reqs]" by (rule upt_conv_Cons)
  have out: "\<forall>x\<in>set (r # todo). output_logits (gen_cfg s x) \<longrightarrow> length (logits out) = length reqs"
    "\<forall>x\<in>set (r # todo). output_scores (gen_cfg s x) \<longrightarrow> length (logprobs out) = length reqs"
    "length (token_ids out) = length reqs"
    using Cons.prems(2,3) by (auto simp: output_fits_def)
  have i: "?i < length reqs" "nth_opt reqs ?i = Some r" using Cons.prems(2) by (auto simp: nth_opt_def)
  have "nth_opt (token_ids out) ?i = Some (token_ids out ! ?i)"
    "output_logits (gen_cfg s r) \<Longrightarrow> nth_opt (logits out) ?i \<noteq> None"
    "output_scores (gen_cfg s r) \<Longrightarrow> nth_opt (logprobs out) ?i \<noteq> None"
    using out i(1) by (simp_all add: nth_opt_def)
  from upd_one_step [OF Cons.prems(1) i(2) this, of f] obtain s1 f1 fin1 where
    one: "update_one reqs out ?i (s, f) = Ok (s1, f1)" "upd_inv fin1 todo s1"
      "upd_change r (token_ids out ! ?i) (s, f) (s1, f1)"
    by blast
  note M = upd_inv_member [OF Cons.prems(1)]
  have same: "store s1 x = store s x" if "x \<noteq> r" for x using that one(3) by (simp add: upd_change_def)
  have todo: "x \<noteq> r" if "x \<in> set todo" for x using that M(3) by auto
  have fr: "r \<notin> set f" using Cons.prems(4) M(2) by auto
  have f1: "set f1 \<inter> live s1 = {}" "live s1 \<union> set f1 = live s \<union> set f" "live s1 \<subseteq> live s"
    using one(3) Cons.prems(4) M(2) by (auto simp: upd_change_def)
  have fin1: "\<forall>x\<in>set f1. status (store s1 x) = FINISHED \<and> block_ids (store s1 x) = []"
  proof
    fix x assume x: "x \<in> set f1"
    show "status (store s1 x) = FINISHED \<and> block_ids (store s1 x) = []"
    proof (cases "x = r")
      case True
      then show ?thesis using x fr one(3) by (auto simp: upd_change_def)
    next
      case False
      then have "x \<in> set f" using x one(3) by (auto simp: upd_change_def)
      then show ?thesis using Cons.prems(5) same [OF False] by simp
    qed
  qed
  let ?ts = "drop (Suc ?i) (token_ids out)"
  have "\<exists>s' f' fin'. for_res (update_one reqs out) [length (pre @ [r])..<length reqs] (s1, f1) = Ok (s', f') \<and>
      upd_inv fin' [] s' \<and> updated todo (drop (length (pre @ [r])) (token_ids out)) (s1, f1) (s', f')"
    using out todo same Cons.prems(2) f1(1) fin1 by (intro Cons.IH [OF one(2)]) auto
  then obtain s' f' fin' where rest: "for_res (update_one reqs out) [Suc ?i..<length reqs] (s1, f1) = Ok (s', f')"
    "upd_inv fin' [] s'" "updated todo ?ts (s1, f1) (s', f')" by auto
  have ts: "drop ?i (token_ids out) = token_ids out ! ?i # ?ts"
    using i(1) out(3) by (simp add: Cons_nth_drop_Suc)
  have "store s' r = store s1 r" using rest(3) todo by (auto simp: updated_def)
  then have "token_step (store s r) (token_ids out ! ?i) (store s' r)" using one(3) by (simp add: upd_change_def)
  moreover have "token_step (store s x) t (store s' x)" if "(x, t) \<in> set (zip todo ?ts)" for x t
    using rest(3) that same [of x] todo set_zip_leftD [OF that] by (auto simp: updated_def)
  ultimately have "\<forall>(x, t)\<in>set (zip (r # todo) (drop ?i (token_ids out))). token_step (store s x) t (store s' x)"
    unfolding ts by auto
  moreover have "store s' x = store s x" if "x \<notin> set (r # todo)" for x
    using rest(3) same [of x] that by (simp add: updated_def)
  moreover have "frame s s'" "request_queue s' = request_queue s" "result_queue s' = result_queue s"
    using rest(3) one(3) frame_trans [of s s1 s'] by (simp_all add: updated_def upd_change_def)
  moreover have "live s' \<subseteq> live s" "live s' \<union> set f' = live s \<union> set f"
    "set f' \<inter> live s' = {}" "\<forall>x\<in>set f'. status (store s' x) = FINISHED \<and> block_ids (store s' x) = []"
    using rest(3) f1(2) by (simp_all add: updated_def order.trans [OF _ f1(3)])
  ultimately have "updated (r # todo) (drop ?i (token_ids out)) (s, f) (s', f')" by (simp add: updated_def)
  moreover have "for_res (update_one reqs out) [?i..<length reqs] (s, f) = Ok (s', f')"
    by (simp add: rng one(1) rest(1))
  ultimately show ?case using rest(2) by blast
qed

lemma update_Ok:
  assumes "sched_planned s" "output_fits (gen_cfg s) (cur s) out"
  shows "\<exists>s' f. update (cur s) out s = Ok s' \<and> sched_ready s' \<and> frame s s' \<and>
    request_queue s' = request_queue s \<and> result_queue s' = (if f = [] then result_queue s else result_queue s @ [f]) \<and>
    set f \<inter> live s' = {} \<and> live s' \<union> set f = live s \<and>
    (\<forall>(r, t)\<in>set (zip (cur s) (token_ids out)). token_step (store s r) t (store s' r)) \<and>
    (\<forall>x. x \<notin> set (cur s) \<longrightarrow> store s' x = store s x) \<and>
    (\<forall>r\<in>set f. status (store s' r) = FINISHED \<and> block_ids (store s' r) = [])"
proof -
  have "int (length (cur s)) \<le> token_cap s"
    using assms(1) slot_planned_length by (auto simp: sched_planned_def)
  then have inv: "upd_inv [] (cur s) s"
    using assms(1) by (auto simp: upd_inv_def sched_planned_def slot_planned_def)
  obtain s' f' fin' where L: "for_res (update_one (cur s) out) [0..<length (cur s)] (s, []) = Ok (s', f')"
    "upd_inv fin' [] s'" "updated (cur s) (token_ids out) (s, []) (s', f')"
    using update_loop [OF inv, of "cur s" "[]" out "[]"] assms(2) by auto
  let ?n = "max (length (cur s)) (max (length (token_ids out)) (max (length (logits out)) (length (logprobs out))))"
  have n: "?n = length (cur s)" using assms(2) by (auto simp: output_fits_def)
  let ?s = "if f' = [] then s' else s'\<lparr>result_queue := result_queue s' @ [f']\<rparr>"
  have "update (cur s) out s = Ok ?s" using L(1) n by (simp add: update_def Let_def)
  moreover have "sched_ready s'"
    using L(2) by (auto simp: upd_inv_def sched_ready_def slot_ready_def)
  then have "sched_ready ?s"
    by (simp add: sched_ready_def core_def others_planned_def keys_ok_def)
  moreover have "frame s s'" using L(3) by (simp add: updated_def)
  then have "frame s ?s" by (simp add: frame_def)
  ultimately show ?thesis using L(3) by (intro exI [of _ ?s] exI [of _ f']) (auto simp: updated_def)
qed

text \<open>With nothing to update the current slot is empty, and so is already \<open>sched_ready\<close>.\<close>

lemma sched_planned_empty_ready: "sched_planned s \<Longrightarrow> cur s = [] \<Longrightarrow> 0 \<le> token_cap s \<Longrightarrow> sched_ready s"
  by (simp add: sched_planned_def sched_ready_def slot_ready_def front_ok_def)

end
