(* ===== verification/Scheduler_Props.thy ===== *)
theory Scheduler_Props
  imports Scheduler_Run
begin

text \<open>
  Two facts about scheduling that need no invariant: it never touches what identifies a request or
  what it has generated (\<open>fixed\<close>), and no batch slot outgrows \<open>max_num_seqs\<close> (\<open>small_slots\<close>).
\<close>

section \<open>What scheduling leaves alone\<close>

definition fixed :: "'f inference_request \<Rightarrow> 'f inference_request \<Rightarrow> bool" where
  "fixed q q' \<longleftrightarrow>
     request_id q' = request_id q \<and> generation_config q' = generation_config q \<and>
     generated_tokens q' = generated_tokens q \<and> original_prompt_len q' = original_prompt_len q \<and>
     generated_logits q' = generated_logits q \<and> generated_logprobs q' = generated_logprobs q"

definition all_fixed :: "'f sched \<Rightarrow> 'f sched \<Rightarrow> bool" where
  "all_fixed s s' \<longleftrightarrow> (\<forall>r. fixed (store s r) (store s' r))"

lemma fixed_refl [simp]: "fixed q q"
  by (simp add: fixed_def)

lemma all_fixed_refl [simp]: "all_fixed s s"
  by (simp add: all_fixed_def)

lemma all_fixed_trans: "all_fixed s t \<Longrightarrow> all_fixed t u \<Longrightarrow> all_fixed s u"
  unfolding all_fixed_def fixed_def by metis

lemma all_fixed_store: "store s' = store s \<Longrightarrow> all_fixed s s'"
  by (simp add: all_fixed_def)

lemma all_fixed_upd: "(\<And>q. fixed q (f q)) \<Longrightarrow> all_fixed s (upd_obj r f s)"
  by (simp add: all_fixed_def)

lemma fixed_ops [simp]:
  "fixed q (preempt q)" "fixed q (set_plan a b q)" "fixed q (extend_blocks bs q)"
  "fixed q (activate (extend_blocks bs q))"
  by (simp_all add: fixed_def preempt_def set_plan_def extend_blocks_def activate_def Let_def)

lemma queue_put_store: "queue_put r s = Ok s' \<Longrightarrow> store s' = store s"
  by (auto simp: queue_put_def split: if_splits)

lemma queue_put_fixed: "queue_put r s = Ok s' \<Longrightarrow> all_fixed s s'"
  by (rule all_fixed_store) (rule queue_put_store)

lemma preempt_request_fixed:
  assumes "preempt_request r s = Ok s'"
  shows "all_fixed s s'"
proof -
  let ?s2 = "upd_obj r preempt (s\<lparr>kvm := free_blocks (kvm s) (block_ids (store s r))\<rparr>)"
  have "all_fixed s ?s2" by (simp add: all_fixed_def)
  moreover have "store s' = store ?s2"
    using assms by (auto simp: preempt_request_def Let_def dest: queue_put_store)
  then have "all_fixed ?s2 s'" by (rule all_fixed_store)
  ultimately show ?thesis by (rule all_fixed_trans)
qed

lemma extend_or_preempt_fixed:
  assumes "extend_or_preempt r s = Ok (ok, s')"
  shows "all_fixed s s'"
proof -
  let ?al = "\<lambda>s. allocate_blocks (kvm s) (num_computed_tokens (store s r)) (int (length (block_ids (store s r))))"
  have up: "all_fixed u (upd_obj r (extend_blocks bs) (u\<lparr>kvm := m\<rparr>))" for u bs m
    by (simp add: all_fixed_def)
  show ?thesis
  proof (cases "fst (?al s)")
    case (Some bs)
    then show ?thesis using assms up by (auto simp: extend_or_preempt_def Let_def case_prod_beta)
  next
    case None
    then obtain v s1 where v: "preempt_request v s = Ok s1"
      and rest: "s' = s1 \<or> (\<exists>bs m. s' = upd_obj r (extend_blocks bs) (s1\<lparr>kvm := m\<rparr>))"
      using assms
      by (auto simp: extend_or_preempt_def Let_def case_prod_beta split: if_splits option.splits)
    have "all_fixed s1 s'" using rest up by auto
    then show ?thesis using preempt_request_fixed [OF v] all_fixed_trans by blast
  qed
qed

lemma plan_active_fixed:
  assumes "plan_active r (s, b) = Ok (s', b')"
  shows "all_fixed s s'"
proof (cases "request_id (store s r) \<in> set (od_keys (active_requests s))")
  case False
  then show ?thesis using assms by (simp add: plan_active_def)
next
  case True
  then obtain t n ok where e: "extend_or_preempt r (upd_obj r (set_plan t n) s) = Ok (ok, s')"
    using assms by (auto simp: plan_active_def case_prod_beta)
  have "all_fixed s (upd_obj r (set_plan t n) s)" by (rule all_fixed_upd) simp
  then show ?thesis using extend_or_preempt_fixed [OF e] all_fixed_trans by blast
qed

lemma plan_loop_fixed: "plan_loop xs (s, b) = Ok (s', b') \<Longrightarrow> all_fixed s s'"
proof -
  assume l: "plan_loop xs (s, b) = Ok (s', b')"
  have "(\<lambda>(u, _). all_fixed s u) (s', b')"
  proof (rule for_res_invariant [where P = "\<lambda>(u, _). all_fixed s u" and f = plan_active and xs = xs and s = "(s, b)"])
    show "(\<lambda>(u, _). all_fixed s u) (s, b)" by simp
    show "(\<lambda>(u, _). all_fixed s u) st'"
      if "x \<in> set xs" "(\<lambda>(u, _). all_fixed s u) st" "plan_active x st = Ok st'" for x st st'
      using that plan_active_fixed all_fixed_trans by (cases st; cases st') (auto; blast)
    show "for_res plan_active xs (s, b) = Ok (s', b')" using l by (simp add: plan_loop_def)
  qed
  then show ?thesis by simp
qed

lemma activate_request_fixed: "activate_request r s = Ok s' \<Longrightarrow> all_fixed s s'"
  by (auto simp: activate_request_def Let_def all_fixed_def case_prod_beta split: option.splits)

text \<open>A rule for the admission loop: an invariant of its passes, and what each way out yields.\<close>

lemma admit_loop_rule:
  assumes "admit_loop b n s = Ok s'" "P n s"
    and "\<And>n s. P n s \<Longrightarrow> Q s"
    and "\<And>n s r rest s'. P n s \<Longrightarrow> request_queue s = r # rest \<Longrightarrow>
      queue_put r (s\<lparr>request_queue := rest\<rparr>) = Ok s' \<Longrightarrow> Q s'"
    and "\<And>n s r rest s2 t m. P n s \<Longrightarrow> 0 < n \<Longrightarrow> request_queue s = r # rest \<Longrightarrow>
      activate_request r (s\<lparr>request_queue := rest\<rparr>) = Ok s2 \<Longrightarrow> P (n - 1) (upd_obj r (set_plan t m) s2)"
  shows "Q s'"
  using assms(1,2)
proof (induction b n s rule: admit_loop.induct)
  case (1 b n s)
  show ?case
  proof (cases "0 < b \<and> 0 < n \<and> request_queue s \<noteq> []")
    case False
    then have "s' = s" using "1.prems"(1) by (auto simp: admit_loop.simps [of b n s] split: list.splits if_splits)
    then show ?thesis using assms(3) "1.prems"(2) by blast
  next
    case True
    then obtain r rest where q: "request_queue s = r # rest" by (cases "request_queue s") auto
    let ?s1 = "s\<lparr>request_queue := rest\<rparr>"
    obtain t m where tn: "plan_tokens_for_request (enable_chunked_prefill (sconfig s)) (store s r) b = (t, m)" by force
    show ?thesis
    proof (cases "t \<le> b \<and> (\<exists>s2. activate_request r ?s1 = Ok s2)")
      case False
      then have "queue_put r ?s1 = Ok s'"
        using True q tn "1.prems"(1)
        by (auto simp: admit_loop.simps [of b n s] Let_def split: res.splits if_splits)
      then show ?thesis using assms(4) "1.prems"(2) q by blast
    next
      case act: True
      then obtain s2 where s2: "activate_request r ?s1 = Ok s2" by blast
      let ?s3 = "upd_obj r (set_plan t m) s2"
      have "admit_loop (b - t) (n - 1) ?s3 = Ok s'"
        using True q tn s2 act "1.prems"(1) by (simp add: admit_loop.simps [of b n s])
      moreover have "P (n - 1) ?s3" using assms(5) "1.prems"(2) q s2 True by blast
      ultimately show ?thesis
        using "1.IH" [of r rest ?s1 "(t, m)" t m s2] True q tn s2 act by simp
    qed
  qed
qed

lemma admit_loop_fixed: "admit_loop b n s = Ok s' \<Longrightarrow> all_fixed s s'"
proof -
  assume "admit_loop b n s = Ok s'"
  then show ?thesis
  proof (rule admit_loop_rule [where P = "\<lambda>_ u. all_fixed s u"])
    show "all_fixed s u'"
      if "all_fixed s u" "queue_put r (u\<lparr>request_queue := rest\<rparr>) = Ok u'" for u r rest u'
      using that by (auto dest!: queue_put_store simp: all_fixed_def)
    show "all_fixed s (upd_obj r (set_plan t m) u2)"
      if "all_fixed s u" "activate_request r (u\<lparr>request_queue := rest\<rparr>) = Ok u2" for u r rest u2 t m
    proof -
      have "all_fixed s (u\<lparr>request_queue := rest\<rparr>)" using that(1) by (simp add: all_fixed_def)
      moreover have "all_fixed u2 (upd_obj r (set_plan t m) u2)" by (rule all_fixed_upd) simp
      ultimately show ?thesis using activate_request_fixed [OF that(2)] all_fixed_trans by blast
    qed
  qed simp_all
qed

lemma schedule_split:
  assumes "schedule fq s = Ok (a, b, s')"
  obtains s1 n s2 where "plan_loop (od_values (active_requests s)) (s, max_num_batched_tokens (sconfig s)) = Ok (s1, n)"
    "admit_loop n (seqs_budget_for fq s1) s1 = Ok s2" "s' = rotate_batch s2"
  using assms by (auto simp: schedule_def Let_def)

lemma schedule_fixed:
  assumes "schedule fq s = Ok (a, b, s')"
  shows "all_fixed s s'"
proof -
  obtain s1 n s2 where S: "plan_loop (od_values (active_requests s)) (s, max_num_batched_tokens (sconfig s)) = Ok (s1, n)"
    "admit_loop n (seqs_budget_for fq s1) s1 = Ok s2" "s' = rotate_batch s2"
    using schedule_split [OF assms] .
  have "all_fixed s1 s'" using admit_loop_fixed [OF S(2)] S(3) by (simp add: all_fixed_def)
  with plan_loop_fixed [OF S(1)] show ?thesis by (rule all_fixed_trans)
qed

section \<open>The size of a slot\<close>

definition small_slots :: "int \<Rightarrow> 'f sched \<Rightarrow> bool" where
  "small_slots m s \<longleftrightarrow> (\<forall>b\<in>set (inflight_batches s). int (length b) \<le> m)"

definition slots_le :: "'f sched \<Rightarrow> 'f sched \<Rightarrow> bool" where
  "slots_le s s' \<longleftrightarrow>
     sconfig s' = sconfig s \<and> current_batch_idx s' = current_batch_idx s \<and>
     length (inflight_batches s') = length (inflight_batches s) \<and>
     (\<forall>i<length (inflight_batches s). length (inflight_batches s' ! i) \<le> length (inflight_batches s ! i))"

lemma slots_le_refl [simp]: "slots_le s s"
  by (simp add: slots_le_def)

lemma slots_le_trans: "slots_le s t \<Longrightarrow> slots_le t u \<Longrightarrow> slots_le s u"
  by (simp add: slots_le_def) (meson order.trans)

lemma slots_le_same:
  "inflight_batches s' = inflight_batches s \<Longrightarrow> sconfig s' = sconfig s \<Longrightarrow>
    current_batch_idx s' = current_batch_idx s \<Longrightarrow> slots_le s s'"
  by (simp add: slots_le_def)

lemma slots_le_small: "slots_le s s' \<Longrightarrow> small_slots m s \<Longrightarrow> small_slots m s'"
  by (simp add: slots_le_def small_slots_def all_set_conv_all_nth) (meson of_nat_mono order.trans)

lemma slots_le_pop: "slots_le s (set_active (od_pop k (active_requests s)) s)"
  by (cases "current_batch_idx s < length (inflight_batches s)")
    (auto simp: slots_le_def set_active_def active_requests_def od_pop_def nth_list_update)

lemma queue_put_slots: "queue_put r s = Ok s' \<Longrightarrow> slots_le s s'"
  by (auto simp: queue_put_def slots_le_def split: if_splits)

lemma preempt_request_slots:
  assumes "preempt_request r s = Ok s'"
  shows "slots_le s s'"
proof -
  let ?s2 = "upd_obj r preempt (s\<lparr>kvm := free_blocks (kvm s) (block_ids (store s r))\<rparr>)"
  let ?s3 = "set_active (od_pop (request_id (store ?s2 r)) (active_requests ?s2)) ?s2"
  have "slots_le s ?s2" by (rule slots_le_same) simp_all
  moreover have "slots_le ?s2 ?s3" by (rule slots_le_pop)
  moreover have "slots_le ?s3 s'"
    using assms by (intro queue_put_slots [of r]) (simp add: preempt_request_def Let_def)
  ultimately show ?thesis using slots_le_trans [of s ?s2 ?s3] slots_le_trans [of s ?s3 s'] by simp
qed

lemma finalize_request_slots: "slots_le s (finalize_request r s)"
proof -
  let ?s2 = "upd_obj r finish (s\<lparr>kvm := free_blocks (kvm s) (block_ids (store s r))\<rparr>)"
  have "slots_le s ?s2" by (rule slots_le_same) simp_all
  then show ?thesis
    using slots_le_trans [OF _ slots_le_pop [of ?s2]] unfolding finalize_request_def Let_def by simp
qed

lemma extend_or_preempt_slots:
  assumes "extend_or_preempt r s = Ok (ok, s')"
  shows "slots_le s s'"
proof -
  let ?al = "\<lambda>s. allocate_blocks (kvm s) (num_computed_tokens (store s r)) (int (length (block_ids (store s r))))"
  have up: "slots_le u (upd_obj r (extend_blocks bs) (u\<lparr>kvm := m\<rparr>))" for u bs m
    by (rule slots_le_same) simp_all
  show ?thesis
  proof (cases "fst (?al s)")
    case (Some bs)
    then show ?thesis using assms up by (auto simp: extend_or_preempt_def Let_def case_prod_beta)
  next
    case None
    then obtain v s1 where v: "preempt_request v s = Ok s1"
      and rest: "s' = s1 \<or> (\<exists>bs m. s' = upd_obj r (extend_blocks bs) (s1\<lparr>kvm := m\<rparr>))"
      using assms
      by (auto simp: extend_or_preempt_def Let_def case_prod_beta split: if_splits option.splits)
    have "slots_le s1 s'" using rest up by auto
    then show ?thesis using preempt_request_slots [OF v] slots_le_trans by blast
  qed
qed

lemma plan_active_slots:
  assumes "plan_active r (s, b) = Ok (s', b')"
  shows "slots_le s s'"
proof (cases "request_id (store s r) \<in> set (od_keys (active_requests s))")
  case False
  then show ?thesis using assms by (simp add: plan_active_def)
next
  case True
  then obtain t n ok where e: "extend_or_preempt r (upd_obj r (set_plan t n) s) = Ok (ok, s')"
    using assms by (auto simp: plan_active_def case_prod_beta)
  have "slots_le s (upd_obj r (set_plan t n) s)" by (rule slots_le_same) simp_all
  then show ?thesis using extend_or_preempt_slots [OF e] slots_le_trans by blast
qed

lemma plan_loop_slots: "plan_loop xs (s, b) = Ok (s', b') \<Longrightarrow> slots_le s s'"
proof -
  assume l: "plan_loop xs (s, b) = Ok (s', b')"
  have "(\<lambda>(u, _). slots_le s u) (s', b')"
  proof (rule for_res_invariant [where P = "\<lambda>(u, _). slots_le s u" and f = plan_active and xs = xs and s = "(s, b)"])
    show "(\<lambda>(u, _). slots_le s u) (s, b)" by simp
    show "(\<lambda>(u, _). slots_le s u) st'"
      if "x \<in> set xs" "(\<lambda>(u, _). slots_le s u) st" "plan_active x st = Ok st'" for x st st'
      using that plan_active_slots slots_le_trans by (cases st; cases st') (auto; blast)
    show "for_res plan_active xs (s, b) = Ok (s', b')" using l by (simp add: plan_loop_def)
  qed
  then show ?thesis by simp
qed

text \<open>An activation adds at most one entry to the current slot.\<close>

lemma length_od_set: "length (od_set k v d) \<le> Suc (length d)"
  by (induction k v d rule: od_set.induct) auto

lemma activate_request_slots:
  assumes "activate_request r s = Ok s'"
  shows "sconfig s' = sconfig s \<and> current_batch_idx s' = current_batch_idx s \<and>
    (\<exists>d. inflight_batches s' = (inflight_batches s)[current_batch_idx s := d] \<and>
      length d \<le> Suc (length (active_requests s)))"
  using assms
  by (auto simp: activate_request_def Let_def case_prod_beta set_active_def split: option.splits
      intro!: exI [of _ "od_set (rid s r) r (active_requests s)"] length_od_set)

definition small_active :: "int \<Rightarrow> 'f sched \<Rightarrow> bool" where
  "small_active m s \<longleftrightarrow> (current_batch_idx s < length (inflight_batches s) \<longrightarrow> int (length (active_requests s)) \<le> m)"

definition room :: "int \<Rightarrow> int \<Rightarrow> 'f sched \<Rightarrow> bool" where
  "room m n s \<longleftrightarrow>
     (current_batch_idx s < length (inflight_batches s) \<longrightarrow> int (length (active_requests s)) + max 0 n \<le> m)"

text \<open>Admission stops when the places of the current slot are used up.\<close>

lemma admit_loop_room:
  assumes "admit_loop b n s = Ok s'" "room m n s"
  shows "small_active m s'"
  using assms
proof (rule admit_loop_rule [where P = "room m"])
  show "small_active m u" if "room m k u" for k u using that by (auto simp: room_def small_active_def)
  show "small_active m u'" if "room m k u" "queue_put r (u\<lparr>request_queue := rest\<rparr>) = Ok u'" for k u r rest u'
    using that by (auto simp: room_def small_active_def queue_put_def active_requests_def split: if_splits)
  show "room m (k - 1) (upd_obj r (set_plan t i) u2)"
    if R: "room m k u" "0 < k" "activate_request r (u\<lparr>request_queue := rest\<rparr>) = Ok u2" for k u r rest u2 t i
  proof -
    obtain d where d: "inflight_batches u2 = (inflight_batches u)[current_batch_idx u := d]"
      "length d \<le> Suc (length (active_requests u))" "current_batch_idx u2 = current_batch_idx u"
      using activate_request_slots [OF R(3)] by auto
    show ?thesis
      using R(1,2) d by (auto simp: room_def active_requests_def)
  qed
qed

lemma seqs_budget_for_le: "seqs_budget_for fq s \<le> max_num_seqs (sconfig s) - int (length (active_requests s))"
  by (simp add: seqs_budget_for_def Let_def)

lemma slots_le_active: "slots_le s s' \<Longrightarrow> small_active m s \<Longrightarrow> small_active m s'"
  by (auto simp: slots_le_def small_active_def active_requests_def dest: of_nat_mono intro: order.trans)

lemma admit_loop_slots:
  assumes "admit_loop b n s = Ok s'"
  shows "sconfig s' = sconfig s \<and> current_batch_idx s' = current_batch_idx s \<and>
    (\<exists>d. inflight_batches s' = (inflight_batches s)[current_batch_idx s := d])"
  using assms
proof (rule admit_loop_rule [where P = "\<lambda>_ u. sconfig u = sconfig s \<and> current_batch_idx u = current_batch_idx s \<and>
    (\<exists>d. inflight_batches u = (inflight_batches s)[current_batch_idx s := d])"])
  show "sconfig s = sconfig s \<and> current_batch_idx s = current_batch_idx s \<and>
      (\<exists>d. inflight_batches s = (inflight_batches s)[current_batch_idx s := d])"
    by (auto intro: exI [of _ "inflight_batches s ! current_batch_idx s"])
qed (auto simp: queue_put_def dest!: activate_request_slots split: if_splits)

text \<open>
  The slot just planned holds at most the configured number of sequences, or what it held before if
  that was more already; no other slot grows.
\<close>

lemma schedule_slot_size:
  assumes "schedule fq s = Ok (a, b, s')" "max_num_seqs (sconfig s) \<le> m" "small_active m s"
  shows "\<forall>i<length (inflight_batches s'). i \<noteq> current_batch_idx s \<longrightarrow>
      length (inflight_batches s' ! i) \<le> length (inflight_batches s ! i)"
    and "length (inflight_batches s') = length (inflight_batches s)"
    and "current_batch_idx s < length (inflight_batches s') \<longrightarrow>
      int (length (inflight_batches s' ! current_batch_idx s)) \<le> m"
    and "sconfig s' = sconfig s"
proof -
  obtain s1 n s2 where S: "plan_loop (od_values (active_requests s)) (s, max_num_batched_tokens (sconfig s)) = Ok (s1, n)"
    "admit_loop n (seqs_budget_for fq s1) s1 = Ok s2" "s' = rotate_batch s2"
    using schedule_split [OF assms(1)] .
  note L = plan_loop_slots [OF S(1)] and A = admit_loop_slots [OF S(2)]
  have "small_active m s1" using slots_le_active [OF L assms(3)] .
  then have "room m (seqs_budget_for fq s1) s1"
    using seqs_budget_for_le [of fq s1] L assms(2) by (auto simp: room_def small_active_def slots_le_def)
  then have "small_active m s2" by (rule admit_loop_room [OF S(2)])
  then show "current_batch_idx s < length (inflight_batches s') \<longrightarrow>
      int (length (inflight_batches s' ! current_batch_idx s)) \<le> m"
    using L A by (auto simp: S(3) small_active_def active_requests_def slots_le_def)
  show "\<forall>i<length (inflight_batches s'). i \<noteq> current_batch_idx s \<longrightarrow>
      length (inflight_batches s' ! i) \<le> length (inflight_batches s ! i)"
    "length (inflight_batches s') = length (inflight_batches s)" "sconfig s' = sconfig s"
    using L A by (auto simp: S(3) slots_le_def)
qed

lemma schedule_small:
  assumes "schedule fq s = Ok (a, b, s')" "small_slots (max_num_seqs (sconfig s)) s"
  shows "small_slots (max_num_seqs (sconfig s)) s'"
proof -
  let ?m = "max_num_seqs (sconfig s)"
  have "small_active ?m s" using assms(2) by (auto simp: small_active_def small_slots_def active_requests_def)
  note S = schedule_slot_size [OF assms(1) order.refl this]
  have "int (length (inflight_batches s' ! i)) \<le> ?m" if i: "i < length (inflight_batches s')" for i
  proof (cases "i = current_batch_idx s")
    case False
    then have "length (inflight_batches s' ! i) \<le> length (inflight_batches s ! i)" using S(1) i by blast
    moreover have "int (length (inflight_batches s ! i)) \<le> ?m"
      using assms(2) i S(2) by (simp add: small_slots_def)
    ultimately show ?thesis by linarith
  qed (use S(3) i in simp)
  then show ?thesis by (simp add: small_slots_def all_set_conv_all_nth)
qed

lemma small_slots_bound: "\<exists>m. small_slots m s"
proof -
  have "int (length b) \<le> int (Max (length ` set (inflight_batches s)))" if "b \<in> set (inflight_batches s)" for b
    using that by simp
  then show ?thesis unfolding small_slots_def by blast
qed

lemma process_generated_token_slots:
  "process_generated_token r t lg lp s = Ok (k, s') \<Longrightarrow> slots_le s s'"
  by (intro slots_le_same) (auto simp: process_generated_token_def split: option.splits if_splits)

lemma update_one_slots: "update_one reqs out i (s, f) = Ok (s', f') \<Longrightarrow> slots_le s s'"
proof -
  assume u: "update_one reqs out i (s, f) = Ok (s', f')"
  then obtain r where r: "nth_opt reqs i = Some r" by (auto simp: update_one_def split: option.splits)
  show ?thesis
  proof (cases "s' = s")
    case False
    then obtain k s1 where s1: "process_generated_token r (nth_opt (token_ids out) i) (nth_opt (logits out) i)
        (nth_opt (logprobs out) i) s = Ok (k, s1)" "s' = s1 \<or> s' = finalize_request r s1"
      using u r by (auto simp: update_one_def split: if_splits)
    show ?thesis
      using process_generated_token_slots [OF s1(1)] s1(2) slots_le_trans [OF _ finalize_request_slots] by auto
  qed simp
qed

lemma update_small:
  assumes "update reqs out s = Ok s'" "small_slots m s"
  shows "small_slots m s' \<and> sconfig s' = sconfig s"
proof -
  obtain n s1 f where l: "for_res (update_one reqs out) [0..<n] (s, []) = Ok (s1, f)"
    and s': "inflight_batches s' = inflight_batches s1" "sconfig s' = sconfig s1"
    using assms(1) by (auto simp: update_def Let_def)
  have "(\<lambda>(u, _). slots_le s u) (s1, f)"
  proof (rule for_res_invariant [where P = "\<lambda>(u, _). slots_le s u" and f = "update_one reqs out"
        and xs = "[0..<n]" and s = "(s, [])"])
    show "(\<lambda>(u, _). slots_le s u) st'"
      if "(\<lambda>(u, _). slots_le s u) st" "update_one reqs out x st = Ok st'" for x st st'
      using that update_one_slots slots_le_trans by (cases st; cases st') (auto; blast)
  qed (simp_all add: l)
  then show ?thesis using slots_le_small [of s s1 m] assms(2) s' by (simp add: small_slots_def slots_le_def)
qed

lemma schedule_sconfig:
  assumes "schedule fq s = Ok (a, b, s')"
  shows "sconfig s' = sconfig s"
proof -
  have "small_active (max (max_num_seqs (sconfig s)) (int (length (active_requests s)))) s"
    by (simp add: small_active_def)
  then show ?thesis using schedule_slot_size(4) [OF assms max.cobounded1] by blast
qed

text \<open>The batch of a step, and the limit on its sequences.\<close>

lemma schedule_batch_size:
  assumes "schedule fq s = Ok (a, b, s')" "current_batch_idx s < length (inflight_batches s')"
  shows "int (length (od_values (inflight_batches s' ! current_batch_idx s)))
    \<le> max (max_num_seqs (sconfig s)) (int (length (cur s)))"
proof -
  have "small_active (max (max_num_seqs (sconfig s)) (int (length (active_requests s)))) s"
    by (simp add: small_active_def)
  then show ?thesis
    using schedule_slot_size(3) [OF assms(1) max.cobounded1] assms(2) by (simp add: cur_def)
qed

end
