(* ===== verification/Gen_Ctx.thy ===== *)
theory Gen_Ctx
  imports Runtime_Data
begin

text \<open>
  \<open>Inferencer._prepare_gen_ctx\<close> of \<open>vexact/inferencer/inferencer.py\<close>: the arrays the first pipeline
  rank builds from the requests of a batch. Arrays are filled by the loops of the source, so an
  index or a value out of range is an exception of the model. Then closed forms of the arrays, and
  the conditions under which no exception is raised. Token ids are taken to fit \<open>int64\<close>.
\<close>

section \<open>The loops\<close>

definition write_slot :: "int \<Rightarrow> 'f inference_request \<Rightarrow> int \<Rightarrow> int list \<times> int \<Rightarrow> (int list \<times> int) res" where
  "write_slot ps r pos st =
     (let (arr, slot_idx) = st in
      rbind (py_get (block_ids r) (pos div ps)) (\<lambda>block_id.
      rbind (np_set32 arr slot_idx (block_id * ps + pos mod ps)) (\<lambda>arr'. Ok (arr', slot_idx + 1))))"

definition write_request_slots ::
    "int \<Rightarrow> 'f inference_request \<Rightarrow> int list \<times> int \<Rightarrow> (int list \<times> int) res" where
  "write_request_slots ps r st =
     (let start_pos = num_computed_tokens r - tokens_this_step r
      in if start_pos < 0 then Raise AssertionError
         else for_res (write_slot ps r) (py_range start_pos (start_pos + tokens_this_step r)) st)"

definition build_slot_mapping :: "int \<Rightarrow> 'f inference_request list \<Rightarrow> int list res" where
  "build_slot_mapping ps reqs =
     (let total_tokens = sum_list (map tokens_this_step reqs)
      in if total_tokens < 0 then Raise ValueError
         else rbind (for_res (write_request_slots ps) reqs (replicate (nat total_tokens) (-1), 0))
                (\<lambda>(arr, _). Ok arr))"

definition build_context_lens :: "'f inference_request list \<Rightarrow> int list res" where
  "build_context_lens reqs = map_res (\<lambda>r. np_int32 (num_computed_tokens r)) reqs"

definition block_table_row :: "nat \<Rightarrow> int list \<Rightarrow> int list res" where
  "block_table_row width bs =
     for_res (\<lambda>(j, b) row. np_set32 row (int j) b) (enumerate 0 bs) (replicate width (-1))"

definition build_block_tables :: "nat \<Rightarrow> 'f inference_request list \<Rightarrow> int list list res" where
  "build_block_tables width reqs = map_res (\<lambda>r. block_table_row width (block_ids r)) reqs"

fun running_sums32 :: "int \<Rightarrow> int list \<Rightarrow> int list res" where
  "running_sums32 acc [] = Ok []"
| "running_sums32 acc (t # ts) =
     rbind (np_add32 acc t) (\<lambda>a. rbind (running_sums32 a ts) (\<lambda>rest. Ok (a # rest)))"

definition build_query_start_loc :: "int list \<Rightarrow> int list res" where
  "build_query_start_loc current_tokens = rbind (running_sums32 0 current_tokens) (\<lambda>sums. Ok (0 # sums))"

text \<open>The tokens and positions one request feeds in this step.\<close>

definition feed_request :: "'f inference_request \<Rightarrow> (int list \<times> int list) res" where
  "feed_request r =
     (let start_pos = num_computed_tokens r - tokens_this_step r; end_pos = num_computed_tokens r
      in if start_pos < int (length (input_ids_list r)) then
           if start_pos < 0 then Raise AssertionError
           else Ok (py_slice (input_ids_list r) start_pos end_pos, py_range start_pos end_pos)
         else rbind (py_get (generated_tokens r) (-1)) (\<lambda>last_token.
                Ok ([last_token], [num_computed_tokens r - 1])))"

definition prepare_gen_ctx ::
    "int \<Rightarrow> nat \<Rightarrow> 'c \<Rightarrow> 'c \<Rightarrow> 'f inference_request list \<Rightarrow> 'c kv_context option
       \<Rightarrow> ('f generation_context \<times> 'c kv_context option) res" where
  "prepare_gen_ctx ps width kc vc reqs storage =
     (let current_tokens = map tokens_this_step reqs in
      rbind (build_slot_mapping ps reqs) (\<lambda>sm.
      rbind (build_context_lens reqs) (\<lambda>cl.
      rbind (build_block_tables width reqs) (\<lambda>bt.
      rbind (build_query_start_loc current_tokens) (\<lambda>qsl.
      let max_q = (if current_tokens = [] then 0 else Max (set current_tokens)) in
      rbind (set_kv_cache_context
          \<lparr>is_paged_attn = True, key_cache = Some kc, value_cache = Some vc, block_tables = Some bt,
           slot_mapping = Some sm, context_lens = Some cl, query_start_loc = Some qsl,
           max_seqlen_q = Some max_q\<rparr> storage) (\<lambda>storage'.
      rbind (map_res feed_request reqs) (\<lambda>feeds.
      if reqs = [] then Raise ValueError
      else Ok (\<lparr>g_batch_input_ids = Some (concat (map fst feeds)), g_intermediate_tensors = None,
            g_query_start_loc = qsl, g_batch_position_ids = concat (map snd feeds),
            g_block_tables = bt, g_context_lens = cl, g_slot_mapping = sm, g_max_seqlen_q = max_q,
            g_generation_configs = map generation_config reqs,
            g_tokens_generated = map (\<lambda>r. int (length (generated_tokens r))) reqs\<rparr>, storage'))))))))"

section \<open>Closed forms\<close>

definition step_positions :: "'f inference_request \<Rightarrow> int list" where
  "step_positions r = py_range (num_computed_tokens r - tokens_this_step r) (num_computed_tokens r)"

definition slot_at :: "int \<Rightarrow> 'f inference_request \<Rightarrow> int \<Rightarrow> int" where
  "slot_at ps r pos = block_ids r ! nat (pos div ps) * ps + pos mod ps"

definition step_slots :: "int \<Rightarrow> 'f inference_request \<Rightarrow> int list" where
  "step_slots ps r = map (slot_at ps r) (step_positions r)"

text \<open>What a request must satisfy for its slots to exist: its blocks cover its computed tokens.\<close>

definition covered :: "int \<Rightarrow> int \<Rightarrow> 'f inference_request \<Rightarrow> bool" where
  "covered ps blocks r \<longleftrightarrow>
     0 \<le> tokens_this_step r \<and> tokens_this_step r \<le> num_computed_tokens r \<and>
     ceil_div (num_computed_tokens r) ps \<le> int (length (block_ids r)) \<and>
     distinct (block_ids r) \<and> set (block_ids r) \<subseteq> {0..<blocks}"

lemma covered_pos:
  assumes "covered ps blocks r" "0 < ps" "pos \<in> set (step_positions r)"
  shows "0 \<le> pos" "pos < num_computed_tokens r" "0 \<le> pos div ps" "pos div ps < int (length (block_ids r))"
proof -
  show p: "0 \<le> pos" "pos < num_computed_tokens r" using assms by (auto simp: step_positions_def covered_def)
  show "0 \<le> pos div ps" using p(1) assms(2) by (simp add: pos_imp_zdiv_nonneg_iff)
  show "pos div ps < int (length (block_ids r))"
    using div_less_ceil_div [OF assms(2) p(2)] assms(1) unfolding covered_def by linarith
qed

lemma covered_block:
  assumes "covered ps blocks r" "0 < ps" "pos \<in> set (step_positions r)"
  shows "block_ids r ! nat (pos div ps) \<in> set (block_ids r)"
    "0 \<le> block_ids r ! nat (pos div ps)" "block_ids r ! nat (pos div ps) < blocks"
proof -
  show m: "block_ids r ! nat (pos div ps) \<in> set (block_ids r)"
    using covered_pos [OF assms] by (intro nth_mem) linarith
  then show "0 \<le> block_ids r ! nat (pos div ps)" "block_ids r ! nat (pos div ps) < blocks"
    using assms(1) by (auto simp: covered_def)
qed

lemma slot_at_range:
  assumes "covered ps blocks r" "0 < ps" "pos \<in> set (step_positions r)"
  shows "0 \<le> slot_at ps r pos" "slot_at ps r pos < blocks * ps"
    "slot_at ps r pos div ps = block_ids r ! nat (pos div ps)" "slot_at ps r pos mod ps = pos mod ps"
proof -
  let ?b = "block_ids r ! nat (pos div ps)"
  note B = covered_block [OF assms]
  have m: "0 \<le> pos mod ps" "pos mod ps < ps" using assms(2) by simp_all
  show "0 \<le> slot_at ps r pos" using B(2) m assms(2) by (simp add: slot_at_def)
  have "?b * ps + ps \<le> blocks * ps"
    using B(3) assms(2) mult_right_mono [of "?b + 1" blocks ps] by (simp add: algebra_simps)
  then show "slot_at ps r pos < blocks * ps" using m by (simp add: slot_at_def)
  show "slot_at ps r pos div ps = ?b" "slot_at ps r pos mod ps = pos mod ps"
    using assms(2) m by (simp_all add: slot_at_def)
qed

text \<open>Writing the slots of one request, then of a batch.\<close>

lemma write_slot_loop:
  assumes "0 < ps" "\<And>p. p \<in> set ps' \<Longrightarrow> 0 \<le> p div ps \<and> p div ps < int (length (block_ids r)) \<and> fits32 (slot_at ps r p)"
    and "k + length ps' \<le> length arr"
  shows "for_res (write_slot ps r) ps' (arr, int k) =
    Ok (take k arr @ map (slot_at ps r) ps' @ drop (k + length ps') arr, int (k + length ps'))"
  using assms(2,3)
proof (induction ps' arbitrary: arr k)
  case Nil
  then show ?case by simp
next
  case (Cons p ps')
  have k: "k < length arr" using Cons.prems(2) by simp
  have "write_slot ps r p (arr, int k) = Ok (arr[k := slot_at ps r p], int (Suc k))"
    using Cons.prems(1) [of p] k by (simp add: write_slot_def py_get_in_range np_set32_Ok slot_at_def)
  moreover have "for_res (write_slot ps r) ps' (arr[k := slot_at ps r p], int (Suc k)) =
      Ok (take (Suc k) (arr[k := slot_at ps r p]) @ map (slot_at ps r) ps' @
          drop (Suc k + length ps') (arr[k := slot_at ps r p]), int (Suc k + length ps'))"
    using Cons.prems by (intro Cons.IH) auto
  moreover have "take (Suc k) (arr[k := slot_at ps r p]) = take k arr @ [slot_at ps r p]"
    using k by (simp add: take_Suc_conv_app_nth)
  ultimately show ?case by simp
qed

lemma write_request_slots_Ok:
  assumes "0 < ps" "covered ps blocks r" "blocks * ps \<le> 2 ^ 31" "k + length (step_slots ps r) \<le> length arr"
  shows "write_request_slots ps r (arr, int k) =
    Ok (take k arr @ step_slots ps r @ drop (k + length (step_slots ps r)) arr, int (k + length (step_slots ps r)))"
proof -
  have "fits32 (slot_at ps r p)" if "p \<in> set (step_positions r)" for p
    using slot_at_range [OF assms(2,1) that] assms(3) by (simp add: fits32_def)
  then have "for_res (write_slot ps r) (step_positions r) (arr, int k) =
    Ok (take k arr @ step_slots ps r @ drop (k + length (step_slots ps r)) arr, int (k + length (step_slots ps r)))"
    using covered_pos [OF assms(2,1)] assms(1,4)
    unfolding step_slots_def length_map by (intro write_slot_loop) auto
  then show ?thesis
    using assms(2) by (simp add: write_request_slots_def covered_def step_positions_def)
qed

lemma write_slots_batch:
  assumes "0 < ps" "\<forall>r\<in>set reqs. covered ps blocks r" "blocks * ps \<le> 2 ^ 31"
    and "length arr = k + length (concat (map (step_slots ps) reqs))"
  shows "for_res (write_request_slots ps) reqs (arr, int k) =
    Ok (take k arr @ concat (map (step_slots ps) reqs), int (length arr))"
  using assms(2,4)
proof (induction reqs arbitrary: arr k)
  case Nil
  then show ?case by simp
next
  case (Cons r reqs)
  let ?n = "length (step_slots ps r)"
  let ?arr = "take k arr @ step_slots ps r @ drop (k + ?n) arr"
  have le: "k + ?n \<le> length arr" using Cons.prems(2) by simp
  have one: "write_request_slots ps r (arr, int k) = Ok (?arr, int (k + ?n))"
    using Cons.prems(1) le by (intro write_request_slots_Ok [OF assms(1) _ assms(3)]) auto
  have la: "length ?arr = length arr" using le by simp
  have "for_res (write_request_slots ps) reqs (?arr, int (k + ?n)) =
      Ok (take (k + ?n) ?arr @ concat (map (step_slots ps) reqs), int (length ?arr))"
    using Cons.prems la by (intro Cons.IH) auto
  moreover have "take (k + ?n) ?arr = take k arr @ step_slots ps r" using le by simp
  ultimately show ?case using one la by simp
qed

lemma length_step_positions: "covered ps blocks r \<Longrightarrow> int (length (step_positions r)) = tokens_this_step r"
  by (simp add: step_positions_def covered_def)

lemma length_step_slots_concat:
  "\<forall>r\<in>set reqs. covered ps blocks r \<Longrightarrow>
    int (length (concat (map (step_slots ps) reqs))) = sum_list (map tokens_this_step reqs)"
  by (induction reqs) (auto simp: step_slots_def length_step_positions)

lemma build_slot_mapping_Ok:
  assumes "0 < ps" "\<forall>r\<in>set reqs. covered ps blocks r" "blocks * ps \<le> 2 ^ 31"
  shows "build_slot_mapping ps reqs = Ok (concat (map (step_slots ps) reqs))"
proof -
  let ?t = "sum_list (map tokens_this_step reqs)"
  have n: "nat ?t = length (concat (map (step_slots ps) reqs))" "0 \<le> ?t"
    using length_step_slots_concat [OF assms(2)] by linarith+
  then have "for_res (write_request_slots ps) reqs (replicate (nat ?t) (-1), int 0) =
      Ok (concat (map (step_slots ps) reqs), int (nat ?t))"
    using write_slots_batch [OF assms, of "replicate (nat ?t) (-1)" 0] by simp
  then show ?thesis using n(2) by (simp add: build_slot_mapping_def)
qed

text \<open>Block tables: the blocks of a request, padded with \<open>-1\<close> to the width of the table.\<close>

lemma block_table_row_loop:
  assumes "k + length bs \<le> length row" "\<forall>b\<in>set bs. fits32 b"
  shows "for_res (\<lambda>(j, b) row. np_set32 row (int j) b) (enumerate k bs) row =
    Ok (take k row @ bs @ drop (k + length bs) row)"
  using assms
proof (induction bs arbitrary: k row)
  case Nil
  then show ?case by simp
next
  case (Cons b bs)
  have k: "k < length row" using Cons.prems(1) by simp
  then have "np_set32 row (int k) b = Ok (row[k := b])"
    using Cons.prems(2) by (simp add: np_set32_Ok)
  moreover have "take (Suc k) (row[k := b]) = take k row @ [b]" using k by (simp add: take_Suc_conv_app_nth)
  ultimately show ?case using Cons.IH [of "Suc k" "row[k := b]"] Cons.prems by simp
qed

lemma block_table_row_Ok:
  assumes "length bs \<le> width" "\<forall>b\<in>set bs. fits32 b"
  shows "block_table_row width bs = Ok (bs @ replicate (width - length bs) (-1))"
  using block_table_row_loop [of 0 bs "replicate width (-1)"] assms by (simp add: block_table_row_def)

text \<open>More blocks than the table is wide: the write past the row raises \<open>IndexError\<close>.\<close>

lemma block_table_row_overflow:
  assumes "width < length bs" "\<forall>b\<in>set bs. fits32 b"
  shows "block_table_row width bs = Raise IndexError"
proof -
  have bs: "bs = take width bs @ bs ! width # drop (Suc width) bs"
    using assms(1) by (simp add: id_take_nth_drop)
  have "enumerate 0 bs = enumerate 0 (take width bs) @ (width, bs ! width) # enumerate (Suc width) (drop (Suc width) bs)"
    by (subst bs, simp only: enumerate_append_eq) (use assms(1) in simp)
  moreover have "for_res (\<lambda>(j, b) row. np_set32 row (int j) b) (enumerate 0 (take width bs)) (replicate width (-1)) =
      Ok (take width bs)"
    using block_table_row_loop [of 0 "take width bs" "replicate width (-1)"] assms
    by (auto simp: dest: in_set_takeD)
  moreover have "np_set32 (take width bs) (int width) (bs ! width) = Raise IndexError"
    using assms(1) by (simp add: np_set32_def py_set_def)
  ultimately show ?thesis by (simp add: block_table_row_def for_res_append)
qed

text \<open>Query offsets: the running sums of the tokens of the requests.\<close>

fun running_sums :: "int \<Rightarrow> int list \<Rightarrow> int list" where
  "running_sums acc [] = []"
| "running_sums acc (t # ts) = (acc + t) # running_sums (acc + t) ts"

lemma running_sums32_Ok:
  assumes "\<forall>t\<in>set ts. 0 \<le> t" "0 \<le> acc" "acc + sum_list ts < 2 ^ 31"
  shows "running_sums32 acc ts = Ok (running_sums acc ts)"
  using assms
proof (induction ts arbitrary: acc)
  case Nil
  show ?case by simp
next
  case (Cons t ts)
  have nn: "0 \<le> sum_list ts" using Cons.prems(1) by (intro sum_list_nonneg) auto
  have "0 \<le> t" "acc + t < 2 ^ 31" using Cons.prems nn by auto
  then have "np_add32 acc t = Ok (acc + t)" using Cons.prems(2) by (intro np_add32_Ok) (auto simp: fits32_def)
  moreover have "running_sums32 (acc + t) ts = Ok (running_sums (acc + t) ts)"
    using Cons.prems by (intro Cons.IH) (auto simp: add.assoc)
  ultimately show ?case by simp
qed

lemma running_sums_nth:
  "i < length ts \<Longrightarrow> running_sums acc ts ! i = acc + sum_list (take (Suc i) ts)"
  by (induction ts arbitrary: acc i) (auto simp: nth_Cons split: nat.splits)

lemma length_running_sums [simp]: "length (running_sums acc ts) = length ts"
  by (induction ts arbitrary: acc) auto

section \<open>The batch the first rank feeds\<close>

text \<open>
  A request that may be fed: it stands for its prompt and the tokens generated so far, and the
  step ends inside the input or is the decoding of the newest token.
\<close>

definition feedable :: "'f inference_request \<Rightarrow> bool" where
  "feedable r \<longleftrightarrow>
     folded_ok r \<and> 1 \<le> tokens_this_step r \<and> tokens_this_step r \<le> num_computed_tokens r \<and>
     (num_computed_tokens r \<le> int (length (input_ids_list r)) \<or>
      tokens_this_step r = 1 \<and> num_computed_tokens r = int (length (full_sequence r)))"

definition step_tokens_of :: "'f inference_request \<Rightarrow> int list" where
  "step_tokens_of r = map (\<lambda>p. full_sequence r ! nat p) (step_positions r)"

lemma feed_prefill:
  assumes "folded_ok r" "0 \<le> a" "a < b" "b \<le> int (length (input_ids_list r))"
  shows "py_slice (input_ids_list r) a b = map (\<lambda>p. full_sequence r ! nat p) (py_range a b)"
proof (rule nth_equalityI)
  show "length (py_slice (input_ids_list r) a b) = length (map (\<lambda>p. full_sequence r ! nat p) (py_range a b))"
    using assms by (simp add: length_py_slice)
  fix i assume "i < length (py_slice (input_ids_list r) a b)"
  then have i: "int i < b - a" using assms by (simp add: length_py_slice)
  have "nat a + i < length (input_ids_list r)" using i assms by linarith
  then have "input_ids_list r ! (nat a + i) = full_sequence r ! (nat a + i)"
    using assms(1) by (rule folded_ok_prefix [rotated])
  moreover have "nat (a + int i) = nat a + i" using assms(2) by linarith
  ultimately show "py_slice (input_ids_list r) a b ! i = map (\<lambda>p. full_sequence r ! nat p) (py_range a b) ! i"
    using i assms by (simp add: nth_py_slice)
qed

lemma feed_request_Ok:
  assumes "feedable r"
  shows "feed_request r = Ok (step_tokens_of r, step_positions r)"
proof -
  let ?n = "num_computed_tokens r" and ?t = "tokens_this_step r"
  have f: "folded_ok r" "1 \<le> ?t" "?t \<le> ?n" using assms by (simp_all add: feedable_def)
  show ?thesis
  proof (cases "?n \<le> int (length (input_ids_list r))")
    case True
    then have "?n - ?t < int (length (input_ids_list r))" using f by linarith
    moreover have "py_slice (input_ids_list r) (?n - ?t) ?n = step_tokens_of r"
      using feed_prefill [OF f(1), of "?n - ?t" ?n] True f by (simp add: step_tokens_of_def step_positions_def)
    ultimately show ?thesis using f by (simp add: feed_request_def step_positions_def Let_def)
  next
    case False
    then have d: "?t = 1" "?n = int (length (full_sequence r))" using assms by (auto simp: feedable_def)
    have "length (input_ids_list r) < length (full_sequence r)" using False d(2) by linarith
    have "generated_tokens r \<noteq> []"
    proof
      assume "generated_tokens r = []"
      then have "full_sequence r = prompt r" by (simp add: full_sequence_def)
      then have "length (full_sequence r) \<le> length (input_ids_list r)" by (simp add: prompt_def)
      with False d(2) show False by linarith
    qed
    moreover from this have "full_sequence r ! nat (?n - 1) = last (generated_tokens r)"
    proof -
      assume ne: "generated_tokens r \<noteq> []"
      then have "full_sequence r ! (length (full_sequence r) - 1) = last (full_sequence r)"
        by (subst last_conv_nth) (auto simp: full_sequence_def)
      moreover have "nat (?n - 1) = length (full_sequence r) - 1" using d(2) by linarith
      ultimately show ?thesis using ne by (simp add: full_sequence_def)
    qed
    ultimately show ?thesis
      using False d(1) by (simp add: feed_request_def step_positions_def step_tokens_of_def py_get_last)
  qed
qed

text \<open>The whole context: no exception, and every array in closed form.\<close>

definition context_for :: "int \<Rightarrow> nat \<Rightarrow> 'f inference_request list \<Rightarrow> 'f generation_context" where
  "context_for ps width reqs =
     \<lparr>g_batch_input_ids = Some (concat (map step_tokens_of reqs)), g_intermediate_tensors = None,
      g_query_start_loc = 0 # running_sums 0 (map tokens_this_step reqs),
      g_batch_position_ids = concat (map step_positions reqs),
      g_block_tables = map (\<lambda>r. block_ids r @ replicate (width - length (block_ids r)) (-1)) reqs,
      g_context_lens = map num_computed_tokens reqs,
      g_slot_mapping = concat (map (step_slots ps) reqs),
      g_max_seqlen_q = Max (set (map tokens_this_step reqs)),
      g_generation_configs = map generation_config reqs,
      g_tokens_generated = map (\<lambda>r. int (length (generated_tokens r))) reqs\<rparr>"

lemma prepare_gen_ctx_Ok:
  assumes "0 < ps" "reqs \<noteq> []" "blocks * ps < 2 ^ 31"
    and cov: "\<forall>r\<in>set reqs. covered ps blocks r \<and> feedable r"
    and fit: "\<forall>r\<in>set reqs. length (block_ids r) \<le> width"
    and tot: "sum_list (map tokens_this_step reqs) < 2 ^ 31"
  shows "\<exists>st'. prepare_gen_ctx ps width kc vc reqs storage = Ok (context_for ps width reqs, Some st')"
proof -
  have c: "\<forall>r\<in>set reqs. covered ps blocks r" using cov by simp
  have sm: "build_slot_mapping ps reqs = Ok (concat (map (step_slots ps) reqs))"
    using assms(3) by (intro build_slot_mapping_Ok [OF assms(1) c]) simp
  have blk: "0 \<le> b \<and> b < blocks" if "r \<in> set reqs" "b \<in> set (block_ids r)" for r b
    using that c by (force simp: covered_def)
  have bfit: "fits32 b" if "r \<in> set reqs" "b \<in> set (block_ids r)" for r b
  proof -
    have "blocks * 1 \<le> blocks * ps" using blk [OF that] assms(1) by (intro mult_left_mono) auto
    then have "b < 2 ^ 31" using blk [OF that] assms(3) by linarith
    then show ?thesis using blk [OF that] by (simp add: fits32_def)
  qed
  have nfit: "fits32 (num_computed_tokens r)" if "r \<in> set reqs" for r
  proof -
    have cr: "covered ps blocks r" using c that by blast
    have "int (length (block_ids r)) = int (card (set (block_ids r)))" using cr by (simp add: covered_def distinct_card)
    also have "\<dots> \<le> int (card {0..<blocks})" using cr by (intro of_nat_mono card_mono) (auto simp: covered_def)
    finally have lb: "int (length (block_ids r)) \<le> max 0 blocks" by (simp add: max_def split: if_splits)
    have "num_computed_tokens r \<le> ceil_div (num_computed_tokens r) ps * ps" using ceil_div_mult_ge [OF assms(1)] .
    also have "\<dots> \<le> max 0 blocks * ps"
      using cr lb assms(1) by (intro mult_right_mono) (auto simp: covered_def)
    also have "max 0 blocks * ps < 2 ^ 31" using assms(3) by (simp add: max_def)
    finally show ?thesis using cr by (simp add: fits32_def covered_def)
  qed
  have cl: "build_context_lens reqs = Ok (map num_computed_tokens reqs)"
    unfolding build_context_lens_def by (rule map_res_all_Ok) (simp add: nfit)
  have bt: "build_block_tables width reqs =
      Ok (map (\<lambda>r. block_ids r @ replicate (width - length (block_ids r)) (-1)) reqs)"
    unfolding build_block_tables_def using fit bfit by (intro map_res_all_Ok block_table_row_Ok) auto
  have qsl: "build_query_start_loc (map tokens_this_step reqs) =
      Ok (0 # running_sums 0 (map tokens_this_step reqs))"
    using running_sums32_Ok [of "map tokens_this_step reqs" 0] cov tot
    by (auto simp: build_query_start_loc_def covered_def)
  have fd: "map_res feed_request reqs = Ok (map (\<lambda>r. (step_tokens_of r, step_positions r)) reqs)"
    by (rule map_res_all_Ok) (simp add: cov feed_request_Ok)
  show ?thesis
    unfolding prepare_gen_ctx_def context_for_def Let_def
    by (simp add: sm cl bt qsl fd assms(2) set_kv_cache_context_def context_post_init_def comp_def)
qed

section \<open>Slots of a batch\<close>

lemma step_slots_distinct:
  assumes "covered ps blocks r" "0 < ps"
  shows "distinct (step_slots ps r)"
proof -
  have "inj_on (slot_at ps r) (set (step_positions r))"
  proof (rule inj_onI)
    fix p q assume pq: "p \<in> set (step_positions r)" "q \<in> set (step_positions r)" "slot_at ps r p = slot_at ps r q"
    note P = slot_at_range(3,4) [OF assms pq(1)] slot_at_range(3,4) [OF assms pq(2)]
    have "block_ids r ! nat (p div ps) = block_ids r ! nat (q div ps)" using P pq(3) by simp
    moreover have "nat (p div ps) < length (block_ids r)" "nat (q div ps) < length (block_ids r)"
      using covered_pos [OF assms pq(1)] covered_pos [OF assms pq(2)] by linarith+
    ultimately have "nat (p div ps) = nat (q div ps)"
      using assms(1) by (simp add: covered_def nth_eq_iff_index_eq)
    then have "p div ps = q div ps"
      using covered_pos [OF assms pq(1)] covered_pos [OF assms pq(2)] by linarith
    moreover have "p mod ps = q mod ps" using P pq(3) by simp
    ultimately show "p = q" by (metis div_mult_mod_eq)
  qed
  then show ?thesis by (simp add: step_slots_def distinct_map step_positions_def)
qed

lemma step_slots_disjoint:
  assumes "covered ps blocks r" "covered ps blocks q" "0 < ps" "set (block_ids r) \<inter> set (block_ids q) = {}"
  shows "set (step_slots ps r) \<inter> set (step_slots ps q) = {}"
proof -
  have "s div ps \<in> set (block_ids x)" if cx: "covered ps blocks x" and sx: "s \<in> set (step_slots ps x)" for s x
  proof -
    obtain p where p: "p \<in> set (step_positions x)" "s = slot_at ps x p"
      using sx by (auto simp: step_slots_def)
    show ?thesis
      unfolding p(2) slot_at_range(3) [OF cx assms(3) p(1)] by (rule covered_block(1) [OF cx assms(3) p(1)])
  qed
  then show ?thesis using assms(1,2,4) by (metis (no_types, lifting) disjoint_iff)
qed

lemma batch_slots_distinct:
  assumes "0 < ps" "\<forall>r\<in>set rs. covered ps blocks (f r)" "distinct rs"
    and "\<forall>r\<in>set rs. \<forall>q\<in>set rs. r \<noteq> q \<longrightarrow> set (block_ids (f r)) \<inter> set (block_ids (f q)) = {}"
  shows "distinct (concat (map (step_slots ps \<circ> f) rs))"
  using assms(2-4)
proof (induction rs)
  case Nil
  show ?case by simp
next
  case (Cons r rs)
  have "set (step_slots ps (f r)) \<inter> set (step_slots ps (f q)) = {}" if "q \<in> set rs" for q
    using Cons.prems that by (intro step_slots_disjoint [OF _ _ assms(1)]) auto
  moreover have "distinct (concat (map (step_slots ps \<circ> f) rs))"
    using Cons.prems by (intro Cons.IH) simp_all
  moreover have "distinct (step_slots ps (f r))"
    using Cons.prems(1) by (intro step_slots_distinct [OF _ assms(1), of blocks]) simp
  ultimately show ?case by (auto simp: comp_def)
qed

end
