(* ===== verification/Cuda_Graph.thy ===== *)
theory Cuda_Graph
  imports Gen_Ctx
begin

text \<open>
  \<open>vexact/inferencer/cudagraph_utils.py\<close> and the buffer preparation of the inferencer. A captured
  graph is a recorded launch: replaying it runs the model on what the static buffers hold at that
  moment, with the Python values of the capture (\<open>max_seqlen_q\<close>) baked in. The model's forward is
  the argument \<open>fwd\<close> of the definitions that run it.
\<close>

section \<open>Capture sizes and descriptors\<close>

text \<open>The doubling loop; \<open>sz\<close> starts at 1, so the guard on zero is never the one that ends it.\<close>

function capture_loop :: "nat \<Rightarrow> nat \<Rightarrow> nat list" where
  "capture_loop sz max_size =
     (if 0 < sz \<and> sz < max_size then sz # capture_loop (sz * 2) max_size else [sz])"
  by pat_completeness auto
termination
  by (relation "measure (\<lambda>(sz, max_size). max_size - sz)") auto

declare capture_loop.simps [simp del]

definition build_capture_sizes :: "int \<Rightarrow> nat list res" where
  "build_capture_sizes max_size =
     (if max_size \<le> 0 then Raise ValueError else Ok (capture_loop 1 (nat max_size)))"

record descriptor =
  num_tokens :: nat
  num_seqs :: nat

definition make_descriptors :: "nat \<Rightarrow> nat list \<Rightarrow> descriptor list" where
  "make_descriptors max_seqs sizes = map (\<lambda>c. \<lparr>num_tokens = c, num_seqs = min c max_seqs\<rparr>) sizes"

fun dispatch :: "descriptor list \<Rightarrow> nat \<Rightarrow> nat \<Rightarrow> descriptor option" where
  "dispatch [] n_seqs n_tokens = None"
| "dispatch (d # ds) n_seqs n_tokens =
     (if n_seqs \<le> num_seqs d \<and> n_tokens \<le> num_tokens d then Some d else dispatch ds n_seqs n_tokens)"

section \<open>Capture and replay\<close>

text \<open>What the model's forward reads: its arguments and the attention context of the thread.\<close>

record 'f forward_inputs =
  fi_input_ids :: "int list option"
  fi_intermediate_tensors :: "'f list list option"
  fi_position_ids :: "int list"
  fi_logits_to_keep :: "int list option"
  fi_block_tables :: "int list list"
  fi_context_lens :: "int list"
  fi_slot_mapping :: "int list"
  fi_query_start_loc :: "int list"
  fi_max_seqlen_q :: int

record 'f graph_mgr =
  capture_sizes :: "nat list"
  descriptors :: "descriptor list"
  graphs :: "descriptor list"
  last_tokens_only :: bool
  input_buffers :: "'f input_buffers"

definition make_graph_mgr :: "int \<Rightarrow> bool \<Rightarrow> 'f input_buffers \<Rightarrow> 'f graph_mgr res" where
  "make_graph_mgr max_size last_only b =
     rbind (build_capture_sizes max_size) (\<lambda>sizes.
       Ok \<lparr>capture_sizes = sizes, descriptors = make_descriptors (buf_max_num_seqs b) sizes,
           graphs = [], last_tokens_only = last_only, input_buffers = b\<rparr>)"

text \<open>The static inputs of a captured shape.\<close>

definition static_inputs :: "bool \<Rightarrow> descriptor \<Rightarrow> 'f input_buffers \<Rightarrow> 'f forward_inputs" where
  "static_inputs last_only d b =
     (let (bt, cl, sm, qsl) = get_kv_context_tensors b (num_seqs d) (num_tokens d)
      in \<lparr>fi_input_ids = Some (take (num_tokens d) (buf_input_ids b)),
          fi_intermediate_tensors = Some (take (num_tokens d) (buf_intermediate_tensors b)),
          fi_position_ids = take (num_tokens d) (buf_position_ids b),
          fi_logits_to_keep = (if last_only then Some (take (num_seqs d) (buf_last_token_idx b)) else None),
          fi_block_tables = bt, fi_context_lens = cl, fi_slot_mapping = sm, fi_query_start_loc = qsl,
          fi_max_seqlen_q = int (num_tokens d)\<rparr>)"

definition zero_rows :: "'f \<Rightarrow> nat \<Rightarrow> 'f list list \<Rightarrow> 'f list list" where
  "zero_rows z n rows = map (\<lambda>row. replicate (length row) z) (take n rows) @ drop n rows"

definition zero_table :: "nat \<Rightarrow> int list list \<Rightarrow> int list list" where
  "zero_table n rows = map (\<lambda>row. replicate (length row) 0) (take n rows) @ drop n rows"

text \<open>The tokens per sequence of the warm-up batch: an even split, the remainder up front.\<close>

definition tokens_per_seq :: "nat \<Rightarrow> nat \<Rightarrow> int list" where
  "tokens_per_seq n_seqs n_tokens =
     fill_slice 0 (int (n_tokens div n_seqs) + 1) (replicate n_seqs (int (n_tokens div n_seqs))) (n_tokens mod n_seqs)"

definition capture_buffers :: "'f \<Rightarrow> bool \<Rightarrow> descriptor \<Rightarrow> 'f input_buffers \<Rightarrow> 'f input_buffers res" where
  "capture_buffers z last_only d b =
     (let n = num_seqs d; t = num_tokens d;
          b1 = b\<lparr>buf_input_ids := fill_slice 0 0 (buf_input_ids b) t,
                 buf_position_ids := fill_slice 0 0 (buf_position_ids b) t,
                 buf_intermediate_tensors := zero_rows z t (buf_intermediate_tensors b),
                 buf_block_tables := zero_table n (buf_block_tables b),
                 buf_slot_mapping := fill_slice 0 (-1) (buf_slot_mapping b) t\<rparr>;
          ts = tokens_per_seq n t
      in rbind (copy_slice 1 (running_sums 0 ts) (fill_slice 0 0 (buf_query_start_loc b1) 1) (n + 1)) (\<lambda>qsl.
         rbind (copy_slice 0 ts (buf_context_lens b1) n) (\<lambda>cl.
         let b2 = b1\<lparr>buf_query_start_loc := qsl, buf_context_lens := cl\<rparr>
         in if last_only then fill_last_token_idx n b2 else Ok b2)))"

text \<open>
  The warm-up forward runs under the attention context of the calling thread, set from the captured
  slices; the two warm-up forwards themselves write no slot and their outputs are dropped.
\<close>

definition warm_up_context :: "'c \<Rightarrow> 'c \<Rightarrow> descriptor \<Rightarrow> 'f input_buffers \<Rightarrow> 'c kv_context" where
  "warm_up_context kc vc d b =
     (let (bt, cl, sm, qsl) = get_kv_context_tensors b (num_seqs d) (num_tokens d)
      in \<lparr>is_paged_attn = True, key_cache = Some kc, value_cache = Some vc, block_tables = Some bt,
          slot_mapping = Some sm, context_lens = Some cl, query_start_loc = Some qsl,
          max_seqlen_q = Some (int (num_tokens d))\<rparr>)"

definition capture ::
    "'f \<Rightarrow> 'c \<Rightarrow> 'c \<Rightarrow> descriptor \<Rightarrow> 'f graph_mgr \<times> 'c kv_context option
       \<Rightarrow> ('f graph_mgr \<times> 'c kv_context option) res" where
  "capture z kc vc d st =
     (let (m, storage) = st; b = input_buffers m in
      if num_seqs d = 0 \<or> num_tokens d = 0 then Raise ValueError
      else if num_tokens d < num_seqs d then Raise ValueError
      else if buf_max_num_seqs b < num_seqs d then Raise ValueError
      else if buf_max_num_batched_tokens b < num_tokens d then Raise ValueError
      else if d \<in> set (graphs m) then Ok (m, storage)
      else rbind (capture_buffers z (last_tokens_only m) d b) (\<lambda>b'.
           rbind (set_kv_cache_context (warm_up_context kc vc d b') storage) (\<lambda>storage'.
             Ok (m\<lparr>graphs := graphs m @ [d], input_buffers := b'\<rparr>, storage'))))"

definition capture_graphs ::
    "'f \<Rightarrow> 'c \<Rightarrow> 'c \<Rightarrow> 'f graph_mgr \<times> 'c kv_context option \<Rightarrow> ('f graph_mgr \<times> 'c kv_context option) res" where
  "capture_graphs z kc vc st =
     (if capture_sizes (fst st) = [] then Raise RuntimeError
      else for_res (capture z kc vc) (descriptors (fst st)) st)"

definition replay :: "('f forward_inputs \<Rightarrow> 'o) \<Rightarrow> descriptor \<Rightarrow> 'f graph_mgr \<Rightarrow> 'o res" where
  "replay fwd d m =
     (if d \<notin> set (graphs m) then Raise KeyError
      else Ok (fwd (static_inputs (last_tokens_only m) d (input_buffers m))))"

section \<open>Preparing the buffers for a replay\<close>

definition copy_rows_zeroed :: "'f \<Rightarrow> nat \<Rightarrow> 'f list list option \<Rightarrow> nat \<Rightarrow> 'f list list \<Rightarrow> 'f list list res" where
  "copy_rows_zeroed z cap rows n buf =
     (case rows of None \<Rightarrow> Ok (zero_rows z cap buf)
      | Some rs \<Rightarrow> copy_slice 0 rs (zero_rows z cap buf) n)"

definition copy_ids_zeroed :: "nat \<Rightarrow> int list option \<Rightarrow> nat \<Rightarrow> int list \<Rightarrow> int list res" where
  "copy_ids_zeroed cap ids n buf =
     (case ids of None \<Rightarrow> Ok (fill_slice 0 0 buf cap)
      | Some xs \<Rightarrow> copy_slice 0 xs (fill_slice 0 0 buf cap) n)"

definition fill_buffers ::
    "'f \<Rightarrow> bool \<Rightarrow> 'f generation_context \<Rightarrow> descriptor \<Rightarrow> 'f input_buffers \<Rightarrow> 'f input_buffers res" where
  "fill_buffers z last_only g d b =
     (let cap = num_tokens d; gs = num_seqs d;
          n = length (g_context_lens g); t = length (g_batch_position_ids g);
          width = max_blocks_per_req b
      in if cap < t then Raise ValueError
         else if gs < n then Raise ValueError
         else
           rbind (copy_slice 0 (g_block_tables g)
             (map (\<lambda>_. replicate width (-1)) (buf_block_tables b)) n) (\<lambda>bt.
           rbind (copy_slice 0 (g_context_lens g) (map (\<lambda>_. 0) (buf_context_lens b)) n) (\<lambda>cl.
           rbind (copy_slice 0 (g_slot_mapping g) (map (\<lambda>_. -1) (buf_slot_mapping b)) t) (\<lambda>sm.
           rbind (copy_slice 0 (g_query_start_loc g) (map (\<lambda>_. 0) (buf_query_start_loc b)) (n + 1)) (\<lambda>qsl.
           let b1 = b\<lparr>buf_block_tables := if n < gs then fill_slice n (replicate width 0) bt gs else bt,
                      buf_context_lens := cl, buf_slot_mapping := sm,
                      buf_query_start_loc := if n < gs then fill_slice (n + 1) (int t) qsl (gs + 1) else qsl\<rparr>
           in rbind (if last_only then fill_last_token_idx gs b1 else Ok b1) (\<lambda>b2.
              rbind (copy_ids_zeroed cap (g_batch_input_ids g) t (buf_input_ids b2)) (\<lambda>ids.
              rbind (copy_slice 0 (g_batch_position_ids g) (fill_slice 0 0 (buf_position_ids b2) cap) t) (\<lambda>pids.
              rbind (copy_rows_zeroed z cap (g_intermediate_tensors g) t (buf_intermediate_tensors b2)) (\<lambda>rows.
                Ok (b2\<lparr>buf_input_ids := ids, buf_position_ids := pids,
                       buf_intermediate_tensors := rows\<rparr>))))))))))"

text \<open>The preparation also sets the thread's attention context from the filled buffers.\<close>

definition prepare_input_buffers_from_gen_ctx ::
    "'f \<Rightarrow> 'c \<Rightarrow> 'c \<Rightarrow> 'f generation_context \<Rightarrow> descriptor \<Rightarrow> 'f graph_mgr \<times> 'c kv_context option
       \<Rightarrow> ('f graph_mgr \<times> 'c kv_context option) res" where
  "prepare_input_buffers_from_gen_ctx z kc vc g d st =
     (let (m, storage) = st in
      rbind (fill_buffers z (last_tokens_only m) g d (input_buffers m)) (\<lambda>b.
      let (bt, cl, sm, qsl) = get_kv_context_tensors b (num_seqs d) (num_tokens d) in
      rbind (set_kv_cache_context
          \<lparr>is_paged_attn = True, key_cache = Some kc, value_cache = Some vc, block_tables = Some bt,
           slot_mapping = Some sm, context_lens = Some cl, query_start_loc = Some qsl,
           max_seqlen_q = Some (g_max_seqlen_q g)\<rparr> storage) (\<lambda>storage'.
        Ok (m\<lparr>input_buffers := b\<rparr>, storage'))))"

text \<open>\<open>Inferencer._forward\<close>: through a captured graph, or eagerly when there is no manager.\<close>

definition eager_inputs :: "bool \<Rightarrow> 'f generation_context \<Rightarrow> 'f forward_inputs" where
  "eager_inputs last_only g =
     \<lparr>fi_input_ids = g_batch_input_ids g, fi_intermediate_tensors = g_intermediate_tensors g,
      fi_position_ids = g_batch_position_ids g,
      fi_logits_to_keep = (if last_only then Some (map (\<lambda>x. x - 1) (tl (g_query_start_loc g))) else None),
      fi_block_tables = g_block_tables g, fi_context_lens = g_context_lens g,
      fi_slot_mapping = g_slot_mapping g, fi_query_start_loc = g_query_start_loc g,
      fi_max_seqlen_q = g_max_seqlen_q g\<rparr>"

definition input_size :: "'f generation_context \<Rightarrow> nat res" where
  "input_size g =
     (case g_batch_input_ids g of
        Some ids \<Rightarrow> Ok (length ids)
      | None \<Rightarrow> (case g_intermediate_tensors g of
                   Some rows \<Rightarrow> Ok (length rows)
                 | None \<Rightarrow> Raise AttributeError))"

definition forward ::
    "('f forward_inputs \<Rightarrow> 'o) \<Rightarrow> 'f \<Rightarrow> 'c \<Rightarrow> 'c \<Rightarrow> bool \<Rightarrow> 'f generation_context
       \<Rightarrow> 'f graph_mgr option \<times> 'c kv_context option \<Rightarrow> ('o \<times> 'f graph_mgr option \<times> 'c kv_context option) res" where
  "forward fwd z kc vc last_only g st =
     (case st of
        (None, storage) \<Rightarrow> Ok (fwd (eager_inputs last_only g), None, storage)
      | (Some m, storage) \<Rightarrow>
          rbind (input_size g) (\<lambda>sz.
            case dispatch (descriptors m) (length (g_context_lens g)) sz of
                None \<Rightarrow> Raise RuntimeError
              | Some d \<Rightarrow>
                  rbind (prepare_input_buffers_from_gen_ctx z kc vc g d (m, storage)) (\<lambda>(m', storage').
                  rbind (replay fwd d m') (\<lambda>out. Ok (out, Some m', storage')))))"

section \<open>Capture sizes cover every batch\<close>

lemma capture_loop_pow2:
  "sz = 2 ^ k \<Longrightarrow> capture_loop sz m = map (\<lambda>i. 2 ^ i) [k..<k + length (capture_loop sz m)]"
proof (induction sz m arbitrary: k rule: capture_loop.induct)
  case (1 sz m)
  show ?case
  proof (cases "0 < sz \<and> sz < m")
    case False
    then have "capture_loop sz m = [sz]" by (simp only: capture_loop.simps [of sz] if_False)
    then show ?thesis using 1(2) by simp
  next
    case True
    have "sz * 2 = 2 ^ Suc k" using 1(2) by simp
    from 1(1) [OF True this]
    have IH: "capture_loop (sz * 2) m = map (\<lambda>i. 2 ^ i) [Suc k..<Suc k + length (capture_loop (sz * 2) m)]" .
    have eq: "capture_loop sz m = sz # capture_loop (sz * 2) m"
      using True by (simp add: capture_loop.simps [of sz])
    have "[k..<k + length (capture_loop sz m)] = k # [Suc k..<Suc k + length (capture_loop (sz * 2) m)]"
      unfolding eq by (subst upt_conv_Cons) simp_all
    then show ?thesis unfolding eq using IH 1(2) by (metis list.simps(9))
  qed
qed

lemma capture_loop_last: "0 < sz \<Longrightarrow> m \<le> last (capture_loop sz m) \<and> capture_loop sz m \<noteq> []"
proof (induction sz m rule: capture_loop.induct)
  case (1 sz m)
  then show ?case by (cases "sz < m") (auto simp: capture_loop.simps [of sz])
qed

lemma capture_loop_prefix: "x \<in> set (butlast (capture_loop sz m)) \<Longrightarrow> x < m"
proof (induction sz m rule: capture_loop.induct)
  case (1 sz m)
  then show ?case
    by (cases "0 < sz \<and> sz < m") (auto simp: capture_loop.simps [of sz] split: if_splits)
qed

lemma capture_loop_pos: "0 < sz \<Longrightarrow> x \<in> set (capture_loop sz m) \<Longrightarrow> 0 < x"
proof (induction sz m rule: capture_loop.induct)
  case (1 sz m)
  then show ?case by (cases "sz < m") (auto simp: capture_loop.simps [of sz])
qed

lemma capture_loop_less_double: "0 < sz \<Longrightarrow> sz < 2 * m \<Longrightarrow> last (capture_loop sz m) < 2 * m"
proof (induction sz m rule: capture_loop.induct)
  case (1 sz m)
  then show ?case
    using capture_loop_last [of "sz * 2" m] by (cases "sz < m") (auto simp: capture_loop.simps [of sz])
qed

lemma dispatch_Some:
  "dispatch ds n t = Some d \<Longrightarrow> d \<in> set ds \<and> n \<le> num_seqs d \<and> t \<le> num_tokens d"
  by (induction ds) (auto split: if_splits)

lemma dispatch_None: "dispatch ds n t = None \<longleftrightarrow> (\<forall>d\<in>set ds. \<not> (n \<le> num_seqs d \<and> t \<le> num_tokens d))"
  by (induction ds) auto

lemma dispatch_covers:
  assumes "build_capture_sizes max_size = Ok sizes" "n \<le> max_seqs" "n \<le> t" "int t \<le> max_size"
  shows "\<exists>d. dispatch (make_descriptors max_seqs sizes) n t = Some d"
proof -
  have sz: "sizes = capture_loop 1 (nat max_size)" using assms(1) by (simp add: build_capture_sizes_def split: if_splits)
  have l: "nat max_size \<le> last sizes" "sizes \<noteq> []" using capture_loop_last [of 1 "nat max_size"] sz by auto
  then have "last sizes \<in> set sizes" by simp
  then have "\<lparr>num_tokens = last sizes, num_seqs = min (last sizes) max_seqs\<rparr> \<in> set (make_descriptors max_seqs sizes)"
    by (auto simp: make_descriptors_def)
  moreover have "t \<le> last sizes" using assms(4) l(1) by linarith
  ultimately have "dispatch (make_descriptors max_seqs sizes) n t \<noteq> None"
    unfolding dispatch_None using assms(2,3) by force
  then show ?thesis by blast
qed

section \<open>A replay sees the batch, padded\<close>

definition buffers_ok :: "nat \<Rightarrow> 'f input_buffers \<Rightarrow> bool" where
  "buffers_ok h b \<longleftrightarrow>
     length (buf_slot_mapping b) = buf_max_num_batched_tokens b \<and>
     length (buf_context_lens b) = buf_max_num_seqs b \<and>
     length (buf_query_start_loc b) = buf_max_num_seqs b + 1 \<and>
     length (buf_block_tables b) = buf_max_num_seqs b \<and>
     length (buf_input_ids b) = buf_max_num_batched_tokens b \<and>
     length (buf_position_ids b) = buf_max_num_batched_tokens b \<and>
     length (buf_intermediate_tensors b) = buf_max_num_batched_tokens b \<and>
     (\<forall>row\<in>set (buf_intermediate_tensors b). length row = h) \<and>
     length (buf_last_token_idx b) = buf_max_num_seqs b"

lemma make_buffers_ok: "buffers_ok h (make_buffers x z n t w h)"
  by (simp add: buffers_ok_def make_buffers_def)

definition context_ok :: "nat \<Rightarrow> 'f generation_context \<Rightarrow> bool" where
  "context_ok h g \<longleftrightarrow>
     length (g_block_tables g) = length (g_context_lens g) \<and>
     length (g_query_start_loc g) = length (g_context_lens g) + 1 \<and>
     length (g_slot_mapping g) = length (g_batch_position_ids g) \<and>
     (\<forall>ids. g_batch_input_ids g = Some ids \<longrightarrow> length ids = length (g_batch_position_ids g)) \<and>
     (\<forall>rows. g_intermediate_tensors g = Some rows \<longrightarrow>
        length rows = length (g_batch_position_ids g) \<and> (\<forall>row\<in>set rows. length row = h))"

text \<open>The inputs of a replay in terms of the context: real rows first, then harmless padding.\<close>

definition padded_inputs :: "'f \<Rightarrow> nat \<Rightarrow> nat \<Rightarrow> bool \<Rightarrow> 'f generation_context \<Rightarrow> descriptor \<Rightarrow> 'f forward_inputs" where
  "padded_inputs z h width last_only g d =
     (let n = length (g_context_lens g); t = length (g_batch_position_ids g);
          cap = num_tokens d; gs = num_seqs d;
          qsl = g_query_start_loc g @ replicate (gs - n) (int t)
      in \<lparr>fi_input_ids = Some (case g_batch_input_ids g of
              Some ids \<Rightarrow> ids @ replicate (cap - t) 0 | None \<Rightarrow> replicate cap 0),
          fi_intermediate_tensors = Some (case g_intermediate_tensors g of
              Some rows \<Rightarrow> rows @ replicate (cap - t) (replicate h z)
            | None \<Rightarrow> replicate cap (replicate h z)),
          fi_position_ids = g_batch_position_ids g @ replicate (cap - t) 0,
          fi_logits_to_keep = (if last_only then Some (map (\<lambda>x. x - 1) (tl qsl)) else None),
          fi_block_tables = g_block_tables g @ replicate (gs - n) (replicate width 0),
          fi_context_lens = g_context_lens g @ replicate (gs - n) 0,
          fi_slot_mapping = g_slot_mapping g @ replicate (cap - t) (-1),
          fi_query_start_loc = qsl,
          fi_max_seqlen_q = int cap\<rparr>)"

lemma copy_front:
  "length ys \<le> length xs \<Longrightarrow> copy_slice 0 ys xs (length ys) = Ok (ys @ drop (length ys) xs)"
  by (simp add: copy_slice_Ok)

lemma map_const: "map (\<lambda>_. c) xs = replicate (length xs) c"
  by (induction xs) auto

lemma zero_rows_const:
  "\<forall>row\<in>set rows. length row = h \<Longrightarrow> n \<le> length rows \<Longrightarrow>
    zero_rows z n rows = replicate n (replicate h z) @ drop n rows"
  unfolding zero_rows_def by (rule arg_cong2 [where f = "(@)"]) (auto intro!: nth_equalityI)

lemma fill_slice_front:
  "n \<le> length xs \<Longrightarrow> fill_slice 0 v xs n = replicate n v @ drop n xs"
  by (rule nth_equalityI) (auto simp: nth_fill_slice nth_append)

lemma fill_slice_middle:
  "length ys = a \<Longrightarrow> a \<le> b \<Longrightarrow> b \<le> a + length zs \<Longrightarrow>
    fill_slice a v (ys @ zs) b = ys @ replicate (b - a) v @ drop (b - a) zs"
  by (rule nth_equalityI) (auto simp: nth_fill_slice nth_append)

lemma fill_last_token_idx_Ok:
  assumes "n \<le> length (buf_last_token_idx b)" "n + 1 \<le> length (buf_query_start_loc b)"
  shows "fill_last_token_idx n b = Ok (b\<lparr>buf_last_token_idx :=
    map (\<lambda>x. x - 1) (take n (drop 1 (buf_query_start_loc b))) @ drop n (buf_last_token_idx b)\<rparr>)"
proof -
  let ?ys = "map (\<lambda>x. x - 1) (take n (drop 1 (buf_query_start_loc b)))"
  have "length ?ys = n" using assms(2) by simp
  then show ?thesis
    using copy_front [of ?ys "buf_last_token_idx b"] assms(1) by (simp add: fill_last_token_idx_def)
qed

lemma fill_buffers_Ok:
  assumes b: "buffers_ok h b" and g: "context_ok h g"
    and n: "length (g_context_lens g) \<le> num_seqs d" "num_seqs d \<le> buf_max_num_seqs b"
    and t: "length (g_batch_position_ids g) \<le> num_tokens d" "num_tokens d \<le> buf_max_num_batched_tokens b"
  shows "\<exists>b'. fill_buffers z last_only g d b = Ok b' \<and> buffers_ok h b' \<and>
    buf_max_num_seqs b' = buf_max_num_seqs b \<and> buf_max_num_batched_tokens b' = buf_max_num_batched_tokens b \<and>
    max_blocks_per_req b' = max_blocks_per_req b \<and>
    static_inputs last_only d b' = padded_inputs z h (max_blocks_per_req b) last_only g d"
proof -
  let ?n = "length (g_context_lens g)" and ?t = "length (g_batch_position_ids g)"
  let ?S = "buf_max_num_seqs b" and ?T = "buf_max_num_batched_tokens b" and ?w = "max_blocks_per_req b"
  let ?gs = "num_seqs d" and ?cap = "num_tokens d"
  note B = b [unfolded buffers_ok_def]
  note G = g [unfolded context_ok_def]
  have bt: "copy_slice 0 (g_block_tables g) (map (\<lambda>_. replicate ?w (-1)) (buf_block_tables b)) ?n =
      Ok (g_block_tables g @ replicate (?S - ?n) (replicate ?w (-1)))"
    using copy_front [of "g_block_tables g" "replicate ?S (replicate ?w (-1))"] B G n by (simp add: map_const)
  have cl: "copy_slice 0 (g_context_lens g) (map (\<lambda>_. 0) (buf_context_lens b)) ?n =
      Ok (g_context_lens g @ replicate (?S - ?n) 0)"
    using copy_front [of "g_context_lens g" "replicate ?S 0"] B n by (simp add: map_const)
  have sm: "copy_slice 0 (g_slot_mapping g) (map (\<lambda>_. -1) (buf_slot_mapping b)) ?t =
      Ok (g_slot_mapping g @ replicate (?T - ?t) (-1))"
    using copy_front [of "g_slot_mapping g" "replicate ?T (-1)"] B G t by (simp add: map_const)
  have qsl: "copy_slice 0 (g_query_start_loc g) (map (\<lambda>_. 0) (buf_query_start_loc b)) (?n + 1) =
      Ok (g_query_start_loc g @ replicate (?S - ?n) 0)"
    using copy_front [of "g_query_start_loc g" "replicate (?S + 1) 0"] B G n by (simp add: map_const)
  define bt' where "bt' = (if ?n < ?gs then
      fill_slice ?n (replicate ?w 0) (g_block_tables g @ replicate (?S - ?n) (replicate ?w (-1))) ?gs
      else g_block_tables g @ replicate (?S - ?n) (replicate ?w (-1)))"
  define q' where "q' = (if ?n < ?gs then
      fill_slice (?n + 1) (int ?t) (g_query_start_loc g @ replicate (?S - ?n) 0) (?gs + 1)
      else g_query_start_loc g @ replicate (?S - ?n) 0)"
  have bt'': "take ?gs bt' = g_block_tables g @ replicate (?gs - ?n) (replicate ?w 0)" "length bt' = ?S"
    unfolding bt'_def using G n by (auto simp: fill_slice_middle)
  have q'': "take (?gs + 1) q' = g_query_start_loc g @ replicate (?gs - ?n) (int ?t)" "length q' = ?S + 1"
    unfolding q'_def using G n by (auto simp: fill_slice_middle)
  define b1 where "b1 = b\<lparr>buf_block_tables := bt', buf_context_lens := g_context_lens g @ replicate (?S - ?n) 0,
      buf_slot_mapping := g_slot_mapping g @ replicate (?T - ?t) (-1), buf_query_start_loc := q'\<rparr>"
  define lti where "lti = (if last_only then
      map (\<lambda>x. x - 1) (take ?gs (drop 1 q')) @ drop ?gs (buf_last_token_idx b) else buf_last_token_idx b)"
  have tl: "take ?gs (drop 1 q') = tl (g_query_start_loc g @ replicate (?gs - ?n) (int ?t))"
    by (metis q''(1) drop_Suc drop0 One_nat_def Suc_eq_plus1 drop_take diff_add_inverse2 tl_drop)
  have lt: "(if last_only then fill_last_token_idx ?gs b1 else Ok b1) = Ok (b1\<lparr>buf_last_token_idx := lti\<rparr>)"
    using fill_last_token_idx_Ok [of ?gs b1] B n q''(2) by (auto simp: b1_def lti_def)
  have ids: "copy_ids_zeroed ?cap (g_batch_input_ids g) ?t (buf_input_ids b) =
      Ok ((case g_batch_input_ids g of Some ids \<Rightarrow> ids @ replicate (?cap - ?t) 0 | None \<Rightarrow> replicate ?cap 0)
        @ drop ?cap (buf_input_ids b))"
    using copy_front [of "the (g_batch_input_ids g)" "replicate ?cap 0 @ drop ?cap (buf_input_ids b)"] B G t
    by (auto simp: copy_ids_zeroed_def fill_slice_front split: option.splits)
  have pids: "copy_slice 0 (g_batch_position_ids g) (fill_slice 0 0 (buf_position_ids b) ?cap) ?t =
      Ok (g_batch_position_ids g @ replicate (?cap - ?t) 0 @ drop ?cap (buf_position_ids b))"
    using copy_front [of "g_batch_position_ids g" "replicate ?cap 0 @ drop ?cap (buf_position_ids b)"] B t
    by (simp add: fill_slice_front)
  have zr: "zero_rows z ?cap (buf_intermediate_tensors b) =
      replicate ?cap (replicate h z) @ drop ?cap (buf_intermediate_tensors b)"
    using B t by (intro zero_rows_const) auto
  have rows: "copy_rows_zeroed z ?cap (g_intermediate_tensors g) ?t (buf_intermediate_tensors b) =
      Ok ((case g_intermediate_tensors g of Some rows \<Rightarrow> rows @ replicate (?cap - ?t) (replicate h z)
            | None \<Rightarrow> replicate ?cap (replicate h z)) @ drop ?cap (buf_intermediate_tensors b))"
    using copy_front [of "the (g_intermediate_tensors g)"
        "replicate ?cap (replicate h z) @ drop ?cap (buf_intermediate_tensors b)"] B G t
    by (auto simp: copy_rows_zeroed_def zr split: option.splits)
  define b' where "b' = b1\<lparr>buf_last_token_idx := lti,
      buf_input_ids := (case g_batch_input_ids g of Some ids \<Rightarrow> ids @ replicate (?cap - ?t) 0 | None \<Rightarrow> replicate ?cap 0)
        @ drop ?cap (buf_input_ids b),
      buf_position_ids := g_batch_position_ids g @ replicate (?cap - ?t) 0 @ drop ?cap (buf_position_ids b),
      buf_intermediate_tensors := (case g_intermediate_tensors g of Some rows \<Rightarrow> rows @ replicate (?cap - ?t) (replicate h z)
            | None \<Rightarrow> replicate ?cap (replicate h z)) @ drop ?cap (buf_intermediate_tensors b)\<rparr>"
  let ?rest = "\<lambda>b2. rbind (copy_ids_zeroed ?cap (g_batch_input_ids g) ?t (buf_input_ids b2)) (\<lambda>ids.
      rbind (copy_slice 0 (g_batch_position_ids g) (fill_slice 0 0 (buf_position_ids b2) ?cap) ?t) (\<lambda>pids.
      rbind (copy_rows_zeroed z ?cap (g_intermediate_tensors g) ?t (buf_intermediate_tensors b2)) (\<lambda>rows.
        Ok (b2\<lparr>buf_input_ids := ids, buf_position_ids := pids, buf_intermediate_tensors := rows\<rparr>))))"
  have "fill_buffers z last_only g d b = rbind (if last_only then fill_last_token_idx ?gs b1 else Ok b1) ?rest"
    unfolding fill_buffers_def Let_def bt cl sm qsl rbind.simps b1_def bt'_def q'_def
    using n(1) t(1) by (simp only: not_less [symmetric] if_False)
  also have "\<dots> = ?rest (b1\<lparr>buf_last_token_idx := lti\<rparr>)" by (simp only: lt rbind.simps)
  also have "\<dots> = Ok b'"
  proof -
    have "buf_input_ids (b1\<lparr>buf_last_token_idx := lti\<rparr>) = buf_input_ids b"
      "buf_position_ids (b1\<lparr>buf_last_token_idx := lti\<rparr>) = buf_position_ids b"
      "buf_intermediate_tensors (b1\<lparr>buf_last_token_idx := lti\<rparr>) = buf_intermediate_tensors b"
      by (simp_all add: b1_def)
    then show ?thesis by (simp only: ids pids rows rbind.simps b'_def)
  qed
  finally have "fill_buffers z last_only g d b = Ok b'" .
  moreover have F: "buf_slot_mapping b' = g_slot_mapping g @ replicate (?T - ?t) (-1)"
    "buf_context_lens b' = g_context_lens g @ replicate (?S - ?n) 0" "buf_query_start_loc b' = q'"
    "buf_block_tables b' = bt'" "buf_last_token_idx b' = lti"
    "buf_input_ids b' = (case g_batch_input_ids g of Some ids \<Rightarrow> ids @ replicate (?cap - ?t) 0
        | None \<Rightarrow> replicate ?cap 0) @ drop ?cap (buf_input_ids b)"
    "buf_position_ids b' = g_batch_position_ids g @ replicate (?cap - ?t) 0 @ drop ?cap (buf_position_ids b)"
    "buf_intermediate_tensors b' = (case g_intermediate_tensors g of Some rows \<Rightarrow> rows @ replicate (?cap - ?t) (replicate h z)
            | None \<Rightarrow> replicate ?cap (replicate h z)) @ drop ?cap (buf_intermediate_tensors b)"
    "buf_max_num_seqs b' = ?S" "buf_max_num_batched_tokens b' = ?T" "max_blocks_per_req b' = ?w"
    by (simp_all add: b'_def b1_def)
  moreover have "buffers_ok h b'"
  proof -
    have "length (buf_input_ids b') = ?T" "length (buf_intermediate_tensors b') = ?T"
      "\<forall>row\<in>set (buf_intermediate_tensors b'). length row = h"
      using B G t by (auto simp: F(6,8) split: option.splits dest: in_set_dropD)
    moreover have "length lti = ?S" using B n q''(2) by (simp add: lti_def)
    ultimately show ?thesis
      using B G n t bt''(2) q''(2) unfolding buffers_ok_def F by simp
  qed
  moreover have "static_inputs last_only d b' = padded_inputs z h ?w last_only g d"
  proof -
    have "take ?cap (buf_input_ids b') = (case g_batch_input_ids g of
        Some ids \<Rightarrow> ids @ replicate (?cap - ?t) 0 | None \<Rightarrow> replicate ?cap 0)"
      "take ?cap (buf_intermediate_tensors b') = (case g_intermediate_tensors g of
        Some rows \<Rightarrow> rows @ replicate (?cap - ?t) (replicate h z) | None \<Rightarrow> replicate ?cap (replicate h z))"
      using G t by (auto simp: F(6,8) split: option.splits)
    moreover have "take ?cap (buf_position_ids b') = g_batch_position_ids g @ replicate (?cap - ?t) 0"
      "take ?cap (buf_slot_mapping b') = g_slot_mapping g @ replicate (?cap - ?t) (-1)"
      "take ?gs (buf_context_lens b') = g_context_lens g @ replicate (?gs - ?n) 0"
      using G t n by (simp_all add: F)
    moreover have "last_only \<longrightarrow> take ?gs (buf_last_token_idx b') =
        map (\<lambda>x. x - 1) (tl (g_query_start_loc g @ replicate (?gs - ?n) (int ?t)))"
      using n q''(2) by (simp add: F lti_def tl [symmetric])
    ultimately show ?thesis
      using bt''(1) q''(1) unfolding static_inputs_def padded_inputs_def get_kv_context_tensors_def Let_def
      by (simp add: F)
  qed
  ultimately show ?thesis by blast
qed

section \<open>Startup\<close>

lemma length_tokens_per_seq [simp]: "length (tokens_per_seq n t) = n"
  by (simp add: tokens_per_seq_def)

lemma zero_table_length [simp]: "length (zero_table n rows) = length rows"
  by (simp add: zero_table_def)

lemma capture_buffers_Ok:
  assumes b: "buffers_ok h b" and d: "num_seqs d \<le> buf_max_num_seqs b" "num_tokens d \<le> buf_max_num_batched_tokens b"
  shows "\<exists>b'. capture_buffers z last_only d b = Ok b' \<and> buffers_ok h b' \<and>
    buf_max_num_seqs b' = buf_max_num_seqs b \<and> buf_max_num_batched_tokens b' = buf_max_num_batched_tokens b \<and>
    max_blocks_per_req b' = max_blocks_per_req b \<and>
    take (num_seqs d + 1) (buf_query_start_loc b') = 0 # running_sums 0 (tokens_per_seq (num_seqs d) (num_tokens d)) \<and>
    take (num_tokens d) (buf_slot_mapping b') = replicate (num_tokens d) (-1)"
proof -
  let ?n = "num_seqs d" and ?t = "num_tokens d"
  let ?S = "buf_max_num_seqs b" and ?T = "buf_max_num_batched_tokens b"
  let ?ts = "tokens_per_seq ?n ?t"
  note B = b [unfolded buffers_ok_def]
  have q0: "fill_slice 0 0 (buf_query_start_loc b) 1 = 0 # drop 1 (buf_query_start_loc b)"
    using B fill_slice_front [of 1 "buf_query_start_loc b" 0] by simp
  have q: "copy_slice 1 (running_sums 0 ?ts) (fill_slice 0 0 (buf_query_start_loc b) 1) (?n + 1) =
      Ok (0 # running_sums 0 ?ts @ drop (?n + 1) (buf_query_start_loc b))"
    unfolding q0 using B d by (subst copy_slice_Ok) auto
  have c: "copy_slice 0 ?ts (buf_context_lens b) ?n = Ok (?ts @ drop ?n (buf_context_lens b))"
    using copy_front [of ?ts "buf_context_lens b"] B d by simp
  define b2 where "b2 = b\<lparr>buf_input_ids := fill_slice 0 0 (buf_input_ids b) ?t,
      buf_position_ids := fill_slice 0 0 (buf_position_ids b) ?t,
      buf_intermediate_tensors := zero_rows z ?t (buf_intermediate_tensors b),
      buf_block_tables := zero_table ?n (buf_block_tables b),
      buf_slot_mapping := fill_slice 0 (-1) (buf_slot_mapping b) ?t,
      buf_query_start_loc := 0 # running_sums 0 ?ts @ drop (?n + 1) (buf_query_start_loc b),
      buf_context_lens := ?ts @ drop ?n (buf_context_lens b)\<rparr>"
  define lti where "lti = (if last_only then map (\<lambda>x. x - 1) (running_sums 0 ?ts) @ drop ?n (buf_last_token_idx b)
      else buf_last_token_idx b)"
  have "capture_buffers z last_only d b = (if last_only then fill_last_token_idx ?n b2 else Ok b2)"
    unfolding capture_buffers_def Let_def b2_def by (simp add: q [simplified] c)
  also have "\<dots> = Ok (b2\<lparr>buf_last_token_idx := lti\<rparr>)"
    using fill_last_token_idx_Ok [of ?n b2] B d by (auto simp: b2_def lti_def)
  finally have eq: "capture_buffers z last_only d b = Ok (b2\<lparr>buf_last_token_idx := lti\<rparr>)" .
  have rows: "\<forall>row\<in>set (zero_rows z ?t (buf_intermediate_tensors b)). length row = h"
    "length (zero_rows z ?t (buf_intermediate_tensors b)) = ?T"
    using B by (auto simp: zero_rows_def dest: in_set_takeD in_set_dropD)
  then have "buffers_ok h (b2\<lparr>buf_last_token_idx := lti\<rparr>)"
    using B d by (simp add: buffers_ok_def b2_def lti_def)
  then show ?thesis
    using eq B d by (simp add: b2_def fill_slice_front)
qed

definition desc_ok :: "'f input_buffers \<Rightarrow> descriptor \<Rightarrow> bool" where
  "desc_ok b d \<longleftrightarrow> 0 < num_seqs d \<and> num_seqs d \<le> num_tokens d \<and> num_seqs d \<le> buf_max_num_seqs b \<and>
     num_tokens d \<le> buf_max_num_batched_tokens b"

definition mgr_ok :: "nat \<Rightarrow> 'f graph_mgr \<Rightarrow> bool" where
  "mgr_ok h m \<longleftrightarrow> buffers_ok h (input_buffers m) \<and> (\<forall>d\<in>set (graphs m). desc_ok (input_buffers m) d)"

lemma capture_Ok:
  assumes "mgr_ok h m" "desc_ok (input_buffers m) d"
  shows "\<exists>m' st'. capture z kc vc d (m, st) = Ok (m', st') \<and> mgr_ok h m' \<and> set (graphs m') = insert d (set (graphs m)) \<and>
    descriptors m' = descriptors m \<and> last_tokens_only m' = last_tokens_only m \<and>
    buf_max_num_seqs (input_buffers m') = buf_max_num_seqs (input_buffers m) \<and>
    buf_max_num_batched_tokens (input_buffers m') = buf_max_num_batched_tokens (input_buffers m) \<and>
    max_blocks_per_req (input_buffers m') = max_blocks_per_req (input_buffers m)"
proof (cases "d \<in> set (graphs m)")
  case True
  then show ?thesis using assms by (auto simp: capture_def desc_ok_def Let_def)
next
  case False
  obtain b' where b': "capture_buffers z (last_tokens_only m) d (input_buffers m) = Ok b'" "buffers_ok h b'"
    "buf_max_num_seqs b' = buf_max_num_seqs (input_buffers m)"
    "buf_max_num_batched_tokens b' = buf_max_num_batched_tokens (input_buffers m)"
    "max_blocks_per_req b' = max_blocks_per_req (input_buffers m)"
    using capture_buffers_Ok [of h "input_buffers m" d z "last_tokens_only m"] assms
    by (auto simp: mgr_ok_def desc_ok_def)
  have "capture z kc vc d (m, st) =
      Ok (m\<lparr>graphs := graphs m @ [d], input_buffers := b'\<rparr>, Some (warm_up_context kc vc d b'))"
    using False assms(2) b'(1)
    by (auto simp: capture_def desc_ok_def Let_def set_kv_cache_context_def context_post_init_def
        warm_up_context_def get_kv_context_tensors_def)
  moreover have "mgr_ok h (m\<lparr>graphs := graphs m @ [d], input_buffers := b'\<rparr>)"
    using assms b' by (auto simp: mgr_ok_def desc_ok_def)
  ultimately show ?thesis using b' by auto
qed

lemma capture_list_Ok:
  assumes "mgr_ok h m" "\<forall>d\<in>set ds. desc_ok (input_buffers m) d"
  shows "\<exists>m' st'. for_res (capture z kc vc) ds (m, st) = Ok (m', st') \<and> mgr_ok h m' \<and> set (graphs m') = set ds \<union> set (graphs m) \<and>
    descriptors m' = descriptors m \<and> last_tokens_only m' = last_tokens_only m \<and>
    buf_max_num_seqs (input_buffers m') = buf_max_num_seqs (input_buffers m) \<and>
    buf_max_num_batched_tokens (input_buffers m') = buf_max_num_batched_tokens (input_buffers m) \<and>
    max_blocks_per_req (input_buffers m') = max_blocks_per_req (input_buffers m)"
  using assms
proof (induction ds arbitrary: m st)
  case Nil
  then show ?case by simp
next
  case (Cons d ds)
  obtain m1 st1 where m1: "capture z kc vc d (m, st) = Ok (m1, st1)" "mgr_ok h m1" "set (graphs m1) = insert d (set (graphs m))"
    "descriptors m1 = descriptors m" "last_tokens_only m1 = last_tokens_only m"
    "buf_max_num_seqs (input_buffers m1) = buf_max_num_seqs (input_buffers m)"
    "buf_max_num_batched_tokens (input_buffers m1) = buf_max_num_batched_tokens (input_buffers m)"
    "max_blocks_per_req (input_buffers m1) = max_blocks_per_req (input_buffers m)"
    using capture_Ok [of h m d z kc vc st] Cons.prems by auto
  have "\<forall>d\<in>set ds. desc_ok (input_buffers m1) d" using Cons.prems(2) m1 by (simp add: desc_ok_def)
  from Cons.IH [OF m1(2) this, of st1] show ?case using m1 by auto
qed

text \<open>
  The buffers hold \<open>max_size\<close> tokens, but the last bucket is the next power of two: startup
  succeeds for powers of two only, and otherwise ends in the capacity check of \<open>capture\<close>.
\<close>

lemma capture_graphs_power:
  assumes "make_graph_mgr max_size last_only b = Ok m" "buffers_ok h b" "0 < buf_max_num_seqs b"
    and "buf_max_num_batched_tokens b = nat max_size" "last (capture_sizes m) \<le> nat max_size"
  shows "\<exists>m' st'. capture_graphs z kc vc (m, st) = Ok (m', st') \<and> mgr_ok h m' \<and> set (graphs m') = set (descriptors m) \<and>
    descriptors m' = make_descriptors (buf_max_num_seqs b) (capture_sizes m) \<and> last_tokens_only m' = last_only \<and>
    buf_max_num_seqs (input_buffers m') = buf_max_num_seqs b \<and>
    buf_max_num_batched_tokens (input_buffers m') = buf_max_num_batched_tokens b \<and>
    max_blocks_per_req (input_buffers m') = max_blocks_per_req b"
proof -
  have sz: "0 < max_size" "capture_sizes m = capture_loop 1 (nat max_size)"
    and m: "descriptors m = make_descriptors (buf_max_num_seqs b) (capture_sizes m)" "graphs m = []"
    "last_tokens_only m = last_only" "input_buffers m = b"
    using assms(1) by (auto simp: make_graph_mgr_def build_capture_sizes_def split: if_splits)
  have le: "x \<le> nat max_size" if "x \<in> set (capture_sizes m)" for x
  proof (cases "x \<in> set (butlast (capture_sizes m))")
    case True
    then show ?thesis using capture_loop_prefix [of x 1 "nat max_size"] sz(2) by simp
  next
    case False
    have "capture_sizes m \<noteq> []" using capture_loop_last [of 1 "nat max_size"] sz(2) by simp
    then have "x = last (capture_sizes m)"
      using that False by (metis append_butlast_last_id Un_iff empty_iff insert_iff list.set set_append)
    then show ?thesis using assms(5) by simp
  qed
  have pos: "0 < x" if "x \<in> set (capture_sizes m)" for x
    using that capture_loop_pos [of 1 x "nat max_size"] sz(2) by simp
  have "\<forall>d\<in>set (descriptors m). desc_ok b d"
    using le pos assms(3,4) by (auto simp: m(1) make_descriptors_def desc_ok_def)
  moreover have "mgr_ok h m" using assms(2) m by (simp add: mgr_ok_def)
  moreover have "capture_sizes m \<noteq> []" using capture_loop_last [of 1 "nat max_size"] sz(2) by simp
  ultimately show ?thesis
    using capture_list_Ok [of h m "descriptors m" z kc vc st] m by (simp add: capture_graphs_def)
qed

lemma capture_graphs_oversize:
  assumes "make_graph_mgr max_size last_only b = Ok m" "buffers_ok h b" "0 < buf_max_num_seqs b"
    and "buf_max_num_batched_tokens b = nat max_size" "nat max_size < last (capture_sizes m)"
  shows "capture_graphs z kc vc (m, st) = Raise ValueError"
proof -
  have sz: "0 < max_size" "capture_sizes m = capture_loop 1 (nat max_size)"
    and m: "descriptors m = make_descriptors (buf_max_num_seqs b) (capture_sizes m)" "graphs m = []"
    "input_buffers m = b"
    using assms(1) by (auto simp: make_graph_mgr_def build_capture_sizes_def split: if_splits)
  have ne: "capture_sizes m \<noteq> []" using capture_loop_last [of 1 "nat max_size"] sz(2) by simp
  let ?f = "\<lambda>c. \<lparr>num_tokens = c, num_seqs = min c (buf_max_num_seqs b)\<rparr>"
  have ds: "descriptors m = map ?f (butlast (capture_sizes m)) @ [?f (last (capture_sizes m))]"
  proof -
    have "capture_sizes m = butlast (capture_sizes m) @ [last (capture_sizes m)]" using ne by simp
    then have "map ?f (capture_sizes m) = map ?f (butlast (capture_sizes m) @ [last (capture_sizes m)])" by (rule arg_cong)
    then show ?thesis by (simp only: m(1) make_descriptors_def map_append list.map)
  qed
  have "desc_ok b d" if dm: "d \<in> set (map ?f (butlast (capture_sizes m)))" for d
  proof -
    obtain c where c: "c \<in> set (butlast (capture_sizes m))" "d = ?f c" using dm by auto
    have "c < nat max_size" using c(1) capture_loop_prefix [of c 1 "nat max_size"] sz(2) by simp
    moreover have "0 < c" using in_set_butlastD [OF c(1)] capture_loop_pos [of 1 c "nat max_size"] sz(2) by simp
    ultimately show ?thesis using assms(3,4) c(2) by (simp add: desc_ok_def)
  qed
  then have "\<forall>d\<in>set (map ?f (butlast (capture_sizes m))). desc_ok (input_buffers m) d" using m(3) by blast
  moreover have "mgr_ok h m" using assms(2) m by (simp add: mgr_ok_def)
  ultimately obtain m' st' where m': "for_res (capture z kc vc) (map ?f (butlast (capture_sizes m))) (m, st) = Ok (m', st')"
    "buf_max_num_seqs (input_buffers m') = buf_max_num_seqs b"
    "buf_max_num_batched_tokens (input_buffers m') = buf_max_num_batched_tokens b"
    using capture_list_Ok [of h m "map ?f (butlast (capture_sizes m))" z kc vc st] m(3) by auto
  have "0 < last (capture_sizes m)" using assms(5) by simp
  then have "capture z kc vc (?f (last (capture_sizes m))) (m', st') = Raise ValueError"
    using assms(3-5) m' by (simp add: capture_def Let_def)
  then show ?thesis using ne m'(1) by (simp add: capture_graphs_def ds for_res_append)
qed

section \<open>A forward pass through a captured graph\<close>

definition mgr_ready :: "nat \<Rightarrow> 'f graph_mgr \<Rightarrow> bool" where
  "mgr_ready h m \<longleftrightarrow>
     mgr_ok h m \<and> set (graphs m) = set (descriptors m) \<and>
     (\<exists>sizes. build_capture_sizes (int (buf_max_num_batched_tokens (input_buffers m))) = Ok sizes \<and>
        descriptors m = make_descriptors (buf_max_num_seqs (input_buffers m)) sizes)"

definition same_shape :: "'f graph_mgr \<Rightarrow> 'f graph_mgr \<Rightarrow> bool" where
  "same_shape m m' \<longleftrightarrow>
     last_tokens_only m' = last_tokens_only m \<and>
     buf_max_num_seqs (input_buffers m') = buf_max_num_seqs (input_buffers m) \<and>
     buf_max_num_batched_tokens (input_buffers m') = buf_max_num_batched_tokens (input_buffers m) \<and>
     max_blocks_per_req (input_buffers m') = max_blocks_per_req (input_buffers m)"

lemma forward_ready:
  assumes m: "mgr_ready h m" and g: "context_ok h g"
    and sz: "input_size g = Ok (length (g_batch_position_ids g))"
    and n: "length (g_context_lens g) \<le> buf_max_num_seqs (input_buffers m)"
      "length (g_context_lens g) \<le> length (g_batch_position_ids g)"
    and t: "length (g_batch_position_ids g) \<le> buf_max_num_batched_tokens (input_buffers m)"
  shows "\<exists>d m' st. forward fwd z kc vc last_only g (Some m, storage) =
      Ok (fwd (padded_inputs z h (max_blocks_per_req (input_buffers m)) (last_tokens_only m) g d), Some m', Some st) \<and>
    mgr_ready h m' \<and> same_shape m m' \<and>
    length (g_context_lens g) \<le> num_seqs d \<and> length (g_batch_position_ids g) \<le> num_tokens d"
proof -
  let ?n = "length (g_context_lens g)" and ?t = "length (g_batch_position_ids g)" and ?b = "input_buffers m"
  obtain sizes where sizes: "build_capture_sizes (int (buf_max_num_batched_tokens ?b)) = Ok sizes"
    "descriptors m = make_descriptors (buf_max_num_seqs ?b) sizes"
    using m by (auto simp: mgr_ready_def)
  have mk: "mgr_ok h m" "set (graphs m) = set (descriptors m)" using m by (simp_all add: mgr_ready_def)
  obtain d where d: "dispatch (descriptors m) ?n ?t = Some d"
    using dispatch_covers [OF sizes(1) n(1) n(2)] t sizes(2) by auto
  note D = dispatch_Some [OF d]
  have dok: "desc_ok ?b d" "d \<in> set (graphs m)" using D mk by (auto simp: mgr_ok_def)
  obtain b' where b': "fill_buffers z (last_tokens_only m) g d ?b = Ok b'" "buffers_ok h b'"
    "buf_max_num_seqs b' = buf_max_num_seqs ?b" "buf_max_num_batched_tokens b' = buf_max_num_batched_tokens ?b"
    "max_blocks_per_req b' = max_blocks_per_req ?b"
    "static_inputs (last_tokens_only m) d b' = padded_inputs z h (max_blocks_per_req ?b) (last_tokens_only m) g d"
    using fill_buffers_Ok [of h ?b g d z "last_tokens_only m"] g D dok mk(1) by (auto simp: mgr_ok_def desc_ok_def)
  let ?m' = "m\<lparr>input_buffers := b'\<rparr>"
  obtain st where st: "prepare_input_buffers_from_gen_ctx z kc vc g d (m, storage) = Ok (?m', Some st)"
    using b'(1) by (auto simp: prepare_input_buffers_from_gen_ctx_def get_kv_context_tensors_def
        set_kv_cache_context_def context_post_init_def)
  have "mgr_ready h ?m'"
    using m b' by (auto simp: mgr_ready_def mgr_ok_def desc_ok_def)
  moreover have "same_shape m ?m'" using b' by (simp add: same_shape_def)
  moreover have "replay fwd d ?m' = Ok (fwd (padded_inputs z h (max_blocks_per_req ?b) (last_tokens_only m) g d))"
    using dok(2) b'(6) by (simp add: replay_def)
  ultimately show ?thesis
    using d st D sz by (intro exI [of _ d] exI [of _ ?m'] exI [of _ st]) (simp add: forward_def)
qed

lemma capture_graphs_ready:
  assumes "make_graph_mgr max_size last_only b = Ok m" "buffers_ok h b" "0 < buf_max_num_seqs b"
    and "buf_max_num_batched_tokens b = nat max_size" "last (capture_sizes m) \<le> nat max_size"
  shows "\<exists>m' st'. capture_graphs z kc vc (m, st) = Ok (m', st') \<and> mgr_ready h m'"
proof -
  have sz: "build_capture_sizes max_size = Ok (capture_sizes m)" "0 < max_size"
    "descriptors m = make_descriptors (buf_max_num_seqs b) (capture_sizes m)"
    using assms(1) by (auto simp: make_graph_mgr_def build_capture_sizes_def split: if_splits)
  then show ?thesis
    using capture_graphs_power [OF assms, of z kc vc st] assms(4) by (auto simp: mgr_ready_def)
qed

section \<open>Startup and padding\<close>

lemma last_size_power:
  assumes "0 < max_size" "build_capture_sizes max_size = Ok sizes"
  shows "last sizes \<le> nat max_size \<longleftrightarrow> (\<exists>k. nat max_size = 2 ^ k)"
proof -
  have sz: "sizes = capture_loop 1 (nat max_size)" using assms by (simp add: build_capture_sizes_def)
  have ge: "nat max_size \<le> last sizes" "sizes \<noteq> []" using capture_loop_last [of 1 "nat max_size"] sz by auto
  have lt: "last sizes < 2 * nat max_size" using capture_loop_less_double [of 1 "nat max_size"] assms(1) sz by simp
  have "sizes = map (\<lambda>i. 2 ^ i) [0..<length sizes]" using capture_loop_pow2 [of 1 0 "nat max_size"] sz by simp
  then have "last sizes \<in> range (\<lambda>i. 2 ^ i)" using ge(2) by (metis last_in_set list.set_map image_mono subsetD subset_UNIV)
  then obtain j where j: "last sizes = 2 ^ j" by auto
  show ?thesis
  proof
    assume "last sizes \<le> nat max_size"
    then show "\<exists>k. nat max_size = 2 ^ k" using ge(1) j by (intro exI [of _ j]) simp
  next
    assume "\<exists>k. nat max_size = 2 ^ k"
    then obtain k where k: "nat max_size = 2 ^ k" by blast
    have "(2 :: nat) ^ j < 2 * 2 ^ k" using lt unfolding j k .
    then have "(2 :: nat) ^ j < 2 ^ Suc k" by simp
    then have "j \<le> k" using power_less_imp_less_exp [of "2 :: nat" j "Suc k"] by simp
    then show "last sizes \<le> nat max_size" unfolding j k by simp
  qed
qed

lemma dispatch_first:
  assumes "dispatch (make_descriptors max_seqs sizes) n t = Some d" "n \<le> max_seqs" "n \<le> t" "sorted sizes"
    and "c \<in> set sizes" "t \<le> c"
  shows "num_tokens d \<le> c"
  using assms
proof (induction sizes)
  case (Cons x xs)
  show ?case
  proof (cases "t \<le> x")
    case True
    then have "d = \<lparr>num_tokens = x, num_seqs = min x max_seqs\<rparr>" using Cons.prems by (auto simp: make_descriptors_def)
    then show ?thesis using Cons.prems(4,5) by auto
  next
    case False
    then show ?thesis using Cons by (auto simp: make_descriptors_def)
  qed
qed (simp add: make_descriptors_def)

text \<open>
  C11. Graph capture at startup: with the buffers sized to \<open>max_num_batched_tokens\<close>, as the inferencer
  builds them, capturing succeeds exactly when that limit is a power of two; for every other limit the
  last bucket exceeds the buffers and the start ends in \<open>ValueError\<close>.
\<close>

theorem startup_needs_power_of_two:
  assumes "make_graph_mgr max_size last_only (make_buffers g z n (nat max_size) w h) = Ok m" "0 < n"
  shows "if \<exists>k. max_size = 2 ^ k
    then \<exists>m' st'. capture_graphs z kc vc (m, st) = Ok (m', st') \<and> mgr_ready h m'
    else capture_graphs z kc vc (m, st) = Raise ValueError"
proof -
  have sz: "0 < max_size" "build_capture_sizes max_size = Ok (capture_sizes m)"
    using assms(1) by (auto simp: make_graph_mgr_def build_capture_sizes_def split: if_splits)
  have pow: "(\<exists>k. max_size = 2 ^ k) \<longleftrightarrow> (\<exists>k. nat max_size = 2 ^ k)"
    using sz(1) by (metis int_nat_eq less_imp_le nat_int of_nat_numeral of_nat_power)
  have b: "buffers_ok h (make_buffers g z n (nat max_size) w h)"
    "0 < buf_max_num_seqs (make_buffers g z n (nat max_size) w h)"
    "buf_max_num_batched_tokens (make_buffers g z n (nat max_size) w h) = nat max_size"
    using assms(2) make_buffers_ok by (simp_all add: make_buffers_def)
  show ?thesis
  proof (cases "\<exists>k. max_size = 2 ^ k")
    case True
    have "last (capture_sizes m) \<le> nat max_size"
      by (rule iffD2 [OF last_size_power [OF sz] iffD1 [OF pow True]])
    from capture_graphs_ready [OF assms(1) b this, of z kc vc st] show ?thesis by (simp only: if_P [OF True])
  next
    case False
    have "\<not> last (capture_sizes m) \<le> nat max_size"
      using False unfolding pow last_size_power [OF sz] .
    then have "nat max_size < last (capture_sizes m)" by linarith
    from capture_graphs_oversize [OF assms(1) b this, of z kc vc st] show ?thesis by (simp only: if_not_P [OF False])
  qed
qed

text \<open>A limit of three tokens is rejected, four tokens are captured.\<close>

theorem startup_needs_power_of_two_witness:
  "(\<exists>m. make_graph_mgr 3 False (make_buffers 0 (0 :: int) 2 3 1 1) = Ok m \<and>
      capture_graphs 0 () () (m, None) = Raise ValueError) \<and>
   (\<exists>m m' st. make_graph_mgr 4 False (make_buffers 0 (0 :: int) 2 4 1 1) = Ok m \<and>
      capture_graphs 0 () () (m, None) = Ok (m', st) \<and> mgr_ready 1 m')"
proof
  obtain m where m: "make_graph_mgr 3 False (make_buffers 0 (0 :: int) 2 (nat 3) 1 1) = Ok m"
    by (simp add: make_graph_mgr_def build_capture_sizes_def)
  have "(3 :: int) \<noteq> 2 ^ k" for k by (cases k) (simp_all, presburger)
  then show "\<exists>m. make_graph_mgr 3 False (make_buffers 0 (0 :: int) 2 3 1 1) = Ok m \<and>
      capture_graphs 0 () () (m, None) = Raise ValueError"
    using startup_needs_power_of_two [OF m, where kc = "()" and vc = "()" and st = None] m by auto
next
  obtain m where m: "make_graph_mgr 4 False (make_buffers 0 (0 :: int) 2 (nat 4) 1 1) = Ok m"
    by (simp add: make_graph_mgr_def build_capture_sizes_def)
  have "\<exists>k. (4 :: int) = 2 ^ k" by (intro exI [of _ 2]) simp
  then have "\<exists>m' st. capture_graphs 0 () () (m, None) = Ok (m', st) \<and> mgr_ready 1 m'"
    using startup_needs_power_of_two [OF m, where kc = "()" and vc = "()" and st = None] by simp
  then show "\<exists>m m' st. make_graph_mgr 4 False (make_buffers 0 (0 :: int) 2 4 1 1) = Ok m \<and>
      capture_graphs 0 () () (m, None) = Ok (m', st) \<and> mgr_ready 1 m'"
    using m by auto
qed

text \<open>
  Bucket choice: a batch within the limits is dispatched to the smallest captured size that holds its
  tokens, so padding less than doubles the number of tokens of the forward pass, and the bucket has room
  for every sequence.
\<close>

theorem dispatch_pads_less_than_double:
  assumes "build_capture_sizes max_size = Ok sizes" "n \<le> max_seqs" "n \<le> t" "int t \<le> max_size" "0 < t"
  shows "\<exists>d. dispatch (make_descriptors max_seqs sizes) n t = Some d \<and>
    t \<le> num_tokens d \<and> num_tokens d < 2 * t \<and> n \<le> num_seqs d \<and> num_seqs d \<le> max_seqs \<and>
    num_tokens d \<in> set sizes \<and> (\<forall>c\<in>set sizes. t \<le> c \<longrightarrow> num_tokens d \<le> c)"
proof -
  obtain d where d: "dispatch (make_descriptors max_seqs sizes) n t = Some d" using dispatch_covers [OF assms(1-4)] by blast
  note D = dispatch_Some [OF d]
  have "0 < max_size" using assms(4,5) by linarith
  then have sz: "sizes = capture_loop 1 (nat max_size)" using assms(1) by (simp add: build_capture_sizes_def)
  have pow: "sizes = map (\<lambda>i. 2 ^ i) [0..<length sizes]" using capture_loop_pow2 [of 1 0 "nat max_size"] sz by simp
  have "sorted (map (\<lambda>i. 2 ^ i :: nat) [0..<length sizes])"
    by (auto simp: sorted_iff_nth_mono power_increasing)
  then have sorted: "sorted sizes" using pow by metis
  have least: "num_tokens d \<le> c" if "c \<in> set sizes" "t \<le> c" for c
    by (rule dispatch_first [OF d assms(2,3) sorted that])
  have mem: "num_tokens d \<in> set sizes" "num_seqs d \<le> max_seqs" using D by (auto simp: make_descriptors_def)
  obtain j where j: "num_tokens d = 2 ^ j" "j < length sizes"
    using mem(1) pow by (metis (no_types, lifting) atLeastLessThan_iff imageE list.set_map set_upt)
  have "num_tokens d < 2 * t"
  proof (cases j)
    case 0
    then show ?thesis using j assms(5) by simp
  next
    case (Suc i)
    then have "2 ^ i \<in> set sizes" using j(2) by (subst pow) auto
    then have "\<not> t \<le> 2 ^ i" using least [of "2 ^ i"] j(1) Suc by auto
    then show ?thesis using j(1) Suc by simp
  qed
  then show ?thesis using d D least mem by blast
qed

theorem dispatch_pads_less_than_double_witness:
  "\<exists>d. dispatch (make_descriptors 4 [1, 2, 4, 8]) 2 5 = Some d \<and> 5 \<le> num_tokens d \<and> num_tokens d < 10"
proof -
  have "build_capture_sizes 8 = Ok [1, 2, 4, 8]"
    by (simp add: build_capture_sizes_def capture_loop.simps)
  from dispatch_pads_less_than_double [OF this, of 2 4 5] show ?thesis by auto
qed

end
