(* ===== verification/Sampler.thy ===== *)
theory Sampler
  imports Runtime_Data
begin

text \<open>
  \<open>vexact/inferencer/sampler.py\<close>. Scores are of a linearly ordered type (no NaN); the floating
  point operations, the softmax, the random draws and the two optional vLLM kernels are the fields of
  a record, since they are code the repository calls. Masking, thresholds, index arithmetic, the
  guards and the choice of path are the program's own.
\<close>

record 'f sampler_lib =
  neg_inf :: 'f
  fzero :: 'f
  fone :: 'f
  fadd :: "'f \<Rightarrow> 'f \<Rightarrow> 'f"
  fsub :: "'f \<Rightarrow> 'f \<Rightarrow> 'f"
  fdiv :: "'f \<Rightarrow> 'f \<Rightarrow> 'f"
  softmax :: "'f list \<Rightarrow> 'f list"
  exponential_draw :: "nat \<Rightarrow> nat \<Rightarrow> 'f"
  vllm_top_k_top_p :: "('f list list \<Rightarrow> int list option \<Rightarrow> 'f list option \<Rightarrow> 'f list list) option"
  vllm_gumbel_sample :: "('f list list \<Rightarrow> int list \<Rightarrow> int list \<Rightarrow> 'f \<Rightarrow> int list) option"

section \<open>Sorting and masking a row\<close>

text \<open>\<open>argmax\<close> returns the first position of the greatest value.\<close>

definition argmax :: "('f::linorder) list \<Rightarrow> int" where
  "argmax xs = int (length (takeWhile (\<lambda>x. x < Max (set xs)) xs))"

definition mask_below :: "'f::linorder \<Rightarrow> 'f \<Rightarrow> 'f list \<Rightarrow> 'f list" where
  "mask_below ninf threshold xs = map (\<lambda>x. if x < threshold then ninf else x) xs"

definition sorted_idx :: "('f::linorder) list \<Rightarrow> nat list" where
  "sorted_idx xs = sort_key (\<lambda>i. xs ! i) [0..<length xs]"

definition scatter_row :: "nat list \<Rightarrow> 'f list \<Rightarrow> 'f list" where
  "scatter_row idx src = fold (\<lambda>(i, v) xs. xs[i := v]) (zip idx src) src"

definition top_k_step :: "'f::linorder \<Rightarrow> int \<Rightarrow> 'f list \<Rightarrow> 'f list res" where
  "top_k_step ninf k logits_sort =
     (let j = int (length logits_sort) - k
      in if j < 0 \<or> int (length logits_sort) \<le> j then Raise RuntimeError
         else Ok (mask_below ninf (logits_sort ! nat j) logits_sort))"

fun cumsum :: "('f \<Rightarrow> 'f \<Rightarrow> 'f) \<Rightarrow> 'f \<Rightarrow> 'f list \<Rightarrow> 'f list" where
  "cumsum add acc [] = []"
| "cumsum add acc (x # xs) = add acc x # cumsum add (add acc x) xs"

definition top_p_step :: "('f::linorder) sampler_lib \<Rightarrow> 'f \<Rightarrow> 'f list \<Rightarrow> 'f list" where
  "top_p_step lib p logits_sort =
     (let probs_sum = cumsum (fadd lib) (fzero lib) (softmax lib logits_sort);
          top_p_mask = (map (\<lambda>c. c \<le> fsub lib (fone lib) p) probs_sum)[length logits_sort - 1 := False]
      in map2 (\<lambda>x masked. if masked then neg_inf lib else x) logits_sort top_p_mask)"

text \<open>One row of the sorting path.\<close>

definition top_k_top_p_row :: "('f::linorder) sampler_lib \<Rightarrow> int option \<Rightarrow> 'f option \<Rightarrow> 'f list \<Rightarrow> 'f list res" where
  "top_k_top_p_row lib k p row =
     (let idx = sorted_idx row; srt = map ((!) row) idx
      in rbind (case k of None \<Rightarrow> Ok srt | Some k' \<Rightarrow> top_k_step (neg_inf lib) k' srt) (\<lambda>s1.
           let s2 = (case p of None \<Rightarrow> s1 | Some p' \<Rightarrow> top_p_step lib p' s1)
           in Ok (scatter_row idx s2)))"

text \<open>\<open>topk(max_top_k).values\<close>: the greatest values, in descending order.\<close>

definition topk_values :: "nat \<Rightarrow> ('f::linorder) list \<Rightarrow> 'f list" where
  "topk_values n xs = take n (rev (sort xs))"

definition apply_top_k_only :: "'f::linorder \<Rightarrow> 'f list list \<Rightarrow> int list \<Rightarrow> 'f list list res" where
  "apply_top_k_only ninf rows ks =
     (let vocab = int (length (hd rows));
          no_top_k = map (\<lambda>k. k = vocab) ks;
          ks' = map (\<lambda>k. if k = vocab then 1 else k) ks;
          max_top_k = Max (set ks')
      in if vocab < max_top_k \<or> max_top_k < 0 then Raise RuntimeError
         else map_res (\<lambda>(row, k, off).
           let vals = topk_values (nat max_top_k) row
           in if k - 1 < 0 \<or> int (length vals) \<le> k - 1 then Raise RuntimeError
              else Ok (mask_below ninf (if off then ninf else vals ! nat (k - 1)) row))
           (zip rows (zip ks' no_top_k)))"

definition apply_top_k_top_p ::
    "('f::linorder) sampler_lib \<Rightarrow> 'f list list \<Rightarrow> int list option \<Rightarrow> 'f list option \<Rightarrow> 'f list list res" where
  "apply_top_k_top_p lib rows ks ps =
     (case vllm_top_k_top_p lib of
        Some f \<Rightarrow> Ok (f rows ks ps)
      | None \<Rightarrow>
          (case (ps, ks) of
             (None, None) \<Rightarrow> Ok rows
           | (None, Some k) \<Rightarrow> apply_top_k_only (neg_inf lib) rows k
           | (Some p, _) \<Rightarrow>
               map_res (\<lambda>(i, row). top_k_top_p_row lib (map_option (\<lambda>k. k ! i) ks) (Some (p ! i)) row)
                 (enumerate 0 rows)))"

section \<open>Sampling a batch\<close>

text \<open>The noise \<open>q\<close> has the shape of the probabilities: one draw per row and column.\<close>

definition random_sample :: "('f::linorder) sampler_lib \<Rightarrow> 'f list list \<Rightarrow> int list" where
  "random_sample lib probs =
     map (\<lambda>(i, row). argmax (map (\<lambda>(j, x). fdiv lib x (exponential_draw lib i j)) (enumerate 0 row)))
       (enumerate 0 probs)"

definition seeded_sample ::
    "'f sampler_lib \<Rightarrow> 'f list list \<Rightarrow> int list \<Rightarrow> int list \<Rightarrow> 'f \<Rightarrow> int list res" where
  "seeded_sample lib rows seeds positions temp =
     (case vllm_gumbel_sample lib of
        None \<Rightarrow> Raise ImportError
      | Some f \<Rightarrow> Ok (f rows seeds positions temp))"

definition batch_sample_token ::
    "('f::linorder) sampler_lib \<Rightarrow> 'f list list \<Rightarrow> 'f generation_config list \<Rightarrow> int list option \<Rightarrow> int list res" where
  "batch_sample_token lib rows cfgs positions =
     (case cfgs of
        [] \<Rightarrow> Raise IndexError
      | c # _ \<Rightarrow>
          (case top_p c of
             None \<Rightarrow> Raise AssertionError
           | Some p \<Rightarrow>
               let k = (case top_k c of None \<Rightarrow> None | Some k' \<Rightarrow> if k' \<le> 0 then None else Some k');
                   temp = temperature c;
                   sampling = (do_sample c \<and> fzero lib < temp \<and> fzero lib < p);
                   seeds = map seed cfgs;
                   any_seed = list_ex (\<lambda>s. s \<noteq> None) seeds;
                   all_seeds = list_all (\<lambda>s. s \<noteq> None) seeds
               in if \<not> sampling then Ok (map argmax rows)
                  else if any_seed \<and> \<not> all_seeds then Raise ValueError
                  else if any_seed \<and> positions = None then Raise ValueError
                  else if any_seed \<and> vllm_gumbel_sample lib = None then Raise ImportError
                  else
                    let n = length rows;
                        scaled = (if temp \<noteq> fone lib then map (map (\<lambda>x. fdiv lib x temp)) rows else rows)
                    in rbind (apply_top_k_top_p lib scaled (map_option (replicate n) k) (Some (replicate n p))) (\<lambda>l.
                       if any_seed then seeded_sample lib l (map the seeds) (the positions) temp
                       else Ok (random_sample lib (map (softmax lib) l)))))"

section \<open>Facts about the masks\<close>

lemma sorted_idx_props:
  "distinct (sorted_idx xs)" "set (sorted_idx xs) = {..<length xs}" "length (sorted_idx xs) = length xs"
  "map ((!) xs) (sorted_idx xs) = sort xs"
proof -
  show "distinct (sorted_idx xs)" by (simp add: sorted_idx_def)
  show "set (sorted_idx xs) = {..<length xs}" by (auto simp: sorted_idx_def)
  show "length (sorted_idx xs) = length xs" by (simp add: sorted_idx_def)
  have "mset (map ((!) xs) (sorted_idx xs)) = mset (map ((!) xs) [0..<length xs])"
    by (simp add: sorted_idx_def)
  also have "\<dots> = mset xs" by (simp only: map_nth)
  finally show "map ((!) xs) (sorted_idx xs) = sort xs"
    by (intro properties_for_sort [symmetric]) (simp_all add: sorted_idx_def)
qed

lemma scatter_fold:
  assumes "distinct idx" "length src = length idx" "set idx \<subseteq> {..<length base}"
  shows "length (fold (\<lambda>(i, v) xs. xs[i := v]) (zip idx src) base) = length base \<and>
    (\<forall>j<length idx. fold (\<lambda>(i, v) xs. xs[i := v]) (zip idx src) base ! (idx ! j) = src ! j) \<and>
    (\<forall>i<length base. i \<notin> set idx \<longrightarrow> fold (\<lambda>(i, v) xs. xs[i := v]) (zip idx src) base ! i = base ! i)"
  using assms
proof (induction idx arbitrary: src base)
  case Nil
  then show ?case by simp
next
  case (Cons a idx)
  then obtain v src' where src: "src = v # src'" by (cases src) auto
  have IH: "length (fold (\<lambda>(i, v) xs. xs[i := v]) (zip idx src') (base[a := v])) = length (base[a := v]) \<and>
    (\<forall>j<length idx. fold (\<lambda>(i, v) xs. xs[i := v]) (zip idx src') (base[a := v]) ! (idx ! j) = src' ! j) \<and>
    (\<forall>i<length (base[a := v]). i \<notin> set idx \<longrightarrow>
       fold (\<lambda>(i, v) xs. xs[i := v]) (zip idx src') (base[a := v]) ! i = base[a := v] ! i)"
    using Cons.prems src by (intro Cons.IH) auto
  have a: "a < length base" "a \<notin> set idx" using Cons.prems by auto
  show ?case using IH a by (auto simp: src nth_Cons split: nat.splits)
qed

text \<open>Masking a sorted row and scattering it back is masking the row in place.\<close>

lemma scatter_sorted_map:
  "scatter_row (sorted_idx xs) (map f (map ((!) xs) (sorted_idx xs))) = map f xs"
proof (rule nth_equalityI)
  let ?idx = "sorted_idx xs" and ?src = "map f (map ((!) xs) (sorted_idx xs))"
  have S: "length (scatter_row ?idx ?src) = length ?src \<and>
      (\<forall>j<length ?idx. scatter_row ?idx ?src ! (?idx ! j) = ?src ! j)"
    using scatter_fold [of ?idx ?src ?src] sorted_idx_props [of xs] by (simp add: scatter_row_def)
  show "length (scatter_row ?idx ?src) = length (map f xs)" using S sorted_idx_props(3) [of xs] by simp
  fix i assume "i < length (scatter_row ?idx ?src)"
  then have "i < length xs" using S sorted_idx_props(3) [of xs] by simp
  then obtain j where "j < length ?idx" "?idx ! j = i"
    using sorted_idx_props(2) [of xs] by (metis in_set_conv_nth lessThan_iff)
  then show "scatter_row ?idx ?src ! i = map f xs ! i" using S \<open>i < length xs\<close> by auto
qed

lemma top_k_row_eq:
  assumes "0 < k" "k \<le> int (length row)"
  shows "top_k_top_p_row lib (Some k) None row =
    Ok (mask_below (neg_inf lib) (sort row ! nat (int (length row) - k)) row)"
  using assms sorted_idx_props(3,4) [of row] scatter_sorted_map [of row]
  by (simp add: top_k_top_p_row_def top_k_step_def mask_below_def Let_def flip: sorted_idx_props(4))

text \<open>The path that avoids the sort computes the same row.\<close>

lemma top_k_only_row:
  assumes "0 < k" "k \<le> int (length row)" "\<forall>x\<in>set row. ninf \<le> x" "k \<le> int n"
  shows "mask_below ninf (if k = int (length row) then ninf else topk_values n row ! nat (k - 1)) row =
    mask_below ninf (sort row ! nat (int (length row) - k)) row"
proof (cases "k = int (length row)")
  case True
  have "\<not> x < sort row ! 0" if "x \<in> set row" for x
  proof -
    have "x \<in> set (sort row)" using that by simp
    then obtain i where "i < length (sort row)" "sort row ! i = x" by (metis in_set_conv_nth)
    then show ?thesis using sorted_nth_mono [of "sort row" 0 i] by (auto simp: not_less)
  qed
  then have "mask_below ninf (sort row ! 0) row = row"
    unfolding mask_below_def by (intro map_idI) simp
  moreover have "mask_below ninf ninf row = row"
    unfolding mask_below_def using assms(3) by (intro map_idI) (auto simp: not_less)
  ultimately show ?thesis using True by simp
next
  case False
  have "topk_values n row ! nat (k - 1) = rev (sort row) ! nat (k - 1)"
    using assms(1,4) by (simp add: topk_values_def)
  also have "\<dots> = sort row ! (length row - Suc (nat (k - 1)))"
    using assms(1,2) by (subst rev_nth) auto
  also have "length row - Suc (nat (k - 1)) = nat (int (length row) - k)" using assms(1,2) by linarith
  finally show ?thesis using False by simp
qed

text \<open>The greatest score of a row survives both masks.\<close>

lemma length_cumsum [simp]: "length (cumsum add acc xs) = length xs"
  by (induction xs arbitrary: acc) auto

lemma top_p_step_last:
  assumes "s \<noteq> []" "length (softmax lib s) = length s"
  shows "last (top_p_step lib p s) = last s" "length (top_p_step lib p s) = length s"
proof -
  have len: "length (cumsum (fadd lib) (fzero lib) (softmax lib s)) = length s" using assms by simp
  show l: "length (top_p_step lib p s) = length s" by (simp add: top_p_step_def Let_def assms(2))
  then have "top_p_step lib p s \<noteq> []" using assms(1) by auto
  then show "last (top_p_step lib p s) = last s"
    using assms(1) l by (simp add: last_conv_nth top_p_step_def Let_def assms(2))
qed

lemma top_k_step_last:
  assumes "top_k_step ninf k s = Ok s'" "sorted s" "s \<noteq> []"
  shows "last s' = last s" "length s' = length s"
proof -
  define j where "j = nat (int (length s) - k)"
  have j: "j < length s" "s' = mask_below ninf (s ! j) s"
    using assms(1) by (auto simp: top_k_step_def Let_def j_def split: if_splits)
  show "length s' = length s" by (simp add: j(2) mask_below_def)
  have "s ! j \<le> last s" using j(1) assms(2,3) by (simp add: last_conv_nth sorted_nth_mono)
  then show "last s' = last s" using assms(3) by (auto simp: j(2) mask_below_def last_map dest: leD)
qed

lemma last_sort_Max:
  assumes "xs \<noteq> []"
  shows "last (sort xs) = Max (set xs)"
proof -
  have "length (sort xs) \<noteq> 0" using assms by simp
  then have ne: "sort xs \<noteq> []" by (metis list.size(3))
  have "y \<le> last (sort xs)" if y: "y \<in> set xs" for y
  proof -
    obtain i where "i < length (sort xs)" "sort xs ! i = y" using y by (metis in_set_conv_nth set_sort)
    then show ?thesis using sorted_nth_mono [of "sort xs" i "length (sort xs) - 1"] ne by (simp add: last_conv_nth)
  qed
  moreover have "last (sort xs) \<in> set xs" using last_in_set [OF ne] by simp
  ultimately show ?thesis by (intro Max_eqI [symmetric]) auto
qed

lemma top_k_top_p_keeps_max:
  assumes "top_k_top_p_row lib k p row = Ok row'" "row \<noteq> []" "\<And>s. length (softmax lib s) = length s"
  shows "length row' = length row" "row' ! last (sorted_idx row) = Max (set row)"
    "row ! last (sorted_idx row) = Max (set row)" "last (sorted_idx row) < length row"
proof -
  let ?idx = "sorted_idx row"
  note P = sorted_idx_props [of row]
  have "length (sort row) \<noteq> 0" "length ?idx \<noteq> 0" using P(3) assms(2) by simp_all
  then have ne: "?idx \<noteq> []" "sort row \<noteq> []" by (metis list.size(3))+
  have maxs: "last (sort row) = Max (set row)" using last_sort_Max [OF assms(2)] .
  obtain s1 where s1: "(case k of None \<Rightarrow> Ok (sort row) | Some k' \<Rightarrow> top_k_step (neg_inf lib) k' (sort row)) = Ok s1"
    "row' = scatter_row ?idx (case p of None \<Rightarrow> s1 | Some p' \<Rightarrow> top_p_step lib p' s1)"
    using assms(1) unfolding top_k_top_p_row_def Let_def P(4) rbind_eq_Ok by auto
  have l1: "last s1 = last (sort row)" "length s1 = length (sort row)"
    using s1(1) top_k_step_last [OF _ sorted_sort ne(2)] by (auto split: option.splits)
  let ?s2 = "case p of None \<Rightarrow> s1 | Some p' \<Rightarrow> top_p_step lib p' s1"
  have "s1 \<noteq> []" using l1(2) ne(2) by auto
  then have l2: "last ?s2 = last (sort row)" "length ?s2 = length row"
    using top_p_step_last [of s1 lib] assms(3) l1 by (auto split: option.splits)
  have S: "length row' = length ?s2 \<and> (\<forall>j<length ?idx. row' ! (?idx ! j) = ?s2 ! j)"
    using scatter_fold [of ?idx ?s2 ?s2] P l2(2) unfolding s1(2) by (simp add: scatter_row_def)
  show "length row' = length row" using S l2(2) by simp
  have j: "length ?idx - 1 < length ?idx" using ne(1) by simp
  have s2ne: "?s2 \<noteq> []" using l2(2) assms(2) by auto
  have "row' ! last ?idx = ?s2 ! (length ?idx - 1)" using S j ne(1) by (simp add: last_conv_nth)
  also have "\<dots> = last ?s2" using s2ne P(3) l2(2) by (simp add: last_conv_nth)
  finally show "row' ! last ?idx = Max (set row)" using l2(1) maxs by simp
  have "row ! last ?idx = map ((!) row) ?idx ! (length ?idx - 1)" using j ne(1) by (simp add: last_conv_nth)
  then show "row ! last ?idx = Max (set row)" using maxs ne P(3,4) by (simp add: last_conv_nth)
  show "last ?idx < length row" using P(2) last_in_set [OF ne(1)] by auto
qed

text \<open>\<open>argmax\<close> finds a greatest element.\<close>

lemma argmax_spec:
  assumes "xs \<noteq> []"
  shows "0 \<le> argmax xs" "nat (argmax xs) < length xs" "xs ! nat (argmax xs) = Max (set xs)"
    "\<forall>i<nat (argmax xs). xs ! i < Max (set xs)"
proof -
  let ?P = "\<lambda>x. x < Max (set xs)"
  have "Max (set xs) \<in> set xs" using assms by simp
  then have "takeWhile ?P xs \<noteq> xs" by (metis less_irrefl set_takeWhileD)
  then have len: "length (takeWhile ?P xs) < length xs"
    by (metis le_neq_implies_less length_takeWhile_le takeWhile_eq_take take_all_iff)
  show "0 \<le> argmax xs" "nat (argmax xs) < length xs" using len by (simp_all add: argmax_def)
  have "\<not> ?P (xs ! length (takeWhile ?P xs))" using nth_length_takeWhile [OF len] .
  moreover have "xs ! length (takeWhile ?P xs) \<le> Max (set xs)" using len by simp
  ultimately show "xs ! nat (argmax xs) = Max (set xs)" by (simp add: argmax_def)
  show "\<forall>i<nat (argmax xs). xs ! i < Max (set xs)"
      proof (intro allI impI)
    fix i assume "i < nat (argmax xs)"
    then have "i < length (takeWhile ?P xs)" by (simp add: argmax_def)
    then show "?P (xs ! i)" using takeWhile_nth [of i ?P xs] nth_mem [of i "takeWhile ?P xs"] set_takeWhileD by metis
  qed
qed

text \<open>A batch yields one token per row, whenever the two optional kernels keep the shape of a batch.\<close>

definition lib_shapes :: "'f sampler_lib \<Rightarrow> bool" where
  "lib_shapes lib \<longleftrightarrow>
     (\<forall>f rows ks ps. vllm_top_k_top_p lib = Some f \<longrightarrow> length (f rows ks ps) = length rows) \<and>
     (\<forall>f rows sd ps t. vllm_gumbel_sample lib = Some f \<longrightarrow> length (f rows sd ps t) = length rows)"

lemma map_res_zip_length: "map_res f (zip xs ys) = Ok zs \<Longrightarrow> length xs = length ys \<Longrightarrow> length zs = length xs"
  using map_res_length [of f "zip xs ys" zs] by simp

lemma apply_top_k_top_p_length:
  assumes "apply_top_k_top_p lib rows (map_option (replicate (length rows)) k) (Some ps) = Ok rows'" "lib_shapes lib"
  shows "length rows' = length rows"
  using assms map_res_length [of _ "enumerate 0 rows" rows']
  by (cases k) (auto simp: apply_top_k_top_p_def lib_shapes_def split: option.splits)

lemma batch_sample_token_length:
  assumes "batch_sample_token lib rows cfgs positions = Ok tokens" "lib_shapes lib"
  shows "length tokens = length rows"
proof -
  obtain c cs where cfgs: "cfgs = c # cs" using assms(1) by (auto simp: batch_sample_token_def split: list.splits)
  then obtain p where p: "top_p c = Some p" using assms(1) by (auto simp: batch_sample_token_def split: option.splits)
  let ?scaled = "if temperature c \<noteq> fone lib then map (map (\<lambda>x. fdiv lib x (temperature c))) rows else rows"
  have sl: "length ?scaled = length rows" by simp
  have len: "length l = length rows"
    if "apply_top_k_top_p lib ?scaled (map_option (replicate (length rows)) k) (Some ps) = Ok l" for k ps l
    using apply_top_k_top_p_length [of lib ?scaled k ps l] that assms(2) sl by simp
  show ?thesis
  proof (cases "do_sample c \<and> fzero lib < temperature c \<and> fzero lib < p")
    case False
    then have "tokens = map argmax rows" using assms(1) cfgs p by (auto simp: batch_sample_token_def Let_def)
    then show ?thesis by simp
  next
    case True
    obtain l k where l: "apply_top_k_top_p lib ?scaled (map_option (replicate (length rows)) k)
        (Some (replicate (length rows) p)) = Ok l"
      and t: "(\<exists>sd ps. seeded_sample lib l sd ps (temperature c) = Ok tokens)
        \<or> tokens = random_sample lib (map (softmax lib) l)"
      using assms(1) cfgs p True by (auto simp: batch_sample_token_def Let_def split: if_splits)
    from t show ?thesis
    proof
      assume "\<exists>sd ps. seeded_sample lib l sd ps (temperature c) = Ok tokens"
      then show ?thesis using assms(2) len [OF l] by (auto simp: seeded_sample_def lib_shapes_def split: option.splits)
    next
      assume "tokens = random_sample lib (map (softmax lib) l)"
      then show ?thesis using len [OF l] by (simp add: random_sample_def)
    qed
  qed
qed

text \<open>Greedy decoding treats every row on its own, whatever the rest of the batch.\<close>

lemma batch_sample_greedy:
  assumes "cfgs \<noteq> []" "top_p (hd cfgs) \<noteq> None" "\<not> do_sample (hd cfgs)"
  shows "batch_sample_token lib rows cfgs positions = Ok (map argmax rows)"
  using assms by (cases cfgs) (auto simp: batch_sample_token_def Let_def)

end
