(* ===== verification/Inferencer.thy ===== *)
theory Inferencer
  imports Cuda_Graph Sampler
begin

text \<open>
  \<open>Inferencer._select_tokens\<close> and \<open>Inferencer.infer\<close> of \<open>vexact/inferencer/inferencer.py\<close>. The
  model's forward, the log-probability kernel and the sampler's library are fields of an environment
  record. The channels of the pipeline messager are queues: a receive takes the oldest message and
  blocks when there is none.
\<close>

record 'f model_output =
  logit_rows :: "'f list list"
  hidden_states :: "'f list list"

record ('f, 'c) inferencer_env =
  pp_info_of :: pp_info
  page_size_of :: int
  table_width :: nat
  key_store :: 'c
  value_store :: 'c
  logits_for_last_tokens_only :: bool
  use_fp32_logits :: bool
  model_forward :: "'f forward_inputs \<Rightarrow> 'f model_output"
  sampler :: "'f sampler_lib"
  logprob :: "'f list \<Rightarrow> int \<Rightarrow> 'f"
  to_fp32 :: "'f \<Rightarrow> 'f"

section \<open>Selecting tokens\<close>

definition same_sampling :: "'f generation_config \<Rightarrow> 'f generation_config \<Rightarrow> bool" where
  "same_sampling a b \<longleftrightarrow>
     do_sample a = do_sample b \<and> temperature a = temperature b \<and> top_k a = top_k b \<and> top_p a = top_p b"

definition score_indices :: "'f generation_config list \<Rightarrow> nat list" where
  "score_indices cfgs = map fst (filter (\<lambda>(i, c). output_scores c) (enumerate 0 cfgs))"

definition last_rows :: "bool \<Rightarrow> int list \<Rightarrow> 'f list list \<Rightarrow> 'f list list res" where
  "last_rows last_only qsl rows =
     (if last_only then Ok (take (length qsl - 1) rows)
      else map_res (\<lambda>q. py_get rows (q - 1)) (tl qsl))"

definition select_tokens ::
    "('f::linorder, 'c) inferencer_env \<Rightarrow> 'f generation_context \<Rightarrow> 'f model_output \<Rightarrow> 'f inferencer_output res" where
  "select_tokens env g outputs =
     (let cfgs = g_generation_configs g in
      rbind (last_rows (logits_for_last_tokens_only env) (g_query_start_loc g) (logit_rows outputs)) (\<lambda>batched.
      case cfgs of
        [] \<Rightarrow> Raise IndexError
      | sample_ref # _ \<Rightarrow>
          if \<not> list_all (same_sampling sample_ref) cfgs then Raise AssertionError
          else
            rbind (batch_sample_token (sampler env) batched cfgs (Some (map (\<lambda>n. n - 1) (g_context_lens g)))) (\<lambda>tokens.
              let up = (if use_fp32_logits env then map (to_fp32 env) else (\<lambda>row. row));
                  scores = map (\<lambda>i. logprob env (up (batched ! i)) (tokens ! i)) (score_indices cfgs)
              in Ok \<lparr>token_ids = tokens,
                     logits = (if output_logits sample_ref then batched else []),
                     logprobs = scores\<rparr>)))"

section \<open>One cycle of a rank\<close>

record ('f, 'c) rank_state =
  graph_state :: "'f graph_mgr option"
  kv_storage :: "'c kv_context option"
  ctx_inbox :: "'f generation_context list"
  ctx_outbox :: "'f generation_context list"
  out_inbox :: "'f inferencer_output list"
  out_outbox :: "'f inferencer_output list"

definition kv_context_of :: "'c \<Rightarrow> 'c \<Rightarrow> 'f generation_context \<Rightarrow> 'c kv_context" where
  "kv_context_of kc vc g =
     \<lparr>is_paged_attn = True, key_cache = Some kc, value_cache = Some vc, block_tables = Some (g_block_tables g),
      slot_mapping = Some (g_slot_mapping g), context_lens = Some (g_context_lens g),
      query_start_loc = Some (g_query_start_loc g), max_seqlen_q = Some (g_max_seqlen_q g)\<rparr>"

text \<open>The context of the cycle: prepared on the first rank, received on the others.\<close>

definition obtain_gen_ctx ::
    "('f, 'c) inferencer_env \<Rightarrow> 'f inference_request list \<Rightarrow> ('f, 'c) rank_state
       \<Rightarrow> ('f generation_context option \<times> ('f, 'c) rank_state) res" where
  "obtain_gen_ctx env reqs st =
     (if is_first_rank (pp_info_of env) then
        if reqs = [] then Ok (None, st)
        else rbind (prepare_gen_ctx (page_size_of env) (table_width env) (key_store env) (value_store env)
                      reqs (kv_storage st)) (\<lambda>(g, storage). Ok (Some g, st\<lparr>kv_storage := storage\<rparr>))
      else
        (case ctx_inbox st of
           [] \<Rightarrow> Hang
         | g # rest \<Rightarrow>
             rbind (set_kv_cache_context (kv_context_of (key_store env) (value_store env) g) (kv_storage st))
               (\<lambda>storage. Ok (Some g, st\<lparr>ctx_inbox := rest, kv_storage := storage\<rparr>))))"

definition intermediate_ctx :: "'f generation_context \<Rightarrow> 'f model_output \<Rightarrow> 'f generation_context" where
  "intermediate_ctx g out =
     g\<lparr>g_batch_input_ids := None,
       g_intermediate_tensors := Some (take (length (g_batch_position_ids g)) (hidden_states out))\<rparr>"

definition recv_infer_out :: "('f, 'c) rank_state \<Rightarrow> ('f inferencer_output \<times> ('f, 'c) rank_state) res" where
  "recv_infer_out st =
     (case out_inbox st of [] \<Rightarrow> Hang | out # rest \<Rightarrow> Ok (out, st\<lparr>out_inbox := rest\<rparr>))"

text \<open>
  What follows the forward pass: the last rank selects and returns or sends, then the first rank
  receives, then every rank but the last sends its hidden states. With a single stage there is no
  messager to receive from.
\<close>

definition finish_cycle ::
    "('f::linorder, 'c) inferencer_env \<Rightarrow> bool \<Rightarrow> ('f generation_context \<times> 'f model_output) option
       \<Rightarrow> ('f, 'c) rank_state \<Rightarrow> ('f inferencer_output option \<times> ('f, 'c) rank_state) res" where
  "finish_cycle env recv run st =
     (let p = pp_info_of env;
          receive = (\<lambda>st1.
            rbind (if is_first_rank p \<and> recv then
                     if pp_size p \<le> 1 then Raise AttributeError
                     else rbind (recv_infer_out st1) (\<lambda>(out, st2). Ok (Some out, st2))
                   else Ok (None, st1)) (\<lambda>(final, st2).
            case run of
              Some (g, out) \<Rightarrow>
                if is_last_rank p then Ok (final, st2)
                else Ok (final, st2\<lparr>ctx_outbox := ctx_outbox st2 @ [intermediate_ctx g out]\<rparr>)
            | None \<Rightarrow> Ok (final, st2)))
      in case run of
           None \<Rightarrow> receive st
         | Some (g, out) \<Rightarrow>
             if is_last_rank p then
               rbind (select_tokens env g out) (\<lambda>final.
                 if is_first_rank p then Ok (Some final, st)
                 else receive (st\<lparr>out_outbox := out_outbox st @ [final]\<rparr>))
             else receive st)"

definition infer ::
    "('f::{linorder,zero}, 'c) inferencer_env \<Rightarrow> 'f inference_request list \<Rightarrow> bool \<Rightarrow> ('f, 'c) rank_state
       \<Rightarrow> ('f inferencer_output option \<times> ('f, 'c) rank_state) res" where
  "infer env reqs recv st =
     rbind (obtain_gen_ctx env reqs st) (\<lambda>(ctx, st1).
       case ctx of
         None \<Rightarrow> finish_cycle env recv None st1
       | Some g \<Rightarrow>
           rbind (forward (model_forward env) 0 (key_store env) (value_store env)
                    (logits_for_last_tokens_only env) g (graph_state st1, kv_storage st1)) (\<lambda>(out, gm, storage).
             finish_cycle env recv (Some (g, out)) (st1\<lparr>graph_state := gm, kv_storage := storage\<rparr>)))"

section \<open>What a cycle produces\<close>

lemma score_indices_all:
  "\<forall>c\<in>set cfgs. output_scores c = b \<Longrightarrow> score_indices cfgs = (if b then [0..<length cfgs] else [])"
proof -
  assume a: "\<forall>c\<in>set cfgs. output_scores c = b"
  have "output_scores c = b" if "(i, c) \<in> set (enumerate 0 cfgs)" for i c
    using that a by (auto simp: in_set_enumerate_eq)
  then have "\<forall>e\<in>set (enumerate 0 cfgs). (case e of (i, c) \<Rightarrow> output_scores c) = b" by auto
  then have "filter (\<lambda>(i, c). output_scores c) (enumerate 0 cfgs) = (if b then enumerate 0 cfgs else [])"
    by (cases b) (simp_all add: filter_True filter_False)
  then show ?thesis by (simp add: score_indices_def)
qed

text \<open>
  With request flags that agree, the output has one token per request and the score and logit lists
  are empty or complete; this is what \<open>Scheduler.update\<close> needs.
\<close>

lemma select_tokens_shape:
  assumes ok: "select_tokens env g outputs = Ok out" and lib: "lib_shapes (sampler env)"
    and cfgs: "\<forall>c\<in>set (g_generation_configs g). output_scores c = sc \<and> output_logits c = lg"
    and n: "length (g_generation_configs g) = n" "length (g_query_start_loc g) = Suc n"
    and rows: "logits_for_last_tokens_only env \<Longrightarrow> n \<le> length (logit_rows outputs)"
  shows "length (token_ids out) = n" "length (logits out) = (if lg then n else 0)"
    "length (logprobs out) = (if sc then n else 0)"
proof -
  obtain batched where b: "last_rows (logits_for_last_tokens_only env) (g_query_start_loc g) (logit_rows outputs) = Ok batched"
    using ok by (auto simp: select_tokens_def Let_def)
  have lb: "length batched = n"
    using b rows n(2) map_res_length [of _ "tl (g_query_start_loc g)" batched]
    by (auto simp: last_rows_def split: if_splits)
  obtain c cs where c: "g_generation_configs g = c # cs"
    using ok b by (auto simp: select_tokens_def Let_def split: list.splits)
  obtain tokens where t: "batch_sample_token (sampler env) batched (c # cs) (Some (map (\<lambda>n. n - 1) (g_context_lens g))) = Ok tokens"
    and out: "token_ids out = tokens" "logits out = (if output_logits c then batched else [])"
      "length (logprobs out) = length (score_indices (c # cs))"
    using ok b c by (auto simp: select_tokens_def Let_def split: if_splits)
  show "length (token_ids out) = n" using batch_sample_token_length [OF t lib] out(1) lb by simp
  show "length (logits out) = (if lg then n else 0)" using out(2) lb cfgs c by simp
  show "length (logprobs out) = (if sc then n else 0)"
    using out(3) score_indices_all [of "c # cs" sc] cfgs c n(1) by (auto split: if_splits)
qed

text \<open>
  Running the LM head on the last rows only selects the same rows as taking them from the full
  output; a replay may append rows for padded requests.
\<close>

lemma last_rows_equiv:
  assumes "\<forall>q\<in>set (tl qsl). 1 \<le> q \<and> q \<le> int (length full)"
  shows "last_rows True qsl (map (\<lambda>i. full ! nat i) (map (\<lambda>x. x - 1) (tl qsl)) @ padding) = last_rows False qsl full"
proof -
  have "map_res (\<lambda>q. py_get full (q - 1)) (tl qsl) = Ok (map (\<lambda>q. full ! nat (q - 1)) (tl qsl))"
    using assms by (intro map_res_all_Ok py_get_in_range) auto
  then show ?thesis by (simp add: last_rows_def)
qed

text \<open>
  A configuration the sampler accepts for a whole batch, and the batches whose requests agree with
  it. Without the vLLM kernels a seed cannot be honoured and \<open>top_k\<close> may exceed the vocabulary.
\<close>

definition sampling_safe :: "('f::linorder) sampler_lib \<Rightarrow> 'f generation_config \<Rightarrow> bool" where
  "sampling_safe lib c \<longleftrightarrow>
     top_p c \<noteq> None \<and>
     (do_sample c \<longrightarrow>
        (seed c \<noteq> None \<longrightarrow> vllm_gumbel_sample lib \<noteq> None) \<and>
        ((case top_k c of None \<Rightarrow> True | Some k \<Rightarrow> k \<le> 0) \<or> vllm_top_k_top_p lib \<noteq> None))"

definition config_like :: "'f generation_config \<Rightarrow> 'f generation_config \<Rightarrow> bool" where
  "config_like c d \<longleftrightarrow>
     same_sampling c d \<and> (seed c = None) = (seed d = None) \<and>
     output_scores d = output_scores c \<and> output_logits d = output_logits c"

lemma same_sampling_trans: "same_sampling c d \<Longrightarrow> same_sampling c e \<Longrightarrow> same_sampling d e"
  by (simp add: same_sampling_def)

lemma apply_top_k_top_p_Ok:
  assumes "k = None \<or> vllm_top_k_top_p lib \<noteq> None"
  shows "\<exists>l. apply_top_k_top_p lib rows (map_option f k) (Some ps) = Ok l"
proof (cases "vllm_top_k_top_p lib")
  case (Some g)
  then show ?thesis by (simp add: apply_top_k_top_p_def)
next
  case None
  then have k: "k = None" using assms by simp
  have "map_res (\<lambda>(i, row). top_k_top_p_row lib None (Some (ps ! i)) row) (enumerate 0 rows) =
      Ok (map (\<lambda>(i, row). scatter_row (sorted_idx row) (top_p_step lib (ps ! i) (map ((!) row) (sorted_idx row))))
        (enumerate 0 rows))"
    by (rule map_res_all_Ok) (auto simp: top_k_top_p_row_def Let_def)
  then show ?thesis using None k by (simp add: apply_top_k_top_p_def)
qed

lemma batch_sample_token_Ok:
  assumes "sampling_safe lib c" "cfgs \<noteq> []" "\<forall>d\<in>set cfgs. config_like c d"
  shows "\<exists>tokens. batch_sample_token lib rows cfgs (Some positions) = Ok tokens"
proof -
  obtain d ds where cfgs: "cfgs = d # ds" using assms(2) by (cases cfgs) auto
  have like: "same_sampling c d" "(seed c = None) = (seed d = None)" using assms(3) cfgs by (auto simp: config_like_def)
  obtain p where p: "top_p d = Some p" using assms(1) like by (auto simp: sampling_safe_def same_sampling_def)
  have seeds: "list_ex (\<lambda>s. s \<noteq> None) (map seed cfgs) = (seed c \<noteq> None)"
    "list_all (\<lambda>s. s \<noteq> None) (map seed cfgs) = (seed c \<noteq> None)"
    using assms(2,3) cfgs by (auto simp: list_ex_iff list_all_iff config_like_def)
  let ?k = "case top_k d of None \<Rightarrow> None | Some k' \<Rightarrow> if k' \<le> 0 then None else Some k'"
  let ?scaled = "if temperature d \<noteq> fone lib then map (map (\<lambda>x. fdiv lib x (temperature d))) rows else rows"
  show ?thesis
  proof (cases "do_sample d \<and> fzero lib < temperature d \<and> fzero lib < p")
    case False
    then show ?thesis using cfgs p by (auto simp: batch_sample_token_def Let_def)
  next
    case True
    have "?k = None \<or> vllm_top_k_top_p lib \<noteq> None"
      using assms(1) like True by (auto simp: sampling_safe_def same_sampling_def split: option.splits)
    then obtain l where l: "apply_top_k_top_p lib ?scaled (map_option (replicate (length rows)) ?k)
        (Some (replicate (length rows) p)) = Ok l"
      using apply_top_k_top_p_Ok by blast
    show ?thesis
    proof (cases "seed c = None")
      case nos: True
      then have "batch_sample_token lib rows cfgs (Some positions) = Ok (random_sample lib (map (softmax lib) l))"
        using cfgs p True l seeds unfolding cfgs by (simp add: batch_sample_token_def Let_def)
      then show ?thesis by blast
    next
      case False
      then obtain f where f: "vllm_gumbel_sample lib = Some f"
        using assms(1) like True by (auto simp: sampling_safe_def same_sampling_def)
      then have "batch_sample_token lib rows cfgs (Some positions) = Ok (f l (map the (map seed cfgs)) positions (temperature d))"
        using p True l seeds False unfolding cfgs
        by (simp add: batch_sample_token_def Let_def seeded_sample_def)
      then show ?thesis by blast
    qed
  qed
qed

text \<open>The documented contract of a causal model's forward: one logit row per kept position.\<close>

definition rows_law :: "('f, 'c) inferencer_env \<Rightarrow> bool" where
  "rows_law env \<longleftrightarrow>
     (\<forall>i. length (logit_rows (model_forward env i)) =
        (case fi_logits_to_keep i of None \<Rightarrow> length (fi_position_ids i) | Some ks \<Rightarrow> length ks))"

text \<open>Enough logit rows for the context of a batch of \<open>n\<close> requests.\<close>

definition enough_rows :: "('f, 'c) inferencer_env \<Rightarrow> 'f generation_context \<Rightarrow> 'f model_output \<Rightarrow> bool" where
  "enough_rows env g out \<longleftrightarrow>
     (if logits_for_last_tokens_only env then length (g_query_start_loc g) - 1 \<le> length (logit_rows out)
      else \<forall>q\<in>set (tl (g_query_start_loc g)). 1 \<le> q \<and> q \<le> int (length (logit_rows out)))"

lemma select_tokens_Ok:
  assumes "sampling_safe (sampler env) c" "g_generation_configs g \<noteq> []"
    and "\<forall>d\<in>set (g_generation_configs g). config_like c d" "enough_rows env g outputs"
  shows "\<exists>out. select_tokens env g outputs = Ok out"
proof -
  obtain d ds where cfgs: "g_generation_configs g = d # ds" using assms(2) by (cases "g_generation_configs g") auto
  have "\<exists>b. last_rows (logits_for_last_tokens_only env) (g_query_start_loc g) (logit_rows outputs) = Ok b"
  proof (cases "logits_for_last_tokens_only env")
    case True
    then show ?thesis by (simp add: last_rows_def)
  next
    case False
    have "map_res (\<lambda>q. py_get (logit_rows outputs) (q - 1)) (tl (g_query_start_loc g)) =
        Ok (map (\<lambda>q. logit_rows outputs ! nat (q - 1)) (tl (g_query_start_loc g)))"
      using assms(4) False by (intro map_res_all_Ok py_get_in_range) (auto simp: enough_rows_def)
    then show ?thesis using False by (simp add: last_rows_def)
  qed
  then obtain b where b: "last_rows (logits_for_last_tokens_only env) (g_query_start_loc g) (logit_rows outputs) = Ok b" ..
  have "list_all (same_sampling d) (d # ds)"
    using assms(3) cfgs same_sampling_trans [of c d] by (auto simp: list_all_iff config_like_def)
  moreover obtain tokens where
    "batch_sample_token (sampler env) b (d # ds) (Some (map (\<lambda>n. n - 1) (g_context_lens g))) = Ok tokens"
    using batch_sample_token_Ok [OF assms(1), of "d # ds" b] assms(3) cfgs by auto
  ultimately show ?thesis using b by (simp add: select_tokens_def cfgs Let_def)
qed

text \<open>The role table of \<open>infer\<close>: who receives and who sends what in one cycle.\<close>

lemma infer_cases:
  assumes "infer env reqs recv st = Ok r"
  obtains (idle) st1 where "obtain_gen_ctx env reqs st = Ok (None, st1)" "finish_cycle env recv None st1 = Ok r"
  | (run) g st1 out gm storage where "obtain_gen_ctx env reqs st = Ok (Some g, st1)"
      "finish_cycle env recv (Some (g, out)) (st1\<lparr>graph_state := gm, kv_storage := storage\<rparr>) = Ok r"
proof -
  obtain ctx st1 where o: "obtain_gen_ctx env reqs st = Ok (ctx, st1)"
    "(case ctx of None \<Rightarrow> finish_cycle env recv None st1 | Some g \<Rightarrow>
       rbind (forward (model_forward env) 0 (key_store env) (value_store env)
         (logits_for_last_tokens_only env) g (graph_state st1, kv_storage st1)) (\<lambda>(out, gm, storage).
       finish_cycle env recv (Some (g, out)) (st1\<lparr>graph_state := gm, kv_storage := storage\<rparr>))) = Ok r"
    using assms unfolding infer_def by auto
  show thesis
  proof (cases ctx)
    case None
    then show ?thesis using o idle by simp
  next
    case (Some g)
    then obtain x where "finish_cycle env recv (Some (g, fst x)) (st1\<lparr>graph_state := fst (snd x), kv_storage := snd (snd x)\<rparr>) = Ok r"
      using o(2) by (auto simp: case_prod_beta)
    then show ?thesis using o(1) Some run by blast
  qed
qed

abbreviation channels :: "('f, 'c) rank_state \<Rightarrow> 'f generation_context list \<times> 'f generation_context list
    \<times> 'f inferencer_output list \<times> 'f inferencer_output list" where
  "channels st \<equiv> (ctx_inbox st, ctx_outbox st, out_inbox st, out_outbox st)"

lemma obtain_gen_ctx_other:
  assumes "\<not> is_first_rank (pp_info_of env)" "obtain_gen_ctx env reqs st = Ok (ctx, st1)"
  shows "\<exists>g. ctx = Some g \<and> ctx_inbox st = g # ctx_inbox st1 \<and>
    (ctx_outbox st1, out_inbox st1, out_outbox st1) = (ctx_outbox st, out_inbox st, out_outbox st)"
  using assms by (auto simp: obtain_gen_ctx_def split: list.splits)

lemma prepare_gen_ctx_configs:
  "prepare_gen_ctx ps w kc vc reqs storage = Ok (g, storage') \<Longrightarrow>
    g_generation_configs g = map generation_config reqs"
  by (auto simp: prepare_gen_ctx_def Let_def split: if_splits)

lemma obtain_gen_ctx_first:
  assumes "is_first_rank (pp_info_of env)" "obtain_gen_ctx env reqs st = Ok (ctx, st1)"
  shows "channels st1 = channels st \<and> (if reqs = [] then ctx = None
    else \<exists>g. ctx = Some g \<and> g_generation_configs g = map generation_config reqs)"
  using assms by (auto simp: obtain_gen_ctx_def dest: prepare_gen_ctx_configs split: if_splits)

lemma infer_middle:
  assumes "\<not> is_first_rank (pp_info_of env)" "\<not> is_last_rank (pp_info_of env)"
    and "infer env reqs recv st = Ok (final, st')"
  shows "final = None \<and> (\<exists>g out. ctx_inbox st = g # ctx_inbox st' \<and>
    ctx_outbox st' = ctx_outbox st @ [intermediate_ctx g out] \<and>
    out_inbox st' = out_inbox st \<and> out_outbox st' = out_outbox st)"
  using assms(3)
proof (cases rule: infer_cases)
  case (idle st1)
  then show ?thesis using obtain_gen_ctx_other [OF assms(1)] by blast
next
  case (run g st1 out gm storage)
  then show ?thesis
    using obtain_gen_ctx_other [OF assms(1) run(1)] assms(1,2) by (auto simp: finish_cycle_def)
qed

lemma infer_last:
  assumes "\<not> is_first_rank (pp_info_of env)" "is_last_rank (pp_info_of env)"
    and "infer env reqs recv st = Ok (final, st')"
  shows "final = None \<and> (\<exists>g out sel. ctx_inbox st = g # ctx_inbox st' \<and> select_tokens env g out = Ok sel \<and>
    ctx_outbox st' = ctx_outbox st \<and> out_inbox st' = out_inbox st \<and> out_outbox st' = out_outbox st @ [sel])"
  using assms(3)
proof (cases rule: infer_cases)
  case (idle st1)
  then show ?thesis using obtain_gen_ctx_other [OF assms(1)] by blast
next
  case (run g st1 out gm storage)
  then show ?thesis
    using obtain_gen_ctx_other [OF assms(1) run(1)] assms(1,2) by (auto simp: finish_cycle_def)
qed

lemma infer_first:
  assumes "is_first_rank (pp_info_of env)" "\<not> is_last_rank (pp_info_of env)" "1 < pp_size (pp_info_of env)"
    and "infer env reqs recv st = Ok (final, st')"
  shows "(if recv then \<exists>out. out_inbox st = out # out_inbox st' \<and> final = Some out
      else final = None \<and> out_inbox st' = out_inbox st) \<and>
    (if reqs = [] then ctx_outbox st' = ctx_outbox st
     else \<exists>g out. ctx_outbox st' = ctx_outbox st @ [intermediate_ctx g out] \<and>
       g_generation_configs g = map generation_config reqs) \<and>
    ctx_inbox st' = ctx_inbox st \<and> out_outbox st' = out_outbox st"
  using assms(4)
proof (cases rule: infer_cases)
  case (idle st1)
  then show ?thesis
    using obtain_gen_ctx_first [OF assms(1) idle(1)] assms(1-3)
    by (auto simp: finish_cycle_def recv_infer_out_def split: list.splits if_splits)
next
  case (run g st1 out gm storage)
  have f: "channels st1 = channels st" "reqs \<noteq> []" "g_generation_configs g = map generation_config reqs"
    using obtain_gen_ctx_first [OF assms(1) run(1)] by (auto split: if_splits)
  let ?st = "st1\<lparr>graph_state := gm, kv_storage := storage\<rparr>"
  obtain st2 where "(if recv then recv_infer_out ?st = Ok (the final, st2) \<and> final \<noteq> None else final = None \<and> st2 = ?st)"
    "st' = st2\<lparr>ctx_outbox := ctx_outbox st2 @ [intermediate_ctx g out]\<rparr>"
    using run(2) assms(1-3) by (auto simp: finish_cycle_def split: if_splits)
  then show ?thesis
    using f by (auto simp: recv_infer_out_def split: list.splits if_splits)
qed

end
