(* ===== verification/Batch_Infer.thy ===== *)
theory Batch_Infer
  imports Inferencer
begin

text \<open>
  The inferencer on the batches the scheduler hands over: for a well-formed batch the context is
  built, a captured graph covers it, and on the last rank the selection succeeds.
\<close>

section \<open>Facts about the context of a batch\<close>

lemma length_concat_positions:
  "\<forall>r\<in>set reqs. covered ps blocks r \<Longrightarrow>
    int (length (concat (map step_positions reqs))) = sum_list (map tokens_this_step reqs)"
  by (induction reqs) (auto simp: length_step_positions)

lemma length_step_slots_eq: "length (concat (map (step_slots ps) reqs)) = length (concat (map step_positions reqs))"
  by (induction reqs) (auto simp: step_slots_def)

lemma length_step_tokens_eq: "length (concat (map step_tokens_of reqs)) = length (concat (map step_positions reqs))"
  by (induction reqs) (auto simp: step_tokens_of_def)

lemma context_for_ok: "context_ok h (context_for ps width reqs)"
  by (simp add: context_ok_def context_for_def length_step_slots_eq length_step_tokens_eq)

lemma context_for_input_size:
  "input_size (context_for ps width reqs) = Ok (length (g_batch_position_ids (context_for ps width reqs)))"
  by (simp add: input_size_def context_for_def length_step_tokens_eq)

lemma running_sums_bounds:
  assumes "\<forall>t\<in>set ts. 1 \<le> t" "q \<in> set (running_sums acc ts)"
  shows "acc + 1 \<le> q \<and> q \<le> acc + sum_list ts"
  using assms
proof (induction ts arbitrary: acc)
  case Nil
  then show ?case by simp
next
  case (Cons t ts)
  have nn: "0 \<le> sum_list ts" using Cons.prems(1) by (intro sum_list_nonneg) auto
  show ?case
  proof (cases "q = acc + t")
    case True
    then show ?thesis using Cons.prems(1) nn by simp
  next
    case False
    then have "acc + t + 1 \<le> q \<and> q \<le> acc + t + sum_list ts"
      using Cons.prems by (intro Cons.IH) auto
    moreover have "1 \<le> t" using Cons.prems(1) by simp
    ultimately show ?thesis by simp
  qed
qed

section \<open>Well-formed batches\<close>

definition batch_ok :: "('f, 'c) inferencer_env \<Rightarrow> int \<Rightarrow> int \<Rightarrow> int \<Rightarrow> 'f inference_request list \<Rightarrow> bool" where
  "batch_ok env blocks n_max t_max reqs \<longleftrightarrow>
     reqs \<noteq> [] \<and>
     (\<forall>r\<in>set reqs. covered (page_size_of env) blocks r \<and> feedable r \<and> length (block_ids r) \<le> table_width env) \<and>
     int (length reqs) \<le> n_max \<and> sum_list (map tokens_this_step reqs) \<le> t_max"

definition limits_ok :: "('f, 'c) inferencer_env \<Rightarrow> int \<Rightarrow> int \<Rightarrow> bool" where
  "limits_ok env blocks t_max \<longleftrightarrow>
     0 < page_size_of env \<and> blocks * page_size_of env < 2 ^ 31 \<and> t_max < 2 ^ 31"

definition graph_fits :: "('f, 'c) inferencer_env \<Rightarrow> nat \<Rightarrow> int \<Rightarrow> int \<Rightarrow> 'f graph_mgr option \<Rightarrow> bool" where
  "graph_fits env h n_max t_max gm \<longleftrightarrow>
     (case gm of
        None \<Rightarrow> True
      | Some m \<Rightarrow> mgr_ready h m \<and> last_tokens_only m = logits_for_last_tokens_only env \<and>
          int (buf_max_num_seqs (input_buffers m)) = n_max \<and>
          int (buf_max_num_batched_tokens (input_buffers m)) = t_max)"

lemma batch_tokens:
  assumes "batch_ok env blocks n_max t_max reqs"
  shows "int (length (concat (map step_positions reqs))) = sum_list (map tokens_this_step reqs)"
    "int (length reqs) \<le> sum_list (map tokens_this_step reqs)"
    "\<forall>t\<in>set (map tokens_this_step reqs). 1 \<le> t"
proof -
  show "int (length (concat (map step_positions reqs))) = sum_list (map tokens_this_step reqs)"
    using assms by (intro length_concat_positions) (auto simp: batch_ok_def)
  show one: "\<forall>t\<in>set (map tokens_this_step reqs). 1 \<le> t"
    using assms by (auto simp: batch_ok_def feedable_def)
  then show "int (length reqs) \<le> sum_list (map tokens_this_step reqs)" by (intro sum_list_ge_length) auto
qed

lemma eager_rows:
  assumes "batch_ok env blocks n_max t_max reqs" "rows_law env"
  shows "enough_rows env (context_for ps w reqs)
    (model_forward env (eager_inputs (logits_for_last_tokens_only env) (context_for ps w reqs)))"
proof -
  let ?ts = "map tokens_this_step reqs"
  have "1 \<le> q \<and> q \<le> int (length (concat (map step_positions reqs)))" if "q \<in> set (running_sums 0 ?ts)" for q
    using running_sums_bounds [of ?ts q 0] that batch_tokens [OF assms(1)] by simp
  then show ?thesis
    using assms(2) by (simp add: enough_rows_def rows_law_def eager_inputs_def context_for_def)
qed

lemma padded_rows:
  assumes "batch_ok env blocks n_max t_max reqs" "rows_law env"
    and "length (g_context_lens (context_for ps w reqs)) \<le> num_seqs d"
    and "length (g_batch_position_ids (context_for ps w reqs)) \<le> num_tokens d"
  shows "enough_rows env (context_for ps w reqs)
    (model_forward env (padded_inputs z h w' (logits_for_last_tokens_only env) (context_for ps w reqs) d))"
proof -
  let ?ts = "map tokens_this_step reqs"
  have "1 \<le> q \<and> q \<le> int (num_tokens d)" if "q \<in> set (running_sums 0 ?ts)" for q
    using running_sums_bounds [of ?ts q 0] that batch_tokens [OF assms(1)] assms(4)
    by (simp add: context_for_def)
  then show ?thesis
    using assms(2-4) by (simp add: enough_rows_def rows_law_def padded_inputs_def context_for_def Let_def)
qed

lemma forward_batch:
  assumes b: "batch_ok env blocks n_max t_max reqs" and l: "limits_ok env blocks t_max"
    and gf: "graph_fits env h n_max t_max gm"
  shows "\<exists>out gm' storage'. forward (model_forward env) z kc vc (logits_for_last_tokens_only env)
      (context_for (page_size_of env) (table_width env) reqs) (gm, storage) = Ok (out, gm', storage') \<and>
    graph_fits env h n_max t_max gm' \<and>
    (rows_law env \<longrightarrow> enough_rows env (context_for (page_size_of env) (table_width env) reqs) out)"
proof -
  let ?g = "context_for (page_size_of env) (table_width env) reqs"
  show ?thesis
  proof (cases gm)
    case None
    then show ?thesis using eager_rows [OF b] by (auto simp: forward_def graph_fits_def)
  next
    case (Some m)
    then have m: "mgr_ready h m" "last_tokens_only m = logits_for_last_tokens_only env"
      "int (buf_max_num_seqs (input_buffers m)) = n_max"
      "int (buf_max_num_batched_tokens (input_buffers m)) = t_max"
      using gf by (auto simp: graph_fits_def)
    have len: "length (g_context_lens ?g) = length reqs"
      "length (g_batch_position_ids ?g) = length (concat (map step_positions reqs))"
      by (simp_all add: context_for_def)
    have bb: "int (length reqs) \<le> n_max" "sum_list (map tokens_this_step reqs) \<le> t_max"
      using b by (simp_all add: batch_ok_def)
    have "length (g_context_lens ?g) \<le> buf_max_num_seqs (input_buffers m)"
      "length (g_context_lens ?g) \<le> length (g_batch_position_ids ?g)"
      "length (g_batch_position_ids ?g) \<le> buf_max_num_batched_tokens (input_buffers m)"
      unfolding len using bb m batch_tokens(1,2) [OF b] by linarith+
    from forward_ready [OF m(1) context_for_ok context_for_input_size this, of "model_forward env" z kc vc
        "logits_for_last_tokens_only env" storage]
    obtain d m' st where f: "forward (model_forward env) z kc vc (logits_for_last_tokens_only env) ?g (Some m, storage) =
        Ok (model_forward env (padded_inputs z h (max_blocks_per_req (input_buffers m)) (last_tokens_only m) ?g d), Some m', Some st)"
      "mgr_ready h m'" "same_shape m m'"
      "length (g_context_lens ?g) \<le> num_seqs d" "length (g_batch_position_ids ?g) \<le> num_tokens d"
      by blast
    have "graph_fits env h n_max t_max (Some m')"
      using f(2,3) m by (auto simp: graph_fits_def same_shape_def)
    then show ?thesis
      using f(1) padded_rows [OF b _ f(4,5)] m(2) Some by auto
  qed
qed

section \<open>One cycle of the first rank\<close>

text \<open>An output that has what the scheduler's \<open>update\<close> reads, by the configurations of the batch.\<close>

definition cfgs_fit :: "'f generation_config list \<Rightarrow> 'f inferencer_output \<Rightarrow> bool" where
  "cfgs_fit cfgs out \<longleftrightarrow>
     length (token_ids out) = length cfgs \<and>
     length (logits out) \<in> {0, length cfgs} \<and> length (logprobs out) \<in> {0, length cfgs} \<and>
     (\<forall>c\<in>set cfgs. output_logits c \<longrightarrow> length (logits out) = length cfgs) \<and>
     (\<forall>c\<in>set cfgs. output_scores c \<longrightarrow> length (logprobs out) = length cfgs)"

lemma select_tokens_fit:
  assumes "select_tokens env g outputs = Ok out" "lib_shapes (sampler env)"
    and "\<forall>d\<in>set (g_generation_configs g). config_like c d"
    and "length (g_query_start_loc g) = Suc (length (g_generation_configs g))" "enough_rows env g outputs"
  shows "cfgs_fit (g_generation_configs g) out"
proof -
  have "logits_for_last_tokens_only env \<Longrightarrow> length (g_generation_configs g) \<le> length (logit_rows outputs)"
    using assms(4,5) by (simp add: enough_rows_def)
  from select_tokens_shape [OF assms(1,2) _ refl assms(4) this, of "output_scores c" "output_logits c"]
  show ?thesis using assms(3) by (auto simp: cfgs_fit_def config_like_def)
qed

lemma obtain_gen_ctx_Ok:
  assumes "is_first_rank (pp_info_of env)" "batch_ok env blocks n_max t_max reqs" "limits_ok env blocks t_max"
  shows "\<exists>storage. obtain_gen_ctx env reqs st =
    Ok (Some (context_for (page_size_of env) (table_width env) reqs), st\<lparr>kv_storage := storage\<rparr>)"
proof -
  obtain st' where "prepare_gen_ctx (page_size_of env) (table_width env) (key_store env) (value_store env) reqs (kv_storage st)
      = Ok (context_for (page_size_of env) (table_width env) reqs, Some st')"
    using prepare_gen_ctx_Ok [of "page_size_of env" reqs blocks "table_width env" "key_store env" "value_store env" "kv_storage st"]
      assms(2,3) by (auto simp: batch_ok_def limits_ok_def)
  then show ?thesis using assms(1,2) by (auto simp: obtain_gen_ctx_def batch_ok_def)
qed

text \<open>A single stage: the cycle returns the selected tokens.\<close>

lemma infer_single:
  assumes p: "is_first_rank (pp_info_of env)" "is_last_rank (pp_info_of env)"
    and b: "batch_ok env blocks n_max t_max reqs" and l: "limits_ok env blocks t_max"
    and gf: "graph_fits env h n_max t_max (graph_state st)"
    and lib: "rows_law env" "lib_shapes (sampler env)" "sampling_safe (sampler env) c"
    and like: "\<forall>r\<in>set reqs. config_like c (generation_config r)"
  shows "\<exists>out st'. infer env reqs recv st = Ok (Some out, st') \<and> cfgs_fit (map generation_config reqs) out \<and>
    graph_fits env h n_max t_max (graph_state st') \<and> channels st' = channels st"
proof -
  let ?g = "context_for (page_size_of env) (table_width env) reqs"
  obtain storage where o: "obtain_gen_ctx env reqs st = Ok (Some ?g, st\<lparr>kv_storage := storage\<rparr>)"
    using obtain_gen_ctx_Ok [OF p(1) b l] by blast
  obtain out gm' storage' where f: "forward (model_forward env) 0 (key_store env) (value_store env)
      (logits_for_last_tokens_only env) ?g (graph_state st, storage) = Ok (out, gm', storage')"
    "graph_fits env h n_max t_max gm'" "enough_rows env ?g out"
    using forward_batch [OF b l gf, of 0 "key_store env" "value_store env" storage] lib(1) by blast
  have cf: "g_generation_configs ?g = map generation_config reqs" by (simp add: context_for_def)
  have like': "\<forall>d\<in>set (g_generation_configs ?g). config_like c d" using like by (simp add: cf)
  have ne: "g_generation_configs ?g \<noteq> []" using b by (simp add: cf batch_ok_def)
  obtain sel where sel: "select_tokens env ?g out = Ok sel"
    using select_tokens_Ok [OF lib(3) ne like' f(3)] by blast
  have "cfgs_fit (g_generation_configs ?g) sel"
    by (rule select_tokens_fit [OF sel lib(2) like' _ f(3)]) (simp add: context_for_def)
  then show ?thesis
    using o f sel p cf by (simp add: infer_def finish_cycle_def)
qed

text \<open>Several stages: the first rank sends its batch and receives the oldest answer.\<close>

lemma infer_first_Ok:
  assumes p: "is_first_rank (pp_info_of env)" "\<not> is_last_rank (pp_info_of env)" "1 < pp_size (pp_info_of env)"
    and b: "reqs \<noteq> [] \<Longrightarrow> batch_ok env blocks n_max t_max reqs" and l: "limits_ok env blocks t_max"
    and gf: "graph_fits env h n_max t_max (graph_state st)"
  shows "outcome (\<lambda>(final, st').
      (if recv then \<exists>out. out_inbox st = out # out_inbox st' \<and> final = Some out
       else final = None \<and> out_inbox st' = out_inbox st) \<and>
      (if reqs = [] then ctx_outbox st' = ctx_outbox st
       else \<exists>g. ctx_outbox st' = ctx_outbox st @ [g] \<and> g_generation_configs g = map generation_config reqs) \<and>
      graph_fits env h n_max t_max (graph_state st'))
    (recv \<and> out_inbox st = []) (infer env reqs recv st)"
proof (cases "reqs = []")
  case True
  then have "obtain_gen_ctx env reqs st = Ok (None, st)" using p(1) by (simp add: obtain_gen_ctx_def)
  then show ?thesis
    using p True gf by (auto simp: infer_def finish_cycle_def recv_infer_out_def split: list.splits)
next
  case False
  let ?g = "context_for (page_size_of env) (table_width env) reqs"
  note bo = b [OF False]
  obtain storage where o: "obtain_gen_ctx env reqs st = Ok (Some ?g, st\<lparr>kv_storage := storage\<rparr>)"
    using obtain_gen_ctx_Ok [OF p(1) bo l] by blast
  obtain out gm' storage' where f: "forward (model_forward env) 0 (key_store env) (value_store env)
      (logits_for_last_tokens_only env) ?g (graph_state st, storage) = Ok (out, gm', storage')"
    "graph_fits env h n_max t_max gm'"
    using forward_batch [OF bo l gf, of 0 "key_store env" "value_store env" storage] by blast
  have cf: "g_generation_configs (intermediate_ctx ?g out) = map generation_config reqs"
    by (simp add: context_for_def intermediate_ctx_def)
  show ?thesis
    using p False o f cf by (auto simp: infer_def finish_cycle_def recv_infer_out_def split: list.splits)
qed

end
