(* ===== verification/Driver_Worker.thy ===== *)
theory Driver_Worker
  imports Scheduler_Props Batch_Infer
begin

text \<open>
  The generation loop of rank 0 (\<open>vexact/worker/driver_worker.py\<close>) with the scheduler and the
  inferencer it drives, and the system around it: clients that submit and poll, and the later
  pipeline ranks that answer the contexts in the order they were sent.
\<close>

section \<open>The loop body\<close>

record ('f, 'c) driver =
  scheduler_of :: "'f sched"
  rank_of :: "('f, 'c) rank_state"
  loop_alive :: bool

definition init_driver ::
    "scheduler_config \<Rightarrow> cache_config \<Rightarrow> pp_info \<Rightarrow> (ref \<Rightarrow> 'f inference_request) \<Rightarrow> 'f graph_mgr option
       \<Rightarrow> ('f, 'c) driver" where
  "init_driver sc cc p objs gm =
     \<lparr>scheduler_of = init_sched sc (kv_init cc) p objs,
      rank_of = \<lparr>graph_state = gm, kv_storage = None, ctx_inbox = [], ctx_outbox = [],
                 out_inbox = [], out_outbox = []\<rparr>,
      loop_alive = True\<rparr>"

definition generation_round ::
    "('f::{linorder,zero}, 'c) inferencer_env \<Rightarrow> (int \<Rightarrow> int \<Rightarrow> int \<Rightarrow> int) \<Rightarrow> ('f, 'c) driver \<Rightarrow> ('f, 'c) driver res" where
  "generation_round env fair_quot d =
     rbind (schedule fair_quot (scheduler_of d)) (\<lambda>(batch_to_infer, batch_to_update, s1).
       if batch_to_infer = [] \<and> batch_to_update = [] then Ok (d\<lparr>scheduler_of := s1\<rparr>)
       else
         rbind (infer env (map (store s1) batch_to_infer) (batch_to_update \<noteq> []) (rank_of d)) (\<lambda>(infer_result, rk).
           case infer_result of
             None \<Rightarrow> Ok (d\<lparr>scheduler_of := s1, rank_of := rk\<rparr>)
           | Some out \<Rightarrow>
               rbind (update batch_to_update out s1) (\<lambda>s2. Ok (d\<lparr>scheduler_of := s2, rank_of := rk\<rparr>))))"

text \<open>
  The loop catches every exception and leaves: the thread ends and the state of the failing round
  is whatever it was. A round that blocks has not happened yet.
\<close>

definition loop_step ::
    "('f::{linorder,zero}, 'c) inferencer_env \<Rightarrow> (int \<Rightarrow> int \<Rightarrow> int \<Rightarrow> int) \<Rightarrow> ('f, 'c) driver \<Rightarrow> ('f, 'c) driver option" where
  "loop_step env fair_quot d =
     (if \<not> loop_alive d then None
      else case generation_round env fair_quot d of
             Ok d' \<Rightarrow> Some d'
           | Raise _ \<Rightarrow> Some (d\<lparr>loop_alive := False\<rparr>)
           | Hang \<Rightarrow> None)"

definition driver_submit :: "ref \<Rightarrow> 'f inference_request \<Rightarrow> ('f, 'c) driver \<Rightarrow> bool \<times> ('f, 'c) driver" where
  "driver_submit r q d =
     (let (ok, s) = submit_request r (upd_obj r (\<lambda>_. q) (scheduler_of d)) in (ok, d\<lparr>scheduler_of := s\<rparr>))"

definition driver_poll :: "bool \<Rightarrow> ('f, 'c) driver \<Rightarrow> (ref list \<times> ('f, 'c) driver) res" where
  "driver_poll has_timeout d =
     rbind (poll_results has_timeout (scheduler_of d)) (\<lambda>(rs, s). Ok (rs, d\<lparr>scheduler_of := s\<rparr>))"

section \<open>Length limits of requests\<close>

text \<open>A request whose prompt and output fit \<open>L\<close> tokens, and which has not produced its last token.\<close>

definition within :: "int \<Rightarrow> 'f inference_request \<Rightarrow> bool" where
  "within L q \<longleftrightarrow> original_prompt_len q \<le> L \<and>
     (\<exists>m. max_new_tokens (generation_config q) = Some m \<and> original_prompt_len q + m - 1 \<le> L \<and>
        (generated_tokens q = [] \<or> int (length (generated_tokens q)) < m))"

lemma within_fixed: "fixed q q' \<Longrightarrow> within L q' = within L q"
  by (simp add: within_def fixed_def)

lemma within_full_length: "within L q \<Longrightarrow> folded_ok q \<Longrightarrow> int (length (full_sequence q)) \<le> L"
proof -
  assume w: "within L q" and f: "folded_ok q"
  have "int (length (full_sequence q)) = original_prompt_len q + int (length (generated_tokens q))"
    using folded_ok_length [OF f] by (simp add: full_sequence_def)
  then show ?thesis using w by (auto simp: within_def)
qed

lemma within_token_step:
  assumes "token_step q t q'" "within L q" "status q' \<noteq> FINISHED"
  shows "within L q' \<and> generation_config q' = generation_config q"
proof (cases "prefill_done q")
  case False
  then show ?thesis using assms by (simp add: token_step_def)
next
  case True
  then obtain ls ps where q': "should_finish (add_token ls ps t q) t = Ok False" "q' = add_token ls ps t q"
    using assms(1,3) by (auto simp: token_step_def finish_def)
  obtain m where m: "max_new_tokens (generation_config q) = Some m" "original_prompt_len q \<le> L"
    "original_prompt_len q + m - 1 \<le> L" using assms(2) by (auto simp: within_def)
  have "int (length (generated_tokens (add_token ls ps t q))) < m"
    using q'(1) m(1) by (auto simp: should_finish_def Let_def split: if_splits)
  then show ?thesis using q'(2) m by (auto simp: within_def)
qed

text \<open>A planned request with enough blocks is one the inferencer can feed.\<close>

lemma planned_batch_member:
  assumes "planned q" "holds_blocks ps q" "0 < ps" "distinct (block_ids q)" "set (block_ids q) \<subseteq> {0..<blocks}"
    and "within L q" "ceil_div L ps \<le> int width"
  shows "covered ps blocks q" "feedable q" "length (block_ids q) \<le> width"
proof -
  have q: "folded_ok q" "1 \<le> tokens_this_step q" "tokens_this_step q \<le> num_computed_tokens q"
    using assms(1) by (auto simp: planned_def req_ok_def)
  have lenb: "int (length (block_ids q)) = ceil_div (max (in_len q) (num_computed_tokens q)) ps"
    using assms(2) by (simp add: holds_blocks_def)
  have "ceil_div (num_computed_tokens q) ps \<le> int (length (block_ids q))"
    unfolding lenb by (rule ceil_div_mono [OF assms(3)]) simp
  then show "covered ps blocks q" using q assms(4,5) by (simp add: covered_def)
  show "feedable q" using q assms(1) by (auto simp: feedable_def planned_def split: if_splits)
  have fl: "int (length (full_sequence q)) \<le> L" by (rule within_full_length [OF assms(6) q(1)])
  have "in_len q \<le> int (length (full_sequence q))" using folded_ok_length [OF q(1)] by simp
  moreover have "num_computed_tokens q \<le> int (length (full_sequence q))"
    using assms(1) \<open>in_len q \<le> int (length (full_sequence q))\<close> by (auto simp: planned_def split: if_splits)
  ultimately have "ceil_div (max (in_len q) (num_computed_tokens q)) ps \<le> ceil_div L ps"
    using fl by (intro ceil_div_mono [OF assms(3)]) simp
  then show "length (block_ids q) \<le> width" using lenb assms(7) by linarith
qed

section \<open>The order of the slots\<close>

text \<open>The slots after the current one, oldest first: what is in flight on a pipeline.\<close>

definition slots_after :: "nat \<Rightarrow> 'b list \<Rightarrow> 'b list" where
  "slots_after i xs = drop (Suc i) xs @ take i xs"

lemma slots_after_rotate:
  assumes "i < length xs" "1 < length xs" "length ys = length xs"
    and "\<And>j. j < length xs \<Longrightarrow> j \<noteq> i \<Longrightarrow> ys ! j = xs ! j"
  shows "\<exists>mid. slots_after i xs = ys ! ((i + 1) mod length xs) # mid \<and>
    slots_after ((i + 1) mod length xs) ys = mid @ [ys ! i]"
proof (cases "Suc i < length xs")
  case True
  have a: "drop (Suc i) xs = ys ! Suc i # drop (Suc (Suc i)) ys"
  proof -
    have "drop (Suc (Suc i)) ys = drop (Suc (Suc i)) xs"
      using assms by (intro nth_equalityI) auto
    then show ?thesis using True assms(4) by (simp add: Cons_nth_drop_Suc [symmetric])
  qed
  have b: "take i xs = take i ys" using assms by (intro nth_equalityI) auto
  have "take (Suc i) ys = take i ys @ [ys ! i]" using assms by (simp add: take_Suc_conv_app_nth)
  then show ?thesis using True a b by (simp add: slots_after_def)
next
  case False
  then have "i + 1 = length xs" using assms(1) by simp
  then have i: "i = length xs - 1" "(i + 1) mod length xs = 0" by simp_all
  have b: "take i xs = take i ys" using assms by (intro nth_equalityI) auto
  obtain y ys' where ys: "ys = y # ys'" using assms by (cases ys) auto
  then have l: "length ys' = i" "0 < i" using i assms by auto
  then have "take i ys = y # take (i - 1) ys'" using ys by (cases i) auto
  moreover have "ys' = take (i - 1) ys' @ [ys' ! (i - 1)]"
    using l by (metis Suc_pred' lessI take_Suc_conv_app_nth take_all_iff order_refl)
  moreover have "ys ! i = ys' ! (i - 1)" using ys l by (cases i) auto
  ultimately show ?thesis using b ys i l assms by (simp add: slots_after_def)
qed

section \<open>The system\<close>

text \<open>The configurations of the batches in flight, oldest first.\<close>

definition in_flight :: "'f sched \<Rightarrow> 'f generation_config list list" where
  "in_flight s = map (\<lambda>b. map (gen_cfg s) (od_values b))
     (filter (\<lambda>b. b \<noteq> []) (slots_after (current_batch_idx s) (inflight_batches s)))"

text \<open>
  Answers already received and contexts still unanswered, together: the batches in flight, in order.
\<close>

definition wire_ok :: "'f generation_config list list \<Rightarrow> ('f, 'c) rank_state \<Rightarrow> bool" where
  "wire_ok flight rk \<longleftrightarrow>
     (\<exists>answered. flight = answered @ map g_generation_configs (ctx_outbox rk) \<and>
        list_all2 cfgs_fit answered (out_inbox rk))"

record 'f system_limits =
  max_len :: int
  ref_config :: "'f generation_config"
  hidden :: nat

definition accepted :: "'f system_limits \<Rightarrow> 'f inference_request \<Rightarrow> bool" where
  "accepted lim q \<longleftrightarrow> within (max_len lim) q \<and> config_like (ref_config lim) (generation_config q)"

text \<open>What the environment of the loop must provide: the bounds of the configuration, and the kernels.\<close>

definition env_ok :: "'f::linorder system_limits \<Rightarrow> ('f, 'c) inferencer_env \<Rightarrow> 'f sched \<Rightarrow> bool" where
  "env_ok lim env s \<longleftrightarrow>
     is_first_rank (pp_info_of env) \<and> pp_rank (pp_info_of env) = 0 \<and>
     pp_size (pp_info_of env) = int (length (inflight_batches s)) \<and>
     page s = page_size_of env \<and>
     limits_ok env (max_cache_blocks (kv_config (kvm s))) (token_cap s) \<and>
     0 \<le> token_cap s \<and> ceil_div (max_len lim) (page s) \<le> int (table_width env) \<and>
     rows_law env \<and> lib_shapes (sampler env) \<and> sampling_safe (sampler env) (ref_config lim)"

definition driver_inv :: "'f::linorder system_limits \<Rightarrow> ('f, 'c) inferencer_env \<Rightarrow> ('f, 'c) driver \<Rightarrow> bool" where
  "driver_inv lim env d \<longleftrightarrow>
     (let s = scheduler_of d; rk = rank_of d in
      loop_alive d \<and> sched_ready s \<and> small_slots (max_num_seqs (sconfig s)) s \<and> env_ok lim env s \<and>
      (\<forall>r\<in>live s \<union> set (request_queue s). accepted lim (store s r)) \<and>
      graph_fits env (hidden lim) (max_num_seqs (sconfig s)) (token_cap s) (graph_state rk) \<and>
      wire_ok (in_flight s) rk)"

lemma env_ok_cong:
  "sconfig s' = sconfig s \<Longrightarrow> kv_config (kvm s') = kv_config (kvm s) \<Longrightarrow>
    length (inflight_batches s') = length (inflight_batches s) \<Longrightarrow> env_ok lim env s' = env_ok lim env s"
  by (simp only: env_ok_def)

section \<open>A round keeps the invariant\<close>

lemma scheduled_batch_ok:
  assumes sp: "sched_planned s" and env: "env_ok lim env s" and sm: "small_slots (max_num_seqs (sconfig s)) s"
    and acc: "\<forall>r\<in>live s. accepted lim (store s r)"
    and i: "i < length (inflight_batches s)" and ne: "inflight_batches s ! i \<noteq> []"
  shows "batch_ok env (max_cache_blocks (kv_config (kvm s))) (max_num_seqs (sconfig s)) (token_cap s)
    (map (store s) (od_values (inflight_batches s ! i)))"
proof -
  let ?b = "inflight_batches s ! i"
  have C: "core {} s" using sp by (simp add: sched_planned_def)
  have idx: "idx_ok s" using C by (simp add: core_def)
  have slot: "slot_planned (sconfig s) (store s) (od_values ?b)"
    using all_slots_planned_iff [OF idx] sp i by (auto simp: sched_planned_def)
  have ps: "0 < page_size_of env" "page s = page_size_of env" using env by (auto simp: env_ok_def limits_ok_def)
  have "covered (page_size_of env) (max_cache_blocks (kv_config (kvm s))) (store s r) \<and> feedable (store s r)
      \<and> length (block_ids (store s r)) \<le> table_width env" if r: "r \<in> set (od_values ?b)" for r
  proof -
    have rl: "r \<in> live s" using r i by (auto simp: all_refs_def intro!: bexI [of _ ?b])
    have pl: "planned (store s r)" using slot r unfolding slot_planned_def by blast
    have hb: "holds_blocks (page_size_of env) (store s r)" using C rl ps(2) by (simp add: core_def)
    have lg: "kv.ledger (kvm s) (live s) (\<lambda>r. block_ids (store s r))" and kv: "kv_inv (kvm s)"
      using C by (simp_all add: core_def)
    have "set (block_ids (store s r)) \<subseteq> allocated_blocks (kvm s)" "distinct (block_ids (store s r))"
      using kv.ledger_member [OF lg rl] by simp_all
    moreover have "allocated_blocks (kvm s) \<subseteq> {0..<max_cache_blocks (kv_config (kvm s))}"
      using kv by (auto simp: kv_inv_def)
    moreover have "within (max_len lim) (store s r)" using acc rl by (simp add: accepted_def)
    moreover have "ceil_div (max_len lim) (page_size_of env) \<le> int (table_width env)"
      using env ps(2) by (simp add: env_ok_def)
    ultimately show ?thesis using planned_batch_member [OF pl hb ps(1)] by blast
  qed
  moreover have "int (length ?b) \<le> max_num_seqs (sconfig s)" using sm i by (simp add: small_slots_def)
  moreover have "sum_list (map tokens_this_step (map (store s) (od_values ?b))) \<le> token_cap s"
    using slot by (simp add: slot_planned_def step_tokens_def comp_def)
  ultimately show ?thesis using ne by (simp add: batch_ok_def)
qed

lemma cfgs_fit_output:
  "cfgs_fit (map (gen_cfg s) rs) out \<Longrightarrow> output_fits (gen_cfg s) rs out"
  by (auto simp: cfgs_fit_def output_fits_def)

lemma in_flight_cong:
  assumes "\<And>b r. b \<in> set (slots_after i bs) \<Longrightarrow> r \<in> set (od_values b) \<Longrightarrow> gen_cfg s r = gen_cfg s' r"
  shows "map (\<lambda>b. map (gen_cfg s) (od_values b)) (filter P (slots_after i bs)) =
    map (\<lambda>b. map (gen_cfg s') (od_values b)) (filter P (slots_after i bs))"
proof (rule map_cong [OF refl])
  fix b assume b: "b \<in> set (filter P (slots_after i bs))"
  show "map (gen_cfg s) (od_values b) = map (gen_cfg s') (od_values b)"
    by (rule map_cong [OF refl], rule assms [of b]) (use b in simp_all)
qed

lemma frame_slots_after:
  "frame s s' \<Longrightarrow> slots_after (current_batch_idx s') (inflight_batches s') =
    slots_after (current_batch_idx s) (inflight_batches s)"
  unfolding slots_after_def
  by (intro arg_cong2 [where f = "(@)"] nth_equalityI) (auto simp: frame_def)

lemma slots_after_outer: "b \<in> set (slots_after (current_batch_idx s) (inflight_batches s)) \<Longrightarrow>
    r \<in> set (od_values b) \<Longrightarrow> r \<in> set (outer s)"
  by (auto simp: slots_after_def outer_def)

lemma in_flight_frame:
  assumes "frame s s'"
  shows "in_flight s' = in_flight s"
  unfolding in_flight_def frame_slots_after [OF assms]
proof (rule in_flight_cong [symmetric])
  fix b r assume "b \<in> set (slots_after (current_batch_idx s) (inflight_batches s))" "r \<in> set (od_values b)"
  then have "r \<in> set (outer s)" by (rule slots_after_outer)
  then show "gen_cfg s r = gen_cfg s' r" using assms by (simp add: frame_def)
qed

lemma in_flight_scheduled:
  assumes i: "idx_ok s" and n: "1 < length (inflight_batches s)" and fx: "all_fixed s s'"
    and sch: "scheduled s (to_infer, to_update, s')"
  shows "\<exists>mid. in_flight s = (if to_update = [] then [] else [map (gen_cfg s') to_update]) @ mid \<and>
    in_flight s' = mid @ (if to_infer = [] then [] else [map (gen_cfg s') to_infer])"
proof -
  let ?i = "current_batch_idx s" and ?xs = "inflight_batches s" and ?ys = "inflight_batches s'"
  have S: "length ?ys = length ?xs" "current_batch_idx s' = (?i + 1) mod length ?xs"
    "to_infer = od_values (?ys ! ?i)" "to_update = od_values (?ys ! current_batch_idx s')"
    "\<And>j. j < length ?xs \<Longrightarrow> j \<noteq> ?i \<Longrightarrow> ?ys ! j = ?xs ! j"
    using sch by (auto simp: scheduled_def cur_def active_requests_def)
  obtain mid where m: "slots_after ?i ?xs = ?ys ! (current_batch_idx s') # mid"
    "slots_after (current_batch_idx s') ?ys = mid @ [?ys ! ?i]"
    using slots_after_rotate [of ?i ?xs ?ys] i n S by (auto simp: idx_ok_def)
  let ?f = "\<lambda>b. map (gen_cfg s') (od_values b)" and ?ne = "\<lambda>b. b \<noteq> []"
  have "in_flight s = map ?f (filter ?ne (slots_after ?i ?xs))"
    unfolding in_flight_def using fx by (intro in_flight_cong) (auto simp: all_fixed_def fixed_def)
  then have "in_flight s = (if to_update = [] then [] else [map (gen_cfg s') to_update]) @ map ?f (filter ?ne mid)"
    unfolding m S(4) by simp
  moreover have "in_flight s' = map ?f (filter ?ne mid) @ (if to_infer = [] then [] else [map (gen_cfg s') to_infer])"
    unfolding in_flight_def m(2) S(3) by simp
  ultimately show ?thesis by blast
qed

text \<open>What holds of the scheduler between the schedule and the update.\<close>

definition mid_round :: "'f::linorder system_limits \<Rightarrow> ('f, 'c) inferencer_env \<Rightarrow> 'f sched \<Rightarrow> bool" where
  "mid_round lim env s \<longleftrightarrow>
     sched_planned s \<and> small_slots (max_num_seqs (sconfig s)) s \<and> env_ok lim env s \<and>
     (\<forall>r\<in>live s \<union> set (request_queue s). accepted lim (store s r))"

lemma accepted_fixed: "fixed q q' \<Longrightarrow> accepted lim q' = accepted lim q"
  using within_fixed [of q q' "max_len lim"] by (simp add: accepted_def fixed_def)

lemma schedule_mid_round:
  assumes "driver_inv lim env d" "schedule fq (scheduler_of d) = Ok (a, b, s')"
  shows "scheduled (scheduler_of d) (a, b, s')" "mid_round lim env s'"
    "all_fixed (scheduler_of d) s'" "sconfig s' = sconfig (scheduler_of d)"
proof -
  let ?s = "scheduler_of d"
  have D: "sched_ready ?s" "small_slots (max_num_seqs (sconfig ?s)) ?s" "env_ok lim env ?s"
    "\<forall>r\<in>live ?s \<union> set (request_queue ?s). accepted lim (store ?s r)"
    using assms(1) by (simp_all add: driver_inv_def Let_def)
  show S: "scheduled ?s (a, b, s')"
    using schedule_scheduled [OF D(1), of fq] assms(2) by simp
  show fx: "all_fixed ?s s'" by (rule schedule_fixed [OF assms(2)])
  show sc: "sconfig s' = sconfig ?s" using S by (simp add: scheduled_def)
  have "small_slots (max_num_seqs (sconfig s')) s'" using schedule_small [OF assms(2) D(2)] sc by simp
  moreover have "env_ok lim env s'" using env_ok_cong [of s' ?s lim env] D(3) S by (simp add: scheduled_def)
  moreover have "live s' \<union> set (request_queue s') = live ?s \<union> set (request_queue ?s)"
    using S by (simp add: scheduled_def)
  then have "\<forall>r\<in>live s' \<union> set (request_queue s'). accepted lim (store s' r)"
    using D(4) fx accepted_fixed unfolding all_fixed_def by blast
  ultimately show "mid_round lim env s'" using S by (simp add: mid_round_def scheduled_def)
qed

lemma update_round:
  assumes m: "mid_round lim env s" and fit: "cfgs_fit (map (gen_cfg s) (cur s)) out"
  shows "\<exists>s'. update (cur s) out s = Ok s' \<and> sched_ready s' \<and> small_slots (max_num_seqs (sconfig s')) s' \<and>
    env_ok lim env s' \<and> (\<forall>r\<in>live s' \<union> set (request_queue s'). accepted lim (store s' r)) \<and>
    in_flight s' = in_flight s \<and> sconfig s' = sconfig s"
proof -
  have sp: "sched_planned s" and C: "core {} s"
    using m by (simp_all add: mid_round_def sched_planned_def)
  from update_Ok [OF sp cfgs_fit_output [OF fit]] obtain s' f where
    U: "update (cur s) out s = Ok s'" "sched_ready s'" "frame s s'" "request_queue s' = request_queue s"
      "set f \<inter> live s' = {}" "live s' \<union> set f = live s"
      "\<forall>(r, t)\<in>set (zip (cur s) (token_ids out)). token_step (store s r) t (store s' r)"
      "\<forall>x. x \<notin> set (cur s) \<longrightarrow> store s' x = store s x"
    by blast
  have sl: "small_slots (max_num_seqs (sconfig s)) s'" "sconfig s' = sconfig s"
    using update_small [OF U(1)] m by (auto simp: mid_round_def)
  have env: "env_ok lim env s'" using env_ok_cong [of s' s lim env] m U(3) by (simp add: mid_round_def frame_def)
  have C': "core {} s'" using U(2) by (simp add: sched_ready_def)
  have acc: "accepted lim (store s' r)" if r: "r \<in> live s' \<union> set (request_queue s')" for r
  proof -
    have a: "accepted lim (store s r)" using m r U(4,6) by (auto simp: mid_round_def)
    show ?thesis
    proof (cases "r \<in> set (cur s)")
      case False
      then show ?thesis using a U(8) by simp
    next
      case True
      then have "r \<in> live s" "r \<notin> set (outer s)" using core_cur [OF C] by auto
      moreover have "live s \<inter> set (request_queue s) = {}" using C by (simp add: core_def)
      ultimately have "r \<in> live s'" "r \<notin> set (outer s')" using r U(4) frame_outer [OF U(3)] by auto
      then have "r \<in> set (cur s')" using core_cur(4) [OF C'] by auto
      then have "status (store s' r) = RUNNING"
        using U(2) by (simp add: sched_ready_def slot_ready_def ready_def)
      moreover obtain t where "(r, t) \<in> set (zip (cur s) (token_ids out))"
      proof -
        have "length (token_ids out) = length (cur s)" using fit by (simp add: cfgs_fit_def)
        moreover obtain i where "i < length (cur s)" "cur s ! i = r" using True by (auto simp: in_set_conv_nth)
        ultimately show ?thesis using that [of "token_ids out ! i"] by (force simp: set_zip)
      qed
      then have "token_step (store s r) t (store s' r)" using U(7) by blast
      ultimately show ?thesis using within_token_step [of "store s r" t "store s' r" "max_len lim"] a
        by (auto simp: accepted_def)
    qed
  qed
  show ?thesis using U sl env acc in_flight_frame [OF U(3)] by auto
qed

definition waiting :: "('f, 'c) driver \<Rightarrow> bool" where
  "waiting d \<longleftrightarrow> out_inbox (rank_of d) = [] \<and> ctx_outbox (rank_of d) \<noteq> []"

text \<open>The invariant after the scheduler's part of a round, with the channels of the rank.\<close>

lemma mid_round_inv:
  assumes "sched_ready s" "mid_round lim env s \<or> small_slots (max_num_seqs (sconfig s)) s \<and> env_ok lim env s \<and>
      (\<forall>r\<in>live s \<union> set (request_queue s). accepted lim (store s r))"
    and "loop_alive d" "graph_fits env (hidden lim) (max_num_seqs (sconfig s)) (token_cap s) (graph_state rk)"
    and "wire_ok (in_flight s) rk"
  shows "driver_inv lim env (d\<lparr>scheduler_of := s, rank_of := rk\<rparr>)"
  using assms by (auto simp: driver_inv_def mid_round_def)

lemma mid_round_ready:
  assumes "mid_round lim env s" "cur s = []"
  shows "sched_ready s"
  using assms sched_planned_empty_ready [of s] by (simp add: mid_round_def env_ok_def)

lemma round_batch:
  assumes m: "mid_round lim env s" and i: "i < length (inflight_batches s)"
    and ne: "od_values (inflight_batches s ! i) \<noteq> []"
  shows "batch_ok env (max_cache_blocks (kv_config (kvm s))) (max_num_seqs (sconfig s)) (token_cap s)
    (map (store s) (od_values (inflight_batches s ! i)))"
    "\<forall>q\<in>set (map (store s) (od_values (inflight_batches s ! i))). config_like (ref_config lim) (generation_config q)"
proof -
  have M: "sched_planned s" "env_ok lim env s" "small_slots (max_num_seqs (sconfig s)) s"
    "\<forall>r\<in>live s. accepted lim (store s r)" using m by (simp_all add: mid_round_def)
  show "batch_ok env (max_cache_blocks (kv_config (kvm s))) (max_num_seqs (sconfig s)) (token_cap s)
      (map (store s) (od_values (inflight_batches s ! i)))"
    using scheduled_batch_ok [OF M i] ne by simp
  have "od_values (inflight_batches s ! i) \<in> set (map od_values (inflight_batches s))"
    using i by (metis length_map nth_map nth_mem)
  then have "set (od_values (inflight_batches s ! i)) \<subseteq> live s"
    unfolding all_refs_def set_concat by (rule UN_upper)
  then show "\<forall>q\<in>set (map (store s) (od_values (inflight_batches s ! i))). config_like (ref_config lim) (generation_config q)"
    using M(4) by (auto simp: accepted_def)
qed

lemma single_round:
  assumes inv: "driver_inv lim env d" and p: "pp_size (pp_info_of env) = 1"
    and sch: "schedule fq (scheduler_of d) = Ok (a, b, s)" and ne: "\<not> (a = [] \<and> b = [])"
  shows "\<exists>d'. rbind (infer env (map (store s) a) (b \<noteq> []) (rank_of d)) (\<lambda>(infer_result, rk).
      case infer_result of
        None \<Rightarrow> Ok (d\<lparr>scheduler_of := s, rank_of := rk\<rparr>)
      | Some out \<Rightarrow> rbind (update b out s) (\<lambda>s2. Ok (d\<lparr>scheduler_of := s2, rank_of := rk\<rparr>))) = Ok d' \<and>
    driver_inv lim env d'"
proof -
  note M = schedule_mid_round [OF inv sch]
  have E: "env_ok lim env s" using M(2) by (simp add: mid_round_def)
  then have p1: "is_first_rank (pp_info_of env)" "is_last_rank (pp_info_of env)" "length (inflight_batches s) = 1"
    "limits_ok env (max_cache_blocks (kv_config (kvm s))) (token_cap s)"
    "rows_law env" "lib_shapes (sampler env)" "sampling_safe (sampler env) (ref_config lim)"
    using p by (simp_all add: env_ok_def is_last_rank_def)
  let ?s0 = "scheduler_of d"
  have S0: "length (inflight_batches s) = length (inflight_batches ?s0)"
    "a = od_values (inflight_batches s ! current_batch_idx ?s0)"
    "b = cur s" "current_batch_idx s = (current_batch_idx ?s0 + 1) mod length (inflight_batches ?s0)"
    using M(1) by (simp_all add: scheduled_def)
  have "length (inflight_batches ?s0) = 1" using S0(1) p1(3) by simp
  note S = this S0(2-4)
  have "idx_ok ?s0" using inv by (simp add: driver_inv_def Let_def sched_ready_def core_def)
  then have i0: "current_batch_idx ?s0 = 0" using S(1) by (simp add: idx_ok_def)
  then have ab: "a = b" "current_batch_idx s = 0" using S by (simp_all add: cur_def active_requests_def)
  have ane: "od_values (inflight_batches s ! 0) \<noteq> []" using ne ab S(2) i0 by simp
  have len0: "0 < length (inflight_batches s)" using p1(3) by simp
  note B = round_batch [OF M(2) len0 ane]
  have gf: "graph_fits env (hidden lim) (max_num_seqs (sconfig s)) (token_cap s) (graph_state (rank_of d))"
    using inv M(4) by (simp add: driver_inv_def Let_def)
  have aeq: "a = od_values (inflight_batches s ! 0)" using S(2) i0 by simp
  obtain out rk where I: "infer env (map (store s) a) (b \<noteq> []) (rank_of d) = Ok (Some out, rk)"
    "cfgs_fit (map generation_config (map (store s) a)) out"
    "graph_fits env (hidden lim) (max_num_seqs (sconfig s)) (token_cap s) (graph_state rk)"
    "channels rk = channels (rank_of d)"
    using infer_single [OF p1(1,2) B(1) p1(4) gf p1(5-7) B(2), of "b \<noteq> []"] unfolding aeq by blast
  have fit: "cfgs_fit (map (gen_cfg s) (cur s)) out" using I(2) ab(1) S(3) by (simp add: comp_def)
  obtain s2 where U: "update (cur s) out s = Ok s2" "sched_ready s2"
    "small_slots (max_num_seqs (sconfig s2)) s2" "env_ok lim env s2"
    "\<forall>r\<in>live s2 \<union> set (request_queue s2). accepted lim (store s2 r)"
    "in_flight s2 = in_flight s" "sconfig s2 = sconfig s"
    using update_round [OF M(2) fit] by blast
  have nil: "in_flight u = []" if "length (inflight_batches u) = 1" "current_batch_idx u = 0" for u :: "'a sched"
    using that by (simp add: in_flight_def slots_after_def)
  have "wire_ok (in_flight ?s0) (rank_of d)" using inv by (simp add: driver_inv_def Let_def)
  then have "wire_ok (in_flight s2) rk"
    using nil [OF S(1) i0] nil [OF p1(3) ab(2)] U(6) I(4) by (simp add: wire_ok_def)
  then have "driver_inv lim env (d\<lparr>scheduler_of := s2, rank_of := rk\<rparr>)"
    using U I(3) inv by (intro mid_round_inv) (auto simp: driver_inv_def Let_def)
  then show ?thesis using I(1) U(1) S(3) by simp
qed

lemma multi_round:
  fixes d :: "('f::{linorder,zero}, 'c) driver"
  assumes inv: "driver_inv lim env d" and p: "1 < pp_size (pp_info_of env)"
    and sch: "schedule fq (scheduler_of d) = Ok (a, b, s)"
  shows "outcome (driver_inv lim env) (waiting d)
    (rbind (infer env (map (store s) a) (b \<noteq> []) (rank_of d)) (\<lambda>(infer_result, rk).
      case infer_result of
        None \<Rightarrow> Ok (d\<lparr>scheduler_of := s, rank_of := rk\<rparr>)
      | Some out \<Rightarrow> rbind (update b out s) (\<lambda>s2. Ok (d\<lparr>scheduler_of := s2, rank_of := rk\<rparr>))))"
proof -
  note M = schedule_mid_round [OF inv sch]
  let ?s0 = "scheduler_of d" and ?rk = "rank_of d"
  have E: "env_ok lim env s" using M(2) by (simp add: mid_round_def)
  then have P: "is_first_rank (pp_info_of env)" "\<not> is_last_rank (pp_info_of env)"
    "1 < length (inflight_batches s)" "limits_ok env (max_cache_blocks (kv_config (kvm s))) (token_cap s)"
    using p by (simp_all add: env_ok_def is_last_rank_def)
  have D: "idx_ok ?s0" "wire_ok (in_flight ?s0) ?rk" "loop_alive d"
    "graph_fits env (hidden lim) (max_num_seqs (sconfig s)) (token_cap s) (graph_state ?rk)"
    using inv M(4) by (simp_all add: driver_inv_def Let_def sched_ready_def core_def)
  have S: "length (inflight_batches ?s0) = length (inflight_batches s)"
    "a = od_values (inflight_batches s ! current_batch_idx ?s0)" "b = cur s"
    using M(1) by (simp_all add: scheduled_def)
  obtain mid where mid: "in_flight ?s0 = (if b = [] then [] else [map (gen_cfg s) b]) @ mid"
    "in_flight s = mid @ (if a = [] then [] else [map (gen_cfg s) a])"
    using in_flight_scheduled [OF D(1) _ M(3,1)] P(3) S(1) by auto
  obtain answered where w: "in_flight ?s0 = answered @ map g_generation_configs (ctx_outbox ?rk)"
    "list_all2 cfgs_fit answered (out_inbox ?rk)" using D(2) by (auto simp: wire_ok_def)
  have bo: "batch_ok env (max_cache_blocks (kv_config (kvm s))) (max_num_seqs (sconfig s)) (token_cap s) (map (store s) a)"
    if "map (store s) a \<noteq> []"
    using that round_batch(1) [OF M(2), of "current_batch_idx ?s0"] D(1) S by (simp add: idx_ok_def)
  let ?post = "\<lambda>(final, st' :: ('f, 'c) rank_state).
      (if b \<noteq> [] then \<exists>out. out_inbox ?rk = out # out_inbox st' \<and> final = Some out
       else final = None \<and> out_inbox st' = out_inbox ?rk) \<and>
      (if map (store s) a = [] then ctx_outbox st' = ctx_outbox ?rk
       else \<exists>g. ctx_outbox st' = ctx_outbox ?rk @ [g] \<and> g_generation_configs g = map generation_config (map (store s) a)) \<and>
      graph_fits env (hidden lim) (max_num_seqs (sconfig s)) (token_cap s) (graph_state st')"
  have inf: "outcome ?post (b \<noteq> [] \<and> out_inbox ?rk = []) (infer env (map (store s) a) (b \<noteq> []) ?rk)"
    using infer_first_Ok [OF P(1,2) p bo P(4) D(4), of "b \<noteq> []"] by blast
  have wait: "waiting d" if "b \<noteq> []" "out_inbox ?rk = []"
    using that w mid(1) by (auto simp: waiting_def)
  have inf': "outcome ?post (waiting d) (infer env (map (store s) a) (b \<noteq> []) ?rk)"
  proof (rule outcomeI)
    show "infer env (map (store s) a) (b \<noteq> []) ?rk \<noteq> Raise e" for e using inf by auto
    show "waiting d" if "infer env (map (store s) a) (b \<noteq> []) ?rk = Hang" using inf that wait by simp
    show "?post x" if "infer env (map (store s) a) (b \<noteq> []) ?rk = Ok x" for x
      using inf unfolding that outcome_simps .
  qed
  show ?thesis
  proof (rule outcome_bind [OF inf'], clarify)
    fix final and rk :: "('f, 'c) rank_state"
    assume ib: "if b \<noteq> [] then \<exists>out. out_inbox ?rk = out # out_inbox rk \<and> final = Some out
        else final = None \<and> out_inbox rk = out_inbox ?rk"
      and ob: "if map (store s) a = [] then ctx_outbox rk = ctx_outbox ?rk
       else \<exists>g. ctx_outbox rk = ctx_outbox ?rk @ [g] \<and> g_generation_configs g = map generation_config (map (store s) a)"
      and gf: "graph_fits env (hidden lim) (max_num_seqs (sconfig s)) (token_cap s) (graph_state rk)"
    have obm: "map g_generation_configs (ctx_outbox rk) = map g_generation_configs (ctx_outbox ?rk) @
        (if a = [] then [] else [map (gen_cfg s) a])"
      using ob by (auto simp: comp_def split: if_splits)
    show "outcome (driver_inv lim env) (waiting d)
      (case final of None \<Rightarrow> Ok (d\<lparr>scheduler_of := s, rank_of := rk\<rparr>)
       | Some out \<Rightarrow> rbind (update b out s) (\<lambda>s2. Ok (d\<lparr>scheduler_of := s2, rank_of := rk\<rparr>)))"
    proof (cases "b = []")
      case True
      then have f: "final = None" "out_inbox rk = out_inbox ?rk" using ib by simp_all
      have "wire_ok (in_flight s) rk"
        using w mid True f(2) obm by (auto simp: wire_ok_def intro!: exI [of _ answered])
      moreover have "sched_ready s" using mid_round_ready [OF M(2)] True S(3) by simp
      ultimately show ?thesis using f(1) M(2) D(3) gf mid_round_inv [of s lim env d rk] by simp
    next
      case False
      then obtain out where o: "out_inbox ?rk = out # out_inbox rk" "final = Some out" using ib by auto
      obtain answered' where a': "answered = map (gen_cfg s) b # answered'"
        using w mid(1) o(1) False by (cases answered) auto
      have fit: "cfgs_fit (map (gen_cfg s) (cur s)) out" "list_all2 cfgs_fit answered' (out_inbox rk)"
        using w(2) a' o(1) S(3) by simp_all
      obtain s2 where U: "update (cur s) out s = Ok s2" "sched_ready s2"
        "small_slots (max_num_seqs (sconfig s2)) s2" "env_ok lim env s2"
        "\<forall>r\<in>live s2 \<union> set (request_queue s2). accepted lim (store s2 r)"
        "in_flight s2 = in_flight s" "sconfig s2 = sconfig s"
        using update_round [OF M(2) fit(1)] by blast
      have "in_flight s = answered' @ map g_generation_configs (ctx_outbox rk)"
        using w(1) mid a' False obm by simp
      then have "wire_ok (in_flight s2) rk" using U(6) fit(2) by (auto simp: wire_ok_def)
      then have "driver_inv lim env (d\<lparr>scheduler_of := s2, rank_of := rk\<rparr>)"
        using U gf D(3) by (intro mid_round_inv) auto
      then show ?thesis using U(1) o(2) S(3) by simp
    qed
  qed
qed

text \<open>
  Every round of the loop: no exception, the invariant again, and blocking only while an answer of
  the pipeline is outstanding or the queue of the scheduler is bounded.
\<close>

lemma generation_round_outcome:
  assumes inv: "driver_inv lim env d"
  shows "outcome (driver_inv lim env) (bounded (scheduler_of d) \<or> waiting d) (generation_round env fq d)"
proof -
  let ?s0 = "scheduler_of d"
  have D: "sched_ready ?s0" "env_ok lim env ?s0" "idx_ok ?s0"
    using inv by (simp_all add: driver_inv_def Let_def sched_ready_def core_def)
  have psz: "1 \<le> pp_size (pp_info_of env)" using D(2,3) by (simp add: env_ok_def idx_ok_def)
  have sch: "outcome (\<lambda>x. schedule fq ?s0 = Ok x) (bounded ?s0 \<or> waiting d) (schedule fq ?s0)"
    using schedule_scheduled [OF D(1), of fq] by (cases "schedule fq ?s0") auto
  show ?thesis
    unfolding generation_round_def
  proof (rule outcome_bind [OF sch], clarify)
    fix a b s assume s: "schedule fq ?s0 = Ok (a, b, s)"
    note M = schedule_mid_round [OF inv s]
    show "outcome (driver_inv lim env) (bounded ?s0 \<or> waiting d)
      (if a = [] \<and> b = [] then Ok (d\<lparr>scheduler_of := s\<rparr>)
       else rbind (infer env (map (store s) a) (b \<noteq> []) (rank_of d)) (\<lambda>(infer_result, rk).
          case infer_result of None \<Rightarrow> Ok (d\<lparr>scheduler_of := s, rank_of := rk\<rparr>)
          | Some out \<Rightarrow> rbind (update b out s) (\<lambda>s2. Ok (d\<lparr>scheduler_of := s2, rank_of := rk\<rparr>))))"
    proof (cases "a = [] \<and> b = []")
      case True
      have S: "b = cur s" "length (inflight_batches s) = length (inflight_batches ?s0)"
        using M(1) by (simp_all add: scheduled_def)
      have fl: "in_flight s = in_flight ?s0"
      proof (cases "1 < length (inflight_batches ?s0)")
        case m: True
        show ?thesis using in_flight_scheduled [OF D(3) m M(3,1)] True by auto
      next
        case False
        then have l: "length (inflight_batches ?s0) = 1" using D(3) by (simp add: idx_ok_def)
        then have "current_batch_idx ?s0 = 0" "current_batch_idx s = 0"
          using D(3) M(1) by (simp_all add: idx_ok_def scheduled_def)
        then show ?thesis using l S(2) by (simp add: in_flight_def slots_after_def)
      qed
      have "sched_ready s" using mid_round_ready [OF M(2)] True S(1) by simp
      then have "driver_inv lim env (d\<lparr>scheduler_of := s, rank_of := rank_of d\<rparr>)"
        using inv M fl by (intro mid_round_inv) (auto simp: driver_inv_def Let_def)
      moreover have "d\<lparr>scheduler_of := s, rank_of := rank_of d\<rparr> = d\<lparr>scheduler_of := s\<rparr>" by (cases d) simp
      ultimately show ?thesis using True by simp
    next
      case ne: False
      show ?thesis
      proof (cases "pp_size (pp_info_of env) = 1")
        case True
        then show ?thesis using single_round [OF inv True s ne] ne by auto
      next
        case False
        then have "1 < pp_size (pp_info_of env)" using psz by simp
        from multi_round [OF inv this s] show ?thesis
          unfolding if_not_P [OF ne] by (rule outcome_weaken) simp
      qed
    qed
  qed
qed

end
