(* ===== verification/System.thy ===== *)
theory System
  imports Driver_Worker
begin

text \<open>
  The driver among its environment, as a step relation: clients submit fresh requests and poll
  results, the loop runs rounds, the later pipeline ranks answer the oldest unanswered context. Every
  reachable state satisfies the invariant of the driver; the safety and progress properties follow.
\<close>

section \<open>Steps\<close>

text \<open>
  What clients are taken to submit: a prompt, a limit of new tokens with which the sequence fits the model's length, and
  a configuration like the others' (the same sampling switch and score outputs). The code accepts other requests too, and
  the loop may then end in an exception: \<open>_select_tokens\<close> asserts that a batch samples uniformly, and a sequence beyond
  the limit overflows its block table. So \<open>admissible\<close> is the contract of the clients, and the theorems about reachable
  states hold where it is kept.
\<close>

definition admissible :: "'f system_limits \<Rightarrow> 'f inference_request \<Rightarrow> bool" where
  "admissible lim q \<longleftrightarrow>
     input_ids_list q \<noteq> [] \<and> original_prompt_len q \<le> max_len lim \<and>
     (case max_new_tokens (generation_config q) of
        None \<Rightarrow> False
      | Some m \<Rightarrow> original_prompt_len q + m - 1 \<le> max_len lim) \<and>
     config_like (ref_config lim) (generation_config q)"

definition busy_refs :: "'f sched \<Rightarrow> ref set" where
  "busy_refs s = live s \<union> set (request_queue s)"

text \<open>An answer of the later ranks: the last one selected tokens for the configurations of the context.\<close>

definition answers :: "('f::linorder, 'c) inferencer_env \<Rightarrow> 'f generation_context \<Rightarrow> 'f inferencer_output \<Rightarrow> bool" where
  "answers env g out \<longleftrightarrow>
     (\<exists>g' outputs. g_generation_configs g' = g_generation_configs g \<and>
        length (g_query_start_loc g') = Suc (length (g_generation_configs g)) \<and>
        enough_rows env g' outputs \<and> select_tokens env g' outputs = Ok out)"

inductive sys_step ::
    "'f::{linorder,zero} system_limits \<Rightarrow> ('f, 'c) inferencer_env \<Rightarrow> (int \<Rightarrow> int \<Rightarrow> int \<Rightarrow> int)
       \<Rightarrow> ('f, 'c) driver \<Rightarrow> ('f, 'c) driver \<Rightarrow> bool"
  for lim env fq where
  submit: "make_request k gc (Some ids) = Ok q \<Longrightarrow> admissible lim q \<Longrightarrow>
      r \<notin> busy_refs (scheduler_of d) \<Longrightarrow> r \<notin> set (concat (result_queue (scheduler_of d))) \<Longrightarrow>
      request_id q \<notin> rid (scheduler_of d) ` busy_refs (scheduler_of d) \<Longrightarrow>
      driver_submit r q d = (ok, d') \<Longrightarrow> sys_step lim env fq d d'"
| poll: "driver_poll True d = Ok (rs, d') \<Longrightarrow> sys_step lim env fq d d'"
| loop: "loop_step env fq d = Some d' \<Longrightarrow> sys_step lim env fq d d'"
| answer: "ctx_outbox (rank_of d) = g # rest \<Longrightarrow> answers env g out \<Longrightarrow>
      d' = d\<lparr>rank_of := (rank_of d)\<lparr>ctx_outbox := rest, out_inbox := out_inbox (rank_of d) @ [out]\<rparr>\<rparr> \<Longrightarrow>
      sys_step lim env fq d d'"

inductive reachable ::
    "'f::{linorder,zero} system_limits \<Rightarrow> ('f, 'c) inferencer_env \<Rightarrow> (int \<Rightarrow> int \<Rightarrow> int \<Rightarrow> int)
       \<Rightarrow> ('f, 'c) driver \<Rightarrow> ('f, 'c) driver \<Rightarrow> bool"
  for lim env fq d0 where
  start: "reachable lim env fq d0 d0"
| step: "reachable lim env fq d0 d \<Longrightarrow> sys_step lim env fq d d' \<Longrightarrow> reachable lim env fq d0 d'"

inductive_cases sys_stepE: "sys_step lim env fq d d'"

section \<open>The initial state\<close>

definition config_ok ::
    "'f::linorder system_limits \<Rightarrow> ('f, 'c) inferencer_env \<Rightarrow> scheduler_config \<Rightarrow> cache_config \<Rightarrow> 'f graph_mgr option \<Rightarrow> bool" where
  "config_ok lim env sc cc gm \<longleftrightarrow>
     pp_rank (pp_info_of env) = 0 \<and> 1 \<le> pp_size (pp_info_of env) \<and>
     page_size cc = page_size_of env \<and>
     limits_ok env (max_cache_blocks cc) (max_num_batched_tokens sc) \<and>
     0 \<le> max_num_batched_tokens sc \<and> 0 \<le> max_num_seqs sc \<and>
     ceil_div (max_len lim) (page_size cc) \<le> int (table_width env) \<and>
     rows_law env \<and> lib_shapes (sampler env) \<and> sampling_safe (sampler env) (ref_config lim) \<and>
     graph_fits env (hidden lim) (max_num_seqs sc) (max_num_batched_tokens sc) gm"

lemma init_driver_inv:
  assumes "config_ok lim env sc cc gm"
  shows "driver_inv lim env (init_driver sc cc (pp_info_of env) objs gm)"
proof -
  let ?s = "init_sched sc (kv_init cc) (pp_info_of env) objs"
  let ?n = "nat (pp_size (pp_info_of env))"
  have pos: "0 < ?n" "0 < page_size cc" using assms by (simp_all add: config_ok_def limits_ok_def)
  have f: "inflight_batches ?s = replicate ?n []" "current_batch_idx ?s = 0" "request_queue ?s = []"
    "kvm ?s = kv_init cc" "sconfig ?s = sc"
    by (simp_all add: init_sched_def)
  have kc: "kv_config (kv_init cc) = cc" "allocated_blocks (kv_init cc) = {}" by (simp_all add: kv_init_def)
  have nil: "all_refs ?s = []" "cur ?s = []" using pos by (simp_all add: all_refs_def cur_def active_requests_def f)
  have idx: "idx_ok ?s" using pos by (simp add: idx_ok_def f)
  have "core {} ?s"
    using idx nil kv_inv_init [OF pos(2)] pos
    by (simp add: core_def f keys_ok_def kv.ledger_def kc)
  moreover have "slot_planned sc (store ?s) []" "slot_ready sc (store ?s) []"
    using assms by (simp_all add: slot_planned_def slot_ready_def front_ok_def step_tokens_def config_ok_def)
  then have "others_planned ?s" "slot_ready (sconfig ?s) (store ?s) (cur ?s)"
    using nil(2) by (auto simp: others_planned_def f)
  ultimately have "sched_ready ?s" by (simp add: sched_ready_def)
  moreover have "small_slots (max_num_seqs sc) ?s" using assms by (simp add: small_slots_def f config_ok_def)
  moreover have "env_ok lim env ?s"
    using assms by (auto simp: env_ok_def f config_ok_def is_first_rank_def kc)
  moreover have "in_flight ?s = []" by (auto simp: in_flight_def slots_after_def f filter_empty_conv)
  ultimately show ?thesis
    using assms nil by (simp add: driver_inv_def init_driver_def f config_ok_def wire_ok_def)
qed

section \<open>Every step keeps the invariant\<close>

text \<open>The result queue and the counters play no part in the invariant.\<close>

definition same_work :: "'f sched \<Rightarrow> 'f sched \<Rightarrow> bool" where
  "same_work s s' \<longleftrightarrow>
     store s' = store s \<and> sconfig s' = sconfig s \<and> kvm s' = kvm s \<and> request_queue s' = request_queue s \<and>
     inflight_batches s' = inflight_batches s \<and> current_batch_idx s' = current_batch_idx s"

lemma same_work_cong:
  assumes "same_work s s'"
  shows "sched_ready s' = sched_ready s" "frame t s' = frame t s" "in_flight s' = in_flight s"
    "live s' = live s" "env_ok lim env s' = env_ok lim env s"
  using assms
  by (simp_all only: same_work_def sched_ready_def core_def others_planned_def keys_ok_def idx_ok_def
      all_refs_def cur_def active_requests_def frame_def outer_def in_flight_def env_ok_def)

lemma upd_unused_ready:
  assumes s: "sched_ready s" and r: "r \<notin> busy_refs s"
  shows "sched_ready (upd_obj r f s)" "frame s (upd_obj r f s)"
proof -
  let ?s = "upd_obj r f s"
  have C: "core {} s" using s by (simp add: sched_ready_def)
  have idx: "idx_ok s" using C by (simp add: core_def)
  have nl: "r \<notin> live s" "r \<notin> set (request_queue s)" using r by (simp_all add: busy_refs_def)
  then have no: "r \<notin> set (outer s)" "r \<notin> set (cur s)" using live_split [OF idx] by auto
  have same: "store ?s x = store s x" if "x \<noteq> r" for x using that by simp
  show fr: "frame s ?s" using no(1) by (auto simp: frame_def)
  have k: "keys_ok ?s"
    unfolding keys_ok_def
  proof (intro ballI)
    fix b e assume b: "b \<in> set (inflight_batches ?s)" "e \<in> set b"
    then have "(case e of (k, x) \<Rightarrow> k = rid s x)" using core_keys_ok [OF C] by (simp add: keys_ok_def)
    moreover have "snd e \<in> live s"
      unfolding all_refs_def set_concat by (rule UN_I [of "od_values b"]) (use b in simp_all)
    ultimately show "case e of (k, x) \<Rightarrow> k = rid ?s x" using nl(1) by (auto split: prod.splits)
  qed
  have lg: "kv.ledger (kvm s) (live s) (\<lambda>x. block_ids (store s x))"
    and hb: "\<And>x. x \<in> live s \<Longrightarrow> holds_blocks (page s) (store s x)"
    and qd: "\<And>x. x \<in> set (request_queue s) \<Longrightarrow> queued (store s x)"
    using C by (simp_all add: core_def)
  have ne: "x \<noteq> r" if "x \<in> live s \<or> x \<in> set (request_queue s)" for x using that nl by blast
  have "inj_on (rid ?s) (live s \<union> set (request_queue s)) = inj_on (rid s) (live s \<union> set (request_queue s))"
    using nl by (intro inj_on_cong) auto
  moreover have "kv.ledger (kvm s) (live s) (\<lambda>x. block_ids (store ?s x))"
    by (rule kv.ledger_cong [OF lg]) (simp add: same ne)
  moreover have "\<forall>x\<in>live s. holds_blocks (page s) (store ?s x)" using hb same ne by simp
  moreover have "\<forall>x\<in>set (request_queue s). queued (store ?s x)" using qd same ne by simp
  ultimately have "core {} ?s" using C k by (simp add: core_def)
  moreover have "others_planned ?s" using frame_others_planned [OF idx fr] s by (simp add: sched_ready_def)
  moreover have "slot_ready (sconfig ?s) (store ?s) (cur ?s)"
  proof -
    have "front_ok (chunked s) (store ?s) (cur s)"
    proof (rule front_ok_mono [of "chunked s" "store s"])
      show "front_ok (chunked s) (store s) (cur s)" using s by (simp add: sched_ready_def slot_ready_def)
      show "prefill_done (store ?s x)" if "x \<in> set (cur s)" "prefill_done (store s x)" for x
        using that no(2) by auto
    qed
    then show ?thesis using s no(2) by (auto simp: sched_ready_def slot_ready_def)
  qed
  ultimately show "sched_ready ?s" by (simp add: sched_ready_def)
qed

lemma admissible_accepted:
  assumes "make_request k gc (Some ids) = Ok q" "admissible lim q"
  shows "accepted lim q" "queued q"
proof -
  have q: "generated_tokens q = []" "block_ids q = []" "num_computed_tokens q = 0" "status q = PENDING"
    "input_ids_list q = ids" "original_prompt_len q = int (length ids)"
    using assms(1) by (auto simp: make_request_def)
  show "accepted lim q"
    using assms(2) q by (auto simp: accepted_def admissible_def within_def split: option.splits)
  have ne: "ids \<noteq> []" using assms(2) q by (simp add: admissible_def)
  then show "queued q"
    using assms make_request_folded [OF assms(1) ne] q
    by (auto simp: queued_def req_ok_def synced_def admissible_def split: option.splits)
qed

lemma submit_keeps_inv:
  assumes inv: "driver_inv lim env d" and q: "make_request k gc (Some ids) = Ok q" "admissible lim q"
    and r: "r \<notin> busy_refs (scheduler_of d)"
    and id: "request_id q \<notin> rid (scheduler_of d) ` busy_refs (scheduler_of d)"
    and sub: "driver_submit r q d = (ok, d')"
  shows "driver_inv lim env d'"
proof -
  let ?s = "scheduler_of d"
  let ?s1 = "upd_obj r (\<lambda>_. q) ?s"
  note A = admissible_accepted [OF q]
  have R: "sched_ready ?s" using inv by (simp add: driver_inv_def Let_def)
  note U = upd_unused_ready [OF R r]
  have nl: "r \<notin> live ?s" "r \<notin> set (request_queue ?s)" using r by (simp_all add: busy_refs_def)
  have C: "core {} ?s1" using U(1) [of "\<lambda>_. q"] by (simp add: sched_ready_def)
  obtain s2 where s2: "submit_request r ?s1 = (ok, s2)" "d' = d\<lparr>scheduler_of := s2\<rparr>"
    using sub by (auto simp: driver_submit_def split: prod.splits)
  have "sched_ready s2 \<and> frame ?s s2 \<and> live s2 = live ?s \<and>
      (\<forall>x\<in>live ?s \<union> set (request_queue s2). accepted lim (store s2 x)) \<and>
      inflight_batches s2 = inflight_batches ?s"
  proof (cases "queue_is_full ?s1")
    case True
    then have eq: "s2 = (upd_obj r fail ?s1)\<lparr>result_queue := result_queue ?s1 @ [[r]]\<rparr>"
      using s2(1) by (simp add: submit_request_def)
    have uu: "upd_obj r fail ?s1 = upd_obj r (\<lambda>_. fail q) ?s" by (simp add: upd_obj_def)
    have "sched_ready (upd_obj r (\<lambda>_. fail q) ?s)" "frame ?s (upd_obj r (\<lambda>_. fail q) ?s)" using U by blast+
    moreover have "same_work (upd_obj r (\<lambda>_. fail q) ?s) s2"
      unfolding eq uu by (simp add: same_work_def)
    ultimately have "sched_ready s2" "frame ?s s2" by (simp_all only: same_work_cong)
    moreover have "accepted lim (store s2 x)" if "x \<in> live ?s \<union> set (request_queue ?s)" for x
      using that nl inv unfolding eq by (auto simp: driver_inv_def Let_def)
    ultimately show ?thesis unfolding eq by auto
  next
    case False
    then have eq: "s2 = ?s1\<lparr>request_queue := request_queue ?s1 @ [r], total_requests := total_requests ?s1 + 1\<rparr>"
      using s2(1) by (simp add: submit_request_def)
    let ?s3 = "?s1\<lparr>request_queue := request_queue ?s1 @ [r]\<rparr>"
    have ids: "rid ?s1 r \<notin> rid ?s1 ` (live ?s1 \<union> set (request_queue ?s1))"
    proof -
      have "rid ?s1 ` (live ?s \<union> set (request_queue ?s)) = rid ?s ` (live ?s \<union> set (request_queue ?s))"
        using nl by (intro image_cong) auto
      then show ?thesis using id by (simp add: busy_refs_def)
    qed
    have E: "core {} ?s3" "frame ?s1 ?s3"
      using core_enqueue [OF C, of r] nl A(2) ids by simp_all
    have "sched_ready ?s3"
      unfolding sched_ready_def
    proof (intro conjI)
      show "core {} ?s3" by (rule E(1))
      show "others_planned ?s3"
        using U(1) [of "\<lambda>_. q"] C by (intro frame_others_planned [OF _ E(2)]) (simp_all add: sched_ready_def core_def)
      show "slot_ready (sconfig ?s3) (store ?s3) (cur ?s3)"
        using U(1) [of "\<lambda>_. q"] by (simp add: sched_ready_def)
    qed
    moreover have "same_work ?s3 s2" unfolding eq by (simp add: same_work_def)
    ultimately have "sched_ready s2" by (simp only: same_work_cong)
    moreover have "frame ?s s2" using U(2) [of "\<lambda>_. q"] unfolding eq by (simp add: frame_def)
    moreover have "accepted lim (store s2 x)" if "x \<in> live ?s \<union> set (request_queue s2)" for x
      using that nl inv A(1) unfolding eq by (auto simp: driver_inv_def Let_def)
    ultimately show ?thesis unfolding eq by (auto simp: all_refs_def)
  qed
  then show ?thesis
    using inv in_flight_frame [of ?s s2] env_ok_cong [of s2 ?s lim env]
    by (auto simp: driver_inv_def Let_def s2(2) frame_def small_slots_def)
qed

lemma poll_keeps_inv:
  assumes inv: "driver_inv lim env d" and p: "driver_poll b d = Ok (rs, d')"
  shows "driver_inv lim env d'"
proof -
  obtain s where s: "poll_results b (scheduler_of d) = Ok (rs, s)" "d' = d\<lparr>scheduler_of := s\<rparr>"
    using p by (auto simp: driver_poll_def)
  have w: "same_work (scheduler_of d) s"
    using s(1) by (auto simp: poll_results_def same_work_def split: list.splits if_splits)
  show ?thesis
    using inv same_work_cong(1,3,4) [OF w] same_work_cong(5) [OF w, of lim env] w
    by (simp add: driver_inv_def Let_def s(2) same_work_def small_slots_def)
qed

lemma answer_keeps_inv:
  assumes inv: "driver_inv lim env d" and c: "ctx_outbox (rank_of d) = g # rest" and a: "answers env g out"
    and d': "d' = d\<lparr>rank_of := (rank_of d)\<lparr>ctx_outbox := rest, out_inbox := out_inbox (rank_of d) @ [out]\<rparr>\<rparr>"
  shows "driver_inv lim env d'"
proof -
  let ?s = "scheduler_of d"
  have D: "wire_ok (in_flight ?s) (rank_of d)" "lib_shapes (sampler env)" "core {} ?s"
    "\<forall>r\<in>live ?s. accepted lim (store ?s r)"
    using inv by (simp_all add: driver_inv_def Let_def env_ok_def sched_ready_def)
  obtain answered where w: "in_flight ?s = answered @ g_generation_configs g # map g_generation_configs rest"
    "list_all2 cfgs_fit answered (out_inbox (rank_of d))"
    using D(1) c by (auto simp: wire_ok_def)
  have "g_generation_configs g \<in> set (in_flight ?s)" using w(1) by simp
  then obtain b where b: "b \<in> set (slots_after (current_batch_idx ?s) (inflight_batches ?s))"
    "g_generation_configs g = map (gen_cfg ?s) (od_values b)"
    by (auto simp: in_flight_def)
  have idx: "idx_ok ?s" using D(3) by (simp add: core_def)
  have "r \<in> live ?s" if "r \<in> set (od_values b)" for r
    using slots_after_outer [OF b(1) that] live_split [OF idx] by simp
  then have like: "\<forall>c\<in>set (g_generation_configs g). config_like (ref_config lim) c"
    using D(4) b(2) by (auto simp: accepted_def)
  obtain g' outputs where g': "g_generation_configs g' = g_generation_configs g"
    "length (g_query_start_loc g') = Suc (length (g_generation_configs g'))"
    "enough_rows env g' outputs" "select_tokens env g' outputs = Ok out"
    using a by (auto simp: answers_def)
  have "cfgs_fit (g_generation_configs g) out"
    using select_tokens_fit [OF g'(4) D(2) _ g'(2,3), of "ref_config lim"] like by (simp add: g'(1))
  then have "wire_ok (in_flight ?s) ((rank_of d)\<lparr>ctx_outbox := rest, out_inbox := out_inbox (rank_of d) @ [out]\<rparr>)"
    using w by (auto simp: wire_ok_def intro!: exI [of _ "answered @ [g_generation_configs g]"] list_all2_appendI)
  then show ?thesis using inv by (simp add: driver_inv_def Let_def d')
qed

lemma loop_keeps_inv:
  assumes "driver_inv lim env d" "loop_step env fq d = Some d'"
  shows "driver_inv lim env d'"
proof (cases "generation_round env fq d")
  case (Ok d2)
  then have "d' = d2" using assms(2) by (auto simp: loop_step_def split: if_splits)
  then show ?thesis using generation_round_outcome [OF assms(1), of fq] Ok by simp
next
  case (Raise e)
  then show ?thesis using generation_round_outcome [OF assms(1), of fq] by simp
next
  case Hang
  then show ?thesis using assms(2) by (simp add: loop_step_def split: if_splits)
qed

lemma sys_step_keeps_inv: "sys_step lim env fq d d' \<Longrightarrow> driver_inv lim env d \<Longrightarrow> driver_inv lim env d'"
  by (erule sys_stepE)
    (blast intro: submit_keeps_inv poll_keeps_inv answer_keeps_inv loop_keeps_inv)+

lemma reachable_keeps_inv: "reachable lim env fq d0 d \<Longrightarrow> driver_inv lim env d0 \<Longrightarrow> driver_inv lim env d"
  by (induction rule: reachable.induct) (auto intro: sys_step_keeps_inv)

section \<open>Consequences of the invariant\<close>

lemma inv_blocks:
  assumes "driver_inv lim env d" "s = scheduler_of d"
  shows "kv_inv (kvm s)" "kv.ledger (kvm s) (live s) (\<lambda>r. block_ids (store s r))"
    "\<forall>r\<in>set (request_queue s). block_ids (store s r) = []"
    "num_allocated_blocks (kvm s) = sum_list (map (\<lambda>r. int (length (block_ids (store s r)))) (all_refs s))"
proof -
  have C: "core {} s" using assms by (simp add: driver_inv_def Let_def sched_ready_def)
  show kv: "kv_inv (kvm s)" and lg: "kv.ledger (kvm s) (live s) (\<lambda>r. block_ids (store s r))"
    using C by (simp_all add: core_def)
  show "\<forall>r\<in>set (request_queue s). block_ids (store s r) = []" using C by (simp add: core_def queued_def)
  have d: "distinct (all_refs s)" using C by (simp add: core_def)
  have "card (allocated_blocks (kvm s)) = card (\<Union>r\<in>live s. set (block_ids (store s r)))"
    using lg by (simp add: kv.ledger_def)
  also have "\<dots> = (\<Sum>r\<in>live s. card (set (block_ids (store s r))))"
    using lg by (intro card_UN_disjoint) (auto simp: kv.ledger_def)
  also have "\<dots> = (\<Sum>r\<in>live s. length (block_ids (store s r)))"
    using lg by (intro sum.cong) (auto simp: kv.ledger_def distinct_card)
  finally have "int (card (allocated_blocks (kvm s))) = int (sum_list (map (\<lambda>r. length (block_ids (store s r))) (all_refs s)))"
    using d by (simp add: sum_list_distinct_conv_sum_set)
  then show "num_allocated_blocks (kvm s) = sum_list (map (\<lambda>r. int (length (block_ids (store s r)))) (all_refs s))"
    by (simp add: num_allocated_blocks_def comp_def flip: sum_list_of_nat)
qed

text \<open>A round that blocks waits for an answer of the pipeline (unless the queue is bounded).\<close>

lemma blocked_round_waits:
  assumes "driver_inv lim env d" "\<not> bounded (scheduler_of d)" "generation_round env fq d = Hang"
  shows "ctx_outbox (rank_of d) \<noteq> []"
  using generation_round_outcome [OF assms(1), of fq] assms(2,3) by (simp add: waiting_def)

text \<open>The configuration never changes.\<close>

lemma generation_round_sconfig:
  assumes "generation_round env fq d = Ok d'"
  shows "sconfig (scheduler_of d') = sconfig (scheduler_of d)"
proof -
  obtain a b s1 where s: "schedule fq (scheduler_of d) = Ok (a, b, s1)"
    using assms by (auto simp: generation_round_def)
  have r: "scheduler_of d' = s1 \<or> (\<exists>out. update b out s1 = Ok (scheduler_of d'))"
    using assms by (auto simp: generation_round_def s split: if_splits option.splits)
  show ?thesis using r schedule_sconfig [OF s] update_small [of b _ s1 "scheduler_of d'"]
    by (metis small_slots_bound)
qed

lemma sys_step_sconfig:
  assumes "sys_step lim env fq d d'"
  shows "sconfig (scheduler_of d') = sconfig (scheduler_of d)"
  using assms
proof (cases rule: sys_step.cases)
  case (submit k gc ids q r ok)
  then show ?thesis by (auto simp: driver_submit_def submit_request_def Let_def split: prod.splits if_splits)
next
  case (poll rs)
  then show ?thesis by (auto simp: driver_poll_def poll_results_def split: list.splits)
next
  case loop
  then show ?thesis
    using generation_round_sconfig [of env fq d] by (auto simp: loop_step_def split: if_splits res.splits)
qed auto

lemma reachable_sconfig: "reachable lim env fq d0 d \<Longrightarrow> sconfig (scheduler_of d) = sconfig (scheduler_of d0)"
  by (induction rule: reachable.induct) (auto dest: sys_step_sconfig)

end
