(* ===== verification/Example_System.thy ===== *)
theory Example_System
  imports System
begin

text \<open>
  A small concrete configuration, on which the properties of the development are exercised: pages of
  two tokens, eight blocks, a budget of four tokens, and a model that scores a vocabulary of three.
\<close>

definition ex_sched_config :: scheduler_config where
  "ex_sched_config = \<lparr>max_num_batched_tokens = 4, max_num_seqs = 2, max_queue_size = 0,
     enable_chunked_prefill = True, enable_pp_fair_share = True\<rparr>"

definition ex_cache_config :: cache_config where
  "ex_cache_config = \<lparr>page_size = 2, max_cache_blocks = 8\<rparr>"

definition ex_gen_config :: "int generation_config" where
  "ex_gen_config = \<lparr>eos_token = EosToken 9, max_length = None, max_new_tokens = Some 2, output_logits = False,
     output_scores = True, do_sample = False, temperature = 1, top_k = None, top_p = Some 1, seed = None\<rparr>"

definition ex_lib :: "int sampler_lib" where
  "ex_lib = \<lparr>neg_inf = - 1000, fzero = 0, fone = 1, fadd = (+), fsub = (-), fdiv = (div), softmax = (\<lambda>row. row),
     exponential_draw = (\<lambda>i j. 1), vllm_top_k_top_p = None, vllm_gumbel_sample = None\<rparr>"

definition ex_forward :: "int forward_inputs \<Rightarrow> int model_output" where
  "ex_forward i =
     (let n = (case fi_logits_to_keep i of None \<Rightarrow> length (fi_position_ids i) | Some ks \<Rightarrow> length ks)
      in \<lparr>logit_rows = replicate n [5, 7, 6], hidden_states = replicate (length (fi_position_ids i)) [1]\<rparr>)"

definition ex_env :: "int \<Rightarrow> (int, unit) inferencer_env" where
  "ex_env p = \<lparr>pp_info_of = \<lparr>pp_size = p, pp_rank = 0\<rparr>, page_size_of = 2, table_width = 4, key_store = (), value_store = (),
     logits_for_last_tokens_only = True, use_fp32_logits = False, model_forward = ex_forward, sampler = ex_lib,
     logprob = (\<lambda>row t. row ! nat t), to_fp32 = (\<lambda>x. x)\<rparr>"

definition ex_limits :: "int system_limits" where
  "ex_limits = \<lparr>max_len = 8, ref_config = ex_gen_config, hidden = 1\<rparr>"

definition ex_request :: "string \<Rightarrow> int list \<Rightarrow> int inference_request" where
  "ex_request k ids = (case make_request k ex_gen_config (Some ids) of Ok q \<Rightarrow> q)"

definition ex_objs :: "ref \<Rightarrow> int inference_request" where
  "ex_objs r = ex_request ''none'' []"

abbreviation no_quot :: "int \<Rightarrow> int \<Rightarrow> int \<Rightarrow> int" where
  "no_quot a b c \<equiv> 1"

definition ex_start :: "int \<Rightarrow> (int, unit) driver" where
  "ex_start p = init_driver ex_sched_config ex_cache_config \<lparr>pp_size = p, pp_rank = 0\<rparr> ex_objs None"

definition ex_submitted :: "int \<Rightarrow> (int, unit) driver" where
  "ex_submitted p = snd (driver_submit 0 (ex_request ''a'' [1, 2, 3]) (ex_start p))"

lemma ex_config_ok: "1 \<le> p \<Longrightarrow> config_ok ex_limits (ex_env p) ex_sched_config ex_cache_config None"
  by (simp add: config_ok_def limits_ok_def rows_law_def lib_shapes_def sampling_safe_def graph_fits_def ceil_div_def
      ex_limits_def ex_env_def ex_sched_config_def ex_cache_config_def ex_forward_def ex_lib_def ex_gen_config_def Let_def)

lemma ex_start_init: "ex_start p = init_driver ex_sched_config ex_cache_config (pp_info_of (ex_env p)) ex_objs None"
  by (simp add: ex_start_def ex_env_def)

text \<open>A request is submitted, then a round runs.\<close>

lemma ex_submit_step: "sys_step ex_limits (ex_env p) no_quot (ex_start p) (ex_submitted p)"
proof (rule sys_step.submit)
  show "make_request ''a'' ex_gen_config (Some [1, 2, 3]) = Ok (ex_request ''a'' [1, 2, 3])"
    by (simp add: ex_request_def make_request_def)
  show "admissible ex_limits (ex_request ''a'' [1, 2, 3])"
    by (simp add: admissible_def ex_request_def make_request_def ex_limits_def ex_gen_config_def
        config_like_def same_sampling_def)
  have "busy_refs (scheduler_of (ex_start p)) = {}" "result_queue (scheduler_of (ex_start p)) = []"
    by (auto simp: ex_start_def init_driver_def busy_refs_def all_refs_def init_sched_def)
  then show "0 \<notin> busy_refs (scheduler_of (ex_start p))"
    "0 \<notin> set (concat (result_queue (scheduler_of (ex_start p))))"
    "request_id (ex_request ''a'' [1, 2, 3]) \<notin> rid (scheduler_of (ex_start p)) ` busy_refs (scheduler_of (ex_start p))"
    by simp_all
  show "driver_submit 0 (ex_request ''a'' [1, 2, 3]) (ex_start p) =
      (fst (driver_submit 0 (ex_request ''a'' [1, 2, 3]) (ex_start p)), ex_submitted p)"
    by (simp add: ex_submitted_def)
qed

definition ex_round :: "int \<Rightarrow> (int, unit) driver" where
  "ex_round p = the (loop_step (ex_env p) no_quot (ex_submitted p))"

lemma ex_round_some: "loop_step (ex_env 1) no_quot (ex_submitted 1) \<noteq> None" "loop_step (ex_env 2) no_quot (ex_submitted 2) \<noteq> None"
  by code_simp+

lemma ex_reachable:
  assumes "p \<in> {1, 2}"
  shows "reachable ex_limits (ex_env p) no_quot (ex_start p) (ex_round p)"
proof -
  have "loop_step (ex_env p) no_quot (ex_submitted p) = Some (ex_round p)"
    using assms ex_round_some by (auto simp: ex_round_def)
  then show ?thesis
    by (rule reachable.step [OF reachable.step [OF reachable.start ex_submit_step] sys_step.loop])
qed

lemma ex_reachable_submitted: "reachable ex_limits (ex_env p) no_quot (ex_start p) (ex_submitted p)"
  by (rule reachable.step [OF reachable.start ex_submit_step])

lemma ex_submitted_inv: "1 \<le> p \<Longrightarrow> driver_inv ex_limits (ex_env p) (ex_submitted p)"
  using reachable_keeps_inv [OF ex_reachable_submitted] init_driver_inv [OF ex_config_ok [of p]]
  by (simp add: ex_start_init)

lemma ex_submitted_ready: "sched_ready (scheduler_of (ex_submitted 1))"
  using ex_submitted_inv [of 1] by (simp add: driver_inv_def Let_def)

text \<open>The scheduler after it planned the request, and an output for it.\<close>

definition ex_planned :: "int sched" where
  "ex_planned = (case schedule no_quot (scheduler_of (ex_submitted 1)) of Ok (a, b, s) \<Rightarrow> s)"

definition ex_output :: "int inferencer_output" where
  "ex_output = \<lparr>token_ids = [1], logits = [], logprobs = [7]\<rparr>"

lemma ex_planned_some: "schedule no_quot (scheduler_of (ex_submitted 1)) = Ok ([0], [0], ex_planned)"
proof -
  have "is_ok (schedule no_quot (scheduler_of (ex_submitted 1)))"
    "case schedule no_quot (scheduler_of (ex_submitted 1)) of Ok (a, b, s) \<Rightarrow> a = [0] \<and> b = [0]"
    by code_simp+
  then show ?thesis unfolding ex_planned_def by (auto split: res.splits)
qed

lemma ex_planned_planned: "sched_planned ex_planned"
  using schedule_scheduled [OF ex_submitted_ready, of no_quot] ex_planned_some by (simp add: scheduled_def)

end
