(* ===== verification/Tensors.thy ===== *)
theory Tensors
  imports Prelude
begin

text \<open>
  Tensors as they travel between processes: a shape, an element type and the elements (or the raw bytes)
  in row-major order.
\<close>

record ('d, 'e) tensor =
  tshape :: "nat list"
  tdtype :: 'd
  tdata :: "'e list"

definition numel :: "nat list \<Rightarrow> nat" where
  "numel sh = prod_list sh"

definition spec_of :: "('d, 'e) tensor \<Rightarrow> nat list \<times> 'd" where
  "spec_of t = (tshape t, tdtype t)"

end
