(* ===== verification/PP_Messager.thy ===== *)
theory PP_Messager
  imports Config Tensors
begin

text \<open>
  The pipeline messager (\<open>src/vexact/distributed/pp_messager.py\<close>): the communication groups every rank
  creates, and the two messages that travel along the ring, a generation context to the next stage and
  the selected tokens back to the first. \<open>torch.distributed\<close> is not part of the program: its
  \<open>new_group\<close> calls are recorded, and its point-to-point operations are a parameter \<open>'w transport\<close>
  with the laws of the locale \<open>fifo_transport\<close>.
\<close>

section \<open>Groups\<close>

text \<open>
  A group is named by its position in the sequence of \<open>new_group\<close> calls. A rank keeps the peer and the
  CPU and GPU group of its two neighbours once they are set.
\<close>

record messager =
  group_calls :: "(string \<times> int list) list"
  next_peer :: "(int \<times> nat \<times> nat) option"
  prev_peer :: "(int \<times> nat \<times> nat) option"

definition new_messager :: messager where
  "new_messager = \<lparr>group_calls = [], next_peer = None, prev_peer = None\<rparr>"

definition new_group :: "string \<Rightarrow> int list \<Rightarrow> messager \<Rightarrow> nat \<times> messager" where
  "new_group name ranks m = (length (group_calls m), m\<lparr>group_calls := group_calls m @ [(name, ranks)]\<rparr>)"

definition create_pair_group :: "pp_info \<Rightarrow> int list \<Rightarrow> bool \<Rightarrow> int \<Rightarrow> messager \<Rightarrow> messager res" where
  "create_pair_group p world_ranks keep r m =
     (let nxt = (r + 1) mod pp_size p in
      rbind (py_get world_ranks r) (\<lambda>a.
      rbind (py_get world_ranks nxt) (\<lambda>b.
      let (cg, m1) = new_group ''gloo'' [a, b] m;
          (gg, m2) = new_group ''nccl'' [a, b] m1
      in if keep \<and> pp_rank p = r then Ok (m2\<lparr>next_peer := Some (b, cg, gg)\<rparr>)
         else if keep \<and> pp_rank p = nxt then Ok (m2\<lparr>prev_peer := Some (a, cg, gg)\<rparr>)
         else Ok m2)))"

definition create_pp_pair_groups :: "pp_info \<Rightarrow> int list \<Rightarrow> bool \<Rightarrow> messager \<Rightarrow> messager res" where
  "create_pp_pair_groups p world_ranks keep m =
     for_res (create_pair_group p world_ranks keep) (map int [0..<nat (pp_size p)]) m"

definition init_standalone :: "pp_info \<Rightarrow> messager res" where
  "init_standalone p = create_pp_pair_groups p (map int [0..<nat (pp_size p)]) True new_messager"

definition replica_ranks :: "pp_info \<Rightarrow> int \<Rightarrow> int list" where
  "replica_ranks p replica = map (\<lambda>i. replica * pp_size p + int i) [0..<nat (pp_size p)]"

definition init_within_world :: "pp_info \<Rightarrow> int \<Rightarrow> int \<Rightarrow> messager res" where
  "init_within_world p world_rank world_sz =
     (let replicas = world_sz div pp_size p; mine = world_rank div pp_size p in
      for_res (\<lambda>replica. create_pp_pair_groups p (replica_ranks p replica) (replica = mine))
        (map int [0..<nat replicas]) new_messager)"

text \<open>
  Construction: without a process group the messager sets the rendezvous variables (unless they are set)
  and initialises one of its own; otherwise it joins the world it finds, given as \<open>(rank, size)\<close>.
\<close>

definition env_setdefault :: "string \<Rightarrow> string \<Rightarrow> (string \<rightharpoonup> string) \<Rightarrow> (string \<rightharpoonup> string)" where
  "env_setdefault k v env = (case env k of None \<Rightarrow> env(k \<mapsto> v) | Some _ \<Rightarrow> env)"

definition init_messager ::
    "pp_info \<Rightarrow> string \<Rightarrow> string option \<Rightarrow> (int \<times> int) option \<Rightarrow> (string \<rightharpoonup> string)
       \<Rightarrow> (messager \<times> (string \<rightharpoonup> string)) res" where
  "init_messager p addr port world env =
     (case world of
        None \<Rightarrow>
          (let env1 = env_setdefault ''MASTER_ADDR'' addr env in
           case port of
             None \<Rightarrow> Raise TypeError
           | Some q \<Rightarrow> rbind (init_standalone p) (\<lambda>m. Ok (m, env_setdefault ''MASTER_PORT'' q env1)))
      | Some (rank, sz) \<Rightarrow> rbind (init_within_world p rank sz) (\<lambda>m. Ok (m, env)))"

section \<open>Messages\<close>

text \<open>A field of a context is a tensor or another Python object; its metadata stands for it on the wire.\<close>

datatype ('d, 'e, 'o) field_value = Tensor "('d, 'e) tensor" | Object 'o

datatype ('d, 'o) field_meta = TensorMeta "nat list" 'd | ObjectMeta 'o

datatype ('d, 'o) pyobj = Named string "('d, 'o) field_meta" | Bare "('d, 'o) field_meta"

type_synonym ('d, 'e, 'o) fields = "(string \<times> ('d, 'e, 'o) field_value) list"

definition gen_ctx_fields :: "string list" where
  "gen_ctx_fields =
     [''batch_input_ids'', ''intermediate_tensors'', ''query_start_loc'', ''batch_position_ids'',
      ''block_tables'', ''context_lens'', ''slot_mapping'', ''max_seqlen_q'', ''generation_configs'',
      ''tokens_generated'']"

text \<open>
  Point-to-point operations along one link, as functions on the state \<open>'w\<close> of the network: sending a list
  of objects or of tensors, receiving a list of \<open>n\<close> objects, receiving into empty tensors of given shapes
  and types.
\<close>

record ('w, 'd, 'e, 'o) transport =
  send_object_list :: "('d, 'o) pyobj list \<Rightarrow> 'w \<Rightarrow> 'w res"
  recv_object_list :: "nat \<Rightarrow> 'w \<Rightarrow> (('d, 'o) pyobj list \<times> 'w) res"
  send_batch_tensor :: "('d, 'e) tensor list \<Rightarrow> 'w \<Rightarrow> 'w res"
  recv_batch_tensor :: "(nat list \<times> 'd) list \<Rightarrow> 'w \<Rightarrow> (('d, 'e) tensor list \<times> 'w) res"

fun meta_of :: "('d, 'e, 'o) field_value \<Rightarrow> ('d, 'o) field_meta" where
  "meta_of (Tensor t) = TensorMeta (tshape t) (tdtype t)"
| "meta_of (Object x) = ObjectMeta x"

fun tensors_of :: "('d, 'e, 'o) fields \<Rightarrow> ('d, 'e) tensor list" where
  "tensors_of [] = []"
| "tensors_of ((_, Tensor t) # fs) = t # tensors_of fs"
| "tensors_of ((_, Object _) # fs) = tensors_of fs"

definition send_gen_ctx :: "('w, 'd, 'e, 'o) transport \<Rightarrow> ('d, 'e, 'o) fields \<Rightarrow> 'w \<Rightarrow> 'w res" where
  "send_gen_ctx T ctx w =
     rbind (send_object_list T (map (\<lambda>(n, v). Named n (meta_of v)) ctx) w) (send_batch_tensor T (tensors_of ctx))"

text \<open>Unpacking \<open>name, tensor_meta\<close> and collecting the empty tensors, in the order of the metadata.\<close>

fun unpack_meta :: "('d, 'o) pyobj list \<Rightarrow> (string \<times> ('d, 'o) field_meta) list res" where
  "unpack_meta [] = Ok []"
| "unpack_meta (Named n m # xs) = rbind (unpack_meta xs) (\<lambda>ys. Ok ((n, m) # ys))"
| "unpack_meta (Bare m # xs) = Raise TypeError"

fun tensor_specs :: "(string \<times> ('d, 'o) field_meta) list \<Rightarrow> (nat list \<times> 'd) list" where
  "tensor_specs [] = []"
| "tensor_specs ((_, TensorMeta sh dt) # ms) = (sh, dt) # tensor_specs ms"
| "tensor_specs ((_, ObjectMeta _) # ms) = tensor_specs ms"

text \<open>The dictionary \<open>ctx_dict\<close> once its tensors, taken in order, have been filled in place.\<close>

fun fill_fields ::
    "(string \<times> ('d, 'o) field_meta) list \<Rightarrow> ('d, 'e) tensor list \<Rightarrow> ('d, 'e, 'o) fields \<Rightarrow> ('d, 'e, 'o) fields" where
  "fill_fields ((n, ObjectMeta x) # ms) ts d = fill_fields ms ts (od_set n (Object x) d)"
| "fill_fields ((n, TensorMeta _ _) # ms) (t # ts) d = fill_fields ms ts (od_set n (Tensor t) d)"
| "fill_fields _ _ d = d"

text \<open>\<open>GenerationContext(**ctx_dict)\<close>: every field must be given, and nothing else.\<close>

definition make_gen_ctx :: "('d, 'e, 'o) fields \<Rightarrow> ('d, 'e, 'o) fields res" where
  "make_gen_ctx d =
     (if set (od_keys d) = set gen_ctx_fields
      then Ok (map (\<lambda>n. (n, the (map_of d n))) gen_ctx_fields) else Raise TypeError)"

definition recv_gen_ctx :: "('w, 'd, 'e, 'o) transport \<Rightarrow> 'w \<Rightarrow> (('d, 'e, 'o) fields \<times> 'w) res" where
  "recv_gen_ctx T w =
     rbind (recv_object_list T (length gen_ctx_fields) w) (\<lambda>(objs, w1).
     rbind (unpack_meta objs) (\<lambda>ms.
     rbind (recv_batch_tensor T (tensor_specs ms) w1) (\<lambda>(ts, w2).
     rbind (make_gen_ctx (fill_fields ms ts [])) (\<lambda>ctx. Ok (ctx, w2)))))"

text \<open>The answer of the last rank: token ids, logits and log-probabilities, all tensors.\<close>

type_synonym ('d, 'e) infer_out = "('d, 'e) tensor \<times> ('d, 'e) tensor \<times> ('d, 'e) tensor"

definition send_infer_out :: "('w, 'd, 'e, 'o) transport \<Rightarrow> ('d, 'e) infer_out \<Rightarrow> 'w \<Rightarrow> 'w res" where
  "send_infer_out T out w =
     (case out of (a, b, c) \<Rightarrow>
        rbind (send_object_list T (map (\<lambda>t. Bare (TensorMeta (tshape t) (tdtype t))) [a, b, c]) w)
          (send_batch_tensor T [a, b, c]))"

fun out_spec :: "('d, 'o) pyobj \<Rightarrow> (nat list \<times> 'd) res" where
  "out_spec (Bare (TensorMeta sh dt)) = Ok (sh, dt)"
| "out_spec _ = Raise AttributeError"

definition recv_infer_out_msg :: "('w, 'd, 'e, 'o) transport \<Rightarrow> 'w \<Rightarrow> (('d, 'e) infer_out \<times> 'w) res" where
  "recv_infer_out_msg T w =
     rbind (recv_object_list T 3 w) (\<lambda>(objs, w1).
     rbind (map_res out_spec objs) (\<lambda>specs.
     rbind (recv_batch_tensor T specs w1) (\<lambda>(ts, w2).
     rbind (py_get ts 0) (\<lambda>a. rbind (py_get ts 1) (\<lambda>b. rbind (py_get ts 2) (\<lambda>c. Ok ((a, b, c), w2)))))))"

section \<open>Messages arrive as they were sent\<close>

text \<open>A context as the dataclass holds it: its fields in order, at least one of them a tensor.\<close>

definition sendable :: "('d, 'e, 'o) fields \<Rightarrow> bool" where
  "sendable ctx \<longleftrightarrow> map fst ctx = gen_ctx_fields \<and> tensors_of ctx \<noteq> []"

definition ctx_objs :: "('d, 'e, 'o) fields \<Rightarrow> ('d, 'o) pyobj list" where
  "ctx_objs ctx = map (\<lambda>(n, v). Named n (meta_of v)) ctx"

fun recv_many :: "('w, 'd, 'e, 'o) transport \<Rightarrow> nat \<Rightarrow> 'w \<Rightarrow> (('d, 'e, 'o) fields list \<times> 'w) res" where
  "recv_many T 0 w = Ok ([], w)"
| "recv_many T (Suc n) w =
     rbind (recv_gen_ctx T w) (\<lambda>(c, w1). rbind (recv_many T n w1) (\<lambda>(cs, w2). Ok (c # cs, w2)))"

lemma unpack_ctx_objs: "unpack_meta (ctx_objs ctx) = Ok (map (\<lambda>(n, v). (n, meta_of v)) ctx)"
  by (induction ctx) (auto simp: ctx_objs_def)

lemma meta_of_eq: "meta_of v = (case v of Tensor t \<Rightarrow> TensorMeta (tshape t) (tdtype t) | Object x \<Rightarrow> ObjectMeta x)"
  by (cases v) simp_all

lemma tensor_specs_ctx: "tensor_specs (map (\<lambda>(n, v). (n, meta_of v)) ctx) = map spec_of (tensors_of ctx)"
proof (induction ctx)
  case (Cons f ctx)
  then show ?case by (cases f; cases "snd f") (auto simp: spec_of_def)
qed simp

lemma fill_fields_ctx:
  "distinct (map fst ctx) \<Longrightarrow> set (map fst ctx) \<inter> set (od_keys d) = {} \<Longrightarrow>
    fill_fields (map (\<lambda>(n, v). (n, meta_of v)) ctx) (tensors_of ctx) d = d @ ctx"
proof (induction ctx arbitrary: d)
  case (Cons f ctx)
  obtain n v where f: "f = (n, v)" by force
  have "od_set n v d = d @ [(n, v)]" using Cons.prems f by (intro od_set_new) auto
  moreover have "set (map fst ctx) \<inter> set (od_keys (d @ [(n, v)])) = {}" using Cons.prems f by auto
  ultimately show ?case
    using Cons.IH [of "d @ [(n, v)]"] Cons.prems(1) f by (cases v) auto
qed simp

lemma make_gen_ctx_fields:
  assumes "map fst ctx = gen_ctx_fields"
  shows "make_gen_ctx ctx = Ok ctx"
proof -
  have d: "distinct (map fst ctx)" by (simp add: assms gen_ctx_fields_def)
  have "map (\<lambda>n. (n, the (map_of ctx n))) (map fst ctx) = ctx"
    using d by (auto simp: comp_def intro!: map_idI)
  then show ?thesis using assms by (simp add: make_gen_ctx_def)
qed

lemma ctx_distinct: "sendable ctx \<Longrightarrow> distinct (map fst ctx)"
  by (simp add: sendable_def gen_ctx_fields_def)

text \<open>
  What the messager relies on: sends do not raise, deliveries are in order, a receive into lists of the
  right length and tensors of the right shape yields what was sent, and waits when nothing was.
\<close>

locale fifo_transport =
  fixes T :: "('w, 'd, 'e, 'o) transport"
    and pending_objs :: "'w \<Rightarrow> ('d, 'o) pyobj list list"
    and pending_tensors :: "'w \<Rightarrow> ('d, 'e) tensor list list"
  assumes send_objs: "\<exists>w'. send_object_list T xs w = Ok w' \<and>
      pending_objs w' = pending_objs w @ [xs] \<and> pending_tensors w' = pending_tensors w"
    and recv_objs: "pending_objs w = xs # rest \<Longrightarrow> \<exists>w'. recv_object_list T (length xs) w = Ok (xs, w') \<and>
      pending_objs w' = rest \<and> pending_tensors w' = pending_tensors w"
    and recv_objs_waits: "pending_objs w = [] \<Longrightarrow> recv_object_list T n w = Hang"
    and send_tensors: "ts \<noteq> [] \<Longrightarrow> \<exists>w'. send_batch_tensor T ts w = Ok w' \<and>
      pending_objs w' = pending_objs w \<and> pending_tensors w' = pending_tensors w @ [ts]"
    and recv_tensors: "pending_tensors w = ts # rests \<Longrightarrow>
      \<exists>w'. recv_batch_tensor T (map spec_of ts) w = Ok (ts, w') \<and>
        pending_objs w' = pending_objs w \<and> pending_tensors w' = rests"
begin

lemma send_gen_ctx_pending:
  assumes "sendable ctx"
  shows "\<exists>w'. send_gen_ctx T ctx w = Ok w' \<and> pending_objs w' = pending_objs w @ [ctx_objs ctx] \<and>
    pending_tensors w' = pending_tensors w @ [tensors_of ctx]"
proof -
  obtain w1 where w1: "send_object_list T (ctx_objs ctx) w = Ok w1"
    "pending_objs w1 = pending_objs w @ [ctx_objs ctx]" "pending_tensors w1 = pending_tensors w"
    using send_objs by blast
  have "tensors_of ctx \<noteq> []" using assms by (simp add: sendable_def)
  from send_tensors [OF this, of w1] show ?thesis using w1 by (auto simp: send_gen_ctx_def ctx_objs_def)
qed

lemma recv_gen_ctx_head:
  assumes "sendable ctx" "pending_objs w = ctx_objs ctx # objs" "pending_tensors w = tensors_of ctx # tens"
  shows "\<exists>w'. recv_gen_ctx T w = Ok (ctx, w') \<and> pending_objs w' = objs \<and> pending_tensors w' = tens"
proof -
  have names: "map fst ctx = gen_ctx_fields" using assms(1) by (simp add: sendable_def)
  then have len: "length (ctx_objs ctx) = length gen_ctx_fields"
    by (metis ctx_objs_def length_map)
  obtain w1 where w1: "recv_object_list T (length gen_ctx_fields) w = Ok (ctx_objs ctx, w1)"
    "pending_objs w1 = objs" "pending_tensors w1 = tensors_of ctx # tens"
    using recv_objs [OF assms(2)] assms(3) len by auto
  obtain w2 where w2: "recv_batch_tensor T (map spec_of (tensors_of ctx)) w1 = Ok (tensors_of ctx, w2)"
    "pending_objs w2 = objs" "pending_tensors w2 = tens"
    using recv_tensors [OF w1(3)] w1(2) by auto
  have "fill_fields (map (\<lambda>(n, v). (n, meta_of v)) ctx) (tensors_of ctx) [] = ctx"
    using fill_fields_ctx [of ctx "[]"] ctx_distinct [OF assms(1)] by simp
  then show ?thesis
    using w1 w2 make_gen_ctx_fields [OF names]
    by (simp add: recv_gen_ctx_def unpack_ctx_objs tensor_specs_ctx)
qed

lemma recv_gen_ctx_waits: "pending_objs w = [] \<Longrightarrow> recv_gen_ctx T w = Hang"
  by (simp add: recv_gen_ctx_def recv_objs_waits)

lemma send_all_pending:
  "\<forall>c\<in>set cs. sendable c \<Longrightarrow> \<exists>w'. for_res (send_gen_ctx T) cs w = Ok w' \<and>
    pending_objs w' = pending_objs w @ map ctx_objs cs \<and> pending_tensors w' = pending_tensors w @ map tensors_of cs"
proof (induction cs arbitrary: w)
  case (Cons c cs)
  obtain w1 where w1: "send_gen_ctx T c w = Ok w1" "pending_objs w1 = pending_objs w @ [ctx_objs c]"
    "pending_tensors w1 = pending_tensors w @ [tensors_of c]"
    using send_gen_ctx_pending [of c w] Cons.prems by auto
  then show ?case using Cons.IH [of w1] Cons.prems by auto
qed simp

lemma recv_many_pending:
  "\<forall>c\<in>set cs. sendable c \<Longrightarrow> pending_objs w = map ctx_objs cs @ objs \<Longrightarrow> pending_tensors w = map tensors_of cs @ tens \<Longrightarrow>
    \<exists>w'. recv_many T (length cs) w = Ok (cs, w') \<and> pending_objs w' = objs \<and> pending_tensors w' = tens"
proof (induction cs arbitrary: w)
  case (Cons c cs)
  obtain w1 where w1: "recv_gen_ctx T w = Ok (c, w1)" "pending_objs w1 = map ctx_objs cs @ objs"
    "pending_tensors w1 = map tensors_of cs @ tens"
    using recv_gen_ctx_head [of c w "map ctx_objs cs @ objs" "map tensors_of cs @ tens"] Cons.prems by auto
  then show ?case using Cons.IH [of w1] Cons.prems by auto
qed simp

lemma stream_arrives:
  assumes "\<forall>c\<in>set cs. sendable c" "pending_objs w = []" "pending_tensors w = []"
  shows "\<exists>sent received. for_res (send_gen_ctx T) cs w = Ok sent \<and>
    recv_many T (length cs) sent = Ok (cs, received) \<and> recv_gen_ctx T received = Hang"
  using send_all_pending [OF assms(1), of w] recv_many_pending [OF assms(1), of _ "[]" "[]"] assms(2,3)
    recv_gen_ctx_waits by fastforce

lemma infer_out_arrives:
  assumes "pending_objs w = []" "pending_tensors w = []"
  shows "\<exists>sent received. send_infer_out T out w = Ok sent \<and> recv_infer_out_msg T sent = Ok (out, received) \<and>
    pending_objs received = [] \<and> pending_tensors received = []"
proof -
  obtain a b c where out: "out = (a, b, c)" by (cases out) auto
  let ?objs = "map (\<lambda>t. Bare (TensorMeta (tshape t) (tdtype t))) [a, b, c]"
  obtain w1 where w1: "send_object_list T ?objs w = Ok w1" "pending_objs w1 = [?objs]" "pending_tensors w1 = []"
    using send_objs [of ?objs w] assms by auto
  obtain w2 where w2: "send_batch_tensor T [a, b, c] w1 = Ok w2" "pending_objs w2 = [?objs]" "pending_tensors w2 = [[a, b, c]]"
    using send_tensors [of "[a, b, c]" w1] w1 by auto
  obtain w3 where w3: "recv_object_list T 3 w2 = Ok (?objs, w3)" "pending_objs w3 = []" "pending_tensors w3 = [[a, b, c]]"
    using recv_objs [OF w2(2)] w2(3) by (auto simp: numeral_3_eq_3)
  obtain w4 where w4: "recv_batch_tensor T (map spec_of [a, b, c]) w3 = Ok ([a, b, c], w4)" "pending_objs w4 = []"
    "pending_tensors w4 = []"
    using recv_tensors [OF w3(3)] w3(2) by auto
  have "send_infer_out T out w = Ok w2" using w1 w2 by (simp add: send_infer_out_def out)
  moreover have "recv_infer_out_msg T w2 = Ok (out, w4)"
    using w3 w4 by (simp add: recv_infer_out_msg_def out spec_of_def py_get_def)
  ultimately show ?thesis using w4 by blast
qed

end

text \<open>A link as two queues, one per group of the pair, and its operations.\<close>

record ('d, 'e, 'o) link =
  obj_queue :: "('d, 'o) pyobj list list"
  tensor_queue :: "('d, 'e) tensor list list"

definition queue_link :: "(('d, 'e, 'o) link, 'd, 'e, 'o) transport" where
  "queue_link =
     \<lparr>send_object_list = (\<lambda>xs w. Ok (w\<lparr>obj_queue := obj_queue w @ [xs]\<rparr>)),
      recv_object_list = (\<lambda>n w. case obj_queue w of
          [] \<Rightarrow> Hang
        | xs # rest \<Rightarrow> if length xs = n then Ok (xs, w\<lparr>obj_queue := rest\<rparr>) else Raise RuntimeError),
      send_batch_tensor = (\<lambda>ts w. if ts = [] then Raise IndexError else Ok (w\<lparr>tensor_queue := tensor_queue w @ [ts]\<rparr>)),
      recv_batch_tensor = (\<lambda>specs w. case tensor_queue w of
          [] \<Rightarrow> Hang
        | ts # rest \<Rightarrow> if specs = map spec_of ts then Ok (ts, w\<lparr>tensor_queue := rest\<rparr>) else Raise RuntimeError)\<rparr>"

interpretation ql: fifo_transport queue_link obj_queue tensor_queue
  by unfold_locales (auto simp: queue_link_def)

text \<open>
  C15. A stage receives what its predecessor sent: over any transport that delivers in order, any
  sequence of contexts sent through an empty link is received complete, field by field, in order, and the
  next receive waits.
\<close>

theorem contexts_arrive_in_order:
  assumes "fifo_transport T objs tens" "\<forall>c\<in>set cs. sendable c" "objs w = []" "tens w = []"
  shows "\<exists>sent received. for_res (send_gen_ctx T) cs w = Ok sent \<and>
    recv_many T (length cs) sent = Ok (cs, received) \<and> recv_gen_ctx T received = Hang"
  by (rule fifo_transport.stream_arrives [OF assms])

definition ex_ctx :: "int \<Rightarrow> (string, int, int option) fields" where
  "ex_ctx k =
     map (\<lambda>n. (n, if n \<in> {''batch_input_ids'', ''max_seqlen_q'', ''generation_configs'', ''tokens_generated''}
                  then Object None else Tensor \<lparr>tshape = [1, 2], tdtype = ''int32'', tdata = [k, k + 1]\<rparr>)) gen_ctx_fields"

theorem contexts_arrive_in_order_witness:
  "\<exists>sent received. for_res (send_gen_ctx queue_link) [ex_ctx 3, ex_ctx 8] \<lparr>obj_queue = [], tensor_queue = []\<rparr> = Ok sent \<and>
    recv_many queue_link 2 sent = Ok ([ex_ctx 3, ex_ctx 8], received)"
proof -
  have "sendable (ex_ctx k)" for k
    by (simp add: sendable_def ex_ctx_def gen_ctx_fields_def)
  then have "\<forall>c\<in>set [ex_ctx 3, ex_ctx 8]. sendable c" by simp
  from contexts_arrive_in_order [OF ql.fifo_transport_axioms this, of "\<lparr>obj_queue = [], tensor_queue = []\<rparr>"]
  show ?thesis by (auto simp: numeral_2_eq_2)
qed

section \<open>The ring of groups\<close>

definition pair_calls :: "int list \<Rightarrow> nat \<Rightarrow> (string \<times> int list) list" where
  "pair_calls ws r =
     (let pair = [ws ! r, ws ! (Suc r mod length ws)] in [(''gloo'', pair), (''nccl'', pair)])"

definition ring_calls :: "int list \<Rightarrow> (string \<times> int list) list" where
  "ring_calls ws = concat (map (pair_calls ws) [0..<length ws])"

lemma length_pair_calls [simp]: "length (concat (map (pair_calls ws) [0..<k])) = 2 * k"
  by (induction k) (simp_all add: pair_calls_def Let_def)

lemma length_ring_calls [simp]: "length (ring_calls ws) = 2 * length ws"
  by (simp add: ring_calls_def)

lemma concat_uniform_nth:
  "(\<And>x. x \<in> set xs \<Longrightarrow> length (f x) = c) \<Longrightarrow> i < length xs \<Longrightarrow> j < c \<Longrightarrow> concat (map f xs) ! (c * i + j) = f (xs ! i) ! j"
proof (induction xs arbitrary: i)
  case (Cons x xs)
  show ?case
  proof (cases i)
    case 0
    then show ?thesis using Cons.prems by (simp add: nth_append)
  next
    case (Suc k)
    have "c * i + j - length (f x) = c * k + j" using Cons.prems Suc by simp
    then show ?thesis using Cons.IH [of k] Cons.prems Suc by (simp add: nth_append)
  qed
qed simp

definition next_in :: "nat \<Rightarrow> nat \<Rightarrow> nat" where
  "next_in n r = Suc r mod n"

definition prev_in :: "nat \<Rightarrow> nat \<Rightarrow> nat" where
  "prev_in n r = (r + n - 1) mod n"

lemma next_prev: "r < n \<Longrightarrow> q < n \<Longrightarrow> next_in n q = r \<longleftrightarrow> q = prev_in n r"
proof -
  assume r: "r < n" "q < n"
  have "next_in n q = (if Suc q = n then 0 else Suc q)" using r by (simp add: next_in_def mod_if)
  moreover have "prev_in n r = (if r = 0 then n - 1 else r - 1)"
  proof (cases r)
    case (Suc k)
    then have "r + n - 1 = n + k" by simp
    then show ?thesis using r Suc by (simp add: prev_in_def)
  qed (use r in \<open>simp add: prev_in_def\<close>)
  ultimately show ?thesis using r by (cases r) auto
qed

lemma prev_in_neq: "2 \<le> n \<Longrightarrow> r < n \<Longrightarrow> prev_in n r \<noteq> r \<and> prev_in n r < n"
  by (cases r) (auto simp: prev_in_def mod_if)

text \<open>The state after the first \<open>k\<close> pairs.\<close>

definition after_pairs :: "pp_info \<Rightarrow> int list \<Rightarrow> bool \<Rightarrow> nat \<Rightarrow> messager \<Rightarrow> messager" where
  "after_pairs p ws keep k m =
     (let n = length ws; r = nat (pp_rank p); c = length (group_calls m); q = prev_in n r
      in \<lparr>group_calls = group_calls m @ concat (map (pair_calls ws) [0..<k]),
          next_peer = (if keep \<and> r < k then Some (ws ! next_in n r, c + 2 * r, c + 2 * r + 1) else next_peer m),
          prev_peer = (if keep \<and> q < k then Some (ws ! q, c + 2 * q, c + 2 * q + 1) else prev_peer m)\<rparr>)"

lemma create_pair_group_step:
  assumes "pp_size p = int (length ws)" "2 \<le> length ws" "0 \<le> pp_rank p" "pp_rank p < pp_size p" "k < length ws"
  shows "create_pair_group p ws keep (int k) (after_pairs p ws keep k m) = Ok (after_pairs p ws keep (Suc k) m)"
proof -
  let ?n = "length ws" and ?r = "nat (pp_rank p)"
  have nxt: "(int k + 1) mod pp_size p = int (next_in ?n k)"
    using assms(1) by (simp add: next_in_def zmod_int add.commute)
  have "next_in ?n k < ?n" using assms(5) unfolding next_in_def by (intro mod_less_divisor) linarith
  then have g: "py_get ws (int k) = Ok (ws ! k)" "py_get ws (int (next_in ?n k)) = Ok (ws ! next_in ?n k)"
    using assms(5) by (simp_all add: py_get_in_range)
  have r: "?r < ?n" "pp_rank p = int k \<longleftrightarrow> ?r = k" "pp_rank p = int (next_in ?n k) \<longleftrightarrow> ?r = next_in ?n k"
    using assms by auto
  have q: "?r = next_in ?n k \<longleftrightarrow> k = prev_in ?n ?r" using next_prev [OF r(1) assms(5)] by auto
  have ne: "prev_in ?n ?r \<noteq> ?r" using prev_in_neq [OF assms(2) r(1)] by simp
  show ?thesis
    using ne unfolding create_pair_group_def Let_def nxt g rbind.simps r(2,3) q
    by (auto simp: new_group_def after_pairs_def Let_def pair_calls_def next_in_def less_Suc_eq)
qed

lemma create_pp_pair_groups_Ok:
  assumes "pp_size p = int (length ws)" "2 \<le> length ws" "0 \<le> pp_rank p" "pp_rank p < pp_size p"
  shows "create_pp_pair_groups p ws keep m = Ok (after_pairs p ws keep (length ws) m)"
proof -
  have "k \<le> length ws \<Longrightarrow> for_res (create_pair_group p ws keep) (map int [0..<k]) m = Ok (after_pairs p ws keep k m)" for k
  proof (induction k)
    case 0
    show ?case by (simp add: after_pairs_def Let_def)
  next
    case (Suc k)
    then show ?case using create_pair_group_step [OF assms, of k] by (simp add: for_res_append)
  qed
  then show ?thesis using assms(1) by (simp add: create_pp_pair_groups_def)
qed

lemma length_replica_ranks [simp]: "length (replica_ranks p k) = nat (pp_size p)"
  by (simp add: replica_ranks_def)

lemma nth_replica_ranks: "i < nat (pp_size p) \<Longrightarrow> replica_ranks p k ! i = k * pp_size p + int i"
  by (simp add: replica_ranks_def)

definition world_calls :: "pp_info \<Rightarrow> nat \<Rightarrow> (string \<times> int list) list" where
  "world_calls p n = concat (map (\<lambda>k. ring_calls (replica_ranks p (int k))) [0..<n])"

lemma length_world_calls [simp]: "length (world_calls p n) = 2 * nat (pp_size p) * n"
  by (induction n) (simp_all add: world_calls_def)

lemma init_within_world_Ok:
  assumes "2 \<le> pp_size p" "pp_rank p = world_rank mod pp_size p" "0 \<le> world_rank"
    and "world_rank < (world_sz div pp_size p) * pp_size p"
  shows "\<exists>m. init_within_world p world_rank world_sz = Ok m \<and>
    group_calls m = world_calls p (nat (world_sz div pp_size p)) \<and>
    (let n = nat (pp_size p); base = world_rank div pp_size p * pp_size p; r = nat (pp_rank p);
         c = 2 * n * nat (world_rank div pp_size p); q = prev_in n r
     in next_peer m = Some (base + int (next_in n r), c + 2 * r, c + 2 * r + 1) \<and>
        prev_peer m = Some (base + int q, c + 2 * q, c + 2 * q + 1))"
proof -
  let ?n = "nat (pp_size p)" and ?mine = "nat (world_rank div pp_size p)" and ?r = "nat (pp_rank p)"
  let ?body = "\<lambda>k. create_pp_pair_groups p (replica_ranks p k) (k = world_rank div pp_size p)"
  have r: "0 \<le> pp_rank p" "pp_rank p < pp_size p" "?r < ?n" using assms by auto
  have n: "2 \<le> ?n" "int ?n = pp_size p" using assms(1) by auto
  have mine: "int ?mine = world_rank div pp_size p" using assms(1,3) by (simp add: pos_imp_zdiv_nonneg_iff)
  define st where "st k = \<lparr>group_calls = world_calls p k,
      next_peer = (if ?mine < k then Some (world_rank div pp_size p * pp_size p + int (next_in ?n ?r),
          2 * ?n * ?mine + 2 * ?r, 2 * ?n * ?mine + 2 * ?r + 1) else None),
      prev_peer = (if ?mine < k then Some (world_rank div pp_size p * pp_size p + int (prev_in ?n ?r),
          2 * ?n * ?mine + 2 * prev_in ?n ?r, 2 * ?n * ?mine + 2 * prev_in ?n ?r + 1) else None)\<rparr>" for k
  have q: "prev_in ?n ?r < ?n" "next_in ?n ?r < ?n"
    using prev_in_neq [OF n(1) r(3)] n by (simp_all add: next_in_def)
  have step: "?body (int k) (st k) = Ok (st (Suc k))" for k
  proof -
    have eq: "int k = world_rank div pp_size p \<longleftrightarrow> k = ?mine" using mine by auto
    have "?body (int k) (st k) = Ok (after_pairs p (replica_ranks p (int k)) (k = ?mine) ?n (st k))"
      unfolding eq using create_pp_pair_groups_Ok [of p "replica_ranks p (int k)" "k = ?mine" "st k"] n r by simp
    also have "after_pairs p (replica_ranks p (int k)) (k = ?mine) ?n (st k) = st (Suc k)"
      using q r(3) mine
      by (auto simp: after_pairs_def Let_def st_def world_calls_def ring_calls_def nth_replica_ranks less_Suc_eq
          length_world_calls [unfolded world_calls_def ring_calls_def length_replica_ranks])
    finally show ?thesis .
  qed
  have loop: "for_res ?body (map int [0..<k]) new_messager = Ok (st k)" for k
  proof (induction k)
    case 0
    show ?case by (simp add: st_def new_messager_def world_calls_def)
  next
    case (Suc k)
    then show ?case using step [of k] by (simp add: for_res_append)
  qed
  have "world_rank div pp_size p < world_sz div pp_size p"
  proof -
    have "world_rank div pp_size p * pp_size p \<le> world_rank"
      using assms(1) div_mult_mod_eq [of world_rank "pp_size p"] pos_mod_sign [of "pp_size p" world_rank] by linarith
    then have "world_rank div pp_size p * pp_size p < (world_sz div pp_size p) * pp_size p" using assms(4) by linarith
    then show ?thesis using assms(1) by (simp add: mult_less_cancel_right)
  qed
  then have "?mine < nat (world_sz div pp_size p)" using mine by linarith
  then show ?thesis
    using loop [of "nat (world_sz div pp_size p)"] by (simp add: init_within_world_def Let_def st_def)
qed

lemma nth_pair_calls: "pair_calls ws r ! 0 = (''gloo'', [ws ! r, ws ! next_in (length ws) r])"
  "pair_calls ws r ! 1 = (''nccl'', [ws ! r, ws ! next_in (length ws) r])"
  by (simp_all add: pair_calls_def Let_def next_in_def)

lemma nth_world_calls:
  assumes "r < nat (pp_size p)" "k < K" "j < 2"
  shows "world_calls p K ! (2 * nat (pp_size p) * k + 2 * r + j) = pair_calls (replica_ranks p (int k)) r ! j"
proof -
  let ?n = "nat (pp_size p)" and ?ws = "replica_ranks p (int k)"
  have lt: "2 * r + j < 2 * ?n" using assms by linarith
  have "world_calls p K ! (2 * ?n * k + (2 * r + j)) = ring_calls (replica_ranks p (int ([0..<K] ! k))) ! (2 * r + j)"
    unfolding world_calls_def by (rule concat_uniform_nth) (use assms lt in auto)
  also have "\<dots> = pair_calls ?ws ([0..<?n] ! r) ! j"
    using assms concat_uniform_nth [of "[0..<?n]" "pair_calls ?ws" 2 r j]
    by (simp add: ring_calls_def pair_calls_def Let_def)
  finally show ?thesis using assms by (simp add: add.assoc)
qed

definition world_pp :: "int \<Rightarrow> int \<Rightarrow> pp_info" where
  "world_pp n w = \<lparr>pp_size = n, pp_rank = w mod n\<rparr>"

definition successor_rank :: "int \<Rightarrow> int \<Rightarrow> int" where
  "successor_rank n w = w div n * n + (w + 1) mod n"

text \<open>
  The ring of a replica: with at least two stages, every rank of a complete replica makes the same
  \<open>new_group\<close> calls in the same order as every other rank of the world, and the peer it sends to is the
  rank that takes it as its predecessor, over the same two groups, each created for exactly these two
  ranks.
\<close>

theorem neighbours_share_groups:
  assumes "2 \<le> n" "0 \<le> w" "w < (world_sz div n) * n" "0 \<le> v" "v < (world_sz div n) * n"
  shows "\<exists>m m' u cg gg. init_within_world (world_pp n w) w world_sz = Ok m \<and>
    init_within_world (world_pp n (successor_rank n w)) (successor_rank n w) world_sz = Ok m' \<and>
    init_within_world (world_pp n v) v world_sz = Ok u \<and> group_calls u = group_calls m \<and>
    next_peer m = Some (successor_rank n w, cg, gg) \<and> prev_peer m' = Some (w, cg, gg) \<and> cg \<noteq> gg \<and>
    group_calls m ! cg = (''gloo'', [w, successor_rank n w]) \<and>
    group_calls m ! gg = (''nccl'', [w, successor_rank n w])"
proof -
  let ?s = "successor_rank n w" and ?k = "w div n" and ?r = "nat (w mod n)" and ?N = "nat n"
  let ?K = "nat (world_sz div n)"
  have r: "0 \<le> w mod n" "w mod n < n" "?r < ?N" using assms(1) by auto
  have nxt: "(w + 1) mod n = int (next_in ?N ?r)"
    using assms(1) r(1) by (simp add: next_in_def zmod_int) (metis add.commute mod_add_left_eq)
  have s: "?s = ?k * n + int (next_in ?N ?r)" by (simp add: successor_rank_def nxt)
  have nr: "next_in ?N ?r < ?N" using assms(1) by (simp add: next_in_def)
  have "int (next_in ?N ?r) < n" using nr by linarith
  then have sdm: "?s div n = ?k" "?s mod n = int (next_in ?N ?r)" "?s < (?k + 1) * n" "0 \<le> ?s"
    using assms(1,2) unfolding s by (simp_all add: div_add1_eq algebra_simps pos_imp_zdiv_nonneg_iff)
  have w: "w = ?k * n + w mod n" by simp
  have kK: "?k < world_sz div n"
  proof -
    have "?k * n < (world_sz div n) * n" using assms(3) r(1) w by linarith
    then show ?thesis using assms(1) by (simp add: mult_less_cancel_right)
  qed
  then have "(?k + 1) * n \<le> (world_sz div n) * n" using assms(1) by (intro mult_right_mono) auto
  then have slt: "?s < (world_sz div n) * n" using sdm(3) by linarith
  have pv: "prev_in ?N (next_in ?N ?r) = ?r" using next_prev [OF nr r(3)] by simp
  have k: "0 \<le> ?k" using assms(1,2) by (simp add: pos_imp_zdiv_nonneg_iff)
  then have kn: "nat ?k < ?K" using kK by linarith
  obtain m where m: "init_within_world (world_pp n w) w world_sz = Ok m"
    "group_calls m = world_calls (world_pp n w) ?K"
    "next_peer m = Some (?s, 2 * ?N * nat ?k + 2 * ?r, 2 * ?N * nat ?k + 2 * ?r + 1)"
    using init_within_world_Ok [of "world_pp n w" w world_sz] assms(1-3) by (auto simp: world_pp_def Let_def s)
  obtain m' where m': "init_within_world (world_pp n ?s) ?s world_sz = Ok m'"
    "prev_peer m' = Some (w, 2 * ?N * nat ?k + 2 * ?r, 2 * ?N * nat ?k + 2 * ?r + 1)"
    using init_within_world_Ok [of "world_pp n ?s" ?s world_sz] assms(1) sdm(4) slt
    by (auto simp: world_pp_def Let_def sdm pv r(1))
  obtain u where u: "init_within_world (world_pp n v) v world_sz = Ok u" "group_calls u = world_calls (world_pp n v) ?K"
    using init_within_world_Ok [of "world_pp n v" v world_sz] assms(1,4,5) by (auto simp: world_pp_def Let_def)
  have same: "world_calls (world_pp n v) K = world_calls (world_pp n w) K" for K
    by (simp add: world_calls_def replica_ranks_def world_pp_def)
  have "replica_ranks (world_pp n w) ?k ! ?r = w" "replica_ranks (world_pp n w) ?k ! next_in ?N ?r = ?s"
    using r nr s by (simp_all add: nth_replica_ranks world_pp_def)
  then have "group_calls m ! (2 * ?N * nat ?k + 2 * ?r) = (''gloo'', [w, ?s])"
    "group_calls m ! (2 * ?N * nat ?k + 2 * ?r + 1) = (''nccl'', [w, ?s])"
    using nth_world_calls [of ?r "world_pp n w" "nat ?k" ?K 0] nth_world_calls [of ?r "world_pp n w" "nat ?k" ?K 1]
      r k kn m(2) nth_pair_calls [of "replica_ranks (world_pp n w) ?k" ?r] by (simp_all add: world_pp_def)
  then show ?thesis using m m' u same by auto
qed

theorem neighbours_share_groups_witness:
  "\<exists>m cg gg. init_within_world (world_pp 3 4) 4 6 = Ok m \<and> next_peer m = Some (5, cg, gg)"
proof -
  have "successor_rank 3 4 = 5" by (simp add: successor_rank_def)
  then show ?thesis using neighbours_share_groups [of 3 4 6 0] by auto
qed

end
