(* ===== verification/Weight_Transfer.thy ===== *)
theory Weight_Transfer
  imports Tensors Runtime_Data "HOL-Library.Word"
begin

text \<open>
  Weight transfer from the trainer to a worker
  (\<open>src/vexact/integrations/verl/bucketed_weight_transfer.py\<close>): tensors are packed into a bucket of
  fixed size, a tensor larger than the bucket is cut into chunks, and the receiver cuts the bucket up
  again or reassembles the chunks. Every message is acknowledged before the sender touches the buffer
  again, so a message is modelled together with the contents of the buffer it refers to. A tensor is its
  bytes; the size of an element type is the parameter \<open>es\<close>. Closing sockets, shared memory and device
  caches has no effect on the data and is not modelled.

  The lemmas end in the round trip: what the receiver hands to its callback is what was sent.
\<close>

type_synonym byte = "8 word"
type_synonym 'd weight = "('d, byte) tensor"
type_synonym 'd esize = "'d \<Rightarrow> nat"

definition nbytes :: "'d esize \<Rightarrow> 'd weight \<Rightarrow> nat" where
  "nbytes es w = es (tdtype w) * numel (tshape w)"

record chunk_info =
  chunk_idx :: nat
  num_chunks :: nat
  chunk_start :: nat
  chunk_size :: nat

record 'd entry =
  e_shape :: "nat list"
  e_dtype :: 'd
  e_offset :: nat
  e_chunk :: "chunk_info option"

record 'd bucket_msg =
  bm_meta :: "(string \<times> 'd entry) list"
  bm_last :: bool
  bm_buffer :: "byte list"

section \<open>Sender\<close>

record 'd sender =
  snd_offset :: nat
  snd_meta :: "(string \<times> 'd entry) list"
  snd_buffer :: "byte list"
  snd_out :: "'d bucket_msg list"

definition bucket_bytes :: "nat \<Rightarrow> nat" where
  "bucket_bytes mb = push_bit 20 mb"

definition pack_tensor :: "'d esize \<Rightarrow> string \<Rightarrow> 'd weight \<Rightarrow> 'd sender \<Rightarrow> 'd sender res" where
  "pack_tensor es name w s =
     (let off = snd_offset s in
      rbind (copy_slice off (tdata w) (snd_buffer s) (off + nbytes es w)) (\<lambda>buf.
        Ok (s\<lparr>snd_meta := od_set name \<lparr>e_shape = tshape w, e_dtype = tdtype w, e_offset = off, e_chunk = None\<rparr> (snd_meta s),
              snd_buffer := buf\<rparr>)))"

definition advance :: "'d esize \<Rightarrow> 'd weight \<Rightarrow> 'd sender \<Rightarrow> 'd sender" where
  "advance es w s = s\<lparr>snd_offset := snd_offset s + nbytes es w\<rparr>"

definition send_bucket :: "(string \<times> 'd entry) list \<Rightarrow> bool \<Rightarrow> 'd sender \<Rightarrow> 'd sender" where
  "send_bucket meta last_one s =
     s\<lparr>snd_out := snd_out s @ [\<lparr>bm_meta = meta, bm_last = last_one, bm_buffer = snd_buffer s\<rparr>]\<rparr>"

definition flush_bucket :: "'d sender \<Rightarrow> 'd sender" where
  "flush_bucket s =
     (if snd_meta s \<noteq> [] then (send_bucket (snd_meta s) False s)\<lparr>snd_meta := [], snd_offset := 0\<rparr> else s)"

definition send_chunk :: "'d esize \<Rightarrow> nat \<Rightarrow> string \<Rightarrow> 'd weight \<Rightarrow> nat \<Rightarrow> nat \<Rightarrow> 'd sender \<Rightarrow> 'd sender res" where
  "send_chunk es bucket name w chunks i s =
     (let start = i * bucket; stop = min (start + bucket) (nbytes es w); size = stop - start in
      rbind (copy_slice 0 (take (stop - start) (drop start (tdata w))) (snd_buffer s) size) (\<lambda>buf.
        Ok (send_bucket
              [(name, \<lparr>e_shape = tshape w, e_dtype = tdtype w, e_offset = 0,
                       e_chunk = Some \<lparr>chunk_idx = i, num_chunks = chunks, chunk_start = start, chunk_size = size\<rparr>\<rparr>)]
              False (s\<lparr>snd_buffer := buf\<rparr>))))"

definition send_chunked_tensor :: "'d esize \<Rightarrow> nat \<Rightarrow> string \<Rightarrow> 'd weight \<Rightarrow> 'd sender \<Rightarrow> 'd sender res" where
  "send_chunked_tensor es bucket name w s =
     (let chunks = (nbytes es w + bucket - 1) div bucket
      in for_res (send_chunk es bucket name w chunks) [0..<chunks] s)"

definition send_weight :: "'d esize \<Rightarrow> nat \<Rightarrow> string \<times> 'd weight \<Rightarrow> 'd sender \<Rightarrow> 'd sender res" where
  "send_weight es bucket nw s =
     (let (name, w) = nw; n = nbytes es w in
      if n \<le> bucket \<and> snd_offset s + n \<le> bucket then
        rbind (pack_tensor es name w s) (\<lambda>s'. Ok (advance es w s'))
      else if n \<le> bucket then
        rbind (pack_tensor es name w (flush_bucket s)) (\<lambda>s'. Ok (advance es w s'))
      else send_chunked_tensor es bucket name w (flush_bucket s))"

text \<open>The buffer is allocated without a fill value and holds arbitrary bytes at first.\<close>

definition init_sender :: "byte list \<Rightarrow> 'd sender" where
  "init_sender buf = \<lparr>snd_offset = 0, snd_meta = [], snd_buffer = buf, snd_out = []\<rparr>"

definition send_weights :: "'d esize \<Rightarrow> byte list \<Rightarrow> (string \<times> 'd weight) list \<Rightarrow> 'd bucket_msg list res" where
  "send_weights es buf ws =
     rbind (for_res (send_weight es (length buf)) ws (init_sender buf)) (\<lambda>s.
       Ok (snd_out (send_bucket (snd_meta s) True s)))"

section \<open>Receiver\<close>

record 'd chunk_buffer =
  cb_data :: "byte list"
  cb_shape :: "nat list"
  cb_dtype :: 'd
  cb_received :: "nat set"

record 'd receiver =
  rcv_chunks :: "(string \<times> 'd chunk_buffer) list"
  rcv_calls :: "(string \<times> 'd weight) list list"

text \<open>
  \<open>bytes.view(dtype).view(shape)\<close> of a slice that starts \<open>off\<close> bytes into its storage: the offset and the
  length must be multiples of the element size.
\<close>

definition view_as :: "'d esize \<Rightarrow> nat \<Rightarrow> byte list \<Rightarrow> 'd \<Rightarrow> nat list \<Rightarrow> 'd weight res" where
  "view_as es off bs dt sh =
     (if off mod es dt \<noteq> 0 \<or> length bs mod es dt \<noteq> 0 \<or> length bs \<noteq> es dt * numel sh then Raise RuntimeError
      else Ok \<lparr>tshape = sh, tdtype = dt, tdata = bs\<rparr>)"

definition new_chunk_buffer :: "'d esize \<Rightarrow> byte \<Rightarrow> 'd entry \<Rightarrow> 'd chunk_buffer" where
  "new_chunk_buffer es g e =
     \<lparr>cb_data = replicate (numel (e_shape e) * es (e_dtype e)) g, cb_shape = e_shape e, cb_dtype = e_dtype e,
      cb_received = {}\<rparr>"

definition receive_chunk ::
    "'d esize \<Rightarrow> byte \<Rightarrow> byte list \<Rightarrow> string \<Rightarrow> 'd entry \<Rightarrow> chunk_info
       \<Rightarrow> (string \<times> 'd chunk_buffer) list \<times> (string \<times> 'd weight) list
       \<Rightarrow> ((string \<times> 'd chunk_buffer) list \<times> (string \<times> 'd weight) list) res" where
  "receive_chunk es g buf name e ci st =
     (let (chunks, weights) = st;
          cb = (case map_of chunks name of None \<Rightarrow> new_chunk_buffer es g e | Some cb \<Rightarrow> cb);
          start = chunk_start ci; size = chunk_size ci
      in rbind (copy_slice start (take size buf) (cb_data cb) (start + size)) (\<lambda>bytes.
         let cb' = cb\<lparr>cb_data := bytes, cb_received := insert (chunk_idx ci) (cb_received cb)\<rparr>
         in if card (cb_received cb') = num_chunks ci then
              rbind (view_as es 0 (cb_data cb') (cb_dtype cb') (cb_shape cb')) (\<lambda>t.
                Ok (od_pop name (od_set name cb' chunks), weights @ [(name, t)]))
            else Ok (od_set name cb' chunks, weights)))"

definition receive_entry ::
    "'d esize \<Rightarrow> byte \<Rightarrow> byte list \<Rightarrow> string \<times> 'd entry
       \<Rightarrow> (string \<times> 'd chunk_buffer) list \<times> (string \<times> 'd weight) list
       \<Rightarrow> ((string \<times> 'd chunk_buffer) list \<times> (string \<times> 'd weight) list) res" where
  "receive_entry es g buf ne st =
     (let (name, e) = ne in
      case e_chunk e of
        Some ci \<Rightarrow> receive_chunk es g buf name e ci st
      | None \<Rightarrow>
          (let size = es (e_dtype e) * numel (e_shape e) in
           rbind (view_as es (e_offset e) (take size (drop (e_offset e) buf)) (e_dtype e) (e_shape e)) (\<lambda>t.
             Ok (fst st, snd st @ [(name, t)]))))"

definition receive_message :: "'d esize \<Rightarrow> byte \<Rightarrow> 'd bucket_msg \<Rightarrow> 'd receiver \<Rightarrow> 'd receiver res" where
  "receive_message es g msg r =
     rbind (for_res (receive_entry es g (bm_buffer msg)) (bm_meta msg) (rcv_chunks r, [])) (\<lambda>(chunks, weights).
       Ok (r\<lparr>rcv_chunks := chunks, rcv_calls := rcv_calls r @ [weights]\<rparr>))"

text \<open>The receive loop ends with the message marked last, and waits when there is none.\<close>

fun receive_loop :: "'d esize \<Rightarrow> byte \<Rightarrow> 'd bucket_msg list \<Rightarrow> 'd receiver \<Rightarrow> 'd receiver res" where
  "receive_loop es g [] r = Hang"
| "receive_loop es g (msg # msgs) r =
     rbind (receive_message es g msg r) (\<lambda>r'. if bm_last msg then Ok r' else receive_loop es g msgs r')"

definition receive_weights :: "'d esize \<Rightarrow> byte \<Rightarrow> 'd bucket_msg list \<Rightarrow> (string \<times> 'd weight) list list res" where
  "receive_weights es g msgs =
     rbind (receive_loop es g msgs \<lparr>rcv_chunks = [], rcv_calls = []\<rparr>) (\<lambda>r. Ok (rcv_calls r))"

section \<open>Buckets come out as they went in\<close>

definition intact :: "'d esize \<Rightarrow> 'd weight \<Rightarrow> bool" where
  "intact es w \<longleftrightarrow> length (tdata w) = nbytes es w"

text \<open>Element sizes divide the bytes of every tensor of the list, hence every offset in a bucket.\<close>

definition aligned :: "'d esize \<Rightarrow> (string \<times> 'd weight) list \<Rightarrow> bool" where
  "aligned es ws \<longleftrightarrow> (\<forall>a\<in>snd ` set ws. \<forall>b\<in>snd ` set ws. es (tdtype a) dvd nbytes es b)"

fun layout :: "'d esize \<Rightarrow> nat \<Rightarrow> (string \<times> 'd weight) list \<Rightarrow> (string \<times> 'd entry) list" where
  "layout es off [] = []"
| "layout es off ((n, w) # ws) =
     (n, \<lparr>e_shape = tshape w, e_dtype = tdtype w, e_offset = off, e_chunk = None\<rparr>) # layout es (off + nbytes es w) ws"

definition total_bytes :: "'d esize \<Rightarrow> (string \<times> 'd weight) list \<Rightarrow> nat" where
  "total_bytes es ws = sum_list (map (nbytes es \<circ> snd) ws)"

lemma total_bytes_simps [simp]:
  "total_bytes es [] = 0"
  "total_bytes es (x # xs) = nbytes es (snd x) + total_bytes es xs"
  "total_bytes es (xs @ ys) = total_bytes es xs + total_bytes es ys"
  by (simp_all add: total_bytes_def)

lemma layout_append: "layout es off (xs @ ys) = layout es off xs @ layout es (off + total_bytes es xs) ys"
  by (induction es off xs rule: layout.induct) (simp_all add: add.assoc)

lemma layout_names [simp]: "map fst (layout es off ws) = map fst ws"
  by (induction es off ws rule: layout.induct) simp_all

lemma layout_Nil [simp]: "layout es off ws = [] \<longleftrightarrow> ws = []"
  by (cases ws) auto

definition payload :: "(string \<times> 'd weight) list \<Rightarrow> byte list" where
  "payload ws = concat (map (tdata \<circ> snd) ws)"

lemma length_payload: "\<forall>w\<in>snd ` set ws. intact es w \<Longrightarrow> length (payload ws) = total_bytes es ws"
  by (induction ws) (auto simp: payload_def intact_def)

lemma aligned_offset: "aligned es ws \<Longrightarrow> set xs \<subseteq> set ws \<Longrightarrow> a \<in> snd ` set ws \<Longrightarrow> es (tdtype a) dvd total_bytes es xs"
proof (induction xs)
  case (Cons x xs)
  then have "es (tdtype a) dvd nbytes es (snd x)" by (auto simp: aligned_def)
  then show ?case using Cons by simp
qed simp

lemma receive_layout:
  assumes "aligned es all" "set pre \<union> set ws \<subseteq> set all" "\<forall>w\<in>snd ` set ws. intact es w"
    and "take (total_bytes es ws) (drop (total_bytes es pre) buf) = payload ws"
    and "total_bytes es pre + total_bytes es ws \<le> length buf"
  shows "for_res (receive_entry es g buf) (layout es (total_bytes es pre) ws) (chunks, got) = Ok (chunks, got @ ws)"
  using assms(2-)
proof (induction ws arbitrary: pre got)
  case (Cons x ws)
  obtain n w where x: "x = (n, w)" by force
  let ?off = "total_bytes es pre" and ?n = "nbytes es w"
  have lw: "length (tdata w) = ?n" using Cons.prems(2) x by (simp add: intact_def)
  have split: "take ?n (drop ?off buf) @ take (total_bytes es ws) (drop ?n (drop ?off buf)) = tdata w @ payload ws"
    using Cons.prems(3) x by (simp add: payload_def take_add)
  have "length (take ?n (drop ?off buf)) = ?n" using Cons.prems(4) x by simp
  then have data: "take ?n (drop ?off buf) = tdata w"
    and rest: "take (total_bytes es ws) (drop ?n (drop ?off buf)) = payload ws"
    using split lw append_eq_append_conv [of "take ?n (drop ?off buf)" "tdata w"] by metis+
  have w: "w \<in> snd ` set all" using Cons.prems(1) x by force
  have "es (tdtype w) dvd ?off" by (rule aligned_offset [OF assms(1) _ w]) (use Cons.prems(1) in auto)
  moreover have "es (tdtype w) dvd ?n" using assms(1) w unfolding aligned_def by blast
  ultimately have view: "view_as es ?off (tdata w) (tdtype w) (tshape w) = Ok w"
    using lw by (simp add: view_as_def nbytes_def mod_eq_0_iff_dvd)
  have ent: "receive_entry es g buf (n, \<lparr>e_shape = tshape w, e_dtype = tdtype w, e_offset = ?off, e_chunk = None\<rparr>) (chunks, got) =
      Ok (chunks, got @ [x])"
    using data view x by (simp add: receive_entry_def nbytes_def)
  have "for_res (receive_entry es g buf) (layout es (total_bytes es (pre @ [x])) ws) (chunks, got @ [x]) =
      Ok (chunks, (got @ [x]) @ ws)"
    using Cons.prems rest x by (intro Cons.IH) (auto simp: add.commute)
  then show ?case using ent x by simp
qed simp

text \<open>
  \<open>delivers msgs ws\<close>: a receiver with no unfinished chunks ends without any after \<open>msgs\<close>, none of them the
  last, and has handed out exactly \<open>ws\<close>.
\<close>

definition delivers :: "'d esize \<Rightarrow> byte \<Rightarrow> 'd bucket_msg list \<Rightarrow> (string \<times> 'd weight) list \<Rightarrow> bool" where
  "delivers es g msgs ws \<longleftrightarrow> (\<forall>m\<in>set msgs. \<not> bm_last m) \<and>
     (\<forall>c. \<exists>calls. for_res (receive_message es g) msgs \<lparr>rcv_chunks = [], rcv_calls = c\<rparr> =
        Ok \<lparr>rcv_chunks = [], rcv_calls = c @ calls\<rparr> \<and> concat calls = ws)"

lemma delivers_Nil [simp]: "delivers es g [] ws \<longleftrightarrow> ws = []"
  by (auto simp: delivers_def)

lemma delivers_append:
  assumes "delivers es g ms ws" "delivers es g ms' ws'"
  shows "delivers es g (ms @ ms') (ws @ ws')"
proof -
  have "\<exists>calls. for_res (receive_message es g) (ms @ ms') \<lparr>rcv_chunks = [], rcv_calls = c\<rparr> =
      Ok \<lparr>rcv_chunks = [], rcv_calls = c @ calls\<rparr> \<and> concat calls = ws @ ws'" for c
  proof -
    obtain c1 where c1: "for_res (receive_message es g) ms \<lparr>rcv_chunks = [], rcv_calls = c\<rparr> =
        Ok \<lparr>rcv_chunks = [], rcv_calls = c @ c1\<rparr>" "concat c1 = ws" using assms(1) by (auto simp: delivers_def)
    obtain c2 where "for_res (receive_message es g) ms' \<lparr>rcv_chunks = [], rcv_calls = c @ c1\<rparr> =
        Ok \<lparr>rcv_chunks = [], rcv_calls = (c @ c1) @ c2\<rparr>" "concat c2 = ws'" using assms(2) unfolding delivers_def by blast
    then show ?thesis using c1 by (intro exI [of _ "c1 @ c2"]) (simp add: for_res_append)
  qed
  then show ?thesis using assms by (auto simp: delivers_def)
qed

text \<open>The bucket of a sender holds the tensors \<open>pk\<close>.\<close>

definition holds :: "'d esize \<Rightarrow> nat \<Rightarrow> 'd sender \<Rightarrow> (string \<times> 'd weight) list \<Rightarrow> bool" where
  "holds es B s pk \<longleftrightarrow>
     snd_meta s = layout es 0 pk \<and> snd_offset s = total_bytes es pk \<and> length (snd_buffer s) = B \<and>
     take (snd_offset s) (snd_buffer s) = payload pk \<and> snd_offset s \<le> B"

lemma receive_bucket:
  assumes "holds es B s pk" "aligned es all" "set pk \<subseteq> set all" "\<forall>w\<in>snd ` set all. intact es w"
  shows "receive_message es g \<lparr>bm_meta = snd_meta s, bm_last = l, bm_buffer = snd_buffer s\<rparr> \<lparr>rcv_chunks = [], rcv_calls = c\<rparr> =
    Ok \<lparr>rcv_chunks = [], rcv_calls = c @ [pk]\<rparr>"
proof -
  have "for_res (receive_entry es g (snd_buffer s)) (layout es (total_bytes es []) pk) ([], []) = Ok ([], [] @ pk)"
    using assms by (intro receive_layout [OF assms(2)]) (auto simp: holds_def)
  then show ?thesis using assms(1) by (simp add: receive_message_def holds_def)
qed

lemma pack_holds:
  assumes "holds es B s pk" "intact es w" "snd_offset s + nbytes es w \<le> B" "n \<notin> fst ` set pk"
  shows "\<exists>s'. pack_tensor es n w s = Ok s' \<and> holds es B (advance es w s') (pk @ [(n, w)]) \<and> snd_out s' = snd_out s"
proof -
  let ?off = "snd_offset s" and ?buf = "snd_buffer s"
  have c: "copy_slice ?off (tdata w) ?buf (?off + nbytes es w) =
      Ok (take ?off ?buf @ tdata w @ drop (?off + nbytes es w) ?buf)"
    using assms by (intro copy_slice_Ok) (simp_all add: holds_def intact_def)
  have "n \<notin> set (od_keys (layout es 0 pk))" using assms(4) by (simp del: list.set_map)
  then have od: "od_set n e (layout es 0 pk) = layout es 0 pk @ [(n, e)]" for e by (rule od_set_new)
  have H: "snd_meta s = layout es 0 pk" "?off = total_bytes es pk" "length ?buf = B" "take ?off ?buf = payload pk" "?off \<le> B"
    using assms(1) unfolding holds_def by blast+
  have l: "length (tdata w) = nbytes es w" using assms(2) by (simp add: intact_def)
  have lp: "length (payload pk) = ?off" using H(3-5) by (metis length_take min.absorb2)
  have "take (?off + nbytes es w) (take ?off ?buf @ tdata w @ drop (?off + nbytes es w) ?buf) = payload (pk @ [(n, w)])"
    unfolding H(4) using lp l by (simp add: payload_def)
  then show ?thesis
    using assms(3) c od H(1-3) l by (simp add: pack_tensor_def Let_def holds_def advance_def layout_append)
qed

lemma flush_holds:
  assumes "holds es B s pk" "aligned es all" "set pk \<subseteq> set all" "\<forall>w\<in>snd ` set all. intact es w"
    and "delivers es g (snd_out s) dn"
  shows "holds es B (flush_bucket s) [] \<and> delivers es g (snd_out (flush_bucket s)) (dn @ pk)"
proof (cases "pk = []")
  case True
  then show ?thesis using assms by (simp add: flush_bucket_def holds_def payload_def)
next
  case False
  then have ne: "snd_meta s \<noteq> []" using assms(1) by (simp add: holds_def)
  have "delivers es g [\<lparr>bm_meta = snd_meta s, bm_last = False, bm_buffer = snd_buffer s\<rparr>] pk"
    using receive_bucket [OF assms(1-4), of g False] by (simp add: delivers_def)
  then show ?thesis
    using delivers_append [OF assms(5)] ne assms(1)
    by (simp add: flush_bucket_def send_bucket_def holds_def payload_def)
qed

section \<open>Chunks are put together again\<close>

text \<open>The chunk buffer of the receiver once the first \<open>i\<close> chunks have arrived.\<close>

definition chunk_progress :: "'d esize \<Rightarrow> nat \<Rightarrow> 'd weight \<Rightarrow> nat \<Rightarrow> 'd chunk_buffer \<Rightarrow> bool" where
  "chunk_progress es B w i cb \<longleftrightarrow>
     cb_shape cb = tshape w \<and> cb_dtype cb = tdtype w \<and> cb_received cb = {..<i} \<and>
     length (cb_data cb) = nbytes es w \<and> take (i * B) (cb_data cb) = take (i * B) (tdata w)"

definition chunk_entry :: "'d esize \<Rightarrow> nat \<Rightarrow> 'd weight \<Rightarrow> nat \<Rightarrow> nat \<Rightarrow> 'd entry" where
  "chunk_entry es B w K i =
     \<lparr>e_shape = tshape w, e_dtype = tdtype w, e_offset = 0,
      e_chunk = Some \<lparr>chunk_idx = i, num_chunks = K, chunk_start = i * B,
                      chunk_size = min (i * B + B) (nbytes es w) - i * B\<rparr>\<rparr>"

lemma chunk_bounds:
  assumes "0 < (B :: nat)" "K = (n + B - 1) div B" "i < K"
  shows "i * B < n" "Suc i = K \<Longrightarrow> n \<le> Suc i * B" "Suc i < K \<Longrightarrow> Suc i * B < n"
proof -
  have *: "j < K \<Longrightarrow> j * B < n" for j
  proof -
    assume "j < K"
    then have "Suc j * B \<le> (n + B - 1) div B * B" using assms(2) by (intro mult_le_mono1) simp
    also have "\<dots> \<le> n + B - 1" by simp
    finally have "B + j * B \<le> n + B - 1" by simp
    then show "j * B < n" using assms(1) by linarith
  qed
  show "i * B < n" "Suc i < K \<Longrightarrow> Suc i * B < n" using * assms(3) by blast+
  show "n \<le> Suc i * B" if "Suc i = K"
  proof (rule ccontr)
    assume "\<not> n \<le> Suc i * B"
    then have "Suc i * B + 1 \<le> n" by linarith
    moreover have "Suc (Suc i) * B = B + Suc i * B" by simp
    ultimately have "Suc (Suc i) * B \<le> n + B - 1" by linarith
    then have "Suc (Suc i) \<le> K" using assms(1,2) by (simp add: less_eq_div_iff_mult_less_eq)
    then show False using that by simp
  qed
qed

lemma send_chunk_Ok:
  assumes "intact es w" "length (snd_buffer s) = B" "i * B < nbytes es w"
  shows "\<exists>buf. send_chunk es B n w K i s =
      Ok (s\<lparr>snd_buffer := buf, snd_out := snd_out s @ [\<lparr>bm_meta = [(n, chunk_entry es B w K i)], bm_last = False, bm_buffer = buf\<rparr>]\<rparr>)
    \<and> length buf = B \<and>
    take (min (i * B + B) (nbytes es w) - i * B) buf = take (min (i * B + B) (nbytes es w) - i * B) (drop (i * B) (tdata w))"
proof -
  let ?k = "min (i * B + B) (nbytes es w) - i * B"
  have k: "?k \<le> B" by simp
  have l: "length (take ?k (drop (i * B) (tdata w))) = ?k" using assms(1) by (auto simp: intact_def)
  have "copy_slice 0 (take ?k (drop (i * B) (tdata w))) (snd_buffer s) ?k =
      Ok (take ?k (drop (i * B) (tdata w)) @ drop ?k (snd_buffer s))"
    using copy_slice_Ok [of 0 ?k "snd_buffer s" "take ?k (drop (i * B) (tdata w))"] k l assms(2) by simp
  then show ?thesis
    using assms(2) k l
    by (intro exI [of _ "take ?k (drop (i * B) (tdata w)) @ drop ?k (snd_buffer s)"])
      (simp add: send_chunk_def Let_def send_bucket_def chunk_entry_def)
qed

lemma receive_chunk_eq:
  assumes "(case map_of chunks n of None \<Rightarrow> new_chunk_buffer es g e | Some c \<Rightarrow> c) = cb"
    and "copy_slice (chunk_start ci) (take (chunk_size ci) buf) (cb_data cb) (chunk_start ci + chunk_size ci) = Ok d"
    and "cb' = cb\<lparr>cb_data := d, cb_received := insert (chunk_idx ci) (cb_received cb)\<rparr>"
  shows "receive_chunk es g buf n e ci (chunks, got) =
    (if card (cb_received cb') = num_chunks ci then
       rbind (view_as es 0 (cb_data cb') (cb_dtype cb') (cb_shape cb')) (\<lambda>t.
         Ok (od_pop n (od_set n cb' chunks), got @ [(n, t)]))
     else Ok (od_set n cb' chunks, got))"
  unfolding receive_chunk_def Let_def prod.case assms(1,2) rbind.simps assms(3) [symmetric] ..

lemma receive_chunk_step:
  assumes "chunk_progress es B w i cb" "intact es w" "0 < B" "i * B < nbytes es w" "B \<le> length buf"
    and "take (min (i * B + B) (nbytes es w) - i * B) buf = take (min (i * B + B) (nbytes es w) - i * B) (drop (i * B) (tdata w))"
    and "map_of chunks n = Some cb \<or> map_of chunks n = None \<and> cb = new_chunk_buffer es g (chunk_entry es B w K i)"
  shows "\<exists>cb'. chunk_progress es B w (Suc i) cb' \<and>
    receive_entry es g buf (n, chunk_entry es B w K i) (chunks, got) =
      (if Suc i = K then
         rbind (view_as es 0 (cb_data cb') (tdtype w) (tshape w)) (\<lambda>t. Ok (od_pop n (od_set n cb' chunks), got @ [(n, t)]))
       else Ok (od_set n cb' chunks, got))"
proof -
  define hi where "hi = min (i * B + B) (nbytes es w)"
  let ?lo = "i * B" and ?n = "nbytes es w"
  let ?k = "hi - i * B"
  have hi: "?lo < hi" "hi \<le> ?n" "?k \<le> B" "Suc i * B \<le> ?n \<Longrightarrow> hi = Suc i * B" "\<not> Suc i * B \<le> ?n \<Longrightarrow> hi = ?n"
    using assms(3,4) by (auto simp: hi_def)
  have P: "cb_shape cb = tshape w" "cb_dtype cb = tdtype w" "cb_received cb = {..<i}"
    "length (cb_data cb) = ?n" "take ?lo (cb_data cb) = take ?lo (tdata w)"
    using assms(1) by (simp_all add: chunk_progress_def)
  have lw: "length (tdata w) = ?n" using assms(2) by (simp add: intact_def)
  have lb: "length (take ?k buf) = ?k" using hi(3) assms(5) by simp
  let ?d = "take ?lo (cb_data cb) @ take ?k buf @ drop hi (cb_data cb)"
  have cs: "copy_slice ?lo (take ?k buf) (cb_data cb) (?lo + ?k) = Ok ?d"
    using copy_slice_Ok [of ?lo hi "cb_data cb" "take ?k buf"] hi(1,2) P(4) lb by simp
  define cb' where "cb' = cb\<lparr>cb_data := ?d, cb_received := insert i (cb_received cb)\<rparr>"
  have len: "length ?d = ?n" using P(4) hi(1,2) lb by simp
  have "take ?k buf = take ?k (drop ?lo (tdata w))" using assms(6) by (simp add: hi_def)
  then have "take ?lo (cb_data cb) @ take ?k buf = take (?lo + ?k) (tdata w)"
    unfolding P(5) by (simp only: take_add)
  moreover have "?lo + ?k = hi" using hi(1) by simp
  ultimately have front: "?d = take hi (tdata w) @ drop hi (cb_data cb)" by (simp only: append_assoc [symmetric])
  have "take (Suc i * B) ?d = take (Suc i * B) (tdata w)"
  proof (cases "Suc i * B \<le> ?n")
    case True
    then show ?thesis unfolding front using hi(4) [OF True] lw by simp
  next
    case False
    then show ?thesis unfolding front using hi(5) [OF False] lw P(4) by simp
  qed
  then have prog: "chunk_progress es B w (Suc i) cb'"
    using P(1-3) len by (simp add: chunk_progress_def cb'_def lessThan_Suc del: append_assoc)
  have card: "card (cb_received cb') = Suc i" using prog by (simp add: chunk_progress_def)
  have cb: "(case map_of chunks n of None \<Rightarrow> new_chunk_buffer es g (chunk_entry es B w K i) | Some c \<Rightarrow> c) = cb"
    using assms(7) by auto
  have eq: "receive_entry es g buf (n, chunk_entry es B w K i) (chunks, got) =
      (if card (cb_received cb') = K then
         rbind (view_as es 0 (cb_data cb') (cb_dtype cb') (cb_shape cb')) (\<lambda>t.
           Ok (od_pop n (od_set n cb' chunks), got @ [(n, t)]))
       else Ok (od_set n cb' chunks, got))"
    using receive_chunk_eq [OF cb, of "\<lparr>chunk_idx = i, num_chunks = K, chunk_start = i * B, chunk_size = ?k\<rparr>" buf ?d cb' got]
      cs by (simp add: receive_entry_def chunk_entry_def hi_def [symmetric] cb'_def)
  have ty: "cb_dtype cb' = tdtype w" "cb_shape cb' = tshape w" using P(1,2) by (simp_all add: cb'_def)
  show ?thesis using conjI [OF prog eq [unfolded card ty]] by (rule exI)
qed

text \<open>The messages of the first \<open>i\<close> chunks, and what a receiver holds after them.\<close>

definition chunks_sent :: "'d esize \<Rightarrow> byte \<Rightarrow> nat \<Rightarrow> string \<Rightarrow> 'd weight \<Rightarrow> nat \<Rightarrow> nat \<Rightarrow> 'd bucket_msg list \<Rightarrow> bool" where
  "chunks_sent es g B n w K i ms \<longleftrightarrow> (\<forall>m\<in>set ms. \<not> bm_last m) \<and>
     (if i = K then delivers es g ms [(n, w)]
      else \<exists>cb. chunk_progress es B w i cb \<and> (i = 0 \<longrightarrow> cb = new_chunk_buffer es g (chunk_entry es B w K 0)) \<and>
        (\<forall>c. \<exists>calls. for_res (receive_message es g) ms \<lparr>rcv_chunks = [], rcv_calls = c\<rparr> =
           Ok \<lparr>rcv_chunks = if i = 0 then [] else [(n, cb)], rcv_calls = c @ calls\<rparr> \<and> concat calls = []))"

lemma receive_chunk_message:
  "receive_message es g \<lparr>bm_meta = [(n, e)], bm_last = l, bm_buffer = buf\<rparr> \<lparr>rcv_chunks = ch, rcv_calls = c\<rparr> =
     rbind (receive_entry es g buf (n, e) (ch, [])) (\<lambda>(ch', ws). Ok \<lparr>rcv_chunks = ch', rcv_calls = c @ [ws]\<rparr>)"
  by (cases "receive_entry es g buf (n, e) (ch, [])") (auto simp: receive_message_def)

lemma view_intact: "intact es w \<Longrightarrow> view_as es 0 (tdata w) (tdtype w) (tshape w) = Ok w"
  by (simp add: view_as_def intact_def nbytes_def)

lemma chunks_sent_step:
  assumes "chunks_sent es g B n w K i ms" "intact es w" "0 < B" "K = (nbytes es w + B - 1) div B" "i < K" "length buf = B"
    and "take (min (i * B + B) (nbytes es w) - i * B) buf = take (min (i * B + B) (nbytes es w) - i * B) (drop (i * B) (tdata w))"
  shows "chunks_sent es g B n w K (Suc i)
    (ms @ [\<lparr>bm_meta = [(n, chunk_entry es B w K i)], bm_last = False, bm_buffer = buf\<rparr>])"
proof -
  let ?m = "\<lparr>bm_meta = [(n, chunk_entry es B w K i)], bm_last = False, bm_buffer = buf\<rparr>"
  obtain cb where cb: "chunk_progress es B w i cb" "i = 0 \<longrightarrow> cb = new_chunk_buffer es g (chunk_entry es B w K 0)"
    and run: "\<And>c. \<exists>calls. for_res (receive_message es g) ms \<lparr>rcv_chunks = [], rcv_calls = c\<rparr> =
        Ok \<lparr>rcv_chunks = if i = 0 then [] else [(n, cb)], rcv_calls = c @ calls\<rparr> \<and> concat calls = []"
    using assms(1,5) by (auto simp: chunks_sent_def)
  note bnd = chunk_bounds [OF assms(3,4,5)]
  let ?ch = "if i = 0 then [] else [(n, cb)]"
  have "map_of ?ch n = Some cb \<or> map_of ?ch n = None \<and> cb = new_chunk_buffer es g (chunk_entry es B w K i)"
    using cb(2) by auto
  from receive_chunk_step [OF cb(1) assms(2,3) bnd(1) _ assms(7) this, of "[]"] assms(6) obtain cb' where
    cb': "chunk_progress es B w (Suc i) cb'"
    "receive_entry es g buf (n, chunk_entry es B w K i) (?ch, []) =
      (if Suc i = K then rbind (view_as es 0 (cb_data cb') (tdtype w) (tshape w)) (\<lambda>t. Ok (od_pop n (od_set n cb' ?ch), [] @ [(n, t)]))
       else Ok (od_set n cb' ?ch, []))"
    by auto
  have od: "od_set n cb' ?ch = [(n, cb')]" "od_pop n [(n, cb')] = []" by (simp_all add: od_pop_def)
  show ?thesis
  proof (cases "Suc i = K")
    case True
    have "nbytes es w \<le> Suc i * B" using bnd(2) [OF True] .
    then have "cb_data cb' = tdata w"
      using cb'(1) assms(2) unfolding chunk_progress_def intact_def by (metis take_all)
    then have "receive_entry es g buf (n, chunk_entry es B w K i) (?ch, []) = Ok ([], [(n, w)])"
      using cb'(2) True od view_intact [OF assms(2)] by simp
    then have m: "receive_message es g ?m \<lparr>rcv_chunks = ?ch, rcv_calls = c\<rparr> = Ok \<lparr>rcv_chunks = [], rcv_calls = c @ [[(n, w)]]\<rparr>" for c
      by (simp only: receive_chunk_message rbind.simps prod.case)
    have "\<exists>calls. for_res (receive_message es g) (ms @ [?m]) \<lparr>rcv_chunks = [], rcv_calls = c\<rparr> =
        Ok \<lparr>rcv_chunks = [], rcv_calls = c @ calls\<rparr> \<and> concat calls = [(n, w)]" for c
    proof -
      obtain calls where "for_res (receive_message es g) ms \<lparr>rcv_chunks = [], rcv_calls = c\<rparr> =
          Ok \<lparr>rcv_chunks = ?ch, rcv_calls = c @ calls\<rparr>" "concat calls = []" using run [of c] by blast
      then show ?thesis
        using m [of "c @ calls"] by (intro exI [of _ "calls @ [[(n, w)]]"]) (simp only: for_res_append rbind.simps for_res.simps, simp)
    qed
    then have "delivers es g (ms @ [?m]) [(n, w)]" using assms(1) by (auto simp: delivers_def chunks_sent_def)
    then show ?thesis using True assms(1) by (auto simp: chunks_sent_def)
  next
    case False
    then have m: "receive_message es g ?m \<lparr>rcv_chunks = ?ch, rcv_calls = c\<rparr> = Ok \<lparr>rcv_chunks = [(n, cb')], rcv_calls = c @ [[]]\<rparr>" for c
      using cb'(2) od by (simp only: receive_chunk_message if_False rbind.simps prod.case)
    have "\<exists>calls. for_res (receive_message es g) (ms @ [?m]) \<lparr>rcv_chunks = [], rcv_calls = c\<rparr> =
        Ok \<lparr>rcv_chunks = [(n, cb')], rcv_calls = c @ calls\<rparr> \<and> concat calls = []" for c
    proof -
      obtain calls where "for_res (receive_message es g) ms \<lparr>rcv_chunks = [], rcv_calls = c\<rparr> =
          Ok \<lparr>rcv_chunks = ?ch, rcv_calls = c @ calls\<rparr>" "concat calls = []" using run [of c] by blast
      then show ?thesis
        using m [of "c @ calls"] by (intro exI [of _ "calls @ [[]]"]) (simp only: for_res_append rbind.simps for_res.simps, simp)
    qed
    then show ?thesis using False cb'(1) assms(1) by (auto simp: chunks_sent_def)
  qed
qed

lemma chunks_sent_start:
  assumes "0 < K"
  shows "chunks_sent es g B n w K 0 []"
proof -
  have "chunk_progress es B w 0 (new_chunk_buffer es g (chunk_entry es B w K 0))"
    by (simp add: chunk_progress_def new_chunk_buffer_def chunk_entry_def nbytes_def)
  then show ?thesis using assms by (auto simp: chunks_sent_def intro!: exI [of _ "[]"])
qed

lemma send_chunked_holds:
  assumes "holds es B s []" "delivers es g (snd_out s) dn" "intact es w" "0 < B" "B < nbytes es w"
  shows "\<exists>s'. send_chunked_tensor es B n w s = Ok s' \<and> holds es B s' [] \<and> delivers es g (snd_out s') (dn @ [(n, w)])"
proof -
  define K where "K = (nbytes es w + B - 1) div B"
  have K: "0 < K" using assms(4,5) by (simp add: K_def div_greater_zero_iff)
  have "i \<le> K \<Longrightarrow> \<exists>s' ms. for_res (send_chunk es B n w K) [0..<i] s = Ok s' \<and> holds es B s' [] \<and>
      snd_out s' = snd_out s @ ms \<and> chunks_sent es g B n w K i ms" for i
  proof (induction i)
    case 0
    show ?case using assms(1) chunks_sent_start [OF K, of es g B n w] by simp
  next
    case (Suc i)
    then obtain s1 ms where s1: "for_res (send_chunk es B n w K) [0..<i] s = Ok s1" "holds es B s1 []"
      "snd_out s1 = snd_out s @ ms" "chunks_sent es g B n w K i ms" by auto
    have i: "i < K" using Suc.prems by simp
    have lb: "length (snd_buffer s1) = B" using s1(2) by (simp add: holds_def)
    obtain buf where buf: "send_chunk es B n w K i s1 = Ok (s1\<lparr>snd_buffer := buf, snd_out := snd_out s1 @
        [\<lparr>bm_meta = [(n, chunk_entry es B w K i)], bm_last = False, bm_buffer = buf\<rparr>]\<rparr>)" "length buf = B"
      "take (min (i * B + B) (nbytes es w) - i * B) buf = take (min (i * B + B) (nbytes es w) - i * B) (drop (i * B) (tdata w))"
      using send_chunk_Ok [OF assms(3) lb chunk_bounds(1) [OF assms(4) K_def i], of n K] by blast
    have "chunks_sent es g B n w K (Suc i) (ms @ [\<lparr>bm_meta = [(n, chunk_entry es B w K i)], bm_last = False, bm_buffer = buf\<rparr>])"
      by (rule chunks_sent_step [OF s1(4) assms(3,4) K_def i buf(2,3)])
    then show ?case using s1(1-3) buf(1,2) by (auto simp: for_res_append holds_def payload_def)
  qed
  from this [of K] obtain s' ms where "for_res (send_chunk es B n w K) [0..<K] s = Ok s'" "holds es B s' []"
    "snd_out s' = snd_out s @ ms" "delivers es g ms [(n, w)]"
    by (auto simp: chunks_sent_def)
  then show ?thesis
    using delivers_append [OF assms(2)] unfolding send_chunked_tensor_def Let_def K_def [symmetric] by auto
qed

definition sent_so_far :: "'d esize \<Rightarrow> byte \<Rightarrow> nat \<Rightarrow> 'd sender \<Rightarrow> (string \<times> 'd weight) list \<Rightarrow> bool" where
  "sent_so_far es g B s ws \<longleftrightarrow> (\<exists>dn pk. ws = dn @ pk \<and> delivers es g (snd_out s) dn \<and> holds es B s pk)"

lemma send_weight_step:
  assumes "sent_so_far es g B s ws" "aligned es all" "set ws \<subseteq> set all" "\<forall>w\<in>snd ` set all. intact es w"
    and "(n, w) \<in> set all" "n \<notin> fst ` set ws" "0 < B"
  shows "\<exists>s'. send_weight es B (n, w) s = Ok s' \<and> sent_so_far es g B s' (ws @ [(n, w)])"
proof -
  obtain dn pk where d: "ws = dn @ pk" "delivers es g (snd_out s) dn" "holds es B s pk"
    using assms(1) by (auto simp: sent_so_far_def)
  have iw: "intact es w" using assms(4,5) by force
  have pk: "set pk \<subseteq> set all" "n \<notin> fst ` set pk" using assms(3,6) d(1) by auto
  note fl = flush_holds [OF d(3) assms(2) pk(1) assms(4) d(2)]
  have f0: "snd_offset (flush_bucket s) = 0" using fl by (simp add: holds_def)
  consider (fits) "nbytes es w \<le> B" "snd_offset s + nbytes es w \<le> B"
    | (full) "nbytes es w \<le> B" "\<not> snd_offset s + nbytes es w \<le> B" | (large) "B < nbytes es w" by linarith
  then show ?thesis
  proof cases
    case fits
    from pack_holds [OF d(3) iw fits(2) pk(2)] obtain s' where
      "pack_tensor es n w s = Ok s'" "holds es B (advance es w s') (pk @ [(n, w)])" "snd_out s' = snd_out s" by blast
    note p = this
    have "sent_so_far es g B (advance es w s') (ws @ [(n, w)])"
      unfolding sent_so_far_def
      by (rule exI [of _ dn], rule exI [of _ "pk @ [(n, w)]"]) (use d p in \<open>simp add: advance_def\<close>)
    then show ?thesis using fits p by (auto simp: send_weight_def)
  next
    case full
    have "snd_offset (flush_bucket s) + nbytes es w \<le> B" using full f0 by simp
    from pack_holds [OF conjunct1 [OF fl] iw this] obtain s' where
      "pack_tensor es n w (flush_bucket s) = Ok s'" "holds es B (advance es w s') [(n, w)]"
      "snd_out s' = snd_out (flush_bucket s)" by auto
    note p = this
    have "sent_so_far es g B (advance es w s') (ws @ [(n, w)])"
      unfolding sent_so_far_def
      by (rule exI [of _ ws], rule exI [of _ "[(n, w)]"]) (use d fl p in \<open>simp add: advance_def\<close>)
    then show ?thesis using full p by (auto simp: send_weight_def)
  next
    case large
    from send_chunked_holds [OF conjunct1 [OF fl] conjunct2 [OF fl] iw assms(7) large, of n] obtain s' where
      "send_chunked_tensor es B n w (flush_bucket s) = Ok s'" "holds es B s' []"
      "delivers es g (snd_out s') ((dn @ pk) @ [(n, w)])" by blast
    note p = this
    have "sent_so_far es g B s' (ws @ [(n, w)])"
      unfolding sent_so_far_def
      by (rule exI [of _ "ws @ [(n, w)]"], rule exI [of _ "[]"]) (use d p in simp)
    then show ?thesis using large p by (auto simp: send_weight_def)
  qed
qed

lemma send_all_weights:
  assumes "sent_so_far es g B s done_ws" "aligned es all" "\<forall>w\<in>snd ` set all. intact es w" "0 < B"
    and "set done_ws \<union> set ws \<subseteq> set all" "distinct (map fst (done_ws @ ws))"
  shows "\<exists>s'. for_res (send_weight es B) ws s = Ok s' \<and> sent_so_far es g B s' (done_ws @ ws)"
  using assms(1,5,6)
proof (induction ws arbitrary: s done_ws)
  case (Cons x ws)
  obtain n w where x: "x = (n, w)" by force
  have "n \<notin> fst ` set done_ws" using Cons.prems(3) x by auto
  then obtain s1 where s1: "send_weight es B x s = Ok s1" "sent_so_far es g B s1 (done_ws @ [x])"
    using send_weight_step [OF Cons.prems(1) assms(2) _ assms(3) _ _ assms(4), of n w] Cons.prems(2) x by auto
  show ?case using Cons.IH [OF s1(2)] Cons.prems(2,3) s1(1) by auto
qed auto

lemma receive_loop_delivers:
  assumes "\<forall>m\<in>set ms. \<not> bm_last m" "for_res (receive_message es g) ms r = Ok r'"
  shows "receive_loop es g (ms @ rest) r = receive_loop es g rest r'"
  using assms by (induction ms arbitrary: r) auto

text \<open>
  C17. Weights survive the transfer: for tensors with distinct names whose element sizes divide the byte
  counts of the batch (in particular for one element type), any bucket size and any list of tensors,
  larger than the bucket or not, the sender raises nothing, the receiver terminates, and what it hands to
  its callback, bucket after bucket, is the list that was sent, in order and bit for bit.
\<close>

theorem weights_round_trip:
  assumes "distinct (map fst ws)" "\<forall>w\<in>snd ` set ws. intact es w" "aligned es ws" "buf \<noteq> []"
  shows "\<exists>msgs calls. send_weights es buf ws = Ok msgs \<and> receive_weights es g msgs = Ok calls \<and> concat calls = ws"
proof -
  let ?B = "length buf"
  have "sent_so_far es g ?B (init_sender buf) []"
    by (simp add: sent_so_far_def init_sender_def holds_def payload_def)
  from send_all_weights [OF this assms(3,2), of ws] assms(1,4) obtain s where
    s: "for_res (send_weight es ?B) ws (init_sender buf) = Ok s" "sent_so_far es g ?B s ws" by auto
  then obtain dn pk where d: "ws = dn @ pk" "delivers es g (snd_out s) dn" "holds es ?B s pk"
    by (auto simp: sent_so_far_def)
  let ?last = "\<lparr>bm_meta = snd_meta s, bm_last = True, bm_buffer = snd_buffer s\<rparr>"
  obtain calls where calls: "for_res (receive_message es g) (snd_out s) \<lparr>rcv_chunks = [], rcv_calls = []\<rparr> =
      Ok \<lparr>rcv_chunks = [], rcv_calls = calls\<rparr>" "concat calls = dn"
    using d(2) unfolding delivers_def by (metis append_Nil)
  have "set pk \<subseteq> set ws" using d(1) by simp
  from receive_bucket [OF d(3) assms(3) this assms(2), of g True calls]
  have "receive_loop es g (snd_out s @ [?last]) \<lparr>rcv_chunks = [], rcv_calls = []\<rparr> = Ok \<lparr>rcv_chunks = [], rcv_calls = calls @ [pk]\<rparr>"
    using receive_loop_delivers [OF _ calls(1), of "[?last]"] d(2) by (simp add: delivers_def)
  moreover have "send_weights es buf ws = Ok (snd_out s @ [?last])" using s(1) by (simp add: send_weights_def send_bucket_def)
  ultimately show ?thesis using calls(2) d(1) by (auto simp: receive_weights_def)
qed

text \<open>A bucket of four bytes: the second tensor travels in three chunks.\<close>

theorem weights_round_trip_witness:
  "\<exists>msgs calls. send_weights (\<lambda>_. 2) [0, 0, 0, 0]
      [(''a'', \<lparr>tshape = [1], tdtype = (), tdata = [1, 2]\<rparr>), (''b'', \<lparr>tshape = [5], tdtype = (), tdata = [1, 2, 3, 4, 5, 6, 7, 8, 9, 10]\<rparr>)] =
      Ok msgs \<and> receive_weights (\<lambda>_. 2) 255 msgs = Ok calls \<and> map fst (concat calls) = [''a'', ''b'']"
proof -
  let ?ws = "[(''a'', \<lparr>tshape = [1], tdtype = (), tdata = [1, 2]\<rparr>), (''b'', \<lparr>tshape = [5], tdtype = (), tdata = [1, 2, 3, 4, 5, 6, 7, 8, 9, 10]\<rparr>)] :: (string \<times> unit weight) list"
  have "distinct (map fst ?ws)" "\<forall>w\<in>snd ` set ?ws. intact (\<lambda>_. 2) w" "aligned (\<lambda>_. 2) ?ws" "[0, 0, 0, 0 :: byte] \<noteq> []"
    by (simp_all add: intact_def aligned_def nbytes_def numel_def)
  from weights_round_trip [OF this, of 255] show ?thesis by fastforce
qed

text \<open>
  Without the alignment hypothesis the transfer fails: three bytes followed by a tensor of four-byte
  elements share a bucket, and the receiver's view of the second one is refused.
\<close>

lemma mixed_element_sizes_fail:
  "\<exists>msgs. send_weights (\<lambda>wide. if wide then 4 else 1) (replicate 16 0)
      [(''mask'', \<lparr>tshape = [3], tdtype = False, tdata = [1, 2, 3]\<rparr>), (''w'', \<lparr>tshape = [1], tdtype = True, tdata = [1, 2, 3, 4]\<rparr>)] =
      Ok msgs \<and> receive_weights (\<lambda>wide. if wide then 4 else 1) 0 msgs = Raise RuntimeError"
  by (simp add: send_weights_def send_weight_def pack_tensor_def nbytes_def numel_def init_sender_def copy_slice_def
      advance_def send_bucket_def receive_weights_def receive_message_def receive_entry_def view_as_def Let_def)

end
