(* ===== verification/Request_Channel.thy ===== *)
theory Request_Channel
  imports Driver_Worker "HOL-Library.Sublist"
begin

text \<open>
  The request channel (\<open>src/vexact/ipc/request_channel.py\<close>), the driver's proxy that feeds it
  (\<open>DriverWorkerProxy\<close> in \<open>src/vexact/worker/worker_proxy.py\<close>) and the engine call on top of it
  (\<open>src/vexact/engine.py\<close>). The sockets deliver in order; what the client has sent and the server has not
  read is part of the client's state. Timeouts of polls, the monitor task's log messages and the codec of
  the records, which round-trips them, are not modelled.

  The lemmas show that every caller gets the outputs of its own request, in order, and nothing else.
\<close>

section \<open>Client\<close>

record ('q, 'f) req_client =
  rc_in_address :: string
  rc_out_address :: string
  rc_sent :: "'q list"
  rc_queues :: "(string \<times> 'f driver_request_output list) list"
  rc_tasks :: bool

definition make_client :: "string \<Rightarrow> ('q, 'f) req_client res" where
  "make_client address =
     (if \<not> prefix ''ipc://'' address then Raise ValueError
      else Ok \<lparr>rc_in_address = address @ ''.in'', rc_out_address = address @ ''.out'', rc_sent = [],
               rc_queues = [], rc_tasks = False\<rparr>)"

text \<open>\<open>submit\<close> up to its first wait: the tasks exist, the queue is registered, the request is sent.\<close>

definition client_submit :: "string \<Rightarrow> 'q \<Rightarrow> ('q, 'f) req_client \<Rightarrow> ('q, 'f) req_client" where
  "client_submit name req c =
     c\<lparr>rc_tasks := True, rc_queues := od_set name [] (rc_queues c), rc_sent := rc_sent c @ [req]\<rparr>"

text \<open>One turn of \<open>_receive_loop\<close>: an output without a queue is dropped.\<close>

definition client_route :: "'f driver_request_output \<Rightarrow> ('q, 'f) req_client \<Rightarrow> ('q, 'f) req_client" where
  "client_route out c =
     (case map_of (rc_queues c) (out_request_id out) of
        None \<Rightarrow> c
      | Some q \<Rightarrow> c\<lparr>rc_queues := od_set (out_request_id out) (q @ [out]) (rc_queues c)\<rparr>)"

text \<open>One turn of the generator in \<open>submit\<close>: it waits on an empty queue, and leaves after a final output.\<close>

definition client_next :: "string \<Rightarrow> ('q, 'f) req_client \<Rightarrow> ('f driver_request_output \<times> ('q, 'f) req_client) res" where
  "client_next name c =
     (case map_of (rc_queues c) name of
        None \<Rightarrow> Hang
      | Some [] \<Rightarrow> Hang
      | Some (out # rest) \<Rightarrow>
          Ok (out, c\<lparr>rc_queues := if output_is_running out then od_set name rest (rc_queues c)
                                 else od_pop name (od_set name rest (rc_queues c))\<rparr>))"

section \<open>Server and proxy\<close>

definition make_server :: "string \<Rightarrow> (string \<times> string) res" where
  "make_server address =
     (if \<not> prefix ''ipc://'' address then Raise ValueError else Ok (address @ ''.in'', address @ ''.out''))"

text \<open>\<open>_on_request\<close>: the new request object has reference \<open>r\<close>.\<close>

definition on_request :: "ref \<Rightarrow> 'f driver_request \<Rightarrow> ('f, 'c) driver \<Rightarrow> (bool \<times> ('f, 'c) driver) res" where
  "on_request r req d = rbind (from_driver_request req) (\<lambda>q. Ok (driver_submit r q d))"

definition poll_outputs :: "bool \<Rightarrow> ('f, 'c) driver \<Rightarrow> ('f driver_request_output list \<times> ('f, 'c) driver) res" where
  "poll_outputs has_timeout d =
     rbind (driver_poll has_timeout d) (\<lambda>(rs, d').
       Ok (map (\<lambda>r. to_driver_request_output (store (scheduler_of d') r)) rs, d'))"

text \<open>A turn of the input loop on a message, exceptions logged; a turn of the output loop.\<close>

definition input_turn :: "ref \<Rightarrow> 'f driver_request \<Rightarrow> ('f, 'c) driver \<Rightarrow> ('f, 'c) driver" where
  "input_turn r req d = (case on_request r req d of Ok (_, d') \<Rightarrow> d' | _ \<Rightarrow> d)"

definition output_turn :: "('f, 'c) driver \<Rightarrow> 'f driver_request_output list \<times> ('f, 'c) driver" where
  "output_turn d = (case poll_outputs True d of Ok (outs, d') \<Rightarrow> (outs, d') | _ \<Rightarrow> ([], d))"

section \<open>Engine\<close>

text \<open>
  \<open>generate\<close> returns the first output of the generator, whose outputs are given here in order; with a
  timeout, waiting for ever becomes \<open>TimeoutError\<close>.
\<close>

definition engine_result :: "bool \<Rightarrow> 'f driver_request_output list \<Rightarrow> 'f driver_request_output res" where
  "engine_result has_timeout outs =
     (case outs of out # _ \<Rightarrow> Ok out | [] \<Rightarrow> if has_timeout then Raise TimeoutError else Hang)"

section \<open>Every caller gets its own outputs\<close>

datatype ('q, 'f) client_event =
    Submit string 'q
  | Arrive "'f driver_request_output"
  | Next string

text \<open>The client, with what each generator has yielded so far.\<close>

fun client_step ::
    "('q, 'f) client_event \<Rightarrow> ('q, 'f) req_client \<times> (string \<Rightarrow> 'f driver_request_output list)
       \<Rightarrow> ('q, 'f) req_client \<times> (string \<Rightarrow> 'f driver_request_output list)" where
  "client_step (Submit name req) (c, y) = (client_submit name req c, y)"
| "client_step (Arrive out) (c, y) = (client_route out c, y)"
| "client_step (Next name) (c, y) =
     (case client_next name c of Ok (out, c') \<Rightarrow> (c', y(name := y name @ [out])) | _ \<Rightarrow> (c, y))"

fun submitted :: "('q, 'f) client_event list \<Rightarrow> string list" where
  "submitted [] = []"
| "submitted (Submit name _ # es) = name # submitted es"
| "submitted (_ # es) = submitted es"

fun arrivals :: "string \<Rightarrow> ('q, 'f) client_event list \<Rightarrow> 'f driver_request_output list" where
  "arrivals name [] = []"
| "arrivals name (Arrive out # es) = (if out_request_id out = name then out # arrivals name es else arrivals name es)"
| "arrivals name (_ # es) = arrivals name es"

text \<open>The outputs for a request that arrive after it was submitted.\<close>

fun owed :: "string \<Rightarrow> ('q, 'f) client_event list \<Rightarrow> 'f driver_request_output list" where
  "owed name [] = []"
| "owed name (Submit q _ # es) = (if q = name then arrivals name es else owed name es)"
| "owed name (_ # es) = owed name es"

lemma submitted_append [simp]: "submitted (xs @ ys) = submitted xs @ submitted ys"
  by (induction xs rule: submitted.induct) simp_all

lemma arrivals_append [simp]: "arrivals name (xs @ ys) = arrivals name xs @ arrivals name ys"
  by (induction name xs rule: arrivals.induct) simp_all

lemma owed_append: "owed name (xs @ ys) = (if name \<in> set (submitted xs) then owed name xs @ arrivals name ys else owed name ys)"
  by (induction name xs rule: owed.induct) auto

text \<open>
  The state of one request: not registered before it is submitted; then what was yielded and what waits in
  its queue are what arrived; and once the generator has left, what was yielded ends in a final output.
\<close>

definition stream_ok ::
    "string \<Rightarrow> ('q, 'f) client_event list \<Rightarrow> ('q, 'f) req_client \<times> (string \<Rightarrow> 'f driver_request_output list) \<Rightarrow> bool" where
  "stream_ok name es st \<longleftrightarrow>
     (if name \<in> set (submitted es) then
        (case map_of (rc_queues (fst st)) name of
           Some q \<Rightarrow> owed name es = snd st name @ q \<and> (\<forall>out\<in>set (snd st name). output_is_running out)
         | None \<Rightarrow> \<exists>rest ys out. owed name es = snd st name @ rest \<and> snd st name = ys @ [out] \<and>
             (\<forall>o'\<in>set ys. output_is_running o') \<and> \<not> output_is_running out)
      else map_of (rc_queues (fst st)) name = None \<and> snd st name = [])"

lemma stream_ok_step:
  assumes "stream_ok name es (c, y)" "distinct (submitted (es @ [e]))"
  shows "stream_ok name (es @ [e]) (client_step e (c, y))"
proof (cases e)
  case (Submit q req)
  then show ?thesis
    using assms by (auto simp: stream_ok_def client_submit_def owed_append split: option.splits if_splits)
next
  case (Arrive out)
  then show ?thesis
    using assms(1) by (auto simp: stream_ok_def client_route_def owed_append split: option.splits if_splits)
next
  case (Next q)
  show ?thesis
  proof (cases "q = name")
    case True
    then show ?thesis
      using assms(1) Next
      by (auto simp: stream_ok_def client_next_def owed_append split: option.splits list.splits if_splits)
  next
    case False
    then show ?thesis
      using assms(1) Next
      by (auto simp: stream_ok_def client_next_def owed_append split: option.splits list.splits if_splits)
  qed
qed

lemma stream_ok_run:
  assumes "stream_ok name es st" "distinct (submitted (es @ es'))"
  shows "stream_ok name (es @ es') (fold client_step es' st)"
  using assms
proof (induction es' arbitrary: es st)
  case (Cons e es')
  obtain c y where st: "st = (c, y)" by force
  have d: "distinct (submitted (es @ [e]))" 
  proof -
    have "submitted (es @ e # es') = submitted (es @ [e]) @ submitted es'" by (metis append_Cons append_Nil append_assoc submitted_append)
    then show ?thesis using Cons.prems(2) by auto
  qed
  from stream_ok_step [OF Cons.prems(1) [unfolded st] d] Cons.IH [of "es @ [e]"] Cons.prems(2) st show ?case by simp
qed simp

lemma make_client_empty: "make_client address = Ok c \<Longrightarrow> stream_ok name [] (c, \<lambda>_. [])"
  by (auto simp: make_client_def stream_ok_def split: if_splits)

lemma arrivals_named: "\<forall>out\<in>set (arrivals name es). out_request_id out = name"
proof (induction es)
  case (Cons e es)
  then show ?case by (cases e) simp_all
qed simp

lemma owed_named: "\<forall>out\<in>set (owed name es). out_request_id out = name"
proof (induction name es rule: owed.induct)
  case (2 name q req es)
  then show ?case using arrivals_named [of name es] by simp
qed simp_all

text \<open>
  C20. Answers go to the caller that asked: in any interleaving of submissions with distinct request ids,
  arriving outputs and reads, what a caller has been given is, in order, a prefix of the outputs for its
  own id that arrived after its submission; nothing is lost while the caller is still waiting, and a caller
  that has left was given exactly one final output, its last.
\<close>

theorem outputs_reach_their_caller:
  assumes "make_client address = Ok c0" "distinct (submitted es)" "(c, given) = fold client_step es (c0, \<lambda>_. [])"
    and "name \<in> set (submitted es)"
  shows "(\<forall>out\<in>set (given name). out_request_id out = name) \<and>
    (case map_of (rc_queues c) name of
       Some pend \<Rightarrow> owed name es = given name @ pend \<and> (\<forall>out\<in>set (given name). output_is_running out)
     | None \<Rightarrow> \<exists>late. owed name es = given name @ late \<and> given name \<noteq> [] \<and> \<not> output_is_running (last (given name)) \<and>
         (\<forall>out\<in>set (butlast (given name)). output_is_running out))"
proof -
  have ok: "stream_ok name es (c, given)"
    using stream_ok_run [OF make_client_empty [OF assms(1)], of es name] assms(2,3) by simp
  then have "\<exists>rest. owed name es = given name @ rest"
    using assms(4) by (auto simp: stream_ok_def split: option.splits)
  then have "\<forall>out\<in>set (given name). out_request_id out = name" using owed_named [of name es] by auto
  with ok assms(4) show ?thesis by (auto simp: stream_ok_def split: option.splits)
qed

definition ex_out :: "string \<Rightarrow> int list \<Rightarrow> int driver_request_output" where
  "ex_out name ts = \<lparr>out_request_id = name, new_token_ids = ts, new_logprobs = None, out_status = FINISHED, out_reason = None\<rparr>"

text \<open>Two callers, answered in the opposite order.\<close>

theorem outputs_reach_their_caller_witness:
  "\<exists>c0 :: (int, int) req_client. make_client ''ipc:///tmp/a'' = Ok c0 \<and>
     snd (fold client_step [Submit ''a'' 1, Submit ''b'' 2, Arrive (ex_out ''b'' [7]), Arrive (ex_out ''a'' [5]), Next ''a''] (c0, \<lambda>_. [])) ''a'' =
       [ex_out ''a'' [5]]"
proof -
  let ?es = "[Submit ''a'' 1, Submit ''b'' 2, Arrive (ex_out ''b'' [7]), Arrive (ex_out ''a'' [5]), Next ''a''] :: (int, int) client_event list"
  obtain c0 :: "(int, int) req_client" where c0: "make_client ''ipc:///tmp/a'' = Ok c0" by (simp add: make_client_def)
  obtain c given where run: "(c, given) = fold client_step ?es (c0, \<lambda>_. [])" by (metis surj_pair)
  have "rc_queues c0 = []" using c0 by (auto simp: make_client_def split: if_splits)
  then have none: "map_of (rc_queues c) ''a'' = None"
    using run by (simp add: client_submit_def client_route_def client_next_def ex_out_def output_is_running_def od_pop_def)
  have "distinct (submitted ?es)" "''a'' \<in> set (submitted ?es)" "owed ''a'' ?es = [ex_out ''a'' [5]]" by (simp_all add: ex_out_def)
  with outputs_reach_their_caller [OF c0 _ run, of "''a''"] none
  have "given ''a'' \<noteq> [] \<and> (\<exists>late. [ex_out ''a'' [5]] = given ''a'' @ late)" by auto
  then have "given ''a'' = [ex_out ''a'' [5]]" by (cases "given ''a''") auto
  then show ?thesis using c0 run by (intro exI [of _ c0]) (metis snd_conv)
qed

text \<open>
  A request without input tokens is refused by the constructor; the input loop logs the exception and the
  caller, whose queue stays registered, waits for an output that never comes.
\<close>

lemma missing_input_is_dropped: "dr_input_ids_list req = None \<Longrightarrow> input_turn r req d = d"
  by (simp add: input_turn_def on_request_def from_driver_request_def make_request_def)

end
