(* ===== verification/Control_Channel.thy ===== *)
theory Control_Channel
  imports Prelude "HOL-Library.Sublist"
begin

text \<open>
  The control channel (\<open>src/vexact/ipc/control_channel.py\<close>): one client calls a method on every worker
  and collects the answers. A server owns one reply socket; its loop decodes a message, dispatches it to
  the target object if the method is on the white list, and encodes the answer. The codec, the target's
  methods and the client's sockets are parameters: \<open>'m\<close> are messages, \<open>'a\<close> argument values, \<open>'r\<close>
  results and \<open>'w\<close> the state of the target. Log messages are not modelled; error texts are, because
  they are sent to the peer.

  The lemmas show which calls reach the target, that a call reaches every worker exactly once whatever
  the others answer, and how the answers are combined.
\<close>

section \<open>Messages\<close>

record 'a control_request =
  rq_method :: string
  rq_args :: "'a list"
  rq_kwargs :: "(string \<times> 'a) list"

record 'r control_response =
  rs_success :: bool
  rs_result :: "'r option"
  rs_error :: "string option"

definition ok_response :: "'r \<Rightarrow> 'r control_response" where
  "ok_response x = \<lparr>rs_success = True, rs_result = Some x, rs_error = None\<rparr>"

definition error_response :: "string \<Rightarrow> 'r control_response" where
  "error_response e = \<lparr>rs_success = False, rs_result = None, rs_error = Some e\<rparr>"

text \<open>A codec may fail: on a malformed message, and on a value it cannot serialise.\<close>

record ('m, 'a, 'r) codec =
  enc_request :: "'a control_request \<Rightarrow> 'm"
  dec_request :: "'m \<Rightarrow> string + 'a control_request"
  enc_response :: "'r control_response \<Rightarrow> 'm option"
  dec_response :: "'m \<Rightarrow> string + 'r control_response"

text \<open>The target: which attributes it has, and what calling one does, \<open>Inl\<close> being \<open>str(e)\<close> of an exception.\<close>

record ('w, 'a, 'r) target =
  has_method :: "string \<Rightarrow> bool"
  call_method :: "string \<Rightarrow> 'a list \<Rightarrow> (string \<times> 'a) list \<Rightarrow> 'w \<Rightarrow> (string + 'r) \<times> 'w"

section \<open>Server\<close>

definition handle_request ::
    "('w, 'a, 'r) target \<Rightarrow> string list \<Rightarrow> 'a control_request \<Rightarrow> 'w \<Rightarrow> 'r control_response \<times> 'w" where
  "handle_request t allowed r w =
     (if rq_method r \<notin> set allowed then (error_response (''Method not allowed: '' @ rq_method r), w)
      else if \<not> has_method t (rq_method r) then (error_response (''Method not found: '' @ rq_method r), w)
      else case call_method t (rq_method r) (rq_args r) (rq_kwargs r) w of
             (Inr x, w') \<Rightarrow> (ok_response x, w')
           | (Inl e, w') \<Rightarrow> (error_response e, w'))"

text \<open>
  A reply socket alternates receive and send. \<open>srv_owing\<close> records a request that was received and not
  answered: every further receive then fails, is logged, and the loop goes on.
\<close>

record ('m, 'w) ctrl_server =
  srv_alive :: bool
  srv_shutdown :: bool
  srv_open :: bool
  srv_dual_stack :: bool
  srv_owing :: bool
  srv_target :: 'w
  srv_replies :: "'m list"

definition is_tcp :: "string \<Rightarrow> bool" where
  "is_tcp address = prefix ''tcp://'' address"

definition init_server :: "string \<Rightarrow> 'w \<Rightarrow> ('m, 'w) ctrl_server" where
  "init_server address w =
     \<lparr>srv_alive = False, srv_shutdown = False, srv_open = True, srv_dual_stack = is_tcp address,
      srv_owing = False, srv_target = w, srv_replies = []\<rparr>"

definition server_start :: "('m, 'w) ctrl_server \<Rightarrow> ('m, 'w) ctrl_server" where
  "server_start s = (if srv_alive s then s else s\<lparr>srv_shutdown := False, srv_alive := True\<rparr>)"

text \<open>
  Stopping sets the flag, wakes the loop with an empty message so that it leaves, waits for it and closes
  the socket.
\<close>

definition server_stop :: "('m, 'w) ctrl_server \<Rightarrow> ('m, 'w) ctrl_server" where
  "server_stop s = (if \<not> srv_alive s then s else s\<lparr>srv_shutdown := True, srv_alive := False, srv_open := False\<rparr>)"

text \<open>One turn of the loop, for a message that is waiting.\<close>

definition server_round ::
    "('m, 'a, 'r) codec \<Rightarrow> ('w, 'a, 'r) target \<Rightarrow> string list \<Rightarrow> 'm \<Rightarrow> ('m, 'w) ctrl_server \<Rightarrow> ('m, 'w) ctrl_server" where
  "server_round c t allowed msg s =
     (if srv_shutdown s then s\<lparr>srv_alive := False\<rparr>
      else if srv_owing s then s
      else
        (let (response, w) =
               (case dec_request c msg of
                  Inl e \<Rightarrow> (error_response (''Server error: '' @ e), srv_target s)
                | Inr r \<Rightarrow> handle_request t allowed r (srv_target s))
         in case enc_response c response of
              Some m \<Rightarrow> s\<lparr>srv_target := w, srv_replies := srv_replies s @ [m]\<rparr>
            | None \<Rightarrow> s\<lparr>srv_target := w, srv_owing := True\<rparr>))"

section \<open>Client\<close>

text \<open>
  The network between the client and its proxies, as the client sees it: sending on a socket may fail,
  and receiving yields a message, fails, or waits for ever.
\<close>

record ('m, 'n) sockets =
  sock_send :: "nat \<Rightarrow> 'm \<Rightarrow> 'n \<Rightarrow> string option \<times> 'n"
  sock_recv :: "nat \<Rightarrow> 'n \<Rightarrow> ((string + 'm) \<times> 'n) option"

definition proxy_error :: "string list \<Rightarrow> nat \<Rightarrow> string \<Rightarrow> string" where
  "proxy_error addrs i e = ''Proxy '' @ nat_str i @ '' ('' @ addrs ! i @ ''): '' @ e"

fun send_phase ::
    "('m, 'n) sockets \<Rightarrow> string list \<Rightarrow> 'm \<Rightarrow> nat list \<Rightarrow> 'n \<Rightarrow> string list \<times> nat list \<times> 'n" where
  "send_phase k addrs m [] net = ([], [], net)"
| "send_phase k addrs m (i # is) net =
     (case sock_send k i m net of
        (None, net') \<Rightarrow> (let (errs, sent, net'') = send_phase k addrs m is net' in (errs, i # sent, net''))
      | (Some e, net') \<Rightarrow>
          (let (errs, sent, net'') = send_phase k addrs m is net'
           in (proxy_error addrs i (''send failed: '' @ e) # errs, sent, net'')))"

text \<open>An answer without an error text is printed as Python prints \<open>None\<close>.\<close>

definition error_text :: "'r control_response \<Rightarrow> string" where
  "error_text r = (case rs_error r of Some e \<Rightarrow> e | None \<Rightarrow> ''None'')"

definition classify ::
    "('m, 'a, 'r) codec \<Rightarrow> string list \<Rightarrow> nat \<Rightarrow> string + 'm \<Rightarrow> string + 'r option" where
  "classify c addrs i x =
     (case x of
        Inl e \<Rightarrow> Inl (proxy_error addrs i (''recv failed: '' @ e))
      | Inr m \<Rightarrow> (case dec_response c m of
            Inl e \<Rightarrow> Inl (proxy_error addrs i (''recv failed: '' @ e))
          | Inr r \<Rightarrow> if rs_success r then Inr (rs_result r) else Inl (proxy_error addrs i (error_text r))))"

fun recv_phase ::
    "('m, 'n) sockets \<Rightarrow> ('m, 'a, 'r) codec \<Rightarrow> string list \<Rightarrow> nat list \<Rightarrow> 'n
       \<Rightarrow> (string list \<times> 'r option list \<times> 'n) option" where
  "recv_phase k c addrs [] net = Some ([], [], net)"
| "recv_phase k c addrs (i # is) net =
     (case sock_recv k i net of
        None \<Rightarrow> None
      | Some (x, net') \<Rightarrow>
          (case recv_phase k c addrs is net' of
             None \<Rightarrow> None
           | Some (errs, results, net'') \<Rightarrow>
               (case classify c addrs i x of
                  Inl e \<Rightarrow> Some (e # errs, results, net'')
                | Inr r \<Rightarrow> Some (errs, r # results, net''))))"

fun join_with :: "string \<Rightarrow> string list \<Rightarrow> string" where
  "join_with sep [] = []"
| "join_with sep [x] = x"
| "join_with sep (x # y # xs) = x @ sep @ join_with sep (y # xs)"

text \<open>
  The call: \<open>None\<close> when a receive never returns, \<open>Inl\<close> the text of the \<open>RuntimeError\<close>, \<open>Inr\<close> the results. The request
  is one that the encoder accepts: where it does not, its exception leaves the call before anything is sent.
\<close>

definition collective_rpc ::
    "('m, 'n) sockets \<Rightarrow> ('m, 'a, 'r) codec \<Rightarrow> string list \<Rightarrow> string \<Rightarrow> 'a list \<Rightarrow> (string \<times> 'a) list \<Rightarrow> 'n
       \<Rightarrow> ((string + 'r option list) \<times> 'n) option" where
  "collective_rpc k c addrs name args kwargs net =
     (let m = enc_request c \<lparr>rq_method = name, rq_args = args, rq_kwargs = kwargs\<rparr>;
          (errs, sent, net1) = send_phase k addrs m [0..<length addrs] net
      in case recv_phase k c addrs sent net1 of
           None \<Rightarrow> None
         | Some (errs', results, net2) \<Rightarrow>
             Some (if errs @ errs' \<noteq> [] then Inl (''Errors calling '' @ name @ '': '' @ join_with ''; '' (errs @ errs'))
                   else Inr results, net2))"

section \<open>A call over the network of servers\<close>

text \<open>
  The sockets of a client whose peers are the servers in the list: a message sent is handled by its
  server, and a receive takes the server's next reply or waits.
\<close>

definition served ::
    "('m, 'a, 'r) codec \<Rightarrow> ('w, 'a, 'r) target \<Rightarrow> string list \<Rightarrow> ('m, ('m, 'w) ctrl_server list) sockets" where
  "served c t allowed =
     \<lparr>sock_send = (\<lambda>i m net. (None, net[i := server_round c t allowed m (net ! i)])),
      sock_recv = (\<lambda>i net. case srv_replies (net ! i) of
          [] \<Rightarrow> None
        | m # rest \<Rightarrow> Some (Inr m, net[i := (net ! i)\<lparr>srv_replies := rest\<rparr>]))\<rparr>"

fun lefts :: "('a + 'b) list \<Rightarrow> 'a list" where
  "lefts [] = []"
| "lefts (Inl a # xs) = a # lefts xs"
| "lefts (Inr b # xs) = lefts xs"

fun rights :: "('a + 'b) list \<Rightarrow> 'b list" where
  "rights [] = []"
| "rights (Inl a # xs) = rights xs"
| "rights (Inr b # xs) = b # rights xs"

lemma lefts_Nil: "lefts xs = [] \<longleftrightarrow> (\<forall>x\<in>set xs. \<not> isl x)"
  by (induction xs rule: lefts.induct) auto

definition update_all :: "nat list \<Rightarrow> ('x \<Rightarrow> 'x) \<Rightarrow> 'x list \<Rightarrow> 'x list" where
  "update_all is f net = fold (\<lambda>i net. net[i := f (net ! i)]) is net"

lemma length_update_all [simp]: "length (update_all is f net) = length net"
  by (induction "is" arbitrary: net) (simp_all add: update_all_def)

lemma nth_update_all:
  "distinct is \<Longrightarrow> j < length net \<Longrightarrow> update_all is f net ! j = (if j \<in> set is then f (net ! j) else net ! j)"
proof (induction "is" arbitrary: net)
  case (Cons i "is")
  then show ?case by (cases "i = j") (auto simp: update_all_def)
qed (simp add: update_all_def)

lemma update_all_upt: "update_all [0..<length net] f net = map f net"
  by (rule nth_equalityI) (simp_all add: nth_update_all)

lemma send_phase_served:
  "send_phase (served c t allowed) addrs m is net = ([], is, update_all is (server_round c t allowed m) net)"
proof (induction "is" arbitrary: net)
  case Nil
  show ?case by (simp add: update_all_def)
next
  case (Cons i "is")
  then show ?case by (simp add: served_def update_all_def)
qed

lemma recv_phase_served:
  assumes "distinct is" "\<forall>i\<in>set is. i < length net \<and> srv_replies (net ! i) = [msg i]"
  shows "recv_phase (served c t allowed) c addrs is net =
    Some (lefts (map (\<lambda>i. classify c addrs i (Inr (msg i))) is), rights (map (\<lambda>i. classify c addrs i (Inr (msg i))) is),
          update_all is (\<lambda>s. s\<lparr>srv_replies := []\<rparr>) net)"
  using assms
proof (induction "is" arbitrary: net)
  case Nil
  show ?case by (simp add: update_all_def)
next
  case (Cons i "is")
  let ?net = "net[i := (net ! i)\<lparr>srv_replies := []\<rparr>]"
  have r: "sock_recv (served c t allowed) i net = Some (Inr (msg i), ?net)" using Cons.prems by (simp add: served_def)
  have "\<forall>j\<in>set is. j < length ?net \<and> srv_replies (?net ! j) = [msg j]"
    using Cons.prems by (auto simp: nth_list_update)
  from Cons.IH [OF _ this] Cons.prems(1) have IH: "recv_phase (served c t allowed) c addrs is ?net =
      Some (lefts (map (\<lambda>i. classify c addrs i (Inr (msg i))) is), rights (map (\<lambda>i. classify c addrs i (Inr (msg i))) is),
            update_all is (\<lambda>s. s\<lparr>srv_replies := []\<rparr>) ?net)" by simp
  show ?case using r IH by (simp add: update_all_def split: sum.splits)
qed

text \<open>A receive from a server that has not answered never returns.\<close>

lemma recv_phase_waits:
  assumes "distinct is" "j \<in> set is" "\<forall>i\<in>set is. i < length net" "srv_replies (net ! j) = []"
  shows "recv_phase (served c t allowed) c addrs is net = None"
  using assms
proof (induction "is" arbitrary: net)
  case (Cons i "is")
  show ?case
  proof (cases "srv_replies (net ! i)")
    case Nil
    then show ?thesis by (simp add: served_def)
  next
    case (Cons m ms)
    then have j: "j \<in> set is" "j \<noteq> i" using Cons.prems by auto
    let ?net = "net[i := (net ! i)\<lparr>srv_replies := ms\<rparr>]"
    have "recv_phase (served c t allowed) c addrs is ?net = None"
      using Cons.prems j by (intro Cons.IH) (auto simp: nth_list_update)
    then show ?thesis using Cons by (simp add: served_def)
  qed
qed simp

definition answer :: "('w, 'a, 'r) target \<Rightarrow> string list \<Rightarrow> 'a control_request \<Rightarrow> ('m, 'w) ctrl_server \<Rightarrow> 'r control_response" where
  "answer t allowed r s = fst (handle_request t allowed r (srv_target s))"

text \<open>
  What the channel relies on: requests, and answers that can be encoded, are decoded as they were
  encoded.
\<close>

locale faithful_codec =
  fixes c :: "('m, 'a, 'r) codec"
  assumes request_law: "dec_request c (enc_request c r) = Inr r"
    and response_law: "enc_response c x = Some m \<Longrightarrow> dec_response c m = Inr x"
begin

text \<open>An idle server that receives a request runs it and has its answer ready, if it can be encoded.\<close>

lemma round_answers:
  assumes "\<not> srv_shutdown s" "\<not> srv_owing s" "enc_response c (answer t allowed r s) = Some m"
  shows "server_round c t allowed (enc_request c r) s =
    s\<lparr>srv_target := snd (handle_request t allowed r (srv_target s)), srv_replies := srv_replies s @ [m]\<rparr>"
  using assms by (auto simp: server_round_def request_law answer_def split: prod.splits)

lemma round_stuck:
  assumes "\<not> srv_shutdown s" "\<not> srv_owing s" "enc_response c (answer t allowed r s) = None"
  shows "server_round c t allowed (enc_request c r) s =
    s\<lparr>srv_target := snd (handle_request t allowed r (srv_target s)), srv_owing := True\<rparr>"
  using assms by (auto simp: server_round_def request_law answer_def split: prod.splits)

lemma call_collects:
  assumes r: "r = \<lparr>rq_method = name, rq_args = args, rq_kwargs = kwargs\<rparr>" and "length addrs = length net"
    and idle: "\<forall>s\<in>set net. \<not> srv_shutdown s \<and> \<not> srv_owing s \<and> srv_replies s = []"
    and enc: "\<forall>s\<in>set net. enc_response c (answer t allowed r s) \<noteq> None"
  shows "collective_rpc (served c t allowed) c addrs name args kwargs net =
    (let xs = map (\<lambda>i. let x = answer t allowed r (net ! i) in
                 if rs_success x then Inr (rs_result x) else Inl (proxy_error addrs i (error_text x))) [0..<length net]
     in Some (if lefts xs \<noteq> [] then Inl (''Errors calling '' @ name @ '': '' @ join_with ''; '' (lefts xs)) else Inr (rights xs),
              map (\<lambda>s. s\<lparr>srv_target := snd (handle_request t allowed r (srv_target s))\<rparr>) net))"
proof -
  let ?f = "server_round c t allowed (enc_request c r)"
  let ?ix = "[0..<length net]"
  define msg where "msg i = the (enc_response c (answer t allowed r (net ! i)))" for i
  have msg: "enc_response c (answer t allowed r (net ! i)) = Some (msg i)" if "i < length net" for i
    using enc that by (auto simp: msg_def)
  have f: "?f (net ! i) = (net ! i)\<lparr>srv_target := snd (handle_request t allowed r (srv_target (net ! i))), srv_replies := [msg i]\<rparr>"
    if "i < length net" for i
    using round_answers [OF _ _ msg [OF that]] idle that by simp
  have sp: "send_phase (served c t allowed) addrs (enc_request c r) ?ix net = ([], ?ix, map ?f net)"
    by (simp add: send_phase_served update_all_upt)
  have "\<forall>i\<in>set ?ix. i < length (map ?f net) \<and> srv_replies (map ?f net ! i) = [msg i]" using f by simp
  from recv_phase_served [OF distinct_upt this]
  have rp: "recv_phase (served c t allowed) c addrs ?ix (map ?f net) =
      Some (lefts (map (\<lambda>i. classify c addrs i (Inr (msg i))) ?ix), rights (map (\<lambda>i. classify c addrs i (Inr (msg i))) ?ix),
            map (\<lambda>s. s\<lparr>srv_replies := []\<rparr>) (map ?f net))"
    using update_all_upt [of "map ?f net"] by simp
  have cl: "map (\<lambda>i. classify c addrs i (Inr (msg i))) ?ix =
      map (\<lambda>i. let x = answer t allowed r (net ! i) in
        if rs_success x then Inr (rs_result x) else Inl (proxy_error addrs i (error_text x))) ?ix"
    using response_law [OF msg] by (simp add: classify_def Let_def)
  have net: "map (\<lambda>s. s\<lparr>srv_replies := []\<rparr>) (map ?f net) = map (\<lambda>s. s\<lparr>srv_target := snd (handle_request t allowed r (srv_target s))\<rparr>) net"
    by (rule nth_equalityI) (use f idle in auto)
  show ?thesis
    unfolding collective_rpc_def Let_def r [symmetric] assms(2) sp prod.case rp option.case cl net by simp
qed

lemma call_hangs:
  assumes r: "r = \<lparr>rq_method = name, rq_args = args, rq_kwargs = kwargs\<rparr>" and "length addrs = length net"
    and s: "s \<in> set net" "\<not> srv_shutdown s" "\<not> srv_owing s" "srv_replies s = []" "enc_response c (answer t allowed r s) = None"
  shows "collective_rpc (served c t allowed) c addrs name args kwargs net = None"
proof -
  let ?f = "server_round c t allowed (enc_request c r)"
  obtain j where j: "j < length net" "net ! j = s" using s(1) by (auto simp: in_set_conv_nth)
  have "srv_replies (map ?f net ! j) = []" using round_stuck [OF s(2,3,5)] j s(4) by simp
  then have "recv_phase (served c t allowed) c addrs [0..<length net] (map ?f net) = None"
    using j by (intro recv_phase_waits [of _ j]) auto
  then show ?thesis
    unfolding collective_rpc_def Let_def r [symmetric] assms(2) send_phase_served update_all_upt prod.case by simp
qed

end

text \<open>Messages as the values they stand for; a result that cannot be serialised is one that is not listed.\<close>

datatype ('a, 'r) wire = RequestMsg "'a control_request" | ResponseMsg "'r control_response"

definition wire_codec :: "('r \<Rightarrow> bool) \<Rightarrow> (('a, 'r) wire, 'a, 'r) codec" where
  "wire_codec serialisable =
     \<lparr>enc_request = RequestMsg,
      dec_request = (\<lambda>m. case m of RequestMsg r \<Rightarrow> Inr r | ResponseMsg _ \<Rightarrow> Inl ''expected ControlRequest''),
      enc_response = (\<lambda>x. if rs_result x = None \<or> serialisable (the (rs_result x)) then Some (ResponseMsg x) else None),
      dec_response = (\<lambda>m. case m of ResponseMsg x \<Rightarrow> Inr x | RequestMsg _ \<Rightarrow> Inl ''expected ControlResponse'')\<rparr>"

interpretation wc: faithful_codec "wire_codec p"
  by unfold_locales (auto simp: wire_codec_def split: if_splits)

section \<open>What reaches the target\<close>

lemma handle_not_allowed: "rq_method r \<notin> set allowed \<Longrightarrow> snd (handle_request t allowed r w) = w \<and> \<not> rs_success (fst (handle_request t allowed r w))"
  by (simp add: handle_request_def error_response_def)

lemma handle_runs:
  "rq_method r \<in> set allowed \<Longrightarrow> has_method t (rq_method r) \<Longrightarrow>
    snd (handle_request t allowed r w) = snd (call_method t (rq_method r) (rq_args r) (rq_kwargs r) w)"
  by (auto simp: handle_request_def split: prod.splits sum.splits)

lemma lefts_map_if: "lefts (map (\<lambda>i. if p i then Inr (f i) else Inl (g i)) xs) = map g (filter (\<lambda>i. \<not> p i) xs)"
  by (induction xs) auto

lemma rights_map_if: "rights (map (\<lambda>i. if p i then Inr (f i) else Inl (g i)) xs) = map f (filter p xs)"
  by (induction xs) auto

text \<open>
  C18. A collective call: when every worker's server is idle and its answer can be encoded, the call
  returns; every worker has run the method exactly once, whatever the others answered; the caller gets
  all results, in the order of the workers, if all succeeded, and otherwise one error that names exactly
  the workers that failed.
\<close>

theorem collective_call_reaches_every_worker:
  assumes "faithful_codec c" "length addrs = length net" "name \<in> set allowed" "has_method t name"
    and "\<forall>s\<in>set net. \<not> srv_shutdown s \<and> \<not> srv_owing s \<and> srv_replies s = []"
    and "outcome_of = (\<lambda>s. fst (call_method t name args kwargs (srv_target s)))"
    and "\<forall>s\<in>set net. enc_response c (case outcome_of s of Inl e \<Rightarrow> error_response e | Inr x \<Rightarrow> ok_response x) \<noteq> None"
  shows "\<exists>result. collective_rpc (served c t allowed) c addrs name args kwargs net =
      Some (result, map (\<lambda>s. s\<lparr>srv_target := snd (call_method t name args kwargs (srv_target s))\<rparr>) net) \<and>
    (if \<forall>s\<in>set net. \<not> isl (outcome_of s) then result = Inr (map (\<lambda>s. Some (projr (outcome_of s))) net)
     else result = Inl (''Errors calling '' @ name @ '': '' @ join_with ''; ''
       (map (\<lambda>i. proxy_error addrs i (projl (outcome_of (net ! i)))) (filter (\<lambda>i. isl (outcome_of (net ! i))) [0..<length net]))))"
proof -
  let ?r = "\<lparr>rq_method = name, rq_args = args, rq_kwargs = kwargs\<rparr>"
  let ?ok = "\<lambda>i. \<not> isl (outcome_of (net ! i))"
  have h: "handle_request t allowed ?r (srv_target s) =
      (case outcome_of s of Inl e \<Rightarrow> error_response e | Inr x \<Rightarrow> ok_response x, snd (call_method t name args kwargs (srv_target s)))" for s
    using assms(3,4) by (auto simp: handle_request_def assms(6) split: prod.splits sum.splits)
  have a: "answer t allowed ?r s = (case outcome_of s of Inl e \<Rightarrow> error_response e | Inr x \<Rightarrow> ok_response x)" for s
    by (simp add: answer_def h)
  have "\<forall>s\<in>set net. enc_response c (answer t allowed ?r s) \<noteq> None" using assms(7) by (simp add: a)
  note call = faithful_codec.call_collects [OF assms(1) refl assms(2,5) this]
  have x: "(let x = answer t allowed ?r (net ! i) in
        if rs_success x then Inr (rs_result x) else Inl (proxy_error addrs i (error_text x))) =
      (if ?ok i then Inr (Some (projr (outcome_of (net ! i)))) else Inl (proxy_error addrs i (projl (outcome_of (net ! i)))))" for i
    by (cases "outcome_of (net ! i)") (simp_all add: a Let_def ok_response_def error_response_def error_text_def)
  have all: "(\<forall>s\<in>set net. \<not> isl (outcome_of s)) \<longleftrightarrow> filter (\<lambda>i. isl (outcome_of (net ! i))) [0..<length net] = []"
    by (auto simp: filter_empty_conv all_set_conv_all_nth)
  have ok: "filter ?ok [0..<length net] = [0..<length net]" if "\<forall>s\<in>set net. \<not> isl (outcome_of s)"
    using that by (auto intro!: filter_True)
  have "map (\<lambda>i. Some (projr (outcome_of (net ! i)))) [0..<length net] = map (\<lambda>s. Some (projr (outcome_of s))) net"
    by (rule nth_equalityI) simp_all
  then show ?thesis
    unfolding call x unfolding lefts_map_if rights_map_if h snd_conv Let_def using all ok by simp
qed

definition ex_target :: "(nat, nat, nat) target" where
  "ex_target = \<lparr>has_method = (\<lambda>m. m = ''sleep''),
     call_method = (\<lambda>m args kwargs w. (if w = 1 then Inl ''busy'' else Inr (w + 10), w + 1))\<rparr>"

definition ex_server :: "nat \<Rightarrow> ((nat, nat) wire, nat) ctrl_server" where
  "ex_server w = init_server ''ipc:///tmp/x'' w"

text \<open>Two workers, the second one fails; both have run the method.\<close>

theorem collective_call_reaches_every_worker_witness:
  "collective_rpc (served (wire_codec (\<lambda>_. True)) ex_target [''sleep'']) (wire_codec (\<lambda>_. True)) [''a'', ''b''] ''sleep'' [] []
     [ex_server 0, ex_server 1] =
   Some (Inl (''Errors calling sleep: Proxy '' @ nat_str 1 @ '' (b): busy''), [ex_server 1, ex_server 2])"
proof -
  have "\<forall>s\<in>set [ex_server 0, ex_server 1]. \<not> srv_shutdown s \<and> \<not> srv_owing s \<and> srv_replies s = []"
    "has_method ex_target ''sleep''"
    by (simp_all add: ex_server_def init_server_def ex_target_def)
  note call = collective_call_reaches_every_worker [OF wc.faithful_codec_axioms _ _ this(2,1) refl, of "[''a'', ''b'']" "[''sleep'']" "\<lambda>_. True" "[]" "[]"]
  show ?thesis
    using call by (simp add: wire_codec_def ex_server_def init_server_def ex_target_def upt_rec proxy_error_def
        error_response_def ok_response_def)
qed

text \<open>
  C19. Only white-listed methods touch a worker: whatever bytes arrive, a server answers each message at
  most once and the state of its target changes only by a call to an allowed method the target has.
\<close>

theorem only_allowed_methods_run:
  assumes "srv_target (server_round c t allowed msg s) \<noteq> srv_target s"
  shows "\<exists>r. dec_request c msg = Inr r \<and> rq_method r \<in> set allowed \<and> has_method t (rq_method r) \<and>
    srv_target (server_round c t allowed msg s) = snd (call_method t (rq_method r) (rq_args r) (rq_kwargs r) (srv_target s)) \<and>
    length (srv_replies (server_round c t allowed msg s)) \<le> length (srv_replies s) + 1"
  using assms
  by (auto simp: server_round_def handle_request_def Let_def split: if_splits sum.splits prod.splits option.splits)

theorem only_allowed_methods_run_witness:
  "srv_target (server_round (wire_codec (\<lambda>_. True)) ex_target [''sleep''] (RequestMsg \<lparr>rq_method = ''sleep'', rq_args = [], rq_kwargs = []\<rparr>) (ex_server 4)) = 5"
proof -
  let ?s = "server_round (wire_codec (\<lambda>_. True)) ex_target [''sleep''] (RequestMsg \<lparr>rq_method = ''sleep'', rq_args = [], rq_kwargs = []\<rparr>) (ex_server 4)"
  have "srv_target ?s \<noteq> srv_target (ex_server 4)"
    by (simp add: server_round_def wire_codec_def handle_request_def ex_target_def ex_server_def init_server_def ok_response_def)
  from only_allowed_methods_run [OF this] show ?thesis
    by (auto simp: wire_codec_def ex_target_def ex_server_def init_server_def)
qed

text \<open>
  A worker whose answer cannot be serialised never replies, and the collective call waits for ever: the
  encoding happens outside the handler that turns exceptions into answers.
\<close>

lemma unserialisable_result_hangs:
  "collective_rpc (served (wire_codec (\<lambda>x. x < 10)) ex_target [''sleep'']) (wire_codec (\<lambda>x. x < 10)) [''a''] ''sleep'' [] [] [ex_server 0] = None"
  by (rule wc.call_hangs [OF refl, where s = "ex_server 0"]) (simp_all add: ex_server_def init_server_def answer_def handle_request_def ex_target_def wire_codec_def ok_response_def)

end
