(* ===== verification/Memory_Saver.thy ===== *)
theory Memory_Saver
  imports Control_Channel
begin

text \<open>
  Releasing and restoring GPU memory: the adapter singleton of \<open>src/vexact/utils/torch_memory_saver_adapter.py\<close>,
  the worker's \<open>sleep\<close> and \<open>wake_up\<close> (\<open>src/vexact/worker/worker.py\<close>), and the calls that reach them from
  the engine through \<open>DriverClient\<close> (\<open>src/vexact/worker/driver_client.py\<close>) and the control channel.

  \<open>torch_memory_saver\<close> is seen through the calls it receives. Only the saver is the state of a worker here;
  receiving weights is a parameter on it.
\<close>

section \<open>The adapter\<close>

datatype saver_call =
    HookMode string
  | ConfigureSubprocess
  | Region string bool
  | CudaGraph
  | DisableRegion
  | Pause "string option"
  | Resume "string option"

datatype adapter = RealAdapter | NoopAdapter

record saver =
  saver_instance :: "adapter option"
  saver_importable :: bool
  saver_calls :: "saver_call list"

definition saver_called :: "saver_call \<Rightarrow> saver \<Rightarrow> saver" where
  "saver_called c s = s\<lparr>saver_calls := saver_calls s @ [c]\<rparr>"

definition create_adapter :: "bool \<Rightarrow> saver \<Rightarrow> (adapter \<times> saver) res" where
  "create_adapter enable s =
     (case saver_instance s of
        Some a \<Rightarrow> if (if enable then a = RealAdapter else a = NoopAdapter) then Ok (a, s) else Raise AssertionError
      | None \<Rightarrow>
          if enable \<and> \<not> saver_importable s then Raise ImportError
          else if enable then Ok (RealAdapter, (saver_called (HookMode ''torch'') s)\<lparr>saver_instance := Some RealAdapter\<rparr>)
          else Ok (NoopAdapter, s\<lparr>saver_instance := Some NoopAdapter\<rparr>))"

definition get_adapter :: "saver \<Rightarrow> adapter res" where
  "get_adapter s = (case saver_instance s of None \<Rightarrow> Raise RuntimeError | Some a \<Rightarrow> Ok a)"

fun forwarded :: "adapter \<Rightarrow> saver_call \<Rightarrow> saver \<Rightarrow> saver" where
  "forwarded RealAdapter c s = saver_called c s"
| "forwarded NoopAdapter c s = s"

definition configure_subprocess :: "adapter \<Rightarrow> saver \<Rightarrow> saver" where
  "configure_subprocess a = forwarded a ConfigureSubprocess"

definition region :: "adapter \<Rightarrow> string \<Rightarrow> bool \<Rightarrow> saver \<Rightarrow> saver" where
  "region a tag backup = forwarded a (Region tag backup)"

definition cuda_graph :: "adapter \<Rightarrow> saver \<Rightarrow> saver" where
  "cuda_graph a = forwarded a CudaGraph"

definition disable :: "adapter \<Rightarrow> saver \<Rightarrow> saver" where
  "disable a = forwarded a DisableRegion"

definition pause :: "adapter \<Rightarrow> string option \<Rightarrow> saver \<Rightarrow> saver" where
  "pause a tag = forwarded a (Pause tag)"

definition resume :: "adapter \<Rightarrow> string option \<Rightarrow> saver \<Rightarrow> saver" where
  "resume a tag = forwarded a (Resume tag)"

text \<open>\<open>enabled\<close>, given whether the library is there and switched on.\<close>

fun adapter_enabled :: "bool \<Rightarrow> adapter \<Rightarrow> bool" where
  "adapter_enabled lib_enabled RealAdapter = lib_enabled"
| "adapter_enabled lib_enabled NoopAdapter = False"

section \<open>The worker\<close>

definition worker_sleep :: "string option \<Rightarrow> saver \<Rightarrow> saver res" where
  "worker_sleep tag s = rbind (get_adapter s) (\<lambda>a. Ok (pause a tag s))"

definition worker_wake_up :: "string option \<Rightarrow> saver \<Rightarrow> saver res" where
  "worker_wake_up tag s = rbind (get_adapter s) (\<lambda>a. Ok (resume a tag s))"

text \<open>Binding the call's arguments to the one parameter \<open>tag\<close>, which defaults to \<open>None\<close>.\<close>

fun bind_tag :: "string option list \<Rightarrow> (string \<times> string option) list \<Rightarrow> string option option" where
  "bind_tag [] [] = Some None"
| "bind_tag [t] [] = Some t"
| "bind_tag [] [(k, t)] = (if k = ''tag'' then Some t else None)"
| "bind_tag _ _ = None"

definition worker_methods :: "string list" where
  "worker_methods = [''start'', ''stop'', ''join'', ''sleep'', ''wake_up'', ''load_state_dict'', ''receive_weights'']"

definition allowed_methods :: "string list" where
  "allowed_methods = [''sleep'', ''wake_up'', ''receive_weights'']"

definition run_method :: "saver res \<Rightarrow> saver \<Rightarrow> (string + unit) \<times> saver" where
  "run_method r s = (case r of Ok s' \<Rightarrow> (Inr (), s') | _ \<Rightarrow> (Inl ''TorchMemorySaverAdapter not created yet. Call create() first.'', s))"

text \<open>
  The worker as the target of its control server. The text of a failed argument binding and the transfer
  of weights are parameters; the methods that are not allowed are never called.
\<close>

definition worker_target :: "string \<Rightarrow> (saver \<Rightarrow> (string + unit) \<times> saver) \<Rightarrow> (saver, string option, unit) target" where
  "worker_target bad_call receive =
     \<lparr>has_method = (\<lambda>m. m \<in> set worker_methods),
      call_method = (\<lambda>m args kwargs s.
        if m = ''sleep'' then (case bind_tag args kwargs of None \<Rightarrow> (Inl bad_call, s) | Some t \<Rightarrow> run_method (worker_sleep t s) s)
        else if m = ''wake_up'' then (case bind_tag args kwargs of None \<Rightarrow> (Inl bad_call, s) | Some t \<Rightarrow> run_method (worker_wake_up t s) s)
        else if m = ''receive_weights'' then (if args = [] \<and> kwargs = [] then receive s else (Inl bad_call, s))
        else (Inl bad_call, s))\<rparr>"

section \<open>The driver client\<close>

definition client_execute ::
    "('m, 'n) sockets \<Rightarrow> ('m, string option, unit) codec \<Rightarrow> string list \<Rightarrow> string \<Rightarrow> (string \<times> string option) list \<Rightarrow> 'n
       \<Rightarrow> ((string + unit option list) \<times> 'n) option" where
  "client_execute k c addrs name kwargs net = collective_rpc k c addrs name [] kwargs net"

definition client_sleep ::
    "('m, 'n) sockets \<Rightarrow> ('m, string option, unit) codec \<Rightarrow> string list \<Rightarrow> string option \<Rightarrow> 'n
       \<Rightarrow> ((string + unit option list) \<times> 'n) option" where
  "client_sleep k c addrs tag net = client_execute k c addrs ''sleep'' [(''tag'', tag)] net"

definition client_wake_up ::
    "('m, 'n) sockets \<Rightarrow> ('m, string option, unit) codec \<Rightarrow> string list \<Rightarrow> string option \<Rightarrow> 'n
       \<Rightarrow> ((string + unit option list) \<times> 'n) option" where
  "client_wake_up k c addrs tag net = client_execute k c addrs ''wake_up'' [(''tag'', tag)] net"

definition client_receive_weights ::
    "('m, 'n) sockets \<Rightarrow> ('m, string option, unit) codec \<Rightarrow> string list \<Rightarrow> 'n \<Rightarrow> ((string + unit option list) \<times> 'n) option" where
  "client_receive_weights k c addrs net = client_execute k c addrs ''receive_weights'' [] net"

section \<open>A pause reaches every worker\<close>

definition idle_server :: "('m, saver) ctrl_server \<Rightarrow> bool" where
  "idle_server s \<longleftrightarrow> \<not> srv_shutdown s \<and> \<not> srv_owing s \<and> srv_replies s = []"

abbreviation on_saver :: "(saver \<Rightarrow> saver) \<Rightarrow> ('m, saver) ctrl_server \<Rightarrow> ('m, saver) ctrl_server" where
  "on_saver f s \<equiv> s\<lparr>srv_target := f (srv_target s)\<rparr>"

definition paused :: "string option \<Rightarrow> saver \<Rightarrow> saver" where
  "paused tag s = (case saver_instance s of Some RealAdapter \<Rightarrow> saver_called (Pause tag) s | _ \<Rightarrow> s)"

definition resumed :: "string option \<Rightarrow> saver \<Rightarrow> saver" where
  "resumed tag s = (case saver_instance s of Some RealAdapter \<Rightarrow> saver_called (Resume tag) s | _ \<Rightarrow> s)"

lemma worker_runs:
  assumes "saver_instance s \<noteq> None"
  shows "call_method (worker_target bad rv) ''sleep'' [] [(''tag'', tag)] s = (Inr (), paused tag s)"
    "call_method (worker_target bad rv) ''wake_up'' [] [(''tag'', tag)] s = (Inr (), resumed tag s)"
  using assms
  by (auto simp: worker_target_def worker_sleep_def worker_wake_up_def get_adapter_def run_method_def pause_def resume_def
      paused_def resumed_def split: adapter.split)

lemma instance_kept [simp]:
  "saver_instance (paused tag s) = saver_instance s" "saver_instance (resumed tag s) = saver_instance s"
  by (simp_all add: paused_def resumed_def saver_called_def split: option.split adapter.split)

lemma execute_everywhere:
  assumes "faithful_codec c" "length addrs = length net" "name \<in> set allowed_methods"
    and "\<forall>s\<in>set net. idle_server s" "\<forall>s\<in>set net. call_method (worker_target bad rv) name [] kw (srv_target s) = (Inr (), f (srv_target s))"
    and "enc_response c (ok_response ()) \<noteq> None"
  shows "client_execute (served c (worker_target bad rv) allowed_methods) c addrs name kw net =
    Some (Inr (replicate (length net) (Some ())), map (on_saver f) net)"
proof -
  let ?r = "\<lparr>rq_method = name, rq_args = [], rq_kwargs = kw\<rparr>"
  have has: "has_method (worker_target bad rv) name"
    using assms(3) by (auto simp: allowed_methods_def worker_target_def worker_methods_def)
  have h: "handle_request (worker_target bad rv) allowed_methods ?r (srv_target s) = (ok_response (), f (srv_target s))"
    if "s \<in> set net" for s
    using assms(3,5) has that by (simp add: handle_request_def)
  have a: "answer (worker_target bad rv) allowed_methods ?r s = ok_response ()" if "s \<in> set net" for s
    using h [OF that] by (simp add: answer_def)
  have idle: "\<forall>s\<in>set net. \<not> srv_shutdown s \<and> \<not> srv_owing s \<and> srv_replies s = []"
    using assms(4) by (simp add: idle_server_def)
  have enc: "\<forall>s\<in>set net. enc_response c (answer (worker_target bad rv) allowed_methods ?r s) \<noteq> None"
    using a assms(6) by simp
  have ix: "map (\<lambda>i. if rs_success (answer (worker_target bad rv) allowed_methods ?r (net ! i))
        then Inr (rs_result (answer (worker_target bad rv) allowed_methods ?r (net ! i)))
        else Inl (proxy_error addrs i (error_text (answer (worker_target bad rv) allowed_methods ?r (net ! i))))) [0..<length net] =
      map (\<lambda>i. Inr (Some ())) [0..<length net]"
    by (rule map_cong [OF refl]) (simp add: a ok_response_def Let_def)
  have none: "lefts (map (\<lambda>i. Inr (Some ())) xs) = []" "rights (map (\<lambda>i. Inr (Some ())) xs) = replicate (length xs) (Some ())" for xs :: "nat list"
    by (induction xs) simp_all
  have net: "map (\<lambda>s. s\<lparr>srv_target := snd (handle_request (worker_target bad rv) allowed_methods ?r (srv_target s))\<rparr>) net = map (on_saver f) net"
    using h by simp
  show ?thesis
    unfolding client_execute_def faithful_codec.call_collects [OF assms(1) refl assms(2) idle enc] ix Let_def none net by simp
qed

text \<open>
  C33. Sleeping and waking reach every worker: over idle servers whose workers have created their adapter,
  \<open>sleep(tag)\<close> returns, every worker with the real adapter has been told to pause that tag exactly once and
  no other worker has changed, and a \<open>wake_up(tag)\<close> that follows resumes the same workers.
\<close>

theorem sleep_and_wake_reach_workers:
  assumes "faithful_codec c" "length addrs = length net" "\<forall>s\<in>set net. idle_server s \<and> saver_instance (srv_target s) \<noteq> None"
    and "enc_response c (ok_response ()) \<noteq> None"
  shows "client_sleep (served c (worker_target bad rv) allowed_methods) c addrs tag net =
      Some (Inr (replicate (length net) (Some ())), map (on_saver (paused tag)) net) \<and>
    client_wake_up (served c (worker_target bad rv) allowed_methods) c addrs tag (map (on_saver (paused tag)) net) =
      Some (Inr (replicate (length net) (Some ())), map (on_saver (resumed tag)) (map (on_saver (paused tag)) net))"
proof
  have names: "''sleep'' \<in> set allowed_methods" "''wake_up'' \<in> set allowed_methods" by (simp_all add: allowed_methods_def)
  show "client_sleep (served c (worker_target bad rv) allowed_methods) c addrs tag net =
      Some (Inr (replicate (length net) (Some ())), map (on_saver (paused tag)) net)"
    unfolding client_sleep_def using assms(3)
    by (intro execute_everywhere [OF assms(1,2) names(1) _ _ assms(4)]) (simp_all add: worker_runs)
  have "client_wake_up (served c (worker_target bad rv) allowed_methods) c addrs tag (map (on_saver (paused tag)) net) =
      Some (Inr (replicate (length (map (on_saver (paused tag)) net)) (Some ())), map (on_saver (resumed tag)) (map (on_saver (paused tag)) net))"
    unfolding client_wake_up_def
  proof (rule execute_everywhere [OF assms(1) _ names(2) _ _ assms(4)])
    show "length addrs = length (map (on_saver (paused tag)) net)" using assms(2) by simp
    show "\<forall>s\<in>set (map (on_saver (paused tag)) net). idle_server s" using assms(3) by (simp add: idle_server_def)
    show "\<forall>s\<in>set (map (on_saver (paused tag)) net).
        call_method (worker_target bad rv) ''wake_up'' [] [(''tag'', tag)] (srv_target s) = (Inr (), resumed tag (srv_target s))"
      using assms(3) by (simp add: worker_runs)
  qed
  then show "client_wake_up (served c (worker_target bad rv) allowed_methods) c addrs tag (map (on_saver (paused tag)) net) =
      Some (Inr (replicate (length net) (Some ())), map (on_saver (resumed tag)) (map (on_saver (paused tag)) net))"
    by simp
qed

definition ex_worker :: "bool \<Rightarrow> (((string option, unit) wire), saver) ctrl_server" where
  "ex_worker enable = init_server ''ipc:///tmp/x''
     (case create_adapter enable \<lparr>saver_instance = None, saver_importable = True, saver_calls = []\<rparr> of
        Ok (a, s) \<Rightarrow> s | _ \<Rightarrow> \<lparr>saver_instance = None, saver_importable = True, saver_calls = []\<rparr>)"

lemma ex_worker_simps:
  "idle_server (ex_worker e)" "saver_instance (srv_target (ex_worker e)) = Some (if e then RealAdapter else NoopAdapter)"
  "saver_calls (srv_target (ex_worker True)) = [HookMode ''torch'']" "saver_calls (srv_target (ex_worker False)) = []"
  by (simp_all add: ex_worker_def idle_server_def init_server_def create_adapter_def saver_called_def)

theorem sleep_and_wake_reach_workers_witness:
  "\<exists>net. client_sleep (served (wire_codec (\<lambda>_. True)) (worker_target ''TypeError'' (\<lambda>s. (Inr (), s))) allowed_methods) (wire_codec (\<lambda>_. True))
      [''a'', ''b''] (Some ''weights'') [ex_worker True, ex_worker False] = Some (Inr [Some (), Some ()], net) \<and>
    map (saver_calls \<circ> srv_target) net = [[HookMode ''torch'', Pause (Some ''weights'')], []]"
proof -
  have "\<forall>s\<in>set [ex_worker True, ex_worker False]. idle_server s \<and> saver_instance (srv_target s) \<noteq> None"
    by (simp add: ex_worker_simps)
  moreover have "enc_response (wire_codec (\<lambda>_. True)) (ok_response ()) \<noteq> None" by (simp add: wire_codec_def ok_response_def)
  ultimately have "client_sleep (served (wire_codec (\<lambda>_. True)) (worker_target ''TypeError'' (\<lambda>s. (Inr (), s))) allowed_methods) (wire_codec (\<lambda>_. True))
      [''a'', ''b''] (Some ''weights'') [ex_worker True, ex_worker False] =
    Some (Inr (replicate 2 (Some ())), map (on_saver (paused (Some ''weights''))) [ex_worker True, ex_worker False])"
    using sleep_and_wake_reach_workers [OF wc.faithful_codec_axioms, of "[''a'', ''b'']" "[ex_worker True, ex_worker False]" "\<lambda>_. True"
      "''TypeError''" "\<lambda>s. (Inr (), s)" "Some ''weights''", THEN conjunct1] by (simp add: numeral_2_eq_2)
  moreover have "map (saver_calls \<circ> srv_target) (map (on_saver (paused (Some ''weights''))) [ex_worker True, ex_worker False]) =
      [[HookMode ''torch'', Pause (Some ''weights'')], []]"
    by (simp add: paused_def saver_called_def ex_worker_simps)
  ultimately show ?thesis by (simp add: numeral_2_eq_2)
qed

end
