(* ===== verification/Profiler.thy ===== *)
theory Profiler
  imports Config "HOL-Library.Sublist"
begin

text \<open>
  The profiling window (\<open>src/vexact/utils/profiler.py\<close>): the two backends, the manager's start, step
  and stop, and the trace file names. The profiling libraries and the upload command are outside the
  program: every call to them is recorded, and a parameter \<open>lib\<close> says which calls raise. Log messages
  are not modelled.

  The lemmas give the manager's invariant, the absence of exceptions, and the window of steps that are
  profiled as a closed form of the configuration.
\<close>

section \<open>Calls to the profiling libraries\<close>

datatype lib_call =
    InitForCudaGraphs
  | TorchCreate
  | TorchEnter
  | TorchExit
  | TorchExport string
  | Upload string string
  | ProtonStart string
  | ProtonFinalize
  | MakeDirs string

datatype annotation = NullContext | RecordFunction string | CpuTimedScope string

text \<open>What a call raises: an ordinary exception, or one of the two the upload handles itself.\<close>

datatype lib_error = NotFound | CalledProcess | OtherError

type_synonym lib = "lib_call \<Rightarrow> lib_error option"

section \<open>Backends\<close>

datatype backend_kind = TorchBackend | ProtonBackend

record prof_backend =
  kind :: backend_kind
  trace_path :: string
  proton_name :: string
  session :: bool
  lib_calls :: "lib_call list"

definition called :: "lib_call \<Rightarrow> prof_backend \<Rightarrow> prof_backend" where
  "called c b = b\<lparr>lib_calls := lib_calls b @ [c]\<rparr>"

text \<open>A method returns the object it leaves behind and whether it raised.\<close>

definition torch_start :: "lib \<Rightarrow> prof_backend \<Rightarrow> prof_backend \<times> lib_error option" where
  "torch_start lib b =
     (let b1 = called TorchCreate b in
      case lib TorchCreate of
        Some e \<Rightarrow> (b1, Some e)
      | None \<Rightarrow> (called TorchEnter (b1\<lparr>session := True\<rparr>), lib TorchEnter))"

definition fallback_mlx :: string where
  "fallback_mlx = ''/opt/tiger/mlx_deploy/bin/mlx''"

definition upload_trace :: "lib \<Rightarrow> prof_backend \<Rightarrow> prof_backend \<times> lib_error option" where
  "upload_trace lib b =
     (let c = Upload ''mlx'' (trace_path b); b1 = called c b in
      case lib c of
        Some NotFound \<Rightarrow>
          (let c2 = Upload fallback_mlx (trace_path b) in
           (called c2 b1, if lib c2 = Some OtherError then Some OtherError else None))
      | Some OtherError \<Rightarrow> (b1, Some OtherError)
      | _ \<Rightarrow> (b1, None))"

text \<open>The \<open>except Exception\<close> swallows whatever is raised inside, and \<open>finally\<close> drops the session.\<close>

definition torch_stop :: "lib \<Rightarrow> prof_backend \<Rightarrow> prof_backend \<times> lib_error option" where
  "torch_stop lib b =
     (if \<not> session b then (b, None)
      else
        (let b1 = called TorchExit b;
             b2 = (if lib TorchExit \<noteq> None then b1
                   else let c = TorchExport (trace_path b); b3 = called c b1
                        in if lib c \<noteq> None then b3 else fst (upload_trace lib b3))
         in (b2\<lparr>session := False\<rparr>, None)))"

definition proton_start :: "lib \<Rightarrow> prof_backend \<Rightarrow> prof_backend \<times> lib_error option" where
  "proton_start lib b =
     (let c = ProtonStart (proton_name b); b1 = called c b in
      case lib c of Some e \<Rightarrow> (b1, Some e) | None \<Rightarrow> (b1\<lparr>session := True\<rparr>, None))"

definition proton_stop :: "lib \<Rightarrow> prof_backend \<Rightarrow> prof_backend \<times> lib_error option" where
  "proton_stop lib b =
     (if \<not> session b then (b, None)
      else ((called ProtonFinalize b)\<lparr>session := False\<rparr>, lib ProtonFinalize))"

definition backend_start :: "lib \<Rightarrow> prof_backend \<Rightarrow> prof_backend \<times> lib_error option" where
  "backend_start lib b = (case kind b of TorchBackend \<Rightarrow> torch_start lib b | ProtonBackend \<Rightarrow> proton_start lib b)"

definition backend_stop :: "lib \<Rightarrow> prof_backend \<Rightarrow> prof_backend \<times> lib_error option" where
  "backend_stop lib b = (case kind b of TorchBackend \<Rightarrow> torch_stop lib b | ProtonBackend \<Rightarrow> proton_stop lib b)"

definition backend_annotate :: "prof_backend \<Rightarrow> string \<Rightarrow> annotation" where
  "backend_annotate b name =
     (case kind b of
        TorchBackend \<Rightarrow> RecordFunction name
      | ProtonBackend \<Rightarrow> if session b then CpuTimedScope name else NullContext)"

definition hatchet :: string where
  "hatchet = ''.hatchet''"

definition strip_hatchet :: "string \<Rightarrow> string" where
  "strip_hatchet p = (if suffix hatchet p then take (length p - length hatchet) p else p)"

definition create_backend :: "lib \<Rightarrow> string \<Rightarrow> string \<Rightarrow> prof_backend res" where
  "create_backend lib name path =
     (if name = ''torch'' then
        (if lib InitForCudaGraphs \<noteq> None then Raise RuntimeError
         else Ok \<lparr>kind = TorchBackend, trace_path = path, proton_name = '''', session = False,
                  lib_calls = [InitForCudaGraphs]\<rparr>)
      else if name = ''proton'' then
        Ok \<lparr>kind = ProtonBackend, trace_path = path, proton_name = strip_hatchet path, session = False,
            lib_calls = []\<rparr>
      else Raise ValueError)"

section \<open>The manager\<close>

record prof_manager =
  prof_enabled :: bool
  active_count :: int
  prof_active :: bool
  profiled_iters :: int
  prof_running :: bool
  delay_iters :: int
  max_iters :: int
  prof_backend :: "prof_backend option"

text \<open>\<open>os.path.join\<close> of a non-empty directory and a relative name.\<close>

definition join_path :: "string \<Rightarrow> string \<Rightarrow> string" where
  "join_path dir name = (if dir \<noteq> [] \<and> last dir \<noteq> CHR ''/'' then dir @ ''/'' @ name else dir @ name)"

definition trace_file :: "string \<Rightarrow> nat \<Rightarrow> nat \<Rightarrow> nat \<Rightarrow> string \<Rightarrow> string" where
  "trace_file did rank pid timestamp backend_name =
     ''d'' @ did @ ''_r'' @ nat_str rank @ ''_pid'' @ nat_str pid @ ''_'' @ nat_str timestamp @
     (if backend_name = ''torch'' then ''.trace.json.gz'' else hatchet)"

definition prepare_output_path ::
    "lib \<Rightarrow> string \<Rightarrow> nat \<Rightarrow> nat \<Rightarrow> nat \<Rightarrow> string option \<Rightarrow> string \<Rightarrow> string res" where
  "prepare_output_path lib did rank pid timestamp out backend_name =
     (let dir = (case out of None \<Rightarrow> ''vexact_profile'' | Some p \<Rightarrow> if p = [] then ''vexact_profile'' else p)
      in if lib (MakeDirs dir) \<noteq> None then Raise RuntimeError
         else Ok (join_path dir (trace_file did rank pid timestamp backend_name)))"

definition init_profiler ::
    "lib \<Rightarrow> profiler_config \<Rightarrow> nat \<Rightarrow> string \<Rightarrow> nat \<Rightarrow> nat \<Rightarrow> prof_manager res" where
  "init_profiler lib c rank did pid timestamp =
     (let off = \<lparr>prof_enabled = False, active_count = 0, prof_active = False, profiled_iters = 0,
                 prof_running = False, delay_iters = 0, max_iters = 0, prof_backend = None\<rparr> in
      case backend c of
        None \<Rightarrow> Ok off
      | Some name \<Rightarrow>
          rbind (prepare_output_path lib did rank pid timestamp (output_path c) name) (\<lambda>path.
          rbind (create_backend lib name path) (\<lambda>b.
            Ok (off\<lparr>prof_enabled := True, delay_iters := delay_iterations c,
                    max_iters := max_iterations c, prof_backend := Some b\<rparr>))))"

text \<open>\<open>self.backend\<close> of a disabled manager is \<open>None\<close>; the \<open>AttributeError\<close> of a call on it is swallowed too.\<close>

definition call_start :: "lib \<Rightarrow> prof_manager \<Rightarrow> prof_manager" where
  "call_start lib m =
     (case prof_backend m of
        None \<Rightarrow> m
      | Some b \<Rightarrow> (case backend_start lib b of
            (b', None) \<Rightarrow> m\<lparr>prof_backend := Some b', prof_running := True\<rparr>
          | (b', Some e) \<Rightarrow> m\<lparr>prof_backend := Some b'\<rparr>))"

definition call_stop :: "lib \<Rightarrow> prof_manager \<Rightarrow> prof_manager" where
  "call_stop lib m =
     (case prof_backend m of
        None \<Rightarrow> m\<lparr>prof_running := False\<rparr>
      | Some b \<Rightarrow> m\<lparr>prof_backend := Some (fst (backend_stop lib b)), prof_running := False\<rparr>)"

definition prof_start :: "lib \<Rightarrow> prof_manager \<Rightarrow> prof_manager" where
  "prof_start lib m =
     (if \<not> prof_enabled m then m
      else if prof_active m then m
      else let m1 = m\<lparr>prof_active := True\<rparr> in if delay_iters m = 0 then call_start lib m1 else m1)"

definition delayed_start :: "lib \<Rightarrow> prof_manager \<Rightarrow> prof_manager" where
  "delayed_start lib m =
     (if \<not> prof_running m \<and> 0 < delay_iters m \<and> active_count m = delay_iters m then call_start lib m else m)"

definition count_profiled :: "prof_manager \<Rightarrow> prof_manager" where
  "count_profiled m = (if prof_running m then m\<lparr>profiled_iters := profiled_iters m + 1\<rparr> else m)"

definition auto_stop :: "lib \<Rightarrow> prof_manager \<Rightarrow> prof_manager" where
  "auto_stop lib m =
     (if 0 < max_iters m \<and> prof_running m \<and> max_iters m \<le> profiled_iters m then call_stop lib m else m)"

definition prof_step :: "lib \<Rightarrow> prof_manager \<Rightarrow> prof_manager" where
  "prof_step lib m =
     (if \<not> prof_active m then m
      else auto_stop lib (count_profiled (delayed_start lib (m\<lparr>active_count := active_count m + 1\<rparr>))))"

definition prof_stop :: "lib \<Rightarrow> prof_manager \<Rightarrow> prof_manager" where
  "prof_stop lib m =
     (if \<not> prof_enabled m then m
      else if \<not> prof_active m then m
      else let m1 = m\<lparr>prof_active := False, active_count := 0, profiled_iters := 0\<rparr>
           in if prof_running m1 then call_stop lib m1 else m1)"

definition prof_annotate :: "prof_manager \<Rightarrow> string \<Rightarrow> annotation res" where
  "prof_annotate m name =
     (if prof_enabled m \<and> prof_running m then
        (case prof_backend m of None \<Rightarrow> Raise AttributeError | Some b \<Rightarrow> Ok (backend_annotate b name))
      else Ok NullContext)"

definition is_active :: "prof_manager \<Rightarrow> bool" where
  "is_active m = prof_active m"

definition is_running :: "prof_manager \<Rightarrow> bool" where
  "is_running m = prof_running m"

section \<open>The manager never raises and keeps its bookkeeping\<close>

datatype prof_op = StartProfile | StepProfile | StopProfile

primrec prof_apply :: "lib \<Rightarrow> prof_op \<Rightarrow> prof_manager \<Rightarrow> prof_manager" where
  "prof_apply lib StartProfile = prof_start lib"
| "prof_apply lib StepProfile = prof_step lib"
| "prof_apply lib StopProfile = prof_stop lib"

text \<open>Sessions opened and closed so far, read off the recorded calls.\<close>

definition opened :: "lib_call list \<Rightarrow> nat" where
  "opened cs = length (filter (\<lambda>c. c = TorchEnter \<or> (\<exists>n. c = ProtonStart n)) cs)"

definition closed :: "lib_call list \<Rightarrow> nat" where
  "closed cs = length (filter (\<lambda>c. c = TorchExit \<or> c = ProtonFinalize) cs)"

lemma opened_simps [simp]:
  "opened [] = 0"
  "opened (xs @ ys) = opened xs + opened ys"
  "opened (c # cs) = (if c = TorchEnter \<or> (\<exists>n. c = ProtonStart n) then 1 else 0) + opened cs"
  by (simp_all add: opened_def)

lemma closed_simps [simp]:
  "closed [] = 0"
  "closed (xs @ ys) = closed xs + closed ys"
  "closed (c # cs) = (if c = TorchExit \<or> c = ProtonFinalize then 1 else 0) + closed cs"
  by (simp_all add: closed_def)

text \<open>Libraries whose start calls succeed; closing and uploading may still fail.\<close>

definition starts_succeed :: "lib \<Rightarrow> bool" where
  "starts_succeed lib \<longleftrightarrow> lib TorchCreate = None \<and> lib TorchEnter = None \<and> (\<forall>n. lib (ProtonStart n) = None)"

definition prof_inv :: "prof_manager \<Rightarrow> bool" where
  "prof_inv m \<longleftrightarrow>
     (prof_running m \<longrightarrow> prof_active m) \<and> (prof_active m \<longrightarrow> prof_enabled m) \<and>
     (prof_enabled m \<longrightarrow> prof_backend m \<noteq> None) \<and>
     (\<not> prof_active m \<longrightarrow> active_count m = 0 \<and> profiled_iters m = 0)"

text \<open>Between two calls a limited run has profiled fewer than its steps.\<close>

definition window_inv :: "prof_manager \<Rightarrow> bool" where
  "window_inv m \<longleftrightarrow> (0 < max_iters m \<and> prof_running m \<longrightarrow> profiled_iters m < max_iters m)"

text \<open>One session at most: opened once more than closed exactly while the manager runs.\<close>

definition session_inv :: "prof_manager \<Rightarrow> bool" where
  "session_inv m \<longleftrightarrow> (\<forall>b. prof_backend m = Some b \<longrightarrow>
     session b = prof_running m \<and>
     opened (lib_calls b) = closed (lib_calls b) + (if prof_running m then 1 else 0))"

lemma upload_log: "opened (lib_calls (fst (upload_trace lib b))) = opened (lib_calls b) \<and>
    closed (lib_calls (fst (upload_trace lib b))) = closed (lib_calls b)"
  by (auto simp: upload_trace_def Let_def called_def split: option.splits lib_error.splits)

lemma backend_start_session:
  "starts_succeed lib \<Longrightarrow> \<exists>b'. backend_start lib b = (b', None) \<and> session b' \<and>
     opened (lib_calls b') = opened (lib_calls b) + 1 \<and> closed (lib_calls b') = closed (lib_calls b)"
  by (auto simp: backend_start_def torch_start_def proton_start_def called_def Let_def starts_succeed_def
      split: backend_kind.splits)

lemma backend_stop_session:
  "session b \<Longrightarrow> \<not> session (fst (backend_stop lib b)) \<and>
     opened (lib_calls (fst (backend_stop lib b))) = opened (lib_calls b) \<and>
     closed (lib_calls (fst (backend_stop lib b))) = closed (lib_calls b) + 1"
  by (auto simp: backend_stop_def torch_stop_def proton_stop_def upload_log called_def Let_def
      split: backend_kind.splits)

lemma call_start_fields [simp]:
  "prof_enabled (call_start lib m) = prof_enabled m"
  "prof_active (call_start lib m) = prof_active m"
  "active_count (call_start lib m) = active_count m"
  "profiled_iters (call_start lib m) = profiled_iters m"
  "delay_iters (call_start lib m) = delay_iters m"
  "max_iters (call_start lib m) = max_iters m"
  "(\<exists>b. prof_backend (call_start lib m) = Some b) \<longleftrightarrow> (\<exists>b. prof_backend m = Some b)"
  by (auto simp: call_start_def split: option.splits prod.splits)

lemma call_stop_fields [simp]:
  "prof_enabled (call_stop lib m) = prof_enabled m"
  "prof_active (call_stop lib m) = prof_active m"
  "active_count (call_stop lib m) = active_count m"
  "profiled_iters (call_stop lib m) = profiled_iters m"
  "delay_iters (call_stop lib m) = delay_iters m"
  "max_iters (call_stop lib m) = max_iters m"
  "\<not> prof_running (call_stop lib m)"
  "(\<exists>b. prof_backend (call_stop lib m) = Some b) \<longleftrightarrow> (\<exists>b. prof_backend m = Some b)"
  by (auto simp: call_stop_def split: option.splits)

lemma call_start_backend:
  assumes "starts_succeed lib" "prof_backend m = Some b"
  shows "\<exists>b'. call_start lib m = m\<lparr>prof_backend := Some b', prof_running := True\<rparr> \<and> session b' \<and>
     opened (lib_calls b') = opened (lib_calls b) + 1 \<and> closed (lib_calls b') = closed (lib_calls b)"
proof -
  obtain b' where "backend_start lib b = (b', None)" "session b'"
    "opened (lib_calls b') = opened (lib_calls b) + 1" "closed (lib_calls b') = closed (lib_calls b)"
    using backend_start_session [OF assms(1), of b] by blast
  then show ?thesis using assms(2) by (intro exI [of _ b']) (simp add: call_start_def)
qed

lemma call_start_running:
  "starts_succeed lib \<Longrightarrow> prof_backend m \<noteq> None \<Longrightarrow> prof_running (call_start lib m)"
  using call_start_backend [of lib m] by fastforce

lemma prof_start_inv: "prof_inv m \<Longrightarrow> window_inv m \<Longrightarrow> prof_inv (prof_start lib m) \<and> window_inv (prof_start lib m)"
  by (simp add: prof_inv_def window_inv_def prof_start_def Let_def)

lemma prof_stop_inv: "prof_inv m \<Longrightarrow> window_inv m \<Longrightarrow> prof_inv (prof_stop lib m) \<and> window_inv (prof_stop lib m)"
  by (simp add: prof_inv_def window_inv_def prof_stop_def Let_def)

lemma delayed_start_inv: "prof_inv m \<Longrightarrow> prof_active m \<Longrightarrow> prof_inv (delayed_start lib m) \<and> prof_active (delayed_start lib m)"
  by (simp add: prof_inv_def delayed_start_def)

lemma count_profiled_inv: "prof_inv m \<Longrightarrow> prof_active m \<Longrightarrow> prof_inv (count_profiled m) \<and> prof_active (count_profiled m)"
  by (simp add: prof_inv_def count_profiled_def)

lemma auto_stop_inv: "prof_inv m \<Longrightarrow> prof_inv (auto_stop lib m) \<and> window_inv (auto_stop lib m)"
  by (auto simp: prof_inv_def window_inv_def auto_stop_def)

lemma prof_step_inv:
  assumes "prof_inv m" "window_inv m"
  shows "prof_inv (prof_step lib m) \<and> window_inv (prof_step lib m)"
proof (cases "prof_active m")
  case True
  then have "prof_inv (m\<lparr>active_count := active_count m + 1\<rparr>)" using assms by (simp add: prof_inv_def)
  from delayed_start_inv [OF this, of lib] True count_profiled_inv auto_stop_inv
  show ?thesis by (simp add: prof_step_def)
qed (use assms in \<open>simp add: prof_step_def\<close>)

lemma prof_apply_inv:
  "prof_inv m \<Longrightarrow> window_inv m \<Longrightarrow> prof_inv (prof_apply lib op m) \<and> window_inv (prof_apply lib op m)"
  by (cases op) (simp_all add: prof_start_inv prof_step_inv prof_stop_inv)

lemma call_start_session:
  assumes "starts_succeed lib" "session_inv m" "\<not> prof_running m"
  shows "session_inv (call_start lib m)"
proof (cases "prof_backend m")
  case None
  then show ?thesis using assms by (simp add: session_inv_def call_start_def)
next
  case (Some b)
  from call_start_backend [OF assms(1) this] show ?thesis
    using assms(2,3) Some by (auto simp: session_inv_def)
qed

lemma call_stop_session:
  assumes "session_inv m" "prof_running m"
  shows "session_inv (call_stop lib m)"
proof (cases "prof_backend m")
  case None
  then show ?thesis by (simp add: session_inv_def call_stop_def)
next
  case (Some b)
  then have "session b" using assms by (simp add: session_inv_def)
  from backend_stop_session [OF this, of lib] show ?thesis
    using assms Some by (simp add: session_inv_def call_stop_def)
qed

lemma session_inv_counters [simp]:
  "session_inv (m\<lparr>active_count := a\<rparr>) = session_inv m"
  "session_inv (m\<lparr>profiled_iters := p\<rparr>) = session_inv m"
  "session_inv (m\<lparr>prof_active := x\<rparr>) = session_inv m"
  by (simp_all add: session_inv_def)

lemma prof_apply_session:
  assumes "starts_succeed lib" "prof_inv m" "session_inv m"
  shows "session_inv (prof_apply lib op m)"
proof (cases op)
  case StartProfile
  then show ?thesis
    using assms call_start_session [OF assms(1), of "m\<lparr>prof_active := True\<rparr>"]
    by (auto simp: prof_start_def Let_def prof_inv_def)
next
  case StopProfile
  then show ?thesis
    using assms call_stop_session [of "m\<lparr>prof_active := False, active_count := 0, profiled_iters := 0\<rparr>"]
    by (simp add: prof_stop_def Let_def)
next
  case StepProfile
  let ?n = "m\<lparr>active_count := active_count m + 1\<rparr>"
  have "session_inv (delayed_start lib ?n)"
    using call_start_session [OF assms(1), of ?n] assms(3) by (auto simp: delayed_start_def)
  then have c: "session_inv (count_profiled (delayed_start lib ?n))" by (simp add: count_profiled_def)
  have "session_inv (auto_stop lib (count_profiled (delayed_start lib ?n)))"
    using c call_stop_session [OF c] by (simp add: auto_stop_def)
  then show ?thesis using StepProfile assms(3) by (simp add: prof_step_def)
qed

lemma init_profiler_inv:
  "init_profiler lib c rank did pid ts = Ok m \<Longrightarrow> prof_inv m \<and> window_inv m \<and> session_inv m \<and> \<not> prof_active m \<and> \<not> prof_running m"
  by (auto simp: init_profiler_def Let_def prof_inv_def window_inv_def session_inv_def create_backend_def
      split: option.splits if_splits)

text \<open>
  C13. The profiler is safe to drive: after any sequence of start, step and stop calls, running implies
  active and active implies enabled, entering an annotation never raises, a limited run never exceeds its
  steps, and (when the libraries' start calls succeed) sessions are opened and closed in turn, one open
  exactly while the manager is running.
\<close>

theorem profiler_sessions_alternate:
  assumes "init_profiler lib c rank did pid ts = Ok m0" "m = fold (prof_apply lib) ops m0"
  shows "(is_running m \<longrightarrow> is_active m) \<and> (is_active m \<longrightarrow> prof_enabled m) \<and>
    (\<exists>a. prof_annotate m name = Ok a) \<and>
    (0 < max_iters m \<and> is_running m \<longrightarrow> profiled_iters m < max_iters m) \<and>
    (starts_succeed lib \<longrightarrow> (\<forall>b. prof_backend m = Some b \<longrightarrow>
       opened (lib_calls b) = closed (lib_calls b) + (if is_running m then 1 else 0)))"
proof -
  have inv: "prof_inv (fold (prof_apply lib) ops x) \<and> window_inv (fold (prof_apply lib) ops x) \<and>
      (starts_succeed lib \<longrightarrow> session_inv (fold (prof_apply lib) ops x))"
    if "prof_inv x" "window_inv x" "session_inv x \<or> \<not> starts_succeed lib" for x
    using that
  proof (induction ops arbitrary: x)
    case (Cons op ops)
    then show ?case using prof_apply_inv [of x lib op] prof_apply_session [of lib x op] by auto
  qed auto
  from init_profiler_inv [OF assms(1)] inv [of m0]
  have "prof_inv m" "window_inv m" "starts_succeed lib \<longrightarrow> session_inv m" unfolding assms(2) by blast+
  then show ?thesis
    by (auto simp: prof_inv_def window_inv_def session_inv_def is_running_def is_active_def prof_annotate_def
        split: option.splits)
qed

definition ex_prof_config :: "int \<Rightarrow> int \<Rightarrow> profiler_config" where
  "ex_prof_config d n =
     \<lparr>backend = Some ''proton'', delay_iterations = d, max_iterations = n, output_path = None, profile_all_ranks = False\<rparr>"

theorem profiler_sessions_alternate_witness:
  "\<exists>m0. init_profiler (\<lambda>_. None) (ex_prof_config 0 2) 0 ''x'' 7 9 = Ok m0 \<and>
     (\<exists>a. prof_annotate (fold (prof_apply (\<lambda>_. None)) [StartProfile, StepProfile, StopProfile, StartProfile] m0) ''s'' = Ok a)"
proof -
  obtain m0 where m0: "init_profiler (\<lambda>_. None) (ex_prof_config 0 2) 0 ''x'' 7 9 = Ok m0"
    by (auto simp: init_profiler_def Let_def ex_prof_config_def prepare_output_path_def create_backend_def)
  show ?thesis using profiler_sessions_alternate [OF m0 refl] m0 by blast
qed

section \<open>Which steps are profiled\<close>

text \<open>State after \<open>n\<close> steps of a fresh manager, as long as it has not been stopped.\<close>

definition window_after :: "nat \<Rightarrow> prof_manager \<Rightarrow> bool" where
  "window_after n m \<longleftrightarrow>
     prof_active m \<and> prof_backend m \<noteq> None \<and> active_count m = int n \<and> 0 \<le> delay_iters m \<and> 0 \<le> max_iters m \<and>
     (let seen = int n - (if delay_iters m = 0 then 0 else delay_iters m - 1)
      in (prof_running m \<longleftrightarrow> delay_iters m \<le> int n \<and> (max_iters m = 0 \<or> seen < max_iters m)) \<and>
         (prof_running m \<longrightarrow> profiled_iters m = seen) \<and>
         (int n < delay_iters m \<longrightarrow> profiled_iters m = 0))"

lemma prof_step_window:
  assumes "starts_succeed lib" "window_after n m"
  shows "window_after (Suc n) (prof_step lib m)"
proof -
  let ?m1 = "m\<lparr>active_count := active_count m + 1\<rparr>"
  have W: "prof_active m" "prof_backend m \<noteq> None" "active_count m = int n" "0 \<le> delay_iters m" "0 \<le> max_iters m"
    using assms(2) by (simp_all add: window_after_def Let_def)
  consider (waiting) "int n + 1 < delay_iters m" | (begins) "int n + 1 = delay_iters m" | (on) "delay_iters m \<le> int n"
    by linarith
  then show ?thesis
  proof cases
    case waiting
    then have "\<not> prof_running m" using assms(2) by (auto simp: window_after_def Let_def)
    then have "prof_step lib m = ?m1"
      using waiting W by (simp add: prof_step_def delayed_start_def count_profiled_def auto_stop_def)
    then show ?thesis using assms(2) waiting \<open>\<not> prof_running m\<close> by (auto simp: window_after_def Let_def)
  next
    case begins
    then have nr: "\<not> prof_running m" "profiled_iters m = 0" using assms(2) by (auto simp: window_after_def Let_def)
    obtain b where "prof_backend ?m1 = Some b" using W(2) by auto
    from call_start_backend [OF assms(1) this] obtain b' where
      cs: "call_start lib ?m1 = ?m1\<lparr>prof_backend := Some b', prof_running := True\<rparr>" by blast
    have "delayed_start lib ?m1 = ?m1\<lparr>prof_backend := Some b', prof_running := True\<rparr>"
      using begins nr W cs by (simp add: delayed_start_def)
    then show ?thesis
      using begins nr W by (auto simp: window_after_def Let_def prof_step_def count_profiled_def auto_stop_def call_stop_def)
  next
    case on
    then have "delayed_start lib ?m1 = ?m1" using W(3) by (simp add: delayed_start_def)
    then show ?thesis
      using on W assms(2)
      by (auto simp: window_after_def Let_def prof_step_def count_profiled_def auto_stop_def call_stop_def split: option.splits)
  qed
qed

text \<open>
  The profiled window: started once, with libraries that start, the profiler runs after \<open>n\<close>
  steps if and only if the delay is over and the limit is not reached. Without a delay, steps \<open>1 .. max\<close>
  are profiled; with a delay \<open>d > 0\<close> the step that starts the profiler is already counted, so that only
  \<open>max - 1\<close> steps run under it, and none at all for \<open>max = 1\<close>.
\<close>

theorem profiled_window:
  assumes "init_profiler lib c rank did pid ts = Ok m" "profiler_post_init c = Ok c'" "backend c = Some kind_name"
    and "starts_succeed lib"
  shows "is_running ((prof_step lib ^^ n) (prof_start lib m)) \<longleftrightarrow>
    (if delay_iterations c = 0 then max_iterations c = 0 \<or> int n < max_iterations c
     else delay_iterations c \<le> int n \<and>
       (max_iterations c = 0 \<or> int n - delay_iterations c < max_iterations c - 1))"
proof -
  have m: "prof_enabled m" "\<not> prof_active m" "\<not> prof_running m" "prof_backend m \<noteq> None" "active_count m = 0"
    "profiled_iters m = 0" "delay_iters m = delay_iterations c" "max_iters m = max_iterations c"
    using assms(1,3) by (auto simp: init_profiler_def Let_def split: option.splits)
  have d: "0 \<le> delay_iterations c" "0 \<le> max_iterations c" using assms(2) by (auto simp: profiler_post_init_def split: if_splits)
  obtain b where "prof_backend (m\<lparr>prof_active := True\<rparr>) = Some b" using m(4) by auto
  from call_start_backend [OF assms(4) this] obtain b' where
    cs: "call_start lib (m\<lparr>prof_active := True\<rparr>) = m\<lparr>prof_active := True, prof_backend := Some b', prof_running := True\<rparr>"
    by auto
  have "window_after 0 (prof_start lib m)"
    using m d cs by (auto simp: window_after_def Let_def prof_start_def)
  then have "window_after n ((prof_step lib ^^ n) (prof_start lib m))"
    by (induction n) (simp_all add: prof_step_window [OF assms(4)])
  moreover have fixed: "delay_iters (prof_step lib x) = delay_iters x \<and> max_iters (prof_step lib x) = max_iters x" for x
    by (simp add: prof_step_def delayed_start_def count_profiled_def auto_stop_def)
  have "delay_iters ((prof_step lib ^^ n) x) = delay_iters x \<and> max_iters ((prof_step lib ^^ n) x) = max_iters x" for x
    by (induction n) (simp_all add: fixed)
  moreover have "delay_iters (prof_start lib m) = delay_iterations c" "max_iters (prof_start lib m) = max_iterations c"
    using m by (simp_all add: prof_start_def Let_def)
  ultimately show ?thesis by (auto simp: window_after_def Let_def is_running_def)
qed

text \<open>Delay two, limit three: running after the second and the third step only.\<close>

theorem profiled_window_witness:
  "\<exists>m. init_profiler (\<lambda>_. None) (ex_prof_config 2 3) 0 ''x'' 7 9 = Ok m \<and>
     map (\<lambda>n. is_running ((prof_step (\<lambda>_. None) ^^ n) (prof_start (\<lambda>_. None) m))) [0, 1, 2, 3, 4] =
       [False, False, True, True, False]"
proof -
  obtain m where m: "init_profiler (\<lambda>_. None) (ex_prof_config 2 3) 0 ''x'' 7 9 = Ok m"
    by (auto simp: init_profiler_def Let_def ex_prof_config_def prepare_output_path_def create_backend_def)
  have c: "profiler_post_init (ex_prof_config 2 3) = Ok (ex_prof_config 2 3)" "backend (ex_prof_config 2 3) = Some ''proton''"
    by (simp_all add: profiler_post_init_def ex_prof_config_def)
  have "starts_succeed (\<lambda>_. None)" by (simp add: starts_succeed_def)
  from profiled_window [OF m c this]
  have "is_running ((prof_step (\<lambda>_. None) ^^ n) (prof_start (\<lambda>_. None) m)) \<longleftrightarrow> 2 \<le> int n \<and> int n - 2 < 2" for n
    by (simp add: ex_prof_config_def)
  then have "map (\<lambda>n. is_running ((prof_step (\<lambda>_. None) ^^ n) (prof_start (\<lambda>_. None) m))) [0, 1, 2, 3, 4] =
      map (\<lambda>n. 2 \<le> int n \<and> int n - 2 < 2) [0, 1, 2, 3, 4]" by (simp only: map_eq_conv) simp
  with m show ?thesis by simp
qed

end
