(* ===== verification/Worker_Process.thy ===== *)
theory Worker_Process
  imports Profiler
begin

text \<open>
  Worker processes: the manager that spawns, awaits and shuts them down, the loop of a subprocess
  (\<open>src/vexact/worker/worker_proc_manager.py\<close>), the proxies (\<open>src/vexact/worker/worker_proxy.py\<close>) and the
  thread of a worker (\<open>src/vexact/worker/worker.py\<close>).

  The operating system's part is given by parameters: what arrives on a child's ready pipe, and how a child
  reacts to the end of its death pipe and to a termination signal.
\<close>

section \<open>Device selection\<close>

type_synonym environ = "string \<rightharpoonup> string"

abbreviation cuda_var :: string where
  "cuda_var \<equiv> ''CUDA_VISIBLE_DEVICES''"

fun split_commas :: "string \<Rightarrow> string list" where
  "split_commas [] = [[]]"
| "split_commas (c # cs) =
     (if c = CHR '','' then [] # split_commas cs
      else (case split_commas cs of [] \<Rightarrow> [[c]] | w # ws \<Rightarrow> (c # w) # ws))"

definition candidate_devices :: "nat \<Rightarrow> string option \<Rightarrow> string list" where
  "candidate_devices device_count old =
     (case old of
        Some v \<Rightarrow> if v \<noteq> [] then split_commas v else if 0 < device_count then map nat_str [0..<device_count] else [''0'']
      | None \<Rightarrow> if 0 < device_count then map nat_str [0..<device_count] else [''0''])"

text \<open>\<open>with _set_cuda_visible_devices(rank): body\<close>; \<open>finally\<close> restores the variable on every exit.\<close>

definition set_cuda_visible_devices :: "nat \<Rightarrow> nat \<Rightarrow> (environ \<Rightarrow> environ \<times> 'a res) \<Rightarrow> environ \<Rightarrow> environ \<times> 'a res" where
  "set_cuda_visible_devices device_count rank body env =
     (let old = env cuda_var;
          devices = candidate_devices device_count old;
          (env', r) = body (env(cuda_var \<mapsto> devices ! (rank mod length devices)))
      in (env'(cuda_var := old), r))"

section \<open>A subprocess\<close>

datatype proxy_action = Construct | StartProxy | SendReady | SendFailed | CloseReady | AwaitShutdown | CloseDeath | StopProxy

text \<open>
  \<open>_run_proxy_loop\<close>: whether the proxy could be built and started, and whether a signal or the end of the
  death pipe ever sets the event.
\<close>

definition run_proxy_loop :: "bool \<Rightarrow> bool \<Rightarrow> bool \<Rightarrow> proxy_action list" where
  "run_proxy_loop built started woken =
     (if \<not> built then [Construct, SendFailed, CloseReady, CloseDeath]
      else if \<not> started then [Construct, StartProxy, SendFailed, CloseReady, CloseDeath, StopProxy]
      else [Construct, StartProxy, SendReady, CloseReady, AwaitShutdown] @ (if woken then [CloseDeath, StopProxy] else []))"

text \<open>The signal handler reacts to the first signal only.\<close>

record shutdown_state =
  shutdown_requested :: bool
  shutdown_set :: bool

definition signal_handler :: "shutdown_state \<Rightarrow> shutdown_state" where
  "signal_handler s = (if \<not> shutdown_requested s then s\<lparr>shutdown_requested := True, shutdown_set := True\<rparr> else s)"

definition monitor_parent :: "bool \<Rightarrow> shutdown_state \<Rightarrow> shutdown_state" where
  "monitor_parent parent_exited s = (if parent_exited then s\<lparr>shutdown_set := True\<rparr> else s)"

section \<open>The manager\<close>

text \<open>What \<open>recv\<close> on the ready pipe gives: a message, the end of the pipe, or nothing ever.\<close>

datatype ready_status = Message string | PipeEnd | Silent

record child =
  ch_status :: ready_status
  ch_leaves :: bool
  ch_obeys :: bool

datatype ending = Exited | Terminated | Killed

record proc =
  pr_child :: child
  pr_rank :: nat
  pr_device :: "string option"
  pr_death_open :: bool
  pr_end :: "ending option"

record manager =
  mg_procs :: "proc list"
  mg_env :: environ

text \<open>Spawning rank \<open>r\<close>: the child inherits the environment at its start.\<close>

definition spawn :: "nat \<Rightarrow> (nat \<Rightarrow> child) \<Rightarrow> nat \<Rightarrow> manager \<Rightarrow> manager" where
  "spawn device_count children r m =
     (let (env, dev) = set_cuda_visible_devices device_count r (\<lambda>env. (env, Ok (env cuda_var))) (mg_env m)
      in m\<lparr>mg_env := env,
           mg_procs := mg_procs m @ [\<lparr>pr_child = children r, pr_rank = r,
             pr_device = (case dev of Ok d \<Rightarrow> d | _ \<Rightarrow> None), pr_death_open = True, pr_end = None\<rparr>]\<rparr>)"

text \<open>
  \<open>_shutdown_procs\<close>: all death pipes are closed first; a process then has a second to leave, half a second
  after a termination signal, and is killed.
\<close>

definition stop_proc :: "proc \<Rightarrow> proc" where
  "stop_proc p =
     (let p1 = (if pr_end p = None \<and> \<not> pr_death_open p \<and> ch_leaves (pr_child p) then p\<lparr>pr_end := Some Exited\<rparr> else p);
          p2 = (if pr_end p1 = None \<and> ch_obeys (pr_child p1) then p1\<lparr>pr_end := Some Terminated\<rparr> else p1)
      in if pr_end p2 = None then p2\<lparr>pr_end := Some Killed\<rparr> else p2)"

definition shutdown_procs :: "proc list \<Rightarrow> proc list" where
  "shutdown_procs ps = map stop_proc (map (\<lambda>p. p\<lparr>pr_death_open := False\<rparr>) ps)"

definition manager_close :: "manager \<Rightarrow> manager" where
  "manager_close m = m\<lparr>mg_procs := shutdown_procs (mg_procs m)\<rparr>"

text \<open>Awaiting the children in rank order. The end of a pipe raises \<open>EOFError\<close> without a call of \<open>close\<close>.\<close>

fun await_ready :: "proc list \<Rightarrow> manager \<Rightarrow> manager \<times> unit res" where
  "await_ready [] m = (m, Ok ())"
| "await_ready (p # ps) m =
     (case ch_status (pr_child p) of
        Message s \<Rightarrow> if s \<noteq> ''READY'' then (manager_close m, Raise RuntimeError) else await_ready ps m
      | PipeEnd \<Rightarrow> (m, Raise EOFError)
      | Silent \<Rightarrow> (m, Hang))"

definition init_manager :: "nat \<Rightarrow> nat \<Rightarrow> (nat \<Rightarrow> child) \<Rightarrow> environ \<Rightarrow> manager \<times> unit res" where
  "init_manager workers device_count children env =
     (let m = fold (spawn device_count children) [0..<workers] \<lparr>mg_procs = [], mg_env = env\<rparr>
      in await_ready (mg_procs m) m)"

section \<open>The thread of a worker\<close>

text \<open>
  \<open>wk_alive\<close> tells whether the generation thread runs; \<open>wk_group\<close> whether the process group exists. The
  thread leaves its loop within the half second that \<open>stop\<close> waits when \<open>prompt\<close> holds.
\<close>

record worker_state =
  wk_started :: bool
  wk_alive :: bool
  wk_shutdown :: bool
  wk_group :: bool

definition worker_start :: "worker_state \<Rightarrow> worker_state" where
  "worker_start w = (if wk_started w \<and> wk_alive w then w else w\<lparr>wk_shutdown := False, wk_started := True, wk_alive := True\<rparr>)"

definition worker_stop :: "bool \<Rightarrow> worker_state \<Rightarrow> worker_state" where
  "worker_stop prompt w =
     (if \<not> wk_started w \<or> \<not> wk_alive w then w
      else w\<lparr>wk_shutdown := True, wk_alive := wk_alive w \<and> \<not> prompt, wk_group := False\<rparr>)"

text \<open>\<open>join\<close> returns when the thread has ended.\<close>

definition worker_join :: "worker_state \<Rightarrow> unit res" where
  "worker_join w = (if wk_started w \<and> wk_alive w then Hang else Ok ())"

text \<open>Profiling on a rank other than 0 only when it is asked for on all ranks.\<close>

definition rank_profiler_config :: "nat \<Rightarrow> profiler_config \<Rightarrow> profiler_config" where
  "rank_profiler_config rank c = (if rank \<noteq> 0 \<and> \<not> profile_all_ranks c then c\<lparr>backend := None\<rparr> else c)"

text \<open>
  The loop of a rank that is not the driver: \<open>infer n\<close> is the outcome of its \<open>n\<close>-th call. It ends with the
  shutdown event, after \<open>rounds\<close> turns, or with the exception of a call; the profiler is stopped either way.
\<close>

fun worker_rounds :: "lib \<Rightarrow> (nat \<Rightarrow> unit res) \<Rightarrow> nat \<Rightarrow> nat \<Rightarrow> prof_manager \<Rightarrow> prof_manager \<times> unit res" where
  "worker_rounds lib infer i 0 p = (p, Ok ())"
| "worker_rounds lib infer i (Suc n) p =
     (case prof_annotate p ''inferencer.infer'' of
        Ok _ \<Rightarrow> (case infer i of
            Ok _ \<Rightarrow> worker_rounds lib infer (Suc i) n (prof_step lib p)
          | r \<Rightarrow> (p, r))
      | Raise e \<Rightarrow> (p, Raise e)
      | Hang \<Rightarrow> (p, Hang))"

definition worker_generation_loop :: "lib \<Rightarrow> (nat \<Rightarrow> unit res) \<Rightarrow> nat \<Rightarrow> prof_manager \<Rightarrow> prof_manager \<times> unit res" where
  "worker_generation_loop lib infer rounds p =
     (let (p', r) = worker_rounds lib infer 0 rounds (prof_start lib p)
      in case r of Hang \<Rightarrow> (p', Hang) | _ \<Rightarrow> (prof_stop lib p', r))"

section \<open>Proxies\<close>

datatype part = ControlServer | RequestServer | WorkerThread

datatype part_action = StartPart part | StopPart part

definition worker_proxy_start :: "part_action list" where
  "worker_proxy_start = [StartPart ControlServer, StartPart WorkerThread]"

definition worker_proxy_stop :: "part_action list" where
  "worker_proxy_stop = [StopPart WorkerThread, StopPart ControlServer]"

definition driver_proxy_init :: "nat \<Rightarrow> unit res" where
  "driver_proxy_init rank = (if rank \<noteq> 0 then Raise ValueError else Ok ())"

definition driver_proxy_start :: "part_action list" where
  "driver_proxy_start = [StartPart ControlServer, StartPart RequestServer, StartPart WorkerThread]"

definition driver_proxy_stop :: "part_action list" where
  "driver_proxy_stop = [StopPart WorkerThread, StopPart RequestServer, StopPart ControlServer]"

section \<open>How the start of the workers ends\<close>

lemma visible_devices_restored:
  "fst (body (env(cuda_var \<mapsto> d))) = env(cuda_var \<mapsto> d) \<Longrightarrow>
    candidate_devices n (env cuda_var) ! (r mod length (candidate_devices n (env cuda_var))) = d \<Longrightarrow>
    set_cuda_visible_devices n r body env = (env, snd (body (env(cuda_var \<mapsto> d))))"
  by (auto simp: set_cuda_visible_devices_def Let_def split: prod.splits)

definition device_of :: "nat \<Rightarrow> environ \<Rightarrow> nat \<Rightarrow> string" where
  "device_of n env r = (let ds = candidate_devices n (env cuda_var) in ds ! (r mod length ds))"

lemma spawn_simp:
  "spawn n children r m = m\<lparr>mg_procs := mg_procs m @ [\<lparr>pr_child = children r, pr_rank = r,
     pr_device = Some (device_of n (mg_env m) r), pr_death_open = True, pr_end = None\<rparr>]\<rparr>"
  by (simp add: spawn_def set_cuda_visible_devices_def device_of_def Let_def)










definition ex_child :: "ready_status \<Rightarrow> child" where
  "ex_child t = \<lparr>ch_status = t, ch_leaves = False, ch_obeys = True\<rparr>"


text \<open>A child that never reports hides the failure of a later one: the constructor waits for ever.\<close>

lemma silent_rank_hides_failure:
  "snd (init_manager 2 4 (\<lambda>i. ex_child (if i = 0 then Silent else Message ''FAILED'')) env) = Hang"
  by (simp add: init_manager_def spawn_simp Let_def upt_rec ex_child_def)

text \<open>Stopping a worker whose thread has already died leaves its process group in place.\<close>

lemma dead_worker_keeps_group: "wk_group w \<Longrightarrow> \<not> wk_alive w \<Longrightarrow> wk_group (worker_stop prompt w)"
  by (simp add: worker_stop_def)

text \<open>The profiler is off when the loop of a rank has ended, also by an exception.\<close>

lemma worker_loop_stops_profiler:
  assumes "worker_generation_loop lib infer n p = (p', r)" "r \<noteq> Hang" "prof_enabled p'"
  shows "\<not> is_active p'"
proof -
  have keeps: "prof_enabled (call_stop lib p) = prof_enabled p" "prof_active (call_stop lib p) = prof_active p" for p
    by (simp_all add: call_stop_def split: option.split)
  show ?thesis
    using assms by (auto simp: worker_generation_loop_def Let_def prof_stop_def is_active_def keeps split: prod.splits res.splits if_splits)
qed

end
