(* ===== verification/Model_Loader.thy ===== *)
theory Model_Loader
  imports Config "HOL-Library.Sublist"
begin

text \<open>
  Building a model for one pipeline rank (\<open>src/vexact/inferencer/model_loader.py\<close>): which checkpoint
  files are read, how weights reach the parameters and how tied weights share storage, which layers a
  rank keeps, and what the wrapped model returns. The Hugging Face model is a parameter: its modules are
  functions, its parameters are names with a storage.

  The lemmas show that the ranks partition the layers, that running the stages one after the other runs
  the whole model, and that loading leaves every parameter with the value of the checkpoint.
\<close>

section \<open>Layers of a rank\<close>

definition bump :: "int \<Rightarrow> int list \<Rightarrow> int list res" where
  "bump i ps = rbind (py_get ps (- i)) (\<lambda>x. py_set ps (- i) (x + 1))"

definition partition_sizes :: "int \<Rightarrow> int \<Rightarrow> int list res" where
  "partition_sizes layers stages =
     (if stages = 0 then Raise ZeroDivisionError
      else for_res bump (map int [2..<nat (layers mod stages + 2)]) (replicate (nat stages) (layers div stages)))"

definition get_pp_indices :: "int \<Rightarrow> int \<Rightarrow> int \<Rightarrow> (int \<times> int) res" where
  "get_pp_indices layers rank stages =
     rbind (partition_sizes layers stages) (\<lambda>ps.
     let start = sum_list (py_slice ps 0 rank)
     in rbind (py_get ps rank) (\<lambda>n. Ok (start, start + n)))"

section \<open>Modules of a rank\<close>

text \<open>The entries of the model's pipeline plan, in order; a \<open>ModuleList\<close> holds the layers.\<close>

datatype 'm module_entry = Single 'm | ModuleList "'m list"

fun is_module_list :: "'m module_entry \<Rightarrow> bool" where
  "is_module_list (ModuleList _) = True"
| "is_module_list (Single _) = False"

text \<open>A module that was replaced by \<open>PPMissingLayer\<close> is \<open>Missing\<close>.\<close>

datatype 'm slot = Kept 'm | Missing

text \<open>\<open>PPMissingLayer.forward\<close> returns its first argument; given no argument, \<open>next\<close> has none to return.\<close>

definition missing_forward :: "'x list \<Rightarrow> (string \<times> 'x) list \<Rightarrow> 'x res" where
  "missing_forward args kwargs =
     (case args of x # _ \<Rightarrow> Ok x | [] \<Rightarrow> (case kwargs of (_, x) # _ \<Rightarrow> Ok x | [] \<Rightarrow> Raise StopIteration))"

fun keep_entry :: "bool \<Rightarrow> 'm module_entry \<Rightarrow> 'm slot module_entry" where
  "keep_entry k (Single m) = Single (if k then Kept m else Missing)"
| "keep_entry k (ModuleList ms) = ModuleList (map Kept ms)"

definition keep_layers :: "int \<Rightarrow> int \<Rightarrow> 'm list \<Rightarrow> 'm slot list" where
  "keep_layers start stop layers =
     map (\<lambda>(i, m). if start \<le> int i \<and> int i < stop then Kept m else Missing) (enumerate 0 layers)"

text \<open>The base model after \<open>_apply_pp\<close>, and whether the rank keeps the output head.\<close>

record 'm pp_modules =
  pp_before :: "(string \<times> 'm slot module_entry) list"
  pp_layers :: "'m slot list"
  pp_after :: "(string \<times> 'm slot module_entry) list"
  pp_head :: bool

definition apply_pp :: "bool \<Rightarrow> bool \<Rightarrow> int \<Rightarrow> pp_info \<Rightarrow> (string \<times> 'm module_entry) list \<Rightarrow> 'm pp_modules res" where
  "apply_pp supported tie layer_count p plan =
     (let first = (pp_rank p = 0); last_one = (pp_rank p = pp_size p - 1);
          before = takeWhile (\<lambda>(_, e). \<not> is_module_list e) plan;
          rest = dropWhile (\<lambda>(_, e). \<not> is_module_list e) plan
      in if \<not> supported then Raise ValueError
         else if 1 < length (filter (\<lambda>(_, e). is_module_list e) plan) then Raise ValueError
         else (case rest of
             (name, ModuleList layers) # after \<Rightarrow>
               rbind (get_pp_indices layer_count (pp_rank p) (pp_size p)) (\<lambda>(start, stop).
                 Ok \<lparr>pp_before = map (\<lambda>(n, e). (n, keep_entry (first \<or> tie \<and> last_one) e)) before,
                     pp_layers = keep_layers start stop layers,
                     pp_after = map (\<lambda>(n, e). (n, keep_entry last_one e)) after,
                     pp_head = last_one\<rparr>)
           | _ \<Rightarrow> Raise ValueError))"

section \<open>The wrapped model\<close>

text \<open>
  Its forward on a rank: the base model runs on token ids on the first rank and on the intermediate
  tensors elsewhere; only the last rank applies the head, to the rows \<open>rows\<close> selects. \<open>base\<close> is the
  forward of the Hugging Face model on these modules.
\<close>

datatype 'x stage_output = Hidden 'x | Logits 'x

definition stage_forward ::
    "('m pp_modules \<Rightarrow> 'x option \<Rightarrow> 'x option \<Rightarrow> 'x) \<Rightarrow> ('x \<Rightarrow> 'x) \<Rightarrow> ('x \<Rightarrow> 'x) \<Rightarrow> pp_info \<Rightarrow> 'm pp_modules
       \<Rightarrow> 'x option \<Rightarrow> 'x option \<Rightarrow> 'x stage_output res" where
  "stage_forward base head rows p ms input_ids intermediate =
     (if 0 < pp_rank p then
        (case intermediate of
           None \<Rightarrow> Raise AssertionError
         | Some x \<Rightarrow> Ok (if pp_rank p \<noteq> pp_size p - 1 then Hidden (base ms None (Some x))
                         else Logits (head (rows (base ms None (Some x))))))
      else
        (case input_ids of
           None \<Rightarrow> Raise AssertionError
         | Some x \<Rightarrow> Ok (if pp_rank p \<noteq> pp_size p - 1 then Hidden (base ms (Some x) None)
                         else Logits (head (rows (base ms (Some x) None))))))"

section \<open>Checkpoint files\<close>

text \<open>Looking up a file of the checkpoint and listing the shards of an index are Hugging Face calls.\<close>

definition load_state_dict :: "(string \<Rightarrow> string option) \<Rightarrow> (string \<Rightarrow> string list) \<Rightarrow> string list res" where
  "load_state_dict cached shards =
     (case cached ''model.safetensors'' of
        Some f \<Rightarrow> Ok [f]
      | None \<Rightarrow> (case cached ''model.safetensors.index.json'' of
          Some f \<Rightarrow> Ok (shards f)
        | None \<Rightarrow> (case cached ''pytorch_model.bin'' of
            Some f \<Rightarrow> Ok [f]
          | None \<Rightarrow> (case cached ''pytorch_model.bin.index.json'' of
              Some f \<Rightarrow> Ok (shards f)
            | None \<Rightarrow> Raise ValueError))))"

definition iterate_state_dict ::
    "(string \<Rightarrow> (string \<times> 'v) list) \<Rightarrow> (string \<Rightarrow> (string \<times> 'v) list) \<Rightarrow> string list \<Rightarrow> (string \<times> 'v) list" where
  "iterate_state_dict read_safetensors read_torch files =
     concat (map (\<lambda>f. if suffix ''.safetensors'' f then read_safetensors f else read_torch f) files)"

section \<open>Loading weights\<close>

text \<open>A parameter's \<open>data\<close> is a storage, so that tied parameters can share one.\<close>

record 'v params =
  p_data :: "string \<Rightarrow> nat option"
  p_mem :: "nat \<Rightarrow> 'v"

definition embed_name :: string where
  "embed_name = ''model.embed_tokens.weight''"

text \<open>\<open>copy dst src\<close> is \<open>Tensor.copy_\<close>: conversion and broadcast to the destination, or an exception.\<close>

definition copy_param :: "('v \<Rightarrow> 'v \<Rightarrow> 'v res) \<Rightarrow> string \<Rightarrow> 'v \<Rightarrow> 'v params \<Rightarrow> 'v params res" where
  "copy_param copy name w m =
     (case p_data m name of
        None \<Rightarrow> Ok m
      | Some s \<Rightarrow> rbind (copy (p_mem m s) w) (\<lambda>v. Ok (m\<lparr>p_mem := (p_mem m)(s := v)\<rparr>)))"

definition load_one :: "('v \<Rightarrow> 'v \<Rightarrow> 'v res) \<Rightarrow> string \<times> 'v \<Rightarrow> 'v option \<times> 'v params \<Rightarrow> ('v option \<times> 'v params) res" where
  "load_one copy nw st =
     (let (name, w) = nw; (emb, m) = st
      in rbind (copy_param copy name w m) (\<lambda>m'. Ok (if name = embed_name then Some w else emb, m')))"

definition tie_one :: "('v \<Rightarrow> 'v \<Rightarrow> 'v res) \<Rightarrow> 'v option \<Rightarrow> string \<Rightarrow> 'v params \<Rightarrow> 'v params res" where
  "tie_one copy emb name m =
     (if p_data m name = None then Ok m
      else case p_data m embed_name of
             Some s \<Rightarrow> Ok (m\<lparr>p_data := (p_data m)(name \<mapsto> s)\<rparr>)
           | None \<Rightarrow> (case emb of None \<Rightarrow> Ok m | Some w \<Rightarrow> copy_param copy name w m))"

definition load_default ::
    "('v \<Rightarrow> 'v \<Rightarrow> 'v res) \<Rightarrow> string list \<Rightarrow> (string \<times> 'v) list \<Rightarrow> 'v params \<Rightarrow> 'v params res" where
  "load_default copy tied ws m =
     rbind (for_res (load_one copy) ws (None, m)) (\<lambda>(emb, m'). for_res (tie_one copy emb) tied m')"

text \<open>A model may bring its own loader; otherwise the default is used. Keys are tied only if configured.\<close>

definition load_weights_from_weight_iterator ::
    "('v \<Rightarrow> 'v \<Rightarrow> 'v res) \<Rightarrow> bool \<Rightarrow> string list option \<Rightarrow> ((string \<times> 'v) list \<Rightarrow> string list \<Rightarrow> 'v params \<Rightarrow> 'v params res) option
       \<Rightarrow> (string \<times> 'v) list \<Rightarrow> 'v params \<Rightarrow> 'v params res" where
  "load_weights_from_weight_iterator copy tie keys custom ws m =
     (let tied = (if tie then (case keys of Some ks \<Rightarrow> ks | None \<Rightarrow> []) else [])
      in case custom of Some f \<Rightarrow> f ws tied m | None \<Rightarrow> load_default copy tied ws m)"

section \<open>The ranks partition the layers\<close>

definition sizes_after :: "int \<Rightarrow> nat \<Rightarrow> nat \<Rightarrow> int list" where
  "sizes_after per n k = map (\<lambda>j. per + (if n - 1 - k \<le> j \<and> j < n - 1 then 1 else 0)) [0..<n]"

lemma py_neg_index:
  assumes "0 < i" "i \<le> length xs"
  shows "py_get xs (- int i) = Ok (xs ! (length xs - i))" "py_set xs (- int i) v = Ok (xs[length xs - i := v])"
proof -
  have "nat (int (length xs) - int i) = length xs - i" using assms by linarith
  then show "py_get xs (- int i) = Ok (xs ! (length xs - i))" "py_set xs (- int i) v = Ok (xs[length xs - i := v])"
    using assms by (simp_all add: py_get_def py_set_def)
qed

lemma bump_step:
  assumes "Suc k < n"
  shows "bump (int (k + 2)) (sizes_after per n k) = Ok (sizes_after per n (Suc k))"
proof -
  let ?xs = "sizes_after per n k"
  have l: "length ?xs = n" by (simp add: sizes_after_def)
  have g: "?xs ! (n - (k + 2)) = per" using assms by (auto simp: sizes_after_def)
  have "?xs[n - (k + 2) := per + 1] = sizes_after per n (Suc k)"
    by (rule nth_equalityI) (use assms in \<open>auto simp: sizes_after_def nth_list_update\<close>)
  then show ?thesis
    unfolding bump_def using py_neg_index [of "k + 2" ?xs] assms l g by simp
qed

lemma partition_sizes_Ok:
  assumes "0 \<le> layers" "0 < n"
  shows "partition_sizes layers (int n) = Ok (sizes_after (layers div int n) n (nat (layers mod int n)))"
proof -
  let ?per = "layers div int n" and ?k = "nat (layers mod int n)"
  have k: "?k < n" "0 \<le> layers mod int n" using assms(2) by (auto simp: nat_less_iff)
  have "k \<le> ?k \<Longrightarrow> for_res bump (map int [2..<k + 2]) (replicate n ?per) = Ok (sizes_after ?per n k)" for k
  proof (induction k)
    case 0
    have "replicate n ?per = sizes_after ?per n 0"
      by (rule nth_equalityI) (auto simp: sizes_after_def)
    then show ?case by simp
  next
    case (Suc k)
    then have "for_res bump (map int [2..<k + 2]) (replicate n ?per) = Ok (sizes_after ?per n k)" by simp
    moreover have "[2..<Suc k + 2] = [2..<k + 2] @ [k + 2]" by simp
    moreover have "Suc k < n" using Suc.prems k by linarith
    ultimately show ?case using bump_step [of k n ?per] by (simp only: map_append for_res_append rbind.simps list.map for_res.simps)
  qed
  moreover have "nat (layers mod int n + 2) = ?k + 2" using k(2) by simp
  ultimately show ?thesis using assms(2) by (simp add: partition_sizes_def)
qed

lemma sum_indicator: "k < n \<Longrightarrow> (\<Sum>j<n. if n - 1 - k \<le> j \<and> j < n - 1 then (1 :: int) else 0) = int k"
proof -
  assume "k < n"
  have "(\<Sum>j<n. if n - 1 - k \<le> j \<and> j < n - 1 then (1 :: int) else 0) = int (card {j. j < n \<and> n - 1 - k \<le> j \<and> j < n - 1})"
    by (simp add: sum.If_cases Int_def)
  also have "{j. j < n \<and> n - 1 - k \<le> j \<and> j < n - 1} = {n - 1 - k..<n - 1}" by auto
  finally show ?thesis using \<open>k < n\<close> by simp
qed

lemma sum_sizes: "k < n \<Longrightarrow> sum_list (sizes_after per n k) = per * int n + int k"
  using sum_indicator [of k n]
  by (simp add: sizes_after_def interv_sum_list_conv_sum_set_nat atLeast0LessThan sum.distrib mult.commute)

text \<open>The first layer of every rank; \<open>layer_start layers n n\<close> is the number of layers.\<close>

definition layer_start :: "int \<Rightarrow> nat \<Rightarrow> nat \<Rightarrow> int" where
  "layer_start layers n r = sum_list (take r (sizes_after (layers div int n) n (nat (layers mod int n))))"

lemma layer_start_bounds:
  assumes "0 \<le> layers" "0 < n"
  shows "layer_start layers n 0 = 0" "layer_start layers n n = layers"
    "r < n \<Longrightarrow> layer_start layers n (Suc r) =
       layer_start layers n r + layers div int n +
       (if n - 1 - nat (layers mod int n) \<le> r \<and> r < n - 1 then 1 else 0)"
proof -
  let ?k = "nat (layers mod int n)"
  have k: "?k < n" "int ?k = layers mod int n" using assms(2) by (auto simp: nat_less_iff)
  show "layer_start layers n 0 = 0" by (simp add: layer_start_def)
  have "length (sizes_after (layers div int n) n ?k) = n" by (simp add: sizes_after_def)
  then show "layer_start layers n n = layers"
    using sum_sizes [OF k(1), of "layers div int n"] k(2) by (simp add: layer_start_def)
  show "layer_start layers n (Suc r) = layer_start layers n r + layers div int n +
       (if n - 1 - ?k \<le> r \<and> r < n - 1 then 1 else 0)" if "r < n"
  proof -
    have l: "r < length (sizes_after (layers div int n) n ?k)" using that by (simp add: sizes_after_def)
    show ?thesis unfolding layer_start_def take_Suc_conv_app_nth [OF l] using that by (simp add: sizes_after_def)
  qed
qed

lemma get_pp_indices_Ok:
  assumes "0 \<le> layers" "r < n"
  shows "get_pp_indices layers (int r) (int n) = Ok (layer_start layers n r, layer_start layers n (Suc r))"
proof -
  let ?ps = "sizes_after (layers div int n) n (nat (layers mod int n))"
  have n: "0 < n" using assms(2) by simp
  have l: "length ?ps = n" by (simp add: sizes_after_def)
  have "sum_list (py_slice ?ps 0 (int r)) = layer_start layers n r"
    using assms(2) l by (simp add: py_slice_in_range layer_start_def)
  moreover have "layer_start layers n (Suc r) = layer_start layers n r + ?ps ! r"
    using assms(2) l by (simp add: layer_start_def take_Suc_conv_app_nth)
  ultimately show ?thesis
    using assms(2) l by (simp add: get_pp_indices_def partition_sizes_Ok [OF assms(1) n] py_get_in_range Let_def)
qed

lemma layer_start_mono: "0 \<le> layers \<Longrightarrow> 0 < n \<Longrightarrow> r \<le> q \<Longrightarrow> q \<le> n \<Longrightarrow> layer_start layers n r \<le> layer_start layers n q"
proof (induction q)
  case (Suc q)
  have "0 \<le> layers div int n" using Suc.prems by (simp add: pos_imp_zdiv_nonneg_iff)
  then have "layer_start layers n q \<le> layer_start layers n (Suc q)"
    using Suc.prems layer_start_bounds(3) [of layers n q] by auto
  then show ?case using Suc by (cases "r = Suc q") auto
qed simp

text \<open>
  Pipeline ranks partition the layers: the range of rank \<open>0\<close> starts at layer 0, every range ends where
  the next one starts, the last ends at the number of layers; ranges differ by at most one layer, and none
  is shorter than the last.
\<close>

theorem pp_indices_partition:
  assumes "0 \<le> layers" "0 < n"
  shows "\<exists>starts. (\<forall>r<n. get_pp_indices layers (int r) (int n) = Ok (starts r, starts (Suc r)) \<and>
      layers div int n \<le> starts (Suc r) - starts r \<and> starts (Suc r) - starts r \<le> layers div int n + 1) \<and>
    starts 0 = 0 \<and> starts n = layers \<and> starts n - starts (n - 1) = layers div int n"
proof (intro exI conjI allI impI)
  fix r assume r: "r < n"
  show "get_pp_indices layers (int r) (int n) = Ok (layer_start layers n r, layer_start layers n (Suc r))"
    by (rule get_pp_indices_Ok [OF assms(1) r])
  show "layers div int n \<le> layer_start layers n (Suc r) - layer_start layers n r"
    "layer_start layers n (Suc r) - layer_start layers n r \<le> layers div int n + 1"
    using layer_start_bounds(3) [OF assms r] by auto
next
  show "layer_start layers n 0 = 0" "layer_start layers n n = layers" by (rule layer_start_bounds [OF assms])+
  show "layer_start layers n n - layer_start layers n (n - 1) = layers div int n"
    using layer_start_bounds(3) [OF assms, of "n - 1"] assms(2) by simp
qed

text \<open>Ten layers on four ranks: 2, 3, 3, 2.\<close>

theorem pp_indices_partition_witness:
  "\<exists>starts. get_pp_indices 10 1 4 = Ok (starts 1, starts 2) \<and> starts 0 = (0 :: int) \<and> starts (4 :: nat) = 10"
proof -
  obtain starts :: "nat \<Rightarrow> int" where s: "\<forall>r<4. get_pp_indices 10 (int r) (int 4) = Ok (starts r, starts (Suc r))" "starts 0 = 0" "starts 4 = 10"
    using pp_indices_partition [of 10 4] by auto
  have "get_pp_indices 10 1 4 = Ok (starts 1, starts 2)" using s(1) [rule_format, of 1] by (simp add: numeral_2_eq_2)
  then show ?thesis using s(2,3) by blast
qed

section \<open>The stages compose to the whole model\<close>

fun run_slot :: "('x \<Rightarrow> 'x) slot \<Rightarrow> 'x \<Rightarrow> 'x" where
  "run_slot (Kept f) x = f x"
| "run_slot Missing x = x"

lemma missing_is_identity: "missing_forward (x # args) kwargs = Ok (run_slot Missing x)"
  by (simp add: missing_forward_def)

fun run_entry :: "('x \<Rightarrow> 'x) slot module_entry \<Rightarrow> 'x \<Rightarrow> 'x" where
  "run_entry (Single s) x = run_slot s x"
| "run_entry (ModuleList ss) x = fold run_slot ss x"

definition run_entries :: "(string \<times> ('x \<Rightarrow> 'x) slot module_entry) list \<Rightarrow> 'x \<Rightarrow> 'x" where
  "run_entries es = fold (\<lambda>e. run_entry (snd e)) es"

text \<open>The documented forward of a base model: its modules in the order of the plan, entered after the embedding when embeddings are given.\<close>

definition sequential :: "(('x \<Rightarrow> 'x) pp_modules \<Rightarrow> 'x option \<Rightarrow> 'x option \<Rightarrow> 'x) \<Rightarrow> bool" where
  "sequential base \<longleftrightarrow> (\<forall>ms x.
     base ms (Some x) None = run_entries (pp_after ms) (fold run_slot (pp_layers ms) (run_entries (pp_before ms) x)) \<and>
     base ms None (Some x) = run_entries (pp_after ms) (fold run_slot (pp_layers ms) x))"

definition rank_stage ::
    "(('x \<Rightarrow> 'x) pp_modules \<Rightarrow> 'x option \<Rightarrow> 'x option \<Rightarrow> 'x) \<Rightarrow> ('x \<Rightarrow> 'x) \<Rightarrow> ('x \<Rightarrow> 'x) \<Rightarrow> bool \<Rightarrow> int
       \<Rightarrow> (string \<times> ('x \<Rightarrow> 'x) module_entry) list \<Rightarrow> nat \<Rightarrow> nat \<Rightarrow> 'x \<Rightarrow> 'x stage_output res" where
  "rank_stage base head rows tie layer_count plan n r x =
     (let p = \<lparr>pp_size = int n, pp_rank = int r\<rparr>
      in rbind (apply_pp True tie layer_count p plan) (\<lambda>ms.
           stage_forward base head rows p ms (if r = 0 then Some x else None) (if r = 0 then None else Some x)))"

text \<open>The hidden states travel from rank to rank.\<close>

fun run_ranks :: "(nat \<Rightarrow> 'x \<Rightarrow> 'x stage_output res) \<Rightarrow> nat list \<Rightarrow> 'x \<Rightarrow> 'x stage_output res" where
  "run_ranks stage [] x = Ok (Hidden x)"
| "run_ranks stage (r # rs) x =
     rbind (stage r x) (\<lambda>out. case out of Hidden y \<Rightarrow> run_ranks stage rs y | Logits y \<Rightarrow> Ok (Logits y))"

definition whole_model :: "(string \<times> ('x \<Rightarrow> 'x) module_entry) list \<Rightarrow> 'x \<Rightarrow> 'x" where
  "whole_model plan = run_entries (map (\<lambda>(n, e). (n, keep_entry True e)) plan)"

lemma run_kept_layers:
  "0 \<le> a \<Longrightarrow> a \<le> b \<Longrightarrow> fold run_slot (keep_layers a b layers) x = fold (\<lambda>f. f) (drop (nat a) (take (nat b) layers)) x"
proof (induction layers arbitrary: x rule: rev_induct)
  case (snoc m ms)
  have k: "keep_layers a b (ms @ [m]) =
      keep_layers a b ms @ [if a \<le> int (length ms) \<and> int (length ms) < b then Kept m else Missing]"
    by (simp add: keep_layers_def enumerate_append_eq)
  show ?case
  proof (cases "int (length ms) < b")
    case True
    then have "take (nat b) (ms @ [m]) = ms @ [m]" "take (nat b) ms = ms" using snoc.prems by auto
    then show ?thesis using snoc True k by (cases "a \<le> int (length ms)") auto
  next
    case False
    then have "take (nat b) (ms @ [m]) = take (nat b) ms" using snoc.prems by auto
    then show ?thesis using snoc False k by simp
  qed
qed (simp add: keep_layers_def)

lemma run_entries_missing:
  "\<forall>e\<in>set es. \<not> is_module_list (snd e) \<Longrightarrow> run_entries (map (\<lambda>(n, e). (n, keep_entry False e)) es) x = x"
proof (induction es)
  case (Cons e es)
  then show ?case by (cases e; cases "snd e") (auto simp: run_entries_def)
qed (simp add: run_entries_def)

lemma run_kept_list: "fold run_slot (map Kept layers) x = fold (\<lambda>f. f) layers x"
  by (induction layers arbitrary: x) simp_all

lemma whole_model_split:
  "whole_model (before @ (n, ModuleList layers) # after) x =
    run_entries (map (\<lambda>(n, e). (n, keep_entry True e)) after)
      (fold (\<lambda>f. f) layers (run_entries (map (\<lambda>(n, e). (n, keep_entry True e)) before) x))"
  by (simp add: whole_model_def run_entries_def run_kept_list)

definition pp_plan_ok :: "(string \<times> 'm module_entry) list \<Rightarrow> int \<Rightarrow> bool" where
  "pp_plan_ok plan layer_count \<longleftrightarrow> (\<exists>before name layers after. plan = before @ (name, ModuleList layers) # after \<and>
     (\<forall>e\<in>set before \<union> set after. \<not> is_module_list (snd e)) \<and> layer_count = int (length layers))"

lemma apply_pp_Ok:
  assumes "\<forall>e\<in>set before \<union> set after. \<not> is_module_list (snd e)" "r < n"
  shows "apply_pp True tie (int (length layers)) \<lparr>pp_size = int n, pp_rank = int r\<rparr> (before @ (name, ModuleList layers) # after) =
    Ok \<lparr>pp_before = map (\<lambda>(m, e). (m, keep_entry (r = 0 \<or> tie \<and> Suc r = n) e)) before,
        pp_layers = keep_layers (layer_start (int (length layers)) n r) (layer_start (int (length layers)) n (Suc r)) layers,
        pp_after = map (\<lambda>(m, e). (m, keep_entry (Suc r = n) e)) after, pp_head = (Suc r = n)\<rparr>"
proof -
  let ?P = "\<lambda>(_, e). \<not> is_module_list e"
  have b: "\<forall>e\<in>set before. ?P e" "\<forall>e\<in>set after. ?P e" using assms(1) by (auto simp: split_beta)
  have tw: "takeWhile ?P (before @ (name, ModuleList layers) # after) = before"
    "dropWhile ?P (before @ (name, ModuleList layers) # after) = (name, ModuleList layers) # after"
    using b(1) by (simp_all add: takeWhile_append2 dropWhile_append2)
  have "filter (\<lambda>(_, e). is_module_list e) before = []" "filter (\<lambda>(_, e). is_module_list e) after = []"
    using b by (auto simp: filter_empty_conv)
  then have f: "length (filter (\<lambda>(_, e). is_module_list e) (before @ (name, ModuleList layers) # after)) = 1" by simp
  have l: "int r = int n - 1 \<longleftrightarrow> Suc r = n" by linarith
  show ?thesis
    unfolding apply_pp_def Let_def tw f using get_pp_indices_Ok [OF _ assms(2), of "int (length layers)"] l by simp
qed

lemma stages_up_to:
  assumes "sequential base" "\<forall>e\<in>set before \<union> set after. \<not> is_module_list (snd e)" "r < n"
    and "plan = before @ (name, ModuleList layers) # after"
    and "x' = (if r = 0 then run_entries (map (\<lambda>(m, e). (m, keep_entry True e)) before) x
        else x)"
    and "y = fold (\<lambda>f. f) (drop (nat (layer_start (int (length layers)) n r)) (take (nat (layer_start (int (length layers)) n (Suc r))) layers)) x'"
  shows "rank_stage base head rows tie (int (length layers)) plan n r x =
    Ok (if Suc r = n then Logits (head (rows (run_entries (map (\<lambda>(m, e). (m, keep_entry True e)) after) y))) else Hidden y)"
proof -
  let ?L = "int (length layers)"
  have n: "0 < n" using assms(3) by simp
  have pos: "0 \<le> layer_start ?L n r" "layer_start ?L n r \<le> layer_start ?L n (Suc r)"
    using layer_start_mono [of ?L n 0 r] layer_start_mono [of ?L n r "Suc r"] layer_start_bounds(1) [of ?L n] assms(3) by simp_all
  have l: "int r = int n - 1 \<longleftrightarrow> Suc r = n" by linarith
  have a: "\<forall>e\<in>set after. \<not> is_module_list (snd e)" using assms(2) by blast
  show ?thesis
    using assms(1) run_kept_layers [OF pos, of layers] run_entries_missing [OF a]
    unfolding rank_stage_def Let_def assms(4) apply_pp_Ok [OF assms(2,3)] rbind.simps stage_forward_def sequential_def assms(5,6)
    by (auto simp: l)
qed

text \<open>
  C22. The pipeline computes the model: for a base model that runs its modules in order, any number of
  ranks and any plan with one layer list, handing the hidden states from rank to rank gives the head of
  the whole model's output on the last rank, whether or not the embedding is tied.
\<close>

theorem pipeline_computes_the_model:
  assumes "sequential base" "pp_plan_ok plan layer_count" "0 < n"
  shows "run_ranks (rank_stage base head rows tie layer_count plan n) [0..<n] x = Ok (Logits (head (rows (whole_model plan x))))"
proof -
  obtain before name layers after where plan: "plan = before @ (name, ModuleList layers) # after"
    "\<forall>e\<in>set before \<union> set after. \<not> is_module_list (snd e)" "layer_count = int (length layers)"
    using assms(2) by (auto simp: pp_plan_ok_def)
  let ?L = "int (length layers)" and ?stage = "rank_stage base head rows tie layer_count plan n"
  let ?emb = "run_entries (map (\<lambda>(m, e). (m, keep_entry True e)) before) x"
  let ?hidden = "\<lambda>r. fold (\<lambda>f. f) (take (nat (layer_start ?L n r)) layers) ?emb"
  have step: "?stage r (if r = 0 then x else ?hidden r) =
      Ok (if Suc r = n then Logits (head (rows (whole_model plan x))) else Hidden (?hidden (Suc r)))" if "r < n" for r
  proof -
    let ?a = "nat (layer_start ?L n r)" and ?b = "nat (layer_start ?L n (Suc r))"
    have ab: "?a \<le> ?b" using layer_start_mono [of ?L n r "Suc r"] that by (simp add: nat_mono)
    have x': "(if r = 0 then ?emb else (if r = 0 then x else ?hidden r)) = ?hidden r"
      using layer_start_bounds(1) [of ?L n] assms(3) by simp
    have "take ?b layers = take ?a layers @ drop ?a (take ?b layers)"
      using ab by (metis append_take_drop_id min.absorb1 take_take)
    then have y: "fold (\<lambda>f. f) (drop ?a (take ?b layers)) (?hidden r) = ?hidden (Suc r)" by (metis comp_apply fold_append)
    have last: "?hidden n = fold (\<lambda>f. f) layers ?emb" using layer_start_bounds(2) [of ?L n] assms(3) by simp
    have "?stage r (if r = 0 then x else ?hidden r) =
        Ok (if Suc r = n then Logits (head (rows (run_entries (map (\<lambda>(m, e). (m, keep_entry True e)) after) (?hidden (Suc r))))) else Hidden (?hidden (Suc r)))"
      unfolding plan(3)
      by (rule stages_up_to [OF assms(1) plan(2) that plan(1), where x' = "?hidden r"]) (use x' y in auto)
    then show ?thesis using last unfolding plan(1) whole_model_split by auto
  qed
  have "r < n \<Longrightarrow> run_ranks ?stage [r..<n] (if r = 0 then x else ?hidden r) = Ok (Logits (head (rows (whole_model plan x))))" for r
  proof (induction "n - r" arbitrary: r)
    case (Suc k)
    have u: "[r..<n] = r # [Suc r..<n]" using Suc.prems by (rule upt_conv_Cons)
    show ?case
    proof (cases "Suc r = n")
      case True
      then show ?thesis using step [OF Suc.prems] unfolding u by simp
    next
      case False
      then have "run_ranks ?stage [Suc r..<n] (?hidden (Suc r)) = Ok (Logits (head (rows (whole_model plan x))))"
        using Suc.hyps(1) [of "Suc r"] Suc.hyps(2) Suc.prems by simp
      then show ?thesis using step [OF Suc.prems] False unfolding u by simp
    qed
  qed simp
  from this [of 0] show ?thesis using assms(3) by simp
qed

definition ex_base :: "(int \<Rightarrow> int) pp_modules \<Rightarrow> int option \<Rightarrow> int option \<Rightarrow> int" where
  "ex_base ms ids emb =
     (let x = (case ids of Some i \<Rightarrow> run_entries (pp_before ms) i | None \<Rightarrow> the emb)
      in run_entries (pp_after ms) (fold run_slot (pp_layers ms) x))"

theorem pipeline_computes_the_model_witness:
  "run_ranks (rank_stage ex_base (\<lambda>x. - x) id True 3
     [(''embed_tokens'', Single (\<lambda>x. x + 1)), (''layers'', ModuleList [\<lambda>x. 2 * x, \<lambda>x. x + 5, \<lambda>x. 3 * x]), (''norm'', Single (\<lambda>x. x - 1))] 2) [0..<2] 4 =
   Ok (Logits (-44 :: int))"
proof -
  let ?plan = "[(''embed_tokens'', Single (\<lambda>x. x + 1)), (''layers'', ModuleList [\<lambda>x. 2 * x, \<lambda>x. x + 5, \<lambda>x. 3 * x]), (''norm'', Single (\<lambda>x. x - (1 :: int)))]"
  have "pp_plan_ok ?plan 3"
    unfolding pp_plan_ok_def
    by (rule exI [of _ "[(''embed_tokens'', Single (\<lambda>x. x + 1))]"], rule exI [of _ "''layers''"],
        rule exI [of _ "[\<lambda>x. 2 * x, \<lambda>x. x + 5, \<lambda>x. 3 * x]"], rule exI [of _ "[(''norm'', Single (\<lambda>x. x - 1))]"]) simp
  moreover have "sequential ex_base" by (simp add: sequential_def ex_base_def)
  ultimately show ?thesis
    using pipeline_computes_the_model [of ex_base ?plan 3 2 "\<lambda>x. - x" id True 4] by (simp add: whole_model_def run_entries_def)
qed

section \<open>Every parameter gets its weight\<close>

text \<open>
  What is relied on of \<open>copy_\<close>: a source that fits the destination's type and shape \<open>ty\<close> (its shape can
  be broadcast to it) is converted to them, and they are kept; any other source is refused with a
  \<open>RuntimeError\<close>.
\<close>

definition copies :: "('v \<Rightarrow> 'v \<Rightarrow> 'v res) \<Rightarrow> ('v \<Rightarrow> 't) \<Rightarrow> ('t \<Rightarrow> 'v \<Rightarrow> bool) \<Rightarrow> ('t \<Rightarrow> 'v \<Rightarrow> 'v) \<Rightarrow> bool" where
  "copies copy ty fits conv \<longleftrightarrow>
     (\<forall>d w. if fits (ty d) w then copy d w = Ok (conv (ty d) w) \<and> ty (conv (ty d) w) = ty d
            else copy d w = Raise RuntimeError)"

definition unshared :: "'v params \<Rightarrow> bool" where
  "unshared m \<longleftrightarrow> (\<forall>a b s. p_data m a = Some s \<longrightarrow> p_data m b = Some s \<longrightarrow> a = b)"

text \<open>The memory once the weights \<open>ws\<close> have been copied: the last weight of a name counts.\<close>

definition loaded :: "('v \<Rightarrow> 't) \<Rightarrow> ('t \<Rightarrow> 'v \<Rightarrow> 'v) \<Rightarrow> (string \<times> 'v) list \<Rightarrow> 'v params \<Rightarrow> 'v params \<Rightarrow> bool" where
  "loaded ty conv ws m m' \<longleftrightarrow> p_data m' = p_data m \<and>
     (\<forall>name s. p_data m name = Some s \<longrightarrow>
        p_mem m' s = (case map_of (rev ws) name of None \<Rightarrow> p_mem m s | Some w \<Rightarrow> conv (ty (p_mem m s)) w))"

text \<open>Every weight whose name is a parameter fits it.\<close>

definition weights_fit :: "('v \<Rightarrow> 't) \<Rightarrow> ('t \<Rightarrow> 'v \<Rightarrow> bool) \<Rightarrow> (string \<times> 'v) list \<Rightarrow> 'v params \<Rightarrow> bool" where
  "weights_fit ty fits ws m \<longleftrightarrow>
     (\<forall>(name, w)\<in>set ws. case p_data m name of None \<Rightarrow> True | Some s \<Rightarrow> fits (ty (p_mem m s)) w)"

lemma loaded_type:
  assumes "copies copy ty fits conv" "weights_fit ty fits ws m" "loaded ty conv ws m m'" "p_data m n = Some s"
  shows "ty (p_mem m' s) = ty (p_mem m s)"
proof (cases "map_of (rev ws) n")
  case (Some w)
  then have "(n, w) \<in> set ws" using map_of_SomeD [OF Some] by simp
  then have "fits (ty (p_mem m s)) w" using assms(2,4) by (force simp: weights_fit_def)
  then show ?thesis using assms(1,3,4) Some by (simp add: copies_def loaded_def)
qed (use assms(3,4) in \<open>simp add: loaded_def\<close>)

lemma load_one_step:
  assumes "copies copy ty fits conv" "unshared m" "weights_fit ty fits ws m" "loaded ty conv ws m m1"
  shows "if weights_fit ty fits [x] m
    then \<exists>m'. load_one copy x (map_of (rev ws) embed_name, m1) = Ok (map_of (rev (ws @ [x])) embed_name, m') \<and>
        loaded ty conv (ws @ [x]) m m'
    else load_one copy x (map_of (rev ws) embed_name, m1) = Raise RuntimeError"
proof -
  obtain n w where x: "x = (n, w)" by force
  have d: "p_data m1 = p_data m" using assms(4) by (simp add: loaded_def)
  show ?thesis
  proof (cases "p_data m n")
    case None
    have "load_one copy x (map_of (rev ws) embed_name, m1) = Ok (map_of (rev (ws @ [x])) embed_name, m1)"
      using None d x by (simp add: load_one_def copy_param_def)
    moreover have "loaded ty conv (ws @ [x]) m m1" using assms(4) None x unfolding loaded_def by auto
    ultimately show ?thesis using None x by (simp add: weights_fit_def)
  next
    case (Some s)
    note t = loaded_type [OF assms(1,3,4) Some]
    have fit: "weights_fit ty fits [x] m \<longleftrightarrow> fits (ty (p_mem m s)) w" using Some x by (simp add: weights_fit_def)
    show ?thesis
    proof (cases "fits (ty (p_mem m s)) w")
      case True
      then have "copy (p_mem m1 s) w = Ok (conv (ty (p_mem m s)) w)" using assms(1) t unfolding copies_def by metis
      then have "load_one copy x (map_of (rev ws) embed_name, m1) =
          Ok (map_of (rev (ws @ [x])) embed_name, m1\<lparr>p_mem := (p_mem m1)(s := conv (ty (p_mem m s)) w)\<rparr>)"
        using Some d x by (simp add: load_one_def copy_param_def)
      moreover have "loaded ty conv (ws @ [x]) m (m1\<lparr>p_mem := (p_mem m1)(s := conv (ty (p_mem m s)) w)\<rparr>)"
        using assms(2,4) Some x unfolding loaded_def unshared_def by auto
      ultimately show ?thesis using True fit by simp
    next
      case False
      then have "copy (p_mem m1 s) w = Raise RuntimeError" using assms(1) t unfolding copies_def by metis
      then show ?thesis using False fit Some d x by (simp add: load_one_def copy_param_def)
    qed
  qed
qed

lemma weights_fit_snoc: "weights_fit ty fits (ws @ [x]) m \<longleftrightarrow> weights_fit ty fits ws m \<and> weights_fit ty fits [x] m"
  by (auto simp: weights_fit_def)

lemma load_loop:
  assumes "copies copy ty fits conv" "unshared m"
  shows "if weights_fit ty fits ws m
    then \<exists>m'. for_res (load_one copy) ws (None, m) = Ok (map_of (rev ws) embed_name, m') \<and> loaded ty conv ws m m'
    else for_res (load_one copy) ws (None, m) = Raise RuntimeError"
proof (induction ws rule: rev_induct)
  case Nil
  show ?case by (simp add: loaded_def weights_fit_def)
next
  case (snoc x ws)
  show ?case
  proof (cases "weights_fit ty fits ws m")
    case True
    then obtain m1 where m1: "for_res (load_one copy) ws (None, m) = Ok (map_of (rev ws) embed_name, m1)" "loaded ty conv ws m m1"
      using snoc by auto
    show ?thesis
      using load_one_step [OF assms True m1(2), of x] True m1(1)
      by (auto simp: for_res_append weights_fit_snoc [of ty fits ws x] simp del: map_of_eq_None_iff split: if_splits)
  next
    case False
    then show ?thesis using snoc by (simp add: for_res_append weights_fit_snoc [of ty fits ws x])
  qed
qed

lemma tie_loop_shares:
  assumes "p_data m embed_name = Some s" "embed_name \<notin> set tied"
  shows "for_res (tie_one copy e) tied m =
    Ok (m\<lparr>p_data := (\<lambda>n. if n \<in> set tied \<and> p_data m n \<noteq> None then Some s else p_data m n)\<rparr>)"
  using assms
proof (induction tied arbitrary: m)
  case (Cons t ts)
  have "tie_one copy e t m = Ok (m\<lparr>p_data := (\<lambda>n. if n = t \<and> p_data m n \<noteq> None then Some s else p_data m n)\<rparr>)"
    using Cons.prems(1) by (cases "p_data m t") (auto simp: tie_one_def fun_eq_iff intro!: arg_cong [where f = "\<lambda>f. m\<lparr>p_data := f\<rparr>"])
  then show ?case
    using Cons.IH [of "m\<lparr>p_data := (\<lambda>n. if n = t \<and> p_data m n \<noteq> None then Some s else p_data m n)\<rparr>"] Cons.prems
    by (auto simp: fun_eq_iff intro!: arg_cong [where f = "\<lambda>f. m\<lparr>p_data := f\<rparr>"])
qed simp

text \<open>
  C23. Loading, with distinct storages: if every weight whose name is a parameter fits it, the default
  loader raises nothing, every parameter that is not tied ends with the last weight of its name, converted
  to its type, a parameter without a weight keeps its value, and a tied parameter is afterwards the
  embedding, sharing its storage, whatever the checkpoint holds for it; if one weight does not fit, loading
  ends in the \<open>RuntimeError\<close> of its \<open>copy_\<close>.
\<close>

theorem weights_reach_parameters:
  assumes "copies copy ty fits conv" "unshared m" "p_data m embed_name = Some emb_store" "embed_name \<notin> set tied"
  shows "if weights_fit ty fits ws m then
      \<exists>m'. load_default copy tied ws m = Ok m' \<and>
      (\<forall>name s. p_data m name = Some s \<and> name \<notin> set tied \<longrightarrow> p_data m' name = Some s \<and>
         p_mem m' s = (case map_of (rev ws) name of None \<Rightarrow> p_mem m s | Some w \<Rightarrow> conv (ty (p_mem m s)) w)) \<and>
      (\<forall>name\<in>set tied. p_data m name \<noteq> None \<longrightarrow> p_data m' name = p_data m' embed_name)
    else load_default copy tied ws m = Raise RuntimeError"
proof (cases "weights_fit ty fits ws m")
  case True
  then obtain m1 where m1: "for_res (load_one copy) ws (None, m) = Ok (map_of (rev ws) embed_name, m1)" "loaded ty conv ws m m1"
    using load_loop [OF assms(1,2), of ws] by auto
  have d: "p_data m1 = p_data m" using m1(2) by (simp add: loaded_def)
  have "load_default copy tied ws m =
      Ok (m1\<lparr>p_data := (\<lambda>n. if n \<in> set tied \<and> p_data m1 n \<noteq> None then Some emb_store else p_data m1 n)\<rparr>)"
    using m1(1) tie_loop_shares [of m1 emb_store tied copy "map_of (rev ws) embed_name"] assms(3,4) d
    by (simp add: load_default_def)
  then show ?thesis using True m1(2) assms(3,4) d by (auto simp: loaded_def)
next
  case False
  then show ?thesis using load_loop [OF assms(1,2), of ws] by (simp add: load_default_def)
qed

text \<open>
  An instance: a tensor is a list of values, its type is its length, and \<open>copy_\<close> broadcasts a single value.
\<close>

definition ex_fits :: "nat \<Rightarrow> int list \<Rightarrow> bool" where
  "ex_fits n w \<longleftrightarrow> length w = n \<or> length w = 1"

definition ex_conv :: "nat \<Rightarrow> int list \<Rightarrow> int list" where
  "ex_conv n w = (if length w = n then w else replicate n (hd w))"

definition ex_copy :: "int list \<Rightarrow> int list \<Rightarrow> int list res" where
  "ex_copy d w = (if ex_fits (length d) w then Ok (ex_conv (length d) w) else Raise RuntimeError)"

lemma ex_copies: "copies ex_copy length ex_fits ex_conv"
  by (simp add: copies_def ex_copy_def ex_conv_def)

definition ex_params :: "int list params" where
  "ex_params = \<lparr>p_data = [embed_name \<mapsto> 0, ''lm_head.weight'' \<mapsto> 1, ''model.norm.weight'' \<mapsto> 2],
     p_mem = (\<lambda>s. if s = 2 then [0, 0] else [0, 0, 0])\<rparr>"

theorem weights_reach_parameters_witness:
  "(\<exists>m'. load_default ex_copy [''lm_head.weight'']
       [(''model.norm.weight'', [5, 5]), (embed_name, [7, 8, 9]), (''other'', [1]), (''model.norm.weight'', [6, 4])] ex_params = Ok m' \<and>
     p_data m' ''model.norm.weight'' = Some 2 \<and> p_mem m' 2 = [6, 4] \<and> p_data m' ''lm_head.weight'' = p_data m' embed_name) \<and>
   load_default ex_copy [''lm_head.weight''] [(''model.norm.weight'', [5, 5, 5])] ex_params = Raise RuntimeError"
proof -
  let ?ws = "[(''model.norm.weight'', [5, 5]), (embed_name, [7, 8, 9]), (''other'', [1]), (''model.norm.weight'', [6, 4])]"
  have u: "unshared ex_params" "p_data ex_params embed_name = Some 0" "embed_name \<notin> set [''lm_head.weight'']"
    by (auto simp: unshared_def ex_params_def embed_name_def split: if_splits)
  have n: "p_data ex_params ''model.norm.weight'' = Some 2" "p_data ex_params ''lm_head.weight'' \<noteq> None"
    by (simp_all add: ex_params_def embed_name_def)
  have f: "weights_fit length ex_fits ?ws ex_params" "\<not> weights_fit length ex_fits [(''model.norm.weight'', [5, 5, 5])] ex_params"
    by (simp_all add: weights_fit_def ex_fits_def ex_params_def embed_name_def)
  have c: "ex_conv (length (p_mem ex_params 2)) [6, 4] = [6, 4]" by (simp add: ex_conv_def ex_params_def)
  from weights_reach_parameters [OF ex_copies u, of ?ws] n f c
    weights_reach_parameters [OF ex_copies u, of "[(''model.norm.weight'', [5, 5, 5])]"]
  show ?thesis by fastforce
qed

end
