(* ===== verification/Matmul.thy ===== *)
theory Matmul
  imports Prelude
begin

text \<open>
  The matrix kernels of \<open>src/vexact/batch_invariant_ops/batch_invariant_ops.py\<close>: the persistent GEMM with
  its tile order, masks, bias and epilogue, and the choice of its tile sizes.

  A kernel only reads its inputs and only stores to its output, so a launch is modelled as the list of its
  stores \<open>(address, value)\<close>; inputs are memories, functions of the address. The matrix instruction
  \<open>tl.dot\<close> is a parameter on tiles, as are addition of the bias and conversion to the output type. What is
  relied on of it is \<open>row_independent\<close>: an output element depends on its row, its column and its
  accumulator only, and consumes \<open>K\<close> in steps of sixteen, zeros adding nothing. That is what the comments
  of the source state for the hardware.

  The lemmas show that every output element is computed by the same sequence of operations whatever the
  number of rows, the tile sizes, the number of processors and the order of the programs.
\<close>

section \<open>Stores\<close>

type_synonym 'f memory = "int \<Rightarrow> 'f"
type_synonym 'f stores = "(int \<times> 'f) list"

definition apply_stores :: "'f stores \<Rightarrow> 'f memory \<Rightarrow> 'f memory" where
  "apply_stores ws mem = fold (\<lambda>(a, v) m. m(a := v)) ws mem"

lemma apply_stores_other: "a \<notin> fst ` set ws \<Longrightarrow> apply_stores ws mem a = mem a"
  unfolding apply_stores_def by (induction ws arbitrary: mem) auto

lemma apply_stores_agree:
  "(a, v) \<in> set ws \<Longrightarrow> (\<And>v'. (a, v') \<in> set ws \<Longrightarrow> v' = v) \<Longrightarrow> apply_stores ws mem a = v"
proof (induction ws arbitrary: mem rule: rev_induct)
  case (snoc x ws)
  obtain b u where x: "x = (b, u)" by force
  show ?case
  proof (cases "b = a")
    case True
    then have "u = v" using snoc.prems(2) [of u] x by simp
    then show ?thesis using True x by (simp add: apply_stores_def)
  next
    case False
    have "(a, v) \<in> set ws" using snoc.prems(1) False x by simp
    then have "apply_stores ws mem a = v" using snoc.IH snoc.prems(2) by (metis Un_iff set_append)
    then show ?thesis using False x by (simp add: apply_stores_def)
  qed
qed simp

section \<open>Tile order\<close>

definition cdiv :: "nat \<Rightarrow> nat \<Rightarrow> nat" where
  "cdiv a b = (a + b - 1) div b"

definition compute_pid :: "nat \<Rightarrow> nat \<Rightarrow> nat \<Rightarrow> nat \<Rightarrow> nat \<times> nat" where
  "compute_pid tile_id num_pid_in_group num_pid_m group_m =
     (let group_id = tile_id div num_pid_in_group;
          first_pid_m = group_id * group_m;
          group_size_m = min (num_pid_m - first_pid_m) group_m
      in (first_pid_m + tile_id mod group_size_m, (tile_id mod num_pid_in_group) div group_size_m))"

section \<open>The persistent GEMM\<close>

record gemm =
  gm_m :: nat
  gm_n :: nat
  gm_k :: nat
  stride_am :: int
  stride_ak :: int
  stride_bk :: int
  stride_bn :: int
  stride_cm :: int
  stride_cn :: int
  block_m :: nat
  block_n :: nat
  block_k :: nat
  group_m :: nat
  num_sms :: nat
  has_bias :: bool
  even_m :: bool

type_synonym 'f tile = "nat \<Rightarrow> nat \<Rightarrow> 'f"

text \<open>Arithmetic of the kernel on inputs \<open>'f\<close> and accumulators \<open>'a\<close>.\<close>

record ('f, 'a) gemm_ops =
  op_dot :: "nat \<Rightarrow> nat \<Rightarrow> nat \<Rightarrow> 'f tile \<Rightarrow> 'f tile \<Rightarrow> 'a tile \<Rightarrow> 'a tile"
  op_zero :: 'f
  acc_zero :: 'a
  op_bias :: "'a \<Rightarrow> 'f \<Rightarrow> 'a"
  op_round :: "'a \<Rightarrow> 'f"

text \<open>Masked loads of the tiles at row tile \<open>pid_m\<close>, column tile \<open>pid_n\<close> and step \<open>ki\<close>.\<close>

definition load_a :: "gemm \<Rightarrow> ('f, 'a) gemm_ops \<Rightarrow> 'f memory \<Rightarrow> nat \<Rightarrow> nat \<Rightarrow> 'f tile" where
  "load_a g ops a pid_m ki i kk =
     (let row = pid_m * block_m g + i; k = ki * block_k g + kk
      in if (even_m g \<or> row < gm_m g) \<and> kk < gm_k g - ki * block_k g
         then a (int row * stride_am g + int k * stride_ak g) else op_zero ops)"

definition load_b :: "gemm \<Rightarrow> ('f, 'a) gemm_ops \<Rightarrow> 'f memory \<Rightarrow> nat \<Rightarrow> nat \<Rightarrow> 'f tile" where
  "load_b g ops b pid_n ki kk j =
     (let col = pid_n * block_n g + j; col' = (if col < gm_n g then col else 0); k = ki * block_k g + kk
      in if kk < gm_k g - ki * block_k g
         then b (int k * stride_bk g + int col' * stride_bn g) else op_zero ops)"

definition accumulate :: "gemm \<Rightarrow> ('f, 'a) gemm_ops \<Rightarrow> 'f memory \<Rightarrow> 'f memory \<Rightarrow> nat \<Rightarrow> nat \<Rightarrow> 'a tile" where
  "accumulate g ops a b pid_m pid_n =
     fold (\<lambda>ki acc. op_dot ops (block_m g) (block_n g) (block_k g) (load_a g ops a pid_m ki) (load_b g ops b pid_n ki) acc)
       [0..<cdiv (gm_k g) (block_k g)] (\<lambda>_ _. acc_zero ops)"

definition epilogue :: "gemm \<Rightarrow> ('f, 'a) gemm_ops \<Rightarrow> 'f memory \<Rightarrow> nat \<Rightarrow> 'a \<Rightarrow> 'f" where
  "epilogue g ops bias col x =
     op_round ops (if has_bias g then op_bias ops x (if col < gm_n g then bias (int col) else op_zero ops) else x)"

text \<open>
  One turn of the tile loop: the tile that is read is \<open>tile_id\<close>, the tile that is written \<open>tile_id_c\<close>,
  which the kernel computes again from its own counter.
\<close>

definition tile_stores ::
    "gemm \<Rightarrow> ('f, 'a) gemm_ops \<Rightarrow> 'f memory \<Rightarrow> 'f memory \<Rightarrow> 'f memory \<Rightarrow> nat \<Rightarrow> nat \<Rightarrow> 'f stores" where
  "tile_stores g ops a b bias tile_id tile_id_c =
     (let npm = cdiv (gm_m g) (block_m g); npg = group_m g * cdiv (gm_n g) (block_n g);
          (pid_m, pid_n) = compute_pid tile_id npg npm (group_m g);
          acc = accumulate g ops a b pid_m pid_n;
          (c_m, c_n) = compute_pid tile_id_c npg npm (group_m g)
      in concat (map (\<lambda>i. concat (map (\<lambda>j.
           let row = c_m * block_m g + i; col = c_n * block_n g + j
           in if row < gm_m g \<and> col < gm_n g
              then [(stride_cm g * int row + stride_cn g * int col, epilogue g ops bias col (acc i j))] else [])
           [0..<block_n g])) [0..<block_m g]))"

text \<open>
  A program: its tiles from \<open>start_pid\<close> in steps of \<open>NUM_SMS\<close>, with the store counter running along. The
  counter starts \<open>NUM_SMS\<close> below and is advanced before it is used.
\<close>

definition matmul_program ::
    "gemm \<Rightarrow> ('f, 'a) gemm_ops \<Rightarrow> 'f memory \<Rightarrow> 'f memory \<Rightarrow> 'f memory \<Rightarrow> nat \<Rightarrow> 'f stores" where
  "matmul_program g ops a b bias start_pid =
     (let num_tiles = cdiv (gm_m g) (block_m g) * cdiv (gm_n g) (block_n g);
          turns = (if start_pid < num_tiles then cdiv (num_tiles - start_pid) (num_sms g) else 0)
      in snd (fold (\<lambda>t (tile_id_c, ws).
             let c = tile_id_c + int (num_sms g)
             in (c, ws @ tile_stores g ops a b bias (start_pid + t * num_sms g) (nat c)))
           [0..<turns] (int start_pid - int (num_sms g), [])))"

definition matmul_grid :: "gemm \<Rightarrow> nat" where
  "matmul_grid g = min (num_sms g) (cdiv (gm_m g) (block_m g) * cdiv (gm_n g) (block_n g))"

text \<open>A launch: the programs in some order.\<close>

definition matmul_launch ::
    "gemm \<Rightarrow> ('f, 'a) gemm_ops \<Rightarrow> 'f memory \<Rightarrow> 'f memory \<Rightarrow> 'f memory \<Rightarrow> nat list \<Rightarrow> 'f memory \<Rightarrow> 'f memory" where
  "matmul_launch g ops a b bias ord mem = apply_stores (concat (map (matmul_program g ops a b bias) ord)) mem"

section \<open>Tile sizes\<close>

record tile_config =
  tc_block_m :: nat
  tc_block_n :: nat
  tc_block_k :: nat
  tc_group_m :: nat
  tc_stages :: nat
  tc_warps :: nat

type_synonym candidate = "nat \<times> nat \<times> nat \<times> nat \<times> nat"

definition bf16_candidates :: "candidate list" where
  "bf16_candidates =
     [(64, 32, 128, 3, 4), (64, 64, 128, 3, 4), (64, 128, 128, 3, 4), (128, 128, 64, 3, 8), (128, 256, 64, 3, 8)]"

definition as_cfg :: "candidate \<Rightarrow> tile_config" where
  "as_cfg c = (case c of (bm, bn, bk, stages, warps) \<Rightarrow>
     \<lparr>tc_block_m = bm, tc_block_n = bn, tc_block_k = bk, tc_group_m = 8, tc_stages = stages, tc_warps = warps\<rparr>)"

text \<open>
  Ranking by predicted time is a floating-point computation and whether a candidate fits the shared memory
  is known to the compiler: both are parameters. The cache is keyed by everything they depend on.
\<close>

definition ranked_candidates :: "(candidate \<Rightarrow> 'k::linorder) \<Rightarrow> candidate list" where
  "ranked_candidates predict = sort_key predict bf16_candidates"

definition bf16_matmul_config ::
    "('key \<Rightarrow> candidate \<Rightarrow> 'k::linorder) \<Rightarrow> ('key \<Rightarrow> tile_config \<Rightarrow> bool) \<Rightarrow> 'key \<Rightarrow> ('key \<rightharpoonup> tile_config)
       \<Rightarrow> (tile_config \<times> ('key \<rightharpoonup> tile_config)) res" where
  "bf16_matmul_config predict fits key cache =
     (case cache key of
        Some cfg \<Rightarrow> Ok (cfg, cache)
      | None \<Rightarrow> (case filter (fits key) (map as_cfg (ranked_candidates (predict key))) of
            [] \<Rightarrow> Raise RuntimeError
          | cfg # _ \<Rightarrow> Ok (cfg, cache(key \<mapsto> cfg))))"

datatype float_type = BFloat16 | Float16 | Float32 | OtherType

definition other_config :: "float_type \<Rightarrow> tile_config res" where
  "other_config t =
     (case t of
        Float16 \<Rightarrow> Ok \<lparr>tc_block_m = 128, tc_block_n = 256, tc_block_k = 64, tc_group_m = 8, tc_stages = 3, tc_warps = 8\<rparr>
      | Float32 \<Rightarrow> Ok \<lparr>tc_block_m = 128, tc_block_n = 128, tc_block_k = 32, tc_group_m = 8, tc_stages = 3, tc_warps = 8\<rparr>
      | _ \<Rightarrow> Raise KeyError)"

text \<open>\<open>matmul_persistent\<close>: the checks, the configuration, the launch into a fresh contiguous output.\<close>

record 'f matrix =
  mx_rows :: nat
  mx_cols :: nat
  mx_stride0 :: int
  mx_stride1 :: int
  mx_type :: float_type
  mx_mem :: "'f memory"

definition gemm_of :: "'f matrix \<Rightarrow> 'f matrix \<Rightarrow> bool \<Rightarrow> nat \<Rightarrow> tile_config \<Rightarrow> gemm" where
  "gemm_of a b bias sms cfg =
     \<lparr>gm_m = mx_rows a, gm_n = mx_cols b, gm_k = mx_cols a,
      stride_am = mx_stride0 a, stride_ak = mx_stride1 a, stride_bk = mx_stride0 b, stride_bn = mx_stride1 b,
      stride_cm = int (mx_cols b), stride_cn = 1,
      block_m = tc_block_m cfg, block_n = tc_block_n cfg, block_k = tc_block_k cfg, group_m = tc_group_m cfg,
      num_sms = sms, has_bias = bias, even_m = (mx_rows a mod tc_block_m cfg = 0)\<rparr>"

definition matmul_persistent ::
    "('f, 'a) gemm_ops \<Rightarrow> nat \<Rightarrow> (tile_config res) \<Rightarrow> (nat \<Rightarrow> nat list) \<Rightarrow> 'f memory \<Rightarrow> 'f matrix \<Rightarrow> 'f matrix
       \<Rightarrow> (nat \<times> 'f memory) option \<Rightarrow> 'f matrix res" where
  "matmul_persistent ops sms bf16_config schedule fresh a b bias =
     (if mx_cols a \<noteq> mx_rows b then Raise AssertionError
      else if mx_type a \<noteq> mx_type b then Raise AssertionError
      else if (case bias of Some (dim, _) \<Rightarrow> dim \<noteq> 1 | None \<Rightarrow> False) then Raise AssertionError
      else rbind (if mx_type a = BFloat16 then bf16_config else other_config (mx_type a)) (\<lambda>cfg.
        let g = gemm_of a b (bias \<noteq> None) sms cfg;
            bias_mem = (case bias of Some (_, m) \<Rightarrow> m | None \<Rightarrow> fresh)
        in Ok \<lparr>mx_rows = mx_rows a, mx_cols = mx_cols b, mx_stride0 = int (mx_cols b), mx_stride1 = 1, mx_type = mx_type a,
               mx_mem = matmul_launch g ops (mx_mem a) (mx_mem b) bias_mem (schedule (matmul_grid g)) fresh\<rparr>))"

section \<open>Tiles are enumerated once\<close>

lemma less_cdiv: "0 < b \<Longrightarrow> i < cdiv a b \<longleftrightarrow> i * b < a"
proof -
  assume b: "0 < b"
  have "i < cdiv a b \<longleftrightarrow> Suc i \<le> (a + b - 1) div b" by (simp add: cdiv_def Suc_le_eq)
  also have "\<dots> \<longleftrightarrow> Suc i * b \<le> a + b - 1" using b by (simp add: less_eq_div_iff_mult_less_eq)
  also have "\<dots> \<longleftrightarrow> i * b < a"
  proof -
    have "Suc i * b = b + i * b" by simp
    then show ?thesis using b by linarith
  qed
  finally show ?thesis .
qed

lemma cdiv_covers: "0 < b \<Longrightarrow> a \<le> cdiv a b * b"
  using less_cdiv [of b "cdiv a b" a] by simp

lemma pid_range:
  assumes "tile < npm * npn" "0 < G"
  shows "fst (compute_pid tile (G * npn) npm G) < npm" "snd (compute_pid tile (G * npn) npm G) < npn"
proof -
  let ?npg = "G * npn" and ?gid = "tile div (G * npn)"
  let ?first = "?gid * G" and ?gs = "min (npm - tile div (G * npn) * G) G"
  have npn: "0 < npn" using assms(1) by (cases npn) auto
  have f: "?first * npn \<le> tile" using div_times_less_eq_dividend [of tile ?npg] by (simp add: mult.assoc)
  then have "?first * npn < npm * npn" using assms(1) by linarith
  then have first: "?first < npm" by simp
  then have gs: "0 < ?gs" using assms(2) by simp
  show "fst (compute_pid tile ?npg npm G) < npm"
  proof -
    have "tile mod ?gs < npm - ?first" using mod_less_divisor [OF gs, of tile] by simp
    then have "?first + tile mod ?gs < npm" using first by linarith
    then show ?thesis by (simp add: compute_pid_def Let_def)
  qed
  have "tile mod ?npg < ?gs * npn"
  proof (cases "npm - ?first \<le> G")
    case True
    have "tile = ?first * npn + tile mod ?npg" using div_mult_mod_eq [of tile ?npg] by (simp add: mult.assoc)
    then have "tile mod ?npg < npm * npn - ?first * npn" using assms(1) by linarith
    then show ?thesis using True by (simp add: diff_mult_distrib)
  next
    case False
    then have "?gs = G" by simp
    moreover have "tile mod ?npg < ?npg" using npn assms(2) by simp
    ultimately show ?thesis by simp
  qed
  then show "snd (compute_pid tile ?npg npm G) < npn"
    by (simp add: compute_pid_def Let_def less_mult_imp_div_less mult.commute)
qed

lemma mult_add_div: "r < g \<Longrightarrow> (n * g + r) div g = n" for r g n :: nat
  by simp

lemma mult_add_mod: "r < g \<Longrightarrow> (n * g + r) mod g = r" for r g n :: nat
  by simp

lemma offset_mod:
  fixes x g c n :: nat
  assumes "x < g"
  shows "(c + (n * g + (x + (g - c mod g)) mod g)) mod g = x"
proof -
  have "(c + (n * g + (x + (g - c mod g)) mod g)) mod g = (n * g + (c + (x + (g - c mod g)) mod g)) mod g"
    by (simp add: ac_simps)
  also have "\<dots> = (c mod g + (x + (g - c mod g))) mod g" by (simp add: mod_simps)
  also have "c mod g + (x + (g - c mod g)) = x + g"
    using mod_less_divisor [of g c] assms by linarith
  finally show ?thesis using assms by simp
qed

lemma pid_surjective:
  assumes "pm < npm" "pn < npn" "0 < G"
  shows "\<exists>tile < npm * npn. compute_pid tile (G * npn) npm G = (pm, pn)"
proof -
  let ?gid = "pm div G"
  let ?first = "?gid * G"
  let ?gs = "min (npm - ?first) G"
  have first: "?first \<le> pm" by simp
  then have lt: "?first < npm" using assms(1) by linarith
  then have gs: "0 < ?gs" using assms(3) by simp
  have q0: "pm - ?first < ?gs"
    using assms(1,3) mod_less_divisor [OF assms(3), of pm] by (simp add: minus_div_mult_eq_mod) (metis diff_less_mono first minus_div_mult_eq_mod)
  define c where "c = ?gid * (G * npn)"
  define q where "q = (pm - ?first + (?gs - c mod ?gs)) mod ?gs"
  have q: "q < ?gs" unfolding q_def by (rule mod_less_divisor [OF gs])
  let ?r = "pn * ?gs + q"
  have "Suc pn * ?gs \<le> npn * ?gs" using assms(2) by (intro mult_le_mono1) simp
  moreover have "Suc pn * ?gs = pn * ?gs + ?gs" by (simp only: mult_Suc add.commute)
  ultimately have r: "?r < npn * ?gs" using q by linarith
  have "npn * ?gs \<le> G * npn" unfolding mult.commute [of G npn] by (rule mult_le_mono2) (rule min.cobounded2)
  with r have rG: "?r < G * npn" by (rule less_le_trans)
  have mod: "(c + ?r) mod ?gs = pm - ?first"
    unfolding q_def by (rule offset_mod [OF q0])
  have div: "(c + ?r) div (G * npn) = ?gid" "(c + ?r) mod (G * npn) = ?r" 
    unfolding c_def by (rule mult_add_div [OF rG], rule mult_add_mod [OF rG])
  have "?r div ?gs = pn" by (rule mult_add_div [OF q])
  then have "compute_pid (c + ?r) (G * npn) npm G = (pm, pn)"
    using mod first by (simp only: compute_pid_def Let_def div) simp
  moreover have "c + ?r < npm * npn"
  proof -
    have "npn * ?gs \<le> npn * (npm - ?first)" by (rule mult_le_mono2) (rule min.cobounded1)
    moreover have "c = npn * ?first" by (simp add: c_def)
    moreover have "npn * ?first + npn * (npm - ?first) = npn * npm"
      unfolding add_mult_distrib2 [symmetric] using lt by simp
    ultimately have "c + ?r < npn * npm" using r by linarith
    then show ?thesis by (simp only: mult.commute)
  qed
  ultimately show ?thesis by blast
qed

text \<open>
  The tile order is a bijection: for any group size the persistent kernel's tile numbers enumerate
  every pair of a row tile and a column tile exactly once, also in the last, smaller group.
\<close>

theorem tile_order_bijective:
  assumes "0 < G"
  shows "bij_betw (\<lambda>tile. compute_pid tile (G * npn) npm G) {..<npm * npn} ({..<npm} \<times> {..<npn})"
proof -
  let ?f = "\<lambda>tile. compute_pid tile (G * npn) npm G"
  have "?f ` {..<npm * npn} = {..<npm} \<times> {..<npn}"
  proof
    show "?f ` {..<npm * npn} \<subseteq> {..<npm} \<times> {..<npn}"
    proof
      fix x assume "x \<in> ?f ` {..<npm * npn}"
      then obtain tile where t: "tile < npm * npn" "x = ?f tile" by auto
      show "x \<in> {..<npm} \<times> {..<npn}" using pid_range [OF t(1) assms] t(2) by (auto simp: mem_Times_iff)
    qed
    show "{..<npm} \<times> {..<npn} \<subseteq> ?f ` {..<npm * npn}"
    proof
      fix x assume "x \<in> {..<npm} \<times> {..<npn}"
      then obtain pm pn where x: "x = (pm, pn)" "pm < npm" "pn < npn" by auto
      from pid_surjective [OF x(2,3) assms] obtain tile where "tile < npm * npn" "?f tile = x" using x(1) by blast
      then show "x \<in> ?f ` {..<npm * npn}" by force
    qed
  qed
  moreover from this have "inj_on ?f {..<npm * npn}"
    by (intro eq_card_imp_inj_on) (simp_all add: card_cartesian_product)
  ultimately show ?thesis by (simp add: bij_betw_def)
qed

theorem tile_order_bijective_witness:
  "bij_betw (\<lambda>tile. compute_pid tile (8 * 3) 10 8) {..<30} ({..<10} \<times> {..<3})"
  using tile_order_bijective [of 8 3 10] by simp

section \<open>One element of the product\<close>

text \<open>
  \<open>mma xs ys x\<close> adds the products of a row segment and a column segment to the accumulator \<open>x\<close>, in
  steps of sixteen and in order; trailing zeros add nothing.
\<close>

definition row_independent :: "('f, 'a) gemm_ops \<Rightarrow> ('f list \<Rightarrow> 'f list \<Rightarrow> 'a \<Rightarrow> 'a) \<Rightarrow> bool" where
  "row_independent ops mma \<longleftrightarrow>
     (\<forall>bm bn bk a b acc i j. i < bm \<longrightarrow> j < bn \<longrightarrow>
        op_dot ops bm bn bk a b acc i j = mma (map (a i) [0..<bk]) (map (\<lambda>k. b k j) [0..<bk]) (acc i j)) \<and>
     (\<forall>x. mma [] [] x = x) \<and>
     (\<forall>xs xs' ys ys' x. length xs = length ys \<longrightarrow> 16 dvd length xs \<longrightarrow>
        mma (xs @ xs') (ys @ ys') x = mma xs' ys' (mma xs ys x)) \<and>
     (\<forall>xs ys z x. length xs = length ys \<longrightarrow>
        mma (xs @ replicate z (op_zero ops)) (ys @ replicate z (op_zero ops)) x = mma xs ys x)"

definition a_row :: "gemm \<Rightarrow> 'f memory \<Rightarrow> nat \<Rightarrow> 'f list" where
  "a_row g a m = map (\<lambda>k. a (int m * stride_am g + int k * stride_ak g)) [0..<gm_k g]"

definition b_col :: "gemm \<Rightarrow> 'f memory \<Rightarrow> nat \<Rightarrow> 'f list" where
  "b_col g b n = map (\<lambda>k. b (int k * stride_bk g + int n * stride_bn g)) [0..<gm_k g]"

text \<open>The slice of a row that one step loads, filled up with zeros.\<close>

definition segment :: "'f \<Rightarrow> nat \<Rightarrow> nat \<Rightarrow> 'f list \<Rightarrow> 'f list" where
  "segment z bk ki xs = take bk (drop (ki * bk) xs) @ replicate (bk - (length xs - ki * bk)) z"

lemma segment_padded:
  assumes "ki * bk < K"
  shows "map (\<lambda>kk. if kk < K - ki * bk then f (ki * bk + kk) else z) [0..<bk] = segment z bk ki (map f [0..<K])"
proof (cases "bk \<le> K - ki * bk")
  case True
  then show ?thesis unfolding segment_def by (intro nth_equalityI) auto
next
  case False
  then show ?thesis using assms unfolding segment_def by (intro nth_equalityI) (auto simp: nth_append)
qed

lemma dot_steps:
  assumes "row_independent ops mma" "16 dvd bk" "0 < bk" "i < bm" "j < bn" "length xs = K" "length ys = K"
    and A: "\<And>ki. ki * bk < K \<Longrightarrow> map (\<lambda>kk. A ki i kk) [0..<bk] = segment (op_zero ops) bk ki xs"
    and B: "\<And>ki. ki * bk < K \<Longrightarrow> map (\<lambda>kk. B ki kk j) [0..<bk] = segment (op_zero ops) bk ki ys"
  shows "fold (\<lambda>ki acc. op_dot ops bm bn bk (A ki) (B ki) acc) [0..<cdiv K bk] c0 i j =
    mma xs ys (c0 i j)"
proof -
  note RI = assms(1) [unfolded row_independent_def]
  let ?acc = "\<lambda>t. fold (\<lambda>ki acc. op_dot ops bm bn bk (A ki) (B ki) acc) [0..<t] c0"
  have "t \<le> cdiv K bk \<Longrightarrow> ?acc t i j = mma (take (t * bk) xs) (take (t * bk) ys) (c0 i j)" for t
  proof (induction t)
    case 0
    show ?case using RI by simp
  next
    case (Suc t)
    then have lt: "t * bk < K" using less_cdiv [OF assms(3), of t K] by simp
    have "?acc (Suc t) i j = mma (map (\<lambda>kk. A t i kk) [0..<bk]) (map (\<lambda>kk. B t kk j) [0..<bk]) (?acc t i j)"
      using RI assms(4,5) by simp
    also have "\<dots> = mma (take bk (drop (t * bk) xs)) (take bk (drop (t * bk) ys)) (?acc t i j)"
      unfolding A [OF lt] B [OF lt] segment_def using RI assms(6,7) by simp
    also have "?acc t i j = mma (take (t * bk) xs) (take (t * bk) ys) (c0 i j)" using Suc by simp
    also have "mma (take bk (drop (t * bk) xs)) (take bk (drop (t * bk) ys)) (mma (take (t * bk) xs) (take (t * bk) ys) (c0 i j)) =
        mma (take (t * bk) xs @ take bk (drop (t * bk) xs)) (take (t * bk) ys @ take bk (drop (t * bk) ys)) (c0 i j)"
    proof -
      have "16 dvd length (take (t * bk) xs)" "length (take (t * bk) xs) = length (take (t * bk) ys)"
        using lt assms(2,6,7) by simp_all
      then show ?thesis using RI by metis
    qed
    finally show ?case by (simp add: take_add [symmetric] add.commute)
  qed
  from this [of "cdiv K bk"] show ?thesis using cdiv_covers [OF assms(3), of K] assms(6,7) by simp
qed

lemma accumulate_element:
  assumes "row_independent ops mma" "16 dvd block_k g" "0 < block_k g" "i < block_m g" "j < block_n g"
    and "pid_m * block_m g + i < gm_m g" "pid_n * block_n g + j < gm_n g"
  shows "accumulate g ops a b pid_m pid_n i j =
    mma (a_row g a (pid_m * block_m g + i)) (b_col g b (pid_n * block_n g + j)) (acc_zero ops)"
  unfolding accumulate_def
proof (rule dot_steps [OF assms(1-5)])
  let ?m = "pid_m * block_m g + i" and ?n = "pid_n * block_n g + j"
  fix ki assume ki: "ki * block_k g < gm_k g"
  show "map (\<lambda>kk. load_a g ops a pid_m ki i kk) [0..<block_k g] = segment (op_zero ops) (block_k g) ki (a_row g a ?m)"
    using segment_padded [OF ki, of "\<lambda>k. a (int ?m * stride_am g + int k * stride_ak g)" "op_zero ops"] assms(6)
    by (simp add: load_a_def [abs_def] a_row_def Let_def cong: if_cong)
  show "map (\<lambda>kk. load_b g ops b pid_n ki kk j) [0..<block_k g] = segment (op_zero ops) (block_k g) ki (b_col g b ?n)"
    using segment_padded [OF ki, of "\<lambda>k. b (int k * stride_bk g + int ?n * stride_bn g)" "op_zero ops"] assms(7)
    by (simp add: load_b_def b_col_def Let_def cong: if_cong)
qed (simp_all add: a_row_def b_col_def)

section \<open>The launch\<close>

abbreviation c_addr :: "gemm \<Rightarrow> nat \<Rightarrow> nat \<Rightarrow> int" where
  "c_addr g m n \<equiv> stride_cm g * int m + stride_cn g * int n"

definition good_tiles :: "gemm \<Rightarrow> bool" where
  "good_tiles g \<longleftrightarrow> 16 dvd block_k g \<and> 0 < block_k g \<and> 0 < block_m g \<and> 0 < block_n g \<and> 0 < group_m g \<and> 0 < num_sms g"

definition element :: "gemm \<Rightarrow> ('f, 'a) gemm_ops \<Rightarrow> ('f list \<Rightarrow> 'f list \<Rightarrow> 'a \<Rightarrow> 'a) \<Rightarrow> 'f memory \<Rightarrow> 'f memory \<Rightarrow> 'f memory \<Rightarrow> nat \<Rightarrow> nat \<Rightarrow> 'f" where
  "element g ops mma a b bias m n = epilogue g ops bias n (mma (a_row g a m) (b_col g b n) (acc_zero ops))"

abbreviation num_tiles_of :: "gemm \<Rightarrow> nat" where
  "num_tiles_of g \<equiv> cdiv (gm_m g) (block_m g) * cdiv (gm_n g) (block_n g)"

lemma matmul_program_concat:
  "matmul_program g ops a b bias s =
    concat (map (\<lambda>t. tile_stores g ops a b bias (s + t * num_sms g) (s + t * num_sms g))
      [0..<if s < num_tiles_of g then cdiv (num_tiles_of g - s) (num_sms g) else 0])"
proof -
  define S where "S = num_sms g"
  let ?step = "\<lambda>t (c :: int, ws). let c' = c + int S in (c', ws @ tile_stores g ops a b bias (s + t * S) (nat c'))"
  have "fold ?step [0..<t] (int s - int S, []) =
      (int s - int S + int t * int S, concat (map (\<lambda>t. tile_stores g ops a b bias (s + t * S) (s + t * S)) [0..<t]))" for t
  proof (induction t)
    case (Suc t)
    have "nat (int s + int t * int S) = s + t * S" by (simp flip: of_nat_mult of_nat_add)
    with Suc show ?case by (simp add: Let_def algebra_simps)
  qed simp
  then show ?thesis by (simp add: matmul_program_def S_def Let_def)
qed

text \<open>What a masked store of a tile writes, as a set of cells.\<close>

lemma tile_cells:
  fixes bm bn pm pn M N :: nat
  assumes "0 < bm" "0 < bn"
    and v: "\<And>i j. i < bm \<Longrightarrow> j < bn \<Longrightarrow> pm * bm + i < M \<Longrightarrow> pn * bn + j < N \<Longrightarrow> v i j = w (pm * bm + i) (pn * bn + j)"
  shows "set (concat (map (\<lambda>i. concat (map (\<lambda>j.
      if pm * bm + i < M \<and> pn * bn + j < N then [(addr (pm * bm + i) (pn * bn + j), v i j)] else [])
        [0..<bn])) [0..<bm])) =
    {(addr m n, w m n) | m n. m < M \<and> n < N \<and> m div bm = pm \<and> n div bn = pn}" (is "_ = ?R")
proof -
  let ?S = "{(addr (pm * bm + i) (pn * bn + j), w (pm * bm + i) (pn * bn + j)) | i j.
      i < bm \<and> j < bn \<and> pm * bm + i < M \<and> pn * bn + j < N}"
  have "set (concat (map (\<lambda>i. concat (map (\<lambda>j.
      if pm * bm + i < M \<and> pn * bn + j < N then [(addr (pm * bm + i) (pn * bn + j), v i j)] else [])
        [0..<bn])) [0..<bm])) = ?S"
    by (auto simp: v split: if_splits) (force simp: v)+
  also have "?S = ?R"
  proof
    show "?S \<subseteq> ?R"
    proof
      fix x assume "x \<in> ?S"
      then obtain i j where ij: "i < bm" "j < bn" "pm * bm + i < M" "pn * bn + j < N"
        "x = (addr (pm * bm + i) (pn * bn + j), w (pm * bm + i) (pn * bn + j))" by blast
      with mult_add_div [OF ij(1), of pm] mult_add_div [OF ij(2), of pn] show "x \<in> ?R" by blast
    qed
    show "?R \<subseteq> ?S"
    proof
      fix x assume "x \<in> ?R"
      then obtain m n where x: "x = (addr m n, w m n)" "m < M" "n < N" "m div bm = pm" "n div bn = pn" by blast
      define i j where "i = m mod bm" and "j = n mod bn"
      have "i < bm" "j < bn" using assms(1,2) by (simp_all add: i_def j_def)
      moreover have "m = pm * bm + i" "n = pn * bn + j"
        using x(4,5) div_mult_mod_eq [of m bm] div_mult_mod_eq [of n bn] by (simp_all add: i_def j_def)
      ultimately show "x \<in> ?S" using x(1-3) by blast
    qed
  qed
  finally show ?thesis .
qed

lemma tile_stores_set:
  assumes "row_independent ops mma" "good_tiles g"
    and "compute_pid tile (group_m g * cdiv (gm_n g) (block_n g)) (cdiv (gm_m g) (block_m g)) (group_m g) = (pm, pn)"
  shows "set (tile_stores g ops a b bias tile tile) =
    {(c_addr g m n, element g ops mma a b bias m n) | m n. m < gm_m g \<and> n < gm_n g \<and> m div block_m g = pm \<and> n div block_n g = pn}"
  unfolding tile_stores_def Let_def assms(3) prod.case
proof (rule tile_cells)
  fix i j assume ij: "i < block_m g" "j < block_n g" "pm * block_m g + i < gm_m g" "pn * block_n g + j < gm_n g"
  show "epilogue g ops bias (pn * block_n g + j) (accumulate g ops a b pm pn i j) =
      element g ops mma a b bias (pm * block_m g + i) (pn * block_n g + j)"
    unfolding element_def using accumulate_element [OF assms(1) _ _ ij] assms(2) by (simp add: good_tiles_def)
qed (use assms(2) in \<open>simp_all add: good_tiles_def\<close>)

text \<open>The programs of the grid visit every tile, and only tiles.\<close>

lemma programs_cover:
  assumes "0 < S"
  shows "{s + t * S | s t. s < min S T \<and> t < (if s < T then cdiv (T - s) S else 0)} = {..<T}"
    (is "?L = _")
proof
  show "?L \<subseteq> {..<T}"
  proof
    fix x assume "x \<in> ?L"
    then obtain s t where x: "x = s + t * S" "s < T" "t < cdiv (T - s) S" by (auto split: if_splits)
    then have "t * S < T - s" using less_cdiv [OF assms] by blast
    then show "x \<in> {..<T}" using x(1,2) by simp
  qed
  show "{..<T} \<subseteq> ?L"
  proof
    fix x assume "x \<in> {..<T}"
    then have x: "x < T" by simp
    have eq: "x = x mod S + x div S * S" by simp
    have "x div S * S < T - x mod S" using x eq by linarith
    then have "x div S < cdiv (T - x mod S) S" using less_cdiv [OF assms] by blast
    moreover have "x mod S < min S T" using x assms by (simp add: order.strict_trans1 [OF mod_less_eq_dividend])
    ultimately have "x mod S < min S T \<and> x div S < (if x mod S < T then cdiv (T - x mod S) S else 0)" by simp
    with eq show "x \<in> ?L" by blast
  qed
qed

lemma union_programs:
  "(\<Union>s\<in>{..<G}. \<Union>t\<in>{0..<f s}. F (s + t * S)) = (\<Union>x\<in>{s + t * S | s t. s < G \<and> t < f s}. F x)" for S :: nat
  by fastforce

lemma launch_stores:
  assumes "row_independent ops mma" "good_tiles g" "set ord = {..<matmul_grid g}"
  shows "set (concat (map (matmul_program g ops a b bias) ord)) =
    {(c_addr g m n, element g ops mma a b bias m n) | m n. m < gm_m g \<and> n < gm_n g}"
proof -
  let ?T = "num_tiles_of g" and ?S = "num_sms g"
  let ?npm = "cdiv (gm_m g) (block_m g)" and ?npn = "cdiv (gm_n g) (block_n g)"
  let ?pid = "\<lambda>tile. compute_pid tile (group_m g * ?npn) ?npm (group_m g)"
  let ?cell = "\<lambda>m n. (c_addr g m n, element g ops mma a b bias m n)"
  note pos = assms(2) [unfolded good_tiles_def]
  have "set (concat (map (matmul_program g ops a b bias) ord)) =
      (\<Union>x\<in>{s + t * ?S | s t. s < min ?S ?T \<and> t < (if s < ?T then cdiv (?T - s) ?S else 0)}. set (tile_stores g ops a b bias x x))"
    unfolding matmul_program_concat matmul_grid_def by (simp only: set_concat set_map assms(3) set_upt
      union_programs [symmetric] matmul_grid_def) (simp add: atLeast0LessThan)
  also have "\<dots> = (\<Union>x\<in>{..<?T}. set (tile_stores g ops a b bias x x))"
    by (simp only: programs_cover [OF pos [THEN conjunct2, THEN conjunct2, THEN conjunct2, THEN conjunct2, THEN conjunct2]])
  also have "\<dots> = {?cell m n | m n. m < gm_m g \<and> n < gm_n g}"
  proof (intro set_eqI iffI)
    fix x assume "x \<in> (\<Union>x\<in>{..<?T}. set (tile_stores g ops a b bias x x))"
    then obtain tile where t: "x \<in> set (tile_stores g ops a b bias tile tile)" by blast
    obtain pm pn where p: "?pid tile = (pm, pn)" by (cases "?pid tile") auto
    from t show "x \<in> {?cell m n | m n. m < gm_m g \<and> n < gm_n g}"
      unfolding tile_stores_set [OF assms(1,2) p] by blast
  next
    fix x assume "x \<in> {?cell m n | m n. m < gm_m g \<and> n < gm_n g}"
    then obtain m n where x: "x = ?cell m n" "m < gm_m g" "n < gm_n g" by blast
    have "m div block_m g < ?npm" "n div block_n g < ?npn"
      using pos x(2,3) less_cdiv [of "block_m g"] less_cdiv [of "block_n g"] div_times_less_eq_dividend le_less_trans by blast+
    from pid_surjective [OF this] pos obtain tile where t: "tile < ?T" "?pid tile = (m div block_m g, n div block_n g)" by blast
    have "x \<in> set (tile_stores g ops a b bias tile tile)"
      unfolding tile_stores_set [OF assms(1,2) t(2)] using x by blast
    then show "x \<in> (\<Union>x\<in>{..<?T}. set (tile_stores g ops a b bias x x))" using t(1) by blast
  qed
  finally show ?thesis .
qed

lemma launch_cell:
  assumes "row_independent ops mma" "good_tiles g" "set ord = {..<matmul_grid g}"
    and "\<forall>m n m' n'. m < gm_m g \<and> n < gm_n g \<and> m' < gm_m g \<and> n' < gm_n g \<and> c_addr g m n = c_addr g m' n' \<longrightarrow> m = m' \<and> n = n'"
    and "m < gm_m g" "n < gm_n g"
  shows "matmul_launch g ops a b bias ord mem (c_addr g m n) = element g ops mma a b bias m n"
  unfolding matmul_launch_def
proof (rule apply_stores_agree)
  note stores = launch_stores [OF assms(1-3), of a b bias]
  show "(c_addr g m n, element g ops mma a b bias m n) \<in> set (concat (map (matmul_program g ops a b bias) ord))"
    unfolding stores using assms(5,6) by blast
  fix v assume "(c_addr g m n, v) \<in> set (concat (map (matmul_program g ops a b bias) ord))"
  then obtain m' n' where "c_addr g m n = c_addr g m' n'" "v = element g ops mma a b bias m' n'" "m' < gm_m g" "n' < gm_n g"
    unfolding stores by blast
  moreover from this have "m = m' \<and> n = n'" using assms(4-6) by blast
  ultimately show "v = element g ops mma a b bias m n" by simp
qed

text \<open>
  C25. A launch of the persistent kernel, whatever the order of its programs, leaves in every output cell
  the epilogue of the product of its row and its column, accumulated once from zero over the whole of \<open>K\<close>,
  and leaves every other cell as it was.
\<close>

theorem launch_computes_product:
  assumes "row_independent ops mma" "good_tiles g" "set ord = {..<matmul_grid g}"
    and "\<forall>m n m' n'. m < gm_m g \<and> n < gm_n g \<and> m' < gm_m g \<and> n' < gm_n g \<and> c_addr g m n = c_addr g m' n' \<longrightarrow> m = m' \<and> n = n'"
  shows "(\<forall>m < gm_m g. \<forall>n < gm_n g. matmul_launch g ops a b bias ord mem (c_addr g m n) =
        epilogue g ops bias n (mma (a_row g a m) (b_col g b n) (acc_zero ops))) \<and>
    (\<forall>p. (\<forall>m < gm_m g. \<forall>n < gm_n g. p \<noteq> c_addr g m n) \<longrightarrow> matmul_launch g ops a b bias ord mem p = mem p)"
proof (intro conjI allI impI)
  fix m n assume mn: "m < gm_m g" "n < gm_n g"
  show "matmul_launch g ops a b bias ord mem (c_addr g m n) =
      epilogue g ops bias n (mma (a_row g a m) (b_col g b n) (acc_zero ops))"
    using launch_cell [OF assms mn] by (simp only: element_def)
next
  fix p assume p: "\<forall>m < gm_m g. \<forall>n < gm_n g. p \<noteq> c_addr g m n"
  show "matmul_launch g ops a b bias ord mem p = mem p"
    unfolding matmul_launch_def
  proof (rule apply_stores_other)
    show "p \<notin> fst ` set (concat (map (matmul_program g ops a b bias) ord))"
      unfolding launch_stores [OF assms(1-3)] using p by fastforce
  qed
qed

text \<open>Exact arithmetic on integers satisfies the contract.\<close>

definition int_ops :: "(int, int) gemm_ops" where
  "int_ops = \<lparr>op_dot = (\<lambda>bm bn bk a b acc i j. acc i j + (\<Sum>k\<leftarrow>[0..<bk]. a i k * b k j)), op_zero = 0, acc_zero = 0,
     op_bias = (+), op_round = (\<lambda>x. x)\<rparr>"

definition int_mma :: "int list \<Rightarrow> int list \<Rightarrow> int \<Rightarrow> int" where
  "int_mma xs ys x = x + sum_list (map2 (*) xs ys)"

lemma int_row_independent: "row_independent int_ops int_mma"
proof -
  have dot: "map2 (*) (map f xs) (map g xs) = map (\<lambda>k. f k * g k) xs" for f g :: "nat \<Rightarrow> int" and xs
    by (induction xs) auto
  have zeros: "sum_list (replicate z (0::int)) = 0" for z
    by (induction z) auto
  show ?thesis by (simp add: row_independent_def int_ops_def int_mma_def dot zeros)
qed

lemma row_address_inj:
  fixes m n m' n' N :: nat
  assumes "n < N" "n' < N" "int N * int m + int n = int N * int m' + int n'"
  shows "m = m' \<and> n = n'"
proof -
  have "m * N + n = m' * N + n'" using assms(3) by (simp add: mult.commute flip: of_nat_mult of_nat_add)
  then show ?thesis using mult_add_div [OF assms(1), of m] mult_add_div [OF assms(2), of m']
      mult_add_mod [OF assms(1), of m] mult_add_mod [OF assms(2), of m'] by metis
qed

definition ex_gemm :: gemm where
  "ex_gemm = \<lparr>gm_m = 3, gm_n = 2, gm_k = 20, stride_am = 20, stride_ak = 1, stride_bk = 2, stride_bn = 1,
     stride_cm = 2, stride_cn = 1, block_m = 2, block_n = 1, block_k = 16, group_m = 8, num_sms = 3,
     has_bias = False, even_m = False\<rparr>"

theorem launch_computes_product_witness:
  "matmul_launch ex_gemm int_ops (\<lambda>p. p) (\<lambda>p. p + 1) (\<lambda>p. 0) [2, 0, 1] (\<lambda>p. 0) 5 =
     int_mma (a_row ex_gemm (\<lambda>p. p) 2) (b_col ex_gemm (\<lambda>p. p + 1) 1) 0"
proof -
  have sizes: "good_tiles ex_gemm" "set [2, 0, 1] = {..<matmul_grid ex_gemm}"
    by (auto simp: good_tiles_def ex_gemm_def matmul_grid_def cdiv_def)
  have inj: "\<forall>m n m' n'. m < gm_m ex_gemm \<and> n < gm_n ex_gemm \<and> m' < gm_m ex_gemm \<and> n' < gm_n ex_gemm \<and>
      c_addr ex_gemm m n = c_addr ex_gemm m' n' \<longrightarrow> m = m' \<and> n = n'"
  proof (intro allI impI)
    fix m n m' n'
    assume "m < gm_m ex_gemm \<and> n < gm_n ex_gemm \<and> m' < gm_m ex_gemm \<and> n' < gm_n ex_gemm \<and> c_addr ex_gemm m n = c_addr ex_gemm m' n'"
    then show "m = m' \<and> n = n'" using row_address_inj [of n 2 n' m m'] by (simp add: ex_gemm_def)
  qed
  have sel: "gm_m ex_gemm = 3" "gm_n ex_gemm = 2" "\<not> has_bias ex_gemm" "stride_cm ex_gemm = 2" "stride_cn ex_gemm = 1"
    by (simp_all add: ex_gemm_def)
  have ops: "op_round int_ops x = x" "acc_zero int_ops = 0" for x by (simp_all add: int_ops_def)
  have addr: "c_addr ex_gemm 2 1 = 5" by (simp add: sel)
  have "matmul_launch ex_gemm int_ops (\<lambda>p. p) (\<lambda>p. p + 1) (\<lambda>p. 0) [2, 0, 1] (\<lambda>p. 0) (c_addr ex_gemm 2 1) =
      epilogue ex_gemm int_ops (\<lambda>p. 0) 1 (int_mma (a_row ex_gemm (\<lambda>p. p) 2) (b_col ex_gemm (\<lambda>p. p + 1) 1) (acc_zero int_ops))"
    by (rule launch_computes_product [OF int_row_independent sizes inj, THEN conjunct1, rule_format]) (simp_all add: sel)
  then show ?thesis unfolding addr epilogue_def by (simp only: sel ops if_False)
qed

section \<open>Batch invariance\<close>

definition entry :: "'f matrix \<Rightarrow> nat \<Rightarrow> nat \<Rightarrow> 'f" where
  "entry x i j = mx_mem x (int i * mx_stride0 x + int j * mx_stride1 x)"

definition valid_config :: "tile_config \<Rightarrow> bool" where
  "valid_config c \<longleftrightarrow> 16 dvd tc_block_k c \<and> 0 < tc_block_k c \<and> 0 < tc_block_m c \<and> 0 < tc_block_n c \<and> 0 < tc_group_m c"

lemma bf16_config_valid:
  assumes "bf16_matmul_config predict fits key cache = Ok (cfg, cache')" "\<forall>k c. cache k = Some c \<longrightarrow> valid_config c"
  shows "valid_config cfg" "\<forall>k c. cache' k = Some c \<longrightarrow> valid_config c"
proof -
  have "set (ranked_candidates (predict key)) = set bf16_candidates" by (simp only: ranked_candidates_def set_sort)
  moreover have "\<forall>c \<in> set bf16_candidates. valid_config (as_cfg c)"
    by (simp add: bf16_candidates_def as_cfg_def valid_config_def)
  ultimately have cands: "\<forall>c \<in> set (map as_cfg (ranked_candidates (predict key))). valid_config c" by simp
  have "valid_config cfg \<and> (\<forall>k c. cache' k = Some c \<longrightarrow> valid_config c)"
  proof (cases "cache key")
    case (Some c)
    then show ?thesis using assms by (auto simp: bf16_matmul_config_def)
  next
    case None
    then obtain rest where f: "filter (fits key) (map as_cfg (ranked_candidates (predict key))) = cfg # rest" "cache' = cache(key \<mapsto> cfg)"
      using assms(1) by (auto simp: bf16_matmul_config_def split: list.splits)
    have "cfg \<in> set (filter (fits key) (map as_cfg (ranked_candidates (predict key))))" unfolding f(1) by simp
    then have "valid_config cfg" using cands by auto
    then show ?thesis using assms(2) f(2) by simp
  qed
  then show "valid_config cfg" "\<forall>k c. cache' k = Some c \<longrightarrow> valid_config c" by blast+
qed

lemma other_config_valid: "other_config t = Ok c \<Longrightarrow> valid_config c"
  by (auto simp: other_config_def valid_config_def split: float_type.splits)

lemma matmul_entry:
  assumes "row_independent ops mma" "0 < sms" "\<forall>n. set (schedule n) = {..<n}"
    and "\<forall>c. bf = Ok c \<longrightarrow> valid_config c"
    and "matmul_persistent ops sms bf schedule fresh a b bias = Ok c"
    and "m < mx_rows a" "n < mx_cols b"
  shows "entry c m n = op_round ops ((case bias of Some (_, v) \<Rightarrow> (\<lambda>x. op_bias ops x (v (int n))) | None \<Rightarrow> (\<lambda>x. x))
      (mma (map (entry a m) [0..<mx_cols a]) (map (\<lambda>k. entry b k n) [0..<mx_cols a]) (acc_zero ops)))" "mx_cols a = mx_rows b"
proof -
  obtain cfg where cfg: "(if mx_type a = BFloat16 then bf else other_config (mx_type a)) = Ok cfg" and
    cols: "mx_cols a = mx_rows b" and
    c: "c = \<lparr>mx_rows = mx_rows a, mx_cols = mx_cols b, mx_stride0 = int (mx_cols b), mx_stride1 = 1, mx_type = mx_type a,
      mx_mem = matmul_launch (gemm_of a b (bias \<noteq> None) sms cfg) ops (mx_mem a) (mx_mem b)
        (case bias of Some (_, m) \<Rightarrow> m | None \<Rightarrow> fresh) (schedule (matmul_grid (gemm_of a b (bias \<noteq> None) sms cfg))) fresh\<rparr>"
    using assms(5) by (auto simp: matmul_persistent_def Let_def split: if_splits)
  let ?g = "gemm_of a b (bias \<noteq> None) sms cfg"
  let ?v = "case bias of Some (_, m) \<Rightarrow> m | None \<Rightarrow> fresh"
  have "valid_config cfg" using cfg assms(4) other_config_valid by (auto split: if_splits)
  then have good: "good_tiles ?g" using assms(2) by (simp add: good_tiles_def gemm_of_def valid_config_def)
  have ord: "set (schedule (matmul_grid ?g)) = {..<matmul_grid ?g}" using assms(3) by simp
  have inj: "\<forall>m n m' n'. m < gm_m ?g \<and> n < gm_n ?g \<and> m' < gm_m ?g \<and> n' < gm_n ?g \<and> c_addr ?g m n = c_addr ?g m' n' \<longrightarrow> m = m' \<and> n = n'"
  proof (intro allI impI)
    fix m n m' n'
    assume "m < gm_m ?g \<and> n < gm_n ?g \<and> m' < gm_m ?g \<and> n' < gm_n ?g \<and> c_addr ?g m n = c_addr ?g m' n'"
    then show "m = m' \<and> n = n'" using row_address_inj [of n "mx_cols b" n' m m'] by (simp add: gemm_of_def)
  qed
  have "matmul_launch ?g ops (mx_mem a) (mx_mem b) ?v (schedule (matmul_grid ?g)) fresh (c_addr ?g m n) =
      element ?g ops mma (mx_mem a) (mx_mem b) ?v m n"
    using launch_cell [OF assms(1) good ord inj] assms(6,7) by (simp add: gemm_of_def)
  then show "entry c m n = op_round ops ((case bias of Some (_, v) \<Rightarrow> (\<lambda>x. op_bias ops x (v (int n))) | None \<Rightarrow> (\<lambda>x. x))
      (mma (map (entry a m) [0..<mx_cols a]) (map (\<lambda>k. entry b k n) [0..<mx_cols a]) (acc_zero ops)))"
    using assms(7) unfolding c element_def epilogue_def a_row_def b_col_def entry_def [abs_def]
    by (simp add: gemm_of_def mult.commute split: option.splits)
  show "mx_cols a = mx_rows b" by (rule cols)
qed

text \<open>
  C26. Batch invariance: if a row occurs in two batches of any heights, its row of the two results is the
  same value for value, whatever number of processors, tile configuration and program order each call has.
\<close>

theorem matmul_batch_invariant:
  assumes "row_independent ops mma" "0 < sms" "0 < sms'"
    and "\<forall>n. set (schedule n) = {..<n}" "\<forall>n. set (schedule' n) = {..<n}"
    and "\<forall>c. bf = Ok c \<longrightarrow> valid_config c" "\<forall>c. bf' = Ok c \<longrightarrow> valid_config c"
    and "matmul_persistent ops sms bf schedule fresh a b bias = Ok c"
    and "matmul_persistent ops sms' bf' schedule' fresh' a' b bias = Ok c'"
    and "m < mx_rows a" "m' < mx_rows a'" "\<forall>k < mx_cols a. entry a m k = entry a' m' k" "n < mx_cols b"
  shows "entry c m n = entry c' m' n"
proof -
  note one = matmul_entry [OF assms(1,2,4,6,8,10,13)] and two = matmul_entry [OF assms(1,3,5,7,9,11,13)]
  have "map (entry a m) [0..<mx_cols a] = map (entry a' m') [0..<mx_cols a']"
    using one(2) two(2) assms(12) by simp
  moreover have "mx_cols a = mx_cols a'" using one(2) two(2) by simp
  ultimately show ?thesis unfolding one(1) two(1) by (simp only:)
qed

definition ex_matrix :: "nat \<Rightarrow> nat \<Rightarrow> int memory \<Rightarrow> int matrix" where
  "ex_matrix r c mem = \<lparr>mx_rows = r, mx_cols = c, mx_stride0 = int c, mx_stride1 = 1, mx_type = Float32, mx_mem = mem\<rparr>"

theorem matmul_batch_invariant_witness:
  "\<exists>c c'. matmul_persistent int_ops 3 (Raise KeyError) (\<lambda>n. [0..<n]) (\<lambda>p. 0) (ex_matrix 3 20 (\<lambda>p. p)) (ex_matrix 20 2 (\<lambda>p. p)) None = Ok c \<and>
    matmul_persistent int_ops 7 (Raise KeyError) (\<lambda>n. rev [0..<n]) (\<lambda>p. 5) (ex_matrix 1 20 (\<lambda>p. p + 20)) (ex_matrix 20 2 (\<lambda>p. p)) None = Ok c' \<and>
    entry c 1 1 = entry c' 0 1"
proof -
  let ?a = "ex_matrix 3 20 (\<lambda>p. p)" and ?a' = "ex_matrix 1 20 (\<lambda>p. p + 20)" and ?b = "ex_matrix 20 2 (\<lambda>p. p)"
  obtain c where c: "matmul_persistent int_ops 3 (Raise KeyError) (\<lambda>n. [0..<n]) (\<lambda>p. 0) ?a ?b None = Ok c"
    by (simp add: matmul_persistent_def ex_matrix_def other_config_def Let_def)
  obtain c' where c': "matmul_persistent int_ops 7 (Raise KeyError) (\<lambda>n. rev [0..<n]) (\<lambda>p. 5) ?a' ?b None = Ok c'"
    by (simp add: matmul_persistent_def ex_matrix_def other_config_def Let_def)
  have "entry c 1 1 = entry c' 0 1"
    by (rule matmul_batch_invariant [OF int_row_independent _ _ _ _ _ _ c c'])
      (simp_all add: ex_matrix_def entry_def atLeast0LessThan)
  with c c' show ?thesis by blast
qed

end
