(* ===== verification/Batched_Matmul.thy ===== *)
theory Batched_Matmul
  imports Matmul
begin

text \<open>
  The batched GEMM of \<open>src/vexact/batch_invariant_ops/batch_invariant_ops.py\<close>: \<open>_bmm_kernel\<close> and
  \<open>triton_bmm\<close>, as the stores of its programs, over the arithmetic of the persistent GEMM.
\<close>

section \<open>The batched GEMM\<close>

record bmm =
  bm_b :: nat
  bm_m :: nat
  bm_n :: nat
  bm_k :: nat
  bm_block_m :: nat
  bm_block_n :: nat
  bm_block_k :: nat

text \<open>
  One program of \<open>_bmm_kernel\<close>, on contiguous operands of shapes \<open>(B, M, K)\<close> and \<open>(B, K, N)\<close>: its early
  returns, its masks, and its stores.
\<close>

definition bmm_load_a :: "bmm \<Rightarrow> ('f, 'a) gemm_ops \<Rightarrow> 'f memory \<Rightarrow> nat \<Rightarrow> nat \<Rightarrow> nat \<Rightarrow> 'f tile" where
  "bmm_load_a g ops a pid_b pid_m ki i kk =
     (let row = pid_m * bm_block_m g + i; k = ki * bm_block_k g + kk
      in if row < bm_m g \<and> kk < bm_k g - ki * bm_block_k g
         then a (int (pid_b * (bm_m g * bm_k g)) + int (row * bm_k g + k)) else op_zero ops)"

definition bmm_load_b :: "bmm \<Rightarrow> ('f, 'a) gemm_ops \<Rightarrow> 'f memory \<Rightarrow> nat \<Rightarrow> nat \<Rightarrow> nat \<Rightarrow> 'f tile" where
  "bmm_load_b g ops b pid_b pid_n ki kk j =
     (let col = pid_n * bm_block_n g + j; k = ki * bm_block_k g + kk
      in if kk < bm_k g - ki * bm_block_k g \<and> col < bm_n g
         then b (int (pid_b * (bm_k g * bm_n g)) + int (k * bm_n g + col)) else op_zero ops)"

definition bmm_program :: "bmm \<Rightarrow> ('f, 'a) gemm_ops \<Rightarrow> 'f memory \<Rightarrow> 'f memory \<Rightarrow> nat \<Rightarrow> nat \<Rightarrow> 'f stores" where
  "bmm_program g ops a b pid_b pid =
     (let npm = cdiv (bm_m g) (bm_block_m g); npn = cdiv (bm_n g) (bm_block_n g);
          pid_m = pid div npn; pid_n = pid mod npn
      in if pid_b \<ge> bm_b g then []
         else if pid_m \<ge> npm \<or> pid_n \<ge> npn then []
         else let acc = fold (\<lambda>ki acc. op_dot ops (bm_block_m g) (bm_block_n g) (bm_block_k g)
                    (bmm_load_a g ops a pid_b pid_m ki) (bmm_load_b g ops b pid_b pid_n ki) acc)
                  [0..<cdiv (bm_k g) (bm_block_k g)] (\<lambda>_ _. acc_zero ops)
              in concat (map (\<lambda>i. concat (map (\<lambda>j.
                   let row = pid_m * bm_block_m g + i; col = pid_n * bm_block_n g + j
                   in if row < bm_m g \<and> col < bm_n g
                      then [(int (pid_b * (bm_m g * bm_n g)) + int (row * bm_n g + col), op_round ops (acc i j))] else [])
                   [0..<bm_block_n g])) [0..<bm_block_m g]))"

definition bmm_launch :: "bmm \<Rightarrow> ('f, 'a) gemm_ops \<Rightarrow> 'f memory \<Rightarrow> 'f memory \<Rightarrow> (nat \<times> nat) list \<Rightarrow> 'f memory \<Rightarrow> 'f memory" where
  "bmm_launch g ops a b ord mem = apply_stores (concat (map (\<lambda>(pid_b, pid). bmm_program g ops a b pid_b pid) ord)) mem"

definition bmm_grid :: "bmm \<Rightarrow> (nat \<times> nat) set" where
  "bmm_grid g = {..<bm_b g} \<times> {..<cdiv (bm_m g) (bm_block_m g) * cdiv (bm_n g) (bm_block_n g)}"

text \<open>\<open>triton_bmm\<close> on contiguous operands (the copies that make them so are not modelled).\<close>

type_synonym 'f tensor3 = "nat list \<times> 'f memory"

definition triton_bmm ::
    "('f, 'a) gemm_ops \<Rightarrow> (bmm \<Rightarrow> (nat \<times> nat) list) \<Rightarrow> 'f memory \<Rightarrow> 'f tensor3 \<Rightarrow> 'f tensor3 \<Rightarrow> 'f tensor3 res" where
  "triton_bmm ops schedule fresh a b =
     (case (fst a, fst b) of
        ([B, M, K], [B2, K2, N]) \<Rightarrow>
          if \<not> (K = K2 \<and> B = B2) then Raise AssertionError
          else let g = \<lparr>bm_b = B, bm_m = M, bm_n = N, bm_k = K,
                  bm_block_m = (if M \<le> 16 then 16 else if M \<le> 32 then 32 else if M \<le> 64 then 64 else 128),
                  bm_block_n = (if N \<le> 16 then 16 else if N \<le> 32 then 32 else if N \<le> 64 then 64 else 128),
                  bm_block_k = (if K \<le> 16 then 16 else if K \<le> 32 then 32 else 64)\<rparr>
               in Ok ([B, M, N], bmm_launch g ops (snd a) (snd b) (schedule g) fresh)
      | _ \<Rightarrow> Raise AssertionError)"

definition bmm_row :: "bmm \<Rightarrow> 'f memory \<Rightarrow> nat \<Rightarrow> nat \<Rightarrow> 'f list" where
  "bmm_row g a p m = map (\<lambda>k. a (int (p * (bm_m g * bm_k g)) + int (m * bm_k g + k))) [0..<bm_k g]"

definition bmm_col :: "bmm \<Rightarrow> 'f memory \<Rightarrow> nat \<Rightarrow> nat \<Rightarrow> 'f list" where
  "bmm_col g b p n = map (\<lambda>k. b (int (p * (bm_k g * bm_n g)) + int (k * bm_n g + n))) [0..<bm_k g]"

abbreviation bmm_addr :: "bmm \<Rightarrow> nat \<Rightarrow> nat \<Rightarrow> nat \<Rightarrow> int" where
  "bmm_addr g p m n \<equiv> int (p * (bm_m g * bm_n g)) + int (m * bm_n g + n)"

definition bmm_element :: "bmm \<Rightarrow> ('f, 'a) gemm_ops \<Rightarrow> ('f list \<Rightarrow> 'f list \<Rightarrow> 'a \<Rightarrow> 'a) \<Rightarrow> 'f memory \<Rightarrow> 'f memory \<Rightarrow> nat \<Rightarrow> nat \<Rightarrow> nat \<Rightarrow> 'f" where
  "bmm_element g ops mma a b p m n = op_round ops (mma (bmm_row g a p m) (bmm_col g b p n) (acc_zero ops))"

definition good_bmm :: "bmm \<Rightarrow> bool" where
  "good_bmm g \<longleftrightarrow> 16 dvd bm_block_k g \<and> 0 < bm_block_k g \<and> 0 < bm_block_m g \<and> 0 < bm_block_n g"

lemma bmm_program_set:
  assumes "row_independent ops mma" "good_bmm g" "p < bm_b g"
    and "pid < cdiv (bm_m g) (bm_block_m g) * cdiv (bm_n g) (bm_block_n g)"
  shows "set (bmm_program g ops a b p pid) =
    {(bmm_addr g p m n, bmm_element g ops mma a b p m n) | m n. m < bm_m g \<and> n < bm_n g \<and>
      m div bm_block_m g = pid div cdiv (bm_n g) (bm_block_n g) \<and> n div bm_block_n g = pid mod cdiv (bm_n g) (bm_block_n g)}"
proof -
  let ?npn = "cdiv (bm_n g) (bm_block_n g)"
  have npn: "0 < ?npn" using assms(4) by (cases ?npn) auto
  have guards: "(bm_b g \<le> p) = False" "(cdiv (bm_m g) (bm_block_m g) \<le> pid div ?npn \<or> ?npn \<le> pid mod ?npn) = False"
    using assms(3,4) npn by (simp_all add: less_mult_imp_div_less not_le)
  show ?thesis
    unfolding bmm_program_def Let_def guards if_False
  proof (rule tile_cells)
    fix i j assume ij: "i < bm_block_m g" "j < bm_block_n g"
      "pid div ?npn * bm_block_m g + i < bm_m g" "pid mod ?npn * bm_block_n g + j < bm_n g"
    have "fold (\<lambda>ki acc. op_dot ops (bm_block_m g) (bm_block_n g) (bm_block_k g)
          (bmm_load_a g ops a p (pid div ?npn) ki) (bmm_load_b g ops b p (pid mod ?npn) ki) acc)
        [0..<cdiv (bm_k g) (bm_block_k g)] (\<lambda>_ _. acc_zero ops) i j =
      mma (bmm_row g a p (pid div ?npn * bm_block_m g + i)) (bmm_col g b p (pid mod ?npn * bm_block_n g + j)) (acc_zero ops)"
    proof (rule dot_steps [OF assms(1) _ _ ij(1,2)])
      fix ki assume ki: "ki * bm_block_k g < bm_k g"
      show "map (\<lambda>kk. bmm_load_a g ops a p (pid div ?npn) ki i kk) [0..<bm_block_k g] =
          segment (op_zero ops) (bm_block_k g) ki (bmm_row g a p (pid div ?npn * bm_block_m g + i))"
        unfolding bmm_row_def segment_padded [OF ki, symmetric] using ij(3) by (simp add: bmm_load_a_def Let_def)
      show "map (\<lambda>kk. bmm_load_b g ops b p (pid mod ?npn) ki kk j) [0..<bm_block_k g] =
          segment (op_zero ops) (bm_block_k g) ki (bmm_col g b p (pid mod ?npn * bm_block_n g + j))"
        unfolding bmm_col_def segment_padded [OF ki, symmetric] using ij(4) by (simp add: bmm_load_b_def Let_def)
    qed (use assms(2) in \<open>simp_all add: good_bmm_def bmm_row_def bmm_col_def\<close>)
    then show "op_round ops (fold (\<lambda>ki acc. op_dot ops (bm_block_m g) (bm_block_n g) (bm_block_k g)
          (bmm_load_a g ops a p (pid div ?npn) ki) (bmm_load_b g ops b p (pid mod ?npn) ki) acc)
        [0..<cdiv (bm_k g) (bm_block_k g)] (\<lambda>_ _. acc_zero ops) i j) =
      bmm_element g ops mma a b p (pid div ?npn * bm_block_m g + i) (pid mod ?npn * bm_block_n g + j)"
      by (simp only: bmm_element_def)
  qed (use assms(2) in \<open>simp_all add: good_bmm_def\<close>)
qed

lemma bmm_launch_stores:
  assumes "row_independent ops mma" "good_bmm g" "set ord = bmm_grid g"
  shows "set (concat (map (\<lambda>(p, pid). bmm_program g ops a b p pid) ord)) =
    {(bmm_addr g p m n, bmm_element g ops mma a b p m n) | p m n. p < bm_b g \<and> m < bm_m g \<and> n < bm_n g}"
    (is "?L = ?R")
proof (intro set_eqI iffI)
  fix x assume "x \<in> ?L"
  then obtain p pid where "p < bm_b g" "pid < cdiv (bm_m g) (bm_block_m g) * cdiv (bm_n g) (bm_block_n g)"
    "x \<in> set (bmm_program g ops a b p pid)" using assms(3) by (auto simp: bmm_grid_def)
  then show "x \<in> ?R" using bmm_program_set [OF assms(1,2), of p pid a b] by auto
next
  fix x assume "x \<in> ?R"
  then obtain p m n where x: "x = (bmm_addr g p m n, bmm_element g ops mma a b p m n)" "p < bm_b g" "m < bm_m g" "n < bm_n g" by blast
  let ?npn = "cdiv (bm_n g) (bm_block_n g)"
  let ?pid = "m div bm_block_m g * ?npn + n div bm_block_n g"
  have lt: "m div bm_block_m g < cdiv (bm_m g) (bm_block_m g)" "n div bm_block_n g < ?npn"
    using assms(2) [unfolded good_bmm_def] x(3,4) less_cdiv [of "bm_block_m g"] less_cdiv [of "bm_block_n g"]
      div_times_less_eq_dividend le_less_trans by blast+
  have "Suc (m div bm_block_m g) * ?npn \<le> cdiv (bm_m g) (bm_block_m g) * ?npn" using lt(1) by (intro mult_le_mono1) simp
  moreover have "Suc (m div bm_block_m g) * ?npn = m div bm_block_m g * ?npn + ?npn" by (simp only: mult_Suc add.commute)
  ultimately have pid: "?pid < cdiv (bm_m g) (bm_block_m g) * ?npn" using lt(2) by linarith
  have "x \<in> set (bmm_program g ops a b p ?pid)"
    unfolding bmm_program_set [OF assms(1,2) x(2) pid] mult_add_div [OF lt(2)] mult_add_mod [OF lt(2)] using x by blast
  moreover have "(p, ?pid) \<in> set ord" using x(2) pid unfolding assms(3) bmm_grid_def by blast
  ultimately show "x \<in> ?L" by force
qed

lemma bmm_cell:
  assumes "row_independent ops mma" "\<forall>g. set (schedule g) = bmm_grid g" "p < B" "m < M" "n < N"
  shows "\<exists>c. triton_bmm ops schedule fresh ([B, M, K], a) ([B, K, N], b) = Ok ([B, M, N], c) \<and>
    c (int (p * (M * N)) + int (m * N + n)) =
      op_round ops (mma (map (\<lambda>k. a (int (p * (M * K)) + int (m * K + k))) [0..<K])
        (map (\<lambda>k. b (int (p * (K * N)) + int (k * N + n))) [0..<K]) (acc_zero ops))"
proof -
  define g where "g = \<lparr>bm_b = B, bm_m = M, bm_n = N, bm_k = K,
    bm_block_m = (if M \<le> 16 then 16 else if M \<le> 32 then 32 else if M \<le> 64 then 64 else 128),
    bm_block_n = (if N \<le> 16 then 16 else if N \<le> 32 then 32 else if N \<le> 64 then 64 else 128),
    bm_block_k = (if K \<le> 16 then 16 else if K \<le> 32 then 32 else (64 :: nat))\<rparr>"
  have sel: "bm_b g = B" "bm_m g = M" "bm_n g = N" "bm_k g = K" by (simp_all add: g_def)
  have good: "good_bmm g" by (simp add: good_bmm_def g_def)
  have ord: "set (schedule g) = bmm_grid g" using assms(2) by simp
  have stores: "set (concat (map (\<lambda>(p, pid). bmm_program g ops a b p pid) (schedule g))) =
      {(bmm_addr g p m n, bmm_element g ops mma a b p m n) | p m n. p < B \<and> m < M \<and> n < N}"
    using bmm_launch_stores [OF assms(1) good ord] by (simp only: sel)
  have "bmm_launch g ops a b (schedule g) fresh (bmm_addr g p m n) = bmm_element g ops mma a b p m n"
    unfolding bmm_launch_def
  proof (rule apply_stores_agree)
    show "(bmm_addr g p m n, bmm_element g ops mma a b p m n) \<in> set (concat (map (\<lambda>(p, pid). bmm_program g ops a b p pid) (schedule g)))"
      unfolding stores using assms(3-5) by blast
    fix v assume "(bmm_addr g p m n, v) \<in> set (concat (map (\<lambda>(p, pid). bmm_program g ops a b p pid) (schedule g)))"
    then obtain p' m' n' where e: "bmm_addr g p m n = bmm_addr g p' m' n'" "v = bmm_element g ops mma a b p' m' n'" "p' < B" "m' < M" "n' < N"
      unfolding stores by blast
    have cell: "i * N + j < M * N" if "i < M" "j < N" for i j
    proof -
      have "Suc i * N \<le> M * N" using that(1) by (intro mult_le_mono1) simp
      moreover have "Suc i * N = i * N + N" by (simp only: mult_Suc add.commute)
      ultimately show ?thesis using that(2) by linarith
    qed
    have eq: "p * (M * N) + (m * N + n) = p' * (M * N) + (m' * N + n')" using e(1) unfolding sel by linarith
    have "p = p'" "m * N + n = m' * N + n'"
      using mult_add_div [OF cell [OF assms(4,5)], of p] mult_add_div [OF cell [OF e(4,5)], of p']
        mult_add_mod [OF cell [OF assms(4,5)], of p] mult_add_mod [OF cell [OF e(4,5)], of p'] eq by metis+
    moreover from this have "m = m'" "n = n'"
      using mult_add_div [OF assms(5), of m] mult_add_div [OF e(5), of m'] mult_add_mod [OF assms(5), of m] mult_add_mod [OF e(5), of m'] by metis+
    ultimately show "v = bmm_element g ops mma a b p m n" using e(2) by simp
  qed
  moreover have "triton_bmm ops schedule fresh ([B, M, K], a) ([B, K, N], b) =
      Ok ([B, M, N], bmm_launch g ops a b (schedule g) fresh)"
    by (simp add: triton_bmm_def Let_def g_def)
  ultimately show ?thesis unfolding bmm_element_def bmm_row_def bmm_col_def sel by blast
qed

text \<open>
  C27. The batched product is right and each of its matrices depends on its own operands only: every cell of
  matrix \<open>p\<close> is the product of its row and column of the \<open>p\<close>-th operands, accumulated once from zero,
  for any shape, any batch size and any order of the programs.
\<close>

theorem bmm_computes_products:
  assumes "row_independent ops mma" "\<forall>g. set (schedule g) = bmm_grid g" "p < B" "m < M" "n < N"
  shows "\<exists>c. triton_bmm ops schedule fresh ([B, M, K], a) ([B, K, N], b) = Ok ([B, M, N], c) \<and>
    c (int (p * (M * N)) + int (m * N + n)) =
      op_round ops (mma (map (\<lambda>k. a (int (p * (M * K)) + int (m * K + k))) [0..<K])
        (map (\<lambda>k. b (int (p * (K * N)) + int (k * N + n))) [0..<K]) (acc_zero ops))"
  by (rule bmm_cell [OF assms])

theorem bmm_computes_products_witness:
  "\<exists>c. triton_bmm int_ops (\<lambda>g. List.product [0..<bm_b g] [0..<cdiv (bm_m g) (bm_block_m g) * cdiv (bm_n g) (bm_block_n g)]) (\<lambda>_. 0)
      ([2, 3, 4], \<lambda>p. p) ([2, 4, 5], \<lambda>p. p) = Ok ([2, 3, 5], c) \<and> c 15 = 1510"
proof -
  have ord: "\<forall>g. set (List.product [0..<bm_b g] [0..<cdiv (bm_m g) (bm_block_m g) * cdiv (bm_n g) (bm_block_n g)]) = bmm_grid g"
    by (auto simp: bmm_grid_def)
  show ?thesis
    using bmm_computes_products [OF int_row_independent ord, of 1 2 0 3 0 5 "\<lambda>_. 0" 4 "\<lambda>p. p" "\<lambda>p. p"]
    by (simp add: int_mma_def int_ops_def upt_rec)
qed

end
