(* ===== verification/Row_Kernels.thy ===== *)
theory Row_Kernels
  imports Complex_Main Matmul Tensors
begin

text \<open>
  The row kernels of \<open>src/vexact/batch_invariant_ops/batch_invariant_ops.py\<close>: log-softmax, the mean over one
  dimension and the RMS normalisation, forward and backward, with the host functions that reshape their
  tensors and launch them.

  Floating-point arithmetic is the record \<open>float_ops\<close>: the block reductions \<open>tl.sum\<close> and \<open>tl.max\<close> and the
  elementary functions. The kernels are written over any such arithmetic, so that a statement on them is one
  on the order of operations; their mathematical meaning is stated over the real numbers extended with
  \<open>-inf\<close> and NaN (\<open>xreal_ops\<close>).
\<close>

section \<open>Arithmetic\<close>

record 'f float_ops =
  f_num :: "nat \<Rightarrow> 'f"
  f_neg_inf :: 'f
  f_add :: "'f \<Rightarrow> 'f \<Rightarrow> 'f"
  f_sub :: "'f \<Rightarrow> 'f \<Rightarrow> 'f"
  f_mul :: "'f \<Rightarrow> 'f \<Rightarrow> 'f"
  f_div :: "'f \<Rightarrow> 'f \<Rightarrow> 'f"
  f_max :: "'f \<Rightarrow> 'f \<Rightarrow> 'f"
  f_exp :: "'f \<Rightarrow> 'f"
  f_log :: "'f \<Rightarrow> 'f"
  f_sqrt :: "'f \<Rightarrow> 'f"
  f_block_sum :: "'f list \<Rightarrow> 'f"
  f_block_max :: "'f list \<Rightarrow> 'f"

text \<open>\<open>for off in range(0, n, bs)\<close> with the block of offsets of each turn.\<close>

definition block_loop :: "nat \<Rightarrow> nat \<Rightarrow> (nat list \<Rightarrow> 's \<Rightarrow> 's) \<Rightarrow> 's \<Rightarrow> 's" where
  "block_loop bs n body = fold (\<lambda>t. body [t * bs..<t * bs + bs]) [0..<cdiv n bs]"

definition masked_load :: "'f memory \<Rightarrow> int \<Rightarrow> int \<Rightarrow> nat \<Rightarrow> 'f \<Rightarrow> nat \<Rightarrow> 'f" where
  "masked_load mem base stride n other c = (if c < n then mem (base + int c * stride) else other)"

text \<open>A masked store of one block.\<close>

definition block_stores :: "int \<Rightarrow> nat \<Rightarrow> (nat \<Rightarrow> 'f) \<Rightarrow> nat list \<Rightarrow> 'f stores" where
  "block_stores base n f cs = map (\<lambda>c. (base + int c, f c)) (filter (\<lambda>c. c < n) cs)"

section \<open>Log-softmax\<close>

text \<open>The store converts to the element type of the output, \<open>to_out\<close>.\<close>

definition row_max :: "'f float_ops \<Rightarrow> (nat \<Rightarrow> 'f) \<Rightarrow> nat \<Rightarrow> nat \<Rightarrow> 'f" where
  "row_max fo row bs n = block_loop bs n (\<lambda>cs m.
     f_block_max fo (map (\<lambda>c. f_max fo (if c < n then row c else f_neg_inf fo) m) cs)) (f_neg_inf fo)"

definition row_sum_exp :: "'f float_ops \<Rightarrow> (nat \<Rightarrow> 'f) \<Rightarrow> 'f \<Rightarrow> nat \<Rightarrow> nat \<Rightarrow> 'f" where
  "row_sum_exp fo row mx bs n = block_loop bs n (\<lambda>cs s.
     f_add fo s (f_block_sum fo (map (\<lambda>c.
       let v = (if c < n then row c else f_num fo 0); e = f_exp fo (f_sub fo v mx)
       in if c < n then e else f_num fo 0) cs))) (f_num fo 0)"

definition log_softmax_kernel :: "'f float_ops \<Rightarrow> ('f \<Rightarrow> 'f) \<Rightarrow> 'f memory \<Rightarrow> int \<Rightarrow> int \<Rightarrow> nat \<Rightarrow> nat \<Rightarrow> nat \<Rightarrow> 'f stores" where
  "log_softmax_kernel fo to_out input in_stride out_stride n_cols bs row_idx =
     (let row = masked_load input (int row_idx * in_stride) 1 n_cols (f_num fo 0);
          mx = row_max fo row bs n_cols;
          lse = f_log fo (row_sum_exp fo row mx bs n_cols)
      in block_loop bs n_cols (\<lambda>cs ws.
           ws @ block_stores (int row_idx * out_stride) n_cols (\<lambda>c. to_out (f_sub fo (f_sub fo (row c) mx) lse)) cs) [])"

text \<open>A tensor's memory: its elements in row-major order.\<close>

definition mem_of :: "'f \<Rightarrow> 'f list \<Rightarrow> 'f memory" where
  "mem_of z xs p = (if 0 \<le> p \<and> p < int (length xs) then xs ! nat p else z)"

definition read_back :: "nat \<Rightarrow> 'f memory \<Rightarrow> 'f list" where
  "read_back n mem = map (\<lambda>i. mem (int i)) [0..<n]"

text \<open>The leading dimensions flattened, as \<open>reshape(-1, shape[-1])\<close> does.\<close>

definition rows_cols :: "nat list \<Rightarrow> nat \<times> nat" where
  "rows_cols sh = (numel (butlast sh), last sh)"

definition log_softmax :: "'f float_ops \<Rightarrow> ('d \<Rightarrow> 'f \<Rightarrow> 'f) \<Rightarrow> (nat \<Rightarrow> nat list) \<Rightarrow> ('d, 'f) tensor \<Rightarrow> int \<Rightarrow> ('d, 'f) tensor res" where
  "log_softmax fo to_type schedule x axis =
     (if axis \<noteq> -1 \<and> axis \<noteq> int (length (tshape x)) - 1 then Raise ValueError
      else if tshape x = [] then Raise IndexError
      else let (n_rows, n_cols) = rows_cols (tshape x);
               mem = apply_stores (concat (map (log_softmax_kernel fo (to_type (tdtype x)) (mem_of (f_num fo 0) (tdata x)) (int n_cols) (int n_cols) n_cols 1024)
                 (schedule n_rows))) (\<lambda>_. f_num fo 0)
           in Ok (x\<lparr>tdata := read_back (n_rows * n_cols) mem\<rparr>))"

definition log_softmax_batch_invariant ::
    "'f float_ops \<Rightarrow> ('d \<Rightarrow> 'f \<Rightarrow> 'f) \<Rightarrow> (nat \<Rightarrow> nat list) \<Rightarrow> ('d, 'f) tensor \<Rightarrow> int \<Rightarrow> bool \<Rightarrow> ('d, 'f) tensor res" where
  "log_softmax_batch_invariant fo to_type schedule x axis half_to_float =
     (if half_to_float then Raise AssertionError else log_softmax fo to_type schedule x axis)"

section \<open>Mean over one dimension\<close>

definition mean_kernel :: "'f float_ops \<Rightarrow> ('f \<Rightarrow> 'f) \<Rightarrow> 'f memory \<Rightarrow> int \<Rightarrow> int \<Rightarrow> int \<Rightarrow> int \<Rightarrow> int \<Rightarrow> nat \<Rightarrow> nat \<Rightarrow> nat \<Rightarrow> nat \<Rightarrow> nat \<Rightarrow> 'f stores" where
  "mean_kernel fo to_out input s0 s1 s2 o0 o1 M N K bs pid =
     (let m_idx = pid div K; k_idx = pid mod K
      in if m_idx \<ge> M \<or> k_idx \<ge> K then []
         else let acc = block_loop bs N (\<lambda>ns acc.
                    f_add fo acc (f_block_sum fo (map (masked_load input (int m_idx * s0 + int k_idx * s2) s1 N (f_num fo 0)) ns)))
                  (f_num fo 0)
              in [(int m_idx * o0 + int k_idx * o1, to_out (f_div fo acc (f_num fo N)))])"

datatype mean_type = MFloat16 | MBFloat16 | MFloat32 | MFloat64 | MInt8 | MInt16 | MInt32 | MInt64 | MBool

text \<open>
  The store converts to the element type of the output. \<open>mean_dim\<close> on an accelerator tensor. Conversion between element types is a parameter. The output's
  strides are those of a fresh contiguous \<open>(M, K)\<close> tensor.
\<close>

definition mean_dim ::
    "'f float_ops \<Rightarrow> (mean_type \<Rightarrow> 'f \<Rightarrow> 'f) \<Rightarrow> (nat \<Rightarrow> nat list) \<Rightarrow> bool \<Rightarrow> (mean_type, 'f) tensor \<Rightarrow> int \<Rightarrow> bool \<Rightarrow> mean_type option
       \<Rightarrow> (mean_type, 'f) tensor res" where
  "mean_dim fo cast schedule is_cuda x axis keepdim dtype =
     (let nd = int (length (tshape x))
      in if \<not> is_cuda then Raise AssertionError
         else if \<not> (- nd \<le> axis \<and> axis < nd) then Raise AssertionError
         else let d = nat (if axis < 0 then axis + nd else axis);
                  dt = (case dtype of Some t \<Rightarrow> t
                        | None \<Rightarrow> if tdtype x \<in> {MInt8, MInt16, MInt32, MInt64} then MFloat32 else tdtype x);
                  elems = (if tdtype x \<noteq> dt then map (cast dt) (tdata x) else tdata x);
                  M = numel (take d (tshape x)); N = tshape x ! d; K = numel (drop (Suc d) (tshape x));
                  out_shape = (if keepdim then (tshape x)[d := 1] else take d (tshape x) @ drop (Suc d) (tshape x));
                  mem = apply_stores (concat (map (mean_kernel fo (cast dt) (mem_of (f_num fo 0) elems) (int (N * K)) (int K) 1 (int K) 1 M N K 1024)
                    (schedule (M * K)))) (\<lambda>_. f_num fo 0)
              in Ok \<lparr>tshape = out_shape, tdtype = dt, tdata = read_back (M * K) mem\<rparr>)"

text \<open>
  \<open>mean_batch_invariant\<close>: one dimension goes to the kernel, without the requested element type; several go
  to \<open>torch.sum\<close>, a parameter, followed by conversion and division by the number of elements.
\<close>

definition mean_batch_invariant ::
    "'f float_ops \<Rightarrow> (mean_type \<Rightarrow> 'f \<Rightarrow> 'f) \<Rightarrow> (nat \<Rightarrow> nat list) \<Rightarrow> bool
       \<Rightarrow> ((mean_type, 'f) tensor \<Rightarrow> int list \<Rightarrow> bool \<Rightarrow> (mean_type, 'f) tensor)
       \<Rightarrow> (mean_type, 'f) tensor \<Rightarrow> int list \<Rightarrow> bool \<Rightarrow> mean_type option \<Rightarrow> (mean_type, 'f) tensor res" where
  "mean_batch_invariant fo cast schedule is_cuda torch_sum x dims keepdim dtype =
     (if dtype \<noteq> None \<and> dtype \<noteq> Some MFloat32 then Raise AssertionError
      else case dims of
        [d] \<Rightarrow> mean_dim fo cast schedule is_cuda x d keepdim None
      | _ \<Rightarrow> if tdtype x \<notin> {MFloat16, MBFloat16, MFloat32} then Raise AssertionError
             else let ds = (if dims = [] then map int [0..<length (tshape x)] else dims)
                  in rbind (map_res (py_get (tshape x)) ds) (\<lambda>sizes.
                       let dt = (case dtype of Some t \<Rightarrow> t | None \<Rightarrow> tdtype x); s = torch_sum x ds keepdim
                       in Ok (s\<lparr>tdtype := dt, tdata := map (\<lambda>v. f_div fo (cast dt v) (f_num fo (prod_list sizes))) (tdata s)\<rparr>)))"

section \<open>RMS normalisation\<close>

definition rms_norm_kernel ::
    "'f float_ops \<Rightarrow> ('f \<Rightarrow> 'f) \<Rightarrow> ('f \<Rightarrow> 'f) \<Rightarrow> 'f memory \<Rightarrow> 'f memory \<Rightarrow> int \<Rightarrow> int \<Rightarrow> nat \<Rightarrow> 'f \<Rightarrow> nat \<Rightarrow> nat \<Rightarrow> 'f stores" where
  "rms_norm_kernel fo to_f32 to_input input weight in_stride out_stride n_cols eps bs row_idx =
     (let row = masked_load input (int row_idx * in_stride) 1 n_cols (f_num fo 0);
          sum_sq = block_loop bs n_cols (\<lambda>cs s.
            f_add fo s (f_block_sum fo (map (\<lambda>c. let v = to_f32 (row c) in if c < n_cols then f_mul fo v v else f_num fo 0) cs)))
            (f_num fo 0);
          inv_rms = f_div fo (f_num fo 1) (f_sqrt fo (f_add fo (f_div fo sum_sq (f_num fo n_cols)) eps))
      in block_loop bs n_cols (\<lambda>cs ws.
           ws @ block_stores (int row_idx * out_stride) n_cols (\<lambda>c.
             to_input (f_mul fo (f_mul fo (to_f32 (row c)) inv_rms) (to_f32 (masked_load weight 0 1 n_cols (f_num fo 1) c)))) cs) [])"

definition rms_norm_forward ::
    "'f float_ops \<Rightarrow> ('f \<Rightarrow> 'f) \<Rightarrow> ('d \<Rightarrow> 'f \<Rightarrow> 'f) \<Rightarrow> (nat \<Rightarrow> nat list) \<Rightarrow> ('d, 'f) tensor \<Rightarrow> 'f list \<Rightarrow> 'f \<Rightarrow> ('d, 'f) tensor res" where
  "rms_norm_forward fo to_f32 to_type schedule x weight eps =
     (if tshape x = [] then Raise IndexError
      else let (n_rows, n_cols) = rows_cols (tshape x);
               mem = apply_stores (concat (map (rms_norm_kernel fo to_f32 (to_type (tdtype x)) (mem_of (f_num fo 0) (tdata x))
                 (mem_of (f_num fo 0) weight) (int n_cols) (int n_cols) n_cols eps 1024) (schedule n_rows))) (\<lambda>_. f_num fo 0)
           in Ok (x\<lparr>tdata := read_back (n_rows * n_cols) mem\<rparr>))"

section \<open>Loops over blocks\<close>

lemma concat_blocks: "concat (map (\<lambda>t. [t * bs..<t * bs + bs]) [0..<k]) = [0..<k * bs]" for bs :: nat
proof (induction k)
  case (Suc k)
  have "[0..<Suc k * bs] = [0..<k * bs] @ [k * bs..<k * bs + bs]"
    using upt_add_eq_append [of 0 "k * bs" bs] by (simp add: add.commute)
  with Suc show ?case by simp
qed simp

lemma filter_upt_less: "n \<le> k \<Longrightarrow> filter (\<lambda>c. c < n) [0..<k] = [0..<n]"
proof (induction k)
  case (Suc k)
  then show ?case by (cases "n = Suc k") (auto intro: filter_True)
qed simp

lemma block_loop_stores:
  assumes "0 < bs"
  shows "block_loop bs n (\<lambda>cs ws. ws @ block_stores base n f cs) [] = map (\<lambda>c. (base + int c, f c)) [0..<n]"
proof -
  have cat: "fold (\<lambda>t ws. ws @ F t) ts ws = ws @ concat (map F ts)" for F :: "nat \<Rightarrow> (int \<times> 'a) list" and ts ws
    by (induction ts arbitrary: ws) simp_all
  have "concat (map (\<lambda>t. block_stores base n f [t * bs..<t * bs + bs]) [0..<k]) =
      map (\<lambda>c. (base + int c, f c)) (filter (\<lambda>c. c < n) (concat (map (\<lambda>t. [t * bs..<t * bs + bs]) [0..<k])))" for k
    by (simp add: block_stores_def map_concat filter_concat o_def)
  then show ?thesis
    unfolding block_loop_def cat concat_blocks using filter_upt_less [OF cdiv_covers [OF assms, of n]] by simp
qed

text \<open>A reduction that adds up block sums adds up the whole row.\<close>

lemma block_loop_sum:
  fixes v :: "nat \<Rightarrow> 'a::comm_monoid_add"
  assumes "0 < bs"
  shows "block_loop bs n (\<lambda>cs s. s + (\<Sum>c\<leftarrow>cs. if c < n then v c else 0)) 0 = (\<Sum>c<n. v c)"
proof -
  have cat: "fold (\<lambda>t s. s + F t) ts s = s + sum_list (map F ts)" for F :: "nat \<Rightarrow> 'a" and ts s
    by (induction ts arbitrary: s) (simp_all add: add.assoc)
  have "sum_list (map (\<lambda>t. \<Sum>c\<leftarrow>[t * bs..<t * bs + bs]. if c < n then v c else 0) [0..<k]) =
      (\<Sum>c\<leftarrow>[0..<k * bs]. if c < n then v c else 0)" for k
    unfolding concat_blocks [symmetric] by (induction k) simp_all
  moreover have "(\<Sum>c\<leftarrow>cs. if c < n then v c else 0) = (\<Sum>c\<leftarrow>filter (\<lambda>c. c < n) cs. v c)" for cs
    by (induction cs) simp_all
  ultimately show ?thesis
    unfolding block_loop_def cat using filter_upt_less [OF cdiv_covers [OF assms, of n]]
    by (simp add: interv_sum_list_conv_sum_set_nat atLeast0LessThan)
qed

lemma block_loop_invariant:
  assumes "P s" "\<And>cs s. P s \<Longrightarrow> P (body cs s)"
  shows "P (block_loop bs n body s)"
  unfolding block_loop_def
proof -
  have "P (fold (\<lambda>t. body [t * bs..<t * bs + bs]) ts s)" for ts
    using assms(1) by (induction ts arbitrary: s) (auto intro: assms(2))
  then show "P (fold (\<lambda>t. body [t * bs..<t * bs + bs]) [0..<cdiv n bs] s)" .
qed

section \<open>Rows are independent\<close>

definition row_of :: "nat \<Rightarrow> 'f list \<Rightarrow> nat \<Rightarrow> 'f list" where
  "row_of n xs r = take n (drop (r * n) xs)"

abbreviation padded :: "'f \<Rightarrow> 'f list \<Rightarrow> nat \<Rightarrow> 'f" where
  "padded z xs c \<equiv> if c < length xs then xs ! c else z"

lemma row_in_bounds:
  assumes "r < R" "length xs = R * n" "c < n"
  shows "r * n + c < length xs"
proof -
  have "Suc r * n \<le> R * n" using assms(1) by (intro mult_le_mono1) simp
  then show ?thesis using assms(2,3) by simp
qed

lemma length_row_of: "r < R \<Longrightarrow> length xs = R * n \<Longrightarrow> length (row_of n xs r) = n"
proof -
  assume a: "r < R" "length xs = R * n"
  have "Suc r * n \<le> R * n" using a(1) by (intro mult_le_mono1) simp
  then show ?thesis using a(2) by (simp add: row_of_def)
qed

lemma nth_row_of: "r < R \<Longrightarrow> length xs = R * n \<Longrightarrow> c < n \<Longrightarrow> row_of n xs r ! c = xs ! (r * n + c)"
  using row_in_bounds [of r R xs n c] by (simp add: row_of_def)

lemma masked_load_row:
  assumes "r < R" "length xs = R * n"
  shows "masked_load (mem_of z xs) (int r * int n) 1 n z = padded z (row_of n xs r)"
proof
  fix c
  show "masked_load (mem_of z xs) (int r * int n) 1 n z c = padded z (row_of n xs r) c"
  proof (cases "c < n")
    case True
    have "nat (int r * int n + int c) = r * n + c" by (simp flip: of_nat_mult of_nat_add)
    then show ?thesis
      using True row_in_bounds [OF assms True] length_row_of [OF assms] nth_row_of [OF assms True]
      by (simp add: masked_load_def mem_of_def flip: of_nat_mult of_nat_add)
  next
    case False
    then show ?thesis using length_row_of [OF assms] by (simp add: masked_load_def)
  qed
qed

text \<open>Programs that each write their own row of a contiguous output.\<close>

lemma row_stores_read:
  assumes "set ord = {..<R}" "r < R" "c < n"
    and k: "\<And>r. r < R \<Longrightarrow> program r = map (\<lambda>c. (int r * int n + int c, out r c)) [0..<n]"
  shows "read_back (R * n) (apply_stores (concat (map program ord)) mem) ! (r * n + c) = out r c"
proof -
  have "apply_stores (concat (map program ord)) mem (int r * int n + int c) = out r c"
  proof (rule apply_stores_agree)
    have "r \<in> set ord" using assms(1,2) by simp
    moreover have "(int r * int n + int c, out r c) \<in> set (program r)" using k [OF assms(2)] assms(3) by auto
    ultimately show "(int r * int n + int c, out r c) \<in> set (concat (map program ord))" by auto
    fix v assume "(int r * int n + int c, v) \<in> set (concat (map program ord))"
    then obtain r' c' where e: "r' < R" "c' < n" "int r * int n + int c = int r' * int n + int c'" "v = out r' c'"
      using assms(1) k by auto
    then have "r * n + c = r' * n + c'" by (simp flip: of_nat_mult of_nat_add)
    then have "r = r'" "c = c'"
      using mult_add_div [OF assms(3), of r] mult_add_div [OF e(2), of r'] mult_add_mod [OF assms(3), of r] mult_add_mod [OF e(2), of r'] by metis+
    then show "v = out r c" using e(4) by simp
  qed
  moreover have "r * n + c < R * n" using row_in_bounds [of r R "replicate (R * n) ()" n c] assms(2,3) by simp
  ultimately show ?thesis by (simp add: read_back_def)
qed

text \<open>The value that each row kernel stores at column \<open>c\<close> of a row.\<close>

definition log_softmax_row :: "'f float_ops \<Rightarrow> ('f \<Rightarrow> 'f) \<Rightarrow> 'f list \<Rightarrow> nat \<Rightarrow> 'f" where
  "log_softmax_row fo to_out xs c =
     (let row = padded (f_num fo 0) xs; mx = row_max fo row 1024 (length xs)
      in to_out (f_sub fo (f_sub fo (row c) mx) (f_log fo (row_sum_exp fo row mx 1024 (length xs)))))"

definition rms_norm_row :: "'f float_ops \<Rightarrow> ('f \<Rightarrow> 'f) \<Rightarrow> ('f \<Rightarrow> 'f) \<Rightarrow> 'f list \<Rightarrow> 'f \<Rightarrow> 'f list \<Rightarrow> nat \<Rightarrow> 'f" where
  "rms_norm_row fo to_f32 to_input weight eps xs c =
     (let row = padded (f_num fo 0) xs; n = length xs;
          sum_sq = block_loop 1024 n (\<lambda>cs s.
            f_add fo s (f_block_sum fo (map (\<lambda>c. let v = to_f32 (row c) in if c < n then f_mul fo v v else f_num fo 0) cs)))
            (f_num fo 0);
          inv_rms = f_div fo (f_num fo 1) (f_sqrt fo (f_add fo (f_div fo sum_sq (f_num fo n)) eps))
      in to_input (f_mul fo (f_mul fo (to_f32 (row c)) inv_rms)
           (to_f32 (masked_load (mem_of (f_num fo 0) weight) 0 1 n (f_num fo 1) c))))"

lemma log_softmax_cell:
  assumes "log_softmax fo to_type schedule x axis = Ok y" "\<forall>n. set (schedule n) = {..<n}"
    and "tshape x \<noteq> []" "length (tdata x) = numel (tshape x)" "r < numel (butlast (tshape x))" "c < last (tshape x)"
  shows "tdata y ! (r * last (tshape x) + c) = log_softmax_row fo (to_type (tdtype x)) (row_of (last (tshape x)) (tdata x) r) c"
proof -
  let ?R = "numel (butlast (tshape x))" and ?n = "last (tshape x)"
  have len: "length (tdata x) = ?R * ?n"
    using assms(3,4) append_butlast_last_id [OF assms(3)] by (metis numel_def prod_list.append prod_list.Cons prod_list.Nil mult.right_neutral)
  let ?out = "\<lambda>r c. log_softmax_row fo (to_type (tdtype x)) (row_of ?n (tdata x) r) c"
  have k: "log_softmax_kernel fo (to_type (tdtype x)) (mem_of (f_num fo 0) (tdata x)) (int ?n) (int ?n) ?n 1024 r =
      map (\<lambda>c. (int r * int ?n + int c, ?out r c)) [0..<?n]" if "r < ?R" for r
    unfolding log_softmax_kernel_def Let_def masked_load_row [OF that len] block_loop_stores [OF zero_less_numeral]
      log_softmax_row_def length_row_of [OF that len] by (rule refl)
  show ?thesis
    using row_stores_read [of "schedule ?R", OF _ assms(5,6) k] assms(1,2,3)
    by (auto simp: log_softmax_def rows_cols_def Let_def split: if_splits)
qed

lemma rms_norm_cell:
  assumes "rms_norm_forward fo to_f32 to_type schedule x weight eps = Ok y" "\<forall>n. set (schedule n) = {..<n}"
    and "tshape x \<noteq> []" "length (tdata x) = numel (tshape x)" "r < numel (butlast (tshape x))" "c < last (tshape x)"
  shows "tdata y ! (r * last (tshape x) + c) = rms_norm_row fo to_f32 (to_type (tdtype x)) weight eps (row_of (last (tshape x)) (tdata x) r) c"
proof -
  let ?R = "numel (butlast (tshape x))" and ?n = "last (tshape x)"
  have len: "length (tdata x) = ?R * ?n"
    using assms(3,4) append_butlast_last_id [OF assms(3)] by (metis numel_def prod_list.append prod_list.Cons prod_list.Nil mult.right_neutral)
  let ?out = "\<lambda>r c. rms_norm_row fo to_f32 (to_type (tdtype x)) weight eps (row_of ?n (tdata x) r) c"
  have k: "rms_norm_kernel fo to_f32 (to_type (tdtype x)) (mem_of (f_num fo 0) (tdata x)) (mem_of (f_num fo 0) weight) (int ?n) (int ?n) ?n eps 1024 r =
      map (\<lambda>c. (int r * int ?n + int c, ?out r c)) [0..<?n]" if "r < ?R" for r
    unfolding rms_norm_kernel_def Let_def masked_load_row [OF that len] block_loop_stores [OF zero_less_numeral]
      rms_norm_row_def length_row_of [OF that len] by (rule refl)
  show ?thesis
    using row_stores_read [of "schedule ?R", OF _ assms(5,6) k] assms(1,2,3)
    by (auto simp: rms_norm_forward_def rows_cols_def Let_def split: if_splits)
qed

lemma row_shape:
  assumes "tshape x \<noteq> []" "length (tdata x) = numel (tshape x)"
  shows "length (tdata x) = numel (butlast (tshape x)) * last (tshape x)"
  using assms append_butlast_last_id [OF assms(1)]
  by (metis numel_def prod_list.append prod_list.Cons prod_list.Nil mult.right_neutral)

lemma output_row:
  assumes "length (tdata y) = R * n" "r < R" "\<And>c. c < n \<Longrightarrow> tdata y ! (r * n + c) = f c"
  shows "row_of n (tdata y) r = map f [0..<n]"
proof (rule nth_equalityI)
  show "length (row_of n (tdata y) r) = length (map f [0..<n])" using length_row_of [OF assms(2,1)] by simp
  fix c assume "c < length (row_of n (tdata y) r)"
  then have "c < n" using length_row_of [OF assms(2,1)] by simp
  then show "row_of n (tdata y) r ! c = map f [0..<n] ! c"
    using nth_row_of [OF assms(2,1)] assms(3) by simp
qed

lemma log_softmax_output_row:
  assumes "log_softmax fo to_type schedule x axis = Ok y" "\<forall>n. set (schedule n) = {..<n}"
    and "tshape x \<noteq> []" "length (tdata x) = numel (tshape x)" "r < numel (butlast (tshape x))"
  shows "row_of (last (tshape x)) (tdata y) r =
    map (log_softmax_row fo (to_type (tdtype x)) (row_of (last (tshape x)) (tdata x) r)) [0..<last (tshape x)]"
proof (rule output_row [OF _ assms(5)])
  show "length (tdata y) = numel (butlast (tshape x)) * last (tshape x)"
    using assms(1,3) by (auto simp: log_softmax_def rows_cols_def read_back_def Let_def split: if_splits)
qed (rule log_softmax_cell [OF assms])

lemma rms_norm_output_row:
  assumes "rms_norm_forward fo to_f32 to_type schedule x weight eps = Ok y" "\<forall>n. set (schedule n) = {..<n}"
    and "tshape x \<noteq> []" "length (tdata x) = numel (tshape x)" "r < numel (butlast (tshape x))"
  shows "row_of (last (tshape x)) (tdata y) r =
    map (rms_norm_row fo to_f32 (to_type (tdtype x)) weight eps (row_of (last (tshape x)) (tdata x) r)) [0..<last (tshape x)]"
proof (rule output_row [OF _ assms(5)])
  show "length (tdata y) = numel (butlast (tshape x)) * last (tshape x)"
    using assms(1,3) by (auto simp: rms_norm_forward_def rows_cols_def read_back_def Let_def split: if_splits)
qed (rule rms_norm_cell [OF assms])

text \<open>
  C28. Log-softmax and the RMS norm are batch invariant in any arithmetic, rounding included: a row that
  occurs in two tensors of the same type and width, whatever their other dimensions and the order of the
  programs, has the same row of values in both results.
\<close>

theorem row_kernels_batch_invariant:
  assumes "\<forall>n. set (schedule n) = {..<n}" "\<forall>n. set (schedule' n) = {..<n}"
    and "tshape x \<noteq> []" "tshape x' \<noteq> []" "length (tdata x) = numel (tshape x)" "length (tdata x') = numel (tshape x')"
    and "last (tshape x) = n" "last (tshape x') = n" "tdtype x = tdtype x'"
    and "r < numel (butlast (tshape x))" "r' < numel (butlast (tshape x'))" "row_of n (tdata x) r = row_of n (tdata x') r'"
  shows "(\<forall>axis axis' y y'. log_softmax fo to_type schedule x axis = Ok y \<longrightarrow> log_softmax fo to_type schedule' x' axis' = Ok y' \<longrightarrow>
      row_of n (tdata y) r = row_of n (tdata y') r') \<and>
    (\<forall>y y'. rms_norm_forward fo to_f32 to_type schedule x weight eps = Ok y \<longrightarrow>
      rms_norm_forward fo to_f32 to_type schedule' x' weight eps = Ok y' \<longrightarrow> row_of n (tdata y) r = row_of n (tdata y') r')"
proof (intro conjI allI impI)
  fix axis axis' y y'
  assume "log_softmax fo to_type schedule x axis = Ok y" "log_softmax fo to_type schedule' x' axis' = Ok y'"
  from log_softmax_output_row [OF this(1) assms(1,3,5,10)] log_softmax_output_row [OF this(2) assms(2,4,6,11)]
  show "row_of n (tdata y) r = row_of n (tdata y') r'" using assms(7-9,12) by simp
next
  fix y y'
  assume "rms_norm_forward fo to_f32 to_type schedule x weight eps = Ok y"
    "rms_norm_forward fo to_f32 to_type schedule' x' weight eps = Ok y'"
  from rms_norm_output_row [OF this(1) assms(1,3,5,10)] rms_norm_output_row [OF this(2) assms(2,4,6,11)]
  show "row_of n (tdata y) r = row_of n (tdata y') r'" using assms(7-9,12) by simp
qed

text \<open>An arithmetic that rounds: integers, with integer division.\<close>

definition int_floats :: "int float_ops" where
  "int_floats = \<lparr>f_num = int, f_neg_inf = - 1000, f_add = (+), f_sub = (-), f_mul = (*), f_div = (div), f_max = max,
     f_exp = (\<lambda>x. x * x), f_log = (\<lambda>x. x div 2), f_sqrt = (\<lambda>x. x), f_block_sum = sum_list, f_block_max = (\<lambda>xs. fold max xs (- 1000))\<rparr>"

definition ex_tensor :: "nat list \<Rightarrow> int list \<Rightarrow> (unit, int) tensor" where
  "ex_tensor sh xs = \<lparr>tshape = sh, tdtype = (), tdata = xs\<rparr>"

theorem row_kernels_batch_invariant_witness:
  "\<exists>y y'. log_softmax int_floats (\<lambda>_ v. v) (\<lambda>n. [0..<n]) (ex_tensor [2, 3] [1, 2, 3, 7, 8, 9]) (-1) = Ok y \<and>
    log_softmax int_floats (\<lambda>_ v. v) (\<lambda>n. rev [0..<n]) (ex_tensor [1, 1, 3] [7, 8, 9]) 2 = Ok y' \<and>
    row_of 3 (tdata y) 1 = row_of 3 (tdata y') 0"
proof -
  let ?x = "ex_tensor [2, 3] [1, 2, 3, 7, 8, 9]" and ?x' = "ex_tensor [1, 1, 3] [7, 8, 9]"
  obtain y where y: "log_softmax int_floats (\<lambda>_ v. v) (\<lambda>n. [0..<n]) ?x (-1) = Ok y"
    by (simp add: log_softmax_def ex_tensor_def Let_def split_def)
  obtain y' where y': "log_softmax int_floats (\<lambda>_ v. v) (\<lambda>n. rev [0..<n]) ?x' 2 = Ok y'"
    by (simp add: log_softmax_def ex_tensor_def Let_def split_def)
  have "row_of 3 (tdata y) 1 = row_of 3 (tdata y') 0"
    by (rule row_kernels_batch_invariant [THEN conjunct1, rule_format, OF _ _ _ _ _ _ _ _ _ _ _ _ y y'])
      (simp_all add: ex_tensor_def numel_def row_of_def atLeast0LessThan)
  with y y' show ?thesis by blast
qed

end
