(* ===== verification/Row_Meaning.thy ===== *)
theory Row_Meaning
  imports Row_Kernels
begin

text \<open>
  What the row kernels of \<open>src/vexact/batch_invariant_ops/batch_invariant_ops.py\<close> compute over the real
  numbers, extended with \<open>-inf\<close> (masked logits) and NaN (every other exceptional value): log-softmax, the
  mean and the RMS norm are the mathematical functions, and \<open>BatchInvariantRMSNormFunction.backward\<close> is the
  derivative of the forward function.
\<close>

section \<open>Extended reals\<close>

datatype xreal = NegInf | Fin real | NaN

fun x_lift :: "(real \<Rightarrow> real \<Rightarrow> real) \<Rightarrow> xreal \<Rightarrow> xreal \<Rightarrow> xreal" where
  "x_lift f (Fin a) (Fin b) = Fin (f a b)"
| "x_lift f _ _ = NaN"

fun x_sub :: "xreal \<Rightarrow> xreal \<Rightarrow> xreal" where
  "x_sub NegInf (Fin b) = NegInf"
| "x_sub a b = x_lift (-) a b"

fun x_max :: "xreal \<Rightarrow> xreal \<Rightarrow> xreal" where
  "x_max NaN _ = NaN"
| "x_max _ NaN = NaN"
| "x_max NegInf b = b"
| "x_max a NegInf = a"
| "x_max (Fin a) (Fin b) = Fin (max a b)"

fun x_exp :: "xreal \<Rightarrow> xreal" where
  "x_exp NegInf = Fin 0"
| "x_exp (Fin a) = Fin (exp a)"
| "x_exp NaN = NaN"

fun x_log :: "xreal \<Rightarrow> xreal" where
  "x_log (Fin a) = (if 0 < a then Fin (ln a) else if a = 0 then NegInf else NaN)"
| "x_log _ = NaN"

fun x_sqrt :: "xreal \<Rightarrow> xreal" where
  "x_sqrt (Fin a) = (if 0 \<le> a then Fin (sqrt a) else NaN)"
| "x_sqrt _ = NaN"

fun x_div :: "xreal \<Rightarrow> xreal \<Rightarrow> xreal" where
  "x_div (Fin a) (Fin b) = (if b = 0 then NaN else Fin (a / b))"
| "x_div _ _ = NaN"

definition xreal_ops :: "xreal float_ops" where
  "xreal_ops = \<lparr>f_num = (\<lambda>n. Fin (real n)), f_neg_inf = NegInf, f_add = x_lift (+), f_sub = x_sub, f_mul = x_lift (*),
     f_div = x_div, f_max = x_max, f_exp = x_exp, f_log = x_log, f_sqrt = x_sqrt,
     f_block_sum = (\<lambda>xs. fold (x_lift (+)) xs (Fin 0)), f_block_max = (\<lambda>xs. fold x_max xs NegInf)\<rparr>"

lemma xreal_ops_simps [simp]:
  "f_num xreal_ops n = Fin (real n)" "f_neg_inf xreal_ops = NegInf" "f_add xreal_ops = x_lift (+)"
  "f_sub xreal_ops = x_sub" "f_mul xreal_ops = x_lift (*)" "f_div xreal_ops = x_div" "f_max xreal_ops = x_max"
  "f_exp xreal_ops = x_exp" "f_log xreal_ops = x_log" "f_sqrt xreal_ops = x_sqrt"
  "f_block_sum xreal_ops xs = fold (x_lift (+)) xs (Fin 0)" "f_block_max xreal_ops xs = fold x_max xs NegInf"
  by (simp_all add: xreal_ops_def)

section \<open>Sums and maxima of a row\<close>

lemma block_loop_hom:
  assumes "\<And>cs s. body' cs (h s) = h (body cs s)"
  shows "block_loop bs n body' (h s) = h (block_loop bs n body s)"
proof -
  have "fold (\<lambda>t. body' [t * bs..<t * bs + bs]) ts (h s) = h (fold (\<lambda>t. body [t * bs..<t * bs + bs]) ts s)" for ts
    by (induction ts arbitrary: s) (simp_all add: assms)
  then show ?thesis by (simp add: block_loop_def)
qed

lemma fold_Fin: "fold (x_lift (+)) (map (\<lambda>c. Fin (g c)) cs) (Fin a) = Fin (a + (\<Sum>c\<leftarrow>cs. g c))"
  by (induction cs arbitrary: a) (simp_all add: add.assoc add.commute)

lemma x_row_sum:
  assumes "0 < bs"
  shows "block_loop bs n (\<lambda>cs s. x_lift (+) s (fold (x_lift (+)) (map (\<lambda>c. if c < n then Fin (g c) else Fin 0) cs) (Fin 0))) (Fin 0) =
    Fin (\<Sum>c<n. g c)"
proof -
  have e: "(\<lambda>c. if c < n then Fin (g c) else Fin 0) = (\<lambda>c. Fin (if c < n then g c else 0))" by auto
  have "block_loop bs n (\<lambda>cs s. x_lift (+) s (fold (x_lift (+)) (map (\<lambda>c. if c < n then Fin (g c) else Fin 0) cs) (Fin 0))) (Fin 0) =
      Fin (block_loop bs n (\<lambda>cs s. s + (\<Sum>c\<leftarrow>cs. if c < n then g c else 0)) 0)"
    unfolding e fold_Fin by (rule block_loop_hom) simp
  then show ?thesis by (simp add: block_loop_sum [OF assms])
qed

text \<open>How exceptional a value is; the maximum of two values is as exceptional as the worse of them.\<close>

fun x_level :: "xreal \<Rightarrow> nat" where
  "x_level NegInf = 0"
| "x_level (Fin _) = 1"
| "x_level NaN = 2"

lemma x_level_max [simp]: "x_level (x_max a b) = max (x_level a) (x_level b)"
  by (cases a; cases b) auto

lemma x_level_fold: "x_level (fold x_max xs a) = fold max (map x_level xs) (x_level a)"
  by (induction xs arbitrary: a) (simp_all add: max.commute)

lemma fold_max_bounds:
  fixes a b :: nat
  shows "x \<in> set (a # xs) \<Longrightarrow> x \<le> fold max xs a" "(\<forall>x \<in> set (a # xs). x \<le> b) \<Longrightarrow> fold max xs a \<le> b"
proof -
  have e: "fold max xs a = Max (set (a # xs))" by (rule Max.set_eq_fold [symmetric])
  show "x \<in> set (a # xs) \<Longrightarrow> x \<le> fold max xs a" unfolding e by (rule Max_ge) simp_all
  show "(\<forall>x \<in> set (a # xs). x \<le> b) \<Longrightarrow> fold max xs a \<le> b" unfolding e by (rule Max.boundedI) auto
qed

lemma row_max_finite:
  assumes "0 < bs" "\<forall>c < n. row c \<noteq> NaN" "c < n" "row c \<noteq> NegInf"
  shows "\<exists>m. row_max xreal_ops row bs n = Fin m"
proof -
  let ?step = "\<lambda>cs m. fold x_max (map (\<lambda>c. x_max (if c < n then row c else NegInf) m) cs) NegInf"
  have lev: "x_level (?step cs m) = fold max (map (\<lambda>c. max (x_level (if c < n then row c else NegInf)) (x_level m)) cs) 0" for cs m
    by (simp add: x_level_fold o_def)
  have entry: "x_level (if c < n then row c else NegInf) \<le> 1" for c
    using assms(2) by (cases "row c") auto
  have keep: "x_level (?step cs m) \<le> 1" if "x_level m \<le> 1" for cs m
    unfolding lev using that entry by (intro fold_max_bounds(2)) auto
  have "x_level (row_max xreal_ops row bs n) \<le> 1"
    unfolding row_max_def xreal_ops_simps by (rule block_loop_invariant [where P = "\<lambda>m. x_level m \<le> 1"]) (simp, rule keep)
  moreover have "1 \<le> x_level (row_max xreal_ops row bs n)"
  proof -
    let ?t = "c div bs" and ?turn = "\<lambda>t. ?step [t * bs..<t * bs + bs]"
    have "c div bs * bs < n" using assms(3) div_times_less_eq_dividend [of c bs] by linarith
    then have lt: "?t < cdiv n bs" using less_cdiv [OF assms(1)] by blast
    have "c mod bs < bs" "c = ?t * bs + c mod bs" using assms(1) by simp_all
    then have "?t * bs \<le> c" "c < ?t * bs + bs" by linarith+
    then have mem: "c \<in> set [?t * bs..<?t * bs + bs]" by simp
    have hit: "1 \<le> x_level (?turn ?t m)" for m
    proof -
      have "1 \<le> x_level (row c)" using assms(4) by (cases "row c") auto
      also have "\<dots> \<le> max (x_level (if c < n then row c else NegInf)) (x_level m)" using assms(3) by simp
      also have "\<dots> \<le> x_level (?turn ?t m)" unfolding lev using mem by (intro fold_max_bounds(1)) auto
      finally show ?thesis .
    qed
    have grow: "x_level m \<le> x_level (?turn t m)" for t m
    proof -
      have "t * bs \<in> set [t * bs..<t * bs + bs]" using assms(1) by simp
      then have "max (x_level (if t * bs < n then row (t * bs) else NegInf)) (x_level m) \<le> x_level (?turn t m)"
        unfolding lev by (intro fold_max_bounds(1)) auto
      then show ?thesis by simp
    qed
    have later: "x_level m \<le> x_level (fold ?turn ts m)" for ts m
    proof (induction ts arbitrary: m)
      case (Cons t ts)
      then show ?case using grow [of m t] le_trans by fastforce
    qed simp
    have split: "[0..<cdiv n bs] = [0..<?t] @ ?t # [Suc ?t..<cdiv n bs]"
      using lt upt_add_eq_append [of 0 ?t "cdiv n bs - ?t"] upt_conv_Cons [OF lt] by simp
    have "row_max xreal_ops row bs n = fold ?turn [Suc ?t..<cdiv n bs] (?turn ?t (fold ?turn [0..<?t] NegInf))"
      unfolding row_max_def xreal_ops_simps block_loop_def split fold_append fold.simps o_apply by (rule refl)
    then show ?thesis using le_trans [OF hit later] by (simp only:)
  qed
  ultimately have "x_level (row_max xreal_ops row bs n) = 1" by simp
  then show ?thesis by (cases "row_max xreal_ops row bs n") auto
qed

section \<open>Log-softmax\<close>

fun weight_of :: "xreal \<Rightarrow> real" where
  "weight_of (Fin v) = exp v"
| "weight_of _ = 0"

definition log_prob :: "xreal list \<Rightarrow> xreal \<Rightarrow> xreal" where
  "log_prob xs x = (case x of Fin v \<Rightarrow> Fin (v - ln (\<Sum>y\<leftarrow>xs. weight_of y)) | y \<Rightarrow> y)"

lemma row_sum_exp_real:
  assumes "\<forall>c < n. row c \<noteq> NaN"
  shows "row_sum_exp xreal_ops row (Fin m) 1024 n = Fin ((\<Sum>c<n. weight_of (row c)) * exp (- m))"
proof -
  have e: "(let v = if c < n then row c else f_num xreal_ops 0; e = f_exp xreal_ops (f_sub xreal_ops v (Fin m))
       in if c < n then e else f_num xreal_ops 0) = (if c < n then Fin (weight_of (row c) * exp (- m)) else Fin 0)" for c
    using assms by (cases "row c") (auto simp: Let_def exp_diff exp_minus field_simps)
  show ?thesis
    unfolding row_sum_exp_def e using x_row_sum [of 1024 n "\<lambda>c. weight_of (row c) * exp (- m)"]
    by (simp add: sum_distrib_right)
qed

lemma log_softmax_row_real:
  assumes "NaN \<notin> set xs" "Fin v \<in> set xs" "c < length xs"
  shows "log_softmax_row xreal_ops (\<lambda>y. y) xs c = log_prob xs (xs ! c)"
proof -
  let ?n = "length xs" and ?row = "padded (Fin 0) xs"
  have ok: "\<forall>c < ?n. ?row c \<noteq> NaN" using assms(1) by (auto simp: in_set_conv_nth)
  obtain i where i: "i < ?n" "xs ! i = Fin v" using assms(2) by (auto simp: in_set_conv_nth)
  obtain m where m: "row_max xreal_ops ?row 1024 ?n = Fin m"
    using row_max_finite [OF zero_less_numeral ok i(1)] i by auto
  let ?s = "\<Sum>y\<leftarrow>xs. weight_of y"
  have sum: "(\<Sum>c<?n. weight_of (?row c)) = ?s"
    by (simp add: sum_list_sum_nth atLeast0LessThan)
  have nonneg: "0 \<le> weight_of y" for y by (cases y) auto
  have "weight_of (Fin v) \<le> ?s" using assms(2) nonneg by (intro member_le_sum_list) force+
  then have pos: "0 < ?s" using less_le_trans [OF exp_gt_zero] by simp
  have "ln (?s * exp (- m)) = ln ?s - m" using pos by (simp add: ln_mult)
  moreover have "0 < ?s * exp (- m)" using pos by simp
  moreover have "xs ! c \<noteq> NaN" using assms(1,3) by (metis nth_mem)
  moreover have z: "f_num xreal_ops 0 = Fin 0" by simp
  moreover have "row_sum_exp xreal_ops ?row (Fin m) 1024 ?n = Fin (?s * exp (- m))"
    using row_sum_exp_real [OF ok, of m] by (simp only: sum)
  ultimately show ?thesis
    unfolding log_softmax_row_def Let_def z m using assms(3)
    by (cases "xs ! c") (simp_all add: log_prob_def)
qed

text \<open>
  C29. Over the reals, log-softmax is the logarithm of the softmax, row by row: an entry \<open>v\<close> becomes
  \<open>v - ln (sum of exp)\<close>, and a masked entry stays masked, as soon as one entry of the row is not masked.
\<close>

theorem log_softmax_correct:
  assumes "log_softmax xreal_ops (\<lambda>_ v. v) schedule x axis = Ok y" "\<forall>n. set (schedule n) = {..<n}"
    and "tshape x \<noteq> []" "length (tdata x) = numel (tshape x)" "r < numel (butlast (tshape x))"
    and "NaN \<notin> set (row_of (last (tshape x)) (tdata x) r)" "Fin v \<in> set (row_of (last (tshape x)) (tdata x) r)"
  shows "row_of (last (tshape x)) (tdata y) r =
    map (log_prob (row_of (last (tshape x)) (tdata x) r)) (row_of (last (tshape x)) (tdata x) r)"
proof -
  let ?n = "last (tshape x)"
  let ?xs = "row_of ?n (tdata x) r"
  have len: "length ?xs = ?n" using length_row_of [OF assms(5) row_shape [OF assms(3,4)]] .
  have "row_of ?n (tdata y) r = map (log_softmax_row xreal_ops (\<lambda>v. v) ?xs) [0..<?n]"
    using log_softmax_output_row [OF assms(1-5)] .
  also have "\<dots> = map (\<lambda>c. log_prob ?xs (?xs ! c)) [0..<?n]"
    using log_softmax_row_real [OF assms(6,7)] len by simp
  also have "\<dots> = map (log_prob ?xs) ?xs"
    by (rule nth_equalityI) (simp_all add: len)
  finally show ?thesis .
qed

theorem log_softmax_correct_witness:
  "\<exists>y. log_softmax xreal_ops (\<lambda>_ v. v) (\<lambda>n. [0..<n]) \<lparr>tshape = [1, 3], tdtype = (), tdata = [Fin 0, NegInf, Fin 0]\<rparr> 1 = Ok y \<and>
    row_of 3 (tdata y) 0 = [Fin (- ln 2), NegInf, Fin (- ln 2)]"
proof -
  let ?x = "\<lparr>tshape = [1, 3], tdtype = (), tdata = [Fin 0, NegInf, Fin 0]\<rparr>"
  obtain y where y: "log_softmax xreal_ops (\<lambda>_ v. v) (\<lambda>n. [0..<n]) ?x 1 = Ok y"
    by (simp add: log_softmax_def Let_def split_def)
  have "row_of (last (tshape ?x)) (tdata y) 0 = map (log_prob (row_of (last (tshape ?x)) (tdata ?x) 0)) (row_of (last (tshape ?x)) (tdata ?x) 0)"
    by (rule log_softmax_correct [OF y, where v = 0]) (simp_all add: numel_def row_of_def atLeast0LessThan)
  then have "row_of 3 (tdata y) 0 = [Fin (- ln 2), NegInf, Fin (- ln 2)]"
    by (simp add: row_of_def log_prob_def)
  with y show ?thesis by blast
qed

section \<open>The derivative of the RMS norm\<close>

text \<open>
  The backward pass, row by row, in exact arithmetic: \<open>weight\<close> is shared, \<open>rows\<close> and \<open>grads\<close> are the rows
  of the saved input and of the incoming gradient. It returns the gradients of the input and of the weight.
\<close>

definition mean_of :: "real list \<Rightarrow> real" where
  "mean_of xs = sum_list xs / real (length xs)"

definition inv_rms :: "real \<Rightarrow> real list \<Rightarrow> real" where
  "inv_rms eps xs = 1 / sqrt (mean_of (map (\<lambda>v. v ^ 2) xs) + eps)"

definition rms_backward_row :: "real \<Rightarrow> real list \<Rightarrow> real list \<Rightarrow> real list \<Rightarrow> real list" where
  "rms_backward_row eps weight xs grad =
     (let ir = inv_rms eps xs; normed = map (\<lambda>v. v * ir) xs; d = map2 (*) grad weight; m = mean_of (map2 (*) d normed)
      in map2 (\<lambda>d nx. ir * (d - nx * m)) d normed)"

definition rms_norm_backward :: "real \<Rightarrow> real list \<Rightarrow> real list list \<Rightarrow> real list list \<Rightarrow> real list list \<times> real list" where
  "rms_norm_backward eps weight rows grads =
     (map2 (rms_backward_row eps weight) rows grads,
      map (\<lambda>j. sum_list (map2 (\<lambda>xs grad. grad ! j * (xs ! j * inv_rms eps xs)) rows grads)) [0..<length weight])"

text \<open>The forward function in the same arithmetic.\<close>

definition rms_norm_real :: "real \<Rightarrow> real list \<Rightarrow> real list \<Rightarrow> real list" where
  "rms_norm_real eps weight xs = map2 (\<lambda>v w. v * inv_rms eps xs * w) xs weight"

lemma rms_norm_row_real:
  assumes "length weight = length xs" "c < length xs" "0 < eps"
  shows "rms_norm_row xreal_ops (\<lambda>v. v) (\<lambda>v. v) (map Fin weight) (Fin eps) (map Fin xs) c = Fin (rms_norm_real eps weight xs ! c)"
proof -
  let ?n = "length xs"
  have e: "(if c < ?n then f_mul xreal_ops (if c < ?n then map Fin xs ! c else f_num xreal_ops 0)
        (if c < ?n then map Fin xs ! c else f_num xreal_ops 0) else f_num xreal_ops 0) =
      (if c < ?n then Fin (xs ! c * xs ! c) else Fin 0)" for c
    by simp
  have sq: "(\<Sum>c<?n. xs ! c * xs ! c) = sum_list (map (\<lambda>v. v ^ 2) xs)"
    by (simp add: sum_list_sum_nth atLeast0LessThan power2_eq_square)
  have "0 \<le> mean_of (map (\<lambda>v. v ^ 2) xs)" unfolding mean_of_def by (intro divide_nonneg_nonneg sum_list_nonneg) auto
  then have pos: "0 < mean_of (map (\<lambda>v. v ^ 2) xs) + eps" using assms(3) by simp
  have n: "?n \<noteq> 0" using assms(2) by auto
  show ?thesis
    unfolding rms_norm_row_def length_map Let_def e
    using x_row_sum [of 1024 ?n "\<lambda>c. xs ! c * xs ! c"] assms(1,2) pos n
    by (simp add: Let_def sq masked_load_def mem_of_def rms_norm_real_def inv_rms_def mean_of_def)
qed

lemma sum_list_update_sq:
  fixes xs :: "real list"
  assumes "j < length xs"
  shows "(\<Sum>v\<leftarrow>xs[j := t]. v ^ 2) = t ^ 2 + (\<Sum>i\<in>{..<length xs} - {j}. (xs ! i) ^ 2)"
proof -
  have "(\<Sum>v\<leftarrow>xs[j := t]. v ^ 2) = (\<Sum>i<length xs. (xs[j := t] ! i) ^ 2)" by (simp add: sum_list_sum_nth atLeast0LessThan)
  also have "\<dots> = (xs[j := t] ! j) ^ 2 + (\<Sum>i\<in>{..<length xs} - {j}. (xs[j := t] ! i) ^ 2)"
    using assms by (intro sum.remove) auto
  finally show ?thesis using assms by (simp add: nth_list_update)
qed

lemma dot_update:
  fixes d xs :: "real list"
  assumes "j < length xs" "length d = length xs"
  shows "(\<Sum>i<length xs. d ! i * xs[j := t] ! i) = d ! j * t + (\<Sum>i\<in>{..<length xs} - {j}. d ! i * xs ! i)"
proof -
  have "(\<Sum>i<length xs. d ! i * xs[j := t] ! i) = d ! j * xs[j := t] ! j + (\<Sum>i\<in>{..<length xs} - {j}. d ! i * xs[j := t] ! i)"
    using assms by (intro sum.remove) auto
  then show ?thesis using assms by (simp add: nth_list_update)
qed

text \<open>The quotient whose derivative the source works out in its comment.\<close>

lemma quotient_derivative:
  fixes a b c e n t :: real
  assumes "0 < n" "0 < (t ^ 2 + c) / n + e"
  defines "ir \<equiv> 1 / sqrt ((t ^ 2 + c) / n + e)"
  shows "((\<lambda>t. (a * t + b) * (1 / sqrt ((t ^ 2 + c) / n + e))) has_real_derivative
    ir * (a - t * ir * ((a * t + b) * ir / n))) (at t)"
proof -
  let ?q = "(t ^ 2 + c) / n + e"
  have alg: "a * (1 / s) + (a * t + b) * (- (2 * t / n * (inverse s / 2)) / (s * s)) =
      1 / s * (a - t * (1 / s) * ((a * t + b) * (1 / s) / n))" if "s \<noteq> 0" for s
    using that assms(1) by (simp add: field_simps)
  let ?sq = "\<lambda>t. sqrt ((t ^ 2 + c) / n + e)"
  have "((\<lambda>t. (t ^ 2 + c) / n + e) has_real_derivative 2 * t / n) (at t)"
    using assms(1) by (auto intro!: derivative_eq_intros)
  from DERIV_chain2 [OF DERIV_real_sqrt [OF assms(2)] this]
  have sq: "(?sq has_real_derivative inverse (?sq t) / 2 * (2 * t / n)) (at t)" .
  have nz: "?sq t \<noteq> 0" using assms(2) by simp
  have "((\<lambda>t. 1 / ?sq t) has_real_derivative (0 * ?sq t - 1 * (inverse (?sq t) / 2 * (2 * t / n))) / (?sq t * ?sq t)) (at t)"
    by (rule DERIV_divide [OF DERIV_const sq nz])
  moreover have "((\<lambda>t. a * t + b) has_real_derivative a) (at t)" by (auto intro!: derivative_eq_intros)
  ultimately have "((\<lambda>t. (a * t + b) * (1 / ?sq t)) has_real_derivative
      a * (1 / ?sq t) + (0 * ?sq t - 1 * (inverse (?sq t) / 2 * (2 * t / n))) / (?sq t * ?sq t) * (a * t + b)) (at t)"
    by (intro DERIV_mult)
  moreover have "a * (1 / ?sq t) + (0 * ?sq t - 1 * (inverse (?sq t) / 2 * (2 * t / n))) / (?sq t * ?sq t) * (a * t + b) =
      a * (1 / ?sq t) + (a * t + b) * (- (2 * t / n * (inverse (?sq t) / 2)) / (?sq t * ?sq t))"
    using assms(1) by simp
  moreover have "a * (1 / sqrt ?q) + (a * t + b) * (- (2 * t / n * (inverse (sqrt ?q) / 2)) / (sqrt ?q * sqrt ?q)) =
      ir * (a - t * ir * ((a * t + b) * ir / n))"
    unfolding ir_def using assms(2) by (intro alg) simp
  ultimately show ?thesis by (simp only:)
qed

lemma rms_input_derivative:
  assumes "0 < eps" "length xs = length weight" "length grad = length weight" "j < length weight"
  shows "((\<lambda>t. \<Sum>i<length weight. grad ! i * rms_norm_real eps weight (xs[j := t]) ! i) has_real_derivative
    rms_backward_row eps weight xs grad ! j) (at (xs ! j))"
proof -
  let ?n = "length weight" and ?d = "map2 (*) grad weight"
  define c where "c = (\<Sum>i\<in>{..<length xs} - {j}. (xs ! i) ^ 2)"
  define b where "b = (\<Sum>i\<in>{..<length xs} - {j}. ?d ! i * xs ! i)"
  have ms: "mean_of (map (\<lambda>v. v ^ 2) (xs[j := t])) = (t ^ 2 + c) / real ?n" for t
    using sum_list_update_sq [of j xs t] assms(2,4) by (simp add: mean_of_def c_def)
  have dot: "(\<Sum>i<length xs. ?d ! i * xs[j := t] ! i) = ?d ! j * t + b" for t
    unfolding b_def using assms by (intro dot_update) simp_all
  have loss: "(\<Sum>i<?n. grad ! i * rms_norm_real eps weight (xs[j := t]) ! i) =
      (?d ! j * t + b) * (1 / sqrt ((t ^ 2 + c) / real ?n + eps))" for t
  proof -
    have "(\<Sum>i<?n. grad ! i * rms_norm_real eps weight (xs[j := t]) ! i) =
        (\<Sum>i<?n. ?d ! i * xs[j := t] ! i * inv_rms eps (xs[j := t]))"
      using assms by (intro sum.cong) (simp_all add: rms_norm_real_def)
    also have "\<dots> = (\<Sum>i<?n. ?d ! i * xs[j := t] ! i) * inv_rms eps (xs[j := t])" by (simp only: sum_distrib_right)
    finally show ?thesis using dot [of t] assms(2) by (simp only: inv_rms_def ms)
  qed
  have n: "0 < real ?n" using assms(4) by (cases weight) simp_all
  have "0 \<le> c" unfolding c_def by (intro sum_nonneg) simp
  then have "0 \<le> ((xs ! j) ^ 2 + c) / real ?n" using n by simp
  then have pos: "0 < ((xs ! j) ^ 2 + c) / real ?n + eps" using assms(1) by linarith
  have inv: "inv_rms eps xs = 1 / sqrt (((xs ! j) ^ 2 + c) / real ?n + eps)"
    using ms [of "xs ! j"] assms(2,4) by (simp add: inv_rms_def)
  have m: "mean_of (map2 (*) ?d (map (\<lambda>v. v * inv_rms eps xs) xs)) = (?d ! j * xs ! j + b) * inv_rms eps xs / real ?n"
  proof -
    have "sum_list (map2 (*) ?d (map (\<lambda>v. v * inv_rms eps xs) xs)) = (\<Sum>i<length xs. ?d ! i * xs ! i * inv_rms eps xs)"
      using assms by (simp add: sum_list_sum_nth atLeast0LessThan mult.assoc)
    also have "\<dots> = (\<Sum>i<length xs. ?d ! i * xs[j := xs ! j] ! i) * inv_rms eps xs" by (simp add: sum_distrib_right)
    finally show ?thesis unfolding dot mean_of_def using assms(2,3) by simp
  qed
  have "rms_backward_row eps weight xs grad ! j =
      inv_rms eps xs * (?d ! j - xs ! j * inv_rms eps xs * ((?d ! j * xs ! j + b) * inv_rms eps xs / real ?n))"
    using assms by (simp add: rms_backward_row_def Let_def m)
  then show ?thesis
    unfolding loss inv using quotient_derivative [OF n pos, of "?d ! j" b] by (simp only:)
qed

lemma rms_weight_derivative:
  assumes "\<forall>xs \<in> set rows. length xs = length weight" "length grads = length rows" "j < length weight"
  shows "((\<lambda>t. \<Sum>r<length rows. \<Sum>i<length weight. grads ! r ! i * rms_norm_real eps (weight[j := t]) (rows ! r) ! i) has_real_derivative
    snd (rms_norm_backward eps weight rows grads) ! j) (at (weight ! j))"
proof -
  let ?g = "\<lambda>r. grads ! r ! j * (rows ! r ! j * inv_rms eps (rows ! r))"
  have row: "((\<lambda>t. \<Sum>i<length weight. grads ! r ! i * rms_norm_real eps (weight[j := t]) (rows ! r) ! i) has_real_derivative ?g r) (at w)"
    if "r < length rows" for r w
  proof -
    let ?d = "map (\<lambda>i. grads ! r ! i * (rows ! r ! i * inv_rms eps (rows ! r))) [0..<length weight]"
    have len: "length (rows ! r) = length weight" using that assms(1) by simp
    have "(\<Sum>i<length weight. grads ! r ! i * rms_norm_real eps (weight[j := t]) (rows ! r) ! i) =
        ?d ! j * t + (\<Sum>i\<in>{..<length weight} - {j}. ?d ! i * weight ! i)" for t
    proof -
      have "(\<Sum>i<length weight. grads ! r ! i * rms_norm_real eps (weight[j := t]) (rows ! r) ! i) =
          (\<Sum>i<length weight. ?d ! i * weight[j := t] ! i)"
        using len by (intro sum.cong) (simp_all add: rms_norm_real_def)
      then show ?thesis using dot_update [of j weight ?d t] assms(3) by simp
    qed
    then show ?thesis using assms(3) by (auto intro!: derivative_eq_intros)
  qed
  have "snd (rms_norm_backward eps weight rows grads) ! j = (\<Sum>r<length rows. ?g r)"
    using assms(2,3) by (simp add: rms_norm_backward_def sum_list_sum_nth atLeast0LessThan)
  then show ?thesis using row by (auto intro!: DERIV_sum)
qed

text \<open>
  C30. The backward pass of the RMS norm is right: for every row and column, the gradient that it returns
  for the input is the derivative of the loss \<open>sum of grad * output\<close> in that entry, and the gradient for
  the weight is its derivative in that weight, summed over all rows.
\<close>

theorem rms_backward_is_derivative:
  assumes "0 < eps" "\<forall>xs \<in> set rows. length xs = length weight" "\<forall>g \<in> set grads. length g = length weight"
    and "length grads = length rows" "j < length weight" "r < length rows"
  shows "((\<lambda>t. \<Sum>i<length weight. grads ! r ! i * rms_norm_real eps weight ((rows ! r)[j := t]) ! i) has_real_derivative
      fst (rms_norm_backward eps weight rows grads) ! r ! j) (at (rows ! r ! j)) \<and>
    ((\<lambda>t. \<Sum>r<length rows. \<Sum>i<length weight. grads ! r ! i * rms_norm_real eps (weight[j := t]) (rows ! r) ! i) has_real_derivative
      snd (rms_norm_backward eps weight rows grads) ! j) (at (weight ! j))"
proof
  have "length (rows ! r) = length weight" "length (grads ! r) = length weight" using assms by simp_all
  from rms_input_derivative [OF assms(1) this assms(5)]
  show "((\<lambda>t. \<Sum>i<length weight. grads ! r ! i * rms_norm_real eps weight ((rows ! r)[j := t]) ! i) has_real_derivative
      fst (rms_norm_backward eps weight rows grads) ! r ! j) (at (rows ! r ! j))"
    using assms(4,6) by (simp add: rms_norm_backward_def)
qed (rule rms_weight_derivative [OF assms(2,4,5)])

theorem rms_backward_is_derivative_witness:
  "((\<lambda>t. \<Sum>i<(1::nat). [[3]] ! 0 ! i * rms_norm_real 1 [2] (([[5]] ! 0)[0 := t]) ! i) has_real_derivative
    fst (rms_norm_backward 1 [2] [[5]] [[3]]) ! 0 ! 0) (at (5::real))"
  using rms_backward_is_derivative [of 1 "[[5]]" "[2]" "[[3]]" 0 0] by simp

section \<open>The mean\<close>

lemma mem_of_int: "p < length xs \<Longrightarrow> mem_of z xs (int p) = xs ! p"
  by (simp add: mem_of_def)

lemma numel_split:
  "d < length sh \<Longrightarrow> numel sh = numel (take d sh) * (sh ! d * numel (drop (Suc d) sh))"
  using id_take_nth_drop [of d sh] unfolding numel_def by (metis prod_list.append prod_list.Cons)

lemma digits_less:
  fixes m M a A :: nat
  assumes "m < M" "a < A"
  shows "m * A + a < M * A"
proof -
  have "Suc m * A \<le> M * A" using assms(1) by (intro mult_le_mono1) simp
  then show ?thesis using assms(2) by simp
qed

lemma mean_kernel_real:
  assumes "length vs = M * (N * K)" "pid < M * K" "0 < N"
  shows "mean_kernel xreal_ops (\<lambda>v. v) (mem_of (Fin 0) (map Fin vs)) (int (N * K)) (int K) 1 (int K) 1 M N K 1024 pid =
    [(int pid, Fin ((\<Sum>n<N. vs ! (pid div K * (N * K) + (n * K + pid mod K))) / real N))]"
proof -
  have K: "0 < K" using assms(2) by (cases K) auto
  have m: "pid div K < M" using assms(2) by (simp add: less_mult_imp_div_less)
  have k: "pid mod K < K" using K by simp
  have idx: "pid div K * (N * K) + (n * K + pid mod K) < length vs" if "n < N" for n
    unfolding assms(1) by (intro digits_less m that k)
  have load: "masked_load (mem_of (Fin 0) (map Fin vs)) (int (pid div K) * int (N * K) + int (pid mod K) * 1) (int K) N (Fin 0) n =
      (if n < N then Fin (vs ! (pid div K * (N * K) + (n * K + pid mod K))) else Fin 0)" for n
  proof -
    have a: "int (pid div K) * int (N * K) + int (pid mod K) * 1 + int n * int K = int (pid div K * (N * K) + (n * K + pid mod K))"
      by simp
    show ?thesis unfolding masked_load_def a using idx [of n] by (simp add: mem_of_int del: of_nat_add of_nat_mult)
  qed
  have addr: "int (pid div K) * int K + int (pid mod K) * 1 = int pid"
    using div_mult_mod_eq [of pid K] by (metis mult.right_neutral of_nat_add of_nat_mult)
  have guard: "(M \<le> pid div K \<or> K \<le> pid mod K) = False" using m k by simp
  have z: "f_num xreal_ops 0 = Fin 0" by simp
  show ?thesis
    unfolding mean_kernel_def Let_def guard if_False addr z load
    using x_row_sum [of 1024 N "\<lambda>n. vs ! (pid div K * (N * K) + (n * K + pid mod K))"] assms(3) by simp
qed

text \<open>
  Over the reals, \<open>mean_dim\<close> averages over exactly the chosen dimension, counted from the end when it is
  negative: entry \<open>(m, k)\<close> of the result is the mean of the entries \<open>(m, n, k)\<close>, and the result has the
  shape of the input with that dimension removed, or of size one.
\<close>

theorem mean_dim_correct:
  assumes "\<forall>n. set (schedule n) = {..<n}" "- int (length (tshape x)) \<le> axis" "axis < int (length (tshape x))"
    and "d = nat (axis mod int (length (tshape x)))" "tdata x = map Fin vs" "length vs = numel (tshape x)"
    and "N = tshape x ! d" "0 < N" "K = numel (drop (Suc d) (tshape x))" "m < numel (take d (tshape x))" "k < K"
  shows "\<exists>y. mean_dim xreal_ops (\<lambda>_ v. v) schedule True x axis keepdim dtype = Ok y \<and>
    tdata y ! (m * K + k) = Fin ((\<Sum>n<N. vs ! (m * (N * K) + (n * K + k))) / real N) \<and>
    tshape y = (if keepdim then (tshape x)[d := 1] else take d (tshape x) @ drop (Suc d) (tshape x))"
proof -
  let ?nd = "int (length (tshape x))" and ?M = "numel (take d (tshape x))"
  have d0: "nat (if axis < 0 then axis + ?nd else axis) = d"
  proof (cases "axis < 0")
    case True
    have "axis mod ?nd = (axis + ?nd) mod ?nd" by simp
    also have "\<dots> = axis + ?nd" using True assms(2) by (intro mod_pos_pos_trivial) simp_all
    finally show ?thesis using True assms(4) by simp
  next
    case False
    then show ?thesis using assms(3,4) by simp
  qed
  have d: "d < length (tshape x)" using d0 assms(2,3) by (auto split: if_splits)
  have len: "length vs = ?M * (N * K)" using numel_split [OF d] assms(6,7,9) by simp
  let ?f = "mean_kernel xreal_ops (\<lambda>v. v) (mem_of (Fin 0) (map Fin vs)) (int (N * K)) (int K) 1 (int K) 1 ?M N K 1024"
  let ?out = "\<lambda>pid (c :: nat). Fin ((\<Sum>n<N. vs ! (pid div K * (N * K) + (n * K + pid mod K))) / real N)"
  have program: "?f r = map (\<lambda>c. (int r * int 1 + int c, ?out r c)) [0..<1]" if "r < ?M * K" for r
    using mean_kernel_real [OF len that assms(8)] by simp
  have cell: "m * K + k < ?M * K" by (rule digits_less [OF assms(10,11)])
  have ord: "set (schedule (?M * K)) = {..<?M * K}" using assms(1) by simp
  have "read_back (?M * K) (apply_stores (concat (map ?f (schedule (?M * K)))) (\<lambda>_. Fin 0)) ! (m * K + k) = ?out (m * K + k) 0"
    using row_stores_read [where n = 1 and c = 0 and program = ?f and out = ?out, OF ord cell _ program] by simp
  then have val: "read_back (?M * K) (apply_stores (concat (map ?f (schedule (?M * K)))) (\<lambda>_. Fin 0)) ! (m * K + k) =
      Fin ((\<Sum>n<N. vs ! (m * (N * K) + (n * K + k))) / real N)"
    using mult_add_div [OF assms(11), of m] mult_add_mod [OF assms(11), of m] by simp
  have z: "f_num xreal_ops 0 = Fin 0" by simp
  show ?thesis
    unfolding mean_dim_def Let_def d0 z assms(5) assms(7) [symmetric] assms(9) [symmetric] using assms(2,3) val by simp
qed

theorem mean_dim_correct_witness:
  "\<exists>y. mean_dim xreal_ops (\<lambda>_ v. v) (\<lambda>n. [0..<n]) True
      \<lparr>tshape = [2, 2], tdtype = MFloat32, tdata = map Fin [1, 2, 3, 6]\<rparr> (-1) False None = Ok y \<and> tdata y ! 1 = Fin (9 / 2) \<and> tshape y = [2]"
  using mean_dim_correct [of "\<lambda>n. [0..<n]" "\<lparr>tshape = [2, 2], tdtype = MFloat32, tdata = map Fin [1, 2, 3, 6]\<rparr>" "-1" 1 "[1, 2, 3, 6]" 2 1 1 0 False None]
  by (simp add: numel_def atLeast0LessThan lessThan_Suc eval_nat_numeral)

end
