(* ===== verification/Invariant_Mode.thy ===== *)
theory Invariant_Mode
  imports Prelude
begin

text \<open>
  The batch-invariant mode of \<open>src/vexact/batch_invariant_ops/batch_invariant_ops.py\<close>: the two module
  globals, \<open>enable_batch_invariant_mode\<close>, \<open>disable_batch_invariant_mode\<close> and the context manager
  \<open>set_batch_invariant_mode\<close>.

  \<open>torch.library\<close> is seen through the calls it receives, kept as a trace; an override is in force when
  its library was told to implement it and has not been destroyed since.
\<close>

section \<open>State\<close>

datatype aten_op = Mm | Addmm | LogSoftmax | MeanDim

datatype library_call = Library nat | Impl nat aten_op | Destroy nat

record mode_state =
  batch_mode :: bool
  batch_lib :: "nat option"
  calls :: "library_call list"
  workspace_config :: "string option"
  reduced_bf16 :: bool
  reduced_fp16 :: bool
  deterministic :: bool
  cudnn_deterministic :: bool

definition libraries :: "library_call list \<Rightarrow> nat" where
  "libraries cs = length (filter (\<lambda>c. case c of Library _ \<Rightarrow> True | _ \<Rightarrow> False) cs)"

fun in_force :: "library_call list \<Rightarrow> nat \<Rightarrow> aten_op \<Rightarrow> bool" where
  "in_force cs l a = (Impl l a \<in> set cs \<and> Destroy l \<notin> set cs)"

definition overridden :: "mode_state \<Rightarrow> aten_op \<Rightarrow> bool" where
  "overridden s a \<longleftrightarrow> (\<exists>l < libraries (calls s). in_force (calls s) l a)"

section \<open>Operations\<close>

definition is_batch_invariant_mode_enabled :: "mode_state \<Rightarrow> bool" where
  "is_batch_invariant_mode_enabled s = batch_mode s"

definition enable_batch_invariant_mode :: "mode_state \<Rightarrow> mode_state" where
  "enable_batch_invariant_mode s =
     (if batch_mode s then s
      else let l = libraries (calls s)
           in s\<lparr>batch_mode := True, batch_lib := Some l,
                calls := calls s @ [Library l, Impl l Mm, Impl l Addmm, Impl l LogSoftmax, Impl l MeanDim],
                workspace_config := (case workspace_config s of None \<Rightarrow> Some '':16:8'' | Some v \<Rightarrow> Some v),
                reduced_bf16 := False, reduced_fp16 := False, deterministic := True, cudnn_deterministic := True\<rparr>)"

definition destroy_lib :: "mode_state \<Rightarrow> mode_state" where
  "destroy_lib s = (case batch_lib s of None \<Rightarrow> s | Some l \<Rightarrow> s\<lparr>calls := calls s @ [Destroy l]\<rparr>)"

definition disable_batch_invariant_mode :: "mode_state \<Rightarrow> mode_state" where
  "disable_batch_invariant_mode s = (destroy_lib s)\<lparr>batch_mode := False, batch_lib := None\<rparr>"

text \<open>
  \<open>with set_batch_invariant_mode(enabled): body\<close>. The generator has no \<open>try\<close>, so that an exception of the
  body leaves it at its \<open>yield\<close> and nothing after it runs.
\<close>

definition set_batch_invariant_mode :: "bool \<Rightarrow> (mode_state \<Rightarrow> mode_state \<times> 'a res) \<Rightarrow> mode_state \<Rightarrow> mode_state \<times> 'a res" where
  "set_batch_invariant_mode enabled body s =
     (let old = (batch_mode s, batch_lib s);
          (s', r) = body (if enabled then enable_batch_invariant_mode s else disable_batch_invariant_mode s)
      in case r of
           Ok x \<Rightarrow> ((destroy_lib s')\<lparr>batch_mode := fst old, batch_lib := snd old\<rparr>, Ok x)
         | _ \<Rightarrow> (s', r))"

section \<open>The mode and the overrides agree\<close>

text \<open>
  Libraries are numbered in the order of their creation; every library but the current one is destroyed.
\<close>

definition mode_ok :: "mode_state \<Rightarrow> bool" where
  "mode_ok s \<longleftrightarrow> (batch_mode s \<longleftrightarrow> batch_lib s \<noteq> None) \<and>
     (\<forall>l. Destroy l \<in> set (calls s) \<longrightarrow> l < libraries (calls s)) \<and>
     (case batch_lib s of
        None \<Rightarrow> \<forall>l < libraries (calls s). Destroy l \<in> set (calls s)
      | Some c \<Rightarrow> c < libraries (calls s) \<and> Destroy c \<notin> set (calls s) \<and> (\<forall>a. Impl c a \<in> set (calls s)) \<and>
          (\<forall>l < libraries (calls s). l \<noteq> c \<longrightarrow> Destroy l \<in> set (calls s)))"

lemma libraries_simps [simp]:
  "libraries [] = 0" "libraries (cs @ cs') = libraries cs + libraries cs'"
  "libraries (Library l # cs) = Suc (libraries cs)" "libraries (Impl l a # cs) = libraries cs" "libraries (Destroy l # cs) = libraries cs"
  by (simp_all add: libraries_def)

lemma mode_ok_overridden: "mode_ok s \<Longrightarrow> overridden s a \<longleftrightarrow> batch_mode s"
  unfolding mode_ok_def overridden_def by (cases "batch_lib s") auto

lemma enable_ok: "mode_ok s \<Longrightarrow> mode_ok (enable_batch_invariant_mode s)"
proof -
  assume ok: "mode_ok s"
  show ?thesis
  proof (cases "batch_mode s")
    case False
    then have "batch_lib s = None" using ok by (simp add: mode_ok_def)
    moreover have "a \<in> {Mm, Addmm, LogSoftmax, MeanDim}" for a by (cases a) simp_all
    ultimately show ?thesis
      using ok False by (auto simp: mode_ok_def enable_batch_invariant_mode_def Let_def less_Suc_eq)
  qed (use ok in \<open>simp add: enable_batch_invariant_mode_def\<close>)
qed

lemma destroyed_ok:
  assumes "mode_ok s"
  shows "mode_ok ((destroy_lib s)\<lparr>batch_mode := False, batch_lib := None\<rparr>)"
  using assms by (cases "batch_lib s") (auto simp: mode_ok_def destroy_lib_def)

lemma disable_ok: "mode_ok s \<Longrightarrow> mode_ok (disable_batch_invariant_mode s)"
  unfolding disable_batch_invariant_mode_def by (rule destroyed_ok)

datatype mode_op = Enable | Disable

primrec run_op :: "mode_op \<Rightarrow> mode_state \<Rightarrow> mode_state" where
  "run_op Enable s = enable_batch_invariant_mode s"
| "run_op Disable s = disable_batch_invariant_mode s"

lemma run_ok: "mode_ok s \<Longrightarrow> mode_ok (fold run_op ops s)"
proof (induction ops arbitrary: s)
  case (Cons op ops)
  then show ?case by (cases op) (simp_all add: enable_ok disable_ok)
qed simp

text \<open>
  After any sequence of enable and disable calls, the four kernels override PyTorch's operators
  exactly when the mode reads as enabled, and a \<open>with\<close> block entered with the mode off and left normally
  leaves no override behind, whatever its body enabled or disabled.
\<close>

theorem mode_matches_overrides:
  assumes "mode_ok s"
  shows "(overridden (fold run_op ops s) a \<longleftrightarrow> is_batch_invariant_mode_enabled (fold run_op ops s)) \<and>
    (\<not> is_batch_invariant_mode_enabled s \<longrightarrow>
      (\<exists>s'. set_batch_invariant_mode enabled (\<lambda>s. (fold run_op ops s, Ok x)) s = (s', Ok x) \<and>
        \<not> is_batch_invariant_mode_enabled s' \<and> \<not> overridden s' a))"
proof (intro conjI impI)
  show "overridden (fold run_op ops s) a \<longleftrightarrow> is_batch_invariant_mode_enabled (fold run_op ops s)"
    using mode_ok_overridden [OF run_ok [OF assms]] by (simp add: is_batch_invariant_mode_enabled_def)
  assume "\<not> is_batch_invariant_mode_enabled s"
  then have off: "batch_mode s = False" "batch_lib s = None"
    using assms by (auto simp: is_batch_invariant_mode_enabled_def mode_ok_def)
  let ?s = "fold run_op ops (if enabled then enable_batch_invariant_mode s else disable_batch_invariant_mode s)"
  have "mode_ok ?s" using assms by (intro run_ok) (simp add: enable_ok disable_ok)
  then have ok: "mode_ok ((destroy_lib ?s)\<lparr>batch_mode := False, batch_lib := None\<rparr>)" by (rule destroyed_ok)
  show "\<exists>s'. set_batch_invariant_mode enabled (\<lambda>s. (fold run_op ops s, Ok x)) s = (s', Ok x) \<and>
      \<not> is_batch_invariant_mode_enabled s' \<and> \<not> overridden s' a"
    using mode_ok_overridden [OF ok, of a] off
    by (simp add: set_batch_invariant_mode_def Let_def is_batch_invariant_mode_enabled_def)
qed

definition mode_init :: mode_state where
  "mode_init = \<lparr>batch_mode = False, batch_lib = None, calls = [], workspace_config = None, reduced_bf16 = True,
     reduced_fp16 = True, deterministic = False, cudnn_deterministic = False\<rparr>"

theorem mode_matches_overrides_witness:
  "overridden (fold run_op [Enable, Disable, Enable] mode_init) Mm \<and>
   (\<exists>s'. set_batch_invariant_mode True (\<lambda>s. (fold run_op [Disable, Enable] s, Ok ())) mode_init = (s', Ok ()) \<and> \<not> overridden s' Mm)"
proof -
  have init: "mode_ok mode_init" by (simp add: mode_ok_def mode_init_def)
  have "is_batch_invariant_mode_enabled (fold run_op [Enable, Disable, Enable] mode_init)" "\<not> is_batch_invariant_mode_enabled mode_init"
    by (simp_all add: mode_init_def is_batch_invariant_mode_enabled_def enable_batch_invariant_mode_def disable_batch_invariant_mode_def
      destroy_lib_def Let_def)
  then show ?thesis
    using mode_matches_overrides [OF init, of "[Enable, Disable, Enable]" Mm True "()"]
      mode_matches_overrides [OF init, of "[Disable, Enable]" Mm True "()"] by blast
qed

text \<open>
  A nested block is not transparent: leaving the inner one destroys the library of the outer one, and the
  mode then reads as enabled although no kernel is in force.
\<close>

lemma nested_mode_loses_kernels:
  "let s = enable_batch_invariant_mode mode_init;
       s' = fst (set_batch_invariant_mode True (\<lambda>s. (s, Ok ())) s)
   in overridden s Mm \<and> is_batch_invariant_mode_enabled s' \<and> \<not> overridden s' Mm"
  by (simp add: mode_init_def set_batch_invariant_mode_def is_batch_invariant_mode_enabled_def enable_batch_invariant_mode_def
      destroy_lib_def overridden_def Let_def)

text \<open>An exception in the body leaves the mode on.\<close>

lemma exception_leaves_mode_on:
  "is_batch_invariant_mode_enabled (fst (set_batch_invariant_mode True (\<lambda>s. (s, Raise ValueError :: unit res)) mode_init))"
  by (simp add: mode_init_def set_batch_invariant_mode_def is_batch_invariant_mode_enabled_def enable_batch_invariant_mode_def Let_def)

end
