(* ===== verification/Moe_Index.thy ===== *)
theory Moe_Index
  imports Row_Kernels
begin

text \<open>
  Routing of tokens to experts: the histogram kernel (\<open>src/vexact/batch_invariant_ops/group_gemm/kernel/moe.py\<close>)
  and the index arithmetic of the fused mixture of experts (\<open>src/vexact/batch_invariant_ops/fused_moe.py\<close>).

  An expert assignment \<open>[T, topk]\<close> is its flat list of expert numbers. The lemmas show that the scatter
  index is a permutation that puts the assignments in expert order, in segments bounded by the cumulative
  histogram.
\<close>

section \<open>Histogram\<close>

text \<open>Atomic additions commute: a launch adds up what its programs count.\<close>

definition next_power_of_2 :: "nat \<Rightarrow> nat" where
  "next_power_of_2 n = (if n \<le> 1 then 1 else hd (filter (\<lambda>p. n \<le> p) (map (\<lambda>k. 2 ^ k) [0..<Suc n])))"

definition histogram_block :: "nat list \<Rightarrow> nat \<Rightarrow> nat \<Rightarrow> nat \<Rightarrow> nat list" where
  "histogram_block xs pad bs pid = map (\<lambda>i. if i < length xs then xs ! i else pad - 1) [pid * bs..<pid * bs + bs]"

definition histogram_program :: "nat list \<Rightarrow> nat \<Rightarrow> nat \<Rightarrow> nat \<Rightarrow> nat \<Rightarrow> nat list \<Rightarrow> nat list res" where
  "histogram_program xs num_bins pad bs pid out =
     (let data = histogram_block xs pad bs pid
      in if \<not> (\<forall>d\<in>set data. d < num_bins \<or> d = pad - 1) then Raise RuntimeError
         else Ok (map (\<lambda>b. out ! b + count_list data b) [0..<num_bins]))"

definition expert_histogram :: "(nat \<Rightarrow> nat list) \<Rightarrow> nat list \<Rightarrow> nat \<Rightarrow> nat list res" where
  "expert_histogram schedule xs num_bins =
     (if \<not> length xs < 2 ^ 31 - 1 then Raise AssertionError
      else for_res (histogram_program xs num_bins (next_power_of_2 (num_bins + 1)) 1024)
             (schedule (cdiv (length xs) 1024)) (replicate num_bins 0))"

section \<open>Index arithmetic\<close>

text \<open>\<open>torch.argsort(stable=True)\<close>; on distinct values stability makes no difference.\<close>

definition argsort :: "nat list \<Rightarrow> nat list" where
  "argsort xs = sort_key (\<lambda>i. xs ! i) [0..<length xs]"

fun cumsum_from :: "nat \<Rightarrow> nat list \<Rightarrow> nat list" where
  "cumsum_from a [] = []"
| "cumsum_from a (x # xs) = (a + x) # cumsum_from (a + x) xs"

definition cumsum :: "nat list \<Rightarrow> nat list" where
  "cumsum = cumsum_from 0"

definition scatter_index :: "nat list \<Rightarrow> nat list" where
  "scatter_index experts = argsort (argsort experts)"

definition build_moe_indices ::
    "(nat \<Rightarrow> nat list) \<Rightarrow> nat list \<Rightarrow> nat \<Rightarrow> nat \<Rightarrow> (nat list \<times> nat list \<times> nat list) res" where
  "build_moe_indices schedule experts topk num_experts =
     (let sorted_order = argsort experts;
          scatter = argsort sorted_order;
          a_idx = map (\<lambda>j. j div topk) sorted_order
      in rbind (expert_histogram schedule experts num_experts) (\<lambda>splits.
         Ok (0 # cumsum splits, a_idx, scatter)))"

section \<open>The histogram counts\<close>

lemma next_power_of_2_ge: "n \<le> next_power_of_2 n"
proof (cases "n \<le> 1")
  case False
  let ?ps = "filter (\<lambda>p. n \<le> p) (map (\<lambda>k. 2 ^ k) [0..<Suc n])"
  have "(2::nat) ^ n \<in> set ?ps" by (auto simp: less_imp_le)
  then have "?ps \<noteq> []" by auto
  then have "hd ?ps \<in> set ?ps" by (rule hd_in_set)
  then show ?thesis using False by (auto simp: next_power_of_2_def)
qed (simp add: next_power_of_2_def)

lemma count_block:
  assumes "b < pad - 1"
  shows "count_list (histogram_block xs pad bs pid) b = length (filter (\<lambda>i. i < length xs \<and> xs ! i = b) [pid * bs..<pid * bs + bs])"
proof -
  have "count_list (map (\<lambda>i. if i < length xs then xs ! i else pad - 1) is) b = length (filter (\<lambda>i. i < length xs \<and> xs ! i = b) is)" for "is"
    using assms by (induction "is") auto
  then show ?thesis by (simp add: histogram_block_def)
qed

lemma count_positions: "count_list xs b = length (filter (\<lambda>i. xs ! i = b) [0..<length xs])"
proof (induction xs rule: rev_induct)
  case (snoc x xs)
  have "filter (\<lambda>i. (xs @ [x]) ! i = b) [0..<length xs] = filter (\<lambda>i. xs ! i = b) [0..<length xs]"
    by (rule filter_cong) (simp_all add: nth_append)
  then show ?case using snoc by simp
qed simp

lemma histogram_counts:
  assumes "\<forall>n. set (schedule n) = {..<n} \<and> distinct (schedule n)" "\<forall>x\<in>set xs. x < num_bins" "length xs < 2 ^ 31 - 1"
  shows "expert_histogram schedule xs num_bins = Ok (map (count_list xs) [0..<num_bins])"
proof -
  define pad where "pad = next_power_of_2 (num_bins + 1)"
  have pad: "num_bins \<le> pad - 1" using next_power_of_2_ge [of "num_bins + 1"] by (simp add: pad_def)
  let ?in = "\<lambda>pid b. length (filter (\<lambda>i. i < length xs \<and> xs ! i = b) [pid * 1024..<pid * 1024 + 1024])"
  have ok: "\<forall>d\<in>set (histogram_block xs pad 1024 pid). d < num_bins \<or> d = pad - 1" for pid
    using assms(2) by (auto simp: histogram_block_def)
  have step: "histogram_program xs num_bins pad 1024 pid out = Ok (map (\<lambda>b. out ! b + ?in pid b) [0..<num_bins])" for pid out
  proof -
    have "count_list (histogram_block xs pad 1024 pid) b = ?in pid b" if "b < num_bins" for b
      using that pad by (intro count_block) simp
    then show ?thesis using ok [of pid] by (simp add: histogram_program_def Let_def)
  qed
  have run: "for_res (histogram_program xs num_bins pad 1024) pids (map f [0..<num_bins]) =
      Ok (map (\<lambda>b. f b + sum_list (map (\<lambda>pid. ?in pid b) pids)) [0..<num_bins])" for pids f
  proof (induction pids arbitrary: f)
    case (Cons pid pids)
    have "histogram_program xs num_bins pad 1024 pid (map f [0..<num_bins]) = Ok (map (\<lambda>b. f b + ?in pid b) [0..<num_bins])"
      unfolding step by simp
    then show ?case using Cons [of "\<lambda>b. f b + ?in pid b"] by (simp only: for_res.simps rbind.simps list.map sum_list.Cons add.assoc)
  qed simp
  let ?k = "cdiv (length xs) 1024"
  have total: "sum_list (map (\<lambda>pid. ?in pid b) (schedule ?k)) = count_list xs b" for b
  proof -
    have "mset (schedule ?k) = mset [0..<?k]"
      using assms(1) by (intro set_eq_iff_mset_eq_distinct [THEN iffD1]) (simp_all add: atLeast0LessThan)
    then have "sum_mset (mset (map (\<lambda>pid. ?in pid b) (schedule ?k))) = sum_mset (mset (map (\<lambda>pid. ?in pid b) [0..<?k]))"
      by (simp only: mset_map)
    then have "sum_list (map (\<lambda>pid. ?in pid b) (schedule ?k)) = sum_list (map (\<lambda>pid. ?in pid b) [0..<?k])"
      by (simp only: sum_mset_sum_list)
    also have "\<dots> = length (filter (\<lambda>i. i < length xs \<and> xs ! i = b) (concat (map (\<lambda>t. [t * 1024..<t * 1024 + 1024]) [0..<?k])))"
      by (simp add: length_concat filter_concat o_def)
    also have "\<dots> = length (filter (\<lambda>i. xs ! i = b) (filter (\<lambda>i. i < length xs) [0..<?k * 1024]))"
      unfolding concat_blocks filter_filter by (rule arg_cong [where f = length], rule filter_cong) auto
    also have "\<dots> = count_list xs b"
      unfolding count_positions using filter_upt_less [OF cdiv_covers [of 1024 "length xs"]] by simp
    finally show ?thesis .
  qed
  have rep: "replicate num_bins 0 = map (\<lambda>_. 0) [0..<num_bins]" by (rule nth_equalityI) simp_all
  show ?thesis
    unfolding expert_histogram_def pad_def [symmetric] rep run total using assms(3) by simp
qed

section \<open>The scatter index is a permutation\<close>

lemma argsort_perm: "distinct (argsort xs)" "set (argsort xs) = {..<length xs}" "length (argsort xs) = length xs"
  by (simp_all add: argsort_def atLeast0LessThan)

lemma argsort_sorted: "sorted (map (\<lambda>i. xs ! i) (argsort xs))"
  by (simp add: argsort_def)

text \<open>Sorting the positions of a permutation by value inverts it.\<close>

lemma argsort_inverse:
  assumes "distinct p" "set p = {..<length p}"
  shows "i < length p \<Longrightarrow> p ! (argsort p ! i) = i" "i < length p \<Longrightarrow> argsort p ! (p ! i) = i"
proof -
  let ?q = "argsort p"
  have "set (map (\<lambda>i. p ! i) ?q) = set p"
    unfolding set_map argsort_perm(2) by (auto simp: set_conv_nth)
  moreover have "distinct (map (\<lambda>i. p ! i) ?q)"
    unfolding distinct_map using argsort_perm(1,2) [of p] inj_on_nth [OF assms(1), of "{..<length p}"] by simp
  ultimately have "map (\<lambda>i. p ! i) ?q = [0..<length p]"
    using argsort_sorted [of p] assms by (intro sorted_distinct_set_unique) (simp_all add: atLeast0LessThan)
  then have eq: "map (\<lambda>i. p ! i) ?q ! i = [0..<length p] ! i" for i by (rule arg_cong)
  have fwd: "p ! (?q ! i) = i" if "i < length p" for i
    using eq [of i] that argsort_perm(3) [of p] by simp
  then show "i < length p \<Longrightarrow> p ! (?q ! i) = i" .
  show "?q ! (p ! i) = i" if "i < length p"
  proof -
    have lt: "p ! i < length p" using that assms(2) nth_mem by blast
    then have "p ! (?q ! (p ! i)) = p ! i" by (rule fwd)
    moreover have "?q ! (p ! i) < length p" using argsort_perm(2,3) [of p] lt nth_mem [of "p ! i" ?q] by auto
    ultimately show ?thesis using that assms(1) by (simp add: nth_eq_iff_index_eq)
  qed
qed

lemma scatter_inverse:
  assumes "i < length xs"
  shows "argsort xs ! (scatter_index xs ! i) = i" "scatter_index xs ! (argsort xs ! i) = i"
    "scatter_index xs ! i < length xs"
  using argsort_inverse [of "argsort xs" i] argsort_perm [of xs] argsort_perm [of "argsort xs"] assms nth_mem
  by (auto simp: scatter_index_def)

lemma scatter_inj: "i < length xs \<Longrightarrow> j < length xs \<Longrightarrow> scatter_index xs ! i = scatter_index xs ! j \<Longrightarrow> i = j"
  using scatter_inverse(1) by metis

section \<open>Expert segments\<close>

lemma cumsum_from_nth: "i < length xs \<Longrightarrow> cumsum_from a xs ! i = a + sum_list (take (Suc i) xs)"
proof (induction xs arbitrary: a i)
  case (Cons x xs)
  then show ?case by (cases i) simp_all
qed simp

lemma length_cumsum_from [simp]: "length (cumsum_from a xs) = length xs"
  by (induction xs arbitrary: a) simp_all

definition below :: "nat list \<Rightarrow> nat \<Rightarrow> nat" where
  "below xs e = length (filter (\<lambda>x. x < e) xs)"

lemma below_Suc: "below xs (Suc e) = below xs e + count_list xs e"
  by (induction xs) (auto simp: below_def less_Suc_eq)

lemma below_mono: "e \<le> f \<Longrightarrow> below xs e \<le> below xs f"
  unfolding below_def by (induction xs) auto

lemma below_all: "\<forall>x\<in>set xs. x < n \<Longrightarrow> below xs n = length xs"
  unfolding below_def by (simp add: filter_True)

lemma cumsum_below:
  assumes "e \<le> n"
  shows "(0 # cumsum (map (count_list xs) [0..<n])) ! e = below xs e"
proof (cases e)
  case 0
  then show ?thesis by (simp add: below_def)
next
  case (Suc i)
  have "sum_list (take (Suc i) (map (count_list xs) [0..<n])) = below xs (Suc i)" if "Suc i \<le> n" for i
    using that
  proof (induction i)
    case 0
    then have "[0..<n] ! 0 = 0" "0 < n" by simp_all
    then show ?case by (simp add: take_Suc_conv_app_nth below_Suc) (simp add: below_def)
  next
    case (Suc i)
    then show ?case by (simp add: take_Suc_conv_app_nth [of "Suc i"] below_Suc)
  qed
  then show ?thesis using Suc assms by (simp add: cumsum_def cumsum_from_nth)
qed

text \<open>In a sorted list, the positions of the value \<open>e\<close> are those between the two counts.\<close>

lemma sorted_segment:
  assumes "sorted ys" "p < length ys"
  shows "ys ! p = e \<longleftrightarrow> below ys e \<le> p \<and> p < below ys (Suc e)"
proof -
  have lt: "p < below ys v \<longleftrightarrow> ys ! p < v" for v
    using assms
  proof (induction ys arbitrary: p)
    case (Cons y ys)
    show ?case
    proof (cases "y < v")
      case True
      then show ?thesis using Cons by (cases p) (auto simp: below_def)
    next
      case False
      then have "\<forall>x\<in>set (y # ys). \<not> x < v" using Cons.prems(1) by auto
      then have "below (y # ys) v = 0" by (simp add: below_def filter_empty_conv)
      moreover have "\<not> (y # ys) ! p < v" using \<open>\<forall>x\<in>set (y # ys). \<not> x < v\<close> Cons.prems(2) nth_mem by blast
      ultimately show ?thesis by simp
    qed
  qed simp
  show ?thesis using lt [of e] lt [of "Suc e"] by auto
qed

lemma below_argsort: "below (map (\<lambda>i. xs ! i) (argsort xs)) e = below xs e"
proof -
  have "mset (map (\<lambda>i. xs ! i) (argsort xs)) = mset (map (\<lambda>i. xs ! i) [0..<length xs])"
    by (simp add: argsort_def)
  then have "mset (map (\<lambda>i. xs ! i) (argsort xs)) = mset xs" by (simp add: map_nth)
  then have "mset (filter (\<lambda>x. x < e) (map (\<lambda>i. xs ! i) (argsort xs))) = mset (filter (\<lambda>x. x < e) xs)"
    by (simp only: mset_filter)
  then show ?thesis unfolding below_def by (rule mset_eq_length)
qed

lemma scatter_segment:
  assumes "i < length xs"
  shows "below xs (xs ! i) \<le> scatter_index xs ! i \<and> scatter_index xs ! i < below xs (Suc (xs ! i))"
proof -
  let ?ys = "map (\<lambda>i. xs ! i) (argsort xs)"
  let ?p = "scatter_index xs ! i"
  have p: "?p < length ?ys" using scatter_inverse(3) [OF assms] argsort_perm(3) [of xs] by simp
  have "?ys ! ?p = xs ! i" using scatter_inverse(1) [OF assms] p by simp
  then show ?thesis using sorted_segment [OF argsort_sorted p, of "xs ! i"] by (simp add: below_argsort)
qed

lemma position_segment:
  assumes "p < length xs" "below xs e \<le> p" "p < below xs (Suc e)"
  shows "xs ! (argsort xs ! p) = e"
proof -
  have "p < length (map (\<lambda>i. xs ! i) (argsort xs))" using assms(1) argsort_perm(3) [of xs] by simp
  from sorted_segment [OF argsort_sorted this, of e] show ?thesis
    using assms argsort_perm(3) [of xs] by (simp add: below_argsort)
qed

text \<open>
  C35. Routing loses and mixes nothing: for in-range expert numbers, the scatter index is a permutation of
  the \<open>T * topk\<close> rows; the row of the \<open>k\<close>-th choice of token \<open>t\<close> lies in the segment of its expert,
  bounded by two neighbouring entries of the cumulative histogram, which ends at \<open>T * topk\<close>; and the
  gather index names at that row the token \<open>t\<close>.
\<close>

theorem routing_is_a_permutation:
  assumes "\<forall>n. set (schedule n) = {..<n} \<and> distinct (schedule n)" "\<forall>x\<in>set experts. x < num_experts"
    and "length experts = T * topk" "T * topk < 2 ^ 31 - 1"
  shows "\<exists>cu a_idx scatter. build_moe_indices schedule experts topk num_experts = Ok (cu, a_idx, scatter) \<and>
    bij_betw (\<lambda>i. scatter ! i) {..<T * topk} {..<T * topk} \<and>
    (\<forall>t<T. \<forall>k<topk. let row = scatter ! (t * topk + k); e = experts ! (t * topk + k)
       in cu ! e \<le> row \<and> row < cu ! Suc e \<and> a_idx ! row = t) \<and>
    cu ! 0 = 0 \<and> cu ! num_experts = T * topk"
proof -
  let ?scatter = "scatter_index experts" and ?cu = "0 # cumsum (map (count_list experts) [0..<num_experts])"
  let ?a = "map (\<lambda>j. j div topk) (argsort experts)"
  have "build_moe_indices schedule experts topk num_experts = Ok (?cu, ?a, ?scatter)"
    using histogram_counts [OF assms(1,2)] assms(3,4)
    by (simp add: build_moe_indices_def Let_def scatter_index_def)
  moreover have "bij_betw (\<lambda>i. ?scatter ! i) {..<T * topk} {..<T * topk}"
    using scatter_inverse [of _ experts] argsort_perm [of experts] nth_mem assms(3)
    by (intro bij_betw_byWitness [where f' = "\<lambda>i. argsort experts ! i"]) fastforce+
  moreover have "let row = ?scatter ! (t * topk + k); e = experts ! (t * topk + k)
      in ?cu ! e \<le> row \<and> row < ?cu ! Suc e \<and> ?a ! row = t" if "t < T" "k < topk" for t k
  proof -
    let ?i = "t * topk + k"
    have "Suc t * topk \<le> T * topk" using that(1) by (intro mult_le_mono1) simp
    then have i: "?i < length experts" using that(2) assms(3) by simp
    then have e: "experts ! ?i < num_experts" using assms(2) by simp
    have "?a ! (?scatter ! ?i) = t"
      using scatter_inverse(1,3) [OF i] argsort_perm(3) [of experts] mult_add_div [OF that(2), of t] by simp
    moreover have "?cu ! (experts ! ?i) = below experts (experts ! ?i)" "?cu ! Suc (experts ! ?i) = below experts (Suc (experts ! ?i))"
      using e by (intro cumsum_below; simp)+
    ultimately show ?thesis using scatter_segment [OF i] by (simp only: Let_def)
  qed
  moreover have "?cu ! num_experts = T * topk"
    using cumsum_below [of num_experts num_experts experts] below_all [OF assms(2)] assms(3) by simp
  ultimately show ?thesis by (intro exI [of _ ?cu] exI [of _ ?a] exI [of _ ?scatter]) simp
qed

theorem routing_is_a_permutation_witness:
  "\<exists>cu a_idx scatter. build_moe_indices (\<lambda>n. rev [0..<n]) [2, 0, 0, 1] 2 3 = Ok (cu, a_idx, scatter) \<and> cu ! 3 = 4 \<and> a_idx ! (scatter ! 3) = 1"
proof -
  have "\<forall>n. set (rev [0..<n]) = {..<n} \<and> distinct (rev [0..<n])" by (simp add: atLeast0LessThan)
  note r = routing_is_a_permutation [OF this, of "[2, 0, 0, 1]" 3 2 2]
  obtain cu a_idx scatter where "build_moe_indices (\<lambda>n. rev [0..<n]) [2, 0, 0, 1] 2 3 = Ok (cu, a_idx, scatter)" "cu ! 3 = 4"
    "\<forall>t<2. \<forall>k<2. let row = scatter ! (t * 2 + k); e = [2, 0, 0, 1] ! (t * 2 + k) in cu ! e \<le> row \<and> row < cu ! Suc e \<and> a_idx ! row = t"
    using r by auto
  moreover from this(3) [rule_format, of 1 1] have "a_idx ! (scatter ! 3) = 1" by (simp add: Let_def)
  ultimately show ?thesis by blast
qed

end
