(* ===== verification/Moe_Kernels.thy ===== *)
theory Moe_Kernels
  imports Moe_Index
begin

text \<open>
  The kernels of the mixture of experts: scatter and gather of token rows
  (\<open>src/vexact/batch_invariant_ops/group_gemm/kernel/moe.py\<close>) and the grouped GEMM with one weight per expert
  (\<open>src/vexact/batch_invariant_ops/group_gemm/kernel/group_gemm.py\<close>), as the stores of their programs on
  contiguous row-major matrices.

  The device assertions on indices are compiled out unless debugging and are left out.
\<close>

section \<open>Scatter and gather\<close>

definition scatter_program :: "'f memory \<Rightarrow> nat list \<Rightarrow> nat \<Rightarrow> nat \<Rightarrow> nat \<Rightarrow> nat \<times> nat \<Rightarrow> 'f stores" where
  "scatter_program x index N topk bn pids =
     (let (pid_m, block_idx) = pids in
      concat (map (\<lambda>i. let o_index = index ! (pid_m * topk + i) in
        block_stores (int (o_index * N)) N (\<lambda>n. x (int (pid_m * N) + int n)) [block_idx * bn..<block_idx * bn + bn]) [0..<topk]))"

text \<open>
  \<open>moe_scatter\<close> of a matrix of \<open>M\<close> rows and \<open>N\<close> columns; the matrix is its flat list of elements. The
  check for holes tests a function object, which is always true, and so never fails.
\<close>

definition moe_scatter ::
    "'f \<Rightarrow> (nat \<Rightarrow> nat \<Rightarrow> (nat \<times> nat) list) \<Rightarrow> nat \<Rightarrow> nat \<Rightarrow> 'f list \<Rightarrow> nat \<Rightarrow> nat \<Rightarrow> nat list \<Rightarrow> 'f list res" where
  "moe_scatter z schedule M N x index_rows topk index =
     (if M \<noteq> index_rows then Raise AssertionError
      else Ok (read_back (M * topk * N)
        (apply_stores (concat (map (scatter_program (mem_of z x) index N topk 1024) (schedule M (cdiv N 1024)))) (\<lambda>_. z))))"

definition gather_program ::
    "'f float_ops \<Rightarrow> ('f \<Rightarrow> 'f) \<Rightarrow> 'f memory \<Rightarrow> nat list \<Rightarrow> nat \<Rightarrow> nat \<Rightarrow> nat \<Rightarrow> nat \<times> nat \<Rightarrow> 'f stores" where
  "gather_program fo to_out x index N topk bn pids =
     (let (pid_m, block_idx) = pids;
          y = (\<lambda>n. fold (\<lambda>i y. f_add fo y (if n < N then x (int (index ! (pid_m * topk + i) * N) + int n) else f_num fo 0))
                [0..<topk] (f_num fo 0))
      in block_stores (int (pid_m * N)) N (\<lambda>n. to_out (y n)) [block_idx * bn..<block_idx * bn + bn])"

definition moe_gather ::
    "'f float_ops \<Rightarrow> ('f \<Rightarrow> 'f) \<Rightarrow> (nat \<Rightarrow> nat \<Rightarrow> (nat \<times> nat) list) \<Rightarrow> nat \<Rightarrow> nat \<Rightarrow> 'f list \<Rightarrow> nat \<Rightarrow> nat \<Rightarrow> nat list \<Rightarrow> 'f list res" where
  "moe_gather fo to_out schedule rows N x M topk index =
     (if rows \<noteq> M * topk then Raise AssertionError
      else Ok (read_back (M * N)
        (apply_stores (concat (map (gather_program fo to_out (mem_of (f_num fo 0) x) index N topk 1024) (schedule M (cdiv N 1024))))
          (\<lambda>_. f_num fo 0))))"

text \<open>\<open>moe_add_gather\<close>: the same, of the sum of two matrices of the same shape.\<close>

definition add_gather_program ::
    "'f float_ops \<Rightarrow> ('f \<Rightarrow> 'f) \<Rightarrow> 'f memory \<Rightarrow> 'f memory \<Rightarrow> nat list \<Rightarrow> nat \<Rightarrow> nat \<Rightarrow> nat \<Rightarrow> nat \<times> nat \<Rightarrow> 'f stores" where
  "add_gather_program fo to_out x y index N topk bn pids =
     (let (pid_m, block_idx) = pids;
          load = (\<lambda>m i n. if n < N then m (int (index ! (pid_m * topk + i) * N) + int n) else f_num fo 0);
          z = (\<lambda>n. fold (\<lambda>i z. f_add fo z (f_add fo (load x i n) (load y i n))) [0..<topk] (f_num fo 0))
      in block_stores (int (pid_m * N)) N (\<lambda>n. to_out (z n)) [block_idx * bn..<block_idx * bn + bn])"

definition moe_add_gather ::
    "'f float_ops \<Rightarrow> ('f \<Rightarrow> 'f) \<Rightarrow> (nat \<Rightarrow> nat \<Rightarrow> (nat \<times> nat) list) \<Rightarrow> nat \<Rightarrow> nat \<Rightarrow> 'f list \<Rightarrow> 'f list \<Rightarrow> nat \<Rightarrow> nat \<Rightarrow> nat list \<Rightarrow> 'f list res" where
  "moe_add_gather fo to_out schedule rows N x y M topk index =
     (if length x \<noteq> length y then Raise AssertionError
      else if rows \<noteq> M * topk then Raise AssertionError
      else Ok (read_back (M * N)
        (apply_stores (concat (map (add_gather_program fo to_out (mem_of (f_num fo 0) x) (mem_of (f_num fo 0) y) index N topk 1024)
          (schedule M (cdiv N 1024)))) (\<lambda>_. f_num fo 0))))"

section \<open>Grouped GEMM\<close>

record group_gemm =
  gg_n :: nat
  gg_k :: nat
  gg_block_m :: nat
  gg_block_n :: nat
  gg_block_k :: nat
  gg_group :: nat
  gg_max_m :: nat
  gg_transpose_b :: bool

definition group_start :: "nat list \<Rightarrow> nat \<Rightarrow> nat" where
  "group_start cum gid = (if 0 < gid then cum ! (gid - 1) else 0)"

text \<open>
  Rows and columns beyond the tile's share wrap around instead of being masked; only the store is masked.
\<close>

definition group_load_a :: "group_gemm \<Rightarrow> ('f, 'a) gemm_ops \<Rightarrow> 'f memory \<Rightarrow> nat \<Rightarrow> nat \<Rightarrow> nat \<Rightarrow> nat \<Rightarrow> 'f tile" where
  "group_load_a g ops a start m_size m ki i kk =
     (let row = (m * gg_block_m g + i) mod m_size; k = ki * gg_block_k g + kk
      in if kk < gg_k g - ki * gg_block_k g then a (int (start * gg_k g) + int (row * gg_k g + k)) else op_zero ops)"

definition group_load_b :: "group_gemm \<Rightarrow> ('f, 'a) gemm_ops \<Rightarrow> 'f memory \<Rightarrow> nat \<Rightarrow> nat \<Rightarrow> nat \<Rightarrow> 'f tile" where
  "group_load_b g ops b gid n ki kk j =
     (let col = (n * gg_block_n g + j) mod gg_n g; k = ki * gg_block_k g + kk
      in if kk < gg_k g - ki * gg_block_k g
         then b (int (gid * gg_k g * gg_n g) + (if gg_transpose_b g then int (col * gg_k g + k) else int (k * gg_n g + col)))
         else op_zero ops)"

text \<open>
  One program: \<open>acc\<close> gives the initial accumulator when the result is added to \<open>c\<close>, \<open>act\<close> an activation
  applied to the rounded product. The stores of the saved product come second.
\<close>

definition group_program ::
    "group_gemm \<Rightarrow> ('f, 'a) gemm_ops \<Rightarrow> ('f \<Rightarrow> 'a) \<Rightarrow> 'f memory \<Rightarrow> 'f memory \<Rightarrow> nat list \<Rightarrow> 'f memory option \<Rightarrow> ('a \<Rightarrow> 'a) option
       \<Rightarrow> nat \<times> nat \<Rightarrow> 'f stores \<times> 'f stores" where
  "group_program g ops widen a b cum acc act pids =
     (let (pid, gid) = pids;
          (m, n) = compute_pid pid (gg_group g * cdiv (gg_n g) (gg_block_n g)) (cdiv (gg_max_m g) (gg_block_m g)) (gg_group g);
          start = group_start cum gid; m_size = cum ! gid - start
      in if m_size \<le> m * gg_block_m g then ([], [])
         else let inside = (\<lambda>i j. m * gg_block_m g + i < m_size \<and> n * gg_block_n g + j < gg_n g);
                  addr = (\<lambda>i j. int (start * gg_n g) + int ((m * gg_block_m g + i) * gg_n g + (n * gg_block_n g + j)));
                  c0 = (\<lambda>i j. case acc of None \<Rightarrow> acc_zero ops
                        | Some c \<Rightarrow> if inside i j then widen (c (addr i j)) else widen (op_zero ops));
                  c1 = fold (\<lambda>ki c. op_dot ops (gg_block_m g) (gg_block_n g) (gg_block_k g)
                         (group_load_a g ops a start m_size m ki) (group_load_b g ops b gid n ki) c)
                       [0..<cdiv (gg_k g) (gg_block_k g)] c0;
                  blocked = (\<lambda>i j. widen (op_round ops (c1 i j)));
                  c2 = (case act of None \<Rightarrow> c1 | Some f \<Rightarrow> (\<lambda>i j. f (blocked i j)));
                  masked = (\<lambda>c. concat (map (\<lambda>i. concat (map (\<lambda>j. if inside i j then [(addr i j, op_round ops (c i j))] else [])
                      [0..<gg_block_n g])) [0..<gg_block_m g]))
              in (masked c2, case act of None \<Rightarrow> [] | Some f \<Rightarrow> masked blocked))"

definition group_grid :: "group_gemm \<Rightarrow> nat \<Rightarrow> (nat \<times> nat) set" where
  "group_grid g groups = {..<cdiv (gg_max_m g) (gg_block_m g) * cdiv (gg_n g) (gg_block_n g)} \<times> {..<groups}"

text \<open>
  \<open>group_gemm_same_nk\<close> without an accumulator or an activation, as the expert layers call it: \<open>shape_b\<close> is
  the weights' shape, \<open>rows\<close> the number of rows of \<open>a\<close>. The operands are contiguous 16-bit matrices on one device, so
  that the assertions on them hold (\<open>group_gemm_call\<close> has them, \<open>plain_gemm_call\<close> compares the two). The tile is the
  fallback of the decorator, which a call gets where no tuned file is found (\<open>Pretuned.untuned_calls_use_the_fallback\<close>);
  the repository has none.
\<close>

definition group_gemm_same_nk ::
    "('f, 'a) gemm_ops \<Rightarrow> ('f \<Rightarrow> 'a) \<Rightarrow> (group_gemm \<Rightarrow> nat \<Rightarrow> (nat \<times> nat) list) \<Rightarrow> nat \<times> nat \<times> nat \<Rightarrow> nat \<Rightarrow> 'f list \<Rightarrow> 'f list
       \<Rightarrow> nat list \<Rightarrow> nat \<Rightarrow> bool \<Rightarrow> bool \<Rightarrow> 'f list res" where
  "group_gemm_same_nk ops widen schedule shape_b rows a b cum max_m transpose_a transpose_b =
     (let (G, N, K) = (case shape_b of (x, y, w) \<Rightarrow> if transpose_b then (x, y, w) else (x, w, y));
          g = \<lparr>gg_n = N, gg_k = K, gg_block_m = 128, gg_block_n = 128, gg_block_k = 32, gg_group = 8, gg_max_m = max_m,
               gg_transpose_b = transpose_b\<rparr>
      in if transpose_a then Raise AssertionError
         else if length cum \<noteq> G then Raise AssertionError
         else Ok (read_back (rows * N) (apply_stores
           (concat (map (\<lambda>pids. fst (group_program g ops widen (mem_of (op_zero ops) a) (mem_of (op_zero ops) b) cum None None pids))
             (schedule g G))) (\<lambda>_. op_zero ops))))"

text \<open>
  The whole function: the properties of the operands that it asserts, an activation with the option to keep its
  argument, and a tensor \<open>c\<close> that the product is added to.
\<close>

record ('f, 'a) gemm_options =
  go_a_16bit :: bool
  go_b_16bit :: bool
  go_same_device :: bool
  go_contiguous :: bool
  go_known_activation :: bool
  go_activation :: "('a \<Rightarrow> 'a) option"
  go_save_activation :: bool
  go_c :: "'f list option"

definition group_gemm_call ::
    "('f, 'a) gemm_options \<Rightarrow> ('f, 'a) gemm_ops \<Rightarrow> ('f \<Rightarrow> 'a) \<Rightarrow> (group_gemm \<Rightarrow> nat \<Rightarrow> (nat \<times> nat) list) \<Rightarrow> nat \<times> nat \<times> nat \<Rightarrow> nat
       \<Rightarrow> 'f list \<Rightarrow> 'f list \<Rightarrow> nat list \<Rightarrow> nat \<Rightarrow> bool \<Rightarrow> bool \<Rightarrow> ('f list \<times> 'f list option) res" where
  "group_gemm_call opts ops widen schedule shape_b rows a b cum max_m transpose_a transpose_b =
     (let (G, N, K) = (case shape_b of (x, y, w) \<Rightarrow> if transpose_b then (x, y, w) else (x, w, y));
          g = \<lparr>gg_n = N, gg_k = K, gg_block_m = 128, gg_block_n = 128, gg_block_k = 32, gg_group = 8, gg_max_m = max_m,
               gg_transpose_b = transpose_b\<rparr>;
          zero = (\<lambda>_. op_zero ops); c = map_option (mem_of (op_zero ops)) (go_c opts)
      in if transpose_a then Raise AssertionError
         else if \<not> go_a_16bit opts \<or> \<not> go_b_16bit opts then Raise AssertionError
         else if \<not> go_same_device opts then Raise AssertionError
         else if length cum \<noteq> G then Raise AssertionError
         else if go_activation opts \<noteq> None \<and> \<not> go_known_activation opts then Raise AssertionError
         else if go_activation opts = None \<and> go_save_activation opts then Raise AssertionError
         else if \<not> go_contiguous opts then Raise AssertionError
         else let stores = map (\<lambda>pids. group_program g ops widen (mem_of (op_zero ops) a) (mem_of (op_zero ops) b) cum c (go_activation opts) pids)
                (schedule g G)
              in Ok (read_back (rows * N) (apply_stores (concat (map fst stores)) (case c of None \<Rightarrow> zero | Some m \<Rightarrow> m)),
                     if go_save_activation opts then Some (read_back (rows * N) (apply_stores (concat (map snd stores)) zero)) else None))"

lemma plain_gemm_call:
  assumes "go_a_16bit opts" "go_b_16bit opts" "go_same_device opts" "go_contiguous opts" "go_activation opts = None" "\<not> go_save_activation opts" "go_c opts = None"
  shows "group_gemm_call opts ops widen schedule shape_b rows a b cum max_m ta tb =
    rbind (group_gemm_same_nk ops widen schedule shape_b rows a b cum max_m ta tb) (\<lambda>y. Ok (y, None))"
  using assms by (simp add: group_gemm_call_def group_gemm_same_nk_def Let_def comp_def split: prod.split)

section \<open>Cells written by a launch\<close>

text \<open>Reading back a launch whose stores are one value per cell of an \<open>R\<close> by \<open>N\<close> matrix.\<close>

lemma read_cell:
  assumes "set ws = {(int (r * N) + int n, out r n) | r n. r < R \<and> n < N}" "r < R" "n < N"
  shows "read_back (R * N) (apply_stores ws mem) ! (r * N + n) = out r n"
proof -
  have inj: "r = r' \<and> n = n'" if "n' < N" "int (r * N) + int n = int (r' * N) + int n'" for r' n'
  proof -
    have "r * N + n = r' * N + n'" using that(2) by linarith
    then show ?thesis using mult_add_div [OF assms(3), of r] mult_add_div [OF that(1), of r']
        mult_add_mod [OF assms(3), of r] mult_add_mod [OF that(1), of r'] by metis
  qed
  have "apply_stores ws mem (int (r * N) + int n) = out r n"
  proof (rule apply_stores_agree)
    show "(int (r * N) + int n, out r n) \<in> set ws" unfolding assms(1) using assms(2,3) by blast
    fix v assume "(int (r * N) + int n, v) \<in> set ws"
    then obtain r' n' where e: "int (r * N) + int n = int (r' * N) + int n'" "v = out r' n'" "n' < N"
      unfolding assms(1) by blast
    then show "v = out r n" using inj by blast
  qed
  moreover have "r * N + n < R * N" using row_in_bounds [of r R "replicate (R * N) ()" N n] assms(2,3) by simp
  ultimately show ?thesis by (simp add: read_back_def)
qed

text \<open>The blocks of a row of width \<open>N\<close> store the whole row.\<close>

lemma block_stores_image: "set (block_stores base N f cs) = (\<lambda>c. (base + int c, f c)) ` {c \<in> set cs. c < N}"
  by (auto simp: block_stores_def)

lemma block_stores_set:
  assumes "0 < bn"
  shows "(\<Union>blk\<in>{..<cdiv N bn}. set (block_stores base N f [blk * bn..<blk * bn + bn])) = {(base + int n, f n) | n. n < N}"
proof -
  have blocks: "(\<Union>t\<in>{..<k}. {t * bn..<t * bn + bn}) = {..<k * bn}" for k
    using arg_cong [OF concat_blocks [of bn k], of set] by (simp add: atLeast0LessThan)
  have "(\<Union>blk\<in>T. g ` {c \<in> D blk. c < N}) = g ` {c \<in> (\<Union>blk\<in>T. D blk). c < N}" for g :: "nat \<Rightarrow> int \<times> 'a" and T :: "nat set" and D
    by blast
  then have "(\<Union>blk\<in>{..<cdiv N bn}. set (block_stores base N f [blk * bn..<blk * bn + bn])) =
      (\<lambda>c. (base + int c, f c)) ` {c \<in> {..<cdiv N bn * bn}. c < N}"
    unfolding block_stores_image set_upt by (simp only: blocks)
  also have "{c \<in> {..<cdiv N bn * bn}. c < N} = {..<N}" using cdiv_covers [OF assms, of N] by auto
  finally show ?thesis by blast
qed

text \<open>The stores of a launch over a grid of two axes.\<close>

lemma grid_stores:
  assumes "set ord = A \<times> B"
  shows "set (concat (map (\<lambda>(a, b). F a b) ord)) = (\<Union>a\<in>A. \<Union>b\<in>B. set (F a b))"
proof -
  have "set (concat (map (\<lambda>(a, b). F a b) ord)) = (\<Union>p\<in>A \<times> B. set (case p of (a, b) \<Rightarrow> F a b))"
    by (simp only: set_concat set_map assms image_image)
  also have "\<dots> = (\<Union>a\<in>A. \<Union>b\<in>B. set (F a b))" by auto
  finally show ?thesis .
qed

lemma mem_of_row: "r * N + n < length x \<Longrightarrow> mem_of z x (int (r * N) + int n) = x ! (r * N + n)"
  unfolding mem_of_def by (simp flip: of_nat_add of_nat_mult)

lemma scatter_cell:
  assumes "\<forall>m k. set (schedule m k) = {..<m} \<times> {..<k}" "length x = M * N"
    and "\<forall>i<M * topk. \<exists>j<M * topk. scatter ! j = i" "\<forall>j<M * topk. scatter ! j < M * topk" "inj_on (\<lambda>j. scatter ! j) {..<M * topk}"
    and "t < M" "k < topk" "n < N"
  shows "\<exists>y. moe_scatter z schedule M N x M topk scatter = Ok y \<and> length y = M * topk * N \<and>
    y ! (scatter ! (t * topk + k) * N + n) = x ! (t * N + n)"
proof -
  let ?ws = "concat (map (scatter_program (mem_of z x) scatter N topk 1024) (schedule M (cdiv N 1024)))"
  define inv_s where "inv_s r = (THE j. j < M * topk \<and> scatter ! j = r)" for r
  define out where "out r n = x ! (inv_s r div topk * N + n)" for r n
  have inv_s: "inv_s (scatter ! j) = j" if "j < M * topk" for j
    unfolding inv_s_def using that assms(5) by (intro the_equality) (auto simp: inj_on_def)
  have idx: "t * topk + i < M * topk" if "t < M" "i < topk" for t i
    using row_in_bounds [of t M "replicate (M * topk) ()" topk i] that by simp
  let ?f = "\<lambda>t blk. scatter_program (mem_of z x) scatter N topk 1024 (t, blk)"
  have ord: "set (schedule M (cdiv N 1024)) = {..<M} \<times> {..<cdiv N 1024}" using assms(1) by simp
  have "set ?ws = (\<Union>t\<in>{..<M}. \<Union>blk\<in>{..<cdiv N 1024}. set (?f t blk))"
    using grid_stores [OF ord, of ?f] by (simp only: case_prod_eta split_def prod.collapse)
  also have "\<dots> = (\<Union>t\<in>{..<M}. \<Union>blk\<in>{..<cdiv N 1024}. \<Union>i\<in>{..<topk}.
      set (block_stores (int (scatter ! (t * topk + i) * N)) N (\<lambda>n. mem_of z x (int (t * N) + int n)) [blk * 1024..<blk * 1024 + 1024]))"
    by (simp only: scatter_program_def Let_def prod.case set_concat set_map image_image set_upt atLeast0LessThan)
  also have "\<dots> = (\<Union>t\<in>{..<M}. \<Union>i\<in>{..<topk}. \<Union>blk\<in>{..<cdiv N 1024}.
      set (block_stores (int (scatter ! (t * topk + i) * N)) N (\<lambda>n. mem_of z x (int (t * N) + int n)) [blk * 1024..<blk * 1024 + 1024]))"
    by (intro SUP_cong refl SUP_commute)
  also have "\<dots> = (\<Union>t<M. \<Union>i<topk. {(int (scatter ! (t * topk + i) * N) + int n, x ! (t * N + n)) | n. n < N})"
  proof (intro SUP_cong [OF refl])
    fix t i assume "t \<in> {..<M}" "i \<in> {..<topk}"
    then have "mem_of z x (int (t * N) + int n) = x ! (t * N + n)" if "n < N" for n
      using row_in_bounds [of t M x N n] assms(2) that by (intro mem_of_row) simp
    then show "(\<Union>blk<cdiv N 1024. set (block_stores (int (scatter ! (t * topk + i) * N)) N (\<lambda>n. mem_of z x (int (t * N) + int n))
          [blk * 1024..<blk * 1024 + 1024])) = {(int (scatter ! (t * topk + i) * N) + int n, x ! (t * N + n)) | n. n < N}"
      unfolding block_stores_set [OF zero_less_numeral] by auto
  qed
  also have "\<dots> = {(int (r * N) + int n, out r n) | r n. r < M * topk \<and> n < N}"
  proof (intro set_eqI iffI)
    fix w assume "w \<in> (\<Union>t<M. \<Union>i<topk. {(int (scatter ! (t * topk + i) * N) + int n, x ! (t * N + n)) | n. n < N})"
    then obtain t i n where w: "t < M" "i < topk" "n < N" "w = (int (scatter ! (t * topk + i) * N) + int n, x ! (t * N + n))" by blast
    have "out (scatter ! (t * topk + i)) n = x ! (t * N + n)"
      using inv_s [OF idx [OF w(1,2)]] mult_add_div [OF w(2), of t] by (simp add: out_def)
    then show "w \<in> {(int (r * N) + int n, out r n) | r n. r < M * topk \<and> n < N}"
      using w idx [OF w(1,2)] assms(4) by force
  next
    fix w assume "w \<in> {(int (r * N) + int n, out r n) | r n. r < M * topk \<and> n < N}"
    then obtain r n where w: "r < M * topk" "n < N" "w = (int (r * N) + int n, out r n)" by blast
    obtain j where j: "j < M * topk" "scatter ! j = r" using assms(3) w(1) by blast
    have topk: "0 < topk" using j(1) by (cases topk) simp_all
    have t: "j div topk < M" "j mod topk < topk" "j div topk * topk + j mod topk = j"
      using j(1) topk by (simp_all add: less_mult_imp_div_less)
    have "out r n = x ! (j div topk * N + n)" using inv_s [OF j(1)] j(2) by (simp add: out_def)
    then have "w = (int (scatter ! (j div topk * topk + j mod topk) * N) + int n, x ! (j div topk * N + n))" using w(3) j(2) t(3) by simp
    then show "w \<in> (\<Union>t<M. \<Union>i<topk. {(int (scatter ! (t * topk + i) * N) + int n, x ! (t * N + n)) | n. n < N})"
      using t(1,2) w(2) by blast
  qed
  finally have ws: "set ?ws = {(int (r * N) + int n, out r n) | r n. r < M * topk \<and> n < N}" .
  have lt: "scatter ! (t * topk + k) < M * topk" using assms(4) idx [OF assms(6,7)] by blast
  have "read_back (M * topk * N) (apply_stores ?ws (\<lambda>_. z)) ! (scatter ! (t * topk + k) * N + n) = out (scatter ! (t * topk + k)) n"
    by (rule read_cell [OF ws lt assms(8)])
  also have "\<dots> = x ! (t * N + n)"
    using inv_s [OF idx [OF assms(6,7)]] mult_add_div [OF assms(7), of t] by (simp add: out_def)
  finally show ?thesis by (simp add: moe_scatter_def read_back_def)
qed

lemma gather_cell:
  assumes "\<forall>m k. set (schedule m k) = {..<m} \<times> {..<k}" "length x = M * topk * N" "\<forall>j<M * topk. scatter ! j < M * topk" "t < M" "n < N"
  shows "\<exists>y. moe_gather fo to_out schedule (M * topk) N x M topk scatter = Ok y \<and> length y = M * N \<and>
    y ! (t * N + n) = to_out (fold (\<lambda>k y. f_add fo y (x ! (scatter ! (t * topk + k) * N + n))) [0..<topk] (f_num fo 0))"
proof -
  let ?ws = "concat (map (gather_program fo to_out (mem_of (f_num fo 0) x) scatter N topk 1024) (schedule M (cdiv N 1024)))"
  let ?y = "\<lambda>t n. fold (\<lambda>i y. f_add fo y (if n < N then mem_of (f_num fo 0) x (int (scatter ! (t * topk + i) * N) + int n) else f_num fo 0)) [0..<topk] (f_num fo 0)"
  define out where "out t n = to_out (?y t n)" for t n
  let ?f = "\<lambda>t blk. gather_program fo to_out (mem_of (f_num fo 0) x) scatter N topk 1024 (t, blk)"
  have ord: "set (schedule M (cdiv N 1024)) = {..<M} \<times> {..<cdiv N 1024}" using assms(1) by simp
  have "set ?ws = (\<Union>t\<in>{..<M}. \<Union>blk\<in>{..<cdiv N 1024}. set (?f t blk))"
    using grid_stores [OF ord, of ?f] by (simp only: case_prod_eta split_def prod.collapse)
  also have "\<dots> = (\<Union>t\<in>{..<M}. \<Union>blk\<in>{..<cdiv N 1024}. set (block_stores (int (t * N)) N (out t) [blk * 1024..<blk * 1024 + 1024]))"
    by (simp only: gather_program_def Let_def prod.case out_def [abs_def])
  also have "\<dots> = {(int (r * N) + int n, out r n) | r n. r < M \<and> n < N}"
    unfolding block_stores_set [OF zero_less_numeral] by blast
  finally have ws: "set ?ws = {(int (r * N) + int n, out r n) | r n. r < M \<and> n < N}" .
  have load: "mem_of (f_num fo 0) x (int (scatter ! (t * topk + i) * N) + int n) = x ! (scatter ! (t * topk + i) * N + n)" if "i < topk" for i
  proof -
    have "t * topk + i < M * topk" using row_in_bounds [of t M "replicate (M * topk) ()" topk i] assms(4) that by simp
    then have "scatter ! (t * topk + i) < M * topk" using assms(3) by blast
    then show ?thesis using row_in_bounds [OF _ assms(2) assms(5)] by (intro mem_of_row)
  qed
  have "read_back (M * N) (apply_stores ?ws (\<lambda>_. f_num fo 0)) ! (t * N + n) = out t n"
    by (rule read_cell [OF ws assms(4,5)])
  also have "\<dots> = to_out (fold (\<lambda>k y. f_add fo y (x ! (scatter ! (t * topk + k) * N + n))) [0..<topk] (f_num fo 0))"
    unfolding out_def using assms(5) load by (intro arg_cong [where f = to_out] fold_cong refl) simp
  finally show ?thesis by (simp add: moe_gather_def read_back_def)
qed

end
