(* ===== verification/Moe_Atomic.thy ===== *)
theory Moe_Atomic
  imports Prelude
begin

text \<open>
  \<open>moe_index_compute\<close> of \<open>src/vexact/batch_invariant_ops/group_gemm/kernel/moe.py\<close>: every program of the kernel takes rows
  for its tokens from the end of each expert's segment, by an atomic subtraction on the expert's counter. The atomic
  operations of different programs interleave; a schedule is the order in which they happen. The device assertion on
  the experts is compiled out unless debugging and is left out, so a choice of no expert gets row 0; the failing static
  assertion on their number is a \<open>RuntimeError\<close>.
\<close>

section \<open>The kernel\<close>

definition program_tokens :: "nat \<Rightarrow> nat list \<Rightarrow> nat list" where
  "program_tokens p experts = take 128 (drop (p * 128) experts)"

text \<open>What a program reserves at an expert, and the counters with the old values the programs got.\<close>

definition reserved :: "nat list \<Rightarrow> nat \<Rightarrow> nat \<Rightarrow> nat" where
  "reserved experts p e = length (filter ((=) e) (program_tokens p experts))"

type_synonym counters = "(nat \<Rightarrow> int) \<times> (nat \<times> nat \<Rightarrow> int)"

definition atomic_reserve :: "nat list \<Rightarrow> nat \<times> nat \<Rightarrow> counters \<Rightarrow> counters" where
  "atomic_reserve experts op s =
     (case s of (cnt, got) \<Rightarrow> (cnt(snd op := cnt (snd op) - int (reserved experts (fst op) (snd op))), got(op := cnt (snd op))))"

text \<open>The rank of a token among those of its program and expert is the 1-based \<open>cumsum\<close> minus 1.\<close>

definition local_rank :: "nat list \<Rightarrow> nat \<Rightarrow> nat \<Rightarrow> int" where
  "local_rank tokens k e = int (length (filter ((=) e) (take (Suc k) tokens))) - 1"

definition program_indices :: "nat list \<Rightarrow> nat \<Rightarrow> (nat \<times> nat \<Rightarrow> int) \<Rightarrow> nat \<Rightarrow> int list" where
  "program_indices experts num_experts got p =
     map (\<lambda>k. let e = program_tokens p experts ! k
            in if e < num_experts then got (p, e) - int (reserved experts p e) + local_rank (program_tokens p experts) k e else 0)
       [0..<length (program_tokens p experts)]"

definition moe_index_compute :: "(nat \<times> nat) list \<Rightarrow> nat list \<Rightarrow> int list \<Rightarrow> int list res" where
  "moe_index_compute schedule experts expert_cumsum =
     (if 2 ^ 31 - 1 \<le> length experts then Raise AssertionError
      else if 1023 \<le> length expert_cumsum then Raise RuntimeError
      else let (cnt, got) = fold (atomic_reserve experts) schedule ((!) expert_cumsum, \<lambda>_. 0)
           in Ok (concat (map (program_indices experts (length expert_cumsum) got) [0..<(length experts + 127) div 128])))"

section \<open>Any order of the atomic operations\<close>

text \<open>What a set of reservations has in common, whatever their order.\<close>

definition reservations_ok :: "nat list \<Rightarrow> (nat \<Rightarrow> int) \<Rightarrow> (nat \<times> nat) set \<Rightarrow> counters \<Rightarrow> bool" where
  "reservations_ok experts start ops s \<longleftrightarrow>
     (case s of (cnt, got) \<Rightarrow>
       (\<forall>e. cnt e = start e - int (\<Sum>p | (p, e) \<in> ops. reserved experts p e)) \<and>
       (\<forall>(p, e)\<in>ops. got (p, e) \<le> start e \<and> cnt e \<le> got (p, e) - int (reserved experts p e)) \<and>
       (\<forall>p q e. (p, e) \<in> ops \<longrightarrow> (q, e) \<in> ops \<longrightarrow> p \<noteq> q \<longrightarrow>
          got (p, e) \<le> got (q, e) - int (reserved experts q e) \<or> got (q, e) \<le> got (p, e) - int (reserved experts p e)))"

lemma reserve_step:
  assumes "reservations_ok experts start ops s" "finite ops" "(p, e) \<notin> ops"
  shows "reservations_ok experts start (insert (p, e) ops) (atomic_reserve experts (p, e) s)"
proof -
  obtain cnt got where s: "s = (cnt, got)" by (cases s)
  note A = assms(1) [unfolded reservations_ok_def s prod.case]
  have fin: "finite {q. (q, x) \<in> ops}" for x using finite_imageI [OF assms(2), of fst] by (rule rev_finite_subset) force
  have sum: "(\<Sum>q | (q, x) \<in> insert (p, e) ops. reserved experts q x) = (if x = e then reserved experts p e else 0) + (\<Sum>q | (q, x) \<in> ops. reserved experts q x)" for x
  proof (cases "x = e")
    case True
    then have "{q. (q, x) \<in> insert (p, e) ops} = insert p {q. (q, x) \<in> ops}" by auto
    then show ?thesis using True fin [of x] assms(3) by simp
  next
    case False
    then have "{q. (q, x) \<in> insert (p, e) ops} = {q. (q, x) \<in> ops}" by auto
    then show ?thesis using False by simp
  qed
  have new: "got (q, e) - int (reserved experts q e) \<ge> cnt e \<and> got (q, e) \<le> start e" if "(q, e) \<in> ops" for q using A that by fastforce
  have apart: "got (q, x) \<le> got (r, x) - int (reserved experts r x) \<or> got (r, x) \<le> got (q, x) - int (reserved experts q x)"
    if "(q, x) \<in> ops" "(r, x) \<in> ops" "q \<noteq> r" for q r x using A that by blast
  have le: "cnt e \<le> start e" using A by (simp add: sum_nonneg)
  have old: "(q, x) \<noteq> (p, e)" if "(q, x) \<in> ops" for q x using that assms(3) by auto
  show ?thesis
    unfolding reservations_ok_def s atomic_reserve_def prod.case fst_conv snd_conv
  proof (intro conjI allI ballI impI)
    fix x show "(cnt(e := cnt e - int (reserved experts p e))) x = start x - int (\<Sum>q | (q, x) \<in> insert (p, e) ops. reserved experts q x)"
      unfolding sum using A by simp
  next
    fix y assume y: "y \<in> insert (p, e) ops"
    show "case y of (q, x) \<Rightarrow> (got((p, e) := cnt e)) (q, x) \<le> start x \<and> (cnt(e := cnt e - int (reserved experts p e))) x \<le> (got((p, e) := cnt e)) (q, x) - int (reserved experts q x)"
      using y A le new old by (cases y) (fastforce split: if_splits)
  next
    fix q r x assume q: "(q, x) \<in> insert (p, e) ops" "(r, x) \<in> insert (p, e) ops" "q \<noteq> r"
    show "(got((p, e) := cnt e)) (q, x) \<le> (got((p, e) := cnt e)) (r, x) - int (reserved experts r x) \<or>
        (got((p, e) := cnt e)) (r, x) \<le> (got((p, e) := cnt e)) (q, x) - int (reserved experts q x)"
    proof (cases "(q, x) = (p, e) \<or> (r, x) = (p, e)")
      case True
      then show ?thesis using q new old by auto
    next
      case False
      then have "(q, x) \<in> ops" "(r, x) \<in> ops" using q(1,2) by auto
      then show ?thesis using apart [OF _ _ q(3)] False by (simp only: fun_upd_apply if_False de_Morgan_disj)
    qed
  qed
qed

lemma reserve_all:
  assumes "distinct schedule"
  shows "reservations_ok experts start (set schedule) (fold (atomic_reserve experts) schedule (start, \<lambda>_. 0))"
  using assms
proof (induction schedule rule: rev_induct)
  case Nil
  show ?case by (simp add: reservations_ok_def)
next
  case (snoc op schedule)
  then show ?case using reserve_step [of experts start "set schedule" _ "fst op" "snd op"] by simp
qed

section \<open>The rows of a token\<close>

definition slot :: "nat list \<Rightarrow> (nat \<times> nat \<Rightarrow> int) \<Rightarrow> nat \<Rightarrow> int" where
  "slot experts got i =
     (let e = experts ! i; p = i div 128 in got (p, e) - int (reserved experts p e) + local_rank (program_tokens p experts) (i mod 128) e)"

lemma token_of_program:
  assumes "i < length experts"
  shows "i mod 128 < length (program_tokens (i div 128) experts)" "program_tokens (i div 128) experts ! (i mod 128) = experts ! i"
proof -
  have "i div 128 * 128 + i mod 128 < length experts" using assms by simp
  moreover from this have "i mod 128 < length experts - i div 128 * 128" by linarith
  ultimately show "i mod 128 < length (program_tokens (i div 128) experts)" "program_tokens (i div 128) experts ! (i mod 128) = experts ! i"
    by (simp_all add: program_tokens_def)
qed

lemma chunks_of_upt: "concat (map (\<lambda>p. [p * g..<min n (p * g + g)]) [0..<m]) = [0..<min n (m * g)]"
proof (induction m)
  case (Suc m)
  show ?case
  proof (cases "m * g \<le> n")
    case True
    then have "[0..<m * g] @ [m * g..<min n (m * g + g)] = [0..<min n (m * g + g)]"
      using upt_add_eq_append [of 0 "m * g" "min n (m * g + g) - m * g"] by simp
    then show ?thesis using Suc True by (simp add: add.commute)
  next
    case False
    then show ?thesis using Suc by simp
  qed
qed simp

lemma all_indices:
  assumes "\<forall>e\<in>set experts. e < num_experts"
  shows "concat (map (program_indices experts num_experts got) [0..<(length experts + 127) div 128]) = map (slot experts got) [0..<length experts]"
proof -
  let ?n = "length experts"
  have len: "length (program_tokens p experts) = min ?n (p * 128 + 128) - p * 128" for p by (simp add: program_tokens_def)
  have P: "program_indices experts num_experts got p = map (slot experts got) [p * 128..<min ?n (p * 128 + 128)]" for p
  proof (rule nth_equalityI)
    fix k assume "k < length (program_indices experts num_experts got p)"
    then have k: "k < 128" "p * 128 + k < ?n" by (simp_all add: program_indices_def len)
    have d: "(p * 128 + k) div 128 = p" "(p * 128 + k) mod 128 = k" using k(1) by simp_all
    have "program_tokens p experts ! k = experts ! (p * 128 + k)" using token_of_program(2) [OF k(2)] by (simp only: d)
    then show "program_indices experts num_experts got p ! k = map (slot experts got) [p * 128..<min ?n (p * 128 + 128)] ! k"
      using assms k nth_mem [OF k(2)] by (simp add: program_indices_def slot_def d len Let_def)
  qed (simp add: program_indices_def len)
  have "map (program_indices experts num_experts got) ps = map (\<lambda>p. map (slot experts got) [p * 128..<min ?n (p * 128 + 128)]) ps" for ps
    by (rule map_cong [OF refl P])
  then have "concat (map (program_indices experts num_experts got) [0..<(?n + 127) div 128]) =
      map (slot experts got) (concat (map (\<lambda>p. [p * 128..<min ?n (p * 128 + 128)]) [0..<(?n + 127) div 128]))"
    by (simp only: map_concat map_map comp_def)
  also have "min ?n ((?n + 127) div 128 * 128) = ?n" by linarith
  then have "concat (map (\<lambda>p. [p * 128..<min ?n (p * 128 + 128)]) [0..<(?n + 127) div 128]) = [0..<?n]" by (simp add: chunks_of_upt)
  finally show ?thesis .
qed

lemma reserved_total:
  assumes "length experts \<le> m * 128"
  shows "(\<Sum>p<m. reserved experts p e) = count_list experts e"
proof -
  have "(\<Sum>p<k. reserved experts p e) = length (filter ((=) e) (take (k * 128) experts))" for k
  proof (induction k)
    case (Suc k)
    have "take (Suc k * 128) experts = take (k * 128) experts @ program_tokens k experts"
      using take_add [of "k * 128" 128 experts] by (simp add: program_tokens_def add.commute)
    then show ?case using Suc by (simp add: reserved_def)
  qed simp
  then show ?thesis using assms by (simp add: count_list_eq_length_filter)
qed

lemma local_rank_bounds:
  assumes "k < length tokens" "tokens ! k = e"
  shows "0 \<le> local_rank tokens k e" "local_rank tokens k e < int (length (filter ((=) e) tokens))"
proof -
  have "take (Suc k) tokens = take k tokens @ [e]" using assms by (simp add: take_Suc_conv_app_nth)
  then show "0 \<le> local_rank tokens k e" by (simp add: local_rank_def)
  have "length (filter ((=) e) tokens) = length (filter ((=) e) (take (Suc k) tokens)) + length (filter ((=) e) (drop (Suc k) tokens))"
    by (metis append_take_drop_id filter_append length_append)
  then show "local_rank tokens k e < int (length (filter ((=) e) tokens))" by (simp add: local_rank_def)
qed

lemma local_rank_less:
  assumes "k < j" "j < length tokens" "tokens ! j = e"
  shows "local_rank tokens k e < local_rank tokens j e"
proof -
  have "take (Suc j) tokens = take j tokens @ [e]" using assms(2,3) by (simp add: take_Suc_conv_app_nth)
  moreover have "take j tokens = take (Suc k) tokens @ take (j - Suc k) (drop (Suc k) tokens)"
    using take_add [of "Suc k" "j - Suc k" tokens] assms(1) by simp
  ultimately show ?thesis by (simp add: local_rank_def)
qed

text \<open>The cumulative histogram: entry \<open>e\<close> counts the choices of experts up to \<open>e\<close>.\<close>

definition cumulative :: "nat list \<Rightarrow> int list \<Rightarrow> bool" where
  "cumulative experts cu \<longleftrightarrow> (\<forall>e<length cu. cu ! e = int (\<Sum>e'\<le>e. count_list experts e'))"

definition expert_rows :: "int list \<Rightarrow> nat \<Rightarrow> int set" where
  "expert_rows cu e = {(if e = 0 then 0 else cu ! (e - 1))..<cu ! e}"

lemma segment_disjoint:
  assumes "cumulative experts cu" "e < f" "f < length cu" "x \<in> expert_rows cu e" "y \<in> expert_rows cu f"
  shows "x < y"
proof -
  have "(\<Sum>e'\<le>e. count_list experts e') \<le> (\<Sum>e'\<le>f - 1. count_list experts e')" using assms(2) by (intro sum_mono2) auto
  then have "cu ! e \<le> cu ! (f - 1)" using assms(1-3) by (simp add: cumulative_def del: of_nat_sum)
  then show ?thesis using assms(2,4,5) by (auto simp: expert_rows_def)
qed

lemma slot_facts:
  assumes res: "reservations_ok experts ((!) cu) ({..<m} \<times> {..<length cu}) (cnt, got)" and m: "m = (length experts + 127) div 128"
    and E: "\<forall>e\<in>set experts. e < length cu" and cum: "cumulative experts cu"
  shows slot_in_segment: "i < length experts \<Longrightarrow> slot experts got i \<in> expert_rows cu (experts ! i)"
    and slot_inj: "inj_on (slot experts got) {..<length experts}"
proof -
  note R = res [unfolded reservations_ok_def prod.case]
  have cover: "length experts \<le> m * 128" unfolding m by linarith
  have prog: "i div 128 < m" if "i < length experts" for i using that unfolding m by linarith
  have ex: "experts ! i < length cu" if "i < length experts" for i using E nth_mem [OF that] by blast
  have total: "cnt e = cu ! e - int (count_list experts e)" if "e < length cu" for e
  proof -
    have "{p. (p, e) \<in> {..<m} \<times> {..<length cu}} = {..<m}" using that by auto
    then show ?thesis using R reserved_total [OF cover, of e] by (simp del: of_nat_sum)
  qed
  have low: "cu ! e - int (count_list experts e) = (if e = 0 then 0 else cu ! (e - 1))" if "e < length cu" for e
    using cum that by (cases e) (simp_all add: cumulative_def)
  have got: "got (p, e) \<le> cu ! e" "(if e = 0 then 0 else cu ! (e - 1)) \<le> got (p, e) - int (reserved experts p e)" if "p < m" "e < length cu" for p e
  proof -
    have "(p, e) \<in> {..<m} \<times> {..<length cu}" using that by simp
    then have g: "got (p, e) \<le> cu ! e \<and> cnt e \<le> got (p, e) - int (reserved experts p e)" using R by blast
    then show "got (p, e) \<le> cu ! e" ..
    show "(if e = 0 then 0 else cu ! (e - 1)) \<le> got (p, e) - int (reserved experts p e)"
      unfolding low [OF that(2), symmetric] total [OF that(2), symmetric] using g ..
  qed
  have apart: "got (p, e) \<le> got (q, e) - int (reserved experts q e) \<or> got (q, e) \<le> got (p, e) - int (reserved experts p e)"
    if "p < m" "q < m" "e < length cu" "p \<noteq> q" for p q e using R that by blast
  have rank: "0 \<le> local_rank (program_tokens (i div 128) experts) (i mod 128) (experts ! i)"
    "local_rank (program_tokens (i div 128) experts) (i mod 128) (experts ! i) < int (reserved experts (i div 128) (experts ! i))"
    if "i < length experts" for i
    using local_rank_bounds [OF token_of_program(1) [OF that] token_of_program(2) [OF that]] by (simp_all add: reserved_def)
  have bounds: "got (i div 128, experts ! i) - int (reserved experts (i div 128) (experts ! i)) \<le> slot experts got i"
    "slot experts got i < got (i div 128, experts ! i)" if "i < length experts" for i
    using rank [OF that] by (simp_all add: slot_def Let_def)
  show in_segment: "slot experts got i \<in> expert_rows cu (experts ! i)" if "i < length experts" for i
    using bounds [OF that] got [OF prog [OF that] ex [OF that]] unfolding expert_rows_def by (simp only: atLeastLessThan_iff) linarith
  have "slot experts got i \<noteq> slot experts got j" if i: "i < length experts" and j: "j < length experts" and ij: "i < j" for i j
  proof -
    consider "experts ! i < experts ! j" | "experts ! j < experts ! i" | "experts ! i = experts ! j" "i div 128 \<noteq> j div 128"
      | "experts ! i = experts ! j" "i div 128 = j div 128" by linarith
    then show ?thesis
    proof cases
      case 1
      then show ?thesis using segment_disjoint [OF cum 1 ex [OF j] in_segment [OF i] in_segment [OF j]] by simp
    next
      case 2
      then show ?thesis using segment_disjoint [OF cum 2 ex [OF i] in_segment [OF j] in_segment [OF i]] by simp
    next
      case 3
      then show ?thesis using apart [OF prog [OF i] prog [OF j] ex [OF i] 3(2)] bounds [OF i] bounds [OF j] by auto
    next
      case 4
      have "i mod 128 < j mod 128" using ij 4(2) by (metis add_less_cancel_left div_mult_mod_eq)
      then have "local_rank (program_tokens (j div 128) experts) (i mod 128) (experts ! j) < local_rank (program_tokens (j div 128) experts) (j mod 128) (experts ! j)"
        by (rule local_rank_less) (rule token_of_program [OF j])+
      then show ?thesis using 4 by (simp add: slot_def Let_def)
    qed
  qed
  then show "inj_on (slot experts got) {..<length experts}" by (intro linorder_inj_onI) auto
qed

text \<open>
  The rows of the atomic kernel are a permutation, whatever the order of the atomic operations: every choice of a token
  gets a row of its own in the segment of its expert. Which row of the segment it is depends on the order.
\<close>

theorem atomic_rows_are_a_permutation:
  assumes "distinct schedule" "set schedule = {..<(length experts + 127) div 128} \<times> {..<length cu}"
    and "\<forall>e\<in>set experts. e < length cu" "length cu < 1023" "length experts < 2 ^ 31 - 1" "cumulative experts cu"
  shows "\<exists>rows. moe_index_compute schedule experts cu = Ok rows \<and> length rows = length experts \<and>
    bij_betw (\<lambda>i. rows ! i) {..<length experts} {0..<int (length experts)} \<and>
    (\<forall>i<length experts. rows ! i \<in> expert_rows cu (experts ! i))"
proof -
  let ?n = "length experts"
  obtain cnt got where run: "fold (atomic_reserve experts) schedule ((!) cu, \<lambda>_. 0) = (cnt, got)" by (cases "fold (atomic_reserve experts) schedule ((!) cu, \<lambda>_. 0)")
  have res: "reservations_ok experts ((!) cu) ({..<(?n + 127) div 128} \<times> {..<length cu}) (cnt, got)"
    using reserve_all [OF assms(1), of experts "(!) cu"] unfolding run assms(2) .
  note F = slot_facts [OF res refl assms(3,6)]
  have Ok: "moe_index_compute schedule experts cu = Ok (map (slot experts got) [0..<?n])"
    using assms(3-5) by (auto simp: moe_index_compute_def run all_indices [OF assms(3)])
  have top: "cu ! e \<le> int ?n" if "e < length cu" for e
  proof -
    have "(\<Sum>e'\<le>e. count_list experts e') \<le> (\<Sum>e'\<in>{..e} \<union> set experts. count_list experts e')" by (intro sum_mono2) auto
    also have "\<dots> = (\<Sum>e'\<in>set experts. count_list experts e')" by (intro sum.mono_neutral_right) (auto simp: count_list_0_iff)
    also have "\<dots> = ?n" by (rule sum_count_set) auto
    finally show ?thesis using assms(6) that by (simp add: cumulative_def del: of_nat_sum)
  qed
  have pos: "0 \<le> cu ! e" if "e < length cu" for e using assms(6) that by (simp add: cumulative_def del: of_nat_sum)
  have img: "slot experts got ` {..<?n} \<subseteq> {0..<int ?n}"
  proof
    fix x assume "x \<in> slot experts got ` {..<?n}"
    then obtain i where i: "i < ?n" "x \<in> expert_rows cu (experts ! i)" using F(1) by auto
    then have e: "experts ! i < length cu" using assms(3) by simp
    then have "experts ! i - 1 < length cu" by simp
    then show "x \<in> {0..<int ?n}" using i(2) top [OF e] pos [of "experts ! i - 1"] by (auto simp: expert_rows_def split: if_splits)
  qed
  moreover have "card (slot experts got ` {..<?n}) = card {0..<int ?n}" using card_image [OF F(2)] by simp
  ultimately have "slot experts got ` {..<?n} = {0..<int ?n}" by (intro card_subset_eq) simp_all
  then have "bij_betw (slot experts got) {..<?n} {0..<int ?n}" using F(2) by (simp add: bij_betw_def)
  moreover have "bij_betw (\<lambda>i. map (slot experts got) [0..<?n] ! i) {..<?n} {0..<int ?n} = bij_betw (slot experts got) {..<?n} {0..<int ?n}"
    by (rule bij_betw_cong) simp
  ultimately show ?thesis using Ok F(1) by (intro exI [of _ "map (slot experts got) [0..<?n]"]) simp
qed

end
