(* ===== verification/Activation.thy ===== *)
theory Activation
  imports Prelude Complex_Main
begin

text \<open>
  The activations a grouped product can apply and their derivatives
  (\<open>src/vexact/batch_invariant_ops/group_gemm/kernel/triton_utils/activation.py\<close>), over any arithmetic. The real
  numbers are one such arithmetic; in it the \<open>_grad\<close> functions are derivatives.
\<close>

section \<open>The functions\<close>

text \<open>
  Float32 arithmetic: the constants of the kernels are rational numbers or square roots of expressions in pi, which
  Python computes in double precision.
\<close>

record 'f float_ops =
  fl :: "rat \<Rightarrow> 'f"
  fl_sqrt_2_pi :: 'f
  fl_sqrt_half :: 'f
  fl_pdf_norm :: 'f
  fl_add :: "'f \<Rightarrow> 'f \<Rightarrow> 'f"
  fl_sub :: "'f \<Rightarrow> 'f \<Rightarrow> 'f"
  fl_mul :: "'f \<Rightarrow> 'f \<Rightarrow> 'f"
  fl_exp :: "'f \<Rightarrow> 'f"
  fl_erf :: "'f \<Rightarrow> 'f"
  fl_sigmoid :: "'f \<Rightarrow> 'f"

definition kernel_tanh :: "'f float_ops \<Rightarrow> 'f \<Rightarrow> 'f" where
  "kernel_tanh ops x = fl_sub ops (fl_mul ops (fl ops 2) (fl_sigmoid ops (fl_mul ops (fl ops 2) x))) (fl ops 1)"

definition gelu :: "'f float_ops \<Rightarrow> 'f \<Rightarrow> 'f" where
  "gelu ops x = fl_mul ops (fl_mul ops x (fl ops (1 / 2))) (fl_add ops (fl ops 1) (fl_erf ops (fl_mul ops x (fl_sqrt_half ops))))"

definition gelu_grad :: "'f float_ops \<Rightarrow> 'f \<Rightarrow> 'f" where
  "gelu_grad ops x =
     (let cdf = fl_mul ops (fl ops (1 / 2)) (fl_add ops (fl ops 1) (fl_erf ops (fl_mul ops x (fl_sqrt_half ops))));
          pdf = fl_mul ops (fl_exp ops (fl_mul ops (fl_mul ops (fl ops (- 1 / 2)) x) x)) (fl_pdf_norm ops)
      in fl_add ops cdf (fl_mul ops x pdf))"

text \<open>\<open>1 + 0.044715 * x * x\<close>\<close>

definition cubic_factor :: "'f float_ops \<Rightarrow> 'f \<Rightarrow> 'f" where
  "cubic_factor ops x = fl_add ops (fl ops 1) (fl_mul ops (fl_mul ops (fl ops (44715 / 1000000)) x) x)"

definition gelu_new :: "'f float_ops \<Rightarrow> 'f \<Rightarrow> 'f" where
  "gelu_new ops x = fl_mul ops (fl_mul ops (fl ops (1 / 2)) x)
     (fl_add ops (fl ops 1) (kernel_tanh ops (fl_mul ops (fl_mul ops (fl_sqrt_2_pi ops) x) (cubic_factor ops x))))"

definition gelu_new_grad :: "'f float_ops \<Rightarrow> 'f \<Rightarrow> 'f" where
  "gelu_new_grad ops x =
     (let t = kernel_tanh ops (fl_mul ops (fl_mul ops (fl ops (79788456 / 100000000)) x) (cubic_factor ops x))
      in fl_add ops
           (fl_mul ops (fl_mul ops (fl ops (1 / 2)) x)
             (fl_mul ops (fl_sub ops (fl ops 1) (fl_mul ops t t))
               (fl_add ops (fl ops (79788456 / 100000000)) (fl_mul ops (fl_mul ops (fl ops (1070322243 / 10000000000)) x) x))))
           (fl_mul ops (fl ops (1 / 2)) (fl_add ops (fl ops 1) t)))"

definition silu :: "'f float_ops \<Rightarrow> 'f \<Rightarrow> 'f" where
  "silu ops x = fl_mul ops x (fl_sigmoid ops x)"

definition silu_grad :: "'f float_ops \<Rightarrow> 'f \<Rightarrow> 'f" where
  "silu_grad ops x = (let f = fl_sigmoid ops x in fl_add ops f (fl_mul ops x (fl_sub ops f (fl_mul ops f f))))"

section \<open>The choice\<close>

datatype activation_type = GELU | GELU_NEW | SILU

text \<open>\<open>ActivationType\<close> is an enumeration of strings, the constants the kernels compare with.\<close>

definition activation_of :: "string \<Rightarrow> activation_type option" where
  "activation_of s = (if s = ''gelu'' then Some GELU else if s = ''gelu_new'' then Some GELU_NEW else if s = ''silu'' then Some SILU else None)"

text \<open>\<open>to_f32\<close> widens an element of the tensor's type, \<open>from_f32\<close> rounds back; a failing static assertion does not compile.\<close>

definition activation_fwd :: "'f float_ops \<Rightarrow> ('e \<Rightarrow> 'f) \<Rightarrow> ('f \<Rightarrow> 'e) \<Rightarrow> string \<Rightarrow> 'e \<Rightarrow> 'e res" where
  "activation_fwd ops to_f32 from_f32 act x =
     (case activation_of act of
        Some GELU \<Rightarrow> Ok (from_f32 (gelu ops (to_f32 x)))
      | Some GELU_NEW \<Rightarrow> Ok (from_f32 (gelu_new ops (to_f32 x)))
      | Some SILU \<Rightarrow> Ok (from_f32 (silu ops (to_f32 x)))
      | None \<Rightarrow> Raise RuntimeError)"

definition activation_bwd :: "'f float_ops \<Rightarrow> ('e \<Rightarrow> 'f) \<Rightarrow> ('f \<Rightarrow> 'e) \<Rightarrow> string \<Rightarrow> 'e \<Rightarrow> 'e \<Rightarrow> 'e res" where
  "activation_bwd ops to_f32 from_f32 act dy x =
     (case activation_of act of
        Some GELU \<Rightarrow> Ok (from_f32 (fl_mul ops (to_f32 dy) (gelu_grad ops (to_f32 x))))
      | Some GELU_NEW \<Rightarrow> Ok (from_f32 (fl_mul ops (to_f32 dy) (gelu_new_grad ops (to_f32 x))))
      | Some SILU \<Rightarrow> Ok (from_f32 (fl_mul ops (to_f32 dy) (silu_grad ops (to_f32 x))))
      | None \<Rightarrow> Raise RuntimeError)"

section \<open>In the real numbers\<close>

text \<open>The error function is given by its derivative; \<open>erf 0 = 0\<close> is not needed.\<close>

definition real_ops :: "(real \<Rightarrow> real) \<Rightarrow> real float_ops" where
  "real_ops erf = \<lparr>fl = of_rat, fl_sqrt_2_pi = sqrt (2 / pi), fl_sqrt_half = sqrt (1 / 2), fl_pdf_norm = 1 / sqrt (2 * pi),
     fl_add = (+), fl_sub = (-), fl_mul = (*), fl_exp = exp, fl_erf = erf, fl_sigmoid = (\<lambda>x. 1 / (1 + exp (- x)))\<rparr>"

lemma real_ops_simps [simp]:
  "fl (real_ops erf) = of_rat" "fl_sqrt_2_pi (real_ops erf) = sqrt (2 / pi)" "fl_sqrt_half (real_ops erf) = sqrt (1 / 2)"
  "fl_pdf_norm (real_ops erf) = 1 / sqrt (2 * pi)" "fl_add (real_ops erf) = (+)" "fl_sub (real_ops erf) = (-)"
  "fl_mul (real_ops erf) = (*)" "fl_exp (real_ops erf) = exp" "fl_erf (real_ops erf) = erf"
  "fl_sigmoid (real_ops erf) = (\<lambda>x. 1 / (1 + exp (- x)))"
  by (simp_all add: real_ops_def)

lemma sigmoid_derivative:
  "((\<lambda>x. 1 / (1 + exp (- x))) has_real_derivative 1 / (1 + exp (- x)) - 1 / (1 + exp (- x)) * (1 / (1 + exp (- x)))) (at (x :: real))"
proof -
  let ?e = "exp (- x)"
  have pos: "1 + ?e \<noteq> 0" using exp_gt_zero [of "- x"] by linarith
  have "((\<lambda>x. 1 / (1 + exp (- x))) has_real_derivative ?e / ((1 + ?e) * (1 + ?e))) (at x)"
    using pos by (auto intro!: derivative_eq_intros)
  moreover have "1 / (1 + ?e) - 1 / (1 + ?e) * (1 / (1 + ?e)) = ?e / ((1 + ?e) * (1 + ?e))"
  proof -
    have "1 / y - 1 / y * (1 / y) = (y - 1) / (y * y)" if "y \<noteq> 0" for y :: real using that by (simp add: field_simps)
    from this [OF pos] show ?thesis by simp
  qed
  ultimately show ?thesis by simp
qed

text \<open>\<open>tanh\<close> as a scaled sigmoid is \<open>tanh\<close>.\<close>

lemma kernel_tanh_real: "kernel_tanh (real_ops erf) x = tanh x"
proof -
  have "0 < 1 + exp (- (2 * x))" using exp_gt_zero [of "- (2 * x)"] by linarith
  then show ?thesis by (simp add: kernel_tanh_def tanh_real_altdef field_simps)
qed

theorem silu_derivative: "(silu (real_ops erf) has_real_derivative silu_grad (real_ops erf) x) (at x)"
proof -
  have s: "silu (real_ops erf) = (\<lambda>x. x * (1 / (1 + exp (- x))))" by (rule ext) (simp add: silu_def)
  show ?thesis unfolding s by (rule derivative_eq_intros sigmoid_derivative refl)+ (simp add: silu_grad_def Let_def algebra_simps)
qed

theorem gelu_derivative:
  assumes "\<And>x. (erf has_real_derivative 2 / sqrt pi * exp (- x * x)) (at x)"
  shows "(gelu (real_ops erf) has_real_derivative gelu_grad (real_ops erf) x) (at x)"
proof -
  let ?h = "sqrt (1 / 2) :: real"
  have g: "gelu (real_ops erf) = (\<lambda>x. x * (1 / 2) * (1 + erf (x * ?h)))" by (rule ext) (simp add: gelu_def of_rat_divide)
  have hh: "?h * ?h = 1 / 2" by simp
  have sq: "(x * ?h) * (x * ?h) = x * x / 2"
  proof -
    have "(x * ?h) * (x * ?h) = x * x * (?h * ?h)" by (simp only: ac_simps)
    then show ?thesis by (simp only: hh)
  qed
  have c: "1 / 2 * (2 / sqrt pi) * ?h = 1 / sqrt (2 * pi)" by (simp add: real_sqrt_mult real_sqrt_divide)
  have e: "((\<lambda>x. erf (x * ?h)) has_real_derivative 2 / sqrt pi * exp (- (x * ?h) * (x * ?h)) * ?h) (at x)"
    by (rule DERIV_chain2 [OF assms]) (auto intro!: derivative_eq_intros)
  have "((\<lambda>x. x * (1 / 2) * (1 + erf (x * ?h))) has_real_derivative
      1 / 2 * (1 + erf (x * ?h)) + x * (1 / 2) * (2 / sqrt pi * exp (- (x * ?h) * (x * ?h)) * ?h)) (at x)"
    by (rule derivative_eq_intros e refl)+ simp
  moreover have "x * (1 / 2) * (2 / sqrt pi * exp (- (x * ?h) * (x * ?h)) * ?h) = x * (exp (- (x * x / 2)) * (1 / 2 * (2 / sqrt pi) * ?h))"
    by (simp only: sq mult_minus_left) (simp only: ac_simps)
  ultimately show ?thesis unfolding g c by (simp add: gelu_grad_def Let_def of_rat_divide of_rat_minus)
qed

text \<open>
  \<open>gelu_new_grad\<close> has rounded constants: 0.79788456 for \<open>sqrt (2 / pi)\<close> and 0.1070322243 for three times its product
  with 0.044715. It is the derivative of \<open>gelu_new\<close> with the first of them up to a part in 10 to the 12.
\<close>

definition gelu_tanh :: "real \<Rightarrow> real \<Rightarrow> real" where
  "gelu_tanh c x = 1 / 2 * x * (1 + tanh (c * x * (1 + 44715 / 1000000 * x * x)))"

lemma gelu_new_real: "gelu_new (real_ops erf) = gelu_tanh (sqrt (2 / pi))"
  by (rule ext) (simp add: gelu_new_def gelu_tanh_def kernel_tanh_real cubic_factor_def of_rat_divide)

lemma gelu_tanh_derivative:
  "(gelu_tanh c has_real_derivative
     1 / 2 * x * ((1 - tanh (c * x * (1 + 44715 / 1000000 * x * x)) * tanh (c * x * (1 + 44715 / 1000000 * x * x))) *
       (c + 134145 / 1000000 * c * x * x)) + 1 / 2 * (1 + tanh (c * x * (1 + 44715 / 1000000 * x * x)))) (at x)"
proof -
  let ?u = "\<lambda>x. c * x * (1 + 44715 / 1000000 * x * x)"
  have u: "(?u has_real_derivative c + 134145 / 1000000 * c * x * x) (at x)"
    by (auto intro!: derivative_eq_intros simp: algebra_simps)
  have t: "((\<lambda>x. tanh (?u x)) has_real_derivative (1 - tanh (?u x) * tanh (?u x)) * (c + 134145 / 1000000 * c * x * x)) (at x)"
    using has_field_derivative_tanh [OF _ u] cosh_real_pos [of "?u x"] by (simp add: power2_eq_square)
  have g: "gelu_tanh c = (\<lambda>x. 1 / 2 * x * (1 + tanh (?u x)))" by (rule ext) (simp add: gelu_tanh_def)
  show ?thesis unfolding g by (rule derivative_eq_intros t refl)+ (simp add: algebra_simps)
qed

theorem gelu_new_grad_error:
  "\<exists>d. (gelu_tanh (79788456 / 100000000) has_real_derivative d) (at x) \<and> \<bar>gelu_new_grad (real_ops erf) x - d\<bar> \<le> \<bar>x\<bar> ^ 3 / 10 ^ 12"
proof -
  let ?c = "79788456 / 100000000 :: real"
  let ?t = "tanh (?c * x * (1 + 44715 / 1000000 * x * x))"
  let ?d = "1 / 2 * x * ((1 - ?t * ?t) * (?c + 134145 / 1000000 * ?c * x * x)) + 1 / 2 * (1 + ?t)"
  have G: "gelu_new_grad (real_ops erf) x = 1 / 2 * x * ((1 - ?t * ?t) * (?c + 1070322243 / 10000000000 * x * x)) + 1 / 2 * (1 + ?t)"
    by (simp add: gelu_new_grad_def kernel_tanh_real cubic_factor_def of_rat_divide Let_def)
  have "gelu_new_grad (real_ops erf) x - ?d = (1 - ?t * ?t) * (x ^ 3 * (1 / 2 * (1070322243 / 10000000000 - 134145 / 1000000 * ?c)))"
    unfolding G by (simp only: power3_eq_cube) algebra
  then have "\<bar>gelu_new_grad (real_ops erf) x - ?d\<bar> = \<bar>1 - ?t * ?t\<bar> * (\<bar>x\<bar> ^ 3 * \<bar>1 / 2 * (1070322243 / 10000000000 - 134145 / 1000000 * ?c)\<bar>)"
    by (simp only: abs_mult power_abs)
  also have "\<dots> \<le> 1 * (\<bar>x\<bar> ^ 3 * (1 / 10 ^ 12))"
  proof (intro mult_mono)
    have "?t * ?t < 1" using tanh_real_bounds [of "?c * x * (1 + 44715 / 1000000 * x * x)"] 
      by (auto simp: abs_less_iff abs_square_less_1 simp flip: power2_eq_square)
    then show "\<bar>1 - ?t * ?t\<bar> \<le> 1" by simp
  qed simp_all
  finally show ?thesis using gelu_tanh_derivative [of ?c x] by (intro exI [of _ ?d]) simp
qed

text \<open>The backward pass multiplies with the derivative of what the forward pass computes.\<close>

theorem backward_is_derivative:
  assumes "\<And>x. (erf has_real_derivative 2 / sqrt pi * exp (- x * x)) (at x)" and "act = ''gelu'' \<or> act = ''silu''"
  shows "\<exists>f. (\<forall>x. activation_fwd (real_ops erf) id id act x = Ok (f x)) \<and>
    (\<forall>dy x. \<exists>d. (f has_real_derivative d) (at x) \<and> activation_bwd (real_ops erf) id id act dy x = Ok (dy * d))"
  using assms(2)
proof
  assume "act = ''gelu''"
  then show ?thesis using gelu_derivative [OF assms(1)]
    by (intro exI [of _ "gelu (real_ops erf)"]) (auto simp: activation_fwd_def activation_bwd_def activation_of_def)
next
  assume "act = ''silu''"
  then show ?thesis using silu_derivative [of erf]
    by (intro exI [of _ "silu (real_ops erf)"]) (auto simp: activation_fwd_def activation_bwd_def activation_of_def)
qed

end
