(* ===== verification/Py_Strings.thy ===== *)
theory Py_Strings
  imports Prelude "HOL-Library.Sublist"
begin

text \<open>
  Python's \<open>str\<close> methods that the models' loaders and the answer checker use, on lists of characters: \<open>in\<close>, \<open>find\<close>,
  \<open>rfind\<close>, \<open>split\<close>, \<open>join\<close>, \<open>replace\<close> and \<open>strip\<close>. Separators are the constants of the source, never empty.
\<close>

fun find_sub :: "'c list \<Rightarrow> 'c list \<Rightarrow> nat option" where
  "find_sub p [] = (if p = [] then Some 0 else None)"
| "find_sub p (x # xs) = (if prefix p (x # xs) then Some 0 else map_option Suc (find_sub p xs))"

definition has_sub :: "'c list \<Rightarrow> 'c list \<Rightarrow> bool" where
  "has_sub p s \<longleftrightarrow> find_sub p s \<noteq> None"

fun rfind_sub :: "'c list \<Rightarrow> 'c list \<Rightarrow> nat option" where
  "rfind_sub p [] = (if p = [] then Some 0 else None)"
| "rfind_sub p (x # xs) = (case rfind_sub p xs of Some i \<Rightarrow> Some (Suc i) | None \<Rightarrow> if prefix p (x # xs) then Some 0 else None)"

lemma find_sub_Some: "find_sub p s = Some i \<Longrightarrow> i + length p \<le> length s \<and> take (length p) (drop i s) = p"
proof (induction s arbitrary: i)
  case (Cons x xs)
  then show ?case
  proof (cases "prefix p (x # xs)")
    case True
    then show ?thesis using Cons.prems prefix_length_le [OF True] by (auto simp: prefix_def)
  next
    case False
    then obtain k where "find_sub p xs = Some k" "i = Suc k" using Cons.prems by auto
    with Cons.IH show ?thesis by simp
  qed
qed (simp split: if_splits)

lemma find_sub_parts: "find_sub p s = Some i \<Longrightarrow> s = take i s @ p @ drop (i + length p) s"
  using find_sub_Some [of p s i] by (metis append.assoc append_take_drop_id drop_drop add.commute)

function split_sub :: "'c list \<Rightarrow> 'c list \<Rightarrow> 'c list list" where
  "split_sub sep s =
     (case find_sub sep s of None \<Rightarrow> [s]
      | Some i \<Rightarrow> if sep = [] then [s] else take i s # split_sub sep (drop (i + length sep) s))"
  by pat_completeness auto
termination
proof (relation "measure (\<lambda>(sep, s). length s)")
  fix sep s :: "'c list" and i
  assume "find_sub sep s = Some i" "sep \<noteq> []"
  then show "((sep, drop (i + length sep) s), sep, s) \<in> measure (\<lambda>(sep, s). length s)"
    using find_sub_Some [of sep s i] by simp (metis diff_less length_greater_0_conv add_pos_pos less_le_trans le_add2)
qed simp

declare split_sub.simps [simp del]

fun join_with :: "'c list \<Rightarrow> 'c list list \<Rightarrow> 'c list" where
  "join_with sep [] = []"
| "join_with sep [x] = x"
| "join_with sep (x # y # zs) = x @ sep @ join_with sep (y # zs)"

definition replace_sub :: "'c list \<Rightarrow> 'c list \<Rightarrow> 'c list \<Rightarrow> 'c list" where
  "replace_sub old new s = join_with new (split_sub old s)"

text \<open>\<open>s.split(sep, 1)\<close>.\<close>

definition split_once :: "'c list \<Rightarrow> 'c list \<Rightarrow> 'c list list" where
  "split_once sep s = (case find_sub sep s of None \<Rightarrow> [s] | Some i \<Rightarrow> [take i s, drop (i + length sep) s])"

definition strip_with :: "('c \<Rightarrow> bool) \<Rightarrow> 'c list \<Rightarrow> 'c list" where
  "strip_with space s = rev (dropWhile space (rev (dropWhile space s)))"

lemma split_sub_not_Nil [simp]: "split_sub sep s \<noteq> []"
  by (simp add: split_sub.simps split: option.split)

lemma join_split: "join_with sep (split_sub sep s) = s"
proof (induction sep s rule: split_sub.induct)
  case (1 sep s)
  show ?case
  proof (cases "find_sub sep s")
    case (Some i)
    show ?thesis
    proof (cases "sep = []")
      case False
      then obtain y zs where y: "split_sub sep (drop (i + length sep) s) = y # zs" using split_sub_not_Nil by (meson list.exhaust)
      have "join_with sep (split_sub sep s) = take i s @ sep @ join_with sep (split_sub sep (drop (i + length sep) s))"
        using Some False by (subst split_sub.simps) (simp add: y)
      also have "\<dots> = s" using 1 Some False find_sub_parts [OF Some] by simp
      finally show ?thesis .
    qed (simp add: split_sub.simps split: option.split)
  qed (simp add: split_sub.simps)
qed

lemma replace_absent: "find_sub old s = None \<Longrightarrow> replace_sub old new s = s"
  by (simp add: replace_sub_def split_sub.simps)

lemma replace_same: "replace_sub old old s = s"
  by (simp add: replace_sub_def join_split)

lemma rfind_sub_Some: "rfind_sub p s = Some i \<Longrightarrow> i + length p \<le> length s \<and> take (length p) (drop i s) = p"
proof (induction s arbitrary: i)
  case (Cons x xs)
  then show ?case
  proof (cases "rfind_sub p xs")
    case None
    then have "prefix p (x # xs)" "i = 0" using Cons.prems by (auto split: if_splits)
    moreover from this(1) have "length p \<le> length (x # xs)" by (rule prefix_length_le)
    ultimately show ?thesis by (auto simp: prefix_def)
  qed auto
qed (simp split: if_splits)

text \<open>The last occurrence is found where no later one starts.\<close>

lemma rfind_sub_last:
  assumes "prefix p (drop (length a) (a @ b))" "rfind_sub p (tl b) = None" "b \<noteq> []"
  shows "rfind_sub p (a @ b) = Some (length a)"
  using assms by (induction a) (auto simp: neq_Nil_conv)

lemma rfind_sub_None: "rfind_sub p s = None \<longleftrightarrow> find_sub p s = None"
  by (induction s) (auto split: option.splits)

end
