(* ===== verification/Pretuned.thy ===== *)
theory Pretuned
  imports Py_Strings
begin

text \<open>
  Pre-tuned launches of kernels (\<open>src/vexact/batch_invariant_ops/group_gemm/utils/\<close>: \<open>pretuned.py\<close>, \<open>config.py\<close>,
  \<open>kernel.py\<close>, \<open>envvars.py\<close>): the key of a call, the files of hyperparameters, and the choice between the tuned
  configuration, the catch-all of the device and the fallback of the decorator. Files and the JSON reader are parameters.
\<close>

section \<open>Switches in the environment\<close>

text \<open>\<open>int(s)\<close> of a string of Latin characters.\<close>

definition digit_char :: "char \<Rightarrow> bool" where
  "digit_char c \<longleftrightarrow> 48 \<le> (of_char c :: nat) \<and> (of_char c :: nat) \<le> 57"

definition space_char :: "char \<Rightarrow> bool" where
  "space_char c \<longleftrightarrow> (of_char c :: nat) \<in> {9, 10, 11, 12, 13, 28, 29, 30, 31, 32, 133, 160}"

definition digits_ok :: "string \<Rightarrow> bool" where
  "digits_ok s \<longleftrightarrow> s \<noteq> [] \<and> digit_char (hd s) \<and> digit_char (last s) \<and> (\<forall>c\<in>set s. digit_char c \<or> c = CHR ''_'') \<and> \<not> has_sub ''__'' s"

definition py_int :: "string \<Rightarrow> int res" where
  "py_int s =
     (let t = strip_with space_char s;
          (neg, d) = (case t of [] \<Rightarrow> (False, []) | c # r \<Rightarrow> if c = CHR ''-'' then (True, r) else if c = CHR ''+'' then (False, r) else (False, t))
      in if digits_ok d then Ok ((if neg then - 1 else 1) * int (str_nat (filter digit_char d))) else Raise ValueError)"

type_synonym environment = "string \<rightharpoonup> string"

definition is_env_option_enabled :: "environment \<Rightarrow> string \<Rightarrow> int res" where
  "is_env_option_enabled env opt = py_int (case env opt of None \<Rightarrow> ''0'' | Some v \<Rightarrow> v)"

text \<open>\<open>a or b\<close> on results of \<open>int\<close>: the second is read only if the first is 0.\<close>

definition either_enabled :: "environment \<Rightarrow> string \<Rightarrow> string \<Rightarrow> int res" where
  "either_enabled env a b = rbind (is_env_option_enabled env a) (\<lambda>x. if x \<noteq> 0 then Ok x else is_env_option_enabled env b)"

definition is_untuned_warning_suppressed :: "environment \<Rightarrow> int res" where
  "is_untuned_warning_suppressed env = either_enabled env ''BPEX_NO_WARN_ON_UNTUNED_CASE'' ''BPEX_TESTING_IS_CI_ENV''"

definition benchmarking_minimal_run :: "environment \<Rightarrow> int res" where
  "benchmarking_minimal_run env = either_enabled env ''BPEX_BENCHMARKING_MINIMAL_RUN'' ''BPEX_BENCHMARKING_USE_NCU''"

definition benchmarking_no_baseline :: "environment \<Rightarrow> int res" where
  "benchmarking_no_baseline env = either_enabled env ''BPEX_BENCHMARKING_NO_BASELINE'' ''BPEX_BENCHMARKING_USE_NCU''"

section \<open>Kernels and their wrappers\<close>

text \<open>A kernel, or a decorator's object with the wrapped one as its attribute \<open>fn\<close>.\<close>

datatype kernel = Kernel string | Wrapped kernel

fun innermost_fn :: "kernel \<Rightarrow> kernel" where
  "innermost_fn (Kernel n) = Kernel n"
| "innermost_fn (Wrapped k) = innermost_fn k"

fun kernel_name :: "kernel \<Rightarrow> string" where
  "kernel_name (Kernel n) = n"
| "kernel_name (Wrapped k) = kernel_name k"

definition qualified_name :: "kernel \<Rightarrow> string" where
  "qualified_name k = kernel_name (innermost_fn k)"

lemma qualified_name_unwraps [simp]: "qualified_name (Wrapped k) = qualified_name k"
  by (simp add: qualified_name_def)

section \<open>The key of a call\<close>

datatype kwarg = KInt int | KBool bool | KStr string | KNone

definition int_string :: "int \<Rightarrow> string" where
  "int_string i = (if i < 0 then CHR ''-'' # nat_str (nat (- i)) else nat_str (nat i))"

fun kwarg_string :: "kwarg \<Rightarrow> string" where
  "kwarg_string (KInt i) = int_string i"
| "kwarg_string (KBool b) = (if b then ''True'' else ''False'')"
| "kwarg_string (KStr s) = s"
| "kwarg_string KNone = ''None''"

fun kwarg_div :: "kwarg \<Rightarrow> int \<Rightarrow> int res" where
  "kwarg_div (KInt i) s = (if s = 0 then Raise ZeroDivisionError else Ok (i div s))"
| "kwarg_div (KBool b) s = (if s = 0 then Raise ZeroDivisionError else Ok ((if b then 1 else 0) div s))"
| "kwarg_div (KStr _) s = Raise TypeError"
| "kwarg_div KNone s = Raise TypeError"

definition lower_char :: "char \<Rightarrow> char" where
  "lower_char c = (let n = (of_char c :: nat) in if 65 \<le> n \<and> n \<le> 90 then char_of (n + 32) else c)"

definition key_part :: "(string \<rightharpoonup> kwarg) \<Rightarrow> string \<Rightarrow> int \<Rightarrow> string res" where
  "key_part kwargs name scale =
     (case kwargs name of None \<Rightarrow> Raise KeyError
      | Some v \<Rightarrow> rbind (kwarg_div v scale) (\<lambda>q.
          Ok (map lower_char name @ int_string q @ (if scale \<noteq> 1 then ''x'' @ int_string scale else []))))"

text \<open>The parts in order; fewer scales than names are an \<open>IndexError\<close>.\<close>

fun key_parts :: "(string \<rightharpoonup> kwarg) \<Rightarrow> string list \<Rightarrow> int list \<Rightarrow> string list res" where
  "key_parts kwargs [] scales = Ok []"
| "key_parts kwargs (name # names) [] = (case kwargs name of None \<Rightarrow> Raise KeyError | Some _ \<Rightarrow> Raise IndexError)"
| "key_parts kwargs (name # names) (scale # scales) =
     rbind (key_part kwargs name scale) (\<lambda>p. rbind (key_parts kwargs names scales) (\<lambda>ps. Ok (p # ps)))"

fun rest_parts :: "(string \<rightharpoonup> kwarg) \<Rightarrow> string list \<Rightarrow> string \<Rightarrow> string res" where
  "rest_parts kwargs [] out = Ok out"
| "rest_parts kwargs (k # ks) out =
     (case kwargs k of None \<Rightarrow> Raise KeyError | Some v \<Rightarrow> rest_parts kwargs ks (out @ ''_'' @ kwarg_string v))"

definition algo_key_scaled :: "string list \<Rightarrow> int list \<Rightarrow> string list option \<Rightarrow> (string \<rightharpoonup> kwarg) \<Rightarrow> string res" where
  "algo_key_scaled names scales rest_key kwargs =
     rbind (key_parts kwargs names scales) (\<lambda>ps.
       case rest_key of None \<Rightarrow> Ok (join_with ''_'' ps) | Some ks \<Rightarrow> rest_parts kwargs ks (join_with ''_'' ps))"

abbreviation CATCH_ALL_ALGO_KEY :: string where
  "CATCH_ALL_ALGO_KEY \<equiv> ''__CATCH_ALL__''"

section \<open>Files of hyperparameters\<close>

text \<open>A configuration is a dictionary of numbers, or \<open>None\<close>.\<close>

type_synonym tuned_config = "(string \<times> int) list option"

text \<open>\<open>read\<close> gives a file's text, or None for a \<open>FileNotFoundError\<close>; \<open>listdir\<close> the names of a directory and whether they are files.\<close>

definition suffix_bpex :: string where
  "suffix_bpex = ''.bpex''"

definition ends_with :: "string \<Rightarrow> string \<Rightarrow> bool" where
  "ends_with suf s \<longleftrightarrow> suffix suf s"

fun load_algos :: "(string \<Rightarrow> 'x option) \<Rightarrow> ('x \<Rightarrow> tuned_config res) \<Rightarrow> string \<Rightarrow> string list \<Rightarrow> (string \<rightharpoonup> tuned_config)
    \<Rightarrow> (string \<rightharpoonup> tuned_config) res" where
  "load_algos read parse dir [] out = Ok out"
| "load_algos read parse dir (a # algos) out =
     (case read (dir @ ''/'' @ a @ suffix_bpex) of None \<Rightarrow> Ok out
      | Some t \<Rightarrow> rbind (parse t) (\<lambda>c. load_algos read parse dir algos (out(a \<mapsto> c))))"

definition load_all_configs ::
    "(string \<Rightarrow> 'x option) \<Rightarrow> (string \<Rightarrow> (string \<times> bool) list option) \<Rightarrow> ('x \<Rightarrow> (string \<rightharpoonup> tuned_config) res) \<Rightarrow> ('x \<Rightarrow> tuned_config res)
       \<Rightarrow> string \<Rightarrow> (string \<rightharpoonup> tuned_config) res" where
  "load_all_configs read listdir parse_all parse path_prefix =
     rbind (case read (path_prefix @ suffix_bpex) of None \<Rightarrow> Ok Map.empty | Some t \<Rightarrow> parse_all t) (\<lambda>out.
       case listdir path_prefix of None \<Rightarrow> Ok out
       | Some names \<Rightarrow> load_algos read parse path_prefix
           (map (\<lambda>(f, _). take (length f - length suffix_bpex) f) (filter (\<lambda>(f, is_file). is_file \<and> ends_with suffix_bpex f) names)) out)"

section \<open>The decorator and the call\<close>

record pretuned_kernel =
  pt_fn :: kernel
  pt_key_maker :: "(string \<rightharpoonup> kwarg) \<Rightarrow> string res"
  pt_configs :: "string \<rightharpoonup> tuned_config"

definition catch_all :: "(string \<rightharpoonup> kwarg) \<Rightarrow> string res" where
  "catch_all kwargs = Ok CATCH_ALL_ALGO_KEY"

definition init_pretuned :: "kernel \<Rightarrow> ((string \<rightharpoonup> kwarg) \<Rightarrow> string res) \<Rightarrow> (string \<rightharpoonup> tuned_config) \<Rightarrow> pretuned_kernel res" where
  "init_pretuned fn key_maker configs =
     (if CATCH_ALL_ALGO_KEY \<in> dom configs then Ok \<lparr>pt_fn = fn, pt_key_maker = key_maker, pt_configs = configs\<rparr> else Raise AssertionError)"

definition pretuned ::
    "environment \<Rightarrow> (kernel \<Rightarrow> (string \<rightharpoonup> tuned_config) res) \<Rightarrow> ((string \<rightharpoonup> kwarg) \<Rightarrow> string res) option \<Rightarrow> tuned_config \<Rightarrow> kernel
       \<Rightarrow> pretuned_kernel res" where
  "pretuned env load_all_configs_for algo_key fallback fn =
     rbind (load_all_configs_for (innermost_fn fn)) (\<lambda>configs.
     rbind (if CATCH_ALL_ALGO_KEY \<notin> dom configs
            then rbind (is_untuned_warning_suppressed env) (\<lambda>_. Ok (configs(CATCH_ALL_ALGO_KEY \<mapsto> fallback)))
            else Ok configs) (\<lambda>configs.
     if configs CATCH_ALL_ALGO_KEY = Some None then Raise AssertionError
     else init_pretuned fn (case algo_key of None \<Rightarrow> catch_all | Some k \<Rightarrow> k) configs))"

text \<open>
  \<open>Pretuned.run\<close>: the named arguments and the configuration together; an argument given twice, or a configuration that is no
  dictionary, is a \<open>TypeError\<close>.
\<close>

definition chosen_config :: "environment \<Rightarrow> pretuned_kernel \<Rightarrow> (string \<rightharpoonup> kwarg) \<Rightarrow> tuned_config res" where
  "chosen_config env pk kwargs =
     rbind (pt_key_maker pk kwargs) (\<lambda>key.
       case pt_configs pk key of Some c \<Rightarrow> Ok c
       | None \<Rightarrow> rbind (is_untuned_warning_suppressed env) (\<lambda>_.
           case pt_configs pk CATCH_ALL_ALGO_KEY of Some c \<Rightarrow> Ok c | None \<Rightarrow> Raise KeyError))"

definition run_pretuned ::
    "environment \<Rightarrow> (kernel \<Rightarrow> (string \<rightharpoonup> kwarg) \<Rightarrow> 'r res) \<Rightarrow> pretuned_kernel \<Rightarrow> (string \<rightharpoonup> kwarg) \<Rightarrow> 'r res" where
  "run_pretuned env launch pk kwargs =
     rbind (chosen_config env pk kwargs) (\<lambda>c.
       case c of None \<Rightarrow> Raise TypeError
       | Some entries \<Rightarrow> if fst ` set entries \<inter> dom kwargs \<noteq> {} then Raise TypeError
           else launch (pt_fn pk) (kwargs ++ map_of (map (\<lambda>(k, v). (k, KInt v)) entries)))"

section \<open>Keys tell calls apart\<close>

lemma digit_char_of [simp]: "(m :: nat) < 10 \<Longrightarrow> digit_char (char_of (48 + m))"
  by (simp add: digit_char_def of_char_of)

lemma nat_str_digits: "c \<in> set (nat_str n) \<Longrightarrow> digit_char c"
proof (induction n rule: nat_str.induct)
  case (1 n)
  then show ?case by (cases "n < 10") (auto simp: nat_str.simps [of n])
qed

lemma digits_end:
  assumes "\<forall>c\<in>set xs. digit_char c" "\<forall>c\<in>set ys. digit_char c" "\<not> digit_char a"
  shows "xs @ a # r = ys @ a # s \<longleftrightarrow> xs = ys \<and> r = s"
  using assms
proof (induction xs arbitrary: ys)
  case Nil
  then show ?case by (cases ys) auto
next
  case (Cons x xs)
  then show ?case by (cases ys) auto
qed

lemma number_end:
  assumes "0 \<le> i" "0 \<le> j" "\<not> digit_char a"
  shows "int_string i @ a # r = int_string j @ a # s \<longleftrightarrow> i = j \<and> r = s"
  using digits_end [of "nat_str (nat i)" "nat_str (nat j)" a r s] nat_str_digits assms by (auto simp: int_string_def)

text \<open>The key maker of \<open>group_gemm_same_nk_kernel\<close>: rows in steps of 5000, the weight's shape and the two flags.\<close>

definition group_gemm_key :: "(string \<rightharpoonup> kwarg) \<Rightarrow> string res" where
  "group_gemm_key = algo_key_scaled [''total_M'', ''N'', ''K''] [5000, 1, 1] (Some [''TRANSPOSE_A'', ''TRANSPOSE_B''])"

definition group_call :: "int \<Rightarrow> int \<Rightarrow> int \<Rightarrow> bool \<Rightarrow> bool \<Rightarrow> (string \<rightharpoonup> kwarg) \<Rightarrow> bool" where
  "group_call rows n k ta tb kwargs \<longleftrightarrow> kwargs ''total_M'' = Some (KInt rows) \<and> kwargs ''N'' = Some (KInt n) \<and> kwargs ''K'' = Some (KInt k) \<and>
     kwargs ''TRANSPOSE_A'' = Some (KBool ta) \<and> kwargs ''TRANSPOSE_B'' = Some (KBool tb)"

lemma group_key_text:
  assumes "group_call rows n k ta tb kwargs"
  shows "group_gemm_key kwargs = Ok (''total_m'' @ int_string (rows div 5000) @ ''x5000_n'' @ int_string n @ ''_k'' @ int_string k @ ''_'' @
    kwarg_string (KBool ta) @ ''_'' @ kwarg_string (KBool tb))"
proof -
  have "int_string 5000 = ''5000''" by (simp add: int_string_def nat_str.simps char_of_def bit_Suc_0_iff)
  moreover have "map lower_char ''total_M'' = ''total_m''" "map lower_char ''N'' = ''n''" "map lower_char ''K'' = ''k''"
    by (simp_all add: lower_char_def char_of_def bit_Suc_0_iff)
  ultimately show ?thesis using assms by (simp add: group_gemm_key_def algo_key_scaled_def key_part_def group_call_def)
qed

theorem group_keys_tell_calls_apart:
  assumes "group_call rows n k ta tb kw" "group_call rows' n' k' ta' tb' kw'"
    and "0 \<le> rows" "0 \<le> n" "0 \<le> k" "0 \<le> rows'" "0 \<le> n'" "0 \<le> k'"
  shows "group_gemm_key kw = group_gemm_key kw' \<longleftrightarrow> (rows div 5000, n, k, ta, tb) = (rows' div 5000, n', k', ta', tb')"
    and "group_gemm_key kw \<noteq> Ok CATCH_ALL_ALGO_KEY"
proof -
  have nd: "\<not> digit_char CHR ''x''" "\<not> digit_char CHR ''_''" by (simp_all add: digit_char_def)
  have r: "0 \<le> rows div 5000" "0 \<le> rows' div 5000" using assms(3,6) by simp_all
  show "group_gemm_key kw = group_gemm_key kw' \<longleftrightarrow> (rows div 5000, n, k, ta, tb) = (rows' div 5000, n', k', ta', tb')"
    unfolding group_key_text [OF assms(1)] group_key_text [OF assms(2)]
    using number_end [OF r nd(1)] number_end [OF assms(4,7) nd(2)] number_end [OF assms(5,8) nd(2)] by (auto split: if_splits)
  show "group_gemm_key kw \<noteq> Ok CATCH_ALL_ALGO_KEY" by (simp add: group_key_text [OF assms(1)])
qed

section \<open>A call always has a configuration\<close>

lemma init_pretuned_catch_all: "init_pretuned fn maker configs = Ok pk \<Longrightarrow> CATCH_ALL_ALGO_KEY \<in> dom (pt_configs pk)"
  by (auto simp: init_pretuned_def split: if_splits)

lemma decorated_has_catch_all: "pretuned env load algo_key fallback fn = Ok pk \<Longrightarrow> CATCH_ALL_ALGO_KEY \<in> dom (pt_configs pk)"
  unfolding pretuned_def by (simp only: rbind_eq_Ok) (metis init_pretuned_catch_all res.distinct(1))

text \<open>A decorated kernel has a catch-all configuration, so a call whose key can be made always finds one.\<close>

theorem pretuned_call_finds_a_config:
  assumes "pretuned env load algo_key fallback fn = Ok pk" "is_untuned_warning_suppressed env = Ok w"
    and "pt_key_maker pk kwargs = Ok key"
  shows "\<exists>c. chosen_config env pk kwargs = Ok c \<and> (pt_configs pk key = Some c \<or> pt_configs pk key = None \<and> pt_configs pk CATCH_ALL_ALGO_KEY = Some c)"
proof -
  have "CATCH_ALL_ALGO_KEY \<in> dom (pt_configs pk)" using decorated_has_catch_all [OF assms(1)] .
  then show ?thesis using assms(2,3) by (auto simp: chosen_config_def split: option.split)
qed

text \<open>
  The repository ships no files of hyperparameters: without files every call runs with the fallback of the decorator, whatever
  its key. For the grouped product these are the tiles of 128 by 128 by 32 in groups of 8.
\<close>

lemma no_files: "read (prefix_path @ suffix_bpex) = None \<Longrightarrow> listdir prefix_path = None \<Longrightarrow>
    load_all_configs read listdir parse_all parse prefix_path = Ok Map.empty"
  by (simp add: load_all_configs_def)

theorem untuned_calls_use_the_fallback:
  assumes "load (innermost_fn fn) = Ok Map.empty" "is_untuned_warning_suppressed env = Ok w"
    and "algo_key = None \<or> (\<exists>maker key. algo_key = Some maker \<and> maker kwargs = Ok key)" "fst ` set fb \<inter> dom kwargs = {}"
  shows "rbind (pretuned env load algo_key (Some fb) fn) (\<lambda>pk. run_pretuned env launch pk kwargs) =
    launch fn (kwargs ++ map_of (map (\<lambda>(k, v). (k, KInt v)) fb))"
proof -
  obtain maker key where maker: "maker = (case algo_key of None \<Rightarrow> catch_all | Some k \<Rightarrow> k)" "maker kwargs = Ok key"
    using assms(3) by (cases algo_key) (auto simp: catch_all_def)
  then have "chosen_config env \<lparr>pt_fn = fn, pt_key_maker = maker, pt_configs = [CATCH_ALL_ALGO_KEY \<mapsto> Some fb]\<rparr> kwargs = Ok (Some fb)"
    using assms(2) by (simp add: chosen_config_def)
  then show ?thesis using assms(1,2,4) maker(1) [symmetric] by (simp add: pretuned_def init_pretuned_def run_pretuned_def)
qed

text \<open>A file of its own for a key takes precedence over the file of the kernel; without a fallback an untuned kernel fails at once.\<close>

lemma dedicated_file_wins:
  assumes "listdir p = Some [(key @ suffix_bpex, True)]" "read (p @ suffix_bpex) = Some t" "parse_all t = Ok common"
    and "read (p @ ''/'' @ key @ suffix_bpex) = Some t'" "parse t' = Ok c"
  shows "load_all_configs read listdir parse_all parse p = Ok (common(key \<mapsto> c))"
  using assms by (simp add: load_all_configs_def ends_with_def suffix_def)

lemma no_fallback_fails:
  "load (innermost_fn fn) = Ok Map.empty \<Longrightarrow> is_untuned_warning_suppressed env = Ok w \<Longrightarrow> pretuned env load algo_key None fn = Raise AssertionError"
  by (simp add: pretuned_def)

end
