(* ===== verification/Group_Gemm.thy ===== *)
theory Group_Gemm
  imports Moe_Kernels
begin

text \<open>
  What the grouped products of \<open>src/vexact/batch_invariant_ops/group_gemm/kernel/group_gemm.py\<close> compute: every
  row of a group is multiplied with the weight of that group (\<open>group_gemm_same_nk\<close>, the expert layers), and
  every group has its own product over the group's rows (\<open>group_gemm_same_mn\<close>, the weight gradients).
\<close>

section \<open>Rows times the weight of their group\<close>

text \<open>Where the element \<open>(k, n)\<close> of the weight of group \<open>e\<close> lies.\<close>

definition weight_index :: "bool \<Rightarrow> nat \<Rightarrow> nat \<Rightarrow> nat \<Rightarrow> nat \<Rightarrow> nat \<Rightarrow> nat" where
  "weight_index transpose_b N K e k n = e * K * N + (if transpose_b then n * K + k else k * N + n)"

lemma weight_index_less:
  assumes "e < G" "k < K" "n < N"
  shows "weight_index tb N K e k n < G * K * N"
proof -
  have "n * K + k < K * N" "k * N + n < K * N"
    using row_in_bounds [of n N "replicate (N * K) ()" K k] row_in_bounds [of k K "replicate (K * N) ()" N n] assms
    by (simp_all add: mult.commute)
  moreover have "Suc e * (K * N) \<le> G * (K * N)" using assms(1) by (intro mult_le_mono1) simp
  ultimately show ?thesis by (auto simp: weight_index_def mult.assoc)
qed

text \<open>Groups of rows: \<open>cum\<close> lists where each group ends.\<close>

definition groups_ok :: "nat list \<Rightarrow> nat \<Rightarrow> nat \<Rightarrow> bool" where
  "groups_ok cum G rows \<longleftrightarrow> length cum = G \<and> (\<forall>e<G. group_start cum e \<le> cum ! e) \<and> (\<forall>e<G. cum ! e \<le> rows)"

lemma group_mono: "groups_ok cum G rows \<Longrightarrow> e < f \<Longrightarrow> f < G \<Longrightarrow> cum ! e \<le> group_start cum f"
proof (induction f)
  case (Suc f)
  show ?case
  proof (cases "e = f")
    case False
    then have "cum ! e \<le> group_start cum f" using Suc by simp
    also have "\<dots> \<le> cum ! f" using Suc.prems by (simp add: groups_ok_def)
    finally show ?thesis by (simp add: group_start_def)
  qed (simp add: group_start_def)
qed simp

lemma group_unique:
  assumes "groups_ok cum G rows" "e < G" "f < G"
    and "group_start cum e \<le> p" "p < cum ! e" "group_start cum f \<le> p" "p < cum ! f"
  shows "e = f"
  using group_mono [OF assms(1), of e f] group_mono [OF assms(1), of f e] assms by (cases e f rule: linorder_cases) simp_all

definition group_tiles_ok :: "group_gemm \<Rightarrow> bool" where
  "group_tiles_ok g \<longleftrightarrow> 16 dvd gg_block_k g \<and> 0 < gg_block_k g \<and> 0 < gg_block_m g \<and> 0 < gg_block_n g \<and> 0 < gg_group g"

definition group_element ::
    "group_gemm \<Rightarrow> ('f, 'a) gemm_ops \<Rightarrow> ('f list \<Rightarrow> 'f list \<Rightarrow> 'a \<Rightarrow> 'a) \<Rightarrow> 'f memory \<Rightarrow> 'f memory \<Rightarrow> nat list \<Rightarrow> nat \<Rightarrow> nat \<Rightarrow> nat \<Rightarrow> 'f" where
  "group_element g ops mma a b cum e r n = op_round ops
     (mma (map (\<lambda>k. a (int (group_start cum e * gg_k g) + int (r * gg_k g + k))) [0..<gg_k g])
          (map (\<lambda>k. b (int (weight_index (gg_transpose_b g) (gg_n g) (gg_k g) e k n))) [0..<gg_k g]) (acc_zero ops))"

lemma group_accumulate:
  assumes "row_independent ops mma" "group_tiles_ok g" "i < gg_block_m g" "j < gg_block_n g"
    and "m * gg_block_m g + i < s" "n * gg_block_n g + j < gg_n g"
  shows "op_round ops (fold (\<lambda>ki c. op_dot ops (gg_block_m g) (gg_block_n g) (gg_block_k g)
       (group_load_a g ops a (group_start cum e) s m ki) (group_load_b g ops b e n ki) c) [0..<cdiv (gg_k g) (gg_block_k g)] (\<lambda>i j. acc_zero ops) i j) =
     group_element g ops mma a b cum e (m * gg_block_m g + i) (n * gg_block_n g + j)"
proof -
  let ?r = "m * gg_block_m g + i" and ?c = "n * gg_block_n g + j"
  let ?fa = "\<lambda>k. a (int (group_start cum e * gg_k g) + int (?r * gg_k g + k))"
  let ?fb = "\<lambda>k. b (int (weight_index (gg_transpose_b g) (gg_n g) (gg_k g) e k ?c))"
  have bk: "16 dvd gg_block_k g" "0 < gg_block_k g" using assms(2) by (simp_all add: group_tiles_ok_def)
  have "fold (\<lambda>ki c. op_dot ops (gg_block_m g) (gg_block_n g) (gg_block_k g)
       (group_load_a g ops a (group_start cum e) s m ki) (group_load_b g ops b e n ki) c) [0..<cdiv (gg_k g) (gg_block_k g)] (\<lambda>i j. acc_zero ops) i j =
     mma (map ?fa [0..<gg_k g]) (map ?fb [0..<gg_k g]) (acc_zero ops)"
  proof (rule dot_steps [OF assms(1) bk assms(3,4)])
    fix ki assume ki: "ki * gg_block_k g < gg_k g"
    have a: "(\<lambda>kk. group_load_a g ops a (group_start cum e) s m ki i kk) =
        (\<lambda>kk. if kk < gg_k g - ki * gg_block_k g then ?fa (ki * gg_block_k g + kk) else op_zero ops)"
      using assms(5) by (intro ext) (simp only: group_load_a_def Let_def mod_less)
    show "map (\<lambda>kk. group_load_a g ops a (group_start cum e) s m ki i kk) [0..<gg_block_k g] =
        segment (op_zero ops) (gg_block_k g) ki (map ?fa [0..<gg_k g])"
      unfolding a by (rule segment_padded [OF ki])
    have b: "(\<lambda>kk. group_load_b g ops b e n ki kk j) =
        (\<lambda>kk. if kk < gg_k g - ki * gg_block_k g then ?fb (ki * gg_block_k g + kk) else op_zero ops)"
      using assms(6) by (intro ext) (auto simp: group_load_b_def Let_def weight_index_def)
    show "map (\<lambda>kk. group_load_b g ops b e n ki kk j) [0..<gg_block_k g] =
        segment (op_zero ops) (gg_block_k g) ki (map ?fb [0..<gg_k g])"
      unfolding b by (rule segment_padded [OF ki])
  qed simp_all
  then show ?thesis by (simp only: group_element_def)
qed

text \<open>The cells one program stores.\<close>

lemma group_program_stores:
  assumes "row_independent ops mma" "group_tiles_ok g"
    and "compute_pid pid (gg_group g * cdiv (gg_n g) (gg_block_n g)) (cdiv (gg_max_m g) (gg_block_m g)) (gg_group g) = (pm, pn)"
  shows "set (fst (group_program g ops widen a b cum None None (pid, e))) =
    {(int (group_start cum e * gg_n g) + int (r * gg_n g + n), group_element g ops mma a b cum e r n) | r n.
       r < cum ! e - group_start cum e \<and> n < gg_n g \<and> r div gg_block_m g = pm \<and> n div gg_block_n g = pn}"
    (is "_ = ?R")
proof (cases "cum ! e - group_start cum e \<le> pm * gg_block_m g")
  case True
  have "r div gg_block_m g \<noteq> pm" if "r < cum ! e - group_start cum e" for r
  proof -
    have "r < pm * gg_block_m g" using True that by linarith
    then have "r div gg_block_m g < pm" by (simp add: less_mult_imp_div_less)
    then show ?thesis by simp
  qed
  then have "?R = {}" by auto
  then show ?thesis using True assms(3) by (simp add: group_program_def Let_def)
next
  case False
  have bmn: "0 < gg_block_m g" "0 < gg_block_n g" using assms(2) by (simp_all add: group_tiles_ok_def)
  show ?thesis
    unfolding group_program_def Let_def prod.case assms(3) if_not_P [OF False] fst_conv option.case
  proof (rule tile_cells [OF bmn, where addr = "\<lambda>r n. int (group_start cum e * gg_n g) + int (r * gg_n g + n)"])
    fix i j assume "i < gg_block_m g" "j < gg_block_n g" "pm * gg_block_m g + i < cum ! e - group_start cum e" "pn * gg_block_n g + j < gg_n g"
    then show "op_round ops (fold (\<lambda>ki c. op_dot ops (gg_block_m g) (gg_block_n g) (gg_block_k g)
        (group_load_a g ops a (group_start cum e) (cum ! e - group_start cum e) pm ki) (group_load_b g ops b e pn ki) c)
          [0..<cdiv (gg_k g) (gg_block_k g)] (\<lambda>i j. acc_zero ops) i j) =
      group_element g ops mma a b cum e (pm * gg_block_m g + i) (pn * gg_block_n g + j)"
      by (rule group_accumulate [OF assms(1,2)])
  qed
qed

text \<open>
  A launch over a grid of tiles and groups, whose programs store one value per cell of their tile, leaves
  that value in every cell; \<open>R e\<close> is the number of rows of group \<open>e\<close>, \<open>addr\<close> keeps cells apart.
\<close>

lemma tiled_launch_cell:
  assumes "0 < bm" "0 < bn" "0 < gs" "set ord = {..<cdiv M bm * cdiv N bn} \<times> {..<G}"
    and stores: "\<And>t f. t < cdiv M bm * cdiv N bn \<Longrightarrow> f < G \<Longrightarrow> set (F (t, f)) = {(addr f r c, val f r c) | r c. r < R f \<and> c < N \<and>
       r div bm = fst (compute_pid t (gs * cdiv N bn) (cdiv M bm) gs) \<and> c div bn = snd (compute_pid t (gs * cdiv N bn) (cdiv M bm) gs)}"
    and inj: "\<And>f r c. f < G \<Longrightarrow> r < R f \<Longrightarrow> c < N \<Longrightarrow> addr f r c = addr e p n \<Longrightarrow> f = e \<and> r = p \<and> c = n"
    and "R e \<le> M" "e < G" "p < R e" "n < N"
  shows "apply_stores (concat (map F ord)) mem (addr e p n) = val e p n"
proof (rule apply_stores_agree)
  let ?pid = "\<lambda>t. compute_pid t (gs * cdiv N bn) (cdiv M bm) gs"
  have "p div bm < cdiv M bm" using assms(7,9) div_times_less_eq_dividend [of p bm] less_cdiv [OF assms(1)] by (meson le_less_trans less_le_trans)
  moreover have "n div bn < cdiv N bn" using assms(10) div_times_less_eq_dividend [of n bn] less_cdiv [OF assms(2)] by (meson le_less_trans)
  ultimately obtain t where t: "t < cdiv M bm * cdiv N bn" "?pid t = (p div bm, n div bn)"
    using pid_surjective [OF _ _ assms(3)] by blast
  then have "(t, e) \<in> set ord" using assms(4,8) by simp
  moreover have "(addr e p n, val e p n) \<in> set (F (t, e))" unfolding stores [OF t(1) assms(8)] t(2) using assms(9,10) by auto
  ultimately show "(addr e p n, val e p n) \<in> set (concat (map F ord))" unfolding set_concat set_map by blast
  fix v assume "(addr e p n, v) \<in> set (concat (map F ord))"
  then obtain t f where tf: "(t, f) \<in> set ord" "(addr e p n, v) \<in> set (F (t, f))" unfolding set_concat set_map by auto
  then have "t < cdiv M bm * cdiv N bn" "f < G" using assms(4) by simp_all
  note st = stores [OF this] and f = this(2)
  from tf(2) obtain r c where "addr e p n = addr f r c" "v = val f r c" "r < R f" "c < N" unfolding st by blast
  with inj [OF f, of r c] show "v = val e p n" by simp
qed

text \<open>A launch leaves in every row of a group the products of that row with the group's weight.\<close>

lemma group_launch_cell:
  assumes "row_independent ops mma" "group_tiles_ok g" "set ord = group_grid g G" "groups_ok cum G rows"
    and "\<forall>e<G. cum ! e - group_start cum e \<le> gg_max_m g"
    and "e < G" "group_start cum e \<le> p" "p < cum ! e" "n < gg_n g"
  shows "apply_stores (concat (map (\<lambda>pids. fst (group_program g ops widen a b cum None None pids)) ord)) mem (int (p * gg_n g + n)) =
    group_element g ops mma a b cum e (p - group_start cum e) n"
proof -
  let ?addr = "\<lambda>e r n. int (group_start cum e * gg_n g) + int (r * gg_n g + n)"
  let ?R = "\<lambda>e. cum ! e - group_start cum e" and ?r = "p - group_start cum e"
  have pos: "0 < gg_block_m g" "0 < gg_block_n g" "0 < gg_group g" using assms(2) by (simp_all add: group_tiles_ok_def)
  have addr: "?addr e ?r n = int (p * gg_n g + n)"
  proof -
    have "p = group_start cum e + ?r" using assms(7) by simp
    then have "p * gg_n g = group_start cum e * gg_n g + ?r * gg_n g" by (metis add_mult_distrib)
    then show ?thesis by simp
  qed
  have "apply_stores (concat (map (\<lambda>pids. fst (group_program g ops widen a b cum None None pids)) ord)) mem (?addr e ?r n) =
      group_element g ops mma a b cum e ?r n"
  proof (rule tiled_launch_cell [OF pos assms(3) [unfolded group_grid_def], where addr = ?addr and R = ?R])
    show "set (fst (group_program g ops widen a b cum None None (t, f))) = {(?addr f r c, group_element g ops mma a b cum f r c) | r c.
        r < ?R f \<and> c < gg_n g \<and>
        r div gg_block_m g = fst (compute_pid t (gg_group g * cdiv (gg_n g) (gg_block_n g)) (cdiv (gg_max_m g) (gg_block_m g)) (gg_group g)) \<and>
        c div gg_block_n g = snd (compute_pid t (gg_group g * cdiv (gg_n g) (gg_block_n g)) (cdiv (gg_max_m g) (gg_block_m g)) (gg_group g))}" for t f
      by (rule group_program_stores [OF assms(1,2)]) (simp only: prod.collapse)
    fix f r c assume f: "f < G" "r < ?R f" "c < gg_n g" "?addr f r c = ?addr e ?r n"
    then have "(group_start cum f + r) * gg_n g + c = p * gg_n g + n"
      unfolding addr by (simp add: add_mult_distrib flip: of_nat_add of_nat_mult)
    then have eq: "group_start cum f + r = p" "c = n"
      using mult_add_div [OF assms(9), of p] mult_add_div [OF f(3), of "group_start cum f + r"]
        mult_add_mod [OF assms(9), of p] mult_add_mod [OF f(3), of "group_start cum f + r"] by metis+
    then have "group_start cum f \<le> p" "p < cum ! f" using f(2) by simp_all
    from group_unique [OF assms(4) f(1) assms(6) this assms(7,8)] eq show "f = e \<and> r = ?r \<and> c = n" by simp
  qed (use assms in auto)
  then show ?thesis unfolding addr .
qed

definition wrapper_gemm :: "nat \<Rightarrow> nat \<Rightarrow> nat \<Rightarrow> bool \<Rightarrow> group_gemm" where
  "wrapper_gemm N K max_m tb = \<lparr>gg_n = N, gg_k = K, gg_block_m = 128, gg_block_n = 128, gg_block_k = 32, gg_group = 8,
     gg_max_m = max_m, gg_transpose_b = tb\<rparr>"

lemma wrapper_gemm_simps [simp]:
  "gg_n (wrapper_gemm N K m tb) = N" "gg_k (wrapper_gemm N K m tb) = K" "gg_max_m (wrapper_gemm N K m tb) = m"
  "gg_transpose_b (wrapper_gemm N K m tb) = tb" "group_tiles_ok (wrapper_gemm N K m tb)"
  by (simp_all add: wrapper_gemm_def group_tiles_ok_def)

lemma launch_entry:
  fixes g :: group_gemm and ops :: "('f, 'a) gemm_ops"
  defines "N \<equiv> gg_n g" and "K \<equiv> gg_k g" and "z \<equiv> op_zero ops"
  assumes "row_independent ops mma" "group_tiles_ok g" "set ord = group_grid g G" "groups_ok cum G rows"
    and "\<forall>e<G. cum ! e - group_start cum e \<le> gg_max_m g" "length a = rows * K" "length b = G * K * N"
    and e: "e < G" "group_start cum e \<le> p" "p < cum ! e" "n < N"
  shows "read_back (rows * N) (apply_stores (concat (map (\<lambda>pids. fst (group_program g ops widen (mem_of z a) (mem_of z b) cum None None pids)) ord)) mem) ! (p * N + n) =
    op_round ops (mma (map (\<lambda>k. a ! (p * K + k)) [0..<K]) (map (\<lambda>k. b ! weight_index (gg_transpose_b g) N K e k n) [0..<K]) (acc_zero ops))"
    (is "read_back _ ?mem ! _ = ?r")
proof -
  have p: "p < rows" using assms(7) e by (auto simp: groups_ok_def)
  then have "p * N + n < rows * N" using row_in_bounds [of p rows "replicate (rows * N) ()" N n] e(4) by simp
  then have "read_back (rows * N) ?mem ! (p * N + n) = ?mem (int (p * N + n))" by (simp add: read_back_def)
  also have "\<dots> = group_element g ops mma (mem_of z a) (mem_of z b) cum e (p - group_start cum e) n"
    using group_launch_cell [OF assms(4-8) e(1-3)] e(4) unfolding N_def by blast
  also have "\<dots> = ?r"
  proof -
    have row: "mem_of z a (int (group_start cum e * K) + int ((p - group_start cum e) * K + k)) = a ! (p * K + k)" if "k < K" for k
    proof -
      have "group_start cum e * K + (p - group_start cum e) * K = p * K" using e(2) by (simp flip: add_mult_distrib)
      then have "int (group_start cum e * K) + int ((p - group_start cum e) * K + k) = int (p * K) + int k" by linarith
      then show ?thesis using mem_of_row [OF row_in_bounds [OF p assms(9) that]] by (simp only:)
    qed
    have col: "mem_of z b (int (weight_index tb N K e k n)) = b ! weight_index tb N K e k n" if "k < K" for k tb
      using weight_index_less [OF e(1) that e(4), of tb] unfolding assms(10) [symmetric] by (simp add: mem_of_def)
    have "map (\<lambda>k. mem_of z a (int (group_start cum e * K) + int ((p - group_start cum e) * K + k))) [0..<K] = map (\<lambda>k. a ! (p * K + k)) [0..<K]"
      "map (\<lambda>k. mem_of z b (int (weight_index tb N K e k n))) [0..<K] = map (\<lambda>k. b ! weight_index tb N K e k n) [0..<K]" for tb
      using row col by simp_all
    then show ?thesis by (simp only: group_element_def flip: N_def K_def)
  qed
  finally show ?thesis .
qed

lemma group_gemm_cell:
  assumes "row_independent ops mma" "\<forall>g G. set (schedule g G) = group_grid g G" "groups_ok cum G rows"
    and "\<forall>e<G. cum ! e - group_start cum e \<le> max_m" "length a = rows * K" "length b = G * K * N"
  shows "\<exists>y. group_gemm_same_nk ops widen schedule (if tb then (G, N, K) else (G, K, N)) rows a b cum max_m False tb = Ok y \<and>
    length y = rows * N \<and>
    (\<forall>e<G. \<forall>p n. group_start cum e \<le> p \<longrightarrow> p < cum ! e \<longrightarrow> n < N \<longrightarrow> y ! (p * N + n) =
      op_round ops (mma (map (\<lambda>k. a ! (p * K + k)) [0..<K]) (map (\<lambda>k. b ! weight_index tb N K e k n) [0..<K]) (acc_zero ops)))"
proof -
  let ?g = "wrapper_gemm N K max_m tb" and ?z = "op_zero ops"
  let ?mem = "apply_stores (concat (map (\<lambda>pids. fst (group_program ?g ops widen (mem_of ?z a) (mem_of ?z b) cum None None pids)) (schedule ?g G))) (\<lambda>_. ?z)"
  have ok: "group_gemm_same_nk ops widen schedule (if tb then (G, N, K) else (G, K, N)) rows a b cum max_m False tb = Ok (read_back (rows * N) ?mem)"
    using assms(3) by (cases tb) (simp_all add: group_gemm_same_nk_def wrapper_gemm_def groups_ok_def Let_def)
  have grid: "set (schedule ?g G) = group_grid ?g G" using assms(2) by blast
  show ?thesis
    unfolding ok using launch_entry [OF assms(1) wrapper_gemm_simps(5) grid assms(3), of a b, unfolded wrapper_gemm_simps, OF assms(4-6)]
    by (intro exI [of _ "read_back (rows * N) ?mem"]) (auto simp: read_back_def)
qed

section \<open>One product per group\<close>

text \<open>
  The weight gradients: \<open>a\<close> and \<open>b\<close> hold the rows of all groups, the product of group \<open>e\<close> sums over its own
  rows. \<open>pad\<close> is what a block load gives outside the matrix. A block that is known to fit is loaded without
  checks, which then make no difference.
\<close>

record gemm_mn =
  mn_m :: nat
  mn_n :: nat
  mn_block_m :: nat
  mn_block_n :: nat
  mn_block_k :: nat
  mn_group :: nat
  mn_transpose_a :: bool
  mn_transpose_b :: bool

definition block_load :: "'f \<Rightarrow> 'f memory \<Rightarrow> nat \<Rightarrow> nat \<times> nat \<Rightarrow> nat \<times> nat \<Rightarrow> nat \<times> nat \<Rightarrow> nat \<Rightarrow> nat \<Rightarrow> 'f" where
  "block_load pad mem base shp strides offsets i j =
     (let x = fst offsets + i; y = snd offsets + j
      in if x < fst shp \<and> y < snd shp then mem (int (base + (x * fst strides + y * snd strides))) else pad)"

definition mn_program ::
    "gemm_mn \<Rightarrow> ('f, 'a) gemm_ops \<Rightarrow> ('a \<Rightarrow> 'a \<Rightarrow> 'a) \<Rightarrow> 'f \<Rightarrow> 'f memory \<Rightarrow> 'f memory \<Rightarrow> nat list \<Rightarrow> nat \<times> nat \<Rightarrow> 'f stores" where
  "mn_program g ops acc_add pad a b cum pids =
     (let (pid, gid) = pids; M = mn_m g; N = mn_n g; bm = mn_block_m g; bn = mn_block_n g; bk = mn_block_k g;
          (m, n) = compute_pid pid (mn_group g * cdiv N bn) (cdiv M bm) (mn_group g);
          start = group_start cum gid; k = cum ! gid - start;
          a_block = (\<lambda>ki. block_load pad a (start * M) (M, k) (if mn_transpose_a g then (1, M) else (k, 1)) (m * bm, ki * bk));
          b_block = (\<lambda>ki. block_load pad b (start * N) (k, N) (if mn_transpose_b g then (1, k) else (N, 1)) (ki * bk, n * bn));
          zeros = (\<lambda>i j. acc_zero ops);
          res = (if k = 0 then zeros
                 else fold (\<lambda>ki c. let d = op_dot ops bm bn bk (a_block ki) (b_block ki) zeros in (\<lambda>i j. acc_add (c i j) (d i j)))
                        [0..<cdiv k bk] zeros)
      in concat (map (\<lambda>i. concat (map (\<lambda>j. if m * bm + i < M \<and> n * bn + j < N
             then [(int (gid * M * N) + int ((m * bm + i) * N + (n * bn + j)), op_round ops (res i j))] else [])
           [0..<bn])) [0..<bm]))"

definition group_gemm_same_mn ::
    "('f, 'a) gemm_ops \<Rightarrow> ('a \<Rightarrow> 'a \<Rightarrow> 'a) \<Rightarrow> 'f \<Rightarrow> (gemm_mn \<Rightarrow> nat \<Rightarrow> (nat \<times> nat) list) \<Rightarrow> nat \<times> nat \<times> nat \<Rightarrow> 'f list \<Rightarrow> 'f list
       \<Rightarrow> nat list \<Rightarrow> bool \<Rightarrow> bool \<Rightarrow> 'f list res" where
  "group_gemm_same_mn ops acc_add pad schedule shape_c a b cum transpose_a transpose_b =
     (let (G, M, N) = shape_c;
          g = \<lparr>mn_m = M, mn_n = N, mn_block_m = 128, mn_block_n = 128, mn_block_k = 32, mn_group = 8,
               mn_transpose_a = transpose_a, mn_transpose_b = transpose_b\<rparr>
      in if length cum \<noteq> G then Raise AssertionError
         else Ok (read_back (G * M * N) (apply_stores
           (concat (map (mn_program g ops acc_add pad (mem_of (op_zero ops) a) (mem_of (op_zero ops) b) cum) (schedule g G)))
           (\<lambda>_. op_zero ops))))"

text \<open>The tiles of one axis along the rows of a group.\<close>

definition mn_element ::
    "('f, 'a) gemm_ops \<Rightarrow> ('a \<Rightarrow> 'a \<Rightarrow> 'a) \<Rightarrow> ('f list \<Rightarrow> 'f list \<Rightarrow> 'a \<Rightarrow> 'a) \<Rightarrow> nat \<Rightarrow> 'f list \<Rightarrow> 'f list \<Rightarrow> 'f" where
  "mn_element ops acc_add mma bk xs ys = op_round ops
     (fold (\<lambda>ki s. acc_add s (mma (segment (op_zero ops) bk ki xs) (segment (op_zero ops) bk ki ys) (acc_zero ops))) [0..<cdiv (length xs) bk] (acc_zero ops))"

lemma fold_pointwise:
  "fold (\<lambda>ki c. let d = D ki in (\<lambda>i j. f (c i j) (d i j))) ks c i j = fold (\<lambda>ki s. f s (D ki i j)) ks (c i j)"
  by (induction ks arbitrary: c) (simp_all add: Let_def)

definition mn_a :: "gemm_mn \<Rightarrow> 'f memory \<Rightarrow> nat list \<Rightarrow> nat \<Rightarrow> nat \<Rightarrow> 'f list" where
  "mn_a g a cum e r = (let k = cum ! e - group_start cum e; st = (if mn_transpose_a g then (1, mn_m g) else (k, 1))
     in map (\<lambda>kk. a (int (group_start cum e * mn_m g + (r * fst st + kk * snd st)))) [0..<k])"

definition mn_b :: "gemm_mn \<Rightarrow> 'f memory \<Rightarrow> nat list \<Rightarrow> nat \<Rightarrow> nat \<Rightarrow> 'f list" where
  "mn_b g b cum e c = (let k = cum ! e - group_start cum e; st = (if mn_transpose_b g then (1, k) else (mn_n g, 1))
     in map (\<lambda>kk. b (int (group_start cum e * mn_n g + (kk * fst st + c * snd st)))) [0..<k])"

definition mn_ok :: "gemm_mn \<Rightarrow> bool" where
  "mn_ok g \<longleftrightarrow> 0 < mn_block_k g \<and> 0 < mn_block_m g \<and> 0 < mn_block_n g \<and> 0 < mn_group g"

lemma mn_program_stores:
  assumes "row_independent ops mma" "mn_ok g"
    and "compute_pid t (mn_group g * cdiv (mn_n g) (mn_block_n g)) (cdiv (mn_m g) (mn_block_m g)) (mn_group g) = (pm, pn)"
  shows "set (mn_program g ops acc_add (op_zero ops) a b cum (t, e)) =
    {(int (e * mn_m g * mn_n g) + int (r * mn_n g + c), mn_element ops acc_add mma (mn_block_k g) (mn_a g a cum e r) (mn_b g b cum e c)) | r c.
       r < mn_m g \<and> c < mn_n g \<and> r div mn_block_m g = pm \<and> c div mn_block_n g = pn}"
proof -
  let ?k = "cum ! e - group_start cum e" and ?M = "mn_m g" and ?N = "mn_n g" and ?bk = "mn_block_k g"
  let ?z = "op_zero ops"
  let ?A = "\<lambda>ki. block_load ?z a (group_start cum e * ?M) (?M, ?k) (if mn_transpose_a g then (1, ?M) else (?k, 1)) (pm * mn_block_m g, ki * ?bk)"
  let ?B = "\<lambda>ki. block_load ?z b (group_start cum e * ?N) (?k, ?N) (if mn_transpose_b g then (1, ?k) else (?N, 1)) (ki * ?bk, pn * mn_block_n g)"
  have pos: "0 < mn_block_m g" "0 < mn_block_n g" "0 < ?bk" using assms(2) by (simp_all add: mn_ok_def)
  have zero: "cdiv 0 ?bk = 0" using pos(3) less_cdiv [OF pos(3), of 0 0] by simp
  show ?thesis
    unfolding mn_program_def Let_def prod.case assms(3)
  proof (rule tile_cells [OF pos(1,2), where addr = "\<lambda>r c. int (e * ?M * ?N) + int (r * ?N + c)"])
    fix i j assume ij: "i < mn_block_m g" "j < mn_block_n g" "pm * mn_block_m g + i < ?M" "pn * mn_block_n g + j < ?N"
    let ?r = "pm * mn_block_m g + i" and ?c = "pn * mn_block_n g + j"
    have len: "length (mn_a g a cum e ?r) = ?k" by (simp add: mn_a_def Let_def)
    have segs: "map (\<lambda>kk. ?A ki i kk) [0..<?bk] = segment ?z ?bk ki (mn_a g a cum e ?r)"
      "map (\<lambda>kk. ?B ki kk j) [0..<?bk] = segment ?z ?bk ki (mn_b g b cum e ?c)" if ki: "ki * ?bk < ?k" for ki
      unfolding mn_a_def mn_b_def Let_def segment_padded [OF ki, symmetric]
      using ij(3,4) by (auto simp: block_load_def Let_def)
    have d: "op_dot ops (mn_block_m g) (mn_block_n g) ?bk (?A ki) (?B ki) (\<lambda>i j. acc_zero ops) i j =
        mma (segment ?z ?bk ki (mn_a g a cum e ?r)) (segment ?z ?bk ki (mn_b g b cum e ?c)) (acc_zero ops)" if "ki * ?bk < ?k" for ki
      using assms(1) ij(1,2) unfolding row_independent_def segs [OF that, symmetric] by blast
    have f: "fold (\<lambda>ki s. acc_add s (op_dot ops (mn_block_m g) (mn_block_n g) ?bk (?A ki) (?B ki) (\<lambda>i j. acc_zero ops) i j)) [0..<cdiv ?k ?bk] (acc_zero ops) =
        fold (\<lambda>ki s. acc_add s (mma (segment ?z ?bk ki (mn_a g a cum e ?r)) (segment ?z ?bk ki (mn_b g b cum e ?c)) (acc_zero ops))) [0..<cdiv ?k ?bk] (acc_zero ops)"
      using d less_cdiv [OF pos(3)] by (intro fold_cong refl) auto
    show "op_round ops ((if ?k = 0 then \<lambda>i j. acc_zero ops else fold (\<lambda>ki c. (\<lambda>i j. acc_add (c i j)
          (op_dot ops (mn_block_m g) (mn_block_n g) ?bk (?A ki) (?B ki) (\<lambda>i j. acc_zero ops) i j))) [0..<cdiv ?k ?bk] (\<lambda>i j. acc_zero ops)) i j) =
      mn_element ops acc_add mma ?bk (mn_a g a cum e ?r) (mn_b g b cum e ?c)"
    proof (cases "?k = 0")
      case True
      then show ?thesis using zero len by (simp add: mn_element_def)
    next
      case False
      then show ?thesis unfolding mn_element_def len f [symmetric]
        using fold_pointwise [of "\<lambda>ki. op_dot ops (mn_block_m g) (mn_block_n g) ?bk (?A ki) (?B ki) (\<lambda>i j. acc_zero ops)" acc_add "[0..<cdiv ?k ?bk]" "\<lambda>i j. acc_zero ops" i j]
        by (simp only: Let_def if_False)
    qed
  qed
qed

text \<open>
  With blocks padded with zeros, the gradient of a weight entry sums the products over the rows of its
  expert, and the gradient of an expert without rows is zero.
\<close>

lemma group_mn_launch_cell:
  assumes "row_independent ops mma" "mn_ok g"
    and "set ord = {..<cdiv (mn_m g) (mn_block_m g) * cdiv (mn_n g) (mn_block_n g)} \<times> {..<G}" "e < G" "r < mn_m g" "c < mn_n g"
  shows "apply_stores (concat (map (mn_program g ops acc_add (op_zero ops) a b cum) ord)) mem (int (e * mn_m g * mn_n g) + int (r * mn_n g + c)) =
    mn_element ops acc_add mma (mn_block_k g) (mn_a g a cum e r) (mn_b g b cum e c)"
proof -
  let ?addr = "\<lambda>e r n. int (e * mn_m g * mn_n g) + int (r * mn_n g + n)"
  have pos: "0 < mn_block_m g" "0 < mn_block_n g" "0 < mn_group g" using assms(2) by (simp_all add: mn_ok_def)
  show ?thesis
  proof (rule tiled_launch_cell [OF pos assms(3), where addr = ?addr and R = "\<lambda>_. mn_m g"])
    show "set (mn_program g ops acc_add (op_zero ops) a b cum (t, f)) =
      {(?addr f r c, mn_element ops acc_add mma (mn_block_k g) (mn_a g a cum f r) (mn_b g b cum f c)) | r c. r < mn_m g \<and> c < mn_n g \<and>
        r div mn_block_m g = fst (compute_pid t (mn_group g * cdiv (mn_n g) (mn_block_n g)) (cdiv (mn_m g) (mn_block_m g)) (mn_group g)) \<and>
        c div mn_block_n g = snd (compute_pid t (mn_group g * cdiv (mn_n g) (mn_block_n g)) (cdiv (mn_m g) (mn_block_m g)) (mn_group g))}" for t f
      by (rule mn_program_stores [OF assms(1,2)]) (simp only: prod.collapse)
    fix f r' c' assume f: "f < G" "r' < mn_m g" "c' < mn_n g" "?addr f r' c' = ?addr e r c"
    have split: "int (f * mn_m g * mn_n g) + int (r * mn_n g + n) = int ((f * mn_m g + r) * mn_n g + n)" for f r n
      by (simp add: add_mult_distrib)
    have "(f * mn_m g + r') * mn_n g + c' = (e * mn_m g + r) * mn_n g + c" using f(4) unfolding split by linarith
    then have "f * mn_m g + r' = e * mn_m g + r" "c' = c"
      using mult_add_div [OF f(3)] mult_add_div [OF assms(6)] mult_add_mod [OF f(3)] mult_add_mod [OF assms(6)] by metis+
    moreover from this(1) have "f = e" "r' = r"
      using mult_add_div [OF f(2)] mult_add_div [OF assms(5)] mult_add_mod [OF f(2)] mult_add_mod [OF assms(5)] by metis+
    ultimately show "f = e \<and> r' = r \<and> c' = c" by simp
  qed (use assms in auto)
qed

end
