(* ===== verification/Triton_Utils.thy ===== *)
theory Triton_Utils
  imports Group_Gemm
begin

text \<open>
  The helpers of the grouped product's kernels (\<open>src/vexact/batch_invariant_ops/group_gemm/kernel/triton_utils/\<close>): loads and
  stores that skip a boundary check known to be unnecessary (\<open>memory.py\<close>), and the tile of a program (\<open>utils.py\<close>).
  A block of pointers or values is a function of the index in the block.
\<close>

section \<open>Loads and stores under a mask\<close>

text \<open>\<open>tl.load\<close> and \<open>tl.store\<close>; without a mask every element is accessed.\<close>

definition tl_load :: "'f memory \<Rightarrow> ('i \<Rightarrow> int) \<Rightarrow> ('i \<Rightarrow> bool) option \<Rightarrow> 'f \<Rightarrow> 'i \<Rightarrow> 'f" where
  "tl_load mem p sel other i = (case sel of None \<Rightarrow> mem (p i) | Some m \<Rightarrow> if m i then mem (p i) else other)"

definition tl_store :: "('i \<Rightarrow> int) \<Rightarrow> ('i \<Rightarrow> 'f) \<Rightarrow> ('i \<Rightarrow> bool) option \<Rightarrow> 'i list \<Rightarrow> 'f stores" where
  "tl_store p v sel block = map (\<lambda>i. (p i, v i)) (case sel of None \<Rightarrow> block | Some m \<Rightarrow> filter m block)"

definition load_with_pred_1d :: "'f memory \<Rightarrow> ('i \<Rightarrow> int) \<Rightarrow> bool \<Rightarrow> ('i \<Rightarrow> bool) \<Rightarrow> 'f \<Rightarrow> 'i \<Rightarrow> 'f" where
  "load_with_pred_1d mem p skip sel other = (if \<not> skip then tl_load mem p (Some sel) other else tl_load mem p None other)"

definition store_with_pred_1d :: "('i \<Rightarrow> int) \<Rightarrow> ('i \<Rightarrow> 'f) \<Rightarrow> bool \<Rightarrow> ('i \<Rightarrow> bool) \<Rightarrow> 'i list \<Rightarrow> 'f stores" where
  "store_with_pred_1d p v skip sel block = (if \<not> skip then tl_store p v (Some sel) block else tl_store p v None block)"

definition load_with_pred_2d :: "'f memory \<Rightarrow> ('i \<Rightarrow> int) \<Rightarrow> bool \<Rightarrow> bool \<Rightarrow> ('i \<Rightarrow> bool) \<Rightarrow> ('i \<Rightarrow> bool) \<Rightarrow> 'f \<Rightarrow> 'i \<Rightarrow> 'f" where
  "load_with_pred_2d mem p skip0 skip1 mask0 mask1 other =
     (if \<not> skip0 \<and> \<not> skip1 then tl_load mem p (Some (\<lambda>i. mask0 i \<and> mask1 i)) other
      else if \<not> skip0 \<and> skip1 then tl_load mem p (Some mask0) other
      else if skip0 \<and> \<not> skip1 then tl_load mem p (Some mask1) other
      else tl_load mem p None other)"

definition store_with_pred_2d :: "('i \<Rightarrow> int) \<Rightarrow> ('i \<Rightarrow> 'f) \<Rightarrow> bool \<Rightarrow> bool \<Rightarrow> ('i \<Rightarrow> bool) \<Rightarrow> ('i \<Rightarrow> bool) \<Rightarrow> 'i list \<Rightarrow> 'f stores" where
  "store_with_pred_2d p v skip0 skip1 mask0 mask1 block =
     (if \<not> skip0 \<and> \<not> skip1 then tl_store p v (Some (\<lambda>i. mask0 i \<and> mask1 i)) block
      else if \<not> skip0 \<and> skip1 then tl_store p v (Some mask0) block
      else if skip0 \<and> \<not> skip1 then tl_store p v (Some mask1) block
      else tl_store p v None block)"

text \<open>A block pointer into a matrix: a load pads only where a checked dimension is left.\<close>

record block_ptr =
  bp_base :: nat
  bp_shape :: "nat \<times> nat"
  bp_strides :: "nat \<times> nat"
  bp_offsets :: "nat \<times> nat"

definition block_address :: "block_ptr \<Rightarrow> nat \<times> nat \<Rightarrow> int" where
  "block_address bp ij =
     int (bp_base bp + ((fst (bp_offsets bp) + fst ij) * fst (bp_strides bp) + (snd (bp_offsets bp) + snd ij) * snd (bp_strides bp)))"

definition inside_0 :: "block_ptr \<Rightarrow> nat \<times> nat \<Rightarrow> bool" where
  "inside_0 bp ij \<longleftrightarrow> fst (bp_offsets bp) + fst ij < fst (bp_shape bp)"

definition inside_1 :: "block_ptr \<Rightarrow> nat \<times> nat \<Rightarrow> bool" where
  "inside_1 bp ij \<longleftrightarrow> snd (bp_offsets bp) + snd ij < snd (bp_shape bp)"

definition boundary_mask :: "block_ptr \<Rightarrow> nat list \<Rightarrow> nat \<times> nat \<Rightarrow> bool" where
  "boundary_mask bp dims ij \<longleftrightarrow> (0 \<in> set dims \<longrightarrow> inside_0 bp ij) \<and> (1 \<in> set dims \<longrightarrow> inside_1 bp ij)"

definition load_block_with_pred_2d :: "'f \<Rightarrow> 'f memory \<Rightarrow> block_ptr \<Rightarrow> bool \<Rightarrow> bool \<Rightarrow> nat \<times> nat \<Rightarrow> 'f" where
  "load_block_with_pred_2d pad mem bp skip0 skip1 =
     (if \<not> skip0 \<and> \<not> skip1 then tl_load mem (block_address bp) (Some (boundary_mask bp [0, 1])) pad
      else if \<not> skip0 \<and> skip1 then tl_load mem (block_address bp) (Some (boundary_mask bp [0])) pad
      else if skip0 \<and> \<not> skip1 then tl_load mem (block_address bp) (Some (boundary_mask bp [1])) pad
      else tl_load mem (block_address bp) None pad)"

definition store_block_with_pred_2d :: "block_ptr \<Rightarrow> (nat \<times> nat \<Rightarrow> 'f) \<Rightarrow> bool \<Rightarrow> bool \<Rightarrow> (nat \<times> nat) list \<Rightarrow> 'f stores" where
  "store_block_with_pred_2d bp v skip0 skip1 block =
     (if \<not> skip0 \<and> \<not> skip1 then tl_store (block_address bp) v (Some (boundary_mask bp [0, 1])) block
      else if \<not> skip0 \<and> skip1 then tl_store (block_address bp) v (Some (boundary_mask bp [0])) block
      else if skip0 \<and> \<not> skip1 then tl_store (block_address bp) v (Some (boundary_mask bp [1])) block
      else tl_store (block_address bp) v None block)"

section \<open>Skipping a check\<close>

text \<open>
  A check is skipped soundly if its mask holds in the whole block; then the access is the fully masked one.
\<close>

lemma load_1d_skip: "(skip \<Longrightarrow> sel i) \<Longrightarrow> load_with_pred_1d mem p skip sel other i = tl_load mem p (Some sel) other i"
  by (simp add: load_with_pred_1d_def tl_load_def)

lemma load_2d_skip:
  "(skip0 \<Longrightarrow> mask0 i) \<Longrightarrow> (skip1 \<Longrightarrow> mask1 i) \<Longrightarrow>
   load_with_pred_2d mem p skip0 skip1 mask0 mask1 other i = tl_load mem p (Some (\<lambda>i. mask0 i \<and> mask1 i)) other i"
  by (simp add: load_with_pred_2d_def tl_load_def)

lemma store_1d_skip:
  "(\<And>i. skip \<Longrightarrow> i \<in> set block \<Longrightarrow> sel i) \<Longrightarrow> store_with_pred_1d p v skip sel block = tl_store p v (Some sel) block"
  by (simp add: store_with_pred_1d_def tl_store_def)

lemma store_2d_skip:
  assumes "\<And>i. skip0 \<Longrightarrow> i \<in> set block \<Longrightarrow> mask0 i" "\<And>i. skip1 \<Longrightarrow> i \<in> set block \<Longrightarrow> mask1 i"
  shows "store_with_pred_2d p v skip0 skip1 mask0 mask1 block = tl_store p v (Some (\<lambda>i. mask0 i \<and> mask1 i)) block"
proof -
  consider "skip0" "skip1" | "skip0" "\<not> skip1" | "\<not> skip0" "skip1" | "\<not> skip0" "\<not> skip1" by blast
  then show ?thesis
  proof cases
    case 1
    then have "filter (\<lambda>i. mask0 i \<and> mask1 i) block = block" using assms by (simp add: filter_id_conv)
    then show ?thesis using 1 by (simp add: store_with_pred_2d_def tl_store_def)
  next
    case 2
    then have "filter (\<lambda>i. mask0 i \<and> mask1 i) block = filter mask1 block" using assms by (intro filter_cong) auto
    then show ?thesis using 2 by (simp add: store_with_pred_2d_def tl_store_def)
  next
    case 3
    then have "filter (\<lambda>i. mask0 i \<and> mask1 i) block = filter mask0 block" using assms by (intro filter_cong) auto
    then show ?thesis using 3 by (simp add: store_with_pred_2d_def tl_store_def)
  qed (simp add: store_with_pred_2d_def)
qed

lemma boundary_masks:
  "boundary_mask bp [0, 1] = (\<lambda>ij. inside_0 bp ij \<and> inside_1 bp ij)" "boundary_mask bp [0] = inside_0 bp" "boundary_mask bp [1] = inside_1 bp"
  by (auto simp: boundary_mask_def)

lemma block_as_masked:
  "load_block_with_pred_2d pad mem bp skip0 skip1 = load_with_pred_2d mem (block_address bp) skip0 skip1 (inside_0 bp) (inside_1 bp) pad"
  "store_block_with_pred_2d bp v skip0 skip1 block = store_with_pred_2d (block_address bp) v skip0 skip1 (inside_0 bp) (inside_1 bp) block"
  by (simp_all only: load_block_with_pred_2d_def store_block_with_pred_2d_def load_with_pred_2d_def store_with_pred_2d_def boundary_masks)

text \<open>
  The block the kernels of \<open>group_gemm_same_mn\<close> load: with a dimension that is a multiple of its tile the check of that
  dimension can be skipped, as the heuristics \<open>M_ALIGNED\<close> and \<open>N_ALIGNED\<close> do.
\<close>

theorem aligned_checks_are_skipped:
  assumes "skip0 \<Longrightarrow> bm dvd fst (bp_shape bp)" "skip1 \<Longrightarrow> bn dvd snd (bp_shape bp)"
    and "bp_offsets bp = (m * bm, n * bn)" "m < cdiv (fst (bp_shape bp)) bm" "n < cdiv (snd (bp_shape bp)) bn" "i < bm" "j < bn"
  shows "load_block_with_pred_2d pad mem bp skip0 skip1 (i, j) = block_load pad mem (bp_base bp) (bp_shape bp) (bp_strides bp) (bp_offsets bp) i j"
proof -
  have in_dim: "t * b + k < s" if "b dvd s" "t < cdiv s b" "k < b" for t b k s
  proof -
    have q: "s = b * (s div b)" using that(1) by simp
    have "(b * (s div b) + b - 1) div b = s div b" using mult_add_div [of "b - 1" b "s div b"] that(3) by (simp add: mult.commute)
    then have "Suc t \<le> s div b" using that(2) unfolding cdiv_def by (simp only: q [symmetric] Suc_le_eq)
    then have "Suc t * b \<le> s div b * b" by (rule mult_le_mono1)
    also have "\<dots> = s" using q by (simp only: mult.commute)
    finally show ?thesis using that(3) by simp
  qed
  have "skip0 \<Longrightarrow> inside_0 bp (i, j)" "skip1 \<Longrightarrow> inside_1 bp (i, j)"
    using in_dim [OF assms(1) assms(4,6)] in_dim [OF assms(2) assms(5,7)] assms(3) by (simp_all add: inside_0_def inside_1_def)
  then show ?thesis unfolding block_as_masked by (simp add: load_2d_skip tl_load_def block_load_def block_address_def inside_0_def inside_1_def Let_def)
qed

section \<open>Tiles of programs\<close>

definition get_pid_mn :: "nat \<Rightarrow> nat \<Rightarrow> nat \<Rightarrow> nat \<Rightarrow> nat \<Rightarrow> nat \<Rightarrow> nat \<times> nat" where
  "get_pid_mn pid M N bm bn group_size =
     (let npm = cdiv M bm; num_pid_n = cdiv N bn;
          num_pid_in_group = group_size * num_pid_n; group_id = pid div num_pid_in_group; first_pid_m = group_id * group_size;
          group_size_m = min (npm - first_pid_m) group_size
      in (first_pid_m + pid mod group_size_m, (pid mod num_pid_in_group) div group_size_m))"

lemma get_pid_mn_eq: "get_pid_mn pid M N bm bn G = compute_pid pid (G * cdiv N bn) (cdiv M bm) G"
  by (simp add: get_pid_mn_def compute_pid_def Let_def)

text \<open>The programs of a launch take every tile once.\<close>

theorem every_tile_once:
  assumes "0 < G"
  shows "bij_betw (\<lambda>pid. get_pid_mn pid M N bm bn G) {..<cdiv M bm * cdiv N bn} ({..<cdiv M bm} \<times> {..<cdiv N bn})"
proof -
  let ?m = "cdiv M bm" and ?n = "cdiv N bn" and ?f = "\<lambda>pid. get_pid_mn pid M N bm bn G"
  have img: "?f ` {..<?m * ?n} = {..<?m} \<times> {..<?n}"
  proof
    show "?f ` {..<?m * ?n} \<subseteq> {..<?m} \<times> {..<?n}"
    proof
      fix t assume "t \<in> ?f ` {..<?m * ?n}"
      then obtain pid where "pid < ?m * ?n" "t = compute_pid pid (G * ?n) ?m G" by (auto simp: get_pid_mn_eq)
      then show "t \<in> {..<?m} \<times> {..<?n}" using pid_range [OF _ assms, of pid ?m ?n] by (simp add: mem_Times_iff)
    qed
    show "{..<?m} \<times> {..<?n} \<subseteq> ?f ` {..<?m * ?n}"
    proof
      fix t assume "t \<in> {..<?m} \<times> {..<?n}"
      then obtain pid where "pid < ?m * ?n" "compute_pid pid (G * ?n) ?m G = t"
        using pid_surjective [OF _ _ assms, of "fst t" ?m "snd t" ?n] by (auto simp: mem_Times_iff)
      then show "t \<in> ?f ` {..<?m * ?n}" by (auto simp: get_pid_mn_eq)
    qed
  qed
  moreover have "inj_on ?f {..<?m * ?n}" by (rule eq_card_imp_inj_on) (simp_all add: img)
  ultimately show ?thesis by (simp add: bij_betw_def)
qed

text \<open>\<open>make_blocked\<close> rounds to the given type and keeps it: the reshape after it moves nothing.\<close>

definition make_blocked :: "('a \<Rightarrow> 'b) \<Rightarrow> ('i \<Rightarrow> 'a) \<Rightarrow> 'i \<Rightarrow> 'b" where
  "make_blocked to_type t = to_type \<circ> t"

end
