(* ===== verification/Fused_Moe.thy ===== *)
theory Fused_Moe
  imports Group_Gemm
begin

text \<open>
  The expert layers (\<open>src/vexact/batch_invariant_ops/fused_moe.py\<close>): tokens are sorted by expert, go through
  their expert's two linear layers, and each token adds up the outputs of its choices. Matrices are flat
  lists in row-major order; PyTorch's pointwise operators are the functions of \<open>moe_ops\<close>.

  Main result: the output of a token is a function of its own row, experts and gate weights.
\<close>

section \<open>The computation\<close>

record ('f, 'a) moe_ops =
  mo_gemm :: "('f, 'a) gemm_ops"
  mo_float :: "'f float_ops"
  mo_widen :: "'f \<Rightarrow> 'a"
  mo_out :: "'f \<Rightarrow> 'f"
  mo_silu :: "'f \<Rightarrow> 'f"
  mo_silu_backward :: "'f \<Rightarrow> 'f \<Rightarrow> 'f"
  mo_mul :: "'f \<Rightarrow> 'f \<Rightarrow> 'f"
  mo_add :: "'f \<Rightarrow> 'f \<Rightarrow> 'f"
  mo_row_sum :: "'f list \<Rightarrow> 'f"
  mo_acc_add :: "'a \<Rightarrow> 'a \<Rightarrow> 'a"
  mo_pad :: 'f

text \<open>The order in which the programs of the launches run.\<close>

record launches =
  run_hist :: "nat \<Rightarrow> nat list"
  run_rows :: "nat \<Rightarrow> nat \<Rightarrow> (nat \<times> nat) list"
  run_groups :: "group_gemm \<Rightarrow> nat \<Rightarrow> (nat \<times> nat) list"
  run_wgrad :: "gemm_mn \<Rightarrow> nat \<Rightarrow> (nat \<times> nat) list"

text \<open>Numbers of experts, tokens, choices per token, hidden and inner dimension.\<close>

record moe_shape =
  sh_experts :: nat
  sh_tokens :: nat
  sh_topk :: nat
  sh_hidden :: nat
  sh_inner :: nat

abbreviation sh_rows :: "moe_shape \<Rightarrow> nat" where
  "sh_rows s \<equiv> sh_tokens s * sh_topk s"

record 'f saved_moe =
  sv_scatter_index :: "nat list"
  sv_scatter_output :: "'f list"
  sv_cumsum :: "nat list"
  sv_fc1_1 :: "'f list"
  sv_fc1_2 :: "'f list"
  sv_activation :: "'f list"
  sv_gates :: "'f list"
  sv_weighted :: "'f list"

definition fc1_activation :: "('f, 'a) moe_ops \<Rightarrow> 'f list \<Rightarrow> 'f list \<Rightarrow> 'f list" where
  "fc1_activation mo fc1_1 fc1_2 = map2 (mo_mul mo) (map (mo_silu mo) fc1_1) fc1_2"

definition scattered_gates :: "'f \<Rightarrow> nat list \<Rightarrow> 'f list \<Rightarrow> 'f list" where
  "scattered_gates z scatter gates = fold (\<lambda>i g. g[scatter ! i := gates ! i]) [0..<length gates] (replicate (length gates) z)"

text \<open>A matrix of \<open>w\<close> columns times a column, broadcast.\<close>

definition scale_rows :: "('f \<Rightarrow> 'f \<Rightarrow> 'f) \<Rightarrow> nat \<Rightarrow> 'f list \<Rightarrow> 'f list \<Rightarrow> 'f list" where
  "scale_rows mul w x col = map (\<lambda>p. mul (x ! p) (col ! (p div w))) [0..<length x]"

definition moe_forward ::
    "('f, 'a) moe_ops \<Rightarrow> launches \<Rightarrow> moe_shape \<Rightarrow> 'f list \<Rightarrow> nat list \<Rightarrow> 'f list \<Rightarrow> 'f list \<Rightarrow> 'f list \<Rightarrow> 'f list
       \<Rightarrow> ('f list \<times> 'f saved_moe) res" where
  "moe_forward mo L s gates experts hidden w1 w2 w3 =
     (let z = op_zero (mo_gemm mo); E = sh_experts s; T = sh_tokens s; H = sh_hidden s; F = sh_inner s; topk = sh_topk s;
          gemm = group_gemm_same_nk (mo_gemm mo) (mo_widen mo) (run_groups L)
      in rbind (expert_histogram (run_hist L) experts E) (\<lambda>splits.
         let scatter = scatter_index experts in
         rbind (moe_scatter z (run_rows L) T H hidden T topk scatter) (\<lambda>scatter_output.
         let cum = cumsum splits in
         rbind (gemm (E, F, H) (T * topk) scatter_output w1 cum (T * topk) False True) (\<lambda>fc1_1.
         rbind (gemm (E, F, H) (T * topk) scatter_output w2 cum (T * topk) False True) (\<lambda>fc1_2.
         let act = fc1_activation mo fc1_1 fc1_2;
             sg = scattered_gates z scatter gates;
             weighted = scale_rows (mo_mul mo) F act sg
         in rbind (gemm (E, H, F) (T * topk) weighted w3 cum (T * topk) False True) (\<lambda>fc2.
            rbind (moe_gather (mo_float mo) (mo_out mo) (run_rows L) (T * topk) H fc2 T topk scatter) (\<lambda>out.
            Ok (out, \<lparr>sv_scatter_index = scatter, sv_scatter_output = scatter_output, sv_cumsum = cum, sv_fc1_1 = fc1_1,
                      sv_fc1_2 = fc1_2, sv_activation = act, sv_gates = sg, sv_weighted = weighted\<rparr>))))))))"

section \<open>One token\<close>

text \<open>
  What one choice of a token contributes: expert \<open>e\<close> applied to the token's row \<open>x\<close>, with the gate
  weight multiplied in before the second linear layer.
\<close>

definition expert_linear ::
    "('f, 'a) gemm_ops \<Rightarrow> ('f list \<Rightarrow> 'f list \<Rightarrow> 'a \<Rightarrow> 'a) \<Rightarrow> 'f list \<Rightarrow> nat \<Rightarrow> nat \<Rightarrow> nat \<Rightarrow> 'f list \<Rightarrow> nat \<Rightarrow> 'f" where
  "expert_linear ops mma w N K e x n = op_round ops (mma x (map (\<lambda>k. w ! (e * K * N + (n * K + k))) [0..<K]) (acc_zero ops))"

definition expert_inner ::
    "('f, 'a) moe_ops \<Rightarrow> ('f list \<Rightarrow> 'f list \<Rightarrow> 'a \<Rightarrow> 'a) \<Rightarrow> moe_shape \<Rightarrow> 'f list \<Rightarrow> 'f list \<Rightarrow> 'f list \<Rightarrow> nat \<Rightarrow> 'f \<Rightarrow> 'f list" where
  "expert_inner mo mma s w1 w2 x e gate = map (\<lambda>f. mo_mul mo (mo_mul mo
       (mo_silu mo (expert_linear (mo_gemm mo) mma w1 (sh_inner s) (sh_hidden s) e x f))
       (expert_linear (mo_gemm mo) mma w2 (sh_inner s) (sh_hidden s) e x f)) gate) [0..<sh_inner s]"

definition token_output ::
    "('f, 'a) moe_ops \<Rightarrow> ('f list \<Rightarrow> 'f list \<Rightarrow> 'a \<Rightarrow> 'a) \<Rightarrow> moe_shape \<Rightarrow> 'f list \<Rightarrow> 'f list \<Rightarrow> 'f list
       \<Rightarrow> 'f list \<Rightarrow> nat list \<Rightarrow> 'f list \<Rightarrow> nat \<Rightarrow> 'f" where
  "token_output mo mma s w1 w2 w3 x es gs n = mo_out mo (fold (\<lambda>k y. f_add (mo_float mo) y
       (expert_linear (mo_gemm mo) mma w3 (sh_hidden s) (sh_inner s) (es ! k) (expert_inner mo mma s w1 w2 x (es ! k) (gs ! k)) n))
     [0..<length es] (f_num (mo_float mo) 0))"

abbreviation row_of :: "nat \<Rightarrow> 'b list \<Rightarrow> nat \<Rightarrow> 'b list" where
  "row_of w x r \<equiv> map (\<lambda>c. x ! (r * w + c)) [0..<w]"

definition launches_ok :: "launches \<Rightarrow> bool" where
  "launches_ok L \<longleftrightarrow> (\<forall>n. set (run_hist L n) = {..<n} \<and> distinct (run_hist L n)) \<and>
     (\<forall>m k. set (run_rows L m k) = {..<m} \<times> {..<k}) \<and> (\<forall>g G. set (run_groups L g G) = group_grid g G) \<and>
     (\<forall>g G. set (run_wgrad L g G) = {..<cdiv (mn_m g) (mn_block_m g) * cdiv (mn_n g) (mn_block_n g)} \<times> {..<G})"

definition routing_ok :: "moe_shape \<Rightarrow> nat list \<Rightarrow> bool" where
  "routing_ok s experts \<longleftrightarrow> length experts = sh_rows s \<and> (\<forall>x\<in>set experts. x < sh_experts s) \<and> sh_rows s < 2 ^ 31 - 1"

abbreviation expert_cumsum :: "moe_shape \<Rightarrow> nat list \<Rightarrow> nat list" where
  "expert_cumsum s experts \<equiv> cumsum (map (count_list experts) [0..<sh_experts s])"

lemma histogram_ok:
  assumes "launches_ok L" "routing_ok s experts"
  shows "expert_histogram (run_hist L) experts (sh_experts s) = Ok (map (count_list experts) [0..<sh_experts s])"
  using assms by (intro histogram_counts) (simp_all add: launches_ok_def routing_ok_def)

lemma expert_bounds:
  assumes "e < sh_experts s"
  shows "expert_cumsum s experts ! e = below experts (Suc e)" "group_start (expert_cumsum s experts) e = below experts e"
  using cumsum_below [of "Suc e" "sh_experts s" experts] cumsum_below [of e "sh_experts s" experts] assms
  by (auto simp: group_start_def below_def nth_Cons split: nat.splits)

lemma expert_groups_ok: "routing_ok s experts \<Longrightarrow> groups_ok (expert_cumsum s experts) (sh_experts s) (sh_rows s)"
  using below_mono [of _ _ experts] expert_bounds [of _ s experts] length_filter_le [of _ experts]
  by (auto simp: groups_ok_def routing_ok_def below_def cumsum_def)

lemma choice_in_range: "t < T \<Longrightarrow> k < topk \<Longrightarrow> t * topk + k < T * topk" for t T k topk :: nat
  using row_in_bounds [of t T "replicate (T * topk) ()" topk k] by simp

text \<open>
  The grouped product on the row of a choice is the product with the weight of its expert, in either
  layout of the weights.
\<close>

definition expert_product ::
    "bool \<Rightarrow> ('f, 'a) gemm_ops \<Rightarrow> ('f list \<Rightarrow> 'f list \<Rightarrow> 'a \<Rightarrow> 'a) \<Rightarrow> 'f list \<Rightarrow> nat \<Rightarrow> nat \<Rightarrow> nat \<Rightarrow> 'f list \<Rightarrow> nat \<Rightarrow> 'f" where
  "expert_product tb ops mma w N K e x n = op_round ops (mma x (map (\<lambda>k. w ! weight_index tb N K e k n) [0..<K]) (acc_zero ops))"

lemma linear_product: "expert_linear ops mma w N K e x n = expert_product True ops mma w N K e x n"
  by (simp add: expert_linear_def expert_product_def weight_index_def)

lemma grouped_product:
  assumes "row_independent ops mma" "launches_ok L" "routing_ok s experts"
    and "\<forall>e<sh_experts s. below experts (Suc e) - below experts e \<le> max_m"
    and "length a = sh_rows s * K" "length w = sh_experts s * K * N"
  shows "\<exists>y. group_gemm_same_nk ops widen (run_groups L) (if tb then (sh_experts s, N, K) else (sh_experts s, K, N)) (sh_rows s) a w
      (expert_cumsum s experts) max_m False tb = Ok y \<and>
    length y = sh_rows s * N \<and>
    (\<forall>i<sh_rows s. \<forall>n<N. y ! (scatter_index experts ! i * N + n) =
      expert_product tb ops mma w N K (experts ! i) (row_of K a (scatter_index experts ! i)) n)"
proof -
  have grid: "\<forall>g G. set (run_groups L g G) = group_grid g G" using assms(2) by (simp add: launches_ok_def)
  have size: "\<forall>e<sh_experts s. expert_cumsum s experts ! e - group_start (expert_cumsum s experts) e \<le> max_m"
    using assms(4) expert_bounds by simp
  obtain y where y: "group_gemm_same_nk ops widen (run_groups L) (if tb then (sh_experts s, N, K) else (sh_experts s, K, N)) (sh_rows s) a w
      (expert_cumsum s experts) max_m False tb = Ok y"
    "length y = sh_rows s * N"
    "\<And>e p n. e < sh_experts s \<Longrightarrow> group_start (expert_cumsum s experts) e \<le> p \<Longrightarrow> p < expert_cumsum s experts ! e \<Longrightarrow> n < N \<Longrightarrow> y ! (p * N + n) =
      op_round ops (mma (map (\<lambda>k. a ! (p * K + k)) [0..<K]) (map (\<lambda>k. w ! weight_index tb N K e k n) [0..<K]) (acc_zero ops))"
    using group_gemm_cell [OF assms(1) grid expert_groups_ok [OF assms(3)] size assms(5,6), of widen tb] by blast
  have "y ! (scatter_index experts ! i * N + n) = expert_product tb ops mma w N K (experts ! i) (row_of K a (scatter_index experts ! i)) n"
    if i: "i < sh_rows s" and n: "n < N" for i n
  proof -
    have il: "i < length experts" using i assms(3) by (simp add: routing_ok_def)
    then have e: "experts ! i < sh_experts s" using assms(3) by (simp add: routing_ok_def)
    from scatter_segment [OF il] have "group_start (expert_cumsum s experts) (experts ! i) \<le> scatter_index experts ! i"
      "scatter_index experts ! i < expert_cumsum s experts ! (experts ! i)"
      by (simp_all only: expert_bounds [OF e])
    from y(3) [OF e this n] show ?thesis by (simp only: expert_product_def)
  qed
  with y show ?thesis by blast
qed

lemma grouped_linear:
  assumes "row_independent ops mma" "launches_ok L" "routing_ok s experts"
    and "\<forall>e<sh_experts s. below experts (Suc e) - below experts e \<le> max_m"
    and "length a = sh_rows s * K" "length w = sh_experts s * K * N"
  shows "\<exists>y. group_gemm_same_nk ops widen (run_groups L) (sh_experts s, N, K) (sh_rows s) a w (expert_cumsum s experts) max_m False True = Ok y \<and>
    length y = sh_rows s * N \<and>
    (\<forall>i<sh_rows s. \<forall>n<N. y ! (scatter_index experts ! i * N + n) =
      expert_linear ops mma w N K (experts ! i) (row_of K a (scatter_index experts ! i)) n)"
  unfolding linear_product using grouped_product [OF assms, of widen True] unfolding if_True .

lemma scatter_range: "routing_ok s experts \<Longrightarrow> i < sh_rows s \<Longrightarrow> scatter_index experts ! i < sh_rows s"
  using scatter_inverse(3) [of i experts] by (simp add: routing_ok_def)

lemma scatter_length: "routing_ok s experts \<Longrightarrow> length (scatter_index experts) = sh_rows s"
  by (simp add: scatter_index_def argsort_perm routing_ok_def)

lemma scattered_gates_at:
  assumes "inj_on (\<lambda>i. sc ! i) {..<length gates}" "\<forall>i<length gates. sc ! i < length gates" "i < length gates"
  shows "scattered_gates z sc gates ! (sc ! i) = gates ! i"
proof -
  let ?g = "\<lambda>m. fold (\<lambda>i g. g[sc ! i := gates ! i]) [0..<m] (replicate (length gates) z)"
  have len: "length (?g m) = length gates" for m by (induction m) simp_all
  have "m \<le> length gates \<Longrightarrow> i < m \<Longrightarrow> ?g m ! (sc ! i) = gates ! i" for m i
  proof (induction m)
    case (Suc m)
    then have "sc ! i < length gates" "sc ! i = sc ! m \<longleftrightarrow> i = m" using assms(1,2) by (auto simp: inj_on_def)
    then show ?case using Suc len [of m] by (auto simp: nth_list_update less_Suc_eq)
  qed simp
  then show ?thesis using assms(3) by (simp add: scattered_gates_def)
qed

lemma scattered_gates_length [simp]: "length (scattered_gates z sc gates) = length gates"
proof -
  have "length (fold (\<lambda>i g. g[sc ! i := gates ! i]) xs g) = length g" for xs g by (induction xs arbitrary: g) simp_all
  then show ?thesis by (simp add: scattered_gates_def)
qed

lemma scatter_gates:
  assumes "routing_ok s experts" "length gates = sh_rows s" "i < sh_rows s"
  shows "scattered_gates z (scatter_index experts) gates ! (scatter_index experts ! i) = gates ! i"
  using assms scatter_range [OF assms(1)] scatter_inj [of _ experts]
  by (intro scattered_gates_at) (auto simp: inj_on_def routing_ok_def)

lemma scatter_surj: "routing_ok s experts \<Longrightarrow> p < sh_rows s \<Longrightarrow> \<exists>i<sh_rows s. scatter_index experts ! i = p"
  using scatter_inverse(2) [of p experts] argsort_perm(1-3) [of experts] nth_mem [of p "argsort experts"]
  by (intro exI [of _ "argsort experts ! p"]) (auto simp: routing_ok_def)

section \<open>The forward pass\<close>

definition weights_ok :: "moe_shape \<Rightarrow> 'f list \<Rightarrow> 'f list \<Rightarrow> 'f list \<Rightarrow> bool" where
  "weights_ok s w1 w2 w3 \<longleftrightarrow> length w1 = sh_experts s * sh_hidden s * sh_inner s \<and>
     length w2 = sh_experts s * sh_hidden s * sh_inner s \<and> length w3 = sh_experts s * sh_inner s * sh_hidden s"

lemma scattered_rows:
  assumes "launches_ok L" "routing_ok s experts" "length x = sh_tokens s * w"
  shows "\<exists>y. moe_scatter z (run_rows L) (sh_tokens s) w x (sh_tokens s) (sh_topk s) (scatter_index experts) = Ok y \<and>
    length y = sh_rows s * w \<and>
    (\<forall>t<sh_tokens s. \<forall>k<sh_topk s. row_of w y (scatter_index experts ! (t * sh_topk s + k)) = row_of w x t)"
proof -
  let ?sc = "scatter_index experts"
  have inj: "inj_on (\<lambda>j. ?sc ! j) {..<sh_rows s}" using scatter_inj [of _ experts] assms(2) by (auto simp: inj_on_def routing_ok_def)
  have cell: "\<exists>y. moe_scatter z (run_rows L) (sh_tokens s) w x (sh_tokens s) (sh_topk s) ?sc = Ok y \<and> length y = sh_rows s * w \<and>
      y ! (?sc ! (t * sh_topk s + k) * w + n) = x ! (t * w + n)" if "t < sh_tokens s" "k < sh_topk s" "n < w" for t k n
    using assms(1) scatter_surj [OF assms(2)] scatter_range [OF assms(2)] inj that
    by (intro scatter_cell assms(3)) (auto simp: launches_ok_def)
  obtain y where y: "moe_scatter z (run_rows L) (sh_tokens s) w x (sh_tokens s) (sh_topk s) ?sc = Ok y" "length y = sh_rows s * w"
    by (simp add: moe_scatter_def read_back_def)
  show ?thesis using y cell by (intro exI [of _ y]) fastforce
qed

text \<open>The pointwise steps between the two linear layers, on one row.\<close>

lemma weighted_row:
  assumes "length y1 = R * w" "length y2 = R * w" "p < R"
  shows "row_of w (scale_rows (mo_mul mo) w (fc1_activation mo y1 y2) g) p =
    map (\<lambda>f. mo_mul mo (mo_mul mo (mo_silu mo (y1 ! (p * w + f))) (y2 ! (p * w + f))) (g ! p)) [0..<w]"
  using row_in_bounds [OF assms(3,1)] assms
  by (auto simp: scale_rows_def fc1_activation_def intro!: arg_cong [where f = "\<lambda>x. _ x"])

lemma weighted_length: "length y1 = n \<Longrightarrow> length y2 = n \<Longrightarrow> length (scale_rows f w (fc1_activation mo y1 y2) g) = n"
  by (simp add: scale_rows_def fc1_activation_def)

lemma segment_small:
  assumes "routing_ok s experts" "sh_rows s \<le> m"
  shows "\<forall>e<sh_experts s. below experts (Suc e) - below experts e \<le> m"
proof (intro allI impI)
  fix e
  have "below experts (Suc e) \<le> length experts" by (simp add: below_def)
  then show "below experts (Suc e) - below experts e \<le> m" using assms by (simp add: routing_ok_def)
qed

lemma inner_rows:
  assumes "routing_ok s experts" "length gates = sh_rows s" "t < sh_tokens s" "k < sh_topk s"
    and "length y1 = sh_rows s * sh_inner s" "length y2 = sh_rows s * sh_inner s"
    and "\<forall>n<sh_inner s. y1 ! (scatter_index experts ! (t * sh_topk s + k) * sh_inner s + n) =
      expert_linear (mo_gemm mo) mma w1 (sh_inner s) (sh_hidden s) (experts ! (t * sh_topk s + k)) x n"
    and "\<forall>n<sh_inner s. y2 ! (scatter_index experts ! (t * sh_topk s + k) * sh_inner s + n) =
      expert_linear (mo_gemm mo) mma w2 (sh_inner s) (sh_hidden s) (experts ! (t * sh_topk s + k)) x n"
  shows "row_of (sh_inner s) (scale_rows (mo_mul mo) (sh_inner s) (fc1_activation mo y1 y2) (scattered_gates z (scatter_index experts) gates))
      (scatter_index experts ! (t * sh_topk s + k)) =
    expert_inner mo mma s w1 w2 x (experts ! (t * sh_topk s + k)) (gates ! (t * sh_topk s + k))"
proof -
  note i = choice_in_range [OF assms(3,4)]
  show ?thesis
    unfolding weighted_row [OF assms(5,6) scatter_range [OF assms(1) i]] scatter_gates [OF assms(1,2) i]
    using assms(7,8) by (simp add: expert_inner_def)
qed

lemma gathered_tokens:
  assumes "launches_ok L" "routing_ok s experts" "length y3 = sh_rows s * sh_hidden s"
    and "\<And>t k n. t < sh_tokens s \<Longrightarrow> k < sh_topk s \<Longrightarrow> n < sh_hidden s \<Longrightarrow>
      y3 ! (scatter_index experts ! (t * sh_topk s + k) * sh_hidden s + n) =
      expert_linear (mo_gemm mo) mma w3 (sh_hidden s) (sh_inner s) (experts ! (t * sh_topk s + k))
        (expert_inner mo mma s w1 w2 (row_of (sh_hidden s) hidden t) (experts ! (t * sh_topk s + k)) (gates ! (t * sh_topk s + k))) n"
  shows "\<exists>out. moe_gather (mo_float mo) (mo_out mo) (run_rows L) (sh_rows s) (sh_hidden s) y3 (sh_tokens s) (sh_topk s) (scatter_index experts) = Ok out \<and>
    length out = sh_tokens s * sh_hidden s \<and>
    (\<forall>t<sh_tokens s. \<forall>n<sh_hidden s. out ! (t * sh_hidden s + n) =
      token_output mo mma s w1 w2 w3 (row_of (sh_hidden s) hidden t) (row_of (sh_topk s) experts t) (row_of (sh_topk s) gates t) n)"
proof -
  let ?H = "sh_hidden s" and ?T = "sh_tokens s" and ?k = "sh_topk s" and ?sc = "scatter_index experts" and ?R = "sh_rows s"
  have rows: "\<forall>m k. set (run_rows L m k) = {..<m} \<times> {..<k}" using assms(1) by (simp add: launches_ok_def)
  have range: "\<forall>j<?R. ?sc ! j < ?R" using scatter_range [OF assms(2)] by blast
  obtain out where out: "moe_gather (mo_float mo) (mo_out mo) (run_rows L) ?R ?H y3 ?T ?k ?sc = Ok out" "length out = ?T * ?H"
    by (simp add: moe_gather_def read_back_def)
  have "out ! (t * ?H + n) = token_output mo mma s w1 w2 w3 (row_of ?H hidden t) (row_of ?k experts t) (row_of ?k gates t) n"
    if t: "t < ?T" "n < ?H" for t n
  proof -
    have "out ! (t * ?H + n) = mo_out mo (fold (\<lambda>k y. f_add (mo_float mo) y (y3 ! (?sc ! (t * ?k + k) * ?H + n))) [0..<?k] (f_num (mo_float mo) 0))"
      using gather_cell [OF rows assms(3) range t, of "mo_float mo" "mo_out mo"] out(1) by simp
    also have "\<dots> = token_output mo mma s w1 w2 w3 (row_of ?H hidden t) (row_of ?k experts t) (row_of ?k gates t) n"
      unfolding token_output_def
      by (intro arg_cong [where f = "mo_out mo"] fold_cong) (simp_all add: assms(4) [OF t(1) _ t(2)])
    finally show ?thesis .
  qed
  with out show ?thesis by blast
qed

text \<open>
  What the forward passes leave behind for the backward passes: the scatter index, the outputs \<open>y1\<close> and \<open>y2\<close>
  of the first two layers, their activation and the scattered gates; and the bounds of the segments.
\<close>

definition inner_saved ::
    "('f, 'a) moe_ops \<Rightarrow> ('f list \<Rightarrow> 'f list \<Rightarrow> 'a \<Rightarrow> 'a) \<Rightarrow> moe_shape \<Rightarrow> nat list \<Rightarrow> 'f list \<Rightarrow> 'f list \<Rightarrow> 'f list \<Rightarrow> 'f list
       \<Rightarrow> nat list \<Rightarrow> 'f list \<Rightarrow> 'f list \<Rightarrow> 'f list \<Rightarrow> 'f list \<Rightarrow> bool" where
  "inner_saved mo mma s experts gates hidden w1 w2 sc y1 y2 act sg \<longleftrightarrow>
     sc = scatter_index experts \<and> length y1 = sh_rows s * sh_inner s \<and> length y2 = sh_rows s * sh_inner s \<and>
     act = fc1_activation mo y1 y2 \<and> sg = scattered_gates (op_zero (mo_gemm mo)) (scatter_index experts) gates \<and>
     (\<forall>t<sh_tokens s. \<forall>k<sh_topk s. \<forall>f<sh_inner s. let i = t * sh_topk s + k; p = scatter_index experts ! i * sh_inner s + f in
        y1 ! p = expert_linear (mo_gemm mo) mma w1 (sh_inner s) (sh_hidden s) (experts ! i) (row_of (sh_hidden s) hidden t) f \<and>
        y2 ! p = expert_linear (mo_gemm mo) mma w2 (sh_inner s) (sh_hidden s) (experts ! i) (row_of (sh_hidden s) hidden t) f)"

definition saved_ok ::
    "('f, 'a) moe_ops \<Rightarrow> ('f list \<Rightarrow> 'f list \<Rightarrow> 'a \<Rightarrow> 'a) \<Rightarrow> moe_shape \<Rightarrow> nat list \<Rightarrow> 'f list \<Rightarrow> 'f list \<Rightarrow> 'f list \<Rightarrow> 'f list \<Rightarrow> 'f saved_moe \<Rightarrow> bool" where
  "saved_ok mo mma s experts gates hidden w1 w2 sv \<longleftrightarrow>
     sv_cumsum sv = expert_cumsum s experts \<and>
     inner_saved mo mma s experts gates hidden w1 w2 (sv_scatter_index sv) (sv_fc1_1 sv) (sv_fc1_2 sv) (sv_activation sv) (sv_gates sv)"

lemma moe_forward_token:
  assumes "row_independent (mo_gemm mo) mma" "launches_ok L" "routing_ok s experts" "weights_ok s w1 w2 w3"
    and "length gates = sh_rows s" "length hidden = sh_tokens s * sh_hidden s"
  shows "\<exists>out saved. moe_forward mo L s gates experts hidden w1 w2 w3 = Ok (out, saved) \<and> length out = sh_tokens s * sh_hidden s \<and>
    saved_ok mo mma s experts gates hidden w1 w2 saved \<and>
    (\<forall>t<sh_tokens s. \<forall>n<sh_hidden s. out ! (t * sh_hidden s + n) =
      token_output mo mma s w1 w2 w3 (row_of (sh_hidden s) hidden t) (row_of (sh_topk s) experts t) (row_of (sh_topk s) gates t) n)"
proof -
  let ?ops = "mo_gemm mo" and ?H = "sh_hidden s" and ?F = "sh_inner s" and ?E = "sh_experts s" and ?T = "sh_tokens s" and ?k = "sh_topk s"
  let ?sc = "scatter_index experts" and ?cum = "expert_cumsum s experts" and ?R = "sh_rows s"
  let ?gemm = "group_gemm_same_nk ?ops (mo_widen mo) (run_groups L)"
  note W = assms(4) [unfolded weights_ok_def]
  note small = segment_small [OF assms(3) order_refl]
  obtain x where x: "moe_scatter (op_zero ?ops) (run_rows L) ?T ?H hidden ?T ?k ?sc = Ok x" "length x = ?R * ?H"
    "\<And>t k. t < ?T \<Longrightarrow> k < ?k \<Longrightarrow> row_of ?H x (?sc ! (t * ?k + k)) = row_of ?H hidden t"
    using scattered_rows [OF assms(2,3,6), of "op_zero ?ops"] by blast
  obtain y1 where y1: "?gemm (?E, ?F, ?H) ?R x w1 ?cum ?R False True = Ok y1" "length y1 = ?R * ?F"
    "\<And>i n. i < ?R \<Longrightarrow> n < ?F \<Longrightarrow> y1 ! (?sc ! i * ?F + n) = expert_linear ?ops mma w1 ?F ?H (experts ! i) (row_of ?H x (?sc ! i)) n"
    using grouped_linear [OF assms(1-3) small x(2) conjunct1 [OF W], of "mo_widen mo"] by blast
  obtain y2 where y2: "?gemm (?E, ?F, ?H) ?R x w2 ?cum ?R False True = Ok y2" "length y2 = ?R * ?F"
    "\<And>i n. i < ?R \<Longrightarrow> n < ?F \<Longrightarrow> y2 ! (?sc ! i * ?F + n) = expert_linear ?ops mma w2 ?F ?H (experts ! i) (row_of ?H x (?sc ! i)) n"
    using grouped_linear [OF assms(1-3) small x(2) conjunct1 [OF conjunct2 [OF W]], of "mo_widen mo"] by blast
  have rows12: "y1 ! (?sc ! (t * ?k + k) * ?F + f) = expert_linear ?ops mma w1 ?F ?H (experts ! (t * ?k + k)) (row_of ?H hidden t) f"
    "y2 ! (?sc ! (t * ?k + k) * ?F + f) = expert_linear ?ops mma w2 ?F ?H (experts ! (t * ?k + k)) (row_of ?H hidden t) f"
    if "t < ?T" "k < ?k" "f < ?F" for t k f
    using y1(3) [OF choice_in_range [OF that(1,2)] that(3)] y2(3) [OF choice_in_range [OF that(1,2)] that(3)]
    by (simp_all only: x(3) [OF that(1,2)])
  define wt where "wt = scale_rows (mo_mul mo) ?F (fc1_activation mo y1 y2) (scattered_gates (op_zero ?ops) ?sc gates)"
  have wt: "length wt = ?R * ?F" unfolding wt_def using y1(2) y2(2) by (rule weighted_length)
  obtain y3 where y3: "?gemm (?E, ?H, ?F) ?R wt w3 ?cum ?R False True = Ok y3" "length y3 = ?R * ?H"
    "\<And>i n. i < ?R \<Longrightarrow> n < ?H \<Longrightarrow> y3 ! (?sc ! i * ?H + n) = expert_linear ?ops mma w3 ?H ?F (experts ! i) (row_of ?F wt (?sc ! i)) n"
    using grouped_linear [OF assms(1-3) small wt conjunct2 [OF conjunct2 [OF W]], of "mo_widen mo"] by blast
  have inner: "row_of ?F wt (?sc ! (t * ?k + k)) = expert_inner mo mma s w1 w2 (row_of ?H hidden t) (experts ! (t * ?k + k)) (gates ! (t * ?k + k))"
    if tk: "t < ?T" "k < ?k" for t k
    unfolding wt_def using rows12 [OF tk]
    by (intro inner_rows [OF assms(3,5) tk y1(2) y2(2)]) simp_all
  obtain out where "moe_gather (mo_float mo) (mo_out mo) (run_rows L) ?R ?H y3 ?T ?k ?sc = Ok out" "length out = ?T * ?H"
    "\<forall>t<?T. \<forall>n<?H. out ! (t * ?H + n) = token_output mo mma s w1 w2 w3 (row_of ?H hidden t) (row_of ?k experts t) (row_of ?k gates t) n"
    using gathered_tokens [OF assms(2,3) y3(2), of mo mma w3 w1 w2 hidden gates] y3(3) [OF choice_in_range] inner by auto
  moreover from this(1) have "moe_forward mo L s gates experts hidden w1 w2 w3 =
      Ok (out, \<lparr>sv_scatter_index = ?sc, sv_scatter_output = x, sv_cumsum = ?cum, sv_fc1_1 = y1, sv_fc1_2 = y2,
        sv_activation = fc1_activation mo y1 y2, sv_gates = scattered_gates (op_zero ?ops) ?sc gates, sv_weighted = wt\<rparr>)"
    unfolding moe_forward_def Let_def histogram_ok [OF assms(2,3)] rbind.simps x(1) y1(1) y2(1) wt_def [symmetric] y3(1) by simp
  moreover have "saved_ok mo mma s experts gates hidden w1 w2 \<lparr>sv_scatter_index = ?sc, sv_scatter_output = x, sv_cumsum = ?cum, sv_fc1_1 = y1,
      sv_fc1_2 = y2, sv_activation = fc1_activation mo y1 y2, sv_gates = scattered_gates (op_zero ?ops) ?sc gates, sv_weighted = wt\<rparr>"
    using y1(2) y2(2) rows12 by (simp add: saved_ok_def inner_saved_def Let_def)
  ultimately show ?thesis by blast
qed

section \<open>The path over quack\<close>

text \<open>
  On newer devices the products are those of the quack library. \<open>qk_rows\<close> multiplies the rows of a group with
  its weight, row \<open>p\<close> being row \<open>A_idx p\<close> of the first operand where an index is given; the flag says whether
  the weight is the transposed view. \<open>qk_groups\<close> sums over the rows of a group.
\<close>

record 'f quack =
  qk_rows :: "'f list \<Rightarrow> 'f list \<Rightarrow> bool \<Rightarrow> nat \<Rightarrow> nat \<Rightarrow> nat list \<Rightarrow> nat list option \<Rightarrow> 'f list"
  qk_groups :: "'f list \<Rightarrow> 'f list \<Rightarrow> nat \<Rightarrow> nat \<Rightarrow> nat list \<Rightarrow> 'f list"

record 'f saved_quack =
  sq_scatter_index :: "nat list"
  sq_cu_seqlens :: "nat list"
  sq_fc1_1 :: "'f list"
  sq_fc1_2 :: "'f list"
  sq_activation :: "'f list"
  sq_gates :: "'f list"
  sq_weighted :: "'f list"

definition quack_forward ::
    "('f, 'a) moe_ops \<Rightarrow> 'f quack \<Rightarrow> launches \<Rightarrow> moe_shape \<Rightarrow> 'f list \<Rightarrow> nat list \<Rightarrow> 'f list \<Rightarrow> 'f list \<Rightarrow> 'f list \<Rightarrow> 'f list
       \<Rightarrow> ('f list \<times> 'f saved_quack) res" where
  "quack_forward mo q L s gates experts hidden w1 w2 w3 =
     (let T = sh_tokens s; H = sh_hidden s; F = sh_inner s; topk = sh_topk s
      in rbind (build_moe_indices (run_hist L) experts topk (sh_experts s)) (\<lambda>(cu, a_idx, scatter).
         let fc1_1 = qk_rows q hidden w1 True F H cu (Some a_idx);
             fc1_2 = qk_rows q hidden w2 True F H cu (Some a_idx);
             act = fc1_activation mo fc1_1 fc1_2;
             sg = scattered_gates (op_zero (mo_gemm mo)) scatter gates;
             weighted = scale_rows (mo_mul mo) F act sg;
             fc2 = qk_rows q weighted w3 True H F cu None
         in rbind (moe_gather (mo_float mo) (mo_out mo) (run_rows L) (T * topk) H fc2 T topk scatter) (\<lambda>out.
            Ok (out, \<lparr>sq_scatter_index = scatter, sq_cu_seqlens = cu, sq_fc1_1 = fc1_1, sq_fc1_2 = fc1_2, sq_activation = act,
                      sq_gates = sg, sq_weighted = weighted\<rparr>))))"

definition fused_moe_forward ::
    "('f, 'a) moe_ops \<Rightarrow> 'f quack \<Rightarrow> launches \<Rightarrow> ('f \<Rightarrow> 'f) \<Rightarrow> nat \<Rightarrow> moe_shape \<Rightarrow> 'f list \<Rightarrow> nat list \<Rightarrow> 'f list \<Rightarrow> 'f list \<Rightarrow> 'f list \<Rightarrow> 'f list
       \<Rightarrow> 'f list res" where
  "fused_moe_forward mo q L bfloat16 device_major s routing_weights selected hidden w1 w2 w3 =
     (let gates = map bfloat16 routing_weights; hidden = map bfloat16 hidden
      in if 10 \<le> device_major then rbind (quack_forward mo q L s gates selected hidden w1 w2 w3) (\<lambda>r. Ok (fst r))
         else rbind (moe_forward mo L s gates selected hidden w1 w2 w3) (\<lambda>r. Ok (fst r)))"

definition quack_ok :: "'f quack \<Rightarrow> ('f, 'a) gemm_ops \<Rightarrow> ('f list \<Rightarrow> 'f list \<Rightarrow> 'a \<Rightarrow> 'a) \<Rightarrow> bool" where
  "quack_ok q ops mma \<longleftrightarrow> (\<forall>a w tb N K cu idx. cu \<noteq> [] \<longrightarrow> sorted cu \<longrightarrow>
     length (qk_rows q a w tb N K cu idx) = last cu * N \<and>
     (\<forall>e p n. Suc e < length cu \<longrightarrow> cu ! e \<le> p \<longrightarrow> p < cu ! Suc e \<longrightarrow> n < N \<longrightarrow>
        qk_rows q a w tb N K cu idx ! (p * N + n) = op_round ops
          (mma (row_of K a (case idx of None \<Rightarrow> p | Some ix \<Rightarrow> ix ! p)) (map (\<lambda>k. w ! weight_index tb N K e k n) [0..<K]) (acc_zero ops))))"

lemma quack_row:
  assumes "quack_ok q ops mma" "cu \<noteq> []" "sorted cu" "Suc e < length cu" "cu ! e \<le> p" "p < cu ! Suc e" "n < N"
  shows "qk_rows q a w tb N K cu idx ! (p * N + n) = op_round ops
    (mma (row_of K a (case idx of None \<Rightarrow> p | Some ix \<Rightarrow> ix ! p)) (map (\<lambda>k. w ! weight_index tb N K e k n) [0..<K]) (acc_zero ops))"
  using assms(1) unfolding quack_ok_def using assms(2-7) by blast

lemma quack_products:
  fixes s :: moe_shape and experts :: "nat list"
  defines "cu \<equiv> 0 # expert_cumsum s experts"
  assumes "quack_ok q ops mma" "routing_ok s experts"
  shows "length (qk_rows q a w tb N K cu ix) = sh_rows s * N"
    "i < sh_rows s \<Longrightarrow> n < N \<Longrightarrow> qk_rows q a w tb N K cu ix ! (scatter_index experts ! i * N + n) =
      expert_product tb ops mma w N K (experts ! i)
        (row_of K a (case ix of None \<Rightarrow> scatter_index experts ! i | Some ix \<Rightarrow> ix ! (scatter_index experts ! i))) n"
proof -
  let ?sc = "scatter_index experts" and ?E = "sh_experts s"
  have len: "length experts = sh_rows s" using assms(3) by (simp add: routing_ok_def)
  have at: "cu ! e = below experts e" if "e \<le> ?E" for e unfolding cu_def using that by (rule cumsum_below)
  have size: "length cu = Suc ?E" by (simp add: cu_def cumsum_def)
  have last: "last cu = sh_rows s"
    using at [of ?E] below_all [of experts ?E] assms(3) size by (subst last_conv_nth) (auto simp: routing_ok_def)
  have sorted: "sorted cu"
    using at below_mono [of _ _ experts] size by (auto simp: sorted_iff_nth_mono)
  have ne: "cu \<noteq> []" by (simp add: cu_def)
  show "length (qk_rows q a w tb N K cu ix) = sh_rows s * N"
    using assms(2) sorted ne unfolding quack_ok_def last [symmetric] by blast
  assume i: "i < sh_rows s" and n: "n < N"
  then have e: "experts ! i < ?E" using assms(3) by (simp add: routing_ok_def)
  have seg: "cu ! (experts ! i) \<le> ?sc ! i" "?sc ! i < cu ! Suc (experts ! i)"
    unfolding at [OF less_imp_le [OF e]] at [OF Suc_leI [OF e]] using scatter_segment [of i experts] i len by simp_all
  have sl: "Suc (experts ! i) < length cu" using e size by simp
  show "qk_rows q a w tb N K cu ix ! (?sc ! i * N + n) = expert_product tb ops mma w N K (experts ! i)
        (row_of K a (case ix of None \<Rightarrow> ?sc ! i | Some ix \<Rightarrow> ix ! (?sc ! i))) n"
    unfolding quack_row [OF assms(2) ne sorted sl seg n] expert_product_def ..
qed

definition quack_saved_ok ::
    "('f, 'a) moe_ops \<Rightarrow> ('f list \<Rightarrow> 'f list \<Rightarrow> 'a \<Rightarrow> 'a) \<Rightarrow> moe_shape \<Rightarrow> nat list \<Rightarrow> 'f list \<Rightarrow> 'f list \<Rightarrow> 'f list \<Rightarrow> 'f list \<Rightarrow> 'f saved_quack \<Rightarrow> bool" where
  "quack_saved_ok mo mma s experts gates hidden w1 w2 sv \<longleftrightarrow>
     sq_cu_seqlens sv = 0 # expert_cumsum s experts \<and>
     inner_saved mo mma s experts gates hidden w1 w2 (sq_scatter_index sv) (sq_fc1_1 sv) (sq_fc1_2 sv) (sq_activation sv) (sq_gates sv)"

lemma quack_forward_token:
  assumes "quack_ok q (mo_gemm mo) mma" "launches_ok L" "routing_ok s experts"
    and "length gates = sh_rows s" "length hidden = sh_tokens s * sh_hidden s"
  shows "\<exists>out saved. quack_forward mo q L s gates experts hidden w1 w2 w3 = Ok (out, saved) \<and> length out = sh_tokens s * sh_hidden s \<and>
    quack_saved_ok mo mma s experts gates hidden w1 w2 saved \<and>
    (\<forall>t<sh_tokens s. \<forall>n<sh_hidden s. out ! (t * sh_hidden s + n) =
      token_output mo mma s w1 w2 w3 (row_of (sh_hidden s) hidden t) (row_of (sh_topk s) experts t) (row_of (sh_topk s) gates t) n)"
proof -
  let ?ops = "mo_gemm mo" and ?H = "sh_hidden s" and ?F = "sh_inner s" and ?E = "sh_experts s" and ?T = "sh_tokens s" and ?k = "sh_topk s"
  let ?sc = "scatter_index experts" and ?R = "sh_rows s" and ?cu = "0 # expert_cumsum s experts"
  let ?a = "map (\<lambda>j. j div ?k) (argsort experts)"
  have len: "length experts = ?R" using assms(3) by (simp add: routing_ok_def)
  have idx: "build_moe_indices (run_hist L) experts ?k ?E = Ok (?cu, ?a, ?sc)"
    by (simp add: build_moe_indices_def Let_def histogram_ok [OF assms(2,3)] scatter_index_def)
  have rows: "length (qk_rows q a w True N K ?cu ix) = ?R * N"
    "i < ?R \<Longrightarrow> n < N \<Longrightarrow> qk_rows q a w True N K ?cu ix ! (?sc ! i * N + n) =
      expert_linear ?ops mma w N K (experts ! i) (row_of K a (case ix of None \<Rightarrow> ?sc ! i | Some ix \<Rightarrow> ix ! (?sc ! i))) n" for a w N K ix i n
    unfolding linear_product by (fact quack_products [OF assms(1,3)])+
  have token: "?a ! (?sc ! (t * ?k + k)) = t" if tk: "t < ?T" "k < ?k" for t k
    using scatter_inverse(1,3) [of "t * ?k + k" experts] argsort_perm(3) [of experts] mult_add_div [OF tk(2), of t]
      choice_in_range [OF tk] len by simp
  define y1 where "y1 = qk_rows q hidden w1 True ?F ?H ?cu (Some ?a)"
  define y2 where "y2 = qk_rows q hidden w2 True ?F ?H ?cu (Some ?a)"
  define wt where "wt = scale_rows (mo_mul mo) ?F (fc1_activation mo y1 y2) (scattered_gates (op_zero ?ops) ?sc gates)"
  have y12: "length y1 = ?R * ?F" "length y2 = ?R * ?F" unfolding y1_def y2_def by (rule rows(1))+
  have rows12: "y1 ! (?sc ! (t * ?k + k) * ?F + n) = expert_linear ?ops mma w1 ?F ?H (experts ! (t * ?k + k)) (row_of ?H hidden t) n"
    "y2 ! (?sc ! (t * ?k + k) * ?F + n) = expert_linear ?ops mma w2 ?F ?H (experts ! (t * ?k + k)) (row_of ?H hidden t) n"
    if "t < ?T" "k < ?k" "n < ?F" for t k n
    using rows(2) [OF choice_in_range [OF that(1,2)] that(3), of hidden _ ?H "Some ?a"]
    unfolding y1_def y2_def option.case token [OF that(1,2)] by blast+
  have inner: "row_of ?F wt (?sc ! (t * ?k + k)) = expert_inner mo mma s w1 w2 (row_of ?H hidden t) (experts ! (t * ?k + k)) (gates ! (t * ?k + k))"
    if tk: "t < ?T" "k < ?k" for t k
    unfolding wt_def using rows12 [OF tk] by (intro inner_rows [OF assms(3,4) tk y12]) simp_all
  obtain out where "moe_gather (mo_float mo) (mo_out mo) (run_rows L) ?R ?H (qk_rows q wt w3 True ?H ?F ?cu None) ?T ?k ?sc = Ok out"
    "length out = ?T * ?H"
    "\<forall>t<?T. \<forall>n<?H. out ! (t * ?H + n) = token_output mo mma s w1 w2 w3 (row_of ?H hidden t) (row_of ?k experts t) (row_of ?k gates t) n"
    using gathered_tokens [OF assms(2,3) rows(1) [of wt w3 ?H ?F None], of mo mma w3 w1 w2 hidden gates] rows(2) [OF choice_in_range, of _ _ _ ?H wt w3 ?F None] inner by auto
  moreover from this(1) have "quack_forward mo q L s gates experts hidden w1 w2 w3 =
      Ok (out, \<lparr>sq_scatter_index = ?sc, sq_cu_seqlens = ?cu, sq_fc1_1 = y1, sq_fc1_2 = y2, sq_activation = fc1_activation mo y1 y2,
        sq_gates = scattered_gates (op_zero ?ops) ?sc gates, sq_weighted = wt\<rparr>)"
    unfolding quack_forward_def Let_def idx rbind.simps prod.case y1_def [symmetric] y2_def [symmetric] wt_def [symmetric] by simp
  moreover have "quack_saved_ok mo mma s experts gates hidden w1 w2 \<lparr>sq_scatter_index = ?sc, sq_cu_seqlens = ?cu, sq_fc1_1 = y1, sq_fc1_2 = y2,
      sq_activation = fc1_activation mo y1 y2, sq_gates = scattered_gates (op_zero ?ops) ?sc gates, sq_weighted = wt\<rparr>"
    using y12 rows12 by (simp add: quack_saved_ok_def inner_saved_def Let_def)
  ultimately show ?thesis by blast
qed

text \<open>
  C36. The expert layers work token by token: on either device path, whatever the order of the programs and
  whatever the other tokens of the batch are, the call returns, and the output row of a token is the sum over
  its choices, in order, of the chosen expert applied to the token's own row and gate weight.
\<close>

theorem expert_layers_work_per_token:
  assumes "row_independent (mo_gemm mo) mma" "10 \<le> device_major \<longrightarrow> quack_ok q (mo_gemm mo) mma"
    and "launches_ok L" "routing_ok s selected" "weights_ok s w1 w2 w3"
    and "length routing_weights = sh_rows s" "length hidden = sh_tokens s * sh_hidden s"
  shows "\<exists>out. fused_moe_forward mo q L bfloat16 device_major s routing_weights selected hidden w1 w2 w3 = Ok out \<and>
    length out = sh_tokens s * sh_hidden s \<and>
    (\<forall>t<sh_tokens s. \<forall>n<sh_hidden s. out ! (t * sh_hidden s + n) =
      token_output mo mma s w1 w2 w3 (row_of (sh_hidden s) (map bfloat16 hidden) t) (row_of (sh_topk s) selected t)
        (row_of (sh_topk s) (map bfloat16 routing_weights) t) n)"
proof -
  let ?g = "map bfloat16 routing_weights" and ?h = "map bfloat16 hidden"
  have len: "length ?g = sh_rows s" "length ?h = sh_tokens s * sh_hidden s" using assms(6,7) by simp_all
  show ?thesis
  proof (cases "10 \<le> device_major")
    case True
    with assms(2) have "quack_ok q (mo_gemm mo) mma" by simp
    from quack_forward_token [OF this assms(3,4) len, of w1 w2 w3] show ?thesis
      using True by (auto simp: fused_moe_forward_def Let_def)
  next
    case False
    from moe_forward_token [OF assms(1,3-5) len] show ?thesis using False by (auto simp: fused_moe_forward_def Let_def)
  qed
qed

text \<open>A library that multiplies row by row, over the integers.\<close>

definition ex_quack :: "int quack" where
  "ex_quack = \<lparr>qk_rows = (\<lambda>a w tb N K cu idx. map (\<lambda>q. let p = q div N; n = q mod N; e = length (filter (\<lambda>c. c \<le> p) cu) - 1
       in int_mma (row_of K a (case idx of None \<Rightarrow> p | Some ix \<Rightarrow> ix ! p)) (map (\<lambda>k. w ! weight_index tb N K e k n) [0..<K]) 0) [0..<last cu * N]),
     qk_groups = (\<lambda>a b M N cu. [])\<rparr>"

lemma sorted_count:
  fixes cu :: "nat list"
  assumes "sorted cu" "Suc e < length cu" "cu ! e \<le> p" "p < cu ! Suc e"
  shows "length (filter (\<lambda>c. c \<le> p) cu) = Suc e"
proof -
  have "\<forall>c\<in>set (take (Suc e) cu). c \<le> p"
    using assms by (auto simp: in_set_conv_nth) (metis Suc_lessD le_trans less_Suc_eq_le sorted_nth_mono)
  then have "filter (\<lambda>c. c \<le> p) (take (Suc e) cu) = take (Suc e) cu" by simp
  moreover have "\<forall>c\<in>set (drop (Suc e) cu). \<not> c \<le> p"
  proof
    fix c assume "c \<in> set (drop (Suc e) cu)"
    then obtain i where "i < length (drop (Suc e) cu)" "c = drop (Suc e) cu ! i" by (auto simp only: in_set_conv_nth)
    then have i: "Suc e + i < length cu" "c = cu ! (Suc e + i)" using assms(2) by (simp_all add: nth_drop)
    have "cu ! Suc e \<le> cu ! (Suc e + i)" by (rule sorted_nth_mono [OF assms(1) _ i(1)]) simp
    then show "\<not> c \<le> p" using assms(4) i(2) by simp
  qed
  then have "filter (\<lambda>c. c \<le> p) (drop (Suc e) cu) = []" by simp
  ultimately have "filter (\<lambda>c. c \<le> p) (take (Suc e) cu @ drop (Suc e) cu) = take (Suc e) cu" by (simp only: filter_append append_Nil2)
  then show ?thesis using assms(2) by simp
qed

lemma ex_quack_ok: "quack_ok ex_quack int_ops int_mma"
  unfolding quack_ok_def
proof (intro allI impI conjI)
  fix a w tb N K idx and cu :: "nat list"
  show "length (qk_rows ex_quack a w tb N K cu idx) = last cu * N" by (simp add: ex_quack_def)
  fix e p n assume cu: "cu \<noteq> []" "sorted cu" "Suc e < length cu" "cu ! e \<le> p" "p < cu ! Suc e" "n < N"
  have "cu ! Suc e \<le> last cu" using cu(1-3) sorted_nth_mono [OF cu(2), of "Suc e" "length cu - 1"] by (simp add: last_conv_nth)
  then have lt: "p * N + n < last cu * N" using row_in_bounds [of p "last cu" "replicate (last cu * N) ()" N n] cu(5,6) by simp
  have "[0..<last cu * N] ! (p * N + n) = p * N + n" using lt nth_upt [of 0 "p * N + n" "last cu * N"] by simp
  moreover have "(p * N + n) div N = p" "(p * N + n) mod N = n" using cu(6) by simp_all
  ultimately show "qk_rows ex_quack a w tb N K cu idx ! (p * N + n) = op_round int_ops
      (int_mma (row_of K a (case idx of None \<Rightarrow> p | Some ix \<Rightarrow> ix ! p)) (map (\<lambda>k. w ! weight_index tb N K e k n) [0..<K]) (acc_zero int_ops))"
    using lt by (cases idx) (simp_all add: ex_quack_def Let_def int_ops_def sorted_count [OF cu(2-5)])
qed

definition ex_moe :: "(int, int) moe_ops" where
  "ex_moe = \<lparr>mo_gemm = int_ops, mo_float = \<lparr>f_num = int, f_neg_inf = 0, f_add = (+), f_sub = (-), f_mul = (*), f_div = (div), f_max = max,
     f_exp = id, f_log = id, f_sqrt = id, f_block_sum = sum_list, f_block_max = Max \<circ> set\<rparr>, mo_widen = id, mo_out = id, mo_silu = id,
     mo_silu_backward = (*), mo_mul = (*), mo_add = (+), mo_row_sum = sum_list, mo_acc_add = (+), mo_pad = 0\<rparr>"

definition ex_launches :: launches where
  "ex_launches = \<lparr>run_hist = (\<lambda>n. [0..<n]), run_rows = (\<lambda>m k. List.product [0..<m] [0..<k]),
     run_groups = (\<lambda>g G. List.product [0..<cdiv (gg_max_m g) (gg_block_m g) * cdiv (gg_n g) (gg_block_n g)] [0..<G]),
     run_wgrad = (\<lambda>g G. List.product [0..<cdiv (mn_m g) (mn_block_m g) * cdiv (mn_n g) (mn_block_n g)] [0..<G])\<rparr>"

lemma ex_launches_ok: "launches_ok ex_launches"
  by (simp add: launches_ok_def ex_launches_def group_grid_def atLeast0LessThan)

definition ex_shape :: moe_shape where
  "ex_shape = \<lparr>sh_experts = 2, sh_tokens = 2, sh_topk = 1, sh_hidden = 1, sh_inner = 1\<rparr>"

theorem expert_layers_work_per_token_witness:
  "\<exists>out. fused_moe_forward ex_moe ex_quack ex_launches id 10 ex_shape [1, 2] [1, 0] [5, 7] [2, 3] [1, 1] [1, 2] = Ok out \<and>
    out ! 0 = 150 \<and> out ! 1 = 196"
proof -
  have "row_independent (mo_gemm ex_moe) int_mma" "10 \<le> (10::nat) \<longrightarrow> quack_ok ex_quack (mo_gemm ex_moe) int_mma"
    using int_row_independent ex_quack_ok by (simp_all add: ex_moe_def)
  note r = expert_layers_work_per_token [OF this ex_launches_ok, of ex_shape "[1, 0]" "[2, 3]" "[1, 1]" "[1, 2]" "[1, 2]" "[5, 7]" id]
  obtain out where out: "fused_moe_forward ex_moe ex_quack ex_launches id 10 ex_shape [1, 2] [1, 0] [5, 7] [2, 3] [1, 1] [1, 2] = Ok out"
    "\<forall>t<2. \<forall>n<1. out ! (t * 1 + n) = token_output ex_moe int_mma ex_shape [2, 3] [1, 1] [1, 2] (row_of 1 (map id [5, 7]) t)
        (row_of 1 [1, 0] t) (row_of 1 (map id [1, 2]) t) n"
    using r by (auto simp: ex_shape_def routing_ok_def weights_ok_def)
  have "out ! 0 = 150" using out(2) [rule_format, of 0 0]
    by (simp add: token_output_def expert_linear_def expert_inner_def ex_moe_def ex_shape_def int_ops_def int_mma_def)
  moreover have "out ! 1 = 196" using out(2) [rule_format, of 1 0]
    by (simp add: token_output_def expert_linear_def expert_inner_def ex_moe_def ex_shape_def int_ops_def int_mma_def)
  ultimately show ?thesis using out(1) by blast
qed

end
