(* ===== verification/Moe_Backward.thy ===== *)
theory Moe_Backward
  imports Fused_Moe
begin

text \<open>
  The backward passes of the expert layers (\<open>src/vexact/batch_invariant_ops/fused_moe.py\<close>), over the grouped
  kernels and over quack. Both are the same sequence of steps around two kinds of product: \<open>rowprod\<close> multiplies
  rows with their expert's weight, \<open>wgrad\<close> sums over the rows of an expert.

  The kernels are told that no expert has more than \<open>T\<close> rows, the number of tokens; this is so when the
  choices of a token are distinct.
\<close>

section \<open>The computation\<close>

definition row_sums :: "('f list \<Rightarrow> 'f) \<Rightarrow> ('f \<Rightarrow> 'f \<Rightarrow> 'f) \<Rightarrow> nat \<Rightarrow> nat \<Rightarrow> 'f list \<Rightarrow> 'f list \<Rightarrow> 'f list" where
  "row_sums total_of mul rows w x y = map (\<lambda>p. total_of (map (\<lambda>f. mul (x ! (p * w + f)) (y ! (p * w + f))) [0..<w])) [0..<rows]"

definition if_required :: "bool \<Rightarrow> 'b res \<Rightarrow> 'b option res" where
  "if_required c r = (if c then rbind r (\<lambda>x. Ok (Some x)) else Ok None)"

definition backward_steps ::
    "('f, 'a) moe_ops \<Rightarrow> launches \<Rightarrow> moe_shape \<Rightarrow> ('f list \<Rightarrow> nat \<Rightarrow> nat \<Rightarrow> 'f list \<Rightarrow> 'f list res) \<Rightarrow> ('f list \<Rightarrow> 'f list \<Rightarrow> nat \<Rightarrow> nat \<Rightarrow> 'f list res)
       \<Rightarrow> 'f list res \<Rightarrow> nat list \<Rightarrow> 'f list \<Rightarrow> 'f list \<Rightarrow> 'f list \<Rightarrow> 'f list \<Rightarrow> 'f list \<Rightarrow> 'f list \<times> 'f list \<times> 'f list
       \<Rightarrow> bool \<times> bool \<times> bool \<Rightarrow> 'f list \<Rightarrow> ('f list \<times> 'f list \<times> 'f list option \<times> 'f list option \<times> 'f list option) res" where
  "backward_steps mo L s rowprod wgrad scattered sc y1 y2 act sg wt ws need grad_output =
     (let T = sh_tokens s; topk = sh_topk s; H = sh_hidden s; F = sh_inner s; rows = T * topk;
          (w1, w2, w3) = ws; (need1, need2, need3) = need
      in rbind (moe_scatter (op_zero (mo_gemm mo)) (run_rows L) T H grad_output T topk sc) (\<lambda>grad_fc2.
         rbind (rowprod w3 F H grad_fc2) (\<lambda>grad_weighted.
         rbind (if_required need3 (wgrad grad_fc2 wt H F)) (\<lambda>grad_w3.
         let grad_act = scale_rows (mo_mul mo) F grad_weighted sg;
             grad_sg = row_sums (mo_row_sum mo) (mo_mul mo) rows F act grad_weighted;
             grad_gate = map (\<lambda>i. grad_sg ! (sc ! i)) [0..<rows];
             act1 = map (mo_silu mo) y1;
             grad_act1 = map2 (mo_mul mo) grad_act y2;
             grad_y2 = map2 (mo_mul mo) act1 grad_act
         in rbind (rowprod w2 H F grad_y2) (\<lambda>grad_x2.
         let grad_y1 = map2 (mo_silu_backward mo) grad_act1 y1
         in rbind (rowprod w1 H F grad_y1) (\<lambda>grad_x1.
         rbind scattered (\<lambda>x.
         rbind (if_required need2 (wgrad grad_y2 x F H)) (\<lambda>grad_w2.
         rbind (if_required need1 (wgrad grad_y1 x F H)) (\<lambda>grad_w1.
         rbind (moe_gather (mo_float mo) (mo_out mo) (run_rows L) rows H (map2 (mo_add mo) grad_x1 grad_x2) T topk sc) (\<lambda>grad_hidden.
         Ok (grad_gate, grad_hidden, grad_w1, grad_w2, grad_w3)))))))))))"

text \<open>\<open>FusedMoeExpertFunction.backward\<close> and \<open>QuackFusedMoeExpertFunction.backward\<close>.\<close>

definition moe_backward ::
    "('f, 'a) moe_ops \<Rightarrow> launches \<Rightarrow> moe_shape \<Rightarrow> 'f saved_moe \<Rightarrow> 'f list \<times> 'f list \<times> 'f list \<Rightarrow> bool \<times> bool \<times> bool \<Rightarrow> 'f list
       \<Rightarrow> ('f list \<times> 'f list \<times> 'f list option \<times> 'f list option \<times> 'f list option) res" where
  "moe_backward mo L s sv ws need grad_output = backward_steps mo L s
     (\<lambda>w N K a. group_gemm_same_nk (mo_gemm mo) (mo_widen mo) (run_groups L) (sh_experts s, K, N) (sh_rows s) a w (sv_cumsum sv) (sh_tokens s) False False)
     (\<lambda>a b M N. group_gemm_same_mn (mo_gemm mo) (mo_acc_add mo) (mo_pad mo) (run_wgrad L) (sh_experts s, M, N) a b (sv_cumsum sv) True False)
     (Ok (sv_scatter_output sv)) (sv_scatter_index sv) (sv_fc1_1 sv) (sv_fc1_2 sv) (sv_activation sv) (sv_gates sv) (sv_weighted sv)
     ws need grad_output"

definition quack_backward ::
    "('f, 'a) moe_ops \<Rightarrow> 'f quack \<Rightarrow> launches \<Rightarrow> moe_shape \<Rightarrow> 'f saved_quack \<Rightarrow> 'f list \<Rightarrow> 'f list \<times> 'f list \<times> 'f list \<Rightarrow> bool \<times> bool \<times> bool \<Rightarrow> 'f list
       \<Rightarrow> ('f list \<times> 'f list \<times> 'f list option \<times> 'f list option \<times> 'f list option) res" where
  "quack_backward mo q L s sv hidden ws need grad_output = backward_steps mo L s
     (\<lambda>w N K a. Ok (qk_rows q a w False N K (sq_cu_seqlens sv) None))
     (\<lambda>a b M N. Ok (qk_groups q a b M N (sq_cu_seqlens sv)))
     (moe_scatter (op_zero (mo_gemm mo)) (run_rows L) (sh_tokens s) (sh_hidden s) hidden (sh_tokens s) (sh_topk s) (sq_scatter_index sv))
     (sq_scatter_index sv) (sq_fc1_1 sv) (sq_fc1_2 sv) (sq_activation sv) (sq_gates sv) (sq_weighted sv)
     ws need grad_output"

section \<open>One token\<close>

text \<open>
  The gradients one choice of a token yields: \<open>d\<close> is the gradient of the token's output row, \<open>u\<close> and \<open>v\<close>
  the outputs of the expert's two first layers on the token's row.
\<close>

definition choice_weighted :: "('f, 'a) moe_ops \<Rightarrow> ('f list \<Rightarrow> 'f list \<Rightarrow> 'a \<Rightarrow> 'a) \<Rightarrow> moe_shape \<Rightarrow> 'f list \<Rightarrow> nat \<Rightarrow> 'f list \<Rightarrow> nat \<Rightarrow> 'f" where
  "choice_weighted mo mma s w3 e d = expert_product False (mo_gemm mo) mma w3 (sh_inner s) (sh_hidden s) e d"

definition choice_gate_grad ::
    "('f, 'a) moe_ops \<Rightarrow> ('f list \<Rightarrow> 'f list \<Rightarrow> 'a \<Rightarrow> 'a) \<Rightarrow> moe_shape \<Rightarrow> 'f list \<Rightarrow> nat \<Rightarrow> 'f list \<Rightarrow> (nat \<Rightarrow> 'f) \<Rightarrow> (nat \<Rightarrow> 'f) \<Rightarrow> 'f" where
  "choice_gate_grad mo mma s w3 e d u v = mo_row_sum mo
     (map (\<lambda>f. mo_mul mo (mo_mul mo (mo_silu mo (u f)) (v f)) (choice_weighted mo mma s w3 e d f)) [0..<sh_inner s])"

definition choice_input_grad ::
    "('f, 'a) moe_ops \<Rightarrow> ('f list \<Rightarrow> 'f list \<Rightarrow> 'a \<Rightarrow> 'a) \<Rightarrow> moe_shape \<Rightarrow> 'f list \<Rightarrow> 'f list \<Rightarrow> 'f list \<Rightarrow> nat \<Rightarrow> 'f \<Rightarrow> 'f list
       \<Rightarrow> (nat \<Rightarrow> 'f) \<Rightarrow> (nat \<Rightarrow> 'f) \<Rightarrow> nat \<Rightarrow> 'f" where
  "choice_input_grad mo mma s w1 w2 w3 e gate d u v n =
     (let da = (\<lambda>f. mo_mul mo (choice_weighted mo mma s w3 e d f) gate);
          dv = map (\<lambda>f. mo_mul mo (mo_silu mo (u f)) (da f)) [0..<sh_inner s];
          du = map (\<lambda>f. mo_silu_backward mo (mo_mul mo (da f) (v f)) (u f)) [0..<sh_inner s]
      in mo_add mo (expert_product False (mo_gemm mo) mma w1 (sh_hidden s) (sh_inner s) e du n)
                   (expert_product False (mo_gemm mo) mma w2 (sh_hidden s) (sh_inner s) e dv n))"

section \<open>Every token gets its own gradients\<close>

text \<open>What is asked of the product, and of the tensors that the forward pass saved.\<close>

definition product_ok ::
    "('f list \<Rightarrow> nat \<Rightarrow> nat \<Rightarrow> 'f list \<Rightarrow> 'f list res) \<Rightarrow> ('f, 'a) gemm_ops \<Rightarrow> ('f list \<Rightarrow> 'f list \<Rightarrow> 'a \<Rightarrow> 'a) \<Rightarrow> moe_shape \<Rightarrow> nat list \<Rightarrow> bool" where
  "product_ok rowprod ops mma s experts \<longleftrightarrow> (\<forall>w N K a. length a = sh_rows s * K \<longrightarrow> length w = sh_experts s * K * N \<longrightarrow>
     (\<exists>y. rowprod w N K a = Ok y \<and> length y = sh_rows s * N \<and>
       (\<forall>i<sh_rows s. \<forall>n<N. y ! (scatter_index experts ! i * N + n) =
          expert_product False ops mma w N K (experts ! i) (row_of K a (scatter_index experts ! i)) n)))"

lemma product_rows:
  assumes "product_ok rowprod ops mma s experts" "length a = sh_rows s * K" "length w = sh_experts s * K * N"
  shows "\<exists>y. rowprod w N K a = Ok y \<and> length y = sh_rows s * N \<and>
    (\<forall>i<sh_rows s. \<forall>n<N. y ! (scatter_index experts ! i * N + n) =
       expert_product False ops mma w N K (experts ! i) (row_of K a (scatter_index experts ! i)) n)"
  using assms unfolding product_ok_def by blast

lemma map2_row:
  assumes "length x = R * w" "length y = R * w" "p < R"
  shows "row_of w (map2 f x y) p = map (\<lambda>c. f (x ! (p * w + c)) (y ! (p * w + c))) [0..<w]"
  using row_in_bounds [OF assms(3,1)] assms by simp

lemma scale_row:
  assumes "length x = R * w" "p < R" "c < w"
  shows "scale_rows f w x g ! (p * w + c) = f (x ! (p * w + c)) (g ! p)"
  using row_in_bounds [OF assms(2,1,3)] assms(3) by (simp add: scale_rows_def)

lemma backward_tokens:
  assumes "product_ok rowprod (mo_gemm mo) mma s experts" "launches_ok L" "routing_ok s experts" "weights_ok s w1 w2 w3"
    and y: "length y1 = sh_rows s * sh_inner s" "length y2 = sh_rows s * sh_inner s" "length sg = sh_rows s"
    and g: "length grad_output = sh_tokens s * sh_hidden s"
    and wgrad: "\<forall>a b M N. \<exists>c. wgrad a b M N = Ok c" and x: "scattered = Ok x"
  shows "\<exists>gate_grad hidden_grad gs. backward_steps mo L s rowprod wgrad scattered (scatter_index experts) y1 y2 (fc1_activation mo y1 y2) sg wt
      (w1, w2, w3) need grad_output = Ok (gate_grad, hidden_grad, gs) \<and>
    (\<forall>t<sh_tokens s. \<forall>k<sh_topk s. let i = t * sh_topk s + k; p = scatter_index experts ! i in
       gate_grad ! i = choice_gate_grad mo mma s w3 (experts ! i) (row_of (sh_hidden s) grad_output t)
         (\<lambda>f. y1 ! (p * sh_inner s + f)) (\<lambda>f. y2 ! (p * sh_inner s + f))) \<and>
    (\<forall>t<sh_tokens s. \<forall>n<sh_hidden s. hidden_grad ! (t * sh_hidden s + n) = mo_out mo (fold (\<lambda>k z. f_add (mo_float mo) z
       (let i = t * sh_topk s + k; p = scatter_index experts ! i in
        choice_input_grad mo mma s w1 w2 w3 (experts ! i) (sg ! p) (row_of (sh_hidden s) grad_output t)
         (\<lambda>f. y1 ! (p * sh_inner s + f)) (\<lambda>f. y2 ! (p * sh_inner s + f)) n)) [0..<sh_topk s] (f_num (mo_float mo) 0)))"
proof -
  let ?ops = "mo_gemm mo" and ?H = "sh_hidden s" and ?F = "sh_inner s" and ?E = "sh_experts s" and ?T = "sh_tokens s" and ?k = "sh_topk s"
  let ?sc = "scatter_index experts" and ?R = "sh_rows s" and ?d = "\<lambda>t. row_of (sh_hidden s) grad_output t"
  let ?u = "\<lambda>p f. y1 ! (p * ?F + f)" and ?v = "\<lambda>p f. y2 ! (p * ?F + f)"
  note W = assms(4) [unfolded weights_ok_def]
  obtain need1 need2 need3 where need: "need = (need1, need2, need3)" by (cases need)
  have opt: "\<exists>c. if_required b (wgrad a a' M N) = Ok c" for b a a' M N using wgrad by (cases b) (auto simp: if_required_def)
  obtain g2 where g2: "moe_scatter (op_zero ?ops) (run_rows L) ?T ?H grad_output ?T ?k ?sc = Ok g2" "length g2 = ?R * ?H"
    "\<And>t k. t < ?T \<Longrightarrow> k < ?k \<Longrightarrow> row_of ?H g2 (?sc ! (t * ?k + k)) = ?d t"
    using scattered_rows [OF assms(2,3) g, of "op_zero ?ops"] by blast
  have w3: "length w3 = ?E * ?H * ?F" using W by (simp add: ac_simps)
  obtain gw where gw: "rowprod w3 ?F ?H g2 = Ok gw" "length gw = ?R * ?F"
    "\<And>i n. i < ?R \<Longrightarrow> n < ?F \<Longrightarrow> gw ! (?sc ! i * ?F + n) = expert_product False ?ops mma w3 ?F ?H (experts ! i) (row_of ?H g2 (?sc ! i)) n"
    using product_rows [OF assms(1) g2(2) w3] by blast
  have gw_at: "gw ! (?sc ! (t * ?k + k) * ?F + f) = choice_weighted mo mma s w3 (experts ! (t * ?k + k)) (?d t) f"
    if "t < ?T" "k < ?k" "f < ?F" for t k f
    using gw(3) [OF choice_in_range [OF that(1,2)] that(3)] g2(3) [OF that(1,2)] by (simp add: choice_weighted_def)
  define da where "da = scale_rows (mo_mul mo) ?F gw sg"
  have da: "length da = ?R * ?F" by (simp add: da_def scale_rows_def gw(2))
  define dv where "dv = map2 (mo_mul mo) (map (mo_silu mo) y1) da"
  have dv: "length dv = ?R * ?F" by (simp add: dv_def da y)
  define du where "du = map2 (mo_silu_backward mo) (map2 (mo_mul mo) da y2) y1"
  have du: "length du = ?R * ?F" by (simp add: du_def da y)
  have w12: "length w1 = ?E * ?F * ?H" "length w2 = ?E * ?F * ?H" using W by (simp_all add: ac_simps)
  obtain x2 where x2: "rowprod w2 ?H ?F dv = Ok x2" "length x2 = ?R * ?H"
    "\<And>i n. i < ?R \<Longrightarrow> n < ?H \<Longrightarrow> x2 ! (?sc ! i * ?H + n) = expert_product False ?ops mma w2 ?H ?F (experts ! i) (row_of ?F dv (?sc ! i)) n"
    using product_rows [OF assms(1) dv w12(2)] by blast
  obtain x1 where x1: "rowprod w1 ?H ?F du = Ok x1" "length x1 = ?R * ?H"
    "\<And>i n. i < ?R \<Longrightarrow> n < ?H \<Longrightarrow> x1 ! (?sc ! i * ?H + n) = expert_product False ?ops mma w1 ?H ?F (experts ! i) (row_of ?F du (?sc ! i)) n"
    using product_rows [OF assms(1) du w12(1)] by blast
  have sum_at: "map2 (mo_add mo) x1 x2 ! (?sc ! (t * ?k + k) * ?H + n) =
      choice_input_grad mo mma s w1 w2 w3 (experts ! (t * ?k + k)) (sg ! (?sc ! (t * ?k + k))) (?d t)
        (?u (?sc ! (t * ?k + k))) (?v (?sc ! (t * ?k + k))) n" if tk: "t < ?T" "k < ?k" "n < ?H" for t k n
  proof -
    let ?i = "t * ?k + k" and ?p = "?sc ! (t * ?k + k)"
    note i = choice_in_range [OF tk(1,2)]
    note p = scatter_range [OF assms(3) i]
    have da_at: "da ! (?p * ?F + f) = mo_mul mo (choice_weighted mo mma s w3 (experts ! ?i) (?d t) f) (sg ! ?p)" if "f < ?F" for f
      unfolding da_def scale_row [OF gw(2) p that] gw_at [OF tk(1,2) that] ..
    have "row_of ?F dv ?p = map (\<lambda>f. mo_mul mo (mo_silu mo (?u ?p f)) (mo_mul mo (choice_weighted mo mma s w3 (experts ! ?i) (?d t) f) (sg ! ?p))) [0..<?F]"
      unfolding dv_def using row_in_bounds [OF p y(1)] by (subst map2_row [OF _ da p]) (simp_all add: y(1) da_at)
    moreover have "row_of ?F du ?p = map (\<lambda>f. mo_silu_backward mo
        (mo_mul mo (mo_mul mo (choice_weighted mo mma s w3 (experts ! ?i) (?d t) f) (sg ! ?p)) (?v ?p f)) (?u ?p f)) [0..<?F]"
      unfolding du_def using row_in_bounds [OF p da] by (subst map2_row [OF _ y(1) p]) (simp_all add: y da da_at)
    moreover have "map2 (mo_add mo) x1 x2 ! (?p * ?H + n) = mo_add mo (x1 ! (?p * ?H + n)) (x2 ! (?p * ?H + n))"
      using row_in_bounds [OF p x1(2) tk(3)] x1(2) x2(2) by simp
    ultimately show ?thesis by (simp only: x1(3) [OF i tk(3)] x2(3) [OF i tk(3)] choice_input_grad_def Let_def)
  qed
  define gate where "gate = map (\<lambda>i. row_sums (mo_row_sum mo) (mo_mul mo) ?R ?F (fc1_activation mo y1 y2) gw ! (?sc ! i)) [0..<?R]"
  have gate_at: "gate ! (t * ?k + k) = choice_gate_grad mo mma s w3 (experts ! (t * ?k + k)) (?d t) (?u (?sc ! (t * ?k + k))) (?v (?sc ! (t * ?k + k)))"
    if tk: "t < ?T" "k < ?k" for t k
  proof -
    note i = choice_in_range [OF tk]
    note p = scatter_range [OF assms(3) i]
    have "gate ! (t * ?k + k) = mo_row_sum mo (map (\<lambda>f. mo_mul mo (fc1_activation mo y1 y2 ! (?sc ! (t * ?k + k) * ?F + f)) (gw ! (?sc ! (t * ?k + k) * ?F + f))) [0..<?F])"
      using i p by (simp add: gate_def row_sums_def)
    also have "\<dots> = choice_gate_grad mo mma s w3 (experts ! (t * ?k + k)) (?d t) (?u (?sc ! (t * ?k + k))) (?v (?sc ! (t * ?k + k)))"
      unfolding choice_gate_grad_def
    proof (intro arg_cong [where f = "mo_row_sum mo"] map_cong refl)
      fix f assume "f \<in> set [0..<?F]"
      then have f: "f < ?F" by simp
      have "fc1_activation mo y1 y2 ! (?sc ! (t * ?k + k) * ?F + f) = mo_mul mo (mo_silu mo (?u (?sc ! (t * ?k + k)) f)) (?v (?sc ! (t * ?k + k)) f)"
        unfolding fc1_activation_def using row_in_bounds [OF p y(1) f] y by simp
      then show "mo_mul mo (fc1_activation mo y1 y2 ! (?sc ! (t * ?k + k) * ?F + f)) (gw ! (?sc ! (t * ?k + k) * ?F + f)) =
          mo_mul mo (mo_mul mo (mo_silu mo (?u (?sc ! (t * ?k + k)) f)) (?v (?sc ! (t * ?k + k)) f))
            (choice_weighted mo mma s w3 (experts ! (t * ?k + k)) (?d t) f)"
        unfolding gw_at [OF tk f] by (rule arg_cong)
    qed
    finally show ?thesis .
  qed
  have rows: "\<forall>m k. set (run_rows L m k) = {..<m} \<times> {..<k}" using assms(2) by (simp add: launches_ok_def)
  have range: "\<forall>j<?R. ?sc ! j < ?R" using scatter_range [OF assms(3)] by blast
  have len: "length (map2 (mo_add mo) x1 x2) = ?T * ?k * ?H" using x1(2) x2(2) by simp
  obtain out where out: "moe_gather (mo_float mo) (mo_out mo) (run_rows L) ?R ?H (map2 (mo_add mo) x1 x2) ?T ?k ?sc = Ok out"
    by (simp add: moe_gather_def)
  have out_at: "out ! (t * ?H + n) = mo_out mo (fold (\<lambda>k z. f_add (mo_float mo) z (map2 (mo_add mo) x1 x2 ! (?sc ! (t * ?k + k) * ?H + n))) [0..<?k] (f_num (mo_float mo) 0))"
    if "t < ?T" "n < ?H" for t n
    using gather_cell [OF rows len range that, of "mo_float mo" "mo_out mo"] out by auto
  have "\<exists>gs. backward_steps mo L s rowprod wgrad scattered ?sc y1 y2 (fc1_activation mo y1 y2) sg wt (w1, w2, w3) need grad_output = Ok (gate, out, gs)"
  proof -
    obtain c1 c2 c3 where "if_required need3 (wgrad g2 wt ?H ?F) = Ok c3" "if_required need2 (wgrad dv x ?F ?H) = Ok c2" "if_required need1 (wgrad du x ?F ?H) = Ok c1"
      using opt [of need3 g2 wt ?H ?F] opt [of need2 dv x ?F ?H] opt [of need1 du x ?F ?H] by blast
    then show ?thesis
      unfolding backward_steps_def need Let_def prod.case g2(1) gw(1) rbind.simps x da_def [symmetric] dv_def [symmetric] du_def [symmetric] x2(1) x1(1)
      by (simp add: out gate_def)
  qed
  then show ?thesis using gate_at out_at sum_at
    by (intro exI [of _ gate] exI [of _ out]) (auto simp: Let_def intro!: arg_cong [where f = "mo_out mo"] fold_cong)
qed

section \<open>The two paths\<close>

text \<open>A token with distinct choices adds at most one row to every expert.\<close>

definition distinct_choices :: "moe_shape \<Rightarrow> nat list \<Rightarrow> bool" where
  "distinct_choices s experts \<longleftrightarrow> (\<forall>t<sh_tokens s. distinct (row_of (sh_topk s) experts t))"

lemma count_choices:
  assumes "length xs = T * w" "\<forall>t<T. distinct (row_of w xs t)"
  shows "count_list xs e \<le> T"
  using assms
proof (induction T arbitrary: xs)
  case (Suc T)
  have first: "row_of w xs 0 = take w xs" using Suc.prems(1) by (intro nth_equalityI) auto
  have rest: "row_of w (drop w xs) t = row_of w xs (Suc t)" if "t < T" for t
    using Suc.prems(1) by (intro map_cong refl) (simp add: nth_drop add.assoc)
  have "count_list (drop w xs) e \<le> T"
  proof (rule Suc.IH)
    show "length (drop w xs) = T * w" using Suc.prems(1) by simp
    show "\<forall>t<T. distinct (row_of w (drop w xs) t)" unfolding rest using Suc.prems(2) rest by (metis Suc_less_eq)
  qed
  moreover have "count_list (take w xs) e \<le> 1"
    using Suc.prems(2) [rule_format, of 0] unfolding first by (simp add: distinct_count_atmost_1 flip: count_mset) 
  ultimately show ?case using count_list_append [of "take w xs" "drop w xs" e] by simp
qed simp

lemma choices_fit:
  assumes "routing_ok s experts" "distinct_choices s experts"
  shows "\<forall>e<sh_experts s. below experts (Suc e) - below experts e \<le> sh_tokens s"
  using count_choices [of experts "sh_tokens s" "sh_topk s"] assms by (simp add: below_Suc routing_ok_def distinct_choices_def)

lemma group_product_ok:
  fixes mo :: "('f, 'a) moe_ops"
  assumes "row_independent (mo_gemm mo) mma" "launches_ok L" "routing_ok s experts" "distinct_choices s experts"
  shows "product_ok (\<lambda>w N K a. group_gemm_same_nk (mo_gemm mo) (mo_widen mo) (run_groups L) (sh_experts s, K, N) (sh_rows s) a w
    (expert_cumsum s experts) (sh_tokens s) False False) (mo_gemm mo) mma s experts"
  unfolding product_ok_def
proof (intro allI impI)
  fix w a :: "'f list" and N K :: nat assume "length a = sh_rows s * K" "length w = sh_experts s * K * N"
  from grouped_product [OF assms(1-3) choices_fit [OF assms(3,4)] this, of "mo_widen mo" False]
  show "\<exists>y. group_gemm_same_nk (mo_gemm mo) (mo_widen mo) (run_groups L) (sh_experts s, K, N) (sh_rows s) a w
      (expert_cumsum s experts) (sh_tokens s) False False = Ok y \<and> length y = sh_rows s * N \<and>
    (\<forall>i<sh_rows s. \<forall>n<N. y ! (scatter_index experts ! i * N + n) =
      expert_product False (mo_gemm mo) mma w N K (experts ! i) (row_of K a (scatter_index experts ! i)) n)"
    unfolding if_False .
qed

lemma quack_product_ok:
  assumes "quack_ok q ops mma" "routing_ok s experts"
  shows "product_ok (\<lambda>w N K a. Ok (qk_rows q a w False N K (0 # expert_cumsum s experts) None)) ops mma s experts"
  unfolding product_ok_def
  by (intro allI impI exI conjI, rule refl, rule quack_products(1) [OF assms]) (simp only: quack_products(2) [OF assms] option.case)

lemma choice_cong:
  assumes "\<And>f. f < sh_inner s \<Longrightarrow> u f = u' f" "\<And>f. f < sh_inner s \<Longrightarrow> v f = v' f"
  shows "choice_gate_grad mo mma s w3 e d u v = choice_gate_grad mo mma s w3 e d u' v'"
    "choice_input_grad mo mma s w1 w2 w3 e gate d u v n = choice_input_grad mo mma s w1 w2 w3 e gate d u' v' n"
proof -
  have "map (\<lambda>f. g (u f) (v f) f) [0..<sh_inner s] = map (\<lambda>f. g (u' f) (v' f) f) [0..<sh_inner s]" for g :: "'a \<Rightarrow> 'a \<Rightarrow> nat \<Rightarrow> 'a"
    using assms by simp
  note this [of "\<lambda>x y f. mo_mul mo (mo_mul mo (mo_silu mo x) y) (choice_weighted mo mma s w3 e d f)"]
    this [of "\<lambda>x y f. mo_mul mo (mo_silu mo x) (mo_mul mo (choice_weighted mo mma s w3 e d f) gate)"]
    this [of "\<lambda>x y f. mo_silu_backward mo (mo_mul mo (mo_mul mo (choice_weighted mo mma s w3 e d f) gate) y) x"]
  then show "choice_gate_grad mo mma s w3 e d u v = choice_gate_grad mo mma s w3 e d u' v'"
    "choice_input_grad mo mma s w1 w2 w3 e gate d u v n = choice_input_grad mo mma s w1 w2 w3 e gate d u' v' n"
    by (simp_all only: choice_gate_grad_def choice_input_grad_def Let_def)
qed

text \<open>
  What the gradients are, token by token: those of the gate weights, and those of the rows of the input,
  which add up over the choices of the token in order.
\<close>

definition token_gradients ::
    "('f, 'a) moe_ops \<Rightarrow> ('f list \<Rightarrow> 'f list \<Rightarrow> 'a \<Rightarrow> 'a) \<Rightarrow> moe_shape \<Rightarrow> 'f list \<times> 'f list \<times> 'f list \<Rightarrow> nat list \<Rightarrow> 'f list \<Rightarrow> 'f list \<Rightarrow> 'f list
       \<Rightarrow> 'f list \<Rightarrow> 'f list \<Rightarrow> bool" where
  "token_gradients mo mma s ws experts gates hidden grad_output gate_grad hidden_grad \<longleftrightarrow>
     (let (w1, w2, w3) = ws;
          first = (\<lambda>w t k. expert_linear (mo_gemm mo) mma w (sh_inner s) (sh_hidden s) (experts ! (t * sh_topk s + k)) (row_of (sh_hidden s) hidden t))
      in (\<forall>t<sh_tokens s. \<forall>k<sh_topk s. gate_grad ! (t * sh_topk s + k) =
            choice_gate_grad mo mma s w3 (experts ! (t * sh_topk s + k)) (row_of (sh_hidden s) grad_output t) (first w1 t k) (first w2 t k)) \<and>
         (\<forall>t<sh_tokens s. \<forall>n<sh_hidden s. hidden_grad ! (t * sh_hidden s + n) = mo_out mo (fold (\<lambda>k z. f_add (mo_float mo) z
            (choice_input_grad mo mma s w1 w2 w3 (experts ! (t * sh_topk s + k)) (gates ! (t * sh_topk s + k))
              (row_of (sh_hidden s) grad_output t) (first w1 t k) (first w2 t k) n)) [0..<sh_topk s] (f_num (mo_float mo) 0))))"

text \<open>Both paths at once: the steps around any product that is right on the rows of the experts.\<close>

lemma steps_per_token:
  assumes P: "product_ok rowprod (mo_gemm mo) mma s experts" and ok: "launches_ok L" "routing_ok s experts" "weights_ok s w1 w2 w3"
    and len: "length gates = sh_rows s" "length grad_output = sh_tokens s * sh_hidden s"
    and wgrad: "\<forall>a b M N. \<exists>c. wgrad a b M N = Ok c" and x: "scattered = Ok x"
    and sv: "inner_saved mo mma s experts gates hidden w1 w2 sc y1 y2 act sg"
  shows "\<exists>gate_grad hidden_grad gs. backward_steps mo L s rowprod wgrad scattered sc y1 y2 act sg wt (w1, w2, w3) need grad_output =
      Ok (gate_grad, hidden_grad, gs) \<and>
    token_gradients mo mma s (w1, w2, w3) experts gates hidden grad_output gate_grad hidden_grad"
proof -
  let ?sc = "scatter_index experts" and ?k = "sh_topk s" and ?F = "sh_inner s"
  note S = sv [unfolded inner_saved_def Let_def]
  have eq: "sc = ?sc" "act = fc1_activation mo y1 y2" and sg: "sg = scattered_gates (op_zero (mo_gemm mo)) ?sc gates"
    and y: "length y1 = sh_rows s * ?F" "length y2 = sh_rows s * ?F" using S by simp_all
  have sgl: "length sg = sh_rows s" by (simp add: sg len(1))
  have gate_at: "sg ! (?sc ! (t * ?k + k)) = gates ! (t * ?k + k)" if "t < sh_tokens s" "k < ?k" for t k
    unfolding sg by (rule scatter_gates [OF ok(2) len(1) choice_in_range [OF that]])
  let ?f = "\<lambda>w t k. expert_linear (mo_gemm mo) mma w ?F (sh_hidden s) (experts ! (t * ?k + k)) (row_of (sh_hidden s) hidden t)"
  have first: "y1 ! (?sc ! (t * ?k + k) * ?F + f) = ?f w1 t k f" "y2 ! (?sc ! (t * ?k + k) * ?F + f) = ?f w2 t k f"
    if "t < sh_tokens s" "k < ?k" "f < ?F" for t k f using S that by blast+
  obtain gg hg gs where r: "backward_steps mo L s rowprod wgrad scattered ?sc y1 y2 (fc1_activation mo y1 y2) sg wt (w1, w2, w3) need grad_output = Ok (gg, hg, gs)"
    "\<And>t k. t < sh_tokens s \<Longrightarrow> k < ?k \<Longrightarrow> gg ! (t * ?k + k) = choice_gate_grad mo mma s w3 (experts ! (t * ?k + k)) (row_of (sh_hidden s) grad_output t)
         (\<lambda>f. y1 ! (?sc ! (t * ?k + k) * ?F + f)) (\<lambda>f. y2 ! (?sc ! (t * ?k + k) * ?F + f))"
    "\<And>t n. t < sh_tokens s \<Longrightarrow> n < sh_hidden s \<Longrightarrow> hg ! (t * sh_hidden s + n) = mo_out mo (fold (\<lambda>k z. f_add (mo_float mo) z
         (choice_input_grad mo mma s w1 w2 w3 (experts ! (t * ?k + k)) (sg ! (?sc ! (t * ?k + k))) (row_of (sh_hidden s) grad_output t)
         (\<lambda>f. y1 ! (?sc ! (t * ?k + k) * ?F + f)) (\<lambda>f. y2 ! (?sc ! (t * ?k + k) * ?F + f)) n)) [0..<?k] (f_num (mo_float mo) 0))"
    using backward_tokens [OF P ok y sgl len(2) wgrad x, of wt need] unfolding Let_def by blast
  have "hg ! (t * sh_hidden s + n) = mo_out mo (fold (\<lambda>k z. f_add (mo_float mo) z
           (choice_input_grad mo mma s w1 w2 w3 (experts ! (t * ?k + k)) (gates ! (t * ?k + k)) (row_of (sh_hidden s) grad_output t)
             (?f w1 t k) (?f w2 t k) n)) [0..<?k] (f_num (mo_float mo) 0))"
    if t: "t < sh_tokens s" "n < sh_hidden s" for t n
    unfolding r(3) [OF t]
  proof (intro arg_cong [where f = "mo_out mo"] fold_cong refl ext)
    fix k z assume "k \<in> set [0..<?k]"
    then have k: "k < ?k" by simp
    show "f_add (mo_float mo) z (choice_input_grad mo mma s w1 w2 w3 (experts ! (t * ?k + k)) (sg ! (?sc ! (t * ?k + k))) (row_of (sh_hidden s) grad_output t)
         (\<lambda>f. y1 ! (?sc ! (t * ?k + k) * ?F + f)) (\<lambda>f. y2 ! (?sc ! (t * ?k + k) * ?F + f)) n) =
       f_add (mo_float mo) z (choice_input_grad mo mma s w1 w2 w3 (experts ! (t * ?k + k)) (gates ! (t * ?k + k)) (row_of (sh_hidden s) grad_output t)
             (?f w1 t k) (?f w2 t k) n)"
      unfolding gate_at [OF t(1) k] by (intro arg_cong [where f = "f_add (mo_float mo) z"] choice_cong(2) first [OF t(1) k])
  qed
  moreover have "gg ! (t * ?k + k) = choice_gate_grad mo mma s w3 (experts ! (t * ?k + k)) (row_of (sh_hidden s) grad_output t) (?f w1 t k) (?f w2 t k)"
    if tk: "t < sh_tokens s" "k < ?k" for t k
    unfolding r(2) [OF tk] by (intro choice_cong(1) first [OF tk])
  ultimately show ?thesis using r(1) unfolding eq token_gradients_def Let_def prod.case by blast
qed

text \<open>
  C37. The backward passes work token by token, over the grouped kernels and over quack: the forward pass
  returns, the backward pass over what it saved returns, and the gradient of a gate weight and of a token's
  row depend only on that token's rows, experts and gates, and they are the steps of the chain rule through
  the chosen experts. Over the grouped kernels this is for tokens whose choices are distinct; then the bound
  of \<open>T\<close> rows per expert that the kernels are given cuts nothing off. (Of the weights' gradients the theorem
  says only that they are returned where required.)
\<close>

theorem expert_gradients_per_token:
  assumes "row_independent (mo_gemm mo) mma" "quack_ok q (mo_gemm mo) mma"
    and "launches_ok L" "routing_ok s experts" "weights_ok s w1 w2 w3"
    and "length gates = sh_rows s" "length hidden = sh_tokens s * sh_hidden s" "length grad_output = sh_tokens s * sh_hidden s"
  shows "(distinct_choices s experts \<longrightarrow> (\<exists>out saved gate_grad hidden_grad gs.
      moe_forward mo L s gates experts hidden w1 w2 w3 = Ok (out, saved) \<and>
      moe_backward mo L s saved (w1, w2, w3) need grad_output = Ok (gate_grad, hidden_grad, gs) \<and>
      token_gradients mo mma s (w1, w2, w3) experts gates hidden grad_output gate_grad hidden_grad)) \<and>
    (\<exists>out saved gate_grad hidden_grad gs.
      quack_forward mo q L s gates experts hidden w1 w2 w3 = Ok (out, saved) \<and>
      quack_backward mo q L s saved hidden (w1, w2, w3) need grad_output = Ok (gate_grad, hidden_grad, gs) \<and>
      token_gradients mo mma s (w1, w2, w3) experts gates hidden grad_output gate_grad hidden_grad)"
proof (intro conjI impI)
  assume distinct: "distinct_choices s experts"
  obtain out saved where f: "moe_forward mo L s gates experts hidden w1 w2 w3 = Ok (out, saved)"
    and sv: "saved_ok mo mma s experts gates hidden w1 w2 saved"
    using moe_forward_token [OF assms(1,3-7)] by blast
  note S = sv [unfolded saved_ok_def]
  have wg: "\<forall>a b M N. \<exists>c. group_gemm_same_mn (mo_gemm mo) (mo_acc_add mo) (mo_pad mo) (run_wgrad L) (sh_experts s, M, N) a b
      (sv_cumsum saved) True False = Ok c"
    using S by (simp add: group_gemm_same_mn_def Let_def cumsum_def)
  have "\<exists>gg hg gs. moe_backward mo L s saved (w1, w2, w3) need grad_output = Ok (gg, hg, gs) \<and>
      token_gradients mo mma s (w1, w2, w3) experts gates hidden grad_output gg hg"
    unfolding moe_backward_def
    using steps_per_token [OF group_product_ok [OF assms(1,3,4) distinct] assms(3-6,8) wg refl conjunct2 [OF S]]
    unfolding conjunct1 [OF S] .
  with f show "\<exists>out saved gg hg gs. moe_forward mo L s gates experts hidden w1 w2 w3 = Ok (out, saved) \<and>
      moe_backward mo L s saved (w1, w2, w3) need grad_output = Ok (gg, hg, gs) \<and>
      token_gradients mo mma s (w1, w2, w3) experts gates hidden grad_output gg hg" by blast
next
  obtain out saved where f: "quack_forward mo q L s gates experts hidden w1 w2 w3 = Ok (out, saved)"
    and sv: "quack_saved_ok mo mma s experts gates hidden w1 w2 saved"
    using quack_forward_token [OF assms(2-4,6,7)] by blast
  note S = sv [unfolded quack_saved_ok_def]
  have sc: "sq_scatter_index saved = scatter_index experts" using S by (simp add: inner_saved_def)
  obtain x where x: "moe_scatter (op_zero (mo_gemm mo)) (run_rows L) (sh_tokens s) (sh_hidden s) hidden (sh_tokens s) (sh_topk s) (sq_scatter_index saved) = Ok x"
    unfolding sc using scattered_rows [OF assms(3,4,7)] by blast
  have wg: "\<forall>a b M N. \<exists>c. Ok (qk_groups q a b M N (sq_cu_seqlens saved)) = Ok c" by simp
  have "\<exists>gg hg gs. quack_backward mo q L s saved hidden (w1, w2, w3) need grad_output = Ok (gg, hg, gs) \<and>
      token_gradients mo mma s (w1, w2, w3) experts gates hidden grad_output gg hg"
    unfolding quack_backward_def
    using steps_per_token [OF quack_product_ok [OF assms(2,4)] assms(3-6,8) wg x conjunct2 [OF S]]
    unfolding conjunct1 [OF S] .
  with f show "\<exists>out saved gg hg gs. quack_forward mo q L s gates experts hidden w1 w2 w3 = Ok (out, saved) \<and>
      quack_backward mo q L s saved hidden (w1, w2, w3) need grad_output = Ok (gg, hg, gs) \<and>
      token_gradients mo mma s (w1, w2, w3) experts gates hidden grad_output gg hg" by blast
qed

lemma ex_gate_gradients:
  assumes "token_gradients ex_moe int_mma ex_shape ([2, 3], [1, 1], [1, 2]) [1, 0] [1, 2] [5, 7] [1, 1] gg hg"
  shows "gg ! 0 = 150" "gg ! 1 = 98"
  using assms unfolding token_gradients_def Let_def prod.case
  by (simp_all add: choice_gate_grad_def choice_weighted_def expert_product_def weight_index_def expert_linear_def ex_moe_def ex_shape_def int_ops_def int_mma_def)

theorem expert_gradients_per_token_witness:
  "(\<exists>out saved gate_grad hidden_grad gs. moe_forward ex_moe ex_launches ex_shape [1, 2] [1, 0] [5, 7] [2, 3] [1, 1] [1, 2] = Ok (out, saved) \<and>
    moe_backward ex_moe ex_launches ex_shape saved ([2, 3], [1, 1], [1, 2]) (True, True, True) [1, 1] = Ok (gate_grad, hidden_grad, gs) \<and>
    gate_grad ! 0 = 150 \<and> gate_grad ! 1 = 98) \<and>
   (\<exists>out saved gate_grad hidden_grad gs. quack_forward ex_moe ex_quack ex_launches ex_shape [1, 2] [1, 0] [5, 7] [2, 3] [1, 1] [1, 2] = Ok (out, saved) \<and>
    quack_backward ex_moe ex_quack ex_launches ex_shape saved [5, 7] ([2, 3], [1, 1], [1, 2]) (True, True, True) [1, 1] = Ok (gate_grad, hidden_grad, gs) \<and>
    gate_grad ! 0 = 150 \<and> gate_grad ! 1 = 98)"
proof -
  have ri: "row_independent (mo_gemm ex_moe) int_mma" "quack_ok ex_quack (mo_gemm ex_moe) int_mma"
    using int_row_independent ex_quack_ok by (simp_all add: ex_moe_def)
  have ok: "routing_ok ex_shape [1, 0]" "weights_ok ex_shape [2, 3 :: int] [1, 1] [1, 2]" "length [1, 2 :: int] = sh_rows ex_shape"
    "length [5, 7 :: int] = sh_tokens ex_shape * sh_hidden ex_shape" "length [1, 1 :: int] = sh_tokens ex_shape * sh_hidden ex_shape"
    by (simp_all add: ex_shape_def routing_ok_def weights_ok_def)
  have distinct: "distinct_choices ex_shape [1, 0]" by (simp add: distinct_choices_def ex_shape_def)
  note G = expert_gradients_per_token [OF ri ex_launches_ok ok, of "(True, True, True)"]
  show ?thesis using conjunct1 [OF G] conjunct2 [OF G] distinct ex_gate_gradients by meson
qed

end
