(* ===== verification/Moe_Tuning.thy ===== *)
theory Moe_Tuning
  imports Fused_Moe
begin

text \<open>
  Launch configurations for the expert products (\<open>src/vexact/batch_invariant_ops/moe_group_gemm_tuning.py\<close>): the
  forward call of the grouped product is launched with a tile chosen by the number of rows, every other call
  goes to the original function. The module patches VeOmni: its function for other calls is a parameter, and its kernel
  is represented by the one in \<open>group_gemm/kernel/group_gemm.py\<close> of this repository.
\<close>

section \<open>Choosing a configuration\<close>

text \<open>Rows, columns and depth of a tile, warps, pipeline stages.\<close>

type_synonym launch_config = "nat \<times> nat \<times> nat \<times> nat \<times> nat"

definition tuned_configs :: "launch_config list" where
  "tuned_configs = [(64, 256, 64, 8, 4), (64, 128, 128, 4, 4), (64, 128, 64, 8, 3), (128, 128, 32, 4, 4)]"

definition veomni_default :: launch_config where
  "veomni_default = (128, 128, 32, 4, 3)"

definition ranked_configs :: "nat \<Rightarrow> launch_config list" where
  "ranked_configs max_m =
     (let best = (if max_m \<le> 128 then 0 else if max_m \<le> 512 then 1 else if max_m \<le> 4096 then 2 else 3)
      in tuned_configs ! best # map (\<lambda>i. tuned_configs ! i) (filter (\<lambda>i. i \<noteq> best) [0..<4]) @ [veomni_default])"

text \<open>
  \<open>fits\<close> tells whether the kernel compiled with a configuration fits the shared memory of the device; the
  choice is remembered per preferred configuration and shape.
\<close>

type_synonym config_cache = "launch_config \<times> nat \<times> nat \<times> nat \<Rightarrow> launch_config option"

definition choose_config :: "(launch_config \<Rightarrow> bool) \<Rightarrow> nat \<Rightarrow> nat \<times> nat \<times> nat \<Rightarrow> config_cache \<Rightarrow> (launch_config \<times> config_cache) res" where
  "choose_config fits max_m shp chosen =
     (let key = (ranked_configs max_m ! 0, shp)
      in case chosen key of
           Some cfg \<Rightarrow> Ok (cfg, chosen)
         | None \<Rightarrow> (case find fits (ranked_configs max_m) of
             None \<Rightarrow> Raise RuntimeError
           | Some cfg \<Rightarrow> Ok (cfg, chosen(key \<mapsto> cfg))))"

section \<open>The patched product\<close>

definition tuned_gemm :: "launch_config \<Rightarrow> nat \<Rightarrow> nat \<Rightarrow> nat \<Rightarrow> group_gemm" where
  "tuned_gemm cfg N K max_m = (let (bm, bn, bk, _) = cfg
     in \<lparr>gg_n = N, gg_k = K, gg_block_m = bm, gg_block_n = bn, gg_block_k = bk, gg_group = 8, gg_max_m = max_m, gg_transpose_b = True\<rparr>)"

text \<open>
  The arguments of a call that decide whether it is retuned, by themselves and with the length of the cumulative sums;
  \<open>original\<close> is the function of VeOmni that gets every other call.
\<close>

record gemm_pattern =
  gp_transpose_a :: bool
  gp_transpose_b :: bool
  gp_activation :: bool
  gp_save_activation :: bool
  gp_has_c :: bool
  gp_a_bf16 :: bool
  gp_b_bf16 :: bool
  gp_contiguous :: bool

definition forward_pattern :: "gemm_pattern \<Rightarrow> bool" where
  "forward_pattern p \<longleftrightarrow> \<not> (gp_transpose_a p \<or> \<not> gp_transpose_b p \<or> gp_activation p \<or> gp_save_activation p \<or> gp_has_c p
     \<or> \<not> gp_a_bf16 p \<or> \<not> gp_b_bf16 p \<or> \<not> gp_contiguous p)"

definition tuned_same_nk ::
    "('f, 'a) gemm_ops \<Rightarrow> ('f \<Rightarrow> 'a) \<Rightarrow> (group_gemm \<Rightarrow> nat \<Rightarrow> (nat \<times> nat) list) \<Rightarrow> (launch_config \<Rightarrow> bool)
       \<Rightarrow> (gemm_pattern \<Rightarrow> nat \<times> nat \<times> nat \<Rightarrow> nat \<Rightarrow> 'f list \<Rightarrow> 'f list \<Rightarrow> nat list \<Rightarrow> nat \<Rightarrow> 'f list res) \<Rightarrow> gemm_pattern
       \<Rightarrow> nat \<times> nat \<times> nat \<Rightarrow> nat \<Rightarrow> 'f list \<Rightarrow> 'f list \<Rightarrow> nat list \<Rightarrow> nat \<Rightarrow> config_cache \<Rightarrow> ('f list \<times> config_cache) res" where
  "tuned_same_nk ops widen schedule fits original p shape_b rows a b cum max_m chosen =
     (if \<not> forward_pattern p \<or> length cum \<noteq> fst shape_b
      then rbind (original p shape_b rows a b cum max_m) (\<lambda>y. Ok (y, chosen))
      else let (G, N, K) = shape_b
           in rbind (choose_config fits max_m (G, N, K) chosen) (\<lambda>(cfg, chosen').
              let g = tuned_gemm cfg N K max_m
              in Ok (read_back (rows * N) (apply_stores
                   (concat (map (\<lambda>pids. fst (group_program g ops widen (mem_of (op_zero ops) a) (mem_of (op_zero ops) b) cum None None pids))
                     (schedule g G))) (\<lambda>_. op_zero ops)), chosen')))"

text \<open>Patching twice changes nothing more.\<close>

datatype patched = Original | Tuned

definition apply_tuning :: "patched \<Rightarrow> patched" where
  "apply_tuning m = (if m = Tuned then m else Tuned)"

section \<open>The same bits\<close>

definition known_configs :: "launch_config set" where
  "known_configs = insert veomni_default (set tuned_configs)"

definition cache_ok :: "config_cache \<Rightarrow> bool" where
  "cache_ok chosen \<longleftrightarrow> ran chosen \<subseteq> known_configs"

lemma ranked_known: "set (ranked_configs max_m) \<subseteq> known_configs"
  by (auto simp: ranked_configs_def tuned_configs_def known_configs_def Let_def nth_Cons' upt_rec)

lemma choose_config_known:
  assumes "choose_config fits max_m shp chosen = Ok (cfg, chosen')" "cache_ok chosen"
  shows "cfg \<in> known_configs" "cache_ok chosen'"
proof -
  have "cfg \<in> known_configs \<and> cache_ok chosen'"
  proof (cases "chosen (ranked_configs max_m ! 0, shp)")
    case None
    then obtain c where c: "find fits (ranked_configs max_m) = Some c" "cfg = c" "chosen' = chosen((ranked_configs max_m ! 0, shp) \<mapsto> c)"
      using assms(1) by (auto simp: choose_config_def Let_def split: option.splits)
    then have "c \<in> set (ranked_configs max_m)" by (auto simp: find_Some_iff)
    then have "c \<in> known_configs" using ranked_known by blast
    then show ?thesis using c None assms(2) by (auto simp: cache_ok_def)
  next
    case (Some c)
    then have "cfg = c" "chosen' = chosen" using assms(1) by (simp_all add: choose_config_def Let_def)
    then show ?thesis using ranI [where m = chosen, OF Some] assms(2) unfolding cache_ok_def by blast
  qed
  then show "cfg \<in> known_configs" "cache_ok chosen'" by simp_all
qed

lemma tuned_gemm_simps [simp]:
  "gg_n (tuned_gemm c N K m) = N" "gg_k (tuned_gemm c N K m) = K" "gg_max_m (tuned_gemm c N K m) = m" "gg_transpose_b (tuned_gemm c N K m)"
  by (simp_all add: tuned_gemm_def split: prod.split)

lemma tuned_gemm_ok: "c \<in> known_configs \<Longrightarrow> group_tiles_ok (tuned_gemm c N K m)"
  by (auto simp: known_configs_def veomni_default_def tuned_configs_def tuned_gemm_def group_tiles_ok_def)

lemma group_covers:
  assumes "groups_ok cum G rows" "0 < G" "cum ! (G - 1) = rows" "p < rows"
  shows "\<exists>e<G. group_start cum e \<le> p \<and> p < cum ! e"
proof -
  define e where "e = (LEAST e. p < cum ! e)"
  have ex: "p < cum ! (G - 1)" using assms(3,4) by simp
  then have e: "p < cum ! e" "e \<le> G - 1" unfolding e_def by (rule LeastI, rule Least_le)
  have "group_start cum e \<le> p"
  proof (cases e)
    case (Suc f)
    have "\<not> p < cum ! f" using not_less_Least [of f "\<lambda>e. p < cum ! e"] Suc by (simp add: e_def)
    then show ?thesis using Suc by (simp add: group_start_def)
  qed (simp add: group_start_def)
  then show ?thesis using e assms(2) by (intro exI [of _ e]) simp
qed

text \<open>
  C38. Tuning does not change a bit: over groups that cover the rows, whatever configuration the device admits
  and whatever was chosen before, a forward call of the tuned product returns the same list as the product with the
  untuned tile, and it fails only when no configuration fits the device and none was chosen for the shape; every other
  call has the outcome of the original function and chooses nothing. (VeOmni's kernel is represented by the kernel of
  this repository.)
\<close>

theorem tuning_keeps_the_bits:
  assumes "row_independent ops mma" "\<forall>g G. set (schedule g G) = group_grid g G" "groups_ok cum G rows" "0 < G" "cum ! (G - 1) = rows"
    and "\<forall>e<G. cum ! e - group_start cum e \<le> max_m" "length a = rows * K" "length b = G * K * N" "cache_ok chosen"
  shows "if forward_pattern p
    then case tuned_same_nk ops widen schedule fits original p (G, N, K) rows a b cum max_m chosen of
      Ok (y, chosen') \<Rightarrow> group_gemm_same_nk ops widen schedule (G, N, K) rows a b cum max_m False True = Ok y \<and> cache_ok chosen'
    | Raise e \<Rightarrow> e = RuntimeError \<and> chosen (ranked_configs max_m ! 0, G, N, K) = None \<and> (\<forall>c\<in>set (ranked_configs max_m). \<not> fits c)
    | Hang \<Rightarrow> False
    else tuned_same_nk ops widen schedule fits original p (G, N, K) rows a b cum max_m chosen =
      rbind (original p (G, N, K) rows a b cum max_m) (\<lambda>y. Ok (y, chosen))"
proof -
  obtain y where y: "group_gemm_same_nk ops widen schedule (G, N, K) rows a b cum max_m False True = Ok y" "length y = rows * N"
    "\<And>e p n. e < G \<Longrightarrow> group_start cum e \<le> p \<Longrightarrow> p < cum ! e \<Longrightarrow> n < N \<Longrightarrow> y ! (p * N + n) =
      op_round ops (mma (map (\<lambda>k. a ! (p * K + k)) [0..<K]) (map (\<lambda>k. b ! weight_index True N K e k n) [0..<K]) (acc_zero ops))"
    using group_gemm_cell [OF assms(1-3,6-8), of widen True] unfolding if_True by blast
  have cover: "\<exists>p n. i = p * N + n \<and> p < rows \<and> n < N" if "i < rows * N" for i
  proof -
    have "0 < N" using that by (cases N) simp_all
    then show ?thesis using that by (intro exI [of _ "i div N"] exI [of _ "i mod N"]) (simp add: less_mult_imp_div_less)
  qed
  have tuned: "read_back (rows * N) (apply_stores (concat (map (\<lambda>pids. fst (group_program (tuned_gemm cfg N K max_m) ops widen
      (mem_of (op_zero ops) a) (mem_of (op_zero ops) b) cum None None pids)) (schedule (tuned_gemm cfg N K max_m) G))) (\<lambda>_. op_zero ops)) = y"
    (is "?l = y") if cfg: "cfg \<in> known_configs" for cfg
  proof (rule nth_equalityI)
    show "length ?l = length y" by (simp add: read_back_def y(2))
    have grid: "set (schedule (tuned_gemm cfg N K max_m) G) = group_grid (tuned_gemm cfg N K max_m) G" using assms(2) by blast
    note entry = launch_entry [OF assms(1) tuned_gemm_ok [OF cfg] grid assms(3), of a b, unfolded tuned_gemm_simps, OF assms(6-8)]
    fix i assume "i < length ?l"
    then obtain p n where i: "i = p * N + n" "p < rows" "n < N" using cover [of i] by (auto simp: read_back_def)
    obtain e where e: "e < G" "group_start cum e \<le> p" "p < cum ! e" using group_covers [OF assms(3-5) i(2)] by blast
    show "?l ! i = y ! i" unfolding i(1) y(3) [OF e i(3)] by (subst entry [OF e i(3)]) simp
  qed
  have len: "length cum = G" using assms(3) by (simp add: groups_ok_def)
  show ?thesis
  proof (cases "forward_pattern p")
    case False
    then show ?thesis by (simp add: tuned_same_nk_def)
  next
    case True
    show ?thesis
    proof (cases "choose_config fits max_m (G, N, K) chosen")
      case (Ok r)
      obtain cfg chosen' where r: "r = (cfg, chosen')" by (cases r) blast
      from choose_config_known [OF Ok [unfolded r] assms(9)] tuned [of cfg] y(1) show ?thesis
        using True Ok r len by (simp add: tuned_same_nk_def Let_def)
    next
      case (Raise e)
      then have "e = RuntimeError" "chosen (ranked_configs max_m ! 0, G, N, K) = None" "\<forall>c\<in>set (ranked_configs max_m). \<not> fits c"
        by (auto simp: choose_config_def Let_def find_None_iff split: option.splits)
      then show ?thesis using True Raise len by (simp add: tuned_same_nk_def)
    next
      case Hang
      then show ?thesis by (auto simp: choose_config_def Let_def split: option.splits)
    qed
  qed
qed

definition ex_pattern :: gemm_pattern where
  "ex_pattern = \<lparr>gp_transpose_a = False, gp_transpose_b = True, gp_activation = False, gp_save_activation = False, gp_has_c = False,
     gp_a_bf16 = True, gp_b_bf16 = True, gp_contiguous = True\<rparr>"

theorem tuning_keeps_the_bits_witness:
  "\<exists>y chosen'. tuned_same_nk int_ops id (run_groups ex_launches) (\<lambda>c. c \<noteq> (64, 256, 64, 8, 4)) (\<lambda>_ _ _ _ _ _ _. Hang) ex_pattern
      (2, 1, 1) 3 [5, 7, 9] [2, 3] [1, 3] 3 Map.empty = Ok (y, chosen') \<and>
    group_gemm_same_nk int_ops id (run_groups ex_launches) (2, 1, 1) 3 [5, 7, 9] [2, 3] [1, 3] 3 False True = Ok y"
proof -
  have sched: "\<forall>g G. set (run_groups ex_launches g G) = group_grid g G" using ex_launches_ok by (simp add: launches_ok_def)
  have le: "e < 2 \<Longrightarrow> e = 0 \<or> e = 1" for e :: nat by linarith
  have groups: "groups_ok [1, 3] 2 3" "\<forall>e<2. [1, 3] ! e - group_start [1, 3] e \<le> 3" by (auto simp: groups_ok_def group_start_def dest: le)
  have fwd: "forward_pattern ex_pattern" by (simp add: forward_pattern_def ex_pattern_def)
  let ?t = "tuned_same_nk int_ops id (run_groups ex_launches) (\<lambda>c. c \<noteq> (64, 256, 64, 8, 4)) (\<lambda>_ _ _ _ _ _ _. Hang) ex_pattern
      (2, 1, 1) 3 [5, 7, 9] [2, 3] [1, 3] 3 Map.empty"
  have "find (\<lambda>c. c \<noteq> (64, 256, 64, 8, 4)) (ranked_configs 3) = Some (64, 128, 128, 4, 4)"
    by (simp add: ranked_configs_def tuned_configs_def Let_def upt_rec)
  then have "\<exists>r. ?t = Ok r" using fwd by (auto simp: tuned_same_nk_def choose_config_def Let_def)
  then obtain y chosen' where t: "?t = Ok (y, chosen')" by auto
  have "if forward_pattern ex_pattern
    then case ?t of Ok (y, chosen') \<Rightarrow> group_gemm_same_nk int_ops id (run_groups ex_launches) (2, 1, 1) 3 [5, 7, 9] [2, 3] [1, 3] 3 False True = Ok y \<and> cache_ok chosen'
    | Raise e \<Rightarrow> e = RuntimeError \<and> Map.empty (ranked_configs 3 ! 0, 2 :: nat, 1 :: nat, 1 :: nat) = (None :: launch_config option) \<and>
        (\<forall>c\<in>set (ranked_configs 3). \<not> c \<noteq> (64, 256, 64, 8, 4)) | Hang \<Rightarrow> False
    else ?t = rbind Hang (\<lambda>y. Ok (y, Map.empty))"
    by (rule tuning_keeps_the_bits [OF int_row_independent sched groups(1) _ _ groups(2)]) (simp_all add: cache_ok_def)
  then show ?thesis using t fwd by simp
qed

end
