(* ===== verification/Attention.thy ===== *)
theory Attention
  imports Matmul Row_Kernels
begin

text \<open>
  Attention over packed and paged sequences (\<open>src/vexact/batch_invariant_ops/triton_invariant_attention.py\<close>): the
  two forward kernels with their online softmax, tile by tile, the two backward kernels, and the checks of
  the wrappers in \<open>Attention_Calls\<close>.

  A tensor is the function that reads an element; the strides that the kernels are passed are the tensor's
  own. The query tiles are laid out over absolute positions of the sequence, whatever part of it the
  queries of a call cover.
\<close>

section \<open>The forward kernels\<close>

record ('f, 'a) attn_ops =
  at_gemm :: "('f, 'a) gemm_ops"
  at_mul :: "'a \<Rightarrow> 'a \<Rightarrow> 'a"
  at_add :: "'a \<Rightarrow> 'a \<Rightarrow> 'a"
  at_sub :: "'a \<Rightarrow> 'a \<Rightarrow> 'a"
  at_div :: "'a \<Rightarrow> 'a \<Rightarrow> 'a"
  at_max :: "'a \<Rightarrow> 'a \<Rightarrow> 'a"
  at_row_max :: "'a list \<Rightarrow> 'a"
  at_row_sum :: "'f list \<Rightarrow> 'a"
  at_exp2 :: "'a \<Rightarrow> 'a"
  at_log2 :: "'a \<Rightarrow> 'a"
  at_cast :: "'a \<Rightarrow> 'f"
  at_convert :: "'f \<Rightarrow> 'f"
  at_zero :: 'a
  at_one :: 'a
  at_neg_inf :: 'a
  at_mask :: 'a
  at_log2e :: 'a
  at_ln2 :: 'a

text \<open>
  What a launch reads: queries by token, keys and values by sequence and position, and where the
  sequences lie.
\<close>

record 'f attn_input =
  ai_query :: "nat \<Rightarrow> nat \<Rightarrow> nat \<Rightarrow> 'f"
  ai_key :: "nat \<Rightarrow> nat \<Rightarrow> nat \<Rightarrow> nat \<Rightarrow> 'f"
  ai_value :: "nat \<Rightarrow> nat \<Rightarrow> nat \<Rightarrow> nat \<Rightarrow> 'f"
  ai_q_start :: "nat \<Rightarrow> nat"
  ai_q_len :: "nat \<Rightarrow> nat"
  ai_kv_len :: "nat \<Rightarrow> nat"

record attn_shape =
  as_q_heads :: nat
  as_kv_heads :: nat
  as_dim :: nat
  as_value_dim :: nat
  as_block_m :: nat
  as_block_n :: nat
  as_block_d :: nat
  as_causal :: bool

type_synonym 'a attn_state = "(nat \<Rightarrow> 'a) \<times> (nat \<Rightarrow> 'a) \<times> (nat \<Rightarrow> nat \<Rightarrow> 'a)"

text \<open>Masked loads of the tiles.\<close>

definition q_abs_start :: "'f attn_input \<Rightarrow> nat \<Rightarrow> int" where
  "q_abs_start x seq = int (ai_kv_len x seq) - int (ai_q_len x seq)"

definition valid_q :: "'f attn_input \<Rightarrow> nat \<Rightarrow> nat \<Rightarrow> bool" where
  "valid_q x seq pos \<longleftrightarrow> q_abs_start x seq \<le> int pos \<and> pos < ai_kv_len x seq"

definition q_local :: "'f attn_input \<Rightarrow> nat \<Rightarrow> nat \<Rightarrow> nat" where
  "q_local x seq pos = (if valid_q x seq pos then nat (int pos - q_abs_start x seq) else 0)"

definition load_q :: "'f \<Rightarrow> attn_shape \<Rightarrow> 'f attn_input \<Rightarrow> nat \<Rightarrow> nat \<Rightarrow> nat \<Rightarrow> 'f tile" where
  "load_q z s x seq head start i d =
     (if valid_q x seq (start + i) \<and> d < as_dim s then ai_query x (ai_q_start x seq + q_local x seq (start + i)) head d else z)"

definition load_k :: "'f \<Rightarrow> attn_shape \<Rightarrow> 'f attn_input \<Rightarrow> nat \<Rightarrow> nat \<Rightarrow> nat \<Rightarrow> 'f tile" where
  "load_k z s x seq kv start j d = (if start + j < ai_kv_len x seq \<and> d < as_dim s then ai_key x seq (start + j) kv d else z)"

definition load_v :: "'f \<Rightarrow> attn_shape \<Rightarrow> 'f attn_input \<Rightarrow> nat \<Rightarrow> nat \<Rightarrow> nat \<Rightarrow> 'f tile" where
  "load_v z s x seq kv start j d = (if start + j < ai_kv_len x seq \<and> d < as_value_dim s then ai_value x seq (start + j) kv d else z)"

text \<open>
  One turn of a loop over key blocks. Before the diagonal the row maximum is scaled after it is taken; on
  the diagonal of a causal kernel the scores are scaled, and lowered where the key comes after the query.
\<close>

definition rescale ::
    "('f, 'a) attn_ops \<Rightarrow> attn_shape \<Rightarrow> 'f tile \<Rightarrow> (nat \<Rightarrow> nat \<Rightarrow> 'a) \<Rightarrow> (nat \<Rightarrow> 'a) \<Rightarrow> 'a attn_state \<Rightarrow> 'a attn_state" where
  "rescale ops s v scores m_new st =
     (let (m, l, acc) = st;
          p = (\<lambda>i j. at_cast ops (at_exp2 ops (at_sub ops (scores i j) (m_new i))));
          alpha = (\<lambda>i. at_exp2 ops (at_sub ops (m i) (m_new i)));
          acc' = op_dot (at_gemm ops) (as_block_m s) (as_block_d s) (as_block_n s) p (\<lambda>j d. at_convert ops (v j d))
                   (\<lambda>i d. at_mul ops (acc i d) (alpha i))
      in (m_new, \<lambda>i. at_add ops (at_mul ops (l i) (alpha i)) (at_row_sum ops (map (p i) [0..<as_block_n s])), acc'))"

definition attn_turn ::
    "('f, 'a) attn_ops \<Rightarrow> attn_shape \<Rightarrow> 'a \<Rightarrow> bool \<Rightarrow> (nat \<Rightarrow> nat \<Rightarrow> bool) \<Rightarrow> 'f tile \<Rightarrow> 'f tile \<Rightarrow> 'f tile \<Rightarrow> 'a attn_state \<Rightarrow> 'a attn_state" where
  "attn_turn ops s qk_scale masked keep q k v st =
     (let (m, l, acc) = st;
          qk = op_dot (at_gemm ops) (as_block_m s) (as_block_n s) (as_block_d s) q (\<lambda>d j. k j d) (\<lambda>i j. acc_zero (at_gemm ops))
      in if masked
         then let scores = (\<lambda>i j. at_add ops (at_mul ops (qk i j) qk_scale) (if keep i j then at_zero ops else at_mask ops))
              in rescale ops s v scores (\<lambda>i. at_max ops (m i) (at_row_max ops (map (scores i) [0..<as_block_n s]))) st
         else rescale ops s v (\<lambda>i j. at_mul ops (qk i j) qk_scale)
                (\<lambda>i. at_max ops (m i) (at_mul ops (at_row_max ops (map (qk i) [0..<as_block_n s])) qk_scale)) st)"

definition attn_tile :: "('f, 'a) attn_ops \<Rightarrow> attn_shape \<Rightarrow> 'a \<Rightarrow> 'f attn_input \<Rightarrow> nat \<Rightarrow> nat \<Rightarrow> nat \<Rightarrow> 'a attn_state" where
  "attn_tile ops s softmax_scale x seq start_m head =
     (let z = op_zero (at_gemm ops); bm = as_block_m s; bn = as_block_n s;
          kv = head div (as_q_heads s div as_kv_heads s);
          q = load_q z s x seq head (start_m * bm);
          qk_scale = at_mul ops softmax_scale (at_log2e ops);
          turn = (\<lambda>masked start_n. attn_turn ops s qk_scale masked (\<lambda>i j. start_n + j \<le> start_m * bm + i) q
                     (load_k z s x seq kv start_n) (load_v z s x seq kv start_n));
          st0 = (\<lambda>i. at_neg_inf ops, \<lambda>i. at_one ops, \<lambda>i d. at_zero ops);
          st1 = fold (\<lambda>t. turn False (t * bn)) [0..<cdiv (start_m * bm) bn] st0
      in fold (\<lambda>t. turn (as_causal s) (start_m * bm + t * bn)) [0..<cdiv bm bn] st1)"

definition attn_skip :: "attn_shape \<Rightarrow> 'f attn_input \<Rightarrow> nat \<Rightarrow> nat \<Rightarrow> bool" where
  "attn_skip s x seq start_m \<longleftrightarrow> ai_kv_len x seq \<le> start_m * as_block_m s \<or> int ((start_m + 1) * as_block_m s) \<le> q_abs_start x seq"

text \<open>One program: the stores to the output and to the logarithms of the row sums.\<close>

definition attn_program ::
    "('f, 'a) attn_ops \<Rightarrow> attn_shape \<Rightarrow> 'a \<Rightarrow> 'f attn_input \<Rightarrow> nat \<times> nat \<times> nat \<Rightarrow> 'f stores \<times> 'a stores" where
  "attn_program ops s softmax_scale x pids =
     (let (seq, start_m, head) = pids; bm = as_block_m s
      in if attn_skip s x seq start_m then ([], [])
         else let (m, l, acc) = attn_tile ops s softmax_scale x seq start_m head;
                  token = (\<lambda>i. ai_q_start x seq + q_local x seq (start_m * bm + i))
              in (concat (map (\<lambda>i. concat (map (\<lambda>d. if valid_q x seq (start_m * bm + i) \<and> d < as_value_dim s
                     then [(int ((token i * as_q_heads s + head) * as_value_dim s + d), at_cast ops (at_div ops (acc i d) (l i)))] else [])
                   [0..<as_block_d s])) [0..<bm]),
                  concat (map (\<lambda>i. if valid_q x seq (start_m * bm + i)
                     then [(int (token i * as_q_heads s + head), at_mul ops (at_add ops (m i) (at_log2 ops (l i))) (at_ln2 ops))] else [])
                   [0..<bm])))"

section \<open>Packed and paged inputs\<close>

definition packed_input ::
    "(nat \<Rightarrow> nat \<Rightarrow> nat \<Rightarrow> 'f) \<Rightarrow> (nat \<Rightarrow> nat \<Rightarrow> nat \<Rightarrow> 'f) \<Rightarrow> (nat \<Rightarrow> nat \<Rightarrow> nat \<Rightarrow> 'f) \<Rightarrow> nat list \<Rightarrow> nat list \<Rightarrow> 'f attn_input" where
  "packed_input q k v cu_q cu_k =
     \<lparr>ai_query = q, ai_key = (\<lambda>seq n. k (cu_k ! seq + n)), ai_value = (\<lambda>seq n. v (cu_k ! seq + n)),
      ai_q_start = (\<lambda>seq. cu_q ! seq), ai_q_len = (\<lambda>seq. cu_q ! Suc seq - cu_q ! seq), ai_kv_len = (\<lambda>seq. cu_k ! Suc seq - cu_k ! seq)\<rparr>"

text \<open>A page table row names the blocks of a sequence; a block number below zero reads as zeros.\<close>

definition paged_read :: "'f \<Rightarrow> nat \<Rightarrow> int list list \<Rightarrow> (nat \<Rightarrow> nat \<Rightarrow> nat \<Rightarrow> nat \<Rightarrow> 'f) \<Rightarrow> nat \<Rightarrow> nat \<Rightarrow> nat \<Rightarrow> nat \<Rightarrow> 'f" where
  "paged_read z page_size table cache seq n kv d =
     (let logical_page = n div page_size; page_offset = n - logical_page * page_size; physical_page = table ! seq ! logical_page
      in if 0 \<le> physical_page then cache (nat physical_page) page_offset kv d else z)"

definition paged_input ::
    "'f \<Rightarrow> nat \<Rightarrow> (nat \<Rightarrow> nat \<Rightarrow> nat \<Rightarrow> 'f) \<Rightarrow> (nat \<Rightarrow> nat \<Rightarrow> nat \<Rightarrow> nat \<Rightarrow> 'f) \<Rightarrow> (nat \<Rightarrow> nat \<Rightarrow> nat \<Rightarrow> nat \<Rightarrow> 'f)
       \<Rightarrow> nat list \<Rightarrow> nat list \<Rightarrow> int list list \<Rightarrow> 'f attn_input" where
  "paged_input z page_size q k_cache v_cache cu_q seqused table =
     \<lparr>ai_query = q, ai_key = paged_read z page_size table k_cache, ai_value = paged_read z page_size table v_cache,
      ai_q_start = (\<lambda>seq. cu_q ! seq), ai_q_len = (\<lambda>seq. cu_q ! Suc seq - cu_q ! seq), ai_kv_len = (\<lambda>seq. seqused ! seq)\<rparr>"

text \<open>The kernel over pages: the same program on what the page table makes visible, without row sums.\<close>

definition paged_attn_program ::
    "('f, 'a) attn_ops \<Rightarrow> attn_shape \<Rightarrow> 'a \<Rightarrow> nat \<Rightarrow> (nat \<Rightarrow> nat \<Rightarrow> nat \<Rightarrow> 'f) \<Rightarrow> (nat \<Rightarrow> nat \<Rightarrow> nat \<Rightarrow> nat \<Rightarrow> 'f) \<Rightarrow> (nat \<Rightarrow> nat \<Rightarrow> nat \<Rightarrow> nat \<Rightarrow> 'f)
       \<Rightarrow> nat list \<Rightarrow> nat list \<Rightarrow> int list list \<Rightarrow> nat \<times> nat \<times> nat \<Rightarrow> 'f stores" where
  "paged_attn_program ops s softmax_scale page_size q k_cache v_cache cu_q seqused table pids =
     fst (attn_program ops s softmax_scale (paged_input (op_zero (at_gemm ops)) page_size q k_cache v_cache cu_q seqused table) pids)"

section \<open>One row of a tile\<close>

text \<open>
  The same loops for a single query at position \<open>i\<close>, over the keys and values by position. In an arithmetic
  whose dot products treat rows separately, a row of a tile is this computation.
\<close>

type_synonym 'a row_state = "'a \<times> 'a \<times> (nat \<Rightarrow> 'a)"

definition row_rescale ::
    "('f, 'a) attn_ops \<Rightarrow> ('f list \<Rightarrow> 'f list \<Rightarrow> 'a \<Rightarrow> 'a) \<Rightarrow> nat \<Rightarrow> (nat \<Rightarrow> nat \<Rightarrow> 'f) \<Rightarrow> (nat \<Rightarrow> 'a) \<Rightarrow> 'a \<Rightarrow> 'a row_state \<Rightarrow> 'a row_state" where
  "row_rescale ops mma bn v scores m_new st =
     (let (m, l, acc) = st;
          p = map (\<lambda>j. at_cast ops (at_exp2 ops (at_sub ops (scores j) m_new))) [0..<bn];
          alpha = at_exp2 ops (at_sub ops m m_new)
      in (m_new, at_add ops (at_mul ops l alpha) (at_row_sum ops p),
          \<lambda>d. mma p (map (\<lambda>j. at_convert ops (v j d)) [0..<bn]) (at_mul ops (acc d) alpha)))"

definition row_turn ::
    "('f, 'a) attn_ops \<Rightarrow> ('f list \<Rightarrow> 'f list \<Rightarrow> 'a \<Rightarrow> 'a) \<Rightarrow> nat \<Rightarrow> 'a \<Rightarrow> bool \<Rightarrow> (nat \<Rightarrow> bool) \<Rightarrow> 'f list \<Rightarrow> (nat \<Rightarrow> 'f list) \<Rightarrow> (nat \<Rightarrow> nat \<Rightarrow> 'f)
       \<Rightarrow> 'a row_state \<Rightarrow> 'a row_state" where
  "row_turn ops mma bn qk_scale masked keep q k v st =
     (let (m, l, acc) = st; qk = (\<lambda>j. mma q (k j) (acc_zero (at_gemm ops)))
      in if masked
         then let scores = (\<lambda>j. at_add ops (at_mul ops (qk j) qk_scale) (if keep j then at_zero ops else at_mask ops))
              in row_rescale ops mma bn v scores (at_max ops m (at_row_max ops (map scores [0..<bn]))) st
         else row_rescale ops mma bn v (\<lambda>j. at_mul ops (qk j) qk_scale)
                (at_max ops m (at_mul ops (at_row_max ops (map qk [0..<bn])) qk_scale)) st)"

definition attn_row ::
    "('f, 'a) attn_ops \<Rightarrow> ('f list \<Rightarrow> 'f list \<Rightarrow> 'a \<Rightarrow> 'a) \<Rightarrow> attn_shape \<Rightarrow> 'a \<Rightarrow> 'f list \<Rightarrow> (nat \<Rightarrow> 'f list) \<Rightarrow> (nat \<Rightarrow> nat \<Rightarrow> 'f) \<Rightarrow> nat \<Rightarrow> 'a row_state" where
  "attn_row ops mma s qk_scale q k v i =
     (let bm = as_block_m s; bn = as_block_n s; start = i div bm * bm;
          turn = (\<lambda>masked start_n. row_turn ops mma bn qk_scale masked (\<lambda>j. start_n + j \<le> i) q (\<lambda>j. k (start_n + j)) (\<lambda>j. v (start_n + j)))
      in fold (\<lambda>t. turn (as_causal s) (start + t * bn)) [0..<cdiv bm bn]
           (fold (\<lambda>t. turn False (t * bn)) [0..<cdiv start bn] (at_neg_inf ops, at_one ops, \<lambda>d. at_zero ops)))"

definition same_row :: "nat \<Rightarrow> nat \<Rightarrow> 'a attn_state \<Rightarrow> 'a row_state \<Rightarrow> bool" where
  "same_row bd r st rw \<longleftrightarrow> fst st r = fst rw \<and> fst (snd st) r = fst (snd rw) \<and> (\<forall>d<bd. snd (snd st) r d = snd (snd rw) d)"

lemma rescale_row:
  assumes "row_independent (at_gemm ops) mma" "r < as_block_m s" "same_row (as_block_d s) r st rw"
    and "\<And>j. j < as_block_n s \<Longrightarrow> scores r j = scores' j" "m_new r = m_new'"
  shows "same_row (as_block_d s) r (rescale ops s v scores m_new st) (row_rescale ops mma (as_block_n s) v scores' m_new' rw)"
proof -
  obtain m l acc where st: "st = (m, l, acc)" by (cases st)
  obtain m' l' acc' where rw: "rw = (m', l', acc')" by (cases rw)
  have eq: "m r = m'" "l r = l'" "\<And>d. d < as_block_d s \<Longrightarrow> acc r d = acc' d" using assms(3) by (simp_all add: same_row_def st rw)
  have p: "map (\<lambda>j. at_cast ops (at_exp2 ops (at_sub ops (scores r j) (m_new r)))) [0..<as_block_n s] =
      map (\<lambda>j. at_cast ops (at_exp2 ops (at_sub ops (scores' j) m_new'))) [0..<as_block_n s]"
    using assms(4,5) by simp
  have dot: "op_dot (at_gemm ops) (as_block_m s) (as_block_d s) (as_block_n s) a b c r d =
      mma (map (a r) [0..<as_block_n s]) (map (\<lambda>k. b k d) [0..<as_block_n s]) (c r d)" if "d < as_block_d s" for a b c d
    using assms(1,2) that unfolding row_independent_def by blast
  show ?thesis
    unfolding same_row_def rescale_def row_rescale_def st rw Let_def prod.case fst_conv snd_conv
  proof (intro conjI allI impI)
    fix d assume d: "d < as_block_d s"
    show "op_dot (at_gemm ops) (as_block_m s) (as_block_d s) (as_block_n s)
        (\<lambda>i j. at_cast ops (at_exp2 ops (at_sub ops (scores i j) (m_new i)))) (\<lambda>j d. at_convert ops (v j d))
        (\<lambda>i d. at_mul ops (acc i d) (at_exp2 ops (at_sub ops (m i) (m_new i)))) r d =
      mma (map (\<lambda>j. at_cast ops (at_exp2 ops (at_sub ops (scores' j) m_new'))) [0..<as_block_n s])
        (map (\<lambda>j. at_convert ops (v j d)) [0..<as_block_n s]) (at_mul ops (acc' d) (at_exp2 ops (at_sub ops m' m_new')))"
      unfolding dot [OF d] p by (simp only: eq(1) eq(3) [OF d] assms(5))
  qed (simp_all only: p eq assms(5) p [unfolded assms(5)])
qed

lemma turn_row:
  assumes "row_independent (at_gemm ops) mma" "r < as_block_m s" "same_row (as_block_d s) r st rw"
  shows "same_row (as_block_d s) r (attn_turn ops s qk_scale masked keep q k v st)
    (row_turn ops mma (as_block_n s) qk_scale masked (keep r) (map (q r) [0..<as_block_d s]) (\<lambda>j. map (k j) [0..<as_block_d s]) v rw)"
proof -
  obtain m l acc where st: "st = (m, l, acc)" by (cases st)
  obtain m' l' acc' where rw: "rw = (m', l', acc')" by (cases rw)
  have m: "m r = m'" using assms(3) by (simp add: same_row_def st rw)
  have qk: "op_dot (at_gemm ops) (as_block_m s) (as_block_n s) (as_block_d s) q (\<lambda>d j. k j d) (\<lambda>i j. acc_zero (at_gemm ops)) r j =
      mma (map (q r) [0..<as_block_d s]) (map (k j) [0..<as_block_d s]) (acc_zero (at_gemm ops))" if "j < as_block_n s" for j
    using assms(1,2) that unfolding row_independent_def by blast
  have qks: "map (\<lambda>j. f (op_dot (at_gemm ops) (as_block_m s) (as_block_n s) (as_block_d s) q (\<lambda>d j. k j d) (\<lambda>i j. acc_zero (at_gemm ops)) r j) j) [0..<as_block_n s] =
      map (\<lambda>j. f (mma (map (q r) [0..<as_block_d s]) (map (k j) [0..<as_block_d s]) (acc_zero (at_gemm ops))) j) [0..<as_block_n s]" for f :: "'b \<Rightarrow> nat \<Rightarrow> 'b"
    using qk by simp
  show ?thesis
  proof (cases masked)
    case True
    show ?thesis
      unfolding attn_turn_def row_turn_def st rw Let_def prod.case if_P [OF True]
      using assms(3) unfolding st rw
      by (intro rescale_row [OF assms(1,2)]) (simp_all only: qk m qks [where f = "\<lambda>x j. at_add ops (at_mul ops x qk_scale) (if keep r j then at_zero ops else at_mask ops)"])
  next
    case False
    show ?thesis
      unfolding attn_turn_def row_turn_def st rw Let_def prod.case if_not_P [OF False]
      using assms(3) unfolding st rw
      by (intro rescale_row [OF assms(1,2)]) (simp_all only: qk m qks [where f = "\<lambda>x j. x"])
  qed
qed

text \<open>Keys and values by position, zeros past the end of the sequence.\<close>

definition key_at :: "'f \<Rightarrow> attn_shape \<Rightarrow> 'f attn_input \<Rightarrow> nat \<Rightarrow> nat \<Rightarrow> nat \<Rightarrow> 'f list" where
  "key_at z s x seq kv n = map (\<lambda>d. if n < ai_kv_len x seq \<and> d < as_dim s then ai_key x seq n kv d else z) [0..<as_block_d s]"

definition value_at :: "'f \<Rightarrow> attn_shape \<Rightarrow> 'f attn_input \<Rightarrow> nat \<Rightarrow> nat \<Rightarrow> nat \<Rightarrow> nat \<Rightarrow> 'f" where
  "value_at z s x seq kv n d = (if n < ai_kv_len x seq \<and> d < as_value_dim s then ai_value x seq n kv d else z)"

definition query_at :: "'f \<Rightarrow> attn_shape \<Rightarrow> 'f attn_input \<Rightarrow> nat \<Rightarrow> nat \<Rightarrow> nat \<Rightarrow> 'f list" where
  "query_at z s x seq head i =
     map (\<lambda>d. if d < as_dim s then ai_query x (ai_q_start x seq + q_local x seq i) head d else z) [0..<as_block_d s]"

lemma fold_invariant2:
  assumes "R a b" "\<And>t a b. t \<in> set ts \<Longrightarrow> R a b \<Longrightarrow> R (f t a) (g t b)"
  shows "R (fold f ts a) (fold g ts b)"
  using assms
proof (induction ts arbitrary: a b)
  case (Cons t ts)
  have "R (f t a) (g t b)" using Cons.prems by (simp add: Cons.prems(2))
  from Cons.IH [OF this] show ?case using Cons.prems(2) by simp
qed simp

lemma tile_row:
  fixes head :: nat
  assumes "row_independent (at_gemm ops) mma" "0 < as_block_m s" "valid_q x seq i"
  defines "z \<equiv> op_zero (at_gemm ops)" and "kv \<equiv> head div (as_q_heads s div as_kv_heads s)"
  shows "same_row (as_block_d s) (i mod as_block_m s) (attn_tile ops s softmax_scale x seq (i div as_block_m s) head)
    (attn_row ops mma s (at_mul ops softmax_scale (at_log2e ops)) (query_at z s x seq head i) (key_at z s x seq kv) (value_at z s x seq kv) i)"
proof -
  let ?bm = "as_block_m s" and ?bn = "as_block_n s" and ?bd = "as_block_d s" and ?qs = "at_mul ops softmax_scale (at_log2e ops)"
  let ?start = "i div ?bm * ?bm" and ?r = "i mod ?bm"
  have r: "?r < ?bm" using assms(2) by simp
  have pos: "?start + ?r = i" by simp
  have q: "map (load_q z s x seq head ?start ?r) [0..<?bd] = query_at z s x seq head i"
    unfolding query_at_def load_q_def pos using assms(3) by simp
  let ?turn = "\<lambda>masked start_n. attn_turn ops s ?qs masked (\<lambda>i j. start_n + j \<le> ?start + i) (load_q z s x seq head ?start)
      (load_k z s x seq kv start_n) (load_v z s x seq kv start_n)"
  let ?rturn = "\<lambda>masked start_n. row_turn ops mma ?bn ?qs masked (\<lambda>j. start_n + j \<le> i) (query_at z s x seq head i)
      (\<lambda>j. key_at z s x seq kv (start_n + j)) (\<lambda>j. value_at z s x seq kv (start_n + j))"
  have k: "(\<lambda>j. map (load_k z s x seq kv n j) [0..<?bd]) = (\<lambda>j. key_at z s x seq kv (n + j))" for n
    by (simp add: key_at_def load_k_def [abs_def])
  have v: "load_v z s x seq kv n = (\<lambda>j. value_at z s x seq kv (n + j))" for n
    by (simp add: value_at_def load_v_def fun_eq_iff)
  have turn: "same_row ?bd ?r st rw \<Longrightarrow> same_row ?bd ?r (?turn masked n st) (?rturn masked n rw)" for masked n st rw
    using turn_row [OF assms(1) r, where qk_scale = ?qs and masked = masked and keep = "\<lambda>i j. n + j \<le> ?start + i"
        and q = "load_q z s x seq head ?start" and k = "load_k z s x seq kv n" and v = "load_v z s x seq kv n" and st = st and rw = rw]
    unfolding q k v pos .
  have start: "same_row ?bd ?r (\<lambda>i. at_neg_inf ops, \<lambda>i. at_one ops, \<lambda>i d. at_zero ops) (at_neg_inf ops, at_one ops, \<lambda>d. at_zero ops)"
    by (simp add: same_row_def)
  show ?thesis
    unfolding attn_tile_def attn_row_def Let_def
    unfolding z_def [symmetric] kv_def [symmetric]
    by (intro fold_invariant2 [where R = "same_row ?bd ?r"] turn start)
qed

section \<open>Keys after the query do not count\<close>

text \<open>
  What the masking relies on. \<open>ok\<close> holds for scaled scores of ordinary size (in single precision, finite and
  below \<open>2 ^ 18\<close>, say) and \<open>fin\<close> for finite values. A score lowered by the mask never changes a maximum that an
  ordinary score takes part in, its exponential underflows to zero, and a zero weight adds nothing.
\<close>

definition lowered :: "('f, 'a) attn_ops \<Rightarrow> ('a \<Rightarrow> bool) \<Rightarrow> 'a \<Rightarrow> bool" where
  "lowered ops ok y \<longleftrightarrow> (\<exists>x. ok x \<and> y = at_add ops x (at_mask ops))"

definition attn_laws :: "('f, 'a) attn_ops \<Rightarrow> ('f list \<Rightarrow> 'f list \<Rightarrow> 'a \<Rightarrow> 'a) \<Rightarrow> 'a \<Rightarrow> ('a \<Rightarrow> bool) \<Rightarrow> ('f \<Rightarrow> bool) \<Rightarrow> bool" where
  "attn_laws ops mma qk_scale ok fin \<longleftrightarrow>
     (\<forall>xs. xs \<noteq> [] \<longrightarrow> (\<forall>x\<in>set xs. ok (at_mul ops x qk_scale)) \<longrightarrow> ok (at_mul ops (at_row_max ops xs) qk_scale)) \<and>
     (\<forall>m x. ok x \<longrightarrow> ok m \<or> m = at_neg_inf ops \<longrightarrow> ok (at_max ops m x)) \<and>
     (\<forall>x. ok x \<longrightarrow> ok (at_add ops x (at_zero ops))) \<and>
     (\<forall>xs ys. length xs = length ys \<longrightarrow> (\<exists>j<length xs. ok (xs ! j) \<and> ys ! j = xs ! j) \<longrightarrow>
        (\<forall>j<length xs. ok (xs ! j) \<and> ys ! j = xs ! j \<or> lowered ops ok (xs ! j) \<and> lowered ops ok (ys ! j)) \<longrightarrow>
        at_row_max ops xs = at_row_max ops ys \<and> ok (at_row_max ops xs)) \<and>
     (\<forall>m xs. ok m \<longrightarrow> xs \<noteq> [] \<longrightarrow> (\<forall>x\<in>set xs. lowered ops ok x) \<longrightarrow> at_max ops m (at_row_max ops xs) = m) \<and>
     (\<forall>m x. ok m \<longrightarrow> lowered ops ok x \<longrightarrow> at_cast ops (at_exp2 ops (at_sub ops x m)) = op_zero (at_gemm ops)) \<and>
     (\<forall>ps vs vs' c. length vs = length ps \<longrightarrow> length vs' = length ps \<longrightarrow>
        (\<forall>j<length ps. fin (vs ! j) \<and> fin (vs' ! j) \<and> (ps ! j = op_zero (at_gemm ops) \<or> vs ! j = vs' ! j)) \<longrightarrow> mma ps vs c = mma ps vs' c)"

lemma attn_lawsD:
  assumes "attn_laws ops mma qs ok fin"
  shows "xs \<noteq> [] \<Longrightarrow> \<forall>x\<in>set xs. ok (at_mul ops x qs) \<Longrightarrow> ok (at_mul ops (at_row_max ops xs) qs)"
    "ok x \<Longrightarrow> ok m \<or> m = at_neg_inf ops \<Longrightarrow> ok (at_max ops m x)"
    "ok x \<Longrightarrow> ok (at_add ops x (at_zero ops))"
    "length xs = length ys \<Longrightarrow> \<exists>j<length xs. ok (xs ! j) \<and> ys ! j = xs ! j \<Longrightarrow>
       \<forall>j<length xs. ok (xs ! j) \<and> ys ! j = xs ! j \<or> lowered ops ok (xs ! j) \<and> lowered ops ok (ys ! j) \<Longrightarrow>
       at_row_max ops xs = at_row_max ops ys \<and> ok (at_row_max ops xs)"
    "ok m \<Longrightarrow> xs \<noteq> [] \<Longrightarrow> \<forall>x\<in>set xs. lowered ops ok x \<Longrightarrow> at_max ops m (at_row_max ops xs) = m"
    "ok m \<Longrightarrow> lowered ops ok x \<Longrightarrow> at_cast ops (at_exp2 ops (at_sub ops x m)) = op_zero (at_gemm ops)"
    "length vs = length ps \<Longrightarrow> length vs' = length ps \<Longrightarrow>
       \<forall>j<length ps. fin (vs ! j) \<and> fin (vs' ! j) \<and> (ps ! j = op_zero (at_gemm ops) \<or> vs ! j = vs' ! j) \<Longrightarrow> mma ps vs c = mma ps vs' c"
proof -
  note L = assms [unfolded attn_laws_def]
  note L1 = L [THEN conjunct1] and T1 = L [THEN conjunct2]
  note L2 = T1 [THEN conjunct1] and T2 = T1 [THEN conjunct2]
  note L3 = T2 [THEN conjunct1] and T3 = T2 [THEN conjunct2]
  note L4 = T3 [THEN conjunct1] and T4 = T3 [THEN conjunct2]
  note L5 = T4 [THEN conjunct1] and T5 = T4 [THEN conjunct2]
  note L6 = T5 [THEN conjunct1] and L7 = T5 [THEN conjunct2]
  show "xs \<noteq> [] \<Longrightarrow> \<forall>x\<in>set xs. ok (at_mul ops x qs) \<Longrightarrow> ok (at_mul ops (at_row_max ops xs) qs)"
    by (rule L1 [THEN spec, THEN mp, THEN mp])
  show "ok x \<Longrightarrow> ok m \<or> m = at_neg_inf ops \<Longrightarrow> ok (at_max ops m x)" by (rule L2 [THEN spec, THEN spec, THEN mp, THEN mp])
  show "ok x \<Longrightarrow> ok (at_add ops x (at_zero ops))" by (rule L3 [THEN spec, THEN mp])
  show "length xs = length ys \<Longrightarrow> \<exists>j<length xs. ok (xs ! j) \<and> ys ! j = xs ! j \<Longrightarrow>
       \<forall>j<length xs. ok (xs ! j) \<and> ys ! j = xs ! j \<or> lowered ops ok (xs ! j) \<and> lowered ops ok (ys ! j) \<Longrightarrow>
       at_row_max ops xs = at_row_max ops ys \<and> ok (at_row_max ops xs)"
    by (rule L4 [THEN spec, THEN spec, THEN mp, THEN mp, THEN mp])
  show "ok m \<Longrightarrow> xs \<noteq> [] \<Longrightarrow> \<forall>x\<in>set xs. lowered ops ok x \<Longrightarrow> at_max ops m (at_row_max ops xs) = m"
    by (rule L5 [THEN spec, THEN spec, THEN mp, THEN mp, THEN mp])
  show "ok m \<Longrightarrow> lowered ops ok x \<Longrightarrow> at_cast ops (at_exp2 ops (at_sub ops x m)) = op_zero (at_gemm ops)"
    by (rule L6 [THEN spec, THEN spec, THEN mp, THEN mp])
  show "length vs = length ps \<Longrightarrow> length vs' = length ps \<Longrightarrow>
       \<forall>j<length ps. fin (vs ! j) \<and> fin (vs' ! j) \<and> (ps ! j = op_zero (at_gemm ops) \<or> vs ! j = vs' ! j) \<Longrightarrow> mma ps vs c = mma ps vs' c"
    by (rule L7 [THEN spec, THEN spec, THEN spec, THEN spec, THEN mp, THEN mp, THEN mp])
qed

text \<open>The data of one query: every score it can meet is of ordinary size and the values are finite.\<close>

definition data_ok ::
    "('f, 'a) attn_ops \<Rightarrow> ('f list \<Rightarrow> 'f list \<Rightarrow> 'a \<Rightarrow> 'a) \<Rightarrow> 'a \<Rightarrow> ('a \<Rightarrow> bool) \<Rightarrow> ('f \<Rightarrow> bool) \<Rightarrow> 'f list \<Rightarrow> (nat \<Rightarrow> 'f list) \<Rightarrow> (nat \<Rightarrow> nat \<Rightarrow> 'f) \<Rightarrow> bool" where
  "data_ok ops mma qk_scale ok fin q k v \<longleftrightarrow>
     (\<forall>n. ok (at_mul ops (mma q (k n) (acc_zero (at_gemm ops))) qk_scale)) \<and> (\<forall>n d. fin (at_convert ops (v n d)))"

lemma off_diagonal:
  assumes "attn_laws ops mma qs ok fin" "data_ok ops mma qs ok fin q k v" "0 < bn" "ok (fst st) \<or> fst st = at_neg_inf ops"
  shows "ok (fst (row_turn ops mma bn qs False keep q (\<lambda>j. k (n + j)) w st))"
proof -
  obtain m l acc where st: "st = (m, l, acc)" by (cases st)
  have "ok (at_mul ops (at_row_max ops (map (\<lambda>j. mma q (k (n + j)) (acc_zero (at_gemm ops))) [0..<bn])) qs)"
    using assms(2,3) by (intro attn_lawsD(1) [OF assms(1)]) (auto simp: data_ok_def)
  then have "ok (at_max ops m (at_mul ops (at_row_max ops (map (\<lambda>j. mma q (k (n + j)) (acc_zero (at_gemm ops))) [0..<bn])) qs))"
    using assms(4) unfolding st by (intro attn_lawsD(2) [OF assms(1)]) simp_all
  then show ?thesis by (simp add: row_turn_def row_rescale_def st Let_def)
qed

text \<open>One turn on the diagonal.\<close>

lemma diagonal_turn:
  assumes L: "attn_laws ops mma qs ok fin" and D: "data_ok ops mma qs ok fin q k v" "data_ok ops mma qs ok fin q k' v'" and bn: "0 < bn"
    and same: "\<And>n. n \<le> i \<Longrightarrow> k n = k' n" "\<And>n. n \<le> i \<Longrightarrow> v n = v' n"
    and m: "ok (fst st) \<or> fst st = at_neg_inf ops \<and> n \<le> i"
  shows "row_turn ops mma bn qs True (\<lambda>j. n + j \<le> i) q (\<lambda>j. k (n + j)) (\<lambda>j. v (n + j)) st =
      row_turn ops mma bn qs True (\<lambda>j. n + j \<le> i) q (\<lambda>j. k' (n + j)) (\<lambda>j. v' (n + j)) st \<and>
    ok (fst (row_turn ops mma bn qs True (\<lambda>j. n + j \<le> i) q (\<lambda>j. k (n + j)) (\<lambda>j. v (n + j)) st))"
proof -
  note Ls = attn_lawsD [OF L]
  obtain m l acc where st: "st = (m, l, acc)" by (cases st)
  define sc where "sc k j = at_add ops (at_mul ops (mma q (k (n + j)) (acc_zero (at_gemm ops))) qs) (if n + j \<le> i then at_zero ops else at_mask ops)"
    for k :: "nat \<Rightarrow> 'a list" and j
  have kept: "ok (sc k j)" "sc k' j = sc k j" if "n + j \<le> i" for j
  proof -
    have "ok (at_mul ops (mma q (k (n + j)) (acc_zero (at_gemm ops))) qs)" using D(1) by (simp add: data_ok_def)
    from Ls(3) [OF this] show "ok (sc k j)" using that by (simp add: sc_def)
    show "sc k' j = sc k j" using same(1) [OF that] by (simp add: sc_def)
  qed
  have low: "lowered ops ok (sc k j)" "lowered ops ok (sc k' j)" if "\<not> n + j \<le> i" for j
    using that D by (auto simp: sc_def data_ok_def lowered_def)
  let ?xs = "map (sc k) [0..<bn]" and ?ys = "map (sc k') [0..<bn]"
  let ?m = "at_max ops m (at_row_max ops ?xs)"
  have new: "at_max ops m (at_row_max ops ?ys) = ?m \<and> ok ?m"
  proof (cases "n \<le> i")
    case True
    have "\<forall>j<length ?xs. ok (?xs ! j) \<and> ?ys ! j = ?xs ! j \<or> lowered ops ok (?xs ! j) \<and> lowered ops ok (?ys ! j)"
    proof (intro allI impI)
      fix j assume j: "j < length ?xs"
      then have nth: "?xs ! j = sc k j" "?ys ! j = sc k' j" by simp_all
      show "ok (?xs ! j) \<and> ?ys ! j = ?xs ! j \<or> lowered ops ok (?xs ! j) \<and> lowered ops ok (?ys ! j)"
        unfolding nth using kept [of j] low [of j] by blast
    qed
    moreover have "\<exists>j<length ?xs. ok (?xs ! j) \<and> ?ys ! j = ?xs ! j" using kept [of 0] True bn by (intro exI [of _ 0]) simp
    moreover have "length ?xs = length ?ys" by simp
    ultimately have "at_row_max ops ?xs = at_row_max ops ?ys" "ok (at_row_max ops ?xs)" using Ls(4) [of ?xs ?ys] by blast+
    moreover have "ok m \<or> m = at_neg_inf ops" using m st by auto
    ultimately show ?thesis using Ls(2) by simp
  next
    case False
    then have "\<forall>x\<in>set ?xs. lowered ops ok x" "\<forall>x\<in>set ?ys. lowered ops ok x" using low by auto
    moreover have "ok m" using m False st by simp
    moreover have "?xs \<noteq> []" "?ys \<noteq> []" using bn by simp_all
    ultimately have "at_max ops m (at_row_max ops ?xs) = m" "at_max ops m (at_row_max ops ?ys) = m" using Ls(5) by blast+
    with \<open>ok m\<close> show ?thesis by simp
  qed
  define p where "p k = map (\<lambda>j. at_cast ops (at_exp2 ops (at_sub ops (sc k j) ?m))) [0..<bn]" for k
  have zero: "at_cast ops (at_exp2 ops (at_sub ops (sc k j) ?m)) = op_zero (at_gemm ops)"
    "at_cast ops (at_exp2 ops (at_sub ops (sc k' j) ?m)) = op_zero (at_gemm ops)" if "\<not> n + j \<le> i" for j
    using Ls(6) low [OF that] new by blast+
  have p: "p k' = p k"
    unfolding p_def
  proof (intro map_cong refl)
    fix j show "at_cast ops (at_exp2 ops (at_sub ops (sc k' j) ?m)) = at_cast ops (at_exp2 ops (at_sub ops (sc k j) ?m))"
      using kept(2) [of j] zero [of j] by (cases "n + j \<le> i") simp_all
  qed
  have mma: "mma (p k) (map (\<lambda>j. at_convert ops (v (n + j) d)) [0..<bn]) c = mma (p k) (map (\<lambda>j. at_convert ops (v' (n + j) d)) [0..<bn]) c" for d c
  proof -
    have "\<forall>j<length (p k). fin (map (\<lambda>j. at_convert ops (v (n + j) d)) [0..<bn] ! j) \<and> fin (map (\<lambda>j. at_convert ops (v' (n + j) d)) [0..<bn] ! j) \<and>
        (p k ! j = op_zero (at_gemm ops) \<or> map (\<lambda>j. at_convert ops (v (n + j) d)) [0..<bn] ! j = map (\<lambda>j. at_convert ops (v' (n + j) d)) [0..<bn] ! j)"
    proof (intro allI impI)
      fix j assume "j < length (p k)"
      then have j: "j < bn" by (simp add: p_def)
      then have "p k ! j = op_zero (at_gemm ops) \<or> v (n + j) = v' (n + j)" using zero(1) [of j] same(2) [of "n + j"] by (auto simp: p_def)
      then show "fin (map (\<lambda>j. at_convert ops (v (n + j) d)) [0..<bn] ! j) \<and> fin (map (\<lambda>j. at_convert ops (v' (n + j) d)) [0..<bn] ! j) \<and>
        (p k ! j = op_zero (at_gemm ops) \<or> map (\<lambda>j. at_convert ops (v (n + j) d)) [0..<bn] ! j = map (\<lambda>j. at_convert ops (v' (n + j) d)) [0..<bn] ! j)"
        using j D by (auto simp: data_ok_def)
    qed
    moreover have "length (map (\<lambda>j. at_convert ops (v (n + j) d)) [0..<bn]) = length (p k)" "length (map (\<lambda>j. at_convert ops (v' (n + j) d)) [0..<bn]) = length (p k)"
      by (simp_all add: p_def)
    ultimately show ?thesis by (intro Ls(7)) blast+
  qed
  have turn: "row_turn ops mma bn qs True (\<lambda>j. n + j \<le> i) q (\<lambda>j. k (n + j)) (\<lambda>j. w (n + j)) st =
      row_rescale ops mma bn (\<lambda>j. w (n + j)) (sc k) (at_max ops m (at_row_max ops (map (sc k) [0..<bn]))) (m, l, acc)" for k w
    by (simp add: row_turn_def sc_def [abs_def] st Let_def)
  show ?thesis
    unfolding turn conjunct1 [OF new] row_rescale_def Let_def prod.case p_def [symmetric] p mma using new by simp
qed

lemma row_turn_cong:
  assumes "\<And>j. j < bn \<Longrightarrow> k j = k' j" "\<And>j. j < bn \<Longrightarrow> v j = v' j"
  shows "row_turn ops mma bn qs False keep q k v st = row_turn ops mma bn qs False keep q k' v' st"
proof -
  obtain m l acc where st: "st = (m, l, acc)" by (cases st)
  let ?z = "acc_zero (at_gemm ops)"
  have M: "map (\<lambda>j. mma q (k j) ?z) [0..<bn] = map (\<lambda>j. mma q (k' j) ?z) [0..<bn]" using assms(1) by simp
  have P: "map (\<lambda>j. at_cast ops (at_exp2 ops (at_sub ops (at_mul ops (mma q (k j) ?z) qs) x))) [0..<bn] =
      map (\<lambda>j. at_cast ops (at_exp2 ops (at_sub ops (at_mul ops (mma q (k' j) ?z) qs) x))) [0..<bn]" for x using assms(1) by simp
  have V: "map (\<lambda>j. at_convert ops (v j d)) [0..<bn] = map (\<lambda>j. at_convert ops (v' j d)) [0..<bn]" for d using assms(2) by simp
  show ?thesis unfolding row_turn_def row_rescale_def st Let_def prod.case if_False M P V ..
qed

text \<open>
  The row of a query at position \<open>i\<close> is determined by the query and the keys and values up to \<open>i\<close>.
\<close>

lemma attn_row_prefix:
  assumes L: "attn_laws ops mma qs ok fin" and D: "data_ok ops mma qs ok fin q k v" "data_ok ops mma qs ok fin q k' v'"
    and s: "0 < as_block_n s" "0 < as_block_m s" "as_block_n s dvd as_block_m s" "as_causal s"
    and same: "\<And>n. n \<le> i \<Longrightarrow> k n = k' n" "\<And>n. n \<le> i \<Longrightarrow> v n = v' n"
  shows "attn_row ops mma s qs q k v i = attn_row ops mma s qs q k' v' i"
proof -
  let ?bm = "as_block_m s" and ?bn = "as_block_n s"
  let ?start = "i div ?bm * ?bm"
  let ?turn = "\<lambda>k v masked n. row_turn ops mma ?bn qs masked (\<lambda>j. n + j \<le> i) q (\<lambda>j. k (n + j)) (\<lambda>j. v (n + j))"
  let ?off = "\<lambda>k v. fold (\<lambda>t. ?turn k v False (t * ?bn)) [0..<cdiv ?start ?bn] (at_neg_inf ops, at_one ops, \<lambda>d. at_zero ops)"
  have start: "?start \<le> i" by simp
  have dvd: "?bn dvd ?start" using s(3) by simp
  have off: "?off k v = ?off k' v' \<and> (ok (fst (?off k v)) \<or> fst (?off k v) = at_neg_inf ops)"
  proof (rule fold_invariant2 [where R = "\<lambda>a b. a = b \<and> (ok (fst a) \<or> fst a = at_neg_inf ops)"])
    fix t and a b :: "'b row_state" assume t: "t \<in> set [0..<cdiv ?start ?bn]" and ab: "a = b \<and> (ok (fst a) \<or> fst a = at_neg_inf ops)"
    then have "t * ?bn < ?start" using less_cdiv [OF s(1)] by simp
    moreover obtain c where c: "?start = c * ?bn" using dvd by (metis dvd_def mult.commute)
    ultimately have "Suc t \<le> c" by simp
    then have "Suc t * ?bn \<le> ?start" unfolding c by (rule mult_le_mono1)
    then have in_range: "t * ?bn + j \<le> i" if "j < ?bn" for j using that start unfolding mult_Suc by linarith
    have "?turn k v False (t * ?bn) b = ?turn k' v' False (t * ?bn) b"
      by (rule row_turn_cong) (use same in_range in blast)+
    moreover have "ok (fst (?turn k v False (t * ?bn) a))" using off_diagonal [OF L D(1) s(1)] ab by blast
    ultimately show "?turn k v False (t * ?bn) a = ?turn k' v' False (t * ?bn) b \<and>
        (ok (fst (?turn k v False (t * ?bn) a)) \<or> fst (?turn k v False (t * ?bn) a) = at_neg_inf ops)" using ab by simp
  qed simp
  have "0 < cdiv ?bm ?bn" using less_cdiv [OF s(1), of 0 ?bm] s(2) by simp
  then have blocks: "[0..<cdiv ?bm ?bn] = 0 # [1..<cdiv ?bm ?bn]" by (simp add: upt_conv_Cons)
  define s1 where "s1 k v = ?turn k v True ?start (?off k v)" for k v
  have first: "s1 k v = s1 k' v' \<and> ok (fst (s1 k v))"
    unfolding s1_def conjunct1 [OF off, symmetric]
    by (rule diagonal_turn [OF L D s(1) same]) (use off start in auto)
  have "fold (\<lambda>t. ?turn k v True (?start + t * ?bn)) [1..<cdiv ?bm ?bn] (s1 k v) = fold (\<lambda>t. ?turn k' v' True (?start + t * ?bn)) [1..<cdiv ?bm ?bn] (s1 k' v') \<and>
      ok (fst (fold (\<lambda>t. ?turn k v True (?start + t * ?bn)) [1..<cdiv ?bm ?bn] (s1 k v)))"
  proof (rule fold_invariant2 [where R = "\<lambda>a b. a = b \<and> ok (fst a)"])
    show "s1 k v = s1 k' v' \<and> ok (fst (s1 k v))" by (rule first)
    fix t and a b :: "'b row_state" assume ab: "a = b \<and> ok (fst a)"
    then have eq: "a = b" by (rule conjunct1)
    have m: "ok (fst b)" using conjunct2 [OF ab] unfolding eq .
    show "?turn k v True (?start + t * ?bn) a = ?turn k' v' True (?start + t * ?bn) b \<and> ok (fst (?turn k v True (?start + t * ?bn) a))"
      unfolding eq by (rule diagonal_turn [OF L D s(1) same]) (use m in auto)
  qed
  moreover have "attn_row ops mma s qs q k v i = fold (\<lambda>t. ?turn k v True (?start + t * ?bn)) [1..<cdiv ?bm ?bn] (s1 k v)" for k v
    unfolding attn_row_def Let_def blocks s1_def by (simp add: s(4))
  ultimately show ?thesis by simp
qed

section \<open>A launch\<close>

definition attn_launch :: "('f, 'a) attn_ops \<Rightarrow> attn_shape \<Rightarrow> 'a \<Rightarrow> 'f attn_input \<Rightarrow> (nat \<times> nat \<times> nat) list \<Rightarrow> 'f memory \<Rightarrow> 'f memory" where
  "attn_launch ops s softmax_scale x ord mem = apply_stores (concat (map (\<lambda>pids. fst (attn_program ops s softmax_scale x pids)) ord)) mem"

lemma paged_launch:
  "apply_stores (concat (map (paged_attn_program ops s scale page_size q k v cu_q seqused table) ord)) mem =
    attn_launch ops s scale (paged_input (op_zero (at_gemm ops)) page_size q k v cu_q seqused table) ord mem"
  by (simp add: attn_launch_def paged_attn_program_def [abs_def])

definition attn_lse :: "('f, 'a) attn_ops \<Rightarrow> attn_shape \<Rightarrow> 'a \<Rightarrow> 'f attn_input \<Rightarrow> (nat \<times> nat \<times> nat) list \<Rightarrow> 'a memory \<Rightarrow> 'a memory" where
  "attn_lse ops s softmax_scale x ord mem = apply_stores (concat (map (\<lambda>pids. snd (attn_program ops s softmax_scale x pids)) ord)) mem"

text \<open>The tokens of different sequences are different.\<close>

definition sequences_ok :: "'f attn_input \<Rightarrow> nat \<Rightarrow> bool" where
  "sequences_ok x n \<longleftrightarrow> (\<forall>b<n. \<forall>a<b. ai_q_start x a + ai_q_len x a \<le> ai_q_start x b)"

definition out_addr :: "attn_shape \<Rightarrow> nat \<Rightarrow> nat \<Rightarrow> nat \<Rightarrow> int" where
  "out_addr s token head d = int ((token * as_q_heads s + head) * as_value_dim s + d)"

abbreviation token_at :: "'f attn_input \<Rightarrow> nat \<Rightarrow> nat \<Rightarrow> nat" where
  "token_at x seq pos \<equiv> ai_q_start x seq + q_local x seq pos"

lemma token_inj:
  assumes "sequences_ok x n" "a < n" "b < n" "valid_q x a i" "valid_q x b j" "token_at x a i = token_at x b j"
  shows "a = b \<and> i = j"
proof -
  have local: "int (q_local x c p) = int p - q_abs_start x c" "q_local x c p < ai_q_len x c" if "valid_q x c p" for c p
    using that by (auto simp: q_local_def valid_q_def q_abs_start_def)
  have ab: "a = b"
  proof (rule ccontr)
    assume "a \<noteq> b"
    have before: False if "c < e" "e < n" "valid_q x c p" "token_at x c p = token_at x e p'" for c e p p'
    proof -
      have "ai_q_start x c + ai_q_len x c \<le> ai_q_start x e" using assms(1) that(1,2) unfolding sequences_ok_def by blast
      then show False using local(2) [OF that(3)] that(4) by linarith
    qed
    from \<open>a \<noteq> b\<close> have "a < b \<or> b < a" by linarith
    then show False
    proof
      assume "a < b" from before [OF this assms(3,4,6)] show False .
    next
      assume "b < a" from before [OF this assms(2,5) assms(6) [symmetric]] show False .
    qed
  qed
  have "q_local x b i = q_local x b j" using assms(6) [unfolded ab] by linarith
  then have "int i = int j" using local(1) [OF assms(4) [unfolded ab]] local(1) [OF assms(5)] by linarith
  with ab show ?thesis by simp
qed

lemma out_addr_inj:
  assumes "out_addr s t h d = out_addr s t' h' d'" "h < as_q_heads s" "h' < as_q_heads s" "d < as_value_dim s" "d' < as_value_dim s"
  shows "t = t' \<and> h = h' \<and> d = d'"
proof -
  have "(t * as_q_heads s + h) * as_value_dim s + d = (t' * as_q_heads s + h') * as_value_dim s + d'"
    using assms(1) unfolding out_addr_def by linarith
  then have "t * as_q_heads s + h = t' * as_q_heads s + h'" "d = d'"
    using mult_add_div [OF assms(4)] mult_add_div [OF assms(5)] mult_add_mod [OF assms(4)] mult_add_mod [OF assms(5)] by metis+
  moreover from this(1) have "t = t'" "h = h'"
    using mult_add_div [OF assms(2)] mult_add_div [OF assms(3)] mult_add_mod [OF assms(2)] mult_add_mod [OF assms(3)] by metis+
  ultimately show ?thesis by simp
qed

definition tile_value :: "('f, 'a) attn_ops \<Rightarrow> attn_shape \<Rightarrow> 'a \<Rightarrow> 'f attn_input \<Rightarrow> nat \<Rightarrow> nat \<Rightarrow> nat \<Rightarrow> nat \<Rightarrow> 'f" where
  "tile_value ops s softmax_scale x seq head pos d =
     (let (m, l, acc) = attn_tile ops s softmax_scale x seq (pos div as_block_m s) head; r = pos mod as_block_m s
      in at_cast ops (at_div ops (acc r d) (l r)))"

text \<open>A program stores the rows of its tile.\<close>

lemma masked_cells: "set (concat (map (\<lambda>i. concat (map (\<lambda>d. if P i d then [f i d] else []) [0..<B])) [0..<A])) = {f i d | i d. i < A \<and> d < B \<and> P i d}"
proof -
  have "set (concat (map (\<lambda>d. if P i d then [f i d] else []) [0..<B])) = {f i d | d. d < B \<and> P i d}" for i
    by (auto split: if_splits)
  then show ?thesis unfolding set_concat set_map image_image by (simp only: set_upt) fastforce
qed

lemma program_stores:
  assumes "0 < as_block_m s" "as_value_dim s \<le> as_block_d s"
  shows "set (fst (attn_program ops s softmax_scale x (seq, start_m, head))) =
    {(out_addr s (token_at x seq pos) head d, tile_value ops s softmax_scale x seq head pos d) | pos d.
       valid_q x seq pos \<and> pos div as_block_m s = start_m \<and> d < as_value_dim s}" (is "_ = ?R")
proof -
  let ?bm = "as_block_m s"
  have div_eq: "pos div ?bm = start_m \<longleftrightarrow> (\<exists>i<?bm. pos = start_m * ?bm + i)" for pos
  proof
    assume "pos div ?bm = start_m"
    then show "\<exists>i<?bm. pos = start_m * ?bm + i" using assms(1) by (intro exI [of _ "pos mod ?bm"]) auto
  qed (use assms(1) in auto)
  show ?thesis
  proof (cases "attn_skip s x seq start_m")
    case True
    have "\<not> valid_q x seq pos" if "pos div ?bm = start_m" for pos
    proof -
      from div_eq [THEN iffD1, OF that] obtain i where i: "i < ?bm" "pos = start_m * ?bm + i" by blast
      have lo: "start_m * ?bm \<le> pos" using i(2) by simp
      have "pos < (start_m + 1) * ?bm" unfolding i(2) using i(1) by (simp add: add_mult_distrib)
      then have hi: "int pos < int ((start_m + 1) * ?bm)" by (simp only: of_nat_less_iff)
      from True show ?thesis unfolding attn_skip_def valid_q_def
      proof
        assume "ai_kv_len x seq \<le> start_m * ?bm"
        then show "\<not> (q_abs_start x seq \<le> int pos \<and> pos < ai_kv_len x seq)" using lo by linarith
      next
        assume "int ((start_m + 1) * ?bm) \<le> q_abs_start x seq"
        then show "\<not> (q_abs_start x seq \<le> int pos \<and> pos < ai_kv_len x seq)" using hi by linarith
      qed
    qed
    then have "?R = {}" by blast
    then show ?thesis using True by (simp add: attn_program_def)
  next
    case False
    obtain m l acc where t: "attn_tile ops s softmax_scale x seq start_m head = (m, l, acc)" by (metis surj_pair)
    have "fst (attn_program ops s softmax_scale x (seq, start_m, head)) = concat (map (\<lambda>i. concat (map (\<lambda>d.
        if valid_q x seq (start_m * ?bm + i) \<and> d < as_value_dim s
        then [(out_addr s (token_at x seq (start_m * ?bm + i)) head d, at_cast ops (at_div ops (acc i d) (l i)))] else [])
          [0..<as_block_d s])) [0..<?bm])"
      unfolding attn_program_def Let_def prod.case if_not_P [OF False] t out_addr_def by (rule fst_conv)
    then have "set (fst (attn_program ops s softmax_scale x (seq, start_m, head))) =
        {(out_addr s (token_at x seq (start_m * ?bm + i)) head d, at_cast ops (at_div ops (acc i d) (l i))) | i d.
        i < ?bm \<and> d < as_block_d s \<and> valid_q x seq (start_m * ?bm + i) \<and> d < as_value_dim s}"
      by (simp only: masked_cells)
    also have "\<dots> = {(out_addr s (token_at x seq (start_m * ?bm + i)) head d, at_cast ops (at_div ops (acc i d) (l i))) | i d.
        i < ?bm \<and> valid_q x seq (start_m * ?bm + i) \<and> d < as_value_dim s}"
    proof -
      have "(d < as_block_d s \<and> V \<and> d < as_value_dim s) = (V \<and> d < as_value_dim s)" for d V using assms(2) by auto
      then show ?thesis by (simp only:)
    qed
    also have "\<dots> = ?R"
    proof (intro set_eqI iffI)
      fix w assume "w \<in> {(out_addr s (token_at x seq (start_m * ?bm + i)) head d, at_cast ops (at_div ops (acc i d) (l i))) | i d.
        i < ?bm \<and> valid_q x seq (start_m * ?bm + i) \<and> d < as_value_dim s}"
      then obtain i d where w: "i < ?bm" "valid_q x seq (start_m * ?bm + i)" "d < as_value_dim s"
        "w = (out_addr s (token_at x seq (start_m * ?bm + i)) head d, at_cast ops (at_div ops (acc i d) (l i)))" by blast
      moreover have "(start_m * ?bm + i) div ?bm = start_m" "(start_m * ?bm + i) mod ?bm = i" using w(1) by simp_all
      ultimately show "w \<in> ?R" using t by (intro CollectI exI [of _ "start_m * ?bm + i"] exI [of _ d]) (simp add: tile_value_def)
    next
      fix w assume "w \<in> ?R"
      then obtain pos d where w: "w = (out_addr s (token_at x seq pos) head d, tile_value ops s softmax_scale x seq head pos d)"
        "valid_q x seq pos" "pos div ?bm = start_m" "d < as_value_dim s" by blast
      from div_eq [THEN iffD1, OF w(3)] obtain i where i: "i < ?bm" "pos = start_m * ?bm + i" by blast
      then have "pos mod ?bm = i" by simp
      then show "w \<in> {(out_addr s (token_at x seq (start_m * ?bm + i)) head d, at_cast ops (at_div ops (acc i d) (l i))) | i d.
        i < ?bm \<and> valid_q x seq (start_m * ?bm + i) \<and> d < as_value_dim s}"
        using w i t by (intro CollectI exI [of _ i] exI [of _ d]) (simp add: tile_value_def)
    qed
    finally show ?thesis .
  qed
qed

lemma attn_launch_cell:
  assumes "0 < as_block_m s" "as_value_dim s \<le> as_block_d s" "set ord = {..<n} \<times> {..<tiles} \<times> {..<as_q_heads s}" "sequences_ok x n"
    and "seq < n" "head < as_q_heads s" "valid_q x seq pos" "pos < tiles * as_block_m s" "d < as_value_dim s"
  shows "attn_launch ops s softmax_scale x ord mem (out_addr s (token_at x seq pos) head d) = tile_value ops s softmax_scale x seq head pos d"
  unfolding attn_launch_def
proof (rule apply_stores_agree)
  have "pos div as_block_m s < tiles" using assms(8) by (simp add: less_mult_imp_div_less)
  then have "(seq, pos div as_block_m s, head) \<in> set ord" using assms(3,5,6) by simp
  moreover have "(out_addr s (token_at x seq pos) head d, tile_value ops s softmax_scale x seq head pos d) \<in>
      set (fst (attn_program ops s softmax_scale x (seq, pos div as_block_m s, head)))"
    unfolding program_stores [OF assms(1,2)] using assms(7,9) by blast
  ultimately show "(out_addr s (token_at x seq pos) head d, tile_value ops s softmax_scale x seq head pos d) \<in>
      set (concat (map (\<lambda>pids. fst (attn_program ops s softmax_scale x pids)) ord))"
    unfolding set_concat set_map by blast
  fix v assume "(out_addr s (token_at x seq pos) head d, v) \<in> set (concat (map (\<lambda>pids. fst (attn_program ops s softmax_scale x pids)) ord))"
  then obtain a m h where a: "(a, m, h) \<in> set ord" "(out_addr s (token_at x seq pos) head d, v) \<in> set (fst (attn_program ops s softmax_scale x (a, m, h)))"
    unfolding set_concat set_map by auto
  then have ah: "a < n" "h < as_q_heads s" using assms(3) by simp_all
  from a(2) obtain pos' d' where p: "out_addr s (token_at x seq pos) head d = out_addr s (token_at x a pos') h d'" "v = tile_value ops s softmax_scale x a h pos' d'"
    "valid_q x a pos'" "d' < as_value_dim s"
    unfolding program_stores [OF assms(1,2)] by blast
  from out_addr_inj [OF p(1) assms(6) ah(2) assms(9) p(4)] have "token_at x seq pos = token_at x a pos'" "head = h" "d = d'" by simp_all
  with token_inj [OF assms(4,5) ah(1) assms(7) p(3)] p(2) show "v = tile_value ops s softmax_scale x seq head pos d" by simp
qed

text \<open>Sequences packed with the same offsets for queries and keys.\<close>

lemma packed_places:
  assumes "sorted cu" "Suc i < length cu"
  shows "valid_q (packed_input q k v cu cu) i p \<longleftrightarrow> p < cu ! Suc i - cu ! i"
    and "valid_q (packed_input q k v cu cu) i p \<Longrightarrow> token_at (packed_input q k v cu cu) i p = cu ! i + p"
  by (simp_all add: valid_q_def q_local_def q_abs_start_def packed_input_def)

lemma packed_sequences_ok:
  assumes "sorted cu" shows "sequences_ok (packed_input q k v cu cu) (length cu - 1)"
  unfolding sequences_ok_def
proof (intro allI impI)
  fix b a assume "b < length cu - 1" "a < b"
  then have "cu ! a \<le> cu ! Suc a" "cu ! Suc a \<le> cu ! b" using assms by (auto simp: sorted_nth_mono)
  then show "ai_q_start (packed_input q k v cu cu) a + ai_q_len (packed_input q k v cu cu) a \<le> ai_q_start (packed_input q k v cu cu) b"
    by (simp add: packed_input_def)
qed

end
