(* ===== verification/Attention_Calls.thy ===== *)
theory Attention_Calls
  imports Attention Moe_Index
begin

text \<open>
  The calls around the attention kernels (\<open>src/vexact/batch_invariant_ops/triton_invariant_attention.py\<close>): the
  two autograd functions' forward passes with their checks, and \<open>flash_attn_varlen_func\<close>, which picks one by
  whether it is given a page table.
\<close>

section \<open>Arguments\<close>

text \<open>A tensor argument: what the checks look at, and its elements.\<close>

record 'b tensor_arg =
  ta_shape :: "nat list"
  ta_cuda :: bool
  ta_int32 :: bool
  ta_device :: nat
  ta_data :: 'b

type_synonym 'f float_arg = "(nat list \<Rightarrow> 'f) tensor_arg"

abbreviation dim :: "'b tensor_arg \<Rightarrow> nat \<Rightarrow> nat" where
  "dim t i \<equiv> ta_shape t ! i"

abbreviation last_dim :: "'b tensor_arg \<Rightarrow> nat" where
  "last_dim t \<equiv> last (ta_shape t)"

definition check :: "bool \<Rightarrow> py_error \<Rightarrow> unit res" where
  "check c e = (if c then Ok () else Raise e)"

definition require_cuda :: "'b tensor_arg \<Rightarrow> unit res" where
  "require_cuda t = check (ta_cuda t) ValueError"

definition require_cuda_int32 :: "'b tensor_arg \<Rightarrow> unit res" where
  "require_cuda_int32 t = rbind (require_cuda t) (\<lambda>_. check (ta_int32 t) ValueError)"

definition check_divides :: "nat \<Rightarrow> nat \<Rightarrow> unit res" where
  "check_divides heads kv_heads = (if kv_heads = 0 then Raise ZeroDivisionError else check (heads mod kv_heads = 0) ValueError)"

fun all_checks :: "unit res list \<Rightarrow> 'b res \<Rightarrow> 'b res" where
  "all_checks [] r = r"
| "all_checks (c # cs) r = rbind c (\<lambda>_. all_checks cs r)"

text \<open>Block sizes by the wider head dimension, and the kernel's shape.\<close>

definition block_d_of :: "'f float_arg \<Rightarrow> 'f float_arg \<Rightarrow> nat" where
  "block_d_of q v = next_power_of_2 (max (last_dim q) (last_dim v))"

definition forward_shape :: "'f float_arg \<Rightarrow> 'f float_arg \<Rightarrow> nat \<Rightarrow> bool \<Rightarrow> attn_shape" where
  "forward_shape q v kv_heads causal =
     (let block_d = block_d_of q v; block_m = (if block_d \<le> 128 then 128 else 32); block_n = (if 64 \<le> block_m then 64 else 32)
      in \<lparr>as_q_heads = dim q 1, as_kv_heads = kv_heads, as_dim = last_dim q, as_value_dim = last_dim v,
          as_block_m = block_m, as_block_n = block_n, as_block_d = block_d, as_causal = causal\<rparr>)"

abbreviation access3 :: "'f float_arg \<Rightarrow> nat \<Rightarrow> nat \<Rightarrow> nat \<Rightarrow> 'f" where
  "access3 t \<equiv> \<lambda>a b c. ta_data t [a, b, c]"

abbreviation access4 :: "'f float_arg \<Rightarrow> nat \<Rightarrow> nat \<Rightarrow> nat \<Rightarrow> nat \<Rightarrow> 'f" where
  "access4 t \<equiv> \<lambda>a b c d. ta_data t [a, b, c, d]"

type_synonym schedule3 = "nat \<Rightarrow> nat \<Rightarrow> nat \<Rightarrow> (nat \<times> nat \<times> nat) list"

section \<open>The two forward passes\<close>

definition paged_forward ::
    "('f, 'a) attn_ops \<Rightarrow> schedule3 \<Rightarrow> 'f memory \<Rightarrow> 'a \<Rightarrow> 'f float_arg \<Rightarrow> 'f float_arg \<Rightarrow> 'f float_arg
       \<Rightarrow> nat list tensor_arg \<Rightarrow> nat list tensor_arg \<Rightarrow> int list list tensor_arg \<Rightarrow> bool \<Rightarrow> 'f memory res" where
  "paged_forward ops schedule fresh softmax_scale q k v cu_q seqused table causal =
     all_checks
       [require_cuda q, require_cuda k, require_cuda v, require_cuda_int32 table, require_cuda_int32 cu_q, require_cuda_int32 seqused,
        check (length (ta_shape k) = 4 \<and> length (ta_shape v) = 4) ValueError,
        check (length (ta_shape q) = 3) ValueError,
        check (last_dim q = last_dim k) ValueError,
        check_divides (dim q 1) (dim k 2),
        check (ta_device cu_q = ta_device q) ValueError,
        check (ta_device seqused = ta_device q) ValueError,
        check (ta_device table = ta_device q) ValueError,
        check causal NotImplementedError,
        check (block_d_of q v \<le> 256) ValueError]
       (let s = forward_shape q v (dim k 2) causal; page_size = dim k 1; max_seqlen_k = dim table 1 * page_size;
            ord = schedule (length (ta_data seqused)) (cdiv max_seqlen_k (as_block_m s)) (dim q 1)
        in Ok (apply_stores (concat (map (paged_attn_program ops s softmax_scale page_size (access3 q) (access4 k) (access4 v)
             (ta_data cu_q) (ta_data seqused) (ta_data table)) ord)) fresh))"

text \<open>What the packed forward pass keeps for its backward pass.\<close>

record ('f, 'a) saved_attn =
  sa_out :: "'f memory"
  sa_lse :: "'a memory"
  sa_scale :: 'a
  sa_causal :: bool
  sa_max_q :: nat
  sa_max_k :: nat

definition nonpaged_forward ::
    "('f, 'a) attn_ops \<Rightarrow> schedule3 \<Rightarrow> 'a memory \<Rightarrow> 'a \<Rightarrow> 'f float_arg \<Rightarrow> 'f float_arg \<Rightarrow> 'f float_arg
       \<Rightarrow> nat list tensor_arg \<Rightarrow> nat list tensor_arg \<Rightarrow> bool \<Rightarrow> nat \<Rightarrow> nat \<Rightarrow> ('f memory \<times> ('f, 'a) saved_attn) res" where
  "nonpaged_forward ops schedule fresh_lse softmax_scale q k v cu_q cu_k causal max_seqlen_q max_seqlen_k =
     all_checks
       [require_cuda_int32 cu_q, require_cuda_int32 cu_k,
        check (ta_device cu_q = ta_device q) ValueError,
        check (ta_device cu_k = ta_device q) ValueError,
        check (length (ta_shape q) = 3 \<and> length (ta_shape k) = 3 \<and> length (ta_shape v) = 3) ValueError,
        check (last_dim q = last_dim k) ValueError,
        check (dim k 1 = dim v 1) ValueError,
        check_divides (dim q 1) (dim k 1),
        check causal NotImplementedError,
        check (block_d_of q v \<le> 256) ValueError]
       (let s = forward_shape q v (dim k 1) causal;
            x = packed_input (access3 q) (access3 k) (access3 v) (ta_data cu_q) (ta_data cu_k);
            ord = schedule (length (ta_data cu_q) - 1) (cdiv (max max_seqlen_q max_seqlen_k) (as_block_m s)) (dim q 1);
            out = attn_launch ops s softmax_scale x ord (\<lambda>_. op_zero (at_gemm ops));
            lse = attn_lse ops s softmax_scale x ord fresh_lse
        in Ok (out, \<lparr>sa_out = out, sa_lse = lse, sa_scale = softmax_scale, sa_causal = causal, sa_max_q = max_seqlen_q, sa_max_k = max_seqlen_k\<rparr>))"

section \<open>The interface\<close>

text \<open>An argument that should be a Python number may be a tensor.\<close>

datatype 'b py_arg = PyNumber 'b | PyTensor

fun as_python_int :: "nat py_arg \<Rightarrow> nat res" where
  "as_python_int (PyNumber n) = Ok n"
| "as_python_int PyTensor = Raise ValueError"

fun default_softmax_scale :: "(nat \<Rightarrow> 'a) \<Rightarrow> 'f float_arg \<Rightarrow> 'a py_arg option \<Rightarrow> 'a res" where
  "default_softmax_scale inv_sqrt q None = Ok (inv_sqrt (last_dim q))"
| "default_softmax_scale inv_sqrt q (Some PyTensor) = Raise ValueError"
| "default_softmax_scale inv_sqrt q (Some (PyNumber x)) = Ok x"

record ('f, 'a) attn_args =
  aa_q :: "'f float_arg"
  aa_k :: "'f float_arg"
  aa_v :: "'f float_arg"
  aa_cu_q :: "nat list tensor_arg option"
  aa_cu_k :: "nat list tensor_arg option"
  aa_max_q :: "nat py_arg option"
  aa_max_k :: "nat py_arg option"
  aa_dropout_zero :: bool
  aa_scale :: "'a py_arg option"
  aa_causal :: bool
  aa_window :: "(int \<times> int) option"
  aa_softcap :: bool
  aa_block_table :: "int list list tensor_arg option"
  aa_page_table :: "int list list tensor_arg option"
  aa_seqused :: "nat list tensor_arg option"
  aa_cache_seqlens :: "nat list tensor_arg option"

definition check_common_args :: "('f, 'a) attn_args \<Rightarrow> unit res" where
  "check_common_args a =
     (if \<not> aa_dropout_zero a then Raise NotImplementedError
      else if aa_softcap a then Raise NotImplementedError
      else if aa_window a \<noteq> None \<and> aa_window a \<noteq> Some (-1, -1) then Raise NotImplementedError
      else Ok ())"

definition needed :: "'b option \<Rightarrow> 'b res" where
  "needed x = (case x of None \<Rightarrow> Raise ValueError | Some y \<Rightarrow> Ok y)"

text \<open>The function also takes, and ignores, slopes and flags; it returns the output and \<open>None\<close>.\<close>

definition flash_attn_varlen_func ::
    "('f, 'a) attn_ops \<Rightarrow> (nat \<Rightarrow> 'a) \<Rightarrow> schedule3 \<Rightarrow> 'f memory \<Rightarrow> 'a memory \<Rightarrow> ('f, 'a) attn_args \<Rightarrow> 'f memory res" where
  "flash_attn_varlen_func ops inv_sqrt schedule fresh fresh_lse a =
     rbind (check_common_args a) (\<lambda>_.
     if aa_page_table a \<noteq> None \<and> aa_block_table a \<noteq> None then Raise ValueError
     else rbind (default_softmax_scale inv_sqrt (aa_q a) (aa_scale a)) (\<lambda>scale.
       case (if aa_page_table a \<noteq> None then aa_page_table a else aa_block_table a) of
         None \<Rightarrow>
           rbind (needed (aa_cu_q a)) (\<lambda>cu_q. rbind (needed (aa_cu_k a)) (\<lambda>cu_k.
           rbind (needed (aa_max_k a)) (\<lambda>max_k. rbind (needed (aa_max_q a)) (\<lambda>max_q.
           rbind (as_python_int max_q) (\<lambda>mq. rbind (as_python_int max_k) (\<lambda>mk.
           rbind (nonpaged_forward ops schedule fresh_lse scale (aa_q a) (aa_k a) (aa_v a) cu_q cu_k (aa_causal a) mq mk) (\<lambda>(out, _). Ok out)))))))
       | Some table \<Rightarrow>
           rbind (needed (if aa_seqused a \<noteq> None then aa_seqused a else aa_cache_seqlens a)) (\<lambda>seqused.
           rbind (case aa_max_q a of None \<Rightarrow> Ok 0 | Some m \<Rightarrow> as_python_int m) (\<lambda>_.
           case aa_cu_q a of
             None \<Rightarrow> all_checks [require_cuda (aa_q a), require_cuda (aa_k a), require_cuda (aa_v a), require_cuda_int32 table] (Raise AttributeError)
           | Some cu_q \<Rightarrow> paged_forward ops schedule fresh scale (aa_q a) (aa_k a) (aa_v a) cu_q seqused table (aa_causal a)))))"

section \<open>What a call reads\<close>

definition call_table :: "('f, 'a) attn_args \<Rightarrow> int list list tensor_arg option" where
  "call_table a = (if aa_page_table a \<noteq> None then aa_page_table a else aa_block_table a)"

definition call_input :: "('f, 'a) attn_ops \<Rightarrow> ('f, 'a) attn_args \<Rightarrow> 'f attn_input" where
  "call_input ops a =
     (case call_table a of
        None \<Rightarrow> packed_input (access3 (aa_q a)) (access3 (aa_k a)) (access3 (aa_v a)) (ta_data (the (aa_cu_q a))) (ta_data (the (aa_cu_k a)))
      | Some table \<Rightarrow> paged_input (op_zero (at_gemm ops)) (dim (aa_k a) 1) (access3 (aa_q a)) (access4 (aa_k a)) (access4 (aa_v a))
          (ta_data (the (aa_cu_q a))) (ta_data (the (if aa_seqused a \<noteq> None then aa_seqused a else aa_cache_seqlens a))) (ta_data table))"

definition call_seqs :: "('f, 'a) attn_args \<Rightarrow> nat" where
  "call_seqs a =
     (case call_table a of None \<Rightarrow> length (ta_data (the (aa_cu_q a))) - 1
      | Some table \<Rightarrow> length (ta_data (the (if aa_seqused a \<noteq> None then aa_seqused a else aa_cache_seqlens a))))"

fun number_of :: "nat py_arg option \<Rightarrow> nat" where
  "number_of (Some (PyNumber n)) = n"
| "number_of _ = 0"

definition call_max_len :: "('f, 'a) attn_args \<Rightarrow> nat" where
  "call_max_len a = (case call_table a of None \<Rightarrow> max (number_of (aa_max_q a)) (number_of (aa_max_k a)) | Some table \<Rightarrow> dim table 1 * dim (aa_k a) 1)"

definition call_shape :: "('f, 'a) attn_args \<Rightarrow> attn_shape" where
  "call_shape a = forward_shape (aa_q a) (aa_v a) (if call_table a = None then dim (aa_k a) 1 else dim (aa_k a) 2) True"

lemma all_checks_ok: "all_checks cs r = Ok y \<Longrightarrow> r = Ok y \<and> (\<forall>c\<in>set cs. c = Ok ())"
  by (induction cs) auto

lemma check_ok [simp]: "check c e = Ok u \<longleftrightarrow> c"
  by (simp add: check_def)

text \<open>A call that returns has launched its kernel once, over all of its sequences.\<close>

lemma call_launches:
  assumes "flash_attn_varlen_func ops inv_sqrt schedule fresh fresh_lse a = Ok out"
  shows "\<exists>scale mem. default_softmax_scale inv_sqrt (aa_q a) (aa_scale a) = Ok scale \<and>
    out = attn_launch ops (call_shape a) scale (call_input ops a)
      (schedule (call_seqs a) (cdiv (call_max_len a) (as_block_m (call_shape a))) (as_q_heads (call_shape a))) mem"
proof (cases "call_table a")
  case None
  then have t: "(if aa_page_table a \<noteq> None then aa_page_table a else aa_block_table a) = None" by (simp add: call_table_def)
  obtain scale cu_q cu_k mk mq r where r: "default_softmax_scale inv_sqrt (aa_q a) (aa_scale a) = Ok scale" "aa_cu_q a = Some cu_q" "aa_cu_k a = Some cu_k"
    "aa_max_k a = Some (PyNumber mk)" "aa_max_q a = Some (PyNumber mq)"
    "nonpaged_forward ops schedule fresh_lse scale (aa_q a) (aa_k a) (aa_v a) cu_q cu_k (aa_causal a) mq mk = Ok r" "out = fst r"
    using assms unfolding flash_attn_varlen_func_def t
    by (auto simp: needed_def split: if_splits option.splits elim!: as_python_int.elims)
  from all_checks_ok [OF r(6) [unfolded nonpaged_forward_def]] have "aa_causal a" and
    out: "out = attn_launch ops (forward_shape (aa_q a) (aa_v a) (dim (aa_k a) 1) (aa_causal a)) scale
      (packed_input (access3 (aa_q a)) (access3 (aa_k a)) (access3 (aa_v a)) (ta_data cu_q) (ta_data cu_k))
      (schedule (length (ta_data cu_q) - 1) (cdiv (max mq mk) (as_block_m (forward_shape (aa_q a) (aa_v a) (dim (aa_k a) 1) (aa_causal a)))) (dim (aa_q a) 1))
      (\<lambda>_. op_zero (at_gemm ops))"
    using r(7) by (auto simp: Let_def)
  then show ?thesis using r(1-5) None
    by (auto simp: call_shape_def call_input_def call_seqs_def call_max_len_def forward_shape_def Let_def)
next
  case (Some table)
  then have t: "(if aa_page_table a \<noteq> None then aa_page_table a else aa_block_table a) = Some table" by (simp add: call_table_def)
  obtain scale su cu_q where r: "default_softmax_scale inv_sqrt (aa_q a) (aa_scale a) = Ok scale"
    "(if aa_seqused a \<noteq> None then aa_seqused a else aa_cache_seqlens a) = Some su" "aa_cu_q a = Some cu_q"
    "paged_forward ops schedule fresh scale (aa_q a) (aa_k a) (aa_v a) cu_q su table (aa_causal a) = Ok out"
    using assms unfolding flash_attn_varlen_func_def t
    by (auto simp: needed_def dest!: all_checks_ok split: if_splits option.splits)
  from all_checks_ok [OF r(4) [unfolded paged_forward_def]] have "aa_causal a" and
    out: "out = attn_launch ops (forward_shape (aa_q a) (aa_v a) (dim (aa_k a) 2) (aa_causal a)) scale
      (paged_input (op_zero (at_gemm ops)) (dim (aa_k a) 1) (access3 (aa_q a)) (access4 (aa_k a)) (access4 (aa_v a)) (ta_data cu_q) (ta_data su) (ta_data table))
      (schedule (length (ta_data su)) (cdiv (dim table 1 * dim (aa_k a) 1) (as_block_m (forward_shape (aa_q a) (aa_v a) (dim (aa_k a) 2) (aa_causal a)))) (dim (aa_q a) 1)) fresh"
    by (auto simp: Let_def paged_launch)
  then show ?thesis using r(1,3) Some
    unfolding call_input_def call_seqs_def r(2)
    by (auto simp: call_shape_def call_max_len_def forward_shape_def Let_def)
qed

lemma call_shape_simps [simp]:
  "as_causal (call_shape a)" "0 < as_block_m (call_shape a)" "0 < as_block_n (call_shape a)" "as_block_n (call_shape a) dvd as_block_m (call_shape a)"
  "as_value_dim (call_shape a) \<le> as_block_d (call_shape a)"
  using next_power_of_2_ge [of "max (last_dim (aa_q a)) (last_dim (aa_v a))"]
  by (simp_all add: call_shape_def forward_shape_def Let_def block_d_of_def)

text \<open>Cut off after position \<open>i\<close>, two inputs that agree up to there are the same.\<close>

abbreviation kv_head_of :: "attn_shape \<Rightarrow> nat \<Rightarrow> nat" where
  "kv_head_of s head \<equiv> head div (as_q_heads s div as_kv_heads s)"

definition agree_up_to :: "attn_shape \<Rightarrow> nat \<Rightarrow> 'f attn_input \<Rightarrow> nat \<Rightarrow> 'f attn_input \<Rightarrow> nat \<Rightarrow> nat \<Rightarrow> bool" where
  "agree_up_to s head x seq y seq' i \<longleftrightarrow>
     (\<forall>d<as_dim s. ai_query x (token_at x seq i) head d = ai_query y (token_at y seq' i) head d) \<and>
     (\<forall>n\<le>i. \<forall>d<as_dim s. ai_key x seq n (kv_head_of s head) d = ai_key y seq' n (kv_head_of s head) d) \<and>
     (\<forall>n\<le>i. \<forall>d<as_value_dim s. ai_value x seq n (kv_head_of s head) d = ai_value y seq' n (kv_head_of s head) d)"

definition ordinary ::
    "('f, 'a) attn_ops \<Rightarrow> ('f list \<Rightarrow> 'f list \<Rightarrow> 'a \<Rightarrow> 'a) \<Rightarrow> attn_shape \<Rightarrow> 'a \<Rightarrow> ('a \<Rightarrow> bool) \<Rightarrow> ('f \<Rightarrow> bool) \<Rightarrow> 'f attn_input \<Rightarrow> nat \<Rightarrow> nat \<Rightarrow> nat \<Rightarrow> bool" where
  "ordinary ops mma s scale ok fin x seq head i =
     data_ok ops mma (at_mul ops scale (at_log2e ops)) ok fin (query_at (op_zero (at_gemm ops)) s x seq head i)
       (key_at (op_zero (at_gemm ops)) s x seq (kv_head_of s head)) (value_at (op_zero (at_gemm ops)) s x seq (kv_head_of s head))"

lemma tile_value_prefix:
  assumes "row_independent (at_gemm ops) mma" "attn_laws ops mma (at_mul ops scale (at_log2e ops)) ok fin"
    and s: "as_causal s" "0 < as_block_m s" "0 < as_block_n s" "as_block_n s dvd as_block_m s" "as_value_dim s \<le> as_block_d s"
    and "valid_q x seq i" "valid_q y seq' i" "d < as_value_dim s"
    and "agree_up_to s head x seq y seq' i" "ordinary ops mma s scale ok fin x seq head i" "ordinary ops mma s scale ok fin y seq' head i"
  shows "tile_value ops s scale x seq head i d = tile_value ops s scale y seq' head i d"
proof -
  let ?z = "op_zero (at_gemm ops)" and ?kv = "kv_head_of s head" and ?qs = "at_mul ops scale (at_log2e ops)"
  let ?row = "\<lambda>x seq. attn_row ops mma s ?qs (query_at ?z s x seq head i) (key_at ?z s x seq ?kv) (value_at ?z s x seq ?kv) i"
  have d: "d < as_block_d s" using s(5) assms(10) by linarith
  have value_of: "tile_value ops s scale x seq head i d = at_cast ops (at_div ops (snd (snd (?row x seq)) d) (fst (snd (?row x seq))))"
    if "valid_q x seq i" for x seq
  proof -
    obtain m l acc where t: "attn_tile ops s scale x seq (i div as_block_m s) head = (m, l, acc)" by (metis surj_pair)
    from tile_row [OF assms(1) s(2) that, of scale head] d show ?thesis
      by (simp add: tile_value_def t same_row_def)
  qed
  have q: "query_at ?z s x seq head i = query_at ?z s y seq' head i"
    using assms(11) by (simp add: query_at_def agree_up_to_def)
  have len: "i < ai_kv_len x seq" "i < ai_kv_len y seq'" using assms(8,9) by (simp_all add: valid_q_def)
  have k: "key_at ?z s x seq ?kv n = key_at ?z s y seq' ?kv n" if "n \<le> i" for n
    using assms(11) that len by (simp add: key_at_def agree_up_to_def)
  have v: "value_at ?z s x seq ?kv n = value_at ?z s y seq' ?kv n" if "n \<le> i" for n
    using assms(11) that len by (auto simp: value_at_def agree_up_to_def fun_eq_iff)
  have "?row x seq = ?row y seq'"
    unfolding q
    by (rule attn_row_prefix [OF assms(2) assms(12) [unfolded ordinary_def q] assms(13) [unfolded ordinary_def] s(3,2,4,1) k v])
  then show ?thesis unfolding value_of [OF assms(8)] value_of [OF assms(9)] by (rule arg_cong)
qed

text \<open>What a call leaves at a query's place.\<close>

lemma call_value:
  assumes "\<forall>n t h. set (schedule n t h) = {..<n} \<times> {..<t} \<times> {..<h}"
    and "flash_attn_varlen_func ops inv_sqrt schedule fresh fresh_lse a = Ok out"
    and "default_softmax_scale inv_sqrt (aa_q a) (aa_scale a) = Ok scale" "sequences_ok (call_input ops a) (call_seqs a)"
    and "seq < call_seqs a" "valid_q (call_input ops a) seq i" "i < call_max_len a" "head < as_q_heads (call_shape a)" "d < as_value_dim (call_shape a)"
  shows "out (out_addr (call_shape a) (token_at (call_input ops a) seq i) head d) = tile_value ops (call_shape a) scale (call_input ops a) seq head i d"
proof -
  let ?s = "call_shape a"
  have tiles: "i < cdiv (call_max_len a) (as_block_m ?s) * as_block_m ?s"
    using cdiv_covers [of "as_block_m ?s" "call_max_len a"] assms(7) by (simp add: less_le_trans)
  obtain mem where out: "out = attn_launch ops ?s scale (call_input ops a)
      (schedule (call_seqs a) (cdiv (call_max_len a) (as_block_m ?s)) (as_q_heads ?s)) mem"
    using call_launches [OF assms(2)] assms(3) by auto
  show ?thesis unfolding out using assms(1) by (intro attn_launch_cell [OF _ _ _ assms(4,5,8,6) tiles assms(9)]) simp_all
qed

text \<open>
  C39. Attention gives a query the same bits in every batch: for any two calls of the interface, packed or paged,
  with any other sequences around it, any part of the sequence as queries, any order of the programs, the
  output of a query at a position is the same value for value as soon as the two calls agree on the query
  and on the keys and values up to its position, and its scores are of ordinary size. Later keys, padding,
  block tables and page sizes make no difference.
\<close>

theorem attention_sees_only_the_prefix:
  assumes "row_independent (at_gemm ops) mma" "attn_laws ops mma (at_mul ops scale (at_log2e ops)) ok fin"
    and "\<forall>n t h. set (schedule n t h) = {..<n} \<times> {..<t} \<times> {..<h}" "\<forall>n t h. set (schedule' n t h) = {..<n} \<times> {..<t} \<times> {..<h}"
    and "flash_attn_varlen_func ops inv_sqrt schedule fresh fresh_lse a = Ok out"
    and "flash_attn_varlen_func ops inv_sqrt schedule' fresh' fresh_lse' b = Ok out'"
    and "default_softmax_scale inv_sqrt (aa_q a) (aa_scale a) = Ok scale" "default_softmax_scale inv_sqrt (aa_q b) (aa_scale b) = Ok scale"
    and "call_shape b = call_shape a" "sequences_ok (call_input ops a) (call_seqs a)" "sequences_ok (call_input ops b) (call_seqs b)"
    and "seq < call_seqs a" "seq' < call_seqs b" "valid_q (call_input ops a) seq i" "valid_q (call_input ops b) seq' i"
    and "i < call_max_len a" "i < call_max_len b" "head < as_q_heads (call_shape a)" "d < as_value_dim (call_shape a)"
    and "agree_up_to (call_shape a) head (call_input ops a) seq (call_input ops b) seq' i"
    and "ordinary ops mma (call_shape a) scale ok fin (call_input ops a) seq head i"
    and "ordinary ops mma (call_shape a) scale ok fin (call_input ops b) seq' head i"
  shows "out (out_addr (call_shape a) (token_at (call_input ops a) seq i) head d) =
    out' (out_addr (call_shape a) (token_at (call_input ops b) seq' i) head d)"
proof -
  let ?s = "call_shape a"
  have "tile_value ops ?s scale (call_input ops a) seq head i d = tile_value ops ?s scale (call_input ops b) seq' head i d"
    using assms(20-22) by (intro tile_value_prefix [OF assms(1,2) _ _ _ _ _ assms(14,15,19)]) simp_all
  then show ?thesis
    using call_value [OF assms(3,5,7,10,12,14,16,18,19)] call_value [OF assms(4,6,8,11,13,15,17)] assms(9,18,19) by simp
qed

section \<open>A concrete arithmetic\<close>

text \<open>Integers, with an exponential that underflows.\<close>

definition int_attn :: "(int, int) attn_ops" where
  "int_attn = \<lparr>at_gemm = int_ops, at_mul = (*), at_add = (+), at_sub = (-), at_div = (div), at_max = max, at_row_max = (\<lambda>xs. Max (set xs)),
     at_row_sum = sum_list, at_exp2 = (\<lambda>x. if x < -100 then 0 else 2 ^ nat (x + 100)), at_log2 = id, at_cast = id, at_convert = id,
     at_zero = 0, at_one = 1, at_neg_inf = -1000000000, at_mask = -1000000, at_log2e = 1, at_ln2 = 1\<rparr>"

abbreviation small :: "int \<Rightarrow> bool" where
  "small x \<equiv> \<bar>x\<bar> \<le> 1000"

lemma int_mma_zeros:
  assumes "length vs = length ps" "length vs' = length ps" "\<forall>j<length ps. ps ! j = 0 \<or> vs ! j = vs' ! j"
  shows "int_mma ps vs c = int_mma ps vs' c"
proof -
  have "map2 (*) ps vs = map2 (*) ps vs'" using assms by (intro nth_equalityI) auto
  then show ?thesis by (simp add: int_mma_def)
qed

lemma int_row_max:
  assumes "length xs = length ys" "\<exists>j<length xs. small (xs ! j) \<and> ys ! j = xs ! j"
    and "\<forall>j<length xs. small (xs ! j) \<and> ys ! j = xs ! j \<or> xs ! j \<le> -999000 \<and> ys ! j \<le> -999000"
  shows "Max (set xs) = Max (set ys) \<and> small (Max (set xs))"
proof -
  obtain j where j: "j < length xs" "small (xs ! j)" "ys ! j = xs ! j" using assms(2) by blast
  have le: "Max (set us) \<le> Max (set ws)" if "length us = length ws" "j < length us" "small (us ! j)" "ws ! j = us ! j"
      "\<forall>i<length us. small (us ! i) \<and> ws ! i = us ! i \<or> us ! i \<le> -999000" for us ws :: "int list"
  proof -
    note T = that
    have w: "ws ! i \<le> Max (set ws)" if "i < length ws" for i using that by simp
    have "u \<le> Max (set ws)" if "u \<in> set us" for u
    proof -
      obtain i where i: "i < length us" "u = us ! i" using \<open>u \<in> set us\<close> by (auto simp: in_set_conv_nth)
      from T(5) i(1) consider "ws ! i = us ! i" | "us ! i \<le> -999000" by blast
      then show ?thesis
      proof cases
        case 1
        with w [of i] i T(1) show ?thesis by simp
      next
        case 2
        have "us ! j \<le> Max (set ws)" "- 1000 \<le> us ! j" using w [of j] T(1-4) by (simp, linarith)
        with 2 i(2) show ?thesis by linarith
      qed
    qed
    moreover have "us \<noteq> []" using T(2) by auto
    ultimately show ?thesis by simp
  qed
  have eq: "Max (set xs) = Max (set ys)"
  proof (rule order_antisym)
    show "Max (set xs) \<le> Max (set ys)" by (rule le) (use assms(1,3) j in auto)
    have "\<forall>i<length ys. small (ys ! i) \<and> xs ! i = ys ! i \<or> ys ! i \<le> -999000" using assms(1,3) by metis
    then show "Max (set ys) \<le> Max (set xs)" by (intro le) (use assms(1) j in auto)
  qed
  have "xs ! j \<le> Max (set xs)" using j(1) by simp
  moreover have "Max (set xs) \<le> 1000"
  proof -
    have "xs ! i \<le> 1000" if "i < length xs" for i
      using assms(3) [THEN spec, THEN mp, OF that] by linarith
    then have "\<forall>u\<in>set xs. u \<le> 1000" by (simp add: all_set_conv_all_nth)
    moreover have "xs \<noteq> []" using j(1) by auto
    ultimately show ?thesis by simp
  qed
  ultimately show ?thesis using eq j(2) by simp
qed

lemma int_attn_simps:
  "at_mul int_attn = (*)" "at_add int_attn = (+)" "at_sub int_attn = (-)" "at_max int_attn = max" "at_row_max int_attn xs = Max (set xs)"
  "at_exp2 int_attn z = (if z < -100 then 0 else 2 ^ nat (z + 100))" "at_cast int_attn z = z" "at_zero int_attn = 0" "at_mask int_attn = -1000000"
  "at_neg_inf int_attn = -1000000000" "at_gemm int_attn = int_ops" "op_zero int_ops = 0" "at_log2e int_attn = 1" "acc_zero int_ops = 0" "at_convert int_attn y = y"
  by (simp_all add: int_attn_def int_ops_def)

lemma int_lowered: "lowered int_attn small y \<Longrightarrow> y \<le> -999000"
  by (auto simp: lowered_def int_attn_simps)

lemma int_attn_laws: "attn_laws int_attn int_mma 1 small (\<lambda>_. True)"
  unfolding attn_laws_def int_attn_simps mult_1_right
proof (intro conjI allI impI)
  fix xs :: "int list" assume "xs \<noteq> []" "\<forall>x\<in>set xs. small x"
  then show "small (Max (set xs))" using Max_in [of "set xs"] by auto
next
  fix m x :: int assume "small x" "small m \<or> m = -1000000000"
  then show "small (max m x)" by auto
next
  fix x :: int assume "small x"
  then show "small (x + 0)" by simp
next
  fix xs ys :: "int list"
  assume a: "length xs = length ys" "\<exists>j<length xs. small (xs ! j) \<and> ys ! j = xs ! j"
    "\<forall>j<length xs. small (xs ! j) \<and> ys ! j = xs ! j \<or> lowered int_attn small (xs ! j) \<and> lowered int_attn small (ys ! j)"
  have "\<forall>j<length xs. small (xs ! j) \<and> ys ! j = xs ! j \<or> xs ! j \<le> -999000 \<and> ys ! j \<le> -999000" using a(3) int_lowered by blast
  from int_row_max [OF a(1,2) this] show "Max (set xs) = Max (set ys)" "small (Max (set xs))" by (rule conjunct1, rule conjunct2)
next
  fix m :: int and xs :: "int list" assume a: "small m" "xs \<noteq> []" "\<forall>x\<in>set xs. lowered int_attn small x"
  then have "Max (set xs) \<le> -999000" using int_lowered by simp
  with a(1) show "max m (Max (set xs)) = m" by simp
next
  fix m x :: int assume "small m" "lowered int_attn small x"
  then show "(if x - m < -100 then 0 else 2 ^ nat (x - m + 100)) = (0 :: int)" using int_lowered [of x] by simp
next
  fix ps vs vs' :: "int list" and c
  assume "length vs = length ps" "length vs' = length ps" "\<forall>j<length ps. True \<and> True \<and> (ps ! j = 0 \<or> vs ! j = vs' ! j)"
  then show "int_mma ps vs c = int_mma ps vs' c" by (intro int_mma_zeros) simp_all
qed

definition vector :: "'b \<Rightarrow> 'b tensor_arg" where
  "vector xs = \<lparr>ta_shape = [], ta_cuda = True, ta_int32 = True, ta_device = 0, ta_data = xs\<rparr>"

definition floats :: "nat list \<Rightarrow> (nat list \<Rightarrow> int) \<Rightarrow> int float_arg" where
  "floats shp f = \<lparr>ta_shape = shp, ta_cuda = True, ta_int32 = False, ta_device = 0, ta_data = f\<rparr>"

text \<open>Two tokens packed, and a chunk of the same sequence, one token longer, over pages of one token.\<close>

definition ex_packed :: "(int, int) attn_args" where
  "ex_packed = \<lparr>aa_q = floats [2, 1, 1] (\<lambda>ix. int (ix ! 0) + 1), aa_k = floats [2, 1, 1] (\<lambda>ix. int (ix ! 0) + 1), aa_v = floats [2, 1, 1] (\<lambda>ix. 10 * int (ix ! 0) + 5),
     aa_cu_q = Some (vector [0, 2]), aa_cu_k = Some (vector [0, 2]), aa_max_q = Some (PyNumber 2), aa_max_k = Some (PyNumber 2), aa_dropout_zero = True,
     aa_scale = Some (PyNumber 1), aa_causal = True, aa_window = None, aa_softcap = False, aa_block_table = None, aa_page_table = None,
     aa_seqused = None, aa_cache_seqlens = None\<rparr>"

definition ex_paged :: "(int, int) attn_args" where
  "ex_paged = \<lparr>aa_q = floats [2, 1, 1] (\<lambda>ix. int (ix ! 0) + 2), aa_k = floats [3, 1, 1, 1] (\<lambda>ix. if ix ! 0 = 2 then 1 else if ix ! 0 = 0 then 2 else 77),
     aa_v = floats [3, 1, 1, 1] (\<lambda>ix. if ix ! 0 = 2 then 5 else if ix ! 0 = 0 then 15 else 99),
     aa_cu_q = Some (vector [0, 2]), aa_cu_k = None, aa_max_q = Some (PyNumber 2), aa_max_k = None, aa_dropout_zero = True,
     aa_scale = Some (PyNumber 1), aa_causal = True, aa_window = None, aa_softcap = False, aa_block_table = None,
     aa_page_table = Some \<lparr>ta_shape = [1, 3], ta_cuda = True, ta_int32 = True, ta_device = 0, ta_data = [[2, 0, 1]]\<rparr>,
     aa_seqused = Some (vector [3]), aa_cache_seqlens = None\<rparr>"

definition ex_schedule :: schedule3 where
  "ex_schedule n t h = List.product [0..<n] (List.product [0..<t] [0..<h])"

lemma ex_call_shape: "call_shape ex_packed = \<lparr>as_q_heads = 1, as_kv_heads = 1, as_dim = 1, as_value_dim = 1, as_block_m = 128, as_block_n = 64,
    as_block_d = 1, as_causal = True\<rparr>" "call_shape ex_paged = call_shape ex_packed"
  by (simp_all add: call_shape_def forward_shape_def ex_packed_def ex_paged_def call_table_def floats_def block_d_of_def next_power_of_2_def)

lemma ex_calls:
  "\<exists>out. flash_attn_varlen_func int_attn (\<lambda>_. 1) ex_schedule (\<lambda>_. 0) (\<lambda>_. 0) ex_packed = Ok out"
  "\<exists>out. flash_attn_varlen_func int_attn (\<lambda>_. 1) ex_schedule (\<lambda>_. 0) (\<lambda>_. 0) ex_paged = Ok out"
  by (simp_all add: flash_attn_varlen_func_def ex_packed_def ex_paged_def check_common_args_def needed_def nonpaged_forward_def paged_forward_def
      floats_def vector_def require_cuda_def require_cuda_int32_def check_def check_divides_def block_d_of_def next_power_of_2_def Let_def)

lemma ex_inputs:
  "call_input int_attn ex_packed = packed_input (\<lambda>a b c. int a + 1) (\<lambda>a b c. int a + 1) (\<lambda>a b c. 10 * int a + 5) [0, 2] [0, 2]"
  "call_input int_attn ex_paged = paged_input 0 1 (\<lambda>a b c. int a + 2) (\<lambda>a b c d. if a = 2 then 1 else if a = 0 then 2 else 77)
     (\<lambda>a b c d. if a = 2 then 5 else if a = 0 then 15 else 99) [0, 2] [3] [[2, 0, 1]]"
  by (simp_all add: call_input_def call_table_def ex_packed_def ex_paged_def floats_def vector_def int_attn_simps cong: if_cong)

lemma ex_small:
  "ordinary int_attn int_mma (call_shape ex_packed) 1 small (\<lambda>_. True) (call_input int_attn ex_packed) 0 0 1"
  "ordinary int_attn int_mma (call_shape ex_packed) 1 small (\<lambda>_. True) (call_input int_attn ex_paged) 0 0 1"
  unfolding ordinary_def data_ok_def ex_inputs ex_call_shape int_attn_simps
  by (auto simp: query_at_def key_at_def packed_input_def paged_input_def paged_read_def q_local_def valid_q_def q_abs_start_def int_mma_def
      eval_nat_numeral less_Suc_eq Let_def)

lemma ex_agree: "agree_up_to (call_shape ex_packed) 0 (call_input int_attn ex_packed) 0 (call_input int_attn ex_paged) 0 1"
  unfolding agree_up_to_def ex_inputs ex_call_shape
  by (auto simp: packed_input_def paged_input_def paged_read_def q_local_def valid_q_def q_abs_start_def le_Suc_eq)

lemma ex_places:
  "call_seqs ex_packed = 1" "call_seqs ex_paged = 1" "call_max_len ex_packed = 2" "call_max_len ex_paged = 3"
  "token_at (call_input int_attn ex_packed) 0 1 = 1" "token_at (call_input int_attn ex_paged) 0 1 = 0"
  "valid_q (call_input int_attn ex_packed) 0 1" "valid_q (call_input int_attn ex_paged) 0 1"
  unfolding ex_inputs
  by (simp_all add: call_seqs_def call_max_len_def call_table_def ex_packed_def ex_paged_def vector_def floats_def
      packed_input_def paged_input_def q_local_def valid_q_def q_abs_start_def)

lemma ex_schedule_ok: "\<forall>n t h. set (ex_schedule n t h) = {..<n} \<times> {..<t} \<times> {..<h}"
  by (auto simp: ex_schedule_def)

lemma attention_sees_only_the_prefix_witness:
  "\<exists>out out'. flash_attn_varlen_func int_attn (\<lambda>_. 1) ex_schedule (\<lambda>_. 0) (\<lambda>_. 0) ex_packed = Ok out \<and>
    flash_attn_varlen_func int_attn (\<lambda>_. 1) ex_schedule (\<lambda>_. 0) (\<lambda>_. 0) ex_paged = Ok out' \<and> out 1 = out' 0"
proof -
  obtain out where a: "flash_attn_varlen_func int_attn (\<lambda>_. 1) ex_schedule (\<lambda>_. 0) (\<lambda>_. 0) ex_packed = Ok out" using ex_calls(1) by blast
  obtain out' where b: "flash_attn_varlen_func int_attn (\<lambda>_. 1) ex_schedule (\<lambda>_. 0) (\<lambda>_. 0) ex_paged = Ok out'" using ex_calls(2) by blast
  have laws: "attn_laws int_attn int_mma (at_mul int_attn 1 (at_log2e int_attn)) small (\<lambda>_. True)"
    using int_attn_laws by (simp add: int_attn_simps)
  have rows: "row_independent (at_gemm int_attn) int_mma" using int_row_independent by (simp add: int_attn_simps)
  have scale: "default_softmax_scale (\<lambda>_. 1) (aa_q ex_packed) (aa_scale ex_packed) = Ok (1 :: int)"
    "default_softmax_scale (\<lambda>_. 1) (aa_q ex_paged) (aa_scale ex_paged) = Ok (1 :: int)" by (simp_all add: ex_packed_def ex_paged_def)
  have seqs: "sequences_ok x 1" for x :: "int attn_input" by (auto simp: sequences_ok_def)
  have bounds: "0 < as_q_heads (call_shape ex_packed)" "0 < as_value_dim (call_shape ex_packed)" by (simp_all add: ex_call_shape)
  have "out (out_addr (call_shape ex_packed) (token_at (call_input int_attn ex_packed) 0 1) 0 0) =
      out' (out_addr (call_shape ex_packed) (token_at (call_input int_attn ex_paged) 0 1) 0 0)"
    by (rule attention_sees_only_the_prefix [OF rows laws ex_schedule_ok ex_schedule_ok a b scale ex_call_shape(2) _ _ _ _ ex_places(7,8) _ _ bounds
          ex_agree ex_small]) (simp_all only: ex_places seqs)
  then have "out 1 = out' 0" by (simp only: ex_places) (simp add: ex_call_shape out_addr_def)
  with a b show ?thesis by blast
qed

end
