(* ===== verification/Attention_Backward.thy ===== *)
theory Attention_Backward
  imports Attention_Calls
begin

text \<open>
  The backward pass of packed attention (\<open>src/vexact/batch_invariant_ops/triton_invariant_attention.py\<close>): the kernel
  for the gradient of the queries, the one for keys and values, and \<open>_NonpagedFlashAttentionVarlen.backward\<close>.
  A sequence's gradients depend on its own rows only.
\<close>

section \<open>The kernels\<close>

text \<open>What the backward kernels compute with beyond the forward ones: \<open>exp\<close>, widening, a sum of accumulators.\<close>

record ('f, 'a) bwd_ops =
  bw_exp :: "'a \<Rightarrow> 'a"
  bw_wide :: "'f \<Rightarrow> 'a"
  bw_sum :: "'a list \<Rightarrow> 'a"

record ('f, 'a) bwd_data =
  bd_do :: "nat \<Rightarrow> nat \<Rightarrow> nat \<Rightarrow> 'f"
  bd_out :: "nat \<Rightarrow> nat \<Rightarrow> nat \<Rightarrow> 'f"
  bd_lse :: "nat \<Rightarrow> nat \<Rightarrow> 'a"

definition load_rows :: "'f \<Rightarrow> nat \<Rightarrow> nat \<Rightarrow> (nat \<Rightarrow> nat \<Rightarrow> 'f) \<Rightarrow> nat \<Rightarrow> 'f tile" where
  "load_rows z len w rows start i d = (if start + i < len \<and> d < w then rows (start + i) d else z)"

text \<open>One block of queries against one block of keys: the loaded tiles, the weights and the gradients of the scores.\<close>

definition bwd_block ::
    "('f, 'a) attn_ops \<Rightarrow> ('f, 'a) bwd_ops \<Rightarrow> attn_shape \<Rightarrow> 'a \<Rightarrow> 'f attn_input \<Rightarrow> ('f, 'a) bwd_data \<Rightarrow> nat \<Rightarrow> nat \<Rightarrow> nat \<Rightarrow> nat \<Rightarrow> nat
       \<Rightarrow> 'f tile \<times> 'f tile \<times> 'f tile \<times> (nat \<Rightarrow> nat \<Rightarrow> 'a) \<times> (nat \<Rightarrow> nat \<Rightarrow> 'a)" where
  "bwd_block ops bo s softmax_scale x dat seq q_head kv_head start_m start_n =
     (let z = op_zero (at_gemm ops); bm = as_block_m s; bn = as_block_n s; bd = as_block_d s;
          q_start = ai_q_start x seq; q_len = ai_q_len x seq; kv_len = ai_kv_len x seq;
          zeros = (\<lambda>i j. acc_zero (at_gemm ops));
          q = load_rows z q_len (as_dim s) (\<lambda>t. ai_query x (q_start + t) q_head) start_m;
          k = load_rows z kv_len (as_dim s) (\<lambda>n. ai_key x seq n kv_head) start_n;
          v = load_rows z kv_len (as_value_dim s) (\<lambda>n. ai_value x seq n kv_head) start_n;
          do = load_rows z q_len (as_value_dim s) (\<lambda>t. bd_do dat (q_start + t) q_head) start_m;
          out = load_rows z q_len (as_value_dim s) (\<lambda>t. bd_out dat (q_start + t) q_head) start_m;
          lse = (\<lambda>i. if start_m + i < q_len then bd_lse dat (q_start + (start_m + i)) q_head else at_zero ops);
          delta = (\<lambda>i. bw_sum bo (map (\<lambda>d. at_mul ops (bw_wide bo (out i d)) (bw_wide bo (do i d))) [0..<bd]));
          qk = (\<lambda>i j. at_mul ops (op_dot (at_gemm ops) bm bn bd q (\<lambda>d j. k j d) zeros i j) softmax_scale);
          mask = (\<lambda>i j. start_m + i < q_len \<and> start_n + j < kv_len \<and> int (start_n + j) \<le> int (start_m + i) + q_abs_start x seq);
          p = (\<lambda>i j. if mask i j then bw_exp bo (at_sub ops (qk i j) (lse i)) else at_zero ops);
          dp = op_dot (at_gemm ops) bm bn bd do (\<lambda>d j. v j d) zeros;
          ds = (\<lambda>i j. at_mul ops (at_mul ops (p i j) (at_sub ops (dp i j) (delta i))) softmax_scale)
      in (q, k, do, p, ds))"

text \<open>Gradient of the queries: a program per sequence, block of queries and head.\<close>

definition dq_tile ::
    "('f, 'a) attn_ops \<Rightarrow> ('f, 'a) bwd_ops \<Rightarrow> attn_shape \<Rightarrow> 'a \<Rightarrow> 'f attn_input \<Rightarrow> ('f, 'a) bwd_data \<Rightarrow> nat \<Rightarrow> nat \<Rightarrow> nat \<Rightarrow> nat \<Rightarrow> nat \<Rightarrow> 'a" where
  "dq_tile ops bo s softmax_scale x dat seq start_m q_head =
     (let bm = as_block_m s; bn = as_block_n s; kv_head = q_head div (as_q_heads s div as_kv_heads s)
      in fold (\<lambda>t dq. let (q, k, do, p, ds) = bwd_block ops bo s softmax_scale x dat seq q_head kv_head (start_m * bm) (t * bn);
                          step = op_dot (at_gemm ops) bm (as_block_d s) bn (\<lambda>i j. at_cast ops (ds i j)) k (\<lambda>i j. acc_zero (at_gemm ops))
                      in (\<lambda>i d. at_add ops (dq i d) (step i d)))
           [0..<cdiv (ai_kv_len x seq) bn] (\<lambda>i d. at_zero ops))"

definition dq_program ::
    "('f, 'a) attn_ops \<Rightarrow> ('f, 'a) bwd_ops \<Rightarrow> attn_shape \<Rightarrow> 'a \<Rightarrow> 'f attn_input \<Rightarrow> ('f, 'a) bwd_data \<Rightarrow> nat \<times> nat \<times> nat \<Rightarrow> 'f stores" where
  "dq_program ops bo s softmax_scale x dat pids =
     (let (seq, start_m, q_head) = pids; bm = as_block_m s; q_len = ai_q_len x seq
      in if q_len \<le> start_m * bm then []
         else let dq = dq_tile ops bo s softmax_scale x dat seq start_m q_head
              in concat (map (\<lambda>i. concat (map (\<lambda>d. if start_m * bm + i < q_len \<and> d < as_dim s
                   then [(int (((ai_q_start x seq + (start_m * bm + i)) * as_q_heads s + q_head) * as_dim s + d), at_cast ops (dq i d))] else [])
                 [0..<as_block_d s])) [0..<bm]))"

text \<open>Gradients of keys and values: a program per sequence, block of keys and key head, over all query heads of the group.\<close>

definition dkv_tile ::
    "('f, 'a) attn_ops \<Rightarrow> ('f, 'a) bwd_ops \<Rightarrow> attn_shape \<Rightarrow> 'a \<Rightarrow> nat \<Rightarrow> 'f attn_input \<Rightarrow> ('f, 'a) bwd_data \<Rightarrow> nat \<Rightarrow> nat \<Rightarrow> nat
       \<Rightarrow> (nat \<Rightarrow> nat \<Rightarrow> 'a) \<times> (nat \<Rightarrow> nat \<Rightarrow> 'a)" where
  "dkv_tile ops bo s softmax_scale groups x dat seq start_n_block kv_head =
     (let bm = as_block_m s; bn = as_block_n s; bd = as_block_d s; zeros = (\<lambda>i j. acc_zero (at_gemm ops))
      in fold (\<lambda>group_idx. fold (\<lambda>t (dk, dv).
           let (q, k, do, p, ds) = bwd_block ops bo s softmax_scale x dat seq (kv_head * groups + group_idx) kv_head (t * bm) (start_n_block * bn);
               step_v = op_dot (at_gemm ops) bn bd bm (\<lambda>j i. at_cast ops (p i j)) do zeros;
               step_k = op_dot (at_gemm ops) bn bd bm (\<lambda>j i. at_cast ops (ds i j)) q zeros
           in (\<lambda>j d. at_add ops (dk j d) (step_k j d), \<lambda>j d. at_add ops (dv j d) (step_v j d)))
           [0..<cdiv (ai_q_len x seq) bm]) [0..<groups] (\<lambda>j d. at_zero ops, \<lambda>j d. at_zero ops))"

definition key_stores ::
    "attn_shape \<Rightarrow> nat \<Rightarrow> nat \<Rightarrow> nat \<Rightarrow> nat \<Rightarrow> nat \<Rightarrow> nat \<Rightarrow> (nat \<Rightarrow> nat \<Rightarrow> 'f) \<Rightarrow> 'f stores" where
  "key_stores s w k_start kv_len bn start_n_block kv_head cells =
     concat (map (\<lambda>j. concat (map (\<lambda>d. if start_n_block * bn + j < kv_len \<and> d < w
         then [(int (((k_start + (start_n_block * bn + j)) * as_kv_heads s + kv_head) * w + d), cells j d)] else [])
       [0..<as_block_d s])) [0..<bn])"

definition dkv_program ::
    "('f, 'a) attn_ops \<Rightarrow> ('f, 'a) bwd_ops \<Rightarrow> attn_shape \<Rightarrow> 'a \<Rightarrow> nat \<Rightarrow> (nat \<Rightarrow> nat) \<Rightarrow> 'f attn_input \<Rightarrow> ('f, 'a) bwd_data \<Rightarrow> nat \<times> nat \<times> nat
       \<Rightarrow> 'f stores \<times> 'f stores" where
  "dkv_program ops bo s softmax_scale groups k_start x dat pids =
     (let (seq, start_n_block, kv_head) = pids; bn = as_block_n s; kv_len = ai_kv_len x seq
      in if kv_len \<le> start_n_block * bn then ([], [])
         else let (dk, dv) = dkv_tile ops bo s softmax_scale groups x dat seq start_n_block kv_head
              in (key_stores s (as_dim s) (k_start seq) kv_len bn start_n_block kv_head (\<lambda>j d. at_cast ops (dk j d)),
                  key_stores s (as_value_dim s) (k_start seq) kv_len bn start_n_block kv_head (\<lambda>j d. at_cast ops (dv j d))))"

section \<open>The backward pass\<close>

definition backward_shape :: "'f float_arg \<Rightarrow> 'f float_arg \<Rightarrow> nat \<Rightarrow> attn_shape" where
  "backward_shape q v kv_heads =
     (let block_d = block_d_of q v; block = (if block_d \<le> 64 then 64 else if block_d \<le> 128 then 32 else 16)
      in \<lparr>as_q_heads = dim q 1, as_kv_heads = kv_heads, as_dim = last_dim q, as_value_dim = last_dim v,
          as_block_m = block, as_block_n = block, as_block_d = block_d, as_causal = True\<rparr>)"

text \<open>What the forward pass has saved, as the kernels read it.\<close>

definition saved_data :: "attn_shape \<Rightarrow> ('f, 'a) saved_attn \<Rightarrow> 'f float_arg \<Rightarrow> ('f, 'a) bwd_data" where
  "saved_data s sv grad =
     \<lparr>bd_do = access3 grad, bd_out = (\<lambda>t h d. sa_out sv (out_addr s t h d)), bd_lse = (\<lambda>t h. sa_lse sv (int (t * as_q_heads s + h)))\<rparr>"

definition nonpaged_backward ::
    "('f, 'a) attn_ops \<Rightarrow> ('f, 'a) bwd_ops \<Rightarrow> schedule3 \<Rightarrow> (nat \<Rightarrow> 'f memory) \<Rightarrow> 'f float_arg \<Rightarrow> 'f float_arg \<Rightarrow> 'f float_arg
       \<Rightarrow> nat list tensor_arg \<Rightarrow> nat list tensor_arg \<Rightarrow> ('f, 'a) saved_attn \<Rightarrow> 'f float_arg \<Rightarrow> ('f memory \<times> 'f memory \<times> 'f memory) res" where
  "nonpaged_backward ops bo schedule fresh q k v cu_q cu_k sv grad =
     (if \<not> sa_causal sv then Raise NotImplementedError
      else if 256 < block_d_of q v then Raise ValueError
      else if dim k 1 = 0 then Raise ZeroDivisionError
      else let s = backward_shape q v (dim k 1); groups = dim q 1 div dim k 1;
               x = packed_input (access3 q) (access3 k) (access3 v) (ta_data cu_q) (ta_data cu_k); dat = saved_data s sv grad;
               dq_ord = schedule (length (ta_data cu_q) - 1) (cdiv (sa_max_q sv) (as_block_m s)) (dim q 1);
               dkv_ord = schedule (length (ta_data cu_k) - 1) (cdiv (sa_max_k sv) (as_block_n s)) (dim k 1);
               kv = dkv_program ops bo s (sa_scale sv) groups (\<lambda>seq. ta_data cu_k ! seq) x dat
           in Ok (apply_stores (concat (map (dq_program ops bo s (sa_scale sv) x dat) dq_ord)) (fresh 0),
                  apply_stores (concat (map (\<lambda>pids. fst (kv pids)) dkv_ord)) (fresh 1),
                  apply_stores (concat (map (\<lambda>pids. snd (kv pids)) dkv_ord)) (fresh 2)))"

definition paged_backward :: "'b \<Rightarrow> 'c res" where
  "paged_backward grad = Raise NotImplementedError"

section \<open>Launches over sequences\<close>

text \<open>A grid of programs, each storing the cells of one block of a sequence, leaves every cell with its value.\<close>

lemma address_inj:
  assumes "(t * H + h) * W + d = (t' * H + h') * W + d'" "h < H" "h' < H" "d < W" "d' < W"
  shows "t = t' \<and> h = h' \<and> d = (d' :: nat)"
proof -
  have "t * H + h = t' * H + h'" "d = d'"
    using assms(1) mult_add_div [OF assms(4)] mult_add_div [OF assms(5)] mult_add_mod [OF assms(4)] mult_add_mod [OF assms(5)] by metis+
  moreover from this(1) have "t = t'" "h = h'"
    using mult_add_div [OF assms(2)] mult_add_div [OF assms(3)] mult_add_mod [OF assms(2)] mult_add_mod [OF assms(3)] by metis+
  ultimately show ?thesis by simp
qed

lemma block_cells:
  fixes m B :: nat and f :: "nat \<Rightarrow> nat \<Rightarrow> 'f"
  assumes "0 < B"
  shows "{f (m * B + i) d | i d. i < B \<and> P (m * B + i) d} = {f pos d | pos d. pos div B = m \<and> P pos d}"
proof (intro set_eqI iffI)
  fix y assume "y \<in> {f (m * B + i) d | i d. i < B \<and> P (m * B + i) d}"
  then obtain i d where "y = f (m * B + i) d" "i < B" "P (m * B + i) d" by blast
  moreover have "(m * B + i) div B = m" using mult_add_div [OF \<open>i < B\<close>] .
  ultimately show "y \<in> {f pos d | pos d. pos div B = m \<and> P pos d}" by blast
next
  fix y assume "y \<in> {f pos d | pos d. pos div B = m \<and> P pos d}"
  then obtain pos d where y: "y = f pos d" "pos div B = m" "P pos d" by blast
  moreover have "pos = m * B + pos mod B" using y(2) by (metis div_mult_mod_eq)
  moreover have "pos mod B < B" using assms by simp
  ultimately show "y \<in> {f (m * B + i) d | i d. i < B \<and> P (m * B + i) d}" by (metis (mono_tags, lifting) mem_Collect_eq)
qed

lemma launch_cells:
  fixes start len :: "nat \<Rightarrow> nat" and val :: "nat \<Rightarrow> nat \<Rightarrow> nat \<Rightarrow> nat \<Rightarrow> 'f"
  assumes ord: "set ord = {..<n} \<times> {..<tiles} \<times> {..<H}" and B: "0 < B"
    and stores: "\<And>a m h. set (prog (a, m, h)) =
      {(int (((start a + pos) * H + h) * W + d), val a h pos d) | pos d. pos div B = m \<and> pos < len a \<and> d < W}"
    and apart: "\<And>a b. a < b \<Longrightarrow> b < n \<Longrightarrow> start a + len a \<le> start b"
    and cell: "a < n" "pos < len a" "pos < tiles * B" "h < H" "d < W"
  shows "apply_stores (concat (map prog ord)) mem (int (((start a + pos) * H + h) * W + d)) = val a h pos d"
proof (rule apply_stores_agree)
  have "pos div B < tiles" using cell(3) by (simp add: less_mult_imp_div_less)
  then have "(a, pos div B, h) \<in> set ord" using ord cell(1,4) by simp
  moreover have "(int (((start a + pos) * H + h) * W + d), val a h pos d) \<in> set (prog (a, pos div B, h))"
    unfolding stores using cell(2,5) by blast
  ultimately show "(int (((start a + pos) * H + h) * W + d), val a h pos d) \<in> set (concat (map prog ord))"
    unfolding set_concat set_map by blast
  fix v assume "(int (((start a + pos) * H + h) * W + d), v) \<in> set (concat (map prog ord))"
  then obtain b m h' where b: "(b, m, h') \<in> set ord" "(int (((start a + pos) * H + h) * W + d), v) \<in> set (prog (b, m, h'))"
    unfolding set_concat set_map by auto
  then have bh: "b < n" "h' < H" using ord by simp_all
  from b(2) obtain pos' d' where p: "int (((start a + pos) * H + h) * W + d) = int (((start b + pos') * H + h') * W + d')" "v = val b h' pos' d'"
    "pos' < len b" "d' < W"
    unfolding stores by blast
  from address_inj [OF of_nat_eq_iff [THEN iffD1, OF p(1)] cell(4) bh(2) cell(5) p(4)]
  have eq: "start a + pos = start b + pos'" "h = h'" "d = d'" by simp_all
  have "a = b"
  proof (rule ccontr)
    assume "a \<noteq> b"
    then consider "a < b" | "b < a" by linarith
    then show False
      using apart [of a b] apart [of b a] bh(1) cell(1,2) p(3) eq(1) by cases linarith+
  qed
  with eq p(2) show "v = val a h pos d" by simp
qed

lemma rows_stored:
  assumes "0 < B" "W \<le> D"
  shows "set (concat (map (\<lambda>i. concat (map (\<lambda>d. if m * B + i < len \<and> d < W
      then [(int (((start + (m * B + i)) * H + h) * W + d), cells i d)] else []) [0..<D])) [0..<B])) =
    {(int (((start + pos) * H + h) * W + d), cells (pos mod B) d) | pos d. pos div B = m \<and> pos < len \<and> d < W}"
proof -
  have mod: "(m * B + i) mod B = i" if "i < B" for i using mult_add_mod [OF that] .
  have "{(int (((start + (m * B + i)) * H + h) * W + d), cells i d) | i d. i < B \<and> d < D \<and> m * B + i < len \<and> d < W} =
      {(int (((start + (m * B + i)) * H + h) * W + d), cells ((m * B + i) mod B) d) | i d. i < B \<and> (m * B + i < len \<and> d < W)}"
  proof (intro Collect_cong ex_cong1)
    fix w i d
    show "(w = (int (((start + (m * B + i)) * H + h) * W + d), cells i d) \<and> i < B \<and> d < D \<and> m * B + i < len \<and> d < W) =
        (w = (int (((start + (m * B + i)) * H + h) * W + d), cells ((m * B + i) mod B) d) \<and> i < B \<and> (m * B + i < len \<and> d < W))"
      using assms(2) mod [of i] by (cases "i < B") auto
  qed
  then show ?thesis
    unfolding masked_cells block_cells [OF assms(1), where f = "\<lambda>pos d. (int (((start + pos) * H + h) * W + d), cells (pos mod B) d)" and
      P = "\<lambda>pos d. pos < len \<and> d < W"] .
qed

definition dq_value ::
    "('f, 'a) attn_ops \<Rightarrow> ('f, 'a) bwd_ops \<Rightarrow> attn_shape \<Rightarrow> 'a \<Rightarrow> 'f attn_input \<Rightarrow> ('f, 'a) bwd_data \<Rightarrow> nat \<Rightarrow> nat \<Rightarrow> nat \<Rightarrow> nat \<Rightarrow> 'f" where
  "dq_value ops bo s softmax_scale x dat seq head pos d =
     at_cast ops (dq_tile ops bo s softmax_scale x dat seq (pos div as_block_m s) head (pos mod as_block_m s) d)"

lemma dq_stores:
  assumes "0 < as_block_m s" "as_dim s \<le> as_block_d s"
  shows "set (dq_program ops bo s c x dat (seq, m, head)) =
    {(int (((ai_q_start x seq + pos) * as_q_heads s + head) * as_dim s + d), dq_value ops bo s c x dat seq head pos d) | pos d.
       pos div as_block_m s = m \<and> pos < ai_q_len x seq \<and> d < as_dim s}"
proof (cases "ai_q_len x seq \<le> m * as_block_m s")
  case True
  have "\<not> pos < ai_q_len x seq" if "pos div as_block_m s = m" for pos
    using True div_times_less_eq_dividend [of pos "as_block_m s", unfolded that] by linarith
  with True show ?thesis by (auto simp: dq_program_def)
next
  case False
  then show ?thesis
    using rows_stored [OF assms, of m "ai_q_len x seq" "ai_q_start x seq" "as_q_heads s" head "\<lambda>i d. at_cast ops (dq_tile ops bo s c x dat seq m head i d)"]
    by (auto simp: dq_program_def Let_def dq_value_def)
qed

definition dkv_value ::
    "('f, 'a) attn_ops \<Rightarrow> ('f, 'a) bwd_ops \<Rightarrow> attn_shape \<Rightarrow> 'a \<Rightarrow> nat \<Rightarrow> 'f attn_input \<Rightarrow> ('f, 'a) bwd_data \<Rightarrow> nat \<Rightarrow> nat \<Rightarrow> nat \<Rightarrow> nat \<Rightarrow> 'f \<times> 'f" where
  "dkv_value ops bo s softmax_scale groups x dat seq head pos d =
     (let (dk, dv) = dkv_tile ops bo s softmax_scale groups x dat seq (pos div as_block_n s) head; j = pos mod as_block_n s
      in (at_cast ops (dk j d), at_cast ops (dv j d)))"

lemma dkv_stores:
  assumes "0 < as_block_n s" "as_dim s \<le> as_block_d s" "as_value_dim s \<le> as_block_d s"
  shows "set (fst (dkv_program ops bo s c groups k_start x dat (seq, m, head))) =
      {(int (((k_start seq + pos) * as_kv_heads s + head) * as_dim s + d), fst (dkv_value ops bo s c groups x dat seq head pos d)) | pos d.
       pos div as_block_n s = m \<and> pos < ai_kv_len x seq \<and> d < as_dim s}"
    and "set (snd (dkv_program ops bo s c groups k_start x dat (seq, m, head))) =
      {(int (((k_start seq + pos) * as_kv_heads s + head) * as_value_dim s + d), snd (dkv_value ops bo s c groups x dat seq head pos d)) | pos d.
       pos div as_block_n s = m \<and> pos < ai_kv_len x seq \<and> d < as_value_dim s}"
proof -
  obtain dk dv where t: "dkv_tile ops bo s c groups x dat seq m head = (dk, dv)" by force
  have none: "\<not> pos < ai_kv_len x seq" if "pos div as_block_n s = m" "ai_kv_len x seq \<le> m * as_block_n s" for pos
    using that(2) div_times_less_eq_dividend [of pos "as_block_n s", unfolded that(1)] by linarith
  show "set (fst (dkv_program ops bo s c groups k_start x dat (seq, m, head))) =
      {(int (((k_start seq + pos) * as_kv_heads s + head) * as_dim s + d), fst (dkv_value ops bo s c groups x dat seq head pos d)) | pos d.
       pos div as_block_n s = m \<and> pos < ai_kv_len x seq \<and> d < as_dim s}"
  proof (cases "ai_kv_len x seq \<le> m * as_block_n s")
    case True
    then show ?thesis using none by (auto simp: dkv_program_def)
  next
    case False
    then have "set (fst (dkv_program ops bo s c groups k_start x dat (seq, m, head))) =
        {(int (((k_start seq + pos) * as_kv_heads s + head) * as_dim s + d), at_cast ops (dk (pos mod as_block_n s) d)) | pos d.
         pos div as_block_n s = m \<and> pos < ai_kv_len x seq \<and> d < as_dim s}"
      using rows_stored [OF assms(1,2), of m "ai_kv_len x seq" "k_start seq" "as_kv_heads s" head "\<lambda>j d. at_cast ops (dk j d)"]
      by (simp only: dkv_program_def key_stores_def Let_def prod.case t if_False fst_conv snd_conv)
    also have "\<dots> = {(int (((k_start seq + pos) * as_kv_heads s + head) * as_dim s + d), fst (dkv_value ops bo s c groups x dat seq head pos d)) | pos d.
       pos div as_block_n s = m \<and> pos < ai_kv_len x seq \<and> d < as_dim s}"
    proof (intro Collect_cong ex_cong1)
      fix w pos d
      show "(w = (int (((k_start seq + pos) * as_kv_heads s + head) * as_dim s + d), at_cast ops (dk (pos mod as_block_n s) d)) \<and>
            pos div as_block_n s = m \<and> pos < ai_kv_len x seq \<and> d < as_dim s) =
          (w = (int (((k_start seq + pos) * as_kv_heads s + head) * as_dim s + d), fst (dkv_value ops bo s c groups x dat seq head pos d)) \<and>
            pos div as_block_n s = m \<and> pos < ai_kv_len x seq \<and> d < as_dim s)"
        by (cases "pos div as_block_n s = m") (simp_all add: dkv_value_def t Let_def)
    qed
    finally show ?thesis .
  qed
  show "set (snd (dkv_program ops bo s c groups k_start x dat (seq, m, head))) =
      {(int (((k_start seq + pos) * as_kv_heads s + head) * as_value_dim s + d), snd (dkv_value ops bo s c groups x dat seq head pos d)) | pos d.
       pos div as_block_n s = m \<and> pos < ai_kv_len x seq \<and> d < as_value_dim s}"
  proof (cases "ai_kv_len x seq \<le> m * as_block_n s")
    case True
    then show ?thesis using none by (auto simp: dkv_program_def)
  next
    case False
    then have "set (snd (dkv_program ops bo s c groups k_start x dat (seq, m, head))) =
        {(int (((k_start seq + pos) * as_kv_heads s + head) * as_value_dim s + d), at_cast ops (dv (pos mod as_block_n s) d)) | pos d.
         pos div as_block_n s = m \<and> pos < ai_kv_len x seq \<and> d < as_value_dim s}"
      using rows_stored [OF assms(1,3), of m "ai_kv_len x seq" "k_start seq" "as_kv_heads s" head "\<lambda>j d. at_cast ops (dv j d)"]
      by (simp only: dkv_program_def key_stores_def Let_def prod.case t if_False fst_conv snd_conv)
    also have "\<dots> = {(int (((k_start seq + pos) * as_kv_heads s + head) * as_value_dim s + d), snd (dkv_value ops bo s c groups x dat seq head pos d)) | pos d.
       pos div as_block_n s = m \<and> pos < ai_kv_len x seq \<and> d < as_value_dim s}"
    proof (intro Collect_cong ex_cong1)
      fix w pos d
      show "(w = (int (((k_start seq + pos) * as_kv_heads s + head) * as_value_dim s + d), at_cast ops (dv (pos mod as_block_n s) d)) \<and>
            pos div as_block_n s = m \<and> pos < ai_kv_len x seq \<and> d < as_value_dim s) =
          (w = (int (((k_start seq + pos) * as_kv_heads s + head) * as_value_dim s + d), snd (dkv_value ops bo s c groups x dat seq head pos d)) \<and>
            pos div as_block_n s = m \<and> pos < ai_kv_len x seq \<and> d < as_value_dim s)"
        by (cases "pos div as_block_n s = m") (simp_all add: dkv_value_def t Let_def)
    qed
    finally show ?thesis .
  qed
qed

section \<open>A sequence alone\<close>

text \<open>Two inputs hold the same sequence: queries, keys and values, row for row.\<close>

definition same_sequence :: "attn_shape \<Rightarrow> 'f attn_input \<Rightarrow> nat \<Rightarrow> 'f attn_input \<Rightarrow> nat \<Rightarrow> bool" where
  "same_sequence s x seq y seq' \<longleftrightarrow>
     ai_q_len x seq = ai_q_len y seq' \<and> ai_kv_len x seq = ai_kv_len y seq' \<and>
     (\<forall>t<ai_q_len x seq. \<forall>h<as_q_heads s. \<forall>d<as_dim s. ai_query x (ai_q_start x seq + t) h d = ai_query y (ai_q_start y seq' + t) h d) \<and>
     (\<forall>n<ai_kv_len x seq. \<forall>h<as_kv_heads s. (\<forall>d<as_dim s. ai_key x seq n h d = ai_key y seq' n h d) \<and>
        (\<forall>d<as_value_dim s. ai_value x seq n h d = ai_value y seq' n h d))"

lemma same_sequenceD:
  assumes "same_sequence s x seq y seq'"
  shows "ai_q_len x seq = ai_q_len y seq'" "ai_kv_len x seq = ai_kv_len y seq'" "q_abs_start x seq = q_abs_start y seq'"
    and "t < ai_q_len y seq' \<Longrightarrow> h < as_q_heads s \<Longrightarrow> d < as_dim s \<Longrightarrow> ai_query x (ai_q_start x seq + t) h d = ai_query y (ai_q_start y seq' + t) h d"
    and "n < ai_kv_len y seq' \<Longrightarrow> kh < as_kv_heads s \<Longrightarrow> d < as_dim s \<Longrightarrow> ai_key x seq n kh d = ai_key y seq' n kh d"
    and "n < ai_kv_len y seq' \<Longrightarrow> kh < as_kv_heads s \<Longrightarrow> d < as_value_dim s \<Longrightarrow> ai_value x seq n kh d = ai_value y seq' n kh d"
  using assms by (auto simp: same_sequence_def q_abs_start_def)

definition same_data :: "attn_shape \<Rightarrow> 'f attn_input \<Rightarrow> ('f, 'a) bwd_data \<Rightarrow> nat \<Rightarrow> 'f attn_input \<Rightarrow> ('f, 'a) bwd_data \<Rightarrow> nat \<Rightarrow> bool" where
  "same_data s x dat seq y dat' seq' \<longleftrightarrow>
     (\<forall>t<ai_q_len x seq. \<forall>h<as_q_heads s. bd_lse dat (ai_q_start x seq + t) h = bd_lse dat' (ai_q_start y seq' + t) h \<and>
        (\<forall>d<as_value_dim s. bd_do dat (ai_q_start x seq + t) h d = bd_do dat' (ai_q_start y seq' + t) h d \<and>
           bd_out dat (ai_q_start x seq + t) h d = bd_out dat' (ai_q_start y seq' + t) h d))"

lemma load_rows_cong:
  "len = len' \<Longrightarrow> (\<And>t d. t < len' \<Longrightarrow> d < w \<Longrightarrow> f t d = g t d) \<Longrightarrow> load_rows z len w f start = load_rows z len' w g start"
  by (auto simp: load_rows_def fun_eq_iff)

lemma bwd_block_same:
  assumes S: "same_sequence s x seq y seq'" and D: "same_data s x dat seq y dat' seq'" and h: "head < as_q_heads s" "kh < as_kv_heads s"
  shows "bwd_block ops bo s c x dat seq head kh start_m start_n = bwd_block ops bo s c y dat' seq' head kh start_m start_n"
proof -
  note E = same_sequenceD [OF S]
  let ?z = "op_zero (at_gemm ops)"
  have q: "load_rows ?z (ai_q_len x seq) (as_dim s) (\<lambda>t. ai_query x (ai_q_start x seq + t) head) start_m =
      load_rows ?z (ai_q_len y seq') (as_dim s) (\<lambda>t. ai_query y (ai_q_start y seq' + t) head) start_m"
    by (rule load_rows_cong [OF E(1)]) (rule E(4) [OF _ h(1)])
  have k: "load_rows ?z (ai_kv_len x seq) (as_dim s) (\<lambda>n. ai_key x seq n kh) start_n =
      load_rows ?z (ai_kv_len y seq') (as_dim s) (\<lambda>n. ai_key y seq' n kh) start_n"
    by (rule load_rows_cong [OF E(2)]) (rule E(5) [OF _ h(2)])
  have v: "load_rows ?z (ai_kv_len x seq) (as_value_dim s) (\<lambda>n. ai_value x seq n kh) start_n =
      load_rows ?z (ai_kv_len y seq') (as_value_dim s) (\<lambda>n. ai_value y seq' n kh) start_n"
    by (rule load_rows_cong [OF E(2)]) (rule E(6) [OF _ h(2)])
  have data: "bd_lse dat (ai_q_start x seq + t) head = bd_lse dat' (ai_q_start y seq' + t) head"
    "d < as_value_dim s \<Longrightarrow> bd_do dat (ai_q_start x seq + t) head d = bd_do dat' (ai_q_start y seq' + t) head d"
    "d < as_value_dim s \<Longrightarrow> bd_out dat (ai_q_start x seq + t) head d = bd_out dat' (ai_q_start y seq' + t) head d" if "t < ai_q_len y seq'" for t d
    using D h(1) that unfolding same_data_def E(1) by blast+
  have do: "load_rows ?z (ai_q_len x seq) (as_value_dim s) (\<lambda>t. bd_do dat (ai_q_start x seq + t) head) start_m =
      load_rows ?z (ai_q_len y seq') (as_value_dim s) (\<lambda>t. bd_do dat' (ai_q_start y seq' + t) head) start_m"
    by (rule load_rows_cong [OF E(1)]) (rule data(2))
  have out: "load_rows ?z (ai_q_len x seq) (as_value_dim s) (\<lambda>t. bd_out dat (ai_q_start x seq + t) head) start_m =
      load_rows ?z (ai_q_len y seq') (as_value_dim s) (\<lambda>t. bd_out dat' (ai_q_start y seq' + t) head) start_m"
    by (rule load_rows_cong [OF E(1)]) (rule data(3))
  have lse: "(if start_m + i < ai_q_len x seq then bd_lse dat (ai_q_start x seq + (start_m + i)) head else at_zero ops) =
      (if start_m + i < ai_q_len y seq' then bd_lse dat' (ai_q_start y seq' + (start_m + i)) head else at_zero ops)" for i
    using data(1) E(1) by auto
  show ?thesis unfolding bwd_block_def Let_def q k v do out lse unfolding E(1-3) ..
qed

lemma kv_head_less:
  assumes "hk dvd hq" "0 < hk" "head < hq" shows "head div (hq div hk) < (hk :: nat)"
proof -
  obtain k where k: "hq = hk * k" using assms(1) by (rule dvdE)
  then have "hq div hk = k" using assms(2) by simp
  then show ?thesis using assms(3) less_mult_imp_div_less [of head hk k] k by simp
qed

lemma gradients_same:
  assumes S: "same_sequence s x seq y seq'" and D: "same_data s x dat seq y dat' seq'" and heads: "as_kv_heads s dvd as_q_heads s" "0 < as_kv_heads s"
  shows "head < as_q_heads s \<Longrightarrow> dq_value ops bo s c x dat seq head pos d = dq_value ops bo s c y dat' seq' head pos d"
    and "kh < as_kv_heads s \<Longrightarrow> dkv_value ops bo s c (as_q_heads s div as_kv_heads s) x dat seq kh pos d =
      dkv_value ops bo s c (as_q_heads s div as_kv_heads s) y dat' seq' kh pos d"
proof -
  note E = same_sequenceD [OF S]
  show "dq_value ops bo s c x dat seq head pos d = dq_value ops bo s c y dat' seq' head pos d" if "head < as_q_heads s"
    using bwd_block_same [OF S D that kv_head_less [OF heads that]]
    unfolding dq_value_def dq_tile_def Let_def E(2) by simp
  assume kh: "kh < as_kv_heads s"
  let ?g = "as_q_heads s div as_kv_heads s"
  have "bwd_block ops bo s c x dat seq (kh * ?g + i) kh m n = bwd_block ops bo s c y dat' seq' (kh * ?g + i) kh m n" if "i < ?g" for i m n
  proof (rule bwd_block_same [OF S D _ kh])
    have "kh * ?g + i < (kh + 1) * ?g" using that by simp
    also have "\<dots> \<le> as_kv_heads s * ?g" using kh by (intro mult_le_mono1) simp
    finally show "kh * ?g + i < as_q_heads s" using heads(1) by simp
  qed
  then have "dkv_tile ops bo s c ?g x dat seq m kh = dkv_tile ops bo s c ?g y dat' seq' m kh" for m
    unfolding dkv_tile_def Let_def E(1) by (intro fold_cong refl) simp
  then show "dkv_value ops bo s c ?g x dat seq kh pos d = dkv_value ops bo s c ?g y dat' seq' kh pos d"
    unfolding dkv_value_def by simp
qed

text \<open>The forward pass gives the same sequence the same tile.\<close>

lemma tile_same:
  assumes S: "same_sequence s x seq y seq'" and heads: "as_kv_heads s dvd as_q_heads s" "0 < as_kv_heads s" "head < as_q_heads s"
  shows "attn_tile ops s c x seq m head = attn_tile ops s c y seq' m head"
proof -
  note E = same_sequenceD [OF S] and kv = kv_head_less [OF heads]
  have v: "valid_q x seq p = valid_q y seq' p" and l: "q_local x seq p = q_local y seq' p" for p
    by (simp_all add: valid_q_def q_local_def E(2,3))
  have less: "q_local y seq' p < ai_q_len y seq'" if "valid_q y seq' p" for p
    using that by (auto simp: q_local_def valid_q_def q_abs_start_def)
  have q: "load_q z s x seq head start = load_q z s y seq' head start" for z start
    using E(4) [OF less heads(3)] by (auto simp: load_q_def fun_eq_iff v l)
  have k: "load_k z s x seq (head div (as_q_heads s div as_kv_heads s)) start = load_k z s y seq' (head div (as_q_heads s div as_kv_heads s)) start" for z start
    using E(5) [OF _ kv] by (auto simp: load_k_def fun_eq_iff E(2))
  have w: "load_v z s x seq (head div (as_q_heads s div as_kv_heads s)) start = load_v z s y seq' (head div (as_q_heads s div as_kv_heads s)) start" for z start
    using E(6) [OF _ kv] by (auto simp: load_v_def fun_eq_iff E(2))
  show ?thesis unfolding attn_tile_def Let_def q k w ..
qed

definition lse_value :: "('f, 'a) attn_ops \<Rightarrow> attn_shape \<Rightarrow> 'a \<Rightarrow> 'f attn_input \<Rightarrow> nat \<Rightarrow> nat \<Rightarrow> nat \<Rightarrow> 'a" where
  "lse_value ops s softmax_scale x seq head pos =
     (let (m, l, acc) = attn_tile ops s softmax_scale x seq (pos div as_block_m s) head; r = pos mod as_block_m s
      in at_mul ops (at_add ops (m r) (at_log2 ops (l r))) (at_ln2 ops))"

text \<open>A sequence given whole: every key has its query.\<close>

lemma whole_places:
  assumes "ai_q_len x seq = ai_kv_len x seq"
  shows "valid_q x seq pos \<longleftrightarrow> pos < ai_kv_len x seq" "pos < ai_kv_len x seq \<Longrightarrow> q_local x seq pos = pos"
  using assms by (simp_all add: valid_q_def q_local_def q_abs_start_def)

lemma lse_stores:
  assumes "0 < as_block_m s" "ai_q_len x seq = ai_kv_len x seq"
  shows "set (snd (attn_program ops s c x (seq, m, head))) =
    {(int (((ai_q_start x seq + pos) * as_q_heads s + head) * 1 + d), lse_value ops s c x seq head pos) | pos d.
       pos div as_block_m s = m \<and> pos < ai_kv_len x seq \<and> d < 1}"
proof (cases "attn_skip s x seq m")
  case True
  have "ai_kv_len x seq \<le> m * as_block_m s"
  proof -
    have "0 < (m + 1) * as_block_m s" "q_abs_start x seq = 0" using assms by (simp_all add: q_abs_start_def)
    with True show ?thesis unfolding attn_skip_def by linarith
  qed
  then have "\<not> pos < ai_kv_len x seq" if "pos div as_block_m s = m" for pos
    using div_times_less_eq_dividend [of pos "as_block_m s", unfolded that] by linarith
  with True show ?thesis by (auto simp: attn_program_def)
next
  case False
  obtain mx l acc where t: "attn_tile ops s c x seq m head = (mx, l, acc)" by (metis surj_pair)
  let ?f = "\<lambda>i. at_mul ops (at_add ops (mx i) (at_log2 ops (l i))) (at_ln2 ops)" and ?bm = "as_block_m s"
  have "snd (attn_program ops s c x (seq, m, head)) = concat (map (\<lambda>i. concat (map (\<lambda>d. if m * ?bm + i < ai_kv_len x seq \<and> d < 1
      then [(int (((ai_q_start x seq + (m * ?bm + i)) * as_q_heads s + head) * 1 + d), ?f i)] else []) [0..<1])) [0..<?bm])"
    using False by (auto simp: attn_program_def Let_def t whole_places [OF assms(2)] intro!: arg_cong [of _ _ concat])
  then have "set (snd (attn_program ops s c x (seq, m, head))) =
      {(int (((ai_q_start x seq + pos) * as_q_heads s + head) * 1 + d), ?f (pos mod ?bm)) | pos d. pos div ?bm = m \<and> pos < ai_kv_len x seq \<and> d < 1}"
    using rows_stored [OF assms(1), of 1 1 m "ai_kv_len x seq" "ai_q_start x seq" "as_q_heads s" head "\<lambda>i d. ?f i"] by simp
  also have "\<dots> = {(int (((ai_q_start x seq + pos) * as_q_heads s + head) * 1 + d), lse_value ops s c x seq head pos) | pos d.
       pos div ?bm = m \<and> pos < ai_kv_len x seq \<and> d < 1}"
  proof (intro Collect_cong ex_cong1)
    fix w pos d
    show "(w = (int (((ai_q_start x seq + pos) * as_q_heads s + head) * 1 + d), ?f (pos mod ?bm)) \<and> pos div ?bm = m \<and> pos < ai_kv_len x seq \<and> d < 1) =
        (w = (int (((ai_q_start x seq + pos) * as_q_heads s + head) * 1 + d), lse_value ops s c x seq head pos) \<and> pos div ?bm = m \<and> pos < ai_kv_len x seq \<and> d < 1)"
      by (cases "pos div ?bm = m") (simp_all add: lse_value_def t Let_def)
  qed
  finally show ?thesis .
qed

section \<open>A training step\<close>

text \<open>Autograd runs the forward pass, then the backward pass on what it has saved.\<close>

definition train_attention ::
    "('f, 'a) attn_ops \<Rightarrow> ('f, 'a) bwd_ops \<Rightarrow> schedule3 \<Rightarrow> 'a memory \<Rightarrow> (nat \<Rightarrow> 'f memory) \<Rightarrow> 'a \<Rightarrow> 'f float_arg \<Rightarrow> 'f float_arg \<Rightarrow> 'f float_arg
       \<Rightarrow> nat list tensor_arg \<Rightarrow> bool \<Rightarrow> nat \<Rightarrow> 'f float_arg \<Rightarrow> ('f memory \<times> 'f memory \<times> 'f memory) res" where
  "train_attention ops bo schedule fresh_lse fresh softmax_scale q k v cu causal longest grad =
     rbind (nonpaged_forward ops schedule fresh_lse softmax_scale q k v cu cu causal longest longest) (\<lambda>(out, sv).
     nonpaged_backward ops bo schedule fresh q k v cu cu sv grad)"

definition same_tokens :: "nat \<Rightarrow> nat \<Rightarrow> 'f float_arg \<Rightarrow> nat \<Rightarrow> 'f float_arg \<Rightarrow> nat \<Rightarrow> nat \<Rightarrow> bool" where
  "same_tokens heads w t a t' b n \<longleftrightarrow> (\<forall>i<n. \<forall>h<heads. \<forall>d<w. access3 t (a + i) h d = access3 t' (b + i) h d)"

abbreviation packed_heads :: "nat \<Rightarrow> nat \<Rightarrow> nat \<Rightarrow> nat \<Rightarrow> 'f float_arg \<Rightarrow> 'f float_arg \<Rightarrow> 'f float_arg \<Rightarrow> bool" where
  "packed_heads hq hk dk dv q k v \<equiv> \<exists>n. ta_shape q = [n, hq, dk] \<and> ta_shape k = [n, hk, dk] \<and> ta_shape v = [n, hk, dv]"

lemma forward_saves:
  assumes sched: "\<forall>n t h. set (schedule n t h) = {..<n} \<times> {..<t} \<times> {..<h}" and sh: "packed_heads hq hk dk dv q k v"
    and run: "nonpaged_forward ops schedule fresh_lse c q k v cu cu causal longest longest = Ok (out, sv)"
    and cu: "sorted (ta_data cu)" "Suc j < length (ta_data cu)" "t < ta_data cu ! Suc j - ta_data cu ! j" "t < longest"
  defines "s \<equiv> forward_shape q v hk True" and "x \<equiv> packed_input (access3 q) (access3 k) (access3 v) (ta_data cu) (ta_data cu)"
  shows "h < hq \<Longrightarrow> d < dv \<Longrightarrow> sa_out sv (out_addr s (ta_data cu ! j + t) h d) = tile_value ops s c x j h t d"
    and "h < hq \<Longrightarrow> sa_lse sv (int ((ta_data cu ! j + t) * hq + h)) = lse_value ops s c x j h t"
    and "sa_scale sv = c" "sa_causal sv" "sa_max_q sv = longest" "sa_max_k sv = longest"
proof -
  let ?ord = "schedule (length (ta_data cu) - 1) (cdiv longest (as_block_m s)) hq"
  note ok = all_checks_ok [OF run [unfolded nonpaged_forward_def]]
  have causal using ok [THEN conjunct2] by simp
  have sv: "sv = \<lparr>sa_out = attn_launch ops s c x ?ord (\<lambda>_. op_zero (at_gemm ops)), sa_lse = attn_lse ops s c x ?ord fresh_lse,
      sa_scale = c, sa_causal = True, sa_max_q = longest, sa_max_k = longest\<rparr>"
    using ok [THEN conjunct1] \<open>causal\<close> sh unfolding s_def x_def by (auto simp: Let_def)
  then show "sa_scale sv = c" "sa_causal sv" "sa_max_q sv = longest" "sa_max_k sv = longest" by simp_all
  have S: "0 < as_block_m s" "as_value_dim s \<le> as_block_d s" "as_q_heads s = hq" "as_value_dim s = dv"
    using sh next_power_of_2_ge [of "max (last_dim q) (last_dim v)"] by (auto simp: s_def forward_shape_def Let_def block_d_of_def)
  note P = packed_places [OF cu(1,2), of "access3 q" "access3 k" "access3 v", folded x_def]
  have len: "ai_q_len x j = ai_kv_len x j" "ai_kv_len x j = ta_data cu ! Suc j - ta_data cu ! j" "ai_q_start x a = ta_data cu ! a" for a
    by (simp_all add: x_def packed_input_def)
  have va: "valid_q x j t" using P(1) cu(3) by simp
  have tiles: "t < cdiv longest (as_block_m s) * as_block_m s" using cdiv_covers [OF S(1), of longest] cu(4) by linarith
  have ord: "set ?ord = {..<length (ta_data cu) - 1} \<times> {..<cdiv longest (as_block_m s)} \<times> {..<as_q_heads s}" using sched unfolding S(3) by blast
  have j: "j < length (ta_data cu) - 1" using cu(2) by simp
  have sq: "sequences_ok x (length (ta_data cu) - 1)" unfolding x_def by (rule packed_sequences_ok [OF cu(1)])
  show "sa_out sv (out_addr s (ta_data cu ! j + t) h d) = tile_value ops s c x j h t d" if h: "h < hq" and "d < dv"
    using attn_launch_cell [OF S(1,2) ord sq j _ va tiles, of h d] h that(2) P(2) [OF va] by (simp add: sv S)
  assume h: "h < hq"
  have "attn_lse ops s c x ?ord fresh_lse (int (((ai_q_start x j + t) * as_q_heads s + h) * 1 + 0)) = lse_value ops s c x j h t"
    unfolding attn_lse_def
  proof (rule launch_cells [where prog = "\<lambda>pids. snd (attn_program ops s c x pids)" and start = "ai_q_start x" and len = "ai_kv_len x" and
      val = "\<lambda>a h pos d. lse_value ops s c x a h pos" and a = j and pos = t and W = 1 and d = 0 and h = h, OF ord S(1)])
    have "ai_q_len x a = ai_kv_len x a" for a by (simp add: x_def packed_input_def)
    then show "set (snd (attn_program ops s c x (a, m, h))) =
        {(int (((ai_q_start x a + pos) * as_q_heads s + h) * 1 + d), lse_value ops s c x a h pos) |pos d. pos div as_block_m s = m \<and> pos < ai_kv_len x a \<and> d < 1}" for a m h
      by (rule lse_stores [OF S(1)])
    show "ai_q_start x a + ai_kv_len x a \<le> ai_q_start x b" if "a < b" "b < length (ta_data cu) - 1" for a b
      using sq that by (auto simp: sequences_ok_def x_def packed_input_def)
  qed (use j cu(3) len tiles h S(3) in simp_all)
  then show "sa_lse sv (int ((ta_data cu ! j + t) * hq + h)) = lse_value ops s c x j h t" by (simp add: sv len S(3))
qed

lemma train_values:
  fixes fresh :: "nat \<Rightarrow> 'f memory" and fresh_lse :: "'a memory"
  assumes sched: "\<forall>n t h. set (schedule n t h) = {..<n} \<times> {..<t} \<times> {..<h}" and sh: "packed_heads hq hk dk dv q k v"
    and run: "nonpaged_backward ops bo schedule fresh q k v cu cu sv grad = Ok (gq, gk, gv)"
    and sv: "sa_scale sv = c" "sa_max_q sv = longest" "sa_max_k sv = longest"
    and cu: "sorted (ta_data cu)" "Suc j < length (ta_data cu)" "t < ta_data cu ! Suc j - ta_data cu ! j" "t < longest"
  defines "s \<equiv> backward_shape q v hk" and "x \<equiv> packed_input (access3 q) (access3 k) (access3 v) (ta_data cu) (ta_data cu)"
  shows "h < hq \<Longrightarrow> d < dk \<Longrightarrow> gq (int (((ta_data cu ! j + t) * hq + h) * dk + d)) = dq_value ops bo s c x (saved_data s sv grad) j h t d"
    and "h < hk \<Longrightarrow> d < dk \<Longrightarrow> gk (int (((ta_data cu ! j + t) * hk + h) * dk + d)) = fst (dkv_value ops bo s c (hq div hk) x (saved_data s sv grad) j h t d)"
    and "h < hk \<Longrightarrow> d < dv \<Longrightarrow> gv (int (((ta_data cu ! j + t) * hk + h) * dv + d)) = snd (dkv_value ops bo s c (hq div hk) x (saved_data s sv grad) j h t d)"
proof -
  have S: "0 < as_block_m s" "0 < as_block_n s" "as_dim s \<le> as_block_d s" "as_value_dim s \<le> as_block_d s"
    "as_q_heads s = hq" "as_kv_heads s = hk" "as_dim s = dk" "as_value_dim s = dv"
    using sh next_power_of_2_ge [of "max (last_dim q) (last_dim v)"] by (auto simp: s_def backward_shape_def Let_def block_d_of_def)
  let ?n = "length (ta_data cu) - 1" and ?dat = "saved_data s sv grad" and ?start = "\<lambda>a. ta_data cu ! a"
  let ?oq = "schedule ?n (cdiv longest (as_block_m s)) hq" and ?ok = "schedule ?n (cdiv longest (as_block_n s)) hk"
  have x: "ai_q_start x a = ?start a" "ai_q_len x a = ai_kv_len x a" "ai_kv_len x a = ta_data cu ! Suc a - ta_data cu ! a" for a
    by (simp_all add: x_def packed_input_def)
  have g: "gq = apply_stores (concat (map (dq_program ops bo s c x ?dat) ?oq)) (fresh 0)"
    "gk = apply_stores (concat (map (\<lambda>pids. fst (dkv_program ops bo s c (hq div hk) ?start x ?dat pids)) ?ok)) (fresh 1)"
    "gv = apply_stores (concat (map (\<lambda>pids. snd (dkv_program ops bo s c (hq div hk) ?start x ?dat pids)) ?ok)) (fresh 2)"
    using run sh unfolding nonpaged_backward_def s_def x_def by (auto simp: Let_def sv split: if_splits)
  have ord: "set ?oq = {..<?n} \<times> {..<cdiv longest (as_block_m s)} \<times> {..<hq}" "set ?ok = {..<?n} \<times> {..<cdiv longest (as_block_n s)} \<times> {..<hk}"
    using sched by blast+
  have tiles: "t < cdiv longest (as_block_m s) * as_block_m s" "t < cdiv longest (as_block_n s) * as_block_n s"
    using cdiv_covers [OF S(1), of longest] cdiv_covers [OF S(2), of longest] cu(4) by linarith+
  have apart: "?start a + ai_kv_len x a \<le> ?start b" if "a < b" "b < ?n" for a b
    using packed_sequences_ok [OF cu(1), of "access3 q" "access3 k" "access3 v"] that by (auto simp: sequences_ok_def x_def packed_input_def)
  have j: "j < ?n" and t: "t < ai_kv_len x j" using cu(2,3) by (simp_all add: x)
  show "gq (int (((?start j + t) * hq + h) * dk + d)) = dq_value ops bo s c x ?dat j h t d" if "h < hq" "d < dk"
    unfolding g(1)
    by (rule launch_cells [where prog = "dq_program ops bo s c x ?dat" and start = ?start and len = "ai_kv_len x" and val = "dq_value ops bo s c x ?dat"
          and W = dk, OF ord(1) S(1) _ apart j t tiles(1) that])
      (simp only: dq_stores [OF S(1,3)] S(5,7) x(1,2))
  show "gk (int (((?start j + t) * hk + h) * dk + d)) = fst (dkv_value ops bo s c (hq div hk) x ?dat j h t d)" if "h < hk" "d < dk"
    unfolding g(2)
    by (rule launch_cells [where prog = "\<lambda>pids. fst (dkv_program ops bo s c (hq div hk) ?start x ?dat pids)" and start = ?start and len = "ai_kv_len x"
          and val = "\<lambda>a h pos d. fst (dkv_value ops bo s c (hq div hk) x ?dat a h pos d)" and W = dk, OF ord(2) S(2) _ apart j t tiles(2) that])
      (simp only: dkv_stores(1) [OF S(2-4)] S(6,7))
  show "gv (int (((?start j + t) * hk + h) * dv + d)) = snd (dkv_value ops bo s c (hq div hk) x ?dat j h t d)" if "h < hk" "d < dv"
    unfolding g(3)
    by (rule launch_cells [where prog = "\<lambda>pids. snd (dkv_program ops bo s c (hq div hk) ?start x ?dat pids)" and start = ?start and len = "ai_kv_len x"
          and val = "\<lambda>a h pos d. snd (dkv_value ops bo s c (hq div hk) x ?dat a h pos d)" and W = dv, OF ord(2) S(2) _ apart j t tiles(2) that])
      (simp only: dkv_stores(2) [OF S(2-4)] S(6,8))
qed

text \<open>
  C12. Training gradients ignore the batch. Take a sequence in two packed batches, beside any other
  sequences and at any place: where its queries, keys, values and the gradient of its output are the same
  row for row, a forward pass followed by the backward pass on what it saved gives the same gradients of
  its queries, keys and values, value for value, in any order of the kernels' programs and whatever the
  memory held before. No law of arithmetic is needed.
\<close>

theorem gradients_ignore_the_batch:
  assumes sched: "\<forall>n t h. set (schedule1 n t h) = {..<n} \<times> {..<t} \<times> {..<h}" "\<forall>n t h. set (schedule2 n t h) = {..<n} \<times> {..<t} \<times> {..<h}"
    and heads: "packed_heads hq hk dk dv q k v" "packed_heads hq hk dk dv q' k' v'" "hk dvd hq" "0 < hk"
    and run: "train_attention ops bo schedule1 fresh_lse fresh c q k v cu causal longest grad = Ok (gq, gk, gv)"
      "train_attention ops bo schedule2 fresh_lse' fresh' c q' k' v' cu' causal' longest' grad' = Ok (gq', gk', gv')"
    and cu: "sorted (ta_data cu)" "Suc i < length (ta_data cu)" "ta_data cu ! Suc i - ta_data cu ! i = n" "n \<le> longest"
    and cu': "sorted (ta_data cu')" "Suc j < length (ta_data cu')" "ta_data cu' ! Suc j - ta_data cu' ! j = n" "n \<le> longest'"
    and same: "same_tokens hq dk q (ta_data cu ! i) q' (ta_data cu' ! j) n" "same_tokens hk dk k (ta_data cu ! i) k' (ta_data cu' ! j) n"
      "same_tokens hk dv v (ta_data cu ! i) v' (ta_data cu' ! j) n" "same_tokens hq dv grad (ta_data cu ! i) grad' (ta_data cu' ! j) n"
    and t: "t < n"
  shows "(\<forall>h d. h < hq \<and> d < dk \<longrightarrow> gq (int (((ta_data cu ! i + t) * hq + h) * dk + d)) = gq' (int (((ta_data cu' ! j + t) * hq + h) * dk + d))) \<and>
    (\<forall>h d. h < hk \<and> d < dk \<longrightarrow> gk (int (((ta_data cu ! i + t) * hk + h) * dk + d)) = gk' (int (((ta_data cu' ! j + t) * hk + h) * dk + d))) \<and>
    (\<forall>h d. h < hk \<and> d < dv \<longrightarrow> gv (int (((ta_data cu ! i + t) * hk + h) * dv + d)) = gv' (int (((ta_data cu' ! j + t) * hk + h) * dv + d)))"
proof -
  obtain out sv where f: "nonpaged_forward ops schedule1 fresh_lse c q k v cu cu causal longest longest = Ok (out, sv)"
    and b: "nonpaged_backward ops bo schedule1 fresh q k v cu cu sv grad = Ok (gq, gk, gv)"
    using run(1) unfolding train_attention_def by (cases "nonpaged_forward ops schedule1 fresh_lse c q k v cu cu causal longest longest") auto
  obtain out' sv' where f': "nonpaged_forward ops schedule2 fresh_lse' c q' k' v' cu' cu' causal' longest' longest' = Ok (out', sv')"
    and b': "nonpaged_backward ops bo schedule2 fresh' q' k' v' cu' cu' sv' grad' = Ok (gq', gk', gv')"
    using run(2) unfolding train_attention_def by (cases "nonpaged_forward ops schedule2 fresh_lse' c q' k' v' cu' cu' causal' longest' longest'") auto
  let ?s = "backward_shape q v hk" and ?fs = "forward_shape q v hk True"
  let ?x = "packed_input (access3 q) (access3 k) (access3 v) (ta_data cu) (ta_data cu)"
  let ?y = "packed_input (access3 q') (access3 k') (access3 v') (ta_data cu') (ta_data cu')"
  have shapes: "backward_shape q' v' hk = ?s" "forward_shape q' v' hk True = ?fs"
    using heads(1,2) by (auto simp: backward_shape_def forward_shape_def block_d_of_def)
  have S: "as_q_heads ?s = hq" "as_kv_heads ?s = hk" "as_dim ?s = dk" "as_value_dim ?s = dv" "as_q_heads ?fs = hq" "as_kv_heads ?fs = hk" "as_dim ?fs = dk" "as_value_dim ?fs = dv"
    using heads(1) by (auto simp: backward_shape_def forward_shape_def Let_def)
  have seq: "same_sequence s ?x i ?y j" if "as_q_heads s = hq" "as_kv_heads s = hk" "as_dim s = dk" "as_value_dim s = dv" for s
    using same cu(3) cu'(3) that by (simp add: same_sequence_def packed_input_def same_tokens_def)
  have saved: "h < hq \<Longrightarrow> d < dv \<Longrightarrow> sa_out sv (out_addr ?s (ta_data cu ! i + t) h d) = sa_out sv' (out_addr ?s (ta_data cu' ! j + t) h d)"
    "h < hq \<Longrightarrow> sa_lse sv (int ((ta_data cu ! i + t) * hq + h)) = sa_lse sv' (int ((ta_data cu' ! j + t) * hq + h))"
    "sa_scale sv = c" "sa_max_q sv = longest" "sa_max_k sv = longest" "sa_scale sv' = c" "sa_max_q sv' = longest'" "sa_max_k sv' = longest'"
    if "t < n" for t h d
  proof -
    have tl: "t < longest" "t < longest'" using that cu(4) cu'(4) by linarith+
    note F = forward_saves [OF sched(1) heads(1) f cu(1,2) that [folded cu(3)] tl(1)]
    note F' = forward_saves [OF sched(2) heads(2) f' cu'(1,2) that [folded cu'(3)] tl(2), unfolded shapes]
    have tile: "attn_tile ops ?fs c ?x i m h = attn_tile ops ?fs c ?y j m h" if "h < hq" for m
      using tile_same [OF seq [OF S(5-8)]] heads(3,4) that S(5,6) by simp
    have addr: "out_addr ?s a h d = out_addr ?fs a h d" for a by (simp add: out_addr_def S)
    show "sa_out sv (out_addr ?s (ta_data cu ! i + t) h d) = sa_out sv' (out_addr ?s (ta_data cu' ! j + t) h d)" if "h < hq" "d < dv"
      unfolding addr F(1) [OF that] F'(1) [OF that] tile_value_def tile [OF that(1)] ..
    show "sa_lse sv (int ((ta_data cu ! i + t) * hq + h)) = sa_lse sv' (int ((ta_data cu' ! j + t) * hq + h))" if "h < hq"
      unfolding F(2) [OF that] F'(2) [OF that] lse_value_def tile [OF that] ..
    show "sa_scale sv = c" "sa_max_q sv = longest" "sa_max_k sv = longest" "sa_scale sv' = c" "sa_max_q sv' = longest'" "sa_max_k sv' = longest'"
      by (rule F F')+
  qed
  have data: "same_data ?s ?x (saved_data ?s sv grad) i ?y (saved_data ?s sv' grad') j"
    unfolding same_data_def saved_data_def using same(4) cu(3) saved(1,2)
    by (auto simp: packed_input_def same_tokens_def S)
  have tl: "t < longest" "t < longest'" using t cu(4) cu'(4) by linarith+
  note T = train_values [OF sched(1) heads(1) b saved(3-5) [OF t] cu(1,2) t [folded cu(3)] tl(1)]
  note T' = train_values [OF sched(2) heads(2) b' saved(6-8) [OF t] cu'(1,2) t [folded cu'(3)] tl(2), unfolded shapes]
  have G: "h < hq \<Longrightarrow> dq_value ops bo ?s c ?x (saved_data ?s sv grad) i h t d = dq_value ops bo ?s c ?y (saved_data ?s sv' grad') j h t d"
    "h < hk \<Longrightarrow> dkv_value ops bo ?s c (hq div hk) ?x (saved_data ?s sv grad) i h t d = dkv_value ops bo ?s c (hq div hk) ?y (saved_data ?s sv' grad') j h t d"
    for h d using gradients_same [OF seq [OF S(1-4)] data] heads(3,4) unfolding S(1,2) by blast+
  show ?thesis using T T' G by simp
qed

text \<open>A sequence of two tokens alone, and behind another sequence of one token.\<close>

definition ex_bwd :: "(int, int) bwd_ops" where
  "ex_bwd = \<lparr>bw_exp = (\<lambda>z. if z < -100 then 0 else 2 ^ nat (z + 100)), bw_wide = id, bw_sum = sum_list\<rparr>"

definition ex_alone :: "int float_arg" where
  "ex_alone = floats [2, 1, 1] (\<lambda>ix. int (ix ! 0) + 1)"

definition ex_beside :: "int float_arg" where
  "ex_beside = floats [3, 1, 1] (\<lambda>ix. if ix ! 0 = 0 then 9 else int (ix ! 0))"

lemma ex_train:
  "\<exists>g. train_attention int_attn ex_bwd ex_schedule (\<lambda>_. 0) (\<lambda>_ _. 0) 1 ex_alone ex_alone ex_alone (vector [0, 2]) True 2 ex_alone = Ok g"
  "\<exists>g. train_attention int_attn ex_bwd ex_schedule (\<lambda>_. 5) (\<lambda>_ _. 7) 1 ex_beside ex_beside ex_beside (vector [0, 1, 3]) True 2 ex_beside = Ok g"
  by (simp_all add: train_attention_def ex_alone_def ex_beside_def nonpaged_forward_def nonpaged_backward_def needed_def
      floats_def vector_def require_cuda_def require_cuda_int32_def check_def check_divides_def block_d_of_def next_power_of_2_def Let_def)

lemma gradients_ignore_the_batch_witness:
  "\<exists>gq gk gv gq' gk' gv'.
    train_attention int_attn ex_bwd ex_schedule (\<lambda>_. 0) (\<lambda>_ _. 0) 1 ex_alone ex_alone ex_alone (vector [0, 2]) True 2 ex_alone = Ok (gq, gk, gv) \<and>
    train_attention int_attn ex_bwd ex_schedule (\<lambda>_. 5) (\<lambda>_ _. 7) 1 ex_beside ex_beside ex_beside (vector [0, 1, 3]) True 2 ex_beside = Ok (gq', gk', gv') \<and>
    gq 1 = gq' 2 \<and> gk 1 = gk' 2 \<and> gv 1 = gv' 2"
proof -
  obtain gq gk gv where a: "train_attention int_attn ex_bwd ex_schedule (\<lambda>_. 0) (\<lambda>_ _. 0) 1 ex_alone ex_alone ex_alone (vector [0, 2]) True 2 ex_alone = Ok (gq, gk, gv)"
    using ex_train(1) by (metis prod_cases3)
  obtain gq' gk' gv' where b: "train_attention int_attn ex_bwd ex_schedule (\<lambda>_. 5) (\<lambda>_ _. 7) 1 ex_beside ex_beside ex_beside (vector [0, 1, 3]) True 2 ex_beside = Ok (gq', gk', gv')"
    using ex_train(2) by (metis prod_cases3)
  have heads: "packed_heads 1 1 1 1 ex_alone ex_alone ex_alone" "packed_heads 1 1 1 1 ex_beside ex_beside ex_beside"
    by (simp_all add: ex_alone_def ex_beside_def floats_def)
  have same: "same_tokens 1 1 ex_alone (ta_data (vector [0, 2]) ! 0) ex_beside (ta_data (vector [0, 1, 3]) ! 1) 2"
    by (simp add: same_tokens_def ex_alone_def ex_beside_def floats_def vector_def)
  show ?thesis
    using gradients_ignore_the_batch [OF ex_schedule_ok ex_schedule_ok heads _ _ a b _ _ _ _ _ _ _ _ same same same same, of 1] a b
    by (simp add: vector_def)
qed

end
