(* ===== verification/Attention_Module.thy ===== *)
theory Attention_Module
  imports Attention_Calls Gen_Ctx
begin

text \<open>
  The attention function of a module, \<open>flash_attention_forward\<close> of
  \<open>src/vexact/batch_invariant_ops/triton_invariant_attention.py\<close>: without a cache context (the trainer), with a
  paged one (generation: store the new keys and values, attend over the pages) and with a packed one.
\<close>

section \<open>Tensors in row-major order\<close>

definition flat_ix :: "nat list \<Rightarrow> nat list \<Rightarrow> nat" where
  "flat_ix shp ix = fold (\<lambda>(n, i) acc. acc * n + i) (zip shp ix) 0"

fun unflat :: "nat list \<Rightarrow> nat \<Rightarrow> nat list" where
  "unflat [] a = []"
| "unflat (n # ns) a = (a div prod_list ns) # unflat ns (a mod prod_list ns)"

text \<open>\<open>x.transpose(1, 2).contiguous()\<close> and \<open>x.reshape(-1, h, d)\<close>.\<close>

definition transpose12 :: "'f float_arg \<Rightarrow> 'f float_arg res" where
  "transpose12 t = (if length (ta_shape t) < 3 then Raise IndexError
     else let swap = (\<lambda>xs. xs[1 := xs ! 2, 2 := xs ! 1])
          in Ok (t\<lparr>ta_shape := swap (ta_shape t), ta_data := (\<lambda>ix. ta_data t (swap ix))\<rparr>))"

definition reshape_rows :: "nat \<Rightarrow> nat \<Rightarrow> 'f float_arg \<Rightarrow> 'f float_arg res" where
  "reshape_rows h d t =
     (let n = prod_list (ta_shape t)
      in if h * d = 0 \<or> n mod (h * d) \<noteq> 0 then Raise RuntimeError
         else let shp = [n div (h * d), h, d]
              in Ok (t\<lparr>ta_shape := shp, ta_data := (\<lambda>ix. ta_data t (unflat (ta_shape t) (flat_ix shp ix)))\<rparr>))"

text \<open>A contiguous tensor as memory, and the rows of a contiguous three-dimensional one.\<close>

definition tensor_mem :: "'f float_arg \<Rightarrow> 'f memory" where
  "tensor_mem t a = ta_data t (unflat (ta_shape t) (nat a))"

definition with_mem :: "'f float_arg \<Rightarrow> 'f memory \<Rightarrow> 'f float_arg" where
  "with_mem t mem = t\<lparr>ta_data := (\<lambda>ix. mem (int (flat_ix (ta_shape t) ix)))\<rparr>"

definition rows_of :: "'f float_arg \<Rightarrow> 'f row_tensor" where
  "rows_of t = \<lparr>rt_data = tensor_mem t, rt_rows = dim t 0, rt_num_heads = dim t 1, rt_head_dim = dim t 2,
     rt_stride0 = int (dim t 1 * dim t 2), rt_stride1 = int (dim t 2), rt_stride_last = 1\<rparr>"

section \<open>Arguments of the module function\<close>

text \<open>Keyword arguments: the value of the first key that is there, which may itself be \<open>None\<close>.\<close>

record call_keywords =
  kw_numbers :: "string \<Rightarrow> nat py_arg option option"
  kw_tensors :: "string \<Rightarrow> nat list tensor_arg option option"
  kw_causal :: "bool option"

record attn_module =
  am_layer_idx :: "nat option"
  am_is_causal :: "bool option"

fun first_of :: "(string \<Rightarrow> 'b option option) \<Rightarrow> string list \<Rightarrow> 'b option" where
  "first_of m [] = None"
| "first_of m (k # ks) = (case m k of Some v \<Rightarrow> v | None \<Rightarrow> first_of m ks)"

definition layer_index :: "attn_module \<Rightarrow> call_keywords \<Rightarrow> nat res" where
  "layer_index md kw =
     (case (case kw_numbers kw ''layer_idx'' of
              Some v \<Rightarrow> v | None \<Rightarrow> Some (PyNumber (case am_layer_idx md of Some n \<Rightarrow> n | None \<Rightarrow> 0))) of
        None \<Rightarrow> Raise TypeError | Some v \<Rightarrow> as_python_int v)"

definition module_args ::
    "'f float_arg \<Rightarrow> 'f float_arg \<Rightarrow> 'f float_arg \<Rightarrow> nat list tensor_arg option \<Rightarrow> nat list tensor_arg option
       \<Rightarrow> nat py_arg option \<Rightarrow> nat py_arg option \<Rightarrow> bool \<Rightarrow> 'a py_arg option \<Rightarrow> bool \<Rightarrow> ('f, 'a) attn_args" where
  "module_args q k v cu_q cu_k max_q max_k no_dropout scaling causal =
     \<lparr>aa_q = q, aa_k = k, aa_v = v, aa_cu_q = cu_q, aa_cu_k = cu_k, aa_max_q = max_q, aa_max_k = max_k,
      aa_dropout_zero = no_dropout, aa_scale = scaling, aa_causal = causal, aa_window = None, aa_softcap = False,
      aa_block_table = None, aa_page_table = None, aa_seqused = None, aa_cache_seqlens = None\<rparr>"

text \<open>Tensors of a cache context live on the device \<open>dev\<close>, as 32-bit integers.\<close>

definition ctx_vector :: "nat \<Rightarrow> int list \<Rightarrow> nat list tensor_arg" where
  "ctx_vector dev xs = \<lparr>ta_shape = [length xs], ta_cuda = True, ta_int32 = True, ta_device = dev, ta_data = map nat xs\<rparr>"

definition ctx_table :: "nat \<Rightarrow> int list list \<Rightarrow> int list list tensor_arg" where
  "ctx_table dev xs = \<lparr>ta_shape = [length xs, length (hd xs)], ta_cuda = True, ta_int32 = True, ta_device = dev, ta_data = xs\<rparr>"

type_synonym 'f caches = "'f float_arg list kv_context"
type_synonym 'f attn_fn_result = "(nat list \<times> 'f memory) \<times> 'f caches option"

text \<open>The trainer's call: lengths and offsets come with the keywords.\<close>

definition cu_keys :: "string \<Rightarrow> string list" where
  "cu_keys x = [''cu_seq_lens_'' @ x, ''cu_seqlens_'' @ x, ''cu_seq_lens'', ''cu_seqlens'']"

definition max_keys :: "string \<Rightarrow> string list" where
  "max_keys x = [''max_length_'' @ x, ''max_seqlen_'' @ x, ''max_seqlen'']"

definition attend_unpaged ::
    "(('f, 'a) attn_args \<Rightarrow> 'f memory res) \<Rightarrow> attn_module \<Rightarrow> call_keywords \<Rightarrow> 'f float_arg \<Rightarrow> 'f float_arg option \<Rightarrow> 'f float_arg option
       \<Rightarrow> 'a py_arg option \<Rightarrow> bool \<Rightarrow> (nat list \<times> 'f memory) res" where
  "attend_unpaged attend md kw query key val scaling no_dropout =
     (case (key, val) of
        (Some k, Some v) \<Rightarrow>
          (let cu_q = first_of (kw_tensors kw) (cu_keys ''q''); cu_k = first_of (kw_tensors kw) (cu_keys ''k'');
               max_q = first_of (kw_numbers kw) (max_keys ''q''); max_k = first_of (kw_numbers kw) (max_keys ''k'');
               causal = (case kw_causal kw of Some c \<Rightarrow> c | None \<Rightarrow> (case am_is_causal md of Some c \<Rightarrow> c | None \<Rightarrow> True))
           in if cu_q = None \<or> cu_k = None \<or> max_q = None \<or> max_k = None then Raise ValueError
              else rbind (reshape_rows (dim query 2) (dim query 3) query) (\<lambda>q'.
                   rbind (reshape_rows (dim k 2) (last_dim k) k) (\<lambda>k'.
                   rbind (reshape_rows (dim v 2) (last_dim v) v) (\<lambda>v'.
                   rbind (attend (module_args q' k' v' cu_q cu_k max_q max_k no_dropout scaling causal)) (\<lambda>out.
                   if dim query 0 * dim query 1 * dim query 2 = 0 then Raise RuntimeError
                   else Ok ([dim query 0, dim query 1, dim query 2, last_dim v'], out))))))
      | _ \<Rightarrow> Raise ValueError)"

text \<open>Generation: the new rows go to their slots, then the queries read the pages.\<close>

definition store_rows ::
    "'f float_arg list \<Rightarrow> 'f float_arg list \<Rightarrow> nat \<Rightarrow> int list option \<Rightarrow> 'f float_arg \<Rightarrow> 'f float_arg
       \<Rightarrow> ('f float_arg list \<times> 'f float_arg list) res" where
  "store_rows kcs vcs layer slots k v =
     (case slots of None \<Rightarrow> Raise AttributeError
      | Some sl \<Rightarrow> rbind (store_kvcache next_power_of_2 (rows_of k) (rows_of v)
             (int (dim (kcs ! layer) 2 * dim (kcs ! layer) 3)) (int (dim (vcs ! layer) 2 * dim (vcs ! layer) 3)) sl
             (tensor_mem (kcs ! layer)) (tensor_mem (vcs ! layer))) (\<lambda>(km, vm).
          Ok (kcs[layer := with_mem (kcs ! layer) km], vcs[layer := with_mem (vcs ! layer) vm])))"

definition attend_paged ::
    "(('f, 'a) attn_args \<Rightarrow> 'f memory res) \<Rightarrow> nat \<Rightarrow> nat \<Rightarrow> 'f caches \<Rightarrow> 'f float_arg \<Rightarrow> 'f float_arg option \<Rightarrow> 'f float_arg option
       \<Rightarrow> 'a py_arg option \<Rightarrow> bool \<Rightarrow> 'f attn_fn_result res" where
  "attend_paged attend dev layer c query key val scaling no_dropout =
     (case (key_cache c, value_cache c) of
        (Some kcs, Some vcs) \<Rightarrow>
         (if length kcs \<le> layer \<or> length vcs \<le> layer then Raise IndexError
         else rbind (case (key, val) of
             (Some k, Some v) \<Rightarrow>
               rbind (reshape_rows (dim k 2) (dim query 3) k) (\<lambda>k'.
               rbind (reshape_rows (dim k 2) (last_dim v) v) (\<lambda>v'. store_rows kcs vcs layer (slot_mapping c) k' v'))
           | _ \<Rightarrow> Ok (kcs, vcs)) (\<lambda>(kcs', vcs').
         rbind (reshape_rows (dim query 2) (dim query 3) query) (\<lambda>q'.
         rbind (attend ((module_args q' (kcs' ! layer) (vcs' ! layer) (map_option (ctx_vector dev) (query_start_loc c)) None
               (map_option (PyNumber \<circ> nat) (max_seqlen_q c)) None no_dropout scaling True)
             \<lparr>aa_seqused := map_option (ctx_vector dev) (context_lens c), aa_page_table := map_option (ctx_table dev) (block_tables c)\<rparr>)) (\<lambda>out.
         Ok (([dim q' 0, dim q' 1, last_dim (vcs' ! layer)], out), Some (c\<lparr>key_cache := Some kcs', value_cache := Some vcs'\<rparr>))))))
      | _ \<Rightarrow> Raise TypeError)"

definition attend_packed ::
    "(('f, 'a) attn_args \<Rightarrow> 'f memory res) \<Rightarrow> nat \<Rightarrow> 'f caches \<Rightarrow> 'f float_arg \<Rightarrow> 'f float_arg option \<Rightarrow> 'f float_arg option
       \<Rightarrow> 'a py_arg option \<Rightarrow> bool \<Rightarrow> (nat list \<times> 'f memory) res" where
  "attend_packed attend dev c query key val scaling no_dropout =
     (case (key, val) of
        (Some k, Some v) \<Rightarrow>
          rbind (reshape_rows (dim query 2) (dim query 3) query) (\<lambda>q'.
          rbind (reshape_rows (dim k 2) (last_dim k) k) (\<lambda>k'.
          rbind (reshape_rows (dim v 2) (last_dim v) v) (\<lambda>v'.
          let loc = map_option (ctx_vector dev) (query_start_loc c); longest = map_option (PyNumber \<circ> nat) (max_seqlen_q c)
          in rbind (attend (module_args q' k' v' loc loc longest longest no_dropout scaling True)) (\<lambda>out.
             Ok ([dim q' 0, dim q' 1, last_dim v'], out)))))
      | _ \<Rightarrow> Raise ValueError)"

definition opt_res :: "('b \<Rightarrow> 'c res) \<Rightarrow> 'b option \<Rightarrow> 'c option res" where
  "opt_res f x = (case x of None \<Rightarrow> Ok None | Some y \<Rightarrow> rbind (f y) (\<lambda>z. Ok (Some z)))"

definition flash_attention_forward ::
    "(('f, 'a) attn_args \<Rightarrow> 'f memory res) \<Rightarrow> nat \<Rightarrow> 'f caches option \<Rightarrow> attn_module \<Rightarrow> 'f float_arg \<Rightarrow> 'f float_arg option \<Rightarrow> 'f float_arg option
       \<Rightarrow> 'a py_arg option \<Rightarrow> bool \<Rightarrow> call_keywords \<Rightarrow> 'f attn_fn_result res" where
  "flash_attention_forward attend dev storage md query key val scaling no_dropout kw =
     rbind (transpose12 query) (\<lambda>q.
     rbind (opt_res transpose12 key) (\<lambda>k.
     rbind (opt_res transpose12 val) (\<lambda>v.
     if length (ta_shape q) \<noteq> 4 then Raise ValueError
     else rbind (layer_index md kw) (\<lambda>layer.
       case get_kv_cache_context storage of
         None \<Rightarrow> rbind (attend_unpaged attend md kw q k v scaling no_dropout) (\<lambda>r. Ok (r, storage))
       | Some c \<Rightarrow>
           if is_paged_attn c then attend_paged attend dev layer c q k v scaling no_dropout
           else rbind (attend_packed attend dev c q k v scaling no_dropout) (\<lambda>r. Ok (r, storage))))))"

section \<open>Where reshaped elements come from\<close>

lemma fold_horner: "length is = length ns \<Longrightarrow>
    fold (\<lambda>(n, i) acc. acc * n + i) (zip ns is) a = a * prod_list ns + fold (\<lambda>(n, i) acc. acc * n + i) (zip ns is) (0 :: nat)"
proof (induction ns arbitrary: "is" a)
  case (Cons n ns)
  then obtain i is' where i: "is = i # is'" "length is' = length ns" by (cases "is") auto
  show ?case unfolding i(1) using Cons.IH [OF i(2), of "a * n + i"] Cons.IH [OF i(2), of i] by (simp add: algebra_simps)
qed simp

lemma flat_ix_Cons: "length is = length ns \<Longrightarrow> flat_ix (n # ns) (i # is) = i * prod_list ns + flat_ix ns is"
  using fold_horner [of "is" ns i] by (simp add: flat_ix_def)

lemma flat_ix_Nil [simp]: "flat_ix [] is = 0"
  by (simp add: flat_ix_def)

lemma flat_ix_less: "list_all2 (<) is ns \<Longrightarrow> flat_ix ns is < prod_list ns"
proof (induction rule: list_all2_induct)
  case (Cons i "is" n ns)
  have "flat_ix (n # ns) (i # is) < (i + 1) * prod_list ns"
    using Cons.IH by (simp add: flat_ix_Cons [OF list_all2_lengthD [OF Cons.hyps(2)]])
  also have "\<dots> \<le> n * prod_list ns" using Cons.hyps(1) by (intro mult_le_mono) simp_all
  finally show ?case by simp
qed simp

lemma unflat_flat:
  assumes "list_all2 (<) is ns"
  shows "unflat (n # ns) (i * prod_list ns + flat_ix ns is) = i # is"
proof -
  have "unflat ns (flat_ix ns is) = is" using assms
  proof (induction rule: list_all2_induct)
    case (Cons i "is" n ns)
    then show ?case using flat_ix_less [OF Cons.hyps(2)] by (simp add: flat_ix_Cons [OF list_all2_lengthD [OF Cons.hyps(2)]])
  qed simp
  then show ?thesis using flat_ix_less [OF assms] by simp
qed

text \<open>Token \<open>tok\<close> of a batched tensor, counted over the batch.\<close>

definition token_row :: "'f float_arg \<Rightarrow> nat \<Rightarrow> nat \<Rightarrow> nat \<Rightarrow> 'f" where
  "token_row t tok head d = ta_data t [tok div dim t 2, head, tok mod dim t 2, d]"

lemma reshaped_rows:
  assumes "transpose12 t = Ok u" "ta_shape t = [b, h, l, d]" "reshape_rows h d u = Ok w"
  shows "ta_shape w = [b * l, h, d] \<and> ta_cuda w = ta_cuda t \<and> ta_device w = ta_device t \<and>
    (\<forall>tok head c. head < h \<longrightarrow> c < d \<longrightarrow> access3 w tok head c = token_row t tok head c)"
proof -
  have u: "u = t\<lparr>ta_shape := [b, l, h, d], ta_data := (\<lambda>ix. ta_data t (ix[1 := ix ! 2, 2 := ix ! 1]))\<rparr>"
    using assms(1,2) by (auto simp: transpose12_def Let_def numeral_2_eq_2)
  have hd: "0 < h" "0 < d" using assms(3) by (auto simp: reshape_rows_def Let_def split: if_splits)
  have n: "b * (l * (h * d)) div (h * d) = b * l" using hd by (simp add: mult.assoc [symmetric])
  have w: "w = u\<lparr>ta_shape := [b * l, h, d], ta_data := (\<lambda>ix. ta_data u (unflat [b, l, h, d] (flat_ix [b * l, h, d] ix)))\<rparr>"
    using assms(3) hd unfolding reshape_rows_def Let_def u by (simp add: n split: if_splits)
  have "access3 w tok head c = token_row t tok head c" if "head < h" "c < d" for tok head c
  proof -
    have rest: "unflat [l, h, d] (tok mod l * (h * d) + flat_ix [h, d] [head, c]) = [tok mod l, head, c]"
      using unflat_flat [of "[head, c]" "[h, d]" l "tok mod l"] that by simp
    have "unflat [b, l, h, d] (flat_ix [b * l, h, d] [tok, head, c]) = [tok div l, tok mod l, head, c]"
    proof (cases "l = 0")
      case True
      with rest show ?thesis by (simp add: flat_ix_Cons)
    next
      case False
      have "flat_ix [b * l, h, d] [tok, head, c] = tok div l * (l * (h * d)) + (tok mod l * (h * d) + flat_ix [h, d] [head, c])"
        by (simp add: flat_ix_Cons add.assoc [symmetric] mult.assoc [symmetric] add_mult_distrib [symmetric])
      moreover have less: "tok mod l * (h * d) + flat_ix [h, d] [head, c] < l * (h * d)"
        using flat_ix_less [of "[tok mod l, head, c]" "[l, h, d]"] that False by (simp add: flat_ix_Cons)
      ultimately show ?thesis using rest mult_add_div [OF less, of "tok div l"] mult_add_mod [OF less, of "tok div l"] by simp
    qed
    then show ?thesis by (simp add: w u token_row_def assms(2))
  qed
  then show ?thesis by (simp add: w u)
qed

section \<open>What a store leaves in the cache\<close>

lemma slot_address: "int (flat_ix [nb, ps, h, d] [blk, off, kh, c]) = int (blk * ps + off) * int (h * d) + int (flat_ix [h, d] [kh, c])"
  by (simp add: flat_ix_Cons algebra_simps)

lemma stored_cells:
  assumes t: "ta_shape t = [nb, ps, h, d]" and w: "ta_shape w = [n, h, d]"
    and slots: "length slots = n" "distinct slots"
    and mem: "store_single_cache next_power_of_2 (rows_of w) (int (dim t 2 * dim t 3)) slots (tensor_mem t) = Ok mem"
    and c: "kh < h" "c < d" "off < ps"
  shows "i < n \<Longrightarrow> slots ! i = int (blk * ps + off) \<Longrightarrow> access4 (with_mem t mem) blk off kh c = access3 w i kh c"
    and "int (blk * ps + off) \<notin> set slots \<Longrightarrow> access4 (with_mem t mem) blk off kh c = access4 t blk off kh c"
proof -
  let ?D = "h * d" and ?a = "int (flat_ix [nb, ps, h, d] [blk, off, kh, c])" and ?x = "flat_ix [h, d] [kh, c]"
  have x: "?x < ?D" using flat_ix_less [of "[kh, c]" "[h, d]"] c by simp
  have m: "mem = fold (store_cache_kernel (tensor_mem w) (int ?D) slots ?D (next_power_of_2 ?D)) [0..<n] (tensor_mem t)"
    using mem w by (simp add: store_single_cache_def rows_of_def Let_def split: if_splits)
  have in_slot: "in_slot s ?D ?a \<longleftrightarrow> s = int (blk * ps + off)" for s
  proof
    assume "in_slot s ?D ?a"
    then show "s = int (blk * ps + off)" using x slot_ranges_disjoint [of s ?D ?a "int (blk * ps + off)"]
      unfolding in_slot_def slot_address by linarith
  next
    have "int ?x < int ?D" "0 \<le> int (blk * ps + off)" "0 \<le> int ?x" using x by (simp_all only: of_nat_less_iff of_nat_0_le_iff)
    moreover assume "s = int (blk * ps + off)"
    ultimately show "in_slot s ?D ?a" unfolding in_slot_def slot_address by (metis add_left_mono add_strict_left_mono add.right_neutral not_le zero_less_one neg_less_0_iff_less)
  qed
  have cell: "access4 (with_mem t mem) blk off kh c = mem ?a" by (simp add: with_mem_def t)
  {
    assume i: "i < n" "slots ! i = int (blk * ps + off)"
    have ds: "slots_distinct slots (set [0..<n])" using slots by (auto simp: slots_distinct_def nth_eq_iff_index_eq)
    have "mem ?a = tensor_mem w (int i * int ?D + (?a - slots ! i * int ?D))"
      unfolding m using i in_slot by (intro fold_store_written [OF next_power_of_2_ge _ ds]) simp_all
    also have "int i * int ?D + (?a - slots ! i * int ?D) = int (i * ?D + ?x)" using i(2) by (simp add: slot_address)
    also have "tensor_mem w (int (i * ?D + ?x)) = access3 w i kh c"
      using unflat_flat [of "[kh, c]" "[h, d]" n i] c unfolding tensor_mem_def w nat_int by (simp only: list.rel_inject) simp
    finally show "access4 (with_mem t mem) blk off kh c = access3 w i kh c" using cell by simp
  }
  assume "int (blk * ps + off) \<notin> set slots"
  then have "\<not> in_slot (slots ! i) ?D ?a" if "i < n" for i using in_slot slots(1) that by (metis nth_mem)
  then have "mem ?a = tensor_mem t ?a"
    unfolding m by (intro fold_store_untouched [OF next_power_of_2_ge]) simp
  also have "\<dots> = access4 t blk off kh c"
    using unflat_flat [of "[off, kh, c]" "[ps, h, d]" nb blk] c unfolding tensor_mem_def t nat_int by (simp add: flat_ix_Cons)
  finally show "access4 (with_mem t mem) blk off kh c = access4 t blk off kh c" using cell by simp
qed

end
