(* ===== verification/Generation_Attention.thy ===== *)
theory Generation_Attention
  imports Attention_Module
begin

text \<open>
  From a batch to its attention: \<open>prepare_gen_ctx\<close> (\<open>src/vexact/inferencer/inferencer.py\<close>) sets the cache context,
  \<open>flash_attention_forward\<close> stores the new keys and values and attends over the pages. What a request finds there
  is its own sequence.
\<close>

section \<open>A batch that fits the cache\<close>

abbreviation step_len :: "'g inference_request \<Rightarrow> nat" where
  "step_len r \<equiv> nat (tokens_this_step r)"

abbreviation new_len :: "'g inference_request \<Rightarrow> nat" where
  "new_len r \<equiv> nat (num_computed_tokens r)"

abbreviation old_len :: "'g inference_request \<Rightarrow> nat" where
  "old_len r \<equiv> nat (num_computed_tokens r - tokens_this_step r)"

definition first_row :: "'g inference_request list \<Rightarrow> nat \<Rightarrow> nat" where
  "first_row reqs i = sum_list (map step_len (take i reqs))"

definition batch_fits :: "nat \<Rightarrow> int \<Rightarrow> nat \<Rightarrow> 'g inference_request list \<Rightarrow> bool" where
  "batch_fits ps blocks width reqs \<longleftrightarrow>
     0 < ps \<and> reqs \<noteq> [] \<and> blocks * int ps < 2 ^ 31 \<and> sum_list (map tokens_this_step reqs) < 2 ^ 31 \<and>
     (\<forall>r\<in>set reqs. covered (int ps) blocks r \<and> feedable r \<and> length (block_ids r) \<le> width) \<and>
     (\<forall>i<length reqs. \<forall>j<length reqs. i \<noteq> j \<longrightarrow> set (block_ids (reqs ! i)) \<inter> set (block_ids (reqs ! j)) = {})"

lemma batch_fitsD:
  assumes "batch_fits ps blocks width reqs"
  shows "0 < ps" "reqs \<noteq> []" "blocks * int ps < 2 ^ 31" "sum_list (map tokens_this_step reqs) < 2 ^ 31"
    "r \<in> set reqs \<Longrightarrow> covered (int ps) blocks r" "r \<in> set reqs \<Longrightarrow> feedable r" "r \<in> set reqs \<Longrightarrow> length (block_ids r) \<le> width"
    "i < length reqs \<Longrightarrow> j < length reqs \<Longrightarrow> i \<noteq> j \<Longrightarrow> set (block_ids (reqs ! i)) \<inter> set (block_ids (reqs ! j)) = {}"
  using assms unfolding batch_fits_def by blast+

text \<open>The context that \<open>prepare_gen_ctx\<close> leaves for the attention.\<close>

definition batch_slots :: "nat \<Rightarrow> 'g inference_request list \<Rightarrow> int list" where
  "batch_slots ps reqs = concat (map (step_slots (int ps)) reqs)"

definition batch_context :: "nat \<Rightarrow> nat \<Rightarrow> 'c \<Rightarrow> 'c \<Rightarrow> 'g inference_request list \<Rightarrow> 'c kv_context" where
  "batch_context ps width kc vc reqs =
     \<lparr>is_paged_attn = True, key_cache = Some kc, value_cache = Some vc,
      block_tables = Some (map (\<lambda>r. block_ids r @ replicate (width - length (block_ids r)) (-1)) reqs),
      slot_mapping = Some (batch_slots ps reqs), context_lens = Some (map num_computed_tokens reqs),
      query_start_loc = Some (0 # running_sums 0 (map tokens_this_step reqs)),
      max_seqlen_q = Some (Max (set (map tokens_this_step reqs)))\<rparr>"

lemma prepared_context:
  assumes "batch_fits ps blocks width reqs" "prepare_gen_ctx (int ps) width kc vc reqs old = Ok (g, st)"
  shows "st = Some (batch_context ps width kc vc reqs)"
proof -
  obtain st' where st': "prepare_gen_ctx (int ps) width kc vc reqs old = Ok (context_for (int ps) width reqs, Some st')"
    using prepare_gen_ctx_Ok [of "int ps" reqs blocks width kc vc old] batch_fitsD [OF assms(1)] by auto
  then have g: "g = context_for (int ps) width reqs" using assms(2) by simp
  show ?thesis
    using assms(2) batch_fitsD(2) [OF assms(1)] unfolding prepare_gen_ctx_def g
    by (auto simp: set_kv_cache_context_def context_post_init_def context_for_def batch_context_def batch_slots_def Let_def)
qed

lemma concat_at:
  assumes "i < length xss" "j < length (xss ! i)"
  shows "concat xss ! (sum_list (map length (take i xss)) + j) = xss ! i ! j"
proof -
  have "concat xss = concat (take i xss) @ xss ! i @ concat (drop (Suc i) xss)"
    by (subst id_take_nth_drop [OF assms(1)]) simp
  then show ?thesis using assms(2) by (simp add: nth_append length_concat)
qed

lemma step_slots_eq: "covered ps blocks r \<Longrightarrow> step_slots ps r = map (\<lambda>j. slot_at ps r (int (old_len r + j))) [0..<step_len r]"
  by (rule nth_equalityI) (auto simp: step_slots_def step_positions_def covered_def)

lemma batch_slot:
  assumes "batch_fits ps blocks width reqs" "i < length reqs" "j < step_len (reqs ! i)"
  shows "batch_slots ps reqs ! (first_row reqs i + j) = slot_at (int ps) (reqs ! i) (int (old_len (reqs ! i) + j))"
proof -
  have eq: "step_slots (int ps) r = map (\<lambda>j. slot_at (int ps) r (int (old_len r + j))) [0..<step_len r]" if "r \<in> set reqs" for r
    using step_slots_eq batch_fitsD(5) [OF assms(1) that] by blast
  have "first_row reqs i = sum_list (map length (take i (map (step_slots (int ps)) reqs)))"
    unfolding first_row_def take_map map_map by (intro arg_cong [of _ _ sum_list] map_cong) (auto simp: eq dest: in_set_takeD)
  then show ?thesis
    using assms(2,3) concat_at [of i "map (step_slots (int ps)) reqs" j] by (simp add: batch_slots_def eq)
qed

lemma first_row_less:
  assumes "i < length reqs" "j < step_len (reqs ! i)"
  shows "first_row reqs i + j < sum_list (map step_len reqs)"
proof -
  have "sum_list (map step_len reqs) = first_row reqs i + step_len (reqs ! i) + sum_list (map step_len (drop (Suc i) reqs))"
    unfolding first_row_def by (subst id_take_nth_drop [OF assms(1)]) simp
  then show ?thesis using assms(2) by simp
qed

lemma batch_slots_ok:
  assumes "batch_fits ps blocks width reqs"
  shows "distinct (batch_slots ps reqs)" "length (batch_slots ps reqs) = sum_list (map step_len reqs)"
proof -
  note B = batch_fitsD [OF assms]
  have "distinct (concat (map (step_slots (int ps) \<circ> (!) reqs) [0..<length reqs]))"
    by (rule batch_slots_distinct [where blocks = blocks]) (use B(1,5,8) in auto)
  moreover have "map (step_slots (int ps) \<circ> (!) reqs) [0..<length reqs] = map (step_slots (int ps)) reqs"
    by (subst (2) map_nth [symmetric]) (simp only: map_map)
  ultimately show "distinct (batch_slots ps reqs)" by (simp only: batch_slots_def)
  have "map (length \<circ> step_slots (int ps)) reqs = map step_len reqs"
    using step_slots_eq [OF B(5)] by simp
  then show "length (batch_slots ps reqs) = sum_list (map step_len reqs)"
    by (simp only: batch_slots_def length_concat map_map)
qed

section \<open>A sequence in its pages\<close>

text \<open>The cache holds the first \<open>n\<close> rows of a sequence in the blocks of its request.\<close>

definition holds :: "nat \<Rightarrow> 'f float_arg \<Rightarrow> 'g inference_request \<Rightarrow> nat \<Rightarrow> (nat \<Rightarrow> nat \<Rightarrow> nat \<Rightarrow> 'f) \<Rightarrow> bool" where
  "holds ps t r n rows \<longleftrightarrow>
     (\<forall>p<n. \<forall>h<dim t 2. \<forall>d<dim t 3. access4 t (nat (block_ids r ! (p div ps))) (p mod ps) h d = rows p h d)"

lemma page_in_range:
  assumes "covered (int ps) blocks r" "0 < ps" "p < new_len r"
  shows "p div ps < length (block_ids r)" "0 \<le> block_ids r ! (p div ps)"
    "slot_at (int ps) r (int p) = int (nat (block_ids r ! (p div ps)) * ps + p mod ps)"
proof -
  have "int p < num_computed_tokens r" using assms(3) by linarith
  from div_less_ceil_div [OF _ this, of "int ps"] assms(1,2)
  have "int p div int ps < int (length (block_ids r))" by (simp add: covered_def)
  then show l: "p div ps < length (block_ids r)" by (simp add: of_nat_div [symmetric])
  then show n: "0 \<le> block_ids r ! (p div ps)" using assms(1) nth_mem [OF l] unfolding covered_def by (meson atLeastLessThan_iff subsetD)
  show "slot_at (int ps) r (int p) = int (nat (block_ids r ! (p div ps)) * ps + p mod ps)"
    using n by (simp add: slot_at_def of_nat_div [symmetric] of_nat_mod [symmetric])
qed

lemma slot_of_block:
  assumes "covered (int ps) blocks r" "0 < ps" "p < new_len r"
  shows "slot_at (int ps) r (int p) div int ps = block_ids r ! (p div ps)" "slot_at (int ps) r (int p) mod int ps = int (p mod ps)"
proof -
  let ?b = "block_ids r ! (p div ps)"
  have "slot_at (int ps) r (int p) = ?b * int ps + int (p mod ps)"
    using page_in_range [OF assms] by simp
  moreover have "int (p mod ps) < int ps" using assms(2) by simp
  ultimately show "slot_at (int ps) r (int p) div int ps = ?b" "slot_at (int ps) r (int p) mod int ps = int (p mod ps)"
    using assms(2) by simp_all
qed

text \<open>A slot of the batch is the slot of one position of one request.\<close>

lemma slot_in_batch:
  assumes B: "batch_fits ps blocks width reqs" and i: "i < length reqs" "p < new_len (reqs ! i)"
    and s: "slot_at (int ps) (reqs ! i) (int p) \<in> set (batch_slots ps reqs)"
  shows "old_len (reqs ! i) \<le> p"
proof -
  note F = batch_fitsD [OF B]
  obtain q where q: "q \<in> set reqs" "slot_at (int ps) (reqs ! i) (int p) \<in> set (step_slots (int ps) q)"
    using s by (auto simp: batch_slots_def)
  then obtain j' where j': "j' < step_len q" "slot_at (int ps) (reqs ! i) (int p) = slot_at (int ps) q (int (old_len q + j'))"
    using step_slots_eq [OF F(5) [OF q(1)]] by auto
  obtain k where k: "k < length reqs" "q = reqs ! k" using q(1) by (metis in_set_conv_nth)
  define p' where "p' = old_len q + j'"
  have p': "p' < new_len q" using j'(1) F(5) [OF q(1)] unfolding p'_def covered_def by linarith
  note ri = nth_mem [OF i(1)]
  note I = slot_of_block [OF F(5) [OF ri] F(1) i(2)] page_in_range(1) [OF F(5) [OF ri] F(1) i(2)]
  note P = slot_of_block [OF F(5) [OF q(1)] F(1) p'] page_in_range(1) [OF F(5) [OF q(1)] F(1) p']
  have eq: "block_ids (reqs ! i) ! (p div ps) = block_ids q ! (p' div ps)" "p mod ps = p' mod ps"
    using I(1,2) P(1,2) j'(2) by (simp_all add: p'_def)
  have "k = i"
  proof (rule ccontr)
    assume "k \<noteq> i"
    from F(8) [OF k(1) i(1) this] eq(1) nth_mem [OF I(3)] nth_mem [OF P(3)] show False unfolding k(2) by auto
  qed
  moreover have "distinct (block_ids (reqs ! i))" using F(5) [OF ri] by (simp add: covered_def)
  ultimately have "p div ps = p' div ps" using eq(1) I(3) P(3) k(2) by (simp add: nth_eq_iff_index_eq)
  with eq(2) have "p = p'" by (metis div_mult_mod_eq)
  then show ?thesis using k(2) \<open>k = i\<close> by (simp add: p'_def)
qed

lemma holds_after_store:
  assumes B: "batch_fits ps blocks width reqs" and i: "i < length reqs"
    and t: "ta_shape t = [nb, ps, h, d]" and w: "ta_shape w = [sum_list (map step_len reqs), h, d]"
    and mem: "store_single_cache next_power_of_2 (rows_of w) (int (dim t 2 * dim t 3)) (batch_slots ps reqs) (tensor_mem t) = Ok mem"
    and old: "holds ps t (reqs ! i) (old_len (reqs ! i)) rows"
    and new: "\<And>j kh c. j < step_len (reqs ! i) \<Longrightarrow> kh < h \<Longrightarrow> c < d \<Longrightarrow> access3 w (first_row reqs i + j) kh c = rows (old_len (reqs ! i) + j) kh c"
  shows "holds ps (with_mem t mem) (reqs ! i) (new_len (reqs ! i)) rows"
  unfolding holds_def
proof (intro allI impI)
  fix p kh c assume p: "p < new_len (reqs ! i)" and "kh < dim (with_mem t mem) 2" "c < dim (with_mem t mem) 3"
  then have hc: "kh < h" "c < d" by (simp_all add: with_mem_def t)
  note F = batch_fitsD [OF B]
  note ri = nth_mem [OF i]
  note S = page_in_range [OF F(5) [OF ri] F(1) p]
  have off: "p mod ps < ps" using F(1) by simp
  note C = stored_cells [OF t w batch_slots_ok(2,1) [OF B] mem hc off, where blk = "nat (block_ids (reqs ! i) ! (p div ps))"]
  show "access4 (with_mem t mem) (nat (block_ids (reqs ! i) ! (p div ps))) (p mod ps) kh c = rows p kh c"
  proof (cases "old_len (reqs ! i) \<le> p")
    case True
    then obtain j where j: "p = old_len (reqs ! i) + j" using le_Suc_ex by blast
    then have jl: "j < step_len (reqs ! i)" using p F(5) [OF ri] by (simp add: covered_def)
    have "batch_slots ps reqs ! (first_row reqs i + j) = int (nat (block_ids (reqs ! i) ! (p div ps)) * ps + p mod ps)"
      using batch_slot [OF B i jl] S(3) by (simp add: j)
    from C(1) [OF first_row_less [OF i jl] this] new [OF jl hc] j show ?thesis by simp
  next
    case False
    then have "int (nat (block_ids (reqs ! i) ! (p div ps)) * ps + p mod ps) \<notin> set (batch_slots ps reqs)"
      using slot_in_batch [OF B i p] unfolding S(3) by blast
    from C(2) [OF this] False old hc show ?thesis by (simp add: holds_def t)
  qed
qed

section \<open>What the module function reads\<close>

text \<open>Tokens \<open>tok\<close>, ... of a tensor are the rows \<open>p\<close>, ... of a sequence.\<close>

definition brings :: "'f float_arg \<Rightarrow> nat \<Rightarrow> nat \<Rightarrow> nat \<Rightarrow> (nat \<Rightarrow> nat \<Rightarrow> nat \<Rightarrow> 'f) \<Rightarrow> bool" where
  "brings t tok n p rows \<longleftrightarrow> (\<forall>j<n. \<forall>h<dim t 1. \<forall>d<dim t 3. token_row t (tok + j) h d = rows (p + j) h d)"

definition heads_ok :: "nat \<Rightarrow> nat \<Rightarrow> nat \<Rightarrow> nat \<Rightarrow> 'f float_arg \<Rightarrow> 'f float_arg \<Rightarrow> 'f float_arg \<Rightarrow> bool" where
  "heads_ok hq hk dk dv q k v \<longleftrightarrow>
     (\<exists>b l. ta_shape q = [b, hq, l, dk] \<and> ta_shape k = [b, hk, l, dk] \<and> ta_shape v = [b, hk, l, dv])"

definition caches_ok :: "nat \<Rightarrow> nat \<Rightarrow> nat \<Rightarrow> nat \<Rightarrow> nat \<Rightarrow> 'f float_arg list \<Rightarrow> 'f float_arg list \<Rightarrow> bool" where
  "caches_ok layer ps hk dk dv kcs vcs \<longleftrightarrow> layer < length kcs \<and> layer < length vcs \<and>
     (\<exists>nb. ta_shape (kcs ! layer) = [nb, ps, hk, dk] \<and> ta_shape (vcs ! layer) = [nb, ps, hk, dv])"

definition paged_args ::
    "nat \<Rightarrow> 'c kv_context \<Rightarrow> 'f float_arg \<Rightarrow> 'f float_arg \<Rightarrow> 'f float_arg \<Rightarrow> bool \<Rightarrow> 'a py_arg option \<Rightarrow> ('f, 'a) attn_args" where
  "paged_args dev c q kc vc nd scaling =
     (module_args q kc vc (map_option (ctx_vector dev) (query_start_loc c)) None (map_option (PyNumber \<circ> nat) (max_seqlen_q c)) None nd scaling True)
       \<lparr>aa_seqused := map_option (ctx_vector dev) (context_lens c), aa_page_table := map_option (ctx_table dev) (block_tables c)\<rparr>"

lemma rbind_OkE:
  assumes "rbind r f = Ok y"
  obtains x where "r = Ok x" "f x = Ok y"
  using assms by (cases r) auto

text \<open>Splitting the module function on the shapes of its arguments.\<close>

lemma reshapes:
  assumes "transpose12 t = Ok u" "ta_shape t = [b, h, l, d]"
  shows "ta_shape u = [b, l, h, d]"
  using assms by (auto simp: transpose12_def Let_def numeral_2_eq_2)

lemma paged_step:
  assumes B: "batch_fits ps blocks width reqs" and H: "heads_ok hq hk dk dv query key val" and C: "caches_ok layer ps hk dk dv kcs vcs"
    and L: "layer_index md kw = Ok layer"
    and run: "flash_attention_forward attend dev (Some (batch_context ps width kcs vcs reqs)) md query (Some key) (Some val) scaling nd kw = Ok ((shp, out), st)"
  obtains q kc vc where "attend (paged_args dev (batch_context ps width kcs vcs reqs) q kc vc nd scaling) = Ok out"
    and "st = Some (batch_context ps width (kcs[layer := kc]) (vcs[layer := vc]) reqs)"
    and "\<exists>b l. ta_shape q = [b * l, hq, dk]" "\<And>tok h d. h < hq \<Longrightarrow> d < dk \<Longrightarrow> access3 q tok h d = token_row query tok h d"
    and "ta_shape kc = ta_shape (kcs ! layer)" "ta_shape vc = ta_shape (vcs ! layer)"
    and "\<And>i rows. i < length reqs \<Longrightarrow> holds ps (kcs ! layer) (reqs ! i) (old_len (reqs ! i)) rows \<Longrightarrow>
           brings key (first_row reqs i) (step_len (reqs ! i)) (old_len (reqs ! i)) rows \<Longrightarrow> holds ps kc (reqs ! i) (new_len (reqs ! i)) rows"
    and "\<And>i rows. i < length reqs \<Longrightarrow> holds ps (vcs ! layer) (reqs ! i) (old_len (reqs ! i)) rows \<Longrightarrow>
           brings val (first_row reqs i) (step_len (reqs ! i)) (old_len (reqs ! i)) rows \<Longrightarrow> holds ps vc (reqs ! i) (new_len (reqs ! i)) rows"
proof -
  let ?c = "batch_context ps width kcs vcs reqs"
  obtain b l where sh: "ta_shape query = [b, hq, l, dk]" "ta_shape key = [b, hk, l, dk]" "ta_shape val = [b, hk, l, dv]"
    using H unfolding heads_ok_def by blast
  obtain nb where cs: "layer < length kcs" "layer < length vcs" "ta_shape (kcs ! layer) = [nb, ps, hk, dk]" "ta_shape (vcs ! layer) = [nb, ps, hk, dv]"
    using C unfolding caches_ok_def by blast
  obtain q k v where t: "transpose12 query = Ok q" "transpose12 key = Ok k" "transpose12 val = Ok v"
    by (simp add: transpose12_def sh Let_def)
  note ts = reshapes [OF t(1) sh(1)] reshapes [OF t(2) sh(2)] reshapes [OF t(3) sh(3)]
  have paged: "attend_paged attend dev layer ?c q (Some k) (Some v) scaling nd = Ok ((shp, out), st)"
    using run by (simp add: flash_attention_forward_def t opt_res_def ts L get_kv_cache_context_def batch_context_def)
  obtain k' v' km vm q' where r: "reshape_rows hk dk k = Ok k'" "reshape_rows hk dv v = Ok v'" "reshape_rows hq dk q = Ok q'"
    and sk: "store_kvcache next_power_of_2 (rows_of k') (rows_of v') (int (dim (kcs ! layer) 2 * dim (kcs ! layer) 3))
        (int (dim (vcs ! layer) 2 * dim (vcs ! layer) 3)) (batch_slots ps reqs) (tensor_mem (kcs ! layer)) (tensor_mem (vcs ! layer)) = Ok (km, vm)"
    and att: "attend (paged_args dev ?c q' (with_mem (kcs ! layer) km) (with_mem (vcs ! layer) vm) nd scaling) = Ok out"
    and st: "st = Some (?c\<lparr>key_cache := Some (kcs[layer := with_mem (kcs ! layer) km]), value_cache := Some (vcs[layer := with_mem (vcs ! layer) vm])\<rparr>)"
    using paged cs(1,2)
    by (auto simp: attend_paged_def batch_context_def ts store_rows_def paged_args_def elim!: rbind_OkE)
  note rq = reshaped_rows [OF t(1) sh(1) r(3)] and rk = reshaped_rows [OF t(2) sh(2) r(1)] and rv = reshaped_rows [OF t(3) sh(3) r(2)]
  have rows: "b * l = sum_list (map step_len reqs)" "store_single_cache next_power_of_2 (rows_of k') (int (dim (kcs ! layer) 2 * dim (kcs ! layer) 3)) (batch_slots ps reqs) (tensor_mem (kcs ! layer)) = Ok km"
    "store_single_cache next_power_of_2 (rows_of v') (int (dim (vcs ! layer) 2 * dim (vcs ! layer) 3)) (batch_slots ps reqs) (tensor_mem (vcs ! layer)) = Ok vm"
    using sk rk batch_slots_ok(2) [OF B] by (auto simp: store_kvcache_def rows_of_def elim!: rbind_OkE split: if_splits)
  show thesis
  proof (rule that [OF att])
    show "st = Some (batch_context ps width (kcs[layer := with_mem (kcs ! layer) km]) (vcs[layer := with_mem (vcs ! layer) vm]) reqs)"
      by (simp add: st batch_context_def)
    show "\<exists>b l. ta_shape q' = [b * l, hq, dk]" using rq by blast
    show "access3 q' tok h d = token_row query tok h d" if "h < hq" "d < dk" for tok h d using rq that by blast
    show "ta_shape (with_mem (kcs ! layer) km) = ta_shape (kcs ! layer)" "ta_shape (with_mem (vcs ! layer) vm) = ta_shape (vcs ! layer)"
      by (simp_all add: with_mem_def)
    have wk: "ta_shape k' = [sum_list (map step_len reqs), hk, dk]" and wv: "ta_shape v' = [sum_list (map step_len reqs), hk, dv]"
      using rk rv rows(1) by simp_all
    show "holds ps (with_mem (kcs ! layer) km) (reqs ! i) (new_len (reqs ! i)) rows'"
      if "i < length reqs" "holds ps (kcs ! layer) (reqs ! i) (old_len (reqs ! i)) rows'"
        "brings key (first_row reqs i) (step_len (reqs ! i)) (old_len (reqs ! i)) rows'" for i rows'
      using that(3) rk by (intro holds_after_store [OF B that(1) cs(3) wk rows(2) that(2)]) (simp add: brings_def sh)
    show "holds ps (with_mem (vcs ! layer) vm) (reqs ! i) (new_len (reqs ! i)) rows'"
      if "i < length reqs" "holds ps (vcs ! layer) (reqs ! i) (old_len (reqs ! i)) rows'"
        "brings val (first_row reqs i) (step_len (reqs ! i)) (old_len (reqs ! i)) rows'" for i rows'
      using that(3) rv by (intro holds_after_store [OF B that(1) cs(4) wv rows(3) that(2)]) (simp add: brings_def sh)
  qed
qed

text \<open>The store of a step on its own: it succeeds and leaves every request's rows in its blocks.\<close>

lemma stored_step:
  assumes B: "batch_fits ps blocks width reqs" and n: "n = sum_list (map step_len reqs)" and dims: "0 < hk" "0 < dk" "0 < dv"
    and sh: "ta_shape key = [1, hk, n, dk]" "ta_shape val = [1, hk, n, dv]"
    and C: "layer < length kcs" "layer < length vcs" "ta_shape (kcs ! layer) = [nb, ps, hk, dk]" "ta_shape (vcs ! layer) = [nb, ps, hk, dv]"
  obtains k v k' v' kc vc where "transpose12 key = Ok k" "reshape_rows hk dk k = Ok k'" "transpose12 val = Ok v" "reshape_rows hk dv v = Ok v'"
    and "store_rows kcs vcs layer (Some (batch_slots ps reqs)) k' v' = Ok (kcs[layer := kc], vcs[layer := vc])"
    and "ta_shape kc = [nb, ps, hk, dk]" "ta_shape vc = [nb, ps, hk, dv]"
    and "\<And>i rows. i < length reqs \<Longrightarrow> holds ps (kcs ! layer) (reqs ! i) (old_len (reqs ! i)) rows \<Longrightarrow>
           brings key (first_row reqs i) (step_len (reqs ! i)) (old_len (reqs ! i)) rows \<Longrightarrow> holds ps kc (reqs ! i) (new_len (reqs ! i)) rows"
    and "\<And>i rows. i < length reqs \<Longrightarrow> holds ps (vcs ! layer) (reqs ! i) (old_len (reqs ! i)) rows \<Longrightarrow>
           brings val (first_row reqs i) (step_len (reqs ! i)) (old_len (reqs ! i)) rows \<Longrightarrow> holds ps vc (reqs ! i) (new_len (reqs ! i)) rows"
proof -
  obtain k v where t: "transpose12 key = Ok k" "transpose12 val = Ok v" by (simp add: transpose12_def sh Let_def)
  note ts = reshapes [OF t(1) sh(1)] reshapes [OF t(2) sh(2)]
  obtain k' v' where r: "reshape_rows hk dk k = Ok k'" "reshape_rows hk dv v = Ok v'"
    using dims by (simp add: reshape_rows_def ts Let_def)
  note rk = reshaped_rows [OF t(1) sh(1) r(1)] and rv = reshaped_rows [OF t(2) sh(2) r(2)]
  have wk: "ta_shape k' = [sum_list (map step_len reqs), hk, dk]" and wv: "ta_shape v' = [sum_list (map step_len reqs), hk, dv]"
    using rk rv n by simp_all
  obtain km vm where m: "store_single_cache next_power_of_2 (rows_of k') (int (dim (kcs ! layer) 2 * dim (kcs ! layer) 3)) (batch_slots ps reqs) (tensor_mem (kcs ! layer)) = Ok km"
    "store_single_cache next_power_of_2 (rows_of v') (int (dim (vcs ! layer) 2 * dim (vcs ! layer) 3)) (batch_slots ps reqs) (tensor_mem (vcs ! layer)) = Ok vm"
    by (simp add: store_single_cache_def rows_of_def wk wv C(3,4) Let_def)
  have rows: "rt_rows (rows_of k') = length (batch_slots ps reqs)" using batch_slots_ok(2) [OF B] wk by (simp add: rows_of_def)
  show thesis
  proof (rule that [OF t(1) r(1) t(2) r(2)])
    show "store_rows kcs vcs layer (Some (batch_slots ps reqs)) k' v' =
        Ok (kcs[layer := with_mem (kcs ! layer) km], vcs[layer := with_mem (vcs ! layer) vm])"
      using m by (simp add: store_rows_def store_kvcache_def rows)
    show "ta_shape (with_mem (kcs ! layer) km) = [nb, ps, hk, dk]" "ta_shape (with_mem (vcs ! layer) vm) = [nb, ps, hk, dv]"
      by (simp_all add: with_mem_def C)
    show "holds ps (with_mem (kcs ! layer) km) (reqs ! i) (new_len (reqs ! i)) rows'"
      if "i < length reqs" "holds ps (kcs ! layer) (reqs ! i) (old_len (reqs ! i)) rows'"
        "brings key (first_row reqs i) (step_len (reqs ! i)) (old_len (reqs ! i)) rows'" for i rows'
      using that(3) rk by (intro holds_after_store [OF B that(1) C(3) wk m(1) that(2)]) (simp add: brings_def sh)
    show "holds ps (with_mem (vcs ! layer) vm) (reqs ! i) (new_len (reqs ! i)) rows'"
      if "i < length reqs" "holds ps (vcs ! layer) (reqs ! i) (old_len (reqs ! i)) rows'"
        "brings val (first_row reqs i) (step_len (reqs ! i)) (old_len (reqs ! i)) rows'" for i rows'
      using that(3) rv by (intro holds_after_store [OF B that(1) C(4) wv m(2) that(2)]) (simp add: brings_def sh)
  qed
qed

section \<open>The two calls of the kernels\<close>

definition module_shape :: "nat \<Rightarrow> nat \<Rightarrow> nat \<Rightarrow> nat \<Rightarrow> attn_shape" where
  "module_shape hq hk dk dv =
     (let block_d = next_power_of_2 (max dk dv); block_m = (if block_d \<le> 128 then 128 else 32)
      in \<lparr>as_q_heads = hq, as_kv_heads = hk, as_dim = dk, as_value_dim = dv, as_block_m = block_m,
          as_block_n = (if 64 \<le> block_m then 64 else 32), as_block_d = block_d, as_causal = True\<rparr>)"

lemma module_shape_simps [simp]:
  "as_q_heads (module_shape hq hk dk dv) = hq" "as_kv_heads (module_shape hq hk dk dv) = hk" "as_dim (module_shape hq hk dk dv) = dk"
  "as_value_dim (module_shape hq hk dk dv) = dv" "as_causal (module_shape hq hk dk dv)"
  by (simp_all add: module_shape_def Let_def)

lemma sum_steps: "\<forall>r\<in>set rs. 0 \<le> tokens_this_step r \<Longrightarrow> int (sum_list (map step_len rs)) = sum_list (map tokens_this_step rs)"
  by (induction rs) simp_all

lemma running_rows:
  assumes "\<forall>r\<in>set reqs. 0 \<le> tokens_this_step r" "i \<le> length reqs"
  shows "map nat (0 # running_sums 0 (map tokens_this_step reqs)) ! i = first_row reqs i"
proof (cases i)
  case (Suc j)
  then have "int (first_row reqs i) = sum_list (map tokens_this_step (take i reqs))"
    unfolding first_row_def using assms(1) by (intro sum_steps) (auto dest: in_set_takeD)
  then show ?thesis using assms(2) Suc by (simp add: running_sums_nth take_map)
qed (simp add: first_row_def)

lemma first_row_Suc: "i < length reqs \<Longrightarrow> first_row reqs (Suc i) = first_row reqs i + step_len (reqs ! i)"
  by (simp add: first_row_def take_Suc_conv_app_nth)

lemma first_row_mono: "i \<le> j \<Longrightarrow> first_row reqs i \<le> first_row reqs j"
  by (induction rule: dec_induct) (simp, metis first_row_Suc first_row_def le_add1 le_trans not_less take_all le_SucI order_refl)

lemma paged_call:
  fixes kcs vcs :: 'c and dev nd and scaling :: "'a py_arg option"
  assumes B: "batch_fits ps blocks width reqs" and q: "ta_shape q = [n, hq, dk]"
    and kc: "ta_shape kc = [nb, ps, hk, dk]" and vc: "ta_shape vc = [nb, ps, hk, dv]"
  defines "a \<equiv> paged_args dev (batch_context ps width kcs vcs reqs) q kc vc nd scaling"
  shows "call_shape a = module_shape hq hk dk dv" "call_seqs a = length reqs" "call_max_len a = width * ps" "aa_q a = q" "aa_scale a = scaling"
    and "call_input ops a = paged_input (op_zero (at_gemm ops)) ps (access3 q) (access4 kc) (access4 vc)
      (map nat (0 # running_sums 0 (map tokens_this_step reqs))) (map new_len reqs)
      (map (\<lambda>r. block_ids r @ replicate (width - length (block_ids r)) (-1)) reqs)"
proof -
  note F = batch_fitsD [OF B]
  have w: "length (hd (map (\<lambda>r. block_ids r @ replicate (width - length (block_ids r)) (-1)) reqs)) = width"
    using F(2,7) by (cases reqs) auto
  have t: "call_table a = Some (ctx_table dev (map (\<lambda>r. block_ids r @ replicate (width - length (block_ids r)) (-1)) reqs))"
    by (simp add: a_def paged_args_def call_table_def batch_context_def)
  have f: "aa_q a = q" "aa_k a = kc" "aa_v a = vc" "aa_scale a = scaling"
    "aa_cu_q a = Some (ctx_vector dev (0 # running_sums 0 (map tokens_this_step reqs)))" "aa_seqused a = Some (ctx_vector dev (map num_computed_tokens reqs))"
    by (simp_all add: a_def paged_args_def module_args_def batch_context_def)
  show "aa_q a = q" "aa_scale a = scaling" using f by simp_all
  show "call_shape a = module_shape hq hk dk dv"
    by (simp add: call_shape_def f t forward_shape_def module_shape_def q kc vc block_d_of_def)
  show "call_seqs a = length reqs" by (simp add: call_seqs_def t f ctx_vector_def)
  show "call_max_len a = width * ps" using w by (simp add: call_max_len_def t f ctx_table_def kc)
  show "call_input ops a = paged_input (op_zero (at_gemm ops)) ps (access3 q) (access4 kc) (access4 vc)
      (map nat (0 # running_sums 0 (map tokens_this_step reqs))) (map new_len reqs)
      (map (\<lambda>r. block_ids r @ replicate (width - length (block_ids r)) (-1)) reqs)"
    by (simp add: call_input_def t f ctx_vector_def ctx_table_def kc comp_def)
qed

text \<open>What a request reads through the pages.\<close>

lemma paged_places:
  fixes z :: 'f and q :: "nat \<Rightarrow> nat \<Rightarrow> nat \<Rightarrow> 'f" and kc vc :: "nat \<Rightarrow> nat \<Rightarrow> nat \<Rightarrow> nat \<Rightarrow> 'f"
  assumes B: "batch_fits ps blocks width reqs" and i: "i < length reqs"
  defines "x \<equiv> paged_input z ps q kc vc (map nat (0 # running_sums 0 (map tokens_this_step reqs))) (map new_len reqs)
      (map (\<lambda>r. block_ids r @ replicate (width - length (block_ids r)) (-1)) reqs)"
  shows "ai_q_start x i = first_row reqs i" "ai_kv_len x i = new_len (reqs ! i)" "ai_q_len x i = step_len (reqs ! i)"
    and "valid_q x i p \<longleftrightarrow> old_len (reqs ! i) \<le> p \<and> p < new_len (reqs ! i)"
    and "valid_q x i p \<Longrightarrow> token_at x i p = first_row reqs i + (p - old_len (reqs ! i))"
    and "p < new_len (reqs ! i) \<Longrightarrow> ai_key x i p h d = kc (nat (block_ids (reqs ! i) ! (p div ps))) (p mod ps) h d"
    and "p < new_len (reqs ! i) \<Longrightarrow> ai_value x i p h d = vc (nat (block_ids (reqs ! i) ! (p div ps))) (p mod ps) h d"
proof -
  note F = batch_fitsD [OF B]
  note ri = nth_mem [OF i]
  have t: "\<forall>r\<in>set reqs. 0 \<le> tokens_this_step r" using F(5) by (simp add: covered_def)
  have cov: "0 \<le> tokens_this_step (reqs ! i)" "tokens_this_step (reqs ! i) \<le> num_computed_tokens (reqs ! i)" using F(5) [OF ri] by (simp_all add: covered_def)
  show s: "ai_q_start x i = first_row reqs i" "ai_kv_len x i = new_len (reqs ! i)" "ai_q_len x i = step_len (reqs ! i)"
    using running_rows [OF t, of i] running_rows [OF t, of "Suc i"] i by (simp_all add: x_def paged_input_def first_row_Suc del: list.map)
  have abs: "q_abs_start x i = int (old_len (reqs ! i))" using cov by (simp add: q_abs_start_def s)
  show v: "valid_q x i p \<longleftrightarrow> old_len (reqs ! i) \<le> p \<and> p < new_len (reqs ! i)" by (simp only: valid_q_def abs s of_nat_le_iff)
  show "valid_q x i p \<Longrightarrow> token_at x i p = first_row reqs i + (p - old_len (reqs ! i))"
    by (simp add: q_local_def abs s nat_diff_distrib' v)
  have page: "paged_read z ps (map (\<lambda>r. block_ids r @ replicate (width - length (block_ids r)) (-1)) reqs) cells i p h d =
      cells (nat (block_ids (reqs ! i) ! (p div ps))) (p mod ps) h d" if "p < new_len (reqs ! i)" for cells
    using page_in_range(1,2) [OF F(5) [OF ri] F(1) that] i
    by (simp add: paged_read_def nth_append minus_div_mult_eq_mod)
  show "p < new_len (reqs ! i) \<Longrightarrow> ai_key x i p h d = kc (nat (block_ids (reqs ! i) ! (p div ps))) (p mod ps) h d"
    "p < new_len (reqs ! i) \<Longrightarrow> ai_value x i p h d = vc (nat (block_ids (reqs ! i) ! (p div ps))) (p mod ps) h d"
    by (simp_all add: x_def paged_input_def page)
qed

lemma table_covers:
  assumes "batch_fits ps blocks width reqs" "i < length reqs" "p < new_len (reqs ! i)"
  shows "p < width * ps"
proof -
  note F = batch_fitsD [OF assms(1)] and ri = nth_mem [OF assms(2)]
  have "p div ps < width" using page_in_range(1) [OF F(5) [OF ri] F(1) assms(3)] F(7) [OF ri] by simp
  then show ?thesis using F(1) by (simp add: less_mult_imp_div_less div_less_iff_less_mult)
qed

section \<open>The trainer\<close>

text \<open>The keywords of a packed batch: offsets \<open>cu\<close>, the longest sequence.\<close>

definition packed_with :: "call_keywords \<Rightarrow> nat list \<Rightarrow> nat \<Rightarrow> bool" where
  "packed_with kw cu longest \<longleftrightarrow> sorted cu \<and>
     (\<exists>cq ck. first_of (kw_tensors kw) (cu_keys ''q'') = Some cq \<and> first_of (kw_tensors kw) (cu_keys ''k'') = Some ck \<and> ta_data cq = cu \<and> ta_data ck = cu) \<and>
     first_of (kw_numbers kw) (max_keys ''q'') = Some (PyNumber longest)"

lemma trainer_step:
  assumes H: "heads_ok hq hk dk dv query key val" and K: "packed_with kw cu longest"
    and run: "flash_attention_forward attend dev None md query (Some key) (Some val) scaling nd kw = Ok ((shp, out), st)"
  obtains q k v cq ck mk causal n where "attend (module_args q k v (Some cq) (Some ck) (Some (PyNumber longest)) (Some mk) nd scaling causal) = Ok out"
    and "ta_data cq = cu" "ta_data ck = cu" "ta_shape q = [n, hq, dk]" "ta_shape k = [n, hk, dk]" "ta_shape v = [n, hk, dv]"
    and "\<And>tok h d. h < hq \<Longrightarrow> d < dk \<Longrightarrow> access3 q tok h d = token_row query tok h d"
    and "\<And>tok h d. h < hk \<Longrightarrow> d < dk \<Longrightarrow> access3 k tok h d = token_row key tok h d"
    and "\<And>tok h d. h < hk \<Longrightarrow> d < dv \<Longrightarrow> access3 v tok h d = token_row val tok h d"
proof -
  obtain b l where sh: "ta_shape query = [b, hq, l, dk]" "ta_shape key = [b, hk, l, dk]" "ta_shape val = [b, hk, l, dv]"
    using H unfolding heads_ok_def by blast
  obtain q0 k0 v0 where t: "transpose12 query = Ok q0" "transpose12 key = Ok k0" "transpose12 val = Ok v0"
    by (simp add: transpose12_def sh Let_def)
  note ts = reshapes [OF t(1) sh(1)] reshapes [OF t(2) sh(2)] reshapes [OF t(3) sh(3)]
  obtain cq ck where kw: "first_of (kw_tensors kw) (cu_keys ''q'') = Some cq" "first_of (kw_tensors kw) (cu_keys ''k'') = Some ck"
    "ta_data cq = cu" "ta_data ck = cu" "first_of (kw_numbers kw) (max_keys ''q'') = Some (PyNumber longest)"
    using K unfolding packed_with_def by blast
  have "\<exists>res. attend_unpaged attend md kw q0 (Some k0) (Some v0) scaling nd = Ok res \<and> out = snd res"
    using run by (auto simp: flash_attention_forward_def t opt_res_def ts get_kv_cache_context_def elim!: rbind_OkE)
  then obtain q k v mk causal where r: "reshape_rows hq dk q0 = Ok q" "reshape_rows hk dk k0 = Ok k" "reshape_rows hk dv v0 = Ok v"
    and a: "attend (module_args q k v (Some cq) (Some ck) (Some (PyNumber longest)) (Some mk) nd scaling causal) = Ok out"
    by (auto simp: attend_unpaged_def ts kw Let_def elim!: rbind_OkE split: if_splits)
  show thesis
    using reshaped_rows [OF t(1) sh(1) r(1)] reshaped_rows [OF t(2) sh(2) r(2)] reshaped_rows [OF t(3) sh(3) r(3)]
    by (intro that [OF a kw(3,4)]) blast+
qed

lemma packed_call:
  fixes q k v :: "'f float_arg" and cq ck :: "nat list tensor_arg" and nd :: bool and scaling :: "'a py_arg option" and causal :: bool and longest :: nat and mk :: "nat py_arg"
  assumes sh: "ta_shape q = [n, hq, dk]" "ta_shape k = [n, hk, dk]" "ta_shape v = [n, hk, dv]" "ta_data cq = cu" "ta_data ck = cu"
  defines "a \<equiv> module_args q k v (Some cq) (Some ck) (Some (PyNumber longest)) (Some mk) nd scaling causal"
  shows "call_shape a = module_shape hq hk dk dv" "call_seqs a = length cu - 1" "longest \<le> call_max_len a" "aa_q a = q" "aa_scale a = scaling"
    and "call_input ops a = packed_input (access3 q) (access3 k) (access3 v) cu cu"
proof -
  have t: "call_table a = None" by (simp add: a_def module_args_def call_table_def)
  have f: "aa_q a = q" "aa_k a = k" "aa_v a = v" "aa_scale a = scaling" "aa_cu_q a = Some cq" "aa_cu_k a = Some ck" "aa_max_q a = Some (PyNumber longest)"
    by (simp_all add: a_def module_args_def)
  show "aa_q a = q" "aa_scale a = scaling" using f by simp_all
  show "call_shape a = module_shape hq hk dk dv" "call_seqs a = length cu - 1" "longest \<le> call_max_len a"
    by (simp_all add: call_shape_def call_seqs_def call_max_len_def t f forward_shape_def module_shape_def sh block_d_of_def)
  show "call_input ops a = packed_input (access3 q) (access3 k) (access3 v) cu cu" by (simp add: call_input_def t f sh)
qed

section \<open>Generation computes what training computes\<close>

text \<open>Scores of ordinary size, over the rows of a sequence and the zeros that pad a block.\<close>

definition pad_row :: "'f \<Rightarrow> attn_shape \<Rightarrow> (nat \<Rightarrow> 'f) \<Rightarrow> 'f list" where
  "pad_row z s f = map (\<lambda>d. if d < as_dim s then f d else z) [0..<as_block_d s]"

definition ordinary_rows ::
    "('f, 'a) attn_ops \<Rightarrow> ('f list \<Rightarrow> 'f list \<Rightarrow> 'a \<Rightarrow> 'a) \<Rightarrow> attn_shape \<Rightarrow> 'a \<Rightarrow> ('a \<Rightarrow> bool) \<Rightarrow> ('f \<Rightarrow> bool)
       \<Rightarrow> (nat \<Rightarrow> nat \<Rightarrow> nat \<Rightarrow> 'f) \<Rightarrow> (nat \<Rightarrow> nat \<Rightarrow> nat \<Rightarrow> 'f) \<Rightarrow> (nat \<Rightarrow> nat \<Rightarrow> nat \<Rightarrow> 'f) \<Rightarrow> nat \<Rightarrow> nat \<Rightarrow> nat \<Rightarrow> bool" where
  "ordinary_rows ops mma s scale ok fin Q K V m head p \<longleftrightarrow>
     (let z = op_zero (at_gemm ops); kv = kv_head_of s head;
          score = (\<lambda>key. at_mul ops (mma (pad_row z s (Q p head)) (pad_row z s key) (acc_zero (at_gemm ops))) (at_mul ops scale (at_log2e ops)))
      in (\<forall>n<m. ok (score (K n kv))) \<and> ok (score (\<lambda>_. z)) \<and> (\<forall>n<m. \<forall>d<as_value_dim s. fin (at_convert ops (V n kv d))) \<and> fin (at_convert ops z))"

lemma ordinary_from_rows:
  assumes "ordinary_rows ops mma s scale ok fin Q K V m head p" "ai_kv_len x seq \<le> m"
    and "\<And>d. d < as_dim s \<Longrightarrow> ai_query x (token_at x seq p) head d = Q p head d"
    and "\<And>n d. n < ai_kv_len x seq \<Longrightarrow> d < as_dim s \<Longrightarrow> ai_key x seq n (kv_head_of s head) d = K n (kv_head_of s head) d"
    and "\<And>n d. n < ai_kv_len x seq \<Longrightarrow> d < as_value_dim s \<Longrightarrow> ai_value x seq n (kv_head_of s head) d = V n (kv_head_of s head) d"
  shows "ordinary ops mma s scale ok fin x seq head p"
proof -
  let ?z = "op_zero (at_gemm ops)" and ?kv = "kv_head_of s head"
  have q: "query_at ?z s x seq head p = pad_row ?z s (Q p head)"
    using assms(3) by (simp add: query_at_def pad_row_def cong: if_cong)
  have k: "key_at ?z s x seq ?kv n = (if n < ai_kv_len x seq then pad_row ?z s (K n ?kv) else pad_row ?z s (\<lambda>_. ?z))" for n
    using assms(4) by (simp add: key_at_def pad_row_def cong: if_cong)
  show ?thesis
    using assms(1,2,5) unfolding ordinary_def data_ok_def q k ordinary_rows_def Let_def
    by (auto simp: value_at_def)
qed

text \<open>
  Request \<open>i\<close> of a batch stands at \<open>old_len\<close> in the sequence \<open>Q\<close>, \<open>K\<close>, \<open>V\<close>: its new rows arrive with the call, the cache
  holds the others. Sequence \<open>j\<close> of a packed batch is the same sequence from its start.
\<close>

definition continues ::
    "nat \<Rightarrow> 'g inference_request list \<Rightarrow> nat \<Rightarrow> 'f float_arg \<Rightarrow> 'f float_arg \<Rightarrow> 'f float_arg \<Rightarrow> 'f float_arg \<Rightarrow> 'f float_arg
       \<Rightarrow> (nat \<Rightarrow> nat \<Rightarrow> nat \<Rightarrow> 'f) \<Rightarrow> (nat \<Rightarrow> nat \<Rightarrow> nat \<Rightarrow> 'f) \<Rightarrow> (nat \<Rightarrow> nat \<Rightarrow> nat \<Rightarrow> 'f) \<Rightarrow> bool" where
  "continues ps reqs i kc vc query key val Q K V \<longleftrightarrow>
     (let r = reqs ! i
      in brings query (first_row reqs i) (step_len r) (old_len r) Q \<and> brings key (first_row reqs i) (step_len r) (old_len r) K \<and>
         brings val (first_row reqs i) (step_len r) (old_len r) V \<and> holds ps kc r (old_len r) K \<and> holds ps vc r (old_len r) V)"

definition trains ::
    "nat list \<Rightarrow> nat \<Rightarrow> 'f float_arg \<Rightarrow> 'f float_arg \<Rightarrow> 'f float_arg
       \<Rightarrow> (nat \<Rightarrow> nat \<Rightarrow> nat \<Rightarrow> 'f) \<Rightarrow> (nat \<Rightarrow> nat \<Rightarrow> nat \<Rightarrow> 'f) \<Rightarrow> (nat \<Rightarrow> nat \<Rightarrow> nat \<Rightarrow> 'f) \<Rightarrow> bool" where
  "trains cu j query key val Q K V \<longleftrightarrow>
     (let m = cu ! Suc j - cu ! j in brings query (cu ! j) m 0 Q \<and> brings key (cu ! j) m 0 K \<and> brings val (cu ! j) m 0 V)"

lemma paged_sequences_ok:
  assumes "batch_fits ps blocks width reqs"
  shows "sequences_ok (paged_input z ps q kc vc (map nat (0 # running_sums 0 (map tokens_this_step reqs))) (map new_len reqs)
      (map (\<lambda>r. block_ids r @ replicate (width - length (block_ids r)) (-1)) reqs)) (length reqs)"
  unfolding sequences_ok_def
proof (intro allI impI)
  fix b a assume b: "b < length reqs" "a < b"
  then have "first_row reqs a + step_len (reqs ! a) \<le> first_row reqs b"
    using first_row_mono [of "Suc a" b reqs] first_row_Suc [of a reqs] by simp
  then show "ai_q_start (paged_input z ps q kc vc (map nat (0 # running_sums 0 (map tokens_this_step reqs))) (map new_len reqs)
        (map (\<lambda>r. block_ids r @ replicate (width - length (block_ids r)) (-1)) reqs)) a +
      ai_q_len (paged_input z ps q kc vc (map nat (0 # running_sums 0 (map tokens_this_step reqs))) (map new_len reqs)
        (map (\<lambda>r. block_ids r @ replicate (width - length (block_ids r)) (-1)) reqs)) a
      \<le> ai_q_start (paged_input z ps q kc vc (map nat (0 # running_sums 0 (map tokens_this_step reqs))) (map new_len reqs)
        (map (\<lambda>r. block_ids r @ replicate (width - length (block_ids r)) (-1)) reqs)) b"
    using paged_places(1,3) [OF assms, where i = a and z = z and q = q and kc = kc and vc = vc]
      paged_places(1) [OF assms, where i = b and z = z and q = q and kc = kc and vc = vc] b by simp
qed

lemma generation_matches:
  assumes rows: "row_independent (at_gemm ops) mma" and laws: "attn_laws ops mma (at_mul ops scale (at_log2e ops)) ok fin"
    and sched: "\<forall>n t h. set (schedule n t h) = {..<n} \<times> {..<t} \<times> {..<h}" "\<forall>n t h. set (schedule' n t h) = {..<n} \<times> {..<t} \<times> {..<h}"
    and B: "batch_fits ps blocks width reqs" and heads: "hk dvd hq" "0 < hk"
    and H: "heads_ok hq hk dk dv query key val" "caches_ok layer ps hk dk dv kcs vcs" "layer_index md kw = Ok layer"
    and T: "heads_ok hq hk dk dv tquery tkey tval" "packed_with tkw cu longest"
    and run: "flash_attention_forward (flash_attn_varlen_func ops inv_sqrt schedule fresh fresh_lse) dev (Some (batch_context ps width kcs vcs reqs))
        md query (Some key) (Some val) (Some (PyNumber scale)) nd kw = Ok ((shp, out), st)"
    and train: "flash_attention_forward (flash_attn_varlen_func ops inv_sqrt schedule' fresh' fresh_lse') dev' None
        tmd tquery (Some tkey) (Some tval) (Some (PyNumber scale)) nd' tkw = Ok ((shp', out'), st')"
    and i: "i < length reqs" "continues ps reqs i (kcs ! layer) (vcs ! layer) query key val Q K V"
    and j: "Suc j < length cu" "trains cu j tquery tkey tval Q K V" "new_len (reqs ! i) \<le> cu ! Suc j - cu ! j" "cu ! Suc j - cu ! j \<le> longest"
  shows "(\<exists>kcs' vcs'. st = Some (batch_context ps width kcs' vcs' reqs) \<and>
      holds ps (kcs' ! layer) (reqs ! i) (new_len (reqs ! i)) K \<and> holds ps (vcs' ! layer) (reqs ! i) (new_len (reqs ! i)) V) \<and>
    (old_len (reqs ! i) \<le> p \<longrightarrow> p < new_len (reqs ! i) \<longrightarrow> head < hq \<longrightarrow> d < dv \<longrightarrow>
      ordinary_rows ops mma (module_shape hq hk dk dv) scale ok fin Q K V (cu ! Suc j - cu ! j) head p \<longrightarrow>
      out (out_addr (module_shape hq hk dk dv) (first_row reqs i + (p - old_len (reqs ! i))) head d) =
      out' (out_addr (module_shape hq hk dk dv) (cu ! j + p) head d))"
proof -
  let ?r = "reqs ! i" and ?s = "module_shape hq hk dk dv" and ?z = "op_zero (at_gemm ops)" and ?m = "cu ! Suc j - cu ! j"
  note I = i(2) [unfolded continues_def Let_def] and J = j(2) [unfolded trains_def Let_def]
  have dims: "dim query 1 = hq" "dim query 3 = dk" "dim key 1 = hk" "dim key 3 = dk" "dim val 1 = hk" "dim val 3 = dv"
    "dim tquery 1 = hq" "dim tquery 3 = dk" "dim tkey 1 = hk" "dim tkey 3 = dk" "dim tval 1 = hk" "dim tval 3 = dv"
    using H(1) T(1) by (auto simp: heads_ok_def)
  obtain nb where cs: "layer < length kcs" "layer < length vcs" "ta_shape (kcs ! layer) = [nb, ps, hk, dk]" "ta_shape (vcs ! layer) = [nb, ps, hk, dv]"
    using H(2) unfolding caches_ok_def by blast
  obtain q kc vc where gen: "flash_attn_varlen_func ops inv_sqrt schedule fresh fresh_lse
        (paged_args dev (batch_context ps width kcs vcs reqs) q kc vc nd (Some (PyNumber scale))) = Ok out"
    and st: "st = Some (batch_context ps width (kcs[layer := kc]) (vcs[layer := vc]) reqs)"
    and qs: "\<exists>b l. ta_shape q = [b * l, hq, dk]" "\<And>tok h d. h < hq \<Longrightarrow> d < dk \<Longrightarrow> access3 q tok h d = token_row query tok h d"
    and sh: "ta_shape kc = ta_shape (kcs ! layer)" "ta_shape vc = ta_shape (vcs ! layer)"
    and hold: "holds ps kc ?r (new_len ?r) K" "holds ps vc ?r (new_len ?r) V"
    using paged_step [OF B H run] i(1) I by metis
  from qs(1) obtain n where qn: "ta_shape q = [n, hq, dk]" by blast
  note kcn = sh(1) [unfolded cs(3)] and vcn = sh(2) [unfolded cs(4)]
  obtain tq tk tv cq ck mk causal tn where trn: "flash_attn_varlen_func ops inv_sqrt schedule' fresh' fresh_lse'
        (module_args tq tk tv (Some cq) (Some ck) (Some (PyNumber longest)) (Some mk) nd' (Some (PyNumber scale)) causal) = Ok out'"
    and tsh: "ta_data cq = cu" "ta_data ck = cu" "ta_shape tq = [tn, hq, dk]" "ta_shape tk = [tn, hk, dk]" "ta_shape tv = [tn, hk, dv]"
    and tt: "\<And>tok h d. h < hq \<Longrightarrow> d < dk \<Longrightarrow> access3 tq tok h d = token_row tquery tok h d"
      "\<And>tok h d. h < hk \<Longrightarrow> d < dk \<Longrightarrow> access3 tk tok h d = token_row tkey tok h d"
      "\<And>tok h d. h < hk \<Longrightarrow> d < dv \<Longrightarrow> access3 tv tok h d = token_row tval tok h d"
    by (rule trainer_step [OF T train]) blast
  let ?a = "paged_args dev (batch_context ps width kcs vcs reqs) q kc vc nd (Some (PyNumber scale))"
  let ?b = "module_args tq tk tv (Some cq) (Some ck) (Some (PyNumber longest)) (Some mk) nd' (Some (PyNumber scale)) causal"
  let ?x = "call_input ops ?a" and ?y = "call_input ops ?b"
  note A = paged_call [OF B qn kcn vcn, where dev = dev and kcs = kcs and vcs = vcs and nd = nd and scaling = "Some (PyNumber scale)"]
  note P = paged_places [OF B i(1), where z = ?z and q = "access3 q" and kc = "access4 kc" and vc = "access4 vc", folded A(6) [of ops]]
  have sorted: "sorted cu" using T(2) by (simp add: packed_with_def)
  note C = packed_call [OF tsh(3-5,1,2), where nd = nd' and scaling = "Some (PyNumber scale)" and causal = causal and longest = longest and mk = mk]
  note R = packed_places [OF sorted j(1), where q = "access3 tq" and k = "access3 tk" and v = "access3 tv", folded C(6) [of ops]]
  show ?thesis
  proof (intro conjI impI)
    show "\<exists>kcs' vcs'. st = Some (batch_context ps width kcs' vcs' reqs) \<and>
        holds ps (kcs' ! layer) ?r (new_len ?r) K \<and> holds ps (vcs' ! layer) ?r (new_len ?r) V"
      using st hold cs(1,2) by (intro exI [of _ "kcs[layer := kc]"] exI [of _ "vcs[layer := vc]"]) simp
  next
    assume p: "old_len ?r \<le> p" "p < new_len ?r" and hd: "head < hq" "d < dv"
      and ord: "ordinary_rows ops mma ?s scale ok fin Q K V ?m head p"
    have kv: "kv_head_of ?s head < hk"
    proof -
      obtain k where k: "hq = hk * k" using heads(1) by (rule dvdE)
      then have "hq div hk = k" using heads(2) by simp
      then show ?thesis using hd(1) less_mult_imp_div_less [of head hk k] k by simp
    qed
    have pj: "p < ?m" using p(2) j(3) by linarith
    have va: "valid_q ?x i p" and vb: "valid_q ?y j p" using p pj by (simp_all only: P(4) R(1) simp_thms)
    have tok: "token_at ?x i p = first_row reqs i + (p - old_len ?r)" "token_at ?y j p = cu ! j + p" using P(5) [OF va] R(2) [OF vb] .
    have S: "as_causal ?s" "0 < as_block_m ?s" "0 < as_block_n ?s" "as_block_n ?s dvd as_block_m ?s" "as_value_dim ?s \<le> as_block_d ?s"
      using call_shape_simps [of ?a] unfolding A(1) .
    have qx: "ai_query ?x (token_at ?x i p) head c = Q p head c" if "c < dk" for c
    proof -
      obtain e where e: "p = old_len ?r + e" using p(1) le_Suc_ex by blast
      then have "e < step_len ?r" using p(2) by linarith
      then have "token_row query (first_row reqs i + e) head c = Q (old_len ?r + e) head c" using I hd(1) that unfolding brings_def dims by blast
      then show ?thesis unfolding tok(1) using qs(2) [OF hd(1) that] e by (simp add: A(6) paged_input_def)
    qed
    have qy: "ai_query ?y (token_at ?y j p) head c = Q p head c" if "c < dk" for c
    proof -
      have "token_row tquery (cu ! j + p) head c = Q (0 + p) head c" using J hd(1) that pj unfolding brings_def dims by blast
      then show ?thesis unfolding tok(2) using tt(1) [OF hd(1) that] by (simp add: C(6) packed_input_def)
    qed
    have kx: "ai_key ?x i e (kv_head_of ?s head) c = K e (kv_head_of ?s head) c" if "e < new_len ?r" "c < dk" for e c
      using hold(1) that kv P(6) [OF that(1)] by (simp add: holds_def kcn)
    have vx: "ai_value ?x i e (kv_head_of ?s head) c = V e (kv_head_of ?s head) c" if "e < new_len ?r" "c < dv" for e c
      using hold(2) that kv P(7) [OF that(1)] by (simp add: holds_def vcn)
    have ky: "ai_key ?y j e (kv_head_of ?s head) c = K e (kv_head_of ?s head) c" if "e < ?m" "c < dk" for e c
    proof -
      have "token_row tkey (cu ! j + e) (kv_head_of ?s head) c = K (0 + e) (kv_head_of ?s head) c" using J kv that unfolding brings_def dims by blast
      then show ?thesis using tt(2) [OF kv that(2)] by (simp add: C(6) packed_input_def)
    qed
    have vy: "ai_value ?y j e (kv_head_of ?s head) c = V e (kv_head_of ?s head) c" if "e < ?m" "c < dv" for e c
    proof -
      have "token_row tval (cu ! j + e) (kv_head_of ?s head) c = V (0 + e) (kv_head_of ?s head) c" using J kv that unfolding brings_def dims by blast
      then show ?thesis using tt(3) [OF kv that(2)] by (simp add: C(6) packed_input_def)
    qed
    have lens: "ai_kv_len ?x i = new_len ?r" "ai_kv_len ?y j = ?m" using P(2) by (simp_all add: C(6) packed_input_def)
    have sx: "sequences_ok ?x (length reqs)" unfolding A(6) by (rule paged_sequences_ok [OF B])
    have sy: "sequences_ok ?y (length cu - 1)" unfolding C(6) by (rule packed_sequences_ok [OF sorted])
    have "tile_value ops ?s scale ?x i head p d = tile_value ops ?s scale ?y j head p d"
    proof (rule tile_value_prefix [OF rows laws S va vb])
      show "d < as_value_dim ?s" using hd(2) by simp
      show "agree_up_to ?s head ?x i ?y j p"
        unfolding agree_up_to_def using qx qy kx vx ky vy p(2) pj by simp
      show "ordinary ops mma ?s scale ok fin ?x i head p"
        by (rule ordinary_from_rows [OF ord]) (use lens j(3) qx kx vx in simp_all)
      show "ordinary ops mma ?s scale ok fin ?y j head p"
        by (rule ordinary_from_rows [OF ord]) (use lens qy ky vy in simp_all)
    qed
    moreover have "out (out_addr ?s (token_at ?x i p) head d) = tile_value ops ?s scale ?x i head p d"
      by (rule call_value [OF sched(1) gen, of scale i p head d, unfolded A(1-5)]) (use sx va hd i(1) table_covers [OF B i(1) p(2)] in simp_all)
    moreover have "out' (out_addr ?s (token_at ?y j p) head d) = tile_value ops ?s scale ?y j head p d"
      by (rule call_value [OF sched(2) trn, of scale j p head d, unfolded C(1,2,4,5)]) (use sy vb hd pj j(1,4) C(3) in simp_all)
    ultimately show "out (out_addr ?s (first_row reqs i + (p - old_len ?r)) head d) = out' (out_addr ?s (cu ! j + p) head d)"
      unfolding tok by simp
  qed
qed

end
