(* ===== verification/Flex_Attention.thy ===== *)
theory Flex_Attention
  imports Generation_Attention "HOL-Library.Multiset"
begin

text \<open>
  Attention on PyTorch's flex attention, \<open>src/vexact/batch_invariant_ops/flex_attention.py\<close>: the mask functions, the choice
  of a compiled function, the view of the paged cache and the module function. Over the pages a query is admitted to
  exactly the positions of its own sequence up to its own.
\<close>

section \<open>Mask functions\<close>

text \<open>\<open>mask_mod(b, h, q_idx, kv_idx)\<close>: tensors are indexed as in Python, so an index may be out of range.\<close>

type_synonym mask_mod = "int \<Rightarrow> int \<Rightarrow> int \<Rightarrow> int \<Rightarrow> bool res"

definition step_lengths :: "int list \<Rightarrow> int list" where
  "step_lengths loc = map2 (\<lambda>a b. b - a) (butlast loc) (tl loc)"

text \<open>\<open>torch.repeat_interleave(torch.arange(n), lengths)\<close>.\<close>

definition chunk_ids :: "int list \<Rightarrow> int list res" where
  "chunk_ids lengths =
     (if \<exists>l\<in>set lengths. l < 0 then Raise RuntimeError
      else Ok (concat (map (\<lambda>(i, l). replicate (nat l) (int i)) (enumerate 0 lengths))))"

definition torch_sub :: "int list \<Rightarrow> int list \<Rightarrow> int list res" where
  "torch_sub xs ys =
     (if length xs = length ys then Ok (map2 (-) xs ys)
      else if length ys = 1 then Ok (map (\<lambda>x. x - ys ! 0) xs)
      else if length xs = 1 then Ok (map (\<lambda>y. xs ! 0 - y) ys)
      else Raise RuntimeError)"

definition below_len :: "int list option \<Rightarrow> int \<Rightarrow> int \<Rightarrow> bool \<Rightarrow> bool res" where
  "below_len lens i kv_idx ok =
     (case lens of None \<Rightarrow> Ok ok | Some ls \<Rightarrow> rbind (py_get ls i) (\<lambda>l. Ok (ok \<and> kv_idx < l)))"

definition get_mask_mod :: "int list option \<Rightarrow> int list option \<Rightarrow> nat option \<Rightarrow> mask_mod res" where
  "get_mask_mod lens loc q_len =
     rbind (case (loc, lens) of
         (Some lo, Some ls) \<Rightarrow> rbind (torch_sub ls (step_lengths lo)) (\<lambda>d. Ok (Some d)) | _ \<Rightarrow> Ok None) (\<lambda>kv_offset.
     rbind (case (loc, kv_offset) of
         (Some lo, Some _) \<Rightarrow> if 2 < length lo \<and> q_len \<noteq> None then rbind (chunk_ids (step_lengths lo)) (\<lambda>m. Ok (Some (lo, m))) else Ok None
       | _ \<Rightarrow> Ok None) (\<lambda>chunk_mapping.
     Ok (\<lambda>b h q_idx kv_idx.
       case (chunk_mapping, kv_offset) of
         (Some (lo, m), Some off) \<Rightarrow>
           rbind (py_get m q_idx) (\<lambda>chunk. rbind (py_get off chunk) (\<lambda>base. rbind (py_get lo chunk) (\<lambda>q_start.
           below_len lens chunk kv_idx (kv_idx \<le> base + (q_idx - q_start)))))
       | (_, None) \<Rightarrow> below_len lens b kv_idx (kv_idx \<le> q_idx)
       | (_, Some off) \<Rightarrow> rbind (py_get off b) (\<lambda>base. below_len lens b kv_idx (kv_idx \<le> base + q_idx)))))"

text \<open>
  Which page of its sequence a physical block is, for every sequence: the row starts with -1 and is written at the
  blocks of the table. Where a row names a block twice the last entry stays; PyTorch leaves that order open.
\<close>

definition logical_row :: "nat \<Rightarrow> int list \<Rightarrow> int list res" where
  "logical_row num_blocks row =
     for_res (\<lambda>(j, b) acc. if b < 0 then Ok acc else py_set acc b (int j)) (enumerate 0 row) (replicate num_blocks (-1))"

definition physical_to_logical :: "nat \<Rightarrow> int list list \<Rightarrow> int list list res" where
  "physical_to_logical num_blocks tables = map_res (logical_row num_blocks) tables"

definition physical_mask_mod ::
    "nat \<Rightarrow> nat \<Rightarrow> int list list \<Rightarrow> int list \<Rightarrow> (int list \<times> int list \<times> int list) option \<Rightarrow> mask_mod" where
  "physical_mask_mod psz q_len p2l lens chunks b h q_idx kv_idx =
     rbind (case chunks of
         Some (m, off, lo) \<Rightarrow>
           rbind (py_get m q_idx) (\<lambda>seq_id. rbind (py_get off seq_id) (\<lambda>base. rbind (py_get lo seq_id) (\<lambda>q_start.
           Ok (seq_id, base + (q_idx - q_start)))))
       | None \<Rightarrow> rbind (py_get lens b) (\<lambda>l. Ok (b, (l - int q_len) + q_idx))) (\<lambda>(seq_id, abs_q).
     rbind (py_get p2l seq_id) (\<lambda>row.
     rbind (py_get row (kv_idx div int psz)) (\<lambda>logical_block.
     rbind (py_get lens seq_id) (\<lambda>l.
     let logical = logical_block * int psz + kv_idx mod int psz
     in Ok (0 \<le> logical_block \<and> logical \<le> abs_q \<and> logical < l)))))"

definition paged_mask :: "nat \<Rightarrow> nat \<Rightarrow> nat \<Rightarrow> nat \<Rightarrow> int list list \<Rightarrow> int list \<Rightarrow> int list option \<Rightarrow> mask_mod res" where
  "paged_mask num_blocks psz bsz q_len tables lens loc =
     rbind (physical_to_logical num_blocks tables) (\<lambda>p2l.
     rbind (case loc of
         Some lo \<Rightarrow> if bsz = 1 \<and> 2 < length lo
           then rbind (chunk_ids (step_lengths lo)) (\<lambda>m. rbind (torch_sub lens (step_lengths lo)) (\<lambda>off. Ok (Some (m, off, lo)))) else Ok None
       | None \<Rightarrow> Ok None) (\<lambda>chunks.
     Ok (physical_mask_mod psz q_len p2l lens chunks)))"

section \<open>Compiled functions\<close>

record compile_config =
  cc_fullgraph :: bool
  cc_mode :: "string option"
  cc_backend :: "string option"
  cc_dynamic :: bool

definition compile_config_presets :: "string \<rightharpoonup> compile_config" where
  "compile_config_presets =
     (let plain = \<lparr>cc_fullgraph = False, cc_mode = None, cc_backend = None, cc_dynamic = True\<rparr>;
          lean = plain\<lparr>cc_mode := Some ''reduce-overhead''\<rparr>
      in [''decode'' \<mapsto> plain, ''prefill'' \<mapsto> plain, ''decode_dynamic'' \<mapsto> lean, ''prefill_conservative'' \<mapsto> lean])"

definition get_compile_config :: "bool \<Rightarrow> string \<Rightarrow> compile_config res" where
  "get_compile_config is_decode preset =
     (let p = (if preset = ''default'' then (if is_decode then ''decode'' else ''prefill'') else preset)
      in case compile_config_presets p of None \<Rightarrow> Raise ValueError | Some c \<Rightarrow> Ok c)"

text \<open>The cache of compiled functions; \<open>compile\<close> stands for \<open>torch.compile\<close> with the options that are set.\<close>

type_synonym compile_key = "bool \<times> string option \<times> bool \<times> string option \<times> bool"

definition get_compiled ::
    "(compile_config \<Rightarrow> 'fn) \<Rightarrow> compile_config \<Rightarrow> bool \<Rightarrow> (compile_key \<rightharpoonup> 'fn) \<Rightarrow> 'fn \<times> (compile_key \<rightharpoonup> 'fn)" where
  "get_compiled compile cfg page_flag compiled =
     (let key = (cc_dynamic cfg, cc_mode cfg, cc_fullgraph cfg, cc_backend cfg, page_flag)
      in case compiled key of Some f \<Rightarrow> (f, compiled)
         | None \<Rightarrow> (compile cfg, compiled(key \<mapsto> compile cfg)))"

section \<open>Strided tensors\<close>

text \<open>
  The keys and values of a call are stored row by row, which is right only for some memory layouts; so they are modelled
  with the storage that \<open>data_ptr()\<close> points to and the strides. \<open>elements\<close> reads such a tensor by index.
\<close>

record 'f strided =
  sd_shape :: "nat list"
  sd_strides :: "nat list"
  sd_cuda :: bool
  sd_device :: nat
  sd_mem :: "'f memory"

definition address :: "nat list \<Rightarrow> nat list \<Rightarrow> nat" where
  "address st ix = sum_list (map2 (*) st ix)"

definition elements :: "'f strided \<Rightarrow> 'f float_arg" where
  "elements t = \<lparr>ta_shape = sd_shape t, ta_cuda = sd_cuda t, ta_int32 = False, ta_device = sd_device t,
     ta_data = (\<lambda>ix. sd_mem t (int (address (sd_strides t) ix)))\<rparr>"

text \<open>The strides of a contiguous tensor.\<close>

fun row_major :: "nat list \<Rightarrow> nat list" where
  "row_major [] = []"
| "row_major (n # ns) = prod_list ns # row_major ns"

text \<open>\<open>x.transpose(1, 2)\<close> is a view: the storage stays, two dimensions change places.\<close>

definition strided_transpose12 :: "'f strided \<Rightarrow> 'f strided res" where
  "strided_transpose12 t = (if length (sd_shape t) < 3 then Raise IndexError
     else let swap = (\<lambda>xs. xs[1 := xs ! 2, 2 := xs ! 1])
          in Ok (t\<lparr>sd_shape := swap (sd_shape t), sd_strides := swap (sd_strides t)\<rparr>))"

text \<open>
  \<open>x.reshape(-1, h, d)\<close> is a view where PyTorch finds strides for one, which \<open>view shape strides new_shape\<close> gives, and a
  contiguous copy otherwise.
\<close>

definition strided_reshape ::
    "(nat list \<Rightarrow> nat list \<Rightarrow> nat list \<Rightarrow> nat list option) \<Rightarrow> nat \<Rightarrow> nat \<Rightarrow> 'f strided \<Rightarrow> 'f strided res" where
  "strided_reshape view h d t =
     (let n = prod_list (sd_shape t)
      in if h * d = 0 \<or> n mod (h * d) \<noteq> 0 then Raise RuntimeError
         else let shp = [n div (h * d), h, d]
              in Ok (case view (sd_shape t) (sd_strides t) shp of
                   Some st \<Rightarrow> t\<lparr>sd_shape := shp, sd_strides := st\<rparr>
                 | None \<Rightarrow> t\<lparr>sd_shape := shp, sd_strides := row_major shp,
                     sd_mem := (\<lambda>a. ta_data (elements t) (unflat (sd_shape t) (nat a)))\<rparr>))"

definition strided_rows :: "'f strided \<Rightarrow> 'f row_tensor" where
  "strided_rows t = \<lparr>rt_data = sd_mem t, rt_rows = sd_shape t ! 0, rt_num_heads = sd_shape t ! 1, rt_head_dim = sd_shape t ! 2,
     rt_stride0 = int (sd_strides t ! 0), rt_stride1 = int (sd_strides t ! 1), rt_stride_last = int (last (sd_strides t))\<rparr>"

definition store_strided ::
    "'f float_arg list \<Rightarrow> 'f float_arg list \<Rightarrow> nat \<Rightarrow> int list option \<Rightarrow> 'f strided \<Rightarrow> 'f strided
       \<Rightarrow> ('f float_arg list \<times> 'f float_arg list) res" where
  "store_strided kcs vcs layer slots k v =
     (case slots of None \<Rightarrow> Raise AttributeError
      | Some sl \<Rightarrow> rbind (store_kvcache next_power_of_2 (strided_rows k) (strided_rows v)
             (int (dim (kcs ! layer) 2 * dim (kcs ! layer) 3)) (int (dim (vcs ! layer) 2 * dim (vcs ! layer) 3)) sl
             (tensor_mem (kcs ! layer)) (tensor_mem (vcs ! layer))) (\<lambda>(km, vm).
          Ok (kcs[layer := with_mem (kcs ! layer) km], vcs[layer := with_mem (vcs ! layer) vm])))"

section \<open>The module function\<close>

definition kernel_block_size :: nat where
  "kernel_block_size = 64"

text \<open>
  \<open>create_block_mask\<close> and \<open>flex_attention\<close> belong to PyTorch, as does the choice of the strides of a view; \<open>'m\<close> is the
  type of block masks.
\<close>

record ('f, 'a, 'm) flex_lib =
  create_block_mask :: "mask_mod \<Rightarrow> nat \<Rightarrow> nat \<Rightarrow> nat \<Rightarrow> nat \<Rightarrow> nat \<Rightarrow> 'm res"
  flex_attention :: "'f float_arg \<Rightarrow> 'f float_arg option \<Rightarrow> 'f float_arg option \<Rightarrow> 'm \<Rightarrow> 'a \<Rightarrow> nat \<times> nat \<Rightarrow> 'f float_arg res"
  view_strides :: "nat list \<Rightarrow> nat list \<Rightarrow> nat list \<Rightarrow> nat list option"

text \<open>The view \<open>(num_blocks, page_size, H, D) -> (1, H, total_slots, D)\<close>, where \<open>D\<close> is the head size of the queries.\<close>

definition slot_view :: "nat \<Rightarrow> nat \<Rightarrow> nat \<Rightarrow> nat \<Rightarrow> 'f float_arg \<Rightarrow> 'f float_arg res" where
  "slot_view num_blocks psz kv_heads hdim t =
     (let shp = [num_blocks * psz, kv_heads, hdim]
      in if prod_list shp \<noteq> prod_list (ta_shape t) then Raise RuntimeError
         else Ok (t\<lparr>ta_shape := [1, kv_heads, num_blocks * psz, hdim],
                ta_data := (\<lambda>ix. ta_data t (unflat (ta_shape t) (flat_ix shp [ix ! 2, ix ! 1, ix ! 3])))\<rparr>))"

definition opt_get :: "py_error \<Rightarrow> 'b option \<Rightarrow> 'b res" where
  "opt_get e x = (case x of None \<Rightarrow> Raise e | Some y \<Rightarrow> Ok y)"

text \<open>The context keeps the block mask of a step in \<open>_paged_block_mask\<close>, here the argument \<open>cached\<close>.\<close>

definition prepare_paged_kv ::
    "('f, 'a, 'm) flex_lib \<Rightarrow> nat \<Rightarrow> 'f caches \<Rightarrow> 'm option \<Rightarrow> 'f float_arg \<Rightarrow> 'f strided option \<Rightarrow> 'f strided option
       \<Rightarrow> ('f float_arg \<times> 'f float_arg \<times> 'm \<times> 'f caches) res" where
  "prepare_paged_kv lib layer c cached query key val =
     rbind (opt_get TypeError (key_cache c)) (\<lambda>kcs. rbind (py_get kcs (int layer)) (\<lambda>kc.
     if length (ta_shape kc) \<noteq> 4 then Raise ValueError
     else let num_blocks = dim kc 0; psz = dim kc 1; kv_heads = dim kc 2; hdim = dim query 3 in
     rbind (opt_get TypeError (value_cache c)) (\<lambda>vcs.
     rbind (case key of None \<Rightarrow> Ok (kcs, vcs)
       | Some k \<Rightarrow> rbind (rbind (strided_transpose12 k) (strided_reshape (view_strides lib) kv_heads hdim)) (\<lambda>k'.
           rbind (opt_get AttributeError val) (\<lambda>v. rbind (rbind (strided_transpose12 v) (strided_reshape (view_strides lib) kv_heads hdim)) (\<lambda>v'.
           if length vcs \<le> layer then Raise IndexError else store_strided kcs vcs layer (slot_mapping c) k' v')))) (\<lambda>(kcs', vcs').
     rbind (slot_view num_blocks psz kv_heads hdim (kcs' ! layer)) (\<lambda>kview.
     rbind (py_get vcs' (int layer)) (\<lambda>vc. rbind (slot_view num_blocks psz kv_heads hdim vc) (\<lambda>vview.
     rbind (case cached of Some m \<Rightarrow> Ok m
       | None \<Rightarrow> rbind (opt_get AttributeError (block_tables c)) (\<lambda>tables. rbind (opt_get TypeError (context_lens c)) (\<lambda>lens.
           rbind (paged_mask num_blocks psz (dim query 0) (dim query 2) tables lens (query_start_loc c)) (\<lambda>mask.
           create_block_mask lib mask (dim query 0) (dim query 1) (dim query 2) (num_blocks * psz) kernel_block_size)))) (\<lambda>m.
     Ok (kview, vview, m, c\<lparr>key_cache := Some kcs', value_cache := Some vcs'\<rparr>)))))))))"

text \<open>\<open>_flatten_attn_output\<close>: from \<open>(B, H, Q, D)\<close> to \<open>(B * Q, H, D)\<close>.\<close>

definition flatten_attn_output :: "'f float_arg \<Rightarrow> 'f float_arg res" where
  "flatten_attn_output t =
     (if length (ta_shape t) \<noteq> 4 then Raise ValueError
      else Ok (t\<lparr>ta_shape := [dim t 0 * dim t 2, dim t 1, dim t 3],
             ta_data := (\<lambda>ix. ta_data t [ix ! 0 div dim t 2, ix ! 1, ix ! 0 mod dim t 2, ix ! 2])\<rparr>))"

definition flex_packed ::
    "('f, 'a, 'm) flex_lib \<Rightarrow> 'f caches \<Rightarrow> 'f float_arg \<Rightarrow> 'f strided option \<Rightarrow> 'f strided option \<Rightarrow> 'a \<Rightarrow> 'f float_arg res" where
  "flex_packed lib c query key val scaling =
     (case key of None \<Rightarrow> Raise AttributeError
      | Some k \<Rightarrow> if length (sd_shape k) < 3 then Raise IndexError
         else rbind (get_mask_mod (context_lens c) (query_start_loc c) (Some (dim query 2))) (\<lambda>mask.
         rbind (create_block_mask lib mask (dim query 0) (dim query 1) (dim query 2) (sd_shape k ! 2) kernel_block_size) (\<lambda>m.
         flex_attention lib query (Some (elements k)) (map_option elements val) m scaling (kernel_block_size, kernel_block_size))))"

text \<open>With \<open>FLEX_ATTENTION_USE_COMPILE = False\<close>, as the module sets it, the configuration is chosen but not used.\<close>

definition flex_attention_forward ::
    "('f, 'a, 'm) flex_lib \<Rightarrow> 'f caches option \<Rightarrow> 'm option \<Rightarrow> attn_module \<Rightarrow> 'f float_arg \<Rightarrow> 'f strided option \<Rightarrow> 'f strided option
       \<Rightarrow> 'a \<Rightarrow> call_keywords \<Rightarrow> ('f float_arg \<times> 'f caches option \<times> 'm option) res" where
  "flex_attention_forward lib storage cached md query key val scaling kw =
     (if length (ta_shape query) \<noteq> 4 then Raise ValueError
      else rbind (get_compile_config (dim query 2 = 1) ''default'') (\<lambda>cfg.
      case get_kv_cache_context storage of
        None \<Rightarrow> Raise AttributeError
      | Some c \<Rightarrow>
          if \<not> is_paged_attn c then
            rbind (flex_packed lib c query key val scaling) (\<lambda>out.
            rbind (flatten_attn_output out) (\<lambda>flat. Ok (flat, storage, cached)))
          else
            rbind (layer_index md kw) (\<lambda>layer.
            rbind (prepare_paged_kv lib layer c cached query key val) (\<lambda>(k, v, m, c').
            rbind (flex_attention lib query (Some k) (Some v) m scaling (kernel_block_size, kernel_block_size)) (\<lambda>out.
            rbind (flatten_attn_output out) (\<lambda>flat. Ok (flat, Some c', Some m)))))))"

section \<open>What the masks admit\<close>

lemma logical_row_tail: "for_res (\<lambda>(j, b) acc. if b < 0 then Ok acc else py_set acc b (int j)) (enumerate n (replicate k (-1))) L = Ok L"
  by (induction k arbitrary: n) simp_all

lemma logical_row_head:
  assumes "distinct bs" "set bs \<subseteq> {0..<int nb}"
  shows "\<exists>L. for_res (\<lambda>(j, b) acc. if b < 0 then Ok acc else py_set acc b (int j)) (enumerate 0 bs) (replicate nb (-1)) = Ok L \<and>
    length L = nb \<and> (\<forall>j<length bs. L ! nat (bs ! j) = int j) \<and> (\<forall>b<nb. int b \<notin> set bs \<longrightarrow> L ! b = -1)"
  using assms
proof (induction bs rule: rev_induct)
  case (snoc b bs)
  then obtain L where L: "for_res (\<lambda>(j, b) acc. if b < 0 then Ok acc else py_set acc b (int j)) (enumerate 0 bs) (replicate nb (-1)) = Ok L"
    "length L = nb" "\<forall>j<length bs. L ! nat (bs ! j) = int j" "\<forall>b<nb. int b \<notin> set bs \<longrightarrow> L ! b = -1"
    by auto
  have b: "0 \<le> b" "b < int nb" "b \<notin> set bs" using snoc.prems by auto
  have other: "nat (bs ! j) \<noteq> nat b" if "j < length bs" for j
  proof -
    have "bs ! j \<in> set bs" using that by simp
    then have "0 \<le> bs ! j" "bs ! j \<noteq> b" using snoc.prems by auto
    then show ?thesis using b(1) by (simp add: nat_eq_iff)
  qed
  have "for_res (\<lambda>(j, b) acc. if b < 0 then Ok acc else py_set acc b (int j)) (enumerate 0 (bs @ [b])) (replicate nb (-1)) = Ok (L[nat b := int (length bs)])"
    using L(1,2) b by (simp add: enumerate_append_eq for_res_append py_set_in_range)
  moreover have "\<forall>j<length (bs @ [b]). L[nat b := int (length bs)] ! nat ((bs @ [b]) ! j) = int j"
    using L(2,3) b not_sym [OF other] by (auto simp: nth_append less_Suc_eq nth_list_update_neq)
  moreover have "\<forall>c<nb. int c \<notin> set (bs @ [b]) \<longrightarrow> L[nat b := int (length bs)] ! c = -1"
    using L(2,4) b by (auto simp: nth_list_update)
  ultimately show ?case using L(2) by auto
qed simp

lemma logical_row_Ok:
  assumes "distinct bs" "set bs \<subseteq> {0..<int nb}"
  obtains L where "logical_row nb (bs @ replicate k (-1)) = Ok L" "length L = nb"
    "\<And>j. j < length bs \<Longrightarrow> L ! nat (bs ! j) = int j" "\<And>b. b < nb \<Longrightarrow> int b \<notin> set bs \<Longrightarrow> L ! b = -1"
  using logical_row_head [OF assms] by (auto simp: logical_row_def enumerate_append_eq for_res_append logical_row_tail)

lemma step_lengths_sums: "step_lengths (a # running_sums a ts) = ts"
proof -
  have "map2 (\<lambda>a b. b - a) (butlast (a # running_sums a ts)) (running_sums a ts) = ts"
    by (induction ts arbitrary: a) simp_all
  then show ?thesis by (simp add: step_lengths_def)
qed

text \<open>Query \<open>first_row reqs i + j\<close> of a packed batch belongs to request \<open>i\<close>.\<close>

lemma chunk_of_query:
  assumes "\<forall>r\<in>set reqs. 0 \<le> tokens_this_step r"
  obtains m where "chunk_ids (map tokens_this_step reqs) = Ok m"
    "\<And>i j. i < length reqs \<Longrightarrow> j < step_len (reqs ! i) \<Longrightarrow> py_get m (int (first_row reqs i + j)) = Ok (int i)"
proof -
  let ?xss = "map (\<lambda>(i, l). replicate (nat l) (int i)) (enumerate 0 (map tokens_this_step reqs))"
  have len: "map length ?xss = map step_len reqs"
    by (rule nth_equalityI) (simp_all add: nth_enumerate_eq)
  have "py_get (concat ?xss) (int (first_row reqs i + j)) = Ok (int i)" if "i < length reqs" "j < step_len (reqs ! i)" for i j
  proof -
    have f: "first_row reqs i = sum_list (map length (take i ?xss))"
      unfolding first_row_def take_map [symmetric] len by simp
    have "length (concat ?xss) = sum_list (map step_len reqs)" unfolding length_concat len ..
    then have "first_row reqs i + j < length (concat ?xss)" using first_row_less [OF that] by simp
    moreover have "concat ?xss ! (first_row reqs i + j) = int i"
      unfolding f using concat_at [of i ?xss j] that by (simp add: nth_enumerate_eq)
    ultimately show ?thesis by (simp add: py_get_in_range del: of_nat_add)
  qed
  moreover have "chunk_ids (map tokens_this_step reqs) = Ok (concat ?xss)" using assms by (auto simp: chunk_ids_def)
  ultimately show thesis by (rule that [rotated])
qed

text \<open>Two positions of a request have different slots.\<close>

lemma slot_at_inj:
  assumes "covered (int ps) blocks r" "0 < ps" "p < new_len r" "p' < new_len r" "slot_at (int ps) r (int p) = slot_at (int ps) r (int p')"
  shows "p = p'"
proof -
  note P = slot_of_block [OF assms(1-3)] page_in_range(1) [OF assms(1-3)] and P' = slot_of_block [OF assms(1,2,4)] page_in_range(1) [OF assms(1,2,4)]
  have "block_ids r ! (p div ps) = block_ids r ! (p' div ps)" "p mod ps = p' mod ps" using P(1,2) P'(1,2) assms(5) by simp_all
  moreover have "distinct (block_ids r)" using assms(1) by (simp add: covered_def)
  ultimately have "p div ps = p' div ps" using P(3) P'(3) by (simp add: nth_eq_iff_index_eq)
  with \<open>p mod ps = p' mod ps\<close> show ?thesis by (metis div_mult_mod_eq)
qed

text \<open>What a row of the physical-to-logical table says of a slot.\<close>

lemma admitted_slot:
  assumes cov: "covered (int ps) blocks r" and ps: "0 < ps" and p: "p < new_len r" and x: "x < nb * ps"
    and L: "length L = nb" "\<And>j. j < length (block_ids r) \<Longrightarrow> L ! nat (block_ids r ! j) = int j" "\<And>b. b < nb \<Longrightarrow> int b \<notin> set (block_ids r) \<Longrightarrow> L ! b = -1"
  shows "(let lb = L ! (x div ps); logical = lb * int ps + int x mod int ps in 0 \<le> lb \<and> logical \<le> int p \<and> logical < num_computed_tokens r) \<longleftrightarrow>
    (\<exists>p'\<le>p. int x = slot_at (int ps) r (int p'))"
proof
  assume ok: "let lb = L ! (x div ps); logical = lb * int ps + int x mod int ps in 0 \<le> lb \<and> logical \<le> int p \<and> logical < num_computed_tokens r"
  have xb: "x div ps < nb" using x ps by (simp add: less_mult_imp_div_less)
  with ok L(3) [OF xb] have "int (x div ps) \<in> set (block_ids r)" unfolding Let_def by linarith
  then obtain j where j: "j < length (block_ids r)" "block_ids r ! j = int (x div ps)" by (auto simp: in_set_conv_nth)
  have lj: "L ! (x div ps) = int j" using L(2) [OF j(1)] by (simp add: j(2))
  let ?q = "j * ps + x mod ps"
  have q: "?q \<le> p"
    using ok by (simp add: lj Let_def of_nat_mod [symmetric] of_nat_mult [symmetric] of_nat_add [symmetric] del: of_nat_mult of_nat_add)
  have "?q div ps = j" "?q mod ps = x mod ps" using ps by simp_all
  then have "slot_at (int ps) r (int ?q) = int x"
    unfolding slot_at_def of_nat_div [symmetric] of_nat_mod [symmetric] nat_int
    by (simp add: j(2) of_nat_mult [symmetric] of_nat_add [symmetric] del: of_nat_mult of_nat_add)
  with q show "\<exists>p'\<le>p. int x = slot_at (int ps) r (int p')" by metis
next
  assume "\<exists>p'\<le>p. int x = slot_at (int ps) r (int p')"
  then obtain p' where p': "p' \<le> p" "int x = slot_at (int ps) r (int p')" by blast
  then have less: "p' < new_len r" using p by simp
  note S = slot_of_block [OF cov ps less, folded p'(2)] page_in_range(1) [OF cov ps less]
  have "L ! (x div ps) = int (p' div ps)"
    using L(2) [OF S(3)] by (simp add: S(1) [symmetric] of_nat_div [symmetric])
  moreover have "int (p' div ps) * int ps + int x mod int ps = int p'"
    unfolding S(2) by (metis div_mult_mod_eq of_nat_add of_nat_mult)
  ultimately show "let lb = L ! (x div ps); logical = lb * int ps + int x mod int ps in 0 \<le> lb \<and> logical \<le> int p \<and> logical < num_computed_tokens r"
    using p'(1) less by (simp add: Let_def)
qed

lemma map_res_map: "map_res f (map g xs) = map_res (f \<circ> g) xs"
  by (induction xs) simp_all

text \<open>
  The mask of a batch that fits: the query at position \<open>p\<close> of request \<open>i\<close> may read exactly the slots of the positions
  of that request up to \<open>p\<close>.
\<close>

lemma paged_mask_admits:
  assumes B: "batch_fits ps blocks width reqs" and nb: "blocks \<le> int nb"
  obtains mask where "paged_mask nb ps 1 (sum_list (map step_len reqs))
        (map (\<lambda>r. block_ids r @ replicate (width - length (block_ids r)) (-1)) reqs) (map num_computed_tokens reqs)
        (Some (0 # running_sums 0 (map tokens_this_step reqs))) = Ok mask"
    "\<And>h i p x. i < length reqs \<Longrightarrow> old_len (reqs ! i) \<le> p \<Longrightarrow> p < new_len (reqs ! i) \<Longrightarrow> x < nb * ps \<Longrightarrow>
       mask 0 h (int (first_row reqs i + (p - old_len (reqs ! i)))) (int x) = Ok (\<exists>p'\<le>p. int x = slot_at (int ps) (reqs ! i) (int p'))"
proof -
  note F = batch_fitsD [OF B]
  have steps: "\<forall>r\<in>set reqs. 0 \<le> tokens_this_step r" using F(5) by (auto simp: covered_def)
  let ?row = "\<lambda>r. block_ids r @ replicate (width - length (block_ids r)) (-1)"
  define L where "L r = (case logical_row nb (?row r) of Ok l \<Rightarrow> l | _ \<Rightarrow> [])" for r :: "'a inference_request"
  have L: "logical_row nb (?row r) = Ok (L r)" "length (L r) = nb" "j < length (block_ids r) \<Longrightarrow> L r ! nat (block_ids r ! j) = int j"
    "b < nb \<Longrightarrow> int b \<notin> set (block_ids r) \<Longrightarrow> L r ! b = -1" if r: "r \<in> set reqs" for r j b
  proof -
    have "distinct (block_ids r)" "set (block_ids r) \<subseteq> {0..<int nb}" using F(5) [OF r] nb by (auto simp: covered_def)
    from logical_row_Ok [OF this, of "width - length (block_ids r)"] obtain l where l: "logical_row nb (?row r) = Ok l" "length l = nb"
      "\<And>j. j < length (block_ids r) \<Longrightarrow> l ! nat (block_ids r ! j) = int j" "\<And>b. b < nb \<Longrightarrow> int b \<notin> set (block_ids r) \<Longrightarrow> l ! b = -1" by blast
    then have "L r = l" by (simp add: L_def)
    then show "logical_row nb (?row r) = Ok (L r)" "length (L r) = nb" "j < length (block_ids r) \<Longrightarrow> L r ! nat (block_ids r ! j) = int j"
      "b < nb \<Longrightarrow> int b \<notin> set (block_ids r) \<Longrightarrow> L r ! b = -1" using l by simp_all
  qed
  have p2l: "physical_to_logical nb (map ?row reqs) = Ok (map L reqs)"
    unfolding physical_to_logical_def map_res_map using map_res_all_Ok [of reqs "logical_row nb \<circ> ?row" L] L(1) by simp
  obtain m where m: "chunk_ids (map tokens_this_step reqs) = Ok m"
    "\<And>i j. i < length reqs \<Longrightarrow> j < step_len (reqs ! i) \<Longrightarrow> py_get m (int (first_row reqs i + j)) = Ok (int i)"
    by (rule chunk_of_query [OF steps]) blast
  let ?lo = "0 # running_sums 0 (map tokens_this_step reqs)" and ?lens = "map num_computed_tokens reqs"
  let ?off = "map2 (-) ?lens (map tokens_this_step reqs)"
  let ?chunks = "if 2 < length ?lo then Some (m, ?off, ?lo) else None"
  let ?mask = "physical_mask_mod ps (sum_list (map step_len reqs)) (map L reqs) ?lens ?chunks"
  have "paged_mask nb ps 1 (sum_list (map step_len reqs)) (map ?row reqs) ?lens (Some ?lo) = Ok ?mask"
    by (simp add: paged_mask_def p2l step_lengths_sums m(1) torch_sub_def)
  moreover have "?mask 0 h (int (first_row reqs i + (p - old_len (reqs ! i)))) (int x) = Ok (\<exists>p'\<le>p. int x = slot_at (int ps) (reqs ! i) (int p'))"
    if i: "i < length reqs" and p: "old_len (reqs ! i) \<le> p" "p < new_len (reqs ! i)" and x: "x < nb * ps" for h i p x
  proof -
    let ?r = "reqs ! i" and ?q = "int (first_row reqs i + (p - old_len (reqs ! i)))"
    have ri: "?r \<in> set reqs" using i by simp
    have c: "0 \<le> tokens_this_step ?r" "tokens_this_step ?r \<le> num_computed_tokens ?r" using F(5) [OF ri] by (auto simp: covered_def)
    have j: "p - old_len ?r < step_len ?r" using p c by linarith
    have "?lo ! i = int (first_row reqs i)"
    proof (cases i)
      case (Suc k)
      then have "int (first_row reqs i) = sum_list (map tokens_this_step (take i reqs))"
        unfolding first_row_def using steps by (intro sum_steps) (auto dest: in_set_takeD)
      then show ?thesis using i Suc by (simp add: running_sums_nth take_map)
    qed (simp add: first_row_def)
    then have lo: "py_get ?lo (int i) = Ok (int (first_row reqs i))" using i by (simp add: py_get_in_range)
    have place: "rbind (case ?chunks of Some (m, off, lo) \<Rightarrow> rbind (py_get m ?q) (\<lambda>seq_id. rbind (py_get off seq_id) (\<lambda>base.
          rbind (py_get lo seq_id) (\<lambda>q_start. Ok (seq_id, base + (?q - q_start)))))
        | None \<Rightarrow> rbind (py_get ?lens 0) (\<lambda>l. Ok (0, (l - int (sum_list (map step_len reqs))) + ?q))) f = f (int i, int p)" for f :: "int \<times> int \<Rightarrow> bool res"
    proof (cases "2 < length ?lo")
      case True
      have off: "py_get ?off (int i) = Ok (num_computed_tokens ?r - tokens_this_step ?r)" using i by (simp add: py_get_in_range)
      have pos: "num_computed_tokens ?r - tokens_this_step ?r + (?q - int (first_row reqs i)) = int p" using p(1) c by linarith
      show ?thesis unfolding if_P [OF True] option.case prod.case m(2) [OF i j] rbind.simps off lo pos ..
    next
      case False
      then have one: "length reqs = Suc 0" using i by (cases reqs) auto
      then have i0: "int i = 0" using i by simp
      from one obtain r where "reqs = [r]" by (auto simp: length_Suc_conv)
      then have pos: "num_computed_tokens ?r - int (sum_list (map step_len reqs)) + ?q = int p"
        using p(1) c i0 by (simp add: first_row_def)
      have lens: "py_get ?lens 0 = Ok (num_computed_tokens ?r)" using i i0 by (simp add: py_get_in_range)
      show ?thesis unfolding if_not_P [OF False] option.case lens rbind.simps pos i0 ..
    qed
    have xb: "x div ps < nb" using x F(1) by (simp add: less_mult_imp_div_less)
    have row: "py_get (map L reqs) (int i) = Ok (L ?r)" "py_get ?lens (int i) = Ok (num_computed_tokens ?r)" using i by (simp_all add: py_get_in_range)
    have blk: "py_get (L ?r) (int x div int ps) = Ok (L ?r ! (x div ps))"
      using xb L(2) [OF ri] unfolding of_nat_div [symmetric] by (simp add: py_get_in_range)
    have "?mask 0 h ?q (int x) = Ok (let lb = L ?r ! (x div ps); logical = lb * int ps + int x mod int ps in 0 \<le> lb \<and> logical \<le> int p \<and> logical < num_computed_tokens ?r)"
      unfolding physical_mask_mod_def place by (simp add: row blk Let_def)
    also have "\<dots> = Ok (\<exists>p'\<le>p. int x = slot_at (int ps) ?r (int p'))"
      by (subst admitted_slot [OF F(5) [OF ri] F(1) p(2) x L(2-4) [OF ri]]) simp_all
    finally show ?thesis .
  qed
  ultimately show thesis by (rule that)
qed

section \<open>A step over the pages\<close>

text \<open>A query of the packed batch belongs to a position of a request.\<close>

lemma query_of_batch:
  assumes "q < sum_list (map step_len reqs)"
  obtains i j where "i < length reqs" "j < step_len (reqs ! i)" "q = first_row reqs i + j"
proof -
  have "\<exists>i<k. \<exists>j<step_len (reqs ! i). q = first_row reqs i + j" if "k \<le> length reqs" "q < first_row reqs k" for k
    using that
  proof (induction k)
    case (Suc k)
    show ?case
    proof (cases "q < first_row reqs k")
      case True
      then show ?thesis using Suc by (auto intro: less_SucI)
    next
      case False
      then have "q - first_row reqs k < step_len (reqs ! k)" "q = first_row reqs k + (q - first_row reqs k)"
        using Suc.prems first_row_Suc [of k reqs] by simp_all
      then show ?thesis by blast
    qed
  qed (simp add: first_row_def)
  from this [of "length reqs"] show thesis using that assms by (auto simp: first_row_def)
qed

lemma slot_view_Ok:
  assumes "ta_shape t = [nb, ps, hk, dk]"
  obtains w where "slot_view nb ps hk dk t = Ok w" "ta_shape w = [1, hk, nb * ps, dk]"
    "\<And>b h x d. h < hk \<Longrightarrow> d < dk \<Longrightarrow> 0 < ps \<Longrightarrow> ta_data w [b, h, x, d] = access4 t (x div ps) (x mod ps) h d"
proof -
  have cell: "unflat [nb, ps, hk, dk] (flat_ix [nb * ps, hk, dk] [x, h, d]) = [x div ps, x mod ps, h, d]" if "h < hk" "d < dk" "0 < ps" for h x d
  proof -
    have "x * (hk * dk) = x div ps * (ps * (hk * dk)) + x mod ps * (hk * dk)"
      by (metis add_mult_distrib div_mult_mod_eq mult.assoc)
    then have "flat_ix [nb * ps, hk, dk] [x, h, d] = x div ps * prod_list [ps, hk, dk] + flat_ix [ps, hk, dk] [x mod ps, h, d]"
      by (simp add: flat_ix_Cons)
    then show ?thesis using unflat_flat [of "[x mod ps, h, d]" "[ps, hk, dk]" nb "x div ps"] that by simp
  qed
  show thesis
    by (rule that [of "t\<lparr>ta_shape := [1, hk, nb * ps, dk], ta_data := (\<lambda>ix. ta_data t (unflat (ta_shape t) (flat_ix [nb * ps, hk, dk] [ix ! 2, ix ! 1, ix ! 3])))\<rparr>"])
      (simp_all add: slot_view_def assms cell mult.assoc Let_def del: unflat.simps)
qed

text \<open>
  Flex attention as PyTorch documents it: the output row of a query is a function \<open>sem\<close> of the scale, the query row
  and the key and value rows that the mask admits.
\<close>

abbreviation head_row :: "'f float_arg \<Rightarrow> nat \<Rightarrow> nat \<Rightarrow> nat \<Rightarrow> 'f list" where
  "head_row t b h i \<equiv> map (\<lambda>d. ta_data t [b, h, i, d]) [0..<dim t 3]"

definition flex_computes :: "('f, 'a, 'm) flex_lib \<Rightarrow> ('a \<Rightarrow> 'f list \<Rightarrow> ('f list \<times> 'f list) multiset \<Rightarrow> nat \<Rightarrow> 'f) \<Rightarrow> bool" where
  "flex_computes lib sem \<longleftrightarrow>
     (\<forall>mask adm q k v scale B hq l hk n dk dv.
        ta_shape q = [B, hq, l, dk] \<and> ta_shape k = [B, hk, n, dk] \<and> ta_shape v = [B, hk, n, dv] \<and> 0 < hk \<and> hk dvd hq \<and>
        (\<forall>b<B. \<forall>h<hq. \<forall>i<l. \<forall>j<n. mask (int b) (int h) (int i) (int j) = Ok (adm b h i j)) \<longrightarrow>
        (\<exists>m out. create_block_mask lib mask B hq l n kernel_block_size = Ok m \<and>
           flex_attention lib q (Some k) (Some v) m scale (kernel_block_size, kernel_block_size) = Ok out \<and> ta_shape out = [B, hq, l, dv] \<and>
           (\<forall>b<B. \<forall>h<hq. \<forall>i<l. \<forall>d<dv. ta_data out [b, h, i, d] =
              sem scale (head_row q b h i) (mset (map (\<lambda>j. (head_row k b (h div (hq div hk)) j, head_row v b (h div (hq div hk)) j)) (filter (adm b h i) [0..<n]))) d)))"

text \<open>The mask kept in the context is the one of this step, or there is none yet.\<close>

definition mask_of_step :: "('f, 'a, 'm) flex_lib \<Rightarrow> nat \<Rightarrow> nat \<Rightarrow> nat \<Rightarrow> nat \<Rightarrow> 'g inference_request list \<Rightarrow> 'm res" where
  "mask_of_step lib nb ps width hq reqs =
     (let n = sum_list (map step_len reqs)
      in rbind (paged_mask nb ps 1 n (map (\<lambda>r. block_ids r @ replicate (width - length (block_ids r)) (-1)) reqs) (map num_computed_tokens reqs)
            (Some (0 # running_sums 0 (map tokens_this_step reqs))))
          (\<lambda>mask. create_block_mask lib mask 1 hq n (nb * ps) kernel_block_size))"

text \<open>The admitted slots of a query are the slots of its prefix, each once.\<close>

lemma admitted_rows:
  assumes cov: "covered (int ps) blocks r" "0 < ps" "blocks \<le> int nb" and p: "p < new_len r"
  shows "mset (map f (filter (\<lambda>x. \<exists>p'\<le>p. int x = slot_at (int ps) r (int p')) [0..<nb * ps])) =
    mset (map (\<lambda>e. f (nat (slot_at (int ps) r (int e)))) [0..<Suc p])"
proof -
  let ?s = "\<lambda>e. nat (slot_at (int ps) r (int e))"
  have s: "int (?s e) = slot_at (int ps) r (int e)" "?s e < nb * ps" if "e \<le> p" for e
  proof -
    have e: "e < new_len r" using that p by simp
    note P = page_in_range [OF cov(1,2) e]
    have "block_ids r ! (e div ps) \<in> set (block_ids r)" using P(1) by simp
    then have "block_ids r ! (e div ps) < int nb" using cov(1,3) by (auto simp: covered_def)
    then have "nat (block_ids r ! (e div ps)) < nb" using P(2) by linarith
    moreover have "e mod ps < ps" using cov(2) by simp
    moreover have "Suc (nat (block_ids r ! (e div ps))) * ps \<le> nb * ps" using calculation(1) by (intro mult_le_mono) simp_all
    ultimately have "nat (block_ids r ! (e div ps)) * ps + e mod ps < nb * ps" by (simp only: mult_Suc)
    then show "int (?s e) = slot_at (int ps) r (int e)" "?s e < nb * ps" by (simp_all only: P(3) nat_int)
  qed
  have "{x. x < nb * ps \<and> (\<exists>p'\<le>p. int x = slot_at (int ps) r (int p'))} = ?s ` {..p}"
    using s by (auto simp: image_iff) (metis atMost_iff nat_int)
  moreover have "inj_on ?s {..p}"
  proof (rule inj_onI)
    fix a b assume a: "a \<in> {..p}" "b \<in> {..p}" "?s a = ?s b"
    then have "slot_at (int ps) r (int a) = slot_at (int ps) r (int b)" using s(1) [of a] s(1) [of b] by simp
    then show "a = b" using a(1,2) p by (intro slot_at_inj [OF cov(1,2)]) simp_all
  qed
  moreover have "mset (filter (\<lambda>x. \<exists>p'\<le>p. int x = slot_at (int ps) r (int p')) [0..<nb * ps]) =
      mset_set {x. x < nb * ps \<and> (\<exists>p'\<le>p. int x = slot_at (int ps) r (int p'))}"
    by (subst mset_set_set [symmetric]) (auto intro: arg_cong [of _ _ mset_set])
  ultimately have "mset (filter (\<lambda>x. \<exists>p'\<le>p. int x = slot_at (int ps) r (int p')) [0..<nb * ps]) = image_mset ?s (mset_set {..p})"
    by (simp add: image_mset_mset_set)
  moreover have "mset [0..<Suc p] = mset_set {..p}" by (subst mset_set_set [symmetric]) (simp_all add: atLeast0LessThan lessThan_Suc_atMost del: upt_Suc)
  ultimately show ?thesis unfolding mset_map by (simp add: multiset.map_comp comp_def del: upt_Suc)
qed

text \<open>The mask of a step exists, and with it every call of the library returns what it computes over the slots.\<close>

lemma flex_on_step:
  assumes lib: "flex_computes lib sem" and B: "batch_fits ps blocks width reqs" and nb: "blocks \<le> int nb" and heads: "0 < hk" "hk dvd hq"
  obtains m where "mask_of_step lib nb ps width hq reqs = Ok m"
    "\<And>q k v. ta_shape q = [1, hq, sum_list (map step_len reqs), dk] \<Longrightarrow> ta_shape k = [1, hk, nb * ps, dk] \<Longrightarrow> ta_shape v = [1, hk, nb * ps, dk] \<Longrightarrow>
      \<exists>out. flex_attention lib q (Some k) (Some v) m scale (kernel_block_size, kernel_block_size) = Ok out \<and> ta_shape out = [1, hq, sum_list (map step_len reqs), dk] \<and>
        (\<forall>i p h d. i < length reqs \<longrightarrow> old_len (reqs ! i) \<le> p \<longrightarrow> p < new_len (reqs ! i) \<longrightarrow> h < hq \<longrightarrow> d < dk \<longrightarrow>
           ta_data out [0, h, first_row reqs i + (p - old_len (reqs ! i)), d] =
           sem scale (head_row q 0 h (first_row reqs i + (p - old_len (reqs ! i))))
             (mset (map (\<lambda>e. (head_row k 0 (h div (hq div hk)) (nat (slot_at (int ps) (reqs ! i) (int e))), head_row v 0 (h div (hq div hk)) (nat (slot_at (int ps) (reqs ! i) (int e)))))
               [0..<Suc p])) d)"
proof -
  let ?n = "sum_list (map step_len reqs)"
  note F = batch_fitsD [OF B]
  obtain mask where mask: "paged_mask nb ps 1 ?n (map (\<lambda>r. block_ids r @ replicate (width - length (block_ids r)) (-1)) reqs) (map num_computed_tokens reqs)
        (Some (0 # running_sums 0 (map tokens_this_step reqs))) = Ok mask"
    and adm: "\<And>h i p x. i < length reqs \<Longrightarrow> old_len (reqs ! i) \<le> p \<Longrightarrow> p < new_len (reqs ! i) \<Longrightarrow> x < nb * ps \<Longrightarrow>
       mask 0 h (int (first_row reqs i + (p - old_len (reqs ! i)))) (int x) = Ok (\<exists>p'\<le>p. int x = slot_at (int ps) (reqs ! i) (int p'))"
    by (rule paged_mask_admits [OF B nb]) blast
  define A where "A b h q x = (mask (int b) (int h) (int q) (int x) = Ok True)" for b h q x :: nat
  have all: "mask (int b) (int h) (int q) (int x) = Ok (A b h q x)" if "b < 1" "h < hq" and less: "q < ?n" and "x < nb * ps" for b h q x
  proof -
    obtain i j where i: "i < length reqs" "j < step_len (reqs ! i)" "q = first_row reqs i + j" by (rule query_of_batch [OF less])
    have c: "covered (int ps) blocks (reqs ! i)" using F(5) i(1) by simp
    then have "old_len (reqs ! i) + j < new_len (reqs ! i)" using i(2) unfolding covered_def by linarith
    from adm [OF i(1) _ this that(4), of "int h"] show ?thesis using that(1) i(3) by (simp add: A_def)
  qed
  have use: "\<exists>m out. create_block_mask lib mask 1 hq ?n (nb * ps) kernel_block_size = Ok m \<and>
      flex_attention lib q (Some k) (Some v) m scale (kernel_block_size, kernel_block_size) = Ok out \<and> ta_shape out = [1, hq, ?n, dk] \<and>
      (\<forall>b<1. \<forall>h<hq. \<forall>i<?n. \<forall>d<dk. ta_data out [b, h, i, d] =
         sem scale (head_row q b h i) (mset (map (\<lambda>j. (head_row k b (h div (hq div hk)) j, head_row v b (h div (hq div hk)) j)) (filter (A b h i) [0..<nb * ps]))) d)"
    if "ta_shape q = [1, hq, ?n, dk]" "ta_shape k = [1, hk, nb * ps, dk]" "ta_shape v = [1, hk, nb * ps, dk]" for q k v
    using lib [unfolded flex_computes_def] that all heads by blast
  obtain a :: 'a where True by simp
  let ?t = "\<lambda>shp. \<lparr>ta_shape = shp, ta_cuda = True, ta_int32 = True, ta_device = 0, ta_data = (\<lambda>ix. a)\<rparr> :: 'a float_arg"
  obtain m where m: "create_block_mask lib mask 1 hq ?n (nb * ps) kernel_block_size = Ok m"
    using use [of "?t [1, hq, ?n, dk]" "?t [1, hk, nb * ps, dk]" "?t [1, hk, nb * ps, dk]"] by auto
  show thesis
  proof (rule that [of m])
    show "mask_of_step lib nb ps width hq reqs = Ok m" unfolding mask_of_step_def Let_def mask rbind.simps m ..
    fix q k v :: "'a float_arg"
    assume sh: "ta_shape q = [1, hq, ?n, dk]" "ta_shape k = [1, hk, nb * ps, dk]" "ta_shape v = [1, hk, nb * ps, dk]"
    let ?kv = "\<lambda>h x. (head_row k 0 (h div (hq div hk)) x, head_row v 0 (h div (hq div hk)) x)"
    obtain out where out: "flex_attention lib q (Some k) (Some v) m scale (kernel_block_size, kernel_block_size) = Ok out" "ta_shape out = [1, hq, ?n, dk]"
      "\<And>h i d. h < hq \<Longrightarrow> i < ?n \<Longrightarrow> d < dk \<Longrightarrow> ta_data out [0, h, i, d] = sem scale (head_row q 0 h i) (mset (map (?kv h) (filter (A 0 h i) [0..<nb * ps]))) d"
      using use [OF sh] m by fastforce
    have "ta_data out [0, h, first_row reqs i + (p - old_len (reqs ! i)), d] =
        sem scale (head_row q 0 h (first_row reqs i + (p - old_len (reqs ! i)))) (mset (map (\<lambda>e. ?kv h (nat (slot_at (int ps) (reqs ! i) (int e)))) [0..<Suc p])) d"
      if i: "i < length reqs" and p: "old_len (reqs ! i) \<le> p" "p < new_len (reqs ! i)" and hd: "h < hq" "d < dk" for i p h d
    proof -
      let ?q = "first_row reqs i + (p - old_len (reqs ! i))"
      have c: "covered (int ps) blocks (reqs ! i)" using F(5) i by simp
      then have "p - old_len (reqs ! i) < step_len (reqs ! i)" using p unfolding covered_def by linarith
      then have q: "?q < ?n" by (rule first_row_less [OF i])
      have "filter (A 0 h ?q) [0..<nb * ps] = filter (\<lambda>x. \<exists>p'\<le>p. int x = slot_at (int ps) (reqs ! i) (int p')) [0..<nb * ps]"
        using adm [OF i p] by (intro filter_cong refl) (simp add: A_def del: of_nat_add)
      then show ?thesis unfolding out(3) [OF hd(1) q hd(2)] by (simp only: admitted_rows [OF c F(1) nb p(2)])
    qed
    then show "\<exists>out. flex_attention lib q (Some k) (Some v) m scale (kernel_block_size, kernel_block_size) = Ok out \<and> ta_shape out = [1, hq, ?n, dk] \<and>
        (\<forall>i p h d. i < length reqs \<longrightarrow> old_len (reqs ! i) \<le> p \<longrightarrow> p < new_len (reqs ! i) \<longrightarrow> h < hq \<longrightarrow> d < dk \<longrightarrow>
           ta_data out [0, h, first_row reqs i + (p - old_len (reqs ! i)), d] =
           sem scale (head_row q 0 h (first_row reqs i + (p - old_len (reqs ! i))))
             (mset (map (\<lambda>e. ?kv h (nat (slot_at (int ps) (reqs ! i) (int e)))) [0..<Suc p])) d)"
      using out(1,2) by blast
  qed
qed

text \<open>Through the view of a cache by slots, the positions of a request read the rows that its blocks hold.\<close>

lemma view_rows:
  assumes "slot_view nb ps hk dk t = Ok w" "ta_shape t = [nb, ps, hk, dk]" "holds ps t r n rows" "covered (int ps) blocks r" "0 < ps"
    "e < n" "e < new_len r" "h < hk"
  shows "head_row w 0 h (nat (slot_at (int ps) r (int e))) = map (rows e h) [0..<dk]"
proof -
  obtain w' where w': "slot_view nb ps hk dk t = Ok w'" "ta_shape w' = [1, hk, nb * ps, dk]"
    "\<And>b h x d. h < hk \<Longrightarrow> d < dk \<Longrightarrow> 0 < ps \<Longrightarrow> ta_data w' [b, h, x, d] = access4 t (x div ps) (x mod ps) h d" by (rule slot_view_Ok [OF assms(2)]) blast
  have w: "w = w'" using assms(1) w'(1) by simp
  note P = page_in_range [OF assms(4,5,7)]
  let ?x = "nat (block_ids r ! (e div ps)) * ps + e mod ps"
  have x: "nat (slot_at (int ps) r (int e)) = ?x" "?x div ps = nat (block_ids r ! (e div ps))" "?x mod ps = e mod ps"
    using assms(5) by (simp_all only: P(3) nat_int) simp_all
  show ?thesis
    unfolding x(1) w using assms(3,6,8) by (simp add: w'(3) [OF assms(8) _ assms(5)] w'(2) x(2,3) holds_def assms(2))
qed

text \<open>
  What \<open>reshape\<close> does with strides, as PyTorch documents it: a contiguous tensor is viewed contiguously, and dropping a
  leading dimension of size 1 keeps the strides of the others.
\<close>

definition views_contiguous :: "('f, 'a, 'm) flex_lib \<Rightarrow> bool" where
  "views_contiguous lib \<longleftrightarrow> (\<forall>shp new. prod_list shp = prod_list new \<longrightarrow> 0 < prod_list new \<longrightarrow>
     view_strides lib shp (row_major shp) new = Some (row_major new))"

definition drops_leading :: "('f, 'a, 'm) flex_lib \<Rightarrow> bool" where
  "drops_leading lib \<longleftrightarrow> (\<forall>l h d s0 sl sh sd. 1 < l \<longrightarrow> 1 < h \<longrightarrow> 1 < d \<longrightarrow>
     view_strides lib [1, l, h, d] [s0, sl, sh, sd] [l, h, d] = Some [sl, sh, sd])"

text \<open>
  The layout of the keys and values that a projection gives, \<open>x.view(1, n, h, d).transpose(1, 2)\<close>: a shape
  \<open>(1, h, n, d)\<close> over rows of \<open>h * d\<close> values.
\<close>

definition transposed_rows :: "nat \<Rightarrow> nat \<Rightarrow> nat \<Rightarrow> 'f strided \<Rightarrow> bool" where
  "transposed_rows h n d t \<longleftrightarrow> sd_shape t = [1, h, n, d] \<and> sd_strides t = [n * (h * d), d, h * d, 1]"

lemma elements_shape [simp]: "ta_shape (elements t) = sd_shape t"
  by (simp add: elements_def)

lemma strided_steps:
  assumes "views_contiguous lib" "transposed_rows h n d t" "0 < h" "0 < n" "0 < d"
  obtains u where "strided_transpose12 t = Ok u"
    "strided_reshape (view_strides lib) h d u = Ok (t\<lparr>sd_shape := [n, h, d], sd_strides := [h * d, d, 1]\<rparr>)"
proof -
  let ?u = "t\<lparr>sd_shape := [1, n, h, d], sd_strides := [n * (h * d), h * d, d, 1]\<rparr>"
  have "strided_transpose12 t = Ok ?u" using assms(2) by (simp add: strided_transpose12_def transposed_rows_def Let_def numeral_2_eq_2)
  moreover have "prod_list [1, n, h, d] = prod_list [n, h, d]" "0 < prod_list [n, h, d]" using assms(3-5) by simp_all
  then have "view_strides lib [1, n, h, d] (row_major [1, n, h, d]) [n, h, d] = Some (row_major [n, h, d])"
    using assms(1) unfolding views_contiguous_def by blast
  then have "strided_reshape (view_strides lib) h d ?u = Ok (t\<lparr>sd_shape := [n, h, d], sd_strides := [h * d, d, 1]\<rparr>)"
    using assms(3,5) by (simp add: strided_reshape_def Let_def)
  ultimately show thesis by (rule that)
qed

text \<open>The store reads nothing but the rows, so what it leaves depends on those only.\<close>

lemma store_single_cache_cong:
  assumes "rt_rows t = rt_rows u" "rt_num_heads t = rt_num_heads u" "rt_head_dim t = rt_head_dim u"
    and "rt_stride0 t = rt_stride0 u" "rt_stride1 t = rt_stride1 u" "rt_stride_last t = rt_stride_last u"
    and data: "\<And>i off. i < rt_rows u \<Longrightarrow> off < rt_num_heads u * rt_head_dim u \<Longrightarrow>
      rt_data t (int i * rt_stride0 u + int off) = rt_data u (int i * rt_stride0 u + int off)"
  shows "store_single_cache pow2 t cs slots mem = store_single_cache pow2 u cs slots mem"
proof -
  let ?D = "rt_num_heads u * rt_head_dim u"
  have "store_cache_kernel (rt_data t) (rt_stride0 u) slots ?D (pow2 ?D) i m = store_cache_kernel (rt_data u) (rt_stride0 u) slots ?D (pow2 ?D) i m"
    if "i < rt_rows u" for i m
    unfolding store_cache_kernel_def Let_def by (intro if_cong refl fold_cong ext) (simp add: data [OF that])
  then have "fold (store_cache_kernel (rt_data t) (rt_stride0 u) slots ?D (pow2 ?D)) [0..<rt_rows u] mem =
      fold (store_cache_kernel (rt_data u) (rt_stride0 u) slots ?D (pow2 ?D)) [0..<rt_rows u] mem"
    by (intro fold_cong ext) simp_all
  then show ?thesis by (simp add: store_single_cache_def assms(1-6) Let_def)
qed

lemma strided_store:
  assumes t: "transposed_rows h n d t" "0 < h" "0 < d" and k: "transpose12 (elements t) = Ok k" "reshape_rows h d k = Ok k'"
  shows "store_single_cache pow2 (strided_rows (t\<lparr>sd_shape := [n, h, d], sd_strides := [h * d, d, 1]\<rparr>)) cs slots mem =
    store_single_cache pow2 (rows_of k') cs slots mem"
proof (rule store_single_cache_cong)
  have shape: "ta_shape (elements t) = [1, h, n, d]" using t(1) by (simp add: transposed_rows_def)
  note R = reshaped_rows [OF k(1) shape k(2)]
  have k': "ta_shape k' = [n, h, d]" using R by simp
  let ?t = "strided_rows (t\<lparr>sd_shape := [n, h, d], sd_strides := [h * d, d, 1]\<rparr>)"
  show "rt_rows ?t = rt_rows (rows_of k')" "rt_num_heads ?t = rt_num_heads (rows_of k')" "rt_head_dim ?t = rt_head_dim (rows_of k')"
    "rt_stride0 ?t = rt_stride0 (rows_of k')" "rt_stride1 ?t = rt_stride1 (rows_of k')" "rt_stride_last ?t = rt_stride_last (rows_of k')"
    by (simp_all add: strided_rows_def rows_of_def k')
  fix i off assume i: "i < rt_rows (rows_of k')" and off: "off < rt_num_heads (rows_of k') * rt_head_dim (rows_of k')"
  then have lt: "i < n" "off div d < h" "off mod d < d" using t(3) by (simp_all add: rows_of_def k' less_mult_imp_div_less)
  have a: "int i * rt_stride0 (rows_of k') + int off = int (i * (h * d) + off)" by (simp add: rows_of_def k')
  have "flat_ix [h, d] [off div d, off mod d] = off" by (simp add: flat_ix_Cons)
  then have "unflat [n, h, d] (i * (h * d) + off) = [i, off div d, off mod d]"
    using unflat_flat [of "[off div d, off mod d]" "[h, d]" n i] lt by (simp del: unflat.simps)
  then have "rt_data (rows_of k') (int (i * (h * d) + off)) = access3 k' i (off div d) (off mod d)"
    by (simp add: rows_of_def tensor_mem_def k' del: unflat.simps of_nat_add of_nat_mult)
  also have "\<dots> = token_row (elements t) i (off div d) (off mod d)" using R lt by blast
  also have "\<dots> = sd_mem t (int (off div d * d + i * (h * d) + off mod d))"
    using t(1) lt(1) unfolding token_row_def by (simp add: elements_def address_def transposed_rows_def mult.commute add.assoc del: of_nat_add of_nat_mult)
  also have "off div d * d + i * (h * d) + off mod d = i * (h * d) + off" by (metis add.assoc add.commute div_mult_mod_eq)
  finally show "rt_data ?t (int i * rt_stride0 (rows_of k') + int off) = rt_data (rows_of k') (int i * rt_stride0 (rows_of k') + int off)"
    unfolding a by (simp add: strided_rows_def del: of_nat_add of_nat_mult)
qed

lemma strided_store_rows:
  assumes key: "transposed_rows h n d key" "transpose12 (elements key) = Ok k" "reshape_rows h d k = Ok k'"
    and val: "transposed_rows h n d val" "transpose12 (elements val) = Ok v" "reshape_rows h d v = Ok v'"
    and pos: "0 < h" "0 < d"
  shows "store_strided kcs vcs layer slots (key\<lparr>sd_shape := [n, h, d], sd_strides := [h * d, d, 1]\<rparr>) (val\<lparr>sd_shape := [n, h, d], sd_strides := [h * d, d, 1]\<rparr>) =
    store_rows kcs vcs layer slots k' v'"
proof -
  have shape: "ta_shape (elements key) = [1, h, n, d]" using key(1) by (simp add: transposed_rows_def)
  have "rt_rows (strided_rows (key\<lparr>sd_shape := [n, h, d], sd_strides := [h * d, d, 1]\<rparr>)) = rt_rows (rows_of k')"
    using reshaped_rows [OF key(2) shape key(3)] by (simp add: strided_rows_def rows_of_def)
  then show ?thesis
    unfolding store_strided_def store_rows_def store_kvcache_def
    by (simp only: strided_store [OF key(1) pos key(2,3)] strided_store [OF val(1) pos val(2,3)])
qed

lemma step_not_empty:
  assumes "batch_fits ps blocks width reqs"
  shows "0 < sum_list (map step_len reqs)"
proof -
  obtain r rs where r: "reqs = r # rs" using batch_fitsD(2) [OF assms] by (cases reqs) auto
  then have "1 \<le> tokens_this_step r" using batch_fitsD(6) [OF assms, of r] by (simp add: feedable_def)
  then show ?thesis by (simp add: r)
qed

text \<open>Preparing the paged keys and values of a step: stored, viewed by slots, and masked with a cached mask or a new one.\<close>

lemma prepare_step:
  fixes reqs :: "'g inference_request list"
  assumes sh: "ta_shape query = [1, hq, sum_list (map step_len reqs), dk]"
    and C: "layer < length kcs" "layer < length vcs" "ta_shape (kcs ! layer) = [nb, ps, hk, dk]"
    and st: "strided_transpose12 key = Ok k" "strided_reshape (view_strides lib) hk dk k = Ok k'"
      "strided_transpose12 val = Ok v" "strided_reshape (view_strides lib) hk dk v = Ok v'"
      "store_strided kcs vcs layer (Some (batch_slots ps reqs)) k' v' = Ok (kcs[layer := kc], vcs[layer := vc])"
    and view: "slot_view nb ps hk dk kc = Ok kw'" "slot_view nb ps hk dk vc = Ok vw'"
    and m: "cached = Some m \<or> cached = None \<and> mask_of_step lib nb ps width hq reqs = Ok m"
  shows "prepare_paged_kv lib layer (batch_context ps width kcs vcs reqs) cached query (Some key) (Some val) =
    Ok (kw', vw', m, batch_context ps width (kcs[layer := kc]) (vcs[layer := vc]) reqs)"
proof -
  let ?n = "sum_list (map step_len reqs)" and ?c = "batch_context ps width kcs vcs reqs"
  have mask: "(case cached of Some m \<Rightarrow> Ok m
       | None \<Rightarrow> rbind (opt_get AttributeError (block_tables ?c)) (\<lambda>tables. rbind (opt_get TypeError (context_lens ?c)) (\<lambda>lens.
           rbind (paged_mask nb ps 1 ?n tables lens (query_start_loc ?c)) (\<lambda>mask.
           create_block_mask lib mask 1 hq ?n (nb * ps) kernel_block_size)))) = Ok m"
    using m by (auto simp: batch_context_def opt_get_def mask_of_step_def Let_def simp del: rbind_eq_Ok)
  have dims: "dim query 0 = 1" "dim query 1 = hq" "dim query 2 = ?n" "dim query 3 = dk" "dim (kcs ! layer) 0 = nb" "dim (kcs ! layer) 1 = ps"
    "dim (kcs ! layer) 2 = hk" "(length (ta_shape (kcs ! layer)) \<noteq> 4) = False" "(length vcs \<le> layer) = False" using sh C by simp_all
  have ctx: "opt_get TypeError (key_cache ?c) = Ok kcs" "opt_get TypeError (value_cache ?c) = Ok vcs" "slot_mapping ?c = Some (batch_slots ps reqs)"
    "opt_get AttributeError (Some val) = Ok val" "py_get kcs (int layer) = Ok (kcs ! layer)" "py_get (vcs[layer := vc]) (int layer) = Ok vc"
    "kcs[layer := kc] ! layer = kc" "?c\<lparr>key_cache := Some (kcs[layer := kc]), value_cache := Some (vcs[layer := vc])\<rparr> = batch_context ps width (kcs[layer := kc]) (vcs[layer := vc]) reqs"
    using C(1,2) by (simp_all add: batch_context_def opt_get_def py_get_in_range)
  show ?thesis
    by (simp only: prepare_paged_kv_def ctx dims rbind.simps Let_def if_False option.case st prod.case view mask)
qed

text \<open>
  C24. Flex attention over the pages is causal attention of every request over its own sequence. For a batch that fits
  the cache and keys and values in the layout of a transposed projection (\<open>transposed_rows\<close>), whatever the other requests
  are and wherever the blocks lie, the module function returns, the keys and values of each request are in its blocks
  afterwards, and the output at a position is what the library computes from exactly the key and value rows of the
  positions up to it. The block mask left in the context is the one of the step, so that the next layer may use it. (Keys
  that are contiguous as \<open>(1, H, L, D)\<close> are refused: lemma \<open>flex_refuses_contiguous_keys\<close>.)
\<close>

theorem flex_attends_to_own_prefix:
  assumes lib: "flex_computes lib sem" "views_contiguous lib" and B: "batch_fits ps blocks width reqs" and heads: "0 < hk" "hk dvd hq" "0 < dk"
    and sh: "ta_shape query = [1, hq, sum_list (map step_len reqs), dk]" "transposed_rows hk (sum_list (map step_len reqs)) dk key"
      "transposed_rows hk (sum_list (map step_len reqs)) dk val"
    and C: "layer_index md kw = Ok layer" "layer < length kcs" "layer < length vcs"
      "ta_shape (kcs ! layer) = [nb, ps, hk, dk]" "ta_shape (vcs ! layer) = [nb, ps, hk, dk]" "blocks \<le> int nb"
    and cached: "cached = None \<or> (\<exists>m. cached = Some m \<and> mask_of_step lib nb ps width hq reqs = Ok m)"
  shows "\<exists>out kc vc m. flex_attention_forward lib (Some (batch_context ps width kcs vcs reqs)) cached md query (Some key) (Some val) scaling kw =
      Ok (out, Some (batch_context ps width (kcs[layer := kc]) (vcs[layer := vc]) reqs), Some m) \<and>
    mask_of_step lib nb ps width hq reqs = Ok m \<and> ta_shape out = [sum_list (map step_len reqs), hq, dk] \<and>
    (\<forall>i Q K V. i < length reqs \<longrightarrow> continues ps reqs i (kcs ! layer) (vcs ! layer) query (elements key) (elements val) Q K V \<longrightarrow>
       holds ps kc (reqs ! i) (new_len (reqs ! i)) K \<and> holds ps vc (reqs ! i) (new_len (reqs ! i)) V \<and>
       (\<forall>p h d. old_len (reqs ! i) \<le> p \<longrightarrow> p < new_len (reqs ! i) \<longrightarrow> h < hq \<longrightarrow> d < dk \<longrightarrow>
          ta_data out [first_row reqs i + (p - old_len (reqs ! i)), h, d] =
          sem scaling (map (Q p h) [0..<dk])
            (mset (map (\<lambda>e. (map (K e (h div (hq div hk))) [0..<dk], map (V e (h div (hq div hk))) [0..<dk])) [0..<Suc p])) d))"
proof -
  let ?n = "sum_list (map step_len reqs)" and ?c = "batch_context ps width kcs vcs reqs"
  note F = batch_fitsD [OF B]
  obtain m where m: "mask_of_step lib nb ps width hq reqs = Ok m"
    "\<And>q k v. ta_shape q = [1, hq, ?n, dk] \<Longrightarrow> ta_shape k = [1, hk, nb * ps, dk] \<Longrightarrow> ta_shape v = [1, hk, nb * ps, dk] \<Longrightarrow>
      \<exists>out. flex_attention lib q (Some k) (Some v) m scaling (kernel_block_size, kernel_block_size) = Ok out \<and> ta_shape out = [1, hq, ?n, dk] \<and>
        (\<forall>i p h d. i < length reqs \<longrightarrow> old_len (reqs ! i) \<le> p \<longrightarrow> p < new_len (reqs ! i) \<longrightarrow> h < hq \<longrightarrow> d < dk \<longrightarrow>
           ta_data out [0, h, first_row reqs i + (p - old_len (reqs ! i)), d] =
           sem scaling (head_row q 0 h (first_row reqs i + (p - old_len (reqs ! i))))
             (mset (map (\<lambda>e. (head_row k 0 (h div (hq div hk)) (nat (slot_at (int ps) (reqs ! i) (int e))), head_row v 0 (h div (hq div hk)) (nat (slot_at (int ps) (reqs ! i) (int e)))))
               [0..<Suc p])) d)"
    by (rule flex_on_step [OF lib(1) B C(6) heads(1,2), where scale = scaling and dk = dk]) blast
  have shapes: "ta_shape (elements key) = [1, hk, ?n, dk]" "ta_shape (elements val) = [1, hk, ?n, dk]"
    using sh(2,3) by (simp_all add: transposed_rows_def)
  obtain k v k' v' kc vc where st: "transpose12 (elements key) = Ok k" "reshape_rows hk dk k = Ok k'"
      "transpose12 (elements val) = Ok v" "reshape_rows hk dk v = Ok v'"
      "store_rows kcs vcs layer (Some (batch_slots ps reqs)) k' v' = Ok (kcs[layer := kc], vcs[layer := vc])"
    and kvs: "ta_shape kc = [nb, ps, hk, dk]" "ta_shape vc = [nb, ps, hk, dk]"
    and keep: "\<And>i rows. i < length reqs \<Longrightarrow> holds ps (kcs ! layer) (reqs ! i) (old_len (reqs ! i)) rows \<Longrightarrow>
           brings (elements key) (first_row reqs i) (step_len (reqs ! i)) (old_len (reqs ! i)) rows \<Longrightarrow> holds ps kc (reqs ! i) (new_len (reqs ! i)) rows"
      "\<And>i rows. i < length reqs \<Longrightarrow> holds ps (vcs ! layer) (reqs ! i) (old_len (reqs ! i)) rows \<Longrightarrow>
           brings (elements val) (first_row reqs i) (step_len (reqs ! i)) (old_len (reqs ! i)) rows \<Longrightarrow> holds ps vc (reqs ! i) (new_len (reqs ! i)) rows"
    by (rule stored_step [OF B refl heads(1,3,3) shapes C(2-5)]) blast
  have n: "0 < ?n" by (rule step_not_empty [OF B])
  obtain uk where uk: "strided_transpose12 key = Ok uk" "strided_reshape (view_strides lib) hk dk uk = Ok (key\<lparr>sd_shape := [?n, hk, dk], sd_strides := [hk * dk, dk, 1]\<rparr>)"
    by (rule strided_steps [OF lib(2) sh(2) heads(1) n heads(3)])
  obtain uv where uv: "strided_transpose12 val = Ok uv" "strided_reshape (view_strides lib) hk dk uv = Ok (val\<lparr>sd_shape := [?n, hk, dk], sd_strides := [hk * dk, dk, 1]\<rparr>)"
    by (rule strided_steps [OF lib(2) sh(3) heads(1) n heads(3)])
  note stored = strided_store_rows [OF sh(2) st(1,2) sh(3) st(3,4) heads(1,3), of kcs vcs layer "Some (batch_slots ps reqs)", unfolded st(5)]
  obtain kw' where kview: "slot_view nb ps hk dk kc = Ok kw'" "ta_shape kw' = [1, hk, nb * ps, dk]"
    "\<And>b h x d. h < hk \<Longrightarrow> d < dk \<Longrightarrow> 0 < ps \<Longrightarrow> ta_data kw' [b, h, x, d] = access4 kc (x div ps) (x mod ps) h d" by (rule slot_view_Ok [OF kvs(1)]) blast
  obtain vw' where vview: "slot_view nb ps hk dk vc = Ok vw'" "ta_shape vw' = [1, hk, nb * ps, dk]"
    "\<And>b h x d. h < hk \<Longrightarrow> d < dk \<Longrightarrow> 0 < ps \<Longrightarrow> ta_data vw' [b, h, x, d] = access4 vc (x div ps) (x mod ps) h d" by (rule slot_view_Ok [OF kvs(2)]) blast
  obtain out where out: "flex_attention lib query (Some kw') (Some vw') m scaling (kernel_block_size, kernel_block_size) = Ok out" "ta_shape out = [1, hq, ?n, dk]"
    and val: "\<And>i p h d. i < length reqs \<Longrightarrow> old_len (reqs ! i) \<le> p \<Longrightarrow> p < new_len (reqs ! i) \<Longrightarrow> h < hq \<Longrightarrow> d < dk \<Longrightarrow>
      ta_data out [0, h, first_row reqs i + (p - old_len (reqs ! i)), d] =
      sem scaling (head_row query 0 h (first_row reqs i + (p - old_len (reqs ! i))))
        (mset (map (\<lambda>e. (head_row kw' 0 (h div (hq div hk)) (nat (slot_at (int ps) (reqs ! i) (int e))), head_row vw' 0 (h div (hq div hk)) (nat (slot_at (int ps) (reqs ! i) (int e)))))
          [0..<Suc p])) d"
    using m(2) [OF sh(1) kview(2) vview(2)] by blast
  have prep: "prepare_paged_kv lib layer ?c cached query (Some key) (Some val) =
      Ok (kw', vw', m, batch_context ps width (kcs[layer := kc]) (vcs[layer := vc]) reqs)"
    using cached m(1) by (intro prepare_step [OF sh(1) C(2-4) uk uv stored kview(1) vview(1)]) auto
  obtain flat where flat: "flatten_attn_output out = Ok flat" "ta_shape flat = [?n, hq, dk]"
    "\<And>q h d. q < ?n \<Longrightarrow> ta_data flat [q, h, d] = ta_data out [0, h, q, d]"
    by (simp add: flatten_attn_output_def out(2))
  have run: "flex_attention_forward lib (Some ?c) cached md query (Some key) (Some val) scaling kw =
      Ok (flat, Some (batch_context ps width (kcs[layer := kc]) (vcs[layer := vc]) reqs), Some m)"
  proof -
    have "is_paged_attn ?c" "(length (ta_shape query) \<noteq> 4) = False" using sh by (simp_all add: batch_context_def)
    moreover obtain cfg where "get_compile_config (dim query 2 = 1) ''default'' = Ok cfg"
      by (auto simp: get_compile_config_def compile_config_presets_def Let_def)
    ultimately show ?thesis
      by (simp only: flex_attention_forward_def if_False rbind.simps get_kv_cache_context_def option.case C(1) prep prod.case out(1) flat(1) not_True_eq_False)
  qed
  have rest: "holds ps kc (reqs ! i) (new_len (reqs ! i)) K" "holds ps vc (reqs ! i) (new_len (reqs ! i)) V"
    "old_len (reqs ! i) \<le> p \<Longrightarrow> p < new_len (reqs ! i) \<Longrightarrow> h < hq \<Longrightarrow> d < dk \<Longrightarrow> ta_data flat [first_row reqs i + (p - old_len (reqs ! i)), h, d] =
      sem scaling (map (Q p h) [0..<dk]) (mset (map (\<lambda>e. (map (K e (h div (hq div hk))) [0..<dk], map (V e (h div (hq div hk))) [0..<dk])) [0..<Suc p])) d"
    if i: "i < length reqs" and con: "continues ps reqs i (kcs ! layer) (vcs ! layer) query (elements key) (elements val) Q K V" for i Q K V p h d
  proof -
    note I = con [unfolded continues_def Let_def]
    show hold: "holds ps kc (reqs ! i) (new_len (reqs ! i)) K" "holds ps vc (reqs ! i) (new_len (reqs ! i)) V"
      using keep(1) [OF i] keep(2) [OF i] I by blast+
    assume p: "old_len (reqs ! i) \<le> p" "p < new_len (reqs ! i)" and hd: "h < hq" "d < dk"
    let ?q = "first_row reqs i + (p - old_len (reqs ! i))" and ?kv = "h div (hq div hk)"
    have c: "covered (int ps) blocks (reqs ! i)" using F(5) i by simp
    then have j: "p - old_len (reqs ! i) < step_len (reqs ! i)" using p unfolding covered_def by linarith
    have q: "?q < ?n" by (rule first_row_less [OF i j])
    obtain g where "hq = hk * g" using heads(2) by (rule dvdE)
    then have kv: "?kv < hk" using hd(1) heads(1) less_mult_imp_div_less [of h hk g] by simp
    have "token_row query (first_row reqs i + (p - old_len (reqs ! i))) h x = Q (old_len (reqs ! i) + (p - old_len (reqs ! i))) h x" if "x < dk" for x
      using I j hd(1) that sh(1) unfolding brings_def by simp
    then have Q: "head_row query 0 h ?q = map (Q p h) [0..<dk]"
      using q p(1) by (simp add: token_row_def sh(1))
    have rows: "head_row kw' 0 ?kv (nat (slot_at (int ps) (reqs ! i) (int e))) = map (K e ?kv) [0..<dk]"
      "head_row vw' 0 ?kv (nat (slot_at (int ps) (reqs ! i) (int e))) = map (V e ?kv) [0..<dk]" if "e < Suc p" for e
      using that p(2) view_rows [OF kview(1) kvs(1) hold(1) c F(1) _ _ kv, of e] view_rows [OF vview(1) kvs(2) hold(2) c F(1) _ _ kv, of e] by simp_all
    have "map (\<lambda>e. (head_row kw' 0 ?kv (nat (slot_at (int ps) (reqs ! i) (int e))), head_row vw' 0 ?kv (nat (slot_at (int ps) (reqs ! i) (int e))))) [0..<Suc p] =
        map (\<lambda>e. (map (K e ?kv) [0..<dk], map (V e ?kv) [0..<dk])) [0..<Suc p]"
      by (rule map_cong [OF refl]) (simp only: rows set_upt atLeastLessThan_iff)
    then show "ta_data flat [?q, h, d] = sem scaling (map (Q p h) [0..<dk]) (mset (map (\<lambda>e. (map (K e ?kv) [0..<dk], map (V e ?kv) [0..<dk])) [0..<Suc p])) d"
      unfolding flat(3) [OF q] val [OF i p hd] Q by (simp only:)
  qed
  show ?thesis
    using rest by (intro exI [of _ flat] exI [of _ kc] exI [of _ vc] exI [of _ m] conjI run m(1) flat(2) allI impI) blast+
qed

section \<open>A batch of two requests\<close>

text \<open>A library that computes a given function, and linear attention over the integers.\<close>

definition reference_flex :: "('a \<Rightarrow> 'f list \<Rightarrow> ('f list \<times> 'f list) multiset \<Rightarrow> nat \<Rightarrow> 'f) \<Rightarrow> ('f, 'a, mask_mod) flex_lib" where
  "reference_flex sem =
     \<lparr>create_block_mask = (\<lambda>mask _ _ _ _ _. Ok mask),
      flex_attention = (\<lambda>q k v mask scale _. case (k, v) of
        (Some k, Some v) \<Rightarrow> Ok (q\<lparr>ta_shape := [dim q 0, dim q 1, dim q 2, dim v 3],
          ta_data := (\<lambda>ix. let kv = ix ! 1 div (dim q 1 div dim k 1) in
            sem scale (head_row q (ix ! 0) (ix ! 1) (ix ! 2))
              (mset (map (\<lambda>j. (head_row k (ix ! 0) kv j, head_row v (ix ! 0) kv j))
                (filter (\<lambda>j. mask (int (ix ! 0)) (int (ix ! 1)) (int (ix ! 2)) (int j) = Ok True) [0..<dim k 2]))) (ix ! 3))\<rparr>)
      | _ \<Rightarrow> Raise TypeError),
      view_strides = (\<lambda>shp st new. if st = row_major shp \<and> prod_list shp = prod_list new then Some (row_major new)
        else if shp = 1 # new then Some (tl st) else None)\<rparr>"

lemma reference_flex_views: "views_contiguous (reference_flex sem)" "drops_leading (reference_flex sem)"
  by (simp_all add: reference_flex_def views_contiguous_def drops_leading_def)

lemma reference_flex_computes: "flex_computes (reference_flex sem) sem"
  unfolding flex_computes_def
proof (intro allI impI, elim conjE)
  fix mask :: mask_mod and adm :: "nat \<Rightarrow> nat \<Rightarrow> nat \<Rightarrow> nat \<Rightarrow> bool" and q k v :: "'a float_arg" and scale :: 'b and B hq l hk n dk dv
  assume sh: "ta_shape q = [B, hq, l, dk]" "ta_shape k = [B, hk, n, dk]" "ta_shape v = [B, hk, n, dv]"
    and adm: "\<forall>b<B. \<forall>h<hq. \<forall>i<l. \<forall>j<n. mask (int b) (int h) (int i) (int j) = Ok (adm b h i j)"
  have "filter (\<lambda>j. mask (int b) (int h) (int i) (int j) = Ok True) [0..<n] = filter (adm b h i) [0..<n]" if "b < B" "h < hq" "i < l" for b h i
    using adm that by (intro filter_cong refl) simp
  then show "\<exists>m out. create_block_mask (reference_flex sem) mask B hq l n kernel_block_size = Ok m \<and>
      flex_attention (reference_flex sem) q (Some k) (Some v) m scale (kernel_block_size, kernel_block_size) = Ok out \<and> ta_shape out = [B, hq, l, dv] \<and>
      (\<forall>b<B. \<forall>h<hq. \<forall>i<l. \<forall>d<dv. ta_data out [b, h, i, d] =
         sem scale (head_row q b h i) (mset (map (\<lambda>j. (head_row k b (h div (hq div hk)) j, head_row v b (h div (hq div hk)) j)) (filter (adm b h i) [0..<n]))) d)"
    by (simp add: reference_flex_def sh Let_def del: mset_map mset_filter)
qed

definition linear_attention :: "int \<Rightarrow> int list \<Rightarrow> (int list \<times> int list) multiset \<Rightarrow> nat \<Rightarrow> int" where
  "linear_attention scale q rows d = (\<Sum>(k, v)\<in>#rows. scale * sum_list (map2 (*) q k) * v ! d)"

definition flex_request :: "int list \<Rightarrow> int \<Rightarrow> int \<Rightarrow> int list \<Rightarrow> int inference_request" where
  "flex_request ids computed step blocks =
     \<lparr>request_id = ''r'', generation_config = \<lparr>eos_token = EosToken 9, max_length = None, max_new_tokens = Some 4, output_logits = False,
        output_scores = False, do_sample = False, temperature = 1, top_k = None, top_p = None, seed = None\<rparr>,
      input_ids_list = ids, status = RUNNING, tokens_generated = 0, num_computed_tokens = computed, tokens_this_step = step, block_ids = blocks,
      generated_tokens = [], generated_logits = [], generated_logprobs = [], original_prompt_len = int (length ids)\<rparr>"

text \<open>One request has two tokens in the cache and feeds its third; the other feeds both of its tokens.\<close>

definition flex_batch :: "int inference_request list" where
  "flex_batch = [flex_request [1, 2, 3] 3 1 [3, 0], flex_request [4, 5] 2 2 [1]]"

definition flex_cache :: "int float_arg" where
  "flex_cache = floats [4, 2, 1, 1] (\<lambda>ix. if ix ! 0 = 3 then int (ix ! 1) + 1 else 70)"

definition flex_rows :: "int strided" where
  "flex_rows = \<lparr>sd_shape = [1, 1, 3, 1], sd_strides = [3, 1, 1, 1], sd_cuda = True, sd_device = 0,
     sd_mem = (\<lambda>a. if a = 0 then 3 else a + 3)\<rparr>"

abbreviation flex_tokens :: "int float_arg" where
  "flex_tokens \<equiv> elements flex_rows"

lemma flex_batch_fits: "batch_fits 2 4 2 flex_batch"
proof -
  have "set (block_ids (flex_batch ! i)) \<inter> set (block_ids (flex_batch ! j)) = {}" if "i < length flex_batch" "j < length flex_batch" "i \<noteq> j" for i j
    using that by (auto simp: flex_batch_def flex_request_def less_Suc_eq)
  moreover have "\<forall>r\<in>set flex_batch. covered (int 2) 4 r \<and> feedable r \<and> length (block_ids r) \<le> 2"
    by (simp add: flex_batch_def flex_request_def covered_def feedable_def folded_ok_def prompt_def ceil_div_def)
  moreover have "flex_batch \<noteq> []" "sum_list (map tokens_this_step flex_batch) < 2 ^ 31" by (simp_all add: flex_batch_def flex_request_def)
  ultimately show ?thesis by (auto simp: batch_fits_def)
qed

lemma flex_attends_to_own_prefix_witness:
  "\<exists>out st m. flex_attention_forward (reference_flex linear_attention) (Some (batch_context 2 2 [flex_cache] [flex_cache] flex_batch)) None
     \<lparr>am_layer_idx = Some 0, am_is_causal = None\<rparr> flex_tokens (Some flex_rows) (Some flex_rows) 1
     \<lparr>kw_numbers = (\<lambda>_. None), kw_tensors = (\<lambda>_. None), kw_causal = None\<rparr> = Ok (out, st, m) \<and> ta_data out [0, 0, 0] = 42"
proof -
  let ?md = "\<lparr>am_layer_idx = Some 0, am_is_causal = None\<rparr>" and ?kw = "\<lparr>kw_numbers = (\<lambda>_. None), kw_tensors = (\<lambda>_. None), kw_causal = None\<rparr>"
  let ?S = "\<lambda>p h d. int p + 1"
  have n: "sum_list (map step_len flex_batch) = 3" by (simp add: flex_batch_def flex_request_def)
  have sh: "ta_shape flex_tokens = [1, 1, sum_list (map step_len flex_batch), 1]" unfolding n by (simp add: flex_rows_def)
  have rows: "transposed_rows 1 (sum_list (map step_len flex_batch)) 1 flex_rows" unfolding n by (simp add: flex_rows_def transposed_rows_def)
  have layer: "layer_index ?md ?kw = Ok 0" by (simp add: layer_index_def)
  have cache: "0 < length [flex_cache]" "ta_shape ([flex_cache] ! 0) = [4, 2, 1, 1]" by (simp_all add: flex_cache_def floats_def)
  have con: "continues 2 flex_batch 0 ([flex_cache] ! 0) ([flex_cache] ! 0) flex_tokens flex_tokens flex_tokens ?S ?S ?S"
    by (simp add: continues_def brings_def holds_def token_row_def first_row_def flex_batch_def flex_request_def flex_rows_def elements_def address_def flex_cache_def floats_def
        numeral_2_eq_2 less_Suc_eq Let_def)
  have 0: "0 < length flex_batch" by (simp add: flex_batch_def)
  obtain out kc vc m where run: "flex_attention_forward (reference_flex linear_attention) (Some (batch_context 2 2 [flex_cache] [flex_cache] flex_batch)) None
      ?md flex_tokens (Some flex_rows) (Some flex_rows) 1 ?kw = Ok (out, Some (batch_context 2 2 ([flex_cache][0 := kc]) ([flex_cache][0 := vc]) flex_batch), Some m)"
    and val: "\<And>p h d. old_len (flex_batch ! 0) \<le> p \<Longrightarrow> p < new_len (flex_batch ! 0) \<Longrightarrow> h < 1 \<Longrightarrow> d < 1 \<Longrightarrow>
      ta_data out [first_row flex_batch 0 + (p - old_len (flex_batch ! 0)), h, d] =
      linear_attention 1 (map (?S p h) [0..<1]) (mset (map (\<lambda>e. (map (?S e (h div (1 div 1))) [0..<1], map (?S e (h div (1 div 1))) [0..<1])) [0..<Suc p])) d"
  proof -
    have side: "(0::nat) < 1" "(1::nat) dvd 1" "(4::int) \<le> int 4" "None = None \<or> (\<exists>m. None = Some m \<and> mask_of_step (reference_flex linear_attention) 4 2 2 1 flex_batch = Ok m)"
      by simp_all
    show thesis
      using flex_attends_to_own_prefix [OF reference_flex_computes reference_flex_views(1) flex_batch_fits side(1,2,1) sh rows rows layer cache(1,1,2,2) side(3,4), where scaling = 1]
      by (elim exE conjE) (rule that, assumption, use con 0 in blast)
  qed
  have "ta_data out [0, 0, 0] = 42"
    using val [of 2 0 0] by (simp add: flex_batch_def flex_request_def first_row_def linear_attention_def numeral_2_eq_2)
  with run show ?thesis by blast
qed

text \<open>
  The mask for packed keys compares a position in the packed tensor with a position in the sequence: in a batch of two
  sequences of two tokens the first query of the second sequence (index 2) is admitted to the first token of the first
  one and not to its own key.
\<close>

lemma packed_mask_crosses_sequences:
  "\<exists>mask. get_mask_mod (Some [2, 2]) (Some [0, 2, 4]) (Some 4) = Ok mask \<and> mask 0 0 2 0 = Ok True \<and> mask 0 0 2 2 = Ok False"
  by (simp add: get_mask_mod_def step_lengths_def torch_sub_def chunk_ids_def below_len_def py_get_def numeral_2_eq_2)

text \<open>
  Keys that are contiguous as \<open>(1, H, L, D)\<close>, with more than one head, token and value: after the transposition and the
  view a head's rows are \<open>L * D\<close> values apart, and the store's assertion fails.
\<close>

lemma flex_refuses_contiguous_keys:
  assumes "drops_leading lib" and c: "is_paged_attn c" "key_cache c = Some kcs" "value_cache c = Some vcs" "slot_mapping c = Some slots"
    and layer: "layer_index md kw = Ok layer" "layer < length kcs" "layer < length vcs" "ta_shape (kcs ! layer) = [nb, ps, hk, dk]"
    and sh: "ta_shape query = [1, hq, n, dk]" "sd_shape key = [1, hk, n, dk]" "sd_strides key = row_major [1, hk, n, dk]"
      "sd_shape val = [1, hk, n, dk]" "length slots = n" and many: "1 < hk" "1 < n" "1 < dk"
  shows "flex_attention_forward lib (Some c) cached md query (Some key) (Some val) scaling kw = Raise AssertionError"
proof -
  have view: "view_strides lib [1, n, hk, dk] [hk * (n * dk), dk, n * dk, 1] [n, hk, dk] = Some [dk, n * dk, 1]"
    using assms(1) many unfolding drops_leading_def by blast
  let ?k = "key\<lparr>sd_shape := [n, hk, dk], sd_strides := [dk, n * dk, 1]\<rparr>"
  have k: "rbind (strided_transpose12 key) (strided_reshape (view_strides lib) hk dk) = Ok ?k"
    using sh many view by (simp add: strided_transpose12_def strided_reshape_def Let_def numeral_2_eq_2)
  obtain v where v: "rbind (strided_transpose12 val) (strided_reshape (view_strides lib) hk dk) = Ok v"
    using sh(4) many by (simp add: strided_transpose12_def strided_reshape_def Let_def numeral_2_eq_2)
  have "store_strided kcs vcs layer (Some slots) ?k v = Raise AssertionError"
    using many sh(5) by (simp add: store_strided_def store_kvcache_def store_single_cache_def strided_rows_def Let_def)
  then have "prepare_paged_kv lib layer c cached query (Some key) (Some val) = Raise AssertionError"
    using c layer sh(1) by (simp add: prepare_paged_kv_def opt_get_def py_get_in_range Let_def k v)
  then show ?thesis
    using c(1) layer(1) sh(1)
    by (simp add: flex_attention_forward_def get_compile_config_def compile_config_presets_def get_kv_cache_context_def Let_def)
qed

text \<open>Without keys the packed branch reads an attribute that the context does not have; so does a missing context.\<close>

lemma flex_without_keys:
  "ta_shape query = [b, h, l, d] \<Longrightarrow> flex_attention_forward lib None cached md query key val scaling kw = Raise AttributeError"
  "ta_shape query = [b, h, l, d] \<Longrightarrow> \<not> is_paged_attn c \<Longrightarrow> flex_attention_forward lib (Some c) cached md query None val scaling kw = Raise AttributeError"
  by (simp_all add: flex_attention_forward_def get_compile_config_def compile_config_presets_def get_kv_cache_context_def flex_packed_def Let_def)

end
