(* ===== verification/Flash_Attention.thy ===== *)
theory Flash_Attention
  imports Generation_Attention
begin

text \<open>
  The attention function on the FlashAttention libraries, \<open>src/vexact/batch_invariant_ops/flash_attention.py\<close>: paged
  attention only; FA3 and FA4 (\<open>use_cute\<close>) themselves belong to third parties and are parameters. What the function
  hands over to them: the new rows stored, and every request's sequence behind its row of the block table.
\<close>

section \<open>Arguments\<close>

definition get_fa_window_size :: "int option \<Rightarrow> (int \<times> int) res" where
  "get_fa_window_size sliding_window =
     (case sliding_window of None \<Rightarrow> Ok (-1, -1)
      | Some w \<Rightarrow> if w \<le> 0 then Raise ValueError else Ok (w - 1, w - 1))"

text \<open>\<open>to_dtype\<close> is the conversion of a tensor to the type of the queries.\<close>

definition get_fa_learnable_sink ::
    "('f float_arg \<Rightarrow> 'f float_arg) \<Rightarrow> 'f float_arg option \<Rightarrow> bool \<Rightarrow> 'f float_arg option res" where
  "get_fa_learnable_sink to_dtype s_aux use_cute =
     (case s_aux of None \<Rightarrow> Ok None
      | Some s \<Rightarrow> if \<not> use_cute then Raise NotImplementedError else Ok (Some (to_dtype s)))"

text \<open>The keyword arguments of the library calls; those that are constants of the source are left out.\<close>

record ('f, 'a) fa_call =
  fc_q :: "'f float_arg"
  fc_k :: "'f float_arg"
  fc_v :: "'f float_arg"
  fc_cu_seqlens_q :: "int list"
  fc_max_seqlen_q :: int
  fc_seqused :: "int list option"
  fc_page_table :: "int list list option"
  fc_scale :: 'a
  fc_window :: "int \<times> int"
  fc_sink :: "'f float_arg option"

record ('f, 'a) fa_lib =
  fa_varlen :: "('f, 'a) fa_call \<Rightarrow> 'f float_arg res"
  fa_kvcache :: "('f, 'a) fa_call \<Rightarrow> 'f float_arg res"
  fa_to_dtype :: "'f float_arg \<Rightarrow> 'f float_arg"
  fa_device_major :: nat

section \<open>The module function\<close>

definition layer_cache :: "'f float_arg list option \<Rightarrow> nat \<Rightarrow> 'f float_arg res" where
  "layer_cache caches layer =
     (case caches of None \<Rightarrow> Raise TypeError
      | Some cs \<Rightarrow> rbind (py_get cs (int layer)) (\<lambda>c. if length (ta_shape c) \<noteq> 4 then Raise AssertionError else Ok c))"

definition transposed :: "'f float_arg option \<Rightarrow> 'f float_arg res" where
  "transposed t = (case t of None \<Rightarrow> Raise AttributeError | Some x \<Rightarrow> transpose12 x)"

definition fa_attend :: "('f, 'a) fa_lib \<Rightarrow> int option \<Rightarrow> bool \<Rightarrow> ('f, 'a) fa_call \<Rightarrow> 'f float_arg res" where
  "fa_attend lib sliding_window use_cute call =
     (if use_cute then
        if fa_device_major lib < 9 then Raise AssertionError
        else rbind (get_fa_window_size sliding_window) (\<lambda>w. fa_varlen lib (call\<lparr>fc_window := w\<rparr>))
      else if fa_device_major lib \<noteq> 9 then Raise AssertionError
      else rbind (get_fa_window_size sliding_window) (\<lambda>w. fa_kvcache lib (call\<lparr>fc_window := w\<rparr>)))"

definition flash_attention_forward_fa ::
    "('f, 'a) fa_lib \<Rightarrow> 'f caches option \<Rightarrow> nat option \<Rightarrow> 'f float_arg \<Rightarrow> 'f float_arg option \<Rightarrow> 'f float_arg option
       \<Rightarrow> 'a \<Rightarrow> int option \<Rightarrow> 'f float_arg option \<Rightarrow> bool \<Rightarrow> ('f float_arg \<times> 'f caches option) res" where
  "flash_attention_forward_fa lib storage layer_idx query key val scaling sliding_window s_aux use_cute =
     (case get_kv_cache_context storage of
        None \<Rightarrow> Raise RuntimeError
      | Some c \<Rightarrow>
        rbind (transpose12 query) (\<lambda>q. rbind (transposed key) (\<lambda>k. rbind (transposed val) (\<lambda>v.
        if length (ta_shape q) \<noteq> 4 then Raise ValueError
        else if length (ta_shape k) \<noteq> 4 then Raise AssertionError
        else if \<not> is_paged_attn c then Raise ValueError
        else case layer_idx of
          None \<Rightarrow> Raise AssertionError
        | Some layer \<Rightarrow>
          rbind (layer_cache (key_cache c) layer) (\<lambda>_. rbind (layer_cache (value_cache c) layer) (\<lambda>_.
          rbind (reshape_rows (dim k 2) (dim q 3) k) (\<lambda>k'.
          rbind (reshape_rows (dim k 2) (last_dim v) v) (\<lambda>v'.
          rbind (store_rows (the (key_cache c)) (the (value_cache c)) layer (slot_mapping c) k' v') (\<lambda>(kcs, vcs).
          rbind (reshape_rows (dim q 2) (dim q 3) q) (\<lambda>q'.
          case query_start_loc c of
            None \<Rightarrow> Raise AttributeError
          | Some loc \<Rightarrow> (case max_seqlen_q c of
              None \<Rightarrow> Raise AssertionError
            | Some longest \<Rightarrow>
              rbind (get_fa_learnable_sink (fa_to_dtype lib) s_aux use_cute) (\<lambda>sink.
              rbind (fa_attend lib sliding_window use_cute
                \<lparr>fc_q = q', fc_k = kcs ! layer, fc_v = vcs ! layer, fc_cu_seqlens_q = loc, fc_max_seqlen_q = longest, fc_seqused = context_lens c,
                 fc_page_table = block_tables c, fc_scale = scaling, fc_window = (-1, -1), fc_sink = sink\<rparr>) (\<lambda>out.
              Ok (out, Some (c\<lparr>key_cache := Some kcs, value_cache := Some vcs\<rparr>)))))))))))))))"

text \<open>\<open>flash_attention_forward_cute = partial(flash_attention_forward, use_cute=True)\<close>.\<close>

definition flash_attention_forward_cute ::
    "('f, 'a) fa_lib \<Rightarrow> 'f caches option \<Rightarrow> nat option \<Rightarrow> 'f float_arg \<Rightarrow> 'f float_arg option \<Rightarrow> 'f float_arg option
       \<Rightarrow> 'a \<Rightarrow> int option \<Rightarrow> 'f float_arg option \<Rightarrow> ('f float_arg \<times> 'f caches option) res" where
  "flash_attention_forward_cute lib storage layer_idx query key val scaling sliding_window s_aux =
     flash_attention_forward_fa lib storage layer_idx query key val scaling sliding_window s_aux True"

section \<open>Properties\<close>

text \<open>A window of \<open>w\<close> tokens, as Transformers counts it, shows a causal query the last \<open>w\<close> positions and itself among them.\<close>

lemma window_shows:
  assumes "get_fa_window_size (Some w) = Ok (l, r)" "0 \<le> i"
  shows "card {j. 0 \<le> j \<and> i - l \<le> j \<and> j \<le> i} = nat (min w (i + 1))" "r = l" "0 \<le> l"
proof -
  have w: "0 < w" "l = w - 1" "r = w - 1" using assms(1) by (auto simp: get_fa_window_size_def split: if_splits)
  have "{j. 0 \<le> j \<and> i - l \<le> j \<and> j \<le> i} = {max 0 (i - l)..i}" by auto
  then show "card {j. 0 \<le> j \<and> i - l \<le> j \<and> j \<le> i} = nat (min w (i + 1))" using w assms(2) by (simp add: min_def max_def)
  show "r = l" "0 \<le> l" using w by simp_all
qed

lemma window_errors: "get_fa_window_size (Some w) = Raise ValueError \<longleftrightarrow> w \<le> 0"
  by (simp add: get_fa_window_size_def)

text \<open>Only the FA4 library knows sinks, and only a paged context is served.\<close>

lemma sink_needs_cute: "get_fa_learnable_sink f (Some s) False = Raise NotImplementedError"
  by (simp add: get_fa_learnable_sink_def)

lemma fa_needs_context:
  "flash_attention_forward_fa lib None layer query mk mv scaling sw sink cute = Raise RuntimeError"
  "ta_shape query = [b, h, l, d] \<Longrightarrow> ta_shape key = [b, hk, l, d] \<Longrightarrow> ta_shape val = [b, hk, l, dv] \<Longrightarrow> \<not> is_paged_attn c \<Longrightarrow>
    flash_attention_forward_fa lib (Some c) layer query (Some key) (Some val) scaling sw sink cute = Raise ValueError"
  by (simp_all add: flash_attention_forward_fa_def get_kv_cache_context_def transposed_def transpose12_def Let_def numeral_2_eq_2)

text \<open>
  What a step hands over: for a batch that fits the cache the library is called once, with the rows of the queries, the
  boundaries of the requests, and caches in which every request's blocks hold its sequence up to its new length.
\<close>

lemma fa_hands_over:
  assumes B: "batch_fits ps blocks width reqs" and heads: "0 < hq" "0 < hk" "0 < dk" "0 < dv"
    and sh: "ta_shape query = [1, hq, sum_list (map step_len reqs), dk]" "ta_shape key = [1, hk, sum_list (map step_len reqs), dk]"
      "ta_shape val = [1, hk, sum_list (map step_len reqs), dv]"
    and C: "layer < length kcs" "layer < length vcs" "ta_shape (kcs ! layer) = [nb, ps, hk, dk]" "ta_shape (vcs ! layer) = [nb, ps, hk, dv]"
    and sink: "get_fa_learnable_sink (fa_to_dtype lib) s_aux cute = Ok sink"
  shows "\<exists>q kc vc. flash_attention_forward_fa lib (Some (batch_context ps width kcs vcs reqs)) (Some layer) query (Some key) (Some val) scaling sw s_aux cute =
      rbind (fa_attend lib sw cute \<lparr>fc_q = q, fc_k = kc, fc_v = vc, fc_cu_seqlens_q = 0 # running_sums 0 (map tokens_this_step reqs),
          fc_max_seqlen_q = Max (set (map tokens_this_step reqs)), fc_seqused = Some (map num_computed_tokens reqs),
          fc_page_table = Some (map (\<lambda>r. block_ids r @ replicate (width - length (block_ids r)) (-1)) reqs),
          fc_scale = scaling, fc_window = (-1, -1), fc_sink = sink\<rparr>)
        (\<lambda>out. Ok (out, Some (batch_context ps width (kcs[layer := kc]) (vcs[layer := vc]) reqs))) \<and>
    (\<forall>tok h d. h < hq \<longrightarrow> d < dk \<longrightarrow> access3 q tok h d = token_row query tok h d) \<and>
    (\<forall>i Q K V. i < length reqs \<longrightarrow> continues ps reqs i (kcs ! layer) (vcs ! layer) query key val Q K V \<longrightarrow>
       holds ps kc (reqs ! i) (new_len (reqs ! i)) K \<and> holds ps vc (reqs ! i) (new_len (reqs ! i)) V)"
proof -
  obtain k v k' v' kc vc where st: "transpose12 key = Ok k" "reshape_rows hk dk k = Ok k'" "transpose12 val = Ok v" "reshape_rows hk dv v = Ok v'"
      "store_rows kcs vcs layer (Some (batch_slots ps reqs)) k' v' = Ok (kcs[layer := kc], vcs[layer := vc])"
    and keep: "\<And>i rows. i < length reqs \<Longrightarrow> holds ps (kcs ! layer) (reqs ! i) (old_len (reqs ! i)) rows \<Longrightarrow>
           brings key (first_row reqs i) (step_len (reqs ! i)) (old_len (reqs ! i)) rows \<Longrightarrow> holds ps kc (reqs ! i) (new_len (reqs ! i)) rows"
      "\<And>i rows. i < length reqs \<Longrightarrow> holds ps (vcs ! layer) (reqs ! i) (old_len (reqs ! i)) rows \<Longrightarrow>
           brings val (first_row reqs i) (step_len (reqs ! i)) (old_len (reqs ! i)) rows \<Longrightarrow> holds ps vc (reqs ! i) (new_len (reqs ! i)) rows"
    by (rule stored_step [OF B refl heads(2-4) sh(2,3) C]) blast
  obtain q where q: "transpose12 query = Ok q" by (simp add: transpose12_def sh Let_def)
  note ts = reshapes [OF q sh(1)] reshapes [OF st(1) sh(2)] reshapes [OF st(3) sh(3)]
  obtain q' where q': "reshape_rows hq dk q = Ok q'" using heads by (simp add: reshape_rows_def ts Let_def)
  note rq = reshaped_rows [OF q sh(1) q']
  have run: "flash_attention_forward_fa lib (Some (batch_context ps width kcs vcs reqs)) (Some layer) query (Some key) (Some val) scaling sw s_aux cute =
      rbind (fa_attend lib sw cute \<lparr>fc_q = q', fc_k = kc, fc_v = vc, fc_cu_seqlens_q = 0 # running_sums 0 (map tokens_this_step reqs),
          fc_max_seqlen_q = Max (set (map tokens_this_step reqs)), fc_seqused = Some (map num_computed_tokens reqs),
          fc_page_table = Some (map (\<lambda>r. block_ids r @ replicate (width - length (block_ids r)) (-1)) reqs),
          fc_scale = scaling, fc_window = (-1, -1), fc_sink = sink\<rparr>)
        (\<lambda>out. Ok (out, Some (batch_context ps width (kcs[layer := kc]) (vcs[layer := vc]) reqs)))"
    using C st q' sink by (simp add: flash_attention_forward_fa_def get_kv_cache_context_def transposed_def q ts layer_cache_def batch_context_def py_get_in_range)
  show ?thesis
  proof (intro exI conjI allI impI)
    show "flash_attention_forward_fa lib (Some (batch_context ps width kcs vcs reqs)) (Some layer) query (Some key) (Some val) scaling sw s_aux cute =
      rbind (fa_attend lib sw cute \<lparr>fc_q = q', fc_k = kc, fc_v = vc, fc_cu_seqlens_q = 0 # running_sums 0 (map tokens_this_step reqs),
          fc_max_seqlen_q = Max (set (map tokens_this_step reqs)), fc_seqused = Some (map num_computed_tokens reqs),
          fc_page_table = Some (map (\<lambda>r. block_ids r @ replicate (width - length (block_ids r)) (-1)) reqs),
          fc_scale = scaling, fc_window = (-1, -1), fc_sink = sink\<rparr>)
        (\<lambda>out. Ok (out, Some (batch_context ps width (kcs[layer := kc]) (vcs[layer := vc]) reqs)))" by (rule run)
    show "access3 q' tok h d = token_row query tok h d" if "h < hq" "d < dk" for tok h d using rq that by blast
  next
    fix i Q K V assume i: "i < length reqs" and con: "continues ps reqs i (kcs ! layer) (vcs ! layer) query key val Q K V"
    note I = con [unfolded continues_def Let_def]
    show "holds ps kc (reqs ! i) (new_len (reqs ! i)) K" "holds ps vc (reqs ! i) (new_len (reqs ! i)) V"
      using keep(1) [OF i] keep(2) [OF i] I by blast+
  qed
qed

end
