(* ===== verification/Expert_Loader.thy ===== *)
theory Expert_Loader
  imports Model_Loader Py_Strings
begin

text \<open>
  The weight loaders of the mixture-of-experts models, \<open>load_qwen3_moe_weights\<close>
  (\<open>src/vexact/models/qwen3_moe/modeling_qwen3_moe.py\<close>) and \<open>load_deepseek_v3_weights\<close>
  (\<open>src/vexact/models/deepseek_v3/modeling_deepseek_v3.py\<close>): a checkpoint stores every expert's projections under names
  of their own, the model keeps them in two stacked tensors per block.
\<close>

section \<open>Names of expert weights\<close>

text \<open>\<open>str.isdigit\<close> and \<open>int\<close> on characters below 256: the superscripts one, two and three are digits that \<open>int\<close> rejects.\<close>

definition is_decimal :: "char \<Rightarrow> bool" where
  "is_decimal c \<longleftrightarrow> 48 \<le> (of_char c :: nat) \<and> (of_char c :: nat) \<le> 57"

definition py_isdigit :: "string \<Rightarrow> bool" where
  "py_isdigit s \<longleftrightarrow> s \<noteq> [] \<and> (\<forall>c\<in>set s. is_decimal c \<or> (of_char c :: nat) \<in> {178, 179, 185})"

definition digits_value :: "string \<Rightarrow> nat" where
  "digits_value s = fold (\<lambda>c n. 10 * n + (of_char c - 48)) s 0"

definition int_of_digits :: "string \<Rightarrow> nat res" where
  "int_of_digits s = (if \<forall>c\<in>set s. is_decimal c then Ok (digits_value s) else Raise ValueError)"

definition expert_projs :: "string list" where
  "expert_projs = [''gate_proj'', ''up_proj'', ''down_proj'', ''gate_up_proj'']"

text \<open>\<open><prefix>.experts.<expert_idx>.<proj>.weight\<close>, split at the first \<open>.experts.\<close>.\<close>

definition expert_parts :: "string \<Rightarrow> string list \<Rightarrow> (string \<times> nat \<times> string) option res" where
  "expert_parts pre parts =
     (case parts of
        [expert_idx, proj, suf] \<Rightarrow>
          if suf = ''weight'' \<and> proj \<in> set expert_projs \<and> py_isdigit expert_idx
          then rbind (int_of_digits expert_idx) (\<lambda>e. Ok (Some (pre, e, proj))) else Ok None
      | _ \<Rightarrow> Ok None)"

definition parse_expert :: "string \<Rightarrow> (string \<times> nat \<times> string) option res" where
  "parse_expert full_name =
     (if has_sub ''.experts.'' full_name \<and> suffix ''.weight'' full_name then
        (case split_once ''.experts.'' full_name of
           [pre, rest] \<Rightarrow> expert_parts pre (split_sub ''.'' rest)
         | _ \<Rightarrow> Ok None)
      else Ok None)"

section \<open>The loaders\<close>

text \<open>A tensor is its shape and its cells; \<open>t[e, a:b, :]\<close> and the assignment of that slice.\<close>

type_synonym 'f weight = "nat list \<times> (nat list \<Rightarrow> 'f)"

definition expert_rows :: "nat \<Rightarrow> nat \<Rightarrow> nat \<Rightarrow> 'f weight \<Rightarrow> 'f weight" where
  "expert_rows e a b t = ([b - a, fst t ! 2], \<lambda>ix. snd t [e, a + ix ! 0, ix ! 1])"

definition put_rows :: "nat \<Rightarrow> nat \<Rightarrow> nat \<Rightarrow> 'f weight \<Rightarrow> 'f weight \<Rightarrow> 'f weight" where
  "put_rows e a b t w =
     (fst t, \<lambda>ix. if length ix = 3 \<and> ix ! 0 = e \<and> a \<le> ix ! 1 \<and> ix ! 1 < b then snd w [ix ! 1 - a, ix ! 2] else snd t ix)"

text \<open>The fused module behind a prefix, if it is one: its sizes and the storages of its two tensors.\<close>

record expert_block =
  eb_num :: nat
  eb_inter :: nat
  eb_gate_up :: nat
  eb_down :: nat

type_synonym 'f copy_fn = "'f weight \<Rightarrow> 'f weight \<Rightarrow> 'f weight res"

definition copy_rows :: "'f copy_fn \<Rightarrow> nat \<Rightarrow> nat \<Rightarrow> nat \<Rightarrow> nat \<Rightarrow> 'f weight \<Rightarrow> 'f weight params \<Rightarrow> 'f weight params res" where
  "copy_rows copy s e a b w m =
     rbind (copy (expert_rows e a b (p_mem m s)) w) (\<lambda>v. Ok (m\<lparr>p_mem := (p_mem m)(s := put_rows e a b (p_mem m s) v)\<rparr>))"

definition load_expert :: "'f copy_fn \<Rightarrow> expert_block \<Rightarrow> nat \<Rightarrow> string \<Rightarrow> 'f weight \<Rightarrow> 'f weight params \<Rightarrow> 'f weight params res" where
  "load_expert copy eb e proj w m =
     (if proj = ''gate_proj'' then copy_rows copy (eb_gate_up eb) e 0 (eb_inter eb) w m
      else if proj = ''up_proj'' then copy_rows copy (eb_gate_up eb) e (eb_inter eb) (fst (p_mem m (eb_gate_up eb)) ! 1) w m
      else if proj = ''gate_up_proj'' then copy_rows copy (eb_gate_up eb) e 0 (fst (p_mem m (eb_gate_up eb)) ! 1) w m
      else if proj = ''down_proj'' then copy_rows copy (eb_down eb) e 0 (fst (p_mem m (eb_down eb)) ! 1) w m
      else Ok m)"

type_synonym 'f load_state = "'f weight option \<times> string set \<times> 'f weight params"

text \<open>One weight of the iterator; \<open>skip\<close> are the names a model leaves out.\<close>

definition load_moe_one ::
    "'f copy_fn \<Rightarrow> (string \<Rightarrow> bool) \<Rightarrow> (string \<Rightarrow> expert_block option) \<Rightarrow> string \<times> 'f weight \<Rightarrow> 'f load_state \<Rightarrow> 'f load_state res" where
  "load_moe_one copy skip block_of nw st =
     (let (full_name, w) = nw; (emb, blocks, m) = st
      in rbind (parse_expert full_name) (\<lambda>pe.
         case pe of
           Some (pre, e, proj) \<Rightarrow> (case block_of pre of
               Some eb \<Rightarrow> if e < eb_num eb then rbind (load_expert copy eb e proj w m) (\<lambda>m'. Ok (emb, insert pre blocks, m'))
                 else Ok (emb, blocks, m)
             | None \<Rightarrow> Ok (emb, blocks, m))
         | None \<Rightarrow> (let emb' = (if full_name = embed_name then Some w else emb)
             in if skip full_name then Ok (emb', blocks, m)
                else rbind (copy_param copy full_name w m) (\<lambda>m'. Ok (emb', blocks, m')))))"

definition load_qwen3_moe_weights ::
    "'f copy_fn \<Rightarrow> (string \<Rightarrow> expert_block option) \<Rightarrow> string list option \<Rightarrow> (string \<times> 'f weight) list \<Rightarrow> 'f weight params
       \<Rightarrow> (nat \<times> 'f weight params) res" where
  "load_qwen3_moe_weights copy block_of tied_weight_keys ws m =
     rbind (for_res (load_moe_one copy (\<lambda>_. False) block_of) ws (None, {}, m)) (\<lambda>(emb, blocks, m').
     case tied_weight_keys of None \<Rightarrow> Raise TypeError
     | Some keys \<Rightarrow> rbind (for_res (tie_one copy emb) keys m') (\<lambda>m''. Ok (card blocks, m'')))"

definition load_deepseek_v3_weights ::
    "'f copy_fn \<Rightarrow> (string \<Rightarrow> expert_block option) \<Rightarrow> string list option \<Rightarrow> (string \<times> 'f weight) list \<Rightarrow> 'f weight params
       \<Rightarrow> (nat \<times> 'f weight params) res" where
  "load_deepseek_v3_weights copy block_of tied_weight_keys ws m =
     rbind (for_res (load_moe_one copy (suffix ''.rotary_emb.inv_freq'') block_of) ws (None, {}, m)) (\<lambda>(emb, blocks, m').
     rbind (for_res (tie_one copy emb) (case tied_weight_keys of Some keys \<Rightarrow> keys | None \<Rightarrow> []) m') (\<lambda>m''. Ok (card blocks, m'')))"

section \<open>Every expert's weights reach their slots\<close>

text \<open>Copying between tensors of one shape succeeds and converts every cell.\<close>

definition copies_cells :: "'f copy_fn \<Rightarrow> ('f \<Rightarrow> 'f) \<Rightarrow> bool" where
  "copies_cells copy conv \<longleftrightarrow> (\<forall>shp d w. copy (shp, d) (shp, w) = Ok (shp, \<lambda>ix. conv (w ix)))"

text \<open>The rows of the stacked tensors that a projection of an expert fills, and where its cell \<open>[i, j]\<close> goes.\<close>

definition expert_slot :: "expert_block \<Rightarrow> nat \<Rightarrow> string \<Rightarrow> nat \<times> nat \<times> nat" where
  "expert_slot eb hidden proj =
     (if proj = ''gate_proj'' then (eb_gate_up eb, 0, eb_inter eb)
      else if proj = ''up_proj'' then (eb_gate_up eb, eb_inter eb, 2 * eb_inter eb)
      else if proj = ''gate_up_proj'' then (eb_gate_up eb, 0, 2 * eb_inter eb)
      else (eb_down eb, 0, hidden))"

definition blocks_ok :: "(string \<Rightarrow> expert_block option) \<Rightarrow> nat \<Rightarrow> 'f weight params \<Rightarrow> bool" where
  "blocks_ok block_of hidden m \<longleftrightarrow>
     (\<forall>pre eb. block_of pre = Some eb \<longrightarrow> eb_gate_up eb \<noteq> eb_down eb \<and>
        fst (p_mem m (eb_gate_up eb)) = [eb_num eb, 2 * eb_inter eb, hidden] \<and> fst (p_mem m (eb_down eb)) = [eb_num eb, hidden, eb_inter eb]) \<and>
     (\<forall>pre pre' eb eb'. block_of pre = Some eb \<longrightarrow> block_of pre' = Some eb' \<longrightarrow> pre \<noteq> pre' \<longrightarrow>
        {eb_gate_up eb, eb_down eb} \<inter> {eb_gate_up eb', eb_down eb'} = {})"

definition block_storages :: "(string \<Rightarrow> expert_block option) \<Rightarrow> nat set" where
  "block_storages block_of = {s. \<exists>pre eb. block_of pre = Some eb \<and> (s = eb_gate_up eb \<or> s = eb_down eb)}"

text \<open>What an entry of the checkpoint writes to a cell of a block.\<close>

definition entry_target :: "(string \<Rightarrow> expert_block option) \<Rightarrow> nat \<Rightarrow> string \<Rightarrow> (nat \<times> nat \<times> nat \<times> nat) option" where
  "entry_target block_of hidden name =
     (case parse_expert name of
        Ok (Some (pre, e, proj)) \<Rightarrow> (case block_of pre of
            Some eb \<Rightarrow> if e < eb_num eb then (case expert_slot eb hidden proj of (s, a, b) \<Rightarrow> Some (s, e, a, b)) else None
          | None \<Rightarrow> None)
      | _ \<Rightarrow> None)"

definition entry_cell :: "(string \<Rightarrow> expert_block option) \<Rightarrow> nat \<Rightarrow> string \<times> 'f weight \<Rightarrow> nat \<Rightarrow> nat list \<Rightarrow> 'f option" where
  "entry_cell block_of hidden nw s ix =
     (case entry_target block_of hidden (fst nw) of
        Some (s', e, a, b) \<Rightarrow> if s = s' \<and> length ix = 3 \<and> ix ! 0 = e \<and> a \<le> ix ! 1 \<and> ix ! 1 < b then Some (snd (snd nw) [ix ! 1 - a, ix ! 2]) else None
      | None \<Rightarrow> None)"

text \<open>A checkpoint that fits the model: names can be read, and every tensor has the shape of its place.\<close>

definition entry_fits :: "(string \<Rightarrow> expert_block option) \<Rightarrow> nat \<Rightarrow> 'f weight params \<Rightarrow> string \<times> 'f weight \<Rightarrow> bool" where
  "entry_fits block_of hidden m nw \<longleftrightarrow>
     (case parse_expert (fst nw) of
        Ok None \<Rightarrow> (\<forall>s. p_data m (fst nw) = Some s \<longrightarrow> fst (snd nw) = fst (p_mem m s) \<and> s \<notin> block_storages block_of)
      | Ok (Some _) \<Rightarrow> (case entry_target block_of hidden (fst nw) of None \<Rightarrow> True | Some (s, e, a, b) \<Rightarrow> fst (snd nw) = [b - a, fst (p_mem m s) ! 2])
      | _ \<Rightarrow> False)"

lemma expert_parts_proj: "expert_parts pre parts = Ok (Some (a, e, proj)) \<Longrightarrow> proj \<in> set expert_projs"
  unfolding expert_parts_def by (auto split: list.split_asm if_split_asm)

lemma parsed_proj:
  assumes "parse_expert name = Ok (Some (pre, e, proj))"
  shows "proj \<in> set expert_projs"
proof (cases "has_sub ''.experts.'' name \<and> suffix ''.weight'' name")
  case True
  then obtain i where "find_sub ''.experts.'' name = Some i" by (auto simp: has_sub_def)
  then have "split_once ''.experts.'' name = [take i name, drop (i + length ''.experts.'') name]" by (simp only: split_once_def option.case)
  then have "expert_parts (take i name) (split_sub ''.'' (drop (i + length ''.experts.'') name)) = Ok (Some (pre, e, proj))"
    using assms by (simp only: parse_expert_def if_P [OF True] list.case)
  then show ?thesis by (rule expert_parts_proj)
next
  case False
  show ?thesis using assms by (simp only: parse_expert_def if_not_P [OF False] res.inject option.distinct)
qed

lemma copy_rows_Ok:
  assumes "copies_cells copy conv" "fst w = [b - a, fst (p_mem m s) ! 2]"
  shows "copy_rows copy s e a b w m = Ok (m\<lparr>p_mem := (p_mem m)(s := put_rows e a b (p_mem m s) (fst w, \<lambda>ix. conv (snd w ix)))\<rparr>)"
  using assms by (cases w) (simp add: copy_rows_def copies_cells_def expert_rows_def)

lemma load_expert_Ok:
  assumes "copies_cells copy conv" "blocks_ok block_of hidden m" "block_of pre = Some eb" "proj \<in> set expert_projs"
    "expert_slot eb hidden proj = (s, a, b)" "fst w = [b - a, fst (p_mem m s) ! 2]"
  shows "load_expert copy eb e proj w m = Ok (m\<lparr>p_mem := (p_mem m)(s := put_rows e a b (p_mem m s) (fst w, \<lambda>ix. conv (snd w ix)))\<rparr>)"
proof -
  have sh: "fst (p_mem m (eb_gate_up eb)) ! 1 = 2 * eb_inter eb" "fst (p_mem m (eb_down eb)) ! 1 = hidden"
    using assms(2,3) by (auto simp: blocks_ok_def)
  have "proj = ''gate_proj'' \<or> proj = ''up_proj'' \<or> proj = ''gate_up_proj'' \<or> proj = ''down_proj''"
    using assms(4) by (auto simp: expert_projs_def)
  then have "load_expert copy eb e proj w m = copy_rows copy s e a b w m"
    using assms(5) unfolding load_expert_def expert_slot_def sh by (elim disjE; clarsimp)
  then show ?thesis using copy_rows_Ok [OF assms(1,6)] by simp
qed

lemma put_rows_cell: "snd (put_rows e a b t w) ix =
    (if length ix = 3 \<and> ix ! 0 = e \<and> a \<le> ix ! 1 \<and> ix ! 1 < b then snd w [ix ! 1 - a, ix ! 2] else snd t ix)"
  by (simp add: put_rows_def)

text \<open>One entry: it is loaded, no shape changes, and of the blocks exactly its rows are written.\<close>

lemma load_moe_one_Ok:
  assumes C: "copies_cells copy conv" and B: "blocks_ok block_of hidden m" and F: "entry_fits block_of hidden m nw"
  obtains emb' m' where "load_moe_one copy skip block_of nw (emb, blocks, m) =
      Ok (emb', (if entry_target block_of hidden (fst nw) = None then blocks else insert (fst (the (case parse_expert (fst nw) of Ok x \<Rightarrow> x))) blocks), m')"
    "p_data m' = p_data m" "\<And>s. fst (p_mem m' s) = fst (p_mem m s)"
    "\<And>s ix. s \<in> block_storages block_of \<Longrightarrow> snd (p_mem m' s) ix =
       (case entry_cell block_of hidden nw s ix of Some v \<Rightarrow> conv v | None \<Rightarrow> snd (p_mem m s) ix)"
proof -
  obtain name w where nw: "nw = (name, w)" by (cases nw)
  consider (plain) "parse_expert name = Ok None" | (foreign) pre e proj where "parse_expert name = Ok (Some (pre, e, proj))" "entry_target block_of hidden name = None"
    | (expert) pre e proj eb s a b where "parse_expert name = Ok (Some (pre, e, proj))" "block_of pre = Some eb" "e < eb_num eb" "expert_slot eb hidden proj = (s, a, b)"
  proof (cases "parse_expert name")
    case (Ok r)
    with that(1) show ?thesis
    proof (cases r)
      case (Some t)
      obtain pre e proj where t: "t = (pre, e, proj)" by (cases t)
      show ?thesis
      proof (cases "\<exists>eb. block_of pre = Some eb \<and> e < eb_num eb")
        case True
        then obtain eb where eb: "block_of pre = Some eb" "e < eb_num eb" by blast
        obtain s a b where "expert_slot eb hidden proj = (s, a, b)" by (rule prod_cases3)
        with eb show ?thesis by (intro that(3)) (simp_all add: Ok Some t)
      next
        case False
        then have "entry_target block_of hidden name = None" by (auto simp: entry_target_def Ok Some t split: option.split)
        then show ?thesis by (intro that(2)) (simp_all add: Ok Some t)
      qed
    qed simp
  qed (use F in \<open>auto simp: entry_fits_def nw\<close>)
  then show thesis
  proof cases
    case plain
    then have t: "entry_target block_of hidden name = None" by (simp add: entry_target_def)
    have fit: "\<And>s. p_data m name = Some s \<Longrightarrow> fst w = fst (p_mem m s) \<and> s \<notin> block_storages block_of"
      using F plain by (simp add: entry_fits_def nw)
    show thesis
    proof (cases "skip name \<or> p_data m name = None")
      case True
      then show thesis using plain t by (intro that [of "if name = embed_name then Some w else emb" m]) (auto simp: load_moe_one_def nw copy_param_def entry_cell_def)
    next
      case False
      then obtain s where s: "p_data m name = Some s" by auto
      have "copy (p_mem m s) w = Ok (fst (p_mem m s), \<lambda>ix. conv (snd w ix))"
        using C fit [OF s] unfolding copies_cells_def by (metis prod.collapse)
      then show thesis
        using plain t s False fit [OF s] by (intro that [of "if name = embed_name then Some w else emb" "m\<lparr>p_mem := (p_mem m)(s := (fst (p_mem m s), \<lambda>ix. conv (snd w ix)))\<rparr>"])
          (auto simp: load_moe_one_def nw copy_param_def entry_cell_def)
    qed
  next
    case foreign
    then have "block_of pre = None \<or> (\<exists>eb. block_of pre = Some eb \<and> \<not> e < eb_num eb)"
      by (auto simp: entry_target_def split: option.splits if_splits prod.splits)
    then show thesis using foreign by (intro that [of emb m]) (auto simp: load_moe_one_def nw entry_cell_def)
  next
    case expert
    then have t: "entry_target block_of hidden name = Some (s, e, a, b)" by (simp add: entry_target_def)
    have "fst w = [b - a, fst (p_mem m s) ! 2]" using F expert(1) t by (simp add: entry_fits_def nw)
    from load_expert_Ok [OF C B expert(2) parsed_proj [OF expert(1)] expert(4) this]
    show thesis using expert t
      by (intro that [of emb "m\<lparr>p_mem := (p_mem m)(s := put_rows e a b (p_mem m s) (fst w, \<lambda>ix. conv (snd w ix)))\<rparr>"])
        (auto simp: load_moe_one_def nw entry_cell_def put_rows_cell put_rows_def)
  qed
qed

lemma fits_same:
  assumes "p_data m' = p_data m" "\<And>s. fst (p_mem m' s) = fst (p_mem m s)"
  shows "entry_fits block_of hidden m' nw = entry_fits block_of hidden m nw" "blocks_ok block_of hidden m' = blocks_ok block_of hidden m"
  unfolding entry_fits_def blocks_ok_def assms by (rule refl)+

text \<open>The blocks that a checkpoint has experts of.\<close>

definition filled_blocks :: "(string \<Rightarrow> expert_block option) \<Rightarrow> nat \<Rightarrow> (string \<times> 'f weight) list \<Rightarrow> string set" where
  "filled_blocks block_of hidden ws =
     (\<lambda>nw. fst (the (case parse_expert (fst nw) of Ok x \<Rightarrow> x))) ` {nw \<in> set ws. entry_target block_of hidden (fst nw) \<noteq> None}"

lemma load_moe_loop:
  assumes C: "copies_cells copy conv" and B: "blocks_ok block_of hidden m" and F: "\<forall>nw\<in>set ws. entry_fits block_of hidden m nw"
  shows "\<exists>emb' m'. for_res (load_moe_one copy skip block_of) ws (emb, blocks, m) = Ok (emb', blocks \<union> filled_blocks block_of hidden ws, m') \<and>
    p_data m' = p_data m \<and> (\<forall>s. fst (p_mem m' s) = fst (p_mem m s)) \<and>
    (\<forall>s ix. s \<in> block_storages block_of \<longrightarrow> snd (p_mem m' s) ix =
       fold (\<lambda>nw x. case entry_cell block_of hidden nw s ix of Some v \<Rightarrow> conv v | None \<Rightarrow> x) ws (snd (p_mem m s) ix))"
  using B F
proof (induction ws arbitrary: emb blocks m)
  case (Cons nw ws)
  have "entry_fits block_of hidden m nw" using Cons.prems(2) by simp
  from load_moe_one_Ok [OF C Cons.prems(1) this, of skip emb blocks] obtain emb1 m1 where
    one: "load_moe_one copy skip block_of nw (emb, blocks, m) =
      Ok (emb1, (if entry_target block_of hidden (fst nw) = None then blocks else insert (fst (the (case parse_expert (fst nw) of Ok x \<Rightarrow> x))) blocks), m1)"
    "p_data m1 = p_data m" "\<And>s. fst (p_mem m1 s) = fst (p_mem m s)"
    "\<And>s ix. s \<in> block_storages block_of \<Longrightarrow> snd (p_mem m1 s) ix =
       (case entry_cell block_of hidden nw s ix of Some v \<Rightarrow> conv v | None \<Rightarrow> snd (p_mem m s) ix)" by blast
  note same = fits_same [OF one(2,3)]
  let ?bs = "if entry_target block_of hidden (fst nw) = None then blocks else insert (fst (the (case parse_expert (fst nw) of Ok x \<Rightarrow> x))) blocks"
  obtain emb' m' where "for_res (load_moe_one copy skip block_of) ws (emb1, ?bs, m1) = Ok (emb', ?bs \<union> filled_blocks block_of hidden ws, m')"
    "p_data m' = p_data m1" "\<forall>s. fst (p_mem m' s) = fst (p_mem m1 s)"
    "\<forall>s ix. s \<in> block_storages block_of \<longrightarrow> snd (p_mem m' s) ix =
       fold (\<lambda>nw x. case entry_cell block_of hidden nw s ix of Some v \<Rightarrow> conv v | None \<Rightarrow> x) ws (snd (p_mem m1 s) ix)"
    using Cons.IH [of m1 emb1 ?bs] Cons.prems same by auto
  moreover have "?bs \<union> filled_blocks block_of hidden ws = blocks \<union> filled_blocks block_of hidden (nw # ws)"
    by (auto simp: filled_blocks_def)
  ultimately show ?case using one by (intro exI [of _ emb'] exI [of _ m']) simp
qed (simp add: filled_blocks_def)

lemma tie_loop:
  assumes "p_data m embed_name \<noteq> None \<or> (\<forall>n\<in>set keys. p_data m n = None)"
  shows "\<exists>m'. for_res (tie_one copy emb) keys m = Ok m' \<and> p_mem m' = p_mem m"
  using assms
proof (induction keys arbitrary: m)
  case (Cons k ks)
  have "\<exists>m1. tie_one copy emb k m = Ok m1 \<and> p_mem m1 = p_mem m \<and> (p_data m1 embed_name \<noteq> None \<or> (\<forall>n\<in>set ks. p_data m1 n = None))"
    using Cons.prems by (auto simp: tie_one_def split: option.split)
  then show ?case using Cons.IH by fastforce
qed simp

text \<open>Two names that may write the same rows of an expert.\<close>

definition same_slot :: "string \<Rightarrow> string \<Rightarrow> bool" where
  "same_slot name name' \<longleftrightarrow>
     (case (parse_expert name, parse_expert name') of
        (Ok (Some (pre, e, proj)), Ok (Some (pre', e', proj'))) \<Rightarrow> pre = pre' \<and> e = e' \<and>
          (proj = proj' \<or> proj = ''gate_up_proj'' \<and> proj' \<noteq> ''down_proj'' \<or> proj' = ''gate_up_proj'' \<and> proj \<noteq> ''down_proj'')
      | _ \<Rightarrow> False)"

lemma other_slot:
  assumes B: "blocks_ok block_of hidden m" and t: "entry_target block_of hidden name = Some (s, e, a, b)" and cell: "a \<le> i" "i < b"
    and d: "\<not> same_slot name (fst nw)"
  shows "entry_cell block_of hidden nw s [e, i, j] = None"
proof (rule ccontr)
  assume "entry_cell block_of hidden nw s [e, i, j] \<noteq> None"
  then obtain a' b' where t': "entry_target block_of hidden (fst nw) = Some (s, e, a', b')" "a' \<le> i" "i < b'"
    by (auto simp: entry_cell_def split: option.splits prod.splits if_splits)
  obtain pre proj eb where x: "parse_expert name = Ok (Some (pre, e, proj))" "block_of pre = Some eb" "expert_slot eb hidden proj = (s, a, b)"
    using t by (auto simp: entry_target_def split: res.splits option.splits prod.splits if_splits)
  obtain pre' proj' eb' where y: "parse_expert (fst nw) = Ok (Some (pre', e, proj'))" "block_of pre' = Some eb'" "expert_slot eb' hidden proj' = (s, a', b')"
    using t'(1) by (auto simp: entry_target_def split: res.splits option.splits prod.splits if_splits)
  have in_block: "s = eb_gate_up eb \<or> s = eb_down eb" "s = eb_gate_up eb' \<or> s = eb_down eb'" using x(3) y(3) by (auto simp: expert_slot_def split: if_splits)
  have "pre = pre'"
  proof (rule ccontr)
    assume "pre \<noteq> pre'"
    then have "{eb_gate_up eb, eb_down eb} \<inter> {eb_gate_up eb', eb_down eb'} = {}" using B x(2) y(2) unfolding blocks_ok_def by blast
    with in_block show False by blast
  qed
  then have eb: "eb' = eb" using x(2) y(2) by simp
  have apart: "eb_gate_up eb \<noteq> eb_down eb" using B x(2) unfolding blocks_ok_def by blast
  have P: "proj = ''gate_proj'' \<or> proj = ''up_proj'' \<or> proj = ''gate_up_proj'' \<or> proj = ''down_proj''"
    "proj' = ''gate_proj'' \<or> proj' = ''up_proj'' \<or> proj' = ''gate_up_proj'' \<or> proj' = ''down_proj''"
    using parsed_proj [OF x(1)] parsed_proj [OF y(1)] by (auto simp: expert_projs_def)
  have "proj \<noteq> proj'" "proj = ''gate_up_proj'' \<Longrightarrow> proj' = ''down_proj''" "proj' = ''gate_up_proj'' \<Longrightarrow> proj = ''down_proj''"
    using d \<open>pre = pre'\<close> by (auto simp: same_slot_def x(1) y(1))
  with P x(3) y(3) cell t'(2,3) apart show False unfolding eb expert_slot_def by (elim disjE) simp_all
qed

text \<open>
  C14. Expert weights reach their slots. A checkpoint that stores every expert's projections under names of their own is
  loaded into the stacked tensors of the model: whatever the order of the names, every weight of an expert of the model
  fills exactly the rows of its expert and its projection, gate rows first and up rows behind them, and the number of
  blocks that were filled is returned. Both loaders do, whatever they tie.
\<close>

theorem expert_weights_reach_their_slots:
  assumes C: "copies_cells copy conv" and B: "blocks_ok block_of hidden m" and F: "\<forall>nw\<in>set ws. entry_fits block_of hidden m nw"
    and D: "\<forall>i<length ws. \<forall>j<length ws. i \<noteq> j \<longrightarrow> \<not> same_slot (fst (ws ! i)) (fst (ws ! j))"
    and T: "p_data m embed_name \<noteq> None \<or> (\<forall>n\<in>set keys. p_data m n = None)"
    and tied: "case tied of None \<Rightarrow> keys = [] | Some ks \<Rightarrow> keys = ks"
  shows "\<exists>q d. load_qwen3_moe_weights copy block_of (Some keys) ws m = Ok (card (filled_blocks block_of hidden ws), q) \<and>
    load_deepseek_v3_weights copy block_of tied ws m = Ok (card (filled_blocks block_of hidden ws), d) \<and>
    (\<forall>name w s e a b i j. (name, w) \<in> set ws \<longrightarrow> entry_target block_of hidden name = Some (s, e, a, b) \<longrightarrow> i < b - a \<longrightarrow>
       snd (p_mem q s) [e, a + i, j] = conv (snd w [i, j]) \<and> snd (p_mem d s) [e, a + i, j] = conv (snd w [i, j]))"
proof -
  have loaded: "\<exists>emb m1. for_res (load_moe_one copy skip block_of) ws (None, {}, m) = Ok (emb, filled_blocks block_of hidden ws, m1) \<and> p_data m1 = p_data m \<and>
      (\<forall>name w s e a b i j. (name, w) \<in> set ws \<longrightarrow> entry_target block_of hidden name = Some (s, e, a, b) \<longrightarrow> i < b - a \<longrightarrow>
         snd (p_mem m1 s) [e, a + i, j] = conv (snd w [i, j]))" for skip
  proof -
    obtain emb m1 where L: "for_res (load_moe_one copy skip block_of) ws (None, {}, m) = Ok (emb, filled_blocks block_of hidden ws, m1)" "p_data m1 = p_data m"
      "\<And>s ix. s \<in> block_storages block_of \<Longrightarrow> snd (p_mem m1 s) ix =
         fold (\<lambda>nw x. case entry_cell block_of hidden nw s ix of Some v \<Rightarrow> conv v | None \<Rightarrow> x) ws (snd (p_mem m s) ix)"
      using load_moe_loop [OF C B F, of skip None "{}"] by auto
    have "snd (p_mem m1 s) [e, a + i, j] = conv (snd w [i, j])"
      if w: "(name, w) \<in> set ws" and t: "entry_target block_of hidden name = Some (s, e, a, b)" and i: "i < b - a" for name w s e a b i j
    proof -
      obtain us vs where ws: "ws = us @ (name, w) # vs" using w by (meson split_list)
      have s: "s \<in> block_storages block_of"
        using t by (auto simp: entry_target_def block_storages_def expert_slot_def split: res.splits option.splits prod.splits if_splits)
      have own: "entry_cell block_of hidden (name, w) s [e, a + i, j] = Some (snd w [i, j])" using t i by (simp add: entry_cell_def)
      have "entry_cell block_of hidden nw s [e, a + i, j] = None" if "nw \<in> set vs" for nw
      proof -
        obtain k where k: "k < length vs" "nw = vs ! k" using \<open>nw \<in> set vs\<close> by (auto simp: in_set_conv_nth)
        have "length us < length ws" "length us + Suc k < length ws" "length us \<noteq> length us + Suc k" using k(1) by (simp_all add: ws)
        then have "\<not> same_slot (fst (ws ! length us)) (fst (ws ! (length us + Suc k)))" using D by blast
        then have "\<not> same_slot name (fst nw)" by (simp add: ws k(2) nth_append)
        then show ?thesis using i by (intro other_slot [OF B t]) simp_all
      qed
      then have rest: "fold (\<lambda>nw x. case entry_cell block_of hidden nw s [e, a + i, j] of Some v \<Rightarrow> conv v | None \<Rightarrow> x) vs y = y" for y
        by (induction vs arbitrary: y) simp_all
      show ?thesis unfolding L(3) [OF s] ws by (simp add: own rest)
    qed
    with L(1,2) show ?thesis by blast
  qed
  have tie: "\<exists>m'. for_res (tie_one copy emb) keys m1 = Ok m' \<and> p_mem m' = p_mem m1" if "p_data m1 = p_data m" for emb m1
    using T that by (intro tie_loop) simp
  obtain emb q1 where q: "for_res (load_moe_one copy (\<lambda>_. False) block_of) ws (None, {}, m) = Ok (emb, filled_blocks block_of hidden ws, q1)" "p_data q1 = p_data m"
    "\<And>name w s e a b i j. (name, w) \<in> set ws \<Longrightarrow> entry_target block_of hidden name = Some (s, e, a, b) \<Longrightarrow> i < b - a \<Longrightarrow> snd (p_mem q1 s) [e, a + i, j] = conv (snd w [i, j])"
    using loaded [of "\<lambda>_. False"] by blast
  obtain emb' d1 where d: "for_res (load_moe_one copy (suffix ''.rotary_emb.inv_freq'') block_of) ws (None, {}, m) = Ok (emb', filled_blocks block_of hidden ws, d1)" "p_data d1 = p_data m"
    "\<And>name w s e a b i j. (name, w) \<in> set ws \<Longrightarrow> entry_target block_of hidden name = Some (s, e, a, b) \<Longrightarrow> i < b - a \<Longrightarrow> snd (p_mem d1 s) [e, a + i, j] = conv (snd w [i, j])"
    using loaded [of "suffix ''.rotary_emb.inv_freq''"] by blast
  obtain q2 d2 where 2: "for_res (tie_one copy emb) keys q1 = Ok q2" "p_mem q2 = p_mem q1" "for_res (tie_one copy emb') keys d1 = Ok d2" "p_mem d2 = p_mem d1"
    using tie [OF q(2)] tie [OF d(2)] by blast
  have keys: "(case tied of None \<Rightarrow> [] | Some ks \<Rightarrow> ks) = keys" using tied by (cases tied) simp_all
  have "load_qwen3_moe_weights copy block_of (Some keys) ws m = Ok (card (filled_blocks block_of hidden ws), q2)"
    unfolding load_qwen3_moe_weights_def q(1) by (simp add: 2(1))
  moreover have "load_deepseek_v3_weights copy block_of tied ws m = Ok (card (filled_blocks block_of hidden ws), d2)"
    unfolding load_deepseek_v3_weights_def d(1) keys by (simp add: 2(3))
  ultimately show ?thesis using q(3) d(3) 2(2,4) by metis
qed

definition exact_copy :: "int copy_fn" where
  "exact_copy d w = (if fst d = fst w then Ok w else Raise RuntimeError)"

definition ex_experts :: "int weight params" where
  "ex_experts = \<lparr>p_data = [embed_name \<mapsto> 2, ''m.experts.gate_up_proj'' \<mapsto> 0, ''m.experts.down_proj'' \<mapsto> 1],
     p_mem = (\<lambda>s. if s = 0 then ([2, 2, 2], \<lambda>_. 0) else if s = 1 then ([2, 2, 1], \<lambda>_. 0) else ([4, 2], \<lambda>_. 0))\<rparr>"

definition ex_blocks :: "string \<rightharpoonup> expert_block" where
  "ex_blocks = [''m'' \<mapsto> \<lparr>eb_num = 2, eb_inter = 1, eb_gate_up = 0, eb_down = 1\<rparr>]"

definition ex_checkpoint :: "(string \<times> int weight) list" where
  "ex_checkpoint = [(''m.experts.1.up_proj.weight'', ([1, 2], \<lambda>_. 7)), (embed_name, ([4, 2], \<lambda>_. 3)), (''m.experts.1.gate_proj.weight'', ([1, 2], \<lambda>_. 8))]"

lemma ex_parse:
  "parse_expert ''m.experts.1.up_proj.weight'' = Ok (Some (''m'', 1, ''up_proj''))"
  "parse_expert ''m.experts.1.gate_proj.weight'' = Ok (Some (''m'', 1, ''gate_proj''))"
  "parse_expert embed_name = Ok None"
  by code_simp+

lemma expert_weights_reach_their_slots_witness:
  "\<exists>q d. load_qwen3_moe_weights exact_copy ex_blocks (Some [''lm_head.weight'']) ex_checkpoint ex_experts = Ok (1, q) \<and>
     load_deepseek_v3_weights exact_copy ex_blocks (Some [''lm_head.weight'']) ex_checkpoint ex_experts = Ok (1, d) \<and>
     snd (p_mem q 0) [1, 1, 0] = 7 \<and> snd (p_mem d 0) [1, 0, 0] = 8"
proof -
  have C: "copies_cells exact_copy (\<lambda>x. x)" by (simp add: copies_cells_def exact_copy_def)
  have B: "blocks_ok ex_blocks 2 ex_experts" by (auto simp: blocks_ok_def ex_blocks_def ex_experts_def split: if_splits)
  have t: "entry_target ex_blocks 2 ''m.experts.1.up_proj.weight'' = Some (0, 1, 1, 2)"
    "entry_target ex_blocks 2 ''m.experts.1.gate_proj.weight'' = Some (0, 1, 0, 1)" "entry_target ex_blocks 2 embed_name = None"
    by (simp_all add: entry_target_def ex_parse ex_blocks_def expert_slot_def)
  have P: "p_data ex_experts embed_name = Some 2" "fst (p_mem ex_experts 2) = [4, 2]" "fst (p_mem ex_experts 0) = [2, 2, 2]" "2 \<notin> block_storages ex_blocks"
    by (simp_all add: ex_experts_def embed_name_def block_storages_def ex_blocks_def)
  have F: "\<forall>nw\<in>set ex_checkpoint. entry_fits ex_blocks 2 ex_experts nw"
    by (simp add: ex_checkpoint_def entry_fits_def ex_parse t P)
  have D: "\<forall>i<length ex_checkpoint. \<forall>j<length ex_checkpoint. i \<noteq> j \<longrightarrow> \<not> same_slot (fst (ex_checkpoint ! i)) (fst (ex_checkpoint ! j))"
    by (auto simp: ex_checkpoint_def same_slot_def ex_parse less_Suc_eq)
  have T: "p_data ex_experts embed_name \<noteq> None \<or> (\<forall>n\<in>set [''lm_head.weight'']. p_data ex_experts n = None)" by (simp add: ex_experts_def)
  have k: "card (filled_blocks ex_blocks 2 ex_checkpoint) = 1"
  proof -
    have "filled_blocks ex_blocks 2 ex_checkpoint = {''m''}" 
      by (auto simp: filled_blocks_def ex_checkpoint_def t ex_parse intro!: image_eqI [of _ _ "(''m.experts.1.up_proj.weight'', [1, 2], \<lambda>_. 7)"])
    then show ?thesis by simp
  qed
  have mem: "(''m.experts.1.up_proj.weight'', ([1, 2], \<lambda>_. 7)) \<in> set ex_checkpoint" "(''m.experts.1.gate_proj.weight'', ([1, 2], \<lambda>_. 8)) \<in> set ex_checkpoint"
    by (simp_all add: ex_checkpoint_def)
  obtain q d where "load_qwen3_moe_weights exact_copy ex_blocks (Some [''lm_head.weight'']) ex_checkpoint ex_experts = Ok (1, q)"
      "load_deepseek_v3_weights exact_copy ex_blocks (Some [''lm_head.weight'']) ex_checkpoint ex_experts = Ok (1, d)"
    and val: "\<And>name w s e a b i j. (name, w) \<in> set ex_checkpoint \<Longrightarrow> entry_target ex_blocks 2 name = Some (s, e, a, b) \<Longrightarrow> i < b - a \<Longrightarrow>
       snd (p_mem q s) [e, a + i, j] = snd w [i, j] \<and> snd (p_mem d s) [e, a + i, j] = snd w [i, j]"
    using expert_weights_reach_their_slots [OF C B F D T, of "Some [''lm_head.weight'']"] unfolding k by auto
  moreover have "snd (p_mem q 0) [1, 1, 0] = 7" "snd (p_mem d 0) [1, 0, 0] = 8"
    using val [OF mem(1) t(1), of 0 0] val [OF mem(2) t(2), of 0 0] by simp_all
  ultimately show ?thesis by blast
qed

text \<open>Called without the keys to tie, as its signature allows, the Qwen loader raises once the weights are read.\<close>

lemma qwen_loader_needs_keys: "load_qwen3_moe_weights copy block_of None [] m = Raise TypeError"
  by (simp add: load_qwen3_moe_weights_def)

text \<open>An expert's index in superscript passes \<open>isdigit\<close> and is rejected by \<open>int\<close>.\<close>

lemma superscript_index: "expert_parts pre [[char_of (178 :: nat)], ''up_proj'', ''weight''] = Raise ValueError"
  by (simp add: expert_parts_def expert_projs_def py_isdigit_def int_of_digits_def is_decimal_def)

end
