(* ===== verification/Model_Layers.thy ===== *)
theory Model_Layers
  imports Prelude
begin

text \<open>
  The layers that replace those of the models: routers and expert modules of
  \<open>src/vexact/models/qwen3_moe/modeling_qwen3_moe.py\<close> and \<open>src/vexact/models/deepseek_v3/modeling_deepseek_v3.py\<close>, the
  multi-head latent attention of the latter, the experts of \<open>src/vexact/models/gpt_oss/modeling_gpt_oss.py\<close>, and the
  installation of all of them (\<open>src/vexact/models/register.py\<close>). Routing and the states of attention are computed row
  by row, as the tensor operations of the source do.
\<close>

section \<open>Routing\<close>

text \<open>
  \<open>topk k xs\<close> are the indices that \<open>torch.topk\<close> returns; it raises for \<open>k\<close> beyond the row. The arithmetic of a
  data type is a record.
\<close>

record 'a route_ops =
  ro_sigmoid :: "'a \<Rightarrow> 'a"
  ro_softmax :: "'a list \<Rightarrow> 'a list"
  ro_add :: "'a \<Rightarrow> 'a \<Rightarrow> 'a"
  ro_mul :: "'a \<Rightarrow> 'a \<Rightarrow> 'a"
  ro_div :: "'a \<Rightarrow> 'a \<Rightarrow> 'a"
  ro_sum :: "'a list \<Rightarrow> 'a"
  ro_tiny :: 'a
  ro_round :: "'a \<Rightarrow> 'a"
  ro_topk :: "nat \<Rightarrow> 'a list \<Rightarrow> nat list"

definition topk :: "'a route_ops \<Rightarrow> nat \<Rightarrow> 'a list \<Rightarrow> nat list res" where
  "topk ops k xs = (if length xs < k then Raise RuntimeError else Ok (ro_topk ops k xs))"

text \<open>Qwen: softmax, the largest weights, normalised if configured, in the type of the hidden states.\<close>

definition qwen_route :: "'a route_ops \<Rightarrow> nat \<Rightarrow> bool \<Rightarrow> 'a list \<Rightarrow> (nat list \<times> 'a list) res" where
  "qwen_route ops top_k norm_topk_prob router_logits =
     (let routing = ro_softmax ops router_logits
      in rbind (topk ops top_k routing) (\<lambda>selected.
         let weights = map ((!) routing) selected;
             weights = (if norm_topk_prob then map (\<lambda>w. ro_div ops w (ro_sum ops weights)) weights else weights)
         in Ok (selected, map (ro_round ops) weights)))"

record 'a deepseek_router =
  dr_n_group :: nat
  dr_topk_group :: nat
  dr_top_k :: nat
  dr_norm_topk_prob :: bool
  dr_scaling :: 'a
  dr_bias :: "'a list"

text \<open>
  DeepSeek: experts are chosen by their sigmoid score plus a bias, from the groups whose two best experts have the
  largest sum; the scores of other groups are filled with 0. A number of experts that the groups do not divide is an
  error of \<open>view\<close>.
\<close>

definition group_of :: "nat \<Rightarrow> nat \<Rightarrow> 'a list \<Rightarrow> 'a list" where
  "group_of gsz g xs = take gsz (drop (g * gsz) xs)"

definition group_score :: "'a route_ops \<Rightarrow> 'a list \<Rightarrow> 'a res" where
  "group_score ops chunk = rbind (topk ops 2 chunk) (\<lambda>ix. Ok (ro_sum ops (map ((!) chunk) ix)))"

definition scores_for_choice :: "nat \<Rightarrow> nat list \<Rightarrow> 'a::zero list \<Rightarrow> 'a list" where
  "scores_for_choice gsz group_idx choice =
     map (\<lambda>e. if e div gsz \<in> set group_idx then choice ! e else 0) [0..<length choice]"

definition route_tokens_to_experts :: "'a::zero route_ops \<Rightarrow> 'a deepseek_router \<Rightarrow> 'a list \<Rightarrow> (nat list \<times> 'a list) res" where
  "route_tokens_to_experts ops r router_logits =
     (let scores = map (ro_sigmoid ops) router_logits; n = length scores; gsz = n div dr_n_group r
      in if n \<noteq> length (dr_bias r) then Raise RuntimeError
         else let choice = map2 (ro_add ops) scores (dr_bias r) in
         if dr_n_group r = 0 then Raise ZeroDivisionError
         else if dr_n_group r * gsz \<noteq> n then Raise RuntimeError
         else rbind (map_res (\<lambda>g. group_score ops (group_of gsz g choice)) [0..<dr_n_group r]) (\<lambda>group_scores.
              rbind (topk ops (dr_topk_group r) group_scores) (\<lambda>group_idx.
              rbind (topk ops (dr_top_k r) (scores_for_choice gsz group_idx choice)) (\<lambda>topk_indices.
              let weights = map ((!) scores) topk_indices;
                  weights = (if dr_norm_topk_prob r then
                      let denominator = ro_add ops (ro_sum ops weights) (ro_tiny ops) in map (\<lambda>w. ro_div ops w denominator) weights else weights)
              in Ok (topk_indices, map (\<lambda>w. ro_mul ops w (dr_scaling r)) weights)))))"

section \<open>Experts\<close>

text \<open>Rows of a layer: a matrix is the list of its rows, \<open>dot\<close> their product with an input row.\<close>

record 'a layer_ops =
  lo_dot :: "'a list \<Rightarrow> 'a list \<Rightarrow> 'a"
  lo_act :: "'a \<Rightarrow> 'a"
  lo_mul :: "'a \<Rightarrow> 'a \<Rightarrow> 'a"
  lo_add :: "'a \<Rightarrow> 'a \<Rightarrow> 'a"
  lo_zero :: 'a
  lo_cast :: "'a \<Rightarrow> 'a"

definition linear_row :: "'a layer_ops \<Rightarrow> 'a list list \<Rightarrow> 'a list \<Rightarrow> 'a list" where
  "linear_row ops W x = map (\<lambda>w. lo_dot ops w x) W"

text \<open>\<open>x.chunk(2, dim=-1)\<close> of a row: the first half is the longer one.\<close>

definition chunk2 :: "'a list \<Rightarrow> 'a list \<times> 'a list" where
  "chunk2 xs = (let h = (length xs + 1) div 2 in (take h xs, drop h xs))"

definition expert_row :: "'a layer_ops \<Rightarrow> 'a list list \<Rightarrow> 'a list list \<Rightarrow> 'a list \<Rightarrow> 'a list" where
  "expert_row ops gate_up down x =
     (let (gate, up) = chunk2 (linear_row ops gate_up x)
      in linear_row ops down (map2 (lo_mul ops) (map (lo_act ops) gate) up))"

text \<open>The stacked weights of a block, and the fused kernel of VeOmni, a parameter on whole batches.\<close>

record 'a stacked_experts =
  se_gate_up :: "'a list list list"
  se_down :: "'a list list list"

type_synonym 'a fused_kernel = "'a stacked_experts \<Rightarrow> 'a list list \<Rightarrow> nat list list \<Rightarrow> 'a list list \<Rightarrow> 'a list list res"

definition qwen_experts_forward ::
    "'a layer_ops \<Rightarrow> 'a fused_kernel \<Rightarrow> 'a stacked_experts \<Rightarrow> 'a list list \<Rightarrow> nat option \<Rightarrow> 'a list list option \<Rightarrow> nat list list option \<Rightarrow> 'a list list res" where
  "qwen_experts_forward ops fused ex hidden expert_idx routing_weights selected_experts =
     (case expert_idx of
        Some e \<Rightarrow> if length (se_gate_up ex) \<le> e then Raise IndexError
          else Ok (map (expert_row ops (se_gate_up ex ! e) (se_down ex ! e)) hidden)
      | None \<Rightarrow> (case (routing_weights, selected_experts) of
          (Some w, Some s) \<Rightarrow> fused ex hidden s w
        | _ \<Rightarrow> Raise AssertionError))"

definition qwen_block_forward ::
    "'a route_ops \<Rightarrow> 'a layer_ops \<Rightarrow> 'a fused_kernel \<Rightarrow> bool \<Rightarrow> 'a stacked_experts \<Rightarrow> 'a list list \<Rightarrow> nat \<Rightarrow> bool \<Rightarrow> 'a list list \<Rightarrow> 'a list list res" where
  "qwen_block_forward rops ops fused is_fused ex gate top_k norm_topk_prob hidden =
     (if \<not> is_fused then Raise AssertionError
      else rbind (map_res (\<lambda>x. qwen_route rops top_k norm_topk_prob (linear_row ops gate x)) hidden) (\<lambda>routes.
           qwen_experts_forward ops fused ex hidden None (Some (map snd routes)) (Some (map fst routes))))"

text \<open>
  The eager experts of DeepSeek: experts in ascending order, and for each the tokens that chose it, by position of the
  choice and then by token; each contribution is added to its token.
\<close>

definition expert_hits :: "nat list list \<Rightarrow> nat \<Rightarrow> (nat \<times> nat) list" where
  "expert_hits selected e =
     filter (\<lambda>(k, t). selected ! t ! k = e) (List.product [0..<(case selected of [] \<Rightarrow> 0 | ks # _ \<Rightarrow> length ks)] [0..<length selected])"

definition eager_experts ::
    "'a layer_ops \<Rightarrow> 'a stacked_experts \<Rightarrow> 'a list list \<Rightarrow> nat list list \<Rightarrow> 'a list list \<Rightarrow> 'a list list res" where
  "eager_experts ops ex hidden selected weights =
     (if \<exists>ks\<in>set selected. \<exists>e\<in>set ks. length (se_gate_up ex) \<le> e then Raise RuntimeError
      else Ok (fold (\<lambda>e out. fold (\<lambda>(k, t) out.
             out[t := map2 (lo_add ops) (out ! t)
               (map (\<lambda>v. lo_cast ops (lo_mul ops v (weights ! t ! k))) (expert_row ops (se_gate_up ex ! e) (se_down ex ! e) (hidden ! t)))])
           (expert_hits selected e) out)
         [0..<length (se_gate_up ex)] (map (map (\<lambda>_. lo_zero ops)) hidden)))"

definition deepseek_experts_forward ::
    "'a layer_ops \<Rightarrow> 'a fused_kernel \<Rightarrow> string \<Rightarrow> 'a stacked_experts \<Rightarrow> 'a list list \<Rightarrow> nat list list \<Rightarrow> 'a list list \<Rightarrow> 'a list list res" where
  "deepseek_experts_forward ops fused implementation ex hidden selected weights =
     (if implementation = ''eager'' then eager_experts ops ex hidden selected weights
      else if implementation = ''fused'' then fused ex hidden selected (map (map (lo_cast ops)) weights)
      else Raise ValueError)"

text \<open>The block: routed experts plus the shared ones on the same input; the router computes in 32 bits.\<close>

definition deepseek_moe_forward ::
    "'a::zero route_ops \<Rightarrow> 'a layer_ops \<Rightarrow> ('a \<Rightarrow> 'a) \<Rightarrow> 'a fused_kernel \<Rightarrow> string \<Rightarrow> 'a stacked_experts \<Rightarrow> 'a list list \<Rightarrow> 'a deepseek_router
       \<Rightarrow> ('a list \<Rightarrow> 'a list) \<Rightarrow> 'a list list \<Rightarrow> 'a list list res" where
  "deepseek_moe_forward rops ops to_float32 fused implementation ex gate router shared hidden =
     rbind (map_res (\<lambda>x. route_tokens_to_experts rops router (linear_row ops (map (map to_float32) gate) (map to_float32 x))) hidden) (\<lambda>routes.
     rbind (deepseek_experts_forward ops fused implementation ex hidden (map fst routes) (map snd routes)) (\<lambda>out.
     Ok (map2 (map2 (lo_add ops)) out (map shared hidden))))"

text \<open>GPT-OSS hands everything to the fused kernel.\<close>

definition gpt_oss_experts_forward ::
    "('h \<Rightarrow> 'i \<Rightarrow> 'w \<Rightarrow> 'o res) \<Rightarrow> 'h \<Rightarrow> 'i option \<Rightarrow> 'w option \<Rightarrow> 'o res" where
  "gpt_oss_experts_forward quack hidden router_indices routing_weights =
     (case (router_indices, routing_weights) of
        (Some i, Some w) \<Rightarrow> quack hidden i w
      | _ \<Rightarrow> Raise ValueError)"

section \<open>What the routers choose\<close>

text \<open>\<open>torch.topk\<close>: indices of the largest values, each once; their order is left open.\<close>

definition picks_largest :: "(nat \<Rightarrow> 'a::linorder list \<Rightarrow> nat list) \<Rightarrow> bool" where
  "picks_largest f \<longleftrightarrow> (\<forall>k xs. k \<le> length xs \<longrightarrow> length (f k xs) = k \<and> distinct (f k xs) \<and> set (f k xs) \<subseteq> {..<length xs} \<and>
     (\<forall>i\<in>set (f k xs). \<forall>j<length xs. j \<notin> set (f k xs) \<longrightarrow> xs ! j \<le> xs ! i))"

lemma topk_picks:
  assumes "picks_largest (ro_topk ops)" "k \<le> length xs"
  obtains ix where "topk ops k xs = Ok ix" "length ix = k" "distinct ix" "set ix \<subseteq> {..<length xs}"
    "\<And>i j. i \<in> set ix \<Longrightarrow> j < length xs \<Longrightarrow> j \<notin> set ix \<Longrightarrow> xs ! j \<le> xs ! i"
  using assms unfolding picks_largest_def topk_def by auto

lemma qwen_route_largest:
  assumes "picks_largest (ro_topk ops)" "top_k \<le> length (ro_softmax ops router_logits)"
  shows "\<exists>ix w. qwen_route ops top_k norm router_logits = Ok (ix, w) \<and> length ix = top_k \<and> length w = top_k \<and> distinct ix \<and>
    (\<forall>i\<in>set ix. \<forall>j<length (ro_softmax ops router_logits). j \<notin> set ix \<longrightarrow> ro_softmax ops router_logits ! j \<le> ro_softmax ops router_logits ! i)"
proof -
  obtain ix where "topk ops top_k (ro_softmax ops router_logits) = Ok ix" "length ix = top_k" "distinct ix"
    "\<And>i j. i \<in> set ix \<Longrightarrow> j < length (ro_softmax ops router_logits) \<Longrightarrow> j \<notin> set ix \<Longrightarrow> ro_softmax ops router_logits ! j \<le> ro_softmax ops router_logits ! i"
    using topk_picks [OF assms] by blast
  then show ?thesis by (simp add: qwen_route_def Let_def)
qed

lemma group_scores_exist:
  assumes "length choice = n_group * gsz" "2 \<le> gsz"
  shows "\<forall>g. \<exists>x. g < n_group \<longrightarrow> group_score ops (group_of gsz g choice) = Ok x"
proof (intro allI)
  fix g show "\<exists>x. g < n_group \<longrightarrow> group_score ops (group_of gsz g choice) = Ok x"
  proof (cases "g < n_group")
    case True
    then have "Suc g * gsz \<le> length choice" unfolding assms(1) by (intro mult_le_mono) simp_all
    then have "length (group_of gsz g choice) = gsz" by (simp add: group_of_def)
    then show ?thesis using assms(2) by (simp add: group_score_def topk_def)
  qed simp
qed

text \<open>
  A chosen expert outside the groups has the masked score 0, so it is only chosen where the groups do not
  offer enough positive scores.
\<close>

lemma picks_in_groups:
  fixes choice :: "'a::{linorder,zero} list"
  assumes idx: "set idx \<subseteq> {..<length choice}"
    and enough: "length idx \<le> length (filter (\<lambda>x. x div gsz \<in> set gi \<and> 0 < choice ! x) [0..<length choice])"
    and best: "\<And>i j. i \<in> set idx \<Longrightarrow> j < length choice \<Longrightarrow> j \<notin> set idx \<Longrightarrow>
      scores_for_choice gsz gi choice ! j \<le> scores_for_choice gsz gi choice ! i"
  shows "\<forall>e\<in>set idx. e div gsz \<in> set gi"
proof (intro ballI, rule ccontr)
  fix e assume e: "e \<in> set idx" and out: "e div gsz \<notin> set gi"
  let ?P = "set (filter (\<lambda>x. x div gsz \<in> set gi \<and> 0 < choice ! x) [0..<length choice])"
  have me: "scores_for_choice gsz gi choice ! x = (if x div gsz \<in> set gi then choice ! x else 0)" if "x < length choice" for x
    using that by (simp add: scores_for_choice_def)
  have "card ?P = length (filter (\<lambda>x. x div gsz \<in> set gi \<and> 0 < choice ! x) [0..<length choice])"
    by (rule distinct_card) simp
  with enough have c: "length idx \<le> card ?P" by (simp only:)
  have "card (set idx - {e}) < card (set idx)" by (rule card_Diff1_less [OF finite_set e])
  also have "\<dots> \<le> length idx" by (rule card_length)
  finally have "card (set idx - {e}) < card ?P" using c by (rule less_le_trans)
  then have "\<not> ?P \<subseteq> set idx - {e}" by (meson card_mono finite_Diff finite_set leD)
  then obtain x where x: "x \<in> ?P" "x \<notin> set idx - {e}" by blast
  then have "x \<noteq> e" using out by auto
  then have "x < length choice" "x \<notin> set idx" "x div gsz \<in> set gi" "0 < choice ! x" using x by simp_all
  moreover have "e < length choice" using e idx by auto
  ultimately show False using best [OF e, of x] me [of x] me [of e] out by simp
qed

text \<open>
  C32. What DeepSeek's router chooses, for any scores and any number of tokens beside this one: with \<open>G\<close>
  the \<open>topk_group\<close> groups of the largest group scores, \<open>top_k\<close> different experts, the best ones by score
  plus bias where an expert outside \<open>G\<close> counts as 0; so, as long as the groups of \<open>G\<close> have \<open>top_k\<close> experts
  with a positive biased score, all of them are of \<open>G\<close>'s groups, and among these the best. The weights are
  the experts' own scores, without the bias, normalised and scaled.
\<close>

theorem router_keeps_to_groups:
  fixes router_logits :: "'a::{linorder,zero} list" and ops :: "'a route_ops"
  assumes T: "picks_largest (ro_topk ops)"
    and len: "length router_logits = dr_n_group r * gsz" "length (dr_bias r) = dr_n_group r * gsz" "0 < dr_n_group r" "2 \<le> gsz"
    and k: "dr_topk_group r \<le> dr_n_group r" "dr_top_k r \<le> dr_topk_group r * gsz"
  shows "\<exists>idx w G score biased. route_tokens_to_experts ops r router_logits = Ok (idx, w) \<and>
    biased = map2 (ro_add ops) (map (ro_sigmoid ops) router_logits) (dr_bias r) \<and>
    length idx = dr_top_k r \<and> distinct idx \<and> set idx \<subseteq> {..<dr_n_group r * gsz} \<and>
    G \<subseteq> {..<dr_n_group r} \<and> card G = dr_topk_group r \<and>
    (\<forall>g<dr_n_group r. group_score ops (group_of gsz g biased) = Ok (score g)) \<and>
    (\<forall>g\<in>G. \<forall>g'<dr_n_group r. g' \<notin> G \<longrightarrow> score g' \<le> score g) \<and>
    (\<forall>e\<in>set idx. \<forall>e'<dr_n_group r * gsz. e' \<notin> set idx \<longrightarrow>
       (if e' div gsz \<in> G then biased ! e' else 0) \<le> (if e div gsz \<in> G then biased ! e else 0)) \<and>
    (dr_top_k r \<le> length (filter (\<lambda>e. e div gsz \<in> G \<and> 0 < biased ! e) [0..<dr_n_group r * gsz]) \<longrightarrow>
       (\<forall>e\<in>set idx. e div gsz \<in> G)) \<and>
    w = (let own = map (\<lambda>e. ro_sigmoid ops (router_logits ! e)) idx
         in map (\<lambda>x. ro_mul ops (if dr_norm_topk_prob r then ro_div ops x (ro_add ops (ro_sum ops own) (ro_tiny ops)) else x) (dr_scaling r)) own)"
proof -
  let ?n = "dr_n_group r * gsz" and ?scores = "map (ro_sigmoid ops) router_logits"
  define choice where "choice = map2 (ro_add ops) ?scores (dr_bias r)"
  have cl: "length choice = ?n" using len(1,2) by (simp add: choice_def)
  obtain score where score: "\<And>g. g < dr_n_group r \<Longrightarrow> group_score ops (group_of gsz g choice) = Ok (score g)"
    using group_scores_exist [OF cl len(4)] by metis
  then have scores: "map_res (\<lambda>g. group_score ops (group_of gsz g choice)) [0..<dr_n_group r] = Ok (map score [0..<dr_n_group r])"
    by (intro map_res_all_Ok) simp
  obtain gi where gi: "topk ops (dr_topk_group r) (map score [0..<dr_n_group r]) = Ok gi" "length gi = dr_topk_group r" "distinct gi" "set gi \<subseteq> {..<dr_n_group r}"
    "\<And>i j. i \<in> set gi \<Longrightarrow> j < dr_n_group r \<Longrightarrow> j \<notin> set gi \<Longrightarrow> score j \<le> score i"
    using topk_picks [OF T, of "dr_topk_group r" "map score [0..<dr_n_group r]"] k(1)
    by (auto simp: subset_iff)
  let ?masked = "scores_for_choice gsz gi choice"
  have ml: "length ?masked = ?n" by (simp add: scores_for_choice_def cl)
  have me: "?masked ! e = (if e div gsz \<in> set gi then choice ! e else 0)" if "e < ?n" for e using that by (simp add: scores_for_choice_def cl)
  have kn: "dr_top_k r \<le> ?n" using k by (meson le_trans mult_le_mono1)
  obtain idx where idx: "topk ops (dr_top_k r) ?masked = Ok idx" "length idx = dr_top_k r" "distinct idx" "set idx \<subseteq> {..<?n}"
    "\<And>i j. i \<in> set idx \<Longrightarrow> j < ?n \<Longrightarrow> j \<notin> set idx \<Longrightarrow> ?masked ! j \<le> ?masked ! i"
    using topk_picks [OF T, of "dr_top_k r" ?masked] kn unfolding ml by blast
  have in_groups: "(\<forall>e\<in>set idx. e div gsz \<in> set gi)"
    if "dr_top_k r \<le> length (filter (\<lambda>e. e div gsz \<in> set gi \<and> 0 < choice ! e) [0..<?n])"
    using idx(2,4,5) that by (intro picks_in_groups [where choice = choice]) (simp_all add: cl)
  have run: "route_tokens_to_experts ops r router_logits = Ok (idx, let own = map (\<lambda>e. ro_sigmoid ops (router_logits ! e)) idx
         in map (\<lambda>x. ro_mul ops (if dr_norm_topk_prob r then ro_div ops x (ro_add ops (ro_sum ops own) (ro_tiny ops)) else x) (dr_scaling r)) own)"
  proof -
    have own: "map ((!) ?scores) idx = map (\<lambda>e. ro_sigmoid ops (router_logits ! e)) idx" using idx(4) len(1) by (auto simp: subset_iff)
    have d: "dr_n_group r * gsz div dr_n_group r = gsz" using len(3) by simp
    show ?thesis
      unfolding route_tokens_to_experts_def Let_def length_map len(1,2) d
      using len(3) scores gi(1) idx(1) by (simp add: choice_def [symmetric] own comp_def del: map_eq_conv)
  qed
  have best: "\<forall>e\<in>set idx. \<forall>e'<?n. e' \<notin> set idx \<longrightarrow>
      (if e' div gsz \<in> set gi then choice ! e' else 0) \<le> (if e div gsz \<in> set gi then choice ! e else 0)"
  proof (intro ballI allI impI)
    fix e e' assume e: "e \<in> set idx" "e' < ?n" "e' \<notin> set idx"
    then have "e < ?n" using idx(4) by auto
    then show "(if e' div gsz \<in> set gi then choice ! e' else 0) \<le> (if e div gsz \<in> set gi then choice ! e else 0)"
      using idx(5) [OF e] me [of e] me [of e'] e(2) by (simp only:)
  qed
  have G: "card (set gi) = dr_topk_group r" "\<forall>g<dr_n_group r. group_score ops (group_of gsz g choice) = Ok (score g)"
    "\<forall>g\<in>set gi. \<forall>g'<dr_n_group r. g' \<notin> set gi \<longrightarrow> score g' \<le> score g"
    using gi(2,3,5) score by (simp_all add: distinct_card)
  from run idx(2-4) gi(4) G best in_groups choice_def show ?thesis by blast
qed

definition sorted_topk :: "nat \<Rightarrow> 'a::linorder list \<Rightarrow> nat list" where
  "sorted_topk k xs = take k (rev (sort_key ((!) xs) [0..<length xs]))"

lemma sorted_topk_picks: "picks_largest sorted_topk"
  unfolding picks_largest_def
proof (intro allI impI conjI ballI)
  fix k and xs :: "'a list" assume k: "k \<le> length xs"
  let ?L = "rev (sort_key ((!) xs) [0..<length xs])"
  have d: "distinct ?L" "set ?L = {..<length xs}" "length ?L = length xs" by (auto simp: atLeast0LessThan)
  show "length (sorted_topk k xs) = k" "distinct (sorted_topk k xs)" using k d by (simp_all add: sorted_topk_def)
  show "set (sorted_topk k xs) \<subseteq> {..<length xs}" unfolding sorted_topk_def d(2) [symmetric] by (rule set_take_subset)
  fix i j assume i: "i \<in> set (sorted_topk k xs)" and j: "j < length xs" "j \<notin> set (sorted_topk k xs)"
  obtain a where a: "a < k" "i = ?L ! a" using i k d(3) by (auto simp: sorted_topk_def in_set_conv_nth)
  have "j \<in> set ?L" using j(1) d(2) by simp
  then obtain b where b: "b < length xs" "j = ?L ! b" unfolding in_set_conv_nth d(3) by blast
  have "k \<le> b"
  proof (rule ccontr)
    assume "\<not> k \<le> b"
    then have "take k ?L ! b = j" "b < length (take k ?L)" using b d(3) by simp_all
    then have "j \<in> set (take k ?L)" by (metis nth_mem)
    with j(2) show False by (simp add: sorted_topk_def)
  qed
  then have ab: "a \<le> b" "b < length (map ((!) xs) ?L)" using a(1) b(1) d(3) by simp_all
  have "sorted (rev (map ((!) xs) ?L))" by (simp add: rev_map [symmetric])
  from sorted_rev_nth_mono [OF this ab] show "xs ! j \<le> xs ! i" using ab a b d(3) by simp
qed

definition int_routing :: "int route_ops" where
  "int_routing = \<lparr>ro_sigmoid = id, ro_softmax = id, ro_add = (+), ro_mul = (*), ro_div = (div), ro_sum = sum_list, ro_tiny = 0,
     ro_round = id, ro_topk = sorted_topk\<rparr>"

definition ex_router :: "int list \<Rightarrow> int deepseek_router" where
  "ex_router bias = \<lparr>dr_n_group = 2, dr_topk_group = 1, dr_top_k = 2, dr_norm_topk_prob = False, dr_scaling = 3, dr_bias = bias\<rparr>"

lemma router_keeps_to_groups_witness:
  "\<exists>idx w g. route_tokens_to_experts int_routing (ex_router [0, 0, 0, 0]) [9, 1, 3, 4] = Ok (idx, w) \<and> length idx = 2 \<and>
     distinct idx \<and> g < 2 \<and> (\<forall>e\<in>set idx. e div 2 = g)"
proof -
  let ?r = "ex_router [0, 0, 0, 0]"
  have T: "picks_largest (ro_topk int_routing)" by (simp add: int_routing_def sorted_topk_picks)
  have n: "dr_n_group ?r = 2" "dr_topk_group ?r = 1" "dr_top_k ?r = 2" "dr_bias ?r = [0, 0, 0, 0]" by (simp_all add: ex_router_def)
  have b: "map2 (ro_add int_routing) (map (ro_sigmoid int_routing) [9, 1, 3, 4]) [0, 0, 0, 0] = [9, 1, 3, 4]" by (simp add: int_routing_def)
  obtain idx w G where r: "route_tokens_to_experts int_routing ?r [9, 1, 3, 4] = Ok (idx, w)" "length idx = 2" "distinct idx"
      "G \<subseteq> {..<2}" "card G = 1"
      "2 \<le> length (filter (\<lambda>e. e div 2 \<in> G \<and> 0 < [9, 1, 3, 4 :: int] ! e) [0..<2 * 2]) \<longrightarrow> (\<forall>e\<in>set idx. e div 2 \<in> G)"
    using router_keeps_to_groups [OF T, of "[9, 1, 3, 4]" ?r 2] unfolding n b by auto
  from r(5) obtain g where g: "G = {g}" by (auto simp: card_1_singleton_iff)
  then have g2: "g = 0 \<or> g = 1" using r(4) by auto
  have four: "[0..<2 * 2] = [0, 1, 2, 3 :: nat]" by code_simp
  have "2 \<le> length (filter (\<lambda>e. e div 2 \<in> G \<and> 0 < [9, 1, 3, 4 :: int] ! e) [0..<2 * 2])"
    using g2 unfolding g four by auto
  then show ?thesis using r g g2 by auto
qed

text \<open>
  Where a score plus its bias is negative the fill value 0 wins: an expert of a group that was not chosen is selected.
\<close>

lemma router_leaves_groups:
  "route_tokens_to_experts int_routing (ex_router [0, -2, 0, 0]) [9, 1, 3, 4] = Ok ([0, 3], [27, 12])"
  by code_simp

end
