(* ===== verification/Mla_Attention.thy ===== *)
theory Mla_Attention
  imports Batched_Matmul
begin

text \<open>
  The attention layer of DeepSeek-V3, \<open>src/vexact/models/deepseek_v3/modeling_deepseek_v3.py\<close>: configuration defaults,
  the query, key and value states of multi-head latent attention, and the rotary embedding on the batched product.
\<close>

section \<open>Configurations of older checkpoints\<close>

text \<open>An attribute that a configuration does not have is \<open>None\<close>.\<close>

record deepseek_config =
  dc_qk_nope_head_dim :: int
  dc_qk_rope_head_dim :: int
  dc_n_routed_experts :: int
  dc_qk_head_dim :: "int option"
  dc_num_local_experts :: "int option"
  dc_head_dim :: "int option"
  dc_rope_interleave :: "bool option"
  dc_moe_implementation :: "string option"

definition or_set :: "'v \<Rightarrow> 'v option \<Rightarrow> 'v option" where
  "or_set v x = (case x of None \<Rightarrow> Some v | Some _ \<Rightarrow> x)"

definition ensure_config_compat :: "deepseek_config \<Rightarrow> deepseek_config" where
  "ensure_config_compat c =
     c\<lparr>dc_qk_head_dim := or_set (dc_qk_nope_head_dim c + dc_qk_rope_head_dim c) (dc_qk_head_dim c),
       dc_num_local_experts := or_set (dc_n_routed_experts c) (dc_num_local_experts c),
       dc_head_dim := or_set (dc_qk_rope_head_dim c) (dc_head_dim c),
       dc_rope_interleave := or_set True (dc_rope_interleave c),
       dc_moe_implementation := or_set ''fused'' (dc_moe_implementation c)\<rparr>"

lemma config_compat_idempotent: "ensure_config_compat (ensure_config_compat c) = ensure_config_compat c"
  by (cases c) (simp add: ensure_config_compat_def or_set_def split: option.split)

lemma config_compat_keeps: "dc_qk_head_dim c = Some d \<Longrightarrow> dc_qk_head_dim (ensure_config_compat c) = Some d"
  by (simp add: ensure_config_compat_def or_set_def)

section \<open>States of a token\<close>

text \<open>Layers map rows to rows; \<open>ml_rotate interleave p\<close> rotates a vector by the embedding \<open>p\<close> of a position.\<close>

record ('f, 'p) mla_layer =
  ml_qk_head_dim :: nat
  ml_nope :: nat
  ml_rope :: nat
  ml_vdim :: nat
  ml_kv_lora :: nat
  ml_q_lora :: "nat option"
  ml_q_proj :: "'f list \<Rightarrow> 'f list"
  ml_q_a :: "'f list \<Rightarrow> 'f list"
  ml_q_norm :: "'f list \<Rightarrow> 'f list"
  ml_q_b :: "'f list \<Rightarrow> 'f list"
  ml_kv_a :: "'f list \<Rightarrow> 'f list"
  ml_kv_norm :: "'f list \<Rightarrow> 'f list"
  ml_kv_b :: "'f list \<Rightarrow> 'f list"
  ml_o_proj :: "'f list \<Rightarrow> 'f list"
  ml_rotate :: "bool \<Rightarrow> 'p \<Rightarrow> 'f list \<Rightarrow> 'f list"

text \<open>\<open>view(..., -1, n)\<close> of a row, and \<open>torch.split(x, [a, b], dim=-1)\<close>.\<close>

definition view_heads :: "nat \<Rightarrow> 'f list \<Rightarrow> 'f list list res" where
  "view_heads n xs =
     (if n = 0 \<or> length xs mod n \<noteq> 0 then Raise RuntimeError
      else Ok (map (\<lambda>i. take n (drop (i * n) xs)) [0..<length xs div n]))"

definition split2 :: "nat \<Rightarrow> nat \<Rightarrow> 'f list \<Rightarrow> ('f list \<times> 'f list) res" where
  "split2 a b xs = (if length xs \<noteq> a + b then Raise RuntimeError else Ok (take a xs, drop a xs))"

definition mla_queries :: "('f, 'p) mla_layer \<Rightarrow> 'f list \<Rightarrow> 'f list" where
  "mla_queries ly x = (case ml_q_lora ly of None \<Rightarrow> ml_q_proj ly x | Some _ \<Rightarrow> ml_q_b ly (ml_q_norm ly (ml_q_a ly x)))"

definition mla_token :: "('f, 'p) mla_layer \<Rightarrow> bool \<Rightarrow> 'f list \<Rightarrow> 'p \<Rightarrow> ('f list list \<times> 'f list list \<times> 'f list list) res" where
  "mla_token ly interleave x p =
     rbind (view_heads (ml_qk_head_dim ly) (mla_queries ly x)) (\<lambda>q_states.
     rbind (map_res (split2 (ml_nope ly) (ml_rope ly)) q_states) (\<lambda>qs.
     rbind (split2 (ml_kv_lora ly) (ml_rope ly) (ml_kv_a ly x)) (\<lambda>(k_pass, k_rot).
     rbind (view_heads (ml_nope ly + ml_vdim ly) (ml_kv_b ly (ml_kv_norm ly k_pass))) (\<lambda>kvs.
     rbind (map_res (split2 (ml_nope ly) (ml_vdim ly)) kvs) (\<lambda>kv.
     Ok (map (\<lambda>(q_pass, q_rot). q_pass @ ml_rotate ly interleave p q_rot) qs,
         map (\<lambda>(k_pass, _). k_pass @ ml_rotate ly interleave p k_rot) kv,
         map snd kv))))))"

text \<open>A batch in the layout \<open>(B, H, S, D)\<close> of the attention functions, from its tokens \<open>(B, S, H, D)\<close>.\<close>

definition heads_first :: "'f list list list list \<Rightarrow> 'f list list list list" where
  "heads_first = map (\<lambda>rows. map (\<lambda>h. map (\<lambda>token. token ! h) rows) [0..<(case rows of [] \<Rightarrow> 0 | t # _ \<Rightarrow> length t)])"

definition mla_states ::
    "('f, 'p) mla_layer \<Rightarrow> bool \<Rightarrow> 'f list list list \<Rightarrow> 'p list list
       \<Rightarrow> ('f list list list list \<times> 'f list list list list \<times> 'f list list list list) res" where
  "mla_states ly interleave hidden positions =
     rbind (map_res (\<lambda>(rows, ps). map_res (\<lambda>(x, p). mla_token ly interleave x p) (zip rows ps)) (zip hidden positions)) (\<lambda>tokens.
     Ok (heads_first (map (map fst) tokens), heads_first (map (map (fst \<circ> snd)) tokens), heads_first (map (map (snd \<circ> snd)) tokens)))"

text \<open>\<open>reshape(batch_size, seq_length, -1)\<close> of the elements an attention function returns.\<close>

definition reshape3 :: "nat \<Rightarrow> nat \<Rightarrow> 'f list \<Rightarrow> 'f list list list res" where
  "reshape3 b s xs =
     (if b * s = 0 \<or> length xs mod (b * s) \<noteq> 0 then Raise RuntimeError
      else let w = length xs div (b * s) in Ok (map (\<lambda>i. map (\<lambda>j. take w (drop ((i * s + j) * w) xs)) [0..<s]) [0..<b]))"

type_synonym 'f heads4 = "'f list list list list"

text \<open>With the eager implementation the name of the attention function is never bound.\<close>

definition deepseek_v3_attention_forward ::
    "(string \<rightharpoonup> ('f heads4 \<Rightarrow> 'f heads4 \<Rightarrow> 'f heads4 \<Rightarrow> 'd \<Rightarrow> 'f list res)) \<Rightarrow> ('f heads4 \<Rightarrow> 'f heads4 \<Rightarrow> ('f heads4 \<times> 'f heads4) res) option
       \<Rightarrow> string \<Rightarrow> bool \<Rightarrow> 'd \<Rightarrow> 'd \<Rightarrow> bool \<Rightarrow> ('f, 'p) mla_layer \<Rightarrow> 'f list list list \<Rightarrow> 'p list list \<Rightarrow> 'f list list list res" where
  "deepseek_v3_attention_forward functions past implementation training no_dropout dropout interleave ly hidden positions =
     rbind (mla_states ly interleave hidden positions) (\<lambda>(q, k, v).
     rbind (case past of None \<Rightarrow> Ok (k, v) | Some update_cache \<Rightarrow> update_cache k v) (\<lambda>(k, v).
     if implementation = ''eager'' then Raise NameError
     else case functions implementation of
         None \<Rightarrow> Raise KeyError
       | Some attention \<Rightarrow>
           rbind (attention q k v (if training then dropout else no_dropout)) (\<lambda>out.
           rbind (reshape3 (length hidden) (case hidden of [] \<Rightarrow> 0 | rows # _ \<Rightarrow> length rows) out) (\<lambda>rows.
           Ok (map (map (ml_o_proj ly)) rows)))))"

section \<open>Rotary embedding\<close>

text \<open>\<open>inv_freq\<close> of shape \<open>(B, F, 1)\<close> times positions of shape \<open>(B, 1, S)\<close>; both halves of the embedding repeat the frequencies.\<close>

definition deterministic_rope_forward ::
    "('f, 'a) gemm_ops \<Rightarrow> (bmm \<Rightarrow> (nat \<times> nat) list) \<Rightarrow> 'f memory \<Rightarrow> ('f \<Rightarrow> 'f) \<Rightarrow> ('f \<Rightarrow> 'f) \<Rightarrow> ('f \<Rightarrow> 'f) \<Rightarrow> 'f list \<Rightarrow> nat \<Rightarrow> nat \<Rightarrow> (nat \<Rightarrow> nat \<Rightarrow> 'f)
       \<Rightarrow> ((nat \<Rightarrow> nat \<Rightarrow> nat \<Rightarrow> 'f) \<times> (nat \<Rightarrow> nat \<Rightarrow> nat \<Rightarrow> 'f)) res" where
  "deterministic_rope_forward ops schedule fresh cosine sine scaled inv_freq B S position_ids =
     (let F = length inv_freq
      in rbind (triton_bmm ops schedule fresh ([B, F, 1], \<lambda>a. inv_freq ! (nat a mod F)) ([B, 1, S], \<lambda>a. position_ids (nat a div S) (nat a mod S))) (\<lambda>(_, c).
         let emb = (\<lambda>b s d. c (int (b * (F * S)) + int (d mod F * S + s)))
         in Ok (\<lambda>b s d. scaled (cosine (emb b s d)), \<lambda>b s d. scaled (sine (emb b s d)))))"

section \<open>Shapes\<close>

lemma view_heads_Ok:
  assumes "length xs = m * n" "0 < n"
  obtains hs where "view_heads n xs = Ok hs" "length hs = m" "\<forall>h\<in>set hs. length h = n"
proof -
  have "length (take n (drop (i * n) xs)) = n" if "i < m" for i
  proof -
    have "Suc i * n \<le> m * n" using that by (intro mult_le_mono) simp_all
    then show ?thesis using assms(1) by simp
  qed
  then show thesis using assms by (intro that [of "map (\<lambda>i. take n (drop (i * n) xs)) [0..<m]"]) (auto simp: view_heads_def)
qed

lemma split2_all:
  assumes "\<forall>h\<in>set hs. length h = a + b"
  shows "map_res (split2 a b) hs = Ok (map (\<lambda>h. (take a h, drop a h)) hs)"
  using assms by (intro map_res_all_Ok) (simp add: split2_def)

text \<open>A layer whose projections have the sizes of its configuration, with \<open>nq\<close> query and \<open>nk\<close> key heads.\<close>

definition layer_fits :: "nat \<Rightarrow> nat \<Rightarrow> ('f, 'p) mla_layer \<Rightarrow> bool" where
  "layer_fits nq nk ly \<longleftrightarrow> ml_nope ly + ml_rope ly = ml_qk_head_dim ly \<and> 0 < ml_qk_head_dim ly \<and> 0 < ml_nope ly + ml_vdim ly \<and>
     (\<forall>x. length (mla_queries ly x) = nq * ml_qk_head_dim ly) \<and> (\<forall>x. length (ml_kv_a ly x) = ml_kv_lora ly + ml_rope ly) \<and>
     (\<forall>x. length (ml_kv_b ly x) = nk * (ml_nope ly + ml_vdim ly)) \<and> (\<forall>i p x. length (ml_rotate ly i p x) = length x)"

definition token_shaped :: "nat \<Rightarrow> nat \<Rightarrow> ('f, 'p) mla_layer \<Rightarrow> bool \<Rightarrow> 'f list \<Rightarrow> 'p \<Rightarrow> 'f list list \<times> 'f list list \<times> 'f list list \<Rightarrow> bool" where
  "token_shaped nq nk ly interleave x p qkv \<longleftrightarrow>
     (let (q, k, v) = qkv
      in length q = nq \<and> length k = nk \<and> length v = nk \<and> (\<forall>h\<in>set q. length h = ml_qk_head_dim ly) \<and> (\<forall>h\<in>set k. length h = ml_qk_head_dim ly) \<and>
         (\<forall>h\<in>set v. length h = ml_vdim ly) \<and> (\<forall>h\<in>set k. drop (ml_nope ly) h = ml_rotate ly interleave p (drop (ml_kv_lora ly) (ml_kv_a ly x))))"

lemma mla_token_shaped:
  assumes "layer_fits nq nk ly"
  obtains qkv where "mla_token ly interleave x p = Ok qkv" "token_shaped nq nk ly interleave x p qkv"
proof -
  note L = assms [unfolded layer_fits_def]
  obtain qs where qs: "view_heads (ml_qk_head_dim ly) (mla_queries ly x) = Ok qs" "length qs = nq" "\<forall>h\<in>set qs. length h = ml_nope ly + ml_rope ly"
    using view_heads_Ok [of "mla_queries ly x" nq "ml_qk_head_dim ly"] L by metis
  have kv: "split2 (ml_kv_lora ly) (ml_rope ly) (ml_kv_a ly x) = Ok (take (ml_kv_lora ly) (ml_kv_a ly x), drop (ml_kv_lora ly) (ml_kv_a ly x))"
    using L by (simp add: split2_def)
  let ?y = "ml_kv_b ly (ml_kv_norm ly (take (ml_kv_lora ly) (ml_kv_a ly x)))"
  obtain ks where ks: "view_heads (ml_nope ly + ml_vdim ly) ?y = Ok ks" "length ks = nk" "\<forall>h\<in>set ks. length h = ml_nope ly + ml_vdim ly"
    using view_heads_Ok [of ?y nk "ml_nope ly + ml_vdim ly"] L by metis
  show thesis
  proof (rule that)
    show "mla_token ly interleave x p =
        Ok (map (\<lambda>h. take (ml_nope ly) h @ ml_rotate ly interleave p (drop (ml_nope ly) h)) qs,
            map (\<lambda>h. take (ml_nope ly) h @ ml_rotate ly interleave p (drop (ml_kv_lora ly) (ml_kv_a ly x))) ks, map (drop (ml_nope ly)) ks)"
      by (simp add: mla_token_def qs(1) split2_all [OF qs(3)] kv ks(1) split2_all [OF ks(3)] comp_def)
  qed (use L qs(2,3) ks(2,3) in \<open>auto simp: token_shaped_def\<close>)
qed

lemma heads_first_shape:
  assumes "\<forall>rows\<in>set ts. length rows = S \<and> (\<forall>t\<in>set rows. length t = n)" "0 < S" "b < length ts" "h < n" "s < S"
  shows "length (heads_first ts ! b) = n" "length (heads_first ts ! b ! h) = S" "heads_first ts ! b ! h ! s = ts ! b ! s ! h"
proof -
  have r: "length (ts ! b) = S" "\<forall>t\<in>set (ts ! b). length t = n" using assms(1) nth_mem [OF assms(3)] by blast+
  then obtain t rest where t: "ts ! b = t # rest" using assms(2) by (cases "ts ! b") auto
  then have "length t = n" using r(2) by simp
  then have "heads_first ts ! b = map (\<lambda>h. map (\<lambda>token. token ! h) (ts ! b)) [0..<n]"
    using assms(3) t by (simp add: heads_first_def)
  then show "length (heads_first ts ! b) = n" "length (heads_first ts ! b ! h) = S" "heads_first ts ! b ! h ! s = ts ! b ! s ! h"
    using assms(4,5) r(1) by simp_all
qed

text \<open>
  C31. The states of latent attention have the declared shapes. For a layer whose projections have the sizes of its
  configuration, any batch gives states in the layout of the attention functions: every query and key head vector has
  the size \<open>qk_head_dim\<close>, every value vector \<open>v_head_dim\<close>; all heads of a token share one rotated key part, that of
  its own row at its own position.
\<close>

theorem mla_states_have_declared_shapes:
  assumes L: "layer_fits nq nk ly" and H: "\<forall>rows\<in>set hidden. length rows = S" and P: "length positions = length hidden" "\<forall>ps\<in>set positions. length ps = S" and S: "0 < S"
  shows "\<exists>q k v. mla_states ly interleave hidden positions = Ok (q, k, v) \<and> length q = length hidden \<and> length k = length hidden \<and> length v = length hidden \<and>
    (\<forall>b<length hidden. \<forall>s<S.
       (\<forall>h<nq. length (q ! b) = nq \<and> length (q ! b ! h) = S \<and> length (q ! b ! h ! s) = ml_qk_head_dim ly) \<and>
       (\<forall>h<nk. length (k ! b) = nk \<and> length (k ! b ! h) = S \<and> length (k ! b ! h ! s) = ml_qk_head_dim ly \<and>
          length (v ! b) = nk \<and> length (v ! b ! h) = S \<and> length (v ! b ! h ! s) = ml_vdim ly \<and>
          drop (ml_nope ly) (k ! b ! h ! s) = ml_rotate ly interleave (positions ! b ! s) (drop (ml_kv_lora ly) (ml_kv_a ly (hidden ! b ! s)))))"
proof -
  have "\<exists>qkv. mla_token ly interleave x p = Ok qkv \<and> token_shaped nq nk ly interleave x p qkv" for x p
    by (rule mla_token_shaped [OF L, of interleave x p]) blast
  then obtain f where f: "\<And>x p. mla_token ly interleave x p = Ok (f x p) \<and> token_shaped nq nk ly interleave x p (f x p)" by metis
  define tokens where "tokens = map (\<lambda>(rows, ps). map (\<lambda>(x, p). f x p) (zip rows ps)) (zip hidden positions)"
  have "map_res (\<lambda>(rows, ps). map_res (\<lambda>(x, p). mla_token ly interleave x p) (zip rows ps)) (zip hidden positions) = Ok tokens"
    unfolding tokens_def by (intro map_res_all_Ok) (auto simp: f intro!: map_res_all_Ok)
  then have run: "mla_states ly interleave hidden positions =
      Ok (heads_first (map (map fst) tokens), heads_first (map (map (fst \<circ> snd)) tokens), heads_first (map (map (snd \<circ> snd)) tokens))"
    by (simp add: mla_states_def)
  have tl: "length tokens = length hidden" by (simp add: tokens_def P(1))
  have tok: "length (tokens ! b) = S" "s < S \<Longrightarrow> tokens ! b ! s = f (hidden ! b ! s) (positions ! b ! s)" if "b < length hidden" for b s
    using that H P nth_mem [of b hidden] nth_mem [of b positions] by (simp_all add: tokens_def)
  have shaped: "token_shaped nq nk ly interleave (hidden ! b ! s) (positions ! b ! s) (tokens ! b ! s)" if "b < length hidden" "s < S" for b s
    using f tok [OF that(1)] that(2) by simp
  have all: "length rows = S \<and> (\<forall>t\<in>set rows. length (fst t) = nq \<and> length (fst (snd t)) = nk \<and> length (snd (snd t)) = nk)" if rows: "rows \<in> set tokens" for rows
  proof -
    obtain b where b: "b < length hidden" "rows = tokens ! b" using rows tl by (auto simp: in_set_conv_nth)
    have "length (fst t) = nq \<and> length (fst (snd t)) = nk \<and> length (snd (snd t)) = nk" if t: "t \<in> set rows" for t
    proof -
      obtain s where "s < S" "t = tokens ! b ! s" using t tok(1) [OF b(1)] by (auto simp: b(2) in_set_conv_nth)
      then show ?thesis using shaped [OF b(1)] by (simp add: token_shaped_def split_beta)
    qed
    then show ?thesis using tok(1) [OF b(1)] b(2) by simp
  qed
  have q: "\<forall>rows\<in>set (map (map fst) tokens). length rows = S \<and> (\<forall>t\<in>set rows. length t = nq)" using all by auto
  have k: "\<forall>rows\<in>set (map (map (fst \<circ> snd)) tokens). length rows = S \<and> (\<forall>t\<in>set rows. length t = nk)" using all by auto
  have v: "\<forall>rows\<in>set (map (map (snd \<circ> snd)) tokens). length rows = S \<and> (\<forall>t\<in>set rows. length t = nk)" using all by auto
  have cells: "(\<forall>h<nq. length (heads_first (map (map fst) tokens) ! b) = nq \<and> length (heads_first (map (map fst) tokens) ! b ! h) = S \<and>
        length (heads_first (map (map fst) tokens) ! b ! h ! s) = ml_qk_head_dim ly) \<and>
      (\<forall>h<nk. length (heads_first (map (map (fst \<circ> snd)) tokens) ! b) = nk \<and> length (heads_first (map (map (fst \<circ> snd)) tokens) ! b ! h) = S \<and>
        length (heads_first (map (map (fst \<circ> snd)) tokens) ! b ! h ! s) = ml_qk_head_dim ly \<and>
        length (heads_first (map (map (snd \<circ> snd)) tokens) ! b) = nk \<and> length (heads_first (map (map (snd \<circ> snd)) tokens) ! b ! h) = S \<and>
        length (heads_first (map (map (snd \<circ> snd)) tokens) ! b ! h ! s) = ml_vdim ly \<and>
        drop (ml_nope ly) (heads_first (map (map (fst \<circ> snd)) tokens) ! b ! h ! s) =
          ml_rotate ly interleave (positions ! b ! s) (drop (ml_kv_lora ly) (ml_kv_a ly (hidden ! b ! s))))"
    if b: "b < length hidden" and s: "s < S" for b s
  proof -
    obtain qq kk vv where t: "tokens ! b ! s = (qq, kk, vv)" by (rule prod_cases3)
    note T = shaped [OF b s, unfolded t token_shaped_def, simplified]
    have at: "map g (tokens ! b) ! s = g (tokens ! b ! s)" for g :: "_ \<Rightarrow> 'a list list" using s tok(1) [OF b] by simp
    show ?thesis
      using heads_first_shape [OF q S _ _ s, of b] heads_first_shape [OF k S _ _ s, of b] heads_first_shape [OF v S _ _ s, of b] T b tl
      by (simp add: at t all_set_conv_all_nth)
  qed
  have "length (heads_first ts) = length ts" for ts :: "'a list list list list" by (simp add: heads_first_def)
  with run cells tl show ?thesis by (metis length_map)
qed

text \<open>One query head of sizes 1 + 1, two key heads with values of size 2; a position is added to the rotated part.\<close>

definition ex_mla :: "(int, int) mla_layer" where
  "ex_mla = \<lparr>ml_qk_head_dim = 2, ml_nope = 1, ml_rope = 1, ml_vdim = 2, ml_kv_lora = 1, ml_q_lora = None, ml_q_proj = (\<lambda>x. [x ! 0, 3]),
     ml_q_a = id, ml_q_norm = id, ml_q_b = id, ml_kv_a = (\<lambda>x. [x ! 0, 7]), ml_kv_norm = id, ml_kv_b = (\<lambda>y. [1, 2, 3, 4, 5, y ! 0]), ml_o_proj = id,
     ml_rotate = (\<lambda>_ p. map ((+) p))\<rparr>"

lemma mla_states_have_declared_shapes_witness:
  "\<exists>q k v. mla_states ex_mla True [[[5], [6]]] [[10, 20]] = Ok (q, k, v) \<and> length (v ! 0 ! 1 ! 1) = 2 \<and> drop 1 (k ! 0 ! 1 ! 1) = [27]"
proof -
  have "layer_fits 1 2 ex_mla" by (simp add: layer_fits_def ex_mla_def mla_queries_def)
  from mla_states_have_declared_shapes [OF this, of "[[[5], [6]]]" 2 "[[10, 20]]" True] obtain q k v where
    "mla_states ex_mla True [[[5], [6]]] [[10, 20]] = Ok (q, k, v)"
    and c: "\<And>b s h. b < 1 \<Longrightarrow> s < 2 \<Longrightarrow> h < 2 \<Longrightarrow> length (v ! b ! h ! s) = ml_vdim ex_mla \<and>
      drop (ml_nope ex_mla) (k ! b ! h ! s) = ml_rotate ex_mla True ([[10, 20]] ! b ! s) (drop (ml_kv_lora ex_mla) (ml_kv_a ex_mla ([[[5], [6]]] ! b ! s)))"
    by auto
  moreover have "length (v ! 0 ! 1 ! 1) = 2" "drop 1 (k ! 0 ! 1 ! 1) = [27]"
    using c [of 0 1 1] by (simp_all add: ex_mla_def)
  ultimately show ?thesis by blast
qed

text \<open>With the eager implementation every call ends in an unbound name.\<close>

lemma eager_attention_is_unbound:
  "mla_states ly interleave hidden positions = Ok qkv \<Longrightarrow>
    deepseek_v3_attention_forward functions None ''eager'' training no_dropout dropout interleave ly hidden positions = Raise NameError"
  by (cases qkv) (simp add: deepseek_v3_attention_forward_def)

text \<open>The rotary embedding of a token is computed from its own position, whatever the batch, its order of programs and the memory.\<close>

lemma rope_per_position:
  assumes "row_independent ops mma" "\<forall>g. set (schedule g) = bmm_grid g" "b < B" "s < S" "d < 2 * length inv_freq"
  shows "\<exists>co si. deterministic_rope_forward ops schedule fresh cosine sine scaled inv_freq B S position_ids = Ok (co, si) \<and>
    (let freq = op_round ops (mma [inv_freq ! (d mod length inv_freq)] [position_ids b s] (acc_zero ops))
     in co b s d = scaled (cosine freq) \<and> si b s d = scaled (sine freq))"
proof -
  let ?F = "length inv_freq"
  have F: "d mod ?F < ?F" using assms(5) by (intro mod_less_divisor) linarith
  have cell: "nat (int (b * (?F * 1)) + int (d mod ?F * 1 + 0)) mod ?F = d mod ?F" "nat (int (b * (1 * S)) + int (0 * S + s)) div S = b" "nat (int (b * (1 * S)) + int (0 * S + s)) mod S = s"
    using assms(4) by (simp_all add: nat_add_distrib nat_mult_distrib flip: of_nat_mult of_nat_add)
  obtain c where "triton_bmm ops schedule fresh ([B, ?F, 1], \<lambda>a. inv_freq ! (nat a mod ?F)) ([B, 1, S], \<lambda>a. position_ids (nat a div S) (nat a mod S)) = Ok ([B, ?F, S], c)"
    "c (int (b * (?F * S)) + int (d mod ?F * S + s)) = op_round ops (mma [inv_freq ! (d mod ?F)] [position_ids b s] (acc_zero ops))"
    using bmm_cell [OF assms(1-3) F assms(4), of fresh 1 "\<lambda>a. inv_freq ! (nat a mod ?F)" "\<lambda>a. position_ids (nat a div S) (nat a mod S)"]
    using cell by auto
  then show ?thesis by (simp add: deterministic_rope_forward_def Let_def)
qed

end
