(* ===== verification/Model_Patches.thy ===== *)
theory Model_Patches
  imports Prelude
begin

text \<open>
  Installing the replaced layers: \<open>register_models\<close> (\<open>src/vexact/models/register.py\<close>) and the \<open>apply_..._patches\<close>
  functions of the model files. An attribute of a class of Transformers, VeOmni or verl is a key, what is bound to it an
  implementation; wrapping an \<open>__init__\<close> keeps the one it found.
\<close>

datatype implementation = Stock | Patched string | With_compat implementation

record patch_state =
  ps_attrs :: "string \<Rightarrow> implementation"
  ps_qwen :: bool
  ps_deepseek :: bool
  ps_gpt_oss :: bool
  ps_registered :: bool
  ps_fused_kernel :: "string option"
  ps_tuned :: bool

definition bind_attr :: "string \<Rightarrow> string \<Rightarrow> patch_state \<Rightarrow> patch_state" where
  "bind_attr attr f st = st\<lparr>ps_attrs := (ps_attrs st)(attr := Patched f)\<rparr>"

definition apply_qwen3_moe_patches :: "patch_state \<Rightarrow> patch_state" where
  "apply_qwen3_moe_patches st =
     (if ps_qwen st then st
      else (bind_attr ''Qwen3MoeSparseMoeBlock.forward'' ''moe_block_forward''
           (bind_attr ''Qwen3MoeSparseMoeBlock.__init__'' ''moe_block_init''
           (bind_attr ''Qwen3MoePreTrainedModel.load_weights'' ''load_qwen3_moe_weights''
           (bind_attr ''Qwen3MoePreTrainedModel._load_pretrained_model'' ''_patched_load_pretrained_model'' st))))\<lparr>ps_qwen := True\<rparr>)"

text \<open>The actor side is patched where VeOmni can be imported.\<close>

definition patch_veomni :: "patch_state \<Rightarrow> patch_state" where
  "patch_veomni st =
     bind_attr ''veomni.DeepseekV3RMSNorm.forward'' ''_bi_rms_norm_forward''
    (bind_attr ''veomni.DeepseekV3RotaryEmbedding.forward'' ''_deterministic_rope_forward''
    (bind_attr ''veomni.DeepseekV3Attention.forward'' ''deepseek_v3_attention_forward''
       (st\<lparr>ps_attrs := (ps_attrs st)(''veomni.DeepseekV3Attention.__init__'' := With_compat (ps_attrs st ''veomni.DeepseekV3Attention.__init__''))\<rparr>)))"

definition apply_deepseek_v3_patches :: "bool \<Rightarrow> patch_state \<Rightarrow> patch_state" where
  "apply_deepseek_v3_patches veomni_importable st =
     (if ps_deepseek st then st
      else let st = bind_attr ''DeepseekV3RotaryEmbedding.forward'' ''_deterministic_rope_forward''
             (bind_attr ''DeepseekV3Attention.forward'' ''deepseek_v3_attention_forward''
             (bind_attr ''DeepseekV3MoE'' ''PatchDeepseekV3MoE''
             (bind_attr ''DeepseekV3PreTrainedModel.load_weights'' ''load_deepseek_v3_weights''
             (bind_attr ''DeepseekV3PreTrainedModel._load_pretrained_model'' ''_patched_load_pretrained_model''
             (bind_attr ''DeepseekV3PreTrainedModel.__init__'' ''_compat_pretrained_init'' st)))));
             st = (if veomni_importable then patch_veomni st else st)
         in (bind_attr ''DeepseekV3RMSNorm.forward'' ''_bi_rms_norm_forward'' st)\<lparr>ps_deepseek := True\<rparr>)"

definition apply_gpt_oss_patches :: "patch_state \<Rightarrow> patch_state" where
  "apply_gpt_oss_patches st =
     (if ps_gpt_oss st then st
      else (bind_attr ''GptOssExperts.forward'' ''gpt_oss_experts_forward'' st)\<lparr>ps_gpt_oss := True\<rparr>)"

text \<open>\<open>from_pretrained\<close> of a patched model is refused.\<close>

definition patched_load_pretrained_model :: "'a res" where
  "patched_load_pretrained_model = Raise NotImplementedError"

text \<open>
  The environment of a process: its variables, whether a GPU is there and how new it is (asking may raise), and what
  VeOmni answers when its kernel is to be bound.
\<close>

record patch_env =
  pe_getenv :: "string \<Rightarrow> string option"
  pe_cuda :: bool
  pe_capability :: "int res"
  pe_bind :: "string \<Rightarrow> unit res"
  pe_veomni :: bool

definition env_set :: "patch_env \<Rightarrow> string \<Rightarrow> bool" where
  "env_set e x = (pe_getenv e x = Some ''1'')"

definition preferred_moe_kernel :: "patch_env \<Rightarrow> string res" where
  "preferred_moe_kernel e =
     (if \<not> pe_cuda e then Ok ''triton''
      else case pe_capability e of
          Ok major \<Rightarrow> Ok (if 10 \<le> major then ''quack'' else ''triton'')
        | Raise x \<Rightarrow> if x = RuntimeError then Ok ''triton'' else Raise x
        | Hang \<Rightarrow> Hang)"

definition bind_fused_kernel :: "patch_env \<Rightarrow> patch_state \<Rightarrow> patch_state res" where
  "bind_fused_kernel e st =
     rbind (preferred_moe_kernel e) (\<lambda>k.
     case pe_bind e k of
       Ok _ \<Rightarrow> Ok (st\<lparr>ps_fused_kernel := Some k, ps_tuned := ps_tuned st \<or> k = ''triton''\<rparr>)
     | Raise x \<Rightarrow> if x = RuntimeError then Ok st else Raise x
     | Hang \<Rightarrow> Hang)"

definition apply_liger_patches :: "patch_state \<Rightarrow> patch_state" where
  "apply_liger_patches st = bind_attr ''Qwen3MLP'' ''LigerSwiGLUMLP'' (bind_attr ''qwen3.apply_rotary_pos_emb'' ''liger_rotary_pos_emb'' st)"

definition register_models :: "patch_env \<Rightarrow> patch_state \<Rightarrow> patch_state res" where
  "register_models e st =
     (if ps_registered st then Ok st
      else rbind (if env_set e ''VEXACT_DISABLE_MODEL_PATCH'' then Ok st
          else rbind (bind_fused_kernel e st) (\<lambda>st.
            Ok (apply_gpt_oss_patches (apply_deepseek_v3_patches (pe_veomni e) (apply_qwen3_moe_patches st))))) (\<lambda>st.
        Ok ((if env_set e ''VEXACT_LIGER_PATCH'' then apply_liger_patches st else st)\<lparr>ps_registered := True\<rparr>)))"

section \<open>Properties\<close>

lemma bind_attr_flags [simp]:
  "ps_qwen (bind_attr a f st) = ps_qwen st" "ps_deepseek (bind_attr a f st) = ps_deepseek st" "ps_gpt_oss (bind_attr a f st) = ps_gpt_oss st"
  "ps_registered (bind_attr a f st) = ps_registered st" "ps_fused_kernel (bind_attr a f st) = ps_fused_kernel st" "ps_tuned (bind_attr a f st) = ps_tuned st"
  by (simp_all add: bind_attr_def)

text \<open>Each patch is applied once: a second call changes nothing, so an \<open>__init__\<close> is never wrapped twice.\<close>

lemma patches_once:
  "apply_qwen3_moe_patches (apply_qwen3_moe_patches st) = apply_qwen3_moe_patches st"
  "apply_deepseek_v3_patches v (apply_deepseek_v3_patches v' st) = apply_deepseek_v3_patches v' st"
  "apply_gpt_oss_patches (apply_gpt_oss_patches st) = apply_gpt_oss_patches st"
  by (simp_all add: apply_qwen3_moe_patches_def apply_deepseek_v3_patches_def apply_gpt_oss_patches_def Let_def)

lemma register_once: "register_models e st = Ok st' \<Longrightarrow> register_models e' st' = Ok st'"
  by (auto simp: register_models_def split: if_splits)

lemma attention_init_wrapped_once:
  assumes "\<not> ps_deepseek st" "ps_attrs st ''veomni.DeepseekV3Attention.__init__'' = Stock"
  shows "ps_attrs (apply_deepseek_v3_patches True (apply_deepseek_v3_patches True st)) ''veomni.DeepseekV3Attention.__init__'' = With_compat Stock"
  using assms by (simp add: patches_once(2)) (simp add: apply_deepseek_v3_patches_def patch_veomni_def bind_attr_def Let_def)

text \<open>The launches of the grouped products are tuned exactly when the Triton kernel is the one that was bound.\<close>

lemma tuned_with_triton:
  assumes "bind_fused_kernel e st = Ok st'" "\<not> ps_tuned st" "ps_fused_kernel st = None"
  shows "ps_tuned st' \<longleftrightarrow> ps_fused_kernel st' = Some ''triton''"
proof -
  obtain k where k: "preferred_moe_kernel e = Ok k" using assms(1) by (cases "preferred_moe_kernel e") (auto simp: bind_fused_kernel_def)
  show ?thesis using assms k by (cases "pe_bind e k") (auto simp: bind_fused_kernel_def split: if_splits)
qed

end
