(* ===== verification/Rollout_Server.thy ===== *)
theory Rollout_Server
  imports Request Config Memory_Saver
begin

text \<open>
  The rollout server of \<open>src/vexact/integrations/verl/\<close>: \<open>VeXactServer\<close> and \<open>VeXactReplica\<close> (\<open>async_server.py\<close>) and
  \<open>ServerAdapter\<close>, the trainer's side of it (\<open>rollout.py\<close>). Ray carries the calls; the engine, the tokenizer's ids and
  the checks of Hugging Face's \<open>GenerationConfig\<close> are parameters.

  The lemmas show that a request stops within the lengths it was admitted for, that every worker is served by one
  server, and that weights are sent where they are awaited.
\<close>

section \<open>Configuration\<close>

datatype rollout_mode = HYBRID | COLOCATED | STANDALONE

record 'f rollout_config =
  ro_max_model_len :: "int option"
  ro_prompt_length :: int
  ro_response_length :: int
  ro_load_format :: string
  ro_free_cache_engine :: bool
  ro_enforce_eager :: bool
  ro_tensor :: int
  ro_data :: int
  ro_pipeline :: int
  ro_max_num_seqs :: int
  ro_max_num_batched_tokens :: int
  ro_chunked_prefill :: bool
  ro_profiler_enable :: bool
  ro_profiler_path :: "string option"
  ro_temperature :: 'f
  ro_top_p :: 'f
  ro_top_k :: int
  ro_do_sample :: bool
  ro_attn_impl :: "string option"
  ro_max_cache_blocks :: "int option"

record 'f rollout_server =
  rs_config :: "'f rollout_config"
  rs_mode :: rollout_mode
  rs_replica :: nat
  rs_node :: nat
  rs_port :: "nat option"
  rs_global_steps :: "int option"
  rs_engine :: "vexact_config option"
  rs_eos :: eos_token_id

text \<open>\<open>VeXactServer.__init__\<close>: the context length is that of the model, or a smaller one.\<close>

definition server_init :: "int \<Rightarrow> 'f rollout_config \<Rightarrow> rollout_mode \<Rightarrow> nat \<Rightarrow> nat \<Rightarrow> 'f rollout_server res" where
  "server_init max_position_embeddings c mode replica node =
     rbind (case ro_max_model_len c of
         None \<Rightarrow> Ok (c\<lparr>ro_max_model_len := Some max_position_embeddings\<rparr>)
       | Some n \<Rightarrow> if max_position_embeddings < n then Raise ValueError else Ok c) (\<lambda>c.
     Ok \<lparr>rs_config = (if mode \<noteq> HYBRID \<and> ro_load_format c = ''dummy'' then c\<lparr>ro_load_format := ''auto''\<rparr> else c),
         rs_mode = mode, rs_replica = replica, rs_node = node, rs_port = None, rs_global_steps = None, rs_engine = None, rs_eos = EosNone\<rparr>)"

text \<open>
  The engine's configuration, built in the order of the source with every \<open>__post_init__\<close>; the model's own
  configuration file, a free port and the variable \<open>INFER_FA_IMPL\<close> come from outside. \<open>engine_kwargs\<close> is read as the
  two entries that are used.
\<close>

definition replica_driver_id :: "nat \<Rightarrow> string" where
  "replica_driver_id replica = ''verl_rollout_replica_'' @ nat_str replica"

definition server_engine_config ::
    "(string \<Rightarrow> string \<Rightarrow> hf_config) \<Rightarrow> nat \<Rightarrow> string option \<Rightarrow> string option \<Rightarrow> bool \<Rightarrow> 'f rollout_server \<Rightarrow> vexact_config res" where
  "server_engine_config load_hf free_port infer_fa_impl path use_fused_kernels sv =
     (let c = rs_config sv;
          attn = (case ro_attn_impl c of Some a \<Rightarrow> a | None \<Rightarrow> (case infer_fa_impl of Some a \<Rightarrow> a | None \<Rightarrow> ''fa-invariant''))
      in rbind (model_post_init load_hf \<lparr>model_path = path, attn_impl = attn, moe_implementation = ''fused_quack'', enable_batch_invariant = True,
            enable_memory_saver = ro_free_cache_engine c, use_fp32_logits = use_fused_kernels, hf_cfg = None, max_model_len = None,
            enforce_eager = ro_enforce_eager c\<rparr>) (\<lambda>mc.
         rbind (parallel_post_init free_port \<lparr>pipeline_parallel_size = ro_pipeline c, torch_distributed_addr = ''0.0.0.0'',
            torch_distributed_port = None, world_size = 0\<rparr>) (\<lambda>pc.
         rbind (scheduler_post_init \<lparr>max_num_batched_tokens = ro_max_num_batched_tokens c, max_num_seqs = ro_max_num_seqs c, max_queue_size = 0,
            enable_chunked_prefill = ro_chunked_prefill c, enable_pp_fair_share = False\<rparr>) (\<lambda>sc.
         rbind (cache_post_init \<lparr>page_size = 256, max_cache_blocks = (case ro_max_cache_blocks c of Some n \<Rightarrow> n | None \<Rightarrow> 1024)\<rparr>) (\<lambda>cc.
         rbind (profiler_post_init \<lparr>backend = (if ro_profiler_enable c then Some ''torch'' else None), delay_iterations = 10000, max_iterations = 200,
            output_path = ro_profiler_path c, profile_all_ranks = True\<rparr>) (\<lambda>fc.
         Ok (vexact_post_init \<lparr>model = mc, parallel = pc, scheduler = sc, cache = cc, profiler = fc,
            driver = \<lparr>is_worker_proc_managed = True, driver_id = Some (replica_driver_id (rs_replica sv)), request_address = None, control_addresses = None\<rparr>\<rparr>)))))))"

text \<open>
  \<open>launch_server\<close>: starting the engine may fail; the end token is that of the model's configuration where it has the
  attribute. The port is the replica's number.
\<close>

definition launch_server ::
    "(string \<Rightarrow> string \<Rightarrow> hf_config) \<Rightarrow> nat \<Rightarrow> string option \<Rightarrow> string option \<Rightarrow> bool \<Rightarrow> (vexact_config \<Rightarrow> unit res) \<Rightarrow> eos_token_id option \<Rightarrow> eos_token_id
       \<Rightarrow> 'f rollout_server \<Rightarrow> 'f rollout_server res" where
  "launch_server load_hf free_port infer_fa_impl path use_fused_kernels start model_eos tokenizer_eos sv =
     rbind (server_engine_config load_hf free_port infer_fa_impl path use_fused_kernels sv) (\<lambda>vc.
     rbind (start vc) (\<lambda>_.
     Ok (sv\<lparr>rs_config := (rs_config sv)\<lparr>ro_attn_impl := None, ro_max_cache_blocks := None\<rparr>, rs_engine := Some vc,
            rs_eos := (case model_eos of Some e \<Rightarrow> e | None \<Rightarrow> tokenizer_eos), rs_port := Some (rs_replica sv)\<rparr>)))"

definition get_server_address :: "string \<Rightarrow> 'f rollout_server \<Rightarrow> (string \<times> nat) res" where
  "get_server_address address sv = (case rs_port sv of None \<Rightarrow> Raise AssertionError | Some p \<Rightarrow> Ok (address, p))"

section \<open>Generation\<close>

text \<open>The dictionary of sampling parameters, by key; \<open>sp_names\<close> are its other keys. A boolean \<open>logprobs\<close> is an integer.\<close>

datatype logprobs_param = LpInt int | LpOther bool

record 'f sampling_params =
  sp_temperature :: "'f option"
  sp_top_p :: "'f option"
  sp_top_k :: "int option"
  sp_do_sample :: "bool option"
  sp_seed :: "int option"
  sp_logprobs :: logprobs_param
  sp_names :: "string set"

definition given :: "'a \<Rightarrow> 'a option \<Rightarrow> 'a" where
  "given d x = (case x of None \<Rightarrow> d | Some v \<Rightarrow> v)"

definition wants_logprobs :: "logprobs_param \<Rightarrow> bool" where
  "wants_logprobs p = (case p of LpInt n \<Rightarrow> 0 < n | LpOther b \<Rightarrow> b)"

definition token_limit :: "'f rollout_config \<Rightarrow> int list \<Rightarrow> int \<Rightarrow> int" where
  "token_limit c ids max_possible_tokens = max 0 (min (ro_response_length c + ro_prompt_length c - int (length ids)) max_possible_tokens)"

text \<open>The request that \<open>generate\<close> submits; \<open>valid\<close> are the checks of \<open>GenerationConfig\<close>, \<open>one\<close> the number 1.0.\<close>

definition server_request ::
    "('f generation_config \<Rightarrow> bool) \<Rightarrow> 'f \<Rightarrow> 'f rollout_server \<Rightarrow> int list \<Rightarrow> 'f sampling_params \<Rightarrow> string \<Rightarrow> 'f driver_request res" where
  "server_request valid one sv ids sp rid =
     (let c = rs_config sv
      in case ro_max_model_len c of None \<Rightarrow> Raise TypeError | Some mml \<Rightarrow>
         let max_possible_tokens = mml - int (length ids)
         in if max_possible_tokens < 0 then Raise ValueError
         else if ''max_tokens'' \<in> sp_names sp \<or> ''max_new_tokens'' \<in> sp_names sp then Raise AssertionError
         else let max_tokens = token_limit c ids max_possible_tokens;
              sample = given (ro_do_sample c) (sp_do_sample sp);
              k = given (ro_top_k c) (sp_top_k sp);
              gc = \<lparr>eos_token = rs_eos sv, max_length = Some (int (length ids) + max_tokens), max_new_tokens = Some max_tokens,
                    output_logits = False, output_scores = True, do_sample = sample,
                    temperature = (if sample then given (ro_temperature c) (sp_temperature sp) else one),
                    top_k = (if sample \<and> 0 < k then Some k else None),
                    top_p = Some (if sample then given (ro_top_p c) (sp_top_p sp) else one), seed = sp_seed sp\<rparr>
         in if \<not> valid gc then Raise ValueError
         else Ok \<lparr>dr_generation_config = gc, dr_input_ids_list = Some ids, dr_request_id = rid\<rparr>)"

record 'f token_output =
  to_token_ids :: "int list"
  to_log_probs :: "'f list option"
  to_stop_reason :: string
  to_global_steps :: "int option"

definition stop_reason :: "string option \<Rightarrow> string" where
  "stop_reason reason =
     (case reason of None \<Rightarrow> ''completed''
      | Some r \<Rightarrow> if r = ''abort'' then ''aborted'' else if r = ''stop'' \<or> r = ''length'' then ''completed'' else r)"

definition server_generate ::
    "('f generation_config \<Rightarrow> bool) \<Rightarrow> 'f \<Rightarrow> ('f driver_request \<Rightarrow> 'f driver_request_output res) \<Rightarrow> 'f rollout_server \<Rightarrow> int list \<Rightarrow> 'f sampling_params
       \<Rightarrow> string \<Rightarrow> 'f token_output res" where
  "server_generate valid one engine sv ids sp rid =
     rbind (server_request valid one sv ids sp rid) (\<lambda>req.
     rbind (engine req) (\<lambda>result.
     Ok \<lparr>to_token_ids = new_token_ids result, to_log_probs = (if wants_logprobs (sp_logprobs sp) then new_logprobs result else None),
         to_stop_reason = stop_reason (out_reason result), to_global_steps = rs_global_steps sv\<rparr>))"

section \<open>Memory and weights\<close>

text \<open>The engine's calls act on the state \<open>net\<close> of its workers.\<close>

definition server_wake_up :: "(string option \<Rightarrow> 'n \<Rightarrow> 'n res) \<Rightarrow> 'f rollout_server \<Rightarrow> string list option \<Rightarrow> 'n \<Rightarrow> 'n res" where
  "server_wake_up wake sv tags net =
     (if rs_node sv \<noteq> 0 then Ok net
      else if rs_mode sv = STANDALONE then Ok net
      else wake (case tags of Some (t # _) \<Rightarrow> Some t | _ \<Rightarrow> None) net)"

definition server_sleep :: "('n \<Rightarrow> 'n res) \<Rightarrow> 'f rollout_server \<Rightarrow> 'n \<Rightarrow> 'n res" where
  "server_sleep sleep sv net =
     (if rs_node sv \<noteq> 0 \<or> \<not> ro_free_cache_engine (rs_config sv) then Ok net
      else if rs_mode sv = STANDALONE then Ok net
      else sleep net)"

definition server_receive_weights :: "('n \<Rightarrow> 'n res) \<Rightarrow> int option \<Rightarrow> 'f rollout_server \<times> 'n \<Rightarrow> ('f rollout_server \<times> 'n) res" where
  "server_receive_weights receive steps s = (case s of (sv, net) \<Rightarrow> rbind (receive net) (\<lambda>net. Ok (sv\<lparr>rs_global_steps := steps\<rparr>, net)))"

text \<open>Aborting does nothing, and says so; rejecting requests is refused.\<close>

record abort_result =
  ab_count :: int
  ab_ids :: "string list"

definition server_abort_all :: "bool \<Rightarrow> abort_result res" where
  "server_abort_all reject_request = (if reject_request then Raise NotImplementedError else Ok \<lparr>ab_count = 0, ab_ids = []\<rparr>)"

definition server_abort_request :: "string \<Rightarrow> bool \<times> string" where
  "server_abort_request rid = (False, rid)"

section \<open>The replica\<close>

text \<open>A server as the replica creates it: name, node it is bound to, workers, their devices, rank.\<close>

record server_spec =
  ss_name :: string
  ss_node :: string
  ss_workers :: "nat list"
  ss_devices :: string
  ss_rank :: nat

definition slice_of :: "nat \<Rightarrow> nat \<Rightarrow> 'a list \<Rightarrow> 'a list" where
  "slice_of g n xs = take g (drop (n * g) xs)"

definition server_name :: "bool \<Rightarrow> nat \<Rightarrow> nat \<Rightarrow> string" where
  "server_name is_reward_model replica node =
     (if is_reward_model then ''vexact_server_reward_'' else ''vexact_server_'') @ nat_str replica @ ''_'' @ nat_str node"

definition node_server :: "bool \<Rightarrow> nat \<Rightarrow> nat \<Rightarrow> nat list \<Rightarrow> (string \<times> string) list \<Rightarrow> nat \<Rightarrow> server_spec res" where
  "node_server is_reward_model replica g workers infos node =
     rbind (py_get (map fst infos) (int (node * g))) (\<lambda>node_id.
     Ok \<lparr>ss_name = server_name is_reward_model replica node, ss_node = node_id, ss_workers = slice_of g node workers,
         ss_devices = join_with '','' (slice_of g node (map snd infos)), ss_rank = node\<rparr>)"

definition replica_launch_servers :: "bool \<Rightarrow> nat \<Rightarrow> nat \<Rightarrow> nat \<Rightarrow> nat \<Rightarrow> nat list \<Rightarrow> (nat \<Rightarrow> string \<times> string) \<Rightarrow> server_spec list res" where
  "replica_launch_servers is_reward_model replica ws nnodes g workers info =
     (if length workers \<noteq> ws then Raise AssertionError
      else rbind (map_res (node_server is_reward_model replica g workers (map info workers)) [0..<nnodes]) (\<lambda>servers.
        if servers = [] then Raise IndexError else Ok servers))"

definition replica_abort_all :: "abort_result res list \<Rightarrow> (int \<times> string list \<times> abort_result list) res" where
  "replica_abort_all results =
     rbind (map_res id results) (\<lambda>rs. Ok (sum_list (map ab_count rs), concat (map ab_ids rs), rs))"

definition replica_abort_request :: "string \<Rightarrow> (bool \<times> string) list \<Rightarrow> bool \<times> string" where
  "replica_abort_request rid results = (case filter fst results of r # _ \<Rightarrow> r | [] \<Rightarrow> (False, rid))"

definition replica_sleep :: "('n \<Rightarrow> 'n res) \<Rightarrow> 'f rollout_server list \<Rightarrow> 'n \<Rightarrow> 'n res" where
  "replica_sleep sleep servers = for_res (server_sleep sleep) servers"

section \<open>The trainer's adapter\<close>

record adapter_state =
  ad_replica :: nat
  ad_rank :: nat
  ad_node :: nat
  ad_zmq :: string
  ad_shm :: bool

definition weight_address :: "string \<Rightarrow> nat \<Rightarrow> string" where
  "weight_address did rank = ''ipc:///tmp/vexact-weight-'' @ did @ ''-'' @ nat_str rank @ ''.sock''"

text \<open>\<open>mesh_size\<close>, \<open>dp_size\<close> and \<open>dp_rank\<close> are the trainer's device mesh; \<open>ipc\<close> says whether devices share memory.\<close>

definition adapter_init :: "nat \<Rightarrow> nat \<Rightarrow> nat \<Rightarrow> nat \<Rightarrow> nat \<Rightarrow> nat \<Rightarrow> nat \<Rightarrow> nat \<Rightarrow> bool \<Rightarrow> adapter_state res" where
  "adapter_init rank local_world_size tp dp pp mesh_size dp_size dp_rank ipc =
     (let ws = tp * dp * pp; replica = rank div ws; r = rank mod ws
      in if ws = 0 \<or> local_world_size = 0 then Raise ZeroDivisionError
      else if dp_size = 0 then Raise ZeroDivisionError
      else if ws \<noteq> mesh_size div dp_size \<or> replica \<noteq> dp_rank then Raise AssertionError
      else Ok \<lparr>ad_replica = replica, ad_rank = r, ad_node = r div local_world_size,
               ad_zmq = weight_address (replica_driver_id replica) r, ad_shm = \<not> ipc\<rparr>)"

definition adapter_server :: "adapter_state \<Rightarrow> string" where
  "adapter_server a = server_name False (ad_replica a) (ad_node a)"

definition adapter_resume :: "(string list option \<Rightarrow> 'n \<Rightarrow> 'n res) \<Rightarrow> bool \<Rightarrow> adapter_state \<Rightarrow> string list \<Rightarrow> 'n \<Rightarrow> 'n res" where
  "adapter_resume wake_up free_cache_engine a tags net = (if free_cache_engine \<and> ad_rank a = 0 then wake_up (Some tags) net else Ok net)"

definition adapter_release :: "('n \<Rightarrow> 'n res) \<Rightarrow> bool \<Rightarrow> adapter_state \<Rightarrow> 'n \<Rightarrow> 'n res" where
  "adapter_release sleep free_cache_engine a net = (if free_cache_engine \<and> ad_rank a = 0 then sleep net else Ok net)"

text \<open>What an adapter does to update the weights, in order.\<close>

datatype update_action = AskReceive string "int option" | SendWeights string bool | AwaitReceive | ClearCache

definition adapter_update_weights :: "adapter_state \<Rightarrow> int option \<Rightarrow> update_action list" where
  "adapter_update_weights a steps =
     (if ad_rank a = 0 then [AskReceive (adapter_server a) steps] else []) @ [SendWeights (ad_zmq a) (ad_shm a)] @
     (if ad_rank a = 0 then [AwaitReceive, ClearCache] else [])"

text \<open>A worker's side: the address its \<open>__init__\<close> fixes.\<close>

definition worker_zmq_handle :: "vexact_config \<Rightarrow> nat \<Rightarrow> string" where
  "worker_zmq_handle vc rank = weight_address (case driver_id (driver vc) of Some d \<Rightarrow> d | None \<Rightarrow> ''None'') rank"

section \<open>Properties\<close>

text \<open>
  C21. A request stops within the lengths it was admitted for. Whenever \<open>generate\<close> submits a request, then after any tokens
  \<open>ts\<close> (at least one) have been generated and computed up to the last, it is finished exactly if the last token is the
  end token or the limit is reached; a prompt longer than the context, or an explicit limit among the sampling
  parameters, is refused, and prompt and limit together exceed neither the context of the model nor the configured
  lengths, where these leave room for the prompt.
\<close>

theorem generation_stops_at_the_limit:
  assumes "server_request valid one sv ids sp rid = Ok req" "from_driver_request req = Ok r" "ro_max_model_len (rs_config sv) = Some mml" "ts \<noteq> []"
  shows "let limit = token_limit (rs_config sv) ids (mml - int (length ids));
      r' = r\<lparr>generated_tokens := ts, num_computed_tokens := int (length ids) + int (length ts) - 1\<rparr>
    in should_finish r' (last ts) = Ok (rs_eos sv = EosToken (last ts) \<or> limit \<le> int (length ts)) \<and>
       int (length ids) \<le> mml \<and> int (length ids) + limit \<le> mml \<and> ''max_tokens'' \<notin> sp_names sp \<and>
       (int (length ids) \<le> ro_response_length (rs_config sv) + ro_prompt_length (rs_config sv) \<longrightarrow>
          int (length ids) + limit \<le> ro_response_length (rs_config sv) + ro_prompt_length (rs_config sv)) \<and>
       request_id r = rid \<and> input_ids_list r = ids"
proof -
  let ?limit = "token_limit (rs_config sv) ids (mml - int (length ids))"
  have ok: "int (length ids) \<le> mml" "''max_tokens'' \<notin> sp_names sp"
    using assms(1,3) by (auto simp: server_request_def Let_def split: if_splits)
  have gc: "max_length (dr_generation_config req) = Some (int (length ids) + ?limit)" "max_new_tokens (dr_generation_config req) = Some ?limit"
    "eos_token (dr_generation_config req) = rs_eos sv" "dr_input_ids_list req = Some ids" "dr_request_id req = rid"
    using assms(1,3) by (auto simp: server_request_def Let_def split: if_splits)
  have r: "generation_config r = dr_generation_config req" "input_ids_list r = ids" "request_id r = rid"
    using assms(2) gc(4,5) by (auto simp: from_driver_request_def make_request_def)
  show ?thesis using ok r gc by (auto simp: should_finish_def Let_def token_limit_def)
qed

definition ex_rollout :: "nat rollout_config" where
  "ex_rollout = \<lparr>ro_max_model_len = None, ro_prompt_length = 4, ro_response_length = 8, ro_load_format = ''dummy'', ro_free_cache_engine = True,
     ro_enforce_eager = False, ro_tensor = 1, ro_data = 1, ro_pipeline = 2, ro_max_num_seqs = 8, ro_max_num_batched_tokens = 64, ro_chunked_prefill = True,
     ro_profiler_enable = False, ro_profiler_path = None, ro_temperature = 1, ro_top_p = 1, ro_top_k = -1, ro_do_sample = False, ro_attn_impl = None,
     ro_max_cache_blocks = None\<rparr>"

definition ex_rollout_server :: "nat rollout_server" where
  "ex_rollout_server = \<lparr>rs_config = ex_rollout\<lparr>ro_max_model_len := Some 6\<rparr>, rs_mode = HYBRID, rs_replica = 0, rs_node = 0, rs_port = None,
     rs_global_steps = None, rs_engine = None, rs_eos = EosToken 1\<rparr>"

definition no_sampling :: "nat sampling_params" where
  "no_sampling = \<lparr>sp_temperature = None, sp_top_p = None, sp_top_k = None, sp_do_sample = None, sp_seed = None, sp_logprobs = LpInt 0, sp_names = {}\<rparr>"

lemma ex_init: "server_init 6 ex_rollout HYBRID 0 0 = Ok (ex_rollout_server\<lparr>rs_eos := EosNone\<rparr>)"
  by (simp add: server_init_def ex_rollout_def ex_rollout_server_def)

lemma generation_stops_at_the_limit_witness:
  "\<exists>req r. server_request (\<lambda>_. True) 1 ex_rollout_server [7, 8, 9] no_sampling ''a'' = Ok req \<and> from_driver_request req = Ok r \<and>
    should_finish (r\<lparr>generated_tokens := [5, 5, 5], num_computed_tokens := 5\<rparr>) 5 = Ok True"
proof -
  obtain req r where r: "server_request (\<lambda>_. True) 1 ex_rollout_server [7, 8, 9] no_sampling ''a'' = Ok req" "from_driver_request req = Ok r"
    by (simp add: server_request_def ex_rollout_server_def ex_rollout_def no_sampling_def from_driver_request_def make_request_def Let_def)
  have "ro_max_model_len (rs_config ex_rollout_server) = Some 6" by (simp add: ex_rollout_server_def)
  from generation_stops_at_the_limit [OF r this, of "[5, 5, 5]"] have
    "should_finish (r\<lparr>generated_tokens := [5, 5, 5], num_computed_tokens := 5\<rparr>) 5 = Ok True"
    by (simp add: Let_def token_limit_def ex_rollout_server_def ex_rollout_def)
  with r show ?thesis by blast
qed

text \<open>
  With a prompt as long as the context the limit is 0, and the first token, which lies beyond the context, is still
  generated: only then is the request asked whether it is finished.
\<close>

lemma full_prompt_limit:
  "ro_max_model_len (rs_config sv) = Some (int (length ids)) \<Longrightarrow> server_request valid one sv ids sp rid = Ok req \<Longrightarrow>
    max_new_tokens (dr_generation_config req) = Some 0 \<and> dr_input_ids_list req = Some ids"
  by (auto simp: server_request_def Let_def token_limit_def split: if_splits)

text \<open>The engine never gives a reason, so a request that failed is reported as completed.\<close>

lemma failed_request_reported_completed:
  assumes "server_generate valid one engine sv ids sp rid = Ok t" "\<And>req. engine req = Ok (to_driver_request_output (fail r))"
  shows "to_stop_reason t = ''completed'' \<and> out_status (to_driver_request_output (fail r)) = FAILED"
  using assms by (auto simp: server_generate_def to_driver_request_output_def stop_reason_def fail_def)

text \<open>The version of the weights changes with an update that succeeds, and only then.\<close>

lemma version_follows_update:
  "server_receive_weights receive steps (sv, net) = Ok (sv', net') \<longleftrightarrow> receive net = Ok net' \<and> sv' = sv\<lparr>rs_global_steps := steps\<rparr>"
  by (cases "receive net") (auto simp: server_receive_weights_def)

section \<open>Servers and workers\<close>

lemma slice_length: "Suc n * g \<le> length xs \<Longrightarrow> length (slice_of g n xs) = g"
  by (simp add: slice_of_def)

lemma slices_partition: "length xs = m * g \<Longrightarrow> concat (map (\<lambda>n. slice_of g n xs) [0..<m]) = xs"
proof (induction m arbitrary: xs)
  case (Suc m)
  have "slice_of g (Suc n) xs = slice_of g n (drop g xs)" for n by (simp add: slice_of_def add.commute)
  then have "map (\<lambda>n. slice_of g n xs) [0..<Suc m] = slice_of g 0 xs # map (\<lambda>n. slice_of g n (drop g xs)) [0..<m]"
    by (simp add: upt_conv_Cons flip: map_Suc_upt del: upt_Suc)
  then show ?case using Suc.IH [of "drop g xs"] Suc.prems by (simp add: slice_of_def)
qed simp

text \<open>Where the replica's nodes have room for exactly its workers, every worker belongs to one server, on the node of its first worker.\<close>

lemma replica_serves_every_worker:
  assumes "length workers = nnodes * g" "0 < g" "0 < nnodes"
  shows "\<exists>servers. replica_launch_servers is_reward_model replica (nnodes * g) nnodes g workers info = Ok servers \<and>
    concat (map ss_workers servers) = workers \<and> length servers = nnodes \<and>
    (\<forall>n<nnodes. ss_rank (servers ! n) = n \<and> ss_name (servers ! n) = server_name is_reward_model replica n \<and> ss_node (servers ! n) = fst (info (workers ! (n * g))))"
proof -
  let ?spec = "\<lambda>n. \<lparr>ss_name = server_name is_reward_model replica n, ss_node = fst (info (workers ! (n * g))), ss_workers = slice_of g n workers,
    ss_devices = join_with '','' (slice_of g n (map snd (map info workers))), ss_rank = n\<rparr>"
  have "node_server is_reward_model replica g workers (map info workers) n = Ok (?spec n)" if "n < nnodes" for n
  proof -
    have "Suc n * g \<le> nnodes * g" using that by (intro mult_le_mono) simp_all
    then have lt: "n * g < length workers" using assms(1,2) that by simp
    then have "py_get (map fst (map info workers)) (int (n * g)) = Ok (fst (info (workers ! (n * g))))"
      using py_get_in_range [of "int (n * g)" "map fst (map info workers)"] by (simp del: of_nat_mult)
    then show ?thesis by (simp add: node_server_def)
  qed
  then have "map_res (node_server is_reward_model replica g workers (map info workers)) [0..<nnodes] = Ok (map ?spec [0..<nnodes])"
    by (intro map_res_all_Ok) simp
  moreover have "concat (map ss_workers (map ?spec [0..<nnodes])) = workers"
    using slices_partition [OF assms(1)] by (simp add: comp_def)
  ultimately show ?thesis using assms(1,3) by (auto simp: replica_launch_servers_def)
qed

text \<open>No abort ever removes a request, whatever the number of servers.\<close>

lemma abort_removes_nothing:
  "replica_abort_all (map (\<lambda>_. server_abort_all False) servers) = Ok (0, [], map (\<lambda>_. \<lparr>ab_count = 0, ab_ids = []\<rparr>) servers)"
  "fst (replica_abort_request rid (map (\<lambda>_. server_abort_request rid) servers)) = False"
proof -
  have "map_res id (map (\<lambda>_. server_abort_all False) servers) = Ok (map (\<lambda>_. \<lparr>ab_count = 0, ab_ids = []\<rparr>) servers)"
    by (induction servers) (simp_all add: server_abort_all_def)
  moreover have "sum_list (map ab_count (map (\<lambda>_. \<lparr>ab_count = 0, ab_ids = []\<rparr>) servers)) = 0" "concat (map ab_ids (map (\<lambda>_. \<lparr>ab_count = 0, ab_ids = []\<rparr>) servers)) = []"
    by (induction servers) simp_all
  ultimately show "replica_abort_all (map (\<lambda>_. server_abort_all False) servers) = Ok (0, [], map (\<lambda>_. \<lparr>ab_count = 0, ab_ids = []\<rparr>) servers)"
    by (simp add: replica_abort_all_def)
  show "fst (replica_abort_request rid (map (\<lambda>_. server_abort_request rid) servers)) = False"
    by (simp add: replica_abort_request_def server_abort_request_def comp_def)
qed

section \<open>Weights go where they are awaited\<close>

lemma digits_of_nat_str: "c \<in> set (nat_str n) \<Longrightarrow> c \<noteq> CHR ''-'' \<and> c \<noteq> CHR ''.''"
proof (induction n rule: nat_str.induct)
  case (1 n)
  have d: "(char_of (48 + k) :: char) \<noteq> CHR ''-'' \<and> (char_of (48 + k) :: char) \<noteq> CHR ''.''" if "k < 10" for k :: nat
  proof -
    have "k \<in> {0, 1, 2, 3, 4, 5, 6, 7, 8, 9}" using that by auto
    then show ?thesis by (elim insertE) (simp_all add: char_of_def)
  qed
  show ?case
  proof (cases "n < 10")
    case True
    then show ?thesis using 1(2) d [of n] by (simp add: nat_str.simps [of n])
  next
    case False
    then show ?thesis using 1 d [of "n mod 10"] by (auto simp: nat_str.simps [of n])
  qed
qed

lemma split_at_mark: "x \<notin> set a \<Longrightarrow> x \<notin> set b \<Longrightarrow> a @ x # c = b @ x # d \<Longrightarrow> a = b \<and> c = d"
proof (induction a arbitrary: b)
  case Nil
  then show ?case by (cases b) auto
next
  case (Cons y a)
  then show ?case by (cases b) auto
qed

lemma weight_address_inject: "weight_address (replica_driver_id r) k = weight_address (replica_driver_id r') k' \<longleftrightarrow> r = r' \<and> k = k'"
proof
  assume "weight_address (replica_driver_id r) k = weight_address (replica_driver_id r') k'"
  then have "nat_str r @ CHR ''-'' # (nat_str k @ ''.sock'') = nat_str r' @ CHR ''-'' # (nat_str k' @ ''.sock'')"
    by (simp add: weight_address_def replica_driver_id_def)
  then have "nat_str r = nat_str r' \<and> nat_str k @ ''.sock'' = nat_str k' @ ''.sock''"
    by (intro split_at_mark) (auto dest: digits_of_nat_str)
  then show "r = r' \<and> k = k'" by simp
qed simp

lemma engine_driver_id:
  assumes "server_engine_config load_hf free_port fa path fused sv = Ok vc"
  shows "driver_id (driver vc) = Some (replica_driver_id (rs_replica sv)) \<and> 0 < ro_pipeline (rs_config sv) \<and> world_size (vexact_config.parallel vc) = ro_pipeline (rs_config sv)"
  using assms
  by (auto simp: server_engine_config_def Let_def vexact_post_init_def generate_addresses_def parallel_post_init_def split: if_splits option.splits)

text \<open>
  An adapter of a replica without tensor or data parallelism sends to the worker of its own rank, which the replica's
  engine has; different adapters use different addresses, and only the first one of a replica asks for the weights.
\<close>

lemma adapter_meets_its_worker:
  assumes "adapter_init rank lws 1 1 pp mesh dps dpr ipc = Ok a" "server_engine_config load_hf free_port fa path fused sv = Ok vc"
    and "rs_replica sv = ad_replica a" "ro_pipeline (rs_config sv) = int pp"
  shows "SendWeights (worker_zmq_handle vc (ad_rank a)) (\<not> ipc) \<in> set (adapter_update_weights a steps) \<and> ad_rank a < nat (world_size (vexact_config.parallel vc)) \<and>
    rank = ad_replica a * pp + ad_rank a"
proof -
  have "0 < pp" "ad_replica a = rank div pp" "ad_rank a = rank mod pp" "ad_zmq a = weight_address (replica_driver_id (ad_replica a)) (ad_rank a)" "ad_shm a = (\<not> ipc)"
    using assms(1) by (auto simp: adapter_init_def Let_def split: if_splits)
  then show ?thesis
    using engine_driver_id [OF assms(2)] assms(3,4) by (simp add: adapter_update_weights_def worker_zmq_handle_def)
qed

lemma adapters_do_not_mix:
  assumes "adapter_init rank lws tp dp pp mesh dps dpr ipc = Ok a" "adapter_init rank' lws tp dp pp mesh dps dpr' ipc' = Ok a'"
  shows "ad_zmq a = ad_zmq a' \<longleftrightarrow> rank = rank'"
proof -
  let ?w = "tp * dp * pp"
  have "ad_zmq a = weight_address (replica_driver_id (rank div ?w)) (rank mod ?w)" "ad_zmq a' = weight_address (replica_driver_id (rank' div ?w)) (rank' mod ?w)"
    using assms by (auto simp: adapter_init_def Let_def split: if_splits)
  moreover have "rank = rank'" if "rank div ?w = rank' div ?w" "rank mod ?w = rank' mod ?w"
    using that by (metis div_mult_mod_eq)
  ultimately show ?thesis by (auto simp: weight_address_inject)
qed

text \<open>
  With tensor or data parallelism the replica has more adapters than its engine has workers: the last one sends to an
  address that no worker reads.
\<close>

lemma surplus_adapters_are_not_read:
  assumes "1 < tp * dp" "0 < pp" "0 < lws"
    and "server_engine_config load_hf free_port fa path fused sv = Ok vc" "rs_replica sv = 0" "ro_pipeline (rs_config sv) = int pp"
  shows "\<exists>a. adapter_init (tp * dp * pp - 1) lws tp dp pp (tp * dp * pp) 1 0 True = Ok a \<and> (\<forall>k<nat (world_size (vexact_config.parallel vc)). worker_zmq_handle vc k \<noteq> ad_zmq a)"
proof -
  let ?w = "tp * dp * pp"
  have w: "pp < ?w" using assms(1,2) by simp
  then have "?w - 1 < ?w" by linarith
  then have r: "(?w - 1) div ?w = 0" "(?w - 1) mod ?w = ?w - 1" by (rule div_less, rule mod_less)
  have pos: "0 < tp" "0 < dp" using assms(1) by (auto intro: gr0I)
  have "adapter_init (?w - 1) lws tp dp pp ?w 1 0 True = Ok \<lparr>ad_replica = 0, ad_rank = ?w - 1, ad_node = (?w - 1) div lws,
      ad_zmq = weight_address (replica_driver_id 0) (?w - 1), ad_shm = False\<rparr>"
    unfolding adapter_init_def Let_def r using w assms(3) pos by simp
  moreover have "worker_zmq_handle vc k \<noteq> weight_address (replica_driver_id 0) (?w - 1)" if "k < nat (world_size (vexact_config.parallel vc))" for k
  proof -
    have "k < pp" using engine_driver_id [OF assms(4)] assms(6) that by simp
    with w have "k \<noteq> ?w - 1" by linarith
    then show ?thesis using engine_driver_id [OF assms(4)] assms(5) by (simp add: worker_zmq_handle_def weight_address_inject)
  qed
  ultimately show ?thesis by auto
qed

section \<open>Waking up\<close>

text \<open>The engine's call on the workers: what failed is an exception, what blocks waits.\<close>

definition engine_call :: "((string + 'x) \<times> 'n) option \<Rightarrow> 'n res" where
  "engine_call out = (case out of None \<Rightarrow> Hang | Some (Inl _, _) \<Rightarrow> Raise RuntimeError | Some (Inr _, net) \<Rightarrow> Ok net)"

text \<open>Of several tags only the first reaches the workers, although sleeping released everything.\<close>

lemma only_first_tag_wakes:
  assumes "faithful_codec c" "length addrs = length net" "\<forall>s\<in>set net. idle_server s \<and> saver_instance (srv_target s) \<noteq> None"
    and "enc_response c (ok_response ()) \<noteq> None" "rs_mode sv \<noteq> STANDALONE" "rs_node sv = 0" "ad_rank a = 0"
  shows "adapter_resume (server_wake_up (\<lambda>t n. engine_call (client_wake_up (served c (worker_target bad rv) allowed_methods) c addrs t n)) sv) True a (t # ts) net =
    Ok (map (on_saver (resumed (Some t))) net)"
proof -
  have "client_wake_up (served c (worker_target bad rv) allowed_methods) c addrs (Some t) net =
      Some (Inr (replicate (length net) (Some ())), map (on_saver (resumed (Some t))) net)"
    unfolding client_wake_up_def using assms(3)
    by (intro execute_everywhere [OF assms(1,2) _ _ _ assms(4)]) (simp_all add: worker_runs allowed_methods_def)
  then show ?thesis using assms(5-7) by (simp add: adapter_resume_def server_wake_up_def engine_call_def)
qed

end
