(* ===== verification/Answer_Text.thy ===== *)
theory Answer_Text
  imports Py_Strings Complex_Main "HOL-Library.While_Combinator"
begin

text \<open>
  The text of the answer checker in \<open>src/examples/math_reward_model/math_utils.py\<close>: strings of Unicode code points, regular
  expressions with the matching order of Python's \<open>re\<close>, and the normal forms of answers. The character tables of
  Unicode, \<open>float\<close> and the LaTeX converter are parameters.
\<close>

section \<open>Code points\<close>

type_synonym ustr = "nat list"

definition uni :: "string \<Rightarrow> ustr" where
  "uni s = map of_char s"

text \<open>A text that begins with a backslash.\<close>

definition tex :: "string \<Rightarrow> ustr" where
  "tex s = 92 # uni s"

text \<open>What \<open>float\<close> returns where it does not raise; what the tables of Unicode say.\<close>

datatype float_value = Finite rat | Infinite | NotANumber

record unicode =
  uc_digit :: "nat \<Rightarrow> bool"
  uc_alpha :: "nat \<Rightarrow> bool"
  uc_space :: "nat \<Rightarrow> bool"
  uc_lower :: "ustr \<Rightarrow> ustr"
  py_float :: "ustr \<Rightarrow> float_value option"
  latex_to_text :: "ustr \<Rightarrow> ustr option"

abbreviation ustrip :: "unicode \<Rightarrow> ustr \<Rightarrow> ustr" where
  "ustrip U \<equiv> strip_with (uc_space U)"

section \<open>Regular expressions\<close>

text \<open>
  \<open>ends r s\<close> are the rests of \<open>s\<close> after a match of \<open>r\<close> at its start, in the order in which a backtracking matcher finds
  them; \<open>Eos\<close> is \<open>$\<close>, which also matches before a last line feed.
\<close>

datatype rx = Sym "nat \<Rightarrow> bool" | Eos | Cat rx rx | Alt rx rx | Star rx | Opt rx | Lazy rx

fun ends :: "rx \<Rightarrow> ustr \<Rightarrow> ustr list" where
  "ends (Sym p) s = (case s of c # cs \<Rightarrow> if p c then [cs] else [] | [] \<Rightarrow> [])"
| "ends Eos s = (if s = [] \<or> s = [10] then [s] else [])"
| "ends (Cat r1 r2) s = concat (map (ends r2) (ends r1 s))"
| "ends (Alt r1 r2) s = ends r1 s @ ends r2 s"
| "ends (Star r) s = concat (map (\<lambda>t. if length t < length s then ends (Star r) t else []) (ends r s)) @ [s]"
| "ends (Opt r) s = ends r s @ [s]"
| "ends (Lazy r) s = s # concat (map (\<lambda>t. if length t < length s then ends (Lazy r) t else []) (ends r s))"

declare ends.simps(5,7) [simp del]

definition sym :: "nat \<Rightarrow> rx" where
  "sym c = Sym (\<lambda>x. x = c)"

fun chars :: "ustr \<Rightarrow> rx" where
  "chars [] = Star (Sym (\<lambda>_. False))"
| "chars [c] = sym c"
| "chars (c # d # cs) = Cat (sym c) (chars (d # cs))"

definition many :: "rx \<Rightarrow> rx" where
  "many r = Cat r (Star r)"

definition any_char :: rx where
  "any_char = Sym (\<lambda>c. c \<noteq> 10)"

definition ascii_digit :: "nat \<Rightarrow> bool" where
  "ascii_digit c \<longleftrightarrow> 48 \<le> c \<and> c \<le> 57"

text \<open>\<open>re.search\<close> as a condition, and \<open>re.sub\<close> for expressions that match no empty text; \<open>f\<close> rewrites what matched.\<close>

fun rx_search :: "rx \<Rightarrow> ustr \<Rightarrow> bool" where
  "rx_search r [] = (ends r [] \<noteq> [])"
| "rx_search r (c # cs) = (ends r (c # cs) \<noteq> [] \<or> rx_search r cs)"

function rx_sub :: "rx \<Rightarrow> (ustr \<Rightarrow> ustr) \<Rightarrow> ustr \<Rightarrow> ustr" where
  "rx_sub r f s =
     (case s of [] \<Rightarrow> []
      | c # cs \<Rightarrow> (case ends r s of
          t # _ \<Rightarrow> if length t < length s then f (take (length s - length t) s) @ rx_sub r f t else c # rx_sub r f cs
        | [] \<Rightarrow> c # rx_sub r f cs))"
  by pat_completeness auto
termination by (relation "measure (\<lambda>(r, f, s). length s)") auto

declare rx_sub.simps [simp del]

section \<open>Numbers\<close>

definition py_round :: "rat \<Rightarrow> int" where
  "py_round x = (let n = \<lfloor>x + 1 / 2\<rfloor> in if x + 1 / 2 = of_int n \<and> odd n then n - 1 else n)"

definition py_trunc :: "rat \<Rightarrow> int" where
  "py_trunc x = (if 0 \<le> x then \<lfloor>x\<rfloor> else \<lceil>x\<rceil>)"

definition int_str :: "int \<Rightarrow> ustr" where
  "int_str n = (if n < 0 then uni ''-'' else []) @ uni (nat_str (nat (abs n)))"

definition is_float :: "unicode \<Rightarrow> ustr \<Rightarrow> bool" where
  "is_float U s \<longleftrightarrow> py_float U s \<noteq> None"

text \<open>The constant is the double nearest to \<open>1e-7\<close>; a finite double minus its rounding is exact.\<close>

definition is_int :: "float_value \<Rightarrow> bool" where
  "is_int x \<longleftrightarrow> (case x of Finite q \<Rightarrow> \<bar>q - of_int (py_round q)\<bar> \<le> 7555786372591432 / 2 ^ 76 | _ \<Rightarrow> False)"

section \<open>Thousands separators\<close>

definition commas_rx :: "unicode \<Rightarrow> rx" where
  "commas_rx U = (let d = Sym (uc_digit U) in Cat d (Cat (sym 44) (Cat d (Cat d (Cat d (Alt Eos (Sym (\<lambda>c. \<not> uc_digit U c))))))))"

definition strip_commas_step :: "unicode \<Rightarrow> ustr \<Rightarrow> ustr" where
  "strip_commas_step U = rx_sub (commas_rx U) (\<lambda>m. take 1 m @ drop 2 m)"

text \<open>The loop runs until a pass changes nothing.\<close>

definition strip_properly_formatted_commas :: "unicode \<Rightarrow> ustr \<Rightarrow> ustr option" where
  "strip_properly_formatted_commas U = while_option (\<lambda>s. strip_commas_step U s \<noteq> s) (strip_commas_step U)"

text \<open>\<open>^\\text\{(?P<text>.+?)\}$\<close>: the text of the group, if the expression matches.\<close>

definition text_group :: "ustr \<Rightarrow> ustr option" where
  "text_group s =
     (if prefix (tex ''text{'') s then
        let body = drop 6 s
        in map_option (\<lambda>t. take (length body - length t) body) (find (\<lambda>t. ends (Cat (sym 125) Eos) t \<noteq> []) (ends (Cat any_char (Lazy any_char)) body))
      else None)"

section \<open>The normal form of Hendrycks' checker\<close>

text \<open>
  The inner functions of \<open>_strip_string\<close>. An index or an assertion that fails leaves \<open>_strip_string\<close> as an exception,
  but for the assertion of \<open>_fix_fracs\<close>, which returns the string it was given.
\<close>

definition fix_frac_part :: "ustr \<Rightarrow> ustr option res" where
  "fix_frac_part part =
     (case part of
        [] \<Rightarrow> Raise IndexError
      | a # rest \<Rightarrow> if a = 123 then Ok (Some part)
          else (case rest of [] \<Rightarrow> Ok None
            | b # post \<Rightarrow> Ok (Some (if b \<noteq> 123 then [123, a, 125, 123, b, 125] @ post else [123, a, 125, b] @ post))))"

definition fix_fracs :: "ustr \<Rightarrow> ustr res" where
  "fix_fracs s =
     (let parts = split_sub (tex ''frac'') s
      in rbind (for_res (\<lambda>p acc. case acc of None \<Rightarrow> Ok None
             | Some r \<Rightarrow> rbind (fix_frac_part p) (\<lambda>q. Ok (map_option (\<lambda>q. r @ tex ''frac'' @ q) q))) (tl parts) (Some (hd parts))) (\<lambda>r.
         Ok (case r of None \<Rightarrow> s | Some r \<Rightarrow> r)))"

text \<open>The pieces that are the decimal form of an integer; \<open>int\<close> refuses more than 4300 digits.\<close>

definition plain_int :: "ustr \<Rightarrow> bool" where
  "plain_int s =
     (let digits = (case s of c # cs \<Rightarrow> if c = 45 then cs else s | [] \<Rightarrow> [])
      in digits \<noteq> [] \<and> list_all ascii_digit digits \<and> length digits \<le> 4300 \<and> (hd digits \<noteq> 48 \<or> s = [48]))"

definition fix_a_slash_b :: "ustr \<Rightarrow> ustr" where
  "fix_a_slash_b s =
     (case split_sub (uni ''/'') s of
        [a, b] \<Rightarrow> if plain_int a \<and> plain_int b then tex ''frac{'' @ a @ uni ''}{'' @ b @ uni ''}'' else s
      | _ \<Rightarrow> s)"

definition remove_right_units :: "ustr \<Rightarrow> ustr res" where
  "remove_right_units s =
     (if has_sub (tex ''text{ '') s then
        (case split_sub (tex ''text{ '') s of [a, b] \<Rightarrow> Ok a | _ \<Rightarrow> Raise AssertionError)
      else Ok s)"

definition fix_sqrt_part :: "ustr \<Rightarrow> ustr res" where
  "fix_sqrt_part part =
     (case part of [] \<Rightarrow> Raise IndexError
      | a # rest \<Rightarrow> Ok (if a \<noteq> 123 then tex ''sqrt{'' @ [a, 125] @ rest else tex ''sqrt'' @ part))"

definition fix_sqrt :: "ustr \<Rightarrow> ustr res" where
  "fix_sqrt s =
     (if \<not> has_sub (tex ''sqrt'') s then Ok s
      else let parts = split_sub (tex ''sqrt'') s in rbind (map_res fix_sqrt_part (tl parts)) (\<lambda>ps. Ok (hd parts @ concat ps)))"

definition drop_left_side :: "ustr \<Rightarrow> ustr" where
  "drop_left_side s = (case split_sub (uni ''='') s of [a, b] \<Rightarrow> if length a \<le> 2 then b else s | _ \<Rightarrow> s)"

definition replace_all :: "(ustr \<times> ustr) list \<Rightarrow> ustr \<Rightarrow> ustr" where
  "replace_all = fold (\<lambda>(a, b). replace_sub a b)"

definition strip_string :: "ustr \<Rightarrow> ustr res" where
  "strip_string s =
     rbind (remove_right_units (replace_all [([10], []), (tex ''!'', []), ([92, 92], [92]), (uni ''tfrac'', uni ''frac''), (uni ''dfrac'', uni ''frac''), (tex ''left'', []),
         (tex ''right'', []), (uni ''^{'' @ tex ''circ}'', []), (uni ''^'' @ tex ''circ'', []), (tex ''$'', [])] s)) (\<lambda>s.
     let s = replace_all [(tex ''%'', []), (tex ''%'', []), (uni '' .'', uni '' 0.''), (uni ''{.'', uni ''{0.'')] s
     in if s = [] then Ok s
        else rbind (fix_sqrt (drop_left_side (if hd s = 46 then 48 # s else s))) (\<lambda>s.
             rbind (fix_fracs (replace_all [(uni '' '', [])] s)) (\<lambda>s.
             Ok (fix_a_slash_b (if s = uni ''0.5'' then tex ''frac{1}{2}'' else s)))))"

definition mathd_normalize_answer :: "unicode \<Rightarrow> ustr option \<Rightarrow> ustr option" where
  "mathd_normalize_answer U answer =
     (case answer of None \<Rightarrow> None
      | Some a \<Rightarrow> let a = ustrip U a; a = (case text_group a of None \<Rightarrow> a | Some t \<Rightarrow> ustrip U t)
          in (case strip_string a of Ok s \<Rightarrow> Some s | _ \<Rightarrow> Some a))"

section \<open>The normal form for sympy\<close>

definition str_is_int :: "unicode \<Rightarrow> ustr \<Rightarrow> bool" where
  "str_is_int U s =
     (case strip_properly_formatted_commas U s of None \<Rightarrow> False
      | Some t \<Rightarrow> (case py_float U t of None \<Rightarrow> False | Some x \<Rightarrow> is_int x))"

definition str_to_int :: "unicode \<Rightarrow> ustr \<Rightarrow> int res" where
  "str_to_int U s =
     (case py_float U (replace_sub (uni '','') [] s) of
        None \<Rightarrow> Raise ValueError
      | Some (Finite q) \<Rightarrow> Ok (py_trunc q) | Some Infinite \<Rightarrow> Raise OverflowError | Some NotANumber \<Rightarrow> Raise ValueError)"

definition is_frac :: "ustr \<Rightarrow> bool" where
  "is_frac s = (let d = Sym ascii_digit in
     ends (Cat (Opt (sym 45)) (Cat (many d) (Cat (Opt any_char) (Cat (sym 47) (Cat (Star (sym 48)) (Cat (Sym (\<lambda>c. 49 \<le> c \<and> c \<le> 57)) (Cat (Star d) (Cat (Opt any_char) Eos)))))))) s \<noteq> [])"

definition inject_implicit_mixed_number :: "ustr \<Rightarrow> ustr" where
  "inject_implicit_mixed_number =
     rx_sub (Cat (Sym ascii_digit) (Cat (many (sym 32)) (Sym ascii_digit))) (\<lambda>m. [hd m] @ uni ''+'' @ [last m])"

definition math_units :: "string list" where
  "math_units = [''degree'', ''cm'', ''centimeter'', ''meter'', ''mile'', ''second'', ''minute'', ''hour'', ''day'', ''week'', ''month'', ''year'', ''foot'', ''feet'', ''inch'', ''yard'']"

definition remove_unit :: "string \<Rightarrow> ustr \<Rightarrow> ustr" where
  "remove_unit x = rx_sub (Cat (chars (uni x)) (Cat (Opt (chars (uni ''es''))) (Cat (Opt (sym 115)) (Cat (Star (sym 32)) (Opt (Cat (sym 94) (many (Sym ascii_digit)))))))) (\<lambda>_. [])"

definition parse_latex :: "unicode \<Rightarrow> ustr \<Rightarrow> ustr option" where
  "parse_latex U s =
     map_option (\<lambda>t. ustrip U (replace_sub [215] (uni ''*'') (replace_sub [183] (uni ''*'') (replace_sub [8746] (uni ''U'')
         (replace_sub [8734] (uni ''inf'') (replace_sub [960] (uni ''pi'') (replace_sub [8730] (uni ''sqrt'') t)))))))
       (latex_to_text U (replace_all [(tex ''tfrac'', tex ''frac''), (tex ''dfrac'', tex ''frac''), (tex ''frac'', uni '' '' @ tex ''frac'')] s))"

text \<open>The steps of \<open>_normalize\<close> up to the LaTeX converter, and from there on.\<close>

definition normalize_head :: "ustr \<Rightarrow> ustr" where
  "normalize_head s =
     (let s = (case text_group s of None \<Rightarrow> s | Some t \<Rightarrow> t);
          s = replace_all [(tex ''%'', uni ''%''), (tex ''$'', uni ''$''), (uni ''$'', []), (uni ''%'', []), (uni '' or '', uni '' , ''), (uni '' and '', uni '' , ''),
                (uni ''million'', uni ''*10^6''), (uni ''billion'', uni ''*10^9''), (uni ''trillion'', uni ''*10^12'')] s;
          s = fold remove_unit math_units s;
          s = rx_sub (Cat (sym 94) (Cat (Star (sym 32)) (chars (tex ''circ'')))) (\<lambda>_. []) s;
          s = (if s \<noteq> [] \<and> hd s = 123 \<and> last s = 125 then butlast (tl s) else s)
      in rx_sub (Cat (chars (44 # tex ''!'')) (Star (sym 32))) (\<lambda>_. []) s)"

definition normalize_number :: "unicode \<Rightarrow> ustr \<Rightarrow> ustr" where
  "normalize_number U s =
     (case py_float U s of Some (Finite q) \<Rightarrow> if is_int (Finite q) then int_str (py_round q) else s | _ \<Rightarrow> s)"

definition normalize_tail :: "unicode \<Rightarrow> ustr \<Rightarrow> ustr" where
  "normalize_tail U s =
     uc_lower U (replace_all [(uni '' '', []), (uni ''{'', []), (uni ''}'', [])]
       (inject_implicit_mixed_number (rx_sub (Cat (sym 45) (Star (sym 32))) (\<lambda>_. uni ''-'') s)))"

definition normalize_answer :: "unicode \<Rightarrow> ustr option \<Rightarrow> ustr option res" where
  "normalize_answer U answer =
     (case answer of None \<Rightarrow> Ok None
      | Some s \<Rightarrow>
          let s = normalize_number U (normalize_head s);
              s = (if has_sub [92] s then (case parse_latex U s of Some t \<Rightarrow> t | None \<Rightarrow> s) else s);
              s = normalize_tail U s
          in if str_is_int U s then rbind (str_to_int U s) (\<lambda>n. Ok (Some (int_str n))) else Ok (Some s))"

end
