(* ===== verification/Answer_Checker.thy ===== *)
theory Answer_Checker
  imports Answer_Text
begin

text \<open>
  Grading of answers, \<open>src/examples/math_reward_model/math_utils.py\<close>: tuples, boxed answers, the comparison of the two
  normal forms, and sympy as a parameter.

  The lemmas show that removing thousands separators ends, and what it leaves; that a boxed answer is found; and that
  an answer which repeats the ground truth is accepted.
\<close>

section \<open>Comparison by sympy\<close>

text \<open>
  Parsing may raise; of an expression the checker reads its integer arguments and, after simplification, whether it is
  zero.
\<close>

record 'e sympy =
  sy_parse :: "ustr \<Rightarrow> 'e res"
  sy_integers :: "'e \<Rightarrow> int list"
  sy_is_zero :: "'e \<Rightarrow> bool res"

definition count_unknown_letters_in_expr :: "unicode \<Rightarrow> ustr \<Rightarrow> nat" where
  "count_unknown_letters_in_expr U s = length (remdups (filter (uc_alpha U) (replace_all [(uni ''sqrt'', []), (uni ''frac'', [])] s)))"

definition should_allow_eval :: "unicode \<Rightarrow> ustr \<Rightarrow> bool" where
  "should_allow_eval U s \<longleftrightarrow>
     count_unknown_letters_in_expr U s \<le> 2 \<and> \<not> has_sub (uni ''^{'') s \<and> \<not> has_sub (uni ''^('') s \<and>
     \<not> rx_search (Cat (sym 94) (Cat (many (Sym ascii_digit)) (sym 94))) s \<and>
     \<not> rx_search (Cat (sym 94) (Cat (Sym ascii_digit) (many (Sym ascii_digit)))) s"

definition are_equal_under_sympy :: "unicode \<Rightarrow> 'e sympy \<Rightarrow> ustr \<Rightarrow> ustr \<Rightarrow> bool res" where
  "are_equal_under_sympy U S truth answer =
     (let e = uni ''('' @ truth @ uni '')-('' @ answer @ uni '')''
      in if \<not> should_allow_eval U e then Ok False
         else case rbind (sy_parse S (replace_sub (uni ''^'') (uni ''**'') e)) (\<lambda>d.
                if list_ex (\<lambda>p. 100 < length (int_str p)) (sy_integers S d) then Ok False else sy_is_zero S d) of
             Raise _ \<Rightarrow> Ok False
           | r \<Rightarrow> r)"

section \<open>Tuples\<close>

definition tuple_chars :: ustr where
  "tuple_chars = uni ''()[]''"

definition split_tuple :: "unicode \<Rightarrow> ustr \<Rightarrow> ustr list res" where
  "split_tuple U s =
     (case strip_properly_formatted_commas U s of None \<Rightarrow> Hang
      | Some s \<Rightarrow> Ok (if s = [] then []
          else if 2 < length s \<and> hd s \<in> set tuple_chars \<and> last s \<in> set tuple_chars \<and> (\<forall>c\<in>set tuple_chars. c \<notin> set (butlast (tl s)))
            then map (ustrip U) (split_sub (uni '','') (butlast (tl s)))
          else [s]))"

section \<open>Boxed answers\<close>

text \<open>The loop over braces: how many characters up to the brace that closes the first one, if any does.\<close>

fun close_brace :: "int \<Rightarrow> ustr \<Rightarrow> nat option" where
  "close_brace n [] = None"
| "close_brace n (c # cs) =
     (let n = (if c = 123 then n + 1 else n)
      in if c = 125 then (if n - 1 = 0 then Some 1 else map_option Suc (close_brace (n - 1) cs)) else map_option Suc (close_brace n cs))"

definition last_boxed_only_string :: "ustr \<Rightarrow> ustr option" where
  "last_boxed_only_string s =
     (case (case rfind_sub (tex ''boxed'') s of Some i \<Rightarrow> Some i | None \<Rightarrow> rfind_sub (tex ''fbox'') s) of
        None \<Rightarrow> None
      | Some i \<Rightarrow> map_option (\<lambda>n. take n (drop i s)) (close_brace 0 (drop i s)))"

definition remove_boxed :: "ustr option \<Rightarrow> ustr option" where
  "remove_boxed s =
     (case s of None \<Rightarrow> None
      | Some s \<Rightarrow> if prefix (tex ''boxed{'') s \<and> last s = 125 then Some (butlast (drop 7 s)) else None)"

definition extract_boxed_answer :: "ustr \<Rightarrow> ustr option" where
  "extract_boxed_answer s = remove_boxed (last_boxed_only_string s)"

definition extract_answer :: "ustr \<Rightarrow> ustr option" where
  "extract_answer s = (if has_sub (tex ''boxed'') s then extract_boxed_answer s else None)"

section \<open>Grading\<close>

text \<open>Elements are compared in order until one differs.\<close>

definition same_element :: "unicode \<Rightarrow> 'e sympy \<Rightarrow> ustr \<Rightarrow> ustr \<Rightarrow> bool res" where
  "same_element U S t g =
     (if is_frac t \<and> is_frac g then Ok (t = g)
      else if str_is_int U t \<noteq> str_is_int U g then Ok False
      else are_equal_under_sympy U S t g)"

fun same_elements :: "unicode \<Rightarrow> 'e sympy \<Rightarrow> (ustr \<times> ustr) list \<Rightarrow> bool res" where
  "same_elements U S [] = Ok True"
| "same_elements U S ((t, g) # ps) = rbind (same_element U S t g) (\<lambda>ok. if ok then same_elements U S ps else Ok False)"

definition grade_answer_sympy :: "unicode \<Rightarrow> 'e sympy \<Rightarrow> ustr option \<Rightarrow> ustr option \<Rightarrow> bool res" where
  "grade_answer_sympy U S given_answer ground_truth =
     rbind (normalize_answer U ground_truth) (\<lambda>truth.
     rbind (normalize_answer U given_answer) (\<lambda>answer.
     case truth of None \<Rightarrow> Ok False | Some t \<Rightarrow>
     if truth = answer then Ok True
     else case answer of None \<Rightarrow> Raise TypeError | Some g \<Rightarrow>
     if g = [] then Ok False
     else rbind (split_tuple U t) (\<lambda>ts. rbind (split_tuple U g) (\<lambda>gs.
       if 1 < length ts \<and> (hd t \<noteq> hd g \<or> last t \<noteq> last g) then Ok False
       else if length ts \<noteq> length gs then Ok False
       else if ts = [] then Raise NameError
       else same_elements U S (zip ts gs)))))"

definition grade_answer_mathd :: "unicode \<Rightarrow> ustr option \<Rightarrow> ustr option \<Rightarrow> bool" where
  "grade_answer_mathd U given_answer ground_truth \<longleftrightarrow> mathd_normalize_answer U ground_truth = mathd_normalize_answer U given_answer"

definition grade_answer_verl :: "unicode \<Rightarrow> 'e sympy \<Rightarrow> ustr \<Rightarrow> ustr option \<Rightarrow> bool res" where
  "grade_answer_verl U S solution ground_truth =
     (if ground_truth = None \<or> ground_truth = Some [] then Ok False
      else let truth = (if has_sub (tex ''boxed'') (the ground_truth) then extract_answer (the ground_truth) else ground_truth)
           in case extract_answer solution of
                None \<Rightarrow> Ok False
              | Some a \<Rightarrow> if grade_answer_mathd U (Some a) truth then Ok True else grade_answer_sympy U S (Some a) truth)"

section \<open>Thousands separators\<close>

lemma step_shape:
  assumes "ends (commas_rx U) s = t # ts"
  obtains d a b c rest where "s = d # 44 # a # b # c # rest" "uc_digit U d" "t = rest \<or> (\<exists>x. rest = x # t \<and> \<not> uc_digit U x)"
proof -
  note [simp] = commas_rx_def Let_def sym_def
  have one: "\<exists>c cs. s = c # cs \<and> P c \<and> q \<in> set (ends r cs)" if "q \<in> set (ends (Cat (Sym P) r) s)" for q P r s
    using that by (auto split: list.splits if_splits)
  have mem: "t \<in> set (ends (commas_rx U) s)" using assms by simp
  from one [OF mem [unfolded commas_rx_def Let_def]] obtain d s1 where 1: "s = d # s1" "uc_digit U d"
    "t \<in> set (ends (Cat (sym 44) (Cat (Sym (uc_digit U)) (Cat (Sym (uc_digit U)) (Cat (Sym (uc_digit U)) (Alt Eos (Sym (\<lambda>c. \<not> uc_digit U c))))))) s1)" by blast
  from one [OF 1(3) [unfolded sym_def]] obtain s2 where 2: "s1 = 44 # s2"
    "t \<in> set (ends (Cat (Sym (uc_digit U)) (Cat (Sym (uc_digit U)) (Cat (Sym (uc_digit U)) (Alt Eos (Sym (\<lambda>c. \<not> uc_digit U c)))))) s2)" by blast
  from one [OF 2(2)] obtain a s3 where 3: "s2 = a # s3" "t \<in> set (ends (Cat (Sym (uc_digit U)) (Cat (Sym (uc_digit U)) (Alt Eos (Sym (\<lambda>c. \<not> uc_digit U c))))) s3)" by blast
  from one [OF 3(2)] obtain b s4 where 4: "s3 = b # s4" "t \<in> set (ends (Cat (Sym (uc_digit U)) (Alt Eos (Sym (\<lambda>c. \<not> uc_digit U c)))) s4)" by blast
  from one [OF 4(2)] obtain c rest where 5: "s4 = c # rest" "t \<in> set (ends (Alt Eos (Sym (\<lambda>c. \<not> uc_digit U c))) rest)" by blast
  have "t = rest \<or> (\<exists>x. rest = x # t \<and> \<not> uc_digit U x)" using 5(2) by (auto split: if_splits list.splits)
  then show thesis using that 1 2(1) 3(1) 4(1) 5(1) by blast
qed

lemma rx_sub_Nil [simp]: "rx_sub r f [] = []"
  by (simp add: rx_sub.simps)

lemma rx_sub_skip: "ends r (c # cs) = [] \<Longrightarrow> rx_sub r f (c # cs) = c # rx_sub r f cs"
  by (subst rx_sub.simps) simp

text \<open>A match is rewritten without its comma, and the pass goes on behind it.\<close>

lemma step_match:
  assumes "ends (commas_rx U) (c # cs) = t # ts"
  obtains d a b e mid where "c # cs = d # 44 # a # b # e # mid @ t" "strip_commas_step U (c # cs) = d # a # b # e # mid @ strip_commas_step U t" "length t < length (c # cs)"
proof -
  obtain d a b e rest where s: "c # cs = d # 44 # a # b # e # rest" and t: "t = rest \<or> (\<exists>x. rest = x # t \<and> \<not> uc_digit U x)"
    using step_shape [OF assms] by metis
  then obtain mid where mid: "rest = mid @ t" by (metis append_Cons append_Nil)
  then have lt: "length t < length (c # cs)" using s by simp
  have m: "take (length (c # cs) - length t) (c # cs) = d # 44 # a # b # e # mid"
    unfolding s mid by (simp add: numeral_eq_Suc)
  have "strip_commas_step U (c # cs) = (take 1 (d # 44 # a # b # e # mid) @ drop 2 (d # 44 # a # b # e # mid)) @ strip_commas_step U t"
    unfolding strip_commas_step_def rx_sub.simps [of _ _ "c # cs"] list.case assms if_P [OF lt] m ..
  then show thesis using that [of d a b e mid] s mid lt by simp
qed

abbreviation commas :: "ustr \<Rightarrow> nat" where
  "commas s \<equiv> count_list s 44"

lemma step_laws:
  "subseq (strip_commas_step U s) s \<and> filter (\<lambda>c. c \<noteq> 44) (strip_commas_step U s) = filter (\<lambda>c. c \<noteq> 44) s \<and>
    (if rx_search (commas_rx U) s then commas (strip_commas_step U s) < commas s else strip_commas_step U s = s)"
proof (induction "length s" arbitrary: s rule: less_induct)
  case less
  show ?case
  proof (cases s)
    case Nil
    have "ends (commas_rx U) [] = []" by (simp add: commas_rx_def Let_def)
    then show ?thesis using Nil by (simp add: strip_commas_step_def)
  next
    case (Cons c cs)
    show ?thesis
    proof (cases "ends (commas_rx U) (c # cs)")
      case none: Nil
      then have "strip_commas_step U s = c # strip_commas_step U cs" unfolding strip_commas_step_def Cons by (rule rx_sub_skip)
      moreover have "rx_search (commas_rx U) s = rx_search (commas_rx U) cs" using none Cons by simp
      ultimately show ?thesis using less [of cs] Cons by auto
    next
      case (Cons t ts)
      from step_match [OF this] obtain d a b e mid where s: "c # cs = d # 44 # a # b # e # mid @ t"
        and r: "strip_commas_step U (c # cs) = d # a # b # e # mid @ strip_commas_step U t" and lt: "length t < length (c # cs)" .
      note IH = less [of t, unfolded \<open>s = c # cs\<close>, OF lt]
      have "rx_search (commas_rx U) (c # cs)" using Cons by simp
      moreover have "subseq (strip_commas_step U (c # cs)) (c # cs)" unfolding r unfolding s using IH by (auto intro: list_emb_append_mono)
      moreover have "filter (\<lambda>c. c \<noteq> 44) (strip_commas_step U (c # cs)) = filter (\<lambda>c. c \<noteq> 44) (c # cs)" unfolding r unfolding s using IH by auto
      moreover have "commas (strip_commas_step U t) \<le> commas t" using IH by (auto split: if_splits)
      then have "commas (strip_commas_step U (c # cs)) < commas (c # cs)" unfolding r unfolding s by auto
      ultimately show ?thesis using \<open>s = c # cs\<close> by simp
    qed
  qed
qed

lemma step_stops: "strip_commas_step U s = s \<longleftrightarrow> \<not> rx_search (commas_rx U) s"
  using step_laws [of U s] by (auto split: if_splits)

lemma commas_loop:
  "\<exists>n\<le>commas s. let t = (strip_commas_step U ^^ n) s
    in strip_properly_formatted_commas U s = Some t \<and> \<not> rx_search (commas_rx U) t \<and> subseq t s \<and> filter (\<lambda>c. c \<noteq> 44) t = filter (\<lambda>c. c \<noteq> 44) s"
proof (induction "commas s" arbitrary: s rule: less_induct)
  case less
  note unfold = while_option_unfold [of "\<lambda>s. strip_commas_step U s \<noteq> s" "strip_commas_step U" s, folded strip_properly_formatted_commas_def [unfolded fun_eq_iff, rule_format]]
  show ?case
  proof (cases "rx_search (commas_rx U) s")
    case False
    then have "strip_properly_formatted_commas U s = Some s" using unfold step_stops [of U s] by simp
    then show ?thesis using False by (intro exI [of _ 0]) simp
  next
    case True
    let ?s = "strip_commas_step U s"
    have lt: "commas ?s < commas s" using step_laws [of U s] True by simp
    from less [OF this] obtain n where n: "n \<le> commas ?s" and
      t: "let t = (strip_commas_step U ^^ n) ?s in strip_properly_formatted_commas U ?s = Some t \<and> \<not> rx_search (commas_rx U) t \<and> subseq t ?s \<and>
        filter (\<lambda>c. c \<noteq> 44) t = filter (\<lambda>c. c \<noteq> 44) ?s" by blast
    have "strip_properly_formatted_commas U s = strip_properly_formatted_commas U ?s" using unfold step_stops [of U s] True by simp
    moreover have "(strip_commas_step U ^^ n) ?s = (strip_commas_step U ^^ Suc n) s" by (simp add: funpow_swap1)
    ultimately show ?thesis
      using t step_laws [of U s] n lt subseq_order.order_trans by (intro exI [of _ "Suc n"]) (auto simp: Let_def)
  qed
qed

text \<open>
  C16. Removing thousands separators ends. For every text and every table of digits, the loop ends after at most as many
  passes as the text has commas; what it returns is the text without some of its commas, and in it no comma stands
  between a digit and exactly three digits.
\<close>

theorem stripping_commas_ends:
  "\<exists>t. strip_properly_formatted_commas U s = Some t \<and> (\<exists>n\<le>count_list s 44. t = (strip_commas_step U ^^ n) s) \<and>
    \<not> rx_search (commas_rx U) t \<and> subseq t s \<and> filter (\<lambda>c. c \<noteq> 44) t = filter (\<lambda>c. c \<noteq> 44) s"
  using commas_loop [of s U] unfolding Let_def by metis

definition ascii :: unicode where
  "ascii = \<lparr>uc_digit = ascii_digit, uc_alpha = (\<lambda>c. 65 \<le> c \<and> c \<le> 90 \<or> 97 \<le> c \<and> c \<le> 122), uc_space = (\<lambda>c. c = 32),
     uc_lower = map (\<lambda>c. if 65 \<le> c \<and> c \<le> 90 then c + 32 else c), py_float = (\<lambda>_. None), latex_to_text = (\<lambda>_. None)\<rparr>"

lemma stripping_commas_ends_witness:
  "\<exists>t. strip_properly_formatted_commas ascii (uni ''1,234,567'') = Some t \<and> filter (\<lambda>c. c \<noteq> 44) t = uni ''1234567''"
  using stripping_commas_ends [of ascii "uni ''1,234,567''"] by (auto simp: uni_def)

text \<open>
  A match takes the character behind the three digits with it, so that every other separator is left for the next pass,
  where it may be followed by six digits: numbers with three or more separators keep some.
\<close>

lemma four_groups_keep_a_comma:
  "strip_commas_step ascii (uni ''1,234,567,890'') = uni ''1234,567890''" "\<not> rx_search (commas_rx ascii) (uni ''1234,567890'')"
  by code_simp+

lemma four_groups_end: "strip_properly_formatted_commas ascii (uni ''1,234,567,890'') = Some (uni ''1234,567890'')"
proof -
  have "strip_commas_step ascii (uni ''1234,567890'') = uni ''1234,567890''" using four_groups_keep_a_comma(2) step_stops by blast
  moreover have "uni ''1,234,567,890'' \<noteq> uni ''1234,567890''" by (simp add: uni_def)
  ultimately show ?thesis unfolding strip_properly_formatted_commas_def
    by (subst while_option_unfold) (simp add: four_groups_keep_a_comma(1), subst while_option_unfold, simp)
qed

section \<open>A boxed answer is found\<close>

text \<open>Braces are balanced: never more closed than opened, and all closed at the end.\<close>

fun balanced :: "int \<Rightarrow> ustr \<Rightarrow> bool" where
  "balanced n [] = (n = 0)"
| "balanced n (c # cs) = (if c = 123 then balanced (n + 1) cs else if c = 125 then 0 < n \<and> balanced (n - 1) cs else balanced n cs)"

lemma close_brace_balanced: "balanced n b \<Longrightarrow> 0 \<le> n \<Longrightarrow> close_brace (n + 1) (b @ 125 # c) = Some (length b + 1)"
proof (induction n b rule: balanced.induct)
  case (2 n x cs)
  consider "x = 123" | "x = 125" | "x \<noteq> 123" "x \<noteq> 125" by blast
  then show ?case
  proof cases
    case 1
    then show ?thesis using 2 by simp
  next
    case 2: 2
    then show ?thesis using "2.IH"(2) "2.prems" by (simp add: Let_def)
  next
    case 3
    then show ?thesis using "2.IH"(3) "2.prems" by (simp add: Let_def)
  qed
qed simp

lemma find_sub_across: "x \<notin> set p \<Longrightarrow> p \<noteq> [] \<Longrightarrow> find_sub p s = None \<Longrightarrow> find_sub p t = None \<Longrightarrow> find_sub p (s @ x # t) = None"
proof (induction s)
  case Nil
  then show ?case by (auto simp: prefix_Cons)
next
  case (Cons y s)
  have "\<not> prefix p ((y # s) @ x # t)"
  proof
    assume P: "prefix p ((y # s) @ x # t)"
    then have "prefix p (y # s) \<or> (\<exists>q. p = (y # s) @ q \<and> prefix q (x # t))" using prefix_append [of p "y # s" "x # t"] by blast
    then show False
    proof
      assume "prefix p (y # s)"
      then show False using Cons.prems(3) by simp
    next
      assume "\<exists>q. p = (y # s) @ q \<and> prefix q (x # t)"
      then obtain q where q: "p = (y # s) @ q" "prefix q (x # t)" by blast
      then have "q = []" using Cons.prems(1) by (auto simp: prefix_Cons)
      then show False using q(1) Cons.prems(3) by simp
    qed
  qed
  then show ?case using Cons by (auto split: if_splits)
qed

lemma boxed_parts:
  assumes "balanced 0 b" "\<not> has_sub (tex ''boxed'') b" "\<not> has_sub (tex ''boxed'') c"
  shows "extract_answer (a @ tex ''boxed{'' @ b @ 125 # c) = Some b"
proof -
  let ?p = "tex ''boxed''" and ?s = "tex ''boxed{'' @ b @ 125 # c"
  have p: "?p = [92, 98, 111, 120, 101, 100]" "tex ''boxed{'' = [92, 98, 111, 120, 101, 100, 123]" by (simp_all add: tex_def uni_def)
  have "find_sub ?p (b @ 125 # c) = None" using assms(2,3) by (intro find_sub_across) (simp_all add: p has_sub_def)
  then have "find_sub ?p (tl ?s) = None" by (simp add: p)
  then have tail: "rfind_sub ?p (tl ?s) = None" by (rule rfind_sub_None [THEN iffD2])
  have at: "rfind_sub ?p (a @ ?s) = Some (length a)" by (rule rfind_sub_last [OF _ tail]) (simp_all add: p)
  then have has: "has_sub ?p (a @ ?s)" using rfind_sub_None [of ?p "a @ ?s"] by (simp add: has_sub_def)
  have "close_brace 0 ?s = Some (7 + (length b + 1))"
    using close_brace_balanced [OF assms(1), of c] by (simp add: p Let_def)
  then have "last_boxed_only_string (a @ ?s) = Some (tex ''boxed{'' @ b @ [125])" using at by (simp add: last_boxed_only_string_def p)
  then show ?thesis using has by (simp add: extract_answer_def extract_boxed_answer_def remove_boxed_def p)
qed

text \<open>
  An answer that repeats the ground truth is accepted. Whatever precedes and follows it, the last boxed answer with
  balanced braces is what is extracted; and if it is the ground truth, written plainly or boxed, the solution is
  graded as correct, without asking sympy.
\<close>

theorem boxed_truth_is_accepted:
  assumes "balanced 0 b" "\<not> has_sub (tex ''boxed'') b" "\<not> has_sub (tex ''boxed'') c" "b \<noteq> []"
  shows "extract_answer (a @ tex ''boxed{'' @ b @ [125] @ c) = Some b \<and>
    grade_answer_verl U S (a @ tex ''boxed{'' @ b @ [125] @ c) (Some b) = Ok True \<and>
    grade_answer_verl U S (a @ tex ''boxed{'' @ b @ [125] @ c) (Some (tex ''boxed{'' @ b @ [125])) = Ok True"
proof -
  have x: "extract_answer (a @ tex ''boxed{'' @ b @ 125 # c) = Some b" by (rule boxed_parts) (rule assms(1-3))+
  have "\<not> has_sub (tex ''boxed'') []" by (simp add: has_sub_def tex_def)
  then have y: "extract_answer ([] @ tex ''boxed{'' @ b @ 125 # []) = Some b" by (intro boxed_parts assms(1,2))
  have "has_sub (tex ''boxed'') (tex ''boxed{'' @ b @ [125])" by (simp add: has_sub_def tex_def uni_def)
  then show ?thesis using x y assms(2,4) by (simp add: grade_answer_verl_def grade_answer_mathd_def tex_def)
qed

lemma boxed_truth_is_accepted_witness:
  "grade_answer_verl ascii \<lparr>sy_parse = (\<lambda>_. Hang), sy_integers = (\<lambda>_. []), sy_is_zero = (\<lambda>_ :: unit. Hang)\<rparr>
     (uni ''So '' @ tex ''boxed{'' @ (tex ''frac{1}{2}'') @ [125] @ uni ''.'') (Some (tex ''frac{1}{2}'')) = Ok True"
proof -
  have "balanced 0 (tex ''frac{1}{2}'')" "\<not> has_sub (tex ''boxed'') (tex ''frac{1}{2}'')" "\<not> has_sub (tex ''boxed'') (uni ''.'')" "tex ''frac{1}{2}'' \<noteq> []"
    by (simp_all add: tex_def uni_def has_sub_def)
  from boxed_truth_is_accepted [OF this, THEN conjunct2, THEN conjunct1] show ?thesis .
qed

section \<open>Grading raises nothing\<close>

lemma find_sub_single: "find_sub [c] s = None \<Longrightarrow> c \<notin> set s" "find_sub [c] s = Some i \<Longrightarrow> c \<notin> set (take i s)"
proof (induction s arbitrary: i)
  case (Cons x s)
  { case 1
    then show ?case using Cons.IH(1) by (auto split: if_splits)
  next
    case 2
    then show ?case using Cons.IH(2) by (auto split: if_splits) }
qed simp_all

lemma join_with_Nil: "join_with [] xs = concat xs"
  by (induction "[] :: 'a list" xs rule: join_with.induct) simp_all

lemma concat_split_single: "concat (split_sub [c] s) = filter (\<lambda>x. x \<noteq> c) s"
proof (induction "length s" arbitrary: s rule: less_induct)
  case less
  show ?case
  proof (cases "find_sub [c] s")
    case None
    then have "filter (\<lambda>x. x \<noteq> c) s = s" using find_sub_single(1) [OF None] by (intro filter_True) auto
    then show ?thesis using None by (simp add: split_sub.simps)
  next
    case (Some i)
    have parts: "s = take i s @ [c] @ drop (i + 1) s" using find_sub_parts [OF Some] by simp
    have "filter (\<lambda>x. x \<noteq> c) (take i s) = take i s" using find_sub_single(2) [OF Some] by (intro filter_True) auto
    then have f: "filter (\<lambda>x. x \<noteq> c) s = take i s @ filter (\<lambda>x. x \<noteq> c) (drop (i + 1) s)" by (subst parts) simp
    have "i < length s" using find_sub_Some [OF Some] by simp
    then have "length (drop (i + 1) s) < length s" by simp
    then have "concat (split_sub [c] (drop (i + 1) s)) = filter (\<lambda>x. x \<noteq> c) (drop (i + 1) s)" by (rule less)
    then show ?thesis using f Some by (subst split_sub.simps) simp
  qed
qed

text \<open>\<open>float\<close> accepts no text with a comma.\<close>

definition float_rejects_commas :: "unicode \<Rightarrow> bool" where
  "float_rejects_commas U \<longleftrightarrow> (\<forall>s. 44 \<in> set s \<longrightarrow> py_float U s = None)"

lemma str_to_int_Ok:
  assumes "float_rejects_commas U" "str_is_int U s"
  shows "\<exists>q. str_to_int U s = Ok (py_trunc q) \<and> is_int (Finite q)"
proof -
  obtain t where t: "strip_properly_formatted_commas U s = Some t" "filter (\<lambda>c. c \<noteq> 44) t = filter (\<lambda>c. c \<noteq> 44) s"
    using commas_loop [of s U] unfolding Let_def by blast
  with assms(2) obtain x where x: "py_float U t = Some x" "is_int x" by (auto simp: str_is_int_def split: option.splits)
  then obtain q where q: "x = Finite q" by (cases x) (auto simp: is_int_def)
  have "44 \<notin> set t" using assms(1) x(1) by (auto simp: float_rejects_commas_def)
  then have "filter (\<lambda>c. c \<noteq> 44) t = t" by (intro filter_True) auto
  then have "replace_sub (uni '','') [] s = t" using t(2) by (simp add: replace_sub_def join_with_Nil uni_def concat_split_single)
  then show ?thesis using x q by (auto simp: str_to_int_def)
qed

text \<open>A number just below an integer counts as that integer, but is rounded towards zero.\<close>

lemma integer_like_is_truncated:
  assumes "1235 - 1 / 10 ^ 8 \<le> q" "q < 1235"
  shows "is_int (Finite q) \<and> py_trunc q = 1234 \<and> py_round q = 1235"
proof -
  have "\<lfloor>q\<rfloor> = 1234" using assms by (intro floor_unique) simp_all
  moreover have "\<lfloor>q + 1 / 2\<rfloor> = 1235" using assms by (intro floor_unique) simp_all
  moreover have "q + 1 / 2 \<noteq> of_int 1235" using assms by simp
  ultimately have "py_trunc q = 1234" "py_round q = 1235" using assms by (simp_all add: py_trunc_def py_round_def Let_def)
  then show ?thesis using assms by (simp add: is_int_def abs_if)
qed

lemma normalize_answer_Ok:
  assumes "float_rejects_commas U"
  shows "\<exists>t. normalize_answer U answer = Ok t \<and> (t = None \<longleftrightarrow> answer = None)"
proof (cases answer)
  case (Some s)
  define n where "n = (let s = normalize_number U (normalize_head s);
      s = (if has_sub [92] s then (case parse_latex U s of Some t \<Rightarrow> t | None \<Rightarrow> s) else s) in normalize_tail U s)"
  have "normalize_answer U answer = (if str_is_int U n then rbind (str_to_int U n) (\<lambda>k. Ok (Some (int_str k))) else Ok (Some n))"
    by (simp add: normalize_answer_def Some n_def Let_def)
  then show ?thesis using str_to_int_Ok [OF assms, of n] Some by auto
qed (simp add: normalize_answer_def)

lemma split_tuple_Ok: "\<exists>ts. split_tuple U s = Ok ts"
  using commas_loop [of s U] by (auto simp: split_tuple_def Let_def)

lemma same_elements_raise_nothing: "same_elements U S ps \<noteq> Raise e"
proof (induction ps rule: same_elements.induct)
  case (2 U S t g ps)
  have "same_element U S t g \<noteq> Raise e'" for e' by (auto simp: same_element_def are_equal_under_sympy_def Let_def split: res.splits)
  then show ?case using 2 by (auto split: if_splits)
qed simp

text \<open>The case of an empty list of elements, after which the result would be unbound, does not arise.\<close>

lemma step_nonempty: "strip_commas_step U s = [] \<longleftrightarrow> s = []"
proof (cases s)
  case (Cons c cs)
  show ?thesis
  proof (cases "ends (commas_rx U) (c # cs)")
    case Nil
    then show ?thesis by (simp add: Cons strip_commas_step_def rx_sub_skip)
  next
    case (Cons t ts)
    from step_match [OF this] show ?thesis using \<open>s = c # cs\<close> by (metis list.distinct(1))
  qed
qed (simp add: strip_commas_step_def)

lemma split_tuple_nonempty:
  assumes "g \<noteq> []" "split_tuple U g = Ok gs"
  shows "gs \<noteq> []"
proof -
  obtain n where n: "strip_properly_formatted_commas U g = Some ((strip_commas_step U ^^ n) g)"
    using commas_loop [of g U] unfolding Let_def by blast
  have "(strip_commas_step U ^^ n) g \<noteq> []" using assms(1) by (induction n) (simp_all add: step_nonempty)
  then show ?thesis using assms(2) n by (auto simp: split_tuple_def split: if_splits)
qed

lemma sympy_raises_nothing:
  assumes "float_rejects_commas U"
  shows "grade_answer_sympy U S (Some a) truth \<noteq> Raise e"
proof -
  obtain t g where tg: "normalize_answer U truth = Ok t" "normalize_answer U (Some a) = Ok (Some g)"
    using normalize_answer_Ok [OF assms, of truth] normalize_answer_Ok [OF assms, of "Some a"] by auto
  show ?thesis
  proof (cases t)
    case None
    then show ?thesis using tg by (simp add: grade_answer_sympy_def)
  next
    case (Some t')
    obtain ts gs where "split_tuple U t' = Ok ts" "split_tuple U g = Ok gs" using split_tuple_Ok by metis
    then show ?thesis
      using tg Some split_tuple_nonempty [of g U gs] same_elements_raise_nothing [of U S "zip ts gs" e]
      by (auto simp: grade_answer_sympy_def)
  qed
qed

lemma grading_raises_nothing: "float_rejects_commas U \<Longrightarrow> grade_answer_verl U S solution ground_truth \<noteq> Raise e"
  by (auto simp: grade_answer_verl_def Let_def sympy_raises_nothing split: option.splits)

end
