(* ===== verification/Math_Reward.thy ===== *)
theory Math_Reward
  imports Answer_Checker
begin

text \<open>
  The reward functions of the examples: \<open>compute_math_score\<close> of \<open>src/examples/math_reward_model/math_grader.py\<close> and of
  \<open>math_grader_moe.py\<close>. A reward is always returned: sympy runs in another process under a time limit.
\<close>

record score =
  sc_score :: rat
  sc_formatted :: bool

definition no_score :: score where
  "no_score = \<lparr>sc_score = 0, sc_formatted = False\<rparr>"

text \<open>The ground truth: none, one value, or a list; values as \<open>str\<close> prints them.\<close>

datatype truths = NoTruth | OneTruth ustr | Truths "ustr list"

definition truth_list :: "truths \<Rightarrow> ustr list" where
  "truth_list g = (case g of NoTruth \<Rightarrow> [] | OneTruth t \<Rightarrow> [t] | Truths ts \<Rightarrow> ts)"

text \<open>A pool of processes is created once; the result counts only if it is there in time.\<close>

definition get_pool :: "'p \<Rightarrow> 'p option \<Rightarrow> 'p \<times> 'p option" where
  "get_pool new pool = (case pool of None \<Rightarrow> (new, Some new) | Some p \<Rightarrow> (p, pool))"

definition run_grade_answer_sympy_with_timeout :: "unicode \<Rightarrow> 'e sympy \<Rightarrow> (ustr \<Rightarrow> ustr \<Rightarrow> bool) \<Rightarrow> ustr \<Rightarrow> ustr \<Rightarrow> bool res" where
  "run_grade_answer_sympy_with_timeout U S in_time answer truth =
     (if in_time answer truth then (case grade_answer_sympy U S (Some answer) (Some truth) of Hang \<Rightarrow> Ok False | r \<Rightarrow> r) else Ok False)"

text \<open>Boxed ground truths are unpacked; those without an answer are left out.\<close>

definition processed_truths :: "ustr list \<Rightarrow> ustr list" where
  "processed_truths ts = List.map_filter (\<lambda>t. if has_sub (tex ''boxed'') t then extract_answer t else Some t) ts"

fun matches_any :: "unicode \<Rightarrow> 'e sympy \<Rightarrow> (ustr \<Rightarrow> ustr \<Rightarrow> bool) \<Rightarrow> ustr \<Rightarrow> ustr list \<Rightarrow> bool res" where
  "matches_any U S in_time a [] = Ok False"
| "matches_any U S in_time a (t # ts) =
     (if grade_answer_mathd U (Some a) (Some t) then Ok True
      else rbind (run_grade_answer_sympy_with_timeout U S in_time a t) (\<lambda>ok. if ok then Ok True else matches_any U S in_time a ts))"

definition score_answer :: "unicode \<Rightarrow> 'e sympy \<Rightarrow> (ustr \<Rightarrow> ustr \<Rightarrow> bool) \<Rightarrow> ustr option \<Rightarrow> truths \<Rightarrow> score res" where
  "score_answer U S in_time answer ground_truth =
     (case answer of None \<Rightarrow> Ok no_score
      | Some a \<Rightarrow> let ts = processed_truths (truth_list ground_truth)
          in if ts = [] then Ok no_score
             else rbind (matches_any U S in_time a ts) (\<lambda>ok. Ok \<lparr>sc_score = (if ok then 1 else 0), sc_formatted = True\<rparr>))"

definition think_end :: ustr where
  "think_end = uni ''</think>''"

text \<open>\<open>math_grader.py\<close>: rewards of tools come first; the answer stands behind the only end of thought.\<close>

definition compute_math_score :: "unicode \<Rightarrow> 'e sympy \<Rightarrow> (ustr \<Rightarrow> ustr \<Rightarrow> bool) \<Rightarrow> rat list option \<Rightarrow> ustr \<Rightarrow> truths \<Rightarrow> score res" where
  "compute_math_score U S in_time tool_rewards solution ground_truth =
     (case tool_rewards of
        Some (r # rs) \<Rightarrow> Ok \<lparr>sc_score = Max (set (r # rs)), sc_formatted = True\<rparr>
      | _ \<Rightarrow> (case split_sub think_end solution of
          [_, rest] \<Rightarrow> score_answer U S in_time (extract_answer rest) ground_truth
        | _ \<Rightarrow> Ok no_score))"

text \<open>\<open>math_grader_moe.py\<close>: behind the last end of thought, or behind an open start, or the whole text.\<close>

definition answer_region :: "ustr \<Rightarrow> ustr" where
  "answer_region solution =
     (let parts = split_sub think_end solution
      in if length parts = 2 then parts ! 1
         else if length parts = 1 then (if has_sub (uni ''<think>'') solution then last (split_sub (uni ''<think>'') solution) else solution)
         else last parts)"

definition compute_math_score_moe :: "unicode \<Rightarrow> 'e sympy \<Rightarrow> (ustr \<Rightarrow> ustr \<Rightarrow> bool) \<Rightarrow> ustr \<Rightarrow> truths \<Rightarrow> score res" where
  "compute_math_score_moe U S in_time solution ground_truth = score_answer U S in_time (extract_answer (answer_region solution)) ground_truth"

section \<open>A reward is always returned\<close>

lemma timeout_returns:
  assumes "float_rejects_commas U"
  shows "\<exists>ok. run_grade_answer_sympy_with_timeout U S in_time a t = Ok ok"
proof (cases "grade_answer_sympy U S (Some a) (Some t)")
  case (Raise e)
  then show ?thesis by (simp add: sympy_raises_nothing [OF assms])
qed (auto simp: run_grade_answer_sympy_with_timeout_def intro: exI [of _ False])

lemma matches_any_returns:
  assumes "float_rejects_commas U"
  shows "\<exists>ok. matches_any U S in_time a ts = Ok ok \<and> (ok \<longrightarrow> ts \<noteq> [])"
proof (induction ts)
  case (Cons t ts)
  obtain ok where "run_grade_answer_sympy_with_timeout U S in_time a t = Ok ok" using timeout_returns [OF assms] by blast
  then show ?case using Cons by auto
qed (auto intro: exI [of _ False])

lemma score_answer_returns:
  assumes "float_rejects_commas U"
  shows "\<exists>s. score_answer U S in_time answer ground_truth = Ok s \<and> sc_score s \<in> {0, 1} \<and> (sc_score s = 1 \<longrightarrow> sc_formatted s \<and> answer \<noteq> None)"
proof (cases "answer = None \<or> processed_truths (truth_list ground_truth) = []")
  case True
  then show ?thesis by (auto simp: score_answer_def no_score_def split: option.split)
next
  case False
  then obtain a where a: "answer = Some a" by auto
  obtain ok where "matches_any U S in_time a (processed_truths (truth_list ground_truth)) = Ok ok" using matches_any_returns [OF assms] by blast
  then show ?thesis using False a by (simp add: score_answer_def Let_def)
qed

text \<open>Both functions return for every text and truth, whatever sympy does, also if it never answers.\<close>

lemma rewards_are_returned:
  assumes "float_rejects_commas U"
  shows "\<exists>s. compute_math_score U S in_time tool_rewards solution ground_truth = Ok s"
    "\<exists>s. compute_math_score_moe U S in_time solution ground_truth = Ok s \<and> sc_score s \<in> {0, 1}"
proof -
  have R: "\<exists>s. score_answer U S in_time answer ground_truth = Ok s \<and> sc_score s \<in> {0, 1}" for answer
    by (rule exE [OF score_answer_returns [OF assms, of S in_time answer ground_truth]]) blast
  then show "\<exists>s. compute_math_score_moe U S in_time solution ground_truth = Ok s \<and> sc_score s \<in> {0, 1}"
    unfolding compute_math_score_moe_def by blast
  have "\<exists>s. (case parts of [x, rest] \<Rightarrow> score_answer U S in_time (extract_answer rest) ground_truth | _ \<Rightarrow> Ok no_score) = Ok s" for parts
    using R by (auto split: list.split)
  then show "\<exists>s. compute_math_score U S in_time tool_rewards solution ground_truth = Ok s"
    unfolding compute_math_score_def by (cases tool_rewards) (auto split: list.split simp del: ex_simps)
qed

text \<open>An answer that repeats one of the truths is rewarded, after the thoughts of any model.\<close>

lemma matches_any_repeated: "float_rejects_commas U \<Longrightarrow> a \<in> set ts \<Longrightarrow> matches_any U S in_time a ts = Ok True"
proof (induction ts)
  case (Cons t ts)
  show ?case
  proof (cases "a = t")
    case True
    then show ?thesis by (simp add: grade_answer_mathd_def)
  next
    case False
    obtain ok where "run_grade_answer_sympy_with_timeout U S in_time a t = Ok ok" using timeout_returns [OF Cons.prems(1)] by blast
    then show ?thesis using False Cons by simp
  qed
qed simp

lemma repeated_truth_is_rewarded:
  assumes "float_rejects_commas U" "balanced 0 b" "\<not> has_sub (tex ''boxed'') b" "\<not> has_sub (tex ''boxed'') c" "b \<in> set (truth_list ground_truth)"
    and "answer_region solution = a @ tex ''boxed{'' @ b @ 125 # c"
  shows "compute_math_score_moe U S in_time solution ground_truth = Ok \<lparr>sc_score = 1, sc_formatted = True\<rparr>"
proof -
  have "b \<in> set (processed_truths (truth_list ground_truth))"
    using assms(3,5) by (force simp: processed_truths_def List.map_filter_def)
  moreover have "extract_answer (answer_region solution) = Some b" using boxed_parts [OF assms(2-4)] assms(6) by simp
  ultimately show ?thesis using matches_any_repeated [OF assms(1), of b] by (auto simp: compute_math_score_moe_def score_answer_def Let_def)
qed

end
