(* ===== verification/Benchmark_Data.thy ===== *)
theory Benchmark_Data
  imports Py_Strings
begin

text \<open>
  The requests of a benchmark, \<open>src/benchmarks/dataset.py\<close>: entries of a ShareGPT file become requests, drawn again until
  there are enough. The tokenizer, the shuffle, the random draws and the image library are parameters.
\<close>

section \<open>Media\<close>

text \<open>What stands in an entry: raw bytes, an image object, a path or address, or anything else.\<close>

datatype 'i media_input = RawBytes "nat list" | Picture 'i | Location string | OtherMedia

datatype media = ImageUrl string | VideoUrl string

record 'i image_lib =
  il_open :: "nat list \<Rightarrow> 'i res"
  il_mode :: "'i \<Rightarrow> string"
  il_convert :: "'i \<Rightarrow> string \<Rightarrow> 'i"
  il_on_white :: "'i \<Rightarrow> 'i"
  il_jpeg :: "'i \<Rightarrow> nat list"
  il_base64 :: "nat list \<Rightarrow> string"

definition rgba_to_rgb :: "'i image_lib \<Rightarrow> 'i \<Rightarrow> 'i res" where
  "rgba_to_rgb L i = (if il_mode L i \<noteq> ''RGBA'' then Raise AssertionError else Ok (il_on_white L i))"

definition convert_image_mode :: "'i image_lib \<Rightarrow> 'i \<Rightarrow> string \<Rightarrow> 'i res" where
  "convert_image_mode L i mode =
     (if il_mode L i = mode then Ok i
      else if il_mode L i = ''RGBA'' \<and> mode = ''RGB'' then rgba_to_rgb L i
      else Ok (il_convert L i mode))"

definition media_url :: "string \<Rightarrow> string" where
  "media_url s = (if prefix ''http://'' s \<or> prefix ''https://'' s \<or> prefix ''file://'' s then s else ''file://'' @ s)"

definition encode_picture :: "'i image_lib \<Rightarrow> 'i \<Rightarrow> media res" where
  "encode_picture L i = rbind (convert_image_mode L i ''RGB'') (\<lambda>i. Ok (ImageUrl (''data:image/jpeg;base64,'' @ il_base64 L (il_jpeg L i))))"

definition process_image :: "'i image_lib \<Rightarrow> 'i media_input \<Rightarrow> media res" where
  "process_image L x =
     (case x of RawBytes b \<Rightarrow> rbind (il_open L b) (encode_picture L)
      | Picture i \<Rightarrow> encode_picture L i | Location s \<Rightarrow> Ok (ImageUrl (media_url s)) | OtherMedia \<Rightarrow> Raise ValueError)"

definition process_video :: "'i image_lib \<Rightarrow> 'i media_input \<Rightarrow> media res" where
  "process_video L x =
     (case x of RawBytes b \<Rightarrow> Ok (VideoUrl (''data:video/mp4;base64,'' @ il_base64 L b))
      | Location s \<Rightarrow> Ok (VideoUrl (media_url s)) | _ \<Rightarrow> Raise ValueError)"

section \<open>Requests\<close>

record sample_request =
  sr_prompt :: string
  sr_prompt_len :: nat
  sr_output_len :: int
  sr_media :: "media option"
  sr_id :: string

definition is_valid_sequence :: "int \<Rightarrow> int \<Rightarrow> bool \<Rightarrow> bool" where
  "is_valid_sequence prompt_len output_len skip_min_output_len_check \<longleftrightarrow>
     \<not> (prompt_len < 4 \<or> \<not> skip_min_output_len_check \<and> output_len < 4 \<or> 1024 < prompt_len \<or> 2048 < prompt_len + output_len)"

text \<open>An entry: its conversation, if it has the key, and the image or video it names; an empty value counts as none.\<close>

record 'i share_entry =
  en_turns :: "string list option"
  en_image :: "'i media_input option"
  en_video :: "'i media_input option"

definition load_data :: "('i share_entry list \<Rightarrow> 'i share_entry list) \<Rightarrow> bool \<Rightarrow> string option \<Rightarrow> (string \<Rightarrow> 'i share_entry list res) \<Rightarrow> 'i share_entry list res" where
  "load_data shuffle disable_shuffle path read_json =
     (case path of None \<Rightarrow> Raise ValueError
      | Some p \<Rightarrow> rbind (read_json p) (\<lambda>es.
          let es = filter (\<lambda>e. case en_turns e of Some ts \<Rightarrow> 2 \<le> length ts | None \<Rightarrow> False) es
          in Ok (if disable_shuffle then es else shuffle es)))"

definition entry_media :: "'i image_lib \<Rightarrow> 'i share_entry \<Rightarrow> media option res" where
  "entry_media L e =
     (case en_image e of Some x \<Rightarrow> rbind (process_image L x) (\<lambda>m. Ok (Some m))
      | None \<Rightarrow> (case en_video e of Some x \<Rightarrow> rbind (process_video L x) (\<lambda>m. Ok (Some m)) | None \<Rightarrow> Ok None))"

text \<open>
  One turn of the loop in \<open>sample\<close>; \<open>tokens\<close> counts what the tokenizer makes of a text. The class has no
  \<open>apply_multimodal_chat_transformation\<close>.
\<close>

definition sample_entry ::
    "'i image_lib \<Rightarrow> (string \<Rightarrow> nat) \<Rightarrow> int option \<Rightarrow> bool \<Rightarrow> string \<Rightarrow> 'i share_entry \<Rightarrow> sample_request list \<Rightarrow> sample_request list res" where
  "sample_entry L tokens output_len enable_multimodal_chat id_prefix e samples =
     (case en_turns e of
        Some (q # a # _) \<Rightarrow>
          let n = (case output_len of None \<Rightarrow> int (tokens a) | Some n \<Rightarrow> n)
          in if \<not> is_valid_sequence (int (tokens q)) n (output_len \<noteq> None) then Ok samples
             else rbind (entry_media L e) (\<lambda>m.
               if enable_multimodal_chat then Raise AttributeError
               else Ok (samples @ [\<lparr>sr_prompt = q, sr_prompt_len = tokens q, sr_output_len = n, sr_media = m, sr_id = id_prefix @ nat_str (length samples)\<rparr>]))
      | Some _ \<Rightarrow> Raise IndexError
      | None \<Rightarrow> Raise KeyError)"

fun sample_entries ::
    "'i image_lib \<Rightarrow> (string \<Rightarrow> nat) \<Rightarrow> int option \<Rightarrow> bool \<Rightarrow> string \<Rightarrow> int \<Rightarrow> 'i share_entry list \<Rightarrow> sample_request list \<Rightarrow> sample_request list res" where
  "sample_entries L tokens output_len mm pre num [] samples = Ok samples"
| "sample_entries L tokens output_len mm pre num (e # es) samples =
     (if num \<le> int (length samples) then Ok samples
      else rbind (sample_entry L tokens output_len mm pre e samples) (sample_entries L tokens output_len mm pre num es))"

text \<open>\<open>pick i\<close> is the \<open>i\<close>-th random choice.\<close>

definition maybe_oversample_requests :: "(nat \<Rightarrow> nat) \<Rightarrow> int \<Rightarrow> string \<Rightarrow> bool \<Rightarrow> sample_request list \<Rightarrow> sample_request list res" where
  "maybe_oversample_requests pick num pre no_oversample rs =
     (if no_oversample then Ok rs
      else rbind (if int (length rs) < num
          then (if rs = [] then Raise IndexError
                else Ok (rs @ map (\<lambda>i. (rs ! (pick i mod length rs))\<lparr>sr_id := pre @ nat_str (length rs + i)\<rparr>) [0..<nat num - length rs]))
          else Ok rs) (\<lambda>rs.
        if distinct (map sr_id rs) then Ok rs else Raise ValueError))"

definition sample_requests ::
    "'i image_lib \<Rightarrow> (string \<Rightarrow> nat) \<Rightarrow> (nat \<Rightarrow> nat) \<Rightarrow> int \<Rightarrow> int option \<Rightarrow> bool \<Rightarrow> string \<Rightarrow> bool \<Rightarrow> 'i share_entry list \<Rightarrow> sample_request list res" where
  "sample_requests L tokens pick num output_len mm pre no_oversample data =
     rbind (sample_entries L tokens output_len mm pre num data []) (maybe_oversample_requests pick num pre no_oversample)"

section \<open>What is sampled\<close>

definition numbered :: "string \<Rightarrow> sample_request list \<Rightarrow> bool" where
  "numbered pre rs \<longleftrightarrow> map sr_id rs = map (\<lambda>i. pre @ nat_str i) [0..<length rs]"

lemma numbered_distinct: "numbered pre rs \<Longrightarrow> distinct (map sr_id rs)"
  by (simp add: numbered_def distinct_map inj_on_def)

lemma sample_entry_numbered:
  "sample_entry L tokens n mm pre e rs = Ok rs' \<Longrightarrow> numbered pre rs \<Longrightarrow> numbered pre rs' \<and> length rs' \<le> length rs + 1"
  by (auto simp: sample_entry_def numbered_def Let_def split: option.splits list.splits if_splits)

lemma sample_entries_numbered:
  "sample_entries L tokens n mm pre num es rs = Ok rs' \<Longrightarrow> numbered pre rs \<Longrightarrow> int (length rs) \<le> max 0 num \<Longrightarrow> numbered pre rs' \<and> int (length rs') \<le> max 0 num"
proof (induction L tokens n mm pre num es rs rule: sample_entries.induct)
  case (2 L tokens n mm pre num e es rs)
  show ?case
  proof (cases "num \<le> int (length rs)")
    case False
    then obtain r where "sample_entry L tokens n mm pre e rs = Ok r" "sample_entries L tokens n mm pre num es r = Ok rs'" using 2(2) by auto
    then show ?thesis using 2(1) [OF False] 2(3) False sample_entry_numbered [of L tokens n mm pre e rs r] by auto
  qed (use 2 in simp)
qed simp

text \<open>
  With oversampling, \<open>sample\<close> returns exactly as many requests as asked for, numbered in order, or raises; the check for
  duplicates never fails.
\<close>

lemma sample_returns_as_many:
  assumes "sample_requests L tokens pick num n mm pre False data = Ok rs" "0 \<le> num"
  shows "int (length rs) = num \<and> numbered pre rs"
proof -
  obtain r where r: "sample_entries L tokens n mm pre num data [] = Ok r" "maybe_oversample_requests pick num pre False r = Ok rs"
    using assms(1) by (auto simp: sample_requests_def)
  have N: "numbered pre r" "int (length r) \<le> num"
    using sample_entries_numbered [OF r(1)] assms(2) by (simp_all add: numbered_def)
  show ?thesis
  proof (cases "int (length r) < num")
    case True
    then have len: "nat num = length r + (nat num - length r)" by simp
    have "rs = r @ map (\<lambda>i. (r ! (pick i mod length r))\<lparr>sr_id := pre @ nat_str (length r + i)\<rparr>) [0..<nat num - length r]"
      using r(2) True by (auto simp: maybe_oversample_requests_def split: if_splits)
    moreover have "[0..<nat num] = [0..<length r] @ map (\<lambda>i. i + length r) [0..<nat num - length r]"
      using upt_add_eq_append [of 0 "length r" "nat num - length r"] len by (simp add: map_add_upt add.commute)
    ultimately show ?thesis using N True by (simp add: numbered_def comp_def add.commute)
  next
    case False
    then show ?thesis using r(2) N by (auto simp: maybe_oversample_requests_def split: if_splits)
  qed
qed

lemma duplicates_never_found: "numbered pre r \<Longrightarrow> maybe_oversample_requests pick num pre no r \<noteq> Raise ValueError"
proof
  assume N: "numbered pre r" and R: "maybe_oversample_requests pick num pre no r = Raise ValueError"
  then have "int (length r) < num" "r \<noteq> []"
    and D: "\<not> distinct (map sr_id (r @ map (\<lambda>i. (r ! (pick i mod length r))\<lparr>sr_id := pre @ nat_str (length r + i)\<rparr>) [0..<nat num - length r]))"
    using numbered_distinct [OF N] by (auto simp: maybe_oversample_requests_def split: if_splits)
  then show False using N [unfolded numbered_def] by (auto simp: distinct_map inj_on_def comp_def)
qed

text \<open>Without a usable entry there is nothing to draw from.\<close>

lemma empty_sample: "0 < num \<Longrightarrow> sample_requests L tokens pick num n mm pre False [] = Raise IndexError"
  by (simp add: sample_requests_def maybe_oversample_requests_def)

end
