(* ===== verification/Spec2Isabelle.thy ===== *)
theory Spec2Isabelle
  imports
    Example_System
    PP_Messager
    Weight_Transfer
    Request_Channel
    Memory_Saver
    Worker_Process
    Model_Loader
    Batched_Matmul
    Row_Meaning
    Invariant_Mode
    Moe_Kernels
    Moe_Atomic
    Activation
    Pretuned
    Triton_Utils
    Moe_Backward
    Moe_Tuning
    Attention_Backward
    Flex_Attention
    Flash_Attention
    Expert_Loader
    Model_Layers
    Mla_Attention
    Model_Patches
    Rollout_Server
    Math_Reward
    Benchmark_Data
    Generation_Attention
begin

text \<open>
  VeXact is an inference engine whose results are bit for bit those of the trainer. A driver process
  accepts requests, schedules them in batches over a paged key/value cache and runs the first pipeline
  rank; worker processes run the other ranks; all of them compute with kernels that give a row of a
  batch the same value whatever the batch is. This development models the code of \<open>src/vexact\<close> in
  definitions that compute, and proves what the parts promise. Properties are numbered C1, C2, ... in
  the order of their importance to the engine within each part.

  \<^bold>\<open>Conventions.\<close> \<open>Prelude\<close> holds what all parts share. Code that may fail returns \<open>'a res\<close>: \<open>Ok\<close>,
  \<open>Raise\<close> with the exception class, or \<open>Hang\<close> where the source blocks for ever; \<open>rbind\<close> sequences.
  Python integers are \<open>int\<close>, sizes that cannot be negative are \<open>nat\<close>. Mutable request objects live in a
  store indexed by references (\<open>Scheduler\<close>), so that the aliasing between queue, batch and results is
  that of the code. Device memory is a function from addresses to values and a kernel program is the list
  of its stores, so that orders of programs can be compared. Kernel arithmetic is abstract (\<open>gemm_ops\<close>,
  \<open>float_ops\<close>): every theorem on batch invariance holds for any rounding.

  \<^bold>\<open>The driver.\<close>
  \<^item> \<open>Config\<close>: the dataclasses of \<open>config.py\<close> and their \<open>__post_init__\<close> checks.
  \<^item> \<open>KV_Cache\<close>: \<open>batch_invariant_ops/kv_cache_context.py\<close>: the block pool (interface \<open>block_pool\<close>, C9),
    the attention context, cache shapes, the store kernel (C8).
  \<^item> \<open>Request\<close>, \<open>Runtime_Data\<close>: \<open>core/request.py\<close>, \<open>core/runtime_data.py\<close>: the life cycle of a request (C6)
    and the buffers of a forward pass.
  \<^item> \<open>Scheduler\<close>: \<open>core/scheduler.py\<close>, operation by operation. \<open>Scheduler_Core\<close> states the invariant,
    \<open>Scheduler_Ops\<close>, \<open>_Step\<close>, \<open>_Inv\<close>, \<open>_Run\<close>, \<open>_Props\<close> carry it through the operations, a scheduling
    step and an update (C2, C4, C5).
  \<^item> \<open>Gen_Ctx\<close>, \<open>Cuda_Graph\<close>, \<open>Sampler\<close>, \<open>Inferencer\<close>, \<open>Batch_Infer\<close>: \<open>inferencer/\<close>: the arrays of a batch
    (C7), graph capture and dispatch (C10, C11), token selection, the role of a rank in a cycle.
  \<^item> \<open>Driver_Worker\<close>, \<open>System\<close>: \<open>worker/driver_worker.py\<close> and the step relation \<open>sys_step\<close> of the
    driver among clients and ranks; reachability, the invariant \<open>driver_inv\<close>, and from it C1 to C5.
    \<open>Example_System\<close> is the concrete configuration of the witnesses.

  \<^bold>\<open>Processes and messages.\<close>
  \<^item> \<open>Profiler\<close> (\<open>utils/profiler.py\<close>; C13).
  \<^item> \<open>Tensors\<close>, \<open>PP_Messager\<close> (\<open>distributed/pp_messager.py\<close>; interface \<open>fifo_transport\<close>; C15).
  \<^item> \<open>Weight_Transfer\<close> (\<open>integrations/verl/bucketed_weight_transfer.py\<close>; C17).
  \<^item> \<open>Control_Channel\<close> (\<open>ipc/control_channel.py\<close>; interface \<open>faithful_codec\<close>; C18, C19) and
    \<open>Memory_Saver\<close> (\<open>utils/torch_memory_saver_adapter.py\<close>, \<open>worker/driver_client.py\<close>; C33).
  \<^item> \<open>Request_Channel\<close> (\<open>ipc/request_channel.py\<close>, \<open>engine.py\<close>; C20).
  \<^item> \<open>Worker_Process\<close> (\<open>worker/worker_proc_manager.py\<close>, \<open>worker/worker.py\<close>, \<open>worker/worker_proxy.py\<close>; C34).

  \<^bold>\<open>Models and kernels.\<close>
  \<^item> \<open>Model_Loader\<close> (\<open>inferencer/model_loader.py\<close>; C22, C23).
  \<^item> \<open>Matmul\<close>, \<open>Batched_Matmul\<close>, \<open>Row_Kernels\<close>, \<open>Row_Meaning\<close>, \<open>Invariant_Mode\<close>:
    \<open>batch_invariant_ops/batch_invariant_ops.py\<close>: the persistent product (C25, C26), the batched one
    (C27), log-softmax, mean and RMS norm (C28) and their meaning over the reals (C29, C30), the
    operator overrides.
  \<^item> \<open>Moe_Index\<close>, \<open>Moe_Kernels\<close>: \<open>batch_invariant_ops/fused_moe.py\<close> and \<open>group_gemm/kernel/\<close>: routing of tokens
    to experts (C35), scatter and gather of their rows, the grouped product.
  \<^item> \<open>Group_Gemm\<close> (\<open>group_gemm/kernel/group_gemm.py\<close>): both grouped products, an element of the result at a
    time. \<open>Fused_Moe\<close> and \<open>Moe_Backward\<close> (\<open>fused_moe.py\<close>): the two expert layers, forwards (C36) and
    backwards (C37); quack's product is a parameter (\<open>quack_ok\<close>). \<open>Moe_Tuning\<close>
    (\<open>moe_group_gemm_tuning.py\<close>; C38). \<open>Moe_Atomic\<close>: the index kernel that takes rows by atomic
    operations; whatever their order, the rows are a permutation within the experts' segments.
    \<open>Triton_Utils\<close> and \<open>Activation\<close> (\<open>group_gemm/kernel/triton_utils/\<close>): skipped boundary checks change nothing on
    aligned matrices, the programs of a launch take every tile once, and the gradients of the activations are their
    derivatives in the reals. \<open>Pretuned\<close> (\<open>group_gemm/utils/\<close>): keys tell calls apart, a call always finds a
    configuration, without files it is the decorator's fallback.
  \<^item> \<open>Attention\<close>, \<open>Attention_Calls\<close> (\<open>triton_invariant_attention.py\<close>): the forward kernels over packed and
    over paged keys, row by row, and the calls around them (C39). What a masked score must do to a row
    is \<open>attn_laws\<close>: far below the row's maximum it changes no maximum and its weight is zero.
  \<^item> \<open>Attention_Module\<close>: \<open>flash_attention_forward\<close> with its three cases and the cache it stores to;
    \<open>Generation_Attention\<close> connects it to a scheduled batch. C40 is the engine's purpose for one layer: a
    request's chunks, at whatever steps they run, attend to its sequence and get the trainer's values.
  \<^item> \<open>Attention_Backward\<close>: the backward kernels of the same file; a sequence's gradients ignore its batch (C12).
  \<^item> \<open>Flex_Attention\<close> (\<open>flex_attention.py\<close>; C24) and \<open>Flash_Attention\<close> (\<open>flash_attention.py\<close>): the module functions
    on PyTorch's and the flash-attention libraries, which are parameters. Flex attention stores keys and values without
    making them contiguous, so they are tensors with strides there.
  \<^item> \<open>Model_Layers\<close>, \<open>Mla_Attention\<close>, \<open>Model_Patches\<close> (\<open>models/\<close>): routers and expert modules (C32), latent attention
    and its rotary embedding (C31), the patches that install them. \<open>Expert_Loader\<close>: loading of fused experts
    (C14), on the string functions of \<open>Py_Strings\<close>.
  \<^item> \<open>Rollout_Server\<close> (\<open>integrations/verl/async_server.py\<close>, \<open>rollout.py\<close>): the server the trainer calls (C21), the replica that
    places servers on nodes, and the adapter that sends weights to the workers.
  \<^bold>\<open>Around the engine.\<close>
  \<^item> \<open>Answer_Text\<close>, \<open>Answer_Checker\<close>, \<open>Math_Reward\<close> (\<open>examples/math_reward_model/\<close>): regular expressions with Python's order
    of matching, the normal forms of answers, the loop over thousands separators (C16), boxed answers, grading, and the
    reward functions, which always return.
  \<^item> \<open>Benchmark_Data\<close> (\<open>benchmarks/dataset.py\<close>): the requests sampled from a data set.
  \<^bold>\<open>Groups of lemmas.\<close> Each theory proves first what its operations return on every branch, then that they
  keep its invariant, then the property. The shared ones are: the block pool's laws; the structural
  invariant \<open>core\<close> of the scheduler and what an operation leaves alone; \<open>pid_range\<close>, \<open>pid_surjective\<close>,
  \<open>tile_cells\<close>, \<open>dot_steps\<close> for tiled products; \<open>apply_stores_agree\<close> and \<open>apply_stores_other\<close> for the stores of
  programs in any order.

  \<^bold>\<open>Bounds and fuel.\<close> The admission loop and the capture-size loop are functions with a measure. The rounds of
  a driver are steps of a relation, with no bound. The receiver of weights runs with as much fuel as
  there are messages, and C17 shows that this suffices. A worker's loop is run for a number of rounds that
  its theorems quantify over.

  \<^bold>\<open>What is assumed.\<close> Third-party code is a parameter: the model's forward pass and the sampler's
  random draws are functions; the double-precision quotient of the fair share (\<open>fq\<close>) is an arbitrary
  function; a transport delivers in order; an encoder is inverted by its decoder where it succeeds;
  PyTorch's \<open>tl.dot\<close> gives each row of a tile a value that depends on that row alone
  (\<open>row_independent\<close>); a score lowered by the mask loses its weight (\<open>attn_laws\<close>); \<open>copy_\<close> converts a weight that fits
  and refuses any other (\<open>copies\<close>); a contiguous tensor is reshaped to a contiguous view (\<open>views_contiguous\<close>). Clients of
  the engine submit \<open>admissible\<close> requests. The kernel of VeOmni that \<open>Moe_Tuning\<close> launches is represented by the
  repository's own.

  \<^bold>\<open>Not modelled.\<close> Address arithmetic of kernels is in unbounded integers; where the kernels compute in 32 bits
  the theorems hold for tensors whose offsets fit. Sockets, shared memory handles, logging, command
  lines and device set-up are input and output. The
  measurement loop of the benchmark and the scripts of the repository are timing, output and checks of other files.
\<close>

section \<open>The running system\<close>

text \<open>
  C1. The generation loop never ends in an exception: in every state the driver can reach from a
  configuration that meets its documented bounds, with clients submitting, polling and pipeline ranks
  answering in any order, the loop is alive and its next round raises nothing. Clients submit only
  \<open>admissible\<close> requests: a prompt that is not empty, that fits the model's length together with the
  tokens asked for, \<open>max_new_tokens\<close> set, and one sampling and score configuration shared by all
  requests, which the code asserts (\<open>uniform_sampling\<close>). Other requests are accepted by the code and
  may end the loop.
\<close>

theorem generation_loop_never_raises:
  assumes "config_ok lims env sc cc gm"
    and "reachable lims env fq (init_driver sc cc (pp_info_of env) objs gm) d"
  shows "loop_alive d \<and> (\<forall>e. generation_round env fq d \<noteq> Raise e)"
proof -
  have inv: "driver_inv lims env d"
    using reachable_keeps_inv [OF assms(2)] init_driver_inv [OF assms(1)] by blast
  have "generation_round env fq d \<noteq> Raise e" for e
    using generation_round_outcome [OF inv, of fq] by (cases "generation_round env fq d") auto
  then show ?thesis using inv by (simp add: driver_inv_def Let_def)
qed

theorem generation_loop_never_raises_witness:
  "loop_alive (ex_round 2) \<and> (\<forall>e. generation_round (ex_env 2) no_quot (ex_round 2) \<noteq> Raise e)"
  using generation_loop_never_raises [OF ex_config_ok [of 2] ex_reachable [of 2, unfolded ex_start_init]] by simp

text \<open>
  C2. No block of the cache is ever shared or lost: in every reachable state two active requests own
  disjoint lists of distinct blocks inside the pool, queued requests own none, and the pool's count of
  allocated blocks is the number of blocks the active requests hold.
\<close>

theorem cache_blocks_exclusive_and_accounted:
  assumes "config_ok lims env sc cc gm"
    and "reachable lims env fq (init_driver sc cc (pp_info_of env) objs gm) d"
  shows "let s = scheduler_of d in
    (\<forall>r\<in>live s. distinct (block_ids (store s r)) \<and>
       set (block_ids (store s r)) \<subseteq> {0..<max_cache_blocks (kv_config (kvm s))}) \<and>
    (\<forall>r\<in>live s. \<forall>q\<in>live s. r \<noteq> q \<longrightarrow> set (block_ids (store s r)) \<inter> set (block_ids (store s q)) = {}) \<and>
    (\<forall>r\<in>set (request_queue s). block_ids (store s r) = []) \<and>
    num_allocated_blocks (kvm s) = sum_list (map (\<lambda>r. int (length (block_ids (store s r)))) (all_refs s)) \<and>
    num_free_blocks (kvm s) + num_allocated_blocks (kvm s) = max 0 (max_cache_blocks (kv_config (kvm s)))"
proof -
  let ?s = "scheduler_of d"
  have inv: "driver_inv lims env d"
    using reachable_keeps_inv [OF assms(2)] init_driver_inv [OF assms(1)] by blast
  note B = inv_blocks [OF inv refl]
  have "allocated_blocks (kvm ?s) \<subseteq> {0..<max_cache_blocks (kv_config (kvm ?s))}"
    using B(1) by (auto simp: kv_inv_def)
  then have "\<forall>r\<in>live ?s. distinct (block_ids (store ?s r)) \<and>
       set (block_ids (store ?s r)) \<subseteq> {0..<max_cache_blocks (kv_config (kvm ?s))}"
    using kv.ledger_member [OF B(2)] by blast
  moreover have "\<forall>r\<in>live ?s. \<forall>q\<in>live ?s. r \<noteq> q \<longrightarrow> set (block_ids (store ?s r)) \<inter> set (block_ids (store ?s q)) = {}"
    using B(2) by (simp add: kv.ledger_def)
  ultimately show ?thesis using B(3,4) kv_counts [OF B(1)] by (simp add: Let_def)
qed

theorem cache_blocks_exclusive_and_accounted_witness:
  "num_allocated_blocks (kvm (scheduler_of (ex_round 1))) = 2 \<and>
   num_free_blocks (kvm (scheduler_of (ex_round 1))) = 6"
proof -
  have "num_free_blocks (kvm (scheduler_of (ex_round 1))) + num_allocated_blocks (kvm (scheduler_of (ex_round 1))) =
      max 0 (max_cache_blocks (kv_config (kvm (scheduler_of (ex_round 1)))))"
    using cache_blocks_exclusive_and_accounted [OF ex_config_ok [of 1] ex_reachable [of 1, unfolded ex_start_init]]
    by (simp add: Let_def)
  moreover have "max_cache_blocks (kv_config (kvm (scheduler_of (ex_round 1)))) = 8" by code_simp
  moreover have "num_allocated_blocks (kvm (scheduler_of (ex_round 1))) = 2" by code_simp
  ultimately show ?thesis by simp
qed

text \<open>
  C3. The system does not deadlock when the request queue is unbounded: whenever the loop cannot take
  its next round, a context sent to the pipeline is still unanswered, so the later ranks can move.
\<close>

theorem blocked_loop_has_outstanding_answer:
  assumes "config_ok lims env sc cc gm" "max_queue_size sc \<le> 0"
    and "reachable lims env fq (init_driver sc cc (pp_info_of env) objs gm) d"
    and "loop_step env fq d = None"
  shows "ctx_outbox (rank_of d) \<noteq> []"
proof -
  have inv: "driver_inv lims env d"
    using reachable_keeps_inv [OF assms(3)] init_driver_inv [OF assms(1)] by blast
  then have "generation_round env fq d = Hang"
    using assms(4) by (auto simp: loop_step_def driver_inv_def Let_def split: res.splits)
  moreover have "sconfig (scheduler_of d) = sc"
    using reachable_sconfig [OF assms(3)] by (simp add: init_driver_def init_sched_def)
  then have "\<not> bounded (scheduler_of d)" using assms(2) by simp
  ultimately show ?thesis using blocked_round_waits [OF inv] by blast
qed

theorem blocked_loop_has_outstanding_answer_witness: "ctx_outbox (rank_of (ex_round 2)) \<noteq> []"
proof -
  have "loop_step (ex_env 2) no_quot (ex_round 2) = None" by code_simp
  moreover have "max_queue_size ex_sched_config \<le> 0" by (simp add: ex_sched_config_def)
  ultimately show ?thesis
    using blocked_loop_has_outstanding_answer [OF ex_config_ok [of 2] _ ex_reachable [of 2, unfolded ex_start_init]]
    by simp
qed

section \<open>Scheduling\<close>

text \<open>
  C4. A scheduling step keeps its promises: it raises nothing (and can block only on a bounded queue);
  the tokens planned for the batch fit the token budget, its requests are distinct, active, at most
  \<open>max_num_seqs\<close> many (or as many as the slot held before, if that was more, which \<open>driver_inv\<close> rules
  out in the running system), and each computes at least one token; the batch is the one of the slot just planned, the batch to update that of the next
  slot; no other slot changes and no request is lost, duplicated or invented.
\<close>

theorem schedule_respects_budget_and_requests:
  assumes "sched_ready s"
  shows "outcome (\<lambda>(to_infer, to_update, s').
      sum_list (map (\<lambda>r. tokens_this_step (store s' r)) to_infer) \<le> max_num_batched_tokens (sconfig s) \<and>
      int (length to_infer) \<le> max (max_num_seqs (sconfig s)) (int (length (cur s))) \<and>
      distinct to_infer \<and> set to_infer \<subseteq> live s' \<and>
      (\<forall>r\<in>set to_infer. 1 \<le> tokens_this_step (store s' r) \<and> status (store s' r) = RUNNING) \<and>
      to_infer = od_values (inflight_batches s' ! current_batch_idx s) \<and>
      to_update = od_values (inflight_batches s' ! current_batch_idx s') \<and>
      current_batch_idx s' = (current_batch_idx s + 1) mod length (inflight_batches s) \<and>
      (\<forall>i<length (inflight_batches s). i \<noteq> current_batch_idx s \<longrightarrow> inflight_batches s' ! i = inflight_batches s ! i) \<and>
      live s' \<union> set (request_queue s') = live s \<union> set (request_queue s) \<and>
      distinct (all_refs s') \<and> distinct (request_queue s') \<and> live s' \<inter> set (request_queue s') = {})
    (0 < max_queue_size (sconfig s)) (schedule fq s)"
proof -
  let ?m = "max (max_num_seqs (sconfig s)) (int (length (cur s)))"
  have idx: "idx_ok s" using assms by (simp add: sched_ready_def core_def)
  have size: "case x of (a, b, s') \<Rightarrow> scheduled s (a, b, s') \<longrightarrow> int (length a) \<le> ?m" if "schedule fq s = Ok x" for x
    using that idx schedule_batch_size [of fq s "fst x" "fst (snd x)" "snd (snd x)"]
    by (cases x) (simp add: scheduled_def idx_ok_def)
  have "outcome (\<lambda>x. scheduled s x \<and> (case x of (a, b, s') \<Rightarrow> scheduled s (a, b, s') \<longrightarrow> int (length a) \<le> ?m))
      (bounded s) (schedule fq s)"
    by (intro outcome_and [OF schedule_scheduled [OF assms]] size)
  then show ?thesis
  proof (rule outcome_mono, clarify)
    fix a b s' assume S: "scheduled s (a, b, s')" and n: "int (length a) \<le> ?m"
    then have "core {} s'" by (simp add: scheduled_def sched_planned_def)
    with S n scheduled_batch [OF S idx]
    show "sum_list (map (\<lambda>r. tokens_this_step (store s' r)) a) \<le> max_num_batched_tokens (sconfig s) \<and>
      int (length a) \<le> ?m \<and> distinct a \<and> set a \<subseteq> live s' \<and>
      (\<forall>r\<in>set a. 1 \<le> tokens_this_step (store s' r) \<and> status (store s' r) = RUNNING) \<and>
      a = od_values (inflight_batches s' ! current_batch_idx s) \<and>
      b = od_values (inflight_batches s' ! current_batch_idx s') \<and>
      current_batch_idx s' = (current_batch_idx s + 1) mod length (inflight_batches s) \<and>
      (\<forall>i<length (inflight_batches s). i \<noteq> current_batch_idx s \<longrightarrow> inflight_batches s' ! i = inflight_batches s ! i) \<and>
      live s' \<union> set (request_queue s') = live s \<union> set (request_queue s) \<and>
      distinct (all_refs s') \<and> distinct (request_queue s') \<and> live s' \<inter> set (request_queue s') = {}"
      by (simp add: scheduled_def core_def cur_def active_requests_def)
  qed
qed

theorem schedule_respects_budget_and_requests_witness:
  "\<exists>s'. schedule no_quot (scheduler_of (ex_submitted 1)) = Ok ([0], [0], s') \<and>
     sum_list (map (\<lambda>r. tokens_this_step (store s' r)) [0]) \<le> 4"
proof -
  have "max_num_batched_tokens (sconfig (scheduler_of (ex_submitted 1))) = 4" by code_simp
  then have "sum_list (map (\<lambda>r. tokens_this_step (store ex_planned r)) [0]) \<le> 4"
    using schedule_respects_budget_and_requests [OF ex_submitted_ready, of no_quot]
    unfolding ex_planned_some outcome_simps prod.case by (elim conjE) (simp only:)
  then show ?thesis using ex_planned_some by blast
qed

text \<open>
  C5. \<open>update\<close> gives every request of the batch exactly its token: a request still in prefill is left
  alone, any other gets the token of its row appended, and ends (blocks returned, reported in the
  result queue) if and only if the token meets a stopping condition; nothing else changes.
\<close>

theorem update_appends_each_token:
  assumes "sched_planned s" "output_fits (gen_cfg s) (cur s) out"
  shows "\<exists>s' finished. update (cur s) out s = Ok s' \<and> sched_ready s' \<and>
    (\<forall>(r, t)\<in>set (zip (cur s) (token_ids out)). token_step (store s r) t (store s' r)) \<and>
    (\<forall>r. r \<notin> set (cur s) \<longrightarrow> store s' r = store s r) \<and>
    live s' = live s - set finished \<and>
    (\<forall>r\<in>set finished. status (store s' r) = FINISHED \<and> block_ids (store s' r) = []) \<and>
    concat (result_queue s') = concat (result_queue s) @ finished"
proof -
  from update_Ok [OF assms] obtain s' f where
    U: "update (cur s) out s = Ok s'" "sched_ready s'"
      "result_queue s' = (if f = [] then result_queue s else result_queue s @ [f])"
      "set f \<inter> live s' = {}" "live s' \<union> set f = live s"
      "\<forall>(r, t)\<in>set (zip (cur s) (token_ids out)). token_step (store s r) t (store s' r)"
      "\<forall>x. x \<notin> set (cur s) \<longrightarrow> store s' x = store s x"
      "\<forall>r\<in>set f. status (store s' r) = FINISHED \<and> block_ids (store s' r) = []"
    by blast
  have "live s' = live s - set f" using U(4,5) by blast
  moreover have "concat (result_queue s') = concat (result_queue s) @ f" using U(3) by simp
  ultimately show ?thesis using U by blast
qed

theorem update_appends_each_token_witness:
  "\<exists>s'. update (cur ex_planned) ex_output ex_planned = Ok s' \<and> token_step (store ex_planned 0) 1 (store s' 0)"
proof -
  have c: "cur ex_planned = [0]" "output_scores (gen_cfg ex_planned 0)" "\<not> output_logits (gen_cfg ex_planned 0)"
    by code_simp+
  then have "output_fits (gen_cfg ex_planned) (cur ex_planned) ex_output"
    by (simp add: output_fits_def ex_output_def)
  from update_appends_each_token [OF ex_planned_planned this] show ?thesis by (auto simp: c(1) ex_output_def)
qed

text \<open>
  C6. Preemption forgets no token: the request re-enters the queue with its prompt and everything it
  has generated as its input, once, however often it is preempted.
\<close>

theorem preempt_keeps_the_sequence:
  assumes "folded_ok r"
  shows "input_ids_list (preempt r) = prompt r @ generated_tokens r \<and>
    input_ids_list (preempt (preempt r)) = input_ids_list (preempt r) \<and>
    prompt (preempt r) = prompt r \<and> generated_tokens (preempt r) = generated_tokens r \<and>
    block_ids (preempt r) = [] \<and> num_computed_tokens (preempt r) = 0 \<and> status (preempt r) = PENDING \<and>
    folded_ok (preempt r)"
  using preempt_input [OF assms] preempt_input [OF preempt_folded [OF assms]] preempt_prompt [OF assms]
    preempt_full_sequence [OF assms] preempt_folded [OF assms]
  by (simp add: full_sequence_def)

theorem preempt_keeps_the_sequence_witness:
  "input_ids_list (preempt ((ex_request ''a'' [1, 2])\<lparr>generated_tokens := [5, 6]\<rparr>)) = [1, 2, 5, 6]"
proof -
  have f: "folded_ok ((ex_request ''a'' [1, 2])\<lparr>generated_tokens := [5, 6]\<rparr>)"
    by (auto simp: folded_ok_def prompt_def ex_request_def make_request_def)
  show ?thesis
    using preempt_keeps_the_sequence [OF f] by (simp add: prompt_def ex_request_def make_request_def)
qed

section \<open>From the schedule to the cache\<close>

lemma scheduled_batch_facts:
  assumes "config_ok lims env sc cc gm"
    and "reachable lims env fq (init_driver sc cc (pp_info_of env) objs gm) d"
    and "schedule fq (scheduler_of d) = Ok (a, b, s)" "a \<noteq> []"
  shows "batch_ok env (max_cache_blocks (kv_config (kvm s))) (max_num_seqs (sconfig s)) (token_cap s) (map (store s) a)"
    and "limits_ok env (max_cache_blocks (kv_config (kvm s))) (token_cap s)" "distinct a"
    and "\<forall>r\<in>set a. \<forall>q\<in>set a. r \<noteq> q \<longrightarrow> set (block_ids (store s r)) \<inter> set (block_ids (store s q)) = {}"
proof -
  have inv: "driver_inv lims env d"
    using reachable_keeps_inv [OF assms(2)] init_driver_inv [OF assms(1)] by blast
  note M = schedule_mid_round [OF inv assms(3)]
  let ?i = "current_batch_idx (scheduler_of d)"
  have C: "core {} s" "env_ok lims env s" using M(2) by (simp_all add: mid_round_def sched_planned_def)
  have "core {} (scheduler_of d)" using inv by (simp add: driver_inv_def Let_def sched_ready_def)
  then have i: "?i < length (inflight_batches s)" "a = od_values (inflight_batches s ! ?i)"
    using M(1) by (simp_all add: core_def idx_ok_def scheduled_def)
  show "batch_ok env (max_cache_blocks (kv_config (kvm s))) (max_num_seqs (sconfig s)) (token_cap s) (map (store s) a)"
    using round_batch(1) [OF M(2) i(1)] i(2) assms(4) by simp
  show "limits_ok env (max_cache_blocks (kv_config (kvm s))) (token_cap s)" using C(2) by (simp add: env_ok_def)
  have al: "set a \<subseteq> live s"
  proof -
    have "od_values (inflight_batches s ! ?i) \<in> set (map od_values (inflight_batches s))"
      using i(1) by (metis length_map nth_map nth_mem)
    then show ?thesis unfolding i(2) all_refs_def set_concat by (rule UN_upper)
  qed
  have "distinct (all_refs s)" using C(1) by (simp add: core_def)
  then show "distinct a" unfolding i(2) all_refs_def using i(1) by (simp add: distinct_concat_iff)
  have lg: "kv.ledger (kvm s) (live s) (\<lambda>r. block_ids (store s r))" using C(1) by (simp add: core_def)
  then show "\<forall>r\<in>set a. \<forall>q\<in>set a. r \<noteq> q \<longrightarrow> set (block_ids (store s r)) \<inter> set (block_ids (store s q)) = {}"
    using al unfolding kv.ledger_def by blast
qed

text \<open>
  C7. What the scheduler plans is what the first rank feeds: in every reachable state the context built
  for a scheduled batch exists; its tokens are, request by request, the tokens of the prompt and the
  output so far at the positions not yet computed; and the cache slots it writes are pairwise
  different and inside the cache, over the whole batch.
\<close>

theorem scheduled_batch_is_fed_faithfully:
  assumes "config_ok lims env sc cc gm"
    and "reachable lims env fq (init_driver sc cc (pp_info_of env) objs gm) d"
    and "schedule fq (scheduler_of d) = Ok (a, b, s)" "a \<noteq> []"
  shows "\<exists>g st. prepare_gen_ctx (page_size_of env) (table_width env) kc vc (map (store s) a) storage = Ok (g, Some st) \<and>
    g_batch_input_ids g = Some (concat (map (\<lambda>r. map (\<lambda>p. full_sequence (store s r) ! nat p) (step_positions (store s r))) a)) \<and>
    g_batch_position_ids g = concat (map (\<lambda>r. step_positions (store s r)) a) \<and>
    length (g_slot_mapping g) = length (g_batch_position_ids g) \<and>
    distinct (g_slot_mapping g) \<and>
    set (g_slot_mapping g) \<subseteq> {0..<max_cache_blocks (kv_config (kvm s)) * page_size_of env}"
proof -
  let ?ps = "page_size_of env" and ?w = "table_width env" and ?blocks = "max_cache_blocks (kv_config (kvm s))"
  note bo = scheduled_batch_facts(1) [OF assms] and da = scheduled_batch_facts(3) [OF assms] and dis = scheduled_batch_facts(4) [OF assms]
  have lims: "0 < ?ps" "?blocks * ?ps < 2 ^ 31" "token_cap s < 2 ^ 31"
    using scheduled_batch_facts(2) [OF assms] by (simp_all add: limits_ok_def)
  obtain st where g: "prepare_gen_ctx ?ps ?w kc vc (map (store s) a) storage = Ok (context_for ?ps ?w (map (store s) a), Some st)"
    using prepare_gen_ctx_Ok [of ?ps "map (store s) a" ?blocks ?w kc vc storage] bo lims by (auto simp: batch_ok_def)
  have cov: "\<forall>r\<in>set a. covered ?ps ?blocks (store s r)" using bo by (simp add: batch_ok_def)
  let ?slots = "concat (map (step_slots ?ps \<circ> store s) a)"
  have ds: "distinct ?slots"
    by (rule batch_slots_distinct [OF lims(1) cov da dis])
  have sub: "set ?slots \<subseteq> {0..<?blocks * ?ps}"
  proof
    fix x assume "x \<in> set ?slots"
    then obtain r p where r: "r \<in> set a" "p \<in> set (step_positions (store s r))" "x = slot_at ?ps (store s r) p"
      by (auto simp: step_slots_def)
    then have "covered ?ps ?blocks (store s r)" using cov by blast
    from slot_at_range(1,2) [OF this lims(1) r(2)] show "x \<in> {0..<?blocks * ?ps}" using r(3) by simp
  qed
  have len: "length ?slots = length (concat (map (\<lambda>r. step_positions (store s r)) a))"
    by (simp add: length_concat step_slots_def comp_def)
  show ?thesis
    by (rule exI [of _ "context_for ?ps ?w (map (store s) a)"], rule exI [of _ st])
      (use g ds sub len in \<open>simp add: context_for_def step_tokens_of_def comp_def\<close>)
qed

theorem scheduled_batch_is_fed_faithfully_witness:
  "\<exists>g st. prepare_gen_ctx 2 4 () () [store ex_planned 0] None = Ok (g, Some st) \<and>
     g_batch_input_ids g = Some [1, 2, 3] \<and> distinct (g_slot_mapping g)"
proof -
  have "map (\<lambda>p. full_sequence (store ex_planned 0) ! nat p) (step_positions (store ex_planned 0)) = [1, 2, 3]"
    by code_simp
  then show ?thesis
    using scheduled_batch_is_fed_faithfully [OF ex_config_ok [of 1] ex_reachable_submitted [of 1, unfolded ex_start_init]
        ex_planned_some, of "()" "()" None] by (auto simp: ex_env_def)
qed

text \<open>
  C8. Storing keys is deterministic: when the slots of a launch are pairwise different (or \<open>-1\<close>), every
  order of the kernel's programs leaves the same memory; program \<open>i\<close> has written row \<open>i\<close> to its slot,
  a row with slot \<open>-1\<close> nowhere, and nothing else has changed.
\<close>

theorem store_kernel_order_irrelevant:
  assumes "slots_distinct slots (set ord)" "distinct ord" "D \<le> pow2 D"
  shows "let mem' = fold (store_cache_kernel src stride slots D (pow2 D)) ord mem in
    (\<forall>ord'. distinct ord' \<longrightarrow> set ord' = set ord \<longrightarrow>
       fold (store_cache_kernel src stride slots D (pow2 D)) ord' mem = mem') \<and>
    (\<forall>i\<in>set ord. \<forall>k<D. slots ! i \<noteq> -1 \<longrightarrow> mem' (slots ! i * int D + int k) = src (int i * stride + int k)) \<and>
    (\<forall>a. (\<forall>i\<in>set ord. \<not> in_slot (slots ! i) D a) \<longrightarrow> mem' a = mem a)"
proof -
  let ?m = "fold (store_cache_kernel src stride slots D (pow2 D)) ord mem"
  have "fold (store_cache_kernel src stride slots D (pow2 D)) ord' mem = ?m"
    if "distinct ord'" "set ord' = set ord" for ord'
    by (rule fold_store_order_irrelevant [OF assms(3,2) that assms(1), symmetric])
  moreover have "?m (slots ! i * int D + int k) = src (int i * stride + int k)"
    if "i \<in> set ord" "k < D" "slots ! i \<noteq> -1" for i k
    using fold_store_written [OF assms(3,2,1) that(1), of "slots ! i * int D + int k" src stride mem] that
    by (simp add: in_slot_def)
  moreover have "?m a = mem a" if "\<forall>i\<in>set ord. \<not> in_slot (slots ! i) D a" for a
    using fold_store_untouched [OF assms(3), of ord slots a src stride mem] that by blast
  ultimately show ?thesis by (simp add: Let_def)
qed

theorem store_kernel_order_irrelevant_witness:
  "fold (store_cache_kernel (\<lambda>a. a + 10) 2 [3, -1, 1] 2 2) [2, 0, 1] (\<lambda>_. 0) =
     fold (store_cache_kernel (\<lambda>a. a + 10) 2 [3, -1, 1] 2 2) [0, 1, 2] (\<lambda>_. 0 :: int)"
proof -
  have "slots_distinct [3, -1, 1] (set [0, 1, 2])" by (simp add: slots_distinct_def)
  from store_kernel_order_irrelevant [OF this, of 2 "\<lambda>n. n" "\<lambda>a. a + 10" 2 "\<lambda>_. 0"]
  have "\<forall>ord'. distinct ord' \<longrightarrow> set ord' = set [0, 1, 2] \<longrightarrow>
      fold (store_cache_kernel (\<lambda>a. a + 10) 2 [3, -1, 1] 2 2) ord' (\<lambda>_. 0) =
      fold (store_cache_kernel (\<lambda>a. a + 10) 2 [3, -1, 1] 2 2) [0, 1, 2] (\<lambda>_. 0 :: int)"
    by (simp add: Let_def)
  then show ?thesis by (auto dest!: spec [of _ "[2, 0, 1]"])
qed

text \<open>
  C9. The block pool: an allocation that succeeds returns exactly the missing blocks, new ones, and the
  smallest free ones; it fails only when too few are free and then changes nothing; releasing blocks
  makes exactly the allocated ones among them free; the pool stays a partition of its range.
\<close>

theorem block_pool_contract:
  assumes "kv_inv m"
  shows "(case allocate_blocks m wanted held of
      (Some bs, m') \<Rightarrow>
        int (length bs) = max 0 (num_blocks_needed m wanted - held) \<and> distinct bs \<and>
        set bs \<subseteq> free_blocks_set m \<and> free_blocks_set m' = free_blocks_set m - set bs \<and>
        allocated_blocks m' = allocated_blocks m \<union> set bs \<and> kv_inv m' \<and>
        (\<forall>b\<in>set bs. \<forall>c\<in>free_blocks_set m'. b < c)
    | (None, m') \<Rightarrow> m' = m \<and> num_free_blocks m < num_blocks_needed m wanted - held) \<and>
    kv_inv (free_blocks m ids) \<and> allocated_blocks (free_blocks m ids) = allocated_blocks m - set ids \<and>
      free_blocks_set (free_blocks m ids) = free_blocks_set m \<union> (set ids \<inter> allocated_blocks m)"
proof -
  obtain r m' where al: "allocate_blocks m wanted held = (r, m')" by force
  have "case r of
      Some bs \<Rightarrow>
        int (length bs) = max 0 (num_blocks_needed m wanted - held) \<and> distinct bs \<and>
        set bs \<subseteq> free_blocks_set m \<and> free_blocks_set m' = free_blocks_set m - set bs \<and>
        allocated_blocks m' = allocated_blocks m \<union> set bs \<and> kv_inv m' \<and>
        (\<forall>b\<in>set bs. \<forall>c\<in>free_blocks_set m'. b < c)
    | None \<Rightarrow> m' = m \<and> num_free_blocks m < num_blocks_needed m wanted - held"
  proof (cases r)
    case None
    then show ?thesis using allocate_blocks_None [of m wanted held m'] al by auto
  next
    case (Some bs)
    then have "allocate_blocks m wanted held = (Some bs, m')" using al by simp
    from allocate_blocks_Some [OF assms this] allocate_blocks_smallest [OF assms this]
    show ?thesis using Some by simp
  qed
  then show ?thesis using free_blocks_spec [OF assms, of ids] al by (cases r) simp_all
qed

theorem block_pool_contract_witness:
  "fst (allocate_blocks (kv_init ex_cache_config) 5 1) = Some [0, 1] \<and>
   kv_inv (snd (allocate_blocks (kv_init ex_cache_config) 5 1))"
proof -
  have i: "kv_inv (kv_init ex_cache_config)" by (simp add: kv_inv_init ex_cache_config_def)
  have a: "fst (allocate_blocks (kv_init ex_cache_config) 5 1) = Some [0, 1]" by code_simp
  then show ?thesis
    using block_pool_contract [OF i, of 5 1 "[]"] by (cases "allocate_blocks (kv_init ex_cache_config) 5 1") simp
qed

section \<open>Captured graphs\<close>

text \<open>
  C10. A replay computes on the batch: with a manager that has captured its descriptors, a forward of a
  well-formed context within the configured limits finds a descriptor, and the model runs on the real
  tokens, positions, slots and tables first, followed by padding that writes no slot (\<open>-1\<close>) and belongs
  to empty requests; the manager stays ready for the next batch.
\<close>

theorem replay_runs_the_padded_batch:
  assumes "mgr_ready h m" "context_ok h g"
    and "input_size g = Ok (length (g_batch_position_ids g))"
    and "length (g_context_lens g) \<le> buf_max_num_seqs (input_buffers m)"
    and "length (g_context_lens g) \<le> length (g_batch_position_ids g)"
    and "length (g_batch_position_ids g) \<le> buf_max_num_batched_tokens (input_buffers m)"
  shows "\<exists>(d :: descriptor) inputs m' st. forward fwd z kc vc last_only g (Some m, storage) = Ok (fwd inputs, Some m', Some st) \<and>
    mgr_ready h m' \<and>
    num_seqs d \<ge> length (g_context_lens g) \<and> num_tokens d \<ge> length (g_batch_position_ids g) \<and>
    fi_position_ids inputs = g_batch_position_ids g @ replicate (num_tokens d - length (g_batch_position_ids g)) 0 \<and>
    fi_slot_mapping inputs = g_slot_mapping g @ replicate (num_tokens d - length (g_batch_position_ids g)) (-1) \<and>
    fi_context_lens inputs = g_context_lens g @ replicate (num_seqs d - length (g_context_lens g)) 0 \<and>
    fi_query_start_loc inputs = g_query_start_loc g @
      replicate (num_seqs d - length (g_context_lens g)) (int (length (g_batch_position_ids g))) \<and>
    take (length (g_block_tables g)) (fi_block_tables inputs) = g_block_tables g \<and>
    (\<forall>ids. g_batch_input_ids g = Some ids \<longrightarrow>
       fi_input_ids inputs = Some (ids @ replicate (num_tokens d - length (g_batch_position_ids g)) 0)) \<and>
    (\<forall>rows. g_intermediate_tensors g = Some rows \<longrightarrow>
       map_option (take (length rows)) (fi_intermediate_tensors inputs) = Some rows)"
proof -
  obtain d m' st where F: "forward fwd z kc vc last_only g (Some m, storage) =
      Ok (fwd (padded_inputs z h (max_blocks_per_req (input_buffers m)) (last_tokens_only m) g d), Some m', Some st)"
    "mgr_ready h m'" "length (g_context_lens g) \<le> num_seqs d" "length (g_batch_position_ids g) \<le> num_tokens d"
    using forward_ready [OF assms, of fwd z kc vc last_only storage] by blast
  show ?thesis
    by (rule exI [of _ d], rule exI [of _ "padded_inputs z h (max_blocks_per_req (input_buffers m)) (last_tokens_only m) g d"],
        rule exI [of _ m'], rule exI [of _ st]) (use F in \<open>simp add: padded_inputs_def Let_def\<close>)
qed

definition ex_context :: "int generation_context" where
  "ex_context =
     \<lparr>g_batch_input_ids = Some [7, 8, 9], g_intermediate_tensors = None, g_query_start_loc = [0, 2, 3],
      g_batch_position_ids = [0, 1, 4], g_block_tables = [[0, -1], [2, 1]], g_context_lens = [0, 4],
      g_slot_mapping = [0, 1, 4], g_max_seqlen_q = 2, g_generation_configs = [], g_tokens_generated = [0, 3]\<rparr>"

theorem replay_runs_the_padded_batch_witness:
  "\<exists>m inputs m' st. forward id 0 () () False ex_context (Some m, None) = Ok (inputs, Some m', Some st) \<and>
     take 3 (fi_slot_mapping inputs) = [0, 1, 4] \<and> (\<forall>x\<in>set (drop 3 (fi_slot_mapping inputs)). x = -1)"
proof -
  let ?b = "make_buffers 0 (0 :: int) 2 4 2 1"
  obtain m where m: "make_graph_mgr 4 False ?b = Ok m" "capture_sizes m = [1, 2, 4]"
    by (simp add: make_graph_mgr_def build_capture_sizes_def capture_loop.simps)
  have b: "buffers_ok 1 ?b" "0 < buf_max_num_seqs ?b" "buf_max_num_batched_tokens ?b = nat 4"
    by (rule make_buffers_ok, simp_all add: make_buffers_def)
  have "last (capture_sizes m) \<le> nat 4" using m(2) by simp
  then obtain m' st' where r: "capture_graphs 0 () () (m, None :: unit kv_context option) = Ok (m', st')" "mgr_ready 1 m'"
    "buf_max_num_seqs (input_buffers m') = 2" "buf_max_num_batched_tokens (input_buffers m') = 4"
    using capture_graphs_ready [OF m(1) b] capture_graphs_power [OF m(1) b, of 0 "()" "()" None]
    by (fastforce simp: make_buffers_def)
  have c: "context_ok 1 ex_context" "input_size ex_context = Ok (length (g_batch_position_ids ex_context))"
    by (simp_all add: context_ok_def ex_context_def input_size_def)
  from replay_runs_the_padded_batch [OF r(2) c, of id 0 "()" "()" False None] r(3,4)
  show ?thesis by (fastforce simp: ex_context_def)
qed

section \<open>Generation and training\<close>

lemma scheduled_batch_fits:
  assumes "config_ok lims env sc cc gm"
    and "reachable lims env fq (init_driver sc cc (pp_info_of env) objs gm) d"
    and "schedule fq (scheduler_of d) = Ok (a, b, s)" "a \<noteq> []"
  shows "batch_fits (nat (page_size_of env)) (max_cache_blocks (kv_config (kvm s))) (table_width env) (map (store s) a)" "0 < page_size_of env"
proof -
  note F = scheduled_batch_facts [OF assms]
  show ps: "0 < page_size_of env" using F(2) by (simp add: limits_ok_def)
  have dis: "set (block_ids (store s (a ! i))) \<inter> set (block_ids (store s (a ! j))) = {}"
    if "i < length a" "j < length a" "i \<noteq> j" for i j
    using F(3,4) that nth_eq_iff_index_eq [OF F(3)] nth_mem by blast
  show "batch_fits (nat (page_size_of env)) (max_cache_blocks (kv_config (kvm s))) (table_width env) (map (store s) a)"
    using F(1,2) ps dis by (auto simp: batch_fits_def batch_ok_def limits_ok_def)
qed

text \<open>
  C40. What generation attends to is what training attends to. Take any batch the scheduler plans in a
  reachable state, and a request of it whose sequence has the query, key and value rows \<open>Q\<close>, \<open>K\<close>, \<open>V\<close>: its
  earlier keys and values are in the cache, the new rows come with the call, in whatever chunk the
  scheduler chose and beside whatever other requests. Then the module's attention leaves all of the
  sequence's keys and values in the request's blocks, so that the next step finds them; and every new
  position gets bit for bit the output that the trainer computes for it in any packed batch that contains
  the sequence from its start, in any order of the kernels' programs, where the scores are of ordinary size.
\<close>

theorem generation_attends_like_training:
  assumes "config_ok lims env sc cc gm"
    and "reachable lims env fq (init_driver sc cc (pp_info_of env) objs gm) d"
    and "schedule fq (scheduler_of d) = Ok (a, b, s)" "i < length a"
    and "prepare_gen_ctx (page_size_of env) (table_width env) kcs vcs (map (store s) a) old = Ok (g, ctx)"
    and "row_independent (at_gemm ops) mma" "attn_laws ops mma (at_mul ops scale (at_log2e ops)) ok fin"
    and "\<forall>n t h. set (schedule1 n t h) = {..<n} \<times> {..<t} \<times> {..<h}" "\<forall>n t h. set (schedule2 n t h) = {..<n} \<times> {..<t} \<times> {..<h}"
    and "hk dvd hq" "0 < hk" "heads_ok hq hk dk dv query key val" "layer_index md kw = Ok layer"
    and "caches_ok layer (nat (page_size_of env)) hk dk dv kcs vcs"
    and "heads_ok hq hk dk dv tquery tkey tval" "packed_with tkw cu longest"
    and "flash_attention_forward (flash_attn_varlen_func ops inv_sqrt schedule1 fresh fresh_lse) dev ctx
        md query (Some key) (Some val) (Some (PyNumber scale)) nd kw = Ok ((shp, out), ctx')"
    and "flash_attention_forward (flash_attn_varlen_func ops inv_sqrt schedule2 fresh' fresh_lse') dev' None
        tmd tquery (Some tkey) (Some tval) (Some (PyNumber scale)) nd' tkw = Ok ((shp', out'), tctx)"
    and "continues (nat (page_size_of env)) (map (store s) a) i (kcs ! layer) (vcs ! layer) query key val Q K V"
    and "Suc j < length cu" "trains cu j tquery tkey tval Q K V"
    and "new_len (store s (a ! i)) \<le> cu ! Suc j - cu ! j" "cu ! Suc j - cu ! j \<le> longest"
  shows "(\<exists>kcs' vcs'. ctx' = Some (batch_context (nat (page_size_of env)) (table_width env) kcs' vcs' (map (store s) a)) \<and>
      holds (nat (page_size_of env)) (kcs' ! layer) (store s (a ! i)) (new_len (store s (a ! i))) K \<and>
      holds (nat (page_size_of env)) (vcs' ! layer) (store s (a ! i)) (new_len (store s (a ! i))) V) \<and>
    (\<forall>p head x. old_len (store s (a ! i)) \<le> p \<longrightarrow> p < new_len (store s (a ! i)) \<longrightarrow> head < hq \<longrightarrow> x < dv \<longrightarrow>
      ordinary_rows ops mma (module_shape hq hk dk dv) scale ok fin Q K V (cu ! Suc j - cu ! j) head p \<longrightarrow>
      out (out_addr (module_shape hq hk dk dv) (first_row (map (store s) a) i + (p - old_len (store s (a ! i)))) head x) =
      out' (out_addr (module_shape hq hk dk dv) (cu ! j + p) head x))"
proof -
  have "a \<noteq> []" using assms(4) by auto
  note B = scheduled_batch_fits [OF assms(1-3) this]
  have i: "i < length (map (store s) a)" "map (store s) a ! i = store s (a ! i)" using assms(4) by simp_all
  have ctx: "ctx = Some (batch_context (nat (page_size_of env)) (table_width env) kcs vcs (map (store s) a))"
    using assms(5) B(2) by (intro prepared_context [OF B(1), of kcs vcs old g]) simp
  note G = generation_matches [OF assms(6-9) B(1) assms(10-12,14,13,15,16) assms(17) [unfolded ctx] assms(18) i(1) assms(19-21)
    assms(22) [folded i(2)] assms(23), unfolded i(2)]
  show ?thesis using G by blast
qed

text \<open>Three tokens of a prompt in one step, and the same three as the second sequence of a packed batch.\<close>

definition ex_tokens :: "nat \<Rightarrow> (nat \<Rightarrow> int) \<Rightarrow> int float_arg" where
  "ex_tokens n f = floats [1, 1, n, 1] (\<lambda>ix. f (ix ! 2))"

definition ex_cache :: "int float_arg" where
  "ex_cache = floats [4, 2, 1, 1] (\<lambda>_. 0)"

definition ex_keywords :: call_keywords where
  "ex_keywords = \<lparr>kw_numbers = (\<lambda>k. if k = ''max_seqlen'' then Some (Some (PyNumber 5)) else None),
     kw_tensors = (\<lambda>k. if k = ''cu_seqlens'' then Some (Some (vector [0, 2, 5])) else None), kw_causal = None\<rparr>"

definition ex_module :: attn_module where
  "ex_module = \<lparr>am_layer_idx = Some 0, am_is_causal = None\<rparr>"

abbreviation ex_attend :: "(int, int) attn_args \<Rightarrow> int memory res" where
  "ex_attend \<equiv> flash_attn_varlen_func int_attn (\<lambda>_. 1) ex_schedule (\<lambda>_. 0) (\<lambda>_. 0)"

lemma ex_batch: "step_len (store ex_planned 0) = 3" "old_len (store ex_planned 0) = 0" "new_len (store ex_planned 0) = 3"
  "batch_slots 2 [store ex_planned 0] = [0, 1, 2]" "block_ids (store ex_planned 0) = [0, 1]" "num_computed_tokens (store ex_planned 0) = 3"
  "tokens_this_step (store ex_planned 0) = 3"
  by code_simp+

lemma ex_context: "batch_context 2 4 kcs vcs [store ex_planned 0] = \<lparr>is_paged_attn = True, key_cache = Some kcs, value_cache = Some vcs,
    block_tables = Some [[0, 1, -1, -1]], slot_mapping = Some [0, 1, 2], context_lens = Some [3], query_start_loc = Some [0, 3], max_seqlen_q = Some 3\<rparr>"
  by (simp add: batch_context_def ex_batch) (simp add: numeral_2_eq_2)

lemma ex_generates: "\<exists>shp out ctx. flash_attention_forward ex_attend 0 (Some (batch_context 2 4 [ex_cache] [ex_cache] [store ex_planned 0]))
    ex_module (ex_tokens 3 (\<lambda>n. int n + 1)) (Some (ex_tokens 3 (\<lambda>n. int n + 1))) (Some (ex_tokens 3 (\<lambda>n. 10 * int n + 5)))
    (Some (PyNumber 1)) True ex_keywords = Ok ((shp, out), ctx)"
  unfolding ex_context
  by (simp add: flash_attention_forward_def transpose12_def ex_tokens_def floats_def Let_def opt_res_def layer_index_def ex_keywords_def ex_module_def
      get_kv_cache_context_def attend_paged_def reshape_rows_def store_rows_def store_kvcache_def store_single_cache_def rows_of_def ex_cache_def with_mem_def
      flash_attn_varlen_func_def module_args_def check_common_args_def needed_def paged_forward_def ctx_vector_def ctx_table_def
      require_cuda_def require_cuda_int32_def check_def check_divides_def block_d_of_def next_power_of_2_def numeral_2_eq_2)

lemma ex_trains: "\<exists>shp out. flash_attention_forward ex_attend 0 None
    ex_module (ex_tokens 5 (\<lambda>n. int n - 1)) (Some (ex_tokens 5 (\<lambda>n. int n - 1))) (Some (ex_tokens 5 (\<lambda>n. 10 * int n - 15)))
    (Some (PyNumber 1)) True ex_keywords = Ok ((shp, out), None)"
  by (simp add: flash_attention_forward_def transpose12_def ex_tokens_def floats_def Let_def opt_res_def layer_index_def ex_keywords_def ex_module_def
      get_kv_cache_context_def attend_unpaged_def reshape_rows_def vector_def cu_keys_def max_keys_def
      flash_attn_varlen_func_def module_args_def check_common_args_def needed_def nonpaged_forward_def
      require_cuda_def require_cuda_int32_def check_def check_divides_def block_d_of_def next_power_of_2_def numeral_2_eq_2)

abbreviation ex_q :: "nat \<Rightarrow> nat \<Rightarrow> nat \<Rightarrow> int" where
  "ex_q \<equiv> \<lambda>p h d. int p + 1"

abbreviation ex_v :: "nat \<Rightarrow> nat \<Rightarrow> nat \<Rightarrow> int" where
  "ex_v \<equiv> \<lambda>p h d. 10 * int p + 5"

lemma ex_sequences:
  "continues 2 [store ex_planned 0] 0 ex_cache ex_cache (ex_tokens 3 (\<lambda>n. int n + 1)) (ex_tokens 3 (\<lambda>n. int n + 1)) (ex_tokens 3 (\<lambda>n. 10 * int n + 5)) ex_q ex_q ex_v"
  "trains [0, 2, 5] 1 (ex_tokens 5 (\<lambda>n. int n - 1)) (ex_tokens 5 (\<lambda>n. int n - 1)) (ex_tokens 5 (\<lambda>n. 10 * int n - 15)) ex_q ex_q ex_v"
  by (simp_all add: continues_def trains_def Let_def brings_def holds_def ex_batch first_row_def token_row_def ex_tokens_def floats_def)

lemma ex_ordinary: "ordinary_rows int_attn int_mma (module_shape 1 1 1 1) 1 small (\<lambda>_. True) ex_q ex_q ex_v 3 0 2"
  by (auto simp: ordinary_rows_def Let_def int_attn_simps pad_row_def module_shape_def next_power_of_2_def int_mma_def)

theorem generation_attends_like_training_witness:
  "\<exists>shp out ctx shp' out'. flash_attention_forward ex_attend 0 (Some (batch_context 2 4 [ex_cache] [ex_cache] [store ex_planned 0]))
      ex_module (ex_tokens 3 (\<lambda>n. int n + 1)) (Some (ex_tokens 3 (\<lambda>n. int n + 1))) (Some (ex_tokens 3 (\<lambda>n. 10 * int n + 5)))
      (Some (PyNumber 1)) True ex_keywords = Ok ((shp, out), ctx) \<and>
    flash_attention_forward ex_attend 0 None
      ex_module (ex_tokens 5 (\<lambda>n. int n - 1)) (Some (ex_tokens 5 (\<lambda>n. int n - 1))) (Some (ex_tokens 5 (\<lambda>n. 10 * int n - 15)))
      (Some (PyNumber 1)) True ex_keywords = Ok ((shp', out'), None) \<and> out 2 = out' 4"
proof -
  obtain shp out ctx where gen: "flash_attention_forward ex_attend 0 (Some (batch_context 2 4 [ex_cache] [ex_cache] [store ex_planned 0]))
      ex_module (ex_tokens 3 (\<lambda>n. int n + 1)) (Some (ex_tokens 3 (\<lambda>n. int n + 1))) (Some (ex_tokens 3 (\<lambda>n. 10 * int n + 5)))
      (Some (PyNumber 1)) True ex_keywords = Ok ((shp, out), ctx)" using ex_generates by blast
  obtain shp' out' where train: "flash_attention_forward ex_attend 0 None
      ex_module (ex_tokens 5 (\<lambda>n. int n - 1)) (Some (ex_tokens 5 (\<lambda>n. int n - 1))) (Some (ex_tokens 5 (\<lambda>n. 10 * int n - 15)))
      (Some (PyNumber 1)) True ex_keywords = Ok ((shp', out'), None)" using ex_trains by blast
  note reach = ex_config_ok [of 1] ex_reachable_submitted [of 1, unfolded ex_start_init]
  have env: "page_size_of (ex_env 1) = 2" "table_width (ex_env 1) = 4" by (simp_all add: ex_env_def)
  have fits: "batch_fits 2 (max_cache_blocks (kv_config (kvm ex_planned))) 4 [store ex_planned 0]"
    using scheduled_batch_fits(1) [OF reach ex_planned_some] by (simp add: env)
  obtain g st where "prepare_gen_ctx 2 4 [ex_cache] [ex_cache] [store ex_planned 0] None = Ok (g, Some st)"
    using prepare_gen_ctx_Ok [of 2 "[store ex_planned 0]" "max_cache_blocks (kv_config (kvm ex_planned))" 4 "[ex_cache]" "[ex_cache]" None]
      batch_fitsD [OF fits] by auto
  then have prep: "prepare_gen_ctx (page_size_of (ex_env 1)) (table_width (ex_env 1)) [ex_cache] [ex_cache] (map (store ex_planned) [0]) None =
      Ok (g, Some (batch_context 2 4 [ex_cache] [ex_cache] [store ex_planned 0]))"
    using prepared_context [OF fits, of "[ex_cache]" "[ex_cache]" None g "Some st"] by (simp add: env)
  have laws: "attn_laws int_attn int_mma (at_mul int_attn 1 (at_log2e int_attn)) small (\<lambda>_. True)"
    using int_attn_laws by (simp add: int_attn_simps)
  have rows: "row_independent (at_gemm int_attn) int_mma" using int_row_independent by (simp add: int_attn_simps)
  have shapes: "heads_ok 1 1 1 1 (ex_tokens n f) (ex_tokens n f) (ex_tokens n f')" for n f f' by (simp add: heads_ok_def ex_tokens_def floats_def)
  have layer: "layer_index ex_module ex_keywords = Ok 0" by (simp add: layer_index_def ex_module_def ex_keywords_def)
  have caches: "caches_ok 0 (nat (page_size_of (ex_env 1))) 1 1 1 [ex_cache] [ex_cache]" by (simp add: caches_ok_def ex_cache_def floats_def env)
  have packed: "packed_with ex_keywords [0, 2, 5] 5"
    by (simp add: packed_with_def ex_keywords_def cu_keys_def max_keys_def vector_def)
  have seqs: "continues (nat (page_size_of (ex_env 1))) (map (store ex_planned) [0]) 0 ([ex_cache] ! 0) ([ex_cache] ! 0)
      (ex_tokens 3 (\<lambda>n. int n + 1)) (ex_tokens 3 (\<lambda>n. int n + 1)) (ex_tokens 3 (\<lambda>n. 10 * int n + 5)) ex_q ex_q ex_v"
    using ex_sequences(1) by (simp add: env)
  have len: "new_len (store ex_planned ([0] ! 0)) \<le> [0, 2, 5] ! Suc 1 - [0, 2, 5] ! 1" "[0, 2, 5] ! Suc 1 - [0, 2, 5] ! 1 \<le> (5 :: nat)"
    by (simp_all add: ex_batch)
  note G = generation_attends_like_training [OF reach ex_planned_some _ prep rows laws ex_schedule_ok ex_schedule_ok _ _ shapes layer caches shapes packed
      gen train seqs _ ex_sequences(2) len, THEN conjunct2]
  have "out (out_addr (module_shape 1 1 1 1) (first_row (map (store ex_planned) [0]) 0 + (2 - old_len (store ex_planned ([0] ! 0)))) 0 0) =
      out' (out_addr (module_shape 1 1 1 1) ([0, 2, 5] ! 1 + 2) 0 0)"
    by (rule G [THEN spec, THEN spec, THEN spec, THEN mp, THEN mp, THEN mp, THEN mp, THEN mp]) (use ex_ordinary in \<open>simp_all add: ex_batch\<close>)
  then have "out 2 = out' 4" by (simp add: out_addr_def first_row_def ex_batch)
  with gen train show ?thesis by blast
qed

end
